(* ===== verification/Prelude.thy ===== *)
theory Prelude
  imports Main "HOL-Library.Word"
begin

unbundle bit_operations_syntax

text \<open>
  Shared vocabulary of the MyOS kernel development: the machine integer types, the
  address-space constants of \<^verbatim>\<open>kernel/mm/layout.h\<close>, the alignment macros of
  \<^verbatim>\<open>kernel/lib/common.h\<close>, bit-flag tests, the error codes of \<^verbatim>\<open>include/myos/abi.h\<close>
  and the generic lemmas on words, alignment and lists that the component theories use.
\<close>

section \<open>Lemma collections\<close>

named_theorems align_simps \<open>alignment macros read as arithmetic on natural numbers\<close>
named_theorems flag_simps \<open>bit-flag tests after setting and clearing flags\<close>

section \<open>Machine integers and constants\<close>

type_synonym u8 = "8 word"
type_synonym u16 = "16 word"
type_synonym u32 = "32 word"
type_synonym u64 = "64 word"

abbreviation PAGE_SIZE :: u64 where "PAGE_SIZE \<equiv> 4096"
abbreviation PAGE_SHIFT :: nat where "PAGE_SHIFT \<equiv> 12"
abbreviation HHDM_BASE :: u64 where "HHDM_BASE \<equiv> 0xFFFF800000000000"
abbreviation KERNEL_VMA :: u64 where "KERNEL_VMA \<equiv> 0xFFFFFFFF80000000"
abbreviation VMALLOC_START :: u64 where "VMALLOC_START \<equiv> 0xFFFFC00000000000"
abbreviation VMALLOC_END :: u64 where "VMALLOC_END \<equiv> 0xFFFFE00000000000"
abbreviation USER_SPACE_START :: u64 where "USER_SPACE_START \<equiv> 0x400000"
abbreviation USER_SPACE_END :: u64 where "USER_SPACE_END \<equiv> 0x7FFFFFFFF000"
abbreviation USER_STACK_TOP :: u64 where "USER_STACK_TOP \<equiv> USER_SPACE_END"
abbreviation USER_STACK_MAX :: u64 where "USER_STACK_MAX \<equiv> 0x800000"

definition phys_to_virt :: "u64 \<Rightarrow> u64" where
  "phys_to_virt phys = phys + HHDM_BASE"

definition virt_to_phys :: "u64 \<Rightarrow> u64" where
  "virt_to_phys v = (if v \<ge> KERNEL_VMA then v - KERNEL_VMA else v - HHDM_BASE)"

definition is_user_address :: "u64 \<Rightarrow> bool" where
  "is_user_address v \<longleftrightarrow> v < USER_SPACE_END"

section \<open>Alignment macros\<close>

definition align_down :: "u64 \<Rightarrow> u64 \<Rightarrow> u64" where
  "align_down x al = x AND NOT (al - 1)"

definition align_up :: "u64 \<Rightarrow> u64 \<Rightarrow> u64" where
  "align_up x al = align_down (x + al - 1) al"

definition is_aligned :: "u64 \<Rightarrow> u64 \<Rightarrow> bool" where
  "is_aligned x al \<longleftrightarrow> x AND (al - 1) = 0"

lemma and_not_mask_eq: "x AND NOT (mask k) = x - take_bit k (x :: 'a::len word)"
proof -
  have "x AND NOT (mask k) = push_bit k (drop_bit k x)"
    by (rule bit_word_eqI) (auto simp: bit_simps)
  then show ?thesis
    by (metis add_diff_cancel_right' bits_ident)
qed

lemma unat_align_down_pow2:
  fixes x :: u64
  assumes "k < 64"
  shows "unat (align_down x (2 ^ k)) = unat x div 2 ^ k * 2 ^ k"
proof -
  have m: "(2::u64) ^ k - 1 = mask k"
    by (simp add: mask_eq_exp_minus_1)
  have "unat (take_bit k x) = take_bit k (unat x)"
    by (simp add: unsigned_take_bit_eq)
  then have t: "unat (take_bit k x) = unat x mod 2 ^ k"
    by (simp add: take_bit_eq_mod)
  have le: "take_bit k x \<le> x"
    by (simp add: word_le_nat_alt t)
  have "unat (align_down x (2 ^ k)) = unat x - unat x mod 2 ^ k"
    by (simp add: align_down_def m and_not_mask_eq unat_sub[OF le] t)
  then show ?thesis
    by (metis minus_mod_eq_div_mult)
qed

lemma is_aligned_pow2:
  fixes x :: u64
  assumes "k < 64"
  shows "is_aligned x (2 ^ k) \<longleftrightarrow> 2 ^ k dvd unat x"
proof -
  have m: "(2::u64) ^ k - 1 = mask k"
    by (simp add: mask_eq_exp_minus_1)
  have "x AND mask k = take_bit k x"
    by (simp add: take_bit_eq_mask)
  moreover have "take_bit k x = 0 \<longleftrightarrow> unat (take_bit k x) = 0"
    by (simp add: unat_eq_0)
  moreover have "unat (take_bit k x) = unat x mod 2 ^ k"
    by (simp only: unsigned_take_bit_eq flip: take_bit_eq_mod)
  ultimately show ?thesis
    by (simp add: is_aligned_def m dvd_eq_mod_eq_0)
qed

lemma unat_align_down_page [align_simps]:
  "unat (align_down x PAGE_SIZE) = unat x div 4096 * 4096"
  using unat_align_down_pow2[of 12 x] by simp

lemma is_aligned_page [align_simps]: "is_aligned x PAGE_SIZE \<longleftrightarrow> 4096 dvd unat x"
  using is_aligned_pow2[of 12 x] by simp

lemma unat_align_up_page [align_simps]:
  "unat (align_up x PAGE_SIZE) = (unat x + 4095) mod 2 ^ 64 div 4096 * 4096"
proof -
  have "unat (x + PAGE_SIZE - 1) = (unat x + 4095) mod 2 ^ 64"
  proof -
    have "x + PAGE_SIZE - 1 = x + 4095" by simp
    then show ?thesis by (simp only: unat_word_ariths) simp
  qed
  then show ?thesis
    by (simp add: align_up_def unat_align_down_page)
qed

lemma unat_align_up_page_no_wrap:
  assumes "unat x + 4095 < 2 ^ 64"
  shows "unat (align_up x PAGE_SIZE) = (unat x + 4095) div 4096 * 4096"
  using assms by (simp add: unat_align_up_page)

lemma align_down_le: "align_down x PAGE_SIZE \<le> x"
  by (simp add: word_le_nat_alt unat_align_down_page)

lemma align_down_aligned: "is_aligned (align_down x PAGE_SIZE) PAGE_SIZE"
  by (simp add: is_aligned_page unat_align_down_page)

lemma align_up_aligned: "is_aligned (align_up x PAGE_SIZE) PAGE_SIZE"
  by (simp add: is_aligned_page unat_align_up_page)

section \<open>Bit flags\<close>

definition has_flag :: "'a::len word \<Rightarrow> 'a word \<Rightarrow> bool" where
  "has_flag f m \<longleftrightarrow> f AND m \<noteq> 0"

lemma has_flag_or [flag_simps]: "has_flag (f OR m) m' \<longleftrightarrow> has_flag f m' \<or> has_flag m m'"
  by (auto simp: has_flag_def bit_eq_iff bit_simps)

lemma has_flag_clear_other [flag_simps]:
  "m AND m' = 0 \<Longrightarrow> has_flag (f AND NOT m) m' \<longleftrightarrow> has_flag f m'"
  by (auto simp: has_flag_def bit_eq_iff bit_simps)

lemma has_flag_clear_same [flag_simps]: "\<not> has_flag (f AND NOT m) m"
  by (auto simp: has_flag_def bit_eq_iff bit_simps)

section \<open>Error codes\<close>

datatype errno = EPERM | ENOENT | ESRCH | EINTR | EIO | ENXIO | E2BIG | ENOEXEC | EBADF | ECHILD
  | EAGAIN | ENOMEM | EACCES | EFAULT | EBUSY | EEXIST | EXDEV | ENODEV | ENOTDIR | EISDIR
  | EINVAL | EMFILE | ENOTTY | EFBIG | ENOSPC | ESPIPE | EROFS | EPIPE | ERANGE
  | ENAMETOOLONG | ENOSYS | ENOTEMPTY

text \<open>Sequencing of operations that may panic.\<close>

definition andthen :: "'e + 'a \<Rightarrow> ('a \<Rightarrow> 'e + 'b) \<Rightarrow> 'e + 'b" where
  "andthen r f = (case r of Inl e \<Rightarrow> Inl e | Inr x \<Rightarrow> f x)"

lemma andthen_simps [simp]: "andthen (Inr x) f = f x" "andthen (Inl e) f = Inl e"
  by (simp_all add: andthen_def)

lemma andthen_Inr: "andthen r f = Inr y \<longleftrightarrow> (\<exists>x. r = Inr x \<and> f x = Inr y)"
  by (cases r) (simp_all add: andthen_def)

section \<open>Words read as natural numbers\<close>

lemma unat_lt_64: "unat (x :: u64) < 2 ^ 64"
  using unsigned_less[of x] by simp

lemma unat_lt_32: "unat (x :: u32) < 2 ^ 32"
  using unsigned_less[of x] by simp

lemma unat_add_no_wrap:
  fixes a b :: u64
  assumes "unat a + unat b < 2 ^ 64"
  shows "unat (a + b) = unat a + unat b"
  using assms by (simp add: unat_word_ariths)

lemma word_overflow_iff:
  fixes a b :: u64
  shows "a + b < a \<longleftrightarrow> 2 ^ 64 \<le> unat a + unat b"
proof -
  have a: "unat a < 2 ^ 64" and b: "unat b < 2 ^ 64"
    using unsigned_less[of a] unsigned_less[of b] by simp_all
  show ?thesis
  proof (cases "unat a + unat b < 2 ^ 64")
    case True
    then show ?thesis by (simp add: word_less_nat_alt unat_add_no_wrap)
  next
    case False
    with a b have "unat (a + b) = unat a + unat b - 2 ^ 64"
      by (simp add: unat_word_ariths mod_if)
    with False a b show ?thesis by (simp add: word_less_nat_alt)
  qed
qed

lemma uint_pos_iff: "0 < uint w \<longleftrightarrow> w \<noteq> (0 :: 'a::len word)"
  using uint_0_iff[of w] uint_ge_0[of w] by linarith

lemma uint_eq_iff: "uint a = uint b \<longleftrightarrow> a = (b :: 'a::len word)"
  by (rule word_uint_eq_iff[symmetric])

section \<open>Interval arithmetic\<close>

definition span :: "nat \<Rightarrow> nat \<Rightarrow> nat set" where
  "span p n = {p..<p + n}"

lemma span_iff [simp]: "x \<in> span p n \<longleftrightarrow> p \<le> x \<and> x < p + n"
  by (simp add: span_def)

lemma card_span [simp]: "card (span p n) = n"
  by (simp add: span_def)

lemma finite_span [simp]: "finite (span p n)"
  by (simp add: span_def)

end
