(* ===== verification/Klist.thy ===== *)
theory Klist
  imports Prelude
begin

text \<open>
  The intrusive circular doubly linked list of \<^verbatim>\<open>kernel/lib/list.h\<close>, at pointer level.
  A heap maps a node address to its \<^verbatim>\<open>struct list_head\<close>; every operation is the sequence of
  field assignments of the C code. The relation \<open>is_list\<close> says which sequence of nodes hangs
  off a list head. The locale \<open>intrusive_list\<close> is the interface that the rest of the kernel
  relies on: the operations act as operations on lists and leave other lists alone.
\<close>

section \<open>Nodes and operations\<close>

record 'p list_head =
  nxt :: 'p
  prv :: 'p

type_synonym 'p links = "'p \<Rightarrow> 'p list_head"

definition set_nxt :: "'p \<Rightarrow> 'p \<Rightarrow> 'p links \<Rightarrow> 'p links" where
  "set_nxt a v m = m(a := (m a)\<lparr>nxt := v\<rparr>)"

definition set_prv :: "'p \<Rightarrow> 'p \<Rightarrow> 'p links \<Rightarrow> 'p links" where
  "set_prv a v m = m(a := (m a)\<lparr>prv := v\<rparr>)"

definition list_init :: "'p \<Rightarrow> 'p links \<Rightarrow> 'p links" where
  "list_init h m = set_prv h h (set_nxt h h m)"

definition list_empty :: "'p \<Rightarrow> 'p links \<Rightarrow> bool" where
  "list_empty h m \<longleftrightarrow> nxt (m h) = h"

definition list_insert :: "'p \<Rightarrow> 'p \<Rightarrow> 'p \<Rightarrow> 'p links \<Rightarrow> 'p links" where
  "list_insert n prev next m =
     (let m = set_prv next n m;
          m = set_nxt n next m;
          m = set_prv n prev m
      in set_nxt prev n m)"

definition list_add :: "'p \<Rightarrow> 'p \<Rightarrow> 'p links \<Rightarrow> 'p links" where
  "list_add n head m = list_insert n head (nxt (m head)) m"

definition list_add_tail :: "'p \<Rightarrow> 'p \<Rightarrow> 'p links \<Rightarrow> 'p links" where
  "list_add_tail n head m = list_insert n (prv (m head)) head m"

definition list_del :: "'p \<Rightarrow> 'p links \<Rightarrow> 'p links" where
  "list_del n m =
     (let m = set_nxt (prv (m n)) (nxt (m n)) m;
          m = set_prv (nxt (m n)) (prv (m n)) m
      in list_init n m)"

definition list_linked :: "'p \<Rightarrow> 'p links \<Rightarrow> bool" where
  "list_linked n m \<longleftrightarrow> nxt (m n) \<noteq> n"

definition list_first :: "'p \<Rightarrow> 'p links \<Rightarrow> 'p" where
  "list_first h m = nxt (m h)"

text \<open>
  \<^verbatim>\<open>list_for_each_entry\<close>: follow \<open>nxt\<close> from \<open>pos\<close> until the head is met. A corrupted list may
  never lead back to the head, so the walk is partial; \<open>list_nodes_is_list\<close> shows that it
  returns on every well-formed list.
\<close>

partial_function (option) list_nodes :: "'p \<Rightarrow> 'p \<Rightarrow> 'p links \<Rightarrow> 'p list option" where
  "list_nodes pos head m =
     (if pos = head then Some []
      else Option.bind (list_nodes (nxt (m pos)) head m) (\<lambda>ps. Some (pos # ps)))"

section \<open>The sequence a head represents\<close>

fun dpath :: "'p links \<Rightarrow> 'p \<Rightarrow> 'p list \<Rightarrow> 'p \<Rightarrow> bool" where
  "dpath m a [] b \<longleftrightarrow> nxt (m a) = b \<and> prv (m b) = a"
| "dpath m a (x # xs) b \<longleftrightarrow> nxt (m a) = x \<and> prv (m x) = a \<and> dpath m x xs b"

definition is_list :: "'p links \<Rightarrow> 'p \<Rightarrow> 'p list \<Rightarrow> bool" where
  "is_list m h xs \<longleftrightarrow> distinct (h # xs) \<and> dpath m h xs h"

lemma dpath_append:
  "dpath m a (xs @ y # ys) b \<longleftrightarrow> dpath m a xs y \<and> dpath m y ys b"
  by (induction xs arbitrary: a) auto

lemma dpath_cong:
  assumes "\<And>x. x \<in> insert a (set xs) \<Longrightarrow> nxt (m' x) = nxt (m x)"
    and "\<And>x. x \<in> insert b (set xs) \<Longrightarrow> prv (m' x) = prv (m x)"
  shows "dpath m' a xs b \<longleftrightarrow> dpath m a xs b"
  using assms by (induction xs arbitrary: a) auto

lemma nxt_set [simp]:
  "nxt (set_nxt a v m x) = (if x = a then v else nxt (m x))"
  "nxt (set_prv a v m x) = nxt (m x)"
  "prv (set_prv a v m x) = (if x = a then v else prv (m x))"
  "prv (set_nxt a v m x) = prv (m x)"
  by (simp_all add: set_nxt_def set_prv_def)

lemma list_init_is_list: "is_list (list_init h m) h []"
  by (simp add: is_list_def list_init_def)

lemma list_empty_iff: "is_list m h xs \<Longrightarrow> list_empty h m \<longleftrightarrow> xs = []"
  by (cases xs) (auto simp: is_list_def list_empty_def)

lemma list_first_hd: "is_list m h (x # xs) \<Longrightarrow> list_first h m = x"
  by (simp add: is_list_def list_first_def)

text \<open>What each operation leaves in the two link fields of every node.\<close>

lemma list_insert_fields [simp]:
  "nxt (list_insert n p q m x) = (if x = p then n else if x = n then q else nxt (m x))"
  "prv (list_insert n p q m x) = (if x = n then p else if x = q then n else prv (m x))"
  by (simp_all add: list_insert_def Let_def)

lemma list_del_fields [simp]:
  "nxt (list_del n m x) = (if x = n then n else if x = prv (m n) then nxt (m n) else nxt (m x))"
  "prv (list_del n m x) = (if x = n then n else if x = nxt (m n) then prv (m n) else prv (m x))"
  by (simp_all add: list_del_def list_init_def Let_def)

lemma list_add_is_list:
  assumes "is_list m h xs" and "n \<notin> set (h # xs)"
  shows "is_list (list_add n h m) h (n # xs)"
proof (cases xs)
  case Nil
  with assms show ?thesis by (auto simp: is_list_def list_add_def)
next
  case (Cons x ys)
  with assms have d: "dpath m x ys h" and q: "nxt (m h) = x" and dist: "distinct (h # x # ys)"
    by (auto simp: is_list_def)
  have "dpath (list_insert n h x m) x ys h \<longleftrightarrow> dpath m x ys h"
    using assms(2) dist Cons by (intro dpath_cong) auto
  with assms d q dist Cons show ?thesis
    by (auto simp: is_list_def list_add_def)
qed

lemma list_add_tail_is_list:
  assumes "is_list m h xs" and "n \<notin> set (h # xs)"
  shows "is_list (list_add_tail n h m) h (xs @ [n])"
proof (cases xs rule: rev_cases)
  case Nil
  with assms show ?thesis by (auto simp: is_list_def list_add_tail_def)
next
  case (snoc ys y)
  with assms have d: "dpath m h ys y" and q: "prv (m h) = y" and dist: "distinct (h # ys @ [y])"
    by (auto simp: is_list_def dpath_append)
  have "dpath (list_insert n y h m) h ys y \<longleftrightarrow> dpath m h ys y"
    using assms(2) dist snoc by (intro dpath_cong) auto
  with assms d q dist snoc show ?thesis
    by (auto simp: is_list_def list_add_tail_def dpath_append)
qed

lemma dpath_last: "dpath m a xs b \<Longrightarrow> prv (m b) = last (a # xs)"
  by (induction xs arbitrary: a) auto

lemma dpath_first: "dpath m a xs b \<Longrightarrow> nxt (m a) = hd (xs @ [b])"
  by (cases xs) auto

lemma list_del_left:
  assumes "dpath m h as n" and "n \<notin> set (h # as)" and "distinct (h # as)"
    and "nxt (m n) \<notin> set as" and "nxt (m n) \<noteq> n"
  shows "dpath (list_del n m) h as (nxt (m n))"
proof (cases as rule: rev_cases)
  case Nil
  with assms show ?thesis by auto
next
  case (snoc bs a)
  have "dpath (list_del n m) h bs a \<longleftrightarrow> dpath m h bs a"
    using assms dpath_last[OF assms(1)] snoc by (intro dpath_cong) auto
  with assms snoc show ?thesis by (auto simp: dpath_append)
qed

lemma list_del_right:
  assumes "dpath m q bs h" and "n \<notin> set (q # h # bs)" and "nxt (m n) = q"
    and "prv (m n) \<notin> set (q # bs)" and "distinct (q # bs)" and "q \<noteq> h"
  shows "dpath (list_del n m) q bs h"
  using assms by (subst dpath_cong) auto

lemma list_del_is_list:
  assumes "is_list m h xs" and "n \<in> set xs"
  shows "is_list (list_del n m) h (remove1 n xs)"
proof -
  obtain as bs where xs: "xs = as @ n # bs"
    using assms(2) by (meson split_list)
  from assms(1) have d: "dpath m h as n" "dpath m n bs h" and dist: "distinct (h # as @ n # bs)"
    by (simp_all add: xs is_list_def dpath_append)
  have rem: "remove1 n xs = as @ bs"
    using dist by (simp add: xs remove1_append)
  have p: "prv (m n) = last (h # as)" and pin: "prv (m n) \<in> set (h # as)"
    using dpath_last[OF d(1)] by (auto split: if_splits)
  show ?thesis
  proof (cases bs)
    case Nil
    with d(2) have q: "nxt (m n) = h" by simp
    have "dpath (list_del n m) h as (nxt (m n))"
      using d dist by (intro list_del_left) (auto simp: q)
    with dist Nil show ?thesis by (simp add: is_list_def rem q)
  next
    case (Cons b cs)
    with d(2) have q: "nxt (m n) = b" and d3: "dpath m b cs h" by auto
    have "dpath (list_del n m) h as b"
      using list_del_left[OF d(1)] dist Cons by (auto simp: q)
    moreover have "dpath (list_del n m) b cs h"
      using d3 dist Cons pin by (intro list_del_right) (auto simp: q)
    ultimately show ?thesis
      using dist Cons by (simp add: is_list_def rem dpath_append)
  qed
qed

lemma is_list_frame:
  assumes "is_list m h xs" and "\<And>x. x \<in> set (h # xs) \<Longrightarrow> nxt (m' x) = nxt (m x) \<and> prv (m' x) = prv (m x)"
  shows "is_list m' h xs"
  using assms dpath_cong[of h xs m' m h] by (auto simp: is_list_def)

lemma is_list_nbr:
  assumes "is_list m h xs" and "n \<in> set (h # xs)"
  shows "nxt (m n) \<in> set (h # xs) \<and> prv (m n) \<in> set (h # xs)"
proof (cases "n = h")
  case True
  with assms(1) have "nxt (m n) = hd (xs @ [h])" "prv (m n) = last (h # xs)"
    using dpath_first[of m h xs h] dpath_last[of m h xs h] by (simp_all add: is_list_def)
  then show ?thesis
    by (cases xs) auto
next
  case False
  then obtain as bs where xs: "xs = as @ n # bs"
    using assms(2) by (auto dest: split_list)
  then have "dpath m h as n" "dpath m n bs h"
    using assms(1) by (auto simp: is_list_def dpath_append)
  from dpath_last[OF this(1)] dpath_first[OF this(2)]
  have "prv (m n) \<in> set (h # as)" "nxt (m n) \<in> set (bs @ [h])"
    by (metis last_in_set list.distinct(1), metis Nil_is_append_conv hd_in_set list.distinct(1))
  then show ?thesis by (auto simp: xs)
qed

lemma list_nodes_dpath:
  "dpath m a xs h \<Longrightarrow> h \<notin> set xs \<Longrightarrow> list_nodes (nxt (m a)) h m = Some xs"
proof (induction xs arbitrary: a)
  case Nil
  then show ?case by (simp add: list_nodes.simps)
next
  case (Cons x xs)
  then have "list_nodes (nxt (m x)) h m = Some xs" by auto
  with Cons.prems show ?case by (auto simp: list_nodes.simps[of x])
qed

lemma list_nodes_is_list: "is_list m h xs \<Longrightarrow> list_nodes (nxt (m h)) h m = Some xs"
  by (simp add: is_list_def list_nodes_dpath)

section \<open>The interface of intrusive lists\<close>

locale intrusive_list =
  fixes rep :: "'m \<Rightarrow> 'p \<Rightarrow> 'p list \<Rightarrow> bool"
    and add :: "'p \<Rightarrow> 'p \<Rightarrow> 'm \<Rightarrow> 'm"
    and add_tail :: "'p \<Rightarrow> 'p \<Rightarrow> 'm \<Rightarrow> 'm"
    and del :: "'p \<Rightarrow> 'm \<Rightarrow> 'm"
    and first :: "'p \<Rightarrow> 'm \<Rightarrow> 'p"
    and empty :: "'p \<Rightarrow> 'm \<Rightarrow> bool"
  assumes rep_add: "rep m h xs \<Longrightarrow> n \<notin> set (h # xs) \<Longrightarrow> rep (add n h m) h (n # xs)"
    and rep_add_tail: "rep m h xs \<Longrightarrow> n \<notin> set (h # xs) \<Longrightarrow> rep (add_tail n h m) h (xs @ [n])"
    and rep_del: "rep m h xs \<Longrightarrow> n \<in> set xs \<Longrightarrow> rep (del n m) h (remove1 n xs)"
    and rep_first: "rep m h (x # xs) \<Longrightarrow> first h m = x"
    and rep_empty: "rep m h xs \<Longrightarrow> empty h m \<longleftrightarrow> xs = []"
    and rep_distinct: "rep m h xs \<Longrightarrow> distinct (h # xs)"
    and frame_add: "rep m h xs \<Longrightarrow> rep m g ys \<Longrightarrow> set (g # ys) \<inter> set (n # h # xs) = {} \<Longrightarrow>
      rep (add n h m) g ys"
    and frame_add_tail: "rep m h xs \<Longrightarrow> rep m g ys \<Longrightarrow> set (g # ys) \<inter> set (n # h # xs) = {} \<Longrightarrow>
      rep (add_tail n h m) g ys"
    and frame_del: "rep m h xs \<Longrightarrow> n \<in> set xs \<Longrightarrow> rep m g ys \<Longrightarrow>
      set (g # ys) \<inter> set (h # xs) = {} \<Longrightarrow> rep (del n m) g ys"
begin

text \<open>A list filled with \<open>add_tail\<close> is a queue, one filled with \<open>add\<close> a stack.\<close>

lemma fill_tail:
  assumes "rep m h xs" and "distinct ns" and "set ns \<inter> set (h # xs) = {}"
  shows "rep (fold (\<lambda>n. add_tail n h) ns m) h (xs @ ns)"
  using assms
proof (induction ns arbitrary: m xs)
  case Nil
  then show ?case by simp
next
  case (Cons n ns)
  then have "rep (add_tail n h m) h (xs @ [n])"
    by (intro rep_add_tail) auto
  from Cons.IH[OF this] Cons.prems show ?case by auto
qed

lemma fill_head:
  assumes "rep m h xs" and "distinct ns" and "set ns \<inter> set (h # xs) = {}"
  shows "rep (fold (\<lambda>n. add n h) ns m) h (rev ns @ xs)"
  using assms
proof (induction ns arbitrary: m xs)
  case Nil
  then show ?case by simp
next
  case (Cons n ns)
  then have "rep (add n h m) h (n # xs)"
    by (intro rep_add) auto
  from Cons.IH[OF this] Cons.prems show ?case by auto
qed

text \<open>Taking the first element of a queue, and moving a node from one list to another.\<close>

lemma pop_first:
  assumes "rep m h (x # xs)"
  shows "first h m = x \<and> rep (del (first h m) m) h xs"
  using assms rep_del[OF assms, of x] rep_first[OF assms] rep_distinct[OF assms] by simp

lemma move_between:
  assumes "rep m h xs" and "rep m g ys" and "set (h # xs) \<inter> set (g # ys) = {}" and "n \<in> set xs"
  shows "rep (add n g (del n m)) g (n # ys) \<and> rep (add n g (del n m)) h (remove1 n xs)"
proof -
  have d: "distinct (h # xs)" using assms(1) by (rule rep_distinct)
  have g: "rep (del n m) g ys"
    using assms by (intro frame_del[of m h xs]) auto
  have h: "rep (del n m) h (remove1 n xs)"
    using assms by (intro rep_del)
  have "set (h # remove1 n xs) \<inter> set (n # g # ys) = {}"
    using assms d by (auto dest: notin_set_remove1)
  with g h assms show ?thesis
    by (auto intro!: rep_add frame_add)
qed

end

interpretation kl: intrusive_list is_list list_add list_add_tail list_del list_first list_empty
proof unfold_locales
  fix m :: "'p links" and h g n :: 'p and xs ys :: "'p list"
  assume a: "is_list m h xs"
  show "n \<notin> set (h # xs) \<Longrightarrow> is_list (list_add n h m) h (n # xs)"
    using a by (rule list_add_is_list)
  show "n \<notin> set (h # xs) \<Longrightarrow> is_list (list_add_tail n h m) h (xs @ [n])"
    using a by (rule list_add_tail_is_list)
  show "n \<in> set xs \<Longrightarrow> is_list (list_del n m) h (remove1 n xs)"
    using a by (rule list_del_is_list)
  show "list_empty h m = (xs = [])"
    using a by (rule list_empty_iff)
  show "distinct (h # xs)"
    using a by (simp add: is_list_def)
  have nbr: "nxt (m h) \<in> set (h # xs)" "prv (m h) \<in> set (h # xs)"
    using is_list_nbr[OF a, of h] by auto
  assume b: "is_list m g ys"
  show "set (g # ys) \<inter> set (n # h # xs) = {} \<Longrightarrow> is_list (list_add n h m) g ys"
    by (rule is_list_frame[OF b]) (use nbr in \<open>auto simp: list_add_def\<close>)
  show "set (g # ys) \<inter> set (n # h # xs) = {} \<Longrightarrow> is_list (list_add_tail n h m) g ys"
    by (rule is_list_frame[OF b]) (use nbr in \<open>auto simp: list_add_tail_def\<close>)
  assume n: "n \<in> set xs"
  have nn: "nxt (m n) \<in> set (h # xs)" "prv (m n) \<in> set (h # xs)"
    using is_list_nbr[OF a, of n] n by auto
  assume dis: "set (g # ys) \<inter> set (h # xs) = {}"
  have "x \<noteq> n \<and> x \<noteq> nxt (m n) \<and> x \<noteq> prv (m n)" if "x \<in> set (g # ys)" for x
    using that dis n nn by (metis disjoint_iff list.set_intros(2))
  then show "is_list (list_del n m) g ys"
    by (intro is_list_frame[OF b]) simp
qed (auto simp: list_first_hd)

section \<open>What a traversal sees\<close>

definition contents :: "'p \<Rightarrow> 'p links \<Rightarrow> 'p list option" where
  "contents h m = list_nodes (nxt (m h)) h m"

lemma contents_is_list: "is_list m h xs \<Longrightarrow> contents h m = Some xs"
  by (simp add: contents_def list_nodes_is_list)

text \<open>
  The pointer operations of \<^verbatim>\<open>list.h\<close> implement sequences: a traversal of a well-formed list
  terminates and sees exactly its elements; after \<^verbatim>\<open>list_add\<close> and \<^verbatim>\<open>list_add_tail\<close> it sees the new
  node first or last, after \<^verbatim>\<open>list_del\<close> everything but the node, and moving a node to another list
  changes exactly these two lists.
\<close>

theorem list_operations_refine:
  assumes "is_list m h xs" and "is_list m g ys" and "set (h # xs) \<inter> set (g # ys) = {}"
    and "n \<notin> set (h # xs) \<union> set (g # ys)" and "x \<in> set xs"
  shows "contents h m = Some xs \<and>
    contents h (list_add n h m) = Some (n # xs) \<and> contents g (list_add n h m) = Some ys \<and>
    contents h (list_add_tail n h m) = Some (xs @ [n]) \<and> contents g (list_add_tail n h m) = Some ys \<and>
    contents h (list_del x m) = Some (remove1 x xs) \<and> contents g (list_del x m) = Some ys \<and>
    contents g (list_add x g (list_del x m)) = Some (x # ys) \<and>
    contents h (list_add x g (list_del x m)) = Some (remove1 x xs) \<and> list_empty h m = False \<and>
    list_first h m = hd xs"
proof -
  have fr: "set (g # ys) \<inter> set (n # h # xs) = {}" "set (g # ys) \<inter> set (h # xs) = {}" "n \<notin> set (h # xs)"
    using assms(3,4) by auto
  obtain z zs where xs: "xs = z # zs" using assms(5) by (cases xs) auto
  show ?thesis
    using contents_is_list[OF assms(1)] contents_is_list[OF kl.rep_add[OF assms(1) fr(3)]]
      contents_is_list[OF kl.frame_add[OF assms(1,2) fr(1)]]
      contents_is_list[OF kl.rep_add_tail[OF assms(1) fr(3)]]
      contents_is_list[OF kl.frame_add_tail[OF assms(1,2) fr(1)]]
      contents_is_list[OF kl.rep_del[OF assms(1,5)]]
      contents_is_list[OF kl.frame_del[OF assms(1,5,2) fr(2)]]
      kl.move_between[OF assms(1,2,3,5)] kl.rep_empty[OF assms(1)] kl.rep_first[of m h z zs] assms(1)
    by (auto simp: xs intro: contents_is_list)
qed

theorem list_operations_refine_witness:
  "\<exists>m. contents (0::nat) (list_add 4 0 m) = Some [4, 2, 3] \<and> contents 1 (list_add 3 1 (list_del 3 m)) = Some [3]"
proof -
  let ?m = "list_add 2 0 (list_add 3 0 (list_init 1 (list_init 0 (\<lambda>_ :: nat. \<lparr>nxt = 0 :: nat, prv = 0\<rparr>))))"
  have "is_list ?m (0::nat) [2, 3]" "is_list ?m 1 []"
    by (simp_all add: is_list_def list_add_def list_init_def)
  from list_operations_refine[OF this, of 4 3] show ?thesis by auto
qed

end
