(* ===== verification/Kstring.thy ===== *)
theory Kstring
  imports Prelude "HOL-Library.Sublist"
begin

text \<open>
  The byte and string routines of \<^verbatim>\<open>kernel/lib/string.c\<close> on a flat memory of bytes indexed by
  64-bit addresses. Pointer increments wrap as they do in the machine. Loops bounded by a
  count recurse on the count; loops that run to a terminating zero byte are partial functions,
  and the lemmas show that they return on every string that has a terminator.
\<close>

type_synonym memory = "u64 \<Rightarrow> u8"

section \<open>Memory routines\<close>

fun memset :: "u64 \<Rightarrow> u8 \<Rightarrow> nat \<Rightarrow> memory \<Rightarrow> memory" where
  "memset d v 0 m = m"
| "memset d v (Suc n) m = memset (d + 1) v n (m(d := v))"

fun memcpy :: "u64 \<Rightarrow> u64 \<Rightarrow> nat \<Rightarrow> memory \<Rightarrow> memory" where
  "memcpy d s 0 m = m"
| "memcpy d s (Suc n) m = memcpy (d + 1) (s + 1) n (m(d := m s))"

text \<open>The backward loop of \<^verbatim>\<open>memmove\<close>: both pointers start at the end and are decremented first.\<close>

fun memcpy_backward :: "u64 \<Rightarrow> u64 \<Rightarrow> nat \<Rightarrow> memory \<Rightarrow> memory" where
  "memcpy_backward d s 0 m = m"
| "memcpy_backward d s (Suc n) m = memcpy_backward (d - 1) (s - 1) n (m(d - 1 := m (s - 1)))"

definition memmove :: "u64 \<Rightarrow> u64 \<Rightarrow> nat \<Rightarrow> memory \<Rightarrow> memory" where
  "memmove d s n m =
     (if d = s \<or> n = 0 then m
      else if d < s then memcpy d s n m
      else memcpy_backward (d + of_nat n) (s + of_nat n) n m)"

fun memcmp_from :: "nat \<Rightarrow> u64 \<Rightarrow> u64 \<Rightarrow> nat \<Rightarrow> memory \<Rightarrow> int" where
  "memcmp_from i x y 0 m = 0"
| "memcmp_from i x y (Suc n) m =
     (if m (x + of_nat i) \<noteq> m (y + of_nat i)
      then (if m (x + of_nat i) < m (y + of_nat i) then - 1 else 1)
      else memcmp_from (Suc i) x y n m)"

definition memcmp :: "u64 \<Rightarrow> u64 \<Rightarrow> nat \<Rightarrow> memory \<Rightarrow> int" where
  "memcmp a b n m = memcmp_from 0 a b n m"

section \<open>String routines\<close>

partial_function (option) strlen_from :: "u64 \<Rightarrow> nat \<Rightarrow> memory \<Rightarrow> nat option" where
  "strlen_from s n m = (if m (s + of_nat n) = 0 then Some n else strlen_from s (Suc n) m)"

definition strlen :: "u64 \<Rightarrow> memory \<Rightarrow> nat option" where
  "strlen s m = strlen_from s 0 m"

fun strnlen_from :: "u64 \<Rightarrow> nat \<Rightarrow> nat \<Rightarrow> memory \<Rightarrow> nat" where
  "strnlen_from s n 0 m = n"
| "strnlen_from s n (Suc k) m =
     (if m (s + of_nat n) = 0 then n else strnlen_from s (Suc n) k m)"

definition strnlen :: "u64 \<Rightarrow> nat \<Rightarrow> memory \<Rightarrow> nat" where
  "strnlen s lim m = strnlen_from s 0 lim m"

partial_function (option) strcmp :: "u64 \<Rightarrow> u64 \<Rightarrow> memory \<Rightarrow> int option" where
  "strcmp a b m =
     (if m a \<noteq> 0 \<and> m a = m b then strcmp (a + 1) (b + 1) m
      else Some (uint (m a) - uint (m b)))"

fun strncmp :: "u64 \<Rightarrow> u64 \<Rightarrow> nat \<Rightarrow> memory \<Rightarrow> int" where
  "strncmp a b 0 m = 0"
| "strncmp a b (Suc n) m =
     (if m a \<noteq> 0 \<and> m a = m b then strncmp (a + 1) (b + 1) n m
      else uint (m a) - uint (m b))"

fun strncpy_pad :: "u64 \<Rightarrow> nat \<Rightarrow> nat \<Rightarrow> memory \<Rightarrow> memory" where
  "strncpy_pad d i 0 m = m"
| "strncpy_pad d i (Suc k) m = strncpy_pad d (Suc i) k (m(d + of_nat i := 0))"

fun strncpy_from :: "u64 \<Rightarrow> u64 \<Rightarrow> nat \<Rightarrow> nat \<Rightarrow> memory \<Rightarrow> memory" where
  "strncpy_from d s i 0 m = m"
| "strncpy_from d s i (Suc k) m =
     (if m (s + of_nat i) = 0 then strncpy_pad d i (Suc k) m
      else strncpy_from d s (Suc i) k (m(d + of_nat i := m (s + of_nat i))))"

definition strncpy :: "u64 \<Rightarrow> u64 \<Rightarrow> nat \<Rightarrow> memory \<Rightarrow> memory" where
  "strncpy d s n m = strncpy_from d s 0 n m"

definition strlcpy :: "u64 \<Rightarrow> u64 \<Rightarrow> nat \<Rightarrow> memory \<Rightarrow> (nat \<times> memory) option" where
  "strlcpy dest src sz m =
     (case strlen src m of
        None \<Rightarrow> None
      | Some len \<Rightarrow>
          Some (len,
            if sz = 0 then m
            else (let n = (if len < sz - 1 then len else sz - 1)
                  in (memcpy dest src n m)(dest + of_nat n := 0))))"

partial_function (option) strchr :: "u64 \<Rightarrow> u8 \<Rightarrow> memory \<Rightarrow> u64 option option" where
  "strchr s c m =
     (if m s = c then Some (Some s)
      else if m s = 0 then Some None
      else strchr (s + 1) c m)"

partial_function (option) strstr_from :: "u64 \<Rightarrow> u64 \<Rightarrow> nat \<Rightarrow> memory \<Rightarrow> u64 option option" where
  "strstr_from s sub n m =
     (if m s = 0 then Some None
      else if m s = m sub \<and> strncmp s sub n m = 0 then Some (Some s)
      else strstr_from (s + 1) sub n m)"

definition strstr :: "u64 \<Rightarrow> u64 \<Rightarrow> memory \<Rightarrow> u64 option option" where
  "strstr s sub m =
     Option.bind (strlen sub m) (\<lambda>n. if n = 0 then Some (Some s) else strstr_from s sub n m)"

section \<open>Blocks of memory\<close>

text \<open>\<open>fits a n\<close>: the \<open>n\<close> bytes from \<open>a\<close> do not run past the end of the address space.\<close>

definition fits :: "u64 \<Rightarrow> nat \<Rightarrow> bool" where
  "fits a n \<longleftrightarrow> unat a + n \<le> 2 ^ 64"

definition in_block :: "u64 \<Rightarrow> u64 \<Rightarrow> nat \<Rightarrow> bool" where
  "in_block x a n \<longleftrightarrow> unat a \<le> unat x \<and> unat x < unat a + n"

lemma unat_add_of_nat:
  assumes "fits a n" and "i < n"
  shows "unat (a + of_nat i :: u64) = unat a + i"
proof -
  have "i < 2 ^ 64" using assms by (simp add: fits_def)
  then have "unat (of_nat i :: u64) = i" by (simp add: unat_of_nat take_bit_nat_eq_self)
  with assms show ?thesis by (simp add: fits_def unat_add_no_wrap)
qed

lemma in_block_one: "in_block x a (Suc 0) \<longleftrightarrow> x = a"
  by (auto simp: in_block_def word_unat_eq_iff)

lemma in_block_Suc:
  "unat (a + 1) = unat a + 1 \<Longrightarrow> in_block x a (Suc n) \<longleftrightarrow> x = a \<or> in_block x (a + 1) n"
  by (auto simp: in_block_def word_unat_eq_iff)

lemma in_block_iff: "fits a n \<Longrightarrow> in_block x a n \<longleftrightarrow> (\<exists>i<n. x = a + of_nat i)"
proof
  assume f: "fits a n" and b: "in_block x a n"
  let ?i = "unat x - unat a"
  have i: "?i < n" using b by (auto simp: in_block_def)
  then have "unat (a + of_nat ?i) = unat x"
    using b by (simp add: unat_add_of_nat[OF f i] in_block_def)
  then show "\<exists>i<n. x = a + of_nat i"
    using i by (metis word_unat_eq_iff)
qed (auto simp: in_block_def unat_add_of_nat)

lemma fits_Suc: "fits a (Suc n) \<Longrightarrow> n = 0 \<or> (fits (a + 1) n \<and> unat (a + 1) = unat a + 1)"
  using unat_add_of_nat[of a "Suc n" 1] by (auto simp: fits_def)

lemma memset_apply:
  assumes "fits d n"
  shows "memset d v n m x = (if in_block x d n then v else m x)"
  using assms
proof (induction n arbitrary: d m)
  case 0
  then show ?case by (auto simp: in_block_def)
next
  case (Suc n)
  from fits_Suc[OF Suc.prems] show ?case
  proof
    assume "n = 0"
    then show ?thesis by (auto simp: in_block_def word_unat_eq_iff)
  next
    assume f: "fits (d + 1) n \<and> unat (d + 1) = unat d + 1"
    then show ?thesis
      by (auto simp: Suc.IH in_block_def word_unat_eq_iff)
  qed
qed

lemma memcpy_apply:
  assumes "fits d n" and "fits s n" and "n = 0 \<or> unat d \<le> unat s \<or> unat s + n \<le> unat d"
  shows "memcpy d s n m x = (if in_block x d n then m (s + (x - d)) else m x)"
  using assms
proof (induction n arbitrary: d s m)
  case 0
  then show ?case by (auto simp: in_block_def)
next
  case (Suc n)
  show ?case
  proof (cases "n = 0")
    case True
    then show ?thesis by (simp add: in_block_one)
  next
    case False
    with fits_Suc[OF Suc.prems(1)] fits_Suc[OF Suc.prems(2)]
    have f: "fits (d + 1) n" "unat (d + 1) = unat d + 1" "fits (s + 1) n" "unat (s + 1) = unat s + 1"
      by auto
    have IH: "memcpy (d + 1) (s + 1) n (m(d := m s)) x =
        (if in_block x (d + 1) n then (m(d := m s)) (s + 1 + (x - (d + 1))) else (m(d := m s)) x)"
      using f Suc.prems(3) by (intro Suc.IH) auto
    have "s + (x - d) \<noteq> d" if b: "in_block x (d + 1) n"
    proof -
      from b f obtain i where i: "i < n" "x = d + 1 + of_nat i"
        by (auto simp: in_block_iff)
      then have "s + (x - d) = s + of_nat (Suc i)" by simp
      moreover have "unat (s + of_nat (Suc i)) = unat s + Suc i"
        using Suc.prems(2) i by (intro unat_add_of_nat[of _ "Suc n"]) auto
      ultimately have "unat (s + (x - d)) = unat s + Suc i" by simp
      with Suc.prems(3) i show ?thesis by auto
    qed
    moreover have "\<not> in_block d (d + 1) n"
      using f by (simp add: in_block_def)
    ultimately show ?thesis
      using f by (simp only: memcpy.simps IH in_block_Suc) auto
  qed
qed

lemma memcpy_backward_apply:
  assumes "fits d n" and "fits s n" and "unat s \<le> unat d"
  shows "memcpy_backward (d + of_nat n) (s + of_nat n) n m x =
    (if in_block x d n then m (s + (x - d)) else m x)"
  using assms
proof (induction n arbitrary: m)
  case 0
  then show ?case by (auto simp: in_block_def)
next
  case (Suc n)
  let ?m = "m(d + of_nat n := m (s + of_nat n))"
  have f: "fits d n" "fits s n" using Suc.prems by (simp_all add: fits_def)
  have u: "unat (d + of_nat n) = unat d + n" "unat (s + of_nat n) = unat s + n"
    using Suc.prems by (auto intro!: unat_add_of_nat[of _ "Suc n"])
  have "memcpy_backward (d + of_nat (Suc n)) (s + of_nat (Suc n)) (Suc n) m x =
      memcpy_backward (d + of_nat n) (s + of_nat n) n ?m x"
    by (simp add: add.commute add.left_commute)
  also have "\<dots> = (if in_block x d n then ?m (s + (x - d)) else ?m x)"
    using f Suc.prems(3) by (rule Suc.IH)
  also have "\<dots> = (if in_block x d (Suc n) then m (s + (x - d)) else m x)"
  proof -
    have "s + (x - d) \<noteq> d + of_nat n" if b: "in_block x d n"
    proof -
      from b f obtain i where i: "i < n" "x = d + of_nat i" by (auto simp: in_block_iff)
      then have "unat (s + (x - d)) = unat s + i"
        using f by (simp add: unat_add_of_nat)
      with u i Suc.prems(3) show ?thesis by auto
    qed
    moreover have "in_block x d (Suc n) \<longleftrightarrow> in_block x d n \<or> x = d + of_nat n"
      by (auto simp: in_block_def word_unat_eq_iff u)
    ultimately show ?thesis by auto
  qed
  finally show ?case .
qed

text \<open>
  \<^verbatim>\<open>memmove\<close> copies correctly whatever the overlap of its two blocks: afterwards every byte
  of the destination block is the byte the source block held before the call, and no byte
  outside the destination block has changed.
\<close>

theorem memmove_correct:
  assumes "fits d n" and "fits s n"
  shows "memmove d s n m x = (if in_block x d n then m (s + (x - d)) else m x)"
  using assms memcpy_apply[of d n s m x] memcpy_backward_apply[of d n s m x]
  by (auto simp: memmove_def in_block_def word_less_nat_alt word_le_nat_alt)

theorem memmove_correct_witness:
  "memmove 101 100 3 (\<lambda>a. if a = 100 then 7 else if a = 101 then 8 else if a = 102 then 9 else 0) 103
     = (9 :: u8)"
  using memmove_correct[of 101 3 100
      "\<lambda>a. if a = 100 then 7 else if a = 101 then 8 else if a = 102 then 9 else 0" 103]
  by (simp add: fits_def in_block_def)

section \<open>Zero-terminated strings\<close>

fun cstr :: "memory \<Rightarrow> u64 \<Rightarrow> u8 list \<Rightarrow> bool" where
  "cstr m p [] \<longleftrightarrow> m p = 0"
| "cstr m p (x # xs) \<longleftrightarrow> x \<noteq> 0 \<and> m p = x \<and> cstr m (p + 1) xs"

lemma strlen_from_cstr:
  "cstr m (s + of_nat n) xs \<Longrightarrow> strlen_from s n m = Some (n + length xs)"
proof (induction xs arbitrary: n)
  case Nil
  then show ?case by (simp add: strlen_from.simps)
next
  case (Cons x xs)
  then have "strlen_from s (Suc n) m = Some (Suc n + length xs)"
    by (intro Cons.IH) (simp add: add.commute add.left_commute)
  with Cons.prems show ?case by (simp add: strlen_from.simps[of s n])
qed

lemma strlen_cstr: "cstr m s xs \<Longrightarrow> strlen s m = Some (length xs)"
  using strlen_from_cstr[of m s 0 xs] by (simp add: strlen_def)

lemma strnlen_from_cstr:
  "cstr m (s + of_nat n) xs \<Longrightarrow> strnlen_from s n k m = n + min k (length xs)"
proof (induction xs arbitrary: n k)
  case Nil
  then show ?case by (cases k) simp_all
next
  case (Cons x xs)
  then have "cstr m (s + of_nat (Suc n)) xs"
    by (simp add: add.commute add.left_commute)
  with Cons show ?case by (cases k) simp_all
qed

lemma lexordp_Cons_neq:
  "x \<noteq> (y :: 'a::linorder) \<Longrightarrow> ord_class.lexordp (x # xs) (y # ys) \<longleftrightarrow> x < y"
  by auto

lemma strcmp_cstr:
  assumes "cstr m a xs" and "cstr m b ys"
  shows "\<exists>r. strcmp a b m = Some r \<and> (r = 0 \<longleftrightarrow> xs = ys) \<and> (r < 0 \<longleftrightarrow> ord_class.lexordp xs ys)"
  using assms
proof (induction xs arbitrary: a b ys)
  case Nil
  then show ?case
    by (cases ys) (auto simp: strcmp.simps[of a] uint_pos_iff uint_0_iff)
next
  case (Cons x xs)
  show ?case
  proof (cases "ys \<noteq> [] \<and> hd ys = x")
    case True
    then obtain zs where ys: "ys = x # zs" by (cases ys) auto
    with Cons.prems have "cstr m (a + 1) xs" "cstr m (b + 1) zs" by auto
    from Cons.IH[OF this] Cons.prems ys show ?thesis
      by (simp add: strcmp.simps[of a])
  next
    case False
    with Cons.prems show ?thesis
      by (cases ys) (auto simp: strcmp.simps[of a] lexordp_Cons_neq word_less_def uint_0_iff
          uint_pos_iff uint_eq_iff simp del: lexordp_simps(3))
  qed
qed

lemma strncmp_cstr:
  assumes "cstr m a xs" and "cstr m b ys"
  shows "strncmp a b n m = 0 \<longleftrightarrow> take n xs = take n ys"
  using assms
proof (induction n arbitrary: a b xs ys)
  case 0
  then show ?case by simp
next
  case (Suc n)
  then show ?case
    by (cases xs; cases ys) (auto simp: uint_0_iff uint_eq_iff)
qed

lemma strstr_from_cstr:
  assumes "cstr m s xs" and "cstr m sub ys" and "ys \<noteq> []"
  shows "strstr_from s sub (length ys) m =
    Some (if sublist ys xs then Some (s + of_nat (LEAST i. prefix ys (drop i xs))) else None)"
  using assms(1)
proof (induction xs arbitrary: s)
  case Nil
  with assms(3) show ?case by (simp add: strstr_from.simps)
next
  case (Cons x xs)
  from Cons.prems have xs: "cstr m (s + 1) xs" and ms: "m s = x" "x \<noteq> 0" by auto
  have hit: "m s = m sub \<and> strncmp s sub (length ys) m = 0 \<longleftrightarrow> prefix ys (x # xs)"
  proof -
    have "strncmp s sub (length ys) m = 0 \<longleftrightarrow> prefix ys (x # xs)"
      using strncmp_cstr[OF Cons.prems assms(2), of "length ys"]
      by (auto simp: prefix_def) (metis append_take_drop_id)
    moreover have "prefix ys (x # xs) \<Longrightarrow> m s = m sub"
      using assms(2,3) ms by (cases ys) auto
    ultimately show ?thesis by auto
  qed
  show ?case
  proof (cases "prefix ys (x # xs)")
    case True
    then have "(LEAST i. prefix ys (drop i (x # xs))) = 0"
      by (intro Least_equality) auto
    with True hit ms show ?thesis
      by (simp add: strstr_from.simps[of s] prefix_imp_sublist)
  next
    case False
    have sub: "sublist ys (x # xs) \<longleftrightarrow> sublist ys xs"
      using False by (simp add: sublist_Cons_right)
    have least: "(LEAST i. prefix ys (drop i (x # xs))) = Suc (LEAST i. prefix ys (drop i xs))"
      if "sublist ys xs"
    proof -
      from that obtain ps ss where "xs = ps @ ys @ ss" by (auto simp: sublist_def)
      then have "prefix ys (drop (Suc (length ps)) (x # xs))" by simp
      from Least_Suc[of "\<lambda>i. prefix ys (drop i (x # xs))", OF this] False show ?thesis
        by simp
    qed
    have "strstr_from s sub (length ys) m = strstr_from (s + 1) sub (length ys) m"
      using False hit ms by (subst strstr_from.simps) auto
    with Cons.IH[OF xs] sub least show ?thesis
      by (auto simp: add.assoc)
  qed
qed

text \<open>
  \<^verbatim>\<open>strstr\<close> on two terminated strings returns, and returns the address of the first
  occurrence of the second string in the first, or NULL exactly when there is none.
\<close>

theorem strstr_correct:
  assumes "cstr m s xs" and "cstr m sub ys"
  shows "strstr s sub m =
    Some (if sublist ys xs then Some (s + of_nat (LEAST i. prefix ys (drop i xs))) else None)"
proof (cases "ys = []")
  case True
  have "(LEAST i. prefix [] (drop i xs)) = 0" by (rule Least_equality) auto
  moreover have "strlen sub m = Some 0" using strlen_cstr[OF assms(2)] True by simp
  ultimately show ?thesis using True by (simp add: strstr_def)
next
  case False
  with assms show ?thesis by (simp add: strstr_def strlen_cstr strstr_from_cstr)
qed

theorem strstr_correct_witness:
  "strstr 10 20 (\<lambda>a. if a = 10 then 1 else if a = 11 then 2 else if a = 20 then 2 else 0)
     = Some (Some (11 :: u64))"
proof -
  let ?m = "\<lambda>a::u64. (if a = 10 then 1 else if a = 11 then 2 else if a = 20 then 2 else 0) :: u8"
  have "(LEAST i. prefix [2::u8] (drop i [1, 2])) = 1"
    by (rule Least_equality) (auto intro!: Suc_leI gr0I)
  then show ?thesis
    using strstr_correct[of ?m 10 "[1, 2]" 20 "[2]"] by (simp add: sublist_Cons_right)
qed

lemma cstr_cong:
  assumes "\<And>i. i \<le> length xs \<Longrightarrow> m' (p + of_nat i) = m (p + of_nat i)"
  shows "cstr m' p xs \<longleftrightarrow> cstr m p xs"
  using assms
proof (induction xs arbitrary: p)
  case Nil
  then show ?case using Nil[of 0] by simp
next
  case (Cons x xs)
  have "m' (p + 1 + of_nat i) = m (p + 1 + of_nat i)" if "i \<le> length xs" for i
    using Cons.prems[of "Suc i"] that by (simp add: add.commute add.left_commute)
  moreover have "m' p = m p" using Cons.prems[of 0] by simp
  ultimately show ?case using Cons.IH[of "p + 1"] by simp
qed

lemma cstr_iff_nth:
  "cstr m p xs \<longleftrightarrow> (\<forall>i<length xs. m (p + of_nat i) = xs ! i \<and> xs ! i \<noteq> 0) \<and>
     m (p + of_nat (length xs)) = 0"
proof (induction xs arbitrary: p)
  case Nil
  then show ?case by simp
next
  case (Cons x xs)
  show ?case
    by (auto simp: Cons.IH All_less_Suc2 add.assoc)
qed

text \<open>
  \<^verbatim>\<open>strlcpy\<close> never overruns its buffer and always terminates it: for a non-empty buffer that
  does not overlap the source string, the destination afterwards holds the longest prefix of
  the source that fits with its terminator, no byte outside the buffer is written, and the
  result is the length of the source (so a result of at least \<open>sz\<close> means truncation).
\<close>

theorem strlcpy_correct:
  assumes "cstr m src xs" and "0 < sz" and "fits dest sz" and "fits src (Suc (length xs))"
    and "unat dest + sz \<le> unat src \<or> unat src + Suc (length xs) \<le> unat dest"
  shows "\<exists>m'. strlcpy dest src sz m = Some (length xs, m')
    \<and> cstr m' dest (take (sz - 1) xs) \<and> (\<forall>x. in_block x dest sz \<or> m' x = m x)"
proof -
  define n where "n = (if length xs < sz - 1 then length xs else sz - 1)"
  define m' where "m' = (memcpy dest src n m)(dest + of_nat n := 0)"
  have n: "n < sz" "n \<le> length xs" "take (sz - 1) xs = take n xs" "length (take n xs) = n"
    using assms(2) by (auto simp: n_def)
  have f: "fits dest n" "fits src n" using assms n by (auto simp: fits_def)
  have cp: "memcpy dest src n m x = (if in_block x dest n then m (src + (x - dest)) else m x)" for x
    using f assms(5) n by (intro memcpy_apply) auto
  have idx: "m' (dest + of_nat i) = m (src + of_nat i)" if "i < n" for i
  proof -
    have "unat (dest + of_nat i) = unat dest + i" "unat (dest + of_nat n) = unat dest + n"
      using assms(3) n that by (auto intro!: unat_add_of_nat[of _ sz])
    then have "dest + of_nat i \<noteq> dest + of_nat n" "in_block (dest + of_nat i) dest n"
      using that by (auto simp: in_block_def)
    then show ?thesis by (simp add: m'_def cp)
  qed
  have "cstr m' dest (take n xs)"
    using assms(1) idx n by (auto simp: cstr_iff_nth m'_def)
  moreover have "in_block x dest sz \<or> m' x = m x" for x
    using n unat_add_of_nat[OF assms(3), of n] by (auto simp: m'_def cp in_block_def)
  moreover have "strlcpy dest src sz m = Some (length xs, m')"
    using assms(2) by (simp add: strlcpy_def strlen_cstr[OF assms(1)] m'_def n_def Let_def)
  ultimately show ?thesis using n by auto
qed

theorem strlcpy_correct_witness:
  "\<exists>m'. strlcpy 50 10 2 (\<lambda>a. if a = 10 then 5 else if a = 11 then 6 else if a = 12 then 7 else 0)
      = Some (3, m') \<and> cstr m' 50 [5]"
  using strlcpy_correct[of "\<lambda>a. if a = 10 then 5 else if a = 11 then 6 else if a = 12 then 7 else 0"
      10 "[5, 6, 7]" 2 50]
  by (auto simp: fits_def)

end
