(* ===== verification/Memblock.thy ===== *)
theory Memblock
  imports Kstring
begin

text \<open>
  The boot-time allocator of \<^verbatim>\<open>kernel/mm/memblock.c\<close>: a table of at most 64 free physical
  regions from which reserved ranges are cut out and from whose upper ends early allocations are
  taken. Addresses are 64-bit words and all arithmetic wraps as in the code. The abstract value of
  the table is the set of addresses it covers.
\<close>

abbreviation MEMBLOCK_MAX :: nat where "MEMBLOCK_MAX \<equiv> 64"
abbreviation (input) MEM_USABLE :: u32 where "MEM_USABLE \<equiv> 1"

record memblock_region =
  r_base :: u64
  r_end :: u64

record mem_region =
  m_base :: u64
  m_len :: u64
  m_type :: u32

record boot_module =
  phys_start :: u64
  phys_end :: u64

record boot_info =
  bi_mmap :: "mem_region list"
  bi_modules :: "boot_module list"
  mbi_phys :: u64
  mbi_size :: u64

record memblock =
  mb_regions :: "memblock_region list"
  mb_max_ram :: u64
  mb_retired :: bool
  mb_allocated :: u64

datatype memblock_panic = Memblock_retired | Memblock_no_memory

section \<open>The region table\<close>

definition add_region :: "u64 \<Rightarrow> u64 \<Rightarrow> memblock_region list \<Rightarrow> memblock_region list" where
  "add_region b e rs =
     (if e \<le> b then rs else if length rs = MEMBLOCK_MAX then rs
      else rs @ [\<lparr>r_base = b, r_end = e\<rparr>])"

definition cuts :: "u64 \<Rightarrow> u64 \<Rightarrow> memblock_region \<Rightarrow> bool" where
  "cuts rb re r \<longleftrightarrow> \<not> (re \<le> r_base r \<or> rb \<ge> r_end r)"

text \<open>One iteration of the loop of \<^verbatim>\<open>reserve\<close> on an intersecting region.\<close>

definition cut_at :: "u64 \<Rightarrow> u64 \<Rightarrow> nat \<Rightarrow> memblock_region list \<Rightarrow> memblock_region list" where
  "cut_at rb re i rs =
     (let r = rs ! i; old_base = r_base r; old_end = r_end r;
          rs = rs[i := \<lparr>r_base = old_base, r_end = max old_base (min rb old_end)\<rparr>]
      in if re < old_end then add_region (max re old_base) old_end rs else rs)"

lemma cut_at_unfold:
  assumes "i < length rs"
  shows "cut_at rb re i rs =
    rs[i := \<lparr>r_base = r_base (rs ! i), r_end = max (r_base (rs ! i)) (min rb (r_end (rs ! i)))\<rparr>] \<or>
    (re < r_end (rs ! i) \<and> cut_at rb re i rs =
      rs[i := \<lparr>r_base = r_base (rs ! i), r_end = max (r_base (rs ! i)) (min rb (r_end (rs ! i)))\<rparr>] @
        [\<lparr>r_base = max re (r_base (rs ! i)), r_end = r_end (rs ! i)\<rparr>])"
  by (auto simp: cut_at_def add_region_def Let_def)

lemma cut_at_measure:
  assumes "i < length rs" and "cuts rb re (rs ! i)"
  shows "length (filter (cuts rb re) (drop (Suc i) (cut_at rb re i rs))) <
    length (filter (cuts rb re) (drop i rs))"
proof -
  have "drop i rs = rs ! i # drop (Suc i) rs" using assms(1) by (simp add: Cons_nth_drop_Suc)
  then have n: "length (filter (cuts rb re) (drop i rs)) = Suc (length (filter (cuts rb re) (drop (Suc i) rs)))"
    using assms(2) by simp
  have "\<not> cuts rb re \<lparr>r_base = max re b, r_end = e\<rparr>" for b e by (simp add: cuts_def)
  with n cut_at_unfold[OF assms(1), of rb re] show ?thesis
    using assms(1) by (auto simp: drop_update_cancel)
qed

function reserve_from :: "u64 \<Rightarrow> u64 \<Rightarrow> nat \<Rightarrow> memblock_region list \<Rightarrow> memblock_region list" where
  "reserve_from rb re i rs =
     (if i < length rs then
        (if cuts rb re (rs ! i) then reserve_from rb re (Suc i) (cut_at rb re i rs)
         else reserve_from rb re (Suc i) rs)
      else rs)"
  by pat_completeness auto
termination
proof (relation "measures [\<lambda>(rb, re, i, rs). length (filter (cuts rb re) (drop i rs)), \<lambda>(rb, re, i, rs). length rs - i]",
    goal_cases)
  case (2 rb re i rs)
  then show ?case using cut_at_measure[of i rs rb re] by simp
next
  case (3 rb re i rs)
  then have "drop i rs = rs ! i # drop (Suc i) rs" by (simp add: Cons_nth_drop_Suc)
  then show ?case using 3 by (simp del: drop_Suc)
qed simp

declare reserve_from.simps [simp del]

definition reserve :: "u64 \<Rightarrow> u64 \<Rightarrow> memblock_region list \<Rightarrow> memblock_region list" where
  "reserve rb re rs =
     filter (\<lambda>r. r_end r > r_base r)
       (reserve_from (align_down rb PAGE_SIZE) (align_up re PAGE_SIZE) 0 rs)"

section \<open>Initialisation and allocation\<close>

definition add_ram :: "mem_region \<Rightarrow> memblock \<Rightarrow> memblock" where
  "add_ram m s =
     (if m_type m \<noteq> MEM_USABLE then s
      else
        (let b = align_up (m_base m) PAGE_SIZE; e = align_down (m_base m + m_len m) PAGE_SIZE
         in s\<lparr>mb_regions := add_region b e (mb_regions s),
              mb_max_ram := (if e > mb_max_ram s then e else mb_max_ram s)\<rparr>))"

definition mb_reserve :: "u64 \<Rightarrow> u64 \<Rightarrow> memblock \<Rightarrow> memblock" where
  "mb_reserve rb re s = s\<lparr>mb_regions := reserve rb re (mb_regions s)\<rparr>"

definition memblock_init :: "u64 \<Rightarrow> u64 \<Rightarrow> boot_info \<Rightarrow> memblock \<Rightarrow> memblock" where
  "memblock_init kernel_phys_start kernel_phys_end bi s =
     (let s = fold add_ram (bi_mmap bi) s;
          s = mb_reserve 0 0x100000 s;
          s = mb_reserve kernel_phys_start kernel_phys_end s;
          s = mb_reserve (mbi_phys bi) (mbi_phys bi + mbi_size bi) s
      in fold (\<lambda>m. mb_reserve (phys_start m) (phys_end m)) (bi_modules bi) s)"

text \<open>The search loop: the last region of the table that can hold the block, as its base.\<close>

fun find_base :: "u64 \<Rightarrow> u64 \<Rightarrow> u64 \<Rightarrow> nat \<Rightarrow> memblock_region list \<Rightarrow> u64 option" where
  "find_base sz al limit 0 rs = None"
| "find_base sz al limit (Suc i) rs =
     (let r = rs ! i; e = min (r_end r) limit in
      if e < sz then find_base sz al limit i rs
      else
        (let b = align_down (e - sz) al in
         if b < r_base r then find_base sz al limit i rs else Some b))"

definition memblock_alloc :: "u64 \<Rightarrow> u64 \<Rightarrow> u64 \<Rightarrow> memblock \<times> memory \<Rightarrow> memblock_panic + u64 \<times> memblock \<times> memory" where
  "memblock_alloc size0 al limit sm =
     (case sm of (s, m) \<Rightarrow>
        if mb_retired s then Inl Memblock_retired
        else
          (let sz = align_up size0 PAGE_SIZE in
           case find_base sz al limit (length (mb_regions s)) (mb_regions s) of
             None \<Rightarrow> Inl Memblock_no_memory
           | Some b \<Rightarrow>
               Inr (b, (mb_reserve b (b + sz) s)\<lparr>mb_allocated := mb_allocated s + sz\<rparr>,
                    memset (phys_to_virt b) 0 (unat sz) m)))"

definition memblock_free_regions :: "memblock \<Rightarrow> memblock_region list" where
  "memblock_free_regions s = mb_regions s"

definition memblock_max_ram :: "memblock \<Rightarrow> u64" where
  "memblock_max_ram s = mb_max_ram s"

definition memblock_retire :: "memblock \<Rightarrow> memblock" where
  "memblock_retire s = s\<lparr>mb_retired := True\<rparr>"

section \<open>The covered set\<close>

definition rcover :: "memblock_region \<Rightarrow> u64 set" where
  "rcover r = {r_base r..<r_end r}"

definition cover :: "memblock_region list \<Rightarrow> u64 set" where
  "cover rs = (\<Union>r\<in>set rs. rcover r)"

definition apart :: "memblock_region list \<Rightarrow> bool" where
  "apart rs \<longleftrightarrow> sorted_wrt (\<lambda>r s. rcover r \<inter> rcover s = {}) rs"

lemma cover_simps [simp]:
  "cover [] = {}" "cover (r # rs) = rcover r \<union> cover rs" "cover (rs @ ts) = cover rs \<union> cover ts"
  by (auto simp: cover_def)

lemma apart_Nil: "apart []"
  by (simp add: apart_def)

lemma apart_Cons: "apart (r # rs) \<longleftrightarrow> rcover r \<inter> cover rs = {} \<and> apart rs"
  by (auto simp: apart_def cover_def)

lemma apart_append: "apart (rs @ ts) \<longleftrightarrow> apart rs \<and> apart ts \<and> cover rs \<inter> cover ts = {}"
  by (induction rs) (auto simp: apart_Cons apart_Nil)

lemma cover_filter: "cover (filter (\<lambda>r. r_end r > r_base r) rs) = cover rs"
  by (induction rs) (auto simp: rcover_def)

lemma apart_filter: "apart rs \<Longrightarrow> apart (filter P rs)"
  by (simp add: apart_def sorted_wrt_filter)

text \<open>The two pieces that replace an intersecting region.\<close>

lemma split_at: "i < length rs \<Longrightarrow> rs = take i rs @ rs ! i # drop (Suc i) rs"
  by (simp add: id_take_nth_drop)

lemma cut_pieces:
  assumes "cuts rb re r"
  defines "lft \<equiv> \<lparr>r_base = r_base r, r_end = max (r_base r) (min rb (r_end r))\<rparr>"
    and "rgt \<equiv> \<lparr>r_base = max re (r_base r), r_end = r_end r\<rparr>"
  shows "rcover lft = rcover r \<inter> {..<rb}" "rcover rgt = rcover r \<inter> {re..}"
  using assms by (auto simp: rcover_def cuts_def max_def min_def split: if_splits)

lemma cut_at_pieces:
  assumes i: "i < length rs" and c: "cuts rb re (rs ! i)"
  obtains lft ts where "cut_at rb re i rs = take i rs @ lft # drop (Suc i) rs @ ts"
    "rcover lft = rcover (rs ! i) \<inter> {..<rb}" "cover ts \<subseteq> rcover (rs ! i) \<inter> {re..}"
    "length ts \<le> of_bool (re < r_end (rs ! i))"
    "length rs < MEMBLOCK_MAX \<longrightarrow> cover ts = rcover (rs ! i) \<inter> {re..}"
    "\<forall>t\<in>set ts. r_base t = re \<and> r_end t = r_end (rs ! i)"
    "r_base lft = r_base (rs ! i)" "r_end lft \<in> {r_base (rs ! i), rb, r_end (rs ! i)}"
    "length rs \<le> MEMBLOCK_MAX \<longrightarrow> length rs + length ts \<le> MEMBLOCK_MAX"
proof -
  let ?r = "rs ! i"
  let ?lft = "\<lparr>r_base = r_base ?r, r_end = max (r_base ?r) (min rb (r_end ?r))\<rparr>"
  let ?rgt = "\<lparr>r_base = max re (r_base ?r), r_end = r_end ?r\<rparr>"
  define ts where "ts = (if re < r_end ?r \<and> length rs \<noteq> MEMBLOCK_MAX then [?rgt] else [])"
  have lt: "r_base ?r < r_end ?r \<or> r_end ?r \<le> r_base ?r" by auto
  have upd: "rs[i := ?lft] = take i rs @ ?lft # drop (Suc i) rs"
    using i by (simp add: upd_conv_take_nth_drop)
  have ne: "max re (r_base ?r) < r_end ?r \<or> rcover ?r \<inter> {re..} = {}"
    by (auto simp: rcover_def)
  show thesis
  proof (cases "max re (r_base ?r) < r_end ?r")
    case True
    then have "cut_at rb re i rs = rs[i := ?lft] @ ts"
      using i by (simp add: cut_at_def Let_def ts_def add_region_def not_le[symmetric] del: max_less_iff_conj)
    then have "cut_at rb re i rs = take i rs @ ?lft # drop (Suc i) rs @ ts" by (simp add: upd)
    then show ?thesis
      by (rule that) (use cut_pieces[OF c] True[unfolded max_less_iff_conj] c in \<open>auto simp: ts_def max_def min_def cuts_def\<close>)
  next
    case False
    then have "cut_at rb re i rs = take i rs @ ?lft # drop (Suc i) rs @ []"
      by (simp only: cut_at_def Let_def add_region_def not_less upd if_True if_cancel append_Nil2)
    then show ?thesis
      by (rule that) (use cut_pieces[OF c] ne False in \<open>auto simp: max_def min_def\<close>)
  qed
qed

lemma cover_split: "i < length rs \<Longrightarrow> cover rs = cover (take i rs) \<union> rcover (rs ! i) \<union> cover (drop (Suc i) rs)"
  using split_at[of i rs] by (metis cover_simps(2,3) Un_assoc)

text \<open>Cutting never adds memory and what has been cut is gone, even when the table is full.\<close>

lemma reserve_from_safe:
  "cover (take i rs) \<inter> {rb..<re} = {} \<Longrightarrow>
    cover (reserve_from rb re i rs) \<subseteq> cover rs \<and> cover (reserve_from rb re i rs) \<inter> {rb..<re} = {}"
proof (induction rb re i rs rule: reserve_from.induct)
  case (1 rb re i rs)
  show ?case
  proof (cases "i < length rs")
    case False
    then show ?thesis using "1.prems" by (subst reserve_from.simps; subst reserve_from.simps) simp
  next
    case True
    note take_Suc = take_Suc_conv_app_nth[OF True]
    show ?thesis
    proof (cases "cuts rb re (rs ! i)")
      case c: True
      obtain lft ts where p: "cut_at rb re i rs = take i rs @ lft # drop (Suc i) rs @ ts"
        "rcover lft = rcover (rs ! i) \<inter> {..<rb}" "cover ts \<subseteq> rcover (rs ! i) \<inter> {re..}"
        by (rule cut_at_pieces[OF True c])
      have eq: "reserve_from rb re i rs = reserve_from rb re (Suc i) (cut_at rb re i rs)"
        using True c by (subst reserve_from.simps) simp
      have "take (Suc i) (cut_at rb re i rs) = take i rs @ [lft]" using True by (simp add: p(1))
      then have "cover (take (Suc i) (cut_at rb re i rs)) \<inter> {rb..<re} = {}"
        using "1.prems" p(2) by (auto simp del: cover_simps(3) simp: cover_simps(3)[of _ "[lft]"])
      from "1.IH"(1)[OF True c this] show ?thesis
        unfolding eq using p cover_split[OF True] by auto
    next
      case c: False
      have eq: "reserve_from rb re i rs = reserve_from rb re (Suc i) rs"
        using True c by (subst reserve_from.simps) simp
      have "cover (take (Suc i) rs) \<inter> {rb..<re} = {}"
        using "1.prems" c by (auto simp: take_Suc rcover_def cuts_def)
      from "1.IH"(2)[OF True c this] show ?thesis unfolding eq .
    qed
  qed
qed

text \<open>Nothing outside the cut is lost as long as the table has room for the right-hand pieces.\<close>

definition splits :: "u64 \<Rightarrow> u64 \<Rightarrow> memblock_region \<Rightarrow> bool" where
  "splits rb re r \<longleftrightarrow> cuts rb re r \<and> re < r_end r"

lemma filter_splits_new: "\<forall>t\<in>set ts. r_base t \<ge> re \<Longrightarrow> filter (splits rb re) ts = []"
  by (auto simp: filter_empty_conv splits_def cuts_def)

lemma reserve_from_complete:
  "length rs + length (filter (splits rb re) (drop i rs)) \<le> MEMBLOCK_MAX \<Longrightarrow> rb \<le> re \<Longrightarrow>
    cover rs - {rb..<re} \<subseteq> cover (reserve_from rb re i rs) \<and>
    length (reserve_from rb re i rs) \<le> length rs + length (filter (splits rb re) (drop i rs))"
proof (induction rb re i rs rule: reserve_from.induct)
  case (1 rb re i rs)
  show ?case
  proof (cases "i < length rs")
    case False
    then show ?thesis by (subst (1 2) reserve_from.simps) simp
  next
    case True
    have dr: "drop i rs = rs ! i # drop (Suc i) rs" using True by (simp add: Cons_nth_drop_Suc)
    show ?thesis
    proof (cases "cuts rb re (rs ! i)")
      case c: True
      obtain lft ts where p: "cut_at rb re i rs = take i rs @ lft # drop (Suc i) rs @ ts"
        "rcover lft = rcover (rs ! i) \<inter> {..<rb}" "length ts \<le> of_bool (re < r_end (rs ! i))"
        "length rs < MEMBLOCK_MAX \<longrightarrow> cover ts = rcover (rs ! i) \<inter> {re..}"
        "\<forall>t\<in>set ts. r_base t = re \<and> r_end t = r_end (rs ! i)"
        by (rule cut_at_pieces[OF True c])
      have eq: "reserve_from rb re i rs = reserve_from rb re (Suc i) (cut_at rb re i rs)"
        using True c by (subst reserve_from.simps) simp
      have "cover ts = rcover (rs ! i) \<inter> {re..}"
      proof (cases "re < r_end (rs ! i)")
        case s: True
        then show ?thesis using "1.prems"(1) c dr by (intro p(4)[rule_format]) (simp add: splits_def)
      next
        case False
        then show ?thesis using p(3) by (auto simp: rcover_def)
      qed
      then have cov: "cover rs - {rb..<re} \<subseteq> cover (cut_at rb re i rs)"
        unfolding p(1) cover_split[OF True] using p(2) by auto
      have drop: "drop (Suc i) (cut_at rb re i rs) = drop (Suc i) rs @ ts" using True by (simp add: p(1))
      have len: "length (cut_at rb re i rs) = length rs + length ts" using True by (simp add: p(1))
      have "filter (splits rb re) ts = []"
        by (rule filter_splits_new) (simp add: p(5))
      then have new: "length (filter (splits rb re) (drop (Suc i) (cut_at rb re i rs))) =
          length (filter (splits rb re) (drop (Suc i) rs))" by (simp add: drop)
      have old: "length (filter (splits rb re) (drop i rs)) =
          of_bool (re < r_end (rs ! i)) + length (filter (splits rb re) (drop (Suc i) rs))"
        using c by (simp add: dr splits_def)
      have fit: "length (cut_at rb re i rs) + length (filter (splits rb re) (drop (Suc i) (cut_at rb re i rs))) \<le>
          length rs + length (filter (splits rb re) (drop i rs))"
        unfolding new old len using p(3) by linarith
      from "1.IH"(1)[OF True c order_trans[OF fit "1.prems"(1)] "1.prems"(2)]
      show ?thesis unfolding eq using cov fit by (blast intro: order_trans)
    next
      case c: False
      have eq: "reserve_from rb re i rs = reserve_from rb re (Suc i) rs"
        using True c by (subst reserve_from.simps) simp
      then show ?thesis
        using "1.IH"(2)[OF True c] "1.prems" c dr by (simp add: splits_def)
    qed
  qed
qed

lemma reserve_from_apart:
  "apart rs \<Longrightarrow> rb \<le> re \<Longrightarrow> apart (reserve_from rb re i rs)"
proof (induction rb re i rs rule: reserve_from.induct)
  case (1 rb re i rs)
  show ?case
  proof (cases "i < length rs \<and> cuts rb re (rs ! i)")
    case True
    then obtain lft ts where p: "cut_at rb re i rs = take i rs @ lft # drop (Suc i) rs @ ts"
      "rcover lft = rcover (rs ! i) \<inter> {..<rb}" "cover ts \<subseteq> rcover (rs ! i) \<inter> {re..}"
      "length ts \<le> of_bool (re < r_end (rs ! i))"
      using cut_at_pieces[of i rs rb re] by metis
    have "apart (take i rs @ rs ! i # drop (Suc i) rs)" using "1.prems"(1) split_at[of i rs] True by simp
    moreover have "apart ts"
    proof -
      have "length ts \<le> 1" using p(4) by (cases "re < r_end (rs ! i)") simp_all
      then show ?thesis by (cases ts) (simp_all add: apart_def)
    qed
    ultimately have "apart (cut_at rb re i rs)"
      using p(2,3) "1.prems"(2) unfolding p(1) apart_append apart_Cons cover_simps by fastforce
    then show ?thesis using "1.IH"(1) "1.prems"(2) True by (subst reserve_from.simps) simp
  next
    case False
    then show ?thesis using "1.IH"(2) "1.prems" by (subst reserve_from.simps) auto
  qed
qed

lemma apart_one_split:
  assumes "apart rs" and "rb < re"
  shows "length (filter (splits rb re) rs) \<le> 1"
  using assms(1)
proof (induction rs)
  case (Cons r rs)
  show ?case
  proof (cases "splits rb re r")
    case True
    have "re \<noteq> 0" using assms(2) by auto
    then have e: "unat (re - 1) = unat re - 1" by (rule unat_minus_one)
    have m: "re - 1 \<in> rcover s" if "splits rb re s" for s
      using that assms(2) unfolding splits_def cuts_def rcover_def
      by (auto simp: not_le word_less_nat_alt word_le_nat_alt e)
    have "\<not> splits rb re s" if "s \<in> set rs" for s
    proof
      assume "splits rb re s"
      then have "re - 1 \<in> rcover r \<inter> rcover s" using m True by blast
      then show False using Cons.prems that by (auto simp: apart_def)
    qed
    then show ?thesis by (simp add: filter_empty_conv[THEN iffD2])
  next
    case False
    then show ?thesis using Cons by (simp add: apart_Cons)
  qed
qed simp

lemma reserve_safe:
  "cover (reserve rb re rs) \<subseteq> cover rs"
  "cover (reserve rb re rs) \<inter> {align_down rb PAGE_SIZE..<align_up re PAGE_SIZE} = {}"
  using reserve_from_safe[of 0 rs "align_down rb PAGE_SIZE" "align_up re PAGE_SIZE"]
  by (simp_all add: reserve_def cover_filter)

lemma reserve_complete:
  assumes "apart rs" and "length rs < MEMBLOCK_MAX" and "align_down rb PAGE_SIZE < align_up re PAGE_SIZE"
  shows "cover (reserve rb re rs) = cover rs - {align_down rb PAGE_SIZE..<align_up re PAGE_SIZE}"
    and "apart (reserve rb re rs)" and "length (reserve rb re rs) \<le> Suc (length rs)"
proof -
  let ?rb = "align_down rb PAGE_SIZE" and ?re = "align_up re PAGE_SIZE"
  have one: "length (filter (splits ?rb ?re) (drop 0 rs)) \<le> 1"
    using apart_one_split[OF assms(1,3)] by simp
  then have fit: "length rs + length (filter (splits ?rb ?re) (drop 0 rs)) \<le> MEMBLOCK_MAX"
    using assms(2) by linarith
  note c = reserve_from_complete[OF fit less_imp_le[OF assms(3)]]
  have "cover rs - {?rb..<?re} \<subseteq> cover (reserve rb re rs)"
    using conjunct1[OF c] by (simp add: reserve_def cover_filter)
  then show "cover (reserve rb re rs) = cover rs - {?rb..<?re}"
    using reserve_safe[of rb re rs] by blast
  show "apart (reserve rb re rs)"
    unfolding reserve_def by (intro apart_filter reserve_from_apart assms(1) less_imp_le[OF assms(3)])
  have "length (reserve rb re rs) \<le> length (reserve_from ?rb ?re 0 rs)" by (simp add: reserve_def)
  then show "length (reserve rb re rs) \<le> Suc (length rs)" using conjunct2[OF c] one by linarith
qed

section \<open>Page alignment of the table\<close>

definition page_regions :: "memblock_region list \<Rightarrow> bool" where
  "page_regions rs \<longleftrightarrow> (\<forall>r\<in>set rs. is_aligned (r_base r) PAGE_SIZE \<and> is_aligned (r_end r) PAGE_SIZE)"

lemma reserve_from_aligned:
  "page_regions rs \<Longrightarrow> is_aligned rb PAGE_SIZE \<Longrightarrow> is_aligned re PAGE_SIZE \<Longrightarrow> page_regions (reserve_from rb re i rs)"
proof (induction rb re i rs rule: reserve_from.induct)
  case (1 rb re i rs)
  show ?case
  proof (cases "i < length rs \<and> cuts rb re (rs ! i)")
    case True
    then obtain lft ts where p: "cut_at rb re i rs = take i rs @ lft # drop (Suc i) rs @ ts"
      "\<forall>t\<in>set ts. r_base t = re \<and> r_end t = r_end (rs ! i)"
      "r_base lft = r_base (rs ! i)" "r_end lft \<in> {r_base (rs ! i), rb, r_end (rs ! i)}"
      using cut_at_pieces[of i rs rb re] by metis
    have "rs ! i \<in> set rs" using True by simp
    then have "page_regions (cut_at rb re i rs)"
      using "1.prems" p unfolding page_regions_def by (auto dest: in_set_takeD in_set_dropD)
    then show ?thesis using "1.IH"(1) "1.prems" True by (subst reserve_from.simps) simp
  next
    case False
    then show ?thesis using "1.IH"(2) "1.prems" by (subst reserve_from.simps) auto
  qed
qed

lemma reserve_aligned: "page_regions rs \<Longrightarrow> page_regions (reserve rb re rs)"
  using reserve_from_aligned[OF _ align_down_aligned align_up_aligned, of rs rb re 0]
  by (simp add: reserve_def page_regions_def)

lemma add_region_aligned:
  "page_regions rs \<Longrightarrow> is_aligned b PAGE_SIZE \<Longrightarrow> is_aligned e PAGE_SIZE \<Longrightarrow> page_regions (add_region b e rs)"
  by (auto simp: add_region_def page_regions_def)

section \<open>Allocation from the table\<close>

lemma and_le: "(x AND y) \<le> (x :: 'a::len word)"
  by (rule word_and_le2)

lemma find_base_ok:
  assumes "n \<le> length rs" and "find_base sz al limit n rs = Some b"
  shows "\<exists>r\<in>set rs. r_base r \<le> b \<and> sz \<le> min (r_end r) limit \<and> b = align_down (min (r_end r) limit - sz) al"
  using assms
proof (induction n)
  case (Suc i)
  then have "rs ! i \<in> set rs" by simp
  then show ?case using Suc by (auto simp: Let_def not_less split: if_splits)
qed simp

lemma find_base_block:
  assumes "n \<le> length rs" and "find_base sz al limit n rs = Some b"
  shows "{b..<b + sz} \<subseteq> cover rs" "b + sz \<le> limit" "b \<le> b + sz" "b AND (al - 1) = 0"
    "unat (b + sz) = unat b + unat sz" "\<exists>r\<in>set rs. b + sz \<le> r_end r"
proof -
  obtain r where r: "r \<in> set rs" "r_base r \<le> b" "sz \<le> min (r_end r) limit"
      "b = align_down (min (r_end r) limit - sz) al"
    using find_base_ok[OF assms] by blast
  have "b \<le> min (r_end r) limit - sz" unfolding r(4) align_down_def by (rule and_le)
  then have u: "unat b + unat sz \<le> unat (min (r_end r) limit)"
    using r(3) by (simp add: word_le_nat_alt unat_sub)
  then show eq: "unat (b + sz) = unat b + unat sz"
    using unat_lt_64[of "min (r_end r) limit"] by (intro unat_add_no_wrap) linarith
  have le: "b + sz \<le> min (r_end r) limit" using u by (simp add: word_le_nat_alt eq del: min_le_iff_disj)
  show "b \<le> b + sz" by (simp add: word_le_nat_alt eq)
  show "b + sz \<le> limit" "\<exists>r\<in>set rs. b + sz \<le> r_end r" using le r(1) by auto
  have "{b..<b + sz} \<subseteq> rcover r" using le r(2) by (auto simp: rcover_def)
  then show "{b..<b + sz} \<subseteq> cover rs" using r(1) by (auto simp: cover_def)
  have "(x AND NOT y) AND y = 0" for x y :: u64 by (simp add: and.assoc)
  then show "b AND (al - 1) = 0" unfolding r(4) align_down_def .
qed

lemma align_up_ge:
  assumes "unat x \<le> 2 ^ 64 - 4096"
  shows "x \<le> align_up x PAGE_SIZE" "is_aligned x PAGE_SIZE \<Longrightarrow> align_up x PAGE_SIZE = x"
proof -
  have u: "unat (align_up x PAGE_SIZE) = (unat x + 4095) div 4096 * 4096"
    using assms by (intro unat_align_up_page_no_wrap) simp
  then show "x \<le> align_up x PAGE_SIZE" by (simp add: word_le_nat_alt)
  show "is_aligned x PAGE_SIZE \<Longrightarrow> align_up x PAGE_SIZE = x"
    using u by (auto simp: is_aligned_page word_unat_eq_iff)
qed

lemma align_down_eq: "is_aligned x PAGE_SIZE \<Longrightarrow> align_down x PAGE_SIZE = x"
  by (auto simp: is_aligned_page word_unat_eq_iff unat_align_down_page)

lemma page_end_bound:
  assumes "is_aligned e PAGE_SIZE"
  shows "unat e \<le> 2 ^ 64 - 4096"
proof -
  obtain k where k: "unat e = 4096 * k" using assms by (auto simp: is_aligned_page elim: dvdE)
  have "4096 * k < 4096 * 2 ^ 52" using unat_lt_64[of e] by (simp add: k)
  then show ?thesis by (simp add: k)
qed

lemma page_block_cut:
  assumes "page_regions rs" and "r \<in> set rs" and "b + sz \<le> r_end r" and "b \<le> b + sz"
  shows "{b..<b + sz} \<subseteq> {align_down b PAGE_SIZE..<align_up (b + sz) PAGE_SIZE}"
    "is_aligned b PAGE_SIZE \<Longrightarrow> is_aligned sz PAGE_SIZE \<Longrightarrow> unat (b + sz) = unat b + unat sz \<Longrightarrow>
      {align_down b PAGE_SIZE..<align_up (b + sz) PAGE_SIZE} = {b..<b + sz}"
proof -
  have "unat (r_end r) \<le> 2 ^ 64 - 4096" using assms(1,2) by (intro page_end_bound) (auto simp: page_regions_def)
  then have bd: "unat (b + sz) \<le> 2 ^ 64 - 4096" using assms(3) by (simp add: word_le_nat_alt)
  show "{b..<b + sz} \<subseteq> {align_down b PAGE_SIZE..<align_up (b + sz) PAGE_SIZE}"
    using align_up_ge(1)[OF bd] align_down_le[of b] by (auto intro: order_trans less_le_trans)
  show "{align_down b PAGE_SIZE..<align_up (b + sz) PAGE_SIZE} = {b..<b + sz}"
    if "is_aligned b PAGE_SIZE" "is_aligned sz PAGE_SIZE" "unat (b + sz) = unat b + unat sz"
    using that align_up_ge(2)[OF bd] align_down_eq[OF that(1)] by (simp add: is_aligned_page)
qed

lemma direct_map_fits:
  assumes "unat b + n \<le> 2 ^ 47" and "unat b < 2 ^ 47"
  shows "fits (phys_to_virt b) n" "unat (phys_to_virt b) = unat b + 2 ^ 47 * (2 ^ 17 - 1)"
proof -
  have "unat (phys_to_virt b) = unat b + unat HHDM_BASE"
    unfolding phys_to_virt_def using assms(2) by (intro unat_add_no_wrap) simp
  then show "unat (phys_to_virt b) = unat b + 2 ^ 47 * (2 ^ 17 - 1)" by simp
  then show "fits (phys_to_virt b) n" using assms by (simp add: fits_def)
qed

lemma memset_zero_at:
  assumes "fits d n" and "i < n"
  shows "memset d v n m (d + of_nat i) = v"
  using assms by (simp add: memset_apply in_block_def unat_add_of_nat)

lemma memblock_allocD:
  assumes "memblock_alloc size0 al limit (s, m) = Inr (b, s', m')"
  shows "find_base (align_up size0 PAGE_SIZE) al limit (length (mb_regions s)) (mb_regions s) = Some b"
    "mb_regions s' = reserve b (b + align_up size0 PAGE_SIZE) (mb_regions s)"
    "m' = memset (phys_to_virt b) 0 (unat (align_up size0 PAGE_SIZE)) m" "\<not> mb_retired s"
    "mb_max_ram s' = mb_max_ram s" "mb_retired s' = mb_retired s"
  using assms by (auto simp: memblock_alloc_def Let_def mb_reserve_def split: if_splits option.splits)

text \<open>
  A successful \<^verbatim>\<open>memblock_alloc\<close> returns an aligned block that was free, lies below the limit
  and does not wrap around; afterwards no free region meets the block, no memory has been invented,
  and the table is still a table of disjoint regions. If the table has a free slot and the block is
  page aligned and not empty, exactly the block has been taken. The block reads as zero through the
  direct map.
\<close>

theorem memblock_alloc_correct:
  assumes ok: "memblock_alloc size0 al limit (s, m) = Inr (b, s', m')" and pr: "page_regions (mb_regions s)"
    and sz: "sz = align_up size0 PAGE_SIZE"
  shows "{b..<b + sz} \<subseteq> cover (mb_regions s) \<and> b + sz \<le> limit \<and> b \<le> b + sz \<and> b AND (al - 1) = 0 \<and>
    cover (mb_regions s') \<inter> {b..<b + sz} = {} \<and> cover (mb_regions s') \<subseteq> cover (mb_regions s) \<and>
    page_regions (mb_regions s') \<and>
    (apart (mb_regions s) \<and> length (mb_regions s) < MEMBLOCK_MAX \<and> is_aligned b PAGE_SIZE \<and> 0 < sz \<longrightarrow>
      cover (mb_regions s') = cover (mb_regions s) - {b..<b + sz} \<and> apart (mb_regions s')) \<and>
    (unat limit \<le> 2 ^ 47 \<longrightarrow> (\<forall>i<unat sz. m' (phys_to_virt b + of_nat i) = 0))"
proof -
  note d = memblock_allocD[OF ok, folded sz]
  note fb = find_base_block[OF order_refl d(1)]
  obtain r where r: "r \<in> set (mb_regions s)" "b + sz \<le> r_end r" using fb(6) by blast
  note cut = page_block_cut[OF pr r fb(3)]
  have "cover (mb_regions s') \<inter> {b..<b + sz} = {}" "cover (mb_regions s') \<subseteq> cover (mb_regions s)"
    using reserve_safe[of b "b + sz" "mb_regions s"] cut(1) unfolding d(2) by blast+
  moreover have "cover (mb_regions s') = cover (mb_regions s) - {b..<b + sz} \<and> apart (mb_regions s')"
    if a: "apart (mb_regions s)" "length (mb_regions s) < MEMBLOCK_MAX" "is_aligned b PAGE_SIZE" "0 < sz"
  proof -
    have "is_aligned sz PAGE_SIZE" using align_up_aligned sz by simp
    note exact = cut(2)[OF a(3) this fb(5)]
    have "b < b + sz" using a(4) by (simp add: word_less_nat_alt fb(5))
    then have "b \<in> {align_down b PAGE_SIZE..<align_up (b + sz) PAGE_SIZE}" unfolding exact by simp
    then have "align_down b PAGE_SIZE < align_up (b + sz) PAGE_SIZE" by auto
    from reserve_complete(1,2)[OF a(1,2) this] show ?thesis unfolding d(2) exact by blast
  qed
  moreover have "m' (phys_to_virt b + of_nat i) = 0" if "unat limit \<le> 2 ^ 47" "i < unat sz" for i
  proof -
    have "unat b + unat sz \<le> 2 ^ 47" using fb(2,5) that(1) by (simp add: word_le_nat_alt)
    then show ?thesis unfolding d(3) using that(2) by (intro memset_zero_at direct_map_fits) linarith+
  qed
  ultimately show ?thesis using fb(1-4) reserve_aligned[OF pr] unfolding d(2) by blast
qed

theorem memblock_alloc_correct_witness:
  "\<exists>s' m'. memblock_alloc 0x1800 0x1000 0x40000000
      (\<lparr>mb_regions = [\<lparr>r_base = 0x100000, r_end = 0x200000\<rparr>, \<lparr>r_base = 0x300000, r_end = 0x400000\<rparr>],
        mb_max_ram = 0x400000, mb_retired = False, mb_allocated = 0\<rparr>, \<lambda>_. 1) = Inr (0x3FE000, s', m') \<and>
      m' (phys_to_virt 0x3FE000 + 5) = 0 \<and> (0x3FF123 :: u64) \<notin> cover (mb_regions s')"
proof -
  let ?s = "\<lparr>mb_regions = [\<lparr>r_base = 0x100000, r_end = 0x200000\<rparr>, \<lparr>r_base = 0x300000, r_end = 0x400000\<rparr>],
        mb_max_ram = 0x400000, mb_retired = False, mb_allocated = 0\<rparr>"
  have up: "align_up 0x1800 PAGE_SIZE = 0x2000" by (simp add: align_up_def align_down_def)
  have pr: "page_regions (mb_regions ?s)" by (simp add: page_regions_def is_aligned_def)
  have "\<exists>s' m'. memblock_alloc 0x1800 0x1000 0x40000000 (?s, \<lambda>_. 1) = Inr (0x3FE000, s', m')"
    by (simp add: memblock_alloc_def up Let_def align_down_def)
  then obtain s' m' where r: "memblock_alloc 0x1800 0x1000 0x40000000 (?s, \<lambda>_. 1) = Inr (0x3FE000, s', m')" by blast
  from memblock_alloc_correct[OF r pr refl, unfolded up]
  have d: "cover (mb_regions s') \<inter> {0x3FE000..<0x3FE000 + 0x2000} = {}"
    and z: "\<forall>i<unat (0x2000 :: u64). m' (phys_to_virt 0x3FE000 + of_nat i) = 0" by simp_all
  have "(0x3FF123 :: u64) \<in> {0x3FE000..<0x3FE000 + 0x2000}" by simp
  then have "(0x3FF123 :: u64) \<notin> cover (mb_regions s')" using d by blast
  moreover have "m' (phys_to_virt 0x3FE000 + 5) = 0" using z[rule_format, of 5] by simp
  ultimately show ?thesis using r by blast
qed

text \<open>
  \<^verbatim>\<open>reserve\<close> cuts a range out of the free table: whatever the state of the table, no free
  region meets the (page-rounded) range afterwards and nothing is added; and when the regions are
  disjoint and one slot of the table is free, nothing outside the range is lost, the regions stay
  disjoint and the table grows by at most one entry.
\<close>

theorem reserve_correct:
  "cover (reserve rb re rs) \<subseteq> cover rs \<and>
   cover (reserve rb re rs) \<inter> {align_down rb PAGE_SIZE..<align_up re PAGE_SIZE} = {} \<and>
   (apart rs \<and> length rs < MEMBLOCK_MAX \<and> align_down rb PAGE_SIZE < align_up re PAGE_SIZE \<longrightarrow>
     cover (reserve rb re rs) = cover rs - {align_down rb PAGE_SIZE..<align_up re PAGE_SIZE} \<and>
     apart (reserve rb re rs) \<and> length (reserve rb re rs) \<le> Suc (length rs))"
  using reserve_safe[of rb re rs] reserve_complete[of rs rb re] by blast

theorem reserve_correct_witness:
  "cover (reserve 0x101000 0x102800 [\<lparr>r_base = 0x100000, r_end = 0x200000\<rparr>]) =
     {0x100000..<0x200000} - {0x101000..<0x103000} \<and>
   apart (reserve 0x101000 0x102800 [\<lparr>r_base = 0x100000, r_end = 0x200000\<rparr>])"
proof -
  have al: "align_down 0x101000 PAGE_SIZE = 0x101000" "align_up 0x102800 PAGE_SIZE = 0x103000"
    by (simp_all add: align_down_def align_up_def)
  show ?thesis
    using reserve_correct[of "0x101000" "0x102800" "[\<lparr>r_base = 0x100000, r_end = 0x200000\<rparr>]"]
    by (simp add: al rcover_def apart_def)
qed

section \<open>Boot\<close>

definition usable :: "mem_region \<Rightarrow> u64 set" where
  "usable m = (if m_type m = MEM_USABLE
     then {align_up (m_base m) PAGE_SIZE..<align_down (m_base m + m_len m) PAGE_SIZE} else {})"

lemma add_region_cover: "cover (add_region b e rs) \<subseteq> cover rs \<union> {b..<e}"
  by (auto simp: add_region_def rcover_def)

lemma add_ram_fold:
  "cover (mb_regions (fold add_ram ms s)) \<subseteq> cover (mb_regions s) \<union> (\<Union>m\<in>set ms. usable m) \<and>
   (page_regions (mb_regions s) \<longrightarrow> page_regions (mb_regions (fold add_ram ms s)))"
proof (induction ms arbitrary: s)
  case (Cons m ms)
  have "cover (mb_regions (add_ram m s)) \<subseteq> cover (mb_regions s) \<union> usable m"
    using add_region_cover[of "align_up (m_base m) PAGE_SIZE"] by (simp add: add_ram_def Let_def usable_def)
  moreover have "page_regions (mb_regions s) \<longrightarrow> page_regions (mb_regions (add_ram m s))"
    by (simp add: add_ram_def Let_def add_region_aligned align_up_aligned align_down_aligned)
  ultimately show ?case using Cons.IH[of "add_ram m s"] by auto
qed simp

lemma mb_reserve_fold:
  "cover (mb_regions (fold (\<lambda>m. mb_reserve (phys_start m) (phys_end m)) ms s)) \<subseteq> cover (mb_regions s) \<and>
   (\<forall>m\<in>set ms. cover (mb_regions (fold (\<lambda>m. mb_reserve (phys_start m) (phys_end m)) ms s)) \<inter>
      {align_down (phys_start m) PAGE_SIZE..<align_up (phys_end m) PAGE_SIZE} = {}) \<and>
   (page_regions (mb_regions s) \<longrightarrow>
      page_regions (mb_regions (fold (\<lambda>m. mb_reserve (phys_start m) (phys_end m)) ms s)))"
proof (induction ms arbitrary: s)
  case (Cons m ms)
  let ?s1 = "mb_reserve (phys_start m) (phys_end m) s"
  have "cover (mb_regions ?s1) \<subseteq> cover (mb_regions s)"
    "cover (mb_regions ?s1) \<inter> {align_down (phys_start m) PAGE_SIZE..<align_up (phys_end m) PAGE_SIZE} = {}"
    "page_regions (mb_regions s) \<longrightarrow> page_regions (mb_regions ?s1)"
    using reserve_safe[of "phys_start m" "phys_end m" "mb_regions s"] reserve_aligned
    by (simp_all add: mb_reserve_def)
  then show ?case using Cons.IH[of ?s1] by simp blast
qed simp

lemma mb_reserve_regions: "mb_regions (mb_reserve rb re s) = reserve rb re (mb_regions s)"
  by (simp add: mb_reserve_def)

text \<open>
  After \<^verbatim>\<open>memblock_init\<close> every free address is usable RAM, and none of it lies in the first
  megabyte, in the kernel image, in the multiboot information or in a boot module (each rounded
  outwards to pages); all regions are page aligned.
\<close>

theorem memblock_init_safe:
  assumes empty: "mb_regions s = []"
  shows "page_regions (mb_regions (memblock_init ks ke bi s)) \<and>
    (\<forall>x\<in>cover (mb_regions (memblock_init ks ke bi s)).
      (\<exists>m\<in>set (bi_mmap bi). x \<in> usable m) \<and> 0x100000 \<le> x \<and>
      x \<notin> {align_down ks PAGE_SIZE..<align_up ke PAGE_SIZE} \<and>
      x \<notin> {align_down (mbi_phys bi) PAGE_SIZE..<align_up (mbi_phys bi + mbi_size bi) PAGE_SIZE} \<and>
      (\<forall>m\<in>set (bi_modules bi). x \<notin> {align_down (phys_start m) PAGE_SIZE..<align_up (phys_end m) PAGE_SIZE}))"
proof -
  define s1 where "s1 = fold add_ram (bi_mmap bi) s"
  define r2 where "r2 = reserve 0 0x100000 (mb_regions s1)"
  define r3 where "r3 = reserve ks ke r2"
  define r4 where "r4 = reserve (mbi_phys bi) (mbi_phys bi + mbi_size bi) r3"
  define s4 where "s4 = mb_reserve (mbi_phys bi) (mbi_phys bi + mbi_size bi) (mb_reserve ks ke (mb_reserve 0 0x100000 s1))"
  have s4: "mb_regions s4 = r4" by (simp add: s4_def r4_def r3_def r2_def mb_reserve_regions)
  have init: "memblock_init ks ke bi s = fold (\<lambda>m. mb_reserve (phys_start m) (phys_end m)) (bi_modules bi) s4"
    by (simp add: memblock_init_def Let_def s1_def s4_def)
  have c1: "cover (mb_regions s1) \<subseteq> (\<Union>m\<in>set (bi_mmap bi). usable m)" "page_regions (mb_regions s1)"
    using add_ram_fold[of "bi_mmap bi" s] empty by (simp_all add: s1_def page_regions_def)
  have mb: "align_down 0 PAGE_SIZE = 0" "align_up 0x100000 PAGE_SIZE = 0x100000"
    by (simp_all add: align_down_def align_up_def)
  have c2: "cover r2 \<subseteq> cover (mb_regions s1)" "\<forall>x\<in>cover r2. 0x100000 \<le> x" "page_regions r2"
    using reserve_safe[of 0 "0x100000" "mb_regions s1"] reserve_aligned[OF c1(2), of 0 "0x100000"] unfolding r2_def[symmetric] mb
    by (auto simp: not_less disjoint_iff)
  note c3 = reserve_safe[of ks ke r2, folded r3_def] reserve_aligned[OF c2(3), of ks ke, folded r3_def]
  note c4 = reserve_safe[of "mbi_phys bi" "mbi_phys bi + mbi_size bi" r3, folded r4_def]
    reserve_aligned[OF c3(3), of "mbi_phys bi" "mbi_phys bi + mbi_size bi", folded r4_def]
  note c5 = mb_reserve_fold[of "bi_modules bi" s4, folded init, unfolded s4]
  let ?C = "cover (mb_regions (memblock_init ks ke bi s))"
  have sub: "?C \<subseteq> cover r4" "?C \<subseteq> cover r3" "?C \<subseteq> cover r2" "?C \<subseteq> cover (mb_regions s1)"
    using conjunct1[OF c5] c4(1) c3(1) c2(1) by blast+
  have "x \<notin> {align_down ks PAGE_SIZE..<align_up ke PAGE_SIZE}"
    "x \<notin> {align_down (mbi_phys bi) PAGE_SIZE..<align_up (mbi_phys bi + mbi_size bi) PAGE_SIZE}"
    "0x100000 \<le> x" "\<exists>m\<in>set (bi_mmap bi). x \<in> usable m" if "x \<in> ?C" for x
    using subsetD[OF sub(1) that] subsetD[OF sub(2) that] subsetD[OF sub(3) that] subsetD[OF sub(4) that]
      c4(2) c3(2) c2(2) c1(1) by blast+
  moreover have "x \<notin> {align_down (phys_start m) PAGE_SIZE..<align_up (phys_end m) PAGE_SIZE}"
    if "x \<in> ?C" "m \<in> set (bi_modules bi)" for x m
    using that c5 by blast
  moreover have "page_regions (mb_regions (memblock_init ks ke bi s))" using c5 c4(3) by blast
  ultimately show ?thesis by blast
qed

theorem memblock_init_safe_witness:
  "cover (mb_regions (memblock_init 0x200000 0x240000
        \<lparr>bi_mmap = [\<lparr>m_base = 0, m_len = 0x1000000, m_type = 1\<rparr>], bi_modules = [], mbi_phys = 0x9000, mbi_size = 64\<rparr>
        \<lparr>mb_regions = [], mb_max_ram = 0, mb_retired = False, mb_allocated = 0\<rparr>)) \<inter>
      ({..<0x100000} \<union> {0x200000..<0x240000}) = {}"
proof -
  let ?bi = "\<lparr>bi_mmap = [\<lparr>m_base = 0, m_len = 0x1000000, m_type = 1\<rparr>], bi_modules = [], mbi_phys = 0x9000, mbi_size = 64\<rparr>"
  let ?s = "\<lparr>mb_regions = [], mb_max_ram = 0, mb_retired = False, mb_allocated = 0\<rparr>"
  have "mb_regions ?s = []" by simp
  moreover have "align_down 0x200000 PAGE_SIZE = 0x200000" "align_up 0x240000 PAGE_SIZE = 0x240000"
    by (simp_all add: align_down_def align_up_def)
  ultimately show ?thesis
    using memblock_init_safe[of ?s "0x200000" "0x240000" ?bi] by (auto simp: not_le[symmetric])
qed

end
