(* ===== verification/Pmm_Proofs.thy ===== *)
theory Pmm_Proofs
  imports Pmm
begin

text \<open>
  Correctness of the buddy allocator: the zone invariant \<open>zone_ok\<close>, its preservation by the
  free-list primitives, by merging and by splitting, and the abstraction of a zone to the set of
  its free frames (\<open>free_set\<close>).
\<close>

section \<open>Buddy arithmetic\<close>

lemma bit_ge: "bit (p::nat) n \<Longrightarrow> 2 ^ n \<le> p"
  by (metis bit_iff_odd div_less even_zero leI)

lemma unset_bit_nat_eq: "unset_bit n (p::nat) = (if bit p n then p - 2 ^ n else p)"
proof -
  have "int (unset_bit n p) = unset_bit n (int p)" by (simp add: of_nat_unset_bit_eq)
  also have "\<dots> = int p - of_bool (bit p n) * 2 ^ n" by (simp add: unset_bit_eq bit_of_nat_iff_bit)
  also have "\<dots> = int (if bit p n then p - 2 ^ n else p)"
    using bit_ge[of p n] by (simp add: of_nat_diff)
  finally show ?thesis by (simp only: of_nat_eq_iff)
qed

lemma xor_pow2_eq: "(p::nat) XOR 2 ^ n = (if bit p n then p - 2 ^ n else p + 2 ^ n)"
proof -
  have "p XOR 2 ^ n = flip_bit n p" by (simp add: flip_bit_eq_xor push_bit_eq_mult)
  then show ?thesis by (simp add: flip_bit_eq_if set_bit_eq unset_bit_nat_eq)
qed

lemma buddy_cases:
  assumes "2 ^ n dvd (p::nat)"
  shows "(p XOR 2 ^ n = p + 2 ^ n \<and> unset_bit n p = p) \<or>
         (p = (p XOR 2 ^ n) + 2 ^ n \<and> unset_bit n p = p XOR 2 ^ n)"
  using bit_ge[of p n] by (auto simp: xor_pow2_eq unset_bit_nat_eq)

lemma buddy_aligned: "2 ^ n dvd (p::nat) \<Longrightarrow> 2 ^ n dvd p XOR 2 ^ n"
  by (auto simp: xor_pow2_eq)

lemma buddy_involution: "(p XOR 2 ^ n) XOR 2 ^ n = (p::nat)"
  by (simp add: xor.assoc)

lemma merged_aligned:
  assumes "2 ^ n dvd (p::nat)"
  shows "2 ^ Suc n dvd unset_bit n p"
proof -
  obtain k where k: "p = k * 2 ^ n" using assms by (metis dvd_def mult.commute)
  have b: "bit p n \<longleftrightarrow> odd k" by (simp add: k bit_iff_odd)
  show ?thesis
  proof (cases "odd k")
    case True
    then obtain j where "k = Suc (2 * j)" by (metis oddE Suc_eq_plus1)
    with True b have "unset_bit n p = j * 2 ^ Suc n" by (simp add: unset_bit_nat_eq k)
    then show ?thesis by simp
  next
    case False
    with b show ?thesis by (auto simp: unset_bit_nat_eq k mult_dvd_mono)
  qed
qed

definition block :: "nat \<Rightarrow> nat \<Rightarrow> nat set" where
  "block p order = span p (2 ^ order)"

lemma block_iff [simp]: "x \<in> block p order \<longleftrightarrow> p \<le> x \<and> x < p + 2 ^ order"
  by (simp add: block_def)

lemma block_head: "p \<in> block p order"
  by simp

lemma card_block [simp]: "card (block p order) = 2 ^ order" and finite_block [simp]: "finite (block p order)"
  by (simp_all add: block_def)

lemma block_mono:
  assumes "k \<le> m"
  shows "block p k \<subseteq> block p m"
proof -
  have "(2::nat) ^ k \<le> 2 ^ m" by (rule power_increasing[OF assms]) simp
  then have "x < p + 2 ^ k \<Longrightarrow> x < p + 2 ^ m" for x by linarith
  then show ?thesis by (simp add: subset_eq)
qed

lemma merge_blocks:
  assumes "2 ^ n dvd p"
  shows "block (unset_bit n p) (Suc n) = block p n \<union> block (p XOR 2 ^ n) n"
    and "block p n \<inter> block (p XOR 2 ^ n) n = {}"
  using buddy_cases[OF assms] by (auto simp: mult_2)

lemma and_mask_eq_0_iff: "(p::nat) AND (2 ^ n - 1) = 0 \<longleftrightarrow> 2 ^ n dvd p"
proof -
  have "p AND (2 ^ n - 1) = take_bit n p" by (simp add: take_bit_eq_mask mask_eq_exp_minus_1)
  then show ?thesis by (simp add: take_bit_eq_mod dvd_eq_mod_eq_0)
qed

section \<open>Page flags\<close>

lemma pg_flags_simps [simp]:
  "has_flag PG_BUDDY PG_BUDDY" "has_flag PG_HEAD PG_HEAD" "has_flag PG_SLAB PG_SLAB"
  "has_flag PG_RESERVED PG_RESERVED"
  "\<not> has_flag PG_BUDDY PG_HEAD" "\<not> has_flag PG_BUDDY PG_SLAB" "\<not> has_flag PG_BUDDY PG_RESERVED"
  "\<not> has_flag PG_HEAD PG_BUDDY" "\<not> has_flag PG_HEAD PG_SLAB" "\<not> has_flag PG_HEAD PG_RESERVED"
  "\<not> has_flag PG_SLAB PG_BUDDY" "\<not> has_flag PG_SLAB PG_HEAD" "\<not> has_flag PG_SLAB PG_RESERVED"
  "PG_BUDDY AND PG_HEAD = 0" "PG_BUDDY AND PG_SLAB = 0" "PG_BUDDY AND PG_RESERVED = 0"
  "PG_HEAD AND PG_BUDDY = 0" "PG_SLAB AND PG_BUDDY = 0" "PG_RESERVED AND PG_BUDDY = 0"
  "(PG_HEAD OR PG_SLAB) AND PG_BUDDY = 0" "(PG_HEAD OR PG_SLAB) AND PG_RESERVED = 0"
  "PG_RESERVED AND PG_HEAD = 0" "PG_RESERVED AND PG_SLAB = 0"
  "PG_HEAD AND PG_RESERVED = 0" "PG_SLAB AND PG_RESERVED = 0"
  by (simp_all add: has_flag_def PG_BUDDY_def PG_HEAD_def PG_SLAB_def PG_RESERVED_def)

section \<open>The zone invariant\<close>

definition in_area :: "zone \<Rightarrow> nat \<Rightarrow> nat \<Rightarrow> bool" where
  "in_area z order p \<longleftrightarrow> order < MAX_ORDER \<and> p \<in> set (z_area z order)"

definition free_set :: "zone \<Rightarrow> nat set" where
  "free_set z = {x. \<exists>order p. in_area z order p \<and> x \<in> block p order}"

abbreviation buddy_flag :: "page \<Rightarrow> bool" where
  "buddy_flag pg \<equiv> has_flag (pg_flags pg) PG_BUDDY"

definition zone_ok :: "(nat \<Rightarrow> page) \<Rightarrow> zone \<Rightarrow> bool" where
  "zone_ok m z \<longleftrightarrow>
     (\<forall>order p. in_area z order p \<longrightarrow>
        2 ^ order dvd p \<and> z_start z \<le> p \<and> p + 2 ^ order \<le> z_end z \<and>
        buddy_flag (m p) \<and> pg_order (m p) = order) \<and>
     (\<forall>order<MAX_ORDER. distinct (z_area z order) \<and> z_count z order = length (z_area z order)) \<and>
     (\<forall>p. z_start z \<le> p \<and> p < z_end z \<and> buddy_flag (m p) \<longrightarrow> in_area z (pg_order (m p)) p) \<and>
     (\<forall>order p order' p'. in_area z order p \<and> in_area z order' p' \<and> (order, p) \<noteq> (order', p') \<longrightarrow>
        block p order \<inter> block p' order' = {})"

text \<open>Fully merged: no block below the largest order has a free buddy of its own order.\<close>

definition merged :: "zone \<Rightarrow> bool" where
  "merged z \<longleftrightarrow> (\<forall>order p. order < MAX_ORDER - 1 \<and> in_area z order p \<longrightarrow>
     \<not> in_area z order (p XOR 2 ^ order))"

lemma zone_okD:
  assumes "zone_ok m z" and "in_area z order p"
  shows "2 ^ order dvd p" "z_start z \<le> p" "p + 2 ^ order \<le> z_end z" "buddy_flag (m p)"
    "pg_order (m p) = order" "order < MAX_ORDER" "block p order \<subseteq> free_set z"
proof -
  have "\<forall>order p. in_area z order p \<longrightarrow> 2 ^ order dvd p \<and> z_start z \<le> p \<and> p + 2 ^ order \<le> z_end z \<and>
      buddy_flag (m p) \<and> pg_order (m p) = order"
    using assms(1) by (simp add: zone_ok_def)
  with assms(2) show "2 ^ order dvd p" "z_start z \<le> p" "p + 2 ^ order \<le> z_end z" "buddy_flag (m p)"
    "pg_order (m p) = order"
    by blast+
  show "order < MAX_ORDER" using assms(2) by (simp add: in_area_def)
  show "block p order \<subseteq> free_set z" using assms(2) unfolding free_set_def by blast
qed

lemma zone_ok_flag:
  assumes "zone_ok m z" and "z_start z \<le> p" and "p < z_end z" and "buddy_flag (m p)"
  shows "in_area z (pg_order (m p)) p"
  using assms by (auto simp: zone_ok_def)

lemma free_set_in_zone: "zone_ok m z \<Longrightarrow> x \<in> free_set z \<Longrightarrow> z_start z \<le> x \<and> x < z_end z"
  by (fastforce simp: free_set_def dest: zone_okD(2,3))

lemma finite_free_set: "zone_ok m z \<Longrightarrow> finite (free_set z)"
  by (rule finite_subset[of _ "{..<z_end z}"]) (auto dest: free_set_in_zone)

lemma zone_ok_cong:
  assumes "zone_ok m z"
    and "\<And>p. z_start z \<le> p \<Longrightarrow> p < z_end z \<Longrightarrow>
      buddy_flag (m' p) = buddy_flag (m p) \<and> (buddy_flag (m p) \<longrightarrow> pg_order (m' p) = pg_order (m p))"
  shows "zone_ok m' z"
proof -
  have lt: "p < z_end z" "z_start z \<le> p" if "in_area z order p" for order p
    using zone_okD[OF assms(1) that] by (auto intro: less_le_trans[of p "p + 2 ^ order"])
  have c1: "2 ^ order dvd p \<and> z_start z \<le> p \<and> p + 2 ^ order \<le> z_end z \<and>
      buddy_flag (m' p) \<and> pg_order (m' p) = order" if "in_area z order p" for order p
    using assms(2)[of p] lt[OF that] zone_okD[OF assms(1) that] by blast
  have c3: "in_area z (pg_order (m' p)) p" if "z_start z \<le> p" "p < z_end z" "buddy_flag (m' p)" for p
    using assms(2)[OF that(1,2)] that zone_ok_flag[OF assms(1), of p] by simp
  show ?thesis
    using assms(1) c1 c3 unfolding zone_ok_def by blast
qed

lemma zone_ok_counters:
  "zone_ok m (z\<lparr>z_free := a\<rparr>) = zone_ok m z" "zone_ok m (z\<lparr>z_managed := b\<rparr>) = zone_ok m z"
  "free_set (z\<lparr>z_free := a\<rparr>) = free_set z" "free_set (z\<lparr>z_managed := b\<rparr>) = free_set z"
  "merged (z\<lparr>z_free := a\<rparr>) = merged z" "merged (z\<lparr>z_managed := b\<rparr>) = merged z"
  by (simp_all add: zone_ok_def free_set_def in_area_def merged_def)

section \<open>Adding and removing one block\<close>

lemma upd_simps [simp]:
  "mem_map (upd_page p f s) = (mem_map s)(p := f (mem_map s p))"
  "zones (upd_page p f s) = zones s" "max_pfn (upd_page p f s) = max_pfn s"
  "mem_map (upd_zone zi g s) = mem_map s"
  "zones (upd_zone zi g s) = (zones s)(zi := g (zones s zi))" "max_pfn (upd_zone zi g s) = max_pfn s"
  "kmem (upd_zone zi g s) = kmem s" "kmem (upd_page p f s) = kmem s"
  by (simp_all add: upd_page_def upd_zone_def)

lemma in_area_add:
  "zones (add_free zi p order s) zi = z' \<Longrightarrow> order < MAX_ORDER \<Longrightarrow>
     in_area z' o' q \<longleftrightarrow> in_area (zones s zi) o' q \<or> (o' = order \<and> q = p)"
  by (auto simp: add_free_def in_area_def split: if_splits)

lemma add_free_frame:
  "zj \<noteq> zi \<Longrightarrow> zones (add_free zi p order s) zj = zones s zj"
  "q \<noteq> p \<Longrightarrow> mem_map (add_free zi p order s) q = mem_map s q"
  "z_start (zones (add_free zi p order s) zk) = z_start (zones s zk)"
  "z_end (zones (add_free zi p order s) zk) = z_end (zones s zk)"
  "z_free (zones (add_free zi p order s) zk) = z_free (zones s zk)"
  "z_managed (zones (add_free zi p order s) zk) = z_managed (zones s zk)"
  "max_pfn (add_free zi p order s) = max_pfn s" "kmem (add_free zi p order s) = kmem s"
  by (simp_all add: add_free_def)

lemma del_free_frame:
  "zj \<noteq> zi \<Longrightarrow> zones (del_free zi p order s) zj = zones s zj"
  "q \<noteq> p \<Longrightarrow> mem_map (del_free zi p order s) q = mem_map s q"
  "z_start (zones (del_free zi p order s) zk) = z_start (zones s zk)"
  "z_end (zones (del_free zi p order s) zk) = z_end (zones s zk)"
  "z_free (zones (del_free zi p order s) zk) = z_free (zones s zk)"
  "z_managed (zones (del_free zi p order s) zk) = z_managed (zones s zk)"
  "max_pfn (del_free zi p order s) = max_pfn s" "kmem (del_free zi p order s) = kmem s"
  by (simp_all add: del_free_def)

lemma add_free_ok:
  assumes ok: "zone_ok (mem_map s) (zones s zi)" and ord: "order < MAX_ORDER"
    and al: "2 ^ order dvd p" and lo: "z_start (zones s zi) \<le> p"
    and hi: "p + 2 ^ order \<le> z_end (zones s zi)"
    and fresh: "block p order \<inter> free_set (zones s zi) = {}"
  shows "zone_ok (mem_map (add_free zi p order s)) (zones (add_free zi p order s) zi)"
    and "free_set (zones (add_free zi p order s) zi) = free_set (zones s zi) \<union> block p order"
proof -
  let ?z = "zones s zi" and ?z' = "zones (add_free zi p order s) zi"
  let ?m = "mem_map s" and ?m' = "mem_map (add_free zi p order s)"
  have area: "in_area ?z' o' q \<longleftrightarrow> in_area ?z o' q \<or> (o' = order \<and> q = p)" for o' q
    using ord by (simp add: in_area_add)
  show fs: "free_set ?z' = free_set ?z \<union> block p order"
    unfolding free_set_def area by blast
  have notin: "q \<noteq> p" if "in_area ?z o' q" for o' q
    using zone_okD(7)[OF ok that] fresh block_head[of p order] block_head[of q o'] by blast
  have m': "?m' q = (if q = p then (?m p)\<lparr>pg_flags := pg_flags (?m p) OR PG_BUDDY, pg_order := order\<rparr>
      else ?m q)" for q
    by (simp add: add_free_def)
  have cnt: "distinct (z_area ?z' o') \<and> z_count ?z' o' = length (z_area ?z' o')" if "o' < MAX_ORDER" for o'
    using ok notin[of order p] that ord by (auto simp: zone_ok_def add_free_def in_area_def)
  have disj: "block q o1 \<inter> block p order = {}" if "in_area ?z o1 q" for o1 q
    using zone_okD(7)[OF ok that] fresh by blast
  have frame: "z_start ?z' = z_start ?z" "z_end ?z' = z_end ?z" by (simp_all add: add_free_frame)
  have c1: "2 ^ o' dvd q \<and> z_start ?z' \<le> q \<and> q + 2 ^ o' \<le> z_end ?z' \<and>
      buddy_flag (?m' q) \<and> pg_order (?m' q) = o'" if "in_area ?z' o' q" for o' q
    using that zone_okD[OF ok, of o' q] al lo hi
    by (auto simp: area m' frame has_flag_or dest: notin)
  have c3: "in_area ?z' (pg_order (?m' q)) q"
    if "z_start ?z' \<le> q" "q < z_end ?z'" "buddy_flag (?m' q)" for q
    using that zone_ok_flag[OF ok, of q] by (auto simp: area m' frame)
  have c4: "block q o1 \<inter> block q' o2 = {}"
    if "in_area ?z' o1 q" "in_area ?z' o2 q'" "(o1, q) \<noteq> (o2, q')" for o1 q o2 q'
    using that disj ok unfolding area zone_ok_def by blast
  show "zone_ok ?m' ?z'"
    unfolding zone_ok_def using c1 c3 c4 cnt by blast
qed

lemma del_free_ok:
  assumes ok: "zone_ok (mem_map s) (zones s zi)" and mem: "in_area (zones s zi) order p"
  shows "zone_ok (mem_map (del_free zi p order s)) (zones (del_free zi p order s) zi)"
    and "free_set (zones (del_free zi p order s) zi) = free_set (zones s zi) - block p order"
    and "\<And>o' q. in_area (zones (del_free zi p order s) zi) o' q \<longleftrightarrow>
           in_area (zones s zi) o' q \<and> (o', q) \<noteq> (order, p)"
proof -
  let ?z = "zones s zi" and ?z' = "zones (del_free zi p order s) zi"
  let ?m = "mem_map s" and ?m' = "mem_map (del_free zi p order s)"
  have ord: "order < MAX_ORDER" and dist: "distinct (z_area ?z order)" and pin: "p \<in> set (z_area ?z order)"
    using ok mem by (auto simp: zone_ok_def in_area_def)
  show area: "in_area ?z' o' q \<longleftrightarrow> in_area ?z o' q \<and> (o', q) \<noteq> (order, p)" for o' q
    using dist by (auto simp: del_free_def in_area_def)
  have m': "?m' q = (if q = p then (?m p)\<lparr>pg_flags := pg_flags (?m p) AND NOT PG_BUDDY\<rparr> else ?m q)" for q
    by (simp add: del_free_def)
  have frame: "z_start ?z' = z_start ?z" "z_end ?z' = z_end ?z" by (simp_all add: del_free_frame)
  have uniq: "o' = order" if "in_area ?z o' p" for o'
    using zone_okD(5)[OF ok that] zone_okD(5)[OF ok mem] by simp
  have dis: "block q o' \<inter> block p order = {}" if "in_area ?z o' q" "(o', q) \<noteq> (order, p)" for o' q
    using ok mem that unfolding zone_ok_def by blast
  show "free_set ?z' = free_set ?z - block p order"
  proof (intro equalityI subsetI)
    fix x assume "x \<in> free_set ?z'"
    then obtain o' q where "in_area ?z o' q" "(o', q) \<noteq> (order, p)" "x \<in> block q o'"
      by (auto simp: free_set_def area)
    with dis[of o' q] show "x \<in> free_set ?z - block p order"
      unfolding free_set_def by blast
  next
    fix x assume "x \<in> free_set ?z - block p order"
    then show "x \<in> free_set ?z'" unfolding free_set_def area by blast
  qed
  have cnt: "distinct (z_area ?z' o') \<and> z_count ?z' o' = length (z_area ?z' o')" if "o' < MAX_ORDER" for o'
    using ok that ord pin by (auto simp: zone_ok_def del_free_def length_remove1)
  have c1: "2 ^ o' dvd q \<and> z_start ?z' \<le> q \<and> q + 2 ^ o' \<le> z_end ?z' \<and>
      buddy_flag (?m' q) \<and> pg_order (?m' q) = o'" if "in_area ?z' o' q" for o' q
    using that zone_okD[OF ok, of o' q] uniq by (auto simp: area m' frame)
  have c3: "in_area ?z' (pg_order (?m' q)) q"
    if "z_start ?z' \<le> q" "q < z_end ?z'" "buddy_flag (?m' q)" for q
    using that zone_ok_flag[OF ok, of q] by (auto simp: area m' frame has_flag_clear_same split: if_splits)
  have c4: "block q o1 \<inter> block q' o2 = {}"
    if "in_area ?z' o1 q" "in_area ?z' o2 q'" "(o1, q) \<noteq> (o2, q')" for o1 q o2 q'
    using that ok unfolding area zone_ok_def by blast
  show "zone_ok ?m' ?z'"
    unfolding zone_ok_def using c1 c3 c4 cnt by blast
qed

section \<open>Frames: what an operation on one zone leaves alone\<close>

definition buddy_frame :: "nat \<Rightarrow> nat set \<Rightarrow> 'a pmm_scheme \<Rightarrow> 'a pmm_scheme \<Rightarrow> bool" where
  "buddy_frame zi A s s' \<longleftrightarrow>
     (\<forall>zj. (zj \<noteq> zi \<longrightarrow> zones s' zj = zones s zj) \<and>
        z_start (zones s' zj) = z_start (zones s zj) \<and> z_end (zones s' zj) = z_end (zones s zj) \<and>
        z_free (zones s' zj) = z_free (zones s zj) \<and> z_managed (zones s' zj) = z_managed (zones s zj)) \<and>
     max_pfn s' = max_pfn s \<and> kmem s' = kmem s \<and> pmm.more s' = pmm.more s \<and>
     (\<forall>q. q \<notin> A \<longrightarrow> mem_map s' q = mem_map s q) \<and>
     (\<forall>q f. f AND PG_BUDDY = 0 \<longrightarrow>
        has_flag (pg_flags (mem_map s' q)) f = has_flag (pg_flags (mem_map s q)) f)"

lemma buddy_frame_refl: "buddy_frame zi A s s"
  by (simp add: buddy_frame_def)

lemma buddy_frame_trans:
  assumes "buddy_frame zi A s s'" and "buddy_frame zi B s' s''" and "A \<union> B \<subseteq> C"
  shows "buddy_frame zi C s s''"
proof -
  have "mem_map s'' q = mem_map s q" if "q \<notin> C" for q
  proof -
    from that assms(3) have "q \<notin> A" "q \<notin> B" by auto
    with assms(1,2) show ?thesis by (simp add: buddy_frame_def)
  qed
  with assms(1,2) show ?thesis by (auto simp: buddy_frame_def)
qed

lemma buddy_mask_frame:
  assumes "f AND PG_BUDDY = 0"
  shows "has_flag (g OR PG_BUDDY) f = has_flag g f" "has_flag (g AND NOT PG_BUDDY) f = has_flag g f"
proof -
  have c: "PG_BUDDY AND f = 0" using assms by (simp add: and.commute)
  then have "\<not> has_flag PG_BUDDY f" by (simp add: has_flag_def)
  then show "has_flag (g OR PG_BUDDY) f = has_flag g f" by (simp add: has_flag_or)
  show "has_flag (g AND NOT PG_BUDDY) f = has_flag g f" by (rule has_flag_clear_other[OF c])
qed

lemma add_free_is_frame: "p \<in> A \<Longrightarrow> buddy_frame zi A s (add_free zi p order s)"
  by (auto simp: buddy_frame_def add_free_def upd_zone_def upd_page_def buddy_mask_frame)

lemma del_free_is_frame: "p \<in> A \<Longrightarrow> buddy_frame zi A s (del_free zi p order s)"
  by (auto simp: buddy_frame_def del_free_def upd_zone_def upd_page_def buddy_mask_frame)

lemma buddy_neq: "(p::nat) XOR 2 ^ n \<noteq> p"
proof (cases "bit p n")
  case True
  with bit_ge[OF True] have "p - 2 ^ n < p" by (intro diff_less) (auto intro: less_le_trans[rotated])
  with True show ?thesis by (simp add: xor_pow2_eq)
next
  case False
  then show ?thesis by (simp add: xor_pow2_eq)
qed

lemma aligned_not_bit:
  assumes "2 ^ Suc k dvd (p::nat)"
  shows "\<not> bit p k"
proof -
  obtain j where "p = 2 ^ Suc k * j" using assms by (elim dvdE)
  then have "p div 2 ^ k = 2 * j" by (simp add: mult.assoc)
  then show ?thesis by (simp add: bit_iff_odd)
qed

lemma merged_add:
  assumes "merged (zones s zi)" and "order < MAX_ORDER"
    and "order < MAX_ORDER - 1 \<Longrightarrow> \<not> in_area (zones s zi) order (p XOR 2 ^ order)"
  shows "merged (zones (add_free zi p order s) zi)"
proof -
  have area: "in_area (zones (add_free zi p order s) zi) o' q \<longleftrightarrow>
      in_area (zones s zi) o' q \<or> (o' = order \<and> q = p)" for o' q
    using assms(2) by (simp add: in_area_add)
  show ?thesis
    using assms buddy_neq[of p order] unfolding merged_def area by (metis buddy_involution)
qed

lemma merged_del:
  assumes "merged z" and "\<And>o' q. in_area z' o' q \<Longrightarrow> in_area z o' q"
  shows "merged z'"
  using assms unfolding merged_def by blast

section \<open>Merging on free\<close>

definition free_block :: "nat \<Rightarrow> nat \<Rightarrow> nat \<Rightarrow> 'a pmm_scheme \<Rightarrow> bool" where
  "free_block zi p order s \<longleftrightarrow> order < MAX_ORDER \<and> 2 ^ order dvd p \<and> z_start (zones s zi) \<le> p \<and>
     p + 2 ^ order \<le> z_end (zones s zi) \<and> block p order \<inter> free_set (zones s zi) = {}"

abbreviation zone_good :: "nat \<Rightarrow> 'a pmm_scheme \<Rightarrow> bool" where
  "zone_good zi s \<equiv> zone_ok (mem_map s) (zones s zi) \<and> merged (zones s zi)"

lemma add_free_good:
  assumes "zone_good zi s" and "free_block zi p order s"
    and "order < MAX_ORDER - 1 \<Longrightarrow> \<not> in_area (zones s zi) order (p XOR 2 ^ order)"
  shows "zone_good zi (add_free zi p order s) \<and>
    free_set (zones (add_free zi p order s) zi) = free_set (zones s zi) \<union> block p order \<and>
    buddy_frame zi (block p order) s (add_free zi p order s)"
  using assms add_free_ok[of s zi order p] merged_add[of s zi order p]
    add_free_is_frame[of p "block p order" zi s order]
  by (simp add: free_block_def)

lemma merge_step:
  assumes good: "zone_good zi s" and blk: "free_block zi pfn order s" and ord: "order < MAX_ORDER - 1"
    and buddy: "z_start (zones s zi) \<le> pfn XOR 2 ^ order"
      "(pfn XOR 2 ^ order) + 2 ^ order \<le> z_end (zones s zi)"
      "buddy_flag (mem_map s (pfn XOR 2 ^ order))" "pg_order (mem_map s (pfn XOR 2 ^ order)) = order"
  defines "s1 \<equiv> del_free zi (pfn XOR 2 ^ order) order s"
  shows "zone_good zi s1" and "free_block zi (unset_bit order pfn) (Suc order) s1"
    and "free_set (zones s1 zi) \<union> block (unset_bit order pfn) (Suc order) =
      free_set (zones s zi) \<union> block pfn order"
    and "buddy_frame zi (free_set (zones s zi) \<union> block pfn order) s s1"
    and "block (unset_bit order pfn) (Suc order) \<subseteq> free_set (zones s zi) \<union> block pfn order"
proof -
  let ?b = "pfn XOR 2 ^ order"
  have ok: "zone_ok (mem_map s) (zones s zi)" and mg: "merged (zones s zi)" using good by auto
  have al: "2 ^ order dvd pfn" using blk by (simp add: free_block_def)
  have "?b < z_end (zones s zi)"
    using buddy(2) by (rule less_le_trans[rotated]) simp
  then have inb: "in_area (zones s zi) order ?b"
    using zone_ok_flag[OF ok buddy(1) _ buddy(3)] buddy(4) by simp
  note del = del_free_ok[OF ok inb, folded s1_def]
  show "zone_good zi s1"
    using del(1) merged_del[OF mg, of "zones s1 zi"] del(3) by blast
  have fr: "z_start (zones s1 zi) = z_start (zones s zi)" "z_end (zones s1 zi) = z_end (zones s zi)"
    by (simp_all add: s1_def del_free_frame)
  have sub: "block ?b order \<subseteq> free_set (zones s zi)"
    using zone_okD(7)[OF ok inb] .
  note mb = merge_blocks[OF al]
  show "block (unset_bit order pfn) (Suc order) \<subseteq> free_set (zones s zi) \<union> block pfn order"
    using mb(1) sub by blast
  show "free_set (zones s1 zi) \<union> block (unset_bit order pfn) (Suc order) =
      free_set (zones s zi) \<union> block pfn order"
    using mb sub by (auto simp only: del(2))
  have "block (unset_bit order pfn) (Suc order) \<inter> free_set (zones s1 zi) = {}"
    using mb sub blk unfolding del(2) free_block_def by blast
  then show "free_block zi (unset_bit order pfn) (Suc order) s1"
    using ord blk buddy(1,2) buddy_cases[OF al] merged_aligned[OF al]
    unfolding free_block_def fr by (auto simp: mult_2)
  show "buddy_frame zi (free_set (zones s zi) \<union> block pfn order) s s1"
    unfolding s1_def using sub block_head by (intro del_free_is_frame) blast
qed

lemma buddy_free_ok:
  assumes "zone_good zi s" and "free_block zi pfn order s"
  shows "zone_good zi (buddy_free zi pfn order s) \<and>
    free_set (zones (buddy_free zi pfn order s) zi) = free_set (zones s zi) \<union> block pfn order \<and>
    buddy_frame zi (free_set (zones s zi) \<union> block pfn order) s (buddy_free zi pfn order s)"
  using assms
proof (induction zi pfn order s rule: buddy_free.induct)
  case (1 zi pfn order s)
  let ?b = "pfn XOR 2 ^ order"
  let ?z = "zones s zi"
  define stop where "stop \<longleftrightarrow> \<not> order < MAX_ORDER - 1 \<or> ?b < z_start ?z \<or> ?b + 2 ^ order > z_end ?z \<or>
    \<not> buddy_flag (mem_map s ?b) \<or> pg_order (mem_map s ?b) \<noteq> order"
  show ?case
  proof (cases stop)
    case True
    have "buddy_free zi pfn order s = add_free zi pfn order s"
      using True unfolding stop_def by (subst buddy_free.simps) (auto simp: Let_def)
    moreover have "\<not> in_area ?z order ?b" if "order < MAX_ORDER - 1"
      using True that zone_okD[of "mem_map s" ?z order ?b] "1.prems"(1) unfolding stop_def by auto
    ultimately show ?thesis
      using add_free_good[OF "1.prems"] buddy_frame_trans[OF buddy_frame_refl] by (metis Un_empty_left Un_upper2)
  next
    case False
    then have ord: "order < MAX_ORDER - 1" and b: "z_start ?z \<le> ?b" "?b + 2 ^ order \<le> z_end ?z"
        "buddy_flag (mem_map s ?b)" "pg_order (mem_map s ?b) = order"
      unfolding stop_def by auto
    define s1 where "s1 = del_free zi ?b order s"
    note step = merge_step[OF "1.prems" ord b, folded s1_def]
    have eq: "buddy_free zi pfn order s = buddy_free zi (unset_bit order pfn) (Suc order) s1"
      using ord b by (subst buddy_free.simps) (simp add: Let_def s1_def)
    have IH: "zone_good zi (buddy_free zi (unset_bit order pfn) (Suc order) s1) \<and>
      free_set (zones (buddy_free zi (unset_bit order pfn) (Suc order) s1) zi) =
        free_set (zones s1 zi) \<union> block (unset_bit order pfn) (Suc order) \<and>
      buddy_frame zi (free_set (zones s1 zi) \<union> block (unset_bit order pfn) (Suc order)) s1
        (buddy_free zi (unset_bit order pfn) (Suc order) s1)"
      unfolding s1_def
      by (rule "1.IH"[OF ord refl refl])
        (use b step(1,2) in \<open>auto simp: s1_def\<close>)
    then show ?thesis
      unfolding eq step(3) using buddy_frame_trans[OF step(4)] by blast
  qed
qed

section \<open>Splitting on allocation\<close>

lemma split_block_ok:
  assumes "zone_good zi s" and "free_block zi p ord s" and "order \<le> ord"
  shows "zone_good zi (split_block zi p ord order s) \<and>
    free_set (zones (split_block zi p ord order s) zi) =
      free_set (zones s zi) \<union> (block p ord - block p order) \<and>
    buddy_frame zi (block p ord - {p}) s (split_block zi p ord order s)"
  using assms
proof (induction ord arbitrary: s)
  case 0
  then show ?case by (simp add: buddy_frame_refl)
next
  case (Suc k)
  show ?case
  proof (cases "order = Suc k")
    case True
    then show ?thesis using Suc.prems by (simp add: buddy_frame_refl)
  next
    case False
    let ?q = "p + 2 ^ k"
    have blk: "Suc k < MAX_ORDER" "2 ^ Suc k dvd p" "z_start (zones s zi) \<le> p"
        "p + 2 ^ Suc k \<le> z_end (zones s zi)" "block p (Suc k) \<inter> free_set (zones s zi) = {}"
      using Suc.prems(2) by (auto simp: free_block_def)
    have halves: "block p (Suc k) = block p k \<union> block ?q k" "block p k \<inter> block ?q k = {}"
      by auto
    have "2 ^ k dvd p" using blk(2) by (metis dvd_trans le_imp_power_dvd lessI less_imp_le)
    then have q: "free_block zi ?q k s"
      using blk halves by (auto simp: free_block_def)
    have "\<not> bit p k" by (rule aligned_not_bit[OF blk(2)])
    then have "p XOR 2 ^ k = ?q" by (simp add: xor_pow2_eq)
    then have "?q XOR 2 ^ k = p" by (metis buddy_involution)
    moreover have "\<not> in_area (zones s zi) k p"
      using zone_okD(7)[of "mem_map s" "zones s zi" k p] Suc.prems(1) blk(5) block_head by blast
    ultimately have add: "zone_good zi (add_free zi ?q k s)"
        "free_set (zones (add_free zi ?q k s) zi) = free_set (zones s zi) \<union> block ?q k"
      using add_free_good[OF Suc.prems(1) q] by auto
    have "free_block zi p k (add_free zi ?q k s)"
      using blk halves add(2) \<open>2 ^ k dvd p\<close> unfolding free_block_def
      by (auto simp: add_free_frame)
    from Suc.IH[OF add(1) this] False Suc.prems(3)
    have IH: "zone_good zi (split_block zi p k order (add_free zi ?q k s))"
      "free_set (zones (split_block zi p k order (add_free zi ?q k s)) zi) =
         free_set (zones s zi) \<union> block ?q k \<union> (block p k - block p order)"
      "buddy_frame zi (block p k - {p}) (add_free zi ?q k s) (split_block zi p k order (add_free zi ?q k s))"
      using add(2) by auto
    have sub: "block p order \<subseteq> block p k"
      using False Suc.prems(3) by (intro block_mono) auto
    have fr: "buddy_frame zi (block p (Suc k) - {p}) s (add_free zi ?q k s)"
      by (rule add_free_is_frame) simp
    have "buddy_frame zi (block p (Suc k) - {p}) s (split_block zi p k order (add_free zi ?q k s))"
      by (rule buddy_frame_trans[OF fr IH(3)]) (auto simp: halves)
    then show ?thesis
      using IH sub halves False Suc.prems(3) by (auto simp: halves)
  qed
qed

end
