(* ===== verification/Pmm_Spec.thy ===== *)
theory Pmm_Spec
  imports Pmm_Proofs "HOL-Library.Multiset"
begin

text \<open>
  What the page allocator promises to the rest of the kernel. The abstract state is the set
  \<open>free_frames\<close>; \<open>allocated s p order\<close> is the ownership of a block. The theory proves that
  \<^verbatim>\<open>alloc_pages\<close> and \<^verbatim>\<open>free_pages\<close> implement removal and insertion of aligned blocks, that
  allocation fails only when no aligned free block exists, and packages the contract as the
  locale \<open>page_allocator\<close>, interpreted on the model.
\<close>

section \<open>Allocation from one zone\<close>

lemma buddy_alloc_from_ok:
  assumes "zone_good zi s" and "order \<le> ord"
  shows "case buddy_alloc_from zi ord order s of
      (None, s') \<Rightarrow> s' = s \<and> (\<forall>o' q. ord \<le> o' \<longrightarrow> \<not> in_area (zones s zi) o' q)
    | (Some p, s') \<Rightarrow> zone_good zi s' \<and> 2 ^ order dvd p \<and> order < MAX_ORDER \<and>
        block p order \<subseteq> free_set (zones s zi) \<and>
        free_set (zones s' zi) = free_set (zones s zi) - block p order \<and>
        buddy_frame zi (free_set (zones s zi)) s s'"
  using assms
proof (induction zi ord order s rule: buddy_alloc_from.induct)
  case (1 zi ord order s)
  show ?case
  proof (cases "ord < MAX_ORDER")
    case False
    then show ?thesis by (subst buddy_alloc_from.simps) (simp add: in_area_def)
  next
    case True
    show ?thesis
    proof (cases "z_area (zones s zi) ord")
      case Nil
      have eq: "buddy_alloc_from zi ord order s = buddy_alloc_from zi (Suc ord) order s"
        using True Nil by (subst buddy_alloc_from.simps) simp
      have "\<not> in_area (zones s zi) ord q" for q using Nil by (simp add: in_area_def)
      then have "(\<forall>o' q. Suc ord \<le> o' \<longrightarrow> \<not> in_area (zones s zi) o' q) \<Longrightarrow>
          (\<forall>o' q. ord \<le> o' \<longrightarrow> \<not> in_area (zones s zi) o' q)"
        by (metis Suc_leI order_le_less)
      with "1.IH"[OF True Nil "1.prems"(1)] "1.prems"(2) show ?thesis
        unfolding eq by (auto split: prod.splits option.splits)
    next
      case (Cons p ps)
      let ?s1 = "del_free zi p ord s"
      have eq: "buddy_alloc_from zi ord order s = (Some p, split_block zi p ord order ?s1)"
        using True Cons by (subst buddy_alloc_from.simps) simp
      have ok: "zone_ok (mem_map s) (zones s zi)" and mg: "merged (zones s zi)" using "1.prems" by auto
      have inp: "in_area (zones s zi) ord p" using True Cons by (simp add: in_area_def)
      note d = del_free_ok[OF ok inp] and z = zone_okD[OF ok inp]
      have good1: "zone_good zi ?s1" using d(1) merged_del[OF mg, of "zones ?s1 zi"] d(3) by blast
      have blk1: "free_block zi p ord ?s1"
        using z d(2) by (auto simp: free_block_def del_free_frame)
      note sp = split_block_ok[OF good1 blk1 "1.prems"(2)]
      have sub: "block p order \<subseteq> block p ord" by (rule block_mono[OF "1.prems"(2)])
      have "2 ^ order dvd p" using z(1) "1.prems"(2) by (meson dvd_trans le_imp_power_dvd)
      moreover have "buddy_frame zi (free_set (zones s zi)) s (split_block zi p ord order ?s1)"
        using buddy_frame_trans[OF del_free_is_frame[of p "block p ord" zi s ord]] sp z(7) block_head
        by (meson Diff_subset le_sup_iff order.trans)
      moreover have "free_set (zones ?s1 zi) \<union> (block p ord - block p order) =
          free_set (zones s zi) - block p order"
        unfolding d(2) using z(7) sub by blast
      ultimately show ?thesis
        unfolding eq using sp z(6,7) sub "1.prems"(2) by (auto simp: less_le_trans)
    qed
  qed
qed

section \<open>Aligned free runs are always on a free list\<close>

lemma aligned_nested:
  assumes "2 ^ k dvd (p::nat)" and "2 ^ m dvd (q::nat)" and "k \<le> m" and "block p k \<inter> block q m \<noteq> {}"
  shows "block p k \<subseteq> block q m"
proof -
  from assms(4) obtain x where x: "p \<le> x" "x < p + 2 ^ k" "q \<le> x" "x < q + 2 ^ m" by auto
  have "2 ^ k dvd q" "2 ^ k dvd q + 2 ^ m"
    using assms(2,3) by (meson dvd_add dvd_trans le_imp_power_dvd)+
  then obtain a b c where abc: "p = 2 ^ k * a" "q = 2 ^ k * b" "q + 2 ^ m = 2 ^ k * c"
    using assms(1) by (elim dvdE) blast
  have "p < q + 2 ^ m" "q < p + 2 ^ k" using x by linarith+
  then have "2 ^ k * a < 2 ^ k * c" "2 ^ k * b < 2 ^ k * Suc a"
    unfolding abc(3) by (simp_all only: abc(1,2) mult_Suc_right add.commute)
  then have "Suc a \<le> c" "b \<le> a" by (simp_all only: mult_less_cancel1 less_Suc_eq_le Suc_le_eq)
  then have "2 ^ k * Suc a \<le> 2 ^ k * c" "2 ^ k * b \<le> 2 ^ k * a" by (blast intro: mult_le_mono2)+
  then have "p + 2 ^ k \<le> q + 2 ^ m" unfolding abc(3) by (simp add: abc(1))
  moreover have "q \<le> p" using \<open>b \<le> a\<close> by (simp add: abc(1,2))
  ultimately show ?thesis by auto
qed

lemma free_run_on_list:
  assumes good: "zone_ok m z" "merged z"
  shows "k < MAX_ORDER \<Longrightarrow> 2 ^ k dvd p \<Longrightarrow> block p k \<subseteq> free_set z \<Longrightarrow>
    \<exists>ord q. in_area z ord q \<and> k \<le> ord \<and> block p k \<subseteq> block q ord"
proof (induction k arbitrary: p)
  case 0
  then have "p \<in> free_set z" by auto
  then obtain ord q where "in_area z ord q" "p \<in> block q ord" by (auto simp: free_set_def)
  moreover have "block p 0 = {p}" by auto
  ultimately have "in_area z ord q \<and> 0 \<le> ord \<and> block p 0 \<subseteq> block q ord" by simp
  then show ?case by blast
next
  case (Suc k)
  let ?h = "p + 2 ^ k"
  have halves: "block p (Suc k) = block p k \<union> block ?h k" by auto
  have al: "2 ^ k dvd p" using Suc.prems(2) by (metis dvd_trans le_imp_power_dvd lessI less_imp_le)
  then have al2: "2 ^ k dvd ?h" by simp
  obtain o1 q1 where 1: "in_area z o1 q1" "k \<le> o1" "block p k \<subseteq> block q1 o1"
    using Suc.IH[OF _ al] Suc.prems halves by auto
  obtain o2 q2 where 2: "in_area z o2 q2" "k \<le> o2" "block ?h k \<subseteq> block q2 o2"
    using Suc.IH[OF _ al2] Suc.prems halves by auto
  have nest: "block p (Suc k) \<subseteq> block q ord" if "in_area z ord q" "Suc k \<le> ord" "block p (Suc k) \<inter> block q ord \<noteq> {}"
    for q ord
    using aligned_nested[OF Suc.prems(2) zone_okD(1)[OF good(1) that(1)] that(2,3)] .
  have meet1: "p \<in> block p (Suc k) \<inter> block q1 o1" using subsetD[OF 1(3) block_head] block_head[of p "Suc k"] by (rule IntI[rotated])
  have meet2: "?h \<in> block p (Suc k) \<inter> block q2 o2" using subsetD[OF 2(3) block_head] by (simp add: halves)
  have same: "q = a" if "in_area z k q" "2 ^ k dvd a" "block a k \<subseteq> block q k" for q a
  proof -
    have pos: "0 < (2::nat) ^ k" by simp
    have "q \<le> a" using subsetD[OF that(3) block_head] by simp
    moreover have "a + (2 ^ k - 1) \<in> block q k"
      by (rule subsetD[OF that(3)]) (use pos in \<open>simp only: block_iff, linarith\<close>)
    ultimately show ?thesis using pos unfolding block_iff by linarith
  qed
  show ?case
  proof (cases "Suc k \<le> o1 \<or> Suc k \<le> o2")
    case True
    then show ?thesis using nest 1(1) 2(1) meet1 meet2 by blast
  next
    case False
    then have k: "o1 = k" "o2 = k" using 1(2) 2(2) by auto
    then have "q1 = p" "q2 = ?h" using same[of q1 p] same[of q2 ?h] 1 2 al al2 by auto
    moreover have "p XOR 2 ^ k = ?h" using aligned_not_bit[OF Suc.prems(2)] by (simp add: xor_pow2_eq)
    ultimately have "in_area z k p" "in_area z k (p XOR 2 ^ k)" using 1(1) 2(1) k by simp_all
    then show ?thesis using good(2) Suc.prems(1) unfolding merged_def by (metis Suc_lessD diff_Suc_1 less_diff_conv plus_1_eq_Suc add.commute)
  qed
qed

section \<open>The allocator invariant\<close>

definition free_frames :: "'a pmm_scheme \<Rightarrow> nat set" where
  "free_frames s = free_set (zones s 0) \<union> free_set (zones s 1)"

definition zone_inv :: "nat \<Rightarrow> 'a pmm_scheme \<Rightarrow> bool" where
  "zone_inv zi s \<longleftrightarrow> zone_good zi s \<and> z_free (zones s zi) = card (free_set (zones s zi))"

text \<open>The page frame bound is the size of the direct map, which ends where the vmalloc area begins.\<close>

abbreviation PFN_LIMIT :: nat where "PFN_LIMIT \<equiv> 2 ^ 34"

definition pmm_inv :: "'a pmm_scheme \<Rightarrow> bool" where
  "pmm_inv s \<longleftrightarrow> zone_inv 0 s \<and> zone_inv 1 s \<and> max_pfn s \<le> PFN_LIMIT \<and>
     z_start (zones s 0) = 0 \<and> z_end (zones s 0) = min (max_pfn s) PFN_4G \<and>
     z_start (zones s 1) = PFN_4G \<and> z_end (zones s 1) = max (max_pfn s) PFN_4G \<and>
     (\<forall>p\<in>free_frames s. \<not> has_flag (pg_flags (mem_map s p)) PG_RESERVED)"

definition in_zone :: "'a pmm_scheme \<Rightarrow> nat \<Rightarrow> nat \<Rightarrow> bool" where
  "in_zone s p order \<longleftrightarrow> z_start (zones s (pfn_zone p)) \<le> p \<and>
     p + 2 ^ order \<le> z_end (zones s (pfn_zone p)) \<and> order < MAX_ORDER \<and> 2 ^ order dvd p"

definition allocated :: "'a pmm_scheme \<Rightarrow> nat \<Rightarrow> nat \<Rightarrow> bool" where
  "allocated s p order \<longleftrightarrow> in_zone s p order \<and> block p order \<inter> free_frames s = {} \<and>
     (\<forall>q\<in>block p order. \<not> has_flag (pg_flags (mem_map s q)) PG_RESERVED) \<and>
     has_flag (pg_flags (mem_map s p)) PG_HEAD \<and> pg_order (mem_map s p) = order"

lemma pmm_inv_zone: "pmm_inv s \<Longrightarrow> zi < 2 \<Longrightarrow> zone_inv zi s"
  by (auto simp: pmm_inv_def less_2_cases_iff)

lemma free_frames_zone:
  assumes "pmm_inv s"
  shows "zi < 2 \<Longrightarrow> x \<in> free_set (zones s zi) \<longleftrightarrow> x \<in> free_frames s \<and> pfn_zone x = zi"
    and "x \<in> free_frames s \<Longrightarrow> x < max_pfn s"
proof -
  have 0: "x < max_pfn s \<and> x < PFN_4G" if "x \<in> free_set (zones s 0)"
    using assms that free_set_in_zone[of "mem_map s" "zones s 0" x] by (auto simp: pmm_inv_def zone_inv_def)
  have 1: "x < max_pfn s \<and> PFN_4G \<le> x" if "x \<in> free_set (zones s 1)"
    using assms that free_set_in_zone[of "mem_map s" "zones s 1" x] by (auto simp: pmm_inv_def zone_inv_def)
  show "zi < 2 \<Longrightarrow> x \<in> free_set (zones s zi) \<longleftrightarrow> x \<in> free_frames s \<and> pfn_zone x = zi"
    using 0 1 by (auto simp: less_2_cases_iff free_frames_def pfn_zone_def)
  show "x \<in> free_frames s \<Longrightarrow> x < max_pfn s"
    using 0 1 by (auto simp: free_frames_def)
qed

lemma pfn_zone_lt: "pfn_zone p < 2"
  by (simp add: pfn_zone_def)

lemma in_zone_pfn_zone:
  assumes "pmm_inv s" and "in_zone s p order" and "x \<in> block p order"
  shows "pfn_zone x = pfn_zone p" "x < max_pfn s"
  using assms by (auto simp: in_zone_def pfn_zone_def pmm_inv_def split: if_splits)

lemma page_addr:
  assumes "p < 2 ^ 52"
  shows "unat (page_to_phys p) = p * 4096" "phys_to_page (page_to_phys p) = p"
proof -
  have b: "p * 4096 < 2 ^ 64" using assms by simp
  have "unat (page_to_phys p) = unat (of_nat p * (4096 :: u64))"
    by (simp add: page_to_phys_def push_bit_eq_mult)
  also have "\<dots> = (p mod 2 ^ 64 * 4096) mod 2 ^ 64" by (simp add: unat_word_ariths unat_of_nat)
  also have "\<dots> = p * 4096" using assms b by simp
  finally show a: "unat (page_to_phys p) = p * 4096" .
  show "phys_to_page (page_to_phys p) = p"
    by (simp add: phys_to_page_def drop_bit_eq_div unat_div a)
qed

section \<open>Allocation\<close>

lemma buddy_frameD:
  assumes "buddy_frame zi A s s'"
  shows "zj \<noteq> zi \<Longrightarrow> zones s' zj = zones s zj" "z_start (zones s' zk) = z_start (zones s zk)"
    "z_end (zones s' zk) = z_end (zones s zk)" "z_free (zones s' zk) = z_free (zones s zk)"
    "z_managed (zones s' zk) = z_managed (zones s zk)" "max_pfn s' = max_pfn s" "kmem s' = kmem s"
    "pmm.more s' = pmm.more s" "q \<notin> A \<Longrightarrow> mem_map s' q = mem_map s q"
    "f AND PG_BUDDY = 0 \<Longrightarrow> has_flag (pg_flags (mem_map s' q)) f = has_flag (pg_flags (mem_map s q)) f"
  using assms unfolding buddy_frame_def by (blast+)

text \<open>An operation on one zone that keeps the other zone's frames keeps the other zone's invariant.\<close>

lemma zone_inv_other:
  assumes "zone_inv zj s" and "zones s' zj = zones s zj"
    and "\<And>q. z_start (zones s zj) \<le> q \<Longrightarrow> q < z_end (zones s zj) \<Longrightarrow> mem_map s' q = mem_map s q"
  shows "zone_inv zj s'"
  using assms zone_ok_cong[of "mem_map s" "zones s zj" "mem_map s'"]
  by (simp add: zone_inv_def)

definition alloc_finish :: "nat \<Rightarrow> nat \<Rightarrow> nat \<Rightarrow> u32 \<Rightarrow> 'a pmm_scheme \<Rightarrow> 'a pmm_scheme" where
  "alloc_finish zi p order gf s =
     (let s = upd_zone zi (\<lambda>z. z\<lparr>z_free := z_free z - 2 ^ order\<rparr>) s;
          s = upd_page p (\<lambda>pg. pg\<lparr>pg_flags := pg_flags pg OR PG_HEAD, pg_order := order,
                pg_refcount := 1, pg_mapcount := 0\<rparr>) s
      in if has_flag gf GFP_ZERO
         then s\<lparr>kmem := memset (page_to_virt p) 0 (4096 * 2 ^ order) (kmem s)\<rparr> else s)"

lemma alloc_finish_simps:
  "mem_map (alloc_finish zi p order gf s) = (mem_map s)(p := (mem_map s p)\<lparr>pg_flags := pg_flags (mem_map s p) OR PG_HEAD,
     pg_order := order, pg_refcount := 1, pg_mapcount := 0\<rparr>)"
  "zones (alloc_finish zi p order gf s) = (zones s)(zi := (zones s zi)\<lparr>z_free := z_free (zones s zi) - 2 ^ order\<rparr>)"
  "max_pfn (alloc_finish zi p order gf s) = max_pfn s"
  "pmm.more (alloc_finish zi p order gf s) = pmm.more s"
  "kmem (alloc_finish zi p order gf s) =
     (if has_flag gf GFP_ZERO then memset (page_to_virt p) 0 (4096 * 2 ^ order) (kmem s) else kmem s)"
  by (simp_all add: alloc_finish_def Let_def upd_page_def upd_zone_def)

text \<open>What a successful allocation from zone \<open>zi\<close> does to the whole state.\<close>

definition took :: "nat \<Rightarrow> nat \<Rightarrow> nat \<Rightarrow> u32 \<Rightarrow> 'a pmm_scheme \<Rightarrow> 'a pmm_scheme \<Rightarrow> bool" where
  "took zi p order gf s s' \<longleftrightarrow> zi < 2 \<and> pfn_zone p = zi \<and> pmm_inv s' \<and> allocated s' p order \<and>
     block p order \<subseteq> free_frames s \<and> free_frames s' = free_frames s - block p order \<and>
     max_pfn s' = max_pfn s \<and> pmm.more s' = pmm.more s \<and> pg_refcount (mem_map s' p) = 1 \<and>
     (\<forall>q. q \<notin> free_frames s \<longrightarrow> mem_map s' q = mem_map s q) \<and>
     (\<forall>zk. z_start (zones s' zk) = z_start (zones s zk) \<and> z_end (zones s' zk) = z_end (zones s zk)) \<and>
     kmem s' = (if has_flag gf GFP_ZERO then memset (page_to_virt p) 0 (4096 * 2 ^ order) (kmem s)
                else kmem s)"

lemma pmm_inv_zone_update:
  assumes inv: "pmm_inv s" and zi: "zi < 2" and inv_zi: "zone_inv zi s'"
    and zj: "\<And>zj. zj \<noteq> zi \<Longrightarrow> zones s' zj = zones s zj"
    and bounds: "z_start (zones s' zi) = z_start (zones s zi)" "z_end (zones s' zi) = z_end (zones s zi)"
    and max: "max_pfn s' = max_pfn s"
    and mm: "\<And>q. pfn_zone q \<noteq> zi \<Longrightarrow> mem_map s' q = mem_map s q"
    and res: "\<And>p. p \<in> free_frames s' \<Longrightarrow> \<not> has_flag (pg_flags (mem_map s' p)) PG_RESERVED"
  shows "pmm_inv s'"
proof -
  have inv_zj: "zone_inv zj s'" if "zj < 2" "zj \<noteq> zi" for zj
  proof (rule zone_inv_other[OF pmm_inv_zone[OF inv that(1)] zj[OF that(2)]])
    fix q assume q: "z_start (zones s zj) \<le> q" "q < z_end (zones s zj)"
    have "pfn_zone q = zj" using q inv that(1) by (auto simp: pmm_inv_def less_2_cases_iff pfn_zone_def)
    then show "mem_map s' q = mem_map s q" using that(2) by (intro mm) simp
  qed
  have "zone_inv 0 s'" "zone_inv 1 s'" using inv_zi inv_zj zi by (auto simp: less_2_cases_iff)
  moreover have "z_start (zones s' zk) = z_start (zones s zk)" "z_end (zones s' zk) = z_end (zones s zk)" for zk
    using bounds zj[of zk] by (cases "zk = zi"; simp)+
  ultimately show ?thesis using inv res max by (simp add: pmm_inv_def)
qed

lemma free_frames_zone_subset: "zi < 2 \<Longrightarrow> free_set (zones s zi) \<subseteq> free_frames s"
  by (auto simp: free_frames_def less_2_cases_iff)

lemma block_bounds:
  assumes "zone_ok m z" and "block p order \<subseteq> free_set z"
  shows "z_start z \<le> p" "p + 2 ^ order \<le> z_end z"
proof -
  have pos: "0 < (2::nat) ^ order" by simp
  have "p + (2 ^ order - 1) \<in> block p order" using pos unfolding block_iff by linarith
  then have "p + (2 ^ order - 1) < z_end z" using assms free_set_in_zone by blast
  then show "p + 2 ^ order \<le> z_end z" using pos by linarith
  show "z_start z \<le> p" using assms free_set_in_zone block_head by blast
qed

lemma alloc_zone_inv:
  assumes zinv: "zone_inv zi s" and alloc: "buddy_alloc zi order s = (Some p, s1)"
  shows "zone_inv zi (alloc_finish zi p order gf s1)"
    and "free_set (zones (alloc_finish zi p order gf s1) zi) = free_set (zones s zi) - block p order"
    and "block p order \<subseteq> free_set (zones s zi)" and "2 ^ order dvd p" and "order < MAX_ORDER"
    and "buddy_frame zi (free_set (zones s zi)) s s1"
proof -
  have good: "zone_good zi s" using zinv by (simp add: zone_inv_def)
  from buddy_alloc_from_ok[OF good order_refl, of order] alloc
  have good1: "zone_good zi s1"
    and fs: "free_set (zones s1 zi) = free_set (zones s zi) - block p order"
    and sub: "block p order \<subseteq> free_set (zones s zi)" and fr: "buddy_frame zi (free_set (zones s zi)) s s1"
    and rest: "2 ^ order dvd p" "order < MAX_ORDER"
    by (simp_all add: buddy_alloc_def)
  show "block p order \<subseteq> free_set (zones s zi)" "buddy_frame zi (free_set (zones s zi)) s s1"
    "2 ^ order dvd p" "order < MAX_ORDER"
    using sub fr rest by blast+
  have nb: "\<not> buddy_flag (mem_map s1 p)"
  proof
    assume "buddy_flag (mem_map s1 p)"
    moreover have "z_start (zones s1 zi) \<le> p" "p < z_end (zones s1 zi)"
      using good sub block_head free_set_in_zone[of "mem_map s" "zones s zi" p] buddy_frameD(2,3)[OF fr]
      by fastforce+
    ultimately have "p \<in> free_set (zones s1 zi)"
      using good1 zone_ok_flag zone_okD(7) block_head by blast
    then show False using fs block_head by blast
  qed
  have "zone_ok (mem_map (alloc_finish zi p order gf s1)) (zones s1 zi)"
  proof (rule zone_ok_cong[of "mem_map s1"])
    show "zone_ok (mem_map s1) (zones s1 zi)" using good1 by simp
    fix q show "buddy_flag (mem_map (alloc_finish zi p order gf s1) q) = buddy_flag (mem_map s1 q) \<and>
      (buddy_flag (mem_map s1 q) \<longrightarrow> pg_order (mem_map (alloc_finish zi p order gf s1) q) = pg_order (mem_map s1 q))"
      using nb by (simp add: alloc_finish_simps has_flag_or)
  qed
  moreover have "card (free_set (zones s1 zi)) = card (free_set (zones s zi)) - 2 ^ order"
    using sub by (simp add: fs card_Diff_subset)
  ultimately show "zone_inv zi (alloc_finish zi p order gf s1)"
    using good1 zinv by (simp add: zone_inv_def alloc_finish_simps zone_ok_counters buddy_frameD(4)[OF fr])
  show "free_set (zones (alloc_finish zi p order gf s1) zi) = free_set (zones s zi) - block p order"
    by (simp add: alloc_finish_simps zone_ok_counters fs)
qed

lemma buddy_alloc_took:
  assumes inv: "pmm_inv s" and zi: "zi < 2" and alloc: "buddy_alloc zi order s = (Some p, s1)"
  shows "took zi p order gf s (alloc_finish zi p order gf s1)"
proof -
  let ?s' = "alloc_finish zi p order gf s1"
  note az = alloc_zone_inv[OF pmm_inv_zone[OF inv zi] alloc]
  note sub = az(3) and frD = buddy_frameD[OF az(6)]
  have zok: "zone_ok (mem_map s) (zones s zi)" using pmm_inv_zone[OF inv zi] by (simp add: zone_inv_def)
  have zp: "pfn_zone x = zi" if "x \<in> free_set (zones s zi)" for x
    using that free_frames_zone(1)[OF inv zi] by blast
  have pin: "p \<in> free_set (zones s zi)" using sub block_head by blast
  have others: "mem_map ?s' q = mem_map s q" if "q \<notin> free_set (zones s zi)" for q
    using that frD(9) pin by (auto simp: alloc_finish_simps)
  have resv: "has_flag (pg_flags (mem_map ?s' q)) PG_RESERVED = has_flag (pg_flags (mem_map s q)) PG_RESERVED" for q
    by (simp add: alloc_finish_simps has_flag_or frD(10))
  have zs: "zones ?s' zj = zones s zj" if "zj \<noteq> zi" for zj using that frD(1) by (simp add: alloc_finish_simps)
  have bounds: "z_start (zones ?s' zk) = z_start (zones s zk)" "z_end (zones ?s' zk) = z_end (zones s zk)" for zk
    by (simp_all add: alloc_finish_simps frD)
  have "x \<in> free_frames ?s' \<longleftrightarrow> x \<in> free_frames s - block p order" for x
    using zi az(2) zs[of 0] zs[of 1] free_frames_zone(1)[OF inv, of 0 x] free_frames_zone(1)[OF inv, of 1 x]
      zp[of x] sub by (auto simp: free_frames_def less_2_cases_iff)
  then have ff: "free_frames ?s' = free_frames s - block p order" by blast
  have others': "pfn_zone q \<noteq> zi \<Longrightarrow> mem_map ?s' q = mem_map s q" for q
    by (rule others) (auto dest: zp)
  have inv': "pmm_inv ?s'"
    by (rule pmm_inv_zone_update[OF inv zi az(1) zs])
      (use inv others' ff resv bounds in \<open>auto simp: pmm_inv_def alloc_finish_simps(3) frD(6)\<close>)
  have "in_zone ?s' p order"
    using block_bounds[OF zok sub] zp[OF pin] az(4,5) by (simp add: in_zone_def bounds)
  moreover have "\<forall>q\<in>block p order. \<not> has_flag (pg_flags (mem_map ?s' q)) PG_RESERVED"
    using inv sub zi resv free_frames_zone_subset[OF zi] unfolding pmm_inv_def by blast
  ultimately have "allocated ?s' p order"
    by (auto simp: allocated_def ff alloc_finish_simps has_flag_or)
  moreover have "block p order \<subseteq> free_frames s" "\<forall>q. q \<notin> free_frames s \<longrightarrow> mem_map ?s' q = mem_map s q"
    using sub others free_frames_zone_subset[OF zi, of s] by blast+
  moreover have "pg_refcount (mem_map ?s' p) = 1" by (simp add: alloc_finish_simps)
  ultimately show ?thesis
    using inv' ff zi zp[OF pin] bounds
    unfolding took_def alloc_finish_simps(3,4,5) frD(6,7,8) by blast
qed

lemma alloc_zones_unfold:
  "alloc_zones zi order gf s = (case buddy_alloc zi order s of
     (None, s1) \<Rightarrow> (case zi of 0 \<Rightarrow> (None, s1) | Suc zj \<Rightarrow> alloc_zones zj order gf s1)
   | (Some p, s1) \<Rightarrow> (Some p, alloc_finish zi p order gf s1))"
  by (subst alloc_zones.simps) (simp add: alloc_finish_def Let_def split: prod.splits option.splits)

lemma alloc_zones_spec:
  assumes inv: "pmm_inv s"
  shows "zi < 2 \<Longrightarrow> case alloc_zones zi order gf s of
      (None, s') \<Rightarrow> s' = s \<and> (\<forall>zj\<le>zi. \<forall>o' q. order \<le> o' \<longrightarrow> \<not> in_area (zones s zj) o' q)
    | (Some p, s') \<Rightarrow> \<exists>zj\<le>zi. took zj p order gf s s'"
proof (induction zi)
  case 0
  have good: "zone_good 0 s" using pmm_inv_zone[OF inv 0] by (simp add: zone_inv_def)
  show ?case
  proof (cases "buddy_alloc 0 order s")
    case (Pair r s1)
    then show ?thesis
      using buddy_alloc_from_ok[OF good order_refl, of order] buddy_alloc_took[OF inv 0, of order]
      by (cases r) (simp_all add: alloc_zones_unfold[of 0] buddy_alloc_def)
  qed
next
  case (Suc zi)
  have good: "zone_good (Suc zi) s" using pmm_inv_zone[OF inv Suc.prems] by (simp add: zone_inv_def)
  show ?case
  proof (cases "buddy_alloc (Suc zi) order s")
    case (Pair r s1)
    show ?thesis
    proof (cases r)
      case None
      then have "alloc_zones (Suc zi) order gf s = alloc_zones zi order gf s"
        and "\<forall>o' q. order \<le> o' \<longrightarrow> \<not> in_area (zones s (Suc zi)) o' q"
        using Pair buddy_alloc_from_ok[OF good order_refl, of order]
        by (simp_all add: alloc_zones_unfold[of "Suc zi"] buddy_alloc_def)
      then show ?thesis using Suc.IH Suc.prems by (auto split: option.splits prod.splits simp: le_Suc_eq)
    next
      case (Some p)
      then have "alloc_zones (Suc zi) order gf s = (Some p, alloc_finish (Suc zi) p order gf s1)"
        using Pair by (simp add: alloc_zones_unfold[of "Suc zi"])
      then show ?thesis using buddy_alloc_took[OF inv Suc.prems] Pair Some by auto
    qed
  qed
qed

lemma in_area_contains:
  assumes "zone_ok m z" and "in_area z ord q" and "order \<le> ord"
  shows "block q order \<subseteq> free_set z" "2 ^ order dvd q"
proof -
  show "block q order \<subseteq> free_set z" using block_mono[OF assms(3)] zone_okD(7)[OF assms(1,2)] by blast
  show "2 ^ order dvd q" using zone_okD(1)[OF assms(1,2)] assms(3) by (meson dvd_trans le_imp_power_dvd)
qed

definition runs_free :: "'a pmm_scheme \<Rightarrow> u32 \<Rightarrow> nat \<Rightarrow> nat \<Rightarrow> bool" where
  "runs_free s gf order p \<longleftrightarrow> 2 ^ order dvd p \<and> block p order \<subseteq> free_frames s \<and>
     (has_flag gf GFP_DMA32 \<longrightarrow> p < PFN_4G) \<and> (\<forall>x\<in>block p order. pfn_zone x = pfn_zone p)"

lemma no_area_no_run:
  assumes inv: "pmm_inv s" and ord: "order < MAX_ORDER"
    and no: "\<forall>zj\<le>(if has_flag gf GFP_DMA32 then 0 else 1). \<forall>o' q. order \<le> o' \<longrightarrow> \<not> in_area (zones s zj) o' q"
  shows "\<not> runs_free s gf order p"
proof
  assume "runs_free s gf order p"
  then have p: "2 ^ order dvd p" "block p order \<subseteq> free_frames s"
    "has_flag gf GFP_DMA32 \<longrightarrow> p < PFN_4G" "\<forall>x\<in>block p order. pfn_zone x = pfn_zone p"
    unfolding runs_free_def by blast+
  then have "block p order \<subseteq> free_set (zones s (pfn_zone p))"
    using free_frames_zone(1)[OF inv pfn_zone_lt] by blast
  then obtain ord' q where "in_area (zones s (pfn_zone p)) ord' q" "order \<le> ord'"
    using free_run_on_list[of "mem_map s" "zones s (pfn_zone p)" order p] ord p(1)
      pmm_inv_zone[OF inv pfn_zone_lt, of p] by (auto simp: zone_inv_def)
  moreover have "pfn_zone p \<le> (if has_flag gf GFP_DMA32 then 0 else 1)" using p(3) by (simp add: pfn_zone_def)
  ultimately show False using no by blast
qed

lemma alloc_pages_took:
  assumes "pmm_inv s" and "alloc_pages order gf s = (Some p, s')"
  shows "took (pfn_zone p) p order gf s s'" "has_flag gf GFP_DMA32 \<Longrightarrow> p < PFN_4G"
proof -
  let ?zi = "if has_flag gf GFP_DMA32 then 0 else 1 :: nat"
  have eq: "alloc_zones ?zi order gf s = (Some p, s')"
    using assms(2) by (simp add: alloc_pages_def split: if_split_asm)
  have "?zi < 2" by simp
  from alloc_zones_spec[OF assms(1) this, of order gf]
  obtain zj where zj: "zj \<le> ?zi" "took zj p order gf s s'" unfolding eq by auto
  have pz: "pfn_zone p = zj" using zj(2) by (simp add: took_def)
  then show "took (pfn_zone p) p order gf s s'" using zj(2) by simp
  show "has_flag gf GFP_DMA32 \<Longrightarrow> p < PFN_4G"
    using zj(1) pz by (simp add: pfn_zone_def split: if_split_asm)
qed

lemma alloc_pages_None:
  assumes "pmm_inv s" and "alloc_pages order gf s = (None, s')"
  shows "s' = s" "order < MAX_ORDER \<Longrightarrow> \<not> runs_free s gf order p"
proof -
  let ?zi = "if has_flag gf GFP_DMA32 then 0 else 1 :: nat"
  have "?zi < 2" by simp
  note spec = alloc_zones_spec[OF assms(1) this, of order gf]
  have "s' = s \<and> (order < MAX_ORDER \<longrightarrow> \<not> runs_free s gf order p)"
  proof (cases "order < MAX_ORDER")
    case True
    then have "alloc_zones ?zi order gf s = (None, s')" using assms(2) by (simp add: alloc_pages_def)
    with spec no_area_no_run[OF assms(1) True, of gf p] show ?thesis by simp
  next
    case False
    then show ?thesis using assms(2) by (simp add: alloc_pages_def)
  qed
  then show "s' = s" "order < MAX_ORDER \<Longrightarrow> \<not> runs_free s gf order p" by blast+
qed

text \<open>
  C4. Allocation is complete and correct. On a state that satisfies the allocator invariant
  \<^verbatim>\<open>alloc_pages\<close> either returns a block that was free, is naturally aligned and (with
  \<^verbatim>\<open>GFP_DMA32\<close>) lies below 4 GiB, removes exactly its frames from the free frames, keeps the
  invariant, gives the block one reference and hands it to the caller; or it returns NULL without
  changing anything, and then there really is no naturally aligned free run of that size in the
  zones it may use.
\<close>

theorem alloc_pages_correct:
  assumes inv: "pmm_inv s" and ord: "order < MAX_ORDER"
  shows "case alloc_pages order gf s of
      (Some p, s') \<Rightarrow> pmm_inv s' \<and> allocated s' p order \<and> 2 ^ order dvd p \<and>
        block p order \<subseteq> free_frames s \<and> free_frames s' = free_frames s - block p order \<and>
        pg_refcount (mem_map s' p) = 1 \<and>
        (has_flag gf GFP_DMA32 \<longrightarrow> p < PFN_4G) \<and>
        (\<forall>q. q \<notin> free_frames s \<longrightarrow> mem_map s' q = mem_map s q)
    | (None, s') \<Rightarrow> s' = s \<and>
        (\<nexists>p. 2 ^ order dvd p \<and> block p order \<subseteq> free_frames s \<and>
           (has_flag gf GFP_DMA32 \<longrightarrow> p < PFN_4G) \<and> (\<forall>x\<in>block p order. pfn_zone x = pfn_zone p))"
proof (cases "alloc_pages order gf s")
  case (Pair r s')
  show ?thesis
  proof (cases r)
    case None
    then show ?thesis using alloc_pages_None[OF inv, of order gf s'] Pair ord unfolding runs_free_def by simp
  next
    case (Some p)
    then show ?thesis
      using alloc_pages_took[OF inv, of order gf p s'] Pair
      by (auto simp: took_def allocated_def in_zone_def)
  qed
qed

section \<open>Freeing\<close>

lemma and_mask_aligned: "2 ^ order dvd p \<Longrightarrow> (p::nat) AND (2 ^ order - 1) = 0"
  by (simp add: and_mask_eq_0_iff del: One_nat_def)

lemma allocated_not_buddy:
  assumes "pmm_inv s" and "allocated s p order"
  shows "\<not> buddy_flag (mem_map s p)"
proof
  assume "buddy_flag (mem_map s p)"
  moreover have "zone_ok (mem_map s) (zones s (pfn_zone p))"
    using pmm_inv_zone[OF assms(1) pfn_zone_lt] by (simp add: zone_inv_def)
  moreover have "z_start (zones s (pfn_zone p)) \<le> p" "p < z_end (zones s (pfn_zone p))"
    using assms(2) by (auto simp: allocated_def in_zone_def intro: less_le_trans[of p "p + 2 ^ order"])
  ultimately have "p \<in> free_set (zones s (pfn_zone p))"
    using zone_ok_flag zone_okD(7) block_head by blast
  then have "p \<in> free_frames s" using free_frames_zone_subset[OF pfn_zone_lt] by blast
  then show False using assms(2) block_head[of p order] unfolding allocated_def by blast
qed

text \<open>What returning a block does to the whole state.\<close>

definition gave :: "nat \<Rightarrow> nat \<Rightarrow> 'a pmm_scheme \<Rightarrow> 'a pmm_scheme \<Rightarrow> bool" where
  "gave p order s s' \<longleftrightarrow> pmm_inv s' \<and> free_frames s' = free_frames s \<union> block p order \<and>
     max_pfn s' = max_pfn s \<and> pmm.more s' = pmm.more s \<and> kmem s' = kmem s \<and>
     (\<forall>q. q \<notin> free_frames s \<union> block p order \<longrightarrow> mem_map s' q = mem_map s q) \<and>
     (\<forall>zk. z_start (zones s' zk) = z_start (zones s zk) \<and> z_end (zones s' zk) = z_end (zones s zk))"

lemma buddy_free_gave:
  assumes inv: "pmm_inv s" and inz: "in_zone s p order" and dis: "block p order \<inter> free_frames s = {}"
    and res: "\<forall>q\<in>block p order. \<not> has_flag (pg_flags (mem_map s q)) PG_RESERVED"
  shows "gave p order s (upd_zone (pfn_zone p) (\<lambda>z. z\<lparr>z_free := z_free z + 2 ^ order, z_managed := n z\<rparr>)
    (buddy_free (pfn_zone p) p order s))"
proof -
  let ?zi = "pfn_zone p" and ?s1 = "buddy_free (pfn_zone p) p order s"
  let ?s' = "upd_zone ?zi (\<lambda>z. z\<lparr>z_free := z_free z + 2 ^ order, z_managed := n z\<rparr>) ?s1"
  have zinv: "zone_inv ?zi s" using inv pfn_zone_lt by (rule pmm_inv_zone)
  have good: "zone_good ?zi s" using zinv by (simp add: zone_inv_def)
  note zsub = free_frames_zone_subset[OF pfn_zone_lt, of s p]
  have blk: "free_block ?zi p order s" using inz dis zsub by (auto simp: free_block_def in_zone_def)
  from buddy_free_ok[OF good blk]
  have b: "zone_good ?zi ?s1" "free_set (zones ?s1 ?zi) = free_set (zones s ?zi) \<union> block p order"
    "buddy_frame ?zi (free_set (zones s ?zi) \<union> block p order) s ?s1" by blast+
  note frD = buddy_frameD[OF b(3)]
  have fin: "finite (free_set (zones s ?zi))" using good finite_free_set by blast
  have "free_set (zones s ?zi) \<inter> block p order = {}" using dis zsub by blast
  then have "card (free_set (zones ?s1 ?zi)) = card (free_set (zones s ?zi)) + 2 ^ order"
    using fin by (simp add: b(2) card_Un_disjoint)
  then have inv_zi: "zone_inv ?zi ?s'"
    using b(1) zinv by (simp add: zone_inv_def zone_ok_counters frD(4))
  have zs: "zones ?s' zj = zones s zj" if "zj \<noteq> ?zi" for zj using that frD(1) by simp
  have fs': "free_set (zones ?s' ?zi) = free_set (zones s ?zi) \<union> block p order"
    by (simp add: zone_ok_counters b(2))
  have ff: "free_frames ?s' = free_frames s \<union> block p order"
  proof (cases "?zi = 0")
    case True then show ?thesis using fs' zs[of 1] unfolding free_frames_def by auto
  next
    case False
    then have "?zi = 1" using pfn_zone_lt[of p] by linarith
    then show ?thesis using fs' zs[of 0] unfolding free_frames_def by auto
  qed
  have bounds: "z_start (zones ?s' zk) = z_start (zones s zk)" "z_end (zones ?s' zk) = z_end (zones s zk)" for zk
    by (simp_all add: frD)
  have other: "mem_map ?s' q = mem_map s q" if "q \<notin> free_frames s \<union> block p order" for q
    using that frD(9)[of q] zsub by auto
  have other': "mem_map ?s' q = mem_map s q" if "pfn_zone q \<noteq> ?zi" for q
  proof -
    have "q \<notin> free_set (zones s ?zi)" using that free_frames_zone(1)[OF inv pfn_zone_lt, of q p] by blast
    moreover have "q \<notin> block p order" using that in_zone_pfn_zone(1)[OF inv inz] by blast
    ultimately show ?thesis using frD(9)[of q] by simp
  qed
  have resv: "\<not> has_flag (pg_flags (mem_map ?s' q)) PG_RESERVED" if "q \<in> free_frames ?s'" for q
  proof -
    have "q \<in> free_frames s \<or> q \<in> block p order" using that ff by blast
    then have "\<not> has_flag (pg_flags (mem_map s q)) PG_RESERVED" using inv res unfolding pmm_inv_def by blast
    then show ?thesis by (simp add: frD(10))
  qed
  have "pmm_inv ?s'"
    by (rule pmm_inv_zone_update[OF inv pfn_zone_lt inv_zi zs bounds _ other' resv]) (simp_all add: frD(6))
  then show ?thesis
    unfolding gave_def using ff other bounds by (simp add: frD(6,7) upd_zone_def frD(8))
qed

text \<open>Changes to a page that keep its buddy status and do not reserve it keep the invariant.\<close>

lemma pmm_inv_upd_page:
  assumes inv: "pmm_inv s"
    and b: "buddy_flag (f (mem_map s p)) = buddy_flag (mem_map s p)"
      "buddy_flag (mem_map s p) \<Longrightarrow> pg_order (f (mem_map s p)) = pg_order (mem_map s p)"
    and r: "has_flag (pg_flags (f (mem_map s p))) PG_RESERVED \<Longrightarrow> has_flag (pg_flags (mem_map s p)) PG_RESERVED"
  shows "pmm_inv (upd_page p f s)" "free_frames (upd_page p f s) = free_frames s"
proof -
  show ff: "free_frames (upd_page p f s) = free_frames s" by (simp add: free_frames_def)
  have "zone_inv zi (upd_page p f s)" if "zi < 2" for zi
  proof -
    have "zone_ok (mem_map (upd_page p f s)) (zones s zi)"
      by (rule zone_ok_cong[of "mem_map s"]) (use pmm_inv_zone[OF inv that] b in \<open>simp_all add: zone_inv_def\<close>)
    then show ?thesis using pmm_inv_zone[OF inv that] by (simp add: zone_inv_def)
  qed
  from this[of 0] this[of 1] show "pmm_inv (upd_page p f s)"
    using inv r ff by (auto simp: pmm_inv_def)
qed

definition freed_page :: "page \<Rightarrow> page" where
  "freed_page pg = pg\<lparr>pg_flags := pg_flags pg AND NOT (PG_HEAD OR PG_SLAB), pg_refcount := 0, pg_cache := None\<rparr>"

lemma freed_page_flags:
  "buddy_flag (freed_page pg) = buddy_flag pg"
  "has_flag (pg_flags (freed_page pg)) PG_RESERVED = has_flag (pg_flags pg) PG_RESERVED"
  "pg_order (freed_page pg) = pg_order pg"
  by (simp_all add: freed_page_def has_flag_clear_other flip: and.assoc)

lemma free_pages_unguarded:
  assumes "p < max_pfn s" "\<not> has_flag (pg_flags (mem_map s p)) PG_RESERVED" "\<not> buddy_flag (mem_map s p)"
    "2 ^ order dvd p" "has_flag (pg_flags (mem_map s p)) PG_HEAD \<Longrightarrow> pg_order (mem_map s p) = order"
  shows "free_pages p order s = Inr (upd_zone (pfn_zone p)
    (\<lambda>z. z\<lparr>z_free := z_free z + 2 ^ order, z_managed := z_managed z\<rparr>)
      (buddy_free (pfn_zone p) p order (upd_page p freed_page s)))"
  using assms and_mask_aligned[OF assms(4)]
  by (auto simp: free_pages_def Let_def freed_page_def[abs_def])

lemma free_pages_gave:
  assumes inv: "pmm_inv s" and al: "allocated s p order"
  shows "\<exists>s'. free_pages p order s = Inr s' \<and> gave p order s s'"
proof -
  let ?s0 = "upd_page p freed_page s"
  have inz: "in_zone s p order" and hd: "pg_order (mem_map s p) = order"
    and res: "\<forall>q\<in>block p order. \<not> has_flag (pg_flags (mem_map s q)) PG_RESERVED"
    and dis: "block p order \<inter> free_frames s = {}"
    using al by (simp_all add: allocated_def)
  have eq: "free_pages p order s = Inr (upd_zone (pfn_zone p)
    (\<lambda>z. z\<lparr>z_free := z_free z + 2 ^ order, z_managed := z_managed z\<rparr>) (buddy_free (pfn_zone p) p order ?s0))"
    using in_zone_pfn_zone(2)[OF inv inz block_head] res block_head[of p order] allocated_not_buddy[OF inv al] inz hd
    by (intro free_pages_unguarded) (auto simp: in_zone_def)
  have inv0: "pmm_inv ?s0" and ff0: "free_frames ?s0 = free_frames s"
    using pmm_inv_upd_page[OF inv, where f = freed_page and p = p] by (simp_all add: freed_page_flags)
  have "gave p order ?s0 (upd_zone (pfn_zone p)
    (\<lambda>z. z\<lparr>z_free := z_free z + 2 ^ order, z_managed := z_managed z\<rparr>) (buddy_free (pfn_zone p) p order ?s0))"
    using inz res dis ff0 by (intro buddy_free_gave[OF inv0]) (auto simp: in_zone_def freed_page_flags)
  then have "gave p order s (upd_zone (pfn_zone p)
    (\<lambda>z. z\<lparr>z_free := z_free z + 2 ^ order, z_managed := z_managed z\<rparr>) (buddy_free (pfn_zone p) p order ?s0))"
    using block_head[of p order] unfolding gave_def ff0 by (auto simp: upd_page_def)
  then show ?thesis unfolding eq by blast
qed

lemma took_keeps:
  assumes "took zi p order gf s s'" and "allocated s q ord"
  shows "allocated s' q ord"
proof -
  have "x \<in> block q ord \<Longrightarrow> mem_map s' x = mem_map s x" for x
    using assms by (auto simp: took_def allocated_def)
  then show ?thesis using assms block_head[of q ord]
    by (auto simp: took_def allocated_def in_zone_def)
qed

lemma gave_keeps:
  assumes "gave p order s s'" and "allocated s q ord" and "block q ord \<inter> block p order = {}"
  shows "allocated s' q ord"
proof -
  have "x \<in> block q ord \<Longrightarrow> mem_map s' x = mem_map s x" for x
    using assms unfolding gave_def allocated_def by blast
  then show ?thesis using assms block_head[of q ord] unfolding gave_def allocated_def in_zone_def
    by (simp add: Int_Un_distrib del: block_iff)
qed

section \<open>The contract as an interface\<close>

fun alloc_all :: "('s \<Rightarrow> nat option \<times> 's) list \<Rightarrow> 's \<Rightarrow> nat list option \<times> 's" where
  "alloc_all [] s = (Some [], s)"
| "alloc_all (a # as) s =
     (case a s of
        (None, s) \<Rightarrow> (None, s)
      | (Some p, s) \<Rightarrow>
          (case alloc_all as s of (None, s) \<Rightarrow> (None, s) | (Some ps, s) \<Rightarrow> (Some (p # ps), s)))"

fun release_all :: "(nat \<Rightarrow> nat \<Rightarrow> 's \<Rightarrow> panic + 's) \<Rightarrow> (nat \<times> nat) list \<Rightarrow> 's \<Rightarrow> panic + 's" where
  "release_all rel [] s = Inr s"
| "release_all rel ((p, order) # bs) s = (case rel p order s of Inl e \<Rightarrow> Inl e | Inr s \<Rightarrow> release_all rel bs s)"

definition block_of :: "nat \<times> nat \<Rightarrow> nat set" where
  "block_of b = block (fst b) (snd b)"

definition blocks :: "(nat \<times> nat) list \<Rightarrow> nat set" where
  "blocks bs = (\<Union>b\<in>set bs. block_of b)"

definition disjoint_blocks :: "(nat \<times> nat) list \<Rightarrow> bool" where
  "disjoint_blocks bs \<longleftrightarrow> distinct bs \<and> pairwise (\<lambda>b c. block_of b \<inter> block_of c = {}) (set bs)"

lemma blocks_simps [simp]: "blocks [] = {}" "blocks ((p, k) # bs) = block p k \<union> blocks bs"
  by (simp_all add: blocks_def block_of_def)

lemma blocks_mem: "(q, m) \<in> set bs \<Longrightarrow> block q m \<subseteq> blocks bs"
  by (force simp only: blocks_def block_of_def fst_conv snd_conv)

lemma disjoint_blocks_Cons:
  "disjoint_blocks ((p, k) # bs) \<longleftrightarrow> block p k \<inter> blocks bs = {} \<and> disjoint_blocks bs"
proof
  assume "disjoint_blocks ((p, k) # bs)"
  then have n: "(p, k) \<notin> set bs" and d: "disjoint_blocks bs"
    and pw: "\<forall>c\<in>set bs. c \<noteq> (p, k) \<longrightarrow> block_of (p, k) \<inter> block_of c = {}"
    by (auto simp: disjoint_blocks_def pairwise_insert)
  have "block_of (p, k) \<inter> block_of c = {}" if "c \<in> set bs" for c
    using that n pw by (cases "c = (p, k)") simp_all
  then show "block p k \<inter> blocks bs = {} \<and> disjoint_blocks bs"
    using d by (simp add: blocks_def block_of_def Int_UN_distrib)
next
  assume a: "block p k \<inter> blocks bs = {} \<and> disjoint_blocks bs"
  then have "block_of (p, k) \<inter> block_of c = {}" if "c \<in> set bs" for c
    using that unfolding blocks_def block_of_def by fastforce
  moreover have "(p, k) \<notin> set bs"
    using a blocks_mem[of p k bs] block_head[of p k] by blast
  ultimately show "disjoint_blocks ((p, k) # bs)"
    using a by (simp add: disjoint_blocks_def pairwise_insert Int_commute)
qed

lemma disjoint_blocks_perm:
  assumes "mset bs = mset cs" and "disjoint_blocks bs"
  shows "disjoint_blocks cs"
  using assms mset_eq_setD[OF assms(1)] mset_eq_imp_distinct_iff[OF assms(1)]
  by (simp add: disjoint_blocks_def)

locale page_allocator =
  fixes ainv :: "'s \<Rightarrow> bool"
    and frames :: "'s \<Rightarrow> nat set"
    and owned :: "'s \<Rightarrow> nat \<Rightarrow> nat \<Rightarrow> bool"
    and alloc :: "nat \<Rightarrow> u32 \<Rightarrow> 's \<Rightarrow> nat option \<times> 's"
    and release :: "nat \<Rightarrow> nat \<Rightarrow> 's \<Rightarrow> panic + 's"
  assumes alloc_fail: "ainv s \<Longrightarrow> alloc k g s = (None, s') \<Longrightarrow> s' = s"
    and alloc_ok: "ainv s \<Longrightarrow> alloc k g s = (Some p, s') \<Longrightarrow>
      ainv s' \<and> owned s' p k \<and> block p k \<subseteq> frames s \<and> frames s' = frames s - block p k"
    and alloc_keeps: "ainv s \<Longrightarrow> alloc k g s = (Some p, s') \<Longrightarrow> owned s q m \<Longrightarrow> owned s' q m"
    and owned_not_free: "owned s p k \<Longrightarrow> block p k \<inter> frames s = {}"
    and release_ok: "ainv s \<Longrightarrow> owned s p k \<Longrightarrow>
      \<exists>s'. release p k s = Inr s' \<and> ainv s' \<and> frames s' = frames s \<union> block p k"
    and release_keeps: "ainv s \<Longrightarrow> owned s p k \<Longrightarrow> release p k s = Inr s' \<Longrightarrow> owned s q m \<Longrightarrow>
      block q m \<inter> block p k = {} \<Longrightarrow> owned s' q m"
begin

lemma alloc_apart:
  assumes "ainv s" and "alloc k g s = (Some p, s')" and "owned s q m"
  shows "block p k \<inter> block q m = {}"
  using alloc_ok[OF assms(1,2)] owned_not_free[OF assms(3)] by blast

lemma alloc_release:
  assumes "ainv s" and "alloc k g s = (Some p, s')"
  shows "\<exists>s''. release p k s' = Inr s'' \<and> ainv s'' \<and> frames s'' = frames s"
  using alloc_ok[OF assms] release_ok[of s' p k] by auto

lemma alloc_all_ok:
  assumes "ainv s" and "alloc_all (map (\<lambda>k. alloc k g) ks) s = (Some ps, s')"
  shows "ainv s' \<and> length ps = length ks \<and> (\<forall>(p, k)\<in>set (zip ps ks). owned s' p k) \<and>
    frames s' = frames s - blocks (zip ps ks) \<and> blocks (zip ps ks) \<subseteq> frames s \<and>
    disjoint_blocks (zip ps ks) \<and> (\<forall>q m. owned s q m \<longrightarrow> owned s' q m)"
  using assms
proof (induction ks arbitrary: s ps)
  case Nil
  then show ?case by (simp add: blocks_def disjoint_blocks_def)
next
  case (Cons k ks)
  from Cons.prems(2) obtain p s1 qs where a: "alloc k g s = (Some p, s1)"
      "alloc_all (map (\<lambda>k. alloc k g) ks) s1 = (Some qs, s')" "ps = p # qs"
    by (auto split: prod.splits option.splits)
  note ok = alloc_ok[OF Cons.prems(1) a(1)] and keep = alloc_keeps[OF Cons.prems(1) a(1)]
  have IH: "ainv s' \<and> length qs = length ks \<and> (\<forall>(p, k)\<in>set (zip qs ks). owned s' p k) \<and>
    frames s' = frames s1 - blocks (zip qs ks) \<and> blocks (zip qs ks) \<subseteq> frames s1 \<and>
    disjoint_blocks (zip qs ks) \<and> (\<forall>q m. owned s1 q m \<longrightarrow> owned s' q m)"
    using Cons.IH ok a(2) by blast
  have "blocks (zip ps (k # ks)) = block p k \<union> blocks (zip qs ks)" by (simp add: a(3))
  moreover have "disjoint_blocks (zip ps (k # ks))"
    using ok IH by (auto simp: a(3) disjoint_blocks_Cons)
  ultimately show ?case using ok keep IH a(3) by auto
qed

lemma release_all_ok:
  assumes "ainv s" and "\<forall>(p, k)\<in>set bs. owned s p k" and "disjoint_blocks bs"
  shows "\<exists>s'. release_all release bs s = Inr s' \<and> ainv s' \<and> frames s' = frames s \<union> blocks bs"
  using assms
proof (induction bs arbitrary: s)
  case Nil
  then show ?case by (simp add: blocks_def)
next
  case (Cons b bs)
  obtain p k where b: "b = (p, k)" by (cases b)
  have tail: "disjoint_blocks bs" and apart: "block p k \<inter> blocks bs = {}"
    using Cons.prems(3) by (simp_all add: b disjoint_blocks_Cons)
  have own: "owned s p k" using Cons.prems(2) b by auto
  obtain s1 where s1: "release p k s = Inr s1" "ainv s1" "frames s1 = frames s \<union> block p k"
    using release_ok[OF Cons.prems(1) own] by blast
  have "owned s1 q m" if "(q, m) \<in> set bs" for q m
  proof (rule release_keeps[OF Cons.prems(1) own s1(1)])
    show "owned s q m" using that Cons.prems(2) by auto
    show "block q m \<inter> block p k = {}" using apart blocks_mem[OF that] by blast
  qed
  then have "\<forall>(q, m)\<in>set bs. owned s1 q m" by auto
  from Cons.IH[OF s1(2) this tail] show ?case
    by (simp add: b s1(1,3) Un_assoc)
qed

lemma alloc_then_release_any_order:
  assumes "ainv s" and "alloc_all (map (\<lambda>k. alloc k g) ks) s = (Some ps, s')" and "mset bs = mset (zip ps ks)"
  shows "\<exists>s''. release_all release bs s' = Inr s'' \<and> ainv s'' \<and> frames s'' = frames s"
proof -
  note ok = alloc_all_ok[OF assms(1,2)]
  have st: "set bs = set (zip ps ks)" using assms(3) by (rule mset_eq_setD)
  then have "blocks bs = blocks (zip ps ks)" by (simp add: blocks_def)
  moreover have "disjoint_blocks bs" using disjoint_blocks_perm[OF assms(3)[symmetric]] ok by blast
  ultimately show ?thesis using release_all_ok[of s' bs] ok st by auto
qed

end

lemma gave_free_pages:
  "pmm_inv s \<Longrightarrow> allocated s p order \<Longrightarrow> free_pages p order s = Inr s' \<Longrightarrow> gave p order s s'"
  using free_pages_gave by fastforce

interpretation pa: page_allocator pmm_inv free_frames allocated alloc_pages free_pages
proof unfold_locales
  fix s s' :: "'a pmm_scheme" and k p q m :: nat and g :: u32
  show "pmm_inv s \<Longrightarrow> alloc_pages k g s = (None, s') \<Longrightarrow> s' = s"
    by (rule alloc_pages_None(1))
  show "pmm_inv s \<Longrightarrow> alloc_pages k g s = (Some p, s') \<Longrightarrow>
      pmm_inv s' \<and> allocated s' p k \<and> block p k \<subseteq> free_frames s \<and> free_frames s' = free_frames s - block p k"
    using alloc_pages_took(1)[of s k g p s'] by (simp add: took_def)
  show "pmm_inv s \<Longrightarrow> alloc_pages k g s = (Some p, s') \<Longrightarrow> allocated s q m \<Longrightarrow> allocated s' q m"
    using alloc_pages_took(1) took_keeps by blast
  show "allocated s p k \<Longrightarrow> block p k \<inter> free_frames s = {}" by (simp add: allocated_def)
  show "pmm_inv s \<Longrightarrow> allocated s p k \<Longrightarrow>
      \<exists>s'. free_pages p k s = Inr s' \<and> pmm_inv s' \<and> free_frames s' = free_frames s \<union> block p k"
    using free_pages_gave[of s p k] by (auto simp: gave_def)
  show "pmm_inv s \<Longrightarrow> allocated s p k \<Longrightarrow> free_pages p k s = Inr s' \<Longrightarrow> allocated s q m \<Longrightarrow>
      block q m \<inter> block p k = {} \<Longrightarrow> allocated s' q m"
    using gave_free_pages gave_keeps by blast
qed

section \<open>Properties of the public interface\<close>

lemma gfp_simps [simp]:
  "has_flag GFP_ZERO GFP_ZERO" "\<not> has_flag GFP_DMA32 GFP_ZERO" "has_flag GFP_DMA32 GFP_DMA32"
  "\<not> has_flag GFP_ZERO GFP_DMA32" "\<not> has_flag 0 f"
  by (simp_all add: has_flag_def GFP_ZERO_def GFP_DMA32_def)

text \<open>
  C8. Any sequence of allocations followed by freeing the blocks in any order brings the allocator
  back to the same set of free frames, never panics, and the blocks handed out in between are
  pairwise disjoint.
\<close>

theorem alloc_free_any_order:
  assumes "pmm_inv s" and "alloc_all (map (\<lambda>k. alloc_pages k gf) orders) s = (Some ps, s')"
    and "mset bs = mset (zip ps orders)"
  shows "disjoint_blocks (zip ps orders) \<and>
    (\<exists>s''. release_all free_pages bs s' = Inr s'' \<and> pmm_inv s'' \<and> free_frames s'' = free_frames s)"
  using pa.alloc_all_ok[OF assms(1,2)] pa.alloc_then_release_any_order[OF assms] by blast

text \<open>
  The guards of \<^verbatim>\<open>free_pages\<close>: a block that is on a free list, a reserved frame, a frame
  outside RAM, a misaligned block and a block given back with another order than it was allocated
  with all end in a panic, with the panic message of the first guard that applies; and a block
  that is owned is accepted and returns exactly its frames.
\<close>

theorem free_pages_guards:
  assumes inv: "pmm_inv s"
  shows "case free_pages p order s of
      Inl e \<Rightarrow> \<not> allocated s p order \<and>
        (e = Panic_no_pfn \<longleftrightarrow> max_pfn s \<le> p) \<and>
        (e = Panic_double_free \<longrightarrow> (\<exists>k. in_area (zones s (pfn_zone p)) k p)) \<and>
        (e = Panic_misaligned \<longrightarrow> \<not> 2 ^ order dvd p)
    | Inr s' \<Rightarrow> (\<forall>k. \<not> in_area (zones s (pfn_zone p)) k p) \<and> 2 ^ order dvd p \<and> p < max_pfn s \<and>
        (allocated s p order \<longrightarrow> pmm_inv s' \<and> free_frames s' = free_frames s \<union> block p order)"
proof (cases "free_pages p order s")
  case (Inl e)
  have na: "\<not> allocated s p order"
    using free_pages_gave[OF inv] Inl by fastforce
  have zok: "zone_ok (mem_map s) (zones s (pfn_zone p))"
    using pmm_inv_zone[OF inv pfn_zone_lt] by (simp add: zone_inv_def)
  have "\<exists>k. in_area (zones s (pfn_zone p)) k p" if "buddy_flag (mem_map s p)" "p < max_pfn s"
    using zone_ok_flag[OF zok _ _ that(1)] that(2) inv
    by (auto simp: pmm_inv_def pfn_zone_def split: if_splits)
  then show ?thesis
    using Inl na and_mask_aligned[of order p]
    by (auto simp: free_pages_def Let_def split: if_splits)
next
  case (Inr s')
  have zok: "zone_ok (mem_map s) (zones s (pfn_zone p))"
    using pmm_inv_zone[OF inv pfn_zone_lt] by (simp add: zone_inv_def)
  have g: "\<not> buddy_flag (mem_map s p)" "p < max_pfn s" "2 ^ order dvd p"
    using Inr by (auto simp: free_pages_def Let_def and_mask_eq_0_iff[symmetric] split: if_splits)
  then have "\<not> in_area (zones s (pfn_zone p)) k p" for k
    using zone_okD(4)[OF zok] by blast
  moreover have "gave p order s s'" if "allocated s p order"
    using gave_free_pages[OF inv that Inr] .
  ultimately show ?thesis using g Inr by (simp add: gave_def)
qed

end
