(* ===== verification/Pmm_Boot.thy ===== *)
theory Pmm_Boot
  imports Pmm_Spec Memblock
begin

text \<open>
  How the buddy allocator gets its frames at boot (\<^verbatim>\<open>free_range\<close>), the block sizes it is asked
  for (\<^verbatim>\<open>pages_to_order\<close>), page reference counts (\<^verbatim>\<open>get_page\<close>, \<^verbatim>\<open>put_page\<close>) and a small
  booted allocator on which the allocator theorems are exercised.
\<close>

section \<open>The order of a request\<close>

lemma pages_to_order_from_least:
  "k \<le> pages_to_order_from k n \<and> n \<le> 2 ^ pages_to_order_from k n \<and>
     (\<forall>m. k \<le> m \<and> n \<le> 2 ^ m \<longrightarrow> pages_to_order_from k n \<le> m)"
proof (induction k n rule: pages_to_order_from.induct)
  case (1 k n)
  show ?case
  proof (cases "2 ^ k < n")
    case True
    then have eq: "pages_to_order_from k n = pages_to_order_from (Suc k) n"
      by (subst pages_to_order_from.simps) simp
    have "Suc k \<le> m" if "k \<le> m" "n \<le> 2 ^ m" for m
      using True that by (cases "m = k") auto
    then show ?thesis using 1[OF True] unfolding eq by auto
  next
    case False
    then have "pages_to_order_from k n = k" by (subst pages_to_order_from.simps) simp
    then show ?thesis using False by auto
  qed
qed

lemma pages_to_order_le: "n \<le> 2 ^ m \<Longrightarrow> pages_to_order n \<le> m"
  using pages_to_order_from_least[of 0 n] by (simp add: pages_to_order_def)

lemma pages_to_order_ge: "n \<le> 2 ^ pages_to_order n"
  using pages_to_order_from_least[of 0 n] by (simp add: pages_to_order_def)

section \<open>Handing a range of frames to the allocator\<close>

lemma fit_order_ok:
  "fit_order start zone_end m \<le> m \<and>
   (fit_order start zone_end m = 0 \<or>
      2 ^ fit_order start zone_end m dvd start \<and> start + 2 ^ fit_order start zone_end m \<le> zone_end)"
proof (induction m)
  case (Suc m)
  then show ?case
    by (auto simp: and_mask_eq_0_iff simp del: power_Suc One_nat_def)
qed simp

lemma clear_reserved_simps:
  "zones (clear_reserved start n s) = zones s" "max_pfn (clear_reserved start n s) = max_pfn s"
  "kmem (clear_reserved start n s) = kmem s" "pmm.more (clear_reserved start n s) = pmm.more s"
  by (induction n) (simp_all add: upd_page_def)

lemma clear_reserved_page:
  "mem_map (clear_reserved start n s) q =
     (if q \<in> span start n then (mem_map s q)\<lparr>pg_flags := pg_flags (mem_map s q) AND NOT PG_RESERVED\<rparr>
      else mem_map s q)"
  by (induction n) auto

lemma clear_reserved_inv:
  assumes "pmm_inv s"
  shows "pmm_inv (clear_reserved start n s) \<and> free_frames (clear_reserved start n s) = free_frames s"
proof (induction n)
  case (Suc n)
  show ?case
    using pmm_inv_upd_page[OF conjunct1[OF Suc.IH], where p = "start + n" and
        f = "\<lambda>pg. pg\<lparr>pg_flags := pg_flags pg AND NOT PG_RESERVED\<rparr>"] Suc.IH
    by (simp add: has_flag_clear_other has_flag_clear_same)
qed (simp add: assms)

lemma free_range_step:
  assumes inv: "pmm_inv s" and rng: "start < stop" "stop \<le> max_pfn s"
    and dis: "{start..<stop} \<inter> free_frames s = {}"
  defines "order \<equiv> fit_order start (min stop (z_end (zones s (pfn_zone start)))) (MAX_ORDER - 1)"
  shows "gave start order (clear_reserved start (2 ^ order) s)
      (upd_zone (pfn_zone start) (\<lambda>z. z\<lparr>z_free := z_free z + 2 ^ order, z_managed := z_managed z + 2 ^ order\<rparr>)
        (buddy_free (pfn_zone start) start order (clear_reserved start (2 ^ order) s)))"
    and "start + 2 ^ order \<le> stop"
proof -
  let ?ze = "min stop (z_end (zones s (pfn_zone start)))"
  let ?s0 = "clear_reserved start (2 ^ order) s"
  have lt: "start < ?ze" "z_start (zones s (pfn_zone start)) \<le> start"
    using inv rng by (auto simp: pmm_inv_def pfn_zone_def)
  have fit: "order \<le> MAX_ORDER - 1" "2 ^ order dvd start" "start + 2 ^ order \<le> ?ze"
    using fit_order_ok[of start ?ze "MAX_ORDER - 1"] lt unfolding order_def by auto
  then show le: "start + 2 ^ order \<le> stop" by simp
  have inv0: "pmm_inv ?s0" "free_frames ?s0 = free_frames s" using clear_reserved_inv[OF inv] by blast+
  have sub: "block start order \<subseteq> {start..<stop}" using le by auto
  have "in_zone ?s0 start order" using fit lt by (simp add: in_zone_def clear_reserved_simps)
  moreover have "block start order \<inter> free_frames ?s0 = {}" using sub dis inv0 by blast
  moreover have "\<forall>q\<in>block start order. \<not> has_flag (pg_flags (mem_map ?s0 q)) PG_RESERVED"
    by (simp add: clear_reserved_page has_flag_clear_same)
  ultimately show "gave start order ?s0
      (upd_zone (pfn_zone start) (\<lambda>z. z\<lparr>z_free := z_free z + 2 ^ order, z_managed := z_managed z + 2 ^ order\<rparr>)
        (buddy_free (pfn_zone start) start order ?s0))"
    by (rule buddy_free_gave[OF inv0(1)])
qed

lemma free_range_ok:
  assumes "pmm_inv s" and "stop \<le> max_pfn s" and "{start..<stop} \<inter> free_frames s = {}"
  shows "pmm_inv (free_range start stop s) \<and>
    free_frames (free_range start stop s) = free_frames s \<union> {start..<stop} \<and>
    max_pfn (free_range start stop s) = max_pfn s \<and> kmem (free_range start stop s) = kmem s"
  using assms
proof (induction start stop s rule: free_range.induct)
  case (1 start stop s)
  show ?case
  proof (cases "start < stop")
    case False
    then show ?thesis using "1.prems" by (simp add: free_range.simps[of start stop s])
  next
    case True
    define order where "order = fit_order start (min stop (z_end (zones s (pfn_zone start)))) (MAX_ORDER - 1)"
    define s1 where "s1 = upd_zone (pfn_zone start)
      (\<lambda>z. z\<lparr>z_free := z_free z + 2 ^ order, z_managed := z_managed z + 2 ^ order\<rparr>)
        (buddy_free (pfn_zone start) start order (clear_reserved start (2 ^ order) s))"
    note step = free_range_step[OF "1.prems"(1) True "1.prems"(2,3), folded order_def, folded s1_def]
    have eq: "free_range start stop s = free_range (start + 2 ^ order) stop s1"
      using True by (subst free_range.simps) (simp add: Let_def order_def s1_def)
    have g: "pmm_inv s1" "free_frames s1 = free_frames s \<union> block start order" "max_pfn s1 = max_pfn s" "kmem s1 = kmem s"
      using step(1) clear_reserved_inv[OF "1.prems"(1), of start "2 ^ order"]
      by (simp_all add: gave_def clear_reserved_simps)
    have split: "{start..<stop} = block start order \<union> {start + 2 ^ order..<stop}"
      using step(2) by auto
    have "{start + 2 ^ order..<stop} \<inter> free_frames s1 = {}"
      using "1.prems"(3) unfolding g(2) split by auto
    then have "pmm_inv (free_range (start + 2 ^ order) stop s1) \<and>
        free_frames (free_range (start + 2 ^ order) stop s1) = free_frames s1 \<union> {start + 2 ^ order..<stop} \<and>
        max_pfn (free_range (start + 2 ^ order) stop s1) = max_pfn s1 \<and>
        kmem (free_range (start + 2 ^ order) stop s1) = kmem s1"
      using "1.IH"[OF True refl refl refl refl refl refl, folded order_def, folded s1_def] g "1.prems"(2) by simp
    then show ?thesis unfolding eq g split by (simp add: Un_assoc)
  qed
qed

section \<open>pmm_init\<close>

abbreviation (input) page_struct_size :: u64 where "page_struct_size \<equiv> 64"

definition boot_page :: page where
  "boot_page = \<lparr>pg_flags = PG_RESERVED, pg_refcount = 0, pg_order = 0, pg_mapcount = 0, pg_cache = None,
     pg_freelist = 0, pg_inuse = 0, pg_head = None\<rparr>"

definition boot_zone :: "nat \<Rightarrow> nat \<Rightarrow> zone" where
  "boot_zone lo hi = \<lparr>z_start = lo, z_end = hi, z_area = (\<lambda>_. []), z_count = (\<lambda>_. 0), z_free = 0, z_managed = 0\<rparr>"

definition boot_pmm :: "nat \<Rightarrow> memory \<Rightarrow> pmm" where
  "boot_pmm maxp m = \<lparr>mem_map = (\<lambda>_. boot_page), max_pfn = maxp,
     zones = (\<lambda>zi. if zi = 0 then boot_zone 0 (min maxp PFN_4G) else boot_zone PFN_4G (max maxp PFN_4G)),
     kmem = m\<rparr>"

definition give_region :: "memblock_region \<Rightarrow> 'a pmm_scheme \<Rightarrow> 'a pmm_scheme" where
  "give_region r = free_range (unat (drop_bit PAGE_SHIFT (r_base r))) (unat (drop_bit PAGE_SHIFT (r_end r)))"

definition pmm_init :: "memblock \<times> memory \<Rightarrow> memblock_panic + memblock \<times> pmm" where
  "pmm_init sm =
     (let maxp = drop_bit PAGE_SHIFT (memblock_max_ram (fst sm));
          map_size = maxp * page_struct_size
      in case memblock_alloc map_size PAGE_SIZE (- 1) sm of
           Inl e \<Rightarrow> Inl e
         | Inr (map_phys, mb, m) \<Rightarrow>
             (let mb = memblock_retire mb
              in Inr (mb, fold give_region (memblock_free_regions mb) (boot_pmm (unat maxp) m))))"

lemma boot_pmm_inv:
  assumes "maxp \<le> PFN_LIMIT"
  shows "pmm_inv (boot_pmm maxp m)" "free_frames (boot_pmm maxp m) = {}"
proof -
  have fs: "free_set (boot_zone lo hi) = {}" for lo hi by (simp add: free_set_def in_area_def boot_zone_def)
  have nb: "\<not> buddy_flag boot_page" by (simp add: boot_page_def has_flag_def PG_BUDDY_def PG_RESERVED_def)
  have ok: "zone_ok (\<lambda>_. boot_page) (boot_zone lo hi)" "merged (boot_zone lo hi)" for lo hi
    by (simp_all add: zone_ok_def merged_def in_area_def boot_zone_def nb)
  show ff: "free_frames (boot_pmm maxp m) = {}" by (simp add: free_frames_def boot_pmm_def fs)
  show "pmm_inv (boot_pmm maxp m)"
    using assms unfolding pmm_inv_def ff by (simp add: zone_inv_def boot_pmm_def ok fs) (simp add: boot_zone_def)
qed

definition frames_of :: "memblock_region list \<Rightarrow> nat set" where
  "frames_of rs = (\<Union>r\<in>set rs. {unat (r_base r) div 4096..<unat (r_end r) div 4096})"

lemma pfn_of: "unat (drop_bit PAGE_SHIFT (x :: u64)) = unat x div 4096"
  by (simp add: drop_bit_eq_div unat_div)

lemma page_in_region:
  assumes "is_aligned (r_base r) PAGE_SIZE" and "is_aligned (r_end r) PAGE_SIZE"
    and "p \<in> {unat (r_base r) div 4096..<unat (r_end r) div 4096}"
  shows "page_to_phys p \<in> rcover r"
proof -
  have "unat (r_end r) < 2 ^ 64" by (rule unat_lt_64)
  then have "p < 2 ^ 52" using assms(3) by auto
  moreover have "unat (r_base r) \<le> p * 4096" "p * 4096 < unat (r_end r)"
    using assms by (auto simp: is_aligned_page elim!: dvdE)
  ultimately show ?thesis by (simp add: rcover_def word_le_nat_alt word_less_nat_alt page_addr)
qed

lemma give_regions:
  assumes "pmm_inv s" and "page_regions rs" and "apart rs"
    and "\<forall>r\<in>set rs. unat (r_end r) div 4096 \<le> max_pfn s" and "frames_of rs \<inter> free_frames s = {}"
  shows "pmm_inv (fold give_region rs s) \<and> free_frames (fold give_region rs s) = free_frames s \<union> frames_of rs \<and>
    max_pfn (fold give_region rs s) = max_pfn s"
  using assms
proof (induction rs arbitrary: s)
  case Nil
  then show ?case by (simp add: frames_of_def)
next
  case (Cons r rs)
  let ?fr = "{unat (r_base r) div 4096..<unat (r_end r) div 4096}"
  have gr: "pmm_inv (give_region r s) \<and> free_frames (give_region r s) = free_frames s \<union> ?fr \<and>
      max_pfn (give_region r s) = max_pfn s"
    using free_range_ok[OF Cons.prems(1), of "unat (r_end r) div 4096" "unat (r_base r) div 4096"] Cons.prems(4,5)
    by (auto simp: give_region_def pfn_of frames_of_def)
  have al: "\<forall>r\<in>set (r # rs). is_aligned (r_base r) PAGE_SIZE \<and> is_aligned (r_end r) PAGE_SIZE"
    using Cons.prems(2) by (simp add: page_regions_def)
  have "?fr \<inter> frames_of rs = {}"
  proof (rule ccontr)
    assume "?fr \<inter> frames_of rs \<noteq> {}"
    then obtain p q where p: "p \<in> ?fr" "q \<in> set rs" "p \<in> {unat (r_base q) div 4096..<unat (r_end q) div 4096}"
      unfolding frames_of_def by blast
    then have "page_to_phys p \<in> rcover r" "page_to_phys p \<in> rcover q"
      using page_in_region al by (meson list.set_intros)+
    then show False using Cons.prems(3) p(2) by (auto simp: apart_def)
  qed
  moreover have "frames_of rs \<inter> free_frames s = {}" using Cons.prems(5) by (auto simp: frames_of_def)
  ultimately have "frames_of rs \<inter> free_frames (give_region r s) = {}" using gr by blast
  moreover have "page_regions rs" "apart rs" "\<forall>q\<in>set rs. unat (r_end q) div 4096 \<le> max_pfn (give_region r s)"
    using Cons.prems(2,3,4) conjunct2[OF conjunct2[OF gr]] by (simp_all add: page_regions_def apart_def)
  ultimately have "pmm_inv (fold give_region rs (give_region r s)) \<and>
      free_frames (fold give_region rs (give_region r s)) = free_frames (give_region r s) \<union> frames_of rs \<and>
      max_pfn (fold give_region rs (give_region r s)) = max_pfn (give_region r s)"
    using Cons.IH[of "give_region r s"] gr Cons.prems(4) by simp
  then show ?case using gr by (auto simp: frames_of_def)
qed

text \<open>
  C18. \<^verbatim>\<open>pmm_init\<close> turns the memblock table into a buddy allocator: when memblock has room for the
  \<^verbatim>\<open>mem_map\<close> array, the allocator invariant holds, the free frames are exactly the frames of the
  regions that are left, no frame of the \<^verbatim>\<open>mem_map\<close> array itself is free, and memblock is retired.
\<close>

theorem pmm_init_correct:
  assumes ok: "pmm_init (mb, m) = Inr (mb', s)" and pr: "page_regions (mb_regions mb)"
    and ap: "apart (mb_regions mb)" and top: "\<forall>r\<in>set (mb_regions mb). r_end r \<le> mb_max_ram mb"
    and lim: "mb_max_ram mb \<le> 2 ^ 46"
    and alloc: "memblock_alloc (drop_bit PAGE_SHIFT (mb_max_ram mb) * page_struct_size) PAGE_SIZE (- 1) (mb, m) =
      Inr (map_phys, mb1, m1)"
  shows "pmm_inv s \<and> free_frames s = frames_of (mb_regions mb') \<and> mb_retired mb' \<and>
    (\<forall>p\<in>free_frames s. page_to_phys p \<in> cover (mb_regions mb) \<and>
       page_to_phys p \<notin> {map_phys..<map_phys + align_up (drop_bit PAGE_SHIFT (mb_max_ram mb) * page_struct_size) PAGE_SIZE})"
proof -
  let ?n = "drop_bit PAGE_SHIFT (mb_max_ram mb)" let ?sz = "align_up (?n * page_struct_size) PAGE_SIZE"
  have s: "mb' = memblock_retire mb1" "s = fold give_region (mb_regions mb1) (boot_pmm (unat ?n) m1)"
    using ok alloc by (simp_all add: pmm_init_def Let_def memblock_max_ram_def memblock_free_regions_def memblock_retire_def)
  note d = memblock_allocD[OF alloc] and fb = find_base_block[OF order_refl memblock_allocD(1)[OF alloc]]
  have pr1: "page_regions (mb_regions mb1)" unfolding d(2) by (rule reserve_aligned[OF pr])
  obtain r where r: "r \<in> set (mb_regions mb)" "map_phys + ?sz \<le> r_end r" using fb(6) by blast
  note cut = page_block_cut(1)[OF pr r fb(3)]
  have "unat (r_end r) \<le> 2 ^ 64 - 4096" using pr r(1) by (intro page_end_bound) (auto simp: page_regions_def)
  then have "align_down map_phys PAGE_SIZE \<le> align_up (map_phys + ?sz) PAGE_SIZE"
    using align_down_le[of map_phys] fb(3) align_up_ge(1)[of "map_phys + ?sz"] r(2)
    by (meson order_trans word_le_nat_alt)
  then have ap1: "apart (mb_regions mb1)"
    unfolding d(2) reserve_def by (intro apart_filter reserve_from_apart ap)
  have sub: "cover (mb_regions mb1) \<subseteq> cover (mb_regions mb)" "cover (mb_regions mb1) \<inter> {map_phys..<map_phys + ?sz} = {}"
    using reserve_safe[of map_phys "map_phys + ?sz" "mb_regions mb"] cut unfolding d(2) by blast+
  have n: "unat ?n = unat (mb_max_ram mb) div 4096" by (rule pfn_of)
  have "unat (mb_max_ram mb) \<le> 2 ^ 46" using lim by (simp add: word_le_nat_alt)
  then have "unat ?n \<le> PFN_LIMIT" unfolding n by simp
  note boot = boot_pmm_inv[OF this, of m1]
  have mx: "max_pfn (boot_pmm (unat ?n) m1) = unat ?n" by (simp add: boot_pmm_def)
  have ends: "unat (r_end q) div 4096 \<le> unat ?n" if q: "q \<in> set (mb_regions mb1)" for q
  proof (cases "r_base q < r_end q")
    case True
    have ne: "r_end q \<noteq> 0" using True by auto
    have "r_end q - 1 \<in> rcover q" using True ne unfolding rcover_def
      by (simp add: word_less_nat_alt word_le_nat_alt unat_minus_one)
    then have "r_end q - 1 \<in> cover (mb_regions mb)" using sub(1) q by (auto simp: cover_def)
    then obtain r where "r \<in> set (mb_regions mb)" "r_end q - 1 < r_end r" by (auto simp: cover_def rcover_def)
    then have "unat (r_end q) - 1 < unat (mb_max_ram mb)"
      using top ne by (auto simp: word_less_nat_alt word_le_nat_alt unat_minus_one dest!: bspec)
    then show ?thesis unfolding n by (intro div_le_mono) linarith
  next
    case False
    then show ?thesis using q unfolding d(2) reserve_def by simp
  qed
  have "pmm_inv s \<and> free_frames s = frames_of (mb_regions mb1)"
    unfolding s(2) using give_regions[OF boot(1) pr1 ap1] ends boot(2) mx by simp
  moreover have "page_to_phys p \<in> cover (mb_regions mb1)" if "p \<in> frames_of (mb_regions mb1)" for p
    using that pr1 page_in_region unfolding frames_of_def cover_def page_regions_def by blast
  moreover have "mb_regions mb' = mb_regions mb1" "mb_retired mb'" by (simp_all add: s(1) memblock_retire_def)
  moreover have "x \<in> cover (mb_regions mb) \<and> x \<notin> {map_phys..<map_phys + ?sz}" if "x \<in> cover (mb_regions mb1)" for x
    using that sub by blast
  ultimately show ?thesis by simp
qed

theorem pmm_init_correct_witness:
  "\<exists>mb' s. pmm_init (\<lparr>mb_regions = [\<lparr>r_base = 0x100000, r_end = 0x110000\<rparr>], mb_max_ram = 0x110000,
        mb_retired = False, mb_allocated = 0\<rparr>, \<lambda>_. 1) = Inr (mb', s) \<and>
      pmm_inv s \<and> free_frames s = frames_of (mb_regions mb') \<and>
      0x10C \<notin> free_frames s"
proof -
  let ?mb = "\<lparr>mb_regions = [\<lparr>r_base = 0x100000, r_end = 0x110000\<rparr>], mb_max_ram = 0x110000,
        mb_retired = False, mb_allocated = 0\<rparr>"
  have n: "drop_bit PAGE_SHIFT (mb_max_ram ?mb) * page_struct_size = 0x4400" by (simp add: drop_bit_eq_div)
  have up: "align_up 0x4400 PAGE_SIZE = 0x5000" by (simp add: align_up_def align_down_def)
  have "\<exists>mb1 m1. memblock_alloc 0x4400 PAGE_SIZE (- 1) (?mb, \<lambda>_. 1) = Inr (0x10B000, mb1, m1)"
    by (simp add: memblock_alloc_def up Let_def align_down_def min_def)
  then obtain mb1 m1 where alloc: "memblock_alloc 0x4400 PAGE_SIZE (- 1) (?mb, \<lambda>_. 1) = Inr (0x10B000, mb1, m1)" by blast
  then obtain mb' s where ok: "pmm_init (?mb, \<lambda>_. 1) = Inr (mb', s)"
    using n by (simp add: pmm_init_def Let_def memblock_max_ram_def)
  have pre: "page_regions (mb_regions ?mb)" "apart (mb_regions ?mb)"
    "\<forall>r\<in>set (mb_regions ?mb). r_end r \<le> mb_max_ram ?mb" "mb_max_ram ?mb \<le> 2 ^ 46"
    by (simp_all add: page_regions_def is_aligned_def apart_def)
  have "pmm_inv s \<and> free_frames s = frames_of (mb_regions mb') \<and> mb_retired mb' \<and>
    (\<forall>p\<in>free_frames s. page_to_phys p \<in> cover (mb_regions ?mb) \<and> page_to_phys p \<notin> {0x10B000..<0x10B000 + align_up 0x4400 PAGE_SIZE})"
    using pmm_init_correct[OF ok pre, of "0x10B000" mb1 m1] alloc unfolding n by simp
  moreover have "page_to_phys 0x10C \<in> {0x10B000..<0x10B000 + align_up 0x4400 PAGE_SIZE}"
    by (simp add: page_to_phys_def up push_bit_eq_mult)
  ultimately show ?thesis using ok by blast
qed

section \<open>Reference counts\<close>

lemma sint32_range: "- (2 ^ 31) \<le> sint (w :: u32)" "sint (w :: u32) < 2 ^ 31"
  using sint_ge[of w] sint_lt[of w] by simp_all

lemma sint32_dec:
  assumes "- (2 ^ 31) < sint (w :: u32)"
  shows "sint (w - 1) = sint w - 1"
  using assms sint32_range(2)[of w] by (simp add: sint_word_ariths signed_take_bit_int_eq_self)

lemma upd_page_again: "upd_page p f (upd_page p g s) = upd_page p (\<lambda>pg. f (g pg)) s"
  by (simp add: upd_page_def)

lemma upd_page_id: "f (mem_map s p) = mem_map s p \<Longrightarrow> upd_page p f s = s"
  by (simp add: upd_page_def)

lemma refcount_keeps:
  assumes "pmm_inv s" and "allocated s p order"
  shows "pmm_inv (upd_page p (\<lambda>pg. pg\<lparr>pg_refcount := n\<rparr>) s)"
    "free_frames (upd_page p (\<lambda>pg. pg\<lparr>pg_refcount := n\<rparr>) s) = free_frames s"
    "allocated (upd_page p (\<lambda>pg. pg\<lparr>pg_refcount := n\<rparr>) s) p order"
  using pmm_inv_upd_page[OF assms(1), of "\<lambda>pg. pg\<lparr>pg_refcount := n\<rparr>" p] assms(2)
  by (simp_all add: allocated_def in_zone_def)

text \<open>
  Reference counting. On an owned block \<^verbatim>\<open>put_page\<close> drops one reference: the last one
  returns exactly the block to the free frames, an earlier one changes nothing but the counter, and a
  count that was already zero ends in a panic. A \<^verbatim>\<open>get_page\<close> before it cancels it.
\<close>

theorem put_page_counts:
  assumes inv: "pmm_inv s" and al: "allocated s p order" and rc: "rc = pg_refcount (mem_map s p)"
  shows "(rc = 1 \<longrightarrow> (\<exists>s'. put_page p s = Inr s' \<and> pmm_inv s' \<and> free_frames s' = free_frames s \<union> block p order)) \<and>
    (1 < sint rc \<longrightarrow> (\<exists>s'. put_page p s = Inr s' \<and> pmm_inv s' \<and> free_frames s' = free_frames s \<and>
       allocated s' p order \<and> pg_refcount (mem_map s' p) = rc - 1)) \<and>
    (rc = 0 \<longrightarrow> put_page p s = Inl Panic_negative_refcount) \<and>
    (0 < sint rc \<longrightarrow> put_page p (get_page p s) = Inr s)"
proof -
  have ord: "pg_order (mem_map s p) = order" using al by (simp add: allocated_def)
  have put: "put_page p s = (let s' = upd_page p (\<lambda>pg. pg\<lparr>pg_refcount := rc - 1\<rparr>) s in
      if rc - 1 = 0 then free_pages p order s' else if sint (rc - 1) < 0 then Inl Panic_negative_refcount else Inr s')"
    using ord by (simp add: put_page_def Let_def rc)
  note keep = refcount_keeps[OF inv al]
  have "\<exists>s'. put_page p s = Inr s' \<and> pmm_inv s' \<and> free_frames s' = free_frames s \<union> block p order" if "rc = 1"
    using free_pages_gave[OF keep(1,3), of 0] keep(2)[of 0] that by (auto simp: put gave_def)
  moreover have "\<exists>s'. put_page p s = Inr s' \<and> pmm_inv s' \<and> free_frames s' = free_frames s \<and>
       allocated s' p order \<and> pg_refcount (mem_map s' p) = rc - 1" if "1 < sint rc"
  proof -
    have "sint (rc - 1) = sint rc - 1" using that by (intro sint32_dec) simp
    then show ?thesis using that keep[of "rc - 1"] by (auto simp: put Let_def)
  qed
  moreover have "put_page p s = Inl Panic_negative_refcount" if "rc = 0"
    using that by (simp add: put)
  moreover have "put_page p (get_page p s) = Inr s" if "0 < sint rc"
  proof -
    have "rc \<noteq> 0" using that by auto
    then show ?thesis using that
      by (simp add: put_page_def get_page_def Let_def rc upd_page_again upd_page_id)
  qed
  ultimately show ?thesis by blast
qed

section \<open>The interface in physical addresses\<close>

lemma took_block_bound:
  assumes "took zi p order gf s s'"
  shows "p + 2 ^ order \<le> PFN_LIMIT"
proof -
  have "p + 2 ^ order \<le> z_end (zones s' (pfn_zone p))" "pmm_inv s'"
    using assms unfolding took_def allocated_def in_zone_def by blast+
  then show ?thesis by (auto simp: pmm_inv_def pfn_zone_def split: if_splits)
qed

lemma took_zeroed:
  assumes "took zi p order gf s s'" and "has_flag gf GFP_ZERO" and "i < 4096 * 2 ^ order"
  shows "kmem s' (page_to_virt p + of_nat i) = 0"
proof -
  have le: "p + 2 ^ order \<le> 2 ^ 34" using took_block_bound[OF assms(1)] .
  have pos: "0 < (2::nat) ^ order" by simp
  have u: "unat (page_to_phys p) = p * 4096" using le pos by (intro page_addr) simp
  have "unat (page_to_phys p) + 4096 * 2 ^ order = 4096 * (p + 2 ^ order)" by (simp add: u)
  also have "\<dots> \<le> 4096 * 2 ^ 34" by (rule mult_le_mono2[OF le])
  finally have b: "unat (page_to_phys p) + 4096 * 2 ^ order \<le> 2 ^ 46" by simp
  then have "fits (page_to_virt p) (4096 * 2 ^ order)"
    unfolding page_to_virt_def using pos by (intro direct_map_fits) simp_all
  then show ?thesis using assms by (simp add: took_def memset_zero_at)
qed

text \<open>
  The interface in physical addresses: \<^verbatim>\<open>pmm_alloc_pages\<close> rounds the request up to the
  smallest order that holds it. When frame 0 is not free (the first megabyte never is), the address 0
  means that nothing was taken; any other result is the page-aligned address of at least the
  requested number of frames that were free and are no longer, they read as zero with
  \<^verbatim>\<open>GFP_ZERO\<close>, and giving the address back with \<^verbatim>\<open>pmm_free_pages\<close> restores the free frames.
\<close>

theorem pmm_alloc_pages_correct:
  assumes inv: "pmm_inv s" and f0: "0 \<notin> free_frames s" and r: "pmm_alloc_pages n gf s = (a, s')"
  shows "n \<le> 2 ^ pages_to_order n \<and> (\<forall>m. n \<le> 2 ^ m \<longrightarrow> pages_to_order n \<le> m) \<and>
    (if a = 0 then s' = s
     else is_aligned a PAGE_SIZE \<and> {phys_to_page a..<phys_to_page a + n} \<subseteq> free_frames s - free_frames s' \<and>
       (has_flag gf GFP_ZERO \<longrightarrow> (\<forall>i<4096 * n. kmem s' (phys_to_virt a + of_nat i) = 0)) \<and>
       (\<exists>s''. pmm_free_pages a n s' = Inr s'' \<and> pmm_inv s'' \<and> free_frames s'' = free_frames s))"
proof (cases "alloc_pages (pages_to_order n) gf s")
  case (Pair q s1)
  note ge = pages_to_order_ge[of n]
  show ?thesis
  proof (cases q)
    case None
    then have "a = 0 \<and> s' = s1" using r Pair by (simp add: pmm_alloc_pages_def)
    then show ?thesis using alloc_pages_None(1)[OF inv] Pair None ge pages_to_order_le by simp
  next
    case (Some p)
    then have a: "a = page_to_phys p" and s1: "s1 = s'" using r Pair by (simp_all add: pmm_alloc_pages_def)
    have al: "alloc_pages (pages_to_order n) gf s = (Some p, s')" using Pair Some s1 by simp
    note t = alloc_pages_took(1)[OF inv al]
    have blk: "block p (pages_to_order n) \<subseteq> free_frames s" "free_frames s' = free_frames s - block p (pages_to_order n)"
      using t by (simp_all add: took_def)
    moreover have "{p..<p + n} \<subseteq> block p (pages_to_order n)" using ge by auto
    ultimately have sub: "{p..<p + n} \<subseteq> free_frames s - free_frames s'" by blast
    have "p \<in> free_frames s" by (rule subsetD[OF blk(1) block_head])
    then have "p \<noteq> 0" using f0 by metis
    have "p < 2 ^ 52" using took_block_bound[OF t] by simp
    note addr = page_addr[OF this]
    have "a \<noteq> 0" using addr(1) \<open>p \<noteq> 0\<close> unfolding a by auto
    moreover have "is_aligned a PAGE_SIZE" by (simp add: a is_aligned_page addr(1))
    moreover have "kmem s' (phys_to_virt a + of_nat i) = 0" if "has_flag gf GFP_ZERO" "i < 4096 * n" for i
      using took_zeroed[OF t that(1), of i] that(2) ge by (simp add: a page_to_virt_def)
    moreover have "\<exists>s''. pmm_free_pages a n s' = Inr s'' \<and> pmm_inv s'' \<and> free_frames s'' = free_frames s"
      using pa.alloc_release[OF inv al] by (simp add: pmm_free_pages_def a addr(2))
    ultimately show ?thesis using sub ge pages_to_order_le by (auto simp: a addr(2))
  qed
qed

text \<open>
  A gap in the double-free detection. The guard looks at \<^verbatim>\<open>PG_BUDDY\<close> of the freed page only,
  and that flag is set on the first page of a free block only. When the second page of a free block
  of order at least 1 is freed again as a single page (as after freeing both halves, which merged),
  no guard fires: the page enters a free list a second time and the allocator invariant is broken.
\<close>

theorem double_free_of_merged_page_unnoticed:
  assumes inv: "pmm_inv s" and q: "in_area (zones s (pfn_zone q)) k q" "0 < k"
    and nh: "\<not> has_flag (pg_flags (mem_map s (q + 1))) PG_HEAD"
  shows "q + 1 \<in> free_frames s \<and> (\<exists>s'. free_pages (q + 1) 0 s = Inr s' \<and> \<not> pmm_inv s')"
proof -
  let ?z = "pfn_zone q" and ?p = "q + 1"
  have zok: "zone_ok (mem_map s) (zones s ?z)" using pmm_inv_zone[OF inv pfn_zone_lt] by (simp add: zone_inv_def)
  note zd = zone_okD[OF zok q(1)]
  have "(2::nat) \<le> 2 ^ k" using q(2) power_increasing[of 1 k "2::nat"] by simp
  then have blk: "?p \<in> block q k" unfolding block_iff by linarith
  then have pf: "?p \<in> free_set (zones s ?z)" using zd(7) by blast
  then have ff: "?p \<in> free_frames s" "pfn_zone ?p = ?z" "?p < max_pfn s"
    using free_frames_zone[OF inv] pfn_zone_lt by blast+
  have "even q" using zd(1) q(2) by (meson dvd_power dvd_trans)
  then have xor: "?p XOR 1 = q" using xor_pow2_eq[of ?p 0] by (simp add: bit_0)
  have nb: "\<not> buddy_flag (mem_map s ?p)"
  proof
    assume "buddy_flag (mem_map s ?p)"
    then have "in_area (zones s ?z) (pg_order (mem_map s ?p)) ?p"
      using zone_ok_flag[OF zok] free_set_in_zone[OF zok pf] by blast
    then have "block ?p (pg_order (mem_map s ?p)) \<inter> block q k = {}"
      using zok q(1) unfolding zone_ok_def by (metis n_not_Suc_n Pair_inject Suc_eq_plus1)
    then show False using blk block_head by blast
  qed
  have nr: "\<not> has_flag (pg_flags (mem_map s ?p)) PG_RESERVED" using inv ff(1) by (auto simp: pmm_inv_def)
  let ?s0 = "upd_page ?p freed_page s"
  let ?s' = "upd_zone ?z (\<lambda>z. z\<lparr>z_free := z_free z + 2 ^ 0, z_managed := z_managed z\<rparr>) (add_free ?z ?p 0 ?s0)"
  have "buddy_free ?z ?p 0 ?s0 = add_free ?z ?p 0 ?s0"
    using zd(5) q(2) xor by (subst buddy_free.simps) (simp add: Let_def)
  then have "free_pages ?p 0 s = Inr ?s'"
    using free_pages_unguarded[of ?p s 0] ff nb nr nh by simp
  moreover have "\<not> zone_ok (mem_map ?s') (zones ?s' ?z)"
  proof
    assume ok': "zone_ok (mem_map ?s') (zones ?s' ?z)"
    have "in_area (zones ?s' ?z) 0 ?p" "in_area (zones ?s' ?z) k q"
      using q by (simp_all add: add_free_def in_area_def)
    then have "block ?p 0 \<inter> block q k = {}" using ok' q(2) unfolding zone_ok_def by blast
    then show False using blk block_head by blast
  qed
  then have "\<not> pmm_inv ?s'" using pmm_inv_zone[OF _ pfn_zone_lt, of ?s' q] by (auto simp: zone_inv_def)
  ultimately show ?thesis using ff(1) by blast
qed

section \<open>A small booted allocator\<close>

text \<open>Sixty-four frames of RAM of which the frames 16 to 31 are handed to the allocator.\<close>

definition small_pmm :: pmm where
  "small_pmm = free_range 16 32 (boot_pmm 64 (\<lambda>_. 1))"

lemma small_pmm_inv: "pmm_inv small_pmm" "free_frames small_pmm = {16..<32}"
  using free_range_ok[OF boot_pmm_inv(1), of 64 32 "\<lambda>_. 1" 16] boot_pmm_inv(2)[of 64 "\<lambda>_. 1"]
  by (simp_all add: small_pmm_def boot_pmm_def[of 64 "\<lambda>_. 1"])

lemma alloc_pages_succeeds:
  assumes "pmm_inv s" and "order < MAX_ORDER" and "runs_free s gf order p"
  shows "\<exists>q s'. alloc_pages order gf s = (Some q, s')"
  using alloc_pages_None(2)[OF assms(1) _ assms(2), of gf _ p] assms(3)
  by (cases "alloc_pages order gf s"; cases "fst (alloc_pages order gf s)") auto

lemma small_alloc:
  "\<exists>p s'. alloc_pages 2 GFP_ZERO small_pmm = (Some p, s')"
  by (rule alloc_pages_succeeds[of _ _ _ 16])
    (auto simp: small_pmm_inv runs_free_def pfn_zone_def)

theorem alloc_pages_correct_witness:
  "\<exists>p s'. alloc_pages 2 GFP_ZERO small_pmm = (Some p, s') \<and> pmm_inv s' \<and> 4 dvd p \<and>
     block p 2 \<subseteq> {16..<32} \<and> free_frames s' = {16..<32} - block p 2"
proof -
  obtain p s' where a: "alloc_pages 2 GFP_ZERO small_pmm = (Some p, s')" using small_alloc by blast
  have "(2::nat) < MAX_ORDER" by simp
  from alloc_pages_correct[OF small_pmm_inv(1) this, of GFP_ZERO] a show ?thesis
    by (simp add: small_pmm_inv(2) del: block_iff)
qed

theorem alloc_free_any_order_witness:
  "\<exists>p s1 q s2 s3. alloc_pages 1 0 small_pmm = (Some p, s1) \<and> alloc_pages 2 0 s1 = (Some q, s2) \<and>
     block p 1 \<inter> block q 2 = {} \<and> release_all free_pages [(q, 2), (p, 1)] s2 = Inr s3 \<and>
     free_frames s3 = {16..<32}"
proof -
  have "runs_free small_pmm 0 1 16" by (auto simp: small_pmm_inv runs_free_def pfn_zone_def)
  then obtain p s1 where p: "alloc_pages 1 0 small_pmm = (Some p, s1)"
    using alloc_pages_succeeds[OF small_pmm_inv(1), of 1 0 16] by auto
  have t: "pmm_inv s1" "free_frames s1 = {16..<32} - block p 1" "2 ^ 1 dvd p"
    using alloc_pages_took(1)[OF small_pmm_inv(1) p]
    by (simp_all only: took_def small_pmm_inv(2) allocated_def in_zone_def)
  have "block (if p < 20 then 20 else 16) 2 \<subseteq> {16..<32} - block p 1"
  proof (cases "p < 20")
    case True
    with t(3) have "p \<le> 18" by (simp add: dvd_def) presburger
    then show ?thesis by auto
  next
    case False
    then show ?thesis by auto
  qed
  moreover have "pfn_zone x = 0" if "x < 32" for x using that by (simp add: pfn_zone_def)
  ultimately have "runs_free s1 0 2 (if p < 20 then 20 else 16)"
    unfolding runs_free_def t(2) by (simp add: has_flag_def)
  then obtain q s2 where q: "alloc_pages 2 0 s1 = (Some q, s2)"
    using alloc_pages_succeeds[OF t(1)] by fastforce
  have "alloc_all (map (\<lambda>k. alloc_pages k 0) [1, 2]) small_pmm = (Some [p, q], s2)"
    using p q by simp
  from alloc_free_any_order[OF small_pmm_inv(1) this, of "[(q, 2), (p, 1)]"]
  obtain s3 where "disjoint_blocks [(p, 1), (q, 2)]" "release_all free_pages [(q, 2), (p, 1)] s2 = Inr s3"
      "free_frames s3 = {16..<32}"
    by (auto simp: small_pmm_inv(2))
  then show ?thesis using p q by (auto simp: disjoint_blocks_Cons simp del: block_iff)
qed

theorem free_pages_guards_witness:
  "free_pages 70 0 small_pmm = Inl Panic_no_pfn \<and>
   (\<exists>p s1 s2. alloc_pages 2 GFP_ZERO small_pmm = (Some p, s1) \<and> free_pages p 2 s1 = Inr s2 \<and> free_frames s2 = {16..<32})"
proof -
  obtain p s1 where p: "alloc_pages 2 GFP_ZERO small_pmm = (Some p, s1)" using small_alloc by blast
  have t: "pmm_inv s1" "allocated s1 p 2" "free_frames s1 = {16..<32} - block p 2" "block p 2 \<subseteq> {16..<32}"
    using alloc_pages_took(1)[OF small_pmm_inv(1) p] by (simp_all add: took_def small_pmm_inv(2) del: block_iff)
  have mx: "max_pfn small_pmm = 64"
    using free_range_ok[OF boot_pmm_inv(1), of 64 32 "\<lambda>_. 1" 16] boot_pmm_inv(2)[of 64 "\<lambda>_. 1"]
    by (simp add: small_pmm_def boot_pmm_def)
  have "free_pages 70 0 small_pmm = Inl Panic_no_pfn" by (simp add: free_pages_def mx)
  moreover obtain s2 where "free_pages p 2 s1 = Inr s2"
    using free_pages_guards[OF t(1), of p 2] t(2) by (cases "free_pages p 2 s1") simp_all
  moreover have "free_frames s2 = {16..<32}" if "free_pages p 2 s1 = Inr s2" for s2
    using free_pages_guards[OF t(1), of p 2] t that by auto
  ultimately show ?thesis using p by blast
qed

theorem put_page_counts_witness:
  "\<exists>p s1 s2. alloc_pages 2 GFP_ZERO small_pmm = (Some p, s1) \<and> put_page p s1 = Inr s2 \<and>
     free_frames s2 = {16..<32} \<and> put_page p (get_page p s1) = Inr s1"
proof -
  obtain p s1 where p: "alloc_pages 2 GFP_ZERO small_pmm = (Some p, s1)" using small_alloc by blast
  have t: "pmm_inv s1" "allocated s1 p 2" "free_frames s1 = {16..<32} - block p 2" "block p 2 \<subseteq> {16..<32}"
    "1 = pg_refcount (mem_map s1 p)"
    using alloc_pages_took(1)[OF small_pmm_inv(1) p] by (simp_all add: took_def small_pmm_inv(2) del: block_iff)
  from put_page_counts[OF t(1,2,5)] obtain s2 where
    "put_page p s1 = Inr s2" "free_frames s2 = free_frames s1 \<union> block p 2" "put_page p (get_page p s1) = Inr s1"
    by auto
  moreover from this(2) t have "free_frames s2 = {16..<32}" by blast
  ultimately show ?thesis using p by blast
qed

theorem pmm_alloc_pages_correct_witness:
  "\<exists>a s'. pmm_alloc_pages 3 GFP_ZERO small_pmm = (a, s') \<and> a \<noteq> 0 \<and> kmem s' (phys_to_virt a + 4095) = 0 \<and>
     (\<exists>s''. pmm_free_pages a 3 s' = Inr s'' \<and> free_frames s'' = {16..<32})"
proof -
  have o: "pages_to_order 3 = 2" by (simp add: pages_to_order_def pages_to_order_from.simps)
  obtain p s' where p: "alloc_pages 2 GFP_ZERO small_pmm = (Some p, s')" using small_alloc by blast
  then have r: "pmm_alloc_pages 3 GFP_ZERO small_pmm = (page_to_phys p, s')" by (simp add: pmm_alloc_pages_def o)
  have "p \<in> {16..<32}"
    using alloc_pages_took(1)[OF small_pmm_inv(1) p] block_head[of p 2]
    unfolding took_def small_pmm_inv(2) by blast
  then have "unat (page_to_phys p) \<noteq> 0" by (simp add: page_addr)
  then have nz: "page_to_phys p \<noteq> 0" by auto
  have "0 \<notin> free_frames small_pmm" by (simp add: small_pmm_inv)
  from pmm_alloc_pages_correct[OF small_pmm_inv(1) this r] nz
  have c: "\<forall>i<4096 * 3. kmem s' (phys_to_virt (page_to_phys p) + of_nat i) = 0"
    and d: "\<exists>s''. pmm_free_pages (page_to_phys p) 3 s' = Inr s'' \<and> free_frames s'' = {16..<32}"
    by (auto simp: small_pmm_inv(2))
  from c[rule_format, of 4095] have "kmem s' (phys_to_virt (page_to_phys p) + 4095) = 0" by simp
  then show ?thesis using r nz d by blast
qed

lemma small_pmm_eq:
  "small_pmm = upd_zone 0 (\<lambda>z. z\<lparr>z_free := z_free z + 16, z_managed := z_managed z + 16\<rparr>)
     (add_free 0 16 4 (clear_reserved 16 16 (boot_pmm 64 (\<lambda>_. 1))))"
proof -
  have "\<not> buddy_flag boot_page" by (simp add: boot_page_def has_flag_def PG_BUDDY_def PG_RESERVED_def)
  then have "buddy_free 0 16 4 (clear_reserved 16 16 (boot_pmm 64 (\<lambda>_. 1))) =
      add_free 0 16 4 (clear_reserved 16 16 (boot_pmm 64 (\<lambda>_. 1)))"
    by (subst buddy_free.simps)
      (simp add: Let_def clear_reserved_page clear_reserved_simps boot_pmm_def boot_zone_def)
  moreover have "fit_order 16 32 10 = 4" by code_simp
  ultimately show ?thesis
    unfolding small_pmm_def
    by (subst free_range.simps) (simp add: Let_def pfn_zone_def boot_pmm_def boot_zone_def free_range.simps[of 32])
qed

theorem double_free_of_merged_page_unnoticed_witness:
  "17 \<in> free_frames small_pmm \<and> (\<exists>s'. free_pages 17 0 small_pmm = Inr s' \<and> \<not> pmm_inv s')"
proof -
  have "in_area (zones small_pmm (pfn_zone 16)) 4 16"
    by (simp add: small_pmm_eq pfn_zone_def in_area_def add_free_def)
  moreover have "\<not> has_flag (pg_flags (mem_map small_pmm (16 + 1))) PG_HEAD"
    by (simp add: small_pmm_eq add_free_def clear_reserved_page boot_pmm_def boot_page_def has_flag_def PG_RESERVED_def)
  ultimately show ?thesis
    using double_free_of_merged_page_unnoticed[OF small_pmm_inv(1), of 16 4] by simp
qed

end
