(* ===== verification/Pipe.thy ===== *)
theory Pipe
  imports Prelude "HOL-Library.Sublist"
begin

text \<open>
  The pipe of \<^verbatim>\<open>kernel/fs/pipe.c\<close>: a ring buffer of 16384 bytes with counted reader and writer
  ends. A read or a write is modelled from the moment it holds the pipe lock to the moment it
  returns or goes to sleep; a sleeping call is resumed by running it again, so an interleaving of
  several processes is a sequence of such runs. The abstract pipe is the queue of its bytes. The
  theory states the queue interface as a locale, interprets it on the ring buffer, and shows that
  under every interleaving the bytes come out in the order in which they went in.
\<close>

abbreviation PIPE_SIZE :: nat where "PIPE_SIZE \<equiv> 16384"

record pipe =
  buf :: "nat \<Rightarrow> u8"
  head :: nat
  cnt :: nat
  readers :: int
  writers :: int

section \<open>Reading\<close>

datatype read_result = Read_bytes "u8 list" | Read_eof | Read_error errno | Read_sleep

definition take_bytes :: "nat \<Rightarrow> pipe \<Rightarrow> u8 list" where
  "take_bytes n p = map (\<lambda>i. buf p ((head p + i) mod PIPE_SIZE)) [0..<n]"

definition pipe_read :: "bool \<Rightarrow> nat \<Rightarrow> pipe \<Rightarrow> read_result \<times> pipe" where
  "pipe_read interrupted len p =
     (if len = 0 then (Read_bytes [], p)
      else if cnt p = 0 then
        (if writers p = 0 then (Read_eof, p)
         else if interrupted then (Read_error EINTR, p)
         else (Read_sleep, p))
      else
        (let n = min len (cnt p); bs = take_bytes n p
         in (Read_bytes bs, p\<lparr>head := (head p + n) mod PIPE_SIZE, cnt := cnt p - n\<rparr>)))"

section \<open>Writing\<close>

datatype write_result = Write_done nat | Write_sigpipe | Write_eintr | Write_sleep nat

fun put_bytes :: "nat \<Rightarrow> u8 list \<Rightarrow> (nat \<Rightarrow> u8) \<Rightarrow> nat \<Rightarrow> u8" where
  "put_bytes tail [] b = b"
| "put_bytes tail (x # xs) b = put_bytes (Suc tail) xs (b(tail mod PIPE_SIZE := x))"

text \<open>
  The loop of \<^verbatim>\<open>pipe_write\<close> from \<open>don\<close> bytes written. \<open>Write_sleep n\<close> is the call going to sleep
  with \<open>n\<close> bytes written so far; it resumes the loop there. The test for a full buffer is written with
  \<open>\<ge>\<close>, which is the code's equality test since the count never exceeds the size (\<open>pipe_inv\<close>). \<open>Write_sigpipe\<close> is the \<^verbatim>\<open>-EPIPE\<close>
  return, which sends \<^verbatim>\<open>SIGPIPE\<close> to the caller.
\<close>

function pipe_write :: "bool \<Rightarrow> u8 list \<Rightarrow> nat \<Rightarrow> pipe \<Rightarrow> write_result \<times> pipe" where
  "pipe_write interrupted src don p =
     (if don < length src then
        (if readers p = 0 then (if don > 0 then (Write_done don, p) else (Write_sigpipe, p))
         else if cnt p \<ge> PIPE_SIZE then
           (if interrupted then (if don > 0 then (Write_done don, p) else (Write_eintr, p))
            else (Write_sleep don, p))
         else
           (let n = min (length src - don) (PIPE_SIZE - cnt p);
                tail = (head p + cnt p) mod PIPE_SIZE
            in pipe_write interrupted src (don + n)
                 (p\<lparr>buf := put_bytes tail (take n (drop don src)) (buf p), cnt := cnt p + n\<rparr>)))
      else (Write_done don, p))"
  by pat_completeness auto
termination
  by (relation "measure (\<lambda>(interrupted, src, don, p). length src - don)") auto

declare pipe_write.simps [simp del]

section \<open>Opening and closing\<close>

definition pipe_new :: "(nat \<Rightarrow> u8) \<Rightarrow> pipe" where
  "pipe_new b = \<lparr>buf = b, head = 0, cnt = 0, readers = 1, writers = 1\<rparr>"

text \<open>Closing one end; the second component says that the last end is gone and the pipe is freed.\<close>

definition pipe_release :: "bool \<Rightarrow> pipe \<Rightarrow> pipe \<times> bool" where
  "pipe_release write_end p =
     (let p = (if write_end then p\<lparr>writers := writers p - 1\<rparr> else p\<lparr>readers := readers p - 1\<rparr>)
      in (p, readers p = 0 \<and> writers p = 0))"

text \<open>
  The resources of \<^verbatim>\<open>pipe_create\<close>: the outcome of each of its five allocations is an argument, and the
  result counts what is still allocated (pipe, buffer, references on the inode, files). Closing a
  file drops its reference on the inode; \<^verbatim>\<open>file_alloc\<close> takes no reference of its own and gives none
  back when it fails.
\<close>

record pipe_resources =
  pr_pipe :: bool
  pr_buf :: bool
  pr_inode_refs :: nat
  pr_files :: nat

definition pipe_create :: "bool \<Rightarrow> bool \<Rightarrow> bool \<Rightarrow> bool \<Rightarrow> bool \<Rightarrow> (errno + unit) \<times> pipe_resources" where
  "pipe_create p_ok buf_ok in_ok r_ok w_ok =
     (let refs = of_bool in_ok;
          tried = p_ok \<and> buf_ok \<and> in_ok;
          refs = refs + of_bool tried;
          r = tried \<and> r_ok;
          w = tried \<and> w_ok
      in if \<not> r \<or> \<not> w then
           (let refs = (if r then refs - 1 else if in_ok then refs - 1 else refs);
                refs = (if w then refs - 1 else refs)
            in (Inl ENOMEM, \<lparr>pr_pipe = False, pr_buf = False, pr_inode_refs = refs, pr_files = 0\<rparr>))
         else (Inr (), \<lparr>pr_pipe = True, pr_buf = True, pr_inode_refs = refs, pr_files = 2\<rparr>))"

section \<open>The queue a pipe represents\<close>

definition pipe_inv :: "pipe \<Rightarrow> bool" where
  "pipe_inv p \<longleftrightarrow> head p < PIPE_SIZE \<and> cnt p \<le> PIPE_SIZE \<and> 0 \<le> readers p \<and> 0 \<le> writers p"

definition queued :: "pipe \<Rightarrow> u8 list" where
  "queued p = take_bytes (cnt p) p"

lemma length_queued [simp]: "length (queued p) = cnt p"
  by (simp add: queued_def take_bytes_def)

lemma put_bytes_apply:
  assumes "i < PIPE_SIZE" and "length xs \<le> PIPE_SIZE"
  shows "put_bytes t xs b ((t + i) mod PIPE_SIZE) = (if i < length xs then xs ! i else b ((t + i) mod PIPE_SIZE))"
  using assms
proof (induction xs arbitrary: t b i)
  case (Cons x xs)
  show ?case
  proof (cases i)
    case 0
    have "put_bytes (Suc t) xs b' (t mod PIPE_SIZE) = b' (t mod PIPE_SIZE)" for b'
    proof -
      have e: "(Suc t + (PIPE_SIZE - 1)) mod PIPE_SIZE = t mod PIPE_SIZE" by simp
      show ?thesis using Cons.IH[of "PIPE_SIZE - 1" "Suc t" b'] Cons.prems(2) unfolding e by simp
    qed
    then show ?thesis using 0 by simp
  next
    case (Suc j)
    have "(t + Suc j) mod PIPE_SIZE \<noteq> t mod PIPE_SIZE"
    proof
      assume "(t + Suc j) mod PIPE_SIZE = t mod PIPE_SIZE"
      then have "PIPE_SIZE dvd Suc j" by (metis add_diff_cancel_left' le_add1 mod_eq_dvd_iff_nat)
      then show False using Cons.prems(1) Suc by (auto dest: dvd_imp_le)
    qed
    then show ?thesis using Cons.IH[of j "Suc t"] Cons.prems Suc by simp
  qed
qed simp

lemma queued_put:
  assumes "pipe_inv p" and "length xs \<le> PIPE_SIZE - cnt p"
  shows "queued (p\<lparr>buf := put_bytes ((head p + cnt p) mod PIPE_SIZE) xs (buf p), cnt := cnt p + length xs\<rparr>) =
    queued p @ xs"
proof (rule nth_equalityI)
  fix i assume "i < length (queued (p\<lparr>buf := put_bytes ((head p + cnt p) mod PIPE_SIZE) xs (buf p), cnt := cnt p + length xs\<rparr>))"
  then have i: "i < cnt p + length xs" by simp
  let ?t = "(head p + cnt p) mod PIPE_SIZE"
  define j where "j = (i + (PIPE_SIZE - cnt p)) mod PIPE_SIZE"
  have c: "cnt p \<le> PIPE_SIZE" using assms(1) by (simp add: pipe_inv_def)
  have pos: "(?t + j) mod PIPE_SIZE = (head p + i) mod PIPE_SIZE"
  proof -
    have "(?t + j) mod PIPE_SIZE = (head p + cnt p + (i + (PIPE_SIZE - cnt p))) mod PIPE_SIZE"
      unfolding j_def by (simp add: mod_add_left_eq mod_add_right_eq)
    also have "\<dots> = (head p + i + PIPE_SIZE) mod PIPE_SIZE" using c by (simp add: algebra_simps)
    finally show ?thesis by simp
  qed
  have "put_bytes ?t xs (buf p) ((head p + i) mod PIPE_SIZE) =
      (if j < length xs then xs ! j else buf p ((head p + i) mod PIPE_SIZE))"
    using put_bytes_apply[of j xs ?t "buf p"] assms(2) unfolding pos by (simp add: j_def)
  moreover have "j < length xs \<longleftrightarrow> cnt p \<le> i" "cnt p \<le> i \<Longrightarrow> j = i - cnt p"
    using i assms(2) c unfolding j_def by (auto simp: mod_if)
  ultimately show "queued (p\<lparr>buf := put_bytes ?t xs (buf p), cnt := cnt p + length xs\<rparr>) ! i = (queued p @ xs) ! i"
    using i by (auto simp: queued_def take_bytes_def nth_append)
qed simp

lemma pipe_read_ok:
  assumes inv: "pipe_inv p" and r: "pipe_read interrupted len p = (res, p')"
  shows "pipe_inv p'" "readers p' = readers p" "writers p' = writers p"
    "res = Read_bytes bs \<Longrightarrow> bs = take len (queued p) \<and> queued p = bs @ queued p'"
    "(\<nexists>bs. res = Read_bytes bs) \<Longrightarrow> p' = p \<and> queued p = [] \<and> 0 < len"
    "res = Read_sleep \<longleftrightarrow> 0 < len \<and> queued p = [] \<and> writers p \<noteq> 0 \<and> \<not> interrupted"
    "res = Read_eof \<longleftrightarrow> 0 < len \<and> queued p = [] \<and> writers p = 0"
proof -
  have q: "queued p = [] \<longleftrightarrow> cnt p = 0" using length_queued[of p] by (metis length_0_conv)
  have i: "head p < PIPE_SIZE" "cnt p \<le> PIPE_SIZE" "0 \<le> readers p" "0 \<le> writers p"
    using inv by (simp_all add: pipe_inv_def)
  show "pipe_inv p'" "readers p' = readers p" "writers p' = writers p"
    using r i by (auto simp: pipe_read_def pipe_inv_def Let_def split: if_splits)
  let ?n = "min len (cnt p)"
  have tk: "take_bytes ?n p = take len (queued p)"
    by (rule nth_equalityI) (simp_all add: take_bytes_def queued_def min.commute)
  have dr: "queued (p\<lparr>head := (head p + ?n) mod PIPE_SIZE, cnt := cnt p - ?n\<rparr>) = drop ?n (queued p)"
    by (cases "len \<le> cnt p"; rule nth_equalityI) (auto simp: queued_def take_bytes_def mod_add_left_eq add.assoc less_diff_conv ac_simps mod_add_right_eq)
  show "res = Read_bytes bs \<Longrightarrow> bs = take len (queued p) \<and> queued p = bs @ queued p'"
  proof -
    have ad: "take len (queued p) @ drop ?n (queued p) = queued p"
      by (cases "len \<le> cnt p") (simp_all add: min_def)
    show "res = Read_bytes bs \<Longrightarrow> bs = take len (queued p) \<and> queued p = bs @ queued p'"
      using r tk dr ad q by (auto simp: pipe_read_def Let_def split: if_splits)
  qed
  show "(\<nexists>bs. res = Read_bytes bs) \<Longrightarrow> p' = p \<and> queued p = [] \<and> 0 < len"
    "res = Read_sleep \<longleftrightarrow> 0 < len \<and> queued p = [] \<and> writers p \<noteq> 0 \<and> \<not> interrupted"
    "res = Read_eof \<longleftrightarrow> 0 < len \<and> queued p = [] \<and> writers p = 0"
    using r q by (auto simp: pipe_read_def Let_def split: if_splits)
qed

text \<open>How far a run of the write loop has come.\<close>

fun write_pos :: "nat \<Rightarrow> write_result \<Rightarrow> nat" where
  "write_pos don (Write_done n) = n"
| "write_pos don (Write_sleep n) = n"
| "write_pos don Write_sigpipe = don"
| "write_pos don Write_eintr = don"

lemma pipe_write_ok:
  assumes "pipe_inv p" and "don \<le> length src" and "pipe_write interrupted src don p = (res, p')"
  shows "pipe_inv p' \<and> readers p' = readers p \<and> writers p' = writers p \<and>
    don \<le> write_pos don res \<and> write_pos don res \<le> length src \<and>
    queued p' = queued p @ take (write_pos don res - don) (drop don src) \<and>
    (\<forall>n. res = Write_sleep n \<longrightarrow> cnt p' = PIPE_SIZE \<and> n < length src \<and> \<not> interrupted \<and> readers p \<noteq> 0) \<and>
    (res = Write_sigpipe \<longrightarrow> readers p = 0 \<and> don = 0 \<and> p' = p) \<and>
    (res = Write_eintr \<longrightarrow> interrupted \<and> don = 0 \<and> p' = p \<and> cnt p = PIPE_SIZE) \<and>
    (\<forall>n. res = Write_done n \<longrightarrow> n = length src \<or> (0 < n \<and> (readers p = 0 \<or> interrupted \<and> cnt p' = PIPE_SIZE)))"
  using assms
proof (induction interrupted src don p rule: pipe_write.induct)
  case (1 interrupted src don p)
  have c: "cnt p \<le> PIPE_SIZE" using "1.prems"(1) by (simp add: pipe_inv_def)
  show ?case
  proof (cases "don < length src \<and> readers p \<noteq> 0 \<and> cnt p < PIPE_SIZE")
    case False
    then show ?thesis
      using "1.prems" c by (subst (asm) pipe_write.simps) (auto split: if_splits)
  next
    case True
    define n where "n = min (length src - don) (PIPE_SIZE - cnt p)"
    define p1 where "p1 = p\<lparr>buf := put_bytes ((head p + cnt p) mod PIPE_SIZE) (take n (drop don src)) (buf p), cnt := cnt p + n\<rparr>"
    have len: "length (take n (drop don src)) = n" by (simp add: n_def)
    have q1: "queued p1 = queued p @ take n (drop don src)"
      using queued_put[OF "1.prems"(1), of "take n (drop don src)"] unfolding len p1_def by (simp add: n_def)
    have "n \<le> PIPE_SIZE - cnt p" by (simp add: n_def)
    then have inv1: "pipe_inv p1" using "1.prems"(1) c by (auto simp: pipe_inv_def p1_def)
    have "n \<le> length src - don" by (simp add: n_def)
    then have n: "0 < n" "don + n \<le> length src" using True by (auto simp: n_def)
    have run: "pipe_write interrupted src (don + n) p1 = (res, p')"
      using "1.prems"(3) True by (subst (asm) pipe_write.simps) (simp add: Let_def n_def p1_def)
    have IH: "pipe_inv p' \<and> readers p' = readers p1 \<and> writers p' = writers p1 \<and>
      don + n \<le> write_pos (don + n) res \<and> write_pos (don + n) res \<le> length src \<and>
      queued p' = queued p1 @ take (write_pos (don + n) res - (don + n)) (drop (don + n) src) \<and>
      (\<forall>k. res = Write_sleep k \<longrightarrow> cnt p' = PIPE_SIZE \<and> k < length src \<and> \<not> interrupted \<and> readers p1 \<noteq> 0) \<and>
      (res = Write_sigpipe \<longrightarrow> readers p1 = 0 \<and> don + n = 0 \<and> p' = p1) \<and>
      (res = Write_eintr \<longrightarrow> interrupted \<and> don + n = 0 \<and> p' = p1 \<and> cnt p1 = PIPE_SIZE) \<and>
      (\<forall>k. res = Write_done k \<longrightarrow> k = length src \<or> (0 < k \<and> (readers p1 = 0 \<or> interrupted \<and> cnt p' = PIPE_SIZE)))"
      by (rule "1.IH"[OF conjunct1[OF True] _ _ refl refl, folded n_def, folded p1_def])
        (use True inv1 n(2) run in auto)
    have pos: "write_pos (don + n) res = write_pos don res" using IH n(1) by (cases res) auto
    let ?k = "write_pos don res"
    have "take n (drop don src) @ take (?k - (don + n)) (drop (don + n) src) = take (?k - don) (drop don src)"
    proof -
      have k: "?k - don = n + (?k - (don + n))" using IH unfolding pos by linarith
      show ?thesis unfolding k take_add drop_drop by (simp add: add.commute)
    qed
    then show ?thesis using IH q1 n unfolding pos by (auto simp: p1_def)
  qed
qed

section \<open>The queue interface\<close>

text \<open>Running a sequence of reads (\<open>Inl\<close>) and writes (\<open>Inr\<close>): the bytes read, the bytes written, the final state.\<close>

fun queue_runs :: "('r \<Rightarrow> 's \<Rightarrow> 'b list \<times> 's) \<Rightarrow> ('w \<Rightarrow> 's \<Rightarrow> 'b list \<times> 's) \<Rightarrow> ('r + 'w) list \<Rightarrow> 's \<Rightarrow>
    'b list \<times> 'b list \<times> 's" where
  "queue_runs get put [] s = ([], [], s)"
| "queue_runs get put (Inl r # ops) s =
     (case get r s of (bs, s) \<Rightarrow> case queue_runs get put ops s of (outs, ins, s) \<Rightarrow> (bs @ outs, ins, s))"
| "queue_runs get put (Inr w # ops) s =
     (case put w s of (bs, s) \<Rightarrow> case queue_runs get put ops s of (outs, ins, s) \<Rightarrow> (outs, bs @ ins, s))"

locale byte_queue =
  fixes qinv :: "'s \<Rightarrow> bool"
    and queue :: "'s \<Rightarrow> 'b list"
    and get :: "'r \<Rightarrow> 's \<Rightarrow> 'b list \<times> 's"
    and put :: "'w \<Rightarrow> 's \<Rightarrow> 'b list \<times> 's"
  assumes get_inv: "qinv s \<Longrightarrow> qinv (snd (get r s))"
    and get_front: "qinv s \<Longrightarrow> queue s = fst (get r s) @ queue (snd (get r s))"
    and put_inv: "qinv s \<Longrightarrow> qinv (snd (put w s))"
    and put_back: "qinv s \<Longrightarrow> queue (snd (put w s)) = queue s @ fst (put w s)"
begin

lemma fifo:
  assumes "qinv s" and "queue_runs get put ops s = (outs, ins, s')"
  shows "qinv s' \<and> queue s @ ins = outs @ queue s'"
  using assms
proof (induction ops arbitrary: s outs ins)
  case Nil
  then show ?case by simp
next
  case (Cons a ops)
  show ?case
  proof (cases a)
    case (Inl r)
    with Cons.prems obtain outs1 where 1: "queue_runs get put ops (snd (get r s)) = (outs1, ins, s')" "outs = fst (get r s) @ outs1"
      by (auto split: prod.splits)
    then show ?thesis using Cons.IH[OF get_inv[OF Cons.prems(1)] 1(1)] get_front[OF Cons.prems(1), of r] by (metis append_assoc)
  next
    case (Inr w)
    with Cons.prems obtain ins1 where 1: "queue_runs get put ops (snd (put w s)) = (outs, ins1, s')" "ins = fst (put w s) @ ins1"
      by (auto split: prod.splits)
    then show ?thesis using Cons.IH[OF put_inv[OF Cons.prems(1)] 1(1)] put_back[OF Cons.prems(1), of w] by (metis append_assoc)
  qed
qed

end

text \<open>The two operations as a client of the queue sees them: the bytes that moved and the new state.\<close>

definition pipe_get :: "bool \<times> nat \<Rightarrow> pipe \<Rightarrow> u8 list \<times> pipe" where
  "pipe_get a p = (case pipe_read (fst a) (snd a) p of
     (Read_bytes bs, p) \<Rightarrow> (bs, p) | (_, p) \<Rightarrow> ([], p))"

text \<open>A write argument is interrupted or not, the bytes, and the position reached by an earlier sleep.\<close>

definition pipe_put :: "bool \<times> u8 list \<times> nat \<Rightarrow> pipe \<Rightarrow> u8 list \<times> pipe" where
  "pipe_put a p = (case a of (interrupted, src, don) \<Rightarrow>
     if don \<le> length src then
       (case pipe_write interrupted src don p of (res, p) \<Rightarrow> (take (write_pos don res - don) (drop don src), p))
     else ([], p))"

interpretation pq: byte_queue pipe_inv queued pipe_get pipe_put
proof unfold_locales
  fix s :: pipe and r :: "bool \<times> nat" and w :: "bool \<times> u8 list \<times> nat"
  assume inv: "pipe_inv s"
  obtain res s' where r: "pipe_read (fst r) (snd r) s = (res, s')" by (cases "pipe_read (fst r) (snd r) s")
  note ok = pipe_read_ok[OF inv r]
  show "pipe_inv (snd (pipe_get r s))" using ok(1) by (simp add: pipe_get_def r split: read_result.split)
  show "queued s = fst (pipe_get r s) @ queued (snd (pipe_get r s))"
    using ok(4,5) by (simp add: pipe_get_def r split: read_result.split)
  obtain i src don where w: "w = (i, src, don)" by (cases w)
  obtain res' s'' where r': "pipe_write i src don s = (res', s'')" by (cases "pipe_write i src don s")
  show "pipe_inv (snd (pipe_put w s))" "queued (snd (pipe_put w s)) = queued s @ fst (pipe_put w s)"
    using pipe_write_ok[OF inv _ r'] inv by (simp_all add: pipe_put_def w r')
qed

section \<open>Properties\<close>

text \<open>
  C32. A pipe is a queue under every interleaving: whatever sequence of reads and (possibly sleeping
  and resumed) writes several processes run on it, the bytes read followed by the bytes still in the
  buffer are the bytes that were in the buffer followed by the bytes written, in order, and the ring
  buffer stays within its bounds.
\<close>

theorem pipe_fifo:
  assumes "pipe_inv p" and "queue_runs pipe_get pipe_put ops p = (outs, ins, p')"
  shows "outs @ queued p' = queued p @ ins \<and> pipe_inv p'"
  using pq.fifo[OF assms] by simp

lemma pipe_new_inv: "pipe_inv (pipe_new b)" "queued (pipe_new b) = []"
  by (simp_all add: pipe_inv_def pipe_new_def queued_def take_bytes_def)

theorem pipe_fifo_witness:
  "\<exists>outs ins p'. queue_runs pipe_get pipe_put
      [Inr (False, [1, 2, 3], 0), Inl (False, 2), Inr (False, [4], 0), Inl (False, 9)]
      (pipe_new (\<lambda>_. 0)) = (outs, ins, p') \<and> outs @ queued p' = ins"
proof -
  obtain outs ins p' where r: "queue_runs pipe_get pipe_put
      [Inr (False, [1, 2, 3], 0), Inl (False, 2), Inr (False, [4], 0), Inl (False, 9)]
      (pipe_new (\<lambda>_. 0)) = (outs, ins, p')"
    by (metis prod_cases3)
  then show ?thesis using pipe_fifo[OF pipe_new_inv(1) r] by (simp add: pipe_new_inv)
qed

text \<open>
  Sleeping is justified and cannot deadlock the two ends: a reader sleeps exactly on an empty pipe
  that still has a writer, a writer sleeps only on a full pipe that still has a reader, so after a
  writer has gone to sleep a read makes progress and after a reader has gone to sleep a write does.
  End of file is reported exactly on an empty pipe without writers, and \<^verbatim>\<open>SIGPIPE\<close> only when
  there is no reader.
\<close>

theorem pipe_progress:
  assumes inv: "pipe_inv p" and len: "0 < len" and src: "0 < length src"
  shows "case pipe_read ir len p of (r, p1) \<Rightarrow> case pipe_write iw src 0 p of (w, p2) \<Rightarrow>
      (r = Read_sleep \<longleftrightarrow> queued p = [] \<and> writers p \<noteq> 0 \<and> \<not> ir) \<and>
      (r = Read_eof \<longleftrightarrow> queued p = [] \<and> writers p = 0) \<and>
      (r = Read_sleep \<and> readers p \<noteq> 0 \<longrightarrow> queued p2 \<noteq> [] \<and> fst (pipe_read ir len p2) \<noteq> Read_sleep) \<and>
      (\<forall>n. w = Write_sleep n \<longrightarrow> length (queued p2) = PIPE_SIZE \<and> readers p \<noteq> 0 \<and>
         (\<exists>bs. bs \<noteq> [] \<and> fst (pipe_read ir len p2) = Read_bytes bs)) \<and>
      (w = Write_sigpipe \<longrightarrow> readers p = 0 \<and> p2 = p)"
proof -
  obtain r p1 where r: "pipe_read ir len p = (r, p1)" by (cases "pipe_read ir len p")
  obtain w p2 where w: "pipe_write iw src 0 p = (w, p2)" by (cases "pipe_write iw src 0 p")
  note rok = pipe_read_ok[OF inv r] and wok = pipe_write_ok[OF inv le0 w]
  have full: "\<exists>bs. bs \<noteq> [] \<and> fst (pipe_read ir len p2) = Read_bytes bs" if "queued p2 \<noteq> []"
  proof -
    have "cnt p2 \<noteq> 0" using that length_queued[of p2] by (metis length_0_conv)
    then show ?thesis using len by (simp add: pipe_read_def Let_def take_bytes_def)
  qed
  have grow: "queued p2 \<noteq> []" if "queued p = []" "readers p \<noteq> 0"
  proof
    assume e: "queued p2 = []"
    have "cnt p = 0" "cnt p2 = 0" using that(1) e length_queued[of p] length_queued[of p2] by simp_all
    then have "write_pos 0 w = 0" using wok e that(1) src by simp
    then show False using wok that(2) src \<open>cnt p = 0\<close> \<open>cnt p2 = 0\<close> by (cases w) auto
  qed
  have "queued p2 \<noteq> []" if "w = Write_sleep n" for n
    using wok that length_queued[of p2] by (metis list.size(3) zero_neq_numeral)
  then show ?thesis
    using rok(6,7) wok full grow len by (auto simp: r w)
qed

theorem pipe_progress_witness:
  "fst (pipe_read False 4 (pipe_new (\<lambda>_. 0))) = Read_sleep \<and>
   queued (snd (pipe_write False [7] 0 (pipe_new (\<lambda>_. 0)))) \<noteq> []"
proof -
  have p: "(0::nat) < 4" "0 < length [7 :: u8]" by simp_all
  show ?thesis
    using pipe_progress[OF pipe_new_inv(1)[of "\<lambda>_. 0"] p, of False False]
    by (simp add: pipe_new_inv(2) split: prod.splits) (simp add: pipe_new_def)
qed

text \<open>
  \<^verbatim>\<open>pipe_create\<close> frees what it allocated when it fails, with one exception: when the file of the
  write end cannot be allocated, the reference taken for it with \<^verbatim>\<open>iget\<close> is never dropped, and the
  inode is leaked.
\<close>

theorem pipe_create_resources:
  "case pipe_create p_ok buf_ok in_ok r_ok w_ok of
     (Inr (), res) \<Rightarrow> p_ok \<and> buf_ok \<and> in_ok \<and> r_ok \<and> w_ok \<and>
       res = \<lparr>pr_pipe = True, pr_buf = True, pr_inode_refs = 2, pr_files = 2\<rparr>
   | (Inl e, res) \<Rightarrow> e = ENOMEM \<and> \<not> pr_pipe res \<and> \<not> pr_buf res \<and> pr_files res = 0 \<and>
       pr_inode_refs res = of_bool (p_ok \<and> buf_ok \<and> in_ok \<and> \<not> w_ok)"
  by (auto simp: pipe_create_def Let_def split: sum.splits unit.splits)

end
