(* ===== verification/Bytes.thy ===== *)
theory Bytes
  imports Kstring
begin

text \<open>
  Byte strings in memory and the little-endian layout of 64-bit words, which the page tables, the signal
  frames on the user stack and the ELF and disk structures share.
\<close>

fun store_bytes :: "u64 \<Rightarrow> u8 list \<Rightarrow> memory \<Rightarrow> memory" where
  "store_bytes a [] m = m"
| "store_bytes a (b # bs) m = store_bytes (a + 1) bs (m(a := b))"

definition load_bytes :: "u64 \<Rightarrow> nat \<Rightarrow> memory \<Rightarrow> u8 list" where
  "load_bytes a n m = map (\<lambda>i. m (a + of_nat i)) [0..<n]"

lemma length_load_bytes [simp]: "length (load_bytes a n m) = n"
  by (simp add: load_bytes_def)

text \<open>Distances between addresses, modulo the address space.\<close>

lemma store_bytes_at:
  assumes "length bs \<le> 2 ^ 64"
  shows "store_bytes a bs m x = (if unat (x - a) < length bs then bs ! unat (x - a) else m x)"
  using assms
proof (induction bs arbitrary: a m)
  case (Cons b bs)
  show ?case
  proof (cases "x = a")
    case True
    have "\<not> unat (a - (a + 1)) < length bs"
    proof -
      have "a - (a + 1) = - 1" by simp
      then have "unat (a - (a + 1)) = 2 ^ 64 - 1" by (simp only: unsigned_minus_1_eq_mask) (simp add: mask_eq_exp_minus_1)
      with Cons(2) show ?thesis by simp
    qed
    with True Cons show ?thesis by simp
  next
    case False
    then have "x - a \<noteq> 0" by simp
    then have "unat (x - (a + 1)) = unat (x - a) - 1"
      using unat_minus_one[of "x - a"] by (simp add: diff_diff_eq)
    moreover have "0 < unat (x - a)" using \<open>x - a \<noteq> 0\<close> by (simp add: unat_gt_0)
    ultimately show ?thesis using Cons False by (auto simp: nth_Cons' less_Suc_eq_0_disj)
  qed
qed simp

lemma load_store_bytes:
  assumes "length bs \<le> 2 ^ 64" "i + n \<le> length bs"
  shows "load_bytes (a + of_nat i) n (store_bytes a bs m) = take n (drop i bs)"
proof (rule nth_equalityI)
  fix j assume "j < length (load_bytes (a + of_nat i) n (store_bytes a bs m))"
  then have j: "j < n" by simp
  have "a + of_nat i + of_nat j - a = (of_nat (i + j) :: u64)" by (simp add: algebra_simps)
  then have "unat (a + of_nat i + of_nat j - a) = i + j"
    using j assms by (simp only: unat_of_nat) simp
  with j assms show "load_bytes (a + of_nat i) n (store_bytes a bs m) ! j = take n (drop i bs) ! j"
    by (simp add: load_bytes_def store_bytes_at)
qed (use assms in simp)

section \<open>Words\<close>

fun of_bytes :: "u8 list \<Rightarrow> 'a::len word" where
  "of_bytes [] = 0"
| "of_bytes (b # bs) = ucast b OR push_bit 8 (of_bytes bs)"

definition to_bytes :: "nat \<Rightarrow> 'a::len word \<Rightarrow> u8 list" where
  "to_bytes n w = map (\<lambda>i. ucast (drop_bit (8 * i) w)) [0..<n]"

lemma length_to_bytes [simp]: "length (to_bytes n w) = n"
  by (simp add: to_bytes_def)

lemma to_bytes_Suc: "to_bytes (Suc n) w = ucast w # to_bytes n (drop_bit 8 w)"
proof -
  have "[0..<Suc n] = 0 # map Suc [0..<n]" by (simp add: upt_conv_Cons map_Suc_upt del: upt_Suc)
  then show ?thesis by (simp add: to_bytes_def add.commute del: upt_Suc)
qed

lemma of_to_bytes: "of_bytes (to_bytes n w) = take_bit (8 * n) (w :: 'a::len word)"
proof (induction n arbitrary: w)
  case 0
  then show ?case by (simp add: to_bytes_def)
next
  case (Suc n)
  show ?case
    unfolding to_bytes_Suc of_bytes.simps Suc
    by (rule bit_word_eqI) (auto simp: bit_simps not_less)
qed

lemma bit_of_bytes:
  "bit (of_bytes bs :: 'a::len word) n \<longleftrightarrow> n < LENGTH('a) \<and> n < 8 * length bs \<and> bit (bs ! (n div 8)) (n mod 8)"
proof (induction bs arbitrary: n)
  case (Cons b bs)
  show ?case
  proof (cases "n < 8")
    case True
    then show ?thesis by (auto simp: bit_simps)
  next
    case False
    then obtain m where "n = 8 + m" by (metis add_diff_inverse_nat)
    moreover have "(8 + m) div 8 = Suc (m div 8)" "\<not> bit b (8 + m)" by (simp_all add: bit_imp_le_length impossible_bit)
    ultimately show ?thesis using Cons.IH[of m] by (auto simp: bit_simps)
  qed
qed simp

lemma of_bytes_inj:
  assumes "of_bytes bs = (of_bytes cs :: 'a::len word)" "length cs = length bs" "8 * length bs \<le> LENGTH('a)"
  shows "bs = cs"
proof (rule nth_equalityI)
  fix i assume i: "i < length bs"
  show "bs ! i = cs ! i"
  proof (rule bit_word_eqI)
    fix k assume "k < LENGTH(8)"
    then have k: "k < 8" by simp
    have "bit (of_bytes bs :: 'a word) (8 * i + k) = bit (of_bytes cs :: 'a word) (8 * i + k)" using assms(1) by simp
    moreover have "8 * i + k < 8 * length bs" "8 * i + k < LENGTH('a)" using i k assms(3) by linarith+
    ultimately show "bit (bs ! i) k = bit (cs ! i) k" using i k assms(2) by (simp add: bit_of_bytes)
  qed
qed (simp add: assms(2))

abbreviation le64 :: "u64 \<Rightarrow> u8 list" where "le64 \<equiv> to_bytes 8"

lemma of_bytes_le64 [simp]: "of_bytes (le64 w) = w"
  by (simp add: of_to_bytes take_bit_word_eq_self)

definition load_u64 :: "u64 \<Rightarrow> memory \<Rightarrow> u64" where
  "load_u64 a m = of_bytes (load_bytes a 8 m)"

definition store_u64 :: "u64 \<Rightarrow> u64 \<Rightarrow> memory \<Rightarrow> memory" where
  "store_u64 a w m = store_bytes a (le64 w) m"

definition store_words :: "u64 \<Rightarrow> u64 list \<Rightarrow> memory \<Rightarrow> memory" where
  "store_words a ws m = store_bytes a (concat (map le64 ws)) m"

definition load_words :: "u64 \<Rightarrow> nat \<Rightarrow> memory \<Rightarrow> u64 list" where
  "load_words a n m = map (\<lambda>i. load_u64 (a + of_nat (8 * i)) m) [0..<n]"

lemma take_drop_words:
  "i < length ws \<Longrightarrow> take 8 (drop (8 * i) (concat (map le64 ws))) = le64 (ws ! i)"
proof (induction ws arbitrary: i)
  case (Cons w ws)
  then show ?case by (cases i) simp_all
qed simp

lemma length_concat_le64 [simp]: "length (concat (map le64 ws)) = 8 * length ws"
  by (induction ws) simp_all

lemma load_store_words:
  assumes "8 * length ws \<le> 2 ^ 64" "i + n \<le> length ws"
  shows "load_words (a + of_nat (8 * i)) n (store_words a ws m) = take n (drop i ws)"
proof (rule nth_equalityI)
  fix j assume "j < length (load_words (a + of_nat (8 * i)) n (store_words a ws m))"
  then have j: "j < n" by (simp add: load_words_def)
  have "a + of_nat (8 * i) + of_nat (8 * j) = a + of_nat (8 * (i + j))" by (simp add: algebra_simps)
  then have "load_bytes (a + of_nat (8 * i) + of_nat (8 * j)) 8 (store_words a ws m) = le64 (ws ! (i + j))"
    using load_store_bytes[of "concat (map le64 ws)" "8 * (i + j)" 8 a m] assms j take_drop_words[of "i + j" ws]
    by (simp only: store_words_def) simp
  with j assms show "load_words (a + of_nat (8 * i)) n (store_words a ws m) ! j = take n (drop i ws) ! j"
    by (simp add: load_words_def load_u64_def)
qed (use assms in \<open>simp add: load_words_def\<close>)

end
