(* ===== verification/Tmpfs_File.thy ===== *)
theory Tmpfs_File
  imports Pmm_Boot Bytes
begin

text \<open>
  The data of a regular tmpfs file (\<^verbatim>\<open>tmpfs_read\<close>, \<^verbatim>\<open>tmpfs_write\<close>, \<^verbatim>\<open>tmpfs_truncate\<close> of
  \<^verbatim>\<open>kernel/fs/tmpfs.c\<close>) on top of the page allocator: a file is a growable array of page frames, a
  missing frame is a hole. The caller's buffer is a list of bytes, the file's pages live in the
  direct map of the allocator state. Abstractly a file is a function from positions to bytes that is
  zero beyond its size.
\<close>

section \<open>Bytes of page frames\<close>

definition paddr :: "nat \<Rightarrow> nat \<Rightarrow> u64" where
  "paddr p i = page_to_virt p + of_nat i"

lemma unat_paddr:
  assumes "p < PFN_LIMIT" and "i \<le> 4096"
  shows "unat (paddr p i) = p * 4096 + i + 2 ^ 47 * (2 ^ 17 - 1)"
proof -
  have u: "unat (page_to_phys p) = p * 4096" using assms(1) by (intro page_addr) simp
  have "unat (page_to_phys p) + 4096 \<le> 2 ^ 46"
  proof -
    have "Suc p \<le> 2 ^ 34" using assms(1) by simp
    then have "Suc p * 4096 \<le> 2 ^ 34 * 4096" by (rule mult_le_mono1)
    then show ?thesis by (simp add: u)
  qed
  then have v: "unat (page_to_virt p) = p * 4096 + 2 ^ 47 * (2 ^ 17 - 1)"
    unfolding page_to_virt_def using direct_map_fits(2)[of "page_to_phys p" 0] by (simp add: u)
  have "unat (page_to_virt p + of_nat i) = unat (page_to_virt p) + unat (of_nat i :: u64)"
    using assms u \<open>unat (page_to_phys p) + 4096 \<le> 2 ^ 46\<close> by (intro unat_add_no_wrap) (simp add: v unat_of_nat)
  then show ?thesis using assms(2) by (simp add: paddr_def v unat_of_nat)
qed

lemma paddr_inj:
  assumes "p < PFN_LIMIT" "q < PFN_LIMIT" "i < 4096" "j < 4096"
  shows "paddr p i = paddr q j \<longleftrightarrow> p = q \<and> i = j"
proof
  assume "paddr p i = paddr q j"
  then have "p * 4096 + i = q * 4096 + j" using unat_paddr[of p i] unat_paddr[of q j] assms by simp
  then have "(p * 4096 + i) div 4096 = (q * 4096 + j) div 4096" "(p * 4096 + i) mod 4096 = (q * 4096 + j) mod 4096"
    by simp_all
  then show "p = q \<and> i = j" using assms(3,4) by simp
qed simp

lemma paddr_Suc: "paddr p i + 1 = paddr p (Suc i)"
  by (simp add: paddr_def add.assoc add.commute)

lemma store_bytes_page:
  assumes "p < PFN_LIMIT" "q < PFN_LIMIT" "j < 4096" "k + length bs \<le> 4096"
  shows "store_bytes (paddr p k) bs m (paddr q j) =
    (if q = p \<and> k \<le> j \<and> j < k + length bs then bs ! (j - k) else m (paddr q j))"
  using assms(4)
proof (induction bs arbitrary: k m)
  case (Cons b bs)
  then show ?case
    using assms(1-3) by (auto simp: paddr_Suc paddr_inj nth_Cons' Suc_le_eq)
qed auto

lemma load_bytes_page: "load_bytes (paddr p k) n m = map (\<lambda>i. m (paddr p (k + i))) [0..<n]"
  by (simp add: load_bytes_def paddr_def add.assoc)

lemma memset_page:
  assumes "p < PFN_LIMIT" "q < PFN_LIMIT" "j < 4096" "k + n \<le> 4096"
  shows "memset (paddr p k) v n m (paddr q j) =
    (if q = p \<and> k \<le> j \<and> j < k + n then v else m (paddr q j))"
  using assms(4)
proof (induction n arbitrary: k m)
  case (Suc n)
  then show ?case
    using assms(1-3) by (auto simp: paddr_Suc paddr_inj Suc_le_eq)
qed auto

section \<open>The file operations\<close>

record tfile =
  t_size :: u64
  t_pages :: "nat option list"

function grow_cap :: "nat \<Rightarrow> nat \<Rightarrow> nat" where
  "grow_cap cap need = (if 0 < cap \<and> cap < need then grow_cap (cap * 2) need else cap)"
  by pat_completeness auto
termination
  by (relation "measure (\<lambda>(cap, need). need - cap)") auto

declare grow_cap.simps [simp del]

text \<open>The outcome of \<^verbatim>\<open>kzalloc\<close> for the new page array is an argument.\<close>

definition ensure_cap :: "bool \<Rightarrow> nat \<Rightarrow> tfile \<Rightarrow> errno + tfile" where
  "ensure_cap kzalloc_ok need f =
     (if need \<le> length (t_pages f) then Inr f
      else
        (let cap = grow_cap (if t_pages f = [] then 4 else length (t_pages f)) need
         in if \<not> kzalloc_ok then Inl ENOMEM
            else Inr (f\<lparr>t_pages := t_pages f @ replicate (cap - length (t_pages f)) None\<rparr>)))"

definition page_at :: "tfile \<Rightarrow> nat \<Rightarrow> nat option" where
  "page_at f idx = (if idx < length (t_pages f) then t_pages f ! idx else None)"

function read_loop :: "nat \<Rightarrow> nat \<Rightarrow> nat \<Rightarrow> tfile \<Rightarrow> memory \<Rightarrow> u8 list" where
  "read_loop off len don f m =
     (if don < len then
        (let pos = off + don; idx = pos div 4096; inpage = pos mod 4096;
             chunk = min (len - don) (4096 - inpage);
             bs = (case page_at f idx of Some p \<Rightarrow> load_bytes (paddr p inpage) chunk m | None \<Rightarrow> replicate chunk 0)
         in bs @ read_loop off len (don + chunk) f m)
      else [])"
  by pat_completeness auto
termination
  by (relation "measure (\<lambda>(off, len, don, f, m). len - don)") auto

declare read_loop.simps [simp del]

definition tmpfs_read :: "nat \<Rightarrow> u64 \<Rightarrow> tfile \<Rightarrow> memory \<Rightarrow> u8 list" where
  "tmpfs_read len off f m =
     (if off \<ge> t_size f then []
      else read_loop (unat off) (min len (unat (t_size f - off))) 0 f m)"

text \<open>The write loop returns how far it came; it stops early when no page frame is left.\<close>

function write_loop :: "u8 list \<Rightarrow> nat \<Rightarrow> nat \<Rightarrow> tfile \<Rightarrow> 'a pmm_scheme \<Rightarrow> nat \<times> tfile \<times> 'a pmm_scheme" where
  "write_loop data off don f s =
     (if don < length data then
        (let pos = off + don; idx = pos div 4096; inpage = pos mod 4096;
             chunk = min (length data - don) (4096 - inpage)
         in case t_pages f ! idx of
              Some p \<Rightarrow>
                write_loop data off (don + chunk) f
                  (s\<lparr>kmem := store_bytes (paddr p inpage) (take chunk (drop don data)) (kmem s)\<rparr>)
            | None \<Rightarrow>
                (case alloc_pages 0 GFP_ZERO s of
                   (None, s) \<Rightarrow> (don, f, s)
                 | (Some p, s) \<Rightarrow>
                     write_loop data off (don + chunk) (f\<lparr>t_pages := (t_pages f)[idx := Some p]\<rparr>)
                       (s\<lparr>kmem := store_bytes (paddr p inpage) (take chunk (drop don data)) (kmem s)\<rparr>)))
      else (don, f, s))"
  by pat_completeness auto
termination
  by (relation "measure (\<lambda>(data, off, don, f, s). length data - don)") auto

declare write_loop.simps [simp del]

abbreviation TMPFS_MAX :: u64 where "TMPFS_MAX \<equiv> 0x1000000000"

definition tmpfs_write :: "bool \<Rightarrow> u8 list \<Rightarrow> u64 \<Rightarrow> tfile \<Rightarrow> 'a pmm_scheme \<Rightarrow> (errno + nat) \<times> tfile \<times> 'a pmm_scheme" where
  "tmpfs_write kzalloc_ok data off f s =
     (let len = of_nat (length data) in
      if off + len < off \<or> off + len > TMPFS_MAX then (Inl EFBIG, f, s)
      else
        (case ensure_cap kzalloc_ok (unat ((off + len + PAGE_SIZE - 1) div PAGE_SIZE)) f of
           Inl e \<Rightarrow> (Inl e, f, s)
         | Inr f \<Rightarrow>
             (case write_loop data (unat off) 0 f s of
                (don, f, s) \<Rightarrow>
                  (let f = (if off + of_nat don > t_size f then f\<lparr>t_size := off + of_nat don\<rparr> else f)
                   in (if don \<noteq> 0 then Inr don else Inl ENOSPC, f, s)))))"

fun free_pages_from :: "nat \<Rightarrow> nat \<Rightarrow> tfile \<Rightarrow> 'a pmm_scheme \<Rightarrow> panic + tfile \<times> 'a pmm_scheme" where
  "free_pages_from i 0 f s = Inr (f, s)"
| "free_pages_from i (Suc n) f s =
     (case t_pages f ! i of
        None \<Rightarrow> free_pages_from (Suc i) n f s
      | Some p \<Rightarrow>
          (case free_pages p 0 s of
             Inl e \<Rightarrow> Inl e
           | Inr s \<Rightarrow> free_pages_from (Suc i) n (f\<lparr>t_pages := (t_pages f)[i := None]\<rparr>) s))"

definition tmpfs_truncate :: "u64 \<Rightarrow> tfile \<Rightarrow> 'a pmm_scheme \<Rightarrow> panic + tfile \<times> 'a pmm_scheme" where
  "tmpfs_truncate sz f s =
     (if sz < t_size f then
        (let first = unat ((sz + PAGE_SIZE - 1) div PAGE_SIZE) in
         case free_pages_from first (length (t_pages f) - first) f s of
           Inl e \<Rightarrow> Inl e
         | Inr (f, s) \<Rightarrow>
             (let idx = unat (sz div PAGE_SIZE); r = unat (sz mod PAGE_SIZE);
                  s = (case page_at f idx of
                         Some p \<Rightarrow> if r \<noteq> 0 then s\<lparr>kmem := memset (paddr p r) 0 (4096 - r) (kmem s)\<rparr> else s
                       | None \<Rightarrow> s)
              in Inr (f\<lparr>t_size := sz\<rparr>, s)))
      else Inr (f\<lparr>t_size := sz\<rparr>, s))"

definition tmpfs_free_pages :: "tfile \<Rightarrow> 'a pmm_scheme \<Rightarrow> panic + tfile \<times> 'a pmm_scheme" where
  "tmpfs_free_pages f s = free_pages_from 0 (length (t_pages f)) f s"

section \<open>The bytes of a file\<close>

definition byte_at :: "tfile \<Rightarrow> memory \<Rightarrow> nat \<Rightarrow> u8" where
  "byte_at f m pos = (case page_at f (pos div 4096) of None \<Rightarrow> 0 | Some p \<Rightarrow> m (paddr p (pos mod 4096)))"

definition file_inv :: "tfile \<Rightarrow> 'a pmm_scheme \<Rightarrow> bool" where
  "file_inv f s \<longleftrightarrow> pmm_inv s \<and>
     (\<forall>i p. page_at f i = Some p \<longrightarrow> allocated s p 0) \<and>
     (\<forall>i j p. page_at f i = Some p \<and> page_at f j = Some p \<longrightarrow> i = j)"

text \<open>What is needed on top: the bytes beyond the end of the file are zero.\<close>

definition zero_tail :: "tfile \<Rightarrow> memory \<Rightarrow> bool" where
  "zero_tail f m \<longleftrightarrow> (\<forall>pos. unat (t_size f) \<le> pos \<longrightarrow> byte_at f m pos = 0)"

lemma block_0 [simp]: "block p 0 = {p}"
  by auto

lemma allocated_pfn:
  assumes "pmm_inv s" and "allocated s p 0"
  shows "p < PFN_LIMIT"
  using in_zone_pfn_zone(2)[OF assms(1), of p 0 p] assms by (simp add: allocated_def pmm_inv_def)

lemma file_pfn: "file_inv f s \<Longrightarrow> page_at f i = Some p \<Longrightarrow> p < PFN_LIMIT"
  using allocated_pfn by (auto simp: file_inv_def)

lemma page_split:
  assumes "i < chunk" and "chunk \<le> 4096 - pos mod (4096::nat)"
  shows "(pos + i) div 4096 = pos div 4096" "(pos + i) mod 4096 = pos mod 4096 + i"
proof -
  have m: "pos mod 4096 + i < 4096" using assms by linarith
  have p: "pos = pos div 4096 * 4096 + pos mod 4096" by simp
  show d: "(pos + i) div 4096 = pos div 4096"
  proof (rule div_nat_eqI)
    show "4096 * (pos div 4096) \<le> pos + i" using p by linarith
    have "pos + i < 4096 * (pos div 4096) + 4096" using m p by linarith
    then show "pos + i < 4096 * Suc (pos div 4096)" by simp
  qed
  show "(pos + i) mod 4096 = pos mod 4096 + i"
    using minus_div_mult_eq_mod[of "pos + i" 4096] p unfolding d by linarith
qed

lemma read_loop_bytes:
  assumes "don \<le> len"
  shows "read_loop off len don f m = map (byte_at f m) [off + don..<off + len]"
  using assms
proof (induction off len don f m rule: read_loop.induct)
  case (1 off len don f m)
  show ?case
  proof (cases "don < len")
    case False
    then show ?thesis using "1.prems" by (subst read_loop.simps) simp
  next
    case True
    define pos where "pos = off + don"
    define chunk where "chunk = min (len - don) (4096 - pos mod 4096)"
    let ?bs = "case page_at f (pos div 4096) of Some p \<Rightarrow> load_bytes (paddr p (pos mod 4096)) chunk m | None \<Rightarrow> replicate chunk 0"
    have c: "don + chunk \<le> len" "chunk \<le> 4096 - pos mod 4096" using True by (auto simp: chunk_def)
    have eq: "read_loop off len don f m = ?bs @ read_loop off len (don + chunk) f m"
      using True unfolding chunk_def pos_def by (subst read_loop.simps) (simp add: Let_def)
    have "?bs = map (byte_at f m) [pos..<pos + chunk]"
    proof (rule nth_equalityI)
      show len: "length ?bs = length (map (byte_at f m) [pos..<pos + chunk])"
        by (simp add: load_bytes_def split: option.split)
      fix i assume "i < length ?bs"
      then have i: "i < chunk" using len by simp
      have "(pos + i) div 4096 = pos div 4096" "(pos + i) mod 4096 = pos mod 4096 + i"
        by (rule page_split[OF i c(2)])+
      then show "?bs ! i = map (byte_at f m) [pos..<pos + chunk] ! i"
        using i by (simp add: byte_at_def load_bytes_page split: option.split)
    qed
    moreover have "read_loop off len (don + chunk) f m = map (byte_at f m) [off + (don + chunk)..<off + len]"
      using "1.IH"[OF True refl refl refl refl refl, folded pos_def, folded chunk_def] c(1) by simp
    ultimately have "read_loop off len don f m = map (byte_at f m) ([off + don..<off + (don + chunk)] @ [off + (don + chunk)..<off + len])"
      unfolding eq by (simp add: pos_def add.assoc)
    also have "[off + don..<off + (don + chunk)] @ [off + (don + chunk)..<off + len] = [off + don..<off + len]"
      using c(1) upt_add_eq_append[of "off + don" "off + (don + chunk)" "len - (don + chunk)"] by simp
    finally show ?thesis .
  qed
qed

lemma same_page_iff:
  assumes "chunk \<le> 4096 - pos mod (4096::nat)"
  shows "q div 4096 = pos div 4096 \<and> pos mod 4096 \<le> q mod 4096 \<and> q mod 4096 < pos mod 4096 + chunk \<longleftrightarrow>
    pos \<le> q \<and> q < pos + chunk"
proof
  assume a: "q div 4096 = pos div 4096 \<and> pos mod 4096 \<le> q mod 4096 \<and> q mod 4096 < pos mod 4096 + chunk"
  have "q = q div 4096 * 4096 + q mod 4096" "pos = pos div 4096 * 4096 + pos mod 4096" by simp_all
  then show "pos \<le> q \<and> q < pos + chunk" using a by linarith
next
  assume a: "pos \<le> q \<and> q < pos + chunk"
  then obtain i where "q = pos + i" "i < chunk" by (metis le_iff_add nat_add_left_cancel_less)
  then show "q div 4096 = pos div 4096 \<and> pos mod 4096 \<le> q mod 4096 \<and> q mod 4096 < pos mod 4096 + chunk"
    using page_split[OF _ assms] by simp
qed

text \<open>Storing a chunk in the page of a position, seen through \<open>byte_at\<close>.\<close>

lemma byte_at_store:
  assumes inv: "file_inv f s" and p: "page_at f (pos div 4096) = Some p"
    and c: "length bs \<le> 4096 - pos mod 4096"
  shows "byte_at f (store_bytes (paddr p (pos mod 4096)) bs (kmem s)) q =
    (if pos \<le> q \<and> q < pos + length bs then bs ! (q - pos) else byte_at f (kmem s) q)"
proof (cases "page_at f (q div 4096)")
  case None
  then have "\<not> (pos \<le> q \<and> q < pos + length bs)" using p same_page_iff[OF c, of q] by auto
  then show ?thesis using None by (auto simp: byte_at_def)
next
  case (Some r)
  have lim: "p < PFN_LIMIT" "r < PFN_LIMIT" using file_pfn[OF inv] p Some by blast+
  have "r = p \<longleftrightarrow> q div 4096 = pos div 4096" using inv p Some unfolding file_inv_def by (metis option.inject)
  moreover have "pos mod 4096 + length bs \<le> 4096" using c by (metis le_diff_conv2 mod_le_divisor zero_less_numeral add.commute)
  ultimately have "byte_at f (store_bytes (paddr p (pos mod 4096)) bs (kmem s)) q =
      (if q div 4096 = pos div 4096 \<and> pos mod 4096 \<le> q mod 4096 \<and> q mod 4096 < pos mod 4096 + length bs
       then bs ! (q mod 4096 - pos mod 4096) else byte_at f (kmem s) q)"
    using store_bytes_page[OF lim, of "q mod 4096" "pos mod 4096" bs "kmem s"] by (simp add: byte_at_def Some)
  moreover have "q mod 4096 - pos mod 4096 = q - pos" if "pos \<le> q" "q < pos + length bs"
    using page_split(2)[OF _ c, of "q - pos"] that by simp
  ultimately show ?thesis using same_page_iff[OF c, of q] by auto
qed

text \<open>A fresh zeroed page fills a hole without changing any byte of the file.\<close>

lemma fill_hole:
  assumes inv: "file_inv f s" and hole: "page_at f idx = None" and idx: "idx < length (t_pages f)"
    and al: "alloc_pages 0 GFP_ZERO s = (Some p, s')"
  defines "f' \<equiv> f\<lparr>t_pages := (t_pages f)[idx := Some p]\<rparr>"
  shows "file_inv f' s'" "byte_at f' (kmem s') = byte_at f (kmem s)" "page_at f' idx = Some p"
    "free_frames s' = free_frames s - {p}"
proof -
  have pi: "pmm_inv s" using inv by (simp add: file_inv_def)
  note t = alloc_pages_took(1)[OF pi al]
  have t1: "pmm_inv s'" "allocated s' p 0" "p \<in> free_frames s" "free_frames s' = free_frames s - {p}"
    using t by (simp_all add: took_def)
  then show "free_frames s' = free_frames s - {p}" by simp
  have at: "page_at f' i = (if i = idx then Some p else page_at f i)" for i
    using idx by (simp add: page_at_def f'_def)
  then show "page_at f' idx = Some p" by simp
  have other: "q \<noteq> p" "allocated s' q 0" if "page_at f i = Some q" for i q
  proof -
    have "allocated s q 0" using inv that by (simp add: file_inv_def)
    then show "q \<noteq> p" using t1(3) by (auto simp: allocated_def)
    show "allocated s' q 0" using \<open>allocated s q 0\<close> by (rule took_keeps[OF t])
  qed
  show "file_inv f' s'" unfolding file_inv_def at using t1 inv other
    by (auto simp: file_inv_def split: if_splits)
  have plim: "p < PFN_LIMIT" using allocated_pfn[OF t1(1,2)] .
  have mem: "kmem s' (paddr q j) = (if q = p then 0 else kmem s (paddr q j))" if "q < PFN_LIMIT" "j < 4096" for q j
    using t memset_page[OF plim that, of 0 4096 0 "kmem s"] that(2) by (simp add: took_def paddr_def)
  show "byte_at f' (kmem s') = byte_at f (kmem s)"
  proof
    fix pos show "byte_at f' (kmem s') pos = byte_at f (kmem s) pos"
      using mem[of _ "pos mod 4096"] plim hole other(1) file_pfn[OF inv]
      by (auto simp: byte_at_def at split: option.split)
  qed
qed

lemma store_keeps_inv: "file_inv f s \<Longrightarrow> file_inv f (s\<lparr>kmem := m\<rparr>)"
  by (simp add: file_inv_def pmm_inv_def zone_inv_def allocated_def in_zone_def free_frames_def)

text \<open>
  The write loop: it writes a prefix of the data, changes no other byte of the file, and stops before
  the end only when the allocator is out of memory.
\<close>

lemma write_loop_ok:
  assumes "file_inv f s" and "don \<le> length data" and "off + length data \<le> length (t_pages f) * 4096"
    and "write_loop data off don f s = (n, f', s')"
  shows "file_inv f' s' \<and> don \<le> n \<and> n \<le> length data \<and> t_size f' = t_size f \<and>
    length (t_pages f') = length (t_pages f) \<and>
    (\<forall>q. byte_at f' (kmem s') q = (if off + don \<le> q \<and> q < off + n then data ! (q - off) else byte_at f (kmem s) q)) \<and>
    (n < length data \<longrightarrow> fst (alloc_pages 0 GFP_ZERO s') = None)"
  using assms
proof (induction data off don f s rule: write_loop.induct)
  case (1 data off don f s)
  show ?case
  proof (cases "don < length data")
    case False
    then show ?thesis using "1.prems" by (subst (asm) write_loop.simps) auto
  next
    case True
    define pos where "pos = off + don"
    define idx where "idx = pos div 4096"
    define chunk where "chunk = min (length data - don) (4096 - pos mod 4096)"
    define bs where "bs = take chunk (drop don data)"
    have idx: "idx < length (t_pages f)"
      using True "1.prems"(3) unfolding idx_def pos_def by (simp add: less_mult_imp_div_less)
    have c: "don + chunk \<le> length data" "chunk \<le> 4096 - pos mod 4096" "length bs = chunk"
      using True by (auto simp: chunk_def bs_def)
    have step: ?thesis
      if f1: "file_inv f1 s1" "byte_at f1 (kmem s1) = byte_at f (kmem s)" "page_at f1 idx = Some p"
        "t_size f1 = t_size f" "length (t_pages f1) = length (t_pages f)"
        and run: "write_loop data off (don + chunk) f1 (s1\<lparr>kmem := store_bytes (paddr p (pos mod 4096)) bs (kmem s1)\<rparr>) = (n, f', s')"
        and IH: "\<And>f2 s2. f2 = f1 \<Longrightarrow> s2 = s1\<lparr>kmem := store_bytes (paddr p (pos mod 4096)) bs (kmem s1)\<rparr> \<Longrightarrow>
          file_inv f2 s2 \<Longrightarrow> don + chunk \<le> length data \<Longrightarrow> off + length data \<le> length (t_pages f2) * 4096 \<Longrightarrow>
          write_loop data off (don + chunk) f2 s2 = (n, f', s') \<Longrightarrow>
          file_inv f' s' \<and> don + chunk \<le> n \<and> n \<le> length data \<and> t_size f' = t_size f2 \<and>
          length (t_pages f') = length (t_pages f2) \<and>
          (\<forall>q. byte_at f' (kmem s') q = (if off + (don + chunk) \<le> q \<and> q < off + n then data ! (q - off) else byte_at f2 (kmem s2) q)) \<and>
          (n < length data \<longrightarrow> fst (alloc_pages 0 GFP_ZERO s') = None)" for f1 s1 p
    proof -
      have "byte_at f1 (store_bytes (paddr p (pos mod 4096)) bs (kmem s1)) q =
          (if pos \<le> q \<and> q < pos + chunk then data ! (q - off) else byte_at f (kmem s) q)" for q
        using byte_at_store[OF f1(1), of pos p bs q] f1(2,3) c(2,3) True
        by (auto simp: idx_def bs_def pos_def)
      then show ?thesis
        using IH[OF refl refl store_keeps_inv[OF f1(1)] c(1) _ run] "1.prems"(3) f1(4,5)
        by (auto simp: pos_def)
    qed
    show ?thesis
    proof (cases "t_pages f ! idx")
      case (Some p)
      have run: "write_loop data off (don + chunk) f (s\<lparr>kmem := store_bytes (paddr p (pos mod 4096)) bs (kmem s)\<rparr>) = (n, f', s')"
        using "1.prems"(4) True Some by (subst (asm) write_loop.simps) (simp add: Let_def pos_def idx_def chunk_def bs_def)
      show ?thesis
        by (rule step[OF "1.prems"(1) refl _ refl refl run])
          (use 1(2)[OF True refl refl refl refl, folded pos_def, folded idx_def chunk_def, OF Some, folded bs_def] Some idx
            in \<open>auto simp: page_at_def\<close>)
    next
      case None
      then have hole: "page_at f idx = None" using idx by (simp add: page_at_def)
      obtain r s1 where al: "alloc_pages 0 GFP_ZERO s = (r, s1)" by (cases "alloc_pages 0 GFP_ZERO s")
      show ?thesis
      proof (cases r)
        case n: None
        then have s1: "s1 = s" using alloc_pages_None(1) al "1.prems"(1) by (auto simp: file_inv_def)
        have "(n, f', s') = (don, f, s)"
          using "1.prems"(4) True None al n s1
          by (subst (asm) write_loop.simps) (simp add: Let_def pos_def[symmetric] idx_def[symmetric])
        then show ?thesis using "1.prems" True al n by auto
      next
        case (Some p)
        note fh = fill_hole[OF "1.prems"(1) hole idx al[unfolded Some]]
        have run: "write_loop data off (don + chunk) (f\<lparr>t_pages := (t_pages f)[idx := Some p]\<rparr>)
            (s1\<lparr>kmem := store_bytes (paddr p (pos mod 4096)) bs (kmem s1)\<rparr>) = (n, f', s')"
          using "1.prems"(4) True None al Some
          by (subst (asm) write_loop.simps)
            (simp add: Let_def pos_def[symmetric] idx_def[symmetric] chunk_def[symmetric] bs_def[symmetric])
        show ?thesis
          by (rule step[OF fh(1,2,3) _ _ run])
            (use 1(1)[OF True refl refl refl refl, folded pos_def, folded idx_def chunk_def, OF None al[symmetric] Some, folded bs_def]
              in auto)
      qed
    qed
  qed
qed

lemma grow_cap_ge: "0 < cap \<Longrightarrow> need \<le> grow_cap cap need \<and> cap \<le> grow_cap cap need"
proof (induction cap need rule: grow_cap.induct)
  case (1 cap need)
  then show ?case by (subst (1 2) grow_cap.simps) fastforce
qed

lemma ensure_cap_ok:
  assumes "ensure_cap ok need f = Inr f'"
  shows "need \<le> length (t_pages f')" "page_at f' = page_at f" "t_size f' = t_size f"
proof -
  have "0 < (if t_pages f = [] then 4 else length (t_pages f))" by simp
  note g = grow_cap_ge[OF this, of need]
  show "t_size f' = t_size f" using assms by (auto simp: ensure_cap_def Let_def split: if_splits)
  show "need \<le> length (t_pages f')" "page_at f' = page_at f"
    using assms g by (auto simp: ensure_cap_def Let_def page_at_def nth_append fun_eq_iff split: if_splits)
qed

lemma file_inv_pages: "page_at f' = page_at f \<Longrightarrow> file_inv f s \<Longrightarrow> file_inv f' s"
  by (simp add: file_inv_def)

text \<open>The arithmetic of the size check: no wrap-around behind the guard.\<close>

lemma write_guard:
  fixes off :: u64
  assumes "length data < 2 ^ 64" and "\<not> off + of_nat (length data) < off" and "\<not> off + of_nat (length data) > TMPFS_MAX"
  shows "unat off + length data \<le> 2 ^ 36" "unat ((off + of_nat (length data) + PAGE_SIZE - 1) div PAGE_SIZE) =
      (unat off + length data + 4095) div 4096"
proof -
  have l: "unat (of_nat (length data) :: u64) = length data" using assms(1) by (simp add: unat_of_nat)
  have nw: "unat off + length data < 2 ^ 64"
    using assms(2) word_overflow_iff[of off "of_nat (length data)"] l by linarith
  then have u: "unat (off + of_nat (length data)) = unat off + length data"
    using unat_add_no_wrap[of off "of_nat (length data)"] l by simp
  then show le: "unat off + length data \<le> 2 ^ 36" using assms(3) by (simp add: word_less_nat_alt)
  have "off + of_nat (length data) + PAGE_SIZE - 1 = off + of_nat (length data) + 4095" by simp
  moreover have "unat (off + of_nat (length data) + 4095) = unat off + length data + 4095"
    using le by (subst unat_add_no_wrap) (simp_all add: u)
  ultimately have "unat (off + of_nat (length data) + PAGE_SIZE - 1) = unat off + length data + 4095" by (simp only:)
  then show "unat ((off + of_nat (length data) + PAGE_SIZE - 1) div PAGE_SIZE) = (unat off + length data + 4095) div 4096"
    by (simp only: unat_div) simp
qed

lemma page_ceiling: "x \<le> (x + 4095) div 4096 * (4096::nat)"
proof -
  have "(x + 4095) div 4096 * 4096 + (x + 4095) mod 4096 = x + 4095" "(x + 4095) mod 4096 < 4096" by simp_all
  then show ?thesis by linarith
qed

lemma tmpfs_write_ok:
  assumes inv: "file_inv f s" and len: "length data < 2 ^ 64"
    and r: "tmpfs_write ok data off f s = (Inr n, f', s')"
  shows "file_inv f' s' \<and> 0 < n \<and> n \<le> length data \<and> unat off + n \<le> 2 ^ 36 \<and>
    unat (t_size f') = max (unat (t_size f)) (unat off + n) \<and>
    (\<forall>q. byte_at f' (kmem s') q = (if unat off \<le> q \<and> q < unat off + n then data ! (q - unat off) else byte_at f (kmem s) q)) \<and>
    (n < length data \<longrightarrow> fst (alloc_pages 0 GFP_ZERO s') = None)"
proof -
  have g: "\<not> off + of_nat (length data) < off" "\<not> off + of_nat (length data) > TMPFS_MAX"
    using r by (auto simp: tmpfs_write_def Let_def split: if_splits)
  note wg = write_guard[OF len g]
  obtain f1 where f1: "ensure_cap ok ((unat off + length data + 4095) div 4096) f = Inr f1"
    using r g unfolding tmpfs_write_def Let_def wg(2) by (auto split: sum.splits)
  note ec = ensure_cap_ok[OF f1]
  obtain f2 s2 where w: "write_loop data (unat off) 0 f1 s = (n, f2, s2)" and n: "0 < n" and s2: "s' = s2"
    and f': "f' = (if off + of_nat n > t_size f2 then f2\<lparr>t_size := off + of_nat n\<rparr> else f2)"
    using r g f1 unfolding tmpfs_write_def Let_def wg(2) by (auto split: prod.splits if_splits)
  have cap: "unat off + length data \<le> length (t_pages f1) * 4096"
  proof -
    have "unat off + length data \<le> (unat off + length data + 4095) div 4096 * 4096" by (rule page_ceiling)
    also have "\<dots> \<le> length (t_pages f1) * 4096" using ec(1) by (rule mult_le_mono1)
    finally show ?thesis .
  qed
  note wl = write_loop_ok[OF file_inv_pages[OF ec(2) inv] le0 cap w]
  have ba: "byte_at f' = byte_at f2" "byte_at f1 = byte_at f"
    using ec(2) by (simp_all add: byte_at_def fun_eq_iff f' page_at_def)
  have "unat (off + of_nat n) = unat off + n"
    using wl wg(1) len by (subst unat_add_no_wrap) (simp_all add: unat_of_nat)
  then have "unat (t_size f') = max (unat (t_size f)) (unat off + n)"
    using wl ec(3) by (auto simp: f' word_less_nat_alt max_def)
  moreover have "file_inv f' s'"
    by (rule file_inv_pages[of _ f2]) (use wl in \<open>simp_all add: f' s2 page_at_def fun_eq_iff\<close>)
  ultimately show ?thesis using wl n wg(1) unfolding ba s2 by auto
qed

section \<open>Releasing pages\<close>

lemma drop_page:
  assumes inv: "file_inv f s" and p: "page_at f i = Some p"
  shows "\<exists>s'. free_pages p 0 s = Inr s' \<and> file_inv (f\<lparr>t_pages := (t_pages f)[i := None]\<rparr>) s' \<and>
    free_frames s' = insert p (free_frames s) \<and> kmem s' = kmem s"
proof -
  have pi: "pmm_inv s" "allocated s p 0" using inv p by (simp_all add: file_inv_def)
  obtain s' where s': "free_pages p 0 s = Inr s'" "gave p 0 s s'" using free_pages_gave[OF pi] by blast
  have i: "i < length (t_pages f)" using p by (simp add: page_at_def split: if_splits)
  have at: "page_at (f\<lparr>t_pages := (t_pages f)[i := None]\<rparr>) j = (if j = i then None else page_at f j)" for j
    using i by (simp add: page_at_def)
  have "allocated s' q 0" if "page_at f j = Some q" "j \<noteq> i" for j q
  proof (rule gave_keeps[OF s'(2)])
    show "allocated s q 0" using inv that by (simp add: file_inv_def)
    show "block q 0 \<inter> block p 0 = {}" using inv p that by (auto simp: file_inv_def)
  qed
  then have "file_inv (f\<lparr>t_pages := (t_pages f)[i := None]\<rparr>) s'"
    using inv s'(2) unfolding file_inv_def at by (auto simp: gave_def split: if_splits)
  then show ?thesis using s' by (auto simp: gave_def)
qed

lemma free_pages_from_ok:
  assumes "file_inv f s" and "i + n \<le> length (t_pages f)"
  shows "\<exists>f' s'. free_pages_from i n f s = Inr (f', s') \<and> file_inv f' s' \<and> kmem s' = kmem s \<and>
    length (t_pages f') = length (t_pages f) \<and> t_size f' = t_size f \<and>
    page_at f' = (\<lambda>j. if i \<le> j \<and> j < i + n then None else page_at f j) \<and>
    free_frames s' = free_frames s \<union> {p. \<exists>j. i \<le> j \<and> j < i + n \<and> page_at f j = Some p}"
  using assms
proof (induction n arbitrary: i f s)
  case 0
  then show ?case by (auto simp: fun_eq_iff)
next
  case (Suc n)
  have i: "i < length (t_pages f)" using Suc.prems(2) by simp
  then have at: "page_at f i = t_pages f ! i" by (simp add: page_at_def)
  show ?case
  proof (cases "t_pages f ! i")
    case None
    obtain f' s' where r: "free_pages_from (Suc i) n f s = Inr (f', s')" "file_inv f' s'" "kmem s' = kmem s"
      "length (t_pages f') = length (t_pages f)" "t_size f' = t_size f"
      "page_at f' = (\<lambda>j. if Suc i \<le> j \<and> j < Suc i + n then None else page_at f j)"
      "free_frames s' = free_frames s \<union> {p. \<exists>j. Suc i \<le> j \<and> j < Suc i + n \<and> page_at f j = Some p}"
      using Suc.IH[OF Suc.prems(1), of "Suc i"] Suc.prems(2) by auto
    have "(if Suc i \<le> j \<and> j < Suc i + n then None else page_at f j) =
        (if i \<le> j \<and> j < i + Suc n then None else page_at f j)" for j
      using None at by (cases "j = i") auto
    moreover have "(\<exists>j. Suc i \<le> j \<and> j < Suc i + n \<and> page_at f j = Some p) \<longleftrightarrow>
        (\<exists>j. i \<le> j \<and> j < i + Suc n \<and> page_at f j = Some p)" for p
    proof
      assume "\<exists>j. i \<le> j \<and> j < i + Suc n \<and> page_at f j = Some p"
      then obtain j where j: "i \<le> j" "j < i + Suc n" "page_at f j = Some p" by blast
      then have "j \<noteq> i" using None at by auto
      with j have "Suc i \<le> j \<and> j < Suc i + n \<and> page_at f j = Some p" by simp
      then show "\<exists>j. Suc i \<le> j \<and> j < Suc i + n \<and> page_at f j = Some p" by blast
    qed (auto dest: Suc_leD)
    ultimately show ?thesis using r None by simp
  next
    case (Some p)
    let ?f1 = "f\<lparr>t_pages := (t_pages f)[i := None]\<rparr>"
    obtain s1 where s1: "free_pages p 0 s = Inr s1" "file_inv ?f1 s1" "free_frames s1 = insert p (free_frames s)" "kmem s1 = kmem s"
      using drop_page[OF Suc.prems(1), of i p] at Some by auto
    have at1: "page_at ?f1 j = (if j = i then None else page_at f j)" for j using i by (simp add: page_at_def)
    obtain f' s' where r: "free_pages_from (Suc i) n ?f1 s1 = Inr (f', s')" "file_inv f' s'" "kmem s' = kmem s1"
      "length (t_pages f') = length (t_pages f)" "t_size f' = t_size f"
      "page_at f' = (\<lambda>j. if Suc i \<le> j \<and> j < Suc i + n then None else page_at ?f1 j)"
      "free_frames s' = free_frames s1 \<union> {p. \<exists>j. Suc i \<le> j \<and> j < Suc i + n \<and> page_at ?f1 j = Some p}"
      using Suc.IH[OF s1(2), of "Suc i"] Suc.prems(2) by auto
    have "page_at f' = (\<lambda>j. if i \<le> j \<and> j < i + Suc n then None else page_at f j)"
      unfolding r(6) at1 by (rule ext) auto
    moreover have "free_frames s' = free_frames s \<union> {p. \<exists>j. i \<le> j \<and> j < i + Suc n \<and> page_at f j = Some p}"
    proof -
      have "(\<exists>j. i \<le> j \<and> j < i + Suc n \<and> page_at f j = Some q) \<longleftrightarrow>
          q = p \<or> (\<exists>j. Suc i \<le> j \<and> j < Suc i + n \<and> page_at ?f1 j = Some q)" for q
        unfolding at1 using Some at by (auto simp: Suc_le_eq) (metis order_le_less option.inject)+
      then show ?thesis unfolding r(7) s1(3) by auto
    qed
    ultimately show ?thesis using r s1 Some by simp
  qed
qed

lemma page_at_size [simp]: "page_at (f\<lparr>t_size := x\<rparr>) = page_at f"
  by (simp add: page_at_def fun_eq_iff)

lemma byte_at_size [simp]: "byte_at (f\<lparr>t_size := x\<rparr>) = byte_at f"
  by (simp add: byte_at_def fun_eq_iff)

lemma unat_page_parts: "unat (x div PAGE_SIZE) = unat x div 4096" "unat (x mod PAGE_SIZE) = unat x mod 4096"
  by (simp_all add: unat_div unat_mod)

text \<open>Zeroing the rest of the last page, seen through \<open>byte_at\<close>.\<close>

lemma byte_at_zero_rest:
  assumes inv: "file_inv f s" and p: "page_at f (sz div 4096) = Some p" and gone: "\<And>j. (sz + 4095) div 4096 \<le> j \<Longrightarrow> page_at f j = None"
  shows "byte_at f (memset (paddr p (sz mod 4096)) 0 (4096 - sz mod 4096) (kmem s)) q =
    (if q < sz then byte_at f (kmem s) q else 0)"
proof (cases "page_at f (q div 4096)")
  case None
  then have "q < sz \<longrightarrow> byte_at f (kmem s) q = 0" by (simp add: byte_at_def)
  then show ?thesis using None by (auto simp: byte_at_def)
next
  case (Some r)
  have lim: "p < PFN_LIMIT" "r < PFN_LIMIT" using file_pfn[OF inv] p Some by blast+
  have same: "r = p \<longleftrightarrow> q div 4096 = sz div 4096" using inv p Some unfolding file_inv_def by (metis option.inject)
  have "\<not> (sz + 4095) div 4096 \<le> q div 4096" using gone[of "q div 4096"] Some by auto
  then have le: "q div 4096 \<le> sz div 4096" by (simp add: not_le)
  have dm: "q = q div 4096 * 4096 + q mod 4096" "sz = sz div 4096 * 4096 + sz mod 4096"
    "q mod 4096 < 4096" "sz mod 4096 < 4096" by simp_all
  have "q < sz \<longleftrightarrow> \<not> (q div 4096 = sz div 4096 \<and> sz mod 4096 \<le> q mod 4096)"
  proof (cases "q div 4096 = sz div 4096")
    case True
    then show ?thesis using dm by linarith
  next
    case False
    then have "q div 4096 + 1 \<le> sz div 4096" using le by linarith
    then have "q div 4096 * 4096 + 4096 \<le> sz div 4096 * 4096" by linarith
    then show ?thesis using dm False by linarith
  qed
  then show ?thesis
    using memset_page[OF lim, of "q mod 4096" "sz mod 4096" "4096 - sz mod 4096" 0 "kmem s"] same Some
    by (auto simp: byte_at_def)
qed

lemma tmpfs_truncate_ok:
  assumes inv: "file_inv f s" and z: "zero_tail f (kmem s)" and sz: "unat sz \<le> 2 ^ 64 - 4096"
  shows "\<exists>f' s'. tmpfs_truncate sz f s = Inr (f', s') \<and> file_inv f' s' \<and> zero_tail f' (kmem s') \<and> t_size f' = sz \<and>
    (\<forall>q. byte_at f' (kmem s') q = (if q < unat sz then byte_at f (kmem s) q else 0))"
proof (cases "sz < t_size f")
  case False
  then have "unat (t_size f) \<le> unat sz" by (simp add: word_less_nat_alt)
  then have "byte_at f (kmem s) q = (if q < unat sz then byte_at f (kmem s) q else 0)" for q
    using z by (auto simp: zero_tail_def)
  moreover have "byte_at f (kmem s) q = 0" if "unat sz \<le> q" for q
    using z that \<open>unat (t_size f) \<le> unat sz\<close> by (auto simp: zero_tail_def)
  ultimately show ?thesis
    using False inv file_inv_pages[of "f\<lparr>t_size := sz\<rparr>" f s] by (simp add: tmpfs_truncate_def zero_tail_def)
next
  case True
  have "sz + PAGE_SIZE - 1 = sz + 4095" by simp
  moreover have "unat (sz + 4095) = unat sz + 4095" using sz by (subst unat_add_no_wrap) simp_all
  ultimately have first: "unat ((sz + PAGE_SIZE - 1) div PAGE_SIZE) = (unat sz + 4095) div 4096"
    by (simp only: unat_page_parts)
  let ?fst = "(unat sz + 4095) div 4096"
  have "\<exists>f1 s1. free_pages_from ?fst (length (t_pages f) - ?fst) f s = Inr (f1, s1) \<and> file_inv f1 s1 \<and>
      kmem s1 = kmem s \<and> page_at f1 = (\<lambda>j. if ?fst \<le> j then None else page_at f j)"
  proof (cases "?fst \<le> length (t_pages f)")
    case True
    then have "?fst + (length (t_pages f) - ?fst) \<le> length (t_pages f)" by simp
    from free_pages_from_ok[OF inv this] obtain f1 s1 where
      1: "free_pages_from ?fst (length (t_pages f) - ?fst) f s = Inr (f1, s1)" "file_inv f1 s1" "kmem s1 = kmem s"
        "page_at f1 = (\<lambda>j. if ?fst \<le> j \<and> j < ?fst + (length (t_pages f) - ?fst) then None else page_at f j)"
      by blast
    have "(\<lambda>j. if ?fst \<le> j \<and> j < ?fst + (length (t_pages f) - ?fst) then None else page_at f j) =
        (\<lambda>j. if ?fst \<le> j then None else page_at f j)"
      using True by (simp add: page_at_def fun_eq_iff)
    with 1 show ?thesis by metis
  next
    case False
    then show ?thesis using inv by (auto simp: fun_eq_iff page_at_def)
  qed
  then obtain f1 s1 where r: "free_pages_from ?fst (length (t_pages f) - ?fst) f s = Inr (f1, s1)" "file_inv f1 s1"
      "kmem s1 = kmem s" "page_at f1 = (\<lambda>j. if ?fst \<le> j then None else page_at f j)" by blast
  have b1: "byte_at f1 (kmem s) q = byte_at f (kmem s) q" if "q < unat sz" for q
  proof -
    have "q div 4096 < ?fst" using that page_ceiling[of "unat sz"] by (intro less_mult_imp_div_less) linarith
    then show ?thesis by (simp add: byte_at_def r(4))
  qed
  let ?idx = "unat sz div 4096" and ?r = "unat sz mod 4096"
  define s2 where "s2 = (case page_at f1 ?idx of
      Some p \<Rightarrow> if ?r \<noteq> 0 then s1\<lparr>kmem := memset (paddr p ?r) 0 (4096 - ?r) (kmem s1)\<rparr> else s1 | None \<Rightarrow> s1)"
  have eq: "tmpfs_truncate sz f s = Inr (f1\<lparr>t_size := sz\<rparr>, s2)"
    using True unfolding tmpfs_truncate_def Let_def first unfolding unat_page_parts by (simp add: r(1) s2_def)
  have inv2: "file_inv f1 s2" using r(2) store_keeps_inv[OF r(2)] by (auto simp: s2_def split: option.split)
  have byt: "byte_at f1 (kmem s2) q = (if q < unat sz then byte_at f (kmem s) q else 0)" for q
  proof (cases "page_at f1 ?idx")
    case None
    then have hole: "?fst \<le> ?idx \<or> page_at f ?idx = None" by (simp add: r(4) split: if_splits)
    have "byte_at f1 (kmem s) q = 0" if "unat sz \<le> q"
    proof -
      have "?idx \<le> q div 4096" using that by (rule div_le_mono)
      then have "page_at f1 (q div 4096) = None"
        using None by (cases "q div 4096 = ?idx") (auto simp: r(4))
      then show ?thesis by (simp add: byte_at_def)
    qed
    then show ?thesis using b1 None by (auto simp: s2_def r(3) not_less)
  next
    case (Some p)
    then have "?idx < ?fst" by (simp add: r(4) split: if_splits)
    have gone: "\<And>j. ?fst \<le> j \<Longrightarrow> page_at f1 j = None" by (simp add: r(4))
    have nz: "?r \<noteq> 0"
    proof
      assume "?r = 0"
      then have "unat sz = ?idx * 4096" by (simp add: mod_eq_0_iff_dvd)
      then have "?fst = (?idx * 4096 + 4095) div 4096" by simp
      then show False using \<open>?idx < ?fst\<close> by simp
    qed
    have "byte_at f1 (kmem s2) q = (if q < unat sz then byte_at f1 (kmem s1) q else 0)"
      using byte_at_zero_rest[OF r(2) Some gone, of q] nz by (simp add: s2_def Some)
    then show ?thesis using b1 by (simp add: r(3))
  qed
  show ?thesis using eq byt file_inv_pages[of "f1\<lparr>t_size := sz\<rparr>" f1, OF _ inv2] by (simp add: zero_tail_def)
qed

section \<open>Properties\<close>

lemma tmpfs_read_bytes:
  "tmpfs_read len off f m =
     (if off \<ge> t_size f then [] else map (byte_at f m) [unat off..<unat off + min len (unat (t_size f - off))])"
  by (simp add: tmpfs_read_def read_loop_bytes)

text \<open>
  C31. Read after write on a sparse file. A write that returns \<open>n\<close> has stored exactly the first \<open>n\<close>
  bytes of the buffer at the offset: reading them back returns them, every other byte of the file is
  as before, the file size is the larger of the old size and the end of the write, and the bytes beyond
  the new end still read as zero (so a later extension shows zeros). The write is short only when the
  page allocator is out of frames.
\<close>

theorem tmpfs_write_read:
  assumes inv: "file_inv f s" and z: "zero_tail f (kmem s)" and len: "length data < 2 ^ 64"
    and r: "tmpfs_write ok data off f s = (Inr n, f', s')"
  shows "tmpfs_read n off f' (kmem s') = take n data \<and>
    file_inv f' s' \<and> zero_tail f' (kmem s') \<and>
    unat (t_size f') = max (unat (t_size f)) (unat off + n) \<and> n \<le> length data \<and>
    (\<forall>q. q < unat off \<or> unat off + n \<le> q \<longrightarrow> byte_at f' (kmem s') q = byte_at f (kmem s) q) \<and>
    (n < length data \<longrightarrow> fst (alloc_pages 0 GFP_ZERO s') = None)"
proof -
  note w = tmpfs_write_ok[OF inv len r]
  have "off < t_size f'" using w by (auto simp: word_less_nat_alt less_max_iff_disj)
  then have "unat (t_size f' - off) = unat (t_size f') - unat off" by (simp add: unat_sub word_le_less_eq)
  then have "tmpfs_read n off f' (kmem s') = map (byte_at f' (kmem s')) [unat off..<unat off + n]"
    using w \<open>off < t_size f'\<close> by (simp add: tmpfs_read_bytes not_le)
  also have "\<dots> = take n data"
    by (rule nth_equalityI) (use w in auto)
  finally show ?thesis using w z by (auto simp: zero_tail_def)
qed

text \<open>
  \<^verbatim>\<open>tmpfs_truncate\<close> to any size that is at least a page away from \<open>2 ^ 64\<close> never panics, keeps
  every byte below the new size, makes everything beyond read as zero and keeps the page ownership
  of the file.
\<close>

theorem tmpfs_truncate_correct:
  assumes "file_inv f s" and "zero_tail f (kmem s)" and "unat sz \<le> 2 ^ 64 - 4096"
  shows "\<exists>f' s'. tmpfs_truncate sz f s = Inr (f', s') \<and> file_inv f' s' \<and> zero_tail f' (kmem s') \<and> t_size f' = sz \<and>
    (\<forall>q. byte_at f' (kmem s') q = (if q < unat sz then byte_at f (kmem s) q else 0))"
  by (rule tmpfs_truncate_ok[OF assms])

text \<open>
  Rounding the new size up to pages wraps around for sizes in the last page below \<open>2 ^ 64\<close>: shrinking
  a (huge, sparse) file to such a size frees all of its pages, and every byte of the file reads as
  zero afterwards although it lies below the new size.
\<close>

theorem tmpfs_truncate_wraps:
  assumes inv: "file_inv f s" and sz: "2 ^ 64 - 4095 \<le> unat sz" "sz < t_size f"
  shows "\<exists>f' s'. tmpfs_truncate sz f s = Inr (f', s') \<and> t_size f' = sz \<and> (\<forall>q. byte_at f' (kmem s') q = 0)"
proof -
  have "unat (sz + PAGE_SIZE - 1) = unat sz + 4095 - 2 ^ 64"
  proof -
    have "sz + PAGE_SIZE - 1 = sz + 4095" by simp
    then have "unat (sz + PAGE_SIZE - 1) = (unat sz + 4095) mod 2 ^ 64" by (simp only: unat_word_ariths) simp
    then show ?thesis using sz(1) unat_lt_64[of sz] by (simp add: mod_if)
  qed
  moreover have "unat sz + 4095 - 2 ^ 64 < 4096" using unat_lt_64[of sz] by linarith
  ultimately have first: "unat ((sz + PAGE_SIZE - 1) div PAGE_SIZE) = 0"
    unfolding unat_page_parts by simp
  obtain f1 s1 where r: "free_pages_from 0 (length (t_pages f)) f s = Inr (f1, s1)"
      "page_at f1 = (\<lambda>j. if j < length (t_pages f) then None else page_at f j)"
    using free_pages_from_ok[OF inv, of 0 "length (t_pages f)"] by auto
  have hole: "page_at f1 = (\<lambda>_. None)" unfolding r(2) by (rule ext) (simp add: page_at_def)
  have "tmpfs_truncate sz f s = Inr (f1\<lparr>t_size := sz\<rparr>, s1)"
    using sz(2) unfolding tmpfs_truncate_def Let_def first by (simp add: r(1) hole)
  then show ?thesis using hole by (simp add: byte_at_def)
qed

text \<open>
  A write beyond the end of the file that cannot get its first page reports \<^verbatim>\<open>-ENOSPC\<close> and writes
  nothing, but still extends the file to the offset of the write.
\<close>

theorem tmpfs_failed_write_extends:
  assumes inv: "file_inv f s" and len: "0 < length data" "length data < 2 ^ 64"
    and oom: "fst (alloc_pages 0 GFP_ZERO s) = None"
    and off: "t_size f < off" "unat off + length data \<le> 2 ^ 36" and hole: "page_at f (unat off div 4096) = None"
  shows "\<exists>f'. tmpfs_write True data off f s = (Inl ENOSPC, f', s) \<and> t_size f' = off \<and>
    (\<forall>q. byte_at f' (kmem s) q = byte_at f (kmem s) q)"
proof -
  have l: "unat (of_nat (length data) :: u64) = length data" using len by (simp add: unat_of_nat)
  have u: "unat (off + of_nat (length data)) = unat off + length data"
    using off(2) l by (subst unat_add_no_wrap) simp_all
  have g: "\<not> off + of_nat (length data) < off" "\<not> off + of_nat (length data) > TMPFS_MAX"
    using off(2) by (simp_all add: word_less_nat_alt u)
  note wg = write_guard[OF len(2) g]
  obtain f1 where f1: "ensure_cap True ((unat off + length data + 4095) div 4096) f = Inr f1"
    by (cases "ensure_cap True ((unat off + length data + 4095) div 4096) f") (auto simp: ensure_cap_def Let_def split: if_splits)
  note ec = ensure_cap_ok[OF f1]
  obtain s1 where al: "alloc_pages 0 GFP_ZERO s = (None, s1)" using oom by (cases "alloc_pages 0 GFP_ZERO s") auto
  have s1: "s1 = s" using alloc_pages_None(1)[OF _ al] inv by (simp add: file_inv_def)
  have "unat off div 4096 < length (t_pages f1)"
  proof -
    have "unat off < (unat off + length data + 4095) div 4096 * 4096" using page_ceiling[of "unat off + length data"] len(1) by linarith
    also have "\<dots> \<le> length (t_pages f1) * 4096" using ec(1) by (rule mult_le_mono1)
    finally show ?thesis by (rule less_mult_imp_div_less)
  qed
  moreover have "page_at f1 (unat off div 4096) = None" using ec(2) hole by simp
  ultimately have "t_pages f1 ! (unat off div 4096) = None" by (simp add: page_at_def)
  then have "write_loop data (unat off) 0 f1 s = (0, f1, s)"
    using len(1) al s1 by (subst write_loop.simps) (simp add: Let_def)
  then have "tmpfs_write True data off f s = (Inl ENOSPC, f1\<lparr>t_size := off\<rparr>, s)"
    using g f1 off(1) ec(3) unfolding tmpfs_write_def Let_def wg(2) by simp
  then show ?thesis using ec(2) by (simp add: byte_at_def)
qed

section \<open>Examples\<close>

abbreviation empty_file :: tfile where
  "empty_file \<equiv> \<lparr>t_size = 0, t_pages = []\<rparr>"

lemma empty_file_inv: "pmm_inv s \<Longrightarrow> file_inv empty_file s" "zero_tail empty_file m"
  by (simp_all add: file_inv_def zero_tail_def byte_at_def page_at_def)

lemma small_write:
  "\<exists>f' s'. tmpfs_write True [1, 2, 3] 5 empty_file small_pmm = (Inr 3, f', s')"
proof -
  have "runs_free small_pmm GFP_ZERO 0 16" by (simp add: small_pmm_inv runs_free_def)
  then obtain p s1 where al: "alloc_pages 0 GFP_ZERO small_pmm = (Some p, s1)"
    using alloc_pages_succeeds[OF small_pmm_inv(1), of 0 GFP_ZERO 16] by auto
  have "grow_cap 4 1 = 4" by (subst grow_cap.simps) simp
  then have ec: "ensure_cap True (Suc 0) empty_file = Inr (empty_file\<lparr>t_pages := replicate 4 None\<rparr>)"
    by (simp add: ensure_cap_def)
  have "write_loop [1, 2, 3] 5 (Suc (Suc (Suc 0))) f s = (3, f, s)" for f and s :: pmm
    by (subst write_loop.simps) simp
  then have "\<exists>f' s'. write_loop [1, 2, 3] 5 0 (empty_file\<lparr>t_pages := replicate 4 None\<rparr>) small_pmm = (3, f', s')"
    by (subst write_loop.simps) (simp add: Let_def al)
  then show ?thesis by (auto simp: tmpfs_write_def Let_def ec)
qed

theorem tmpfs_write_read_witness:
  "\<exists>f' s'. tmpfs_write True [1, 2, 3] 5 empty_file small_pmm = (Inr 3, f', s') \<and>
     tmpfs_read 3 5 f' (kmem s') = [1, 2, 3] \<and> unat (t_size f') = 8"
proof -
  obtain f' s' where r: "tmpfs_write True [1, 2, 3] 5 empty_file small_pmm = (Inr 3, f', s')" using small_write by blast
  have "length [1, 2, 3 :: u8] < 2 ^ 64" by simp
  from tmpfs_write_read[OF empty_file_inv(1)[OF small_pmm_inv(1)] empty_file_inv(2) this r] r show ?thesis by auto
qed

theorem tmpfs_truncate_correct_witness:
  "\<exists>f' s'. tmpfs_truncate 100 empty_file small_pmm = Inr (f', s') \<and> t_size f' = 100 \<and> byte_at f' (kmem s') 99 = 0"
proof -
  have "unat (100 :: u64) \<le> 2 ^ 64 - 4096" by simp
  from tmpfs_truncate_correct[OF empty_file_inv(1)[OF small_pmm_inv(1)] empty_file_inv(2) this]
  obtain f' s' where r: "tmpfs_truncate 100 empty_file small_pmm = Inr (f', s')" "t_size f' = 100"
    "\<forall>q. byte_at f' (kmem s') q = (if q < unat (100 :: u64) then byte_at empty_file (kmem small_pmm) q else 0)" by blast
  have "byte_at empty_file (kmem small_pmm) 99 = 0" by (simp add: byte_at_def page_at_def)
  then have "byte_at f' (kmem s') 99 = 0" using r(3)[rule_format, of 99] by simp
  then show ?thesis using r(1,2) by blast
qed

theorem tmpfs_truncate_wraps_witness:
  "\<exists>f (s :: pmm) f' s'. byte_at f (kmem s) 5 = 1 \<and> t_size f = - 1 \<and>
     tmpfs_truncate (- 2) f s = Inr (f', s') \<and> byte_at f' (kmem s') 5 = 0"
proof -
  obtain f s where r: "tmpfs_write True [1, 2, 3] 5 empty_file small_pmm = (Inr 3, f, s)" using small_write by blast
  have "length [1, 2, 3 :: u8] < 2 ^ 64" by simp
  note w = tmpfs_write_ok[OF empty_file_inv(1)[OF small_pmm_inv(1)] this r]
  let ?f = "f\<lparr>t_size := - 1\<rparr>"
  have "file_inv ?f s" using w file_inv_pages[of ?f f s] by simp
  moreover have "2 ^ 64 - 4095 \<le> unat (- 2 :: u64)" "(- 2 :: u64) < t_size ?f" by simp_all
  ultimately obtain f' s' where t: "tmpfs_truncate (- 2) ?f s = Inr (f', s')" "\<forall>q. byte_at f' (kmem s') q = 0"
    using tmpfs_truncate_wraps[of ?f s "- 2"] by blast
  have "byte_at ?f (kmem s) 5 = 1" using w by simp
  moreover have "t_size ?f = - 1" by simp
  ultimately show ?thesis using t by metis
qed

theorem tmpfs_failed_write_extends_witness:
  "\<exists>f'. tmpfs_write True [1] 0x5000 empty_file (boot_pmm 64 (\<lambda>_. 0)) = (Inl ENOSPC, f', boot_pmm 64 (\<lambda>_. 0)) \<and> t_size f' = 0x5000"
proof -
  let ?s = "boot_pmm 64 (\<lambda>_. 0)"
  have inv: "pmm_inv ?s" and ff: "free_frames ?s = {}" using boot_pmm_inv[of 64] by simp_all
  have "fst (alloc_pages 0 GFP_ZERO ?s) = None"
  proof (cases "alloc_pages 0 GFP_ZERO ?s")
    case (Pair r s')
    then show ?thesis using alloc_pages_took(1)[OF inv, of 0 GFP_ZERO _ s'] ff by (cases r) (auto simp: took_def)
  qed
  moreover have "0 < length [1 :: u8]" "length [1 :: u8] < 2 ^ 64" "t_size empty_file < 0x5000"
    "unat (0x5000 :: u64) + length [1 :: u8] \<le> 2 ^ 36" "page_at empty_file (unat (0x5000 :: u64) div 4096) = None"
    by (simp_all add: page_at_def)
  ultimately show ?thesis
    using tmpfs_failed_write_extends[OF empty_file_inv(1)[OF inv], of "[1]" "0x5000"] by blast
qed

end
