(* ===== verification/Kprintf.thy ===== *)
theory Kprintf
  imports Prelude
begin

text \<open>
  Formatted output (\<^verbatim>\<open>kernel/lib/kprintf.c\<close>): the engine \<^verbatim>\<open>format_core\<close>, its number printer, and its two
  clients, which print through a 256-byte line buffer (\<^verbatim>\<open>kprintf\<close>) or into a caller's buffer
  (\<^verbatim>\<open>ksnprintf\<close>). The engine is a function from the format and the arguments to the characters it
  emits and the count it returns. Flags, width and precision are read and dropped, as the code does.
\<close>

section \<open>Numbers\<close>

definition digit_char :: "bool \<Rightarrow> nat \<Rightarrow> char" where
  "digit_char upper d = (if upper then ''0123456789ABCDEF'' else ''0123456789abcdef'') ! d"

text \<open>The digits in reverse order, the loop \<^verbatim>\<open>do ... while (value)\<close>; the base is 10 or 16.\<close>

function digits_rev :: "nat \<Rightarrow> bool \<Rightarrow> nat \<Rightarrow> string" where
  "digits_rev base upper v =
     digit_char upper (v mod base) #
       (if 2 \<le> base \<and> v div base \<noteq> 0 then digits_rev base upper (v div base) else [])"
  by pat_completeness auto
termination
  by (relation "measure (\<lambda>(base, upper, v). v)") (auto intro!: div_less_dividend gr0I)

declare digits_rev.simps [simp del]

definition emit_number :: "nat \<Rightarrow> bool \<Rightarrow> nat \<Rightarrow> bool \<Rightarrow> int \<Rightarrow> bool \<Rightarrow> bool \<Rightarrow> string \<times> nat" where
  "emit_number v negative base upper width zero_pad left =
     (let tmp = digits_rev base upper v;
          len = length tmp;
          total = len + (if negative then 1 else 0);
          pad = nat (if width > int total then width - int total else 0);
          out = (if \<not> left \<and> \<not> zero_pad then replicate pad CHR '' '' else []);
          pad1 = (if \<not> left \<and> \<not> zero_pad then 0 else pad);
          out = (if negative then out @ ''-'' else out);
          out = (if \<not> left \<and> zero_pad then out @ replicate pad1 CHR ''0'' else out);
          pad2 = (if \<not> left \<and> zero_pad then 0 else pad1);
          out = out @ rev tmp;
          out = out @ replicate pad2 CHR '' ''
      in (out, pad + (if negative then 1 else 0) + len))"

section \<open>The format engine\<close>

text \<open>
  An argument is an integer register or a string pointer (None is NULL). Reading past the arguments or
  with the wrong type is undefined in C: the result is then None.
\<close>

datatype va_arg = Va_int u64 | Va_str "string option"

definition is_flag :: "char \<Rightarrow> bool" where
  "is_flag c \<longleftrightarrow> c = CHR ''-'' \<or> c = CHR ''.'' \<or> (48 \<le> (of_char c :: nat) \<and> (of_char c :: nat) \<le> 57)"


fun skip_flags :: "string \<Rightarrow> string" where
  "skip_flags [] = []"
| "skip_flags (c # cs) = (if is_flag c then skip_flags cs else c # cs)"

text \<open>The length modifier: the number of \<open>l\<close> and whether a \<open>z\<close> follows them.\<close>

fun skip_l :: "string \<Rightarrow> nat \<times> string" where
  "skip_l (c # cs) = (if c = CHR ''l'' then (case skip_l cs of (n, r) \<Rightarrow> (Suc n, r)) else (0, c # cs))"
| "skip_l [] = (0, [])"

definition length_modifier :: "string \<Rightarrow> bool \<times> string" where
  "length_modifier fmt =
     (case skip_l fmt of (n, r) \<Rightarrow>
        (case r of c # r' \<Rightarrow> if c = CHR ''z'' then (True, r') else (n \<ge> 1, r) | [] \<Rightarrow> (n \<ge> 1, r)))"

lemma skip_flags_length: "length (skip_flags cs) \<le> length cs"
  by (induction cs) auto

lemma skip_l_length: "skip_l cs = (n, r) \<Longrightarrow> length r \<le> length cs"
  by (induction cs arbitrary: n r) (auto split: if_splits prod.splits)

lemma length_modifier_length: "length_modifier cs = (b, r) \<Longrightarrow> length r \<le> length cs"
  using skip_l_length[of cs]
  by (auto simp: length_modifier_def split: prod.splits list.splits if_splits)

lemma conversion_shorter:
  "length_modifier (skip_flags fmt) = (wide, c # rest) \<Longrightarrow> length rest < Suc (length fmt)"
  using length_modifier_length[of "skip_flags fmt" wide "c # rest"] skip_flags_length[of fmt] by simp

definition emit_signed :: "bool \<Rightarrow> u64 \<Rightarrow> string \<times> nat" where
  "emit_signed wide w =
     (let v = (if wide then sint w else sint (ucast w :: u32))
      in emit_number (nat \<bar>v\<bar>) (v < 0) 10 False 0 False False)"

definition emit_unsigned :: "bool \<Rightarrow> nat \<Rightarrow> bool \<Rightarrow> u64 \<Rightarrow> string \<times> nat" where
  "emit_unsigned wide base upper w =
     emit_number (if wide then unat w else unat (ucast w :: u32)) False base upper 0 False False"

definition emit_pointer :: "u64 \<Rightarrow> string \<times> nat" where
  "emit_pointer w = (case emit_number (unat w) False 16 False 16 True False of
     (out, n) \<Rightarrow> (''0x'' @ out, 2 + n))"

definition emit_string :: "string option \<Rightarrow> string \<times> nat" where
  "emit_string s = (let s = (case s of None \<Rightarrow> ''(null)'' | Some s \<Rightarrow> s) in (s, length s))"

text \<open>One conversion: what it emits and the arguments that remain.\<close>

definition convert :: "bool \<Rightarrow> char \<Rightarrow> va_arg list \<Rightarrow> ((string \<times> nat) \<times> va_arg list) option" where
  "convert wide c args =
     (if c = CHR ''d'' \<or> c = CHR ''i'' then
        (case args of Va_int w # rest \<Rightarrow> Some (emit_signed wide w, rest) | _ \<Rightarrow> None)
      else if c = CHR ''u'' \<or> c = CHR ''x'' \<or> c = CHR ''X'' then
        (case args of Va_int w # rest \<Rightarrow>
           Some (emit_unsigned wide (if c = CHR ''u'' then 10 else 16) (c = CHR ''X'') w, rest) | _ \<Rightarrow> None)
      else if c = CHR ''p'' then
        (case args of Va_int w # rest \<Rightarrow> Some (emit_pointer w, rest) | _ \<Rightarrow> None)
      else if c = CHR ''s'' then
        (case args of Va_str s # rest \<Rightarrow> Some (emit_string s, rest) | _ \<Rightarrow> None)
      else if c = CHR ''c'' then
        (case args of Va_int w # rest \<Rightarrow> Some (([char_of (unat w)], 1), rest) | _ \<Rightarrow> None)
      else if c = CHR ''%'' then Some ((''%'', 1), args)
      else Some (([CHR ''%'', c], 2), args))"

function format_core :: "string \<Rightarrow> va_arg list \<Rightarrow> (string \<times> nat) option" where
  "format_core [] args = Some ([], 0)"
| "format_core (f # fmt) args =
     (if f \<noteq> CHR ''%'' then
        (case format_core fmt args of None \<Rightarrow> None | Some (out, n) \<Rightarrow> Some (f # out, Suc n))
      else
        (case length_modifier (skip_flags fmt) of (wide, rest) \<Rightarrow>
          (case rest of
             [] \<Rightarrow> Some ([], 0)
           | c # rest' \<Rightarrow>
               (case convert wide c args of
                  None \<Rightarrow> None
                | Some ((out, n), args') \<Rightarrow>
                    (case format_core rest' args' of None \<Rightarrow> None | Some (out', n') \<Rightarrow> Some (out @ out', n + n'))))))"
  by pat_completeness auto
termination
  by (relation "measure (\<lambda>(fmt, args). length fmt)") (auto dest!: sym[of "(_, _)"] conversion_shorter)

section \<open>The clients\<close>

text \<open>\<^verbatim>\<open>ksnprintf\<close>: a buffer and the position in it; characters beyond the buffer are only counted.\<close>

definition emit_buffer :: "nat \<Rightarrow> char \<Rightarrow> string \<times> nat \<Rightarrow> string \<times> nat" where
  "emit_buffer sz c b = (if snd b + 1 < sz then (fst b)[snd b := c] else fst b, snd b + 1)"

definition kvsnprintf :: "string \<Rightarrow> nat \<Rightarrow> string \<Rightarrow> va_arg list \<Rightarrow> (string \<times> nat) option" where
  "kvsnprintf buf sz fmt args =
     (case format_core fmt args of
        None \<Rightarrow> None
      | Some (out, n) \<Rightarrow>
          (case fold (emit_buffer sz) out (buf, 0) of (buf', pos) \<Rightarrow>
             Some (if sz \<noteq> 0 then buf'[(if pos < sz then pos else sz - 1) := char_of (0::nat)] else buf', n)))"

text \<open>\<^verbatim>\<open>kprintf\<close>: a line buffer of 256 bytes, written to the console when full and at the end.\<close>

record line_buf =
  written :: "string list"
  pending :: string

definition emit_line :: "char \<Rightarrow> line_buf \<Rightarrow> line_buf" where
  "emit_line c b =
     (let b = b\<lparr>pending := pending b @ [c]\<rparr>
      in if length (pending b) = 256 then b\<lparr>written := written b @ [pending b], pending := []\<rparr> else b)"

definition kvprintf :: "string \<Rightarrow> va_arg list \<Rightarrow> (string list \<times> nat) option" where
  "kvprintf fmt args =
     (case format_core fmt args of
        None \<Rightarrow> None
      | Some (out, n) \<Rightarrow>
          (let b = fold emit_line out \<lparr>written = [], pending = []\<rparr>
           in Some (if pending b \<noteq> [] then written b @ [pending b] else written b, n)))"

section \<open>Proofs\<close>

definition digit_value :: "char \<Rightarrow> nat" where
  "digit_value c = (let n = of_char c in if n \<ge> 97 then n - 87 else if n \<ge> 65 then n - 55 else n - 48)"

definition read_number :: "nat \<Rightarrow> string \<Rightarrow> nat" where
  "read_number base s = foldl (\<lambda>a c. a * base + digit_value c) 0 s"

lemma digit_value_char: "d < 16 \<Longrightarrow> digit_value (digit_char upper d) = d"
proof -
  have "\<forall>d \<in> {0..<16}. digit_value (digit_char upper d) = d"
    by (cases upper) (simp_all add: digit_value_def digit_char_def Let_def atLeastLessThan_nat_numeral atLeastLessThanSuc)
  then show "d < 16 \<Longrightarrow> digit_value (digit_char upper d) = d" by auto
qed

lemma read_digits_rev:
  assumes "2 \<le> base" "base \<le> 16"
  shows "read_number base (rev (digits_rev base upper v)) = v"
proof (induction v rule: less_induct)
  case (less v)
  have d: "digit_value (digit_char upper (v mod base)) = v mod base"
    using assms by (intro digit_value_char) (rule less_le_trans[OF mod_less_divisor], auto)
  show ?case
  proof (cases "v div base = 0")
    case True
    then have "v mod base = v" using div_mult_mod_eq[of v base] by simp
    with d True show ?thesis by (simp add: digits_rev.simps[of base upper v] read_number_def)
  next
    case False
    then have "v div base < v" using assms by (intro div_less_dividend) (auto intro: gr0I)
    from less[OF this] d False assms show ?thesis
      by (simp add: digits_rev.simps[of base upper v] read_number_def)
  qed
qed

lemma emit_number_count: "snd (emit_number v neg base upper width zp left) = length (fst (emit_number v neg base upper width zp left))"
  by (auto simp: emit_number_def Let_def)

lemma emit_number_length: "emit_number v neg base upper width zp left = (out, n) \<Longrightarrow> n = length out"
  using emit_number_count by (metis fst_conv snd_conv)

lemma emit_counts:
  "snd (emit_signed wide w) = length (fst (emit_signed wide w))"
  "snd (emit_unsigned wide base upper w) = length (fst (emit_unsigned wide base upper w))"
  "snd (emit_pointer w) = length (fst (emit_pointer w))"
  "snd (emit_string s) = length (fst (emit_string s))"
  by (auto simp: emit_signed_def emit_unsigned_def emit_pointer_def emit_string_def Let_def emit_number_count
      dest: emit_number_length split: prod.splits)

lemma convert_count:
  assumes "convert wide c args = Some (r, args')"
  shows "snd r = length (fst r)"
proof (cases args)
  case Nil
  with assms show ?thesis by (auto simp: convert_def split: if_splits)
next
  case (Cons a rest)
  show ?thesis
  proof (cases a)
    case (Va_int w)
    with assms Cons show ?thesis unfolding convert_def by (simp split: if_splits add: emit_counts) (auto simp: emit_counts)
  next
    case (Va_str s)
    with assms Cons show ?thesis unfolding convert_def by (simp split: if_splits add: emit_counts) (auto simp: emit_counts)
  qed
qed

lemma format_core_count: "format_core fmt args = Some (out, n) \<Longrightarrow> n = length out"
  by (induction fmt args arbitrary: out n rule: format_core.induct)
    (auto split: if_splits option.splits prod.splits list.splits dest!: convert_count)

lemma fold_emit_buffer:
  "length buf = sz \<Longrightarrow> pos \<le> sz \<Longrightarrow>
   fold (emit_buffer sz) out (buf, pos) =
     (take pos buf @ take (sz - 1 - pos) out @ drop (pos + length (take (sz - 1 - pos) out)) buf, pos + length out)"
proof (induction out arbitrary: buf pos)
  case Nil
  then show ?case by simp
next
  case (Cons c out)
  show ?case
  proof (cases "pos + 1 < sz")
    case True
    have "take pos (buf[pos := c]) = take pos buf" by simp
    moreover have "take (Suc pos) (buf[pos := c]) = take pos buf @ [c]"
      using True Cons(2) by (simp add: take_Suc_conv_app_nth)
    moreover have "sz - 1 - pos = Suc (sz - 1 - Suc pos)" using True by simp
    ultimately show ?thesis
      using Cons(1)[of "buf[pos := c]" "Suc pos"] Cons(2,3) True by (simp add: emit_buffer_def)
  next
    case False
    then have "fold (emit_buffer sz) out (buf, Suc pos) = (buf, Suc pos + length out)"
      if "sz \<le> Suc pos" for pos
      using that by (induction out arbitrary: pos) (simp_all add: emit_buffer_def)
    moreover have "emit_buffer sz c (buf, pos) = (buf, Suc pos)" using False by (simp add: emit_buffer_def)
    ultimately show ?thesis using False by simp
  qed
qed

text \<open>What \<^verbatim>\<open>ksnprintf\<close> leaves in a buffer that is not empty.\<close>

lemma kvsnprintf_stores:
  assumes "format_core fmt args = Some (out, n)" "length buf = sz" "sz > 0"
  shows "kvsnprintf buf sz fmt args =
    Some (take (sz - 1) out @ [char_of (0::nat)] @ drop (Suc (min (length out) (sz - 1))) buf, n)"
proof -
  let ?k = "min (length out) (sz - 1)"
  have f: "fold (emit_buffer sz) out (buf, 0) = (take (sz - 1) out @ drop ?k buf, length out)"
    using fold_emit_buffer[OF assms(2), of 0 out] by simp
  have "(if length out < sz then length out else sz - 1) = ?k" by auto
  moreover have "(take (sz - 1) out @ drop ?k buf)[?k := x] = take (sz - 1) out @ x # drop (Suc ?k) buf" for x
    using assms(2,3) by (simp add: list_update_append upd_conv_take_nth_drop)
  ultimately show ?thesis
    using f assms by (simp add: kvsnprintf_def)
qed

lemma emit_line_inv:
  "length (pending b) < 256 \<Longrightarrow>
   length (pending (fold emit_line out b)) < 256 \<and>
   concat (written (fold emit_line out b)) @ pending (fold emit_line out b) = concat (written b) @ pending b @ out \<and>
   (set (written (fold emit_line out b)) \<subseteq> set (written b) \<union> {s. length s = 256})"
proof (induction out arbitrary: b)
  case (Cons c out)
  have "length (pending (emit_line c b)) < 256"
    "concat (written (emit_line c b)) @ pending (emit_line c b) = concat (written b) @ pending b @ [c]"
    "set (written (emit_line c b)) \<subseteq> set (written b) \<union> {s. length s = 256}"
    using Cons(2) by (auto simp: emit_line_def Let_def)
  with Cons(1)[of "emit_line c b"] show ?case by auto
qed simp

section \<open>Properties\<close>

text \<open>
  Printing numbers. Reading the digits that the number printer emits gives the number back, in base
  10 and 16, with the sign in front and padded to the width; it emits as many characters as it counts.
\<close>

theorem emit_number_roundtrip:
  assumes "base = 10 \<or> base = 16" "emit_number v negative base upper width zero_pad False = (out, n)"
  shows "n = length out \<and> int n \<ge> width
    \<and> (\<exists>pad digits. out = (if zero_pad then (if negative then ''-'' else []) @ replicate pad CHR ''0'' @ digits
                           else replicate pad CHR '' '' @ (if negative then ''-'' else []) @ digits)
          \<and> read_number base digits = v \<and> read_number base (replicate pad CHR ''0'' @ digits) = v)"
proof -
  let ?d = "rev (digits_rev base upper v)"
  have r: "read_number base ?d = v" using assms(1) by (intro read_digits_rev) auto
  have z: "foldl (\<lambda>a c. a * base + digit_value c) 0 (replicate p CHR ''0'') = 0" for p
    by (induction p) (simp_all add: digit_value_def)
  then have z: "read_number base (replicate p CHR ''0'' @ ?d) = v" for p
    using r by (simp add: read_number_def)
  have n: "n = length out" using emit_number_count assms(2) by (metis fst_conv snd_conv)
  obtain pad where pad: "out = (if zero_pad then (if negative then ''-'' else []) @ replicate pad CHR ''0'' @ ?d
                           else replicate pad CHR '' '' @ (if negative then ''-'' else []) @ ?d)"
    and w: "int (length out) \<ge> width"
    using assms(2) by (auto simp: emit_number_def Let_def split: if_splits)
  with n r z show ?thesis by blast
qed

text \<open>
  C40. Formatting into a buffer. \<^verbatim>\<open>ksnprintf\<close> returns the length of the whole output, stores its longest
  prefix that leaves room for the terminator, terminates it, and never touches the buffer behind
  that; \<^verbatim>\<open>kprintf\<close> sends the same output to the console in pieces of at most 256 bytes.
\<close>

theorem ksnprintf_correct:
  assumes "format_core fmt args = Some (out, n)" "length buf = sz"
  shows "n = length out
    \<and> (sz > 0 \<longrightarrow> kvsnprintf buf sz fmt args =
          Some (take (sz - 1) out @ [char_of (0::nat)] @ drop (Suc (min (length out) (sz - 1))) buf, n))
    \<and> (sz = 0 \<longrightarrow> kvsnprintf buf sz fmt args = Some (buf, n))
    \<and> (\<exists>chunks. kvprintf fmt args = Some (chunks, n) \<and> concat chunks = out
          \<and> list_all (\<lambda>c. 0 < length c \<and> length c \<le> 256) chunks)"
proof (intro conjI impI)
  show "n = length out" using assms(1) by (rule format_core_count)
  have f: "fold (emit_buffer sz) out (buf, 0) = (take (sz - 1) out @ drop (length (take (sz - 1) out)) buf, length out)"
    using fold_emit_buffer[OF assms(2), of 0 out] by simp
  show "kvsnprintf buf sz fmt args = Some (buf, n)" if "sz = 0"
    using f assms that by (simp add: kvsnprintf_def)
  show "kvsnprintf buf sz fmt args =
          Some (take (sz - 1) out @ [char_of (0::nat)] @ drop (Suc (min (length out) (sz - 1))) buf, n)" if "sz > 0"
    using kvsnprintf_stores[OF assms that] .
  let ?b = "fold emit_line out \<lparr>written = [], pending = []\<rparr>"
  have i: "length (pending ?b) < 256" "concat (written ?b) @ pending ?b = out" "set (written ?b) \<subseteq> {s. length s = 256}"
    using emit_line_inv[of "\<lparr>written = [], pending = []\<rparr>" out] by auto
  let ?c = "if pending ?b \<noteq> [] then written ?b @ [pending ?b] else written ?b"
  have "kvprintf fmt args = Some (?c, n)" using assms(1) by (simp add: kvprintf_def Let_def)
  moreover have "concat ?c = out" using i(2) by auto
  moreover have "list_all (\<lambda>c. 0 < length c \<and> length c \<le> 256) ?c"
    using i(1,3) by (auto simp: list_all_iff)
  ultimately show "\<exists>chunks. kvprintf fmt args = Some (chunks, n) \<and> concat chunks = out
          \<and> list_all (\<lambda>c. 0 < length c \<and> length c \<le> 256) chunks" by blast
qed

theorem emit_number_roundtrip_witness:
  "emit_number 255 True 10 False 6 True False = (''-00255'', 6)
   \<and> (\<exists>pad digits. ''-00255'' = ''-'' @ replicate pad CHR ''0'' @ digits \<and> read_number 10 digits = 255)"
proof -
  have e: "emit_number 255 True 10 False 6 True False = (''-00255'', 6)"
    by (simp add: emit_number_def Let_def digits_rev.simps digit_char_def numeral_2_eq_2)
  with emit_number_roundtrip[OF _ e] show ?thesis by auto
qed

theorem ksnprintf_correct_witness:
  "kvsnprintf ''........'' 8 ''pid %d ok'' [Va_int 42] = Some (''pid 42 '' @ [char_of (0::nat)], 9)"
proof -
  have "format_core ''pid %d ok'' [Va_int 42] = Some (''pid 42 ok'', 9)"
    by (simp add: is_flag_def length_modifier_def convert_def emit_signed_def emit_number_def Let_def
        digits_rev.simps digit_char_def)
  from ksnprintf_correct[OF this, of "''........''" 8] show ?thesis by simp
qed

end
