(* ===== verification/Vt.thy ===== *)
theory Vt
  imports Kprintf
begin

text \<open>
  The terminal emulator (\<^verbatim>\<open>kernel/drivers/vt.c\<close>): the buffer of character cells, the escape-sequence
  parser, the UTF-8 decoder, and what the screen driver has been told to draw. The C file keeps this in
  static variables; here they are one record. The picture on the screen is a field of the record that
  the driver's \<^verbatim>\<open>draw\<close> calls update. Reading or writing a cell outside the buffer is undefined in C; it
  sets the field \<open>oob\<close>. Unsigned 32-bit values are natural numbers below \<open>2 ^ 32\<close>, with the wrap-around
  written out where it can happen.
\<close>

abbreviation MAX_PARAMS :: nat where "MAX_PARAMS \<equiv> 16"

definition wrap32 :: "nat \<Rightarrow> nat" where "wrap32 n = n mod 2 ^ 32"

record vt_cell =
  cp :: u16
  attr :: u8

datatype vt_state = S_NORMAL | S_ESC | S_CSI | S_OSC | S_OSC_ESC

record vt =
  attached :: bool
  hw_cursor :: bool
  hw_pos :: "nat \<times> nat \<times> bool"
  shown :: "nat \<times> nat \<Rightarrow> vt_cell"
  cells :: "vt_cell list"
  alt_cells :: "vt_cell list option"
  alt_active :: bool
  cols :: nat
  rows :: nat
  cx :: nat
  cy :: nat
  wrap_pending :: bool
  saved_x :: nat
  saved_y :: nat
  main_x :: nat
  main_y :: nat
  cursor_visible :: bool
  top :: nat
  bottom :: nat
  fg :: u8
  bg :: u8
  bold :: bool
  reverse :: bool
  st :: vt_state
  params :: "nat list"
  nparams :: nat
  param_started :: bool
  priv :: u8
  utf_cp :: u32
  utf_need :: nat
  response :: string
  response_len :: nat
  oob :: bool

definition cur_attr :: "vt \<Rightarrow> u8" where
  "cur_attr s =
     (let f = fg s; b = bg s;
          f = (if bold s \<and> f < 8 then f + 8 else f)
      in if reverse s then b OR push_bit 4 f else f OR push_bit 4 b)"

section \<open>Drawing\<close>

text \<open>The call \<^verbatim>\<open>scr->draw\<close> and the function \<^verbatim>\<open>draw\<close>, which reads the cell it draws.\<close>

definition scr_draw :: "nat \<Rightarrow> nat \<Rightarrow> vt_cell \<Rightarrow> vt \<Rightarrow> vt" where
  "scr_draw x y c s = s\<lparr>shown := (shown s)((x, y) := c)\<rparr>"

definition draw :: "nat \<times> nat \<Rightarrow> vt \<Rightarrow> vt" where
  "draw p s = (case p of (x, y) \<Rightarrow>
     if y * cols s + x < length (cells s) then scr_draw x y (cells s ! (y * cols s + x)) s
     else s\<lparr>oob := True\<rparr>)"

text \<open>The cells of the lines \<open>ys\<close> in the columns \<open>xs\<close>, in the order of the nested loops.\<close>

definition rect :: "nat list \<Rightarrow> nat list \<Rightarrow> (nat \<times> nat) list" where
  "rect ys xs = concat (map (\<lambda>y. map (\<lambda>x. (x, y)) xs) ys)"

definition swap_attr :: "vt_cell \<Rightarrow> vt_cell" where
  "swap_attr c = c\<lparr>attr := drop_bit 4 (attr c) OR push_bit 4 (attr c)\<rparr>"

definition cursor_x :: "vt \<Rightarrow> nat" where
  "cursor_x s = (if cx s < cols s then cx s else cols s - 1)"

definition show_cursor :: "vt \<Rightarrow> vt" where
  "show_cursor s =
     (if hw_cursor s then s\<lparr>hw_pos := (cursor_x s, cy s, cursor_visible s)\<rparr>
      else if cursor_visible s then
        scr_draw (cursor_x s) (cy s) (swap_attr (cells s ! (cy s * cols s + cursor_x s))) s
      else s)"

definition hide_cursor :: "vt \<Rightarrow> vt" where
  "hide_cursor s = (if \<not> hw_cursor s \<and> cursor_visible s then draw (cursor_x s, cy s) s else s)"

definition redraw :: "vt \<Rightarrow> vt" where
  "redraw s = fold draw (rect [0..<rows s] [0..<cols s]) s"

definition blank :: "vt \<Rightarrow> vt_cell" where
  "blank s = \<lparr>cp = 32, attr = push_bit 4 (bg s) OR fg s\<rparr>"

definition clear_cell :: "nat \<Rightarrow> vt \<Rightarrow> vt" where
  "clear_cell i s =
     (if i < length (cells s)
      then scr_draw (i mod cols s) (i div cols s) (blank s) (s\<lparr>cells := (cells s)[i := blank s]\<rparr>)
      else s\<lparr>oob := True\<rparr>)"

definition clear_cells :: "nat \<Rightarrow> nat \<Rightarrow> vt \<Rightarrow> vt" where
  "clear_cells a b s = fold clear_cell [a..<b] s"

text \<open>\<^verbatim>\<open>memmove\<close> of \<open>n\<close> cells inside the buffer.\<close>

definition move_cells :: "nat \<Rightarrow> nat \<Rightarrow> nat \<Rightarrow> vt \<Rightarrow> vt" where
  "move_cells dst src n s =
     (if dst + n \<le> length (cells s) \<and> src + n \<le> length (cells s)
      then s\<lparr>cells := take dst (cells s) @ take n (drop src (cells s)) @ drop (dst + n) (cells s)\<rparr>
      else s\<lparr>oob := True\<rparr>)"

text \<open>
  Scrolling up. The loop \<^verbatim>\<open>for (y = t; y <= b - n; y++)\<close> is over unsigned numbers: with \<open>n = b + 1\<close>,
  which happens when the region starts in line 0 and is scrolled by its whole height, \<^verbatim>\<open>b - n\<close> is
  \<open>2 ^ 32 - 1\<close>, the condition never fails and \<^verbatim>\<open>draw\<close> runs past the buffer.
\<close>

definition scroll_up :: "nat \<Rightarrow> nat \<Rightarrow> nat \<Rightarrow> vt \<Rightarrow> vt" where
  "scroll_up t b n s =
     (let n = (if n > b - t + 1 then b - t + 1 else n);
          s = move_cells (t * cols s) ((t + n) * cols s) ((b + 1 - t - n) * cols s) s
      in if n > b then s\<lparr>oob := True\<rparr>
         else clear_cells ((b + 1 - n) * cols s) ((b + 1) * cols s)
                (fold draw (rect [t..<b - n + 1] [0..<cols s]) s))"

definition scroll_down :: "nat \<Rightarrow> nat \<Rightarrow> nat \<Rightarrow> vt \<Rightarrow> vt" where
  "scroll_down t b n s =
     (let n = (if n > b - t + 1 then b - t + 1 else n);
          s = move_cells ((t + n) * cols s) (t * cols s) ((b + 1 - t - n) * cols s) s
      in clear_cells (t * cols s) ((t + n) * cols s)
           (fold draw (rect [t + n..<b + 1] [0..<cols s]) s))"

definition linefeed :: "vt \<Rightarrow> vt" where
  "linefeed s =
     (if cy s = bottom s then scroll_up (top s) (bottom s) 1 s
      else if cy s < rows s - 1 then s\<lparr>cy := cy s + 1\<rparr> else s)"

definition put_char :: "u32 \<Rightarrow> vt \<Rightarrow> vt" where
  "put_char c s =
     (let s = (if wrap_pending s then linefeed (s\<lparr>wrap_pending := False, cx := 0\<rparr>) else s);
          i = cy s * cols s + cx s;
          cell = \<lparr>cp = ucast (if c > 0xFFFF then 63 else c), attr = cur_attr s\<rparr>;
          s = (if i < length (cells s) then scr_draw (cx s) (cy s) cell (s\<lparr>cells := (cells s)[i := cell]\<rparr>)
               else s\<lparr>oob := True\<rparr>)
      in if cx s = cols s - 1 then s\<lparr>wrap_pending := True\<rparr> else s\<lparr>cx := cx s + 1\<rparr>)"

section \<open>Control sequences\<close>

definition param :: "nat \<Rightarrow> nat \<Rightarrow> vt \<Rightarrow> nat" where
  "param i d s = (if i < nparams s \<and> params s ! i \<noteq> 0 then params s ! i else d)"

definition set_cursor :: "nat \<Rightarrow> nat \<Rightarrow> vt \<Rightarrow> vt" where
  "set_cursor x y s = s\<lparr>cx := min x (cols s - 1), cy := min y (rows s - 1), wrap_pending := False\<rparr>"

definition ansi_to_vga :: "nat \<Rightarrow> u8" where
  "ansi_to_vga n = [0, 4, 2, 6, 1, 5, 3, 7] ! n"

text \<open>The colour of \<^verbatim>\<open>38;...\<close> and \<^verbatim>\<open>48;...\<close> and the number of further parameters it uses.\<close>

definition sgr_extended :: "nat \<Rightarrow> vt \<Rightarrow> u8 \<times> nat" where
  "sgr_extended i s =
     (if params s ! (i + 1) = 5 \<and> i + 2 < nparams s then
        (let n = params s ! (i + 2)
         in (if n < 8 then ansi_to_vga n else if n < 16 then ansi_to_vga (n - 8) + 8 else 7, 2))
      else if params s ! (i + 1) = 2 \<and> i + 4 < nparams s then
        (let r = params s ! (i + 2); g = params s ! (i + 3); b = params s ! (i + 4);
             col = (if r > 127 then 4 else 0) + (if g > 127 then 2 else 0) + (if b > 127 then 1 else 0)
         in (ansi_to_vga col + (if wrap32 (r + g + b) > 500 then 8 else 0), 4))
      else (7, 0))"

definition sgr_one :: "nat \<Rightarrow> vt \<Rightarrow> vt \<times> nat" where
  "sgr_one i s =
     (let p = params s ! i in
      if p = 0 then (s\<lparr>fg := 7, bg := 0, bold := False, reverse := False\<rparr>, 0)
      else if p = 1 then (s\<lparr>bold := True\<rparr>, 0)
      else if p = 22 then (s\<lparr>bold := False\<rparr>, 0)
      else if p = 7 then (s\<lparr>reverse := True\<rparr>, 0)
      else if p = 27 then (s\<lparr>reverse := False\<rparr>, 0)
      else if 30 \<le> p \<and> p \<le> 37 then (s\<lparr>fg := ansi_to_vga (p - 30)\<rparr>, 0)
      else if p = 39 then (s\<lparr>fg := 7\<rparr>, 0)
      else if 40 \<le> p \<and> p \<le> 47 then (s\<lparr>bg := ansi_to_vga (p - 40)\<rparr>, 0)
      else if p = 49 then (s\<lparr>bg := 0\<rparr>, 0)
      else if 90 \<le> p \<and> p \<le> 97 then (s\<lparr>fg := ansi_to_vga (p - 90) + 8\<rparr>, 0)
      else if 100 \<le> p \<and> p \<le> 107 then (s\<lparr>bg := ansi_to_vga (p - 100) + 8\<rparr>, 0)
      else if (p = 38 \<or> p = 48) \<and> i + 1 < nparams s then
        (case sgr_extended i s of (col, k) \<Rightarrow> (if p = 38 then s\<lparr>fg := col\<rparr> else s\<lparr>bg := col\<rparr>, k))
      else (s, 0))"

function sgr_from :: "nat \<Rightarrow> nat \<Rightarrow> vt \<Rightarrow> vt" where
  "sgr_from i n s =
     (if i < n then (case sgr_one i s of (s, k) \<Rightarrow> sgr_from (i + k + 1) n s) else s)"
  by pat_completeness auto
termination
  by (relation "measure (\<lambda>(i, n, s). n - i)") auto

declare sgr_from.simps [simp del]

definition sgr :: "vt \<Rightarrow> vt" where
  "sgr s =
     (let s = (if nparams s = 0 then s\<lparr>nparams := 1, params := (params s)[0 := 0]\<rparr> else s)
      in sgr_from 0 (nparams s) s)"

definition set_alt_screen :: "bool \<Rightarrow> vt \<Rightarrow> vt" where
  "set_alt_screen on s =
     (case alt_cells s of
        None \<Rightarrow> s
      | Some alt \<Rightarrow>
          if on = alt_active s then s
          else if on then
            (clear_cells 0 (cols s * rows s)
               (s\<lparr>alt_cells := Some (cells s), main_x := cx s, main_y := cy s\<rparr>))\<lparr>alt_active := True\<rparr>
          else
            (redraw (set_cursor (main_x s) (main_y s) (s\<lparr>cells := alt\<rparr>)))\<lparr>alt_active := False\<rparr>)"

definition private_mode :: "bool \<Rightarrow> nat \<Rightarrow> vt \<Rightarrow> vt" where
  "private_mode on p s =
     (if p = 25 then s\<lparr>cursor_visible := on\<rparr>
      else if p = 1049 \<or> p = 47 \<or> p = 1047 then set_alt_screen on s else s)"

abbreviation (input) is_char :: "u8 \<Rightarrow> char \<Rightarrow> bool" where
  "is_char c ch \<equiv> unat c = of_char ch"

definition erase_display :: "vt \<Rightarrow> vt" where
  "erase_display s =
     (let mode = param 0 0 s; pos = cy s * cols s + cx s
      in if mode = 0 then clear_cells pos (cols s * rows s) s
         else if mode = 1 then clear_cells 0 (pos + 1) s
         else clear_cells 0 (cols s * rows s) s)"

definition erase_line :: "vt \<Rightarrow> vt" where
  "erase_line s =
     (let mode = param 0 0 s; line = cy s * cols s; x = min (cx s) (cols s - 1)
      in if mode = 0 then clear_cells (line + x) (line + cols s) s
         else if mode = 1 then clear_cells line (line + x + 1) s
         else clear_cells line (line + cols s) s)"

definition insert_chars :: "nat \<Rightarrow> vt \<Rightarrow> vt" where
  "insert_chars n s =
     (let line = cy s * cols s; n = min n (cols s - cx s);
          s = move_cells (line + cx s + n) (line + cx s) (cols s - cx s - n) s;
          s = fold draw (rect [cy s] [cx s + n..<cols s]) s
      in clear_cells (line + cx s) (line + cx s + n) s)"

definition delete_chars :: "nat \<Rightarrow> vt \<Rightarrow> vt" where
  "delete_chars n s =
     (let line = cy s * cols s; n = min n (cols s - cx s);
          s = move_cells (line + cx s) (line + cx s + n) (cols s - cx s - n) s;
          s = fold draw (rect [cy s] [cx s..<cols s - n]) s
      in clear_cells (line + cols s - n) (line + cols s) s)"

definition set_region :: "vt \<Rightarrow> vt" where
  "set_region s =
     (let t = param 0 1 s - 1; b = param 1 (rows s) s - 1
      in if t < b \<and> b < rows s then set_cursor 0 0 (s\<lparr>top := t, bottom := b\<rparr>) else s)"

definition report_cursor :: "vt \<Rightarrow> vt" where
  "report_cursor s =
     (if param 0 0 s = 6 then
        (case kvsnprintf (response s) 32 (char_of (27::nat) # ''[%u;%uR'')
            [Va_int (of_nat (cy s + 1)), Va_int (of_nat (min (cx s) (cols s - 1) + 1))] of
           Some (buf, n) \<Rightarrow> s\<lparr>response := buf, response_len := n\<rparr> | None \<Rightarrow> s)
      else s)"

definition csi_dispatch :: "u8 \<Rightarrow> vt \<Rightarrow> vt" where
  "csi_dispatch f s =
     (let n = param 0 1 s in
      if is_char (priv s) CHR ''?'' then
        (if is_char f CHR ''h'' \<or> is_char f CHR ''l''
         then fold (private_mode (is_char f CHR ''h'')) (take (nparams s) (params s)) s else s)
      else if is_char f CHR ''A'' then set_cursor (cx s) (cy s - n) s
      else if is_char f CHR ''B'' then set_cursor (cx s) (wrap32 (cy s + n)) s
      else if is_char f CHR ''C'' then set_cursor (wrap32 (cx s + n)) (cy s) s
      else if is_char f CHR ''D'' then set_cursor (cx s - n) (cy s) s
      else if is_char f CHR ''E'' then set_cursor 0 (wrap32 (cy s + n)) s
      else if is_char f CHR ''F'' then set_cursor 0 (cy s - n) s
      else if is_char f CHR ''G'' then set_cursor (n - 1) (cy s) s
      else if is_char f CHR ''d'' then set_cursor (cx s) (n - 1) s
      else if is_char f CHR ''H'' \<or> is_char f CHR ''f'' then set_cursor (param 1 1 s - 1) (param 0 1 s - 1) s
      else if is_char f CHR ''J'' then erase_display s
      else if is_char f CHR ''K'' then erase_line s
      else if is_char f CHR ''L'' then
        (if top s \<le> cy s \<and> cy s \<le> bottom s then scroll_down (cy s) (bottom s) n s else s)
      else if is_char f CHR ''M'' then
        (if top s \<le> cy s \<and> cy s \<le> bottom s then scroll_up (cy s) (bottom s) n s else s)
      else if is_char f CHR ''S'' then scroll_up (top s) (bottom s) n s
      else if is_char f CHR ''T'' then scroll_down (top s) (bottom s) n s
      else if is_char f CHR ''@'' then insert_chars n s
      else if is_char f CHR ''P'' then delete_chars n s
      else if is_char f CHR ''X'' then
        clear_cells (cy s * cols s + cx s) (cy s * cols s + min (wrap32 (cx s + n)) (cols s)) s
      else if is_char f CHR ''m'' then sgr s
      else if is_char f CHR ''r'' then set_region s
      else if is_char f CHR ''s'' then s\<lparr>saved_x := cx s, saved_y := cy s\<rparr>
      else if is_char f CHR ''u'' then set_cursor (saved_x s) (saved_y s) s
      else if is_char f CHR ''n'' then report_cursor s
      else s)"

section \<open>Bytes\<close>

definition control :: "u8 \<Rightarrow> vt \<Rightarrow> vt" where
  "control c s =
     (if c = 10 then linefeed (s\<lparr>cx := 0, wrap_pending := False\<rparr>)
      else if c = 13 then s\<lparr>cx := 0, wrap_pending := False\<rparr>
      else if c = 8 then s\<lparr>cx := cx s - 1, wrap_pending := False\<rparr>
      else if c = 9 then s\<lparr>cx := min ((cx s + 8) div 8 * 8) (cols s - 1)\<rparr>
      else if c = 27 then s\<lparr>st := S_ESC\<rparr>
      else s)"

definition normal_byte :: "u8 \<Rightarrow> vt \<Rightarrow> vt" where
  "normal_byte c s =
     (if c < 0x20 \<or> c = 0x7F then control c s
      else if c < 0x80 then put_char (ucast c) s
      else if c AND 0xE0 = 0xC0 then s\<lparr>utf_cp := ucast (c AND 0x1F), utf_need := 1\<rparr>
      else if c AND 0xF0 = 0xE0 then s\<lparr>utf_cp := ucast (c AND 0x0F), utf_need := 2\<rparr>
      else if c AND 0xF8 = 0xF0 then s\<lparr>utf_cp := ucast (c AND 0x07), utf_need := 3\<rparr>
      else put_char 63 s)"

definition state_normal :: "u8 \<Rightarrow> vt \<Rightarrow> vt" where
  "state_normal c s =
     (if utf_need s > 0 then
        (if c AND 0xC0 = 0x80 then
           (let s = s\<lparr>utf_cp := push_bit 6 (utf_cp s) OR ucast (c AND 0x3F), utf_need := utf_need s - 1\<rparr>
            in if utf_need s = 0 then put_char (utf_cp s) s else s)
         else normal_byte c (put_char 63 (s\<lparr>utf_need := 0\<rparr>)))
      else normal_byte c s)"

definition full_reset :: "vt \<Rightarrow> vt" where
  "full_reset s =
     (let s = s\<lparr>fg := 7, bg := 0, bold := False, reverse := False, top := 0, bottom := rows s - 1,
                cursor_visible := True\<rparr>
      in set_cursor 0 0 (clear_cells 0 (cols s * rows s) s))"

definition state_esc :: "u8 \<Rightarrow> vt \<Rightarrow> vt" where
  "state_esc c s =
     (let s = s\<lparr>st := S_NORMAL\<rparr> in
      if is_char c CHR ''['' then
        s\<lparr>st := S_CSI, nparams := 0, param_started := False, priv := 0, params := replicate MAX_PARAMS 0\<rparr>
      else if is_char c CHR '']'' then s\<lparr>st := S_OSC\<rparr>
      else if is_char c CHR ''7'' then s\<lparr>saved_x := cx s, saved_y := cy s\<rparr>
      else if is_char c CHR ''8'' then set_cursor (saved_x s) (saved_y s) s
      else if is_char c CHR ''M'' then
        (if cy s = top s then scroll_down (top s) (bottom s) 1 s
         else if cy s > 0 then s\<lparr>cy := cy s - 1\<rparr> else s)
      else if is_char c CHR ''D'' then linefeed s
      else if is_char c CHR ''E'' then linefeed (s\<lparr>cx := 0\<rparr>)
      else if is_char c CHR ''c'' then full_reset s
      else s)"

definition state_csi :: "u8 \<Rightarrow> vt \<Rightarrow> vt" where
  "state_csi c s =
     (if 48 \<le> c \<and> c \<le> 57 then
        (let s = (if nparams s = 0 then s\<lparr>nparams := 1\<rparr> else s)
         in s\<lparr>params := (params s)[nparams s - 1 := wrap32 (params s ! (nparams s - 1) * 10 + (unat c - 48))],
              param_started := True\<rparr>)
      else if is_char c CHR '';'' then
        (let s = (if nparams s = 0 then s\<lparr>nparams := 1\<rparr> else s)
         in if nparams s < MAX_PARAMS then s\<lparr>nparams := nparams s + 1\<rparr> else s)
      else if is_char c CHR ''?'' \<or> is_char c CHR ''>'' \<or> is_char c CHR ''='' then s\<lparr>priv := c\<rparr>
      else if 0x40 \<le> c \<and> c \<le> 0x7E then (csi_dispatch c s)\<lparr>st := S_NORMAL\<rparr>
      else if c < 0x20 then control c s
      else s)"

definition state_osc :: "u8 \<Rightarrow> vt \<Rightarrow> vt" where
  "state_osc c s = (if c = 7 then s\<lparr>st := S_NORMAL\<rparr> else if c = 27 then s\<lparr>st := S_OSC_ESC\<rparr> else s)"

definition vt_putc :: "u8 \<Rightarrow> vt \<Rightarrow> vt" where
  "vt_putc c s =
     (if \<not> attached s then s
      else
        (let s = hide_cursor s
         in show_cursor
              (case st s of
                 S_NORMAL \<Rightarrow> state_normal c s
               | S_ESC \<Rightarrow> state_esc c s
               | S_CSI \<Rightarrow> state_csi c s
               | S_OSC \<Rightarrow> state_osc c s
               | S_OSC_ESC \<Rightarrow> s\<lparr>st := (if is_char c CHR 0x5C then S_NORMAL else S_OSC)\<rparr>)))"

definition vt_write :: "u8 list \<Rightarrow> vt \<Rightarrow> vt" where
  "vt_write bs s = fold vt_putc bs s"

definition vt_set_color :: "u8 \<Rightarrow> u8 \<Rightarrow> vt \<Rightarrow> vt" where
  "vt_set_color f b s = s\<lparr>fg := f AND 0xF, bg := b AND 0xF, bold := False, reverse := False\<rparr>"

definition vt_clear :: "vt \<Rightarrow> vt" where
  "vt_clear s =
     (if \<not> attached s then s
      else show_cursor (set_cursor 0 0 (clear_cells 0 (cols s * rows s) s)))"

definition vt_take_response :: "nat \<Rightarrow> vt \<Rightarrow> string \<times> vt" where
  "vt_take_response sz s = (take (min (response_len s) sz) (response s), s\<lparr>response_len := 0\<rparr>)"

text \<open>Attaching a screen of \<open>c\<close> columns and \<open>r\<close> lines; the two allocations are arguments.\<close>

definition vt_attach :: "nat \<Rightarrow> nat \<Rightarrow> bool \<Rightarrow> vt_cell list option \<Rightarrow> vt_cell list option \<Rightarrow> vt \<Rightarrow> vt \<times> bool" where
  "vt_attach c r hwc nc alt s =
     (case nc of
        None \<Rightarrow> (s, False)
      | Some cs \<Rightarrow>
          (let s = s\<lparr>alt_cells := alt, hw_cursor := hwc, attached := True, cells := cs, cols := c, rows := r,
                     top := 0, bottom := r - 1, cx := 0, cy := 0\<rparr>
           in (show_cursor (clear_cells 0 (cols s * rows s) s), True)))"

end
