(* ===== verification/Vt_Proofs.thy ===== *)
theory Vt_Proofs
  imports Vt
begin

text \<open>
  Correctness of the terminal emulator: no byte sequence moves the cursor off the screen or makes the
  emulator touch a cell outside its buffer, apart from one kind of scroll command that does; the
  picture on the screen always is the cell buffer with the cursor cell inverted; the alternate screen
  gives the main screen back; and the UTF-8 decoder inverts the encoding.
\<close>

section \<open>Positions in the buffer\<close>

lemma idx_less: "x < c \<Longrightarrow> y * c + x < a * c \<longleftrightarrow> y < (a::nat)"
proof
  assume x: "x < c" and "y < a"
  then have "Suc y * c \<le> a * c" by (intro mult_le_mono1) simp
  with x show "y * c + x < a * c" by simp
next
  assume "y * c + x < a * c"
  then have "y * c < a * c" by linarith
  then show "y < a" by simp
qed

lemma idx_ge: "x < c \<Longrightarrow> a * c \<le> y * c + x \<longleftrightarrow> (a::nat) \<le> y"
  using idx_less[of x c y a] by (simp add: not_less[symmetric])

lemma idx_range: "x < c \<Longrightarrow> y < r \<Longrightarrow> y * c + x < c * (r::nat)"
  using idx_less[of x c y r] by (simp add: mult.commute)

lemma idx_div_mod: "x < c \<Longrightarrow> (y * c + x) div c = y \<and> (y * c + x) mod c = (x::nat)"
  by simp

section \<open>Closed forms of the loops\<close>

lemma fold_draw:
  assumes "\<And>x y. (x, y) \<in> set ps \<Longrightarrow> y * cols s + x < length (cells s)"
  shows "fold draw ps s = s\<lparr>shown := (\<lambda>p. if p \<in> set ps then cells s ! (snd p * cols s + fst p) else shown s p)\<rparr>"
  using assms
proof (induction ps arbitrary: s)
  case Nil
  then show ?case by simp
next
  case (Cons p ps)
  obtain x y where p: "p = (x, y)" by fastforce
  have d: "draw p s = s\<lparr>shown := (shown s)((x, y) := cells s ! (y * cols s + x))\<rparr>"
    using Cons(2)[of x y] p by (simp add: draw_def scr_draw_def)
  have "fold draw ps (draw p s) = (draw p s)\<lparr>shown := (\<lambda>q. if q \<in> set ps then cells s ! (snd q * cols s + fst q)
      else shown (draw p s) q)\<rparr>"
    using Cons(1)[of "draw p s"] Cons(2) by (simp add: d cong: if_cong)
  moreover have "(\<lambda>q. if q \<in> set ps then cells s ! (snd q * cols s + fst q)
        else ((shown s)((x, y) := cells s ! (y * cols s + x))) q)
      = (\<lambda>q. if q \<in> set (p # ps) then cells s ! (snd q * cols s + fst q) else shown s q)"
    by (auto simp: p fun_eq_iff)
  ultimately show ?case by (simp add: d cong: if_cong)
qed

lemma set_rect: "set (rect ys xs) = {(x, y). x \<in> set xs \<and> y \<in> set ys}"
  by (auto simp: rect_def)

definition clear_list :: "nat \<Rightarrow> nat \<Rightarrow> vt_cell \<Rightarrow> vt_cell list \<Rightarrow> vt_cell list" where
  "clear_list a b c cs = map (\<lambda>i. if a \<le> i \<and> i < b then c else cs ! i) [0..<length cs]"

lemma clear_list_nth [simp]:
  "length (clear_list a b c cs) = length cs"
  "i < length cs \<Longrightarrow> clear_list a b c cs ! i = (if a \<le> i \<and> i < b then c else cs ! i)"
  by (simp_all add: clear_list_def)

lemma clear_list_empty: "b \<le> a \<Longrightarrow> clear_list a b c cs = cs"
  by (rule nth_equalityI) auto

definition clear_shown :: "nat \<Rightarrow> nat \<Rightarrow> nat \<Rightarrow> vt_cell \<Rightarrow> (nat \<times> nat \<Rightarrow> vt_cell) \<Rightarrow> nat \<times> nat \<Rightarrow> vt_cell" where
  "clear_shown w a b c f = (\<lambda>p. if fst p < w \<and> a \<le> snd p * w + fst p \<and> snd p * w + fst p < b then c else f p)"

lemma clear_cells_eq:
  assumes "0 < cols s" "b \<le> length (cells s)"
  shows "clear_cells a b s = s\<lparr>cells := clear_list a b (blank s) (cells s),
    shown := clear_shown (cols s) a b (blank s) (shown s)\<rparr>"
  using assms(2)
proof (induction b)
  case 0
  have "clear_shown (cols s) a 0 (blank s) (shown s) = shown s"
    by (auto simp: clear_shown_def)
  then show ?case by (simp add: clear_cells_def clear_list_empty)
next
  case (Suc b)
  show ?case
  proof (cases "a \<le> b")
    case False
    then have "clear_shown (cols s) a (Suc b) (blank s) (shown s) = shown s"
      by (auto simp: clear_shown_def fun_eq_iff)
    with False show ?thesis by (simp add: clear_cells_def clear_list_empty)
  next
    case True
    let ?s = "clear_cells a b s"
    have IH: "?s = s\<lparr>cells := clear_list a b (blank s) (cells s),
        shown := clear_shown (cols s) a b (blank s) (shown s)\<rparr>" using Suc by simp
    have "clear_cells a (Suc b) s = clear_cell b ?s" using True by (simp add: clear_cells_def)
    also have "\<dots> = s\<lparr>cells := (clear_list a b (blank s) (cells s))[b := blank s],
        shown := (clear_shown (cols s) a b (blank s) (shown s))((b mod cols s, b div cols s) := blank s)\<rparr>"
      using Suc(2) unfolding IH clear_cell_def scr_draw_def blank_def by simp
    also have "(clear_list a b (blank s) (cells s))[b := blank s] = clear_list a (Suc b) (blank s) (cells s)"
      using True Suc(2) by (intro nth_equalityI) (auto simp: nth_list_update)
    also have "(clear_shown (cols s) a b (blank s) (shown s))((b mod cols s, b div cols s) := blank s)
        = clear_shown (cols s) a (Suc b) (blank s) (shown s)"
      using True assms(1) by (auto simp: clear_shown_def fun_eq_iff less_Suc_eq)
    finally show ?thesis .
  qed
qed

definition move_list :: "nat \<Rightarrow> nat \<Rightarrow> nat \<Rightarrow> vt_cell list \<Rightarrow> vt_cell list" where
  "move_list dst src n cs = take dst cs @ take n (drop src cs) @ drop (dst + n) cs"

lemma move_list_nth:
  assumes "dst + n \<le> length cs" "src + n \<le> length cs"
  shows "length (move_list dst src n cs) = length cs"
    "i < length cs \<Longrightarrow> move_list dst src n cs ! i = (if dst \<le> i \<and> i < dst + n then cs ! (src + (i - dst)) else cs ! i)"
  using assms by (auto simp: move_list_def nth_append)

section \<open>The invariant\<close>

definition geometry :: "vt \<Rightarrow> bool" where
  "geometry s \<longleftrightarrow> 0 < cols s \<and> 1 < rows s \<and> length (cells s) = cols s * rows s \<and> cx s < cols s \<and> cy s < rows s
     \<and> top s < bottom s \<and> bottom s < rows s \<and> nparams s \<le> MAX_PARAMS \<and> length (params s) = MAX_PARAMS
     \<and> (\<forall>a. alt_cells s = Some a \<longrightarrow> length a = cols s * rows s) \<and> \<not> oob s"

definition coherent :: "vt \<Rightarrow> bool" where
  "coherent s \<longleftrightarrow> (\<forall>x < cols s. \<forall>y < rows s. shown s (x, y) = cells s ! (y * cols s + x))"

text \<open>Between two bytes the cursor is shown.\<close>

definition vt_inv :: "vt \<Rightarrow> bool" where
  "vt_inv s \<longleftrightarrow> geometry s \<and>
     (\<forall>x < cols s. \<forall>y < rows s. shown s (x, y) =
        (if \<not> hw_cursor s \<and> cursor_visible s \<and> x = cx s \<and> y = cy s
         then swap_attr (cells s ! (y * cols s + x)) else cells s ! (y * cols s + x)))"

definition vt_ok :: "vt \<Rightarrow> bool" where
  "vt_ok s \<longleftrightarrow> geometry s \<and> coherent s"

named_theorems vt_intros \<open>operations that keep the invariant\<close>

lemma coherentD: "coherent s \<Longrightarrow> x < cols s \<Longrightarrow> y < rows s \<Longrightarrow> shown s (x, y) = cells s ! (y * cols s + x)"
  by (simp add: coherent_def)

lemma clear_cells_ok [vt_intros]:
  assumes "vt_ok s" "b \<le> cols s * rows s"
  shows "vt_ok (clear_cells a b s)"
proof -
  have g: "geometry s" and c: "coherent s" using assms(1) by (simp_all add: vt_ok_def)
  have e: "clear_cells a b s = s\<lparr>cells := clear_list a b (blank s) (cells s),
      shown := clear_shown (cols s) a b (blank s) (shown s)\<rparr>"
    using g assms(2) by (intro clear_cells_eq) (simp_all add: geometry_def)
  have "geometry (clear_cells a b s)" using g by (simp add: e geometry_def)
  moreover have "coherent (clear_cells a b s)"
    unfolding coherent_def
  proof (intro allI impI)
    fix x y assume "x < cols (clear_cells a b s)" "y < rows (clear_cells a b s)"
    then have xy: "x < cols s" "y < rows s" by (simp_all add: e)
    then have "y * cols s + x < length (cells s)" using g idx_range by (simp add: geometry_def)
    with xy coherentD[OF c xy] show "shown (clear_cells a b s) (x, y) = cells (clear_cells a b s) ! (y * cols (clear_cells a b s) + x)"
      by (simp add: e clear_shown_def)
  qed
  ultimately show ?thesis by (simp add: vt_ok_def)
qed

text \<open>
  Moving a block of cells, redrawing it and clearing the part that became free, the common pattern of
  scrolling and of inserting and deleting characters. The positions are given by predicates.
\<close>

lemma move_redraw_ok:
  assumes ok: "vt_ok s" and len: "dst + n \<le> cols s * rows s" "src + n \<le> cols s * rows s"
    and ps: "\<And>x y. (x, y) \<in> set ps \<longleftrightarrow> x < cols s \<and> y < rows s \<and> dst \<le> y * cols s + x \<and> y * cols s + x < dst + n"
  shows "vt_ok (fold draw ps (move_cells dst src n s))"
    "fold draw ps (move_cells dst src n s) = s\<lparr>cells := move_list dst src n (cells s),
       shown := shown (fold draw ps (move_cells dst src n s))\<rparr>"
proof -
  have g: "geometry s" and c: "coherent s" using ok by (simp_all add: vt_ok_def)
  have l: "length (cells s) = cols s * rows s" using g by (simp add: geometry_def)
  have m: "move_cells dst src n s = s\<lparr>cells := move_list dst src n (cells s)\<rparr>"
    using len l by (simp add: move_cells_def move_list_def)
  note ml = move_list_nth[of dst n "cells s" src, folded l]
  have len': "dst + n \<le> length (cells s)" "src + n \<le> length (cells s)" using len l by simp_all
  have r: "y * cols s + x < length (cells s)" if "(x, y) \<in> set ps" for x y
    using that ps idx_range[of x "cols s" y "rows s"] l by simp
  have f: "fold draw ps (move_cells dst src n s) = s\<lparr>cells := move_list dst src n (cells s),
      shown := (\<lambda>p. if p \<in> set ps then move_list dst src n (cells s) ! (snd p * cols s + fst p) else shown s p)\<rparr>"
    using fold_draw[of ps "move_cells dst src n s"] r by (simp add: m move_list_nth(1)[OF len'] cong: if_cong)
  then show "fold draw ps (move_cells dst src n s) = s\<lparr>cells := move_list dst src n (cells s),
       shown := shown (fold draw ps (move_cells dst src n s))\<rparr>" by simp
  have "geometry (fold draw ps (move_cells dst src n s))"
    using g by (simp add: f geometry_def move_list_nth(1)[OF len'])
  moreover have "coherent (fold draw ps (move_cells dst src n s))"
    unfolding coherent_def
  proof (intro allI impI, goal_cases)
    case (1 x y)
    then have xy: "x < cols s" "y < rows s" by (simp_all add: f)
    then have i: "y * cols s + x < length (cells s)" using l idx_range by simp
    show ?case
      using xy coherentD[OF c xy] ps[of x y] move_list_nth(2)[OF len' i] by (simp add: f)
  qed
  ultimately show "vt_ok (fold draw ps (move_cells dst src n s))" by (simp add: vt_ok_def)
qed

lemma vt_okD:
  assumes "vt_ok s"
  shows "0 < cols s" "1 < rows s" "length (cells s) = cols s * rows s" "cx s < cols s" "cy s < rows s"
    "top s < bottom s" "bottom s < rows s" "nparams s \<le> MAX_PARAMS" "length (params s) = MAX_PARAMS"
  using assms by (simp_all add: vt_ok_def geometry_def)

lemma line_le: "a \<le> r \<Longrightarrow> a * c \<le> c * (r::nat)"
  by (simp add: mult.commute)

lemma scroll_up_ok:
  assumes ok: "vt_ok s" and tb: "t \<le> b" "b < rows s" and n: "min n (b - t + 1) \<le> b"
  shows "vt_ok (scroll_up t b n s)"
proof -
  define k where "k = (if n > b - t + 1 then b - t + 1 else n)"
  have k: "k \<le> b - t + 1" "k \<le> b" using n by (auto simp: k_def)
  let ?c = "cols s"
  let ?ps = "rect [t..<b - k + 1] [0..<?c]"
  let ?m = "move_cells (t * ?c) ((t + k) * ?c) ((b + 1 - t - k) * ?c) s"
  have e1: "t * ?c + (b + 1 - t - k) * ?c = (b + 1 - k) * ?c" using k tb by (simp add: add_mult_distrib[symmetric])
  have e2: "(t + k) * ?c + (b + 1 - t - k) * ?c = (b + 1) * ?c" using k tb by (simp add: add_mult_distrib[symmetric])
  have l: "(b + 1 - k) * ?c \<le> ?c * rows s" "(b + 1) * ?c \<le> ?c * rows s"
    using tb by (intro line_le; simp)+
  have ps: "(x, y) \<in> set ?ps \<longleftrightarrow> x < ?c \<and> y < rows s \<and> t * ?c \<le> y * ?c + x \<and> y * ?c + x < (b + 1 - k) * ?c" for x y
    using tb k idx_less[of x ?c y "b + 1 - k"] idx_ge[of x ?c t y] by (auto simp: set_rect)
  note m = move_redraw_ok[OF ok, of "t * ?c" "(b + 1 - t - k) * ?c" "(t + k) * ?c" ?ps, unfolded e1 e2, OF l ps]
  have mc: "cols ?m = ?c" by (simp add: move_cells_def)
  have fc: "cols (fold draw ?ps ?m) = ?c" "rows (fold draw ?ps ?m) = rows s" by (subst m(2), simp)+
  have "scroll_up t b n s = clear_cells ((b + 1 - k) * ?c) ((b + 1) * ?c) (fold draw ?ps ?m)"
    using k(2) unfolding scroll_up_def Let_def k_def[symmetric] mc by (simp only: not_less[symmetric] if_False)
  then show ?thesis using clear_cells_ok[OF m(1)] l(2) fc by simp
qed

lemma scroll_down_ok:
  assumes ok: "vt_ok s" and tb: "t \<le> b" "b < rows s"
  shows "vt_ok (scroll_down t b n s)"
proof -
  define k where "k = (if n > b - t + 1 then b - t + 1 else n)"
  have k: "k \<le> b - t + 1" by (auto simp: k_def)
  let ?c = "cols s"
  let ?ps = "rect [t + k..<b + 1] [0..<?c]"
  let ?m = "move_cells ((t + k) * ?c) (t * ?c) ((b + 1 - t - k) * ?c) s"
  have e1: "t * ?c + (b + 1 - t - k) * ?c = (b + 1 - k) * ?c" using k tb by (simp add: add_mult_distrib[symmetric])
  have e2: "(t + k) * ?c + (b + 1 - t - k) * ?c = (b + 1) * ?c" using k tb by (simp add: add_mult_distrib[symmetric])
  have l: "(b + 1) * ?c \<le> ?c * rows s" "(b + 1 - k) * ?c \<le> ?c * rows s" "(t + k) * ?c \<le> ?c * rows s"
    using tb k by (intro line_le; simp)+
  have ps: "(x, y) \<in> set ?ps \<longleftrightarrow> x < ?c \<and> y < rows s \<and> (t + k) * ?c \<le> y * ?c + x \<and> y * ?c + x < (b + 1) * ?c" for x y
    using tb k idx_less[of x ?c y "b + 1"] idx_ge[of x ?c "t + k" y] by (auto simp: set_rect)
  note m = move_redraw_ok[OF ok, of "(t + k) * ?c" "(b + 1 - t - k) * ?c" "t * ?c" ?ps, unfolded e1 e2, OF l(1,2) ps]
  have mc: "cols ?m = ?c" by (simp add: move_cells_def)
  have fc: "cols (fold draw ?ps ?m) = ?c" "rows (fold draw ?ps ?m) = rows s" by (subst m(2), simp)+
  have "scroll_down t b n s = clear_cells (t * ?c) ((t + k) * ?c) (fold draw ?ps ?m)"
    unfolding scroll_down_def Let_def k_def[symmetric] mc by (rule refl)
  then show ?thesis using clear_cells_ok[OF m(1)] l(3) fc by simp
qed

lemma insert_chars_ok:
  assumes ok: "vt_ok s"
  shows "vt_ok (insert_chars n s)"
proof -
  define k where "k = min n (cols s - cx s)"
  note g = vt_okD[OF ok]
  let ?c = "cols s"
  let ?l = "cy s * ?c"
  let ?ps = "rect [cy s] [cx s + k..<?c]"
  let ?m = "move_cells (?l + cx s + k) (?l + cx s) (?c - cx s - k) s"
  have k: "cx s + k \<le> ?c" using g by (simp add: k_def)
  have e: "?l + cx s + k + (?c - cx s - k) = ?l + ?c" "?l + cx s + (?c - cx s - k) = ?l + ?c - k" using k by auto
  have l: "?l + ?c \<le> ?c * rows s" using line_le[of "Suc (cy s)" "rows s" ?c] g by simp
  have row: "x < ?c \<Longrightarrow> ?l \<le> y * ?c + x \<and> y * ?c + x < ?l + ?c \<longleftrightarrow> y = cy s" for x y
    using idx_less[of x ?c y "Suc (cy s)"] idx_ge[of x ?c "cy s" y] by auto
  have ps: "(x, y) \<in> set ?ps \<longleftrightarrow> x < ?c \<and> y < rows s \<and> ?l + cx s + k \<le> y * ?c + x \<and> y * ?c + x < ?l + ?c" for x y
    using row[of x y] g(5) by (auto simp: set_rect)
  note m = move_redraw_ok[OF ok, of "?l + cx s + k" "?c - cx s - k" "?l + cx s" ?ps, unfolded e, OF l _ ps]
  have l2: "?l + ?c - k \<le> ?c * rows s" using l by simp
  note m = m[OF l2]
  have mc: "cols ?m = ?c" "cx ?m = cx s" "cy ?m = cy s" by (simp_all add: move_cells_def)
  have fc: "cols (fold draw ?ps ?m) = ?c" "rows (fold draw ?ps ?m) = rows s" "cx (fold draw ?ps ?m) = cx s"
    by (subst m(2), simp)+
  have "insert_chars n s = clear_cells (?l + cx s) (?l + cx s + k) (fold draw ?ps ?m)"
    unfolding insert_chars_def Let_def k_def[symmetric] mc fc(3) by (rule refl)
  then show ?thesis using clear_cells_ok[OF m(1)] l k fc by simp
qed

lemma delete_chars_ok:
  assumes ok: "vt_ok s"
  shows "vt_ok (delete_chars n s)"
proof -
  define k where "k = min n (cols s - cx s)"
  note g = vt_okD[OF ok]
  let ?c = "cols s"
  let ?l = "cy s * ?c"
  let ?ps = "rect [cy s] [cx s..<?c - k]"
  let ?m = "move_cells (?l + cx s) (?l + cx s + k) (?c - cx s - k) s"
  have k: "cx s + k \<le> ?c" using g by (simp add: k_def)
  have e: "?l + cx s + k + (?c - cx s - k) = ?l + ?c" "?l + cx s + (?c - cx s - k) = ?l + ?c - k" using k by auto
  have l: "?l + ?c \<le> ?c * rows s" using line_le[of "Suc (cy s)" "rows s" ?c] g by simp
  then have l2: "?l + ?c - k \<le> ?c * rows s" by simp
  have row: "x < ?c \<Longrightarrow> ?l \<le> y * ?c + x \<and> y * ?c + x < ?l + ?c \<longleftrightarrow> y = cy s" for x y
    using idx_less[of x ?c y "Suc (cy s)"] idx_ge[of x ?c "cy s" y] by auto
  have ps: "(x, y) \<in> set ?ps \<longleftrightarrow> x < ?c \<and> y < rows s \<and> ?l + cx s \<le> y * ?c + x \<and> y * ?c + x < ?l + ?c - k" for x y
    using row[of x y] g(5) k by (auto simp: set_rect)
  note m = move_redraw_ok[OF ok, of "?l + cx s" "?c - cx s - k" "?l + cx s + k" ?ps, unfolded e, OF l2 l ps]
  have mc: "cols ?m = ?c" "cx ?m = cx s" "cy ?m = cy s" by (simp_all add: move_cells_def)
  have fc: "cols (fold draw ?ps ?m) = ?c" "rows (fold draw ?ps ?m) = rows s" by (subst m(2), simp)+
  have "delete_chars n s = clear_cells (?l + ?c - k) (?l + ?c) (fold draw ?ps ?m)"
    unfolding delete_chars_def Let_def k_def[symmetric] mc fc by (rule refl)
  then show ?thesis using clear_cells_ok[OF m(1)] l fc by simp
qed

lemmas vt_ok_unfold = vt_ok_def geometry_def coherent_def

lemma vt_ok_other [simp]:
  "vt_ok (s\<lparr>fg := f\<rparr>) = vt_ok s" "vt_ok (s\<lparr>bg := f\<rparr>) = vt_ok s" "vt_ok (s\<lparr>bold := o'\<rparr>) = vt_ok s"
  "vt_ok (s\<lparr>reverse := o'\<rparr>) = vt_ok s" "vt_ok (s\<lparr>st := q\<rparr>) = vt_ok s" "vt_ok (s\<lparr>wrap_pending := o'\<rparr>) = vt_ok s"
  "vt_ok (s\<lparr>saved_x := n\<rparr>) = vt_ok s" "vt_ok (s\<lparr>saved_y := n\<rparr>) = vt_ok s" "vt_ok (s\<lparr>main_x := n\<rparr>) = vt_ok s"
  "vt_ok (s\<lparr>main_y := n\<rparr>) = vt_ok s" "vt_ok (s\<lparr>cursor_visible := o'\<rparr>) = vt_ok s" "vt_ok (s\<lparr>alt_active := o'\<rparr>) = vt_ok s"
  "vt_ok (s\<lparr>param_started := o'\<rparr>) = vt_ok s" "vt_ok (s\<lparr>priv := f\<rparr>) = vt_ok s" "vt_ok (s\<lparr>utf_cp := w\<rparr>) = vt_ok s"
  "vt_ok (s\<lparr>utf_need := n\<rparr>) = vt_ok s" "vt_ok (s\<lparr>response := r\<rparr>) = vt_ok s" "vt_ok (s\<lparr>response_len := n\<rparr>) = vt_ok s"
  "vt_ok (s\<lparr>hw_pos := hp\<rparr>) = vt_ok s"
  by (simp_all add: vt_ok_unfold)

lemma vt_ok_cx: "vt_ok s \<Longrightarrow> x < cols s \<Longrightarrow> vt_ok (s\<lparr>cx := x\<rparr>)"
  by (simp add: vt_ok_unfold)

lemma vt_ok_cy: "vt_ok s \<Longrightarrow> y < rows s \<Longrightarrow> vt_ok (s\<lparr>cy := y\<rparr>)"
  by (simp add: vt_ok_unfold)

lemma set_cursor_ok: "vt_ok s \<Longrightarrow> vt_ok (set_cursor x y s)"
  by (simp add: set_cursor_def vt_ok_unfold min_less_iff_disj)

lemma linefeed_ok: "vt_ok s \<Longrightarrow> vt_ok (linefeed s)"
  using vt_okD[of s] by (auto simp: linefeed_def intro!: scroll_up_ok vt_ok_cy)

lemma store_cell_ok:
  assumes "vt_ok s"
  shows "vt_ok (scr_draw (cx s) (cy s) c (s\<lparr>cells := (cells s)[cy s * cols s + cx s := c]\<rparr>))"
proof -
  have g: "geometry s" and h: "coherent s" using assms by (simp_all add: vt_ok_def)
  note d = vt_okD[OF assms]
  have "y * cols s + x = cy s * cols s + cx s \<longleftrightarrow> x = cx s \<and> y = cy s" if "x < cols s" for x y
    using that d(4) by (metis idx_div_mod)
  moreover have "y * cols s + x < length (cells s)" if "x < cols s" "y < rows s" for x y
    using that d(3) idx_range by simp
  ultimately have "coherent (scr_draw (cx s) (cy s) c (s\<lparr>cells := (cells s)[cy s * cols s + cx s := c]\<rparr>))"
    using coherentD[OF h] unfolding coherent_def scr_draw_def
    by (auto simp del: nth_list_update_neq) (metis nth_list_update_neq)+
  with g show ?thesis by (simp add: vt_ok_def geometry_def scr_draw_def)
qed

lemma put_char_ok:
  assumes "vt_ok s"
  shows "vt_ok (put_char c s)"
proof -
  define s1 where "s1 = (if wrap_pending s then linefeed (s\<lparr>wrap_pending := False, cx := 0\<rparr>) else s)"
  define cell where "cell = \<lparr>cp = ucast (if c > 0xFFFF then 63 else c), attr = cur_attr s1\<rparr>"
  define s2 where "s2 = scr_draw (cx s1) (cy s1) cell (s1\<lparr>cells := (cells s1)[cy s1 * cols s1 + cx s1 := cell]\<rparr>)"
  have ok1: "vt_ok s1" using assms vt_okD[OF assms] by (auto simp: s1_def intro!: linefeed_ok vt_ok_cx)
  note d = vt_okD[OF ok1]
  have "cy s1 * cols s1 + cx s1 < length (cells s1)" using d idx_range by simp
  then have p: "put_char c s = (if cx s2 = cols s2 - 1 then s2\<lparr>wrap_pending := True\<rparr> else s2\<lparr>cx := cx s2 + 1\<rparr>)"
    unfolding put_char_def Let_def s1_def[symmetric] cell_def[symmetric] by (simp add: s2_def)
  have ok2: "vt_ok s2" unfolding s2_def using ok1 by (rule store_cell_ok)
  show ?thesis using vt_okD(4)[OF ok2] ok2 by (auto simp: p intro!: vt_ok_cx)
qed

lemma sgr_one_ok: "vt_ok s \<Longrightarrow> vt_ok (fst (sgr_one i s))"
  by (simp add: sgr_one_def Let_def split: prod.splits)

lemma sgr_from_ok: "vt_ok s \<Longrightarrow> vt_ok (sgr_from i n s)"
proof (induction i n s rule: sgr_from.induct)
  case (1 i n s)
  obtain s' k where k: "sgr_one i s = (s', k)" by fastforce
  with sgr_one_ok[OF 1(2), of i] have "vt_ok s'" by simp
  with 1 k show ?case by (simp add: sgr_from.simps[of i n s])
qed

lemma sgr_ok: "vt_ok s \<Longrightarrow> vt_ok (sgr s)"
proof -
  assume ok: "vt_ok s"
  then have "vt_ok (s\<lparr>nparams := 1, params := (params s)[0 := 0]\<rparr>)" by (simp add: vt_ok_unfold)
  with ok show "vt_ok (sgr s)" by (simp add: sgr_def Let_def sgr_from_ok)
qed

lemma redraw_ok:
  assumes "geometry s"
  shows "vt_ok (redraw s)"
proof -
  have l: "length (cells s) = cols s * rows s" using assms by (simp add: geometry_def)
  have e: "redraw s = s\<lparr>shown := (\<lambda>p. if p \<in> set (rect [0..<rows s] [0..<cols s]) then cells s ! (snd p * cols s + fst p) else shown s p)\<rparr>"
    unfolding redraw_def by (rule fold_draw) (auto simp: set_rect l idx_range)
  show ?thesis using assms by (simp add: e vt_ok_def coherent_def set_rect) (simp add: geometry_def)
qed

lemma set_alt_screen_ok:
  assumes "vt_ok s"
  shows "vt_ok (set_alt_screen on s)"
proof (cases "alt_cells s")
  case None
  with assms show ?thesis by (simp add: set_alt_screen_def)
next
  case (Some alt)
  have g: "geometry s" using assms by (simp add: vt_ok_def)
  have "vt_ok (s\<lparr>alt_cells := Some (cells s), main_x := cx s, main_y := cy s\<rparr>)"
    using assms by (simp add: vt_ok_unfold)
  moreover have "geometry (set_cursor x y (s\<lparr>cells := alt\<rparr>))" for x y
    using g Some by (simp add: geometry_def set_cursor_def min_less_iff_disj)
  ultimately show ?thesis
    using assms Some by (auto simp: set_alt_screen_def intro!: redraw_ok clear_cells_ok)
qed

lemma private_mode_ok: "vt_ok s \<Longrightarrow> vt_ok (private_mode on p s)"
  by (simp add: private_mode_def set_alt_screen_ok)

lemma fold_private_ok: "vt_ok s \<Longrightarrow> vt_ok (fold (private_mode on) ps s)"
  by (induction ps arbitrary: s) (simp_all add: private_mode_ok)

lemma cursor_line:
  assumes "vt_ok s"
  shows "cy s * cols s + cols s \<le> cols s * rows s" "cy s * cols s + cx s < cols s * rows s"
  using vt_okD[OF assms] line_le[of "Suc (cy s)" "rows s" "cols s"] idx_range[of "cx s" "cols s" "cy s" "rows s"] by simp_all

lemma erase_ok: "vt_ok s \<Longrightarrow> vt_ok (erase_display s)" "vt_ok s \<Longrightarrow> vt_ok (erase_line s)"
  using cursor_line[of s] vt_okD(4)[of s]
  by (auto simp: erase_display_def erase_line_def Let_def intro!: clear_cells_ok)

lemma set_region_ok:
  assumes "vt_ok s"
  shows "vt_ok (set_region s)"
proof -
  have "vt_ok (s\<lparr>top := t, bottom := b\<rparr>)" if "t < b" "b < rows s" for t b
    using assms that by (simp add: vt_ok_unfold)
  with assms show ?thesis by (auto simp: set_region_def Let_def intro!: set_cursor_ok)
qed

lemma report_cursor_ok: "vt_ok s \<Longrightarrow> vt_ok (report_cursor s)"
  by (simp add: report_cursor_def split: option.split)

text \<open>The commands that scroll a region starting in line 0 by its whole height.\<close>

definition overscroll :: "u8 \<Rightarrow> vt \<Rightarrow> bool" where
  "overscroll c s \<longleftrightarrow> st s = S_CSI \<and> \<not> is_char (priv s) CHR ''?'' \<and> top s = 0 \<and> bottom s < param 0 1 s \<and>
     (is_char c CHR ''S'' \<or> (is_char c CHR ''M'' \<and> cy s = 0))"

lemma csi_dispatch_ok:
  assumes ok: "vt_ok s" and s: "st s = S_CSI" and no: "\<not> overscroll c s"
  shows "vt_ok (csi_dispatch c s)"
proof -
  note d = vt_okD[OF ok] and l = cursor_line[OF ok]
  have up: "vt_ok (scroll_up t (bottom s) (param 0 1 s) s)"
    if "t = top s \<and> is_char c CHR ''S'' \<or> t = cy s \<and> top s \<le> cy s \<and> is_char c CHR ''M''" "t \<le> bottom s"
      "\<not> is_char (priv s) CHR ''?''" for t
    using that no s d by (intro scroll_up_ok ok) (auto simp: overscroll_def)
  show ?thesis
    unfolding csi_dispatch_def Let_def
    by (auto intro!: set_cursor_ok fold_private_ok erase_ok scroll_down_ok insert_chars_ok delete_chars_ok
        sgr_ok set_region_ok report_cursor_ok clear_cells_ok up[unfolded One_nat_def] ok less_imp_le[OF d(6)] simp: ok d)
      (use l d in \<open>auto simp: min_def\<close>)
qed

lemma control_ok: "vt_ok s \<Longrightarrow> vt_ok (control c s)"
  using vt_okD[of s] by (auto simp: control_def intro!: linefeed_ok vt_ok_cx)

lemma normal_byte_ok: "vt_ok s \<Longrightarrow> vt_ok (normal_byte c s)"
  by (simp add: normal_byte_def control_ok put_char_ok)

lemma state_normal_ok: "vt_ok s \<Longrightarrow> vt_ok (state_normal c s)"
  by (simp add: state_normal_def Let_def normal_byte_ok put_char_ok)

lemma full_reset_ok: "vt_ok s \<Longrightarrow> vt_ok (full_reset s)"
proof -
  assume ok: "vt_ok s"
  then have "vt_ok (s\<lparr>fg := 7, bg := 0, bold := False, reverse := False, top := 0, bottom := rows s - 1,
                cursor_visible := True\<rparr>)"
    by (simp add: vt_ok_unfold)
  then show "vt_ok (full_reset s)" by (simp add: full_reset_def Let_def set_cursor_ok clear_cells_ok)
qed

lemma state_esc_ok:
  assumes "vt_ok s"
  shows "vt_ok (state_esc c s)"
proof -
  have ok: "vt_ok (s\<lparr>st := S_NORMAL\<rparr>)" using assms by simp
  have "vt_ok (s\<lparr>st := S_CSI, nparams := 0, param_started := False, priv := 0, params := replicate MAX_PARAMS 0\<rparr>)"
    using assms by (simp add: vt_ok_unfold)
  with ok show ?thesis
    using vt_okD[OF assms] unfolding state_esc_def Let_def
    by (auto intro!: set_cursor_ok linefeed_ok full_reset_ok scroll_down_ok vt_ok_cy vt_ok_cx)
qed

lemma state_csi_ok:
  assumes "vt_ok s" "st s = S_CSI" "\<not> overscroll c s"
  shows "vt_ok (state_csi c s)"
proof -
  have "vt_ok (s\<lparr>nparams := n, params := ps, param_started := b\<rparr>)" if "n \<le> MAX_PARAMS" "length ps = MAX_PARAMS" for n ps b
    using assms(1) that by (simp add: vt_ok_unfold)
  moreover have "vt_ok (s\<lparr>nparams := n\<rparr>)" if "n \<le> MAX_PARAMS" for n
    using assms(1) that by (simp add: vt_ok_unfold)
  moreover have "vt_ok (s\<lparr>params := ps, param_started := b\<rparr>)" if "length ps = MAX_PARAMS" for ps b
    using assms(1) that by (simp add: vt_ok_unfold)
  ultimately show ?thesis
    using vt_okD[OF assms(1)] assms csi_dispatch_ok[OF assms]
    unfolding state_csi_def Let_def by (auto intro: control_ok)
qed

lemma hide_cursor_ok:
  assumes "vt_inv s"
  shows "vt_ok (hide_cursor s)" "st (hide_cursor s) = st s" "\<And>c. overscroll c (hide_cursor s) = overscroll c s"
proof -
  have g: "geometry s" using assms by (simp add: vt_inv_def)
  then have i: "cy s * cols s + cx s < length (cells s)" "cursor_x s = cx s"
    using idx_range by (auto simp: geometry_def cursor_x_def)
  then have e: "hide_cursor s = (if \<not> hw_cursor s \<and> cursor_visible s
      then s\<lparr>shown := (shown s)((cx s, cy s) := cells s ! (cy s * cols s + cx s))\<rparr> else s)"
    by (simp add: hide_cursor_def draw_def scr_draw_def)
  have "geometry (hide_cursor s)" using g by (simp add: e geometry_def)
  moreover have "coherent (hide_cursor s)"
    using assms by (auto simp: e vt_inv_def coherent_def)
  ultimately show "vt_ok (hide_cursor s)" by (simp add: vt_ok_def)
  show "st (hide_cursor s) = st s" by (simp add: e)
  show "overscroll c (hide_cursor s) = overscroll c s" for c by (simp add: e overscroll_def param_def)
qed

lemma show_cursor_inv:
  assumes "vt_ok s"
  shows "vt_inv (show_cursor s)"
proof -
  have x: "cursor_x s = cx s" using vt_okD[OF assms] by (simp add: cursor_x_def)
  have g: "geometry (show_cursor s)" using assms by (simp add: show_cursor_def scr_draw_def vt_ok_def geometry_def)
  have c: "coherent s" using assms by (simp add: vt_ok_def)
  show ?thesis
    using g coherentD[OF c] unfolding vt_inv_def by (auto simp: show_cursor_def scr_draw_def x)
qed

lemma vt_putc_inv:
  assumes "vt_inv s" "\<not> overscroll c s"
  shows "vt_inv (vt_putc c s)"
proof (cases "attached s")
  case False
  with assms show ?thesis by (simp add: vt_putc_def)
next
  case True
  note h = hide_cursor_ok[OF assms(1)]
  let ?s = "hide_cursor s"
  have "vt_ok (case st ?s of S_NORMAL \<Rightarrow> state_normal c ?s | S_ESC \<Rightarrow> state_esc c ?s | S_CSI \<Rightarrow> state_csi c ?s
      | S_OSC \<Rightarrow> state_osc c ?s | S_OSC_ESC \<Rightarrow> ?s\<lparr>st := (if is_char c CHR 0x5C then S_NORMAL else S_OSC)\<rparr>)"
    using h assms(2) state_csi_ok[OF h(1)]
    by (cases "st ?s") (simp_all add: state_normal_ok state_esc_ok state_osc_def)
  with True show ?thesis by (simp add: vt_putc_def Let_def show_cursor_inv)
qed

section \<open>The alternate screen\<close>

text \<open>What the alternate screen keeps of the main screen, and the geometry it relies on.\<close>

definition kept :: "vt \<Rightarrow> vt_cell list option \<times> bool \<times> nat \<times> nat \<times> nat \<times> nat" where
  "kept s = (alt_cells s, alt_active s, main_x s, main_y s, cols s, rows s)"

named_theorems kept_simps \<open>operations that leave the saved main screen alone\<close>

lemma kept_fold: "(\<And>x s. kept (f x s) = kept s) \<Longrightarrow> kept (fold f xs s) = kept s"
  by (induction xs arbitrary: s) simp_all

lemma kept_draw [kept_simps]: "kept (draw p s) = kept s" "kept (fold draw ps s) = kept s"
proof -
  show d: "kept (draw p s) = kept s" for p s by (simp add: draw_def scr_draw_def kept_def split: prod.split)
  show "kept (fold draw ps s) = kept s" by (rule kept_fold) (rule d)
qed

lemma kept_clear [kept_simps]: "kept (clear_cells a b s) = kept s"
  unfolding clear_cells_def by (rule kept_fold) (simp add: clear_cell_def scr_draw_def kept_def)

lemma kept_move [kept_simps]: "kept (move_cells d r n s) = kept s"
  by (simp add: move_cells_def kept_def)

lemma kept_cursor [kept_simps]: "kept (set_cursor x y s) = kept s" "kept (show_cursor s) = kept s" "kept (hide_cursor s) = kept s"
  by (simp_all add: set_cursor_def show_cursor_def hide_cursor_def scr_draw_def kept_simps) (simp_all add: kept_def)

lemma kept_oob [kept_simps]: "kept (s\<lparr>oob := b\<rparr>) = kept s" "kept (s\<lparr>st := q\<rparr>) = kept s"
  "kept (s\<lparr>nparams := n\<rparr>) = kept s" "kept (s\<lparr>params := ps\<rparr>) = kept s" "kept (s\<lparr>param_started := b\<rparr>) = kept s"
  "kept (s\<lparr>priv := p\<rparr>) = kept s"
  by (simp_all add: kept_def)

lemma kept_scroll [kept_simps]: "kept (scroll_up t b n s) = kept s" "kept (scroll_down t b n s) = kept s"
  "kept (insert_chars n s) = kept s" "kept (delete_chars n s) = kept s"
  by (simp_all add: scroll_up_def scroll_down_def insert_chars_def delete_chars_def Let_def kept_simps)

lemma kept_linefeed [kept_simps]: "kept (linefeed s) = kept s"
  by (simp add: linefeed_def kept_simps) (simp add: kept_def)

lemma kept_put_char [kept_simps]: "kept (put_char c s) = kept s"
proof -
  define s1 where "s1 = (if wrap_pending s then linefeed (s\<lparr>wrap_pending := False, cx := 0\<rparr>) else s)"
  have k1: "kept s1 = kept s" by (simp add: s1_def kept_simps) (simp add: kept_def)
  show ?thesis
    unfolding put_char_def Let_def s1_def[symmetric] k1[symmetric] by (simp add: kept_def scr_draw_def)
qed

lemma kept_sgr_from: "kept (sgr_from i n s) = kept s"
proof (induction i n s rule: sgr_from.induct)
  case (1 i n s)
  obtain s' k where k: "sgr_one i s = (s', k)" by fastforce
  have "kept (fst (sgr_one i s)) = kept s"
    by (simp add: sgr_one_def Let_def kept_def split: prod.splits)
  with 1 k show ?case by (simp add: sgr_from.simps[of i n s])
qed

lemma kept_sgr [kept_simps]: "kept (sgr s) = kept s"
  by (simp add: sgr_def Let_def kept_sgr_from) (simp add: kept_def)

lemma kept_other [kept_simps]: "kept (erase_display s) = kept s" "kept (erase_line s) = kept s"
  "kept (set_region s) = kept s" "kept (report_cursor s) = kept s" "kept (control c s) = kept s"
  "kept (full_reset s) = kept s" "kept (state_osc c s) = kept s"
  by (simp_all add: erase_display_def erase_line_def set_region_def report_cursor_def control_def full_reset_def
      state_osc_def Let_def kept_simps split: option.split)
    (simp_all add: kept_def)

lemma kept_normal [kept_simps]: "kept (normal_byte c s) = kept s" "kept (state_normal c s) = kept s"
proof -
  show n: "kept (normal_byte c s) = kept s" for s
    by (simp add: normal_byte_def kept_simps) (simp add: kept_def)
  show "kept (state_normal c s) = kept s"
    by (simp add: state_normal_def Let_def kept_simps n) (simp add: kept_def)
qed

lemma kept_esc [kept_simps]: "kept (state_esc c s) = kept s"
  by (simp add: state_esc_def Let_def kept_simps) (simp add: kept_def)

lemma alt_active_off: "\<not> alt_active (set_alt_screen False s) \<or> alt_cells s = None"
  by (auto simp: set_alt_screen_def split: option.split)

lemma kept_private:
  assumes "alt_active s" "alt_cells s \<noteq> None" "alt_active (fold (private_mode on) ps s)"
  shows "kept (fold (private_mode on) ps s) = kept s"
proof -
  have off: "\<not> alt_active (fold (private_mode False) ps s)" if "\<not> alt_active s" for ps s
    using that by (induction ps arbitrary: s) (auto simp: private_mode_def set_alt_screen_def split: option.splits)
  show ?thesis using assms
  proof (induction ps arbitrary: s)
    case (Cons p ps)
    then obtain alt where alt: "alt_cells s = Some alt" by blast
    show ?case
    proof (cases "p = 1049 \<or> p = 47 \<or> p = 1047")
      case False
      then have p: "private_mode on p s = (if p = 25 then s\<lparr>cursor_visible := on\<rparr> else s)" by (simp add: private_mode_def)
      have "kept (private_mode on p s) = kept s" by (simp add: p kept_def)
      moreover have "alt_active (private_mode on p s)" "alt_cells (private_mode on p s) \<noteq> None"
        using Cons(2,3) by (simp_all add: p)
      ultimately show ?thesis using Cons(1)[of "private_mode on p s"] Cons(4) by simp
    next
      case True
      then have p: "private_mode on p s = set_alt_screen on s" by (auto simp: private_mode_def)
      show ?thesis
      proof (cases on)
        case True
        with alt Cons(2) have "private_mode on p s = s" unfolding p by (simp add: set_alt_screen_def)
        with Cons show ?thesis by simp
      next
        case False
        have "\<not> alt_active (set_alt_screen False s)" using alt_active_off alt by (metis option.distinct(1))
        then have "\<not> alt_active (fold (private_mode on) (p # ps) s)" using off False p by simp
        with Cons(4) show ?thesis by simp
      qed
    qed
  qed simp
qed

lemma kept_csi:
  assumes "alt_active s" "alt_cells s \<noteq> None" "alt_active (csi_dispatch c s)"
  shows "kept (csi_dispatch c s) = kept s"
proof (cases "is_char (priv s) CHR ''?''")
  case True
  with assms show ?thesis by (auto simp: csi_dispatch_def Let_def kept_private split: if_splits)
next
  case False
  then show ?thesis unfolding csi_dispatch_def Let_def by (simp add: kept_simps) (simp add: kept_def)
qed

lemma kept_eq_alt: "kept s = kept s' \<Longrightarrow> alt_active s = alt_active s' \<and> alt_cells s = alt_cells s' \<and> main_x s = main_x s'
    \<and> main_y s = main_y s' \<and> cols s = cols s' \<and> rows s = rows s'"
  by (simp add: kept_def)

lemma kept_state_csi_cases: "kept (state_csi c s) = kept s \<or> kept (state_csi c s) = kept (csi_dispatch c s)"
  unfolding state_csi_def Let_def by (simp add: kept_simps)

lemma kept_state_csi:
  assumes "alt_active s" "alt_cells s \<noteq> None" "alt_active (state_csi c s)"
  shows "kept (state_csi c s) = kept s"
  using kept_state_csi_cases[of c s]
proof
  assume d: "kept (state_csi c s) = kept (csi_dispatch c s)"
  with assms kept_eq_alt[OF d] kept_csi[of s c] show ?thesis by simp
qed

lemma kept_vt_putc:
  assumes "alt_active s" "alt_cells s \<noteq> None" "alt_active (vt_putc c s)"
  shows "kept (vt_putc c s) = kept s"
proof (cases "attached s")
  case False
  then show ?thesis by (simp add: vt_putc_def)
next
  case True
  let ?s = "hide_cursor s"
  let ?t = "case st ?s of S_NORMAL \<Rightarrow> state_normal c ?s | S_ESC \<Rightarrow> state_esc c ?s | S_CSI \<Rightarrow> state_csi c ?s
      | S_OSC \<Rightarrow> state_osc c ?s | S_OSC_ESC \<Rightarrow> ?s\<lparr>st := (if is_char c CHR 0x5C then S_NORMAL else S_OSC)\<rparr>"
  have e: "vt_putc c s = show_cursor ?t" using True by (simp add: vt_putc_def Let_def)
  have h: "kept ?s = kept s" by (rule kept_simps)
  have t: "kept (vt_putc c s) = kept ?t" by (simp add: e kept_simps)
  then have a: "alt_active ?t" using assms(3) kept_eq_alt by metis
  have "kept ?t = kept ?s"
  proof (cases "st ?s")
    case S_CSI
    have "alt_active ?s" "alt_cells ?s \<noteq> None" using assms kept_eq_alt[OF h] by auto
    with S_CSI a show ?thesis using kept_state_csi[of ?s c] by simp
  qed (simp_all add: kept_simps)
  with t h show ?thesis by simp
qed

section \<open>Properties\<close>

lemma vt_write_append: "vt_write (as @ bs) s = vt_write bs (vt_write as s)"
  by (simp add: vt_write_def)

lemma vt_write_Nil [simp]: "vt_write [] s = s"
  by (simp add: vt_write_def)

lemma vt_attach_inv:
  assumes "0 < c" "1 < r" "length cs = c * r" "\<forall>a. alt = Some a \<longrightarrow> length a = c * r"
    "length (params s) = MAX_PARAMS" "nparams s \<le> MAX_PARAMS" "\<not> oob s"
  shows "vt_inv (fst (vt_attach c r hwc (Some cs) alt s))"
proof -
  let ?s = "s\<lparr>alt_cells := alt, hw_cursor := hwc, attached := True, cells := cs, cols := c, rows := r,
                     top := 0, bottom := r - 1, cx := 0, cy := 0\<rparr>"
  have g: "geometry ?s" using assms by (simp add: geometry_def)
  have e: "clear_cells 0 (cols ?s * rows ?s) ?s = ?s\<lparr>cells := clear_list 0 (c * r) (blank ?s) cs,
      shown := clear_shown c 0 (c * r) (blank ?s) (shown ?s)\<rparr>"
    using clear_cells_eq[of ?s "c * r" 0] assms by simp
  have "coherent (clear_cells 0 (cols ?s * rows ?s) ?s)"
    unfolding coherent_def e using assms idx_range by (simp add: clear_shown_def)
  moreover have "geometry (clear_cells 0 (cols ?s * rows ?s) ?s)" unfolding e using g by (simp add: geometry_def)
  ultimately have "vt_ok (clear_cells 0 (cols ?s * rows ?s) ?s)" by (simp add: vt_ok_def)
  then show ?thesis unfolding vt_attach_def by (simp add: Let_def show_cursor_inv)
qed

text \<open>
  C33. The screen is the cell buffer. From any state that satisfies the invariant, whatever bytes are
  written, provided none of them completes a command that scrolls a region starting in line 0 by its
  whole height, the cursor and the scroll region stay on the screen, no cell outside the buffer is
  touched, and every position of the screen shows the cell of the buffer, the cursor position with
  swapped colours. Attaching a screen of at least two lines establishes the invariant.
\<close>

theorem vt_write_keeps_screen:
  assumes "vt_inv s" "\<forall>k < length bs. \<not> overscroll (bs ! k) (vt_write (take k bs) s)"
  shows "vt_inv (vt_write bs s)"
  using assms(2)
proof (induction bs rule: rev_induct)
  case Nil
  with assms(1) show ?case by simp
next
  case (snoc c bs)
  have "\<forall>k < length bs. \<not> overscroll (bs ! k) (vt_write (take k bs) s)"
  proof (intro allI impI)
    fix k assume "k < length bs"
    then show "\<not> overscroll (bs ! k) (vt_write (take k bs) s)" using snoc(2)[rule_format, of k] by (simp add: nth_append)
  qed
  then have "vt_inv (vt_write bs s)" by (rule snoc(1))
  moreover have "\<not> overscroll c (vt_write bs s)" using snoc(2)[rule_format, of "length bs"] by simp
  ultimately show ?case using vt_putc_inv by (simp add: vt_write_append) (simp add: vt_write_def)
qed

text \<open>
  Scrolling a whole region overruns the buffer. The commands excluded above do not only look
  wrong: each of them makes the redraw loop run past the last line and read cells outside the buffer,
  from every state that satisfies the invariant.
\<close>

theorem overscroll_out_of_bounds:
  assumes "vt_inv s" "attached s" "overscroll c s"
  shows "oob (vt_putc c s)"
proof -
  note h = hide_cursor_ok[OF assms(1)]
  let ?s = "hide_cursor s"
  have st: "st ?s = S_CSI" and o: "overscroll c ?s" using h assms by (simp_all add: overscroll_def)
  have up: "oob (scroll_up 0 (bottom ?s) (param 0 1 ?s) ?s)"
    using o by (simp add: scroll_up_def Let_def overscroll_def)
  have "oob (csi_dispatch c ?s)"
    using o up by (auto simp: csi_dispatch_def Let_def overscroll_def)
  moreover have "state_csi c ?s = (csi_dispatch c ?s)\<lparr>st := S_NORMAL\<rparr>"
    using o by (auto simp: state_csi_def overscroll_def word_le_nat_alt word_less_nat_alt)
  ultimately show ?thesis
    using assms(2) st by (simp add: vt_putc_def Let_def show_cursor_def scr_draw_def)
qed

text \<open>
  The alternate screen gives the main screen back. Between switching to the alternate screen and
  switching back a program may write anything (that does not itself switch back): the cells of the
  main screen and its cursor position are restored.
\<close>

theorem alt_screen_roundtrip:
  assumes "vt_ok s" "alt_cells s \<noteq> None" "\<not> alt_active s"
    and "\<forall>k \<le> length bs. alt_active (vt_write (take k bs) (set_alt_screen True s))"
  shows "let s' = set_alt_screen False (vt_write bs (set_alt_screen True s))
    in cells s' = cells s \<and> cx s' = cx s \<and> cy s' = cy s \<and> \<not> alt_active s'"
proof -
  let ?a = "set_alt_screen True s"
  have ka: "kept ?a = (Some (cells s), True, cx s, cy s, cols s, rows s)"
    using assms(2,3) kept_clear[of 0 "cols s * rows s" "s\<lparr>alt_cells := Some (cells s), main_x := cx s, main_y := cy s\<rparr>"]
    by (auto simp: set_alt_screen_def kept_def)
  have "kept (vt_write bs ?a) = kept ?a" using assms(4)
  proof (induction bs rule: rev_induct)
    case (snoc c bs)
    have "alt_active (vt_write (take k bs) ?a)" if "k \<le> length bs" for k
      using snoc(2)[rule_format, of k] that by simp
    then have IH: "kept (vt_write bs ?a) = kept ?a" by (intro snoc(1)) simp
    have "alt_active (vt_write (bs @ [c]) ?a)" using snoc(2)[rule_format, of "Suc (length bs)"] by simp
    moreover have "alt_active (vt_write bs ?a)" "alt_cells (vt_write bs ?a) \<noteq> None"
      using IH ka by (auto simp: kept_def)
    ultimately show ?case using kept_vt_putc[of "vt_write bs ?a" c] IH by (simp add: vt_write_def)
  qed simp
  with ka have k: "alt_cells (vt_write bs ?a) = Some (cells s)" "alt_active (vt_write bs ?a)" "main_x (vt_write bs ?a) = cx s"
    "main_y (vt_write bs ?a) = cy s" "cols (vt_write bs ?a) = cols s" "rows (vt_write bs ?a) = rows s"
    by (simp_all add: kept_def)
  let ?b = "set_cursor (cx s) (cy s) ((vt_write bs ?a)\<lparr>cells := cells s\<rparr>)"
  note d = vt_okD[OF assms(1)]
  have rb: "redraw ?b = ?b\<lparr>shown := (\<lambda>p. if p \<in> set (rect [0..<rows ?b] [0..<cols ?b]) then cells ?b ! (snd p * cols ?b + fst p) else shown ?b p)\<rparr>"
    unfolding redraw_def by (rule fold_draw) (auto simp: set_rect set_cursor_def k d idx_range)
  have "cells (redraw ?b) = cells s \<and> cx (redraw ?b) = cx s \<and> cy (redraw ?b) = cy s"
    unfolding rb using d(4,5) by (auto simp: set_cursor_def k min_def)
  with k show ?thesis by (simp add: set_alt_screen_def)
qed

text \<open>A small screen with room for an alternate one, without and inside a control sequence.\<close>

definition small_cell :: vt_cell where "small_cell = \<lparr>cp = 32, attr = 7\<rparr>"

definition small_vt :: vt where
  "small_vt = \<lparr>attached = True, hw_cursor = True, hw_pos = (0, 0, True), shown = (\<lambda>_. small_cell),
     cells = replicate 6 small_cell, alt_cells = Some (replicate 6 small_cell), alt_active = False, cols = 2, rows = 3,
     cx = 1, cy = 2, wrap_pending = False, saved_x = 0, saved_y = 0, main_x = 0, main_y = 0, cursor_visible = True,
     top = 0, bottom = 2, fg = 7, bg = 0, bold = False, reverse = False, st = S_NORMAL, params = replicate MAX_PARAMS 0,
     nparams = 0, param_started = False, priv = 0, utf_cp = 0, utf_need = 0, response = replicate 32 CHR '' '',
     response_len = 0, oob = False\<rparr>"

lemma small_vt_nth: "i < 6 \<Longrightarrow> replicate 6 small_cell ! i = small_cell"
  by simp

lemma small_vt_inv: "vt_inv small_vt" "vt_ok small_vt"
  by (auto simp: vt_inv_def vt_ok_def geometry_def coherent_def small_vt_def)

theorem vt_write_keeps_screen_witness: "vt_inv (vt_write [65, 10] small_vt)"
proof (rule vt_write_keeps_screen)
  show "vt_inv small_vt" by (rule small_vt_inv)
  have "\<not> overscroll c s" if "st s = S_NORMAL" for c s using that by (simp add: overscroll_def)
  moreover have "st (vt_putc 65 small_vt) = S_NORMAL"
    by (simp add: vt_putc_def small_vt_def hide_cursor_def show_cursor_def Let_def state_normal_def normal_byte_def
        put_char_def scr_draw_def)
  ultimately show "\<forall>k < length [65, 10]. \<not> overscroll ([65, 10] ! k) (vt_write (take k [65, 10]) small_vt)"
    by (auto simp: less_Suc_eq vt_write_def) (simp add: overscroll_def small_vt_def)
qed

theorem overscroll_out_of_bounds_witness:
  "oob (vt_putc 83 (small_vt\<lparr>st := S_CSI, nparams := 1, params := (params small_vt)[0 := 99]\<rparr>))"
proof (rule overscroll_out_of_bounds)
  let ?s = "small_vt\<lparr>st := S_CSI, nparams := 1, params := (params small_vt)[0 := 99]\<rparr>"
  show "vt_inv ?s" using small_vt_inv(1) by (simp add: vt_inv_def geometry_def)
  show "attached ?s" by (simp add: small_vt_def)
  show "overscroll 83 ?s" by (simp add: overscroll_def small_vt_def param_def)
qed

theorem alt_screen_roundtrip_witness:
  "cells (set_alt_screen False (vt_write [65] (set_alt_screen True small_vt))) = cells small_vt"
proof -
  have on: "alt_active (set_alt_screen True small_vt)" "st (set_alt_screen True small_vt) = S_NORMAL"
    "utf_need (set_alt_screen True small_vt) = 0" "attached (set_alt_screen True small_vt)"
    by (simp_all add: set_alt_screen_def small_vt_def clear_cells_eq)
  moreover have "alt_active (vt_putc 65 (set_alt_screen True small_vt))"
  proof -
    have h: "st (hide_cursor (set_alt_screen True small_vt)) = S_NORMAL"
      by (simp add: set_alt_screen_def small_vt_def clear_cells_eq hide_cursor_def)
    have "kept (vt_putc 65 (set_alt_screen True small_vt)) = kept (set_alt_screen True small_vt)"
      using on h by (simp add: vt_putc_def Let_def kept_simps)
    with on(1) show ?thesis using kept_eq_alt by blast
  qed
  ultimately show ?thesis
    using alt_screen_roundtrip[of small_vt "[65]"] small_vt_inv(2)
    by (auto simp: Let_def le_Suc_eq vt_write_def) (simp_all add: small_vt_def)
qed

end
