(* ===== verification/Process.thy ===== *)
theory Process
  imports Prelude
begin

text \<open>
  The process table of \<^verbatim>\<open>kernel/proc/process.h\<close> and the operations on it that run under
  \<^verbatim>\<open>proc_lock\<close>: slot allocation, wake-up by channel and the round-robin choice of
  \<^verbatim>\<open>kernel/proc/process.c\<close>, and signal sending of \<^verbatim>\<open>kernel/proc/signal.c\<close>, which the exit and stop
  paths of the process code call. A process pointer is an index: the table slots are 0 to 63, the idle
  processes of the CPUs lie above. Each section that holds the lock is a definition of its own; an operation of
  several sections is their composition, and the step relation in \<open>Sched\<close> interleaves them. A pid is the value
  of a C int.
\<close>

abbreviation MAX_PROCS :: nat where "MAX_PROCS \<equiv> 64"
abbreviation MAX_FDS :: nat where "MAX_FDS \<equiv> 64"
abbreviation NSIG :: nat where "NSIG \<equiv> 32"
abbreviation SCHED_QUANTUM :: int where "SCHED_QUANTUM \<equiv> 5"
abbreviation TIMER_HZ :: u64 where "TIMER_HZ \<equiv> 100"

datatype proc_state = PROC_UNUSED | PROC_EMBRYO | PROC_READY | PROC_RUNNING | PROC_BLOCKED
  | PROC_ZOMBIE | PROC_DEAD | PROC_STOPPED

record sigaction =
  sa_handler :: u64
  sa_flags :: u64
  sa_restorer :: u64
  sa_mask :: u64

record process =
  pid :: int
  state :: proc_state
  is_user :: bool
  is_idle :: bool
  last_cpu :: int
  kstack_base :: u64
  pml4 :: u64
  parent :: "nat option"
  exit_status :: int
  killed :: bool
  pgid :: int
  sid :: int
  sig_pending :: u32
  sig_blocked :: u32
  sig_actions :: "nat \<Rightarrow> sigaction"
  stop_sig :: nat
  stop_reported :: bool
  alarm_tick :: u64
  wait_channel :: "nat option"
  wake_tick :: u64
  mm :: "nat option"
  files :: "nat \<Rightarrow> nat option"
  cwd :: "nat option"
  cpu_ticks :: u64
  quantum_left :: int

record ptable =
  procs :: "nat \<Rightarrow> process"
  next_pid :: int
  rr_next :: nat

definition upd_proc :: "nat \<Rightarrow> (process \<Rightarrow> process) \<Rightarrow> ptable \<Rightarrow> ptable" where
  "upd_proc i f t = t\<lparr>procs := (procs t)(i := f (procs t i))\<rparr>"

lemma upd_proc_simps [simp]:
  "procs (upd_proc i f t) = (procs t)(i := f (procs t i))"
  "next_pid (upd_proc i f t) = next_pid t" "rr_next (upd_proc i f t) = rr_next t"
  by (simp_all add: upd_proc_def)

text \<open>A loop over the whole table, in index order.\<close>

definition for_procs :: "(nat \<Rightarrow> ptable \<Rightarrow> ptable) \<Rightarrow> ptable \<Rightarrow> ptable" where
  "for_procs f t = fold f [0..<MAX_PROCS] t"

definition find_proc :: "(process \<Rightarrow> bool) \<Rightarrow> ptable \<Rightarrow> nat option" where
  "find_proc P t = find (\<lambda>i. P (procs t i)) [0..<MAX_PROCS]"

section \<open>Signals\<close>

abbreviation SIGKILL :: nat where "SIGKILL \<equiv> 9"
abbreviation SIGSEGV :: nat where "SIGSEGV \<equiv> 11"
abbreviation SIGPIPE :: nat where "SIGPIPE \<equiv> 13"
abbreviation SIGALRM :: nat where "SIGALRM \<equiv> 14"
abbreviation SIGCHLD :: nat where "SIGCHLD \<equiv> 17"
abbreviation SIGCONT :: nat where "SIGCONT \<equiv> 18"
abbreviation SIGSTOP :: nat where "SIGSTOP \<equiv> 19"
abbreviation SIGTSTP :: nat where "SIGTSTP \<equiv> 20"
abbreviation SIGTTIN :: nat where "SIGTTIN \<equiv> 21"
abbreviation SIGTTOU :: nat where "SIGTTOU \<equiv> 22"
abbreviation SIGWINCH :: nat where "SIGWINCH \<equiv> 28"

abbreviation (input) SIG_DFL :: u64 where "SIG_DFL \<equiv> 0"
abbreviation (input) SIG_IGN :: u64 where "SIG_IGN \<equiv> 1"

definition BIT :: "nat \<Rightarrow> u32" where "BIT sig = push_bit sig 1"

definition UNBLOCKABLE :: u32 where "UNBLOCKABLE = BIT SIGKILL OR BIT SIGSTOP"

definition STOP_SIGNALS :: u32 where
  "STOP_SIGNALS = BIT SIGSTOP OR BIT SIGTSTP OR BIT SIGTTIN OR BIT SIGTTOU"

definition default_ignore :: "nat \<Rightarrow> bool" where
  "default_ignore sig \<longleftrightarrow> sig = SIGCHLD \<or> sig = SIGCONT \<or> sig = SIGWINCH \<or> sig = 23"

definition default_stop :: "nat \<Rightarrow> bool" where
  "default_stop sig \<longleftrightarrow> STOP_SIGNALS AND BIT sig \<noteq> 0"

definition alive :: "process \<Rightarrow> bool" where
  "alive p \<longleftrightarrow> state p \<noteq> PROC_UNUSED \<and> state p \<noteq> PROC_ZOMBIE \<and> state p \<noteq> PROC_DEAD"

definition proc_wake_locked :: "process \<Rightarrow> process" where
  "proc_wake_locked p = (if state p = PROC_BLOCKED then p\<lparr>state := PROC_READY\<rparr> else p)"

text \<open>\<^verbatim>\<open>signal_send_locked\<close> on the receiving process; a signal number is a C int.\<close>

definition signal_send :: "int \<Rightarrow> process \<Rightarrow> process" where
  "signal_send isig p =
     (if isig \<le> 0 \<or> isig \<ge> int NSIG \<or> \<not> is_user p \<or> is_idle p \<or> \<not> alive p then p
      else
        (let sig = nat isig; bit = BIT sig;
             p = (if sig = SIGKILL then p\<lparr>killed := True\<rparr> else p);
             p = (if sig = SIGCONT then
                    (let p = p\<lparr>sig_pending := sig_pending p AND NOT STOP_SIGNALS\<rparr>
                     in if state p = PROC_STOPPED then p\<lparr>state := PROC_READY\<rparr> else p)
                  else p);
             p = (if default_stop sig then p\<lparr>sig_pending := sig_pending p AND NOT (BIT SIGCONT)\<rparr> else p);
             h = sa_handler (sig_actions p sig)
         in if bit AND UNBLOCKABLE = 0 \<and> sig_blocked p AND bit = 0 \<and>
               (h = SIG_IGN \<or> (h = SIG_DFL \<and> default_ignore sig))
            then p
            else
              (let p = p\<lparr>sig_pending := sig_pending p OR bit\<rparr>
               in if sig_blocked p AND bit = 0 \<or> bit AND UNBLOCKABLE \<noteq> 0 then
                    (if state p = PROC_BLOCKED then proc_wake_locked p
                     else if state p = PROC_STOPPED \<and> sig = SIGKILL then p\<lparr>state := PROC_READY\<rparr>
                     else p)
                  else p)))"

definition signal_send_locked :: "nat \<Rightarrow> int \<Rightarrow> ptable \<Rightarrow> ptable" where
  "signal_send_locked i sig t = upd_proc i (signal_send sig) t"

definition signal_interrupted :: "process \<Rightarrow> bool" where
  "signal_interrupted p \<longleftrightarrow> killed p \<or> sig_pending p AND NOT (sig_blocked p) \<noteq> 0"

section \<open>Creating and freeing\<close>

definition no_action :: sigaction where
  "no_action = \<lparr>sa_handler = SIG_DFL, sa_flags = 0, sa_restorer = 0, sa_mask = 0\<rparr>"

definition zero_proc :: process where
  "zero_proc = \<lparr>pid = 0, state = PROC_UNUSED, is_user = False, is_idle = False, last_cpu = 0,
     kstack_base = 0, pml4 = 0, parent = None, exit_status = 0, killed = False, pgid = 0, sid = 0,
     sig_pending = 0, sig_blocked = 0, sig_actions = (\<lambda>_. no_action), stop_sig = 0,
     stop_reported = False, alarm_tick = 0, wait_channel = None, wake_tick = 0, mm = None,
     files = (\<lambda>_. None), cwd = None, cpu_ticks = 0, quantum_left = 0\<rparr>"

text \<open>\<^verbatim>\<open>next_pid++\<close> on a C int; the machine wraps where C leaves the result open.\<close>

definition next_int :: "int \<Rightarrow> int" where
  "next_int n = (if n = 2147483647 then - 2147483648 else n + 1)"

text \<open>
  Allocating a slot: the section under the lock that takes the slot and the number, and what follows
  without the lock, where the slot is marked by its state. The kernel stack is the address \<^verbatim>\<open>vmalloc\<close>
  returned (0 when it failed), the root directory is the one of the file system; the reference that the new
  process takes on its working directory is the third component.
\<close>

definition alloc_slot :: "nat \<Rightarrow> ptable \<Rightarrow> nat option \<times> ptable" where
  "alloc_slot cur t =
     (case find_proc (\<lambda>p. state p = PROC_UNUSED) t of
        None \<Rightarrow> (None, t)
      | Some i \<Rightarrow>
          (let par = procs t cur;
               p = zero_proc\<lparr>state := PROC_EMBRYO, pid := next_pid t, parent := Some cur\<rparr>;
               p = (if \<not> is_idle par
                    then p\<lparr>pgid := pgid par, sid := sid par, sig_actions := sig_actions par,
                           sig_blocked := sig_blocked par\<rparr>
                    else p)
           in (Some i, (upd_proc i (\<lambda>_. p) t)\<lparr>next_pid := next_int (next_pid t)\<rparr>)))"

definition set_unused :: "nat \<Rightarrow> ptable \<Rightarrow> ptable" where
  "set_unused i t = upd_proc i (\<lambda>p. p\<lparr>state := PROC_UNUSED\<rparr>) t"

definition alloc_finish :: "nat \<Rightarrow> u64 \<Rightarrow> u64 \<Rightarrow> nat \<Rightarrow> nat \<Rightarrow> ptable \<Rightarrow> nat option \<times> ptable \<times> nat option" where
  "alloc_finish cur stack kernel_pml4 root i t =
     (if stack = 0 then (None, set_unused i t, None)
      else
        (let par = procs t cur; dir = (if \<not> is_idle par \<and> cwd par \<noteq> None then the (cwd par) else root)
         in (Some i,
             upd_proc i (\<lambda>p. p\<lparr>kstack_base := stack, pml4 := kernel_pml4, quantum_left := SCHED_QUANTUM,
                               last_cpu := - 1, cwd := Some dir\<rparr>) t,
             Some dir)))"

definition proc_alloc :: "nat \<Rightarrow> u64 \<Rightarrow> u64 \<Rightarrow> nat \<Rightarrow> ptable \<Rightarrow> nat option \<times> ptable \<times> nat option" where
  "proc_alloc cur stack kernel_pml4 root t =
     (case alloc_slot cur t of
        (None, t) \<Rightarrow> (None, t, None)
      | (Some i, t) \<Rightarrow> alloc_finish cur stack kernel_pml4 root i t)"

datatype release = Close_file nat | Put_inode nat | Free_stack u64 | Destroy_mm nat

definition close_all_files :: "process \<Rightarrow> release list \<times> process" where
  "close_all_files p =
     (map Close_file (List.map_filter (files p) [0..<MAX_FDS]),
      p\<lparr>files := (\<lambda>fd. if fd < MAX_FDS then None else files p fd)\<rparr>)"

definition proc_release_resources :: "u64 \<Rightarrow> process \<Rightarrow> release list \<times> process" where
  "proc_release_resources kernel_pml4 p =
     (case close_all_files p of (rs, p) \<Rightarrow>
        (rs @ (case cwd p of Some d \<Rightarrow> [Put_inode d] | None \<Rightarrow> []) @
           (if kstack_base p \<noteq> 0 then [Free_stack (kstack_base p)] else []) @
           (case mm p of Some a \<Rightarrow> [Destroy_mm a] | None \<Rightarrow> []),
         p\<lparr>cwd := None, kstack_base := 0, mm := None,
           pml4 := (if mm p = None then pml4 p else kernel_pml4)\<rparr>))"

text \<open>Freeing: the resources without the lock, then the slot under the lock.\<close>

definition free_resources :: "u64 \<Rightarrow> nat \<Rightarrow> ptable \<Rightarrow> release list \<times> ptable" where
  "free_resources kernel_pml4 i t =
     (case proc_release_resources kernel_pml4 (procs t i) of (rs, p) \<Rightarrow> (rs, upd_proc i (\<lambda>_. p) t))"

definition proc_free :: "u64 \<Rightarrow> nat \<Rightarrow> ptable \<Rightarrow> release list \<times> ptable" where
  "proc_free kernel_pml4 i t = (case free_resources kernel_pml4 i t of (rs, t) \<Rightarrow> (rs, set_unused i t))"

definition proc_make_ready :: "nat \<Rightarrow> ptable \<Rightarrow> ptable" where
  "proc_make_ready i t = upd_proc i (\<lambda>p. p\<lparr>state := PROC_READY\<rparr>) t"

definition proc_find_locked :: "int \<Rightarrow> ptable \<Rightarrow> nat option" where
  "proc_find_locked n t = find_proc (\<lambda>p. state p \<noteq> PROC_UNUSED \<and> pid p = n) t"

section \<open>Scheduling\<close>

fun pick_from :: "nat \<Rightarrow> nat \<Rightarrow> ptable \<Rightarrow> nat option" where
  "pick_from n 0 t = None"
| "pick_from n (Suc k) t =
     (let i = (rr_next t + n) mod MAX_PROCS
      in if state (procs t i) = PROC_READY then Some i else pick_from (Suc n) k t)"

definition pick_next :: "ptable \<Rightarrow> nat option \<times> ptable" where
  "pick_next t =
     (case pick_from 0 MAX_PROCS t of
        None \<Rightarrow> (None, t)
      | Some i \<Rightarrow> (Some i, t\<lparr>rr_next := (i + 1) mod MAX_PROCS\<rparr>))"

text \<open>One round of \<^verbatim>\<open>scheduler_loop\<close> on CPU \<open>c\<close> up to the switch to the chosen process.\<close>

definition dispatch :: "int \<Rightarrow> ptable \<Rightarrow> nat option \<times> ptable" where
  "dispatch c t =
     (case pick_next t of
        (None, t) \<Rightarrow> (None, t)
      | (Some i, t) \<Rightarrow>
          (Some i, upd_proc i (\<lambda>p. p\<lparr>state := PROC_RUNNING, quantum_left := SCHED_QUANTUM, last_cpu := c\<rparr>) t))"

definition proc_yield :: "nat \<Rightarrow> ptable \<Rightarrow> ptable" where
  "proc_yield cur t = upd_proc cur (\<lambda>p. p\<lparr>state := PROC_READY\<rparr>) t"

definition proc_sleep :: "nat \<Rightarrow> nat \<Rightarrow> ptable \<Rightarrow> ptable" where
  "proc_sleep channel cur t = upd_proc cur (\<lambda>p. p\<lparr>wait_channel := Some channel, state := PROC_BLOCKED\<rparr>) t"

text \<open>What the sleeper does when it runs again.\<close>

definition sleep_resume :: "nat \<Rightarrow> ptable \<Rightarrow> ptable" where
  "sleep_resume cur t = upd_proc cur (\<lambda>p. p\<lparr>wait_channel := None\<rparr>) t"

definition wakeup_locked :: "nat \<Rightarrow> ptable \<Rightarrow> ptable" where
  "wakeup_locked channel t =
     for_procs (\<lambda>i t. upd_proc i (\<lambda>p. if state p = PROC_BLOCKED \<and> wait_channel p = Some channel
       then p\<lparr>state := PROC_READY\<rparr> else p) t) t"

section \<open>Timer\<close>

abbreviation (input) sleep_channel :: nat where "sleep_channel \<equiv> 0"

text \<open>Channels are addresses: 0 is the timer channel, \<open>i + 1\<close> is the process structure \<open>i\<close>.\<close>

definition proc_channel :: "nat \<Rightarrow> nat" where "proc_channel i = i + 1"

definition signal_check_alarms_locked :: "u64 \<Rightarrow> ptable \<Rightarrow> ptable" where
  "signal_check_alarms_locked now t =
     for_procs (\<lambda>i t. let p = procs t i in
       if alarm_tick p \<noteq> 0 \<and> alarm_tick p \<le> now \<and> alive p
       then signal_send_locked i (int SIGALRM) (upd_proc i (\<lambda>p. p\<lparr>alarm_tick := 0\<rparr>) t) else t) t"

definition wake_sleepers :: "u64 \<Rightarrow> ptable \<Rightarrow> ptable" where
  "wake_sleepers now t =
     for_procs (\<lambda>i t. upd_proc i (\<lambda>p. if state p = PROC_BLOCKED \<and> wait_channel p = Some sleep_channel \<and>
         wake_tick p \<le> now then p\<lparr>state := PROC_READY\<rparr> else p) t) t"

text \<open>
  The timer interrupt on CPU \<open>c\<close>, where the process \<open>cur\<close> runs, or none (the idle loop): CPU 0 wakes
  the sleepers and fires the alarms; a process whose quantum is used up gives up the CPU (second
  component).
\<close>

definition sched_tick :: "nat \<Rightarrow> u64 \<Rightarrow> nat option \<Rightarrow> ptable \<Rightarrow> ptable \<times> bool" where
  "sched_tick c now cur t =
     (let t = (if c = 0 then signal_check_alarms_locked now (wake_sleepers now t) else t)
      in case cur of
           None \<Rightarrow> (t, False)
         | Some i \<Rightarrow>
             (let t = upd_proc i (\<lambda>p. p\<lparr>cpu_ticks := cpu_ticks p + 1, quantum_left := quantum_left p - 1\<rparr>) t
              in if quantum_left (procs t i) \<le> 0 then (proc_yield i t, True) else (t, False)))"

section \<open>Exit, stop and wait\<close>

definition orphan_children :: "nat \<Rightarrow> ptable \<Rightarrow> ptable" where
  "orphan_children me t =
     for_procs (\<lambda>i t. upd_proc i (\<lambda>p. if state p \<noteq> PROC_UNUSED \<and> parent p = Some me
       then p\<lparr>parent := None\<rparr> else p) t) t"

definition notify_parent :: "nat \<Rightarrow> ptable \<Rightarrow> ptable" where
  "notify_parent me t =
     (case parent (procs t me) of
        None \<Rightarrow> t
      | Some q \<Rightarrow> signal_send_locked q (int SIGCHLD) (wakeup_locked (proc_channel q) t))"

text \<open>
  The parts of \<^verbatim>\<open>do_exit\<close>: what the process gives back while it still runs, and the last section under the
  lock, which stays held until the process has left the CPU.
\<close>

definition exit_release :: "u64 \<Rightarrow> nat \<Rightarrow> ptable \<Rightarrow> release list \<times> ptable" where
  "exit_release kernel_pml4 me t =
     (case close_all_files (procs t me) of (rs, p) \<Rightarrow>
        (let rs = rs @ (case cwd p of Some d \<Rightarrow> [Put_inode d] | None \<Rightarrow> []);
             p = p\<lparr>cwd := None\<rparr>;
             rs = rs @ (case mm p of Some a \<Rightarrow> [Destroy_mm a] | None \<Rightarrow> []);
             p = (if mm p \<noteq> None then p\<lparr>mm := None, pml4 := kernel_pml4\<rparr> else p)
         in (rs, upd_proc me (\<lambda>_. p) t)))"

definition exit_leave :: "int \<Rightarrow> nat \<Rightarrow> ptable \<Rightarrow> ptable" where
  "exit_leave status me t =
     notify_parent me (upd_proc me (\<lambda>p. p\<lparr>state := PROC_ZOMBIE\<rparr>)
       (orphan_children me (upd_proc me (\<lambda>p. p\<lparr>exit_status := status\<rparr>) t)))"

definition do_exit :: "u64 \<Rightarrow> int \<Rightarrow> nat \<Rightarrow> ptable \<Rightarrow> release list \<times> ptable" where
  "do_exit kernel_pml4 status me t = (case exit_release kernel_pml4 me t of (rs, t) \<Rightarrow> (rs, exit_leave status me t))"

definition proc_exit :: "u64 \<Rightarrow> int \<Rightarrow> nat \<Rightarrow> ptable \<Rightarrow> release list \<times> ptable" where
  "proc_exit kernel_pml4 code me t = do_exit kernel_pml4 ((code mod 256) * 256) me t"

definition proc_exit_signal :: "u64 \<Rightarrow> nat \<Rightarrow> nat \<Rightarrow> ptable \<Rightarrow> release list \<times> ptable" where
  "proc_exit_signal kernel_pml4 sig me t = do_exit kernel_pml4 (int (sig mod 128)) me t"

definition proc_stop_self :: "nat \<Rightarrow> nat \<Rightarrow> ptable \<Rightarrow> ptable" where
  "proc_stop_self sig me t =
     (if killed (procs t me) then t
      else notify_parent me
        (upd_proc me (\<lambda>p. p\<lparr>state := PROC_STOPPED, stop_sig := sig, stop_reported := False\<rparr>) t))"

definition wait_matches :: "process \<Rightarrow> int \<Rightarrow> process \<Rightarrow> bool" where
  "wait_matches me n p =
     (if n > 0 then pid p = n else if n = - 1 then True
      else if n = 0 then pgid p = pgid me else pgid p = - n)"

datatype scan_result = Scan_zombie nat | Scan_stopped nat | Scan_none bool

fun wait_scan :: "nat \<Rightarrow> int \<Rightarrow> bool \<Rightarrow> bool \<Rightarrow> nat list \<Rightarrow> ptable \<Rightarrow> scan_result" where
  "wait_scan cur n untraced have [] t = Scan_none have"
| "wait_scan cur n untraced have (i # is) t =
     (let p = procs t i in
      if state p = PROC_UNUSED \<or> parent p \<noteq> Some cur \<or> \<not> wait_matches (procs t cur) n p
      then wait_scan cur n untraced have is t
      else if state p = PROC_ZOMBIE then Scan_zombie i
      else if state p = PROC_STOPPED \<and> untraced \<and> \<not> stop_reported p then Scan_stopped i
      else wait_scan cur n untraced True is t)"

datatype wait_result = Wait_child int int | Wait_none | Wait_error errno | Wait_sleep

text \<open>
  One run of the loop of \<^verbatim>\<open>proc_wait\<close> under the lock, up to its return or to going to sleep, with the slot of
  a zombie that it has marked as its own; then the zombie is freed without the lock.
\<close>

definition wait_claim :: "int \<Rightarrow> bool \<Rightarrow> bool \<Rightarrow> nat \<Rightarrow> ptable \<Rightarrow> wait_result \<times> nat option \<times> ptable" where
  "wait_claim n nohang untraced cur t =
     (case wait_scan cur n untraced False [0..<MAX_PROCS] t of
        Scan_stopped i \<Rightarrow>
          (Wait_child (pid (procs t i)) (int (stop_sig (procs t i)) * 256 + 127), None,
           upd_proc i (\<lambda>p. p\<lparr>stop_reported := True\<rparr>) t)
      | Scan_zombie i \<Rightarrow>
          (Wait_child (pid (procs t i)) (exit_status (procs t i)), Some i, upd_proc i (\<lambda>p. p\<lparr>state := PROC_DEAD\<rparr>) t)
      | Scan_none have \<Rightarrow>
          (if \<not> have then (Wait_error ECHILD, None, t)
           else if nohang then (Wait_none, None, t)
           else if signal_interrupted (procs t cur) then (Wait_error EINTR, None, t)
           else (Wait_sleep, None, proc_sleep (proc_channel cur) cur t)))"

text \<open>The sections one after the other, with nothing in between.\<close>

definition proc_wait :: "u64 \<Rightarrow> int \<Rightarrow> bool \<Rightarrow> bool \<Rightarrow> nat \<Rightarrow> ptable \<Rightarrow> wait_result \<times> release list \<times> ptable" where
  "proc_wait kernel_pml4 n nohang untraced cur t =
     (case wait_claim n nohang untraced cur t of
        (r, None, t) \<Rightarrow> (r, [], t)
      | (r, Some i, t) \<Rightarrow> (case proc_free kernel_pml4 i t of (rs, t) \<Rightarrow> (r, rs, t)))"

definition reap_claim :: "nat \<Rightarrow> ptable \<Rightarrow> bool \<times> ptable" where
  "reap_claim i t =
     (if state (procs t i) = PROC_ZOMBIE \<and> parent (procs t i) = None
      then (True, upd_proc i (\<lambda>p. p\<lparr>state := PROC_DEAD\<rparr>) t) else (False, t))"

definition reap_one :: "u64 \<Rightarrow> nat \<Rightarrow> release list \<times> ptable \<Rightarrow> release list \<times> ptable" where
  "reap_one kernel_pml4 i st =
     (case st of (rs, t) \<Rightarrow>
        case reap_claim i t of
          (True, t) \<Rightarrow> (case proc_free kernel_pml4 i t of (rs', t) \<Rightarrow> (rs @ rs', t))
        | (False, t) \<Rightarrow> (rs, t))"

definition reap_orphans :: "u64 \<Rightarrow> ptable \<Rightarrow> release list \<times> ptable" where
  "reap_orphans kernel_pml4 t = fold (reap_one kernel_pml4) [0..<MAX_PROCS] ([], t)"

text \<open>The remaining time that \<^verbatim>\<open>proc_sleep_ms\<close> reports, and the tick it waits for; 64-bit arithmetic.\<close>

definition sleep_until :: "u64 \<Rightarrow> u64 \<Rightarrow> u64" where
  "sleep_until ms now = now + (let ticks = (ms * TIMER_HZ + 999) div 1000 in if ticks \<noteq> 0 then ticks else 1)"

definition sleep_left :: "u64 \<Rightarrow> u64 \<Rightarrow> u64" where
  "sleep_left wake now = (if now < wake then (wake - now) * 1000 div TIMER_HZ else 0)"

section \<open>Loops over the table, process by process\<close>

lemma fold_upd_proc:
  "fold (\<lambda>i. upd_proc i f) [0..<n] t
     = t\<lparr>procs := (\<lambda>j. if j < n then f (procs t j) else procs t j)\<rparr>"
proof (induction n)
  case 0
  have "(\<lambda>j. procs t j) = procs t" by simp
  then show ?case by simp
next
  case (Suc n)
  then show ?case by (auto simp: upd_proc_def fun_eq_iff less_Suc_eq)
qed

lemma for_procs_upd:
  "for_procs (\<lambda>i. upd_proc i f) t
     = t\<lparr>procs := (\<lambda>j. if j < MAX_PROCS then f (procs t j) else procs t j)\<rparr>"
  by (simp only: for_procs_def fold_upd_proc)

lemma wakeup_locked_eq:
  "wakeup_locked ch t = t\<lparr>procs := (\<lambda>j. if j < MAX_PROCS \<and> state (procs t j) = PROC_BLOCKED \<and>
      wait_channel (procs t j) = Some ch then (procs t j)\<lparr>state := PROC_READY\<rparr> else procs t j)\<rparr>"
  by (auto simp: wakeup_locked_def for_procs_upd fun_eq_iff)

lemma wake_sleepers_eq:
  "wake_sleepers now t = t\<lparr>procs := (\<lambda>j. if j < MAX_PROCS \<and> state (procs t j) = PROC_BLOCKED \<and>
      wait_channel (procs t j) = Some sleep_channel \<and> wake_tick (procs t j) \<le> now
      then (procs t j)\<lparr>state := PROC_READY\<rparr> else procs t j)\<rparr>"
  by (auto simp: wake_sleepers_def for_procs_upd fun_eq_iff)

lemma orphan_children_eq:
  "orphan_children me t = t\<lparr>procs := (\<lambda>j. if j < MAX_PROCS \<and> state (procs t j) \<noteq> PROC_UNUSED \<and>
      parent (procs t j) = Some me then (procs t j)\<lparr>parent := None\<rparr> else procs t j)\<rparr>"
  by (auto simp: orphan_children_def for_procs_upd fun_eq_iff)

definition alarm_proc :: "u64 \<Rightarrow> process \<Rightarrow> process" where
  "alarm_proc now p = (if alarm_tick p \<noteq> 0 \<and> alarm_tick p \<le> now \<and> alive p
     then signal_send (int SIGALRM) (p\<lparr>alarm_tick := 0\<rparr>) else p)"

lemma signal_check_alarms_eq:
  "signal_check_alarms_locked now t
     = t\<lparr>procs := (\<lambda>j. if j < MAX_PROCS then alarm_proc now (procs t j) else procs t j)\<rparr>"
proof -
  have "(\<lambda>i t. let p = procs t i in
       if alarm_tick p \<noteq> 0 \<and> alarm_tick p \<le> now \<and> alive p
       then signal_send_locked i (int SIGALRM) (upd_proc i (\<lambda>p. p\<lparr>alarm_tick := 0\<rparr>) t) else t)
     = (\<lambda>i. upd_proc i (alarm_proc now))"
    by (auto simp: fun_eq_iff upd_proc_def alarm_proc_def signal_send_locked_def Let_def)
  then show ?thesis
    unfolding signal_check_alarms_locked_def by (simp only: for_procs_upd)
qed

end
