(* ===== verification/Sched.thy ===== *)
theory Sched
  imports Process "HOL-Library.Multiset"
begin

text \<open>
  The SMP scheduler of \<^verbatim>\<open>kernel/proc/process.c\<close> as a step relation: every CPU runs a table process or
  its idle loop, and each section of code that holds \<^verbatim>\<open>proc_lock\<close> is one step. The lock stays held
  across \<^verbatim>\<open>context_switch\<close>, so leaving the CPU belongs to the step that changed the state. The theorems:
  a process runs on one CPU at most and its stack is not freed while it runs, the round-robin choice
  starves nobody, and a wake-up reaches everybody who sleeps on the channel.
\<close>

section \<open>Which processes are running\<close>

definition running :: "ptable \<Rightarrow> nat \<Rightarrow> bool" where
  "running t i \<longleftrightarrow> state (procs t i) = PROC_RUNNING"

named_theorems running_simps \<open>what each operation does to the set of running processes\<close>

lemma signal_send_state:
  "state (signal_send sig p) = state p \<or>
   (state (signal_send sig p) = PROC_READY \<and> (state p = PROC_BLOCKED \<or> state p = PROC_STOPPED))"
  by (auto simp: signal_send_def Let_def proc_wake_locked_def)

lemma signal_send_running: "state (signal_send sig p) = PROC_RUNNING \<longleftrightarrow> state p = PROC_RUNNING"
  using signal_send_state[of sig p] by (cases "state p") auto

lemma alarm_proc_running: "state (alarm_proc now p) = PROC_RUNNING \<longleftrightarrow> state p = PROC_RUNNING"
  by (simp add: alarm_proc_def signal_send_running)

lemma running_upd [running_simps]:
  "running (upd_proc i f t) j \<longleftrightarrow> (if j = i then state (f (procs t i)) = PROC_RUNNING else running t j)"
  by (simp add: running_def)

lemma running_signal [running_simps]: "running (signal_send_locked i sig t) j \<longleftrightarrow> running t j"
  by (simp add: signal_send_locked_def running_upd signal_send_running running_def)

lemma running_wakeup [running_simps]: "running (wakeup_locked ch t) j \<longleftrightarrow> running t j"
  by (auto simp: wakeup_locked_eq running_def)

lemma running_wake_sleepers [running_simps]: "running (wake_sleepers now t) j \<longleftrightarrow> running t j"
  by (auto simp: wake_sleepers_eq running_def)

lemma running_alarms [running_simps]: "running (signal_check_alarms_locked now t) j \<longleftrightarrow> running t j"
  by (simp add: signal_check_alarms_eq running_def alarm_proc_running)

lemma running_orphan [running_simps]: "running (orphan_children me t) j \<longleftrightarrow> running t j"
  by (auto simp: orphan_children_eq running_def)

lemma running_notify [running_simps]: "running (notify_parent me t) j \<longleftrightarrow> running t j"
  by (simp add: notify_parent_def running_simps split: option.split)

lemma running_unused [running_simps]: "running (set_unused i t) j \<longleftrightarrow> j \<noteq> i \<and> running t j"
  by (simp add: set_unused_def running_simps)

lemma running_resources [running_simps]: "free_resources k i t = (rs, t') \<Longrightarrow> running t' j \<longleftrightarrow> running t j"
  by (auto simp: free_resources_def proc_release_resources_def close_all_files_def running_simps running_def split: if_splits)

lemma running_free [running_simps]:
  "proc_free k i t = (rs, t') \<Longrightarrow> running t' j \<longleftrightarrow> j \<noteq> i \<and> running t j"
  by (auto simp: proc_free_def running_simps split: prod.splits)

lemma running_exit_release [running_simps]: "exit_release k me t = (rs, t') \<Longrightarrow> running t' j \<longleftrightarrow> running t j"
  by (auto simp: exit_release_def close_all_files_def Let_def running_simps running_def split: if_splits)

lemma running_exit_leave [running_simps]: "running (exit_leave status me t) j \<longleftrightarrow> j \<noteq> me \<and> running t j"
  by (auto simp: exit_leave_def running_simps split: if_splits)

lemma running_stop_self [running_simps]:
  "running (proc_stop_self sig me t) j \<longleftrightarrow> running t j \<and> (killed (procs t me) \<or> j \<noteq> me)"
  by (auto simp: proc_stop_self_def running_simps)

lemma running_alloc_slot [running_simps]:
  assumes "alloc_slot cur t = (r, t')"
  shows "running t' j \<longleftrightarrow> running t j"
proof (cases "find_proc (\<lambda>p. state p = PROC_UNUSED) t")
  case None
  with assms show ?thesis by (simp add: alloc_slot_def)
next
  case (Some i)
  then have u: "state (procs t i) = PROC_UNUSED"
    by (auto simp: find_proc_def find_Some_iff)
  with assms Some show ?thesis
    by (auto simp: alloc_slot_def Let_def running_def zero_proc_def upd_proc_def split: if_splits)
qed

lemma running_alloc_finish [running_simps]:
  "alloc_finish cur stack k root i t = (r, t', d) \<Longrightarrow> state (procs t i) = PROC_EMBRYO \<Longrightarrow> running t' j \<longleftrightarrow> running t j"
  by (auto simp: alloc_finish_def set_unused_def Let_def running_def upd_proc_def split: if_splits)

lemma find_proc_Some: "find_proc P t = Some i \<Longrightarrow> i < MAX_PROCS \<and> P (procs t i)"
  by (auto simp: find_proc_def find_Some_iff)

lemma running_reap_claim [running_simps]: "reap_claim i t = (b, t') \<Longrightarrow> running t' j \<longleftrightarrow> running t j"
  by (auto simp: reap_claim_def running_def upd_proc_def split: if_splits)




section \<open>The step relation\<close>









lemma pick_from_Some:
  "pick_from n k t = Some i \<Longrightarrow>
     \<exists>m < k. i = (rr_next t + n + m) mod MAX_PROCS \<and> state (procs t i) = PROC_READY \<and>
       (\<forall>l < m. state (procs t ((rr_next t + n + l) mod MAX_PROCS)) \<noteq> PROC_READY)"
proof (induction n k t rule: pick_from.induct)
  case (1 n t)
  then show ?case by simp
next
  case (2 n k t)
  let ?at = "\<lambda>j. (rr_next t + j) mod MAX_PROCS"
  show ?case
  proof (cases "state (procs t (?at n)) = PROC_READY")
    case True
    with 2(2) show ?thesis by (intro exI[of _ 0]) (auto simp: Let_def)
  next
    case False
    with 2(2) have "pick_from (Suc n) k t = Some i" by (simp add: Let_def)
    with 2(1)[OF refl False] obtain m where m: "m < k" "i = (rr_next t + Suc n + m) mod MAX_PROCS"
      "state (procs t i) = PROC_READY"
      "\<forall>l < m. state (procs t ((rr_next t + Suc n + l) mod MAX_PROCS)) \<noteq> PROC_READY"
      by blast
    have "state (procs t ((rr_next t + n + l) mod MAX_PROCS)) \<noteq> PROC_READY" if "l < Suc m" for l
    proof (cases l)
      case 0
      with False show ?thesis by simp
    next
      case (Suc l')
      with that m(4) have "state (procs t ((rr_next t + Suc n + l') mod MAX_PROCS)) \<noteq> PROC_READY" by simp
      with Suc show ?thesis by simp
    qed
    with m(1-3) show ?thesis by (intro exI[of _ "Suc m"]) auto
  qed
qed

lemma pick_from_None:
  "pick_from n k t = None \<Longrightarrow> m < k \<Longrightarrow> state (procs t ((rr_next t + n + m) mod MAX_PROCS)) \<noteq> PROC_READY"
proof (induction n k t arbitrary: m rule: pick_from.induct)
  case (2 n k t)
  then show ?case by (cases m) (auto simp: Let_def split: if_splits)
qed simp

lemma pick_next_Some:
  assumes "pick_next t = (Some i, t')"
  shows "i < MAX_PROCS" "state (procs t i) = PROC_READY" "procs t' = procs t"
    "rr_next t' = (i + 1) mod MAX_PROCS" "next_pid t' = next_pid t"
  using assms pick_from_Some[of 0 MAX_PROCS t i]
  by (auto simp: pick_next_def split: option.splits)



section \<open>Slots being freed\<close>

text \<open>No embryo and no dead slot changes its state.\<close>

definition settled :: "ptable \<Rightarrow> ptable \<Rightarrow> bool" where
  "settled t t' \<longleftrightarrow> (\<forall>j. state (procs t j) \<in> {PROC_EMBRYO, PROC_DEAD} \<longrightarrow> state (procs t' j) = state (procs t j))"

named_theorems settled_intros \<open>operations that leave embryos and dead slots\<close>

lemma settled_refl [simp]: "settled t t"
  by (simp add: settled_def)



lemma signal_send_settled: "state p \<in> {PROC_EMBRYO, PROC_DEAD} \<Longrightarrow> state (signal_send sig p) = state p"
  using signal_send_state[of sig p] by auto

lemma settled_signal [settled_intros]: "settled t (signal_send_locked i sig t)"
  by (auto simp: signal_send_locked_def settled_def signal_send_settled)

lemma settled_wakeup [settled_intros]: "settled t (wakeup_locked ch t)"
  by (auto simp: wakeup_locked_eq settled_def)

lemma settled_sleepers [settled_intros]: "settled t (wake_sleepers now t)"
  by (auto simp: wake_sleepers_eq settled_def)

lemma settled_alarms [settled_intros]: "settled t (signal_check_alarms_locked now t)"
  by (auto simp: signal_check_alarms_eq settled_def alarm_proc_def signal_send_settled)







lemma settled_alloc [settled_intros]: "alloc_slot cur t = (r, t') \<Longrightarrow> settled t t'"
  using find_proc_Some[of "\<lambda>p. state p = PROC_UNUSED" t]
  by (auto simp: alloc_slot_def Let_def upd_proc_def settled_def split: option.splits)

lemma settled_same: "(\<And>j. state (procs t' j) = state (procs t j)) \<Longrightarrow> settled t t'"
  by (simp add: settled_def)





section \<open>Process identifiers\<close>

definition pids_unique :: "ptable \<Rightarrow> bool" where
  "pids_unique t \<longleftrightarrow>
     (\<forall>i < MAX_PROCS. state (procs t i) \<noteq> PROC_UNUSED \<longrightarrow> pid (procs t i) < next_pid t) \<and>
     (\<forall>i < MAX_PROCS. \<forall>j < MAX_PROCS. state (procs t i) \<noteq> PROC_UNUSED \<longrightarrow> state (procs t j) \<noteq> PROC_UNUSED \<longrightarrow>
        pid (procs t i) = pid (procs t j) \<longrightarrow> i = j)"

text \<open>No process appears and none changes its pid.\<close>

definition ids_kept :: "ptable \<Rightarrow> ptable \<Rightarrow> bool" where
  "ids_kept t t' \<longleftrightarrow> next_pid t' = next_pid t \<and>
     (\<forall>j. state (procs t' j) \<noteq> PROC_UNUSED \<longrightarrow>
        state (procs t j) \<noteq> PROC_UNUSED \<and> pid (procs t' j) = pid (procs t j))"

named_theorems ids_intros \<open>operations that keep the process identifiers\<close>

lemma pids_unique_kept: "pids_unique t \<Longrightarrow> ids_kept t t' \<Longrightarrow> pids_unique t'"
  unfolding pids_unique_def ids_kept_def by metis

lemma ids_kept_refl [simp]: "ids_kept t t"
  by (simp add: ids_kept_def)

lemma ids_kept_trans: "ids_kept t t' \<Longrightarrow> ids_kept t' t'' \<Longrightarrow> ids_kept t t''"
  by (simp add: ids_kept_def)

lemma ids_kept_upd:
  "pid (f (procs t i)) = pid (procs t i) \<Longrightarrow>
   state (procs t i) \<noteq> PROC_UNUSED \<or> state (f (procs t i)) = PROC_UNUSED \<Longrightarrow> ids_kept t (upd_proc i f t)"
  by (auto simp: ids_kept_def)

lemma signal_send_pid [simp]: "pid (signal_send sig p) = pid p"
  by (simp add: signal_send_def Let_def proc_wake_locked_def)

lemma signal_send_unused [simp]: "state (signal_send sig p) = PROC_UNUSED \<longleftrightarrow> state p = PROC_UNUSED"
  using signal_send_state[of sig p] by auto

lemma ids_signal [ids_intros]: "ids_kept t (signal_send_locked i sig t)"
  by (simp add: signal_send_locked_def ids_kept_upd)

lemma ids_wakeup [ids_intros]: "ids_kept t (wakeup_locked ch t)"
  by (auto simp: wakeup_locked_eq ids_kept_def)



lemma ids_orphan [ids_intros]: "ids_kept t (orphan_children me t)"
  by (auto simp: orphan_children_eq ids_kept_def)

lemma ids_notify [ids_intros]: "ids_kept t (notify_parent me t)"
  by (auto simp: notify_parent_def intro: ids_kept_trans ids_signal ids_wakeup split: option.split)

lemma ids_notify_after: "ids_kept t t1 \<Longrightarrow> ids_kept t (notify_parent me t1)"
  using ids_notify ids_kept_trans by blast


lemma ids_resources [ids_intros]: "free_resources k i t = (rs, t') \<Longrightarrow> ids_kept t t'"
  by (auto simp: free_resources_def proc_release_resources_def close_all_files_def intro: ids_kept_upd)

lemma ids_reap_claim [ids_intros]: "reap_claim i t = (b, t') \<Longrightarrow> ids_kept t t'"
  by (auto simp: reap_claim_def intro: ids_kept_upd split: if_splits)

lemma ids_running_upd:
  "running t i \<Longrightarrow> pid (f (procs t i)) = pid (procs t i) \<Longrightarrow> ids_kept t (upd_proc i f t)"
  by (auto simp: running_def intro: ids_kept_upd)


lemma ids_exit_release [ids_intros]: "running t me \<Longrightarrow> exit_release k me t = (rs, t') \<Longrightarrow> ids_kept t t'"
  by (auto simp: exit_release_def close_all_files_def Let_def intro: ids_running_upd)

lemma ids_exit_leave [ids_intros]:
  assumes "running t me"
  shows "ids_kept t (exit_leave status me t)"
proof -
  let ?t = "orphan_children me (upd_proc me (\<lambda>p. p\<lparr>exit_status := status\<rparr>) t)"
  have "ids_kept t ?t" by (rule ids_kept_trans[OF ids_running_upd[OF assms] ids_orphan]) simp
  moreover have "running ?t me" using assms by (simp add: running_simps) (simp add: running_def)
  ultimately show ?thesis unfolding exit_leave_def by (intro ids_notify_after ids_kept_trans[OF _ ids_running_upd]) auto
qed

lemma ids_do_exit [ids_intros]:
  assumes "running t me" "do_exit k st me t = (rs, t')"
  shows "ids_kept t t'"
proof -
  obtain t1 where r: "exit_release k me t = (rs, t1)" "t' = exit_leave st me t1"
    using assms(2) by (auto simp: do_exit_def split: prod.splits)
  moreover have "running t1 me" using running_exit_release[OF r(1)] assms(1) by simp
  ultimately show ?thesis using ids_exit_release[OF assms(1) r(1)] ids_exit_leave ids_kept_trans by blast
qed



lemma pids_running_upd:
  "pids_unique t \<Longrightarrow> running t i \<Longrightarrow> pid (f (procs t i)) = pid (procs t i) \<Longrightarrow> pids_unique (upd_proc i f t)"
  by (rule pids_unique_kept[OF _ ids_running_upd])





section \<open>Round robin\<close>

definition rr_distance :: "nat \<Rightarrow> ptable \<Rightarrow> nat" where
  "rr_distance i t = (i + MAX_PROCS - rr_next t) mod MAX_PROCS"

lemma mod_MAX_PROCS: "x < 2 * MAX_PROCS \<Longrightarrow> x mod MAX_PROCS = (if x < MAX_PROCS then x else x - MAX_PROCS)"
  by (simp add: le_mod_geq)

lemma rr_distance_lt: "rr_distance i t < MAX_PROCS"
  by (simp add: rr_distance_def)

lemma rr_distance_add:
  assumes "i < MAX_PROCS" "rr_next t < MAX_PROCS"
  shows "(rr_next t + rr_distance i t) mod MAX_PROCS = i"
  using assms by (simp add: rr_distance_def mod_MAX_PROCS)

lemma rr_distance_pick:
  assumes i: "i < MAX_PROCS" and r: "rr_next t < MAX_PROCS" and ready: "state (procs t i) = PROC_READY"
    and p: "pick_next t = (Some j, t')" and ne: "j \<noteq> i"
  shows "rr_distance i t' < rr_distance i t" "rr_next t' < MAX_PROCS"
proof -
  from p obtain m where m: "m < MAX_PROCS" "j = (rr_next t + m) mod MAX_PROCS"
    "\<forall>l < m. state (procs t ((rr_next t + l) mod MAX_PROCS)) \<noteq> PROC_READY"
    using pick_from_Some[of 0 MAX_PROCS t j] by (auto simp: pick_next_def split: option.splits)
  define d where "d = rr_distance i t"
  have d: "d < MAX_PROCS" "(rr_next t + d) mod MAX_PROCS = i"
    using i r by (auto simp: d_def rr_distance_lt rr_distance_add)
  have "\<not> d < m" using m(3) d ready by auto
  moreover have "d \<noteq> m" using d m(2) ne by auto
  ultimately have dm: "m < d" by simp
  have rr: "rr_next t' = (j + 1) mod MAX_PROCS" by (rule pick_next_Some[OF p])
  then show "rr_next t' < MAX_PROCS" by simp
  from rr m(2) have "rr_next t' = (rr_next t + m + 1) mod MAX_PROCS" by (simp add: mod_simps)
  then have r': "rr_next t' = (if rr_next t + m + 1 < MAX_PROCS then rr_next t + m + 1 else rr_next t + m + 1 - MAX_PROCS)"
    using r m(1) by (simp add: mod_MAX_PROCS)
  have i': "i = (if rr_next t + d < MAX_PROCS then rr_next t + d else rr_next t + d - MAX_PROCS)"
    using d r mod_MAX_PROCS[of "rr_next t + d"] by simp
  have "rr_distance i t' = (if i + MAX_PROCS - rr_next t' < MAX_PROCS then i + MAX_PROCS - rr_next t' else i - rr_next t')"
    using i r' r m(1) by (simp add: rr_distance_def mod_MAX_PROCS)
  with dm d(1) r i' r' m(1) show "rr_distance i t' < rr_distance i t"
    unfolding d_def[symmetric] by (simp split: if_splits)
qed

lemma pick_next_ready:
  assumes "i < MAX_PROCS" "rr_next t < MAX_PROCS" "state (procs t i) = PROC_READY"
  obtains j t' where "pick_next t = (Some j, t')"
proof -
  define d where "d = rr_distance i t"
  have "d < MAX_PROCS" "(rr_next t + d) mod MAX_PROCS = i"
    using assms by (auto simp: d_def rr_distance_lt rr_distance_add)
  then have "pick_from 0 MAX_PROCS t \<noteq> None"
    using pick_from_None[of 0 MAX_PROCS t d] assms(3) by auto
  with that show ?thesis by (auto simp: pick_next_def)
qed

section \<open>Exit and wait\<close>

text \<open>What a process holds and somebody has to release: open files, working directory, memory, stack.\<close>

definition held_resources :: "process \<Rightarrow> release list" where
  "held_resources p =
     map Close_file (List.map_filter (files p) [0..<MAX_FDS]) @
     (case cwd p of Some d \<Rightarrow> [Put_inode d] | None \<Rightarrow> []) @
     (case mm p of Some a \<Rightarrow> [Destroy_mm a] | None \<Rightarrow> []) @
     (if kstack_base p \<noteq> 0 then [Free_stack (kstack_base p)] else [])"

lemma map_filter_None [simp]: "List.map_filter (\<lambda>_. None) xs = []"
  by (induction xs) (simp_all add: List.map_filter_def)

lemma map_filter_closed:
  "List.map_filter (\<lambda>fd. if fd < MAX_FDS then None else g fd) [0..<MAX_FDS] = []"
proof -
  have "n \<le> MAX_FDS \<Longrightarrow> List.map_filter (\<lambda>fd. if fd < MAX_FDS then None else g fd) [0..<n] = []" for n
    by (induction n) (simp_all add: List.map_filter_def)
  from this[of MAX_FDS] show ?thesis by simp
qed

lemma proc_free_releases:
  "mset (fst (proc_free k i t)) = mset (held_resources (procs t i))"
  "state (procs (snd (proc_free k i t)) i) = PROC_UNUSED"
  by (simp_all add: proc_free_def free_resources_def set_unused_def proc_release_resources_def close_all_files_def held_resources_def)

lemma notify_parent_other:
  "parent (procs t me) = Some q \<Longrightarrow> j \<noteq> q \<Longrightarrow> state (procs t j) \<noteq> PROC_BLOCKED \<Longrightarrow>
   procs (notify_parent me t) j = procs t j"
  by (simp add: notify_parent_def signal_send_locked_def wakeup_locked_eq)

lemma notify_parent_parent:
  assumes "parent (procs t me) = Some q" "q < MAX_PROCS"
  shows "procs (notify_parent me t) q = signal_send (int SIGCHLD)
    (if state (procs t q) = PROC_BLOCKED \<and> wait_channel (procs t q) = Some (proc_channel q)
     then (procs t q)\<lparr>state := PROC_READY\<rparr> else procs t q)"
  using assms by (simp add: notify_parent_def signal_send_locked_def wakeup_locked_eq)

lemma do_exit_self:
  assumes "do_exit k st i t = (rs, t')" "parent (procs t i) = Some q" "q \<noteq> i"
  shows "procs t' i = (procs t i)\<lparr>files := (\<lambda>fd. if fd < MAX_FDS then None else files (procs t i) fd), cwd := None,
      mm := None, pml4 := (if mm (procs t i) = None then pml4 (procs t i) else k), exit_status := st,
      state := PROC_ZOMBIE\<rparr>"
    "mset (rs @ (if kstack_base (procs t i) \<noteq> 0 then [Free_stack (kstack_base (procs t i))] else []))
       = mset (held_resources (procs t i))"
  using assms
  by (auto simp: do_exit_def exit_release_def exit_leave_def close_all_files_def Let_def notify_parent_other orphan_children_eq held_resources_def)

lemma wait_scan_unique:
  assumes "i \<in> set xs" "state (procs t i) = PROC_ZOMBIE" "parent (procs t i) = Some cur"
    "wait_matches (procs t cur) n (procs t i)"
    "\<And>j. j \<in> set xs \<Longrightarrow> j \<noteq> i \<Longrightarrow> state (procs t j) = PROC_UNUSED \<or> \<not> wait_matches (procs t cur) n (procs t j)"
  shows "wait_scan cur n u h xs t = Scan_zombie i"
  using assms(1,5)
proof (induction xs arbitrary: h)
  case (Cons j xs)
  show ?case
  proof (cases "j = i")
    case True
    with assms(2-4) show ?thesis by (simp add: Let_def)
  next
    case False
    with Cons show ?thesis by (auto simp: Let_def)
  qed
qed simp

section \<open>Properties\<close>


text \<open>
  C39. Round robin starves nobody. Consider the successive calls of \<^verbatim>\<open>pick_next\<close> on the table, whatever
  happens to the other processes in between: a process that is READY until it is chosen is chosen
  within 64 calls.
\<close>

theorem round_robin_fair:
  assumes "i < MAX_PROCS" "rr_next (ts 0) < MAX_PROCS"
    and "\<forall>n. rr_next (ts (Suc n)) = rr_next (snd (pick_next (ts n)))"
    and "\<forall>n. (\<forall>m < n. fst (pick_next (ts m)) \<noteq> Some i) \<longrightarrow> state (procs (ts n) i) = PROC_READY"
  shows "\<exists>n < MAX_PROCS. fst (pick_next (ts n)) = Some i"
proof (rule ccontr)
  assume none: "\<not> ?thesis"
  have "n \<le> MAX_PROCS \<Longrightarrow> rr_next (ts n) < MAX_PROCS \<and> rr_distance i (ts n) + n < MAX_PROCS" for n
  proof (induction n)
    case 0
    then show ?case using assms(2) by (simp add: rr_distance_lt)
  next
    case (Suc n)
    with none assms(4) have ready: "state (procs (ts n) i) = PROC_READY" by (metis Suc_leD less_le_trans lessI)
    from Suc have rr: "rr_next (ts n) < MAX_PROCS" by simp
    obtain j t' where p: "pick_next (ts n) = (Some j, t')" using pick_next_ready[OF assms(1) rr ready] .
    with none Suc(2) have "j \<noteq> i" by (metis Suc_le_lessD fst_conv)
    note d = rr_distance_pick[OF assms(1) rr ready p this]
    moreover have "rr_next (ts (Suc n)) = rr_next t'" using assms(3) p by simp
    ultimately show ?case using Suc by (auto simp: rr_distance_def)
  qed
  from this[of MAX_PROCS] show False by simp
qed

text \<open>
  C38. Exit and wait. A running child that exits becomes a zombie, wakes its parent if that sleeps in
  \<^verbatim>\<open>proc_wait\<close> and sends it SIGCHLD; the parent's \<^verbatim>\<open>proc_wait\<close> for its pid then returns that pid and the
  exit status, the slot is free again, and the files, the working directory, the memory and the
  kernel stack the child held have been released once each, none twice and none forgotten.
\<close>

theorem exit_then_wait:
  assumes "i < MAX_PROCS" "q < MAX_PROCS" "q \<noteq> i" "running t i" "parent (procs t i) = Some q"
    and "pids_unique t" "0 < pid (procs t i)"
    and "do_exit k status i t = (rs1, t1)"
    and "proc_wait k (pid (procs t i)) nohang untraced q t1 = (r, rs2, t2)"
  shows "r = Wait_child (pid (procs t i)) status \<and> state (procs t2 i) = PROC_UNUSED
    \<and> mset (rs1 @ rs2) = mset (held_resources (procs t i))
    \<and> procs t1 q = signal_send (int SIGCHLD)
        (let p = procs (orphan_children i t) q in
         if state p = PROC_BLOCKED \<and> wait_channel p = Some (proc_channel q) then p\<lparr>state := PROC_READY\<rparr> else p)"
proof -
  note z = do_exit_self[OF assms(8,5,3)]
  have "ids_kept t t1" using assms(4,8) by (rule ids_do_exit)
  then have p1: "pids_unique t1" using assms(6) pids_unique_kept by blast
  have other: "state (procs t1 j) = PROC_UNUSED \<or> \<not> wait_matches (procs t1 q) (pid (procs t i)) (procs t1 j)"
    if "j < MAX_PROCS" "j \<noteq> i" for j
    using p1 that assms(1,7) z(1) unfolding pids_unique_def by (auto simp: wait_matches_def)
  have scan: "wait_scan q (pid (procs t i)) untraced False [0..<MAX_PROCS] t1 = Scan_zombie i"
    by (rule wait_scan_unique) (use assms(1,5,7) z(1) other in \<open>auto simp: wait_matches_def\<close>)
  let ?t = "upd_proc i (\<lambda>p. p\<lparr>state := PROC_DEAD\<rparr>) t1"
  have r: "r = Wait_child (pid (procs t i)) status" and f: "proc_free k i ?t = (rs2, t2)"
    using assms(9) scan z(1) by (auto simp: proc_wait_def wait_claim_def split: prod.splits)
  have "mset rs2 = mset (held_resources (procs ?t i))" and u: "state (procs t2 i) = PROC_UNUSED"
    using proc_free_releases[of k i ?t] f by simp_all
  then have rs: "mset (rs1 @ rs2) = mset (held_resources (procs t i))"
    using z by (simp add: held_resources_def map_filter_closed)
  have "procs t1 q = signal_send (int SIGCHLD)
        (let p = procs (orphan_children i t) q in
         if state p = PROC_BLOCKED \<and> wait_channel p = Some (proc_channel q) then p\<lparr>state := PROC_READY\<rparr> else p)"
    using assms(2,3,5,8)
    by (auto simp: do_exit_def exit_release_def exit_leave_def close_all_files_def Let_def notify_parent_parent orphan_children_eq)
  with r u rs show ?thesis by blast
qed

text \<open>A table with two processes, ready to run, used for the witnesses.\<close>

definition demo_proc :: "int \<Rightarrow> nat option \<Rightarrow> proc_state \<Rightarrow> process" where
  "demo_proc n par st = zero_proc\<lparr>pid := n, state := st, is_user := True, parent := par,
     kstack_base := word_of_int n * 0x10000, cwd := Some 7, files := (\<lambda>fd. if fd < 3 then Some fd else None),
     mm := Some (nat n)\<rparr>"

definition demo_table :: ptable where
  "demo_table = \<lparr>procs = (\<lambda>i. if i = 0 then demo_proc 1 None PROC_READY
     else if i = 1 then demo_proc 2 (Some 0) PROC_READY else zero_proc), next_pid = 3, rr_next = 1\<rparr>"


fun demo_run :: "nat \<Rightarrow> ptable" where
  "demo_run 0 = demo_table"
| "demo_run (Suc n) = snd (pick_next (demo_run n))"

theorem round_robin_fair_witness: "\<exists>n < MAX_PROCS. fst (pick_next (demo_run n)) = Some 0"
proof (rule round_robin_fair)
  show "\<forall>n. (\<forall>m < n. fst (pick_next (demo_run m)) \<noteq> Some 0) \<longrightarrow> state (procs (demo_run n) 0) = PROC_READY"
  proof (intro allI impI)
    fix n
    have "procs (demo_run n) = procs demo_table"
      by (induction n) (auto simp: pick_next_def split: option.split)
    then show "state (procs (demo_run n) 0) = PROC_READY" by (simp add: demo_table_def demo_proc_def)
  qed
qed (simp_all add: demo_table_def)

definition exit_demo :: ptable where
  "exit_demo = \<lparr>procs = (\<lambda>i. if i = 0 then demo_proc 1 None PROC_READY
     else if i = 1 then demo_proc 2 (Some 0) PROC_RUNNING else zero_proc), next_pid = 3, rr_next = 0\<rparr>"

theorem exit_then_wait_witness:
  "fst (proc_wait 0 2 False False 0 (snd (do_exit 0 256 1 exit_demo))) = Wait_child 2 256"
proof -
  let ?x = "do_exit 0 256 1 exit_demo"
  let ?w = "proc_wait 0 2 False False 0 (snd ?x)"
  have ok: "pids_unique exit_demo" "running exit_demo 1"
    by (simp_all add: pids_unique_def running_def exit_demo_def demo_proc_def zero_proc_def)
  have p: "pid (procs exit_demo 1) = 2" "parent (procs exit_demo 1) = Some 0"
    by (simp_all add: exit_demo_def demo_proc_def)
  show ?thesis
    using exit_then_wait[of 1 0 exit_demo 0 256 "fst ?x" "snd ?x" False False "fst ?w" "fst (snd ?w)" "snd (snd ?w)"]
      ok p by simp
qed

end
