(* ===== verification/Uaccess.thy ===== *)
theory Uaccess
  imports Bytes
begin

text \<open>
  Access to user memory (\<^verbatim>\<open>kernel/sys/uaccess.c\<close>). The memory of the current process is a function from
  addresses to bytes; \<^verbatim>\<open>user_ok\<close> is the outcome of \<^verbatim>\<open>mm_prefault\<close> for an address, a length and the kind of
  access. The three copy functions ask it before they touch a byte.
\<close>

type_synonym user_check = "u64 \<Rightarrow> nat \<Rightarrow> bool \<Rightarrow> bool"

definition copy_from_user :: "user_check \<Rightarrow> u64 \<Rightarrow> nat \<Rightarrow> memory \<Rightarrow> errno + u8 list" where
  "copy_from_user user_ok src len m =
     (if \<not> user_ok src len False then Inl EFAULT else Inr (load_bytes src len m))"

definition copy_to_user :: "user_check \<Rightarrow> u64 \<Rightarrow> u8 list \<Rightarrow> memory \<Rightarrow> errno + memory" where
  "copy_to_user user_ok dst bs m =
     (if \<not> user_ok dst (length bs) True then Inl EFAULT else Inr (store_bytes dst bs m))"

text \<open>The loop from index \<open>i\<close>, at most \<open>n\<close> further bytes; the accumulator holds what was read.\<close>

fun copy_string_loop :: "user_check \<Rightarrow> u64 \<Rightarrow> nat \<Rightarrow> nat \<Rightarrow> u8 list \<Rightarrow> memory \<Rightarrow> errno + u8 list" where
  "copy_string_loop user_ok src i 0 acc m = Inl ENAMETOOLONG"
| "copy_string_loop user_ok src i (Suc n) acc m =
     (if (i = 0 \<or> (src + of_nat i) AND (PAGE_SIZE - 1) = 0) \<and> \<not> user_ok (src + of_nat i) 1 False
      then Inl EFAULT
      else
        (let c = m (src + of_nat i)
         in if c = 0 then Inr acc else copy_string_loop user_ok src (Suc i) n (acc @ [c]) m))"

definition copy_string_from_user :: "user_check \<Rightarrow> u64 \<Rightarrow> nat \<Rightarrow> memory \<Rightarrow> errno + u8 list" where
  "copy_string_from_user user_ok src mx m = copy_string_loop user_ok src 0 mx [] m"

text \<open>
  A returned string is the bytes before the first zero byte, it fits the buffer with its terminator,
  and each page it touches was asked for, at its first byte that the string uses.
\<close>

lemma copy_string_loop_ok:
  assumes "copy_string_loop user_ok src i n acc m = Inr s" "acc = load_bytes src i m"
    "\<forall>j < i. m (src + of_nat j) \<noteq> 0"
    "\<forall>j < i. j = 0 \<or> (src + of_nat j) AND (PAGE_SIZE - 1) = 0 \<longrightarrow> user_ok (src + of_nat j) 1 False"
  shows "i \<le> length s \<and> length s < i + n \<and> s = load_bytes src (length s) m
    \<and> (\<forall>j < length s. m (src + of_nat j) \<noteq> 0) \<and> m (src + of_nat (length s)) = 0
    \<and> (\<forall>j \<le> length s. j = 0 \<or> (src + of_nat j) AND (PAGE_SIZE - 1) = 0 \<longrightarrow> user_ok (src + of_nat j) 1 False)"
  using assms
proof (induction n arbitrary: i acc)
  case (Suc n)
  let ?a = "src + of_nat i"
  have ok: "i = 0 \<or> ?a AND (PAGE_SIZE - 1) = 0 \<longrightarrow> user_ok ?a 1 False"
    using Suc(2) by (auto simp: Let_def split: if_splits)
  show ?case
  proof (cases "m ?a = 0")
    case True
    with Suc(2) ok have "s = acc" by (auto simp: Let_def split: if_splits)
    then have e: "s = load_bytes src i m" and l: "length s = i" using Suc(3) by simp_all
    have "j \<le> i \<longleftrightarrow> j < i \<or> j = i" for j by auto
    with ok Suc(5) have "\<forall>j \<le> i. j = 0 \<or> (src + of_nat j) AND (PAGE_SIZE - 1) = 0 \<longrightarrow> user_ok (src + of_nat j) 1 False"
      by blast
    with True Suc(4) e show ?thesis unfolding l by (intro conjI) (assumption | simp)+
  next
    case False
    with Suc(2) ok have r: "copy_string_loop user_ok src (Suc i) n (acc @ [m ?a]) m = Inr s"
      by (auto simp: Let_def split: if_splits)
    have "acc @ [m ?a] = load_bytes src (Suc i) m" using Suc(3) by (simp add: load_bytes_def)
    note IH = Suc(1)[OF r this]
    have "\<forall>j < Suc i. m (src + of_nat j) \<noteq> 0"
      "\<forall>j < Suc i. j = 0 \<or> (src + of_nat j) AND (PAGE_SIZE - 1) = 0 \<longrightarrow> user_ok (src + of_nat j) 1 False"
      using Suc(4,5) False ok less_Suc_eq by blast+
    from IH[OF this] show ?thesis by (simp add: Suc_le_eq)
  qed
qed simp

end
