(* ===== verification/Signal.thy ===== *)
theory Signal
  imports Sched Uaccess
begin

text \<open>
  Signals (\<^verbatim>\<open>kernel/proc/signal.c\<close>) beyond the sending of one signal, which is part of \<^verbatim>\<open>Process\<close>: groups and
  \<^verbatim>\<open>kill\<close>, delivery with the frame on the user stack, the return from a handler, and the system calls.
  Functions on the current process take and return its record; its user memory is a byte function and
  \<^verbatim>\<open>user_ok\<close> the outcome of the access check.
\<close>

section \<open>Groups and kill\<close>

definition cast32 :: "int \<Rightarrow> int" where "cast32 n = signed_take_bit 31 n"

definition send_if :: "(nat \<Rightarrow> ptable \<Rightarrow> bool) \<Rightarrow> int \<Rightarrow> nat \<Rightarrow> nat \<times> ptable \<Rightarrow> nat \<times> ptable" where
  "send_if P sig i st = (case st of (n, t) \<Rightarrow>
     if P i t then (n + 1, if sig \<noteq> 0 then signal_send_locked i sig t else t) else (n, t))"

definition signal_send_pgrp_locked :: "int \<Rightarrow> int \<Rightarrow> ptable \<Rightarrow> nat \<times> ptable" where
  "signal_send_pgrp_locked pg sig t =
     (if pg \<le> 0 then (0, t)
      else fold (\<lambda>i (n, t). let p = procs t i in
             if state p \<noteq> PROC_UNUSED \<and> is_user p \<and> pgid p = pg
             then (n + 1, signal_send_locked i sig t) else (n, t)) [0..<MAX_PROCS] (0, t))"

text \<open>Is process \<open>i\<close> a target of \<^verbatim>\<open>kill\<close> with a group or with everybody?\<close>

definition kill_target :: "nat \<Rightarrow> int \<Rightarrow> nat \<Rightarrow> ptable \<Rightarrow> bool" where
  "kill_target cur n i t =
     (let p = procs t i; pg = (if n = 0 then pgid (procs t cur) else - n) in
      alive p \<and> is_user p \<and>
      (if n = - 1 then
         \<not> (i = cur \<or> (case parent p of None \<Rightarrow> True | Some q \<Rightarrow> \<not> is_user (procs t q)))
       else pgid p = pg))"

definition signal_kill :: "nat \<Rightarrow> int \<Rightarrow> int \<Rightarrow> ptable \<Rightarrow> (errno + unit) \<times> ptable" where
  "signal_kill cur n sig t =
     (if sig < 0 \<or> sig \<ge> int NSIG then (Inl EINVAL, t)
      else if n > 0 then
        (case proc_find_locked n t of
           None \<Rightarrow> (Inl ESRCH, t)
         | Some i \<Rightarrow>
             if \<not> alive (procs t i) then (Inl ESRCH, t)
             else if \<not> is_user (procs t i) then (Inl EPERM, t)
             else (Inr (), if sig \<noteq> 0 then signal_send_locked i sig t else t))
      else
        (case fold (send_if (kill_target cur n) sig) [0..<MAX_PROCS] (0, t) of
           (cnt, t) \<Rightarrow> (if cnt = 0 then Inl ESRCH else Inr (), t)))"

section \<open>Delivery\<close>

definition ctz :: "u32 \<Rightarrow> nat" where
  "ctz w = (case find (bit w) [0..<32] of Some i \<Rightarrow> i | None \<Rightarrow> 32)"

definition next_signal :: "process \<Rightarrow> nat" where
  "next_signal p =
     (let ready = sig_pending p AND NOT (sig_blocked p) in
      if killed p then SIGKILL
      else if ready = 0 then 0
      else if ready AND BIT SIGKILL \<noteq> 0 then SIGKILL
      else ctz ready)"

record interrupt_frame =
  f_r15 :: u64
  f_r14 :: u64
  f_r13 :: u64
  f_r12 :: u64
  f_r11 :: u64
  f_r10 :: u64
  f_r9 :: u64
  f_r8 :: u64
  f_rbp :: u64
  f_rdi :: u64
  f_rsi :: u64
  f_rdx :: u64
  f_rcx :: u64
  f_rbx :: u64
  f_rax :: u64
  f_vector :: u64
  f_error_code :: u64
  f_rip :: u64
  f_cs :: u64
  f_rflags :: u64
  f_rsp :: u64
  f_ss :: u64

abbreviation SA_RESTART :: u64 where "SA_RESTART \<equiv> 0x10000000"
abbreviation SA_RESTORER :: u64 where "SA_RESTORER \<equiv> 0x04000000"
abbreviation SA_NODEFER :: u64 where "SA_NODEFER \<equiv> 0x40000000"
abbreviation SA_RESETHAND :: u64 where "SA_RESETHAND \<equiv> 0x80000000"
abbreviation FORCE_IRET_VECTOR :: u64 where "FORCE_IRET_VECTOR \<equiv> 0x81"

text \<open>The words of \<^verbatim>\<open>struct sigframe\<close>: the return address, the registers, the signal mask, the number.\<close>

definition sigframe :: "u64 \<Rightarrow> interrupt_frame \<Rightarrow> u32 \<Rightarrow> nat \<Rightarrow> u64 list" where
  "sigframe retaddr f msk sig =
     [retaddr, f_r15 f, f_r14 f, f_r13 f, f_r12 f, f_r11 f, f_r10 f, f_r9 f, f_r8 f, f_rbp f, f_rdi f, f_rsi f,
      f_rdx f, f_rcx f, f_rbx f, f_rax f, f_rip f, f_rflags f, f_rsp f, ucast msk, of_nat sig]"

definition frame_sp :: "u64 \<Rightarrow> u64" where
  "frame_sp rsp = ((rsp - 128 - 168) AND NOT 15) - 8"

definition setup_frame :: "user_check \<Rightarrow> nat \<Rightarrow> sigaction \<Rightarrow> interrupt_frame \<Rightarrow> process \<Rightarrow> memory
    \<Rightarrow> (interrupt_frame \<times> process \<times> memory) option" where
  "setup_frame user_ok sig act f p m =
     (if sa_flags act AND SA_RESTORER = 0 \<or> sa_restorer act = 0 then None
      else
        (let fr = sigframe (sa_restorer act) f (sig_blocked p) sig; sp = frame_sp (f_rsp f) in
         case copy_to_user user_ok sp (concat (map le64 fr)) m of
           Inl _ \<Rightarrow> None
         | Inr m' \<Rightarrow>
             (let f' = f\<lparr>f_rip := sa_handler act, f_rsp := sp, f_rdi := of_nat sig, f_rsi := 0, f_rdx := 0,
                         f_rax := 0, f_rflags := f_rflags f AND NOT (push_bit 8 1 OR push_bit 10 1)\<rparr>;
                  p = p\<lparr>sig_blocked := sig_blocked p OR (ucast (sa_mask act) AND NOT UNBLOCKABLE)\<rparr>;
                  p = (if sa_flags act AND SA_NODEFER = 0 then p\<lparr>sig_blocked := sig_blocked p OR BIT sig\<rparr> else p);
                  p = (if sa_flags act AND SA_RESETHAND \<noteq> 0
                       then p\<lparr>sig_actions := (sig_actions p)(sig := (sig_actions p sig)\<lparr>sa_handler := SIG_DFL\<rparr>)\<rparr> else p)
              in Some (f', p, m'))))"

datatype delivery =
  Deliver_return interrupt_frame process memory
| Deliver_exit nat process
| Deliver_stop nat process

lemma BIT_bit: "bit (BIT s) k \<longleftrightarrow> k = s \<and> k < 32"
  by (auto simp: BIT_def bit_simps)

lemma word_eq_0_iff: "w = (0 :: 'a::len word) \<longleftrightarrow> (\<forall>n. \<not> bit w n)"
  by (auto intro: bit_word_eqI)

lemma and_BIT_eq_0: "s < 32 \<Longrightarrow> w AND BIT s = 0 \<longleftrightarrow> \<not> bit w s"
  by (auto simp: word_eq_0_iff BIT_bit bit_simps)

lemma ctz_bit: "w \<noteq> 0 \<Longrightarrow> ctz w < 32 \<and> bit w (ctz w)"
proof -
  assume "w \<noteq> 0"
  then obtain i where i: "bit w i" by (auto simp: word_eq_0_iff)
  then have "i < 32" using bit_imp_le_length[OF i] by simp
  with i have "find (bit w) [0..<32] \<noteq> None" by (auto simp: find_None_iff)
  then obtain k where k: "find (bit w) [0..<32] = Some k" by blast
  then have "ctz w = k" by (simp add: ctz_def)
  with k show ?thesis by (auto simp: find_Some_iff)
qed

lemma next_signal_pending:
  assumes "\<not> killed p" "next_signal p \<noteq> 0"
  shows "next_signal p < 32" "bit (sig_pending p) (next_signal p)" "\<not> bit (sig_blocked p) (next_signal p)"
proof -
  let ?r = "sig_pending p AND NOT (sig_blocked p)"
  have "next_signal p < 32 \<and> bit ?r (next_signal p)"
    using assms ctz_bit[of ?r] and_BIT_eq_0[of SIGKILL ?r] by (auto simp: next_signal_def Let_def split: if_splits)
  then show "next_signal p < 32" "bit (sig_pending p) (next_signal p)" "\<not> bit (sig_blocked p) (next_signal p)"
    by (auto simp: bit_simps)
qed

lemma clear_bit_less:
  assumes "bit w s" "s < 32"
  shows "unat (w AND NOT (BIT s)) < unat (w :: u32)"
proof -
  have "w AND NOT (BIT s) \<noteq> w"
    using assms by (metis BIT_bit bit_and_iff bit_not_iff)
  moreover have "w AND NOT (BIT s) \<le> w" by (rule word_and_le2)
  ultimately show ?thesis by (simp add: word_less_nat_alt[symmetric])
qed

text \<open>
  The loop of \<^verbatim>\<open>signal_deliver\<close> on the current process. \<open>Deliver_stop\<close> is the call of \<^verbatim>\<open>proc_stop_self\<close>: the
  loop goes on from its process state when the process runs again.
\<close>

function signal_deliver :: "user_check \<Rightarrow> interrupt_frame \<Rightarrow> process \<Rightarrow> memory \<Rightarrow> delivery" where
  "signal_deliver user_ok f p m =
     (if \<not> is_user p then Deliver_return f p m
      else if killed p then Deliver_exit SIGKILL p
      else
        (let sig = next_signal p in
         if sig = 0 then Deliver_return f p m
         else
           (let p' = p\<lparr>sig_pending := sig_pending p AND NOT (BIT sig)\<rparr>; act = sig_actions p sig in
            if sa_handler act = SIG_IGN then signal_deliver user_ok f p' m
            else if sa_handler act = SIG_DFL then
              (if default_ignore sig then signal_deliver user_ok f p' m
               else if default_stop sig then Deliver_stop sig p'
               else Deliver_exit sig p')
            else
              (case setup_frame user_ok sig act f p' m of
                 None \<Rightarrow> Deliver_exit SIGSEGV p'
               | Some (f', p'', m') \<Rightarrow> Deliver_return f' p'' m'))))"
  by pat_completeness auto
termination
proof (relation "measure (\<lambda>(user_ok, f, p, m). unat (sig_pending p))", goal_cases)
  case (2 user_ok f p m sig p' act)
  then show ?case using next_signal_pending(1,2)[of p] by (auto intro: clear_bit_less)
next
  case (3 user_ok f p m sig p' act)
  then show ?case using next_signal_pending(1,2)[of p] by (auto intro: clear_bit_less)
qed simp

declare signal_deliver.simps [simp del]

definition signal_should_restart :: "u64 \<Rightarrow> process \<Rightarrow> bool" where
  "signal_should_restart nr p =
     (if nr \<noteq> 2 \<and> nr \<noteq> 1 \<and> nr \<noteq> 6 \<and> nr \<noteq> 42 \<and> nr \<noteq> 9 then False
      else
        (let sig = next_signal p; a = sig_actions p sig in
         if sig \<noteq> 0 \<and> sig \<noteq> SIGKILL then
           (if sa_handler a = SIG_DFL then default_stop sig
            else if sa_handler a \<noteq> SIG_IGN \<and> nr \<noteq> 9 then sa_flags a AND SA_RESTART \<noteq> 0
            else False)
         else False))"

definition signal_force :: "nat \<Rightarrow> process \<Rightarrow> bool \<times> process" where
  "signal_force sig p =
     (let p = (if sa_handler (sig_actions p sig) = SIG_IGN \<or> sig_blocked p AND BIT sig \<noteq> 0
               then p\<lparr>sig_actions := (sig_actions p)(sig := (sig_actions p sig)\<lparr>sa_handler := SIG_DFL\<rparr>),
                      sig_blocked := sig_blocked p AND NOT (BIT sig)\<rparr>
               else p);
          p = p\<lparr>sig_pending := sig_pending p OR BIT sig\<rparr>
      in (sa_handler (sig_actions p sig) = SIG_DFL, p))"

definition signal_exec_reset :: "process \<Rightarrow> process" where
  "signal_exec_reset p =
     p\<lparr>sig_actions := (\<lambda>s. if 1 \<le> s \<and> s < NSIG \<and> sa_handler (sig_actions p s) \<noteq> SIG_IGN
                          then no_action else sig_actions p s)\<rparr>"

section \<open>System calls\<close>

definition sigaction_words :: "sigaction \<Rightarrow> u64 list" where
  "sigaction_words a = [sa_handler a, sa_flags a, sa_restorer a, sa_mask a]"

definition read_sigaction :: "u64 \<Rightarrow> memory \<Rightarrow> sigaction" where
  "read_sigaction a m = \<lparr>sa_handler = load_u64 a m, sa_flags = load_u64 (a + 8) m, sa_restorer = load_u64 (a + 16) m,
     sa_mask = load_u64 (a + 24) m\<rparr>"

definition sys_sigaction :: "user_check \<Rightarrow> u64 \<Rightarrow> u64 \<Rightarrow> u64 \<Rightarrow> process \<Rightarrow> memory \<Rightarrow> (errno + unit) \<times> process \<times> memory" where
  "sys_sigaction user_ok sig uact uold p m =
     (if sig = 0 \<or> sig \<ge> of_nat NSIG then (Inl EINVAL, p, m)
      else if uact \<noteq> 0 \<and> \<not> user_ok uact 32 False then (Inl EFAULT, p, m)
      else if uact \<noteq> 0 \<and> (sig = of_nat SIGKILL \<or> sig = of_nat SIGSTOP) then (Inl EINVAL, p, m)
      else
        (let s = unat sig; act = read_sigaction uact m; old = sig_actions p s;
             p = (if uact \<noteq> 0 then
                    (let act = act\<lparr>sa_mask := sa_mask act AND NOT (ucast UNBLOCKABLE)\<rparr>;
                         p = p\<lparr>sig_actions := (sig_actions p)(s := act)\<rparr>
                     in if sa_handler act = SIG_IGN \<or> (sa_handler act = SIG_DFL \<and> default_ignore s)
                        then p\<lparr>sig_pending := sig_pending p AND NOT (BIT s)\<rparr> else p)
                  else p)
         in if uold \<noteq> 0 then
              (case copy_to_user user_ok uold (concat (map le64 (sigaction_words old))) m of
                 Inl e \<Rightarrow> (Inl EFAULT, p, m) | Inr m' \<Rightarrow> (Inr (), p, m'))
            else (Inr (), p, m)))"

definition sys_sigprocmask :: "user_check \<Rightarrow> u64 \<Rightarrow> u64 \<Rightarrow> u64 \<Rightarrow> process \<Rightarrow> memory \<Rightarrow> (errno + unit) \<times> process \<times> memory" where
  "sys_sigprocmask user_ok how uset uold p m =
     (if uset \<noteq> 0 \<and> \<not> user_ok uset 8 False then (Inl EFAULT, p, m)
      else if uset \<noteq> 0 \<and> how > 2 then (Inl EINVAL, p, m)
      else
        (let old = sig_blocked p; s = (ucast (load_u64 uset m) :: u32) AND NOT UNBLOCKABLE;
             p = (if uset = 0 then p
                  else if how = 0 then p\<lparr>sig_blocked := sig_blocked p OR s\<rparr>
                  else if how = 1 then p\<lparr>sig_blocked := sig_blocked p AND NOT s\<rparr>
                  else p\<lparr>sig_blocked := s\<rparr>)
         in if uold \<noteq> 0 then
              (case copy_to_user user_ok uold (le64 (ucast old)) m of
                 Inl e \<Rightarrow> (Inl EFAULT, p, m) | Inr m' \<Rightarrow> (Inr (), p, m'))
            else (Inr (), p, m)))"

datatype sigreturn_result = Sigreturn_segv | Sigreturn_ok u64 interrupt_frame process

definition sys_sigreturn :: "user_check \<Rightarrow> interrupt_frame \<Rightarrow> process \<Rightarrow> memory \<Rightarrow> sigreturn_result" where
  "sys_sigreturn user_ok f p m =
     (if \<not> user_ok (f_rsp f) 160 False then Sigreturn_segv
      else
        (let c = load_words (f_rsp f) 20 m in
         if c ! 15 \<ge> 0x0000800000000000 \<or> c ! 17 \<ge> 0x0000800000000000 then Sigreturn_segv
         else
           (let f = f\<lparr>f_r15 := c ! 0, f_r14 := c ! 1, f_r13 := c ! 2, f_r12 := c ! 3, f_r11 := c ! 4, f_r10 := c ! 5,
                      f_r9 := c ! 6, f_r8 := c ! 7, f_rbp := c ! 8, f_rdi := c ! 9, f_rsi := c ! 10, f_rdx := c ! 11,
                      f_rcx := c ! 12, f_rbx := c ! 13, f_rip := c ! 15, f_rsp := c ! 17,
                      f_rflags := (c ! 16 AND 0xCD5) OR push_bit 9 1 OR push_bit 1 1, f_vector := FORCE_IRET_VECTOR\<rparr>
            in Sigreturn_ok (c ! 14) f (p\<lparr>sig_blocked := ucast (c ! 18) AND NOT UNBLOCKABLE\<rparr>))))"

definition sys_setpgid :: "nat \<Rightarrow> int \<Rightarrow> int \<Rightarrow> ptable \<Rightarrow> (errno + unit) \<times> ptable" where
  "sys_setpgid me n pg t =
     (if pg < 0 then (Inl EINVAL, t)
      else
        (case (if n = 0 then Some me else proc_find_locked (cast32 n) t) of
           None \<Rightarrow> (Inl ESRCH, t)
         | Some i \<Rightarrow>
             (let p = procs t i; q = procs t me in
              if \<not> alive p \<or> (i \<noteq> me \<and> parent p \<noteq> Some me) then (Inl ESRCH, t)
              else if sid p \<noteq> sid q \<or> sid p = pid p then (Inl EPERM, t)
              else
                (let target = (if pg \<noteq> 0 then cast32 pg else pid p) in
                 if target \<noteq> pid p \<and>
                    find_proc (\<lambda>r. alive r \<and> pgid r = target \<and> sid r = sid q) t = None
                 then (Inl EPERM, t)
                 else (Inr (), upd_proc i (\<lambda>p. p\<lparr>pgid := target\<rparr>) t)))))"

definition sys_getpgid :: "nat \<Rightarrow> int \<Rightarrow> ptable \<Rightarrow> errno + int" where
  "sys_getpgid me n t =
     (case (if n = 0 then Some me else proc_find_locked (cast32 n) t) of
        None \<Rightarrow> Inl ESRCH
      | Some i \<Rightarrow> if alive (procs t i) then Inr (pgid (procs t i)) else Inl ESRCH)"

definition sys_setsid :: "nat \<Rightarrow> ptable \<Rightarrow> (errno + int) \<times> ptable" where
  "sys_setsid me t =
     (if find_proc (\<lambda>q. alive q \<and> pgid q = pid (procs t me)) t \<noteq> None then (Inl EPERM, t)
      else (Inr (pid (procs t me)), upd_proc me (\<lambda>p. p\<lparr>sid := pid p, pgid := pid p\<rparr>) t))"

definition sys_alarm :: "u64 \<Rightarrow> u64 \<Rightarrow> process \<Rightarrow> u64 \<times> process" where
  "sys_alarm seconds now p =
     (if alarm_tick p > now then (alarm_tick p - now + TIMER_HZ - 1) div TIMER_HZ else 0,
      p\<lparr>alarm_tick := (if seconds \<noteq> 0 then now + seconds * TIMER_HZ else 0)\<rparr>)"

text \<open>One turn of the loop of \<^verbatim>\<open>sys_pause\<close>: the call returns (True) or the process goes to sleep.\<close>

definition sys_pause :: "nat \<Rightarrow> nat \<Rightarrow> ptable \<Rightarrow> bool \<times> ptable" where
  "sys_pause pause_channel cur t =
     (if signal_interrupted (procs t cur) then (True, t) else (False, proc_sleep pause_channel cur t))"

end
