(* ===== verification/Signal_Proofs.thy ===== *)
theory Signal_Proofs
  imports Signal
begin

text \<open>
  Properties of the signal code: SIGKILL and SIGSTOP cannot be blocked, caught or ignored and SIGKILL
  always ends the process; \<^verbatim>\<open>kill\<close> reaches exactly its targets; returning from a handler restores the
  interrupted registers and the signal mask; and no frame a program puts on its stack gives it more
  than user-mode registers.
\<close>

section \<open>The two signals a process cannot refuse\<close>

definition sigs_ok :: "process \<Rightarrow> bool" where
  "sigs_ok p \<longleftrightarrow> \<not> bit (sig_blocked p) SIGKILL \<and> \<not> bit (sig_blocked p) SIGSTOP
     \<and> sa_handler (sig_actions p SIGKILL) = SIG_DFL \<and> sa_handler (sig_actions p SIGSTOP) = SIG_DFL"

lemma UNBLOCKABLE_bit: "bit UNBLOCKABLE k \<longleftrightarrow> k = SIGKILL \<or> k = SIGSTOP"
  by (auto simp: UNBLOCKABLE_def BIT_bit bit_simps)

lemma default_stop_iff: "s < 32 \<Longrightarrow> default_stop s \<longleftrightarrow> s \<in> {SIGSTOP, SIGTSTP, SIGTTIN, SIGTTOU}"
  by (auto simp: default_stop_def and_BIT_eq_0 STOP_SIGNALS_def BIT_bit bit_simps)

text \<open>Everything that changes the mask or the handlers of a process.\<close>

inductive sig_step :: "process \<Rightarrow> process \<Rightarrow> bool" where
  send: "sig_step p (signal_send sig p)"
| sigaction: "sys_sigaction user_ok sig uact uold p m = (r, p', m') \<Longrightarrow> sig_step p p'"
| sigprocmask: "sys_sigprocmask user_ok how uset uold p m = (r, p', m') \<Longrightarrow> sig_step p p'"
| sigreturn: "sys_sigreturn user_ok f p m = Sigreturn_ok rax f' p' \<Longrightarrow> sig_step p p'"
| deliver: "signal_deliver user_ok f p m = Deliver_return f' p' m' \<Longrightarrow> sig_step p p'"
| stop: "signal_deliver user_ok f p m = Deliver_stop sig p' \<Longrightarrow> sig_step p p'"
| force: "sig < NSIG \<Longrightarrow> sig_step p (snd (signal_force sig p))"
| exec: "sig_step p (signal_exec_reset p)"

lemma sigs_ok_cong:
  "sig_blocked p' = sig_blocked p \<Longrightarrow> sig_actions p' = sig_actions p \<Longrightarrow> sigs_ok p' = sigs_ok p"
  by (simp add: sigs_ok_def)

lemma signal_send_sigs [simp]:
  "sig_blocked (signal_send sig p) = sig_blocked p" "sig_actions (signal_send sig p) = sig_actions p"
  by (simp_all add: signal_send_def Let_def proc_wake_locked_def)

lemma sigaction_ok: "sigs_ok p \<Longrightarrow> sys_sigaction user_ok sig uact uold p m = (r, p', m') \<Longrightarrow> sigs_ok p'"
proof -
  assume ok: "sigs_ok p" and s: "sys_sigaction user_ok sig uact uold p m = (r, p', m')"
  have "unat sig \<noteq> SIGKILL \<and> unat sig \<noteq> SIGSTOP" if "sig \<noteq> of_nat SIGKILL" "sig \<noteq> of_nat SIGSTOP"
  proof -
    have "sig = of_nat (unat sig)" by simp
    with that show ?thesis by metis
  qed
  with ok s show "sigs_ok p'"
    by (auto simp: sys_sigaction_def sigs_ok_def Let_def split: if_splits sum.splits)
qed

lemma sigprocmask_ok: "sigs_ok p \<Longrightarrow> sys_sigprocmask user_ok how uset uold p m = (r, p', m') \<Longrightarrow> sigs_ok p'"
  by (auto simp: sys_sigprocmask_def sigs_ok_def Let_def bit_simps UNBLOCKABLE_bit split: if_splits sum.splits)

lemma sigreturn_ok: "sigs_ok p \<Longrightarrow> sys_sigreturn user_ok f p m = Sigreturn_ok rax f' p' \<Longrightarrow> sigs_ok p'"
  by (auto simp: sys_sigreturn_def sigs_ok_def Let_def bit_simps UNBLOCKABLE_bit split: if_splits)

lemma setup_frame_ok:
  assumes "sigs_ok p" "setup_frame user_ok sig act f p m = Some (f', p', m')" "sig \<noteq> SIGKILL" "sig \<noteq> SIGSTOP"
  shows "sigs_ok p'"
  using assms
  by (auto simp: setup_frame_def sigs_ok_def Let_def bit_simps UNBLOCKABLE_bit BIT_bit split: if_splits sum.splits)

lemma signal_deliver_ok:
  "sigs_ok p \<Longrightarrow> case signal_deliver user_ok f p m of Deliver_return f' p' m' \<Rightarrow> sigs_ok p'
     | Deliver_stop s p' \<Rightarrow> sigs_ok p' | Deliver_exit s p' \<Rightarrow> sigs_ok p'"
proof (induction user_ok f p m rule: signal_deliver.induct)
  case (1 user_ok f p m)
  let ?sig = "next_signal p"
  let ?p = "p\<lparr>sig_pending := sig_pending p AND NOT (BIT ?sig)\<rparr>"
  let ?act = "sig_actions p ?sig"
  have ok': "sigs_ok ?p" using 1(3) by (simp add: sigs_ok_def)
  consider "\<not> is_user p \<or> killed p \<or> ?sig = 0"
    | (ign) "is_user p" "\<not> killed p" "?sig \<noteq> 0" "sa_handler ?act = SIG_IGN"
    | (dfl) "is_user p" "\<not> killed p" "?sig \<noteq> 0" "sa_handler ?act = SIG_DFL" "sa_handler ?act \<noteq> SIG_IGN"
    | (hnd) "is_user p" "\<not> killed p" "?sig \<noteq> 0" "sa_handler ?act \<noteq> SIG_IGN" "sa_handler ?act \<noteq> SIG_DFL"
    by blast
  then show ?case
  proof cases
    case 1
    with \<open>sigs_ok p\<close> show ?thesis by (subst signal_deliver.simps) (auto simp: Let_def)
  next
    case ign
    with "1.IH"(1) ok' show ?thesis by (subst signal_deliver.simps) (simp add: Let_def)
  next
    case dfl
    then show ?thesis
      using "1.IH"(2) ok' by (subst signal_deliver.simps) (simp add: Let_def)
  next
    case hnd
    then have "?sig \<noteq> SIGKILL" "?sig \<noteq> SIGSTOP" using \<open>sigs_ok p\<close> by (auto simp: sigs_ok_def)
    then have "setup_frame user_ok ?sig ?act f ?p m = Some (f', p', m') \<Longrightarrow> sigs_ok p'" for f' p' m'
      using setup_frame_ok[OF ok'] by blast
    with hnd ok' show ?thesis by (subst signal_deliver.simps) (auto simp: Let_def split: option.split)
  qed
qed

lemma sig_step_ok: "sig_step p p' \<Longrightarrow> sigs_ok p \<Longrightarrow> sigs_ok p'"
proof (induction rule: sig_step.induct)
  case (send p sig)
  then show ?case by (simp add: sigs_ok_def)
next
  case (deliver user_ok f p m f' p' m')
  then show ?case using signal_deliver_ok[of p user_ok f m] by simp
next
  case (stop user_ok f p m sig p')
  then show ?case using signal_deliver_ok[of p user_ok f m] by simp
next
  case (force sig p)
  then show ?case by (auto simp: signal_force_def sigs_ok_def Let_def bit_simps)
next
  case (exec p)
  then show ?case by (simp add: signal_exec_reset_def sigs_ok_def no_action_def)
qed (auto intro: sigaction_ok sigprocmask_ok sigreturn_ok)

text \<open>
  C29. SIGKILL and SIGSTOP cannot be refused. Whatever sequence of signal system calls, deliveries,
  returns from handlers and exec a process goes through, the two signals are never in its mask and
  their action stays the default. Hence sending SIGKILL to a live user process makes it runnable if
  it slept or was stopped, and its next delivery ends it with SIGKILL, whatever else is pending.
\<close>

theorem kill_and_stop_not_refused:
  assumes "sigs_ok p0" "sig_step\<^sup>*\<^sup>* p0 p"
  shows "sigs_ok p \<and> (is_user p \<and> \<not> is_idle p \<and> alive p \<longrightarrow>
    (let q = signal_send (int SIGKILL) p in
       state q \<noteq> PROC_BLOCKED \<and> state q \<noteq> PROC_STOPPED \<and> signal_interrupted q
       \<and> (\<forall>user_ok f m. signal_deliver user_ok f q m = Deliver_exit SIGKILL q)
       \<and> (\<not> killed p \<longrightarrow> bit (sig_pending (signal_send (int SIGSTOP) p)) SIGSTOP)))"
proof -
  have ok: "sigs_ok p" using assms(2) by (induction rule: rtranclp_induct) (use assms(1) sig_step_ok in blast)+
  have b: "BIT SIGKILL AND UNBLOCKABLE \<noteq> 0" "BIT SIGSTOP AND UNBLOCKABLE \<noteq> 0"
    by (auto simp: word_eq_0_iff bit_simps BIT_bit UNBLOCKABLE_bit)
  have ds: "\<not> default_stop SIGKILL" by (simp add: default_stop_iff)
  show ?thesis
  proof (intro conjI impI)
    show "sigs_ok p" by (rule ok)
    assume live: "is_user p \<and> \<not> is_idle p \<and> alive p"
    let ?q = "signal_send (int SIGKILL) p"
    have q: "killed ?q" "is_user ?q" "state ?q \<noteq> PROC_BLOCKED" "state ?q \<noteq> PROC_STOPPED"
      using live b ds by (auto simp: signal_send_def Let_def proc_wake_locked_def)
    have "signal_deliver user_ok f ?q m = Deliver_exit SIGKILL ?q" for user_ok f m
      using q by (subst signal_deliver.simps) simp
    moreover have "bit (sig_pending (signal_send (int SIGSTOP) p)) SIGSTOP"
      using live b by (auto simp: signal_send_def Let_def proc_wake_locked_def bit_simps BIT_bit)
    ultimately show "let q = ?q in
       state q \<noteq> PROC_BLOCKED \<and> state q \<noteq> PROC_STOPPED \<and> signal_interrupted q
       \<and> (\<forall>user_ok f m. signal_deliver user_ok f q m = Deliver_exit SIGKILL q)
       \<and> (\<not> killed p \<longrightarrow> bit (sig_pending (signal_send (int SIGSTOP) p)) SIGSTOP)"
      using q by (simp add: Let_def signal_interrupted_def)
  qed
qed

section \<open>Returning from a handler\<close>

lemma length_sigframe [simp]: "length (sigframe r f msk sig) = 21"
  by (simp add: sigframe_def)

lemma UNBLOCKABLE_not_and: "\<not> bit w SIGKILL \<Longrightarrow> \<not> bit w SIGSTOP \<Longrightarrow> w AND NOT UNBLOCKABLE = w"
  by (rule bit_word_eqI) (auto simp: bit_simps UNBLOCKABLE_bit)

lemma ucast_ucast_mask: "(ucast (ucast (w :: u32) :: u64) :: u32) = w"
  by (simp add: unsigned_ucast_eq take_bit_word_eq_self)

text \<open>The stack pointer of the frame: below the red zone, and as after a call instruction.\<close>

lemma frame_sp_props:
  assumes "unat rsp \<ge> 320"
  shows "unat (frame_sp rsp) mod 16 = 8" "unat (frame_sp rsp) + 168 + 128 \<le> unat rsp" "unat (frame_sp rsp) \<ge> 1"
proof -
  have n: "rsp - 128 - 168 = rsp - 296" by simp
  have u: "unat (rsp - 296) = unat rsp - 296"
    using assms by (subst unat_sub) (simp_all add: word_le_nat_alt)
  have al: "(rsp - 296) AND NOT 15 = align_down (rsp - 296) (2 ^ 4)" by (simp add: align_down_def)
  have d: "unat ((rsp - 296) AND NOT 15) = (unat rsp - 296) div 16 * 16"
    unfolding al by (subst unat_align_down_pow2) (simp_all add: u)
  have "16 \<le> (unat rsp - 296) div 16 * 16" using assms by (simp add: div_le_mono[of 16 _ 16, simplified] flip: Suc_le_eq)
  have "unat (((rsp - 296) AND NOT 15) - 8) = unat ((rsp - 296) AND NOT 15) - unat (8 :: u64)"
  proof (rule unat_sub)
    show "8 \<le> ((rsp - 296) AND NOT 15)"
      unfolding word_le_nat_alt d using \<open>16 \<le> (unat rsp - 296) div 16 * 16\<close> by simp
  qed
  then have "unat (frame_sp rsp) = (unat rsp - 296) div 16 * 16 - 8"
    unfolding frame_sp_def n d by simp
  moreover have "\<exists>k. (unat rsp - 296) div 16 * 16 = 16 * Suc k"
    using \<open>16 \<le> (unat rsp - 296) div 16 * 16\<close> by (intro exI[of _ "(unat rsp - 296) div 16 - 1"]) auto
  moreover have "(unat rsp - 296) div 16 * 16 \<le> unat rsp - 296" by simp
  ultimately show "unat (frame_sp rsp) mod 16 = 8" "unat (frame_sp rsp) + 168 + 128 \<le> unat rsp" "unat (frame_sp rsp) \<ge> 1"
    using assms by auto
qed

text \<open>
  C30. A handler returns to where the program was interrupted. When the delivery of a signal has put its
  frame on the user stack and the handler returns, so that the stack pointer is behind the return
  address, with the frame unchanged in memory, then \<^verbatim>\<open>sigreturn\<close> restores every general register, the
  instruction and stack pointer and the signal mask of the interrupted program, and of the flags
  register the arithmetic flags. The frame lies below the red zone and is aligned as after a call.
\<close>

theorem handler_roundtrip:
  assumes "setup_frame user_ok sig act f p m = Some (f', p', m')"
    and "f_rip f < 0x0000800000000000" "f_rsp f < 0x0000800000000000" "320 \<le> f_rsp f" "sigs_ok p"
    and "f_rsp g = f_rsp f' + 8" "user_ok (f_rsp g) 160 False"
    and "load_words (f_rsp g) 20 m'' = load_words (f_rsp g) 20 m'"
  shows "f_rip f' = sa_handler act \<and> f_rdi f' = of_nat sig \<and> load_u64 (f_rsp f') m' = sa_restorer act
    \<and> unat (f_rsp f') mod 16 = 8 \<and> unat (f_rsp f') + 168 + 128 \<le> unat (f_rsp f)
    \<and> sys_sigreturn user_ok g q m'' = Sigreturn_ok (f_rax f)
        (f\<lparr>f_rax := f_rax g, f_vector := FORCE_IRET_VECTOR, f_error_code := f_error_code g, f_cs := f_cs g,
           f_ss := f_ss g, f_rflags := (f_rflags f AND 0xCD5) OR push_bit 9 1 OR push_bit 1 1\<rparr>)
        (q\<lparr>sig_blocked := sig_blocked p\<rparr>)"
proof -
  let ?w = "sigframe (sa_restorer act) f (sig_blocked p) sig"
  have m': "m' = store_words (frame_sp (f_rsp f)) ?w m" and f': "f_rip f' = sa_handler act" "f_rdi f' = of_nat sig"
    "f_rsp f' = frame_sp (f_rsp f)"
    using assms(1) by (auto simp: setup_frame_def Let_def copy_to_user_def store_words_def split: if_splits)
  have sp: "320 \<le> unat (f_rsp f)" using assms(4) by (simp add: word_le_nat_alt)
  have "load_words (frame_sp (f_rsp f) + of_nat (8 * 0)) 1 m' = take 1 (drop 0 ?w)"
    unfolding m' by (rule load_store_words) simp_all
  then have r: "load_u64 (f_rsp f') m' = sa_restorer act" by (simp add: load_words_def f' sigframe_def)
  have "load_words (frame_sp (f_rsp f) + of_nat (8 * 1)) 20 m' = take 20 (drop 1 ?w)"
    unfolding m' by (rule load_store_words) simp_all
  then have c: "load_words (f_rsp g) 20 m'' = take 20 (drop 1 ?w)" using assms(6,8) f' by simp
  have mask: "(ucast (ucast (sig_blocked p) :: u64) :: u32) AND NOT UNBLOCKABLE = sig_blocked p"
    using assms(5) by (simp add: ucast_ucast_mask UNBLOCKABLE_not_and sigs_ok_def)
  have "sys_sigreturn user_ok g q m'' = Sigreturn_ok (f_rax f)
        (f\<lparr>f_rax := f_rax g, f_vector := FORCE_IRET_VECTOR, f_error_code := f_error_code g, f_cs := f_cs g,
           f_ss := f_ss g, f_rflags := (f_rflags f AND 0xCD5) OR push_bit 9 1 OR push_bit 1 1\<rparr>)
        (q\<lparr>sig_blocked := sig_blocked p\<rparr>)"
    unfolding sys_sigreturn_def Let_def c using assms(2,3,7) mask by (simp add: sigframe_def not_le)
  with f' r frame_sp_props[OF sp] show ?thesis by simp
qed

text \<open>
  A forged frame gains nothing. Whatever a program has written to its stack, if \<^verbatim>\<open>sigreturn\<close> returns at
  all, the segment registers are unchanged, the instruction and stack pointers are in the lower half,
  interrupts stay enabled, and the I/O privilege level, the trap flag and every other system flag are
  clear; SIGKILL and SIGSTOP are not blocked.
\<close>

theorem sigreturn_forged_frame:
  assumes "sys_sigreturn user_ok f p m = Sigreturn_ok rax f' p'"
  shows "f_cs f' = f_cs f \<and> f_ss f' = f_ss f \<and> f_rip f' < 0x0000800000000000 \<and> f_rsp f' < 0x0000800000000000
    \<and> bit (f_rflags f') 9 \<and> f_rflags f' AND NOT 0xED7 = 0
    \<and> \<not> bit (sig_blocked p') SIGKILL \<and> \<not> bit (sig_blocked p') SIGSTOP \<and> user_ok (f_rsp f) 160 False"
proof -
  have fl: "((x AND 0xCD5) OR push_bit 9 1 OR push_bit 1 1) AND NOT 0xED7 = (0 :: u64)" for x
  proof -
    have z: "0xCD5 AND NOT 0xED7 = (0 :: u64)" "(push_bit 9 1 OR push_bit 1 1) AND NOT 0xED7 = (0 :: u64)" by simp_all
    have "((x AND a) OR b) AND c = (x AND (a AND c)) OR (b AND c)" for a b c :: u64
      by (simp add: and.assoc bit.conj_disj_distrib2)
    from this[of "0xCD5" "push_bit 9 1 OR push_bit 1 1" "NOT 0xED7"] z show ?thesis by (simp add: or.assoc)
  qed
  have b9: "bit (((x :: u64) AND 0xCD5) OR push_bit 9 1 OR push_bit 1 1) 9" for x by (simp add: bit_simps)
  have k: "\<not> bit ((ucast x :: u32) AND NOT UNBLOCKABLE) SIGKILL" "\<not> bit ((ucast x :: u32) AND NOT UNBLOCKABLE) SIGSTOP"
    for x :: u64 by (simp_all add: bit_simps UNBLOCKABLE_bit)
  show ?thesis
    using assms fl b9 k by (auto simp: sys_sigreturn_def Let_def not_le split: if_splits)
qed

section \<open>Kill\<close>

lemma signal_send_ident [simp]:
  "is_user (signal_send sig p) = is_user p" "pgid (signal_send sig p) = pgid p" "parent (signal_send sig p) = parent p"
  by (simp_all add: signal_send_def Let_def proc_wake_locked_def)

lemma signal_send_alive [simp]: "alive (signal_send sig p) = alive p"
  using signal_send_state[of sig p] by (auto simp: alive_def)

definition kill_all :: "nat \<Rightarrow> int \<Rightarrow> int \<Rightarrow> nat \<Rightarrow> ptable \<Rightarrow> ptable" where
  "kill_all cur n sig k t = t\<lparr>procs := (\<lambda>i. if i < k \<and> kill_target cur n i t \<and> sig \<noteq> 0
     then signal_send sig (procs t i) else procs t i)\<rparr>"

lemma kill_target_all: "kill_target cur n i (kill_all cur n sig k t) = kill_target cur n i t"
  by (simp add: kill_target_def kill_all_def Let_def split: option.split)

lemma kill_fold:
  "fold (send_if (kill_target cur n) sig) [0..<k] (0, t)
     = (card {i. i < k \<and> kill_target cur n i t}, kill_all cur n sig k t)"
proof (induction k)
  case 0
  have "(\<lambda>i. procs t i) = procs t" by simp
  then show ?case by (simp add: kill_all_def)
next
  case (Suc k)
  have s: "{i. i < Suc k \<and> kill_target cur n i t}
      = (if kill_target cur n k t then insert k {i. i < k \<and> kill_target cur n i t} else {i. i < k \<and> kill_target cur n i t})"
    by (auto simp: less_Suc_eq)
  have "signal_send_locked k sig (kill_all cur n sig k t) = kill_all cur n sig (Suc k) t" if "kill_target cur n k t" "sig \<noteq> 0"
    using that by (auto simp: kill_all_def signal_send_locked_def upd_proc_def fun_eq_iff less_Suc_eq)
  moreover have "kill_all cur n sig k t = kill_all cur n sig (Suc k) t" if "\<not> kill_target cur n k t \<or> sig = 0"
    using that by (auto simp: kill_all_def fun_eq_iff less_Suc_eq)
  ultimately show ?case using Suc by (auto simp: send_if_def kill_target_all s)
qed

text \<open>
  Kill reaches exactly its targets. With a pid the signal goes to that process; with 0 or a negative
  group number to every live user process of the group; with -1 to every live user process but the
  caller and the children of the kernel. Nobody else changes, signal 0 only probes, and the call fails
  exactly when there is no target, for a kernel thread, or for a bad signal number.
\<close>

theorem kill_reaches_targets:
  assumes "0 \<le> sig" "sig < int NSIG" "pids_unique t"
  shows "(n \<le> 0 \<longrightarrow> (\<forall>i < MAX_PROCS. procs (snd (signal_kill cur n sig t)) i =
              (if kill_target cur n i t \<and> sig \<noteq> 0 then signal_send sig (procs t i) else procs t i))
            \<and> fst (signal_kill cur n sig t) = (if \<exists>i < MAX_PROCS. kill_target cur n i t then Inr () else Inl ESRCH))
    \<and> (n > 0 \<longrightarrow> (\<forall>i < MAX_PROCS. state (procs t i) \<noteq> PROC_UNUSED \<and> pid (procs t i) = n \<longrightarrow>
           signal_kill cur n sig t =
             (if \<not> alive (procs t i) then (Inl ESRCH, t)
              else if \<not> is_user (procs t i) then (Inl EPERM, t)
              else (Inr (), if sig \<noteq> 0 then upd_proc i (signal_send sig) t else t)))
         \<and> ((\<forall>i < MAX_PROCS. state (procs t i) = PROC_UNUSED \<or> pid (procs t i) \<noteq> n) \<longrightarrow>
              signal_kill cur n sig t = (Inl ESRCH, t)))"
proof (intro conjI impI allI)
  assume n: "n \<le> 0"
  have k: "signal_kill cur n sig t =
      (if card {i. i < MAX_PROCS \<and> kill_target cur n i t} = 0 then Inl ESRCH else Inr (), kill_all cur n sig MAX_PROCS t)"
    unfolding signal_kill_def kill_fold using n assms(1,2) by simp
  show "procs (snd (signal_kill cur n sig t)) i =
              (if kill_target cur n i t \<and> sig \<noteq> 0 then signal_send sig (procs t i) else procs t i)" if "i < MAX_PROCS" for i
    using that unfolding k by (simp add: kill_all_def)
  have "finite {i. i < MAX_PROCS \<and> kill_target cur n i t}" by simp
  then have "card {i. i < MAX_PROCS \<and> kill_target cur n i t} = 0 \<longleftrightarrow> \<not> (\<exists>i < MAX_PROCS. kill_target cur n i t)"
    by (subst card_eq_0_iff) auto
  then show "fst (signal_kill cur n sig t) = (if \<exists>i < MAX_PROCS. kill_target cur n i t then Inr () else Inl ESRCH)"
    unfolding k by simp
next
  fix i assume n: "0 < n" and i: "i < MAX_PROCS" "state (procs t i) \<noteq> PROC_UNUSED \<and> pid (procs t i) = n"
  have "find_proc (\<lambda>p. state p \<noteq> PROC_UNUSED \<and> pid p = n) t \<noteq> None"
    using i by (auto simp: find_proc_def find_None_iff)
  then obtain j where j: "find_proc (\<lambda>p. state p \<noteq> PROC_UNUSED \<and> pid p = n) t = Some j" by blast
  then have "j = i" using find_proc_Some[OF j] i assms(3) unfolding pids_unique_def by blast
  with j have "proc_find_locked n t = Some i" by (simp add: proc_find_locked_def)
  then show "signal_kill cur n sig t =
             (if \<not> alive (procs t i) then (Inl ESRCH, t)
              else if \<not> is_user (procs t i) then (Inl EPERM, t)
              else (Inr (), if sig \<noteq> 0 then upd_proc i (signal_send sig) t else t))"
    using n assms(1,2) by (simp add: signal_kill_def signal_send_locked_def)
next
  assume n: "0 < n" and no: "\<forall>i < MAX_PROCS. state (procs t i) = PROC_UNUSED \<or> pid (procs t i) \<noteq> n"
  then have "proc_find_locked n t = None" by (auto simp: proc_find_locked_def find_proc_def find_None_iff)
  then show "signal_kill cur n sig t = (Inl ESRCH, t)" using n assms(1,2) by (simp add: signal_kill_def)
qed

section \<open>Witnesses\<close>

definition zero_frame :: interrupt_frame where
  "zero_frame = \<lparr>f_r15 = 1, f_r14 = 2, f_r13 = 3, f_r12 = 4, f_r11 = 5, f_r10 = 6, f_r9 = 7, f_r8 = 8, f_rbp = 9, f_rdi = 10,
     f_rsi = 11, f_rdx = 12, f_rcx = 13, f_rbx = 14, f_rax = 15, f_vector = 128, f_error_code = 0, f_rip = 0x401000,
     f_cs = 0x23, f_rflags = 0x202, f_rsp = 0x7FFFFFFFE000, f_ss = 0x1B\<rparr>"

definition demo_action :: sigaction where
  "demo_action = \<lparr>sa_handler = 0x402000, sa_flags = SA_RESTORER, sa_restorer = 0x403000, sa_mask = 0\<rparr>"

theorem kill_and_stop_not_refused_witness:
  "let q = signal_send (int SIGKILL) (demo_proc 1 None PROC_BLOCKED)
   in state q \<noteq> PROC_BLOCKED \<and> signal_deliver (\<lambda>_ _ _. True) zero_frame q (\<lambda>_. 0) = Deliver_exit SIGKILL q"
proof -
  let ?p = "demo_proc 1 None PROC_BLOCKED"
  have "sigs_ok ?p" by (simp add: sigs_ok_def demo_proc_def zero_proc_def no_action_def)
  moreover have "is_user ?p" "\<not> is_idle ?p" "alive ?p" by (simp_all add: demo_proc_def zero_proc_def alive_def)
  ultimately show ?thesis using kill_and_stop_not_refused[of ?p ?p] by (simp add: Let_def)
qed

theorem handler_roundtrip_witness:
  "\<exists>f' p' m'. setup_frame (\<lambda>_ _ _. True) 2 demo_action zero_frame zero_proc (\<lambda>_. 0) = Some (f', p', m')
     \<and> f_rip f' = 0x402000 \<and> unat (f_rsp f') mod 16 = 8
     \<and> sys_sigreturn (\<lambda>_ _ _. True) (f'\<lparr>f_rsp := f_rsp f' + 8\<rparr>) p' m' \<noteq> Sigreturn_segv"
proof -
  obtain f' p' m' where s: "setup_frame (\<lambda>_ _ _. True) 2 demo_action zero_frame zero_proc (\<lambda>_. 0) = Some (f', p', m')"
    by (simp add: setup_frame_def demo_action_def copy_to_user_def Let_def)
  have "f_rip zero_frame < 0x0000800000000000" "f_rsp zero_frame < 0x0000800000000000" "320 \<le> f_rsp zero_frame"
    "sigs_ok zero_proc"
    by (simp_all add: zero_frame_def sigs_ok_def zero_proc_def no_action_def)
  from handler_roundtrip[OF s this, of "f'\<lparr>f_rsp := f_rsp f' + 8\<rparr>" m' p'] s show ?thesis
    by (auto simp: demo_action_def)
qed

theorem sigreturn_forged_frame_witness:
  "\<exists>rax f' p'. sys_sigreturn (\<lambda>_ _ _. True) zero_frame zero_proc (\<lambda>_. 0) = Sigreturn_ok rax f' p'
     \<and> bit (f_rflags f') 9 \<and> f_rflags f' AND NOT 0xED7 = 0"
proof -
  have "of_bytes (load_bytes a 8 (\<lambda>_. 0)) = (0 :: u64)" for a
    by (simp add: load_bytes_def upt_rec)
  then have c: "load_words (f_rsp zero_frame) 20 (\<lambda>_. 0) ! i = 0" if "i < 20" for i
    using that by (simp add: load_words_def load_u64_def)
  obtain rax f' p' where s: "sys_sigreturn (\<lambda>_ _ _. True) zero_frame zero_proc (\<lambda>_. 0) = Sigreturn_ok rax f' p'"
    by (simp add: sys_sigreturn_def Let_def c)
  from s sigreturn_forged_frame[OF s] show ?thesis by blast
qed

theorem kill_reaches_targets_witness:
  "fst (signal_kill 0 2 15 demo_table) = Inr () \<and> fst (signal_kill 0 77 15 demo_table) = Inl ESRCH"
proof -
  have u: "pids_unique demo_table"
    by (simp add: pids_unique_def demo_table_def demo_proc_def zero_proc_def)
  have a: "1 < MAX_PROCS" "state (procs demo_table 1) \<noteq> PROC_UNUSED" "pid (procs demo_table 1) = 2"
    "alive (procs demo_table 1)" "is_user (procs demo_table 1)"
    by (simp_all add: demo_table_def demo_proc_def alive_def)
  have b: "\<forall>i < MAX_PROCS. state (procs demo_table i) = PROC_UNUSED \<or> pid (procs demo_table i) \<noteq> 77"
    by (simp add: demo_table_def demo_proc_def zero_proc_def)
  have "signal_kill 0 2 15 demo_table = (Inr (), upd_proc 1 (signal_send 15) demo_table)"
    using conjunct1[OF conjunct2[OF kill_reaches_targets[of 15 demo_table 2 0, OF _ _ u], rule_format],
        rule_format, of 1] a by simp
  moreover have "signal_kill 0 77 15 demo_table = (Inl ESRCH, demo_table)"
    using conjunct2[OF conjunct2[OF kill_reaches_targets[of 15 demo_table 77 0, OF _ _ u], rule_format]] b by simp
  ultimately show ?thesis by simp
qed

end
