(* ===== verification/Tty.thy ===== *)
theory Tty
  imports Signal Pipe
begin

text \<open>
  Terminal input: the PS/2 keyboard driver (\<^verbatim>\<open>kernel/drivers/keyboard.c\<close>), the ring buffer of typed bytes
  (\<^verbatim>\<open>kernel/drivers/console.c\<close>) and the line discipline (\<^verbatim>\<open>kernel/drivers/tty.c\<close>). What the terminal echoes is
  appended to the field \<open>echoed\<close>. Left out: echoed bytes also go through the terminal emulator, whose answer to
  a position request (\<^verbatim>\<open>ESC[6n\<close>) \<^verbatim>\<open>console.c\<close> puts into the input ring. Line editing echoes no \<^verbatim>\<open>ESC\<close>; in raw mode
  with echo on, typing such a request would add the answer to the input.
\<close>

section \<open>The keyboard\<close>

record keyboard =
  shift_down :: bool
  ctrl_down :: bool
  caps_lock :: bool
  extended :: bool

definition codes :: "string \<Rightarrow> u8 list" where "codes s = map (\<lambda>c. of_nat (of_char c)) s"

definition keymap_normal :: "u8 list" where
  "keymap_normal =
     [0, 27] @ codes ''1234567890-='' @ [8, 9] @ codes ''qwertyuiop[]'' @ [10, 0] @ codes ''asdfghjkl;'' @ [39, 96, 0, 92] @
     codes ''zxcvbnm,./'' @ [0] @ codes ''*'' @ [0] @ codes '' '' @ replicate 70 0"

definition keymap_shift :: "u8 list" where
  "keymap_shift =
     [0, 27] @ codes ''!@#$%^&*()_+'' @ [8, 9] @ codes ''QWERTYUIOP{}'' @ [10, 0] @ codes ''ASDFGHJKL:'' @ [34, 126, 0, 124] @
     codes ''ZXCVBNM<>?'' @ [0] @ codes ''*'' @ [0] @ codes '' '' @ replicate 70 0"

definition extended_seq :: "u8 \<Rightarrow> u8 list" where
  "extended_seq code =
     (if code = 0x48 then 27 # codes ''[A'' else if code = 0x50 then 27 # codes ''[B''
      else if code = 0x4D then 27 # codes ''[C'' else if code = 0x4B then 27 # codes ''[D''
      else if code = 0x47 then 27 # codes ''[H'' else if code = 0x4F then 27 # codes ''[F''
      else if code = 0x52 then 27 # codes ''[2~'' else if code = 0x53 then 27 # codes ''[3~''
      else if code = 0x49 then 27 # codes ''[5~'' else if code = 0x51 then 27 # codes ''[6~''
      else if code = 0x1C then [10] else if code = 0x35 then codes ''/'' else [])"

text \<open>One scancode: the new state and the bytes passed to \<^verbatim>\<open>console_input_char\<close>.\<close>

definition keyboard_irq :: "u8 \<Rightarrow> keyboard \<Rightarrow> keyboard \<times> u8 list" where
  "keyboard_irq sc k =
     (if sc = 0xE0 then (k\<lparr>extended := True\<rparr>, [])
      else
        (let released = (sc AND 0x80 \<noteq> 0); code = sc AND 0x7F in
         if extended k then
           (let k = k\<lparr>extended := False\<rparr> in
            if code = 0x1D then (k\<lparr>ctrl_down := \<not> released\<rparr>, [])
            else if code = 0x2A \<or> code = 0x36 \<or> released then (k, [])
            else (k, extended_seq code))
         else if code = 0x2A \<or> code = 0x36 then (k\<lparr>shift_down := \<not> released\<rparr>, [])
         else if code = 0x1D then (k\<lparr>ctrl_down := \<not> released\<rparr>, [])
         else if code = 0x3A then (if \<not> released then k\<lparr>caps_lock := \<not> caps_lock k\<rparr> else k, [])
         else if released then (k, [])
         else
           (let c = (if shift_down k then keymap_shift else keymap_normal) ! unat code in
            if c = 0 then (k, [])
            else
              (let c = (if caps_lock k \<and> ((97 \<le> c \<and> c \<le> 122) \<or> (65 \<le> c \<and> c \<le> 90)) then c XOR 0x20 else c);
                   c = (if ctrl_down k \<and> 97 \<le> c \<and> c \<le> 122 then c - 97 + 1 else c)
               in (k, [c])))))"

section \<open>The input ring\<close>

abbreviation INPUT_BUFFER_SIZE :: nat where "INPUT_BUFFER_SIZE \<equiv> 1024"

record con_in =
  input_buffer :: "nat \<Rightarrow> u8"
  input_head :: nat
  input_tail :: nat

definition console_input_flush :: "con_in \<Rightarrow> con_in" where
  "console_input_flush b = b\<lparr>input_tail := input_head b\<rparr>"

text \<open>The part of \<^verbatim>\<open>console_input_char\<close> under the lock; a byte that finds the buffer full is dropped.\<close>

definition ring_put :: "u8 \<Rightarrow> con_in \<Rightarrow> con_in \<times> bool" where
  "ring_put c b =
     (let nxt = (input_head b + 1) mod INPUT_BUFFER_SIZE in
      if nxt \<noteq> input_tail b
      then (b\<lparr>input_buffer := (input_buffer b)(input_head b := c), input_head := nxt\<rparr>, True) else (b, False))"

definition console_input_available :: "con_in \<Rightarrow> bool" where
  "console_input_available b \<longleftrightarrow> input_tail b \<noteq> input_head b"

text \<open>\<^verbatim>\<open>console_getc\<close> when a byte is there; None is the empty buffer, where it sleeps or returns -1.\<close>

definition console_getc :: "con_in \<Rightarrow> (u8 \<times> con_in) option" where
  "console_getc b =
     (if input_tail b = input_head b then None
      else Some (input_buffer b (input_tail b), b\<lparr>input_tail := (input_tail b + 1) mod INPUT_BUFFER_SIZE\<rparr>))"

section \<open>The line discipline\<close>

abbreviation (input) LINE_MAX :: nat where "LINE_MAX \<equiv> 1024"
abbreviation ISIG :: u32 where "ISIG \<equiv> 1"
abbreviation ICANON :: u32 where "ICANON \<equiv> 2"
abbreviation ECHO :: u32 where "ECHO \<equiv> 8"
abbreviation ECHOE :: u32 where "ECHOE \<equiv> 16"
abbreviation ICRNL :: u32 where "ICRNL \<equiv> 256"
abbreviation (input) VINTR :: nat where "VINTR \<equiv> 0"
abbreviation (input) VQUIT :: nat where "VQUIT \<equiv> 1"
abbreviation (input) VERASE :: nat where "VERASE \<equiv> 2"
abbreviation (input) VKILL :: nat where "VKILL \<equiv> 3"
abbreviation (input) VEOF :: nat where "VEOF \<equiv> 4"
abbreviation (input) VSUSP :: nat where "VSUSP \<equiv> 10"

record termios =
  c_iflag :: u32
  c_oflag :: u32
  c_cflag :: u32
  c_lflag :: u32
  c_line :: u8
  c_cc :: "nat \<Rightarrow> u8"

record tty =
  tio :: termios
  line :: "u8 list"
  len :: nat
  ready :: nat
  rpos :: nat
  eof :: bool
  fg_pgrp :: int
  esc_state :: nat
  echoed :: "u8 list"

definition initial_tio :: termios where
  "initial_tio = \<lparr>c_iflag = ICRNL, c_oflag = 0, c_cflag = 0, c_lflag = ISIG OR ICANON OR ECHO OR ECHOE, c_line = 0,
     c_cc = (\<lambda>i. if i = VINTR then 3 else if i = VQUIT then 28 else if i = VSUSP then 26 else if i = VERASE then 127
       else if i = VKILL then 21 else if i = VEOF then 4 else if i = 6 then 1 else 0)\<rparr>"

definition initial_tty :: tty where
  "initial_tty = \<lparr>tio = initial_tio, line = replicate LINE_MAX 0, len = 0, ready = 0, rpos = 0, eof = False, fg_pgrp = 0,
     esc_state = 0, echoed = []\<rparr>"

definition lflag :: "tty \<Rightarrow> u32 \<Rightarrow> bool" where
  "lflag t f \<longleftrightarrow> c_lflag (tio t) AND f \<noteq> 0"

definition echo :: "u8 list \<Rightarrow> tty \<Rightarrow> tty" where
  "echo s t = (if lflag t ECHO then t\<lparr>echoed := echoed t @ s\<rparr> else t)"

definition erase_one :: "tty \<Rightarrow> tty" where
  "erase_one t =
     (if len t = ready t then t
      else (let t = t\<lparr>len := len t - 1\<rparr> in if lflag t ECHOE then echo [8, 32, 8] t else t))"

text \<open>The loop \<^verbatim>\<open>while (tty.len > tty.ready) erase_one()\<close>.\<close>

function erase_all :: "tty \<Rightarrow> tty" where
  "erase_all t = (if len t > ready t then erase_all (erase_one t) else t)"
  by pat_completeness auto
termination
  by (relation "measure (\<lambda>t. len t - ready t)") (auto simp: erase_one_def echo_def Let_def)

declare erase_all.simps [simp del]

definition canon_input :: "u8 \<Rightarrow> tty \<Rightarrow> tty" where
  "canon_input c t =
     (if esc_state t = 1 then t\<lparr>esc_state := (if c = 91 \<or> c = 79 then 2 else 0)\<rparr>
      else if esc_state t = 2 then (if 0x40 \<le> c \<and> c \<le> 0x7E then t\<lparr>esc_state := 0\<rparr> else t)
      else if c = 0x1B then t\<lparr>esc_state := 1\<rparr>
      else
        (let cc = c_cc (tio t); c = (if c = 13 \<and> c_iflag (tio t) AND ICRNL \<noteq> 0 then 10 else c) in
         if c = cc VERASE \<or> c = 8 then erase_one t
         else if c = cc VKILL then erase_all t
         else if lflag t ISIG \<and> (c = cc VINTR \<or> c = cc VQUIT \<or> c = cc VSUSP) then t\<lparr>len := ready t\<rparr>
         else if c = cc VEOF then
           (let t = (if len t = ready t then t\<lparr>eof := True\<rparr> else t) in t\<lparr>ready := len t\<rparr>)
         else if c = 10 then
           (let t = (if len t < LINE_MAX then t\<lparr>line := (line t)[len t := 10], len := len t + 1\<rparr> else t)
            in echo [10] (t\<lparr>ready := len t\<rparr>))
         else if c \<ge> 32 \<or> c = 9 then
           (if len t < LINE_MAX - 1 then echo [c] (t\<lparr>line := (line t)[len t := c], len := len t + 1\<rparr>) else t)
         else t))"

text \<open>
  Signal keys, in the interrupt: the byte is swallowed or not, and the signal for the foreground group
  is sent at once.
\<close>

definition tty_input_signal :: "u8 \<Rightarrow> tty \<Rightarrow> con_in \<Rightarrow> ptable \<Rightarrow> bool \<times> tty \<times> con_in \<times> ptable" where
  "tty_input_signal c t b pt =
     (let cc = c_cc (tio t);
          key = (if \<not> lflag t ISIG then None
                 else if c = cc VINTR then Some (2, [94, 67, 10])
                 else if c = cc VQUIT then Some (3, [94, 92, 10])
                 else if c = cc VSUSP then Some (int SIGTSTP, [94, 90, 10])
                 else None)
      in case key of
           None \<Rightarrow> (False, t, b, pt)
         | Some (sig, shown) \<Rightarrow>
             (\<not> lflag t ICANON, if lflag t ECHO then t\<lparr>echoed := echoed t @ shown\<rparr> else t, console_input_flush b,
              if fg_pgrp t > 0 then snd (signal_send_pgrp_locked (fg_pgrp t) sig pt) else pt))"

definition console_input_char :: "nat \<Rightarrow> u8 \<Rightarrow> tty \<times> con_in \<times> ptable \<Rightarrow> tty \<times> con_in \<times> ptable" where
  "console_input_char channel c s =
     (case s of (t, b, pt) \<Rightarrow>
      (case tty_input_signal c t b pt of (swallowed, t, b, pt) \<Rightarrow>
        if swallowed then (t, b, pt)
        else (case ring_put c b of (b, stored) \<Rightarrow> (t, b, if stored then wakeup_locked channel pt else pt))))"

text \<open>A background process that reads the terminal.\<close>

definition background_read_check :: "tty \<Rightarrow> process \<Rightarrow> ptable \<Rightarrow> errno option \<times> ptable" where
  "background_read_check t me pt =
     (if fg_pgrp t \<le> 0 \<or> \<not> is_user me \<or> pgid me = fg_pgrp t then (None, pt)
      else if sa_handler (sig_actions me SIGTTIN) = SIG_IGN \<or> sig_blocked me AND BIT SIGTTIN \<noteq> 0 then (Some EIO, pt)
      else (Some EINTR, snd (signal_send_pgrp_locked (pgid me) (int SIGTTIN) pt)))"

text \<open>
  Collecting a line from the bytes in the ring; \<open>n\<close> bounds the number of bytes taken, and 1024 is more
  than the ring holds.
\<close>

fun canon_collect :: "nat \<Rightarrow> tty \<Rightarrow> con_in \<Rightarrow> tty \<times> con_in" where
  "canon_collect 0 t b = (t, b)"
| "canon_collect (Suc n) t b =
     (if rpos t = ready t \<and> \<not> eof t then
        (case console_getc b of None \<Rightarrow> (t, b) | Some (c, b) \<Rightarrow> canon_collect n (canon_input c t) b)
      else (t, b))"

fun raw_collect :: "nat \<Rightarrow> con_in \<Rightarrow> u8 list \<times> con_in" where
  "raw_collect 0 b = ([], b)"
| "raw_collect (Suc n) b =
     (case console_getc b of
        None \<Rightarrow> ([], b)
      | Some (c, b) \<Rightarrow> (case raw_collect n b of (cs, b) \<Rightarrow> (c # cs, b)))"

text \<open>
  One run of \<^verbatim>\<open>tty_read\<close> with the mutex held, up to its return or to going to sleep for input; a sleeping
  call resumes with the state it left.
\<close>

definition tty_read :: "bool \<Rightarrow> nat \<Rightarrow> tty \<Rightarrow> con_in \<Rightarrow> read_result \<times> tty \<times> con_in" where
  "tty_read interrupted n t b =
     (if n = 0 then (Read_bytes [], t, b)
      else if \<not> lflag t ICANON then
        (case raw_collect n b of (cs, b) \<Rightarrow>
           if cs = [] then (if interrupted then Read_error EINTR else Read_sleep, t, b)
           else (Read_bytes cs, echo cs t, b))
      else
        (case canon_collect INPUT_BUFFER_SIZE t b of (t, b) \<Rightarrow>
           if rpos t = ready t \<and> \<not> eof t then (if interrupted then Read_error EINTR else Read_sleep, t, b)
           else if rpos t = ready t then (Read_eof, t\<lparr>eof := False\<rparr>, b)
           else
             (let k = min n (ready t - rpos t);
                  out = take k (drop (rpos t) (line t));
                  t = t\<lparr>rpos := rpos t + k\<rparr>;
                  t = (if rpos t = ready t
                       then t\<lparr>line := drop (ready t) (take (len t) (line t)) @ drop (len t - ready t) (line t),
                              len := len t - ready t, ready := 0, rpos := 0\<rparr> else t)
              in (Read_bytes out, t, b))))"

text \<open>The terminal controls: reading and setting the modes and the foreground group.\<close>

definition tty_set_termios :: "termios \<Rightarrow> tty \<Rightarrow> tty" where
  "tty_set_termios new t =
     (let was_canon = lflag t ICANON; t = t\<lparr>tio := new\<rparr>
      in if was_canon \<and> \<not> lflag t ICANON then t\<lparr>len := 0, ready := 0, rpos := 0, eof := False\<rparr> else t)"

definition tty_set_pgrp :: "int \<Rightarrow> tty \<Rightarrow> errno + tty" where
  "tty_set_pgrp pg t = (if pg < 0 then Inl EINVAL else Inr (t\<lparr>fg_pgrp := pg\<rparr>))"

end
