(* ===== verification/Tty_Proofs.thy ===== *)
theory Tty_Proofs
  imports Tty
begin

text \<open>
  The input ring is a queue (the interface \<^verbatim>\<open>byte_queue\<close> of the pipes, interpreted a second time), the line
  buffer stays within its bounds whatever is typed, and a line typed with corrections is read back as
  edited, in as many pieces as the reader likes.
\<close>

section \<open>The ring is a queue\<close>

definition ring_inv :: "con_in \<Rightarrow> bool" where
  "ring_inv b \<longleftrightarrow> input_head b < INPUT_BUFFER_SIZE \<and> input_tail b < INPUT_BUFFER_SIZE"

definition ring_count :: "con_in \<Rightarrow> nat" where
  "ring_count b = (if input_tail b \<le> input_head b then input_head b - input_tail b
     else input_head b + INPUT_BUFFER_SIZE - input_tail b)"

definition ring_queue :: "con_in \<Rightarrow> u8 list" where
  "ring_queue b = map (\<lambda>i. input_buffer b ((input_tail b + i) mod INPUT_BUFFER_SIZE)) [0..<ring_count b]"

lemma length_ring_queue [simp]: "length (ring_queue b) = ring_count b"
  by (simp add: ring_queue_def)

lemma ring_count_lt: "ring_inv b \<Longrightarrow> ring_count b < INPUT_BUFFER_SIZE"
  by (auto simp: ring_inv_def ring_count_def)

lemma ring_mod: "x < 2 * INPUT_BUFFER_SIZE \<Longrightarrow>
    x mod INPUT_BUFFER_SIZE = (if x < INPUT_BUFFER_SIZE then x else x - INPUT_BUFFER_SIZE)"
  by (simp add: le_mod_geq)

lemma ring_put_ok:
  assumes "ring_inv b" "ring_put c b = (b', stored)"
  shows "ring_inv b'" "ring_queue b' = ring_queue b @ (if stored then [c] else [])"
proof -
  have h: "input_head b < INPUT_BUFFER_SIZE" "input_tail b < INPUT_BUFFER_SIZE" using assms(1) by (simp_all add: ring_inv_def)
  have nxt: "(input_head b + 1) mod INPUT_BUFFER_SIZE = (if input_head b = 1023 then 0 else input_head b + 1)"
    using h(1) by auto
  show "ring_inv b'" using assms by (auto simp: ring_put_def ring_inv_def Let_def split: if_splits)
  show "ring_queue b' = ring_queue b @ (if stored then [c] else [])"
  proof (cases stored)
    case False
    with assms(2) show ?thesis by (auto simp: ring_put_def Let_def split: if_splits)
  next
    case True
    have ne: "(input_head b + 1) mod INPUT_BUFFER_SIZE \<noteq> input_tail b"
      and b': "b' = b\<lparr>input_buffer := (input_buffer b)(input_head b := c), input_head := (input_head b + 1) mod INPUT_BUFFER_SIZE\<rparr>"
      using assms(2) True by (auto simp: ring_put_def Let_def split: if_splits)
    have cnt: "ring_count b' = Suc (ring_count b)"
      using h ne unfolding b' ring_count_def nxt by (auto split: if_splits)
    have last: "(input_tail b + ring_count b) mod INPUT_BUFFER_SIZE = input_head b"
      using h by (auto simp: ring_count_def ring_mod)
    have old: "(input_tail b + i) mod INPUT_BUFFER_SIZE \<noteq> input_head b" if "i < ring_count b" for i
      using h that by (auto simp: ring_count_def ring_mod split: if_splits)
    have t: "input_tail b' = input_tail b" "input_buffer b' = (input_buffer b)(input_head b := c)" by (simp_all add: b')
    show ?thesis using True last old unfolding ring_queue_def cnt t by simp
  qed
qed

lemma console_getc_ok:
  assumes "ring_inv b"
  shows "case console_getc b of None \<Rightarrow> ring_queue b = []
    | Some (c, b') \<Rightarrow> ring_inv b' \<and> ring_queue b = c # ring_queue b'"
proof (cases "input_tail b = input_head b")
  case True
  then show ?thesis by (simp add: console_getc_def ring_queue_def ring_count_def)
next
  case False
  have h: "input_head b < INPUT_BUFFER_SIZE" "input_tail b < INPUT_BUFFER_SIZE" using assms by (simp_all add: ring_inv_def)
  define b' where "b' = b\<lparr>input_tail := (input_tail b + 1) mod INPUT_BUFFER_SIZE\<rparr>"
  have nxt: "(input_tail b + 1) mod INPUT_BUFFER_SIZE = (if input_tail b = 1023 then 0 else input_tail b + 1)"
    using h(2) by auto
  have "input_tail b' = (if input_tail b = 1023 then 0 else input_tail b + 1)" "input_head b' = input_head b"
    unfolding b'_def nxt[symmetric] by simp_all
  then have cnt: "ring_count b = Suc (ring_count b')"
    using h False unfolding ring_count_def by (auto split: if_splits)
  have "(input_tail b' + i) mod INPUT_BUFFER_SIZE = (input_tail b + Suc i) mod INPUT_BUFFER_SIZE" for i
    by (simp add: b'_def mod_simps)
  moreover have "[0..<Suc (ring_count b')] = 0 # map Suc [0..<ring_count b']"
    by (simp add: upt_conv_Cons map_Suc_upt del: upt_Suc)
  moreover have "input_buffer b' = input_buffer b" by (simp add: b'_def)
  ultimately have "ring_queue b = input_buffer b (input_tail b) # ring_queue b'"
    using h(2) unfolding ring_queue_def cnt by (simp del: upt_Suc)
  moreover have "ring_inv b'" using h by (simp add: ring_inv_def b'_def)
  ultimately show ?thesis using False by (simp add: console_getc_def b'_def)
qed

definition ring_get :: "unit \<Rightarrow> con_in \<Rightarrow> u8 list \<times> con_in" where
  "ring_get u b = (case console_getc b of None \<Rightarrow> ([], b) | Some (c, b') \<Rightarrow> ([c], b'))"

definition ring_store :: "u8 \<Rightarrow> con_in \<Rightarrow> u8 list \<times> con_in" where
  "ring_store c b = (case ring_put c b of (b', stored) \<Rightarrow> (if stored then [c] else [], b'))"

interpretation ci: byte_queue ring_inv ring_queue ring_get ring_store
proof unfold_locales
  fix b :: con_in and u :: unit and c :: u8
  assume inv: "ring_inv b"
  show "ring_inv (snd (ring_get u b))" "ring_queue b = fst (ring_get u b) @ ring_queue (snd (ring_get u b))"
    using console_getc_ok[OF inv] inv by (auto simp: ring_get_def split: option.splits)
  obtain b' stored where r: "ring_put c b = (b', stored)" by fastforce
  show "ring_inv (snd (ring_store c b))" "ring_queue (snd (ring_store c b)) = ring_queue b @ fst (ring_store c b)"
    using ring_put_ok[OF inv r] by (simp_all add: ring_store_def r)
qed

section \<open>The line buffer\<close>

definition tty_inv :: "tty \<Rightarrow> bool" where
  "tty_inv t \<longleftrightarrow> length (line t) = LINE_MAX \<and> rpos t \<le> ready t \<and> ready t \<le> len t \<and> len t \<le> LINE_MAX
     \<and> (rpos t = ready t \<longrightarrow> ready t = 0)"

text \<open>What of the finished line the program has not read yet.\<close>

definition avail :: "tty \<Rightarrow> u8 list" where
  "avail t = take (ready t - rpos t) (drop (rpos t) (line t))"

lemma echo_fields [simp]:
  "line (echo s t) = line t" "len (echo s t) = len t" "ready (echo s t) = ready t" "rpos (echo s t) = rpos t"
  "eof (echo s t) = eof t" "tio (echo s t) = tio t" "esc_state (echo s t) = esc_state t" "fg_pgrp (echo s t) = fg_pgrp t"
  by (simp_all add: echo_def)

lemma erase_one_fields [simp]:
  "line (erase_one t) = line t" "ready (erase_one t) = ready t" "rpos (erase_one t) = rpos t" "eof (erase_one t) = eof t"
  "tio (erase_one t) = tio t" "esc_state (erase_one t) = esc_state t"
  "len (erase_one t) = (if len t = ready t then len t else len t - 1)"
  by (simp_all add: erase_one_def Let_def)

lemma erase_all_fields:
  "line (erase_all t) = line t \<and> ready (erase_all t) = ready t \<and> rpos (erase_all t) = rpos t \<and> eof (erase_all t) = eof t
   \<and> tio (erase_all t) = tio t \<and> esc_state (erase_all t) = esc_state t \<and> len (erase_all t) = min (len t) (ready t)"
proof (induction t rule: erase_all.induct)
  case (1 t)
  then show ?case by (cases "len t > ready t") (auto simp: erase_all.simps[of t] min_def)
qed

lemma canon_input_inv:
  assumes "tty_inv t" "rpos t = ready t"
  shows "tty_inv (canon_input c t)"
proof -
  have z: "ready t = 0" "rpos t = 0" "length (line t) = 1024" "len t \<le> 1024" using assms by (simp_all add: tty_inv_def)
  have e: "tty_inv (t\<lparr>esc_state := x\<rparr>)" "tty_inv (t\<lparr>len := ready t\<rparr>)" for x using assms z by (simp_all add: tty_inv_def)
  have o: "tty_inv (erase_one t)" "tty_inv (erase_all t)"
    using z erase_all_fields[of t] by (auto simp: tty_inv_def)
  have f: "tty_inv (let t = (if len t = ready t then t\<lparr>eof := True\<rparr> else t) in t\<lparr>ready := len t\<rparr>)"
    using z by (simp add: tty_inv_def Let_def)
  have n: "tty_inv (let t = (if len t < LINE_MAX then t\<lparr>line := (line t)[len t := 10], len := len t + 1\<rparr> else t)
            in echo [10] (t\<lparr>ready := len t\<rparr>))"
    using z by (simp add: tty_inv_def Let_def)
  have p: "len t < LINE_MAX - 1 \<Longrightarrow> tty_inv (echo [x] (t\<lparr>line := (line t)[len t := x], len := len t + 1\<rparr>))" for x
    using z by (simp add: tty_inv_def)
  define c' where "c' = (if c = 13 \<and> c_iflag (tio t) AND ICRNL \<noteq> 0 then 10 else c)"
  show ?thesis
    unfolding canon_input_def Let_def[where s = "c_cc (tio t)"] Let_def[where s = "if c = 13 \<and> c_iflag (tio t) AND ICRNL \<noteq> 0 then 10 else c"]
      c'_def[symmetric]
    using assms(1) e o f n p by (simp split del: if_split split: if_split)
qed

lemma canon_collect_inv: "tty_inv t \<Longrightarrow> canon_collect n t b = (t', b') \<Longrightarrow> tty_inv t'"
proof (induction n arbitrary: t b)
  case (Suc n)
  then show ?case
    using canon_input_inv[of t] by (auto split: if_splits option.splits)
qed simp

section \<open>Editing a line\<close>

definition plain :: "u8 \<Rightarrow> bool" where
  "plain c \<longleftrightarrow> c = 8 \<or> c = 21 \<or> 32 \<le> c"

text \<open>The line as the person at the keyboard thinks of it.\<close>

definition edit_step :: "u8 list \<Rightarrow> u8 \<Rightarrow> u8 list" where
  "edit_step acc c =
     (if c = 8 \<or> c = 127 then butlast acc
      else if c = 21 then []
      else if length acc < LINE_MAX - 1 then acc @ [c] else acc)"

definition edit_line :: "u8 list \<Rightarrow> u8 list" where
  "edit_line bs = foldl edit_step [] bs"

text \<open>Canonical mode with the usual keys, between two lines.\<close>

definition typing :: "tty \<Rightarrow> bool" where
  "typing t \<longleftrightarrow> tio t = initial_tio \<and> esc_state t = 0 \<and> \<not> eof t \<and> ready t = 0 \<and> rpos t = 0
     \<and> length (line t) = LINE_MAX \<and> len t \<le> LINE_MAX - 1"

definition typed :: "tty \<Rightarrow> u8 list" where
  "typed t = take (len t) (line t)"

lemma typing_lflag: "typing t \<Longrightarrow> lflag t ICANON \<and> lflag t ISIG"
  by (simp add: typing_def lflag_def initial_tio_def)

lemma length_edit: "length acc \<le> LINE_MAX - 1 \<Longrightarrow> length (foldl edit_step acc bs) \<le> LINE_MAX - 1"
  by (induction bs arbitrary: acc) (auto simp: edit_step_def)

lemma canon_input_plain:
  assumes t: "typing t" and c: "plain c"
  shows "typing (canon_input c t) \<and> typed (canon_input c t) = edit_step (typed t) c"
proof -
  have u: "c = 8 \<or> c = 21 \<or> 32 \<le> unat c" using c by (auto simp: plain_def word_le_nat_alt)
  have ctl: "c \<noteq> 0x1B" "c \<noteq> 13" "c \<noteq> 3" "c \<noteq> 28" "c \<noteq> 26" "c \<noteq> 4" "c \<noteq> 10" using u by auto
  have cc: "c_cc (tio t) VERASE = 127" "c_cc (tio t) VKILL = 21" "c_cc (tio t) VINTR = 3" "c_cc (tio t) VQUIT = 28"
    "c_cc (tio t) VSUSP = 26" "c_cc (tio t) VEOF = 4" using t by (simp_all add: typing_def initial_tio_def)
  have z: "esc_state t = 0" "ready t = 0" "rpos t = 0" "length (line t) = 1024" "len t \<le> 1023" "\<not> eof t" "tio t = initial_tio"
    using t by (simp_all add: typing_def)
  have e: "canon_input c t = (if c = 127 \<or> c = 8 then erase_one t else if c = 21 then erase_all t
      else if len t < LINE_MAX - 1 then echo [c] (t\<lparr>line := (line t)[len t := c], len := len t + 1\<rparr>) else t)"
    using ctl u z(1) unfolding canon_input_def Let_def by (auto simp: cc[unfolded One_nat_def] word_le_nat_alt)
  have "typing (erase_one t)" "typed (erase_one t) = butlast (typed t)"
    using z by (auto simp: typing_def typed_def butlast_take)
  moreover have "typing (erase_all t)" "typed (erase_all t) = []"
    using z erase_all_fields[of t] by (simp_all add: typing_def typed_def)
  moreover have "typing (echo [c] (t\<lparr>line := (line t)[len t := c], len := len t + 1\<rparr>))"
    "typed (echo [c] (t\<lparr>line := (line t)[len t := c], len := len t + 1\<rparr>)) = typed t @ [c]" if "len t < 1023"
    using z that by (auto simp: typing_def typed_def take_Suc_conv_app_nth)
  moreover have "length (typed t) = len t" using z by (simp add: typed_def)
  ultimately show ?thesis using t by (auto simp: e edit_step_def)
qed

lemma canon_input_newline:
  assumes "typing t"
  shows "tty_inv (canon_input 10 t)" "avail (canon_input 10 t) = typed t @ [10]" "rpos (canon_input 10 t) = 0"
    "ready (canon_input 10 t) = Suc (len t)" "len (canon_input 10 t) = Suc (len t)" "\<not> eof (canon_input 10 t)"
    "tio (canon_input 10 t) = tio t" "esc_state (canon_input 10 t) = 0"
proof -
  have z: "esc_state t = 0" "ready t = 0" "rpos t = 0" "length (line t) = 1024" "len t \<le> 1023" "\<not> eof t"
    using assms by (simp_all add: typing_def)
  have cc: "c_cc (tio t) VERASE = 127" "c_cc (tio t) VKILL = 21" "c_cc (tio t) VINTR = 3" "c_cc (tio t) VQUIT = 28"
    "c_cc (tio t) VSUSP = 26" "c_cc (tio t) VEOF = 4" using assms by (simp_all add: typing_def initial_tio_def)
  have e: "canon_input 10 t = echo [10] (t\<lparr>line := (line t)[len t := 10], len := len t + 1, ready := len t + 1\<rparr>)"
    using z(1,5) unfolding canon_input_def Let_def by (simp add: cc[unfolded One_nat_def])
  show "tty_inv (canon_input 10 t)" using z by (simp add: e tty_inv_def)
  show "avail (canon_input 10 t) = typed t @ [10]" using z by (simp add: e avail_def typed_def take_Suc_conv_app_nth)
  show "rpos (canon_input 10 t) = 0" "ready (canon_input 10 t) = Suc (len t)" "len (canon_input 10 t) = Suc (len t)"
    "\<not> eof (canon_input 10 t)" "tio (canon_input 10 t) = tio t" "esc_state (canon_input 10 t) = 0"
    using z by (simp_all add: e)
qed

text \<open>Collecting a typed line: the loop takes exactly its bytes and leaves the rest in the ring.\<close>

lemma canon_collect_stop: "ready t \<noteq> rpos t \<Longrightarrow> canon_collect n t b = (t, b)"
  by (cases n) auto

lemma canon_collect_line:
  assumes "typing t" "ring_inv b" "ring_queue b = bs @ 10 # rest" "list_all plain bs" "length bs < n"
  shows "\<exists>t' b'. canon_collect n t b = (t', b') \<and> ring_inv b' \<and> ring_queue b' = rest \<and> tty_inv t'
    \<and> avail t' = foldl edit_step (typed t) bs @ [10] \<and> rpos t' = 0 \<and> ready t' = len t' \<and> 0 < ready t' \<and> tio t' = tio t
    \<and> \<not> eof t' \<and> esc_state t' = 0"
  using assms
proof (induction bs arbitrary: t b n)
  case Nil
  then obtain m where n: "n = Suc m" by (cases n) auto
  obtain c b' where g: "console_getc b = Some (c, b')" "ring_inv b'" "c = 10" "ring_queue b' = rest"
    using console_getc_ok[OF Nil(2)] Nil(3) by (auto split: option.splits)
  note l = canon_input_newline[OF Nil(1)]
  have "canon_collect n t b = (canon_input 10 t, b')"
    using Nil(1) g(1,3) canon_collect_stop[of "canon_input 10 t" m b'] l(3,4) by (simp add: n typing_def)
  with g l show ?case by simp
next
  case (Cons x bs)
  then obtain m where n: "n = Suc m" by (cases n) auto
  obtain c b' where g: "console_getc b = Some (c, b')" "ring_inv b'" "c = x" "ring_queue b' = bs @ 10 # rest"
    using console_getc_ok[OF Cons(3)] Cons(4) by (auto split: option.splits)
  have p: "typing (canon_input x t)" "typed (canon_input x t) = edit_step (typed t) x" "tio (canon_input x t) = tio t"
    using canon_input_plain[OF Cons(2), of x] Cons(2,5) by (auto simp: typing_def)
  have "canon_collect n t b = canon_collect m (canon_input x t) b'"
    using Cons(2) g(1,3) by (simp add: n typing_def)
  moreover have "length bs < m" "list_all plain bs" using Cons(5,6) n by simp_all
  ultimately show ?case using Cons(1)[OF p(1) g(2,4), of m] p(2,3) by simp
qed

text \<open>A read of a finished line takes the next bytes of it.\<close>

lemma tty_read_avail:
  assumes inv: "tty_inv t" and canon: "lflag t ICANON" and ne: "rpos t \<noteq> ready t" and n: "0 < n"
  shows "fst (tty_read i n t b) = Read_bytes (take n (avail t)) \<and> avail (fst (snd (tty_read i n t b))) = drop n (avail t)
    \<and> tty_inv (fst (snd (tty_read i n t b))) \<and> snd (snd (tty_read i n t b)) = b"
proof -
  have z: "length (line t) = 1024" "rpos t \<le> ready t" "ready t \<le> len t" "len t \<le> 1024" using inv by (simp_all add: tty_inv_def)
  have c: "canon_collect INPUT_BUFFER_SIZE t b = (t, b)" using canon_collect_stop ne by metis
  have la: "length (avail t) = ready t - rpos t" using z by (simp add: avail_def)
  show ?thesis
  proof (cases "n < ready t - rpos t")
    case True
    then have "tty_read i n t b = (Read_bytes (take n (drop (rpos t) (line t))), t\<lparr>rpos := rpos t + n\<rparr>, b)"
      using n canon ne c by (simp add: tty_read_def Let_def)
    moreover have "take n (drop (rpos t) (line t)) = take n (avail t)" using True by (simp add: avail_def min_def)
    moreover have "avail (t\<lparr>rpos := rpos t + n\<rparr>) = drop n (avail t)" by (simp add: avail_def drop_take add.commute)
    moreover have "tty_inv (t\<lparr>rpos := rpos t + n\<rparr>)" using True z by (auto simp: tty_inv_def)
    ultimately show ?thesis by simp
  next
    case False
    let ?t = "t\<lparr>rpos := 0, line := drop (ready t) (take (len t) (line t)) @ drop (len t - ready t) (line t),
        len := len t - ready t, ready := 0\<rparr>"
    have r: "tty_read i n t b = (Read_bytes (take (ready t - rpos t) (drop (rpos t) (line t))), ?t, b)"
      using False n canon ne c z by (simp add: tty_read_def Let_def min_absorb2)
    have "tty_inv ?t" using z by (simp add: tty_inv_def)
    with r la False show ?thesis by (simp add: avail_def)
  qed
qed

section \<open>Properties\<close>

text \<open>
  C35. A line is read as it was edited. In canonical mode, when the ring holds printable bytes,
  backspaces and line kills followed by a newline, a read returns the first bytes of the line those
  keys leave, with the newline at its end, takes exactly these bytes from the ring, and the following
  reads return the rest of the line in order; a line too long for the buffer is cut, never overrun.
\<close>

theorem tty_line_read:
  assumes "typing t" "len t = 0" "ring_inv b" "ring_queue b = bs @ 10 # rest" "list_all plain bs" "0 < n" "0 < k"
    and "tty_read i n t b = (r, t1, b1)"
  shows "r = Read_bytes (take n (edit_line bs @ [10])) \<and> length (edit_line bs) \<le> LINE_MAX - 1
    \<and> ring_queue b1 = rest \<and> tty_inv t1 \<and> avail t1 = drop n (edit_line bs @ [10])
    \<and> (avail t1 \<noteq> [] \<longrightarrow> fst (tty_read i k t1 b1) = Read_bytes (take k (avail t1))
          \<and> avail (fst (snd (tty_read i k t1 b1))) = drop k (avail t1))"
proof -
  have canon: "lflag t ICANON" using typing_lflag[OF assms(1)] by simp
  have "ring_count b = length bs + 1 + length rest" using assms(4) by (metis length_append length_Cons length_ring_queue add.assoc plus_1_eq_Suc)
  then have "length bs < INPUT_BUFFER_SIZE" using ring_count_lt[OF assms(3)] by simp
  from canon_collect_line[OF assms(1,3,4,5) this] assms(2) obtain t' b' where
    c: "canon_collect INPUT_BUFFER_SIZE t b = (t', b')" "ring_queue b' = rest" "tty_inv t'"
      "avail t' = edit_line bs @ [10]" "rpos t' = 0" "0 < ready t'" "tio t' = tio t" "\<not> eof t'"
    by (auto simp: typed_def edit_line_def)
  have canon': "lflag t' ICANON" using canon c(7) by (simp add: lflag_def)
  have ne: "rpos t' \<noteq> ready t'" using c(5,6) by simp
  have "tty_read i n t b = tty_read i n t' b'"
    using assms(6) canon canon' c(1) ne canon_collect_stop[of t' INPUT_BUFFER_SIZE b'] by (simp add: tty_read_def)
  with tty_read_avail[OF c(3) canon' ne assms(6), of i b'] assms(8) c(2,4)
  have r: "r = Read_bytes (take n (edit_line bs @ [10]))" "avail t1 = drop n (edit_line bs @ [10])" "tty_inv t1" "b1 = b'"
    by simp_all
  have l: "length (edit_line bs) \<le> LINE_MAX - 1" unfolding edit_line_def by (rule length_edit) simp
  have "tio t1 = tio t"
  proof -
    have "tio (fst (snd (tty_read i n t' b'))) = tio t'"
      using ne canon' assms(6) canon_collect_stop[of t' INPUT_BUFFER_SIZE b'] by (simp add: tty_read_def Let_def)
    moreover have "tty_read i n t' b' = (r, t1, b1)" using \<open>tty_read i n t b = tty_read i n t' b'\<close> assms(8) by simp
    ultimately show ?thesis using c(7) by simp
  qed
  then have canon1: "lflag t1 ICANON" using canon by (simp add: lflag_def)
  have "fst (tty_read i k t1 b1) = Read_bytes (take k (avail t1)) \<and> avail (fst (snd (tty_read i k t1 b1))) = drop k (avail t1)"
    if "avail t1 \<noteq> []"
  proof -
    have "rpos t1 \<noteq> ready t1" using that by (auto simp: avail_def)
    with tty_read_avail[OF r(3) canon1 _ assms(7)] show ?thesis by blast
  qed
  with r l c(2) show ?thesis by blast
qed

definition demo_ring :: con_in where
  "demo_ring = \<lparr>input_buffer = (\<lambda>i. [97, 98, 127, 99, 10, 100] ! (i mod 6)), input_head = 6, input_tail = 0\<rparr>"

theorem tty_line_read_witness: "fst (tty_read False 100 initial_tty demo_ring) = Read_bytes [97, 99, 10]"
proof -
  have q: "ring_queue demo_ring = [97, 98, 127, 99] @ 10 # [100]"
    by (simp add: ring_queue_def ring_count_def demo_ring_def upt_rec)
  have t: "typing initial_tty" "len initial_tty = 0" by (simp_all add: typing_def initial_tty_def)
  have p: "list_all plain [97, 98, 127, 99]" by (simp add: plain_def)
  have i: "ring_inv demo_ring" by (simp add: ring_inv_def demo_ring_def)
  have e: "edit_line [97, 98, 127, 99] = [97, 99]" by (simp add: edit_line_def edit_step_def)
  let ?r = "tty_read False 100 initial_tty demo_ring"
  show ?thesis
    using tty_line_read[OF t(1,2) i q p, of 100 1 False "fst ?r" "fst (snd ?r)" "snd (snd ?r)"] by (simp add: e)
qed

text \<open>
  Typed bytes are not lost or reordered. Whatever the keyboard puts into the input ring and the
  readers take out of it, in any interleaving, the bytes taken followed by the bytes in the ring are
  the bytes that were there followed by those that were stored; and whatever bytes the line
  discipline is given while it collects, its indices stay inside the line buffer.
\<close>

theorem console_input_queue:
  assumes "ring_inv b" "queue_runs ring_get ring_store ops b = (outs, ins, b')"
  shows "ring_inv b' \<and> ring_queue b @ ins = outs @ ring_queue b' \<and> length (ring_queue b') < INPUT_BUFFER_SIZE
    \<and> (tty_inv t \<longrightarrow> tty_inv (fst (canon_collect n t b')))"
proof -
  have "ring_inv b' \<and> ring_queue b @ ins = outs @ ring_queue b'" using ci.fifo assms by blast
  moreover have "tty_inv t \<longrightarrow> tty_inv (fst (canon_collect n t b'))"
    using canon_collect_inv[of t n b'] by (cases "canon_collect n t b'") auto
  ultimately show ?thesis using ring_count_lt by simp
qed

theorem console_input_queue_witness:
  "\<exists>outs ins b'. queue_runs ring_get ring_store [Inl (), Inr 65] demo_ring = (outs, ins, b')
     \<and> [97, 98, 127, 99, 10, 100] @ ins = outs @ ring_queue b'"
proof -
  have q: "ring_queue demo_ring = [97, 98, 127, 99, 10, 100]"
    by (simp add: ring_queue_def ring_count_def demo_ring_def upt_rec)
  obtain outs ins b' where r: "queue_runs ring_get ring_store [Inl (), Inr 65] demo_ring = (outs, ins, b')"
    by (cases "queue_runs ring_get ring_store [Inl (), Inr 65] demo_ring") auto
  have "ring_inv demo_ring" by (simp add: ring_inv_def demo_ring_def)
  from console_input_queue[OF this r] q r show ?thesis by auto
qed

end
