(* ===== verification/Vmm.thy ===== *)
theory Vmm
  imports Pmm_Boot Bytes
begin

text \<open>
  The page tables of \<^verbatim>\<open>kernel/mm/vmm.c\<close>. Tables are arrays of 512 little-endian 64-bit entries in
  the kernel's memory, reached through the direct map, as in the code: a table pointer is the virtual
  address \<^verbatim>\<open>table_virt\<close> computes, and reading or writing an entry is a load or store of eight bytes.
  The state extends the page allocator with the file's static variables, the boot allocator (which
  provides tables until \<^verbatim>\<open>vmm_late_init\<close>), the register CR3 and the list of TLB operations.
  Every panic and failed assertion is a value of \<open>vm_panic\<close>.
\<close>

section \<open>State\<close>

definition PTE_PRESENT :: u64 where "PTE_PRESENT = 1"
definition PTE_WRITABLE :: u64 where "PTE_WRITABLE = 2"
definition PTE_USER :: u64 where "PTE_USER = 4"
definition PTE_HUGE :: u64 where "PTE_HUGE = 0x80"
definition PTE_GLOBAL :: u64 where "PTE_GLOBAL = 0x100"
definition PTE_COW :: u64 where "PTE_COW = 0x200"
definition PTE_NX :: u64 where "PTE_NX = 0x8000000000000000"
definition PTE_ADDR_MASK :: u64 where "PTE_ADDR_MASK = 0x000FFFFFFFFFF000"

abbreviation (input) MiB :: u64 where "MiB \<equiv> 0x100000"
abbreviation (input) GiB :: u64 where "GiB \<equiv> 0x40000000"
abbreviation (input) MEM_ACPI_RECLAIM :: u32 where "MEM_ACPI_RECLAIM \<equiv> 3"
abbreviation (input) MEM_ACPI_NVS :: u32 where "MEM_ACPI_NVS \<equiv> 4"

datatype tlb_op = Invlpg u64 | Tlb_shootdown u64 | Write_cr3 u64

datatype vm_panic = Pmm_panic panic | Memblock_panic memblock_panic | Assert_failed
  | Map_range_no_memory | Kernel_map_no_memory | Already_mapped

record cpu_features =
  page1gb :: bool
  nx :: bool
  pge :: bool

record kernel_image =
  text_start :: u64
  text_end :: u64
  rodata_start :: u64
  rodata_end :: u64
  data_start :: u64
  kernel_end :: u64
  boot_stack_guard :: u64

record vmm = pmm +
  use_buddy :: bool
  boot_mem :: memblock
  kernel_pml4 :: u64
  pte_nx :: u64
  cr3 :: u64
  tlb_ops :: "tlb_op list"

text \<open>The loops over a fixed list of indices.\<close>

fun for_each :: "('i \<Rightarrow> 's \<Rightarrow> 'e + 's) \<Rightarrow> 'i list \<Rightarrow> 's \<Rightarrow> 'e + 's" where
  "for_each f [] s = Inr s"
| "for_each f (i # is') s = andthen (f i s) (for_each f is')"

definition pmm_call :: "panic + 'a \<Rightarrow> vm_panic + 'a" where
  "pmm_call r = (case r of Inl e \<Rightarrow> Inl (Pmm_panic e) | Inr x \<Rightarrow> Inr x)"

lemma pmm_call_simps [simp]: "pmm_call (Inr x) = Inr x" "pmm_call (Inl e) = Inl (Pmm_panic e)"
  by (simp_all add: pmm_call_def)

text \<open>
  The addresses \<^verbatim>\<open>for (va = start; va < end; va += PAGE_SIZE)\<close> visits. The callers bound \<open>end\<close> by
  the end of user space or of the kernel image, so the counter does not wrap.
\<close>

definition pages_of :: "u64 \<Rightarrow> u64 \<Rightarrow> u64 list" where
  "pages_of start end' = map (\<lambda>i. start + PAGE_SIZE * of_nat i) [0..<(unat end' - unat start + 4095) div 4096]"

section \<open>Entries and indices\<close>

definition PML4_INDEX :: "u64 \<Rightarrow> u64" where "PML4_INDEX v = drop_bit 39 v AND 0x1FF"
definition PDPT_INDEX :: "u64 \<Rightarrow> u64" where "PDPT_INDEX v = drop_bit 30 v AND 0x1FF"
definition PD_INDEX :: "u64 \<Rightarrow> u64" where "PD_INDEX v = drop_bit 21 v AND 0x1FF"
definition PT_INDEX :: "u64 \<Rightarrow> u64" where "PT_INDEX v = drop_bit 12 v AND 0x1FF"

definition table_virt :: "u64 \<Rightarrow> u64" where
  "table_virt phys = phys_to_virt (phys AND PTE_ADDR_MASK)"

definition entry_ptr :: "u64 \<Rightarrow> u64 \<Rightarrow> u64" where
  "entry_ptr t idx = t + 8 * idx"

definition entry :: "u64 \<Rightarrow> u64 \<Rightarrow> 'a vmm_scheme \<Rightarrow> u64" where
  "entry t idx s = load_u64 (entry_ptr t idx) (kmem s)"

definition set_pte :: "u64 \<Rightarrow> u64 \<Rightarrow> 'a vmm_scheme \<Rightarrow> 'a vmm_scheme" where
  "set_pte ptr e s = s\<lparr>kmem := store_u64 ptr e (kmem s)\<rparr>"

definition set_entry :: "u64 \<Rightarrow> u64 \<Rightarrow> u64 \<Rightarrow> 'a vmm_scheme \<Rightarrow> 'a vmm_scheme" where
  "set_entry t idx e s = set_pte (entry_ptr t idx) e s"

definition read_pte :: "u64 \<Rightarrow> 'a vmm_scheme \<Rightarrow> u64" where
  "read_pte ptr s = load_u64 ptr (kmem s)"

definition alloc_table :: "'a vmm_scheme \<Rightarrow> vm_panic + u64 \<times> 'a vmm_scheme" where
  "alloc_table s =
     (if \<not> use_buddy s then
        (case memblock_alloc PAGE_SIZE PAGE_SIZE 0x100000000 (boot_mem s, kmem s) of
           Inl e \<Rightarrow> Inl (Memblock_panic e)
         | Inr (b, mb, m) \<Rightarrow> Inr (b, s\<lparr>boot_mem := mb, kmem := m\<rparr>))
      else Inr (pmm_alloc_page GFP_ZERO s))"

definition cpu_write_cr3 :: "u64 \<Rightarrow> 'a vmm_scheme \<Rightarrow> 'a vmm_scheme" where
  "cpu_write_cr3 v s = s\<lparr>cr3 := v, tlb_ops := Write_cr3 v # tlb_ops s\<rparr>"

definition cpu_invlpg :: "u64 \<Rightarrow> 'a vmm_scheme \<Rightarrow> 'a vmm_scheme" where
  "cpu_invlpg v s = s\<lparr>tlb_ops := Invlpg v # tlb_ops s\<rparr>"

definition vmm_flush_page :: "u64 \<Rightarrow> 'a vmm_scheme \<Rightarrow> 'a vmm_scheme" where
  "vmm_flush_page virt s =
     (if is_user_address virt then cpu_invlpg virt s else s\<lparr>tlb_ops := Tlb_shootdown virt # tlb_ops s\<rparr>)"

definition mapped_type :: "mem_region \<Rightarrow> bool" where
  "mapped_type r \<longleftrightarrow> m_type r = MEM_USABLE \<or> m_type r = MEM_ACPI_RECLAIM \<or> m_type r = MEM_ACPI_NVS"

definition vmm_phys_is_direct_mapped :: "mem_region list \<Rightarrow> u64 \<Rightarrow> u64 \<Rightarrow> bool" where
  "vmm_phys_is_direct_mapped rs phys len =
     (let end' = phys + len in
      end' \<le> MiB \<or> list_ex (\<lambda>r. mapped_type r \<and> phys \<ge> m_base r \<and> end' \<le> m_base r + m_len r) rs)"

section \<open>Walking the tables\<close>

definition next_level :: "u64 \<Rightarrow> u64 \<Rightarrow> bool \<Rightarrow> bool \<Rightarrow> 'a vmm_scheme \<Rightarrow> vm_panic + u64 option \<times> 'a vmm_scheme" where
  "next_level table idx create user s =
     (let e = entry table idx s in
      if has_flag e PTE_PRESENT then Inr (if has_flag e PTE_HUGE then None else Some (table_virt e), s)
      else if \<not> create then Inr (None, s)
      else andthen (alloc_table s) (\<lambda>(t, s).
        if t = 0 then Inr (None, s)
        else Inr (Some (table_virt t),
          set_entry table idx (t OR PTE_PRESENT OR PTE_WRITABLE OR (if user then PTE_USER else 0)) s)))"

text \<open>One step of the walk: \<^verbatim>\<open>if (!(t = next_level(...))) return NULL\<close>.\<close>

definition descend :: "u64 \<Rightarrow> bool \<Rightarrow> bool \<Rightarrow> vm_panic + u64 option \<times> 'a vmm_scheme \<Rightarrow> vm_panic + u64 option \<times> 'a vmm_scheme" where
  "descend idx create user r =
     andthen r (\<lambda>(t, s). case t of None \<Rightarrow> Inr (None, s) | Some t \<Rightarrow> next_level t idx create user s)"

definition vmm_get_pte :: "u64 \<Rightarrow> u64 \<Rightarrow> bool \<Rightarrow> 'a vmm_scheme \<Rightarrow> vm_panic + u64 option \<times> 'a vmm_scheme" where
  "vmm_get_pte pml4 virt create s =
     (let user = is_user_address virt;
          r = next_level (table_virt pml4) (PML4_INDEX virt) create user s;
          r = descend (PDPT_INDEX virt) create user r;
          r = descend (PD_INDEX virt) create user r
      in andthen r (\<lambda>(t, s). Inr (map_option (\<lambda>t. entry_ptr t (PT_INDEX virt)) t, s)))"

section \<open>The kernel's own mapping\<close>

definition need_table :: "vm_panic + u64 option \<times> 's \<Rightarrow> (u64 \<Rightarrow> 's \<Rightarrow> vm_panic + 'b) \<Rightarrow> vm_panic + 'b" where
  "need_table r f = andthen r (\<lambda>(t, s). case t of None \<Rightarrow> Inl Map_range_no_memory | Some t \<Rightarrow> f t s)"

text \<open>One round of \<^verbatim>\<open>map_range\<close>: the size of the page it mapped, with the new state.\<close>

definition map_range_step :: "cpu_features \<Rightarrow> u64 \<Rightarrow> u64 \<Rightarrow> u64 \<Rightarrow> u64 \<Rightarrow> u64 \<Rightarrow> 'a vmm_scheme \<Rightarrow> vm_panic + u64 \<times> 'a vmm_scheme" where
  "map_range_step cpu pml4 virt phys left flags s =
     need_table (next_level (table_virt pml4) (PML4_INDEX virt) True False s) (\<lambda>pdpt s.
       if page1gb cpu \<and> virt AND (GiB - 1) = 0 \<and> phys AND (GiB - 1) = 0 \<and> left \<ge> GiB
          \<and> \<not> has_flag (entry pdpt (PDPT_INDEX virt) s) PTE_PRESENT
       then Inr (GiB, set_entry pdpt (PDPT_INDEX virt) (phys OR flags OR PTE_PRESENT OR PTE_HUGE) s)
       else need_table (next_level pdpt (PDPT_INDEX virt) True False s) (\<lambda>pd s.
         if virt AND (2 * MiB - 1) = 0 \<and> phys AND (2 * MiB - 1) = 0 \<and> left \<ge> 2 * MiB
            \<and> \<not> has_flag (entry pd (PD_INDEX virt) s) PTE_PRESENT
         then Inr (2 * MiB, set_entry pd (PD_INDEX virt) (phys OR flags OR PTE_PRESENT OR PTE_HUGE) s)
         else need_table (next_level pd (PD_INDEX virt) True False s) (\<lambda>pt s.
           Inr (PAGE_SIZE, set_entry pt (PT_INDEX virt) (phys OR flags OR PTE_PRESENT) s))))"

text \<open>
  The loop counts the bytes left, \<^verbatim>\<open>end - virt\<close>. The ranges the kernel maps end below the top of
  the address space, so \<^verbatim>\<open>virt < end\<close> fails exactly when nothing is left. The third argument of
  the recursion bounds the number of rounds; \<^verbatim>\<open>map_range\<close> gives it one round per 4 KiB.
\<close>

fun map_range_from :: "nat \<Rightarrow> cpu_features \<Rightarrow> u64 \<Rightarrow> u64 \<Rightarrow> u64 \<Rightarrow> nat \<Rightarrow> u64 \<Rightarrow> 'a vmm_scheme \<Rightarrow> vm_panic + 'a vmm_scheme" where
  "map_range_from 0 cpu pml4 virt phys left flags s = Inr s"
| "map_range_from (Suc n) cpu pml4 virt phys left flags s =
     (if left = 0 then Inr s
      else andthen (map_range_step cpu pml4 virt phys (of_nat left) flags s) (\<lambda>(sz, s).
        map_range_from n cpu pml4 (virt + sz) (phys + sz) (left - unat sz) flags s))"

definition map_range :: "cpu_features \<Rightarrow> u64 \<Rightarrow> u64 \<Rightarrow> u64 \<Rightarrow> u64 \<Rightarrow> u64 \<Rightarrow> 'a vmm_scheme \<Rightarrow> vm_panic + 'a vmm_scheme" where
  "map_range cpu pml4 virt phys sz flags s =
     map_range_from (unat sz div 4096 + 1) cpu pml4 virt phys (unat sz) flags s"

definition map_kernel_section :: "u64 \<Rightarrow> u64 \<Rightarrow> u64 \<Rightarrow> u64 \<Rightarrow> 'a vmm_scheme \<Rightarrow> vm_panic + 'a vmm_scheme" where
  "map_kernel_section guard start end' flags s =
     for_each (\<lambda>v s. if v = guard then Inr s
         else andthen (vmm_get_pte (kernel_pml4 s) v True s) (\<lambda>(pte, s).
           case pte of None \<Rightarrow> Inl Kernel_map_no_memory
           | Some pte \<Rightarrow> Inr (set_pte pte ((v - KERNEL_VMA) OR flags OR PTE_PRESENT) s)))
       (pages_of start (align_up end' PAGE_SIZE)) s"

definition map_region :: "cpu_features \<Rightarrow> u64 \<Rightarrow> mem_region \<Rightarrow> 'a vmm_scheme \<Rightarrow> vm_panic + 'a vmm_scheme" where
  "map_region cpu flags r s =
     (if \<not> mapped_type r then Inr s
      else
        (let base = align_down (m_base r) PAGE_SIZE; end' = align_up (m_base r + m_len r) PAGE_SIZE in
         if end' \<le> MiB then Inr s
         else
           (let base = (if base < MiB then MiB else base)
            in map_range cpu (kernel_pml4 s) (HHDM_BASE + base) base (end' - base) flags s)))"

definition vmm_init :: "cpu_features \<Rightarrow> mem_region list \<Rightarrow> kernel_image \<Rightarrow> 'a vmm_scheme \<Rightarrow> vm_panic + 'a vmm_scheme" where
  "vmm_init cpu rs img s =
     (let s = s\<lparr>pte_nx := if nx cpu then PTE_NX else 0\<rparr>;
          global = (if pge cpu then PTE_GLOBAL else 0) in
      andthen (alloc_table s) (\<lambda>(root, s).
      andthen (for_each (\<lambda>i s. andthen (alloc_table s) (\<lambda>(t, s).
                 Inr (set_entry (table_virt root) (of_nat i) (t OR PTE_PRESENT OR PTE_WRITABLE) s)))
               [256..<512] (s\<lparr>kernel_pml4 := root\<rparr>)) (\<lambda>s.
      let hhdm_flags = PTE_WRITABLE OR pte_nx s OR global in
      andthen (map_range cpu root HHDM_BASE 0 MiB hhdm_flags s) (\<lambda>s.
      andthen (for_each (map_region cpu hhdm_flags) rs s) (\<lambda>s.
      andthen (map_kernel_section (boot_stack_guard img) (text_start img) (text_end img) global s) (\<lambda>s.
      andthen (map_kernel_section (boot_stack_guard img) (rodata_start img) (rodata_end img) (pte_nx s OR global) s) (\<lambda>s.
      andthen (map_kernel_section (boot_stack_guard img) (data_start img) (kernel_end img)
                 (PTE_WRITABLE OR pte_nx s OR global) s) (\<lambda>s.
      Inr (cpu_write_cr3 (kernel_pml4 s) s)))))))))"

definition vmm_late_init :: "'a vmm_scheme \<Rightarrow> 'a vmm_scheme" where
  "vmm_late_init s = s\<lparr>use_buddy := True\<rparr>"

definition vmm_switch :: "u64 \<Rightarrow> 'a vmm_scheme \<Rightarrow> 'a vmm_scheme" where
  "vmm_switch pml4 s = (if cr3 s \<noteq> pml4 then cpu_write_cr3 pml4 s else s)"

section \<open>Address spaces\<close>

definition vmm_create_address_space :: "'a vmm_scheme \<Rightarrow> u64 \<times> 'a vmm_scheme" where
  "vmm_create_address_space s =
     (case pmm_alloc_page GFP_ZERO s of (pml4, s) \<Rightarrow>
        if pml4 = 0 then (0, s)
        else (pml4, s\<lparr>kmem := memcpy (entry_ptr (table_virt pml4) 256) (entry_ptr (table_virt (kernel_pml4 s)) 256)
                                (256 * 8) (kmem s)\<rparr>))"

definition drop_mapcount :: "nat \<Rightarrow> 'a vmm_scheme \<Rightarrow> 'a vmm_scheme" where
  "drop_mapcount p s =
     (if pg_mapcount (mem_map s p) \<noteq> 0 then upd_page p (\<lambda>pg. pg\<lparr>pg_mapcount := pg_mapcount pg - 1\<rparr>) s else s)"

definition release_user_frame :: "u64 \<Rightarrow> 'a vmm_scheme \<Rightarrow> vm_panic + 'a vmm_scheme" where
  "release_user_frame pte s =
     (let phys = pte AND PTE_ADDR_MASK in
      if phys_to_page phys \<ge> max_pfn s then Inr s
      else if has_flag (pg_flags (mem_map s (phys_to_page phys))) PG_RESERVED then Inr s
      else pmm_call (put_page (phys_to_page phys) (drop_mapcount (phys_to_page phys) s)))"

text \<open>The loop body of every walk over a table: absent entries are skipped.\<close>

definition if_present :: "u64 \<Rightarrow> (u64 \<Rightarrow> nat \<Rightarrow> 'a vmm_scheme \<Rightarrow> vm_panic + 'a vmm_scheme) \<Rightarrow> nat \<Rightarrow> 'a vmm_scheme \<Rightarrow> vm_panic + 'a vmm_scheme" where
  "if_present t f i s =
     (let e = entry t (of_nat i) s in if has_flag e PTE_PRESENT then f e i s else Inr s)"

definition destroy_pt :: "u64 \<Rightarrow> nat \<Rightarrow> 'a vmm_scheme \<Rightarrow> vm_panic + 'a vmm_scheme" where
  "destroy_pt e k s =
     andthen (for_each (if_present (table_virt e) (\<lambda>pte m. release_user_frame pte)) [0..<512] s) (\<lambda>s.
       pmm_call (pmm_free_page (e AND PTE_ADDR_MASK) s))"

definition destroy_pd :: "u64 \<Rightarrow> nat \<Rightarrow> 'a vmm_scheme \<Rightarrow> vm_panic + 'a vmm_scheme" where
  "destroy_pd e j s =
     andthen (for_each (if_present (table_virt e) destroy_pt) [0..<512] s) (\<lambda>s.
       pmm_call (pmm_free_page (e AND PTE_ADDR_MASK) s))"

definition destroy_pdpt :: "u64 \<Rightarrow> nat \<Rightarrow> 'a vmm_scheme \<Rightarrow> vm_panic + 'a vmm_scheme" where
  "destroy_pdpt e i s =
     andthen (for_each (if_present (table_virt e) destroy_pd) [0..<512] s) (\<lambda>s.
       pmm_call (pmm_free_page (e AND PTE_ADDR_MASK) s))"

definition vmm_destroy_address_space :: "u64 \<Rightarrow> 'a vmm_scheme \<Rightarrow> vm_panic + 'a vmm_scheme" where
  "vmm_destroy_address_space pml4 s =
     (if pml4 = kernel_pml4 s \<or> pml4 = cr3 s then Inl Assert_failed
      else andthen (for_each (if_present (table_virt pml4) destroy_pdpt) [0..<256] s) (\<lambda>s.
        pmm_call (pmm_free_page pml4 s)))"

section \<open>Mapping\<close>

definition vmm_map_page :: "u64 \<Rightarrow> u64 \<Rightarrow> u64 \<Rightarrow> u64 \<Rightarrow> 'a vmm_scheme \<Rightarrow> vm_panic + bool \<times> 'a vmm_scheme" where
  "vmm_map_page pml4 virt phys flags s =
     (if \<not> (is_aligned virt PAGE_SIZE \<and> is_aligned phys PAGE_SIZE) then Inl Assert_failed
      else andthen (vmm_get_pte pml4 virt True s) (\<lambda>(pte, s).
        case pte of None \<Rightarrow> Inr (False, s)
        | Some pte \<Rightarrow>
            if has_flag (read_pte pte s) PTE_PRESENT then Inl Already_mapped
            else Inr (True, set_pte pte (phys OR (flags AND NOT PTE_ADDR_MASK) OR PTE_PRESENT) s)))"

definition flush_if_current :: "u64 \<Rightarrow> u64 \<Rightarrow> 'a vmm_scheme \<Rightarrow> 'a vmm_scheme" where
  "flush_if_current pml4 virt s =
     (if pml4 = cr3 s \<or> \<not> is_user_address virt then vmm_flush_page virt s else s)"

definition vmm_unmap_page :: "u64 \<Rightarrow> u64 \<Rightarrow> 'a vmm_scheme \<Rightarrow> vm_panic + u64 \<times> 'a vmm_scheme" where
  "vmm_unmap_page pml4 virt s =
     andthen (vmm_get_pte pml4 virt False s) (\<lambda>(pte, s).
       case pte of None \<Rightarrow> Inr (0, s)
       | Some pte \<Rightarrow>
           if \<not> has_flag (read_pte pte s) PTE_PRESENT then Inr (0, s)
           else Inr (read_pte pte s AND PTE_ADDR_MASK, flush_if_current pml4 virt (set_pte pte 0 s)))"

text \<open>The translation, with the value stored to \<^verbatim>\<open>flags_out\<close> when something is mapped.\<close>

definition vmm_translate :: "u64 \<Rightarrow> u64 \<Rightarrow> 'a vmm_scheme \<Rightarrow> u64 \<times> u64 option" where
  "vmm_translate pml4 virt s =
     (let e = entry (table_virt pml4) (PML4_INDEX virt) s in
      if \<not> has_flag e PTE_PRESENT then (0, None)
      else let e = entry (table_virt e) (PDPT_INDEX virt) s in
      if \<not> has_flag e PTE_PRESENT then (0, None)
      else if has_flag e PTE_HUGE
        then ((e AND PTE_ADDR_MASK AND NOT (GiB - 1)) + (virt AND (GiB - 1)), Some (e AND NOT PTE_ADDR_MASK))
      else let e = entry (table_virt e) (PD_INDEX virt) s in
      if \<not> has_flag e PTE_PRESENT then (0, None)
      else if has_flag e PTE_HUGE
        then ((e AND PTE_ADDR_MASK AND NOT (2 * MiB - 1)) + (virt AND (2 * MiB - 1)), Some (e AND NOT PTE_ADDR_MASK))
      else let e = entry (table_virt e) (PT_INDEX virt) s in
      if \<not> has_flag e PTE_PRESENT then (0, None)
      else ((e AND PTE_ADDR_MASK) + (virt AND (PAGE_SIZE - 1)), Some (e AND NOT PTE_ADDR_MASK)))"

definition vmm_update_flags :: "u64 \<Rightarrow> u64 \<Rightarrow> u64 \<Rightarrow> 'a vmm_scheme \<Rightarrow> vm_panic + bool \<times> 'a vmm_scheme" where
  "vmm_update_flags pml4 virt flags s =
     andthen (vmm_get_pte pml4 virt False s) (\<lambda>(pte, s).
       case pte of None \<Rightarrow> Inr (False, s)
       | Some pte \<Rightarrow>
           let e = read_pte pte s in
           if \<not> has_flag e PTE_PRESENT then Inr (False, s)
           else Inr (True, flush_if_current pml4 virt
             (set_pte pte ((e AND PTE_ADDR_MASK) OR (flags AND NOT PTE_ADDR_MASK) OR PTE_PRESENT) s)))"

fun map_anonymous_from :: "nat \<Rightarrow> nat \<Rightarrow> u64 \<Rightarrow> u64 \<Rightarrow> u64 \<Rightarrow> 'a vmm_scheme \<Rightarrow> vm_panic + bool \<times> 'a vmm_scheme" where
  "map_anonymous_from i 0 pml4 virt flags s = Inr (True, s)"
| "map_anonymous_from i (Suc n) pml4 virt flags s =
     (case alloc_pages 0 GFP_ZERO s of
        (None, s) \<Rightarrow> Inr (False, s)
      | (Some p, s) \<Rightarrow>
          andthen (vmm_map_page pml4 (virt + of_nat i * PAGE_SIZE) (page_to_phys p) flags s) (\<lambda>(ok, s).
            if \<not> ok then andthen (pmm_call (put_page p s)) (\<lambda>s. Inr (False, s))
            else map_anonymous_from (Suc i) n pml4 virt flags (upd_page p (\<lambda>pg. pg\<lparr>pg_mapcount := 1\<rparr>) s)))"

definition vmm_map_anonymous :: "u64 \<Rightarrow> u64 \<Rightarrow> nat \<Rightarrow> u64 \<Rightarrow> 'a vmm_scheme \<Rightarrow> vm_panic + bool \<times> 'a vmm_scheme" where
  "vmm_map_anonymous pml4 virt n flags s = map_anonymous_from 0 n pml4 virt flags s"

definition page_rest :: "u64 \<Rightarrow> nat" where
  "page_rest virt = unat (PAGE_SIZE - (virt AND (PAGE_SIZE - 1)))"

lemma and_low_bits: "(x :: u64) AND 0xFFF = take_bit 12 x" "x AND 0x1FF = take_bit 9 x"
  by (simp_all add: take_bit_eq_mask mask_eq_exp_minus_1)

lemma page_rest_pos: "0 < page_rest virt"
proof -
  have "unat (take_bit 12 virt) < 4096"
    using take_bit_nat_less_exp[of 12 "unat virt"] by (simp add: unsigned_take_bit_eq)
  then have "PAGE_SIZE - take_bit 12 virt \<noteq> 0" by (auto simp: word_less_nat_alt)
  then show ?thesis by (simp add: page_rest_def and_low_bits unat_gt_0)
qed

function vmm_copy_to_space :: "u64 \<Rightarrow> u64 \<Rightarrow> u8 list \<Rightarrow> 'a vmm_scheme \<Rightarrow> bool \<times> 'a vmm_scheme" where
  "vmm_copy_to_space pml4 virt src s =
     (if src = [] then (True, s)
      else
        (let phys = fst (vmm_translate pml4 virt s) in
         if phys = 0 then (False, s)
         else
           (let chunk = min (length src) (page_rest virt)
            in vmm_copy_to_space pml4 (virt + of_nat chunk) (drop chunk src)
                 (s\<lparr>kmem := store_bytes (phys_to_virt phys) (take chunk src) (kmem s)\<rparr>))))"
  by pat_completeness auto
termination
  by (relation "measure (\<lambda>(pml4, virt, src, s). length src)") (auto simp: page_rest_pos)

declare vmm_copy_to_space.simps [simp del]

definition vmm_user_range_ok :: "u64 \<Rightarrow> u64 \<Rightarrow> u64 \<Rightarrow> bool \<Rightarrow> 'a vmm_scheme \<Rightarrow> bool" where
  "vmm_user_range_ok pml4 virt len write s =
     (len = 0 \<or>
       (let end' = virt + len in
        \<not> (end' < virt \<or> \<not> is_user_address virt \<or> end' > USER_SPACE_END)
        \<and> list_all (\<lambda>page.
             case vmm_translate pml4 page s of
               (phys, flags) \<Rightarrow> phys \<noteq> 0 \<and>
                 (case flags of None \<Rightarrow> False
                  | Some f \<Rightarrow> has_flag f PTE_USER \<and> (write \<longrightarrow> has_flag f PTE_WRITABLE)))
            (pages_of (align_down virt PAGE_SIZE) end')))"

section \<open>Pruning and counting\<close>

definition table_empty :: "u64 \<Rightarrow> 'a vmm_scheme \<Rightarrow> bool" where
  "table_empty t s = list_all (\<lambda>i. \<not> has_flag (entry t (of_nat i) s) PTE_PRESENT) [0..<512]"

definition free_table :: "u64 \<Rightarrow> 'a vmm_scheme \<Rightarrow> vm_panic + 'a vmm_scheme" where
  "free_table ptr s =
     andthen (pmm_call (pmm_free_page (read_pte ptr s AND PTE_ADDR_MASK) s)) (\<lambda>s. Inr (set_pte ptr 0 s))"

text \<open>
  One round of \<^verbatim>\<open>vmm_prune_tables\<close> at \<open>va\<close>: the address of the next round, whether a table was freed,
  and the new state.
\<close>

definition prune_step :: "u64 \<Rightarrow> u64 \<Rightarrow> 'a vmm_scheme \<Rightarrow> vm_panic + u64 \<times> bool \<times> 'a vmm_scheme" where
  "prune_step pml4 va s =
     (let e4 = entry_ptr (table_virt pml4) (PML4_INDEX va) in
      if \<not> has_flag (read_pte e4 s) PTE_PRESENT then Inr (align_down va (512 * GiB) + 512 * GiB, False, s)
      else let l3 = table_virt (read_pte e4 s); e3 = entry_ptr l3 (PDPT_INDEX va) in
      if \<not> has_flag (read_pte e3 s) PTE_PRESENT then Inr (align_down va GiB + GiB, False, s)
      else let l2 = table_virt (read_pte e3 s); e2 = entry_ptr l2 (PD_INDEX va); p2 = read_pte e2 s in
      andthen (if has_flag p2 PTE_PRESENT \<and> \<not> has_flag p2 PTE_HUGE \<and> table_empty (table_virt p2) s
               then andthen (free_table e2 s) (\<lambda>s. Inr (True, s)) else Inr (False, s)) (\<lambda>(freed, s).
      if table_empty l2 s then
        andthen (free_table e3 s) (\<lambda>s.
        andthen (if table_empty l3 s then free_table e4 s else Inr s) (\<lambda>s.
          Inr (align_down va GiB + GiB, True, s)))
      else Inr (va + 2 * MiB, freed, s)))"

text \<open>
  The loop: \<open>end'\<close> is at most the end of user space, so the counter does not wrap and each round moves it
  by at least 2 MiB; the first argument bounds the rounds by the number of 2 MiB areas of user space.
\<close>

fun prune_from :: "nat \<Rightarrow> u64 \<Rightarrow> u64 \<Rightarrow> u64 \<Rightarrow> bool \<Rightarrow> 'a vmm_scheme \<Rightarrow> vm_panic + bool \<times> 'a vmm_scheme" where
  "prune_from 0 pml4 va end' freed s = Inr (freed, s)"
| "prune_from (Suc n) pml4 va end' freed s =
     (if va < end' then
        andthen (prune_step pml4 va s) (\<lambda>(va, f, s). prune_from n pml4 va end' (freed \<or> f) s)
      else Inr (freed, s))"

definition vmm_prune_tables :: "u64 \<Rightarrow> u64 \<Rightarrow> u64 \<Rightarrow> 'a vmm_scheme \<Rightarrow> vm_panic + 'a vmm_scheme" where
  "vmm_prune_tables pml4 start end0 s =
     (let end' = (if end0 > USER_SPACE_END then USER_SPACE_END else end0) in
      andthen (prune_from (unat end' div 0x200000 + 1) pml4 (align_down start (2 * MiB)) end' False s) (\<lambda>(freed, s).
        Inr (if freed \<and> pml4 = cr3 s then cpu_write_cr3 pml4 s else s)))"

definition present_entries :: "u64 \<Rightarrow> nat \<Rightarrow> 'a vmm_scheme \<Rightarrow> u64 list" where
  "present_entries t n s = filter (\<lambda>e. has_flag e PTE_PRESENT) (map (\<lambda>i. entry t (of_nat i) s) [0..<n])"

definition vmm_count_user_pages :: "u64 \<Rightarrow> 'a vmm_scheme \<Rightarrow> nat" where
  "vmm_count_user_pages pml4 s =
     sum_list (map (\<lambda>e4. sum_list (map (\<lambda>e3. sum_list (map (\<lambda>e2.
         length (present_entries (table_virt e2) 512 s))
       (present_entries (table_virt e3) 512 s))) (present_entries (table_virt e4) 512 s)))
     (present_entries (table_virt pml4) 256 s))"

end
