(* ===== verification/Mm.thy ===== *)
theory Mm
  imports Vmm
begin

text \<open>
  The address space of a process, \<^verbatim>\<open>kernel/mm/mm.c\<close>: the list of its areas (VMAs), demand paging,
  copy-on-write and the break. The list of areas is a list in the order of \<^verbatim>\<open>mm->vmas\<close> (theory
  \<open>Klist\<close> justifies that view), an operation on it takes the address space and returns the changed one.
  Whether the slab cache provides a new \<^verbatim>\<open>struct vma\<close> or \<^verbatim>\<open>struct mm\<close> is an argument of the
  operations that ask for one. \<^verbatim>\<open>mm->lock\<close> makes each operation atomic.
\<close>

section \<open>Areas\<close>

abbreviation (input) PROT_READ :: u32 where "PROT_READ \<equiv> 1"
definition PROT_WRITE :: u32 where "PROT_WRITE = 2"
definition PROT_EXEC :: u32 where "PROT_EXEC = 4"
definition VMA_STACK :: u32 where "VMA_STACK = 2"
definition VMA_HEAP :: u32 where "VMA_HEAP = 4"
abbreviation MMAP_TOP :: u64 where "MMAP_TOP \<equiv> 0x700000000000"

record vma =
  vm_start :: u64
  vm_end :: u64
  vm_prot :: u32
  vm_flags :: u32

record mm =
  mm_pml4 :: u64
  vmas :: "vma list"
  brk_start :: u64
  brk :: u64

definition prot_to_pte :: "u32 \<Rightarrow> 'a vmm_scheme \<Rightarrow> u64" where
  "prot_to_pte prot s =
     PTE_USER OR (if has_flag prot PROT_WRITE then PTE_WRITABLE else 0)
     OR (if \<not> has_flag prot PROT_EXEC then pte_nx s else 0)"

definition mm_create :: "bool \<Rightarrow> 'a vmm_scheme \<Rightarrow> mm option \<times> 'a vmm_scheme" where
  "mm_create slab_ok s =
     (if \<not> slab_ok then (None, s)
      else case vmm_create_address_space s of (pml4, s) \<Rightarrow>
        if pml4 = 0 then (None, s)
        else (Some \<lparr>mm_pml4 = pml4, vmas = [], brk_start = 0, brk = 0\<rparr>, s))"

definition mm_destroy :: "mm \<Rightarrow> 'a vmm_scheme \<Rightarrow> vm_panic + 'a vmm_scheme" where
  "mm_destroy mm s = vmm_destroy_address_space (mm_pml4 mm) s"

definition find_vma :: "mm \<Rightarrow> u64 \<Rightarrow> vma option" where
  "find_vma mm addr = find (\<lambda>v. addr \<ge> vm_start v \<and> addr < vm_end v) (vmas mm)"

definition range_free :: "mm \<Rightarrow> u64 \<Rightarrow> u64 \<Rightarrow> bool" where
  "range_free mm start end' = list_all (\<lambda>v. \<not> (start < vm_end v \<and> end' > vm_start v)) (vmas mm)"

fun insert_vma :: "vma \<Rightarrow> vma list \<Rightarrow> vma list" where
  "insert_vma nv [] = [nv]"
| "insert_vma nv (v # vs) = (if vm_start nv < vm_start v then nv # v # vs else v # insert_vma nv vs)"

text \<open>
  \<^verbatim>\<open>find_free_area\<close>: one pass over the list moves the candidate below every area it is too close to;
  \<open>None\<close> is the early \<^verbatim>\<open>return 0\<close>. Passes repeat until one moves nothing.
\<close>

definition too_close :: "u64 \<Rightarrow> u64 \<Rightarrow> vma \<Rightarrow> bool" where
  "too_close candidate len v \<longleftrightarrow>
     candidate < vm_end v + PAGE_SIZE \<and> candidate + len + PAGE_SIZE > vm_start v"

fun area_pass :: "vma list \<Rightarrow> u64 \<Rightarrow> bool \<Rightarrow> u64 \<Rightarrow> (bool \<times> u64) option" where
  "area_pass [] len moved candidate = Some (moved, candidate)"
| "area_pass (v # vs) len moved candidate =
     (if too_close candidate len v then
        (if vm_start v < len + 2 * PAGE_SIZE + USER_SPACE_START then None
         else area_pass vs len True (vm_start v - len - PAGE_SIZE))
      else area_pass vs len moved candidate)"

text \<open>The end of the guarded candidate shrinks with every move, whatever wraps around.\<close>

lemma area_pass_moves:
  assumes "area_pass vs len moved c = Some (moved', c')"
  shows "c' = c \<and> moved' = moved \<or> c' + len + PAGE_SIZE < c + len + PAGE_SIZE \<and> moved'"
  using assms
proof (induction vs arbitrary: moved c)
  case (Cons v vs)
  show ?case
  proof (cases "too_close c len v")
    case True
    let ?c = "vm_start v - len - PAGE_SIZE"
    have "area_pass vs len True ?c = Some (moved', c')" using Cons.prems True by (simp split: if_splits)
    from Cons.IH[OF this] have "c' + len + PAGE_SIZE \<le> ?c + len + PAGE_SIZE \<and> moved'" by auto
    moreover have "?c + len + PAGE_SIZE = vm_start v" by simp
    moreover have "vm_start v < c + len + PAGE_SIZE" using True by (simp add: too_close_def)
    ultimately show ?thesis by (simp only:) auto
  next
    case False
    then show ?thesis using Cons by simp
  qed
qed simp

function find_area_loop :: "vma list \<Rightarrow> u64 \<Rightarrow> u64 \<Rightarrow> u64" where
  "find_area_loop vs len candidate =
     (case area_pass vs len False candidate of
        None \<Rightarrow> 0
      | Some (moved, c) \<Rightarrow>
          if moved then find_area_loop vs len c else if c \<ge> USER_SPACE_START then c else 0)"
  by pat_completeness auto
termination
proof (relation "measure (\<lambda>(vs, len, c). unat (c + len + PAGE_SIZE))")
  fix vs len candidate x moved c
  assume "area_pass vs len False candidate = Some x" "(moved, c) = x" moved
  then have "c + len + PAGE_SIZE < candidate + len + PAGE_SIZE" using area_pass_moves by fastforce
  then show "((vs, len, c), vs, len, candidate) \<in> measure (\<lambda>(vs, len, c). unat (c + len + PAGE_SIZE))"
    by (simp add: word_less_nat_alt)
qed simp

declare find_area_loop.simps [simp del]

definition find_free_area :: "mm \<Rightarrow> u64 \<Rightarrow> u64" where
  "find_free_area mm len = find_area_loop (vmas mm) len (MMAP_TOP - len)"

definition mm_map :: "bool \<Rightarrow> mm \<Rightarrow> u64 \<Rightarrow> u64 \<Rightarrow> u32 \<Rightarrow> u32 \<Rightarrow> u64 \<times> mm" where
  "mm_map slab_ok mm addr0 len0 prot fl =
     (let len = align_up len0 PAGE_SIZE in
      if len = 0 then (0, mm)
      else if \<not> slab_ok then (0, mm)
      else let addr = (if addr0 = 0 then find_free_area mm len else addr0) in
      if addr = 0 \<or> \<not> is_aligned addr PAGE_SIZE \<or> addr < USER_SPACE_START \<or> addr + len < addr
         \<or> addr + len > USER_SPACE_END \<or> \<not> range_free mm addr (addr + len)
      then (0, mm)
      else (addr, mm\<lparr>vmas := insert_vma \<lparr>vm_start = addr, vm_end = addr + len, vm_prot = prot, vm_flags = fl\<rparr> (vmas mm)\<rparr>))"

section \<open>Unmapping and the break\<close>

definition unmap_one :: "u64 \<Rightarrow> u64 \<Rightarrow> 'a vmm_scheme \<Rightarrow> vm_panic + 'a vmm_scheme" where
  "unmap_one pml4 va s =
     andthen (vmm_unmap_page pml4 va s) (\<lambda>(phys, s).
       if phys = 0 then Inr s
       else pmm_call (put_page (phys_to_page phys) (drop_mapcount (phys_to_page phys) s)))"

definition unmap_pages :: "u64 \<Rightarrow> u64 \<Rightarrow> u64 \<Rightarrow> 'a vmm_scheme \<Rightarrow> vm_panic + 'a vmm_scheme" where
  "unmap_pages pml4 start end' s = for_each (unmap_one pml4) (pages_of start end') s"

definition cut_pages :: "u64 \<Rightarrow> u64 \<Rightarrow> u64 \<Rightarrow> 'a vmm_scheme \<Rightarrow> vm_panic + 'a vmm_scheme" where
  "cut_pages pml4 start end' s =
     andthen (unmap_pages pml4 start end' s) (vmm_prune_tables pml4 start end')"

text \<open>
  Inserting the second half of a split area while the list is walked: \<open>done\<close> is what the walk has
  passed, up to and including the area being split, \<open>rest\<close> starts with the saved next area. The new
  area is visited by the rest of the walk only when it is inserted behind that next area.
\<close>

definition insert_split :: "vma \<Rightarrow> vma list \<Rightarrow> vma list \<Rightarrow> vma list \<times> vma list" where
  "insert_split nv done rest =
     (if list_ex (\<lambda>u. vm_start nv < vm_start u) done then (insert_vma nv done, rest)
      else case rest of
        [] \<Rightarrow> (done @ [nv], [])
      | u # us \<Rightarrow> if vm_start nv < vm_start u then (done @ [nv], rest) else (done, u # insert_vma nv us))"

lemma length_insert_vma [simp]: "length (insert_vma nv vs) = Suc (length vs)"
  by (induction vs) simp_all

lemma length_insert_split: "insert_split nv d rest = (d', rest') \<Longrightarrow> length rest' \<le> Suc (length rest)"
  by (auto simp: insert_split_def split: if_splits list.splits)

definition cut_start :: "u64 \<Rightarrow> vma \<Rightarrow> u64" where "cut_start addr v = max addr (vm_start v)"
definition cut_end :: "u64 \<Rightarrow> vma \<Rightarrow> u64" where "cut_end end' v = min end' (vm_end v)"

function unmap_vmas :: "u64 \<Rightarrow> u64 \<Rightarrow> bool \<Rightarrow> vma list \<Rightarrow> vma list \<Rightarrow> vma list \<times> (u64 \<times> u64) list" where
  "unmap_vmas addr end' spare done [] = (done, [])"
| "unmap_vmas addr end' spare done (v # rest) =
     (if end' \<le> vm_start v \<or> addr \<ge> vm_end v then unmap_vmas addr end' spare (done @ [v]) rest
      else
        (let cs = cut_start addr v; ce = cut_end end' v;
             (vs, ranges) =
               (if cs = vm_start v \<and> ce = vm_end v then unmap_vmas addr end' spare done rest
                else if cs = vm_start v then unmap_vmas addr end' spare (done @ [v\<lparr>vm_start := ce\<rparr>]) rest
                else if ce = vm_end v then unmap_vmas addr end' spare (done @ [v\<lparr>vm_end := cs\<rparr>]) rest
                else if spare then
                  (case insert_split (v\<lparr>vm_start := ce\<rparr>) (done @ [v\<lparr>vm_end := cs\<rparr>]) rest of
                     (d, r) \<Rightarrow> unmap_vmas addr end' False d r)
                else unmap_vmas addr end' spare (done @ [v]) rest)
         in (vs, (cs, ce) # ranges)))"
  by pat_completeness auto
termination
  by (relation "measures [\<lambda>(addr, end', spare, done, rest). of_bool spare, \<lambda>(addr, end', spare, done, rest). length rest]")
    auto

text \<open>
  The walk of \<^verbatim>\<open>mm_unmap\<close> touches the list and the page tables independently of each other: \<open>unmap_vmas\<close>
  gives the list it leaves and the ranges it ranges, in order, and \<^verbatim>\<open>mm_unmap\<close> removes the pages of these
  ranges.
\<close>

definition mm_unmap :: "bool \<Rightarrow> mm \<Rightarrow> u64 \<Rightarrow> u64 \<Rightarrow> 'a vmm_scheme \<Rightarrow> vm_panic + int \<times> mm \<times> 'a vmm_scheme" where
  "mm_unmap slab_ok mm addr len0 s =
     (let len = align_up len0 PAGE_SIZE in
      if \<not> is_aligned addr PAGE_SIZE \<or> len = 0 \<or> addr + len < addr then Inr (-1, mm, s)
      else case unmap_vmas addr (addr + len) slab_ok [] (vmas mm) of (vs, ranges) \<Rightarrow>
        andthen (for_each (\<lambda>(cs, ce). cut_pages (mm_pml4 mm) cs ce) ranges s) (\<lambda>s.
          Inr (0, mm\<lparr>vmas := vs\<rparr>, s)))"

definition find_heap :: "vma list \<Rightarrow> nat option" where
  "find_heap vs = find (\<lambda>i. has_flag (vm_flags (vs ! i)) VMA_HEAP) (rev [0..<length vs])"

text \<open>\<^verbatim>\<open>mm_sbrk\<close>; \<open>None\<close> is the result \<^verbatim>\<open>(uint64_t)-1\<close>.\<close>

definition mm_sbrk :: "mm \<Rightarrow> u64 \<Rightarrow> 'a vmm_scheme \<Rightarrow> vm_panic + u64 option \<times> mm \<times> 'a vmm_scheme" where
  "mm_sbrk mm inc s =
     (let old = brk mm; new_brk = old + inc in
      case find_heap (vmas mm) of
        None \<Rightarrow> Inr (None, mm, s)
      | Some h \<Rightarrow>
          let heap = vmas mm ! h in
          if (sint inc > 0 \<and> new_brk < old) \<or> (sint inc < 0 \<and> new_brk < brk_start mm) \<or> new_brk > MMAP_TOP
          then Inr (None, mm, s)
          else let new_end = max (align_up new_brk PAGE_SIZE) (vm_start heap + PAGE_SIZE);
                   grown = mm\<lparr>vmas := (vmas mm)[h := heap\<lparr>vm_end := new_end\<rparr>], brk := new_brk\<rparr> in
          if new_end > vm_end heap then
            (if Suc h < length (vmas mm) \<and> new_end > vm_start (vmas mm ! Suc h) then Inr (None, mm, s)
             else Inr (Some old, grown, s))
          else if new_end < vm_end heap then
            andthen (cut_pages (mm_pml4 mm) new_end (vm_end heap) s) (\<lambda>s. Inr (Some old, grown, s))
          else Inr (Some old, mm\<lparr>brk := new_brk\<rparr>, s))"

section \<open>Page faults\<close>

definition fault_page :: "mm \<Rightarrow> vma \<Rightarrow> u64 \<Rightarrow> bool \<Rightarrow> 'a vmm_scheme \<Rightarrow> vm_panic + bool \<times> 'a vmm_scheme" where
  "fault_page mm v page write s =
     andthen (vmm_get_pte (mm_pml4 mm) page True s) (\<lambda>(pte, s).
       case pte of None \<Rightarrow> Inr (False, s)
       | Some pte \<Rightarrow>
           let e = read_pte pte s in
           if \<not> has_flag e PTE_PRESENT then
             (case alloc_pages 0 GFP_ZERO s of
                (None, s) \<Rightarrow> Inr (False, s)
              | (Some p, s) \<Rightarrow>
                  Inr (True, set_pte pte (page_to_phys p OR prot_to_pte (vm_prot v) s OR PTE_PRESENT)
                    (upd_page p (\<lambda>pg. pg\<lparr>pg_mapcount := 1\<rparr>) s)))
           else if write \<and> has_flag e PTE_COW then
             (let old_phys = e AND PTE_ADDR_MASK; old = phys_to_page old_phys in
              if pg_refcount (mem_map s old) = 1
              then Inr (True, cpu_invlpg page (set_pte pte (e AND NOT PTE_COW OR PTE_WRITABLE) s))
              else case alloc_pages 0 0 s of
                (None, s) \<Rightarrow> Inr (False, s)
              | (Some np, s) \<Rightarrow>
                  let s = s\<lparr>kmem := memcpy (page_to_virt np) (phys_to_virt old_phys) 4096 (kmem s)\<rparr>;
                      s = upd_page np (\<lambda>pg. pg\<lparr>pg_mapcount := 1\<rparr>) s;
                      s = set_pte pte (page_to_phys np OR prot_to_pte (vm_prot v) s OR PTE_PRESENT) s
                  in andthen (pmm_call (put_page old (drop_mapcount old s))) (\<lambda>s. Inr (True, cpu_invlpg page s)))
           else Inr (write \<longrightarrow> has_flag e PTE_WRITABLE, s))"

fun grow_stack_from :: "vma list \<Rightarrow> vma list \<Rightarrow> u64 \<Rightarrow> (vma \<times> vma list) option" where
  "grow_stack_from done [] addr = None"
| "grow_stack_from done (v # vs) addr =
     (if \<not> has_flag (vm_flags v) VMA_STACK \<or> addr \<ge> vm_start v then grow_stack_from (done @ [v]) vs addr
      else if addr < USER_STACK_TOP - USER_STACK_MAX then None
      else
        (let new_start = align_down addr PAGE_SIZE in
         if done \<noteq> [] \<and> vm_end (last done) + PAGE_SIZE > new_start then None
         else Some (v\<lparr>vm_start := new_start\<rparr>, done @ v\<lparr>vm_start := new_start\<rparr> # vs)))"

definition grow_stack :: "mm \<Rightarrow> u64 \<Rightarrow> (vma \<times> mm) option" where
  "grow_stack mm addr = map_option (\<lambda>(v, vs). (v, mm\<lparr>vmas := vs\<rparr>)) (grow_stack_from [] (vmas mm) addr)"

text \<open>\<^verbatim>\<open>v = find_vma(...); if (!v) v = grow_stack(...)\<close>\<close>

definition area_for :: "mm \<Rightarrow> u64 \<Rightarrow> (vma \<times> mm) option" where
  "area_for mm addr = (case find_vma mm addr of Some v \<Rightarrow> Some (v, mm) | None \<Rightarrow> grow_stack mm addr)"

definition mm_handle_fault :: "mm option \<Rightarrow> u64 \<Rightarrow> u64 \<Rightarrow> 'a vmm_scheme \<Rightarrow> vm_panic + bool \<times> mm option \<times> 'a vmm_scheme" where
  "mm_handle_fault mmo addr err s =
     (let write = has_flag err 2; ifetch = has_flag err 16 in
      case mmo of
        None \<Rightarrow> Inr (False, mmo, s)
      | Some mm \<Rightarrow>
          if \<not> is_user_address addr then Inr (False, mmo, s)
          else case area_for mm addr of
            None \<Rightarrow> Inr (False, mmo, s)
          | Some (v, mm) \<Rightarrow>
              if (write \<and> \<not> has_flag (vm_prot v) PROT_WRITE) \<or> (ifetch \<and> \<not> has_flag (vm_prot v) PROT_EXEC)
              then Inr (False, Some mm, s)
              else andthen (fault_page mm v (align_down addr PAGE_SIZE) write s) (\<lambda>(ok, s). Inr (ok, Some mm, s)))"

fun prefault_from :: "u64 list \<Rightarrow> bool \<Rightarrow> mm \<Rightarrow> 'a vmm_scheme \<Rightarrow> vm_panic + bool \<times> mm \<times> 'a vmm_scheme" where
  "prefault_from [] write mm s = Inr (True, mm, s)"
| "prefault_from (page # ps) write mm s =
     (case area_for mm page of
        None \<Rightarrow> Inr (False, mm, s)
      | Some (v, mm) \<Rightarrow>
          if write \<and> \<not> has_flag (vm_prot v) PROT_WRITE then Inr (False, mm, s)
          else andthen (fault_page mm v page write s) (\<lambda>(ok, s).
            if ok then prefault_from ps write mm s else Inr (False, mm, s)))"

definition mm_prefault :: "mm option \<Rightarrow> u64 \<Rightarrow> u64 \<Rightarrow> bool \<Rightarrow> 'a vmm_scheme \<Rightarrow> vm_panic + bool \<times> mm option \<times> 'a vmm_scheme" where
  "mm_prefault mmo addr len write s =
     (if len = 0 then Inr (True, mmo, s)
      else let end' = addr + len in
      case mmo of
        None \<Rightarrow> Inr (False, mmo, s)
      | Some mm \<Rightarrow>
          if end' < addr \<or> \<not> is_user_address addr \<or> end' > USER_SPACE_END then Inr (False, mmo, s)
          else andthen (prefault_from (pages_of (align_down addr PAGE_SIZE) end') write mm s) (\<lambda>(ok, mm, s).
            Inr (ok, Some mm, s)))"

definition mm_populate :: "mm option \<Rightarrow> u64 \<Rightarrow> u64 \<Rightarrow> 'a vmm_scheme \<Rightarrow> vm_panic + bool \<times> mm option \<times> 'a vmm_scheme" where
  "mm_populate mmo addr len s = mm_prefault mmo addr len False s"

section \<open>Fork\<close>

text \<open>Loops that stop early with \<^verbatim>\<open>return false\<close>.\<close>

fun for_while :: "('i \<Rightarrow> 's \<Rightarrow> 'e + bool \<times> 's) \<Rightarrow> 'i list \<Rightarrow> 's \<Rightarrow> 'e + bool \<times> 's" where
  "for_while f [] s = Inr (True, s)"
| "for_while f (i # is') s = andthen (f i s) (\<lambda>(ok, s). if ok then for_while f is' s else Inr (False, s))"

definition over_table :: "u64 \<Rightarrow> nat \<Rightarrow> (nat \<Rightarrow> u64 \<Rightarrow> 'a vmm_scheme \<Rightarrow> vm_panic + bool \<times> 'a vmm_scheme) \<Rightarrow> 'a vmm_scheme \<Rightarrow> vm_panic + bool \<times> 'a vmm_scheme" where
  "over_table t n f s =
     for_while (\<lambda>i s. let e = entry t (of_nat i) s in
       if has_flag e PTE_PRESENT then f i e s else Inr (True, s)) [0..<n] s"

definition share_page :: "u64 \<Rightarrow> u64 \<Rightarrow> nat \<Rightarrow> u64 \<Rightarrow> u64 \<Rightarrow> 'a vmm_scheme \<Rightarrow> vm_panic + bool \<times> 'a vmm_scheme" where
  "share_page child_pml4 l1 m pte va s =
     (let (pte, s) = (if has_flag pte PTE_WRITABLE
                      then let pte = pte AND NOT PTE_WRITABLE OR PTE_COW in (pte, set_entry l1 (of_nat m) pte s)
                      else (pte, s));
          pg = phys_to_page (pte AND PTE_ADDR_MASK);
          s = get_page pg s;
          s = upd_page pg (\<lambda>p. p\<lparr>pg_mapcount := pg_mapcount p + 1\<rparr>) s
      in andthen (vmm_get_pte child_pml4 va True s) (\<lambda>(cpte, s).
        case cpte of
          None \<Rightarrow> andthen (pmm_call (put_page pg s)) (\<lambda>s. Inr (False, s))
        | Some cpte \<Rightarrow> Inr (True, set_pte cpte pte s)))"

definition copy_user_tables :: "u64 \<Rightarrow> u64 \<Rightarrow> 'a vmm_scheme \<Rightarrow> vm_panic + bool \<times> 'a vmm_scheme" where
  "copy_user_tables parent_pml4 child_pml4 s =
     over_table (phys_to_virt parent_pml4) 256 (\<lambda>i e4.
       over_table (table_virt e4) 512 (\<lambda>j e3.
         over_table (table_virt e3) 512 (\<lambda>k e2.
           over_table (table_virt e2) 512 (\<lambda>m pte.
             share_page child_pml4 (table_virt e2) m pte
               (push_bit 39 (of_nat i) OR push_bit 30 (of_nat j) OR push_bit 21 (of_nat k) OR push_bit 12 (of_nat m)))))) s"

text \<open>\<open>slab_ok n\<close> is the outcome of the \<open>n\<close>-th allocation: number 0 is the \<^verbatim>\<open>struct mm\<close>, then one per area.\<close>

definition mm_fork :: "(nat \<Rightarrow> bool) \<Rightarrow> mm \<Rightarrow> 'a vmm_scheme \<Rightarrow> vm_panic + mm option \<times> 'a vmm_scheme" where
  "mm_fork slab_ok parent s =
     (case mm_create (slab_ok 0) s of
        (None, s) \<Rightarrow> Inr (None, s)
      | (Some child, s) \<Rightarrow>
          let vs = map fst (takeWhile (\<lambda>(v, n). slab_ok n) (zip (vmas parent) [1..<length (vmas parent) + 1]));
              child = child\<lparr>brk_start := brk_start parent, brk := brk parent, vmas := vs\<rparr>
          in andthen (if length vs = length (vmas parent)
                      then copy_user_tables (mm_pml4 parent) (mm_pml4 child) s else Inr (False, s)) (\<lambda>(ok, s).
             let s = (if cr3 s = mm_pml4 parent then cpu_write_cr3 (mm_pml4 parent) s else s)
             in if \<not> ok then andthen (mm_destroy child s) (\<lambda>s. Inr (None, s)) else Inr (Some child, s)))"

end
