(* ===== verification/Mm_Areas.thy ===== *)
theory Mm_Areas
  imports Mm
begin

text \<open>
  The areas of an address space: they stay sorted, disjoint, page aligned and inside user space under
  every operation of \<^verbatim>\<open>mm.c\<close>; mapping and unmapping change exactly the addresses asked for; and
  \<^verbatim>\<open>find_free_area\<close> returns the highest place that keeps its distance from every area.
\<close>

section \<open>Well-formed area lists\<close>

definition area :: "vma \<Rightarrow> u64 set" where
  "area v = {vm_start v..<vm_end v}"

definition covers :: "vma list \<Rightarrow> u64 set" where
  "covers vs = (\<Union>v\<in>set vs. area v)"

definition wf_vma :: "vma \<Rightarrow> bool" where
  "wf_vma v \<longleftrightarrow> vm_start v < vm_end v \<and> USER_SPACE_START \<le> vm_start v \<and> vm_end v \<le> USER_SPACE_END
     \<and> is_aligned (vm_start v) PAGE_SIZE \<and> is_aligned (vm_end v) PAGE_SIZE"

abbreviation below :: "vma \<Rightarrow> vma \<Rightarrow> bool" where "below u v \<equiv> vm_end u \<le> vm_start v"

definition areas_ok :: "vma list \<Rightarrow> bool" where
  "areas_ok vs \<longleftrightarrow> list_all wf_vma vs \<and> sorted_wrt below vs"

lemma covers_simps [simp]:
  "covers [] = {}" "covers (v # vs) = area v \<union> covers vs" "covers (us @ vs) = covers us \<union> covers vs"
  by (simp_all add: covers_def)

lemma areas_ok_Nil [simp]: "areas_ok []"
  by (simp add: areas_ok_def)

lemma areas_ok_append: "areas_ok (us @ vs) \<longleftrightarrow> areas_ok us \<and> areas_ok vs \<and> (\<forall>u\<in>set us. \<forall>v\<in>set vs. below u v)"
  by (auto simp: areas_ok_def sorted_wrt_append)

lemma areas_ok_Cons: "areas_ok (v # vs) \<longleftrightarrow> wf_vma v \<and> areas_ok vs \<and> (\<forall>u\<in>set vs. below v u)"
  by (auto simp: areas_ok_def)

lemmas areas_ok_simps = areas_ok_append areas_ok_Cons

lemma wf_vma_pos: "wf_vma v \<Longrightarrow> vm_start v < vm_end v"
  by (simp add: wf_vma_def)

lemma set_insert_vma [simp]: "set (insert_vma nv vs) = insert nv (set vs)"
  by (induction vs) auto

lemma insert_vma_ok:
  assumes "areas_ok vs" "wf_vma nv" "\<forall>v\<in>set vs. \<not> (vm_start nv < vm_end v \<and> vm_end nv > vm_start v)"
  shows "areas_ok (insert_vma nv vs)"
  using assms
proof (induction vs)
  case (Cons v vs)
  have v: "wf_vma v" "areas_ok vs" "\<forall>u\<in>set vs. below v u" using Cons.prems(1) by (simp_all add: areas_ok_Cons)
  have no: "\<not> (vm_start nv < vm_end v \<and> vm_end nv > vm_start v)" using Cons.prems(3) by simp
  show ?case
  proof (cases "vm_start nv < vm_start v")
    case True
    with no wf_vma_pos[OF v(1)] have "below nv v" by auto
    moreover have "below nv u" if "u \<in> set vs" for u
      using v(3) that \<open>below nv v\<close> wf_vma_pos[OF v(1)] by fastforce
    ultimately show ?thesis using True Cons.prems by (simp add: areas_ok_Cons)
  next
    case False
    with no wf_vma_pos[OF Cons.prems(2)] have "below v nv" by auto
    with False Cons v show ?thesis by (simp add: areas_ok_Cons)
  qed
qed (simp add: areas_ok_Cons)

section \<open>Unmapping\<close>

lemma unmap_vmas_apart:
  "\<forall>v\<in>set rest. end' \<le> vm_start v \<or> addr \<ge> vm_end v \<Longrightarrow> unmap_vmas addr end' spare d rest = (d @ rest, [])"
  by (induction rest arbitrary: d) simp_all

lemma wf_cut:
  assumes "wf_vma v" "is_aligned x PAGE_SIZE" "vm_start v < x" "x < vm_end v"
  shows "wf_vma (v\<lparr>vm_end := x\<rparr>)" "wf_vma (v\<lparr>vm_start := x\<rparr>)"
  using assms by (auto simp: wf_vma_def)

lemma insert_split_ok:
  assumes "\<forall>u\<in>set d. vm_start u < vm_start v" "areas_ok (v # rest)" "vm_start v < cs" "cs < ce" "ce < vm_end v"
  shows "insert_split (v\<lparr>vm_start := ce\<rparr>) (d @ [v\<lparr>vm_end := cs\<rparr>]) rest
     = (d @ [v\<lparr>vm_end := cs\<rparr>, v\<lparr>vm_start := ce\<rparr>], rest)"
proof -
  have "\<not> list_ex (\<lambda>u. ce < vm_start u) (d @ [v\<lparr>vm_end := cs\<rparr>])"
    using assms by (fastforce simp: list_ex_iff)
  moreover have "\<forall>u\<in>set rest. ce < vm_start u" using assms by (fastforce simp: areas_ok_simps)
  ultimately show ?thesis by (cases rest) (simp_all add: insert_split_def)
qed

text \<open>What happens to one area: it is kept, removed, shortened or split.\<close>

definition remains :: "bool \<Rightarrow> u64 \<Rightarrow> u64 \<Rightarrow> vma \<Rightarrow> vma list" where
  "remains spare addr end' v =
     (if end' \<le> vm_start v \<or> addr \<ge> vm_end v then [v]
      else if addr \<le> vm_start v then (if vm_end v \<le> end' then [] else [v\<lparr>vm_start := end'\<rparr>])
      else if vm_end v \<le> end' then [v\<lparr>vm_end := addr\<rparr>]
      else if spare then [v\<lparr>vm_end := addr\<rparr>, v\<lparr>vm_start := end'\<rparr>] else [v])"

lemma remains_apart: "\<forall>v\<in>set vs. end' \<le> vm_start v \<or> addr \<ge> vm_end v \<Longrightarrow> concat (map (remains spare addr end') vs) = vs"
  by (induction vs) (simp_all add: remains_def)

lemma unmap_vmas_remains:
  assumes "areas_ok rest" "\<forall>u\<in>set d. \<forall>v\<in>set rest. vm_start u < vm_start v" "addr < end'"
  shows "fst (unmap_vmas addr end' spare d rest) = d @ concat (map (remains spare addr end') rest)"
  using assms(1,2)
proof (induction rest arbitrary: d)
  case (Cons v rest)
  have v: "vm_start v < vm_end v" "areas_ok rest" "\<forall>u\<in>set rest. vm_end v \<le> vm_start u"
    using Cons.prems(1) wf_vma_pos by (simp_all add: areas_ok_Cons)
  have IH: "fst (unmap_vmas addr end' spare (d @ ws) rest) = (d @ ws) @ concat (map (remains spare addr end') rest)"
    if "\<forall>u\<in>set ws. vm_start u < vm_end v" for ws
  proof -
    have "vm_start u < vm_start w" if "u \<in> set (d @ ws)" "w \<in> set rest" for u w
      using that \<open>\<forall>u\<in>set ws. vm_start u < vm_end v\<close> v Cons.prems(2) by fastforce
    with Cons.IH[OF v(2), of "d @ ws"] show ?thesis by blast
  qed
  show ?case
  proof (cases "vm_start v < addr \<and> end' < vm_end v \<and> spare")
    case True
    then have c: "cut_start addr v = addr" "cut_end end' v = end'" by (simp_all add: cut_start_def cut_end_def)
    have "\<forall>w\<in>set rest. end' \<le> vm_start w \<or> addr \<ge> vm_end w" using True v(3) by fastforce
    note rest = unmap_vmas_apart[OF this] remains_apart[OF this]
    have "insert_split (v\<lparr>vm_start := end'\<rparr>) (d @ [v\<lparr>vm_end := addr\<rparr>]) rest = (d @ [v\<lparr>vm_end := addr\<rparr>, v\<lparr>vm_start := end'\<rparr>], rest)"
      using True assms(3) Cons.prems by (intro insert_split_ok) auto
    moreover have "remains spare addr end' v = [v\<lparr>vm_end := addr\<rparr>, v\<lparr>vm_start := end'\<rparr>]"
      using True assms(3) by (auto simp: remains_def)
    ultimately show ?thesis using True assms(3) by (auto simp: Let_def c rest)
  next
    case False
    have "fst (unmap_vmas addr end' spare d (v # rest)) = fst (unmap_vmas addr end' spare (d @ remains spare addr end' v) rest)"
      using False v(1) assms(3)
      by (auto simp: remains_def Let_def cut_start_def cut_end_def max_def min_def split: prod.splits)
    also have "\<dots> = (d @ remains spare addr end' v) @ concat (map (remains spare addr end') rest)"
      using v(1) by (intro IH) (auto simp: remains_def)
    finally show ?thesis by simp
  qed
qed simp

lemma remains_ok:
  assumes "wf_vma v" "is_aligned addr PAGE_SIZE" "is_aligned end' PAGE_SIZE" "addr < end'"
  shows "areas_ok (remains spare addr end' v)" "w \<in> set (remains spare addr end' v) \<Longrightarrow> vm_start v \<le> vm_start w \<and> vm_end w \<le> vm_end v"
    "covers (remains True addr end' v) = area v - {addr..<end'}"
  using assms wf_vma_pos[OF assms(1)] wf_cut[OF assms(1,2)] wf_cut[OF assms(1,3)]
  by (auto simp: remains_def areas_ok_simps area_def split: if_splits)

lemma remains_all_ok:
  assumes "areas_ok vs" "is_aligned addr PAGE_SIZE" "is_aligned end' PAGE_SIZE" "addr < end'"
  shows "areas_ok (concat (map (remains spare addr end') vs))"
    "covers (concat (map (remains True addr end') vs)) = covers vs - {addr..<end'}"
proof -
  show "areas_ok (concat (map (remains spare addr end') vs))" using assms(1)
  proof (induction vs)
    case (Cons v vs)
    have "below u w" if "u \<in> set (remains spare addr end' v)" "x \<in> set vs" "w \<in> set (remains spare addr end' x)" for u w x
    proof -
      have "wf_vma v" "wf_vma x" "below v x" using Cons.prems that(2) by (auto simp: areas_ok_Cons areas_ok_def list_all_iff)
      with remains_ok(2)[OF _ assms(2-4)] that(1,3) show ?thesis by (meson order_trans)
    qed
    with Cons remains_ok(1)[OF _ assms(2-4), of v] show ?case by (auto simp: areas_ok_append areas_ok_Cons)
  qed simp
  show "covers (concat (map (remains True addr end') vs)) = covers vs - {addr..<end'}" using assms(1)
    by (induction vs) (auto simp: areas_ok_Cons remains_ok(3)[OF _ assms(2-4)])
qed

section \<open>The operations keep the areas well formed\<close>

lemma aligned_add:
  assumes "is_aligned a PAGE_SIZE" "is_aligned b PAGE_SIZE" "\<not> a + b < a"
  shows "is_aligned (a + b) PAGE_SIZE"
proof -
  have "unat (a + b) = unat a + unat b" using assms(3) by (intro unat_add_no_wrap) (simp add: word_overflow_iff)
  then show ?thesis using assms by (simp add: align_simps)
qed

lemma mm_map_ok:
  assumes "mm_map slab_ok mm addr0 len0 prot fl = (r, mm')" "areas_ok (vmas mm)" "len = align_up len0 PAGE_SIZE"
  shows "areas_ok (vmas mm')" "r = 0 \<Longrightarrow> mm' = mm"
    "r \<noteq> 0 \<Longrightarrow> covers (vmas mm') = covers (vmas mm) \<union> {r..<r + len} \<and> covers (vmas mm) \<inter> {r..<r + len} = {}
       \<and> is_aligned r PAGE_SIZE \<and> r < r + len \<and> (addr0 \<noteq> 0 \<longrightarrow> r = addr0)"
proof -
  define a where "a = (if addr0 = 0 then find_free_area mm len else addr0)"
  define bad where "bad \<longleftrightarrow> a = 0 \<or> \<not> is_aligned a PAGE_SIZE \<or> a < USER_SPACE_START \<or> a + len < a
    \<or> a + len > USER_SPACE_END \<or> \<not> range_free mm a (a + len)"
  have "(if len = 0 then (0, mm) else if \<not> slab_ok then (0, mm) else if bad then (0, mm)
    else (a, mm\<lparr>vmas := insert_vma \<lparr>vm_start = a, vm_end = a + len, vm_prot = prot, vm_flags = fl\<rparr> (vmas mm)\<rparr>)) = (r, mm')"
    using assms(1) unfolding mm_map_def Let_def assms(3)[symmetric] a_def bad_def .
  then consider (fail) "r = 0" "mm' = mm"
    | (good) "len \<noteq> 0" "\<not> bad" "r = a"
      "mm' = mm\<lparr>vmas := insert_vma \<lparr>vm_start = a, vm_end = a + len, vm_prot = prot, vm_flags = fl\<rparr> (vmas mm)\<rparr>"
    by (metis prod.inject)
  then have "areas_ok (vmas mm') \<and> (r = 0 \<longrightarrow> mm' = mm) \<and> (r \<noteq> 0 \<longrightarrow>
      covers (vmas mm') = covers (vmas mm) \<union> {r..<r + len} \<and> covers (vmas mm) \<inter> {r..<r + len} = {}
      \<and> is_aligned r PAGE_SIZE \<and> r < r + len \<and> (addr0 \<noteq> 0 \<longrightarrow> r = addr0))"
  proof cases
    case good
    have ok: "r \<noteq> 0" "is_aligned r PAGE_SIZE" "\<not> r < USER_SPACE_START" "\<not> r + len < r" "\<not> r + len > USER_SPACE_END"
      "range_free mm r (r + len)"
      using good(2) unfolding good(3) bad_def by blast+
    have "addr0 \<noteq> 0 \<longrightarrow> r = addr0" by (simp add: good(3) a_def)
    note ok = ok good(1) this good(4)[folded good(3)]
    have "is_aligned len PAGE_SIZE" by (simp only: assms(3) align_up_aligned)
    have "r \<noteq> r + len" using ok(7) by simp
    then have lt: "r < r + len" using ok(4) by order
    have "wf_vma \<lparr>vm_start = r, vm_end = r + len, vm_prot = prot, vm_flags = fl\<rparr>"
      using ok aligned_add[OF ok(2) \<open>is_aligned len PAGE_SIZE\<close>] lt by (simp add: wf_vma_def not_less)
    then have "areas_ok (vmas mm')"
      using ok(6,9) assms(2) insert_vma_ok by (simp add: range_free_def list_all_iff)
    moreover have "covers (vmas mm) \<inter> {r..<r + len} = {}"
      using ok(6) by (fastforce simp: covers_def area_def range_free_def list_all_iff)
    moreover have "covers (vmas mm') = covers (vmas mm) \<union> {r..<r + len}" using ok(9) by (auto simp: covers_def area_def)
    ultimately show ?thesis using ok lt by simp
  qed (use assms(2) in simp)
  then show "areas_ok (vmas mm')" "r = 0 \<Longrightarrow> mm' = mm"
    "r \<noteq> 0 \<Longrightarrow> covers (vmas mm') = covers (vmas mm) \<union> {r..<r + len} \<and> covers (vmas mm) \<inter> {r..<r + len} = {}
       \<and> is_aligned r PAGE_SIZE \<and> r < r + len \<and> (addr0 \<noteq> 0 \<longrightarrow> r = addr0)"
    by blast+
qed

lemma mm_unmap_ok:
  assumes "mm_unmap slab_ok mm addr len0 s = Inr (r, mm', s')" "areas_ok (vmas mm)"
  shows "areas_ok (vmas mm')" "r = 0 \<or> r = - 1 \<and> mm' = mm"
    "r = 0 \<Longrightarrow> slab_ok \<Longrightarrow> covers (vmas mm') = covers (vmas mm) - {addr..<addr + align_up len0 PAGE_SIZE}"
proof -
  let ?len = "align_up len0 PAGE_SIZE"
  consider (fail) "r = - 1" "mm' = mm" | (ok) "r = 0" "is_aligned addr PAGE_SIZE" "\<not> addr + ?len < addr" "?len \<noteq> 0"
      "vmas mm' = fst (unmap_vmas addr (addr + ?len) slab_ok [] (vmas mm))"
    using assms(1) by (auto simp: mm_unmap_def Let_def andthen_Inr split: if_splits prod.splits)
  then have "areas_ok (vmas mm') \<and> (r = 0 \<or> r = - 1 \<and> mm' = mm) \<and> (r = 0 \<longrightarrow> slab_ok \<longrightarrow>
      covers (vmas mm') = covers (vmas mm) - {addr..<addr + ?len})"
  proof cases
    case ok
    have "addr \<noteq> addr + ?len" using ok(4) by simp
    then have lt: "addr < addr + ?len" using ok(3) by order
    note al = ok(2) aligned_add[OF ok(2) align_up_aligned ok(3)] lt
    from unmap_vmas_remains[OF assms(2) _ lt, of "[]"]
    have "vmas mm' = concat (map (remains slab_ok addr (addr + ?len)) (vmas mm))" by (simp add: ok(5))
    with remains_all_ok[OF assms(2) al] ok(1) show ?thesis by simp
  qed (use assms(2) in simp)
  then show "areas_ok (vmas mm')" "r = 0 \<or> r = - 1 \<and> mm' = mm"
    "r = 0 \<Longrightarrow> slab_ok \<Longrightarrow> covers (vmas mm') = covers (vmas mm) - {addr..<addr + ?len}"
    by blast+
qed

text \<open>Only a range inside one area, away from both of its ends, needs the spare area.\<close>

definition splits_area :: "vma list \<Rightarrow> u64 \<Rightarrow> u64 \<Rightarrow> bool" where
  "splits_area vs addr end' \<longleftrightarrow> list_ex (\<lambda>v. vm_start v < addr \<and> end' < vm_end v) vs"

lemma remains_no_split: "\<not> splits_area vs addr end' \<Longrightarrow> map (remains spare addr end') vs = map (remains True addr end') vs"
  by (auto simp: splits_area_def remains_def list_ex_iff)

lemma remains_split_fails:
  assumes "areas_ok vs" "splits_area vs addr end'" "addr < end'"
  shows "concat (map (remains False addr end') vs) = vs"
proof -
  obtain v where v: "v \<in> set vs" "vm_start v < addr" "end' < vm_end v"
    using assms(2) by (auto simp: splits_area_def list_ex_iff)
  have "remains False addr end' u = [u]" if u: "u \<in> set vs" for u
  proof (cases "u = v")
    case True
    then show ?thesis using v assms(3) by (auto simp: remains_def)
  next
    case False
    then have "below u v \<or> below v u" using assms(1) u v(1) by (induction vs) (auto simp: areas_ok_Cons)
    then show ?thesis using v assms(3) by (auto simp: remains_def)
  qed
  then have "map (remains False addr end') vs = map (\<lambda>u. [u]) vs" by simp
  then show ?thesis by (simp only: concat_map_singleton list.map_ident)
qed

lemma mm_unmap_exact:
  assumes "mm_unmap spare mm addr len0 s = Inr (r, mm', s')" "areas_ok (vmas mm)" "end' = addr + align_up len0 PAGE_SIZE"
  shows "r = (if is_aligned addr PAGE_SIZE \<and> addr < end' then 0 else - 1)"
    "r = 0 \<Longrightarrow> spare \<or> \<not> splits_area (vmas mm) addr end' \<Longrightarrow> covers (vmas mm') = covers (vmas mm) - {addr..<end'}"
    "r = 0 \<Longrightarrow> \<not> spare \<Longrightarrow> splits_area (vmas mm) addr end' \<Longrightarrow> mm' = mm"
proof -
  have lt: "addr < end' \<longleftrightarrow> align_up len0 PAGE_SIZE \<noteq> 0 \<and> \<not> end' < addr" (is "_ \<longleftrightarrow> ?r")
  proof
    assume r: ?r
    then have "addr \<noteq> end'" using assms(3) by simp
    with r show "addr < end'" by (metis linorder_neqE)
  qed (use assms(3) in auto)
  show r: "r = (if is_aligned addr PAGE_SIZE \<and> addr < end' then 0 else - 1)"
    using assms(1) unfolding mm_unmap_def Let_def assms(3)[symmetric]
    by (auto simp: lt andthen_Inr split: if_splits prod.splits)
  have rem: "is_aligned addr PAGE_SIZE" "addr < end'" "is_aligned end' PAGE_SIZE"
      "mm' = mm\<lparr>vmas := concat (map (remains spare addr end') (vmas mm))\<rparr>" if "r = 0"
  proof -
    have a: "is_aligned addr PAGE_SIZE" "addr < end'" using r that by (simp_all split: if_splits)
    then show "is_aligned addr PAGE_SIZE" "addr < end'" by simp_all
    show "is_aligned end' PAGE_SIZE" using aligned_add[OF a(1) align_up_aligned] lt a(2) assms(3) by auto
    have "mm' = mm\<lparr>vmas := fst (unmap_vmas addr end' spare [] (vmas mm))\<rparr>"
      using assms(1) that unfolding mm_unmap_def Let_def assms(3)[symmetric]
      by (auto simp: andthen_Inr split: if_splits prod.splits)
    with unmap_vmas_remains[OF assms(2) _ a(2), of "[]"]
    show "mm' = mm\<lparr>vmas := concat (map (remains spare addr end') (vmas mm))\<rparr>" by simp
  qed
  show "covers (vmas mm') = covers (vmas mm) - {addr..<end'}" if "r = 0" "spare \<or> \<not> splits_area (vmas mm) addr end'"
  proof -
    note x = rem[OF that(1)]
    have "map (remains spare addr end') (vmas mm) = map (remains True addr end') (vmas mm)"
      using that(2) remains_no_split[of "vmas mm" addr end' spare] by (cases spare) simp_all
    then show ?thesis using remains_all_ok(2)[OF assms(2) x(1,3,2)] x(4) by (simp del: map_eq_conv)
  qed
  show "mm' = mm" if "r = 0" "\<not> spare" "splits_area (vmas mm) addr end'"
    using rem(2,4)[OF that(1)] that(2,3) remains_split_fails[OF assms(2)] by simp
qed

lemma areas_ok_upd_end:
  assumes "areas_ok vs" "h < length vs" "wf_vma ((vs ! h)\<lparr>vm_end := e\<rparr>)"
    "Suc h < length vs \<Longrightarrow> e \<le> vm_start (vs ! Suc h)"
  shows "areas_ok (vs[h := (vs ! h)\<lparr>vm_end := e\<rparr>])"
proof -
  let ?v = "vs ! h"
  have s: "vs = take h vs @ ?v # drop (Suc h) vs" by (rule id_take_nth_drop[OF assms(2)])
  then have ok: "areas_ok (take h vs @ ?v # drop (Suc h) vs)" using assms(1) by simp
  have "e \<le> vm_start w" if w: "w \<in> set (drop (Suc h) vs)" for w
  proof (cases "drop (Suc h) vs")
    case (Cons x xs)
    then have l: "Suc h < length vs" by (metis drop_eq_Nil list.distinct(1) not_le)
    then have x: "x = vs ! Suc h" using Cons Cons_nth_drop_Suc[OF l] by simp
    have "areas_ok (x # xs)" using ok Cons by (simp add: areas_ok_simps)
    then have "vm_start x \<le> vm_start w" using w Cons wf_vma_pos by (fastforce simp: areas_ok_Cons)
    with assms(4)[OF l] x show ?thesis by simp
  qed (use w in simp)
  with ok assms(3) have "areas_ok (take h vs @ ?v\<lparr>vm_end := e\<rparr> # drop (Suc h) vs)"
    by (simp add: areas_ok_simps)
  then show ?thesis using assms(2) by (simp add: upd_conv_take_nth_drop)
qed

lemma find_heap_Some: "find_heap vs = Some h \<Longrightarrow> h < length vs"
  using find_Some_iff[of "\<lambda>i. has_flag (vm_flags (vs ! i)) VMA_HEAP" "rev [0..<length vs]" h]
  by (auto simp: find_heap_def rev_nth)

lemma align_up_bound:
  assumes "x \<le> MMAP_TOP"
  shows "align_up x PAGE_SIZE \<le> MMAP_TOP"
proof -
  have x: "unat x \<le> 0x700000000000" using assms by (simp add: word_le_nat_alt)
  then have "unat (align_up x PAGE_SIZE) = (unat x + 4095) div 4096 * 4096"
    by (intro unat_align_up_page_no_wrap) simp
  with x show ?thesis by (simp add: word_le_nat_alt)
qed

lemma wf_page_in:
  assumes "wf_vma v"
  shows "vm_start v + PAGE_SIZE \<le> vm_end v" "vm_start v < vm_start v + PAGE_SIZE" "is_aligned (vm_start v + PAGE_SIZE) PAGE_SIZE"
proof -
  have v: "unat (vm_start v) < unat (vm_end v)" "unat (vm_end v) \<le> 0x7FFFFFFFF000" "4096 dvd unat (vm_start v)" "4096 dvd unat (vm_end v)"
    using assms by (simp_all add: wf_vma_def word_less_nat_alt word_le_nat_alt align_simps)
  then have u: "unat (vm_start v + PAGE_SIZE) = unat (vm_start v) + 4096" by (subst unat_add_no_wrap) simp_all
  from v have "unat (vm_start v) + 4096 \<le> unat (vm_end v)" by (auto elim!: dvdE)
  then show "vm_start v + PAGE_SIZE \<le> vm_end v" by (simp add: word_le_nat_alt u)
  show "vm_start v < vm_start v + PAGE_SIZE" by (simp add: word_less_nat_alt u)
  show "is_aligned (vm_start v + PAGE_SIZE) PAGE_SIZE" using v by (simp add: align_simps u)
qed

lemma heap_end_ok:
  assumes "areas_ok vs" "h < length vs" "b \<le> MMAP_TOP" "e = max (align_up b PAGE_SIZE) (vm_start (vs ! h) + PAGE_SIZE)"
    "e < vm_end (vs ! h) \<or> (Suc h < length vs \<longrightarrow> e \<le> vm_start (vs ! Suc h))"
  shows "areas_ok (vs[h := (vs ! h)\<lparr>vm_end := e\<rparr>])"
proof (rule areas_ok_upd_end[OF assms(1,2)])
  have v: "wf_vma (vs ! h)" using assms(1,2) by (simp add: areas_ok_def list_all_length)
  note p = wf_page_in[OF v]
  have "e \<le> USER_SPACE_END"
  proof -
    have "vm_start (vs ! h) + PAGE_SIZE \<le> USER_SPACE_END" using order_trans[OF p(1)] v by (simp add: wf_vma_def)
    moreover have "align_up b PAGE_SIZE \<le> USER_SPACE_END" using align_up_bound[OF assms(3)] by (rule order_trans) simp
    ultimately show ?thesis using assms(4) by simp
  qed
  moreover have "vm_start (vs ! h) < e" using p(2) assms(4) by (simp add: less_max_iff_disj)
  moreover have "is_aligned e PAGE_SIZE" using p(3) align_up_aligned[of b] assms(4) by (simp add: max_def)
  ultimately show "wf_vma ((vs ! h)\<lparr>vm_end := e\<rparr>)" using v by (simp add: wf_vma_def)
  show "e \<le> vm_start (vs ! Suc h)" if "Suc h < length vs"
  proof -
    have "vm_end (vs ! h) \<le> vm_start (vs ! Suc h)"
      using assms(1) that by (simp add: areas_ok_def sorted_wrt_iff_nth_less)
    with assms(5) that show ?thesis by auto
  qed
qed

lemma mm_sbrk_ok:
  assumes "mm_sbrk mm inc s = Inr (r, mm', s')" "areas_ok (vmas mm)"
  shows "areas_ok (vmas mm') \<and> (if r = None then mm' = mm \<and> s' = s else r = Some (brk mm) \<and> brk mm' = brk mm + inc)"
proof (cases "find_heap (vmas mm)")
  case None
  then show ?thesis using assms by (simp add: mm_sbrk_def Let_def)
next
  case (Some h)
  define bad where "bad \<longleftrightarrow> (sint inc > 0 \<and> brk mm + inc < brk mm) \<or> (sint inc < 0 \<and> brk mm + inc < brk_start mm)
    \<or> brk mm + inc > MMAP_TOP"
  define e where "e = max (align_up (brk mm + inc) PAGE_SIZE) (vm_start (vmas mm ! h) + PAGE_SIZE)"
  define grown where "grown = mm\<lparr>vmas := (vmas mm)[h := (vmas mm ! h)\<lparr>vm_end := e\<rparr>], brk := brk mm + inc\<rparr>"
  have eq: "mm_sbrk mm inc s =
     (if bad then Inr (None, mm, s)
      else if e > vm_end (vmas mm ! h) then
        (if Suc h < length (vmas mm) \<and> e > vm_start (vmas mm ! Suc h) then Inr (None, mm, s) else Inr (Some (brk mm), grown, s))
      else if e < vm_end (vmas mm ! h) then
        andthen (cut_pages (mm_pml4 mm) e (vm_end (vmas mm ! h)) s) (\<lambda>s. Inr (Some (brk mm), grown, s))
      else Inr (Some (brk mm), mm\<lparr>brk := brk mm + inc\<rparr>, s))"
    unfolding mm_sbrk_def Let_def Some option.case bad_def e_def grown_def ..
  have "areas_ok (vmas grown)" if "\<not> bad" "e < vm_end (vmas mm ! h) \<or> (Suc h < length (vmas mm) \<longrightarrow> e \<le> vm_start (vmas mm ! Suc h))"
    using heap_end_ok[OF assms(2) find_heap_Some[OF Some] _ e_def that(2)] that(1) by (simp add: bad_def grown_def not_less)
  moreover have "brk grown = brk mm + inc" by (simp add: grown_def)
  ultimately show ?thesis using assms unfolding eq
    by (auto simp: andthen_Inr not_less split: if_split_asm)
qed

lemma areas_ok_last:
  assumes "areas_ok d" "u \<in> set d"
  shows "vm_end u \<le> vm_end (last d)" "wf_vma (last d)"
proof -
  have d: "d = butlast d @ [last d]" using assms(2) by (cases d rule: rev_cases) simp_all
  then have ok: "areas_ok (butlast d @ [last d])" using assms(1) by simp
  then show "wf_vma (last d)" by (simp add: areas_ok_simps)
  have "u \<in> set (butlast d) \<or> u = last d" using assms(2) d by (metis Un_iff empty_iff empty_set list.set_intros(1) set_ConsD set_append)
  with ok show "vm_end u \<le> vm_end (last d)" using wf_vma_pos[of "last d"] by (auto simp: areas_ok_simps)
qed

lemma grow_stack_from_ok:
  assumes "grow_stack_from d vs addr = Some (v, vs')" "areas_ok (d @ vs)"
  shows "areas_ok vs' \<and> v \<in> set vs' \<and> vm_start v \<le> addr \<and> addr < vm_end v \<and> USER_STACK_TOP - USER_STACK_MAX \<le> addr"
  using assms
proof (induction d vs addr rule: grow_stack_from.induct)
  case (2 d w ws addr)
  show ?case
  proof (cases "has_flag (vm_flags w) VMA_STACK \<and> addr < vm_start w")
    case False
    then show ?thesis using 2 by (simp split: if_splits)
  next
    case True
    let ?n = "align_down addr PAGE_SIZE"
    have c: "\<not> addr < USER_STACK_TOP - USER_STACK_MAX" "d = [] \<or> \<not> vm_end (last d) + PAGE_SIZE > ?n"
      "v = w\<lparr>vm_start := ?n\<rparr>" "vs' = d @ v # ws"
      using 2(2) True by (auto simp: Let_def not_le split: if_splits)
    have w: "wf_vma w" "areas_ok d" "areas_ok ws" "\<forall>u\<in>set d. below u w \<and> (\<forall>v\<in>set ws. below u v)" "\<forall>v\<in>set ws. below w v"
      using 2(3) by (simp_all add: areas_ok_simps)
    have n: "?n \<le> addr" "is_aligned ?n PAGE_SIZE" by (rule align_down_le, rule align_down_aligned)
    have "USER_SPACE_START \<le> ?n" using c(1) by (simp add: word_less_nat_alt word_le_nat_alt align_simps not_less)
    then have "wf_vma v" using w(1) n True by (auto simp: wf_vma_def c(3))
    moreover have "below u v" if "u \<in> set d" for u
    proof -
      note l = areas_ok_last[OF w(2) that]
      have "unat (vm_end (last d)) \<le> 0x7FFFFFFFF000" using l(2) by (simp add: wf_vma_def word_le_nat_alt)
      then have "unat (vm_end (last d) + PAGE_SIZE) = unat (vm_end (last d)) + 4096" by (subst unat_add_no_wrap) simp_all
      moreover have "vm_end (last d) + PAGE_SIZE \<le> ?n" using c(2) that by auto
      ultimately have "vm_end (last d) \<le> ?n" by (simp add: word_le_nat_alt)
      with l(1) show ?thesis by (simp add: c(3))
    qed
    ultimately show ?thesis using w n True c(1) by (auto simp: areas_ok_simps c(3,4) wf_vma_def)
  qed
qed simp

section \<open>The search for a free place\<close>

text \<open>A place for \<open>len\<close> bytes below \<^verbatim>\<open>MMAP_TOP\<close> with a page between it and every area.\<close>

definition place :: "vma list \<Rightarrow> u64 \<Rightarrow> u64 \<Rightarrow> bool" where
  "place vs len c \<longleftrightarrow> c \<le> MMAP_TOP - len \<and>
     (\<forall>v\<in>set vs. c + len + PAGE_SIZE \<le> vm_start v \<or> vm_end v + PAGE_SIZE \<le> c)"

definition in_range :: "u64 \<Rightarrow> u64 \<Rightarrow> bool" where
  "in_range len c \<longleftrightarrow> len \<le> MMAP_TOP \<and> c \<le> MMAP_TOP - len \<and> is_aligned len PAGE_SIZE \<and> is_aligned c PAGE_SIZE"

lemma in_range_nat:
  assumes "len \<le> MMAP_TOP" "c \<le> MMAP_TOP - len"
  shows "unat len \<le> 0x700000000000" "unat c + unat len \<le> 0x700000000000"
    "unat (c + len + PAGE_SIZE) = unat c + unat len + 4096"
    "unat (len + 2 * PAGE_SIZE + USER_SPACE_START) = unat len + 2 * 4096 + 0x400000"
proof -
  show l: "unat len \<le> 0x700000000000" using assms(1) by (simp add: word_le_nat_alt)
  have "unat (MMAP_TOP - len) = 0x700000000000 - unat len" using assms(1) by (subst unat_sub) simp_all
  then show c: "unat c + unat len \<le> 0x700000000000" using assms(2) l by (simp add: word_le_nat_alt)
  have "unat (c + len) = unat c + unat len" using c by (intro unat_add_no_wrap) simp
  then show "unat (c + len + PAGE_SIZE) = unat c + unat len + 4096" using c by (subst unat_add_no_wrap) simp_all
  have "unat (len + 0x2000) = unat len + 0x2000" using l by (subst unat_add_no_wrap) simp_all
  then show "unat (len + 2 * PAGE_SIZE + USER_SPACE_START) = unat len + 2 * 4096 + 0x400000"
    using l by (subst unat_add_no_wrap) simp_all
qed

lemma vm_end_guard: "wf_vma v \<Longrightarrow> unat (vm_end v + PAGE_SIZE) = unat (vm_end v) + 4096"
  by (subst unat_add_no_wrap) (simp_all add: wf_vma_def word_le_nat_alt)

lemma too_close_nat:
  assumes "wf_vma v" "len \<le> MMAP_TOP" "c \<le> MMAP_TOP - len"
  shows "too_close c len v \<longleftrightarrow> unat c < unat (vm_end v) + 4096 \<and> unat (vm_start v) < unat c + unat len + 4096"
  by (simp only: too_close_def word_less_nat_alt vm_end_guard[OF assms(1)] in_range_nat[OF assms(2,3)])

lemma place_nat:
  assumes "place vs len c" "len \<le> MMAP_TOP" "v \<in> set vs" "wf_vma v"
  shows "unat c + unat len + 4096 \<le> unat (vm_start v) \<or> unat (vm_end v) + 4096 \<le> unat c"
  using assms vm_end_guard[OF assms(4)] in_range_nat[OF assms(2), of c]
  by (auto simp: place_def word_le_nat_alt)

lemma next_candidate:
  assumes "wf_vma v" "in_range len c" "too_close c len v" "\<not> vm_start v < len + 2 * PAGE_SIZE + USER_SPACE_START"
  shows "in_range len (vm_start v - len - PAGE_SIZE)"
    "unat (vm_start v - len - PAGE_SIZE) + unat len + 4096 = unat (vm_start v)"
proof -
  have r: "len \<le> MMAP_TOP" "c \<le> MMAP_TOP - len" "4096 dvd unat len" "4096 dvd unat (vm_start v)"
    using assms(1,2) by (simp_all add: in_range_def wf_vma_def align_simps)
  note n = in_range_nat[OF r(1,2)]
  have s: "unat len + 0x402000 \<le> unat (vm_start v)"
    using assms(4) n(4) by (simp only: not_less word_le_nat_alt)
  have "unat (vm_start v - len) = unat (vm_start v) - unat len" using s by (subst unat_sub) (simp_all add: word_le_nat_alt)
  then have u: "unat (vm_start v - len - PAGE_SIZE) = unat (vm_start v) - unat len - 4096"
    using s by (subst unat_sub) (simp_all add: word_le_nat_alt)
  then show "unat (vm_start v - len - PAGE_SIZE) + unat len + 4096 = unat (vm_start v)" using s by simp
  have "unat (vm_start v) < unat c + unat len + 4096" using assms(3) too_close_nat[OF assms(1) r(1,2)] by simp
  then have "vm_start v - len - PAGE_SIZE \<le> c" using u s by (simp add: word_le_nat_alt)
  moreover have "4096 dvd unat (vm_start v - len - PAGE_SIZE)" using r(3,4) u by (simp add: dvd_diff_nat)
  ultimately show "in_range len (vm_start v - len - PAGE_SIZE)"
    using assms(2) by (auto simp: in_range_def align_simps)
qed

lemma area_pass_ok:
  assumes "list_all wf_vma vs" "set vs \<subseteq> set us" "list_all wf_vma us" "in_range len c"
  shows "case area_pass vs len moved c of
      None \<Rightarrow> \<forall>x. place us len x \<and> x \<le> c \<longrightarrow> x < USER_SPACE_START + PAGE_SIZE
    | Some (moved', c') \<Rightarrow> in_range len c' \<and> c' \<le> c \<and> (\<forall>x. place us len x \<and> x \<le> c \<longrightarrow> x \<le> c')
        \<and> (\<not> moved' \<longrightarrow> c' = c \<and> (\<forall>v\<in>set vs. \<not> too_close c len v))"
  using assms(1,2,4)
proof (induction vs arbitrary: moved c)
  case (Cons v vs)
  have v: "wf_vma v" "v \<in> set us" using Cons.prems by auto
  have r: "len \<le> MMAP_TOP" "c \<le> MMAP_TOP - len" using Cons.prems(3) by (simp_all add: in_range_def)
  show ?case
  proof (cases "too_close c len v")
    case True
    note tc = True[unfolded too_close_nat[OF v(1) r]]
    have below: "unat x + unat len + 4096 \<le> unat (vm_start v)" if "place us len x" "x \<le> c" for x
      using place_nat[OF that(1) r(1) v(2,1)] tc that(2) by (auto simp: word_le_nat_alt)
    show ?thesis
    proof (cases "vm_start v < len + 2 * PAGE_SIZE + USER_SPACE_START")
      case True
      have "x < USER_SPACE_START + PAGE_SIZE" if "place us len x" "x \<le> c" for x
        using below[OF that] True in_range_nat(4)[OF r] by (simp add: word_less_nat_alt)
      then show ?thesis using \<open>too_close c len v\<close> True by simp
    next
      case False
      let ?c = "vm_start v - len - PAGE_SIZE"
      note nc = next_candidate[OF v(1) Cons.prems(3) \<open>too_close c len v\<close> False]
      have le: "x \<le> ?c" if "place us len x" "x \<le> c" for x
        using below[OF that] nc(2) by (simp add: word_le_nat_alt)
      have "?c \<le> c" using nc(2) tc by (simp add: word_le_nat_alt)
      then show ?thesis
        using Cons.IH[OF _ _ nc(1), of True] Cons.prems(1,2) le True False area_pass_moves[of vs len True ?c]
        by (fastforce split: option.splits)
    qed
  next
    case False
    then show ?thesis using Cons.IH[of c moved] Cons.prems by (auto split: option.splits)
  qed
qed simp

lemma find_area_loop_ok:
  assumes "list_all wf_vma vs" "in_range len c" "\<forall>x. place vs len x \<longrightarrow> x \<le> c" "r = find_area_loop vs len c"
  shows "if r = 0 then \<forall>x. place vs len x \<longrightarrow> x < USER_SPACE_START + PAGE_SIZE
    else place vs len r \<and> in_range len r \<and> USER_SPACE_START \<le> r \<and> (\<forall>x. place vs len x \<longrightarrow> x \<le> r)"
  using assms
proof (induction vs len c rule: find_area_loop.induct)
  case (1 vs len c)
  note pass = area_pass_ok[OF 1(2) subset_refl 1(2,3), of False]
  show ?case
  proof (cases "area_pass vs len False c")
    case None
    then show ?thesis using pass 1(4,5) by (simp add: find_area_loop.simps)
  next
    case (Some mc)
    then obtain moved c' where mc: "area_pass vs len False c = Some (moved, c')" by (cases mc) simp
    have p: "in_range len c'" "\<forall>x. place vs len x \<longrightarrow> x \<le> c'" "\<not> moved \<Longrightarrow> c' = c \<and> (\<forall>v\<in>set vs. \<not> too_close c len v)"
      using pass 1(4) by (simp_all add: mc)
    show ?thesis
    proof (cases moved)
      case True
      then have "r = find_area_loop vs len c'" using 1(5) by (simp add: find_area_loop.simps[of vs len c] mc)
      with 1(1)[OF mc refl True 1(2) p(1,2)] show ?thesis .
    next
      case False
      have r: "len \<le> MMAP_TOP" "c \<le> MMAP_TOP - len" using 1(3) by (simp_all add: in_range_def)
      have eq: "r = (if c \<ge> USER_SPACE_START then c else 0)" using 1(5) False p(3) by (simp add: find_area_loop.simps[of vs len c] mc)
      have "place vs len c" unfolding place_def
      proof (intro conjI ballI)
        fix v assume v: "v \<in> set vs"
        then have "wf_vma v" using 1(2) by (simp add: list_all_iff)
        moreover have "\<not> too_close c len v" using p(3) False v by simp
        ultimately show "c + len + PAGE_SIZE \<le> vm_start v \<or> vm_end v + PAGE_SIZE \<le> c"
          by (auto simp: too_close_def)
      qed (rule r(2))
      moreover have "x < USER_SPACE_START + PAGE_SIZE" if "\<not> USER_SPACE_START \<le> c" "place vs len x" for x
        using that 1(4) by (fastforce simp: word_le_nat_alt word_less_nat_alt)
      ultimately show ?thesis using 1(3,4) eq by (auto split: if_splits)
    qed
  qed
qed

lemma place_mappable:
  assumes "areas_ok (vmas mm)" "place (vmas mm) len c" "in_range len c" "USER_SPACE_START \<le> c"
  shows "\<not> c + len < c" "\<not> c + len > USER_SPACE_END" "range_free mm c (c + len)"
proof -
  have r: "len \<le> MMAP_TOP" "c \<le> MMAP_TOP - len" using assms(3) by (simp_all add: in_range_def)
  note n = in_range_nat[OF r]
  have u: "unat (c + len) = unat c + unat len" using n(2) by (intro unat_add_no_wrap) simp
  show "\<not> c + len < c" "\<not> c + len > USER_SPACE_END" using u n(2) by (simp_all add: word_less_nat_alt)
  have "\<not> (c < vm_end v \<and> c + len > vm_start v)" if "v \<in> set (vmas mm)" for v
  proof -
    have "wf_vma v" using assms(1) that by (simp add: areas_ok_def list_all_iff)
    from place_nat[OF assms(2) r(1) that this] show ?thesis by (auto simp: word_less_nat_alt u)
  qed
  then show "range_free mm c (c + len)" by (auto simp: range_free_def list_all_iff)
qed

section \<open>Reachable address spaces\<close>

inductive mm_reach :: "mm \<Rightarrow> bool" where
  create: "mm_create slab_ok (s :: vmm) = (Some mm, s') \<Longrightarrow> mm_reach mm"
| map: "mm_reach mm \<Longrightarrow> mm_map slab_ok mm addr len prot fl = (r, mm') \<Longrightarrow> mm_reach mm'"
| unmap: "mm_reach mm \<Longrightarrow> mm_unmap slab_ok mm addr len (s :: vmm) = Inr (q, mm', s') \<Longrightarrow> mm_reach mm'"
| sbrk: "mm_reach mm \<Longrightarrow> mm_sbrk mm inc (s :: vmm) = Inr (b, mm', s') \<Longrightarrow> mm_reach mm'"
| fault: "mm_reach mm \<Longrightarrow> mm_handle_fault (Some mm) addr err (s :: vmm) = Inr (ok, Some mm', s') \<Longrightarrow> mm_reach mm'"
| prefault: "mm_reach mm \<Longrightarrow> mm_prefault (Some mm) addr len write (s :: vmm) = Inr (ok, Some mm', s') \<Longrightarrow> mm_reach mm'"
| fork: "mm_reach mm \<Longrightarrow> mm_fork slabs mm (s :: vmm) = Inr (Some mm', s') \<Longrightarrow> mm_reach mm'"

lemma area_for_ok:
  assumes "area_for mm addr = Some (v, mm')" "areas_ok (vmas mm)"
  shows "areas_ok (vmas mm') \<and> v \<in> set (vmas mm') \<and> addr \<in> area v \<and> mm_pml4 mm' = mm_pml4 mm"
proof (cases "find_vma mm addr")
  case None
  then obtain vs where "grow_stack_from [] (vmas mm) addr = Some (v, vs)" "mm' = mm\<lparr>vmas := vs\<rparr>"
    using assms(1) by (auto simp: area_for_def grow_stack_def)
  with grow_stack_from_ok[of "[]" "vmas mm" addr v vs] assms(2) show ?thesis by (simp add: area_def)
next
  case (Some w)
  then have "v = w" "mm' = mm" using assms(1) by (simp_all add: area_for_def)
  moreover have "w \<in> set (vmas mm) \<and> addr \<in> area w"
    using Some by (auto simp: find_vma_def find_Some_iff area_def)
  ultimately show ?thesis using assms(2) by simp
qed

lemma mm_handle_fault_ok:
  assumes "mm_handle_fault (Some mm) addr err s = Inr (ok, Some mm', s')" "areas_ok (vmas mm)"
  shows "areas_ok (vmas mm')"
proof -
  have "mm' = mm \<or> (\<exists>v. area_for mm addr = Some (v, mm'))"
    using assms(1) by (auto simp: mm_handle_fault_def Let_def andthen_Inr split: if_splits option.splits)
  then show ?thesis using area_for_ok assms(2) by blast
qed

lemma prefault_from_ok:
  "prefault_from ps write mm s = Inr (ok, mm', s') \<Longrightarrow> areas_ok (vmas mm) \<Longrightarrow> areas_ok (vmas mm')"
proof (induction ps arbitrary: mm s)
  case (Cons p ps)
  show ?case
  proof (cases "area_for mm p")
    case None
    then show ?thesis using Cons.prems by simp
  next
    case (Some a)
    obtain v m where a: "a = (v, m)" by (cases a)
    have "areas_ok (vmas m)" using area_for_ok Some a Cons.prems(2) by blast
    moreover have "mm' = m \<or> (\<exists>s1. prefault_from ps write m s1 = Inr (ok, mm', s'))"
      using Cons.prems(1) Some a by (auto simp: andthen_Inr split: if_splits)
    ultimately show ?thesis using Cons.IH by blast
  qed
qed simp

lemma mm_prefault_ok:
  assumes "mm_prefault (Some mm) addr len write s = Inr (ok, Some mm', s')" "areas_ok (vmas mm)"
  shows "areas_ok (vmas mm')"
  using assms prefault_from_ok
  by (fastforce simp: mm_prefault_def Let_def andthen_Inr split: if_splits)

lemma mm_fork_areas:
  assumes "mm_fork slabs mm s = Inr (Some child, s')"
  shows "vmas child = vmas mm \<and> brk child = brk mm \<and> brk_start child = brk_start mm"
proof -
  have prefix: "length (takeWhile P xs) = length xs \<Longrightarrow> takeWhile P xs = xs" for P and xs :: "(vma \<times> nat) list"
    by (metis append_eq_conv_conj append_self_conv takeWhile_dropWhile_id take_all_iff order_refl)
  define t where "t = takeWhile (\<lambda>(v, n). slabs n) (zip (vmas mm) [1..<length (vmas mm) + 1])"
  have t: "length t = length (vmas mm) \<Longrightarrow> map fst t = vmas mm"
  proof -
    assume "length t = length (vmas mm)"
    then have "t = zip (vmas mm) [1..<length (vmas mm) + 1]" unfolding t_def by (intro prefix) (simp del: upt_Suc)
    then show ?thesis by (simp del: upt_Suc)
  qed
  show ?thesis using assms unfolding mm_fork_def t_def[symmetric]
    by (auto simp: Let_def andthen_Inr t split: prod.splits option.splits if_splits)
qed

lemma find_vma_area:
  assumes "areas_ok (vmas mm)"
  shows "find_vma mm addr = Some v \<longleftrightarrow> v \<in> set (vmas mm) \<and> addr \<in> area v"
proof
  assume "find_vma mm addr = Some v"
  then show "v \<in> set (vmas mm) \<and> addr \<in> area v" by (auto simp: find_vma_def find_Some_iff area_def)
next
  assume v: "v \<in> set (vmas mm) \<and> addr \<in> area v"
  have "find (\<lambda>v. addr \<ge> vm_start v \<and> addr < vm_end v) vs = Some v" if "areas_ok vs" "v \<in> set vs" for vs
    using that
  proof (induction vs)
    case (Cons w ws)
    show ?case
    proof (cases "addr \<in> area w")
      case True
      then have "w = v" using Cons.prems v by (fastforce simp: areas_ok_Cons area_def)
      then show ?thesis using v by (simp add: area_def)
    next
      case False
      then show ?thesis using Cons v by (auto simp: areas_ok_Cons area_def)
    qed
  qed simp
  from this[OF assms] v show "find_vma mm addr = Some v" by (simp add: find_vma_def)
qed

text \<open>
  C17. The areas of a process. Whatever sequence of creation, mapping, unmapping, break changes, page
  faults, copies between kernel and user and forks led to an address space, and whatever of it ran out
  of memory, its areas are page aligned, not empty, inside user space, sorted and disjoint; so an
  address is found in exactly the one area that contains it, if any.
\<close>

theorem mm_areas_invariant:
  assumes "mm_reach mm"
  shows "areas_ok (vmas mm) \<and> (find_vma mm addr = Some v \<longleftrightarrow> v \<in> set (vmas mm) \<and> addr \<in> area v)"
proof -
  have "areas_ok (vmas mm)" using assms
  proof (induction rule: mm_reach.induct)
    case (create slab_ok s mm s')
    then show ?case by (auto simp: mm_create_def split: if_splits prod.splits)
  next
    case (fork mm slabs s mm' s')
    then show ?case using mm_fork_areas by metis
  next
    case (map mm slab_ok addr len prot fl r mm')
    then show ?case using mm_map_ok(1) by blast
  next
    case (unmap mm slab_ok addr len s q mm' s')
    then show ?case using mm_unmap_ok(1) by blast
  next
    case (sbrk mm inc s b mm' s')
    then show ?case using mm_sbrk_ok by blast
  next
    case (fault mm addr err s ok mm' s')
    then show ?case using mm_handle_fault_ok by blast
  next
    case (prefault mm addr len w s ok mm' s')
    then show ?case using mm_prefault_ok by blast
  qed
  then show ?thesis using find_vma_area by blast
qed

text \<open>
  C36. Mapping and unmapping change exactly the addresses asked for, or nothing. A mapping that succeeds
  adds its page-rounded range, which no area contained, at the requested address if one was given; one
  that fails changes nothing. Unmapping afterwards refuses exactly the ranges that are empty, wrap
  around or start inside a page. Otherwise it returns 0 and removes exactly the page-rounded range from
  the areas, cutting, shortening or splitting them as needed; except that a range away from both ends
  of an area needs a second area, allocated beforehand (\<open>spare\<close>): when that allocation failed, the
  areas stay as they were although 0 is returned.
\<close>

theorem mm_map_unmap_exact:
  assumes "areas_ok (vmas mm)" "mm_map slab_ok mm addr0 len0 prot fl = (r, mm1)"
    "mm_unmap spare mm1 addr len s = Inr (q, mm2, s')" "end' = addr + align_up len PAGE_SIZE"
  shows "(if r = 0 then mm1 = mm
      else covers (vmas mm1) = covers (vmas mm) \<union> {r..<r + align_up len0 PAGE_SIZE}
        \<and> covers (vmas mm) \<inter> {r..<r + align_up len0 PAGE_SIZE} = {} \<and> r < r + align_up len0 PAGE_SIZE
        \<and> is_aligned r PAGE_SIZE \<and> (addr0 \<noteq> 0 \<longrightarrow> r = addr0))
    \<and> (if is_aligned addr PAGE_SIZE \<and> addr < end'
       then q = 0 \<and> (if spare \<or> \<not> splits_area (vmas mm1) addr end'
         then covers (vmas mm2) = covers (vmas mm1) - {addr..<end'} else mm2 = mm1)
       else q = - 1 \<and> mm2 = mm1)"
proof -
  note m = mm_map_ok[OF assms(2,1) refl]
  note u = mm_unmap_exact[OF assms(3) m(1) assms(4)]
  have "q = - 1 \<Longrightarrow> mm2 = mm1" using mm_unmap_ok(2)[OF assms(3) m(1)] by auto
  then show ?thesis using m u by (cases "r = 0"; cases "is_aligned addr PAGE_SIZE \<and> addr < end'"; cases spare) simp_all
qed

text \<open>
  C37. The place for a mapping without an address. \<^verbatim>\<open>find_free_area\<close> always returns, and
  \<^verbatim>\<open>mm_map\<close> then puts the new area at the highest address below \<^verbatim>\<open>MMAP_TOP\<close> that leaves a page
  free on both sides; it fails only when no such address above the first page of user space exists.
\<close>

theorem mm_map_highest_place:
  assumes "areas_ok (vmas mm)" "len = align_up len0 PAGE_SIZE" "0 < len" "len \<le> MMAP_TOP"
    "mm_map True mm 0 len0 prot fl = (r, mm')"
  shows "if r = 0 then mm' = mm \<and> (\<forall>x. place (vmas mm) len x \<longrightarrow> x < USER_SPACE_START + PAGE_SIZE)
    else place (vmas mm) len r \<and> USER_SPACE_START \<le> r \<and> (\<forall>x. place (vmas mm) len x \<longrightarrow> x \<le> r)"
proof -
  have len: "is_aligned len PAGE_SIZE" by (simp only: assms(2) align_up_aligned)
  have "unat (MMAP_TOP - len) = 0x700000000000 - unat len" using assms(4) by (subst unat_sub) simp_all
  then have "in_range len (MMAP_TOP - len)" using len assms(4) by (simp add: in_range_def align_simps dvd_diff_nat)
  moreover have "list_all wf_vma (vmas mm)" using assms(1) by (simp add: areas_ok_def)
  ultimately have loop: "if find_free_area mm len = 0 then \<forall>x. place (vmas mm) len x \<longrightarrow> x < USER_SPACE_START + PAGE_SIZE
    else place (vmas mm) len (find_free_area mm len) \<and> in_range len (find_free_area mm len)
      \<and> USER_SPACE_START \<le> find_free_area mm len \<and> (\<forall>x. place (vmas mm) len x \<longrightarrow> x \<le> find_free_area mm len)"
    using find_area_loop_ok[of "vmas mm" len "MMAP_TOP - len" "find_free_area mm len"]
    by (simp add: find_free_area_def place_def)
  have nz: "len \<noteq> 0" using assms(3) by auto
  show ?thesis
  proof (cases "find_free_area mm len = 0")
    case True
    then have "r = 0 \<and> mm' = mm" using assms(5) nz by (simp add: mm_map_def Let_def assms(2)[symmetric])
    then show ?thesis using loop True by simp
  next
    case False
    let ?a = "find_free_area mm len"
    have a: "place (vmas mm) len ?a" "in_range len ?a" "USER_SPACE_START \<le> ?a" using loop False by simp_all
    have "\<not> ?a < USER_SPACE_START" "is_aligned ?a PAGE_SIZE" using a(2,3) by (simp_all add: in_range_def)
    then have "r = ?a" using assms(5) nz False place_mappable[OF assms(1) a]
      unfolding mm_map_def Let_def assms(2)[symmetric] by (simp del: not_less)
    then show ?thesis using loop False by simp
  qed
qed

end
