(* ===== verification/Vmm_Proofs.thy ===== *)
theory Vmm_Proofs
  imports Vmm "HOL-Library.Sublist"
begin

text \<open>
  Page tables as trees. A table is named by the path of indices that leads to it from the root; as long as
  distinct paths lead to distinct frames that are not free, writing one entry changes one entry of the
  tree, whatever the table walk allocates on its way, and so mapping and unmapping a page change the
  translation of exactly that page.
\<close>

section \<open>Words in memory\<close>

abbreviation word_aligned :: "u64 \<Rightarrow> bool" where "word_aligned x \<equiv> 8 dvd unat x"

lemma word_aligned_diff:
  assumes "word_aligned x" "word_aligned y"
  shows "word_aligned (x - y)"
proof -
  have "(8::nat) dvd 2 ^ 64" by simp
  then have "8 dvd unat x + 2 ^ 64 - unat y" using assms by (intro dvd_diff_nat dvd_add)
  then show ?thesis using assms by (auto simp: unat_sub_if_size word_size intro: dvd_diff_nat)
qed

lemma load_store_u64:
  assumes "word_aligned x" "word_aligned y"
  shows "load_u64 x (store_u64 y v m) = (if x = y then v else load_u64 x m)"
proof (cases "x = y")
  case True
  then show ?thesis using load_store_bytes[of "le64 v" 0 8 y m] by (simp add: load_u64_def store_u64_def)
next
  case False
  have d: "8 dvd unat (x - y)" by (rule word_aligned_diff[OF assms])
  have "unat (x - y) \<noteq> 0" using False by (simp add: unsigned_eq_0_iff)
  have "store_bytes y (le64 v) m (x + of_nat i) = m (x + of_nat i)" if "i < 8" for i
  proof -
    have le: "unat (x - y) \<le> 2 ^ 64 - 8" using d unat_lt_64[of "x - y"] by (auto elim!: dvdE)
    have "unat (x + of_nat i - y) = unat (x - y + of_nat i)" by (simp add: algebra_simps)
    also have "\<dots> = unat (x - y) + i"
      using le that by (subst unat_add_no_wrap) (simp_all add: unat_of_nat)
    finally have "\<not> unat (x + of_nat i - y) < 8" using d \<open>unat (x - y) \<noteq> 0\<close> by (auto elim!: dvdE)
    then show ?thesis by (simp add: store_bytes_at)
  qed
  then have "load_bytes x 8 (store_bytes y (le64 v) m) = load_bytes x 8 m"
    unfolding load_bytes_def by (intro map_cong) auto
  with False show ?thesis by (simp add: load_u64_def store_u64_def)
qed

section \<open>Frames and entries\<close>

lemma frame_addr:
  assumes "f < PFN_LIMIT" "k < 4096"
  shows "unat (page_to_virt f + of_nat k) = 0xFFFF800000000000 + f * 4096 + k"
proof -
  have "unat (page_to_phys f) = f * 4096" using assms by (intro page_addr) simp
  then have "unat (page_to_virt f) = 0xFFFF800000000000 + f * 4096"
    unfolding page_to_virt_def phys_to_virt_def using assms by (subst unat_add_no_wrap) simp_all
  then show ?thesis using assms by (subst unat_add_no_wrap) (simp_all add: unat_of_nat)
qed

lemma frame_addr_eq:
  assumes "f < PFN_LIMIT" "k < 4096" "g < PFN_LIMIT" "l < 4096"
  shows "page_to_virt f + of_nat k = page_to_virt g + of_nat l \<longleftrightarrow> f = g \<and> k = l"
proof
  assume "page_to_virt f + of_nat k = page_to_virt g + of_nat l"
  then have "f * 4096 + k = g * 4096 + l"
    using frame_addr[OF assms(1,2)] frame_addr[OF assms(3,4)] by simp
  then have "(f * 4096 + k) div 4096 = (g * 4096 + l) div 4096" "(f * 4096 + k) mod 4096 = (g * 4096 + l) mod 4096"
    by simp_all
  with assms show "f = g \<and> k = l" by simp
qed simp

definition ent_at :: "nat \<Rightarrow> nat \<Rightarrow> u64" where
  "ent_at f i = page_to_virt f + of_nat (8 * i)"

definition ent :: "memory \<Rightarrow> nat \<Rightarrow> nat \<Rightarrow> u64" where
  "ent m f i = load_u64 (ent_at f i) m"

lemma ent_at_eq:
  assumes "f < PFN_LIMIT" "i < 512" "g < PFN_LIMIT" "j < 512"
  shows "ent_at f i = ent_at g j \<longleftrightarrow> f = g \<and> i = j"
  unfolding ent_at_def using assms by (subst frame_addr_eq) auto

lemma ent_at_aligned: "f < PFN_LIMIT \<Longrightarrow> i < 512 \<Longrightarrow> word_aligned (ent_at f i)"
  unfolding ent_at_def by (subst frame_addr) auto

lemma ent_store:
  assumes "f < PFN_LIMIT" "i < 512" "g < PFN_LIMIT" "j < 512"
  shows "ent (store_u64 (ent_at f i) v m) g j = (if f = g \<and> i = j then v else ent m g j)"
  using assms by (simp add: ent_def load_store_u64 ent_at_aligned ent_at_eq eq_commute conj_commute)

lemma memset_frame:
  assumes "f < PFN_LIMIT" "g < PFN_LIMIT" "k < 4096"
  shows "memset (page_to_virt f) 0 4096 m (page_to_virt g + of_nat k) = (if f = g then 0 else m (page_to_virt g + of_nat k))"
proof -
  have u: "unat (page_to_virt f) = 0xFFFF800000000000 + f * 4096" using frame_addr[OF assms(1), of 0] by simp
  then have "fits (page_to_virt f) 4096" using assms by (simp add: fits_def)
  moreover have "in_block (page_to_virt g + of_nat k) (page_to_virt f) 4096 \<longleftrightarrow> f = g"
    using assms(3) by (auto simp: in_block_def u frame_addr[OF assms(2,3)])
  ultimately show ?thesis by (simp add: memset_apply)
qed

lemma store_frame:
  assumes "f < PFN_LIMIT" "i < 512" "g < PFN_LIMIT" "k < 4096" "f \<noteq> g"
  shows "store_u64 (ent_at f i) v m (page_to_virt g + of_nat k) = m (page_to_virt g + of_nat k)"
proof -
  have "page_to_virt g + of_nat k \<noteq> ent_at f i + of_nat j" if "j < 8" for j
  proof -
    have "ent_at f i + of_nat j = page_to_virt f + of_nat (8 * i + j)" by (simp add: ent_at_def)
    then show ?thesis using frame_addr_eq[OF assms(3,4,1), of "8 * i + j"] that assms(2,5) by auto
  qed
  from this[of "unat (page_to_virt g + of_nat k - ent_at f i)"]
  have "\<not> unat (page_to_virt g + of_nat k - ent_at f i) < 8" by auto
  then show ?thesis by (simp add: store_u64_def store_bytes_at)
qed

text \<open>Two memories agree on a frame.\<close>

definition same_frame :: "nat \<Rightarrow> memory \<Rightarrow> memory \<Rightarrow> bool" where
  "same_frame f m m' \<longleftrightarrow> (\<forall>k<4096. m' (page_to_virt f + of_nat k) = m (page_to_virt f + of_nat k))"

lemma same_frame_refl [simp]: "same_frame f m m"
  by (simp add: same_frame_def)

lemma same_frame_trans: "same_frame f m m' \<Longrightarrow> same_frame f m' m'' \<Longrightarrow> same_frame f m m''"
  by (simp add: same_frame_def)

lemma same_frame_ent: "same_frame f m m' \<Longrightarrow> i < 512 \<Longrightarrow> ent m' f i = ent m f i"
proof -
  assume s: "same_frame f m m'" "i < 512"
  have "m' (ent_at f i + of_nat j) = m (ent_at f i + of_nat j)" if "j < 8" for j
  proof -
    have "ent_at f i + of_nat j = page_to_virt f + of_nat (8 * i + j)" by (simp add: ent_at_def)
    then show ?thesis using s that by (simp only: same_frame_def)
  qed
  then have "load_bytes (ent_at f i) 8 m' = load_bytes (ent_at f i) 8 m"
    unfolding load_bytes_def by (intro map_cong) auto
  then show ?thesis by (simp add: ent_def load_u64_def)
qed

lemma memset_same_frame: "f < PFN_LIMIT \<Longrightarrow> g < PFN_LIMIT \<Longrightarrow> f \<noteq> g \<Longrightarrow> same_frame g m (memset (page_to_virt f) 0 4096 m)"
  by (simp add: same_frame_def memset_frame)

lemma store_same_frame: "f < PFN_LIMIT \<Longrightarrow> i < 512 \<Longrightarrow> g < PFN_LIMIT \<Longrightarrow> f \<noteq> g \<Longrightarrow> same_frame g m (store_u64 (ent_at f i) v m)"
  by (simp add: same_frame_def store_frame)

lemma ent_memset:
  assumes "f < PFN_LIMIT" "i < 512"
  shows "ent (memset (page_to_virt f) 0 4096 m) f i = 0"
proof -
  have "memset (page_to_virt f) 0 4096 m (ent_at f i + of_nat j) = 0" if "j < 8" for j
  proof -
    have "ent_at f i + of_nat j = page_to_virt f + of_nat (8 * i + j)" by (simp add: ent_at_def)
    then show ?thesis using memset_frame[OF assms(1,1), of "8 * i + j"] that assms(2) by (simp add: add.assoc)
  qed
  then have "load_bytes (ent_at f i) 8 (memset (page_to_virt f) 0 4096 m) = map (\<lambda>_. 0) [0..<8]"
    unfolding load_bytes_def by (intro map_cong) auto
  then show ?thesis by (simp add: ent_def load_u64_def upt_rec)
qed

text \<open>The frame an entry points to.\<close>

definition frame :: "u64 \<Rightarrow> nat" where
  "frame e = phys_to_page (e AND PTE_ADDR_MASK)"

lemma PTE_ADDR_MASK_bits: "PTE_ADDR_MASK = push_bit 12 (mask 40)"
  by (simp add: PTE_ADDR_MASK_def mask_eq_exp_minus_1 push_bit_eq_mult)

lemma page_to_phys_frame: "page_to_phys (frame e) = e AND PTE_ADDR_MASK"
  unfolding page_to_phys_def frame_def phys_to_page_def PTE_ADDR_MASK_bits
  by (rule bit_word_eqI) (auto simp: bit_simps)

lemma table_virt_frame: "table_virt e = page_to_virt (frame e)"
  by (simp add: table_virt_def page_to_virt_def page_to_phys_frame)

section \<open>The tree of tables\<close>

definition is_table :: "u64 \<Rightarrow> bool" where
  "is_table e \<longleftrightarrow> has_flag e PTE_PRESENT \<and> \<not> has_flag e PTE_HUGE"

text \<open>The table a path leads to; the path lists the indices from the last to the first.\<close>

fun tab :: "memory \<Rightarrow> nat \<Rightarrow> nat list \<Rightarrow> nat option" where
  "tab m r [] = Some r"
| "tab m r (i # p) =
     (case tab m r p of None \<Rightarrow> None
      | Some f \<Rightarrow> if is_table (ent m f i) then Some (frame (ent m f i)) else None)"

definition path :: "nat list \<Rightarrow> bool" where
  "path p \<longleftrightarrow> length p \<le> 3 \<and> list_all (\<lambda>i. i < 512) p"

text \<open>The value of entry \<open>i\<close> of the table at \<open>p\<close>; it reads as empty where there is no table.\<close>

definition pent :: "memory \<Rightarrow> nat \<Rightarrow> nat list \<Rightarrow> nat \<Rightarrow> u64" where
  "pent m r p i = (case tab m r p of None \<Rightarrow> 0 | Some f \<Rightarrow> ent m f i)"

definition tree_ok :: "memory \<Rightarrow> nat \<Rightarrow> nat set \<Rightarrow> bool" where
  "tree_ok m r F \<longleftrightarrow>
     (\<forall>p f. path p \<longrightarrow> tab m r p = Some f \<longrightarrow> f < PFN_LIMIT \<and> f \<notin> F) \<and>
     (\<forall>p q f. path p \<longrightarrow> path q \<longrightarrow> tab m r p = Some f \<longrightarrow> tab m r q = Some f \<longrightarrow> p = q) \<and>
     (\<forall>i<512. has_flag (ent m r i) PTE_PRESENT \<longrightarrow> \<not> has_flag (ent m r i) PTE_HUGE)"

lemma tree_okD:
  assumes "tree_ok m r F"
  shows "path p \<Longrightarrow> tab m r p = Some f \<Longrightarrow> f < PFN_LIMIT" "path p \<Longrightarrow> tab m r p = Some f \<Longrightarrow> f \<notin> F"
    "path p \<Longrightarrow> path q \<Longrightarrow> tab m r p = Some f \<Longrightarrow> tab m r q = Some f \<Longrightarrow> p = q"
    "i < 512 \<Longrightarrow> has_flag (ent m r i) PTE_PRESENT \<Longrightarrow> \<not> has_flag (ent m r i) PTE_HUGE"
  using assms unfolding tree_ok_def by blast+

lemma path_Cons: "path (i # p) \<longleftrightarrow> i < 512 \<and> length p \<le> 2 \<and> path p"
  by (auto simp: path_def)

lemma path_Nil [simp]: "path []"
  by (simp add: path_def)

lemma path_suffix: "path q \<Longrightarrow> suffix p q \<Longrightarrow> path p"
  by (auto simp: path_def suffix_def)

lemma tab_suffix_None: "tab m r p = None \<Longrightarrow> suffix p q \<Longrightarrow> tab m r q = None"
proof (induction q)
  case (Cons i q)
  then show ?case by (auto simp: suffix_Cons)
qed (simp add: suffix_def)

text \<open>Memories that agree on the tables have the same tree.\<close>

definition same_tables :: "nat \<Rightarrow> memory \<Rightarrow> memory \<Rightarrow> bool" where
  "same_tables r m m' \<longleftrightarrow> (\<forall>p f. path p \<longrightarrow> tab m r p = Some f \<longrightarrow> same_frame f m m')"

lemma same_tablesD: "same_tables r m m' \<Longrightarrow> path p \<Longrightarrow> tab m r p = Some f \<Longrightarrow> same_frame f m m'"
  by (simp add: same_tables_def)

lemma tab_cong:
  assumes "same_tables r m m'" "path q"
  shows "tab m' r q = tab m r q"
  using assms(2)
proof (induction q)
  case (Cons i q)
  then show ?case using same_tablesD[OF assms(1), of q] same_frame_ent[of _ m m' i]
    by (auto simp: path_Cons split: option.splits)
qed simp

lemma pent_cong:
  assumes "same_tables r m m'" "path q" "i < 512"
  shows "pent m' r q i = pent m r q i"
  using tab_cong[OF assms(1,2)] same_tablesD[OF assms(1,2)] same_frame_ent[OF _ assms(3)]
  by (auto simp: pent_def split: option.splits)

lemma tree_ok_cong:
  assumes "tree_ok m r F" "same_tables r m m'" "F' \<subseteq> F"
  shows "tree_ok m' r F'"
proof -
  have "ent m' r i = ent m r i" if "i < 512" for i
    using same_frame_ent[OF same_tablesD[OF assms(2) path_Nil] that] by simp
  note e = this and t = tab_cong[OF assms(2)]
  show ?thesis unfolding tree_ok_def
  proof (intro conjI allI impI)
    show "f < PFN_LIMIT" "f \<notin> F'" if "path p" "tab m' r p = Some f" for p f
      using tree_okD(1,2)[OF assms(1)] that t[of p] assms(3) by (metis, metis subsetD)
    show "p = q" if "path p" "path q" "tab m' r p = Some f" "tab m' r q = Some f" for p q f
      using tree_okD(3)[OF assms(1)] that t[of p] t[of q] by metis
    show "\<not> has_flag (ent m' r i) PTE_HUGE" if "i < 512" "has_flag (ent m' r i) PTE_PRESENT" for i
      using tree_okD(4)[OF assms(1)] that e[of i] by metis
  qed
qed

text \<open>Writing an entry changes only the paths that lead through it.\<close>

lemma tab_store:
  assumes "tree_ok m r F" "path p" "tab m r p = Some f" "i < 512" "path q" "\<not> suffix (i # p) q"
  shows "tab (store_u64 (ent_at f i) v m) r q = tab m r q"
  using assms(5,6)
proof (induction q)
  case (Cons j q)
  have q: "path q" "j < 512" "\<not> suffix (i # p) q" "j # q \<noteq> i # p" using Cons.prems by (auto simp: path_Cons suffix_Cons)
  note IH = Cons.IH[OF q(1,3)]
  have "ent (store_u64 (ent_at f i) v m) g j = ent m g j" if "tab m r q = Some g" for g
  proof -
    have "\<not> (f = g \<and> i = j)" using tree_okD(3)[OF assms(1,2) q(1) assms(3)] that q(4) by auto
    then show ?thesis
      using ent_store[OF tree_okD(1)[OF assms(1,2,3)] assms(4) tree_okD(1)[OF assms(1) q(1) that] q(2)] by auto
  qed
  then show ?case by (simp add: IH split: option.splits)
qed simp

lemma pent_store:
  assumes "tree_ok m r F" "path p" "tab m r p = Some f" "i < 512" "path q" "j < 512" "\<not> suffix (i # p) q"
  shows "pent (store_u64 (ent_at f i) v m) r q j = (if q = p \<and> j = i then v else pent m r q j)"
proof (cases "tab m r q")
  case (Some g)
  then have "g = f \<longleftrightarrow> q = p" using tree_okD(3)[OF assms(1,5,2)] assms(3) by auto
  with Some assms(3) show ?thesis
    using ent_store[OF tree_okD(1)[OF assms(1,2,3)] assms(4) tree_okD(1)[OF assms(1,5) Some] assms(6), of v]
    by (auto simp: pent_def tab_store[OF assms(1-5,7)])
qed (use assms in \<open>auto simp: pent_def tab_store\<close>)

lemma tree_ok_leaf:
  assumes "tree_ok m r F" "path p" "length p = 3" "tab m r p = Some f" "i < 512"
  shows "tree_ok (store_u64 (ent_at f i) v m) r F"
    "path q \<Longrightarrow> tab (store_u64 (ent_at f i) v m) r q = tab m r q"
    "path q \<Longrightarrow> j < 512 \<Longrightarrow> pent (store_u64 (ent_at f i) v m) r q j = (if q = p \<and> j = i then v else pent m r q j)"
proof -
  have no: "\<not> suffix (i # p) q" if "path q" for q
    using suffix_length_le[of "i # p" q] that assms(3) by (auto simp: path_def)
  show tab: "path q \<Longrightarrow> tab (store_u64 (ent_at f i) v m) r q = tab m r q" for q
    using tab_store[OF assms(1,2,4,5) _ no] by blast
  show "path q \<Longrightarrow> j < 512 \<Longrightarrow> pent (store_u64 (ent_at f i) v m) r q j = (if q = p \<and> j = i then v else pent m r q j)"
    by (rule pent_store[OF assms(1,2,4,5) _ _ no])
  have "f \<noteq> r" using tree_okD(3)[OF assms(1,2) path_Nil assms(4)] assms(3) by auto
  then have top: "ent (store_u64 (ent_at f i) v m) r j = ent m r j" if "j < 512" for j
    using ent_store[OF tree_okD(1)[OF assms(1,2,4)] assms(5) tree_okD(1)[OF assms(1) path_Nil] that] by simp
  show "tree_ok (store_u64 (ent_at f i) v m) r F" unfolding tree_ok_def
  proof (intro conjI allI impI)
    show "g < PFN_LIMIT" "g \<notin> F" if "path q" "tab (store_u64 (ent_at f i) v m) r q = Some g" for q g
      using tree_okD(1,2)[OF assms(1) that(1)] that tab[OF that(1)] by auto
    show "q = q'" if "path q" "path q'" "tab (store_u64 (ent_at f i) v m) r q = Some g"
      "tab (store_u64 (ent_at f i) v m) r q' = Some g" for q q' g
      using tree_okD(3)[OF assms(1) that(1,2)] that tab[OF that(1)] tab[OF that(2)] by auto
    show "\<not> has_flag (ent (store_u64 (ent_at f i) v m) r j) PTE_HUGE"
      if "j < 512" "has_flag (ent (store_u64 (ent_at f i) v m) r j) PTE_PRESENT" for j
      using tree_okD(4)[OF assms(1) that(1)] that(2) top[OF that(1)] by auto
  qed
qed

text \<open>Hanging a fresh zeroed table into an empty entry.\<close>

definition hang :: "nat \<Rightarrow> nat \<Rightarrow> nat \<Rightarrow> u64 \<Rightarrow> memory \<Rightarrow> memory" where
  "hang f i g v m = store_u64 (ent_at f i) v (memset (page_to_virt g) 0 4096 m)"

lemma suffix_step: "suffix p q \<Longrightarrow> q = p \<or> (\<exists>j. suffix (j # p) q)"
proof -
  assume "suffix p q"
  then obtain xs where q: "q = xs @ p" by (auto simp: suffix_def)
  show ?thesis
  proof (cases xs rule: rev_cases)
    case (snoc ys j)
    then have "suffix (j # p) q" using q by (simp add: suffix_def)
    then show ?thesis by blast
  qed (use q in simp)
qed

lemma tab_hang:
  assumes ok: "tree_ok m r F" and p: "path p" "tab m r p = Some f" and i: "i < 512"
    and g: "g \<in> F" "g < PFN_LIMIT" and v: "is_table v" "frame v = g"
  shows "path q \<Longrightarrow> \<not> suffix (i # p) q \<Longrightarrow> tab (hang f i g v m) r q = tab m r q"
    "tab (hang f i g v m) r (i # p) = Some g"
    "path q \<Longrightarrow> suffix (j # i # p) q \<Longrightarrow> tab (hang f i g v m) r q = None"
    "j < 512 \<Longrightarrow> ent (hang f i g v m) g j = 0"
proof -
  let ?m = "memset (page_to_virt g) 0 4096 m"
  have same: "same_tables r m ?m"
    unfolding same_tables_def using tree_okD(1,2)[OF ok] g memset_same_frame[OF g(2)] by metis
  have ok': "tree_ok ?m r F" by (rule tree_ok_cong[OF ok same subset_refl])
  have p': "tab ?m r p = Some f" using tab_cong[OF same p(1)] p(2) by simp
  have f: "f < PFN_LIMIT" "f \<noteq> g" using tree_okD(1,2)[OF ok p] g(1) by auto
  show a: "path q \<Longrightarrow> \<not> suffix (i # p) q \<Longrightarrow> tab (hang f i g v m) r q = tab m r q" for q
    unfolding hang_def using tab_store[OF ok' p(1) p' i] tab_cong[OF same] by simp
  have "\<not> suffix (i # p) p" using suffix_length_le[of "i # p" p] by auto
  then have "tab (hang f i g v m) r p = Some f" using a[OF p(1)] p(2) by simp
  moreover have "ent (hang f i g v m) f i = v" unfolding hang_def using ent_store[OF f(1) i f(1) i] by simp
  ultimately show b: "tab (hang f i g v m) r (i # p) = Some g" using v by simp
  show e: "j < 512 \<Longrightarrow> ent (hang f i g v m) g j = 0" for j
    unfolding hang_def using f(2) ent_store[OF f(1) i g(2)] ent_memset[OF g(2)] by simp
  show "path q \<Longrightarrow> suffix (j # i # p) q \<Longrightarrow> tab (hang f i g v m) r q = None"
  proof (rule tab_suffix_None[of _ _ "j # i # p"])
    assume "path q" "suffix (j # i # p) q"
    then have "j < 512" using path_suffix[of q "j # i # p"] by (simp add: path_Cons)
    then show "tab (hang f i g v m) r (j # i # p) = None" using b e by (simp add: is_table_def has_flag_def)
  qed
qed

lemma tab_hang_cases:
  assumes "tree_ok m r F" "path p" "tab m r p = Some f" "i < 512" "g \<in> F" "g < PFN_LIMIT" "is_table v" "frame v = g"
    "path q" "tab (hang f i g v m) r q = Some h"
  shows "q = i # p \<and> h = g \<or> \<not> suffix (i # p) q \<and> tab m r q = Some h"
proof (cases "suffix (i # p) q")
  case True
  then consider "q = i # p" | j where "suffix (j # i # p) q" using suffix_step by blast
  then show ?thesis using tab_hang(2,3)[OF assms(1-8)] assms(9,10) by cases auto
next
  case False
  then show ?thesis using tab_hang(1)[OF assms(1-9)] assms(10) by auto
qed

lemma hang_ok:
  assumes "tree_ok m r F" "path p" "tab m r p = Some f" "i < 512" "g \<in> F" "g < PFN_LIMIT" "is_table v" "frame v = g"
  shows "tree_ok (hang f i g v m) r (F - {g})"
proof -
  note cases = tab_hang_cases[OF assms]
  show ?thesis unfolding tree_ok_def
  proof (intro conjI allI impI)
    show "h < PFN_LIMIT" "h \<notin> F - {g}" if "path q" "tab (hang f i g v m) r q = Some h" for q h
      using cases[OF that] tree_okD(1,2)[OF assms(1) that(1)] assms(6) by auto
    show "q = q'" if "path q" "path q'" "tab (hang f i g v m) r q = Some h" "tab (hang f i g v m) r q' = Some h" for q q' h
      using cases[OF that(1,3)] cases[OF that(2,4)] tree_okD(3)[OF assms(1) that(1,2)]
        tree_okD(2)[OF assms(1) that(1)] tree_okD(2)[OF assms(1) that(2)] assms(5) by auto
    fix j assume j: "j < (512::nat)" and pr: "has_flag (ent (hang f i g v m) r j) PTE_PRESENT"
    have r: "r < PFN_LIMIT" "r \<noteq> g" using tree_okD(1,2)[OF assms(1) path_Nil] assms(5) by auto
    have "ent (hang f i g v m) r j = (if f = r \<and> i = j then v else ent m r j)"
      unfolding hang_def using ent_store[OF tree_okD(1)[OF assms(1,2,3)] assms(4) r(1) j]
        same_frame_ent[OF memset_same_frame[OF assms(6) r(1)] j] r(2) by auto
    with pr show "\<not> has_flag (ent (hang f i g v m) r j) PTE_HUGE"
      using tree_okD(4)[OF assms(1) j] assms(7) by (auto simp: is_table_def split: if_splits)
  qed
qed

lemma pent_hang:
  assumes "tree_ok m r F" "path p" "tab m r p = Some f" "i < 512" "g \<in> F" "g < PFN_LIMIT" "is_table v" "frame v = g"
    "\<not> has_flag (ent m f i) PTE_PRESENT" "path q" "j < 512"
  shows "pent (hang f i g v m) r q j = (if q = p \<and> j = i then v else pent m r q j)"
proof (cases "suffix (i # p) q")
  case True
  have "tab m r (i # p) = None" using assms(3,9) by (simp add: is_table_def)
  from tab_suffix_None[OF this True] have "pent m r q j = 0" by (simp add: pent_def)
  moreover have "q \<noteq> p" using True suffix_length_le[of "i # p" q] by auto
  moreover have "pent (hang f i g v m) r q j = 0"
    using suffix_step[OF True] tab_hang(2,3,4)[OF assms(1-8)] assms(10,11) by (auto simp: pent_def simp del: tab.simps)
  ultimately show ?thesis by simp
next
  case False
  let ?m = "memset (page_to_virt g) 0 4096 m"
  have same: "same_tables r m ?m"
    unfolding same_tables_def using tree_okD(1,2)[OF assms(1)] assms(5,6) memset_same_frame[OF assms(6)] by metis
  have "tab ?m r p = Some f" using tab_cong[OF same assms(2)] assms(3) by simp
  from pent_store[OF tree_ok_cong[OF assms(1) same subset_refl] assms(2) this assms(4,10,11) False, of v]
  show ?thesis using pent_cong[OF same assms(10,11)] by (simp add: hang_def)
qed

section \<open>Entries as frame and flags\<close>

lemma page_to_phys_mask:
  assumes "g < PFN_LIMIT"
  shows "page_to_phys g AND PTE_ADDR_MASK = page_to_phys g"
proof -
  have "(of_nat g :: u64) = take_bit 34 (of_nat g)"
    using assms by (simp add: take_bit_of_nat take_bit_nat_eq_self)
  then have "bit (of_nat g :: u64) n \<Longrightarrow> n < 34" for n by (metis bit_take_bit_iff)
  then show ?thesis unfolding page_to_phys_def PTE_ADDR_MASK_bits
    by (intro bit_word_eqI) (fastforce simp: bit_simps)
qed

lemma frame_pte:
  assumes "g < PFN_LIMIT" "fl AND PTE_ADDR_MASK = 0"
  shows "frame (page_to_phys g OR fl) = g"
proof -
  have "(page_to_phys g OR fl) AND PTE_ADDR_MASK = page_to_phys g"
    using page_to_phys_mask[OF assms(1)] assms(2) by (simp add: bit.conj_disj_distrib2)
  then show ?thesis using page_addr(2)[of g] assms(1) by (simp add: frame_def)
qed

lemma flag_pte:
  assumes "g < PFN_LIMIT" "x AND PTE_ADDR_MASK = 0"
  shows "has_flag (page_to_phys g OR fl) x = has_flag fl x"
proof -
  have "page_to_phys g AND x = page_to_phys g AND (PTE_ADDR_MASK AND x)"
    using page_to_phys_mask[OF assms(1)] by (metis and.assoc)
  then have "page_to_phys g AND x = 0" using assms(2) by (simp add: and.commute)
  then show ?thesis by (simp add: has_flag_def bit.conj_disj_distrib2)
qed

lemma flag_masks [simp]:
  "PTE_PRESENT AND PTE_ADDR_MASK = 0" "PTE_WRITABLE AND PTE_ADDR_MASK = 0" "PTE_USER AND PTE_ADDR_MASK = 0"
  "PTE_HUGE AND PTE_ADDR_MASK = 0" "PTE_COW AND PTE_ADDR_MASK = 0" "PTE_NX AND PTE_ADDR_MASK = 0"
  by (simp_all add: PTE_PRESENT_def PTE_WRITABLE_def PTE_USER_def PTE_HUGE_def PTE_COW_def PTE_NX_def PTE_ADDR_MASK_def)

definition table_flags :: "bool \<Rightarrow> u64" where
  "table_flags user = PTE_PRESENT OR PTE_WRITABLE OR (if user then PTE_USER else 0)"

lemma table_flags_mask: "table_flags user AND PTE_ADDR_MASK = 0"
  by (simp add: table_flags_def bit.conj_disj_distrib2)

lemma new_table_entry:
  assumes "g < PFN_LIMIT"
  shows "is_table (page_to_phys g OR table_flags user)" "frame (page_to_phys g OR table_flags user) = g"
proof -
  have "has_flag (table_flags user) PTE_PRESENT \<and> \<not> has_flag (table_flags user) PTE_HUGE"
    by (simp add: table_flags_def has_flag_def PTE_PRESENT_def PTE_WRITABLE_def PTE_USER_def PTE_HUGE_def)
  then show "is_table (page_to_phys g OR table_flags user)" by (simp add: is_table_def flag_pte[OF assms])
  show "frame (page_to_phys g OR table_flags user) = g" by (rule frame_pte[OF assms table_flags_mask])
qed

section \<open>Translation on the tree\<close>

definition lookup :: "(nat list \<Rightarrow> nat \<Rightarrow> u64) \<Rightarrow> u64 \<Rightarrow> u64 \<times> u64 option" where
  "lookup P virt =
     (let i4 = unat (PML4_INDEX virt); i3 = unat (PDPT_INDEX virt); i2 = unat (PD_INDEX virt); i1 = unat (PT_INDEX virt);
          e = P [] i4 in
      if \<not> has_flag e PTE_PRESENT then (0, None)
      else let e = P [i4] i3 in
      if \<not> has_flag e PTE_PRESENT then (0, None)
      else if has_flag e PTE_HUGE
        then ((e AND PTE_ADDR_MASK AND NOT (GiB - 1)) + (virt AND (GiB - 1)), Some (e AND NOT PTE_ADDR_MASK))
      else let e = P [i3, i4] i2 in
      if \<not> has_flag e PTE_PRESENT then (0, None)
      else if has_flag e PTE_HUGE
        then ((e AND PTE_ADDR_MASK AND NOT (2 * MiB - 1)) + (virt AND (2 * MiB - 1)), Some (e AND NOT PTE_ADDR_MASK))
      else let e = P [i2, i3, i4] i1 in
      if \<not> has_flag e PTE_PRESENT then (0, None)
      else ((e AND PTE_ADDR_MASK) + (virt AND (PAGE_SIZE - 1)), Some (e AND NOT PTE_ADDR_MASK)))"

lemma index_lt [simp]:
  "unat (PML4_INDEX v) < 512" "unat (PDPT_INDEX v) < 512" "unat (PD_INDEX v) < 512" "unat (PT_INDEX v) < 512"
proof -
  have "unat (take_bit 9 x) < 512" for x :: u64
    using take_bit_nat_less_exp[of 9 "unat x"] by (simp add: unsigned_take_bit_eq)
  then show "unat (PML4_INDEX v) < 512" "unat (PDPT_INDEX v) < 512" "unat (PD_INDEX v) < 512" "unat (PT_INDEX v) < 512"
    by (simp_all only: PML4_INDEX_def PDPT_INDEX_def PD_INDEX_def PT_INDEX_def and_low_bits)
qed

lemma entry_ptr_ent: "entry_ptr (page_to_virt f) idx = ent_at f (unat idx)"
  by (simp add: entry_ptr_def ent_at_def)

lemma entry_ent: "entry (page_to_virt f) idx s = ent (kmem s) f (unat idx)"
  by (simp add: entry_def ent_def entry_ptr_ent)

lemma translate_lookup:
  assumes "tree_ok (kmem s) (frame pml4) F"
  shows "vmm_translate pml4 virt s = lookup (pent (kmem s) (frame pml4)) virt"
proof -
  let ?i4 = "unat (PML4_INDEX virt)" and ?m = "kmem s" and ?r = "frame pml4"
  define e4 where "e4 = ent ?m ?r ?i4"
  define e3 where "e3 = ent ?m (frame e4) (unat (PDPT_INDEX virt))"
  define e2 where "e2 = ent ?m (frame e3) (unat (PD_INDEX virt))"
  have "has_flag e4 PTE_PRESENT \<longrightarrow> \<not> has_flag e4 PTE_HUGE" using tree_okD(4)[OF assms, of ?i4] by (simp add: e4_def)
  then show ?thesis
    by (auto simp: vmm_translate_def lookup_def table_virt_frame entry_ent pent_def Let_def is_table_def
        e4_def[symmetric] e3_def[symmetric] e2_def[symmetric])
qed

text \<open>Hanging in an empty table does not change any translation; writing a leaf changes one page.\<close>

definition page_path :: "u64 \<Rightarrow> nat list" where
  "page_path v = [unat (PD_INDEX v), unat (PDPT_INDEX v), unat (PML4_INDEX v)]"

lemma page_path_path [simp]: "path (page_path v)" "length (page_path v) = 3"
  by (simp_all add: page_path_def path_def)

lemma lookup_hang:
  assumes "\<And>q j. path q \<Longrightarrow> j < 512 \<Longrightarrow> P' q j = (if q = p \<and> j = i then v else P q j)"
    "\<not> has_flag (P p i) PTE_PRESENT" "is_table v" "length p \<le> 2" "\<And>j. j < 512 \<Longrightarrow> path (i # p) \<Longrightarrow> P (i # p) j = 0"
  shows "lookup P' w = lookup P w"
proof -
  let ?i4 = "unat (PML4_INDEX w)" and ?i3 = "unat (PDPT_INDEX w)" and ?i2 = "unat (PD_INDEX w)" and ?i1 = "unat (PT_INDEX w)"
  have ps: "path [?i4]" "path [?i3, ?i4]" "path [?i2, ?i3, ?i4]" by (simp_all add: path_def)
  have P': "P' [] ?i4 = (if [] = p \<and> ?i4 = i then v else P [] ?i4)" "P' [?i4] ?i3 = (if [?i4] = p \<and> ?i3 = i then v else P [?i4] ?i3)"
    "P' [?i3, ?i4] ?i2 = (if [?i3, ?i4] = p \<and> ?i2 = i then v else P [?i3, ?i4] ?i2)"
    "P' [?i2, ?i3, ?i4] ?i1 = P [?i2, ?i3, ?i4] ?i1"
    using assms(1)[of _ ?i4] assms(1)[of _ ?i3] assms(1)[of _ ?i2] assms(1)[of _ ?i1] ps assms(4) by auto
  have v: "has_flag v PTE_PRESENT" "\<not> has_flag v PTE_HUGE" using assms(3) by (simp_all add: is_table_def)
  have z: "\<not> has_flag (0 :: u64) PTE_PRESENT" by (simp add: has_flag_def)
  consider "[] = p \<and> ?i4 = i" | "[?i4] = p \<and> ?i3 = i" | "[?i3, ?i4] = p \<and> ?i2 = i"
    | "\<not> ([] = p \<and> ?i4 = i)" "\<not> ([?i4] = p \<and> ?i3 = i)" "\<not> ([?i3, ?i4] = p \<and> ?i2 = i)" by blast
  then show ?thesis
  proof cases
    case 1
    then have "P [?i4] ?i3 = 0" using assms(5)[of ?i3] ps(1) by auto
    with 1 assms(2) v z P' show ?thesis by (auto simp: lookup_def Let_def)
  next
    case 2
    then have "P [?i3, ?i4] ?i2 = 0" using assms(5)[of ?i2] ps(2) by auto
    with 2 assms(2) v z P' show ?thesis by (auto simp: lookup_def Let_def)
  next
    case 3
    then have "P [?i2, ?i3, ?i4] ?i1 = 0" using assms(5)[of ?i1] ps(3) by auto
    with 3 assms(2) v z P' show ?thesis by (auto simp: lookup_def Let_def)
  next
    case 4
    then have "P' [] ?i4 = P [] ?i4" "P' [?i4] ?i3 = P [?i4] ?i3" "P' [?i3, ?i4] ?i2 = P [?i3, ?i4] ?i2"
      by (simp_all only: P' if_False)
    then show ?thesis unfolding lookup_def Let_def P'(4) by simp
  qed
qed

definition on_page :: "u64 \<Rightarrow> u64 \<Rightarrow> bool" where
  "on_page w v \<longleftrightarrow> page_path w = page_path v \<and> PT_INDEX w = PT_INDEX v"

lemma lookup_leaf:
  assumes "\<And>q j. path q \<Longrightarrow> j < 512 \<Longrightarrow> P' q j = (if q = page_path virt \<and> j = unat (PT_INDEX virt) then v else P q j)"
  shows "\<not> on_page w virt \<Longrightarrow> lookup P' w = lookup P w"
    "has_flag (P [] (unat (PML4_INDEX virt))) PTE_PRESENT \<Longrightarrow>
     is_table (P [unat (PML4_INDEX virt)] (unat (PDPT_INDEX virt))) \<Longrightarrow>
     is_table (P [unat (PDPT_INDEX virt), unat (PML4_INDEX virt)] (unat (PD_INDEX virt))) \<Longrightarrow> on_page w virt \<Longrightarrow>
     lookup P' w = (if has_flag v PTE_PRESENT then ((v AND PTE_ADDR_MASK) + (w AND (PAGE_SIZE - 1)), Some (v AND NOT PTE_ADDR_MASK))
                    else (0, None))"
proof -
  let ?i4 = "unat (PML4_INDEX w)" and ?i3 = "unat (PDPT_INDEX w)" and ?i2 = "unat (PD_INDEX w)" and ?i1 = "unat (PT_INDEX w)"
  have ps: "path [?i4]" "path [?i3, ?i4]" "path [?i2, ?i3, ?i4]" by (simp_all add: path_def)
  have P': "P' [] ?i4 = P [] ?i4" "P' [?i4] ?i3 = P [?i4] ?i3" "P' [?i3, ?i4] ?i2 = P [?i3, ?i4] ?i2"
    "P' [?i2, ?i3, ?i4] ?i1 = (if [?i2, ?i3, ?i4] = page_path virt \<and> ?i1 = unat (PT_INDEX virt) then v else P [?i2, ?i3, ?i4] ?i1)"
    using ps by (simp_all add: assms page_path_def)
  have on: "on_page w virt \<longleftrightarrow> [?i2, ?i3, ?i4] = page_path virt \<and> ?i1 = unat (PT_INDEX virt)"
    by (auto simp: on_page_def page_path_def word_unat_eq_iff)
  note P' = P'(1-3) P'(4)[folded on]
  show "\<not> on_page w virt \<Longrightarrow> lookup P' w = lookup P w"
    unfolding lookup_def Let_def P' by simp
  assume t: "has_flag (P [] (unat (PML4_INDEX virt))) PTE_PRESENT"
     "is_table (P [unat (PML4_INDEX virt)] (unat (PDPT_INDEX virt)))"
     "is_table (P [unat (PDPT_INDEX virt), unat (PML4_INDEX virt)] (unat (PD_INDEX virt)))" and "on_page w virt"
  then have "?i4 = unat (PML4_INDEX virt)" "?i3 = unat (PDPT_INDEX virt)" "?i2 = unat (PD_INDEX virt)"
    by (simp_all add: on_page_def page_path_def)
  with t \<open>on_page w virt\<close> show "lookup P' w = (if has_flag v PTE_PRESENT
      then ((v AND PTE_ADDR_MASK) + (w AND (PAGE_SIZE - 1)), Some (v AND NOT PTE_ADDR_MASK)) else (0, None))"
    unfolding lookup_def Let_def P' by (simp add: is_table_def)
qed

section \<open>What a table walk does to the machine\<close>

definition vm_inv :: "'a vmm_scheme \<Rightarrow> nat \<Rightarrow> bool" where
  "vm_inv s r \<longleftrightarrow> pmm_inv s \<and> use_buddy s \<and> 0 \<notin> free_frames s \<and> tree_ok (kmem s) r (free_frames s)"

definition tables :: "memory \<Rightarrow> nat \<Rightarrow> nat set" where
  "tables m r = {f. \<exists>p. path p \<and> tab m r p = Some f}"

text \<open>Frames are only taken from the free ones; pages that were neither free nor tables are untouched.\<close>

definition grew :: "nat \<Rightarrow> 'a vmm_scheme \<Rightarrow> 'a vmm_scheme \<Rightarrow> bool" where
  "grew r s s' \<longleftrightarrow> free_frames s' \<subseteq> free_frames s \<and> max_pfn s' = max_pfn s \<and> pmm.more s' = pmm.more s \<and>
     (\<forall>q. q \<notin> free_frames s \<longrightarrow> mem_map s' q = mem_map s q) \<and>
     (\<forall>q k. allocated s q k \<longrightarrow> allocated s' q k) \<and>
     tables (kmem s') r \<subseteq> tables (kmem s) r \<union> free_frames s \<and>
     (\<forall>f<PFN_LIMIT. f \<notin> free_frames s \<longrightarrow> f \<notin> tables (kmem s) r \<longrightarrow> same_frame f (kmem s) (kmem s'))"

lemma grew_refl [simp]: "grew r s s"
  by (simp add: grew_def)

lemma grew_trans:
  assumes "grew r s s1" "grew r s1 s2"
  shows "grew r s s2"
proof -
  have "same_frame f (kmem s) (kmem s2)" if "f < PFN_LIMIT" "f \<notin> free_frames s" "f \<notin> tables (kmem s) r" for f
  proof -
    have "same_frame f (kmem s) (kmem s1)" "f \<notin> free_frames s1" "f \<notin> tables (kmem s1) r"
      using assms(1) that unfolding grew_def by blast+
    then show ?thesis using assms(2) that(1) same_frame_trans unfolding grew_def by blast
  qed
  moreover have "mem_map s2 q = mem_map s q" if "q \<notin> free_frames s" for q
    using assms that unfolding grew_def by (metis subsetD)
  moreover have "tables (kmem s2) r \<subseteq> tables (kmem s) r \<union> free_frames s" using assms unfolding grew_def by blast
  moreover have "free_frames s2 \<subseteq> free_frames s" using assms unfolding grew_def by blast
  ultimately show ?thesis using assms unfolding grew_def by simp
qed

lemma more_fields:
  assumes "pmm.more s' = pmm.more (s :: 'a vmm_scheme)"
  shows "use_buddy s' = use_buddy s" "kernel_pml4 s' = kernel_pml4 s" "pte_nx s' = pte_nx s" "cr3 s' = cr3 s" "tlb_ops s' = tlb_ops s"
  using assms by (cases s; cases s'; simp)+

lemma kmem_irrelevant [simp]:
  "pmm_inv (s\<lparr>kmem := m\<rparr>) = pmm_inv s" "free_frames (s\<lparr>kmem := m\<rparr>) = free_frames s"
  "allocated (s\<lparr>kmem := m\<rparr>) q k = allocated s q k"
  by (simp_all add: pmm_inv_def zone_inv_def free_frames_def allocated_def in_zone_def)

lemma alloc_table_ok:
  assumes "pmm_inv s" "use_buddy s" "0 \<notin> free_frames s" "alloc_table s = Inr (t, s')"
  shows "t = 0 \<and> s' = s \<or> (\<exists>g. t = page_to_phys g \<and> t \<noteq> 0 \<and> g \<in> free_frames s \<and> g < PFN_LIMIT \<and> pmm_inv s'
    \<and> free_frames s' = free_frames s - {g} \<and> kmem s' = memset (page_to_virt g) 0 4096 (kmem s)
    \<and> pmm.more s' = pmm.more s \<and> max_pfn s' = max_pfn s \<and> (\<forall>q. q \<notin> free_frames s \<longrightarrow> mem_map s' q = mem_map s q)
    \<and> (\<forall>q k. allocated s q k \<longrightarrow> allocated s' q k))"
proof (cases "alloc_pages 0 GFP_ZERO s")
  case (Pair r s1)
  have eq: "t = (case r of None \<Rightarrow> 0 | Some p \<Rightarrow> page_to_phys p)" "s' = s1"
    using assms(2,4) Pair by (auto simp: alloc_table_def pmm_alloc_page_def split: option.splits)
  show ?thesis
  proof (cases r)
    case None
    then show ?thesis using alloc_pages_None(1)[OF assms(1)] Pair eq by simp
  next
    case (Some g)
    have took: "took (pfn_zone g) g 0 GFP_ZERO s s'" using alloc_pages_took(1)[OF assms(1)] Pair Some eq(2) by simp
    have blk: "block g 0 = {g}" by auto
    have g: "g < PFN_LIMIT" using took_block_bound[OF took] by simp
    have "g \<in> free_frames s" using took by (simp add: took_def blk)
    then have "g \<noteq> 0" using assms(3) by metis
    then have "page_to_phys g \<noteq> 0" using page_addr(1)[of g] g by auto
    with took g \<open>g \<in> free_frames s\<close> took_keeps[OF took] show ?thesis
      by (auto simp: eq Some took_def blk has_flag_def GFP_ZERO_def simp del: block_iff)
  qed
qed

text \<open>One level of the walk, on the tree: nothing that is mapped changes.\<close>

definition same_view :: "nat \<Rightarrow> memory \<Rightarrow> memory \<Rightarrow> bool" where
  "same_view r m m' \<longleftrightarrow> (\<forall>w. lookup (pent m' r) w = lookup (pent m r) w) \<and>
     (\<forall>q j. path q \<longrightarrow> length q = 3 \<longrightarrow> j < 512 \<longrightarrow> pent m' r q j = pent m r q j) \<and>
     (\<forall>q f. path q \<longrightarrow> tab m r q = Some f \<longrightarrow> tab m' r q = Some f) \<and>
     (\<forall>q j. path q \<longrightarrow> j < 512 \<longrightarrow> pent m' r q j = pent m r q j \<or> \<not> has_flag (pent m r q j) PTE_PRESENT \<and> is_table (pent m' r q j))"

lemma same_view_trans: "same_view r m m' \<Longrightarrow> same_view r m' m'' \<Longrightarrow> same_view r m m''"
  by (simp add: same_view_def is_table_def) metis

lemma next_level_ok:
  assumes inv: "vm_inv s r" and p: "path p" "length p \<le> 2" "tab (kmem s) r p = Some f" and i: "unat idx < 512"
    and n: "next_level (page_to_virt f) idx True user s = Inr (res, s')"
  shows "vm_inv s' r \<and> grew r s s' \<and> same_view r (kmem s) (kmem s') \<and>
    (\<forall>t. res = Some t \<longrightarrow> (\<exists>g. t = page_to_virt g \<and> tab (kmem s') r (unat idx # p) = Some g))"
proof -
  let ?i = "unat idx" and ?m = "kmem s"
  let ?e = "ent ?m f ?i"
  show ?thesis
  proof (cases "has_flag ?e PTE_PRESENT")
    case True
    then have "s' = s" "res = (if has_flag ?e PTE_HUGE then None else Some (page_to_virt (frame ?e)))"
      using n by (auto simp: next_level_def entry_ent table_virt_frame Let_def)
    then show ?thesis using True inv p(3) by (auto simp: same_view_def is_table_def)
  next
    case False
    then obtain t s1 where a: "alloc_table s = Inr (t, s1)"
      "(res, s') = (if t = 0 then (None, s1) else (Some (table_virt t), set_entry (page_to_virt f) idx (t OR table_flags user) s1))"
      using n by (auto simp: next_level_def entry_ent andthen_Inr table_flags_def or.assoc split: if_splits)
    have ok: "tree_ok ?m r (free_frames s)" "pmm_inv s" "use_buddy s" "0 \<notin> free_frames s"
      using inv by (simp_all add: vm_inv_def)
    from alloc_table_ok[OF ok(2-4) a(1)] show ?thesis
    proof (elim disjE exE conjE)
      assume "t = 0" "s1 = s"
      then show ?thesis using a(2) inv by (simp add: same_view_def)
    next
      fix g
      assume t: "t = page_to_phys g" "t \<noteq> 0" and g: "g \<in> free_frames s" "g < PFN_LIMIT" and s1: "pmm_inv s1"
        "free_frames s1 = free_frames s - {g}" "kmem s1 = memset (page_to_virt g) 0 4096 ?m" "pmm.more s1 = pmm.more s"
        "max_pfn s1 = max_pfn s" "\<forall>q. q \<notin> free_frames s \<longrightarrow> mem_map s1 q = mem_map s q" "\<forall>q k. allocated s q k \<longrightarrow> allocated s1 q k"
      let ?v = "t OR table_flags user"
      have v: "is_table ?v" "frame ?v = g" using new_table_entry[OF g(2)] by (simp_all add: t(1))
      have s': "s' = s1\<lparr>kmem := hang f ?i g ?v ?m\<rparr>" "res = Some (table_virt t)"
        using a(2) t(2) by (simp_all add: set_entry_def set_pte_def entry_ptr_ent hang_def s1(3))
      note h = ok(1) p(1,3) i g v
      have "frame t = g" using frame_pte[OF g(2), of 0] by (simp add: t(1))
      have pent: "pent (hang f ?i g ?v ?m) r q j = (if q = p \<and> j = ?i then ?v else pent ?m r q j)" if "path q" "j < 512" for q j
        by (rule pent_hang[OF h False that])
      have none: "tab ?m r (?i # p) = None" using p(3) False by (simp add: is_table_def)
      have "lookup (pent (hang f ?i g ?v ?m) r) w = lookup (pent ?m r) w" for w
        using False p(2,3) none by (intro lookup_hang[OF pent _ v(1)]) (simp_all add: pent_def)
      moreover have "tab (hang f ?i g ?v ?m) r q = Some k" if "path q" "tab ?m r q = Some k" for q k
        using tab_hang(1)[OF h that(1)] tab_suffix_None[OF none, of q] that(2) by auto
      moreover have "pent (hang f ?i g ?v ?m) r q j = pent ?m r q j" if "path q" "length q = 3" "j < 512" for q j
        using pent[OF that(1,3)] that(2) p(2) by auto
      moreover have "pent (hang f ?i g ?v ?m) r q j = pent ?m r q j \<or> \<not> has_flag (pent ?m r q j) PTE_PRESENT \<and> is_table (pent (hang f ?i g ?v ?m) r q j)"
        if "path q" "j < 512" for q j
        using pent[OF that] False p(3) v(1) by (auto simp: pent_def)
      ultimately have view: "same_view r ?m (kmem s')" by (simp add: same_view_def s')
      have "tables (kmem s') r \<subseteq> tables ?m r \<union> free_frames s"
        using tab_hang_cases[OF h] g(1) by (fastforce simp: tables_def s')
      moreover have "same_frame k ?m (kmem s')" if "k < PFN_LIMIT" "k \<notin> free_frames s" "k \<notin> tables ?m r" for k
      proof -
        have "k \<noteq> g" "k \<noteq> f" using that g(1) p(1,3) by (auto simp: tables_def)
        then show ?thesis unfolding s' hang_def
          using memset_same_frame[OF g(2) that(1)] store_same_frame[OF tree_okD(1)[OF ok(1) p(1,3)] i that(1)]
          by (auto intro: same_frame_trans)
      qed
      ultimately have "grew r s s'" using s1 by (auto simp: grew_def s')
      moreover have "vm_inv s' r" using s1 hang_ok[OF h] ok(3,4) more_fields(1)[OF s1(4)] by (auto simp: vm_inv_def s')
      moreover have "tab (kmem s') r (?i # p) = Some g" using tab_hang(2)[OF h] by (simp add: s')
      ultimately show ?thesis using view s'(2) \<open>frame t = g\<close> by (auto simp: table_virt_frame)
    qed
  qed
qed

lemma get_pte_ok:
  assumes inv: "vm_inv s (frame pml4)" and g: "vmm_get_pte pml4 virt True s = Inr (res, s')"
  shows "vm_inv s' (frame pml4) \<and> grew (frame pml4) s s' \<and> same_view (frame pml4) (kmem s) (kmem s') \<and>
    (\<forall>ptr. res = Some ptr \<longrightarrow> (\<exists>f. tab (kmem s') (frame pml4) (page_path virt) = Some f \<and> ptr = ent_at f (unat (PT_INDEX virt))))"
proof -
  let ?r = "frame pml4" and ?u = "is_user_address virt"
  let ?i4 = "unat (PML4_INDEX virt)" and ?i3 = "unat (PDPT_INDEX virt)" and ?i2 = "unat (PD_INDEX virt)"
  have ps: "path [?i4]" "path [?i3, ?i4]" by (simp_all add: path_def)
  obtain t1 s1 t2 s2 t3 where n1: "next_level (page_to_virt ?r) (PML4_INDEX virt) True ?u s = Inr (t1, s1)"
    and n2: "(case t1 of None \<Rightarrow> Inr (None, s1) | Some t \<Rightarrow> next_level t (PDPT_INDEX virt) True ?u s1) = Inr (t2, s2)"
    and n3: "(case t2 of None \<Rightarrow> Inr (None, s2) | Some t \<Rightarrow> next_level t (PD_INDEX virt) True ?u s2) = Inr (t3, s')"
    and res: "res = map_option (\<lambda>t. entry_ptr t (PT_INDEX virt)) t3"
    using g by (auto simp: vmm_get_pte_def Let_def andthen_Inr descend_def table_virt_frame)
  have 1: "vm_inv s1 ?r \<and> grew ?r s s1 \<and> same_view ?r (kmem s) (kmem s1) \<and>
    (\<forall>t. t1 = Some t \<longrightarrow> (\<exists>g. t = page_to_virt g \<and> tab (kmem s1) ?r [?i4] = Some g))"
    by (rule next_level_ok[OF inv _ _ _ _ n1]) simp_all
  have 2: "vm_inv s2 ?r \<and> grew ?r s1 s2 \<and> same_view ?r (kmem s1) (kmem s2) \<and>
    (\<forall>t. t2 = Some t \<longrightarrow> (\<exists>g. t = page_to_virt g \<and> tab (kmem s2) ?r [?i3, ?i4] = Some g))"
  proof (cases t1)
    case (Some t)
    then obtain f where f: "t = page_to_virt f" "tab (kmem s1) ?r [?i4] = Some f" using 1 by blast
    have "next_level (page_to_virt f) (PDPT_INDEX virt) True ?u s1 = Inr (t2, s2)" using n2 Some f(1) by simp
    from next_level_ok[OF _ ps(1) _ f(2) _ this] 1 show ?thesis by simp
  qed (use n2 1 in \<open>simp add: same_view_def\<close>)
  have 3: "vm_inv s' ?r \<and> grew ?r s2 s' \<and> same_view ?r (kmem s2) (kmem s') \<and>
    (\<forall>t. t3 = Some t \<longrightarrow> (\<exists>g. t = page_to_virt g \<and> tab (kmem s') ?r (page_path virt) = Some g))"
  proof (cases t2)
    case (Some t)
    then obtain f where f: "t = page_to_virt f" "tab (kmem s2) ?r [?i3, ?i4] = Some f" using 2 by blast
    have "next_level (page_to_virt f) (PD_INDEX virt) True ?u s2 = Inr (t3, s')" using n3 Some f(1) by simp
    from next_level_ok[OF _ ps(2) _ f(2) _ this] 2 show ?thesis by (simp add: page_path_def)
  qed (use n3 2 in \<open>simp add: same_view_def\<close>)
  have "grew ?r s s'" using 1 2 3 grew_trans by blast
  moreover have "same_view ?r (kmem s) (kmem s')" using 1 2 3 same_view_trans by blast
  ultimately show ?thesis using 3 res by (auto simp: entry_ptr_ent)
qed

text \<open>Without creation the walk reads only.\<close>

lemma next_level_read: "next_level t idx False user s = Inr (if is_table (entry t idx s) then Some (table_virt (entry t idx s)) else None, s)"
  by (simp add: next_level_def Let_def is_table_def)

lemma get_pte_read:
  "vmm_get_pte pml4 virt False s =
     Inr (map_option (\<lambda>f. ent_at f (unat (PT_INDEX virt))) (tab (kmem s) (frame pml4) (page_path virt)), s)"
  by (simp add: vmm_get_pte_def Let_def next_level_read descend_def page_path_def table_virt_frame entry_ent entry_ptr_ent)

section \<open>Writing a page-table entry\<close>

text \<open>Addresses on the same 4 KiB page, as far as the hardware looks at them (48 bits).\<close>

definition same_page :: "u64 \<Rightarrow> u64 \<Rightarrow> bool" where
  "same_page w v \<longleftrightarrow> drop_bit 12 (take_bit 48 w) = drop_bit 12 (take_bit 48 v)"

lemma on_page_iff: "on_page w v \<longleftrightarrow> same_page w v"
proof -
  have idx: "PT_INDEX x = take_bit 9 (drop_bit 12 (take_bit 48 x))" "PD_INDEX x = take_bit 9 (drop_bit 9 (drop_bit 12 (take_bit 48 x)))"
    "PDPT_INDEX x = take_bit 9 (drop_bit 18 (drop_bit 12 (take_bit 48 x)))"
    "PML4_INDEX x = take_bit 9 (drop_bit 27 (drop_bit 12 (take_bit 48 x)))" for x
    unfolding PT_INDEX_def PD_INDEX_def PDPT_INDEX_def PML4_INDEX_def and_low_bits
    by (rule bit_word_eqI; auto simp: bit_simps ac_simps)+
  have "drop_bit 12 (take_bit 48 x) =
      PT_INDEX x OR push_bit 9 (PD_INDEX x) OR push_bit 18 (PDPT_INDEX x) OR push_bit 27 (PML4_INDEX x)" for x
    unfolding PT_INDEX_def PD_INDEX_def PDPT_INDEX_def PML4_INDEX_def and_low_bits
  proof (rule bit_word_eqI)
    fix n assume "n < LENGTH(64)"
    have "9 \<le> n \<Longrightarrow> 21 + (n - 9) = 12 + n" "18 \<le> n \<Longrightarrow> 30 + (n - 18) = 12 + n" "27 \<le> n \<Longrightarrow> 39 + (n - 27) = 12 + n" by simp_all
    then show "bit (drop_bit 12 (take_bit 48 x)) n = bit (take_bit 9 (drop_bit 12 x) OR push_bit 9 (take_bit 9 (drop_bit 21 x))
        OR push_bit 18 (take_bit 9 (drop_bit 30 x)) OR push_bit 27 (take_bit 9 (drop_bit 39 x))) n"
      using \<open>n < LENGTH(64)\<close>
      by (cases "n < 9"; cases "n < 18"; cases "n < 27"; cases "n < 36") (simp_all add: bit_simps, auto)
  qed
  then have "on_page w v \<Longrightarrow> same_page w v" by (simp add: on_page_def page_path_def same_page_def word_unat_eq_iff[symmetric])
  moreover have "same_page w v \<Longrightarrow> on_page w v" by (simp add: on_page_def page_path_def same_page_def idx)
  ultimately show ?thesis by blast
qed

lemma page_table_tables:
  assumes "tab m r (page_path v) = Some f"
  shows "has_flag (pent m r [] (unat (PML4_INDEX v))) PTE_PRESENT"
    "is_table (pent m r [unat (PML4_INDEX v)] (unat (PDPT_INDEX v)))"
    "is_table (pent m r [unat (PDPT_INDEX v), unat (PML4_INDEX v)] (unat (PD_INDEX v)))"
  using assms by (auto simp: page_path_def pent_def is_table_def split: option.splits if_splits)

lemma read_pte_pent: "tab (kmem s) r p = Some f \<Longrightarrow> read_pte (ent_at f i) s = pent (kmem s) r p i"
  by (simp add: read_pte_def pent_def ent_def)

lemma leaf_write:
  assumes inv: "vm_inv s (frame pml4)" and f: "tab (kmem s) (frame pml4) (page_path virt) = Some f"
    and m: "kmem s' = store_u64 (ent_at f (unat (PT_INDEX virt))) v (kmem s)"
    and s': "pmm_inv s'" "use_buddy s'" "free_frames s' = free_frames s"
  shows "vm_inv s' (frame pml4)"
    "vmm_translate pml4 w s' = (if same_page w virt then
        (if has_flag v PTE_PRESENT then ((v AND PTE_ADDR_MASK) + (w AND (PAGE_SIZE - 1)), Some (v AND NOT PTE_ADDR_MASK)) else (0, None))
      else vmm_translate pml4 w s)"
    "path q \<Longrightarrow> tab (kmem s') (frame pml4) q = tab (kmem s) (frame pml4) q"
    "read_pte (ent_at f (unat (PT_INDEX virt))) s' = v"
proof -
  let ?r = "frame pml4"
  have ok: "tree_ok (kmem s) ?r (free_frames s)" using inv by (simp add: vm_inv_def)
  note leaf = tree_ok_leaf[OF ok page_path_path f index_lt(4)[of virt], where v = v, folded m]
  have ok': "tree_ok (kmem s') ?r (free_frames s')" using leaf(1) s'(3) by simp
  then show "vm_inv s' ?r" using inv s' by (simp add: vm_inv_def)
  show "path q \<Longrightarrow> tab (kmem s') (frame pml4) q = tab (kmem s) (frame pml4) q" by (rule leaf(2))
  show "read_pte (ent_at f (unat (PT_INDEX virt))) s' = v"
    using leaf(2)[of "page_path virt"] leaf(3)[of "page_path virt" "unat (PT_INDEX virt)"] f read_pte_pent[of s' ?r "page_path virt" f] by simp
  have P': "pent (kmem s') ?r q j = (if q = page_path virt \<and> j = unat (PT_INDEX virt) then v else pent (kmem s) ?r q j)"
    if "path q" "j < 512" for q j by (rule leaf(3)[OF that])
  show "vmm_translate pml4 w s' = (if same_page w virt then
        (if has_flag v PTE_PRESENT then ((v AND PTE_ADDR_MASK) + (w AND (PAGE_SIZE - 1)), Some (v AND NOT PTE_ADDR_MASK)) else (0, None))
      else vmm_translate pml4 w s)"
    using lookup_leaf[OF P', of w] page_table_tables[OF f]
    by (simp only: translate_lookup[OF ok] translate_lookup[OF ok'] on_page_iff) simp
qed

lemma translate_leaf:
  assumes inv: "vm_inv s (frame pml4)" and f: "tab (kmem s) (frame pml4) (page_path virt) = Some f"
    and "same_page w virt" "e = read_pte (ent_at f (unat (PT_INDEX virt))) s"
  shows "vmm_translate pml4 w s =
    (if has_flag e PTE_PRESENT then ((e AND PTE_ADDR_MASK) + (w AND (PAGE_SIZE - 1)), Some (e AND NOT PTE_ADDR_MASK)) else (0, None))"
proof -
  have ok: "tree_ok (kmem s) (frame pml4) (free_frames s)" using inv by (simp add: vm_inv_def)
  have e: "e = pent (kmem s) (frame pml4) (page_path virt) (unat (PT_INDEX virt))" using assms(4) read_pte_pent[OF f] by simp
  show ?thesis unfolding translate_lookup[OF ok]
    using assms(3) page_table_tables[OF f] e by (intro lookup_leaf(2)[where P = "pent (kmem s) (frame pml4)"]) (auto simp: on_page_iff)
qed

section \<open>Mapping and unmapping\<close>

lemma set_pte_simps [simp]:
  "kmem (set_pte ptr v s) = store_u64 ptr v (kmem s)" "pmm_inv (set_pte ptr v s) = pmm_inv s"
  "free_frames (set_pte ptr v s) = free_frames s" "use_buddy (set_pte ptr v s) = use_buddy s"
  "mem_map (set_pte ptr v s) = mem_map s" "cr3 (set_pte ptr v s) = cr3 s" "tlb_ops (set_pte ptr v s) = tlb_ops s"
  "pte_nx (set_pte ptr v s) = pte_nx s" "allocated (set_pte ptr v s) q k = allocated s q k" "max_pfn (set_pte ptr v s) = max_pfn s"
  by (simp_all add: set_pte_def)

lemma tlb_irrelevant [simp]:
  "pmm_inv (s\<lparr>tlb_ops := l\<rparr>) = pmm_inv s" "free_frames (s\<lparr>tlb_ops := l\<rparr>) = free_frames s"
  "allocated (s\<lparr>tlb_ops := l\<rparr>) q k = allocated s q k" "entry t i (s\<lparr>tlb_ops := l\<rparr>) = entry t i s"
  by (simp_all add: pmm_inv_def zone_inv_def free_frames_def allocated_def in_zone_def entry_def)

lemma translate_tlb [simp]: "vmm_translate pml4 w (s\<lparr>tlb_ops := l\<rparr>) = vmm_translate pml4 w s"
  unfolding vmm_translate_def tlb_irrelevant ..

lemma vm_inv_tlb [simp]: "vm_inv (s\<lparr>tlb_ops := l\<rparr>) r = vm_inv s r"
  by (simp add: vm_inv_def)

definition flush_ops :: "u64 \<Rightarrow> u64 \<Rightarrow> u64 \<Rightarrow> tlb_op list" where
  "flush_ops current pml4 virt =
     (if is_user_address virt then (if pml4 = current then [Invlpg virt] else []) else [Tlb_shootdown virt])"

lemma flush_if_current_eq: "flush_if_current pml4 virt s = s\<lparr>tlb_ops := flush_ops (cr3 s) pml4 virt @ tlb_ops s\<rparr>"
  by (simp add: flush_if_current_def vmm_flush_page_def cpu_invlpg_def flush_ops_def)

lemma same_view_translate:
  assumes "vm_inv s (frame pml4)" "vm_inv s' (frame pml4)" "same_view (frame pml4) (kmem s) (kmem s')"
  shows "vmm_translate pml4 w s' = vmm_translate pml4 w s"
proof -
  have "tree_ok (kmem s) (frame pml4) (free_frames s)" "tree_ok (kmem s') (frame pml4) (free_frames s')"
    using assms(1,2) by (simp_all add: vm_inv_def)
  then show ?thesis using assms(3) by (simp add: translate_lookup same_view_def)
qed

lemma leaf_value:
  assumes "phys AND PTE_ADDR_MASK = phys" and v_def: "v = phys OR (flags AND NOT PTE_ADDR_MASK) OR PTE_PRESENT"
  shows "has_flag v PTE_PRESENT" "v AND PTE_ADDR_MASK = phys" "v AND NOT PTE_ADDR_MASK = (flags AND NOT PTE_ADDR_MASK) OR PTE_PRESENT"
proof -
  show "has_flag v PTE_PRESENT" by (simp add: v_def has_flag_or) (simp add: has_flag_def PTE_PRESENT_def)
  have 1: "(flags AND NOT PTE_ADDR_MASK) AND PTE_ADDR_MASK = 0" by (simp add: and.assoc)
  show "v AND PTE_ADDR_MASK = phys" unfolding v_def bit.conj_disj_distrib2 assms(1) 1 flag_masks by simp
  have "phys AND NOT PTE_ADDR_MASK = 0" using assms(1) by (metis and.assoc bit.conj_cancel_right bit.conj_zero_right)
  moreover have "PTE_PRESENT AND NOT PTE_ADDR_MASK = PTE_PRESENT" by (simp add: PTE_PRESENT_def PTE_ADDR_MASK_def)
  ultimately show "v AND NOT PTE_ADDR_MASK = (flags AND NOT PTE_ADDR_MASK) OR PTE_PRESENT"
    by (simp add: v_def bit.conj_disj_distrib2 and.assoc)
qed

text \<open>
  C2. Page tables. Mapping a page in an address space whose tables form a tree changes the translation of
  that page, which had none, to the given frame and flags and of no other address, whatever tables the
  walk had to create, and keeps the tree; when no memory is left for a table nothing changes.
  Unmapping it again returns the frame, restores every translation and flushes the page from the TLB of
  this CPU when the address space is the current one and from all of them for kernel pages.
\<close>

theorem vmm_map_unmap:
  assumes "vm_inv s (frame pml4)" "phys AND PTE_ADDR_MASK = phys" "vmm_map_page pml4 virt phys flags s = Inr (ok, s1)"
  shows "vm_inv s1 (frame pml4) \<and>
    vmm_translate pml4 w s1 = (if ok \<and> same_page w virt
      then (phys + (w AND 0xFFF), Some ((flags AND NOT PTE_ADDR_MASK) OR PTE_PRESENT)) else vmm_translate pml4 w s) \<and>
    (ok \<longrightarrow> same_page w virt \<longrightarrow> vmm_translate pml4 w s = (0, None)) \<and>
    (ok \<longrightarrow> (\<exists>s2. vmm_unmap_page pml4 virt s1 = Inr (phys, s2) \<and> vm_inv s2 (frame pml4) \<and>
       vmm_translate pml4 w s2 = vmm_translate pml4 w s \<and> tlb_ops s2 = flush_ops (cr3 s) pml4 virt @ tlb_ops s))"
proof -
  let ?r = "frame pml4" and ?i = "unat (PT_INDEX virt)"
  let ?v = "phys OR (flags AND NOT PTE_ADDR_MASK) OR PTE_PRESENT"
  obtain res s0 where g: "vmm_get_pte pml4 virt True s = Inr (res, s0)"
    and c: "case res of None \<Rightarrow> ok = False \<and> s1 = s0
      | Some ptr \<Rightarrow> \<not> has_flag (read_pte ptr s0) PTE_PRESENT \<and> ok = True \<and> s1 = set_pte ptr ?v s0"
  proof -
    obtain res s0 where r: "vmm_get_pte pml4 virt True s = Inr (res, s0)"
      "(case res of None \<Rightarrow> Inr (False, s0) | Some pte \<Rightarrow> if has_flag (read_pte pte s0) PTE_PRESENT then Inl Already_mapped
          else Inr (True, set_pte pte ?v s0)) = Inr (ok, s1)"
      using assms(3) by (auto simp: vmm_map_page_def andthen_Inr split: if_splits)
    then show ?thesis using that[OF r(1)] by (cases res) (auto split: if_splits)
  qed
  note k = get_pte_ok[OF assms(1) g]
  have same: "vmm_translate pml4 w s0 = vmm_translate pml4 w s" using same_view_translate[OF assms(1)] k by blast
  have more: "pmm.more s0 = pmm.more s" using k by (simp add: grew_def)
  show ?thesis
  proof (cases res)
    case None
    then show ?thesis using c k same by simp
  next
    case (Some ptr)
    then obtain f where f: "tab (kmem s0) ?r (page_path virt) = Some f" "ptr = ent_at f ?i" using k by blast
    have c: "ok = True" "\<not> has_flag (read_pte (ent_at f ?i) s0) PTE_PRESENT" "s1 = set_pte (ent_at f ?i) ?v s0"
      using c Some f(2) by simp_all
    have inv0: "vm_inv s0 ?r" using k by blast
    have s1: "kmem s1 = store_u64 (ent_at f ?i) ?v (kmem s0)" "pmm_inv s1" "use_buddy s1" "free_frames s1 = free_frames s0"
      using inv0 by (simp_all add: c(3) vm_inv_def)
    note w1 = leaf_write[OF inv0 f(1) s1]
    note v = leaf_value[OF assms(2) refl, of flags]
    define s2 where "s2 = flush_if_current pml4 virt (set_pte (ent_at f ?i) 0 s1)"
    have f1: "tab (kmem s1) ?r (page_path virt) = Some f" using w1(3) f(1) by simp
    have un: "vmm_unmap_page pml4 virt s1 = Inr (phys, s2)"
      by (simp add: vmm_unmap_page_def get_pte_read f1 w1(4) v s2_def)
    have s2: "kmem s2 = store_u64 (ent_at f ?i) 0 (kmem s1)" "pmm_inv s2" "use_buddy s2" "free_frames s2 = free_frames s1"
      using s1 by (simp_all add: s2_def flush_if_current_eq)
    note w2 = leaf_write[OF w1(1) f1 s2]
    have z: "\<not> has_flag (0 :: u64) PTE_PRESENT" by (simp add: has_flag_def)
    have none: "same_page w virt \<Longrightarrow> vmm_translate pml4 w s = (0, None)"
      using translate_leaf[OF inv0 f(1) _ refl, of w] c(2) same by simp
    have "tlb_ops s2 = flush_ops (cr3 s) pml4 virt @ tlb_ops s"
      using more_fields(4,5)[OF more] by (simp add: s2_def flush_if_current_eq c(3))
    moreover have "vmm_translate pml4 w s2 = vmm_translate pml4 w s"
      using w2(2)[of w] w1(2)[of w] z none same by simp
    ultimately show ?thesis using w1(1) w1(2)[of w] v w2(1) un none same c(1) by auto
  qed
qed

section \<open>Enough memory\<close>

text \<open>The walk fails only at a large page or when the frames run out.\<close>

lemma alloc_page_succeeds:
  assumes "pmm_inv s" "free_frames s \<noteq> {}"
  shows "\<exists>g s1. alloc_pages 0 GFP_ZERO s = (Some g, s1)"
proof -
  obtain q where q: "q \<in> free_frames s" using assms(2) by blast
  have "block q 0 = {q}" by auto
  then have "runs_free s GFP_ZERO 0 q" using q by (simp add: runs_free_def GFP_ZERO_def GFP_DMA32_def has_flag_def)
  then show ?thesis using alloc_pages_succeeds[OF assms(1)] by fastforce
qed

lemma next_level_some:
  assumes inv: "vm_inv s r" and p: "path p" "tab (kmem s) r p = Some f" and ne: "free_frames s \<noteq> {}"
    and h: "has_flag (ent (kmem s) f (unat idx)) PTE_PRESENT \<Longrightarrow> \<not> has_flag (ent (kmem s) f (unat idx)) PTE_HUGE"
  shows "\<exists>t s'. next_level (page_to_virt f) idx True user s = Inr (Some t, s') \<and> card (free_frames s) \<le> Suc (card (free_frames s'))"
proof (cases "has_flag (ent (kmem s) f (unat idx)) PTE_PRESENT")
  case True
  then show ?thesis using h by (simp add: next_level_def Let_def entry_ent)
next
  case False
  have i: "pmm_inv s" "use_buddy s" "0 \<notin> free_frames s" using inv by (simp_all add: vm_inv_def)
  obtain g s1 where a: "alloc_pages 0 GFP_ZERO s = (Some g, s1)" using alloc_page_succeeds[OF i(1) ne] by blast
  have t: "alloc_table s = Inr (page_to_phys g, s1)" using i(2) a by (simp add: alloc_table_def pmm_alloc_page_def)
  have "free_frames s \<subseteq> {..<max_pfn s}" using free_frames_zone(2)[OF i(1)] by auto
  then have "finite (free_frames s)" by (rule finite_subset) simp
  have took: "took (pfn_zone g) g 0 GFP_ZERO s s1" using alloc_pages_took(1)[OF i(1) a] .
  have "block g 0 = {g}" by auto
  then have gf: "g \<in> free_frames s" "free_frames s1 = free_frames s - {g}" using took by (simp_all add: took_def)
  have "g \<noteq> 0" using gf(1) i(3) by metis
  have "g < PFN_LIMIT" using took_block_bound[OF took] by simp
  then have "page_to_phys g \<noteq> 0" using page_addr(1)[of g] \<open>g \<noteq> 0\<close> by auto
  moreover have "card (free_frames s) = Suc (card (free_frames s1))" 
    using card_Suc_Diff1[OF \<open>finite (free_frames s)\<close> gf(1)] by (simp only: gf(2))
  ultimately show ?thesis using False t by (simp add: next_level_def Let_def entry_ent set_entry_def)
qed

lemma get_pte_some:
  assumes inv: "vm_inv s (frame pml4)" and c: "3 \<le> card (free_frames s)"
    and h: "\<And>q j. path q \<Longrightarrow> j < 512 \<Longrightarrow> has_flag (pent (kmem s) (frame pml4) q j) PTE_PRESENT \<Longrightarrow> \<not> has_flag (pent (kmem s) (frame pml4) q j) PTE_HUGE"
  shows "\<exists>ptr s'. vmm_get_pte pml4 virt True s = Inr (Some ptr, s') \<and> card (free_frames s) \<le> card (free_frames s') + 3"
proof -
  let ?r = "frame pml4" and ?u = "is_user_address virt"
  let ?i4 = "unat (PML4_INDEX virt)" and ?i3 = "unat (PDPT_INDEX virt)" and ?i2 = "unat (PD_INDEX virt)"
  have ps: "path [?i4]" "path [?i3, ?i4]" by (simp_all add: path_def)
  have huge: "\<not> has_flag (ent m f j) PTE_HUGE" if "same_view ?r (kmem s) m" "path q" "tab m ?r q = Some f" "j < 512"
    "has_flag (ent m f j) PTE_PRESENT" for m q f j
  proof -
    have e: "ent m f j = pent m ?r q j" using that(3) by (simp add: pent_def)
    have "pent m ?r q j = pent (kmem s) ?r q j \<or> is_table (pent m ?r q j)" using that(1,2,4) unfolding same_view_def by blast
    then show ?thesis using h[OF that(2,4)] that(5) unfolding e is_table_def by auto
  qed
  have sv: "same_view ?r (kmem s) (kmem s)" by (simp add: same_view_def)
  have ne: "free_frames s' \<noteq> {}" if "1 \<le> card (free_frames s')" for s' :: "'a vmm_scheme" using that by auto
  obtain t1 s1 where 1: "next_level (page_to_virt ?r) (PML4_INDEX virt) True ?u s = Inr (Some t1, s1)" "card (free_frames s) \<le> card (free_frames s1) + 1"
    using next_level_some[OF inv path_Nil, of ?r "PML4_INDEX virt" ?u] huge[OF sv path_Nil] ne[of s] c by fastforce
  have k1: "vm_inv s1 ?r \<and> grew ?r s s1 \<and> same_view ?r (kmem s) (kmem s1) \<and>
    (\<forall>t. Some t1 = Some t \<longrightarrow> (\<exists>g. t = page_to_virt g \<and> tab (kmem s1) ?r [?i4] = Some g))"
    by (rule next_level_ok[OF inv _ _ _ _ 1(1)]) simp_all
  then obtain f1 where f1: "t1 = page_to_virt f1" "tab (kmem s1) ?r [?i4] = Some f1" by blast
  obtain t2 s2 where 2: "next_level t1 (PDPT_INDEX virt) True ?u s1 = Inr (Some t2, s2)" "card (free_frames s) \<le> card (free_frames s2) + 2"
    using next_level_some[OF _ ps(1) f1(2), of "PDPT_INDEX virt" ?u] k1 huge[OF _ ps(1) f1(2)] ne[of s1] c 1(2) f1(1) by fastforce
  have k2: "vm_inv s2 ?r \<and> grew ?r s1 s2 \<and> same_view ?r (kmem s1) (kmem s2) \<and>
    (\<forall>t. Some t2 = Some t \<longrightarrow> (\<exists>g. t = page_to_virt g \<and> tab (kmem s2) ?r [?i3, ?i4] = Some g))"
    using k1 2(1) f1 by (intro next_level_ok[OF _ ps(1) _ f1(2)]) simp_all
  then obtain f2 where f2: "t2 = page_to_virt f2" "tab (kmem s2) ?r [?i3, ?i4] = Some f2" by blast
  have sv2: "same_view ?r (kmem s) (kmem s2)" using k1 k2 same_view_trans by blast
  obtain t3 s3 where 3: "next_level t2 (PD_INDEX virt) True ?u s2 = Inr (Some t3, s3)" "card (free_frames s) \<le> card (free_frames s3) + 3"
    using next_level_some[OF _ ps(2) f2(2), of "PD_INDEX virt" ?u] k2 huge[OF sv2 ps(2) f2(2)] ne[of s2] c 2(2) f2(1) by fastforce
  show ?thesis using 1(1) 2(1) 3 by (simp add: vmm_get_pte_def Let_def descend_def table_virt_frame)
qed

section \<open>A small machine\<close>

text \<open>Sixty-four zeroed frames, 16 to 31 of them free; the table root is in frame 2.\<close>

definition small_vmm :: vmm where
  "small_vmm = pmm.extend (free_range 16 32 (boot_pmm 64 (\<lambda>_. 0)))
     \<lparr>use_buddy = True, boot_mem = \<lparr>mb_regions = [], mb_max_ram = 0, mb_retired = True, mb_allocated = 0\<rparr>,
      kernel_pml4 = 0x1000, pte_nx = PTE_NX, cr3 = 0x2000, tlb_ops = []\<rparr>"

lemma extend_simps [simp]:
  "pmm_inv (pmm.extend s x) = pmm_inv s" "free_frames (pmm.extend s x) = free_frames s" "kmem (pmm.extend s x) = kmem s"
  "mem_map (pmm.extend s x) = mem_map s"
  by (simp_all add: pmm_inv_def zone_inv_def free_frames_def pmm.defs)

lemma ent_zero: "ent (\<lambda>_. 0) f i = 0"
proof -
  have "load_bytes (ent_at f i) 8 (\<lambda>_. 0) = map (\<lambda>_. 0) [0..<8]" by (simp add: load_bytes_def)
  then show ?thesis by (simp add: ent_def load_u64_def upt_rec)
qed

lemma no_flag_zero [simp]: "\<not> has_flag (0 :: u64) x"
  by (simp add: has_flag_def)

lemma tab_zero: "tab (\<lambda>_. 0) r p = (if p = [] then Some r else None)"
  by (induction p) (simp_all add: ent_zero is_table_def)

lemma small_vmm_simps:
  "kmem small_vmm = (\<lambda>_. 0)" "free_frames small_vmm = {16..<32}" "pmm_inv small_vmm" "use_buddy small_vmm"
  "cr3 small_vmm = 0x2000" "tlb_ops small_vmm = []" "frame 0x2000 = 2"
proof -
  have b: "boot_pmm 64 m = boot_pmm 64 m" "max_pfn (boot_pmm 64 m) = 64" "kmem (boot_pmm 64 m) = m" for m by (simp_all add: boot_pmm_def)
  note f = free_range_ok[OF boot_pmm_inv(1), of 64 32 "\<lambda>_. 0" 16]
  show "kmem small_vmm = (\<lambda>_. 0)" "free_frames small_vmm = {16..<32}" "pmm_inv small_vmm"
    using f boot_pmm_inv(2)[of 64 "\<lambda>_. 0"] b by (simp_all add: small_vmm_def)
  show "use_buddy small_vmm" "cr3 small_vmm = 0x2000" "tlb_ops small_vmm = []" by (simp_all add: small_vmm_def pmm.defs)
  show "frame 0x2000 = 2" by (simp add: frame_def phys_to_page_def PTE_ADDR_MASK_def drop_bit_eq_div)
qed

lemma small_vmm_inv: "vm_inv small_vmm (frame 0x2000)"
  by (auto simp: vm_inv_def small_vmm_simps tree_ok_def tab_zero ent_zero split: if_splits)

theorem vmm_map_unmap_witness:
  "\<exists>s1 s2. vmm_map_page 0x2000 0x400000 0x5000 6 small_vmm = Inr (True, s1) \<and>
     vmm_translate 0x2000 0x400123 s1 = (0x5123, Some 7) \<and> vmm_unmap_page 0x2000 0x400000 s1 = Inr (0x5000, s2) \<and>
     vmm_translate 0x2000 0x400123 s2 = (0, None) \<and> tlb_ops s2 = [Invlpg 0x400000]"
proof -
  have z: "pent (kmem small_vmm) r q j = 0" for r q j by (simp add: pent_def small_vmm_simps tab_zero ent_zero)
  obtain ptr s0 where g: "vmm_get_pte 0x2000 0x400000 True small_vmm = Inr (Some ptr, s0)"
    using get_pte_some[OF small_vmm_inv, where virt = "0x400000"] z by (auto simp: small_vmm_simps)
  from get_pte_ok[OF small_vmm_inv g] obtain f where f: "tab (kmem s0) (frame 0x2000) (page_path 0x400000) = Some f"
    "ptr = ent_at f (unat (PT_INDEX 0x400000))" "same_view (frame 0x2000) (kmem small_vmm) (kmem s0)" by blast
  have "read_pte ptr s0 = 0" using f(3) z read_pte_pent[OF f(1)] unfolding f(2) same_view_def by simp
  moreover have al: "is_aligned 0x400000 PAGE_SIZE" "is_aligned 0x5000 PAGE_SIZE" by (simp_all add: is_aligned_def)
  ultimately obtain s1 where m: "vmm_map_page 0x2000 0x400000 0x5000 6 small_vmm = Inr (True, s1)"
    using g by (simp add: vmm_map_page_def)
  have p: "(0x5000 :: u64) AND PTE_ADDR_MASK = 0x5000" by (simp add: PTE_ADDR_MASK_def)
  have s: "same_page 0x400123 0x400000" by (simp add: same_page_def take_bit_eq_mod drop_bit_eq_div)
  have "vmm_translate 0x2000 0x400123 small_vmm = (0, None)"
    using translate_lookup[of small_vmm "0x2000" "free_frames small_vmm" "0x400123"] small_vmm_inv z
    by (simp add: vm_inv_def lookup_def Let_def)
  moreover have "flush_ops 0x2000 0x2000 0x400000 = [Invlpg 0x400000]" by (simp add: flush_ops_def is_user_address_def)
  ultimately show ?thesis
    using vmm_map_unmap[OF small_vmm_inv p m, of "0x400123"] m s
    by (auto simp: small_vmm_simps PTE_ADDR_MASK_def PTE_PRESENT_def)
qed

end
