(* ===== verification/Mm_Fault.thy ===== *)
theory Mm_Fault
  imports Mm_Areas Vmm_Proofs
begin

text \<open>
  Page faults: what \<^verbatim>\<open>fault_page\<close> does to the memory a process sees. A first touch shows zeroes, a write
  to a shared page shows the old contents in a private copy, and neither changes any other page of the
  process nor any frame in use elsewhere.
\<close>

section \<open>Steps that leave the tables alone\<close>

lemma vm_step:
  assumes "vm_inv s (frame pml4)" "pmm_inv s'" "use_buddy s'" "free_frames s' \<subseteq> free_frames s"
    "same_tables (frame pml4) (kmem s) (kmem s')"
  shows "vm_inv s' (frame pml4)" "vmm_translate pml4 w s' = vmm_translate pml4 w s"
    "path q \<Longrightarrow> tab (kmem s') (frame pml4) q = tab (kmem s) (frame pml4) q"
    "path q \<Longrightarrow> i < 512 \<Longrightarrow> pent (kmem s') (frame pml4) q i = pent (kmem s) (frame pml4) q i"
proof -
  have ok: "tree_ok (kmem s) (frame pml4) (free_frames s)" using assms(1) by (simp add: vm_inv_def)
  have ok': "tree_ok (kmem s') (frame pml4) (free_frames s')" by (rule tree_ok_cong[OF ok assms(5,4)])
  show "vm_inv s' (frame pml4)" using ok' assms(1-4) by (auto simp: vm_inv_def)
  show "path q \<Longrightarrow> tab (kmem s') (frame pml4) q = tab (kmem s) (frame pml4) q" by (rule tab_cong[OF assms(5)])
  show p: "path q \<Longrightarrow> i < 512 \<Longrightarrow> pent (kmem s') (frame pml4) q i = pent (kmem s) (frame pml4) q i" for q i
    by (rule pent_cong[OF assms(5)])
  have ps: "path [unat (PML4_INDEX w)]" "path [unat (PDPT_INDEX w), unat (PML4_INDEX w)]"
    "path [unat (PD_INDEX w), unat (PDPT_INDEX w), unat (PML4_INDEX w)]" by (simp_all add: path_def)
  show "vmm_translate pml4 w s' = vmm_translate pml4 w s"
    unfolding translate_lookup[OF ok] translate_lookup[OF ok'] lookup_def Let_def
      p[OF path_Nil index_lt(1)] p[OF ps(1) index_lt(2)] p[OF ps(2) index_lt(3)] p[OF ps(3) index_lt(4)] ..
qed

lemma same_tablesI:
  assumes "\<And>f. f \<in> tables m r \<Longrightarrow> same_frame f m m'"
  shows "same_tables r m m'"
  using assms by (auto simp: same_tables_def tables_def)

lemma tables_not_free:
  assumes "vm_inv s r" "f \<in> tables (kmem s) r"
  shows "f < PFN_LIMIT" "f \<notin> free_frames s"
  using assms tree_okD(1,2)[of "kmem s" r "free_frames s"] by (auto simp: vm_inv_def tables_def)

text \<open>Changing a page descriptor, except for its buddy state.\<close>

lemma vm_upd_page:
  assumes "pg_flags (f (mem_map s p)) = pg_flags (mem_map s p)" "pg_order (f (mem_map s p)) = pg_order (mem_map s p)"
  shows "pmm_inv s \<Longrightarrow> pmm_inv (upd_page p f s)" "free_frames (upd_page p f s) = free_frames s"
    "kmem (upd_page p f s) = kmem s" "use_buddy (upd_page p f s) = use_buddy s" "pte_nx (upd_page p f s) = pte_nx s"
    "allocated s q k \<Longrightarrow> allocated (upd_page p f s) q k"
proof -
  show "pmm_inv s \<Longrightarrow> pmm_inv (upd_page p f s)" using pmm_inv_upd_page(1)[of s f p] assms by simp
  show "free_frames (upd_page p f s) = free_frames s" "kmem (upd_page p f s) = kmem s" "use_buddy (upd_page p f s) = use_buddy s"
    "pte_nx (upd_page p f s) = pte_nx s"
    by (simp_all add: free_frames_def upd_page_def)
  show "allocated s q k \<Longrightarrow> allocated (upd_page p f s) q k"
    using assms by (auto simp: allocated_def in_zone_def free_frames_def upd_page_def)
qed

text \<open>A frame taken from the allocator.\<close>

lemma alloc_frame:
  assumes inv: "vm_inv s (frame pml4)" and a: "alloc_pages 0 gf s = (Some p, s1)"
  shows "p < PFN_LIMIT" "p \<in> free_frames s" "p \<notin> tables (kmem s) (frame pml4)" "pmm_inv s1" "free_frames s1 = free_frames s - {p}"
    "use_buddy s1" "allocated s1 p 0" "pg_refcount (mem_map s1 p) = 1" "pte_nx s1 = pte_nx s"
    "\<And>q. q \<notin> free_frames s \<Longrightarrow> mem_map s1 q = mem_map s q" "\<And>q k. allocated s q k \<Longrightarrow> allocated s1 q k"
    "\<And>f. f < PFN_LIMIT \<Longrightarrow> f \<noteq> p \<Longrightarrow> same_frame f (kmem s) (kmem s1)"
    "has_flag gf GFP_ZERO \<Longrightarrow> k < 4096 \<Longrightarrow> kmem s1 (page_to_virt p + of_nat k) = 0"
proof -
  have i: "pmm_inv s" "use_buddy s" using inv by (simp_all add: vm_inv_def)
  note t = alloc_pages_took(1)[OF i(1) a]
  have blk: "block p 0 = {p}" by auto
  show p: "p < PFN_LIMIT" using took_block_bound[OF t] by simp
  show "p \<in> free_frames s" "pmm_inv s1" "free_frames s1 = free_frames s - {p}" "allocated s1 p 0" "pg_refcount (mem_map s1 p) = 1"
    "\<And>q. q \<notin> free_frames s \<Longrightarrow> mem_map s1 q = mem_map s q"
    using t by (simp_all add: took_def blk)
  then show "p \<notin> tables (kmem s) (frame pml4)" using tables_not_free(2)[OF inv] by blast
  show "use_buddy s1" "pte_nx s1 = pte_nx s" using more_fields[of s1 s] t i(2) by (simp_all add: took_def)
  show "\<And>q k. allocated s q k \<Longrightarrow> allocated s1 q k" using took_keeps[OF t] .
  have m: "kmem s1 = (if has_flag gf GFP_ZERO then memset (page_to_virt p) 0 4096 (kmem s) else kmem s)" using t by (simp add: took_def)
  show "\<And>f. f < PFN_LIMIT \<Longrightarrow> f \<noteq> p \<Longrightarrow> same_frame f (kmem s) (kmem s1)"
    using memset_same_frame[OF p] by (simp add: m)
  show "has_flag gf GFP_ZERO \<Longrightarrow> k < 4096 \<Longrightarrow> kmem s1 (page_to_virt p + of_nat k) = 0"
    using memset_frame[OF p p] by (simp add: m)
qed

lemma alloc_frame_step:
  assumes inv: "vm_inv s (frame pml4)" and a: "alloc_pages 0 gf s = (Some p, s1)"
  shows "same_tables (frame pml4) (kmem s) (kmem s1)"
  using alloc_frame(3,12)[OF inv a] tables_not_free(1)[OF inv] by (intro same_tablesI) blast

section \<open>Copying a frame\<close>

lemma memcpy_frame:
  assumes "f < PFN_LIMIT" "g < PFN_LIMIT" "f \<noteq> g" "h < PFN_LIMIT" "k < 4096"
  shows "memcpy (page_to_virt f) (page_to_virt g) 4096 m (page_to_virt h + of_nat k) =
    (if h = f then m (page_to_virt g + of_nat k) else m (page_to_virt h + of_nat k))"
proof -
  have u: "unat (page_to_virt x) = 0xFFFF800000000000 + x * 4096" if "x < PFN_LIMIT" for x
    using frame_addr[OF that, of 0] by simp
  have fit: "fits (page_to_virt f) 4096" "fits (page_to_virt g) 4096" using assms by (simp_all add: fits_def u)
  have "unat (page_to_virt f) \<le> unat (page_to_virt g) \<or> unat (page_to_virt g) + 4096 \<le> unat (page_to_virt f)"
    using assms(3) u[OF assms(1)] u[OF assms(2)] by (cases "f < g") auto
  moreover have "in_block (page_to_virt h + of_nat k) (page_to_virt f) 4096 \<longleftrightarrow> h = f"
    using assms(5) by (auto simp: in_block_def u[OF assms(1)] frame_addr[OF assms(4,5)])
  ultimately show ?thesis using fit by (auto simp: memcpy_apply)
qed

text \<open>What the process sees at an address.\<close>

definition user_byte :: "u64 \<Rightarrow> u64 \<Rightarrow> 'a vmm_scheme \<Rightarrow> u8 option" where
  "user_byte pml4 w s =
     (case vmm_translate pml4 w s of (phys, flags) \<Rightarrow> map_option (\<lambda>_. kmem s (phys_to_virt phys)) flags)"

lemma phys_to_virt_frame: "phys_to_virt (page_to_phys f + x) = page_to_virt f + x"
  by (simp add: phys_to_virt_def page_to_virt_def algebra_simps)

lemma page_offset_lt: "unat (w AND 0xFFF :: u64) < 4096"
  using take_bit_nat_less_exp[of 12 "unat w"] by (simp add: and_low_bits unsigned_take_bit_eq)

lemma same_frame_at: "same_frame g m m' \<Longrightarrow> m' (page_to_virt g + (w AND 0xFFF)) = m (page_to_virt g + (w AND 0xFFF))"
proof -
  assume "same_frame g m m'"
  then have "m' (page_to_virt g + of_nat (unat (w AND 0xFFF))) = m (page_to_virt g + of_nat (unat (w AND 0xFFF)))"
    using page_offset_lt[of w] unfolding same_frame_def by blast
  then show ?thesis by simp
qed

lemma user_byte_leaf:
  assumes "vm_inv s (frame pml4)" "tab (kmem s) (frame pml4) (page_path page) = Some f" "same_page w page"
    "e = read_pte (ent_at f (unat (PT_INDEX page))) s" "has_flag e PTE_PRESENT"
  shows "user_byte pml4 w s = Some (kmem s (page_to_virt (frame e) + (w AND 0xFFF)))"
  using translate_leaf[OF assms(1-4)] assms(5)
  by (simp add: user_byte_def flip: page_to_phys_frame) (simp add: phys_to_virt_frame)

section \<open>The page fault\<close>

definition page_entry :: "'a vmm_scheme \<Rightarrow> u64 \<Rightarrow> u64 \<Rightarrow> u64" where
  "page_entry s pml4 page = pent (kmem s) (frame pml4) (page_path page) (unat (PT_INDEX page))"

text \<open>A present page is an owned frame with at least one reference, and not one of the tables.\<close>

definition backed :: "'a vmm_scheme \<Rightarrow> u64 \<Rightarrow> u64 \<Rightarrow> bool" where
  "backed s pml4 page \<longleftrightarrow> (let e = page_entry s pml4 page in has_flag e PTE_PRESENT \<longrightarrow>
     frame e \<notin> tables (kmem s) (frame pml4) \<and> allocated s (frame e) 0 \<and> 0 < sint (pg_refcount (mem_map s (frame e))))"

definition untouched :: "u64 \<Rightarrow> 'a vmm_scheme \<Rightarrow> 'a vmm_scheme \<Rightarrow> bool" where
  "untouched pml4 s s' \<longleftrightarrow> (\<forall>g<PFN_LIMIT. g \<notin> free_frames s \<longrightarrow> g \<notin> tables (kmem s) (frame pml4) \<longrightarrow> same_frame g (kmem s) (kmem s'))"

lemma user_byte_same:
  assumes "vm_inv s (frame pml4)" "tab (kmem s) (frame pml4) (page_path page) = Some f" "same_page w page"
    "\<not> has_flag (page_entry s pml4 page) PTE_PRESENT"
  shows "user_byte pml4 w s = None"
  using translate_leaf[OF assms(1-3) refl] assms(4) read_pte_pent[OF assms(2)] by (simp add: user_byte_def page_entry_def)

lemma prot_flags:
  assumes "pte_nx s \<in> {0, PTE_NX}"
  shows "(prot_to_pte prot s OR PTE_PRESENT) AND PTE_ADDR_MASK = 0"
    "has_flag prot PROT_WRITE \<Longrightarrow> has_flag (prot_to_pte prot s OR PTE_PRESENT) PTE_WRITABLE"
    "has_flag (prot_to_pte prot s OR PTE_PRESENT) PTE_PRESENT"
proof -
  show "(prot_to_pte prot s OR PTE_PRESENT) AND PTE_ADDR_MASK = 0"
    using assms by (auto simp: prot_to_pte_def bit.conj_disj_distrib2)
  show "has_flag prot PROT_WRITE \<Longrightarrow> has_flag (prot_to_pte prot s OR PTE_PRESENT) PTE_WRITABLE"
    by (simp add: prot_to_pte_def has_flag_or) (simp add: has_flag_def PTE_WRITABLE_def)
  show "has_flag (prot_to_pte prot s OR PTE_PRESENT) PTE_PRESENT"
    by (simp add: has_flag_or) (simp add: has_flag_def PTE_PRESENT_def)
qed

text \<open>Entering a fresh frame into the page table.\<close>

lemma install_page:
  assumes inv: "vm_inv s (frame pml4)" and f: "tab (kmem s) (frame pml4) (page_path page) = Some f"
    and p: "p < PFN_LIMIT" "p \<notin> tables (kmem s) (frame pml4)" and nx: "pte_nx s \<in> {0, PTE_NX}"
    and fl: "fl = prot_to_pte prot s OR PTE_PRESENT"
    and s': "kmem s' = store_u64 (ent_at f (unat (PT_INDEX page))) (page_to_phys p OR fl) (kmem s)"
      "pmm_inv s'" "use_buddy s'" "free_frames s' = free_frames s"
  shows "vm_inv s' (frame pml4)" "\<not> same_page w page \<Longrightarrow> vmm_translate pml4 w s' = vmm_translate pml4 w s"
    "same_page w page \<Longrightarrow> user_byte pml4 w s' = Some (kmem s (page_to_virt p + (w AND 0xFFF)))"
    "vmm_translate pml4 page s' = (page_to_phys p + (page AND 0xFFF), Some fl)" "page_entry s' pml4 page = page_to_phys p OR fl"
    "g < PFN_LIMIT \<Longrightarrow> g \<notin> tables (kmem s) (frame pml4) \<Longrightarrow> same_frame g (kmem s) (kmem s')"
proof -
  let ?v = "page_to_phys p OR fl" and ?r = "frame pml4" and ?i = "unat (PT_INDEX page)"
  note w = leaf_write[OF inv f s']
  have m: "fl AND PTE_ADDR_MASK = 0" "has_flag fl PTE_PRESENT" using prot_flags[OF nx, of prot] by (simp_all add: fl)
  have v: "has_flag ?v PTE_PRESENT" "frame ?v = p" "?v AND PTE_ADDR_MASK = page_to_phys p" "?v AND NOT PTE_ADDR_MASK = fl"
  proof -
    show "has_flag ?v PTE_PRESENT" using m(2) by (simp add: has_flag_or)
    show "frame ?v = p" by (rule frame_pte[OF p(1) m(1)])
    then show "?v AND PTE_ADDR_MASK = page_to_phys p" using page_to_phys_frame[of ?v] by simp
    have "page_to_phys p AND NOT PTE_ADDR_MASK = 0" using page_to_phys_mask[OF p(1)] by (metis and.assoc bit.conj_cancel_right bit.conj_zero_right)
    moreover have "fl AND NOT PTE_ADDR_MASK = fl"
    proof -
      have "fl = fl AND (PTE_ADDR_MASK OR NOT PTE_ADDR_MASK)" by simp
      also have "\<dots> = fl AND NOT PTE_ADDR_MASK" unfolding bit.conj_disj_distrib m(1) by simp
      finally show ?thesis by simp
    qed
    ultimately show "?v AND NOT PTE_ADDR_MASK = fl" by (simp add: bit.conj_disj_distrib2)
  qed
  show inv': "vm_inv s' ?r" by (rule w(1))
  show "\<not> same_page w page \<Longrightarrow> vmm_translate pml4 w s' = vmm_translate pml4 w s" by (simp add: w(2))
  show "vmm_translate pml4 page s' = (page_to_phys p + (page AND 0xFFF), Some fl)" by (simp add: w(2) v same_page_def)
  have f': "tab (kmem s') ?r (page_path page) = Some f" using w(3) f by simp
  show "page_entry s' pml4 page = ?v" using w(4) read_pte_pent[OF f'] by (simp add: page_entry_def)
  show same: "same_frame g (kmem s) (kmem s')" if "g < PFN_LIMIT" "g \<notin> tables (kmem s) ?r" for g
  proof -
    have t: "f \<in> tables (kmem s) ?r" using f by (auto simp: tables_def intro: exI[of _ "page_path page"])
    then have "f \<noteq> g" using that by auto
    with store_same_frame[OF tables_not_free(1)[OF inv t] index_lt(4) that(1)] show ?thesis by (simp add: s'(1))
  qed
  show "same_page w page \<Longrightarrow> user_byte pml4 w s' = Some (kmem s (page_to_virt p + (w AND 0xFFF)))"
    using user_byte_leaf[OF inv' f' _ w(4)[symmetric] v(1), of w] v(2) same_frame_at[OF same[OF p]] by simp
qed

definition private_page :: "u64 \<Rightarrow> u64 \<Rightarrow> 'a vmm_scheme \<Rightarrow> bool" where
  "private_page pml4 page s \<longleftrightarrow> pg_refcount (mem_map s (frame (page_entry s pml4 page))) = 1"

definition fault_post :: "u64 \<Rightarrow> u64 \<Rightarrow> bool \<Rightarrow> u32 \<Rightarrow> 'a vmm_scheme \<Rightarrow> bool \<Rightarrow> 'a vmm_scheme \<Rightarrow> bool" where
  "fault_post pml4 page wr prot s ok s' \<longleftrightarrow> vm_inv s' (frame pml4) \<and> untouched pml4 s s' \<and>
     (\<forall>w. \<not> (ok \<and> same_page w page) \<longrightarrow> vmm_translate pml4 w s' = vmm_translate pml4 w s) \<and>
     (ok \<longrightarrow> (\<forall>w. same_page w page \<longrightarrow> user_byte pml4 w s' = Some (case user_byte pml4 w s of None \<Rightarrow> 0 | Some b \<Rightarrow> b))) \<and>
     (ok \<longrightarrow> wr \<longrightarrow> has_flag prot PROT_WRITE \<longrightarrow>
        (\<exists>phys fl. vmm_translate pml4 page s' = (phys, Some fl) \<and> has_flag fl PTE_WRITABLE)) \<and>
     (ok \<longrightarrow> wr \<longrightarrow> has_flag (page_entry s pml4 page) PTE_COW \<or> \<not> has_flag (page_entry s pml4 page) PTE_PRESENT \<longrightarrow>
        private_page pml4 page s')"

lemma fault_post_refl: "vm_inv s (frame pml4) \<Longrightarrow> fault_post pml4 page wr prot s False s"
  by (simp add: fault_post_def untouched_def)

lemma fault_okI:
  assumes "vm_inv s' (frame pml4)" "untouched pml4 s s'" "\<And>w. \<not> same_page w page \<Longrightarrow> vmm_translate pml4 w s' = vmm_translate pml4 w s"
    "\<And>w. same_page w page \<Longrightarrow> user_byte pml4 w s' = Some (case user_byte pml4 w s of None \<Rightarrow> 0 | Some b \<Rightarrow> b)"
    "has_flag prot PROT_WRITE \<Longrightarrow> \<exists>phys fl. vmm_translate pml4 page s' = (phys, Some fl) \<and> has_flag fl PTE_WRITABLE"
    "private_page pml4 page s'"
  shows "fault_post pml4 page wr prot s True s'"
  using assms unfolding fault_post_def by blast

lemma same_page_refl [simp]: "same_page w w"
  by (simp add: same_page_def)

text \<open>The first touch.\<close>

lemma fault_demand:
  assumes inv: "vm_inv s (frame pml4)" and f: "tab (kmem s) (frame pml4) (page_path page) = Some f"
    and nx: "pte_nx s \<in> {0, PTE_NX}" and absent: "\<not> has_flag (page_entry s pml4 page) PTE_PRESENT"
    and a: "alloc_pages 0 GFP_ZERO s = (Some p, s1)"
  shows "fault_post pml4 page wr prot s True (set_pte (ent_at f (unat (PT_INDEX page)))
    (page_to_phys p OR prot_to_pte prot s1 OR PTE_PRESENT) (upd_page p (\<lambda>pg. pg\<lparr>pg_mapcount := 1\<rparr>) s1))" (is "fault_post _ _ _ _ _ _ ?s'")
proof -
  let ?s2 = "upd_page p (\<lambda>pg. pg\<lparr>pg_mapcount := 1\<rparr>) s1"
  note al = alloc_frame[OF inv a]
  note u = vm_upd_page[of "\<lambda>pg. pg\<lparr>pg_mapcount := 1\<rparr>" s1 p, simplified]
  have s2: "pmm_inv ?s2" "use_buddy ?s2" "free_frames ?s2 \<subseteq> free_frames s" "same_tables (frame pml4) (kmem s) (kmem ?s2)"
    using al(4,5,6) u alloc_frame_step[OF inv a] by auto
  note st = vm_step[OF inv s2]
  have f2: "tab (kmem ?s2) (frame pml4) (page_path page) = Some f" using st(3) f by simp
  have tb: "tables (kmem ?s2) (frame pml4) = tables (kmem s) (frame pml4)" using st(3) by (auto simp: tables_def)
  have nx2: "pte_nx ?s2 \<in> {0, PTE_NX}" using nx al(9) u(5) by simp
  have pr: "prot_to_pte prot ?s2 = prot_to_pte prot s1" by (simp add: prot_to_pte_def u(5))
  have i: "kmem ?s' = store_u64 (ent_at f (unat (PT_INDEX page))) (page_to_phys p OR (prot_to_pte prot s1 OR PTE_PRESENT)) (kmem ?s2)"
    "pmm_inv ?s'" "use_buddy ?s'" "free_frames ?s' = free_frames ?s2"
    using s2(1,2) by (simp_all add: or.assoc)
  note ins = install_page[OF st(1) f2 al(1) _ nx2 refl, where prot = prot, unfolded tb pr, OF al(3) i]
  have zero: "kmem ?s2 (page_to_virt p + (w AND 0xFFF)) = 0" for w
    using al(13)[of "unat (w AND 0xFFF)"] page_offset_lt[of w] u(3) by (simp add: has_flag_def GFP_ZERO_def)
  have "untouched pml4 s ?s'" unfolding untouched_def
  proof (intro allI impI)
    fix g assume g: "g < PFN_LIMIT" "g \<notin> free_frames s" "g \<notin> tables (kmem s) (frame pml4)"
    then have "same_frame g (kmem s) (kmem ?s2)" using al(2) al(12)[of g] by auto
    with ins(6)[OF g(1,3)] show "same_frame g (kmem s) (kmem ?s')" by (rule same_frame_trans[rotated])
  qed
  moreover have "user_byte pml4 w ?s' = Some 0" if "same_page w page" for w using ins(3)[OF that] zero by simp
  moreover have "private_page pml4 page ?s'"
  proof -
    have "frame (page_entry ?s' pml4 page) = p" using ins(5) frame_pte[OF al(1) prot_flags(1)[OF nx2, of prot]] by (simp add: pr)
    then show ?thesis using al(8) by (simp add: private_page_def)
  qed
  moreover have "has_flag (prot_to_pte prot s1 OR PTE_PRESENT) PTE_WRITABLE" if "has_flag prot PROT_WRITE"
    using prot_flags(2)[OF nx2 that] by (simp add: pr)
  ultimately show ?thesis
    using ins(1,2,4) st(2) user_byte_same[OF inv f _ absent] by (intro fault_okI) auto
qed

text \<open>The last sharer takes the page over.\<close>

lemma flag_keep_mask: "x AND PTE_ADDR_MASK = 0 \<Longrightarrow> (e AND NOT x) AND PTE_ADDR_MASK = e AND PTE_ADDR_MASK" for x e :: u64
proof -
  assume "x AND PTE_ADDR_MASK = 0"
  then have "\<not> (bit x n \<and> bit PTE_ADDR_MASK n)" for n by (metis bit_and_iff bit_0_eq bot_apply bot_bool_def)
  then show ?thesis by (intro bit_word_eqI) (auto simp: bit_and_iff bit_not_iff possible_bit_def)
qed

lemma adopt_value:
  fixes e :: u64
  assumes "v = e AND NOT PTE_COW OR PTE_WRITABLE" "has_flag e PTE_PRESENT"
  shows "has_flag v PTE_PRESENT" "frame v = frame e" "has_flag (v AND NOT PTE_ADDR_MASK) PTE_WRITABLE"
proof -
  have "PTE_COW AND PTE_PRESENT = 0" by (simp add: PTE_COW_def PTE_PRESENT_def)
  then show "has_flag v PTE_PRESENT" using assms(2) by (simp add: assms(1) has_flag_or has_flag_clear_other)
  show "frame v = frame e" by (simp add: frame_def assms(1) bit.conj_disj_distrib2 flag_keep_mask)
  have "(v AND NOT PTE_ADDR_MASK) AND PTE_WRITABLE = PTE_WRITABLE"
    by (simp add: assms(1) bit.conj_disj_distrib2 PTE_WRITABLE_def PTE_ADDR_MASK_def PTE_COW_def and.assoc)
  then show "has_flag (v AND NOT PTE_ADDR_MASK) PTE_WRITABLE" by (simp add: has_flag_def PTE_WRITABLE_def)
qed

lemma leaf_same_frame:
  assumes "vm_inv s (frame pml4)" "tab (kmem s) (frame pml4) (page_path page) = Some f" "kmem s' = store_u64 (ent_at f (unat (PT_INDEX page))) v (kmem s)"
    "g < PFN_LIMIT" "g \<notin> tables (kmem s) (frame pml4)"
  shows "same_frame g (kmem s) (kmem s')"
proof -
  have t: "f \<in> tables (kmem s) (frame pml4)" using assms(2) by (auto simp: tables_def intro: exI[of _ "page_path page"])
  then have "f \<noteq> g" using assms(5) by auto
  with store_same_frame[OF tables_not_free(1)[OF assms(1) t] index_lt(4) assms(4)] show ?thesis by (simp add: assms(3))
qed

lemma backed_frame:
  assumes "vm_inv s (frame pml4)" "backed s pml4 page" "has_flag (page_entry s pml4 page) PTE_PRESENT"
  shows "frame (page_entry s pml4 page) < PFN_LIMIT" "frame (page_entry s pml4 page) \<notin> free_frames s"
    "frame (page_entry s pml4 page) \<notin> tables (kmem s) (frame pml4)" "allocated s (frame (page_entry s pml4 page)) 0"
    "0 < sint (pg_refcount (mem_map s (frame (page_entry s pml4 page))))"
proof -
  let ?f = "frame (page_entry s pml4 page)"
  show a: "allocated s ?f 0" "?f \<notin> tables (kmem s) (frame pml4)" "0 < sint (pg_refcount (mem_map s ?f))"
    using assms(2,3) by (simp_all add: backed_def Let_def)
  have i: "pmm_inv s" "max_pfn s \<le> PFN_LIMIT" using assms(1) by (simp_all add: vm_inv_def pmm_inv_def)
  have "?f < max_pfn s" using in_zone_pfn_zone(2)[OF i(1) _ block_head[of ?f 0]] a(1) by (simp add: allocated_def)
  then show "?f < PFN_LIMIT" using i(2) by simp
  show "?f \<notin> free_frames s" using a(1) block_head[of ?f 0] unfolding allocated_def by blast
qed

lemma fault_adopt:
  assumes inv: "vm_inv s (frame pml4)" and f: "tab (kmem s) (frame pml4) (page_path page) = Some f"
    and b: "backed s pml4 page" and e: "e = page_entry s pml4 page" "has_flag e PTE_PRESENT"
    and rc: "pg_refcount (mem_map s (frame e)) = 1"
  shows "fault_post pml4 page wr prot s True
    (cpu_invlpg page (set_pte (ent_at f (unat (PT_INDEX page))) (e AND NOT PTE_COW OR PTE_WRITABLE) s))" (is "fault_post _ _ _ _ _ _ ?s'")
proof -
  let ?v = "e AND NOT PTE_COW OR PTE_WRITABLE"
  note bf = backed_frame[OF inv b, folded e(1), OF e(2)]
  have i: "kmem ?s' = store_u64 (ent_at f (unat (PT_INDEX page))) ?v (kmem s)" "pmm_inv ?s'" "use_buddy ?s'" "free_frames ?s' = free_frames s"
    using inv by (simp_all add: cpu_invlpg_def vm_inv_def)
  note w = leaf_write[OF inv f i]
  note v = adopt_value[OF refl e(2)]
  have same: "same_frame g (kmem s) (kmem ?s')" if "g < PFN_LIMIT" "g \<notin> tables (kmem s) (frame pml4)" for g
    by (rule leaf_same_frame[OF inv f i(1) that])
  have f': "tab (kmem ?s') (frame pml4) (page_path page) = Some f" using w(3) f by simp
  have pe: "page_entry ?s' pml4 page = ?v" using w(4) read_pte_pent[OF f'] by (simp add: page_entry_def)
  have er: "e = read_pte (ent_at f (unat (PT_INDEX page))) s" using read_pte_pent[OF f] e(1) by (simp add: page_entry_def)
  have "user_byte pml4 x ?s' = user_byte pml4 x s" if x: "same_page x page" for x
    using user_byte_leaf[OF w(1) f' x w(4)[symmetric] v(1)] user_byte_leaf[OF inv f x er e(2)] v(2) same_frame_at[OF same[OF bf(1,3)]] by simp
  moreover have "user_byte pml4 x s \<noteq> None" if x: "same_page x page" for x
    using user_byte_leaf[OF inv f x er e(2)] by simp
  ultimately have "user_byte pml4 x ?s' = Some (case user_byte pml4 x s of None \<Rightarrow> 0 | Some b \<Rightarrow> b)" if "same_page x page" for x
    using that by fastforce
  moreover have "\<exists>phys fl. vmm_translate pml4 page ?s' = (phys, Some fl) \<and> has_flag fl PTE_WRITABLE"
    using w(2)[of page] v(1,3) by simp
  moreover have "vmm_translate pml4 x ?s' = vmm_translate pml4 x s" if "\<not> same_page x page" for x using w(2)[of x] that by simp
  moreover have "private_page pml4 page ?s'" using rc v(2) by (simp add: private_page_def pe) (simp add: cpu_invlpg_def)
  moreover have "untouched pml4 s ?s'" using same by (simp add: untouched_def)
  ultimately show ?thesis using w(1) by (intro fault_okI)
qed

text \<open>A sharer that writes gets a copy.\<close>

definition put_one :: "page \<Rightarrow> page" where
  "put_one pg = (if pg_mapcount pg \<noteq> 0 then pg\<lparr>pg_mapcount := pg_mapcount pg - 1\<rparr> else pg)\<lparr>pg_refcount := pg_refcount pg - 1\<rparr>"

lemma put_shared:
  assumes "1 < sint (pg_refcount (mem_map s q))"
  shows "put_page q (drop_mapcount q s) = Inr (upd_page q put_one s)"
proof -
  have "sint (pg_refcount (mem_map s q) - 1) = sint (pg_refcount (mem_map s q)) - 1" using assms by (intro sint32_dec) simp
  then have "0 < sint (pg_refcount (mem_map s q) - 1)" using assms by simp
  then have "pg_refcount (mem_map s q) - 1 \<noteq> 0" "\<not> sint (pg_refcount (mem_map s q) - 1) < 0" by auto
  then show ?thesis
    by (auto simp: put_page_def drop_mapcount_def Let_def put_one_def upd_page_def fun_upd_def fun_eq_iff)
qed

lemma put_one_keeps: "pg_flags (put_one pg) = pg_flags pg" "pg_order (put_one pg) = pg_order pg"
  by (simp_all add: put_one_def)

lemma fault_copy:
  assumes inv: "vm_inv s (frame pml4)" and f: "tab (kmem s) (frame pml4) (page_path page) = Some f"
    and nx: "pte_nx s \<in> {0, PTE_NX}" and b: "backed s pml4 page" and e: "e = page_entry s pml4 page" "has_flag e PTE_PRESENT"
    and rc: "pg_refcount (mem_map s (frame e)) \<noteq> 1" and a: "alloc_pages 0 0 s = (Some p, s1)"
    and s2: "s2 = upd_page p (\<lambda>pg. pg\<lparr>pg_mapcount := 1\<rparr>) (s1\<lparr>kmem := memcpy (page_to_virt p) (page_to_virt (frame e)) 4096 (kmem s1)\<rparr>)"
    and s3: "s3 = set_pte (ent_at f (unat (PT_INDEX page))) (page_to_phys p OR prot_to_pte prot s2 OR PTE_PRESENT) s2"
  shows "\<exists>s4. put_page (frame e) (drop_mapcount (frame e) s3) = Inr s4 \<and> fault_post pml4 page wr prot s True (cpu_invlpg page s4)"
proof -
  let ?r = "frame pml4"
  note al = alloc_frame[OF inv a]
  note bf = backed_frame[OF inv b, folded e(1), OF e(2)]
  have ne: "frame e \<noteq> p" using bf(2) al(2) by auto
  have k2: "kmem s2 = memcpy (page_to_virt p) (page_to_virt (frame e)) 4096 (kmem s1)" by (simp add: s2 upd_page_def)
  have frame2: "same_frame g (kmem s) (kmem s2)" if "g < PFN_LIMIT" "g \<noteq> p" for g
  proof -
    have "same_frame g (kmem s1) (kmem s2)" using that ne bf(1) al(1) by (simp add: same_frame_def k2 memcpy_frame)
    with al(12)[OF that] show ?thesis by (rule same_frame_trans)
  qed
  have copied: "kmem s2 (page_to_virt p + (w AND 0xFFF)) = kmem s (page_to_virt (frame e) + (w AND 0xFFF))" for w
    using memcpy_frame[OF al(1) bf(1) ne[symmetric] al(1) page_offset_lt[of w], of "kmem s1"] same_frame_at[OF al(12)[OF bf(1) ne], of w]
    by (simp add: k2)
  have m2: "mem_map s2 = (mem_map s1)(p := (mem_map s1 p)\<lparr>pg_mapcount := 1\<rparr>)" by (simp add: s2 upd_page_def)
  have i2: "pmm_inv s2" "use_buddy s2" "free_frames s2 = free_frames s1" "pte_nx s2 = pte_nx s"
    using al(4,6,9) vm_upd_page[of "\<lambda>pg. pg\<lparr>pg_mapcount := 1\<rparr>" "s1\<lparr>kmem := m\<rparr>" p for m] by (simp_all add: s2)
  have tb: "same_tables ?r (kmem s) (kmem s2)"
    using frame2 al(3) tables_not_free(1)[OF inv] by (intro same_tablesI) blast
  have "free_frames s2 \<subseteq> free_frames s" using i2(3) al(5) by auto
  note st = vm_step[OF inv i2(1,2) this tb]
  have f2: "tab (kmem s2) ?r (page_path page) = Some f" using st(3) f by simp
  have tb2: "tables (kmem s2) ?r = tables (kmem s) ?r" using st(3) by (auto simp: tables_def)
  have nx2: "pte_nx s2 \<in> {0, PTE_NX}" using nx i2(4) by simp
  let ?s4 = "upd_page (frame e) put_one s3"
  let ?s5 = "cpu_invlpg page ?s4"
  have "mem_map s3 (frame e) = mem_map s (frame e)" using al(10)[OF bf(2)] ne by (simp add: s3 m2)
  moreover have "1 < sint (pg_refcount (mem_map s (frame e)))"
  proof -
    have "sint (pg_refcount (mem_map s (frame e))) \<noteq> 1" using rc by (metis of_int_sint of_int_1 scast_id)
    with bf(5) show ?thesis by simp
  qed
  ultimately have put: "put_page (frame e) (drop_mapcount (frame e) s3) = Inr ?s4" by (simp add: put_shared)
  have i5: "kmem ?s5 = store_u64 (ent_at f (unat (PT_INDEX page))) (page_to_phys p OR prot_to_pte prot s2 OR PTE_PRESENT) (kmem s2)"
    "pmm_inv ?s5" "use_buddy ?s5" "free_frames ?s5 = free_frames s2"
    using i2(1,2) vm_upd_page[of put_one s3 "frame e"] by (simp_all add: cpu_invlpg_def put_one_keeps s3)
  note ins = install_page[OF st(1) f2 al(1) _ nx2 refl, unfolded tb2, OF al(3) i5]
  have er: "e = read_pte (ent_at f (unat (PT_INDEX page))) s" using read_pte_pent[OF f] e(1) by (simp add: page_entry_def)
  have "fault_post pml4 page wr prot s True ?s5"
  proof (rule fault_okI)
    show "vm_inv ?s5 ?r" by (rule ins(1))
    show "untouched pml4 s ?s5" unfolding untouched_def
    proof (intro allI impI)
      fix g assume g: "g < PFN_LIMIT" "g \<notin> free_frames s" "g \<notin> tables (kmem s) ?r"
      then have "same_frame g (kmem s) (kmem s2)" using frame2 al(2) by metis
      with ins(6)[OF g(1,3)] show "same_frame g (kmem s) (kmem ?s5)" by (rule same_frame_trans[rotated])
    qed
    show "\<not> same_page w page \<Longrightarrow> vmm_translate pml4 w ?s5 = vmm_translate pml4 w s" for w using ins(2) st(2) by simp
    show "user_byte pml4 w ?s5 = Some (case user_byte pml4 w s of None \<Rightarrow> 0 | Some b \<Rightarrow> b)" if "same_page w page" for w
      using ins(3)[OF that] copied user_byte_leaf[OF inv f that er e(2)] by simp
    show "\<exists>phys fl. vmm_translate pml4 page ?s5 = (phys, Some fl) \<and> has_flag fl PTE_WRITABLE" if "has_flag prot PROT_WRITE"
      using ins(4) prot_flags(2)[OF nx2 that] by simp
    have "frame (page_entry ?s5 pml4 page) = p" using ins(5) frame_pte[OF al(1) prot_flags(1)[OF nx2, of prot]] by simp
    then show "private_page pml4 page ?s5" using al(8) ne by (simp add: private_page_def) (simp add: cpu_invlpg_def s3 m2)
  qed
  with put show ?thesis by blast
qed

section \<open>The whole fault\<close>

lemma next_level_total: "vm_inv s r \<Longrightarrow> \<exists>res s'. next_level t idx True user s = Inr (res, s')"
  by (auto simp: next_level_def alloc_table_def vm_inv_def Let_def split: prod.splits)

lemma get_pte_total:
  assumes inv: "vm_inv s (frame pml4)"
  shows "\<exists>res s'. vmm_get_pte pml4 virt True s = Inr (res, s')"
proof -
  let ?r = "frame pml4" and ?u = "is_user_address virt" and ?i4 = "unat (PML4_INDEX virt)"
  have p: "path [?i4]" by (simp add: path_def)
  obtain t1 s1 where 1: "next_level (page_to_virt ?r) (PML4_INDEX virt) True ?u s = Inr (t1, s1)" using next_level_total[OF inv] by blast
  have k1: "vm_inv s1 ?r \<and> grew ?r s s1 \<and> same_view ?r (kmem s) (kmem s1) \<and>
    (\<forall>t. t1 = Some t \<longrightarrow> (\<exists>g. t = page_to_virt g \<and> tab (kmem s1) ?r [?i4] = Some g))"
    by (rule next_level_ok[OF inv _ _ _ _ 1]) simp_all
  obtain t2 s2 where 2: "descend (PDPT_INDEX virt) True ?u (Inr (t1, s1)) = Inr (t2, s2)" "vm_inv s2 ?r"
  proof (cases t1)
    case None
    then show ?thesis using that k1 by (simp add: descend_def)
  next
    case (Some t)
    then obtain g where g: "t = page_to_virt g" "tab (kmem s1) ?r [?i4] = Some g" using k1 by blast
    obtain t2 s2 where n: "next_level t (PDPT_INDEX virt) True ?u s1 = Inr (t2, s2)" using next_level_total k1 by blast
    have "vm_inv s2 ?r" using next_level_ok[OF _ p _ g(2) _ n[unfolded g(1)]] k1 by simp
    with that n Some show ?thesis by (simp add: descend_def)
  qed
  have "\<exists>t3 s3. descend (PD_INDEX virt) True ?u (Inr (t2, s2)) = Inr (t3, s3)"
    using next_level_total[OF 2(2)] by (cases t2) (simp_all add: descend_def)
  then show ?thesis using 1 2(1) by (auto simp: vmm_get_pte_def Let_def table_virt_frame)
qed

text \<open>The table walk before the fault is decided does not change what the process sees.\<close>

lemma fault_post_walk:
  assumes inv: "vm_inv s (frame pml4)" and g: "vmm_get_pte pml4 page True s = Inr (Some ptr, s0)" and b: "backed s pml4 page"
  shows "backed s0 pml4 page" "page_entry s0 pml4 page = page_entry s pml4 page"
    "fault_post pml4 page wr prot s0 ok s' \<Longrightarrow> fault_post pml4 page wr prot s ok s'"
proof -
  let ?r = "frame pml4" and ?e = "page_entry s pml4 page"
  from get_pte_ok[OF inv g] obtain f where k: "vm_inv s0 ?r" "grew ?r s s0" "same_view ?r (kmem s) (kmem s0)"
    "tab (kmem s0) ?r (page_path page) = Some f" by blast
  show e: "page_entry s0 pml4 page = ?e" using k(3) by (simp add: page_entry_def same_view_def)
  show "backed s0 pml4 page" unfolding backed_def Let_def e
  proof (intro impI conjI)
    assume p: "has_flag ?e PTE_PRESENT"
    note bf = backed_frame[OF inv b p]
    show "frame ?e \<notin> tables (kmem s0) ?r" using k(2) bf(2,3) unfolding grew_def by blast
    show "allocated s0 (frame ?e) 0" using k(2) bf(4) unfolding grew_def by blast
    have "mem_map s0 (frame ?e) = mem_map s (frame ?e)" using k(2) bf(2) unfolding grew_def by blast
    then show "0 < sint (pg_refcount (mem_map s0 (frame ?e)))" using bf(5) by simp
  qed
  have tr: "vmm_translate pml4 w s0 = vmm_translate pml4 w s" for w by (rule same_view_translate[OF inv k(1,3)])
  have er: "?e = read_pte (ent_at f (unat (PT_INDEX page))) s0" using read_pte_pent[OF k(4)] e by (simp add: page_entry_def)
  have ub: "user_byte pml4 w s0 = user_byte pml4 w s" if w: "same_page w page" for w
  proof (cases "has_flag ?e PTE_PRESENT")
    case True
    note bf = backed_frame[OF inv b True]
    have "same_frame (frame ?e) (kmem s) (kmem s0)" using k(2) bf(1-3) unfolding grew_def by blast
    from same_frame_at[OF this, of w] translate_leaf[OF k(1,4) w er] True tr[of w] show ?thesis
      by (simp add: user_byte_def phys_to_virt_frame flip: page_to_phys_frame)
  next
    case False
    then show ?thesis using translate_leaf[OF k(1,4) w er] tr[of w] by (simp add: user_byte_def)
  qed
  assume post: "fault_post pml4 page wr prot s0 ok s'"
  have "untouched pml4 s s'" unfolding untouched_def
  proof (intro allI impI)
    fix h assume h: "h < PFN_LIMIT" "h \<notin> free_frames s" "h \<notin> tables (kmem s) ?r"
    then have "same_frame h (kmem s) (kmem s0)" "h \<notin> free_frames s0" "h \<notin> tables (kmem s0) ?r"
      using k(2) unfolding grew_def by blast+
    then show "same_frame h (kmem s) (kmem s')" using post h(1) same_frame_trans unfolding fault_post_def untouched_def by blast
  qed
  with post show "fault_post pml4 page wr prot s ok s'" using tr ub e unfolding fault_post_def by simp
qed

lemma fault_plain:
  assumes inv: "vm_inv s (frame pml4)" and f: "tab (kmem s) (frame pml4) (page_path page) = Some f"
    and e: "e = page_entry s pml4 page" "has_flag e PTE_PRESENT" and n: "\<not> (wr \<and> has_flag e PTE_COW)"
  shows "fault_post pml4 page wr prot s (wr \<longrightarrow> has_flag e PTE_WRITABLE) s"
proof -
  have er: "e = read_pte (ent_at f (unat (PT_INDEX page))) s" using read_pte_pent[OF f] e(1) by (simp add: page_entry_def)
  have "(e AND NOT PTE_ADDR_MASK) AND PTE_WRITABLE = e AND PTE_WRITABLE"
    by (simp add: and.assoc PTE_ADDR_MASK_def PTE_WRITABLE_def)
  then have "has_flag e PTE_WRITABLE \<Longrightarrow> has_flag (e AND NOT PTE_ADDR_MASK) PTE_WRITABLE" by (simp add: has_flag_def)
  moreover have "vmm_translate pml4 page s = ((e AND PTE_ADDR_MASK) + (page AND 0xFFF), Some (e AND NOT PTE_ADDR_MASK))"
    using translate_leaf[OF inv f same_page_refl er] e(2) by simp
  moreover have "user_byte pml4 w s = Some (case user_byte pml4 w s of None \<Rightarrow> 0 | Some b \<Rightarrow> b)" if "same_page w page" for w
    using user_byte_leaf[OF inv f that er e(2)] by simp
  ultimately show ?thesis using inv n e by (auto simp: fault_post_def untouched_def)
qed

lemma fault_decide:
  assumes g: "vmm_get_pte (mm_pml4 mm) page True s = Inr (Some (ent_at f (unat (PT_INDEX page))), s0)" and pml4: "mm_pml4 mm = pml4"
    and inv: "vm_inv s0 (frame pml4)" and f: "tab (kmem s0) (frame pml4) (page_path page) = Some f"
    and nx: "pte_nx s0 \<in> {0, PTE_NX}" and b: "backed s0 pml4 page"
  shows "\<exists>ok s'. fault_page mm v page wr s = Inr (ok, s') \<and> fault_post pml4 page wr (vm_prot v) s0 ok s'"
proof -
  define ptr where "ptr = ent_at f (unat (PT_INDEX page))"
  define e where "e = page_entry s0 pml4 page"
  have rd: "read_pte ptr s0 = e" using read_pte_pent[OF f] by (simp add: ptr_def e_def page_entry_def)
  have pm: "pmm_inv s0" using inv by (simp add: vm_inv_def)
  have g': "vmm_get_pte (mm_pml4 mm) page True s = Inr (Some ptr, s0)" using g by (simp add: ptr_def)
  have phys: "phys_to_virt (e AND PTE_ADDR_MASK) = page_to_virt (frame e)" "phys_to_page (e AND PTE_ADDR_MASK) = frame e"
    by (simp_all only: page_to_virt_def page_to_phys_frame frame_def[symmetric])
  consider (absent) "\<not> has_flag e PTE_PRESENT" | (adopt) "has_flag e PTE_PRESENT" "wr \<and> has_flag e PTE_COW" "pg_refcount (mem_map s0 (frame e)) = 1"
    | (copy) "has_flag e PTE_PRESENT" "wr \<and> has_flag e PTE_COW" "pg_refcount (mem_map s0 (frame e)) \<noteq> 1"
    | (plain) "has_flag e PTE_PRESENT" "\<not> (wr \<and> has_flag e PTE_COW)" by blast
  then show ?thesis
  proof cases
    case absent
    obtain q s1 where a: "alloc_pages 0 GFP_ZERO s0 = (q, s1)" by (cases "alloc_pages 0 GFP_ZERO s0")
    show ?thesis
    proof (cases q)
      case None
      then have "s1 = s0" using alloc_pages_None(1)[OF pm] a by simp
      then show ?thesis using g' absent rd a None fault_post_refl[OF inv] by (auto simp: fault_page_def)
    next
      case (Some p)
      from fault_demand[OF inv f nx absent[unfolded e_def] a[unfolded Some], of wr "vm_prot v"]
      show ?thesis using g' absent rd a Some by (auto simp: fault_page_def ptr_def)
    qed
  next
    case adopt
    from fault_adopt[OF inv f b e_def adopt(1,3), of wr "vm_prot v"] show ?thesis
      using g' adopt rd by (auto simp: fault_page_def phys ptr_def Let_def)
  next
    case copy
    obtain q s1 where a: "alloc_pages 0 0 s0 = (q, s1)" by (cases "alloc_pages 0 0 s0")
    show ?thesis
    proof (cases q)
      case None
      then have "s1 = s0" using alloc_pages_None(1)[OF pm] a by simp
      then show ?thesis using g' copy rd a None fault_post_refl[OF inv] by (auto simp: fault_page_def phys Let_def)
    next
      case (Some p)
      from fault_copy[OF inv f nx b e_def copy(1,3) a[unfolded Some] refl refl, of "vm_prot v" wr]
      show ?thesis using g' copy rd a Some by (auto simp: fault_page_def phys ptr_def Let_def)
    qed
  next
    case plain
    from fault_plain[OF inv f e_def plain, of "vm_prot v"] show ?thesis
      using g' plain rd by (auto simp: fault_page_def Let_def)
  qed
qed

text \<open>
  C1. Page faults. On an address space whose tables form a tree and whose faulting page, if present, is an
  owned frame, \<^verbatim>\<open>fault_page\<close> returns without a panic. It keeps the tree and the translation of every other
  page, and it changes no frame in use besides the tables, so no other process notices. If it reports
  success the page is readable with the contents it had (zeroes on a first touch), after a write fault on a
  writable area it is writable, and if it was shared or missing the process is now the only owner of its
  frame. If it reports failure every translation is as before.
\<close>

theorem fault_page_correct:
  assumes "vm_inv s (frame pml4)" "mm_pml4 mm = pml4" "backed s pml4 page" "pte_nx s \<in> {0, PTE_NX}"
  shows "\<exists>ok s'. fault_page mm v page wr s = Inr (ok, s') \<and> vm_inv s' (frame pml4) \<and>
    (\<forall>g<PFN_LIMIT. g \<notin> free_frames s \<longrightarrow> g \<notin> tables (kmem s) (frame pml4) \<longrightarrow> same_frame g (kmem s) (kmem s')) \<and>
    (\<forall>w. \<not> (ok \<and> same_page w page) \<longrightarrow> vmm_translate pml4 w s' = vmm_translate pml4 w s) \<and>
    (ok \<longrightarrow> (\<forall>w. same_page w page \<longrightarrow> user_byte pml4 w s' = Some (case user_byte pml4 w s of None \<Rightarrow> 0 | Some b \<Rightarrow> b))) \<and>
    (ok \<longrightarrow> wr \<longrightarrow> has_flag (vm_prot v) PROT_WRITE \<longrightarrow>
       (\<exists>phys fl. vmm_translate pml4 page s' = (phys, Some fl) \<and> has_flag fl PTE_WRITABLE)) \<and>
    (ok \<longrightarrow> wr \<longrightarrow> has_flag (page_entry s pml4 page) PTE_COW \<or> \<not> has_flag (page_entry s pml4 page) PTE_PRESENT \<longrightarrow>
       pg_refcount (mem_map s' (frame (page_entry s' pml4 page))) = 1)"
proof -
  obtain res s0 where g: "vmm_get_pte pml4 page True s = Inr (res, s0)" using get_pte_total[OF assms(1)] by blast
  note k = get_pte_ok[OF assms(1) g]
  have inv0: "vm_inv s0 (frame pml4)" using k by blast
  have "\<exists>ok s'. fault_page mm v page wr s = Inr (ok, s') \<and> fault_post pml4 page wr (vm_prot v) s ok s'"
  proof (cases res)
    case None
    have "fault_post pml4 page wr (vm_prot v) s False s0"
      using k same_view_translate[OF assms(1) inv0] by (auto simp: fault_post_def untouched_def grew_def)
    then show ?thesis using g None assms(2) by (auto simp: fault_page_def)
  next
    case (Some ptr)
    then obtain f where f: "tab (kmem s0) (frame pml4) (page_path page) = Some f" "ptr = ent_at f (unat (PT_INDEX page))" using k by blast
    note walk = fault_post_walk[OF assms(1) g[unfolded Some] assms(3)]
    have nx: "pte_nx s0 \<in> {0, PTE_NX}" using k more_fields(3)[of s0 s] assms(4) by (simp add: grew_def)
    have "\<exists>ok s'. fault_page mm v page wr s = Inr (ok, s') \<and> fault_post pml4 page wr (vm_prot v) s0 ok s'"
      using g Some f(2) assms(2) by (intro fault_decide[OF _ assms(2) inv0 f(1) nx walk(1)]) simp
    then show ?thesis using walk(3) by blast
  qed
  then show ?thesis unfolding fault_post_def untouched_def private_page_def .
qed

section \<open>Witnesses\<close>

definition small_mm :: mm where
  "small_mm = \<lparr>mm_pml4 = 0x2000, vmas = [], brk_start = 0, brk = 0\<rparr>"

definition small_area :: vma where
  "small_area = \<lparr>vm_start = 0x400000, vm_end = 0x402000, vm_prot = 3, vm_flags = 1\<rparr>"

lemma small_zero: "pent (kmem small_vmm) r q j = 0"
  by (simp add: pent_def small_vmm_simps tab_zero ent_zero)

lemma small_fault: "\<exists>s'. fault_page small_mm small_area 0x400000 True small_vmm = Inr (True, s')"
proof -
  obtain ptr s0 where g: "vmm_get_pte 0x2000 0x400000 True small_vmm = Inr (Some ptr, s0)" "16 \<le> card (free_frames s0) + 3"
    using get_pte_some[OF small_vmm_inv, where virt = "0x400000"] small_zero by (auto simp: small_vmm_simps)
  from get_pte_ok[OF small_vmm_inv g(1)] obtain f where f: "tab (kmem s0) (frame 0x2000) (page_path 0x400000) = Some f"
    "ptr = ent_at f (unat (PT_INDEX 0x400000))" "same_view (frame 0x2000) (kmem small_vmm) (kmem s0)" "vm_inv s0 (frame 0x2000)" by blast
  have "read_pte ptr s0 = 0" using f(3) small_zero read_pte_pent[OF f(1)] unfolding f(2) same_view_def by simp
  moreover have "free_frames s0 \<noteq> {}" using g(2) by auto
  then obtain p s1 where "alloc_pages 0 GFP_ZERO s0 = (Some p, s1)" using alloc_page_succeeds[of s0] f(4) by (auto simp: vm_inv_def)
  ultimately show ?thesis using g(1) by (simp add: fault_page_def small_mm_def)
qed

theorem fault_page_correct_witness:
  "\<exists>s'. fault_page small_mm small_area 0x400000 True small_vmm = Inr (True, s') \<and> vm_inv s' (frame 0x2000) \<and>
     user_byte 0x2000 0x400123 s' = Some 0 \<and> vmm_translate 0x2000 0x401000 s' = (0, None)"
proof -
  obtain s' where s': "fault_page small_mm small_area 0x400000 True small_vmm = Inr (True, s')" using small_fault by blast
  have b: "backed small_vmm 0x2000 0x400000" by (simp add: backed_def page_entry_def small_zero)
  have m: "mm_pml4 small_mm = 0x2000" "pte_nx small_vmm \<in> {0, PTE_NX}" by (simp_all add: small_mm_def small_vmm_def pmm.defs)
  have none: "vmm_translate 0x2000 w small_vmm = (0, None)" for w
    using translate_lookup[of small_vmm "0x2000" "free_frames small_vmm" w] small_vmm_inv small_zero
    by (simp add: vm_inv_def lookup_def Let_def)
  then have "user_byte 0x2000 w small_vmm = None" for w by (simp add: user_byte_def)
  moreover have "same_page 0x400123 0x400000" "\<not> same_page 0x401000 0x400000"
    by (simp_all add: same_page_def take_bit_eq_mod drop_bit_eq_div)
  ultimately show ?thesis
    using fault_page_correct[OF small_vmm_inv m(1) b m(2), of small_area True] s' none by auto
qed

lemma prune_from_stop: "\<not> va < end' \<Longrightarrow> prune_from n pml4 va end' freed s = Inr (freed, s)"
  by (cases n) simp_all

lemma small_pml4: "\<exists>mm s'. mm_create True small_vmm = (Some mm, s')"
proof -
  have "free_frames small_vmm \<noteq> {}" by (simp add: small_vmm_simps)
  then obtain g s1 where a: "alloc_pages 0 GFP_ZERO small_vmm = (Some g, s1)" using alloc_page_succeeds small_vmm_simps(3) by blast
  note al = alloc_frame[OF small_vmm_inv a]
  have "g \<noteq> 0" using al(2) small_vmm_simps(2) by auto
  then have "page_to_phys g \<noteq> 0" using page_addr(1)[of g] al(1) by auto
  with a show ?thesis by (simp add: mm_create_def vmm_create_address_space_def pmm_alloc_page_def)
qed

theorem mm_areas_invariant_witness:
  "\<exists>mm r. mm_reach (snd (mm_map True mm 0x400000 0x1800 3 1)) \<and> vmas mm = [] \<and>
     find_vma (snd (mm_map True mm 0x400000 0x1800 3 1)) 0x401234 = Some r \<and> vm_end r = 0x402000"
proof -
  obtain mm s' where c: "mm_create True small_vmm = (Some mm, s')" using small_pml4 by blast
  let ?mm = "snd (mm_map True mm 0x400000 0x1800 3 1)"
  have v: "vmas mm = []" using c by (auto simp: mm_create_def split: if_splits prod.splits)
  have reach: "mm_reach ?mm"
    by (rule mm_reach.map[OF mm_reach.create[OF c], of True "0x400000" "0x1800" 3 1 "fst (mm_map True mm 0x400000 0x1800 3 1)"]) simp
  have "vmas ?mm = [\<lparr>vm_start = 0x400000, vm_end = 0x402000, vm_prot = 3, vm_flags = 1\<rparr>]"
    using v by (simp add: mm_map_def Let_def align_up_def align_down_def is_aligned_def range_free_def)
  then have "find_vma ?mm 0x401234 = Some \<lparr>vm_start = 0x400000, vm_end = 0x402000, vm_prot = 3, vm_flags = 1\<rparr>"
    using mm_areas_invariant[OF reach] by (simp add: area_def)
  with reach v show ?thesis by (intro exI[of _ mm]) auto
qed

theorem mm_map_highest_place_witness:
  "\<exists>mm'. mm_map True small_mm 0 0x1000 3 1 = (0x6FFFFFFFF000, mm') \<and> place (vmas small_mm) 0x1000 0x6FFFFFFFF000"
proof -
  have eq: "align_up 0x1000 PAGE_SIZE = 0x1000" by (simp add: align_up_def align_down_def)
  have m: "mm_map True small_mm 0 0x1000 3 1 = (0x6FFFFFFFF000, snd (mm_map True small_mm 0 0x1000 3 1))"
    by (simp add: mm_map_def Let_def eq small_mm_def find_free_area_def find_area_loop.simps is_aligned_def range_free_def)
  have "areas_ok (vmas small_mm)" by (simp add: small_mm_def)
  from mm_map_highest_place[OF this eq[symmetric] _ _ m] have "place (vmas small_mm) 0x1000 0x6FFFFFFFF000" by simp
  with m show ?thesis by blast
qed

theorem mm_map_unmap_exact_witness:
  "\<exists>mm1 mm2 s2 mm3 s3. mm_map True small_mm 0x400000 0x3000 3 1 = (0x400000, mm1) \<and>
     mm_unmap True mm1 0x401000 0x1000 small_vmm = Inr (0, mm2, s2) \<and>
     covers (vmas mm2) = {0x400000..<0x403000} - {0x401000..<0x402000} \<and>
     mm_unmap False mm1 0x401000 0x1000 small_vmm = Inr (0, mm3, s3) \<and> mm3 = mm1"
proof -
  let ?v = "\<lparr>vm_start = 0x400000, vm_end = 0x403000, vm_prot = 3, vm_flags = 1\<rparr>"
  let ?mm1 = "small_mm\<lparr>vmas := [?v]\<rparr>"
  have m: "mm_map True small_mm 0x400000 0x3000 3 1 = (0x400000, ?mm1)"
    by (simp add: mm_map_def Let_def align_up_def align_down_def is_aligned_def range_free_def small_mm_def)
  have al: "align_up 0x1000 PAGE_SIZE = 0x1000" "align_up 0x3000 PAGE_SIZE = 0x3000" by (simp_all add: align_up_def align_down_def)
  have z: "read_pte x small_vmm = 0" for x
    by (simp add: read_pte_def load_u64_def load_bytes_def small_vmm_simps upt_rec)
  have t: "tab (kmem small_vmm) (frame 0x2000) (page_path x) = None" for x
    by (simp add: small_vmm_simps tab_zero page_path_def)
  have "pages_of 0x401000 0x402000 = [0x401000]" by (simp add: pages_of_def)
  then have "unmap_pages 0x2000 0x401000 0x402000 small_vmm = Inr small_vmm"
    by (simp add: unmap_pages_def unmap_one_def vmm_unmap_page_def get_pte_read t)
  moreover have "vmm_prune_tables 0x2000 0x401000 0x402000 small_vmm = Inr small_vmm"
    by (simp add: vmm_prune_tables_def prune_step_def z align_down_def prune_from_stop Let_def)
  ultimately have c: "cut_pages 0x2000 0x401000 0x402000 small_vmm = Inr small_vmm" by (simp add: cut_pages_def)
  have u: "snd (unmap_vmas 0x401000 0x402000 spare [] [?v]) = [(0x401000, 0x402000)]" for spare
    by (cases spare) (simp_all add: cut_start_def cut_end_def insert_split_def Let_def)
  have un: "\<exists>mm2 s'. mm_unmap spare ?mm1 0x401000 0x1000 small_vmm = Inr (0, mm2, s')" for spare
    using u[of spare] c by (auto simp: mm_unmap_def al is_aligned_def small_mm_def split: prod.split)
  obtain mm2 s2 where un2: "mm_unmap True ?mm1 0x401000 0x1000 small_vmm = Inr (0, mm2, s2)" using un by blast
  obtain mm3 s3 where un3: "mm_unmap False ?mm1 0x401000 0x1000 small_vmm = Inr (0, mm3, s3)" using un by blast
  have ok: "areas_ok (vmas small_mm)" "is_aligned 0x401000 PAGE_SIZE" by (simp_all add: small_mm_def is_aligned_def)
  have "covers (vmas small_mm) = {}" by (simp add: small_mm_def)
  then have "covers (vmas mm2) = {0x400000..<0x403000} - {0x401000..<0x402000}"
    using mm_map_unmap_exact[OF ok(1) m un2 refl] ok(2) by (simp add: al)
  moreover have "mm3 = ?mm1"
    using mm_map_unmap_exact[OF ok(1) m un3 refl] ok(2) by (simp add: al splits_area_def)
  ultimately show ?thesis using m un2 un3 by blast
qed

end
