(* ===== verification/Slab.thy ===== *)
theory Slab
  imports Vmm
begin

text \<open>
  The object allocator, \<^verbatim>\<open>kernel/mm/slab.c\<close>. A cache cuts blocks of the page allocator (slabs) into equal
  objects. The free objects of a slab are linked through their own first eight bytes; a free object holds a
  magic number in bytes 8 to 15 and is filled with a poison value, and every object ends in a redzone, so all
  of this is modelled on the bytes of memory. What the code keeps in \<^verbatim>\<open>struct page\<close> (cache, head, free list
  and number of objects in use) is in the page records of theory \<open>Pmm\<close>. A cache pointer is the address of
  its \<^verbatim>\<open>struct kmem_cache\<close> as a natural number, \<open>CACHE_CACHE\<close> for the static cache of caches. The
  cache locks are left out: every operation is one atomic step.
\<close>

section \<open>Caches\<close>

abbreviation REDZONE :: u64 where "REDZONE \<equiv> 8"
abbreviation RZ_BYTE :: u8 where "RZ_BYTE \<equiv> 0xBB"
abbreviation POISON_FREE :: u8 where "POISON_FREE \<equiv> 0x6B"
abbreviation FREE_MAGIC :: u64 where "FREE_MAGIC \<equiv> 0xF4EEF4EEF4EEF4EE"
abbreviation MIN_OBJ :: u64 where "MIN_OBJ \<equiv> 16"
abbreviation KMALLOC_MAX :: u64 where "KMALLOC_MAX \<equiv> 8192"
abbreviation SIZEOF_KMEM_CACHE :: u64 where "SIZEOF_KMEM_CACHE \<equiv> 160"
definition CACHE_CACHE :: nat where "CACHE_CACHE = 0"

record kmem_cache =
  c_name :: string
  c_size :: u64
  c_stride :: u64
  c_order :: nat
  c_objs_per_slab :: u32
  c_ctor :: "(u64 \<Rightarrow> memory \<Rightarrow> memory) option"
  c_partial :: "nat list"
  c_full :: "nat list"
  c_empty :: "nat list"
  c_nr_slabs :: u64
  c_active_objs :: u64
  c_allocs :: u64
  c_frees :: u64

record slab = pmm +
  caches :: "nat \<Rightarrow> kmem_cache"
  cache_list :: "nat list"
  kmalloc_caches :: "nat list"
  large_pages :: u64
  large_bytes :: u64
  large_allocs :: u64
  large_frees :: u64

definition upd_cache :: "nat \<Rightarrow> (kmem_cache \<Rightarrow> kmem_cache) \<Rightarrow> 'a slab_scheme \<Rightarrow> 'a slab_scheme" where
  "upd_cache c f s = s\<lparr>caches := (caches s)(c := f (caches s c))\<rparr>"

text \<open>The loop that chooses the size of a slab: at least 8 objects and at most an eighth of waste.\<close>

function choose_order :: "u64 \<Rightarrow> nat \<Rightarrow> nat" where
  "choose_order stride order =
     (if order < 3 then
        (let bytes = push_bit order PAGE_SIZE; n = bytes div stride in
         if 8 \<le> n \<and> (bytes - n * stride) * 8 \<le> bytes then order
         else choose_order stride (Suc order))
      else order)"
  by pat_completeness auto
termination
  by (relation "measure (\<lambda>(stride, order). 3 - order)") auto

declare choose_order.simps [simp del]

definition cache_setup :: "nat \<Rightarrow> string \<Rightarrow> u64 \<Rightarrow> u64 \<Rightarrow> (u64 \<Rightarrow> memory \<Rightarrow> memory) option \<Rightarrow>
    'a slab_scheme \<Rightarrow> panic + 'a slab_scheme" where
  "cache_setup c name sz align ctor s =
     (let align = (if align < 8 then 8 else align);
          obj = max sz MIN_OBJ;
          stride = align_up (obj + REDZONE) align;
          order = choose_order stride 0;
          objs = ucast (push_bit order PAGE_SIZE div stride)
      in if objs = 0 then Inl Panic_object_too_big
         else Inr (s\<lparr>caches := (caches s)(c := \<lparr>c_name = name, c_size = sz, c_stride = stride,
                       c_order = order, c_objs_per_slab = objs, c_ctor = ctor, c_partial = [], c_full = [],
                       c_empty = [], c_nr_slabs = 0, c_active_objs = 0, c_allocs = 0, c_frees = 0\<rparr>),
                     cache_list := cache_list s @ [c]\<rparr>))"

section \<open>Slabs\<close>

text \<open>Moving a slab between the lists of its cache: a slab is on at most one of them.\<close>

definition list_del_slab :: "nat \<Rightarrow> kmem_cache \<Rightarrow> kmem_cache" where
  "list_del_slab h k = k\<lparr>c_partial := remove1 h (c_partial k), c_full := remove1 h (c_full k),
     c_empty := remove1 h (c_empty k)\<rparr>"

fun unmark_slab :: "nat \<Rightarrow> nat \<Rightarrow> 'a pmm_scheme \<Rightarrow> 'a pmm_scheme" where
  "unmark_slab h 0 s = s"
| "unmark_slab h (Suc i) s =
     upd_page (h + i) (\<lambda>pg. pg\<lparr>pg_flags := pg_flags pg AND NOT PG_SLAB, pg_cache := None, pg_head := None\<rparr>)
       (unmark_slab h i s)"

definition free_slab_pages :: "nat \<Rightarrow> nat \<Rightarrow> 'a slab_scheme \<Rightarrow> panic + 'a slab_scheme" where
  "free_slab_pages c h s =
     (let order = c_order (caches s c);
          s = unmark_slab h (2 ^ order) s;
          s = upd_cache c (\<lambda>k. k\<lparr>c_nr_slabs := c_nr_slabs k - 1\<rparr>) s
      in free_pages h order s)"

definition make_free :: "kmem_cache \<Rightarrow> u64 \<Rightarrow> u64 \<Rightarrow> memory \<Rightarrow> memory" where
  "make_free k obj nxt m =
     (let m = memset obj POISON_FREE (unat (c_stride k - REDZONE)) m;
          m = memset (obj + c_stride k - REDZONE) RZ_BYTE (unat REDZONE) m;
          m = store_u64 obj nxt m
      in store_u64 (obj + 8) FREE_MAGIC m)"

definition check_redzone :: "kmem_cache \<Rightarrow> u64 \<Rightarrow> memory \<Rightarrow> panic + unit" where
  "check_redzone k obj m =
     (let rz = obj + c_stride k - REDZONE in
      if list_all (\<lambda>i. m (rz + of_nat i) = RZ_BYTE) [0..<unat REDZONE] then Inr () else Inl Panic_redzone)"

definition check_free_object :: "kmem_cache \<Rightarrow> u64 \<Rightarrow> memory \<Rightarrow> panic + unit" where
  "check_free_object k obj m =
     (if load_u64 (obj + 8) m \<noteq> FREE_MAGIC then Inl Panic_free_magic
      else if \<not> list_all (\<lambda>i. m (obj + of_nat i) = POISON_FREE) [16..<unat (c_stride k - REDZONE)]
      then Inl Panic_use_after_free
      else check_redzone k obj m)"

fun mark_slab :: "nat \<Rightarrow> nat \<Rightarrow> nat \<Rightarrow> 'a pmm_scheme \<Rightarrow> 'a pmm_scheme" where
  "mark_slab c h 0 s = s"
| "mark_slab c h (Suc i) s =
     upd_page (h + i) (\<lambda>pg. pg\<lparr>pg_flags := pg_flags pg OR PG_SLAB, pg_cache := Some c, pg_head := Some h\<rparr>)
       (mark_slab c h i s)"

text \<open>The objects of a new slab are linked from the last to the first.\<close>

fun init_objs :: "kmem_cache \<Rightarrow> u64 \<Rightarrow> nat \<Rightarrow> u64 \<Rightarrow> memory \<Rightarrow> u64 \<times> memory" where
  "init_objs k base 0 nxt m = (nxt, m)"
| "init_objs k base (Suc i) nxt m =
     (let obj = base + of_nat i * c_stride k in init_objs k base i obj (make_free k obj nxt m))"

definition new_slab :: "nat \<Rightarrow> 'a slab_scheme \<Rightarrow> nat option \<times> 'a slab_scheme" where
  "new_slab c s =
     (let k = caches s c in
      case alloc_pages (c_order k) 0 s of
        (None, s) \<Rightarrow> (None, s)
      | (Some head, s) \<Rightarrow>
          (let s = mark_slab c head (2 ^ c_order k) s;
               (nxt, m) = init_objs k (page_to_virt head) (unat (c_objs_per_slab k)) 0 (kmem s);
               s = s\<lparr>kmem := m\<rparr>;
               s = upd_page head (\<lambda>pg. pg\<lparr>pg_freelist := nxt, pg_inuse := 0\<rparr>) s;
               s = upd_cache c (\<lambda>k. k\<lparr>c_nr_slabs := c_nr_slabs k + 1\<rparr>) s
           in (Some head, s)))"

section \<open>Objects\<close>

text \<open>The slab an allocation takes its object from: a partial one, the empty one, or a new one.\<close>

definition pick_slab :: "nat \<Rightarrow> 'a slab_scheme \<Rightarrow> nat option \<times> 'a slab_scheme" where
  "pick_slab c s =
     (case c_partial (caches s c) of
        h # _ \<Rightarrow> (Some h, s)
      | [] \<Rightarrow>
          (case c_empty (caches s c) of
             h # _ \<Rightarrow> (Some h, upd_cache c (\<lambda>k. (list_del_slab h k)\<lparr>c_partial := h # c_partial (list_del_slab h k)\<rparr>) s)
           | [] \<Rightarrow>
               (case new_slab c s of
                  (None, s) \<Rightarrow> (None, s)
                | (Some h, s) \<Rightarrow> (Some h, upd_cache c (\<lambda>k. k\<lparr>c_partial := h # c_partial k\<rparr>) s))))"

definition take_object :: "nat \<Rightarrow> nat \<Rightarrow> u64 \<Rightarrow> 'a slab_scheme \<Rightarrow> 'a slab_scheme" where
  "take_object c h obj s =
     (let s = upd_page h (\<lambda>pg. pg\<lparr>pg_freelist := load_u64 obj (kmem s)\<rparr>) s;
          s = s\<lparr>kmem := store_u64 (obj + 8) 0 (kmem s)\<rparr>;
          s = upd_page h (\<lambda>pg. pg\<lparr>pg_inuse := pg_inuse pg + 1\<rparr>) s;
          s = (if pg_inuse (mem_map s h) = c_objs_per_slab (caches s c)
               then upd_cache c (\<lambda>k. (list_del_slab h k)\<lparr>c_full := h # c_full (list_del_slab h k)\<rparr>) s else s);
          s = upd_cache c (\<lambda>k. k\<lparr>c_active_objs := c_active_objs k + 1, c_allocs := c_allocs k + 1\<rparr>) s
      in (case c_ctor (caches s c) of None \<Rightarrow> s | Some f \<Rightarrow> s\<lparr>kmem := f obj (kmem s)\<rparr>))"

definition kmem_cache_alloc :: "nat \<Rightarrow> 'a slab_scheme \<Rightarrow> panic + u64 \<times> 'a slab_scheme" where
  "kmem_cache_alloc c s =
     (case pick_slab c s of
        (None, s) \<Rightarrow> Inr (0, s)
      | (Some h, s) \<Rightarrow>
          (let obj = pg_freelist (mem_map s h) in
           andthen (check_free_object (caches s c) obj (kmem s)) (\<lambda>_. Inr (obj, take_object c h obj s))))"

text \<open>The part of \<^verbatim>\<open>kmem_cache_free\<close> after its checks.\<close>

definition put_object :: "nat \<Rightarrow> nat \<Rightarrow> u64 \<Rightarrow> 'a slab_scheme \<Rightarrow> panic + 'a slab_scheme" where
  "put_object c h obj s =
     (let k = caches s c;
          was_full = (pg_inuse (mem_map s h) = c_objs_per_slab k);
          s = s\<lparr>kmem := make_free k obj (pg_freelist (mem_map s h)) (kmem s)\<rparr>;
          s = upd_page h (\<lambda>pg. pg\<lparr>pg_freelist := obj, pg_inuse := pg_inuse pg - 1\<rparr>) s;
          s = upd_cache c (\<lambda>k. k\<lparr>c_active_objs := c_active_objs k - 1, c_frees := c_frees k + 1\<rparr>) s;
          s = (if was_full
               then upd_cache c (\<lambda>k. (list_del_slab h k)\<lparr>c_partial := h # c_partial (list_del_slab h k)\<rparr>) s else s)
      in if pg_inuse (mem_map s h) = 0 then
           (let s = upd_cache c (list_del_slab h) s in
            if c_empty (caches s c) = [] then Inr (upd_cache c (\<lambda>k. k\<lparr>c_empty := h # c_empty k\<rparr>) s)
            else free_slab_pages c h s)
         else Inr s)"

definition kmem_cache_free :: "nat \<Rightarrow> u64 \<Rightarrow> 'a slab_scheme \<Rightarrow> panic + 'a slab_scheme" where
  "kmem_cache_free c ptr s =
     (let pg = mem_map s (virt_to_page ptr); k = caches s c in
      if \<not> has_flag (pg_flags pg) PG_SLAB \<or> pg_cache pg \<noteq> Some c then Inl Panic_not_our_cache
      else
        (let h = the (pg_head pg); base = page_to_virt h in
         if (ptr - base) mod c_stride k \<noteq> 0 then Inl Panic_not_object_start
         else if load_u64 (ptr + 8) (kmem s) = FREE_MAGIC then Inl Panic_double_free
         else andthen (check_redzone k ptr (kmem s)) (\<lambda>_. put_object c h ptr s)))"

definition kmem_cache_create :: "string \<Rightarrow> u64 \<Rightarrow> u64 \<Rightarrow> (u64 \<Rightarrow> memory \<Rightarrow> memory) option \<Rightarrow>
    'a slab_scheme \<Rightarrow> panic + u64 \<times> 'a slab_scheme" where
  "kmem_cache_create name sz align ctor s =
     andthen (kmem_cache_alloc CACHE_CACHE s) (\<lambda>(c, s).
       if c \<noteq> 0 then andthen (cache_setup (unat c) name sz align ctor s) (\<lambda>s. Inr (c, s))
       else Inr (c, s))"

definition kmem_cache_destroy :: "nat \<Rightarrow> 'a slab_scheme \<Rightarrow> panic + 'a slab_scheme" where
  "kmem_cache_destroy c s =
     (if c_active_objs (caches s c) \<noteq> 0 then Inl Panic_active_objects
      else
        (let s = s\<lparr>cache_list := remove1 c (cache_list s)\<rparr> in
         andthen (for_each (\<lambda>h s. free_slab_pages c h (upd_cache c (list_del_slab h) s)) (c_empty (caches s c)) s)
           (kmem_cache_free CACHE_CACHE (of_nat c))))"

section \<open>kmalloc\<close>

definition kmalloc_sizes :: "u64 list" where
  "kmalloc_sizes = [16, 32, 64, 96, 128, 192, 256, 512, 1024, 2048, 4096, 8192]"

definition kmalloc_names :: "string list" where
  "kmalloc_names = [''kmalloc-16'', ''kmalloc-32'', ''kmalloc-64'', ''kmalloc-96'', ''kmalloc-128'',
     ''kmalloc-192'', ''kmalloc-256'', ''kmalloc-512'', ''kmalloc-1024'', ''kmalloc-2048'',
     ''kmalloc-4096'', ''kmalloc-8192'']"

fun size_class :: "u64 \<Rightarrow> u64 list \<Rightarrow> nat list \<Rightarrow> nat option" where
  "size_class sz (z # zs) (c # cs) = (if sz \<le> z then Some c else size_class sz zs cs)"
| "size_class sz _ _ = None"

definition kmalloc_large :: "u64 \<Rightarrow> 'a slab_scheme \<Rightarrow> u64 \<times> 'a slab_scheme" where
  "kmalloc_large sz s =
     (let order = pages_to_order (unat ((sz + PAGE_SIZE - 1) div PAGE_SIZE)) in
      case alloc_pages order 0 s of
        (None, s) \<Rightarrow> (0, s)
      | (Some p, s) \<Rightarrow>
          (let s = upd_page p (\<lambda>pg. pg\<lparr>pg_inuse := ucast (min sz 0xFFFFFFFF)\<rparr>) s
           in (page_to_virt p,
               s\<lparr>large_pages := large_pages s + push_bit order 1,
                 large_bytes := large_bytes s + push_bit order PAGE_SIZE,
                 large_allocs := large_allocs s + 1\<rparr>)))"

definition kmalloc :: "u64 \<Rightarrow> 'a slab_scheme \<Rightarrow> panic + u64 \<times> 'a slab_scheme" where
  "kmalloc sz s =
     (if sz = 0 then Inr (0, s)
      else
        (case (if sz \<le> KMALLOC_MAX then size_class sz kmalloc_sizes (kmalloc_caches s) else None) of
           Some c \<Rightarrow> kmem_cache_alloc c s
         | None \<Rightarrow> Inr (kmalloc_large sz s)))"

definition kzalloc :: "u64 \<Rightarrow> 'a slab_scheme \<Rightarrow> panic + u64 \<times> 'a slab_scheme" where
  "kzalloc sz s =
     andthen (kmalloc sz s) (\<lambda>(p, s).
       Inr (p, if p \<noteq> 0 then s\<lparr>kmem := memset p 0 (unat sz) (kmem s)\<rparr> else s))"

definition kfree :: "u64 \<Rightarrow> 'a slab_scheme \<Rightarrow> panic + 'a slab_scheme" where
  "kfree ptr s =
     (if ptr = 0 then Inr s
      else if ptr < HHDM_BASE \<or> ptr \<ge> VMALLOC_START then Inl Panic_not_kmalloc
      else
        (let p = virt_to_page ptr; pg = mem_map s p in
         if has_flag (pg_flags pg) PG_SLAB then kmem_cache_free (the (pg_cache pg)) ptr s
         else if \<not> has_flag (pg_flags pg) PG_HEAD \<or> ptr AND (PAGE_SIZE - 1) \<noteq> 0 then Inl Panic_not_kmalloc
         else
           (let order = pg_order pg
            in free_pages p order
                 (s\<lparr>large_pages := large_pages s - push_bit order 1,
                    large_bytes := large_bytes s - push_bit order PAGE_SIZE,
                    large_frees := large_frees s + 1\<rparr>))))"

definition ksize :: "u64 \<Rightarrow> 'a slab_scheme \<Rightarrow> u64" where
  "ksize ptr s =
     (let pg = mem_map s (virt_to_page ptr) in
      if has_flag (pg_flags pg) PG_SLAB then c_size (caches s (the (pg_cache pg)))
      else push_bit (pg_order pg) PAGE_SIZE)"

definition create_kmalloc_cache :: "string \<times> u64 \<Rightarrow> 'a slab_scheme \<Rightarrow> panic + 'a slab_scheme" where
  "create_kmalloc_cache nz s =
     andthen (kmem_cache_create (fst nz) (snd nz) 8 None s) (\<lambda>(c, s).
       if c = 0 then Inl Panic_no_memory else Inr (s\<lparr>kmalloc_caches := kmalloc_caches s @ [unat c]\<rparr>))"

definition slab_init :: "'a slab_scheme \<Rightarrow> panic + 'a slab_scheme" where
  "slab_init s =
     andthen (cache_setup CACHE_CACHE ''kmem_cache'' SIZEOF_KMEM_CACHE 8 None s)
       (for_each create_kmalloc_cache (zip kmalloc_names kmalloc_sizes))"

record heap_stats =
  alloc_count :: u64
  free_count :: u64
  bytes_in_use :: u64
  slab_pages :: u64
  st_large_pages :: u64

definition heap_get_stats :: "'a slab_scheme \<Rightarrow> heap_stats" where
  "heap_get_stats s =
     (let ks = map (caches s) (cache_list s)
      in \<lparr>alloc_count = sum_list (map c_allocs ks) + large_allocs s,
          free_count = sum_list (map c_frees ks) + large_frees s,
          bytes_in_use = sum_list (map (\<lambda>k. c_active_objs k * c_size k) ks) + large_bytes s,
          slab_pages = sum_list (map (\<lambda>k. push_bit (c_order k) (c_nr_slabs k)) ks),
          st_large_pages = large_pages s\<rparr>)"

end
