(* ===== verification/Slab_Objects.thy ===== *)
theory Slab_Objects
  imports Slab Vmm_Proofs
begin

text \<open>
  The bytes of slab objects. Memory is read through the direct map: \<open>at x\<close> is the address of the byte at
  physical offset \<open>x\<close>. The lemmas give the effect of the byte operations of theory \<open>Slab\<close> on free objects and
  on the free list that links them.
\<close>

section \<open>The direct map\<close>

abbreviation DIRECT_MAP :: nat where "DIRECT_MAP \<equiv> 70368744177664"

definition at :: "nat \<Rightarrow> u64" where
  "at x = HHDM_BASE + of_nat x"

lemma at_add: "at x + of_nat n = at (x + n)" "at x + numeral w = at (x + numeral w)"
  by (simp_all add: at_def)

lemma unat_at: "x < DIRECT_MAP \<Longrightarrow> unat (at x) = 0xFFFF800000000000 + x"
  unfolding at_def by (subst unat_add_no_wrap) (simp_all add: unat_of_nat)

lemma at_eq: "x < DIRECT_MAP \<Longrightarrow> y < DIRECT_MAP \<Longrightarrow> at x = at y \<longleftrightarrow> x = y"
  by (auto simp: unat_at dest: arg_cong[of _ _ unat])

lemma at_nonzero: "x < DIRECT_MAP \<Longrightarrow> at x \<noteq> 0"
  using unat_at[of x] by auto

lemma page_to_virt_at:
  assumes "p < PFN_LIMIT"
  shows "page_to_virt p = at (4096 * p)"
proof -
  have "unat (page_to_virt p) = unat (at (4096 * p))"
    using frame_addr[OF assms, of 0] assms by (simp add: unat_at)
  then show ?thesis by (rule word_unat_eq_iff[THEN iffD2])
qed

lemma virt_to_page_at: "x < DIRECT_MAP \<Longrightarrow> virt_to_page (at x) = x div 4096"
proof -
  assume x: "x < DIRECT_MAP"
  have "at x < KERNEL_VMA" using x by (simp add: word_less_nat_alt unat_at)
  then have "virt_to_phys (at x) = of_nat x" by (simp add: virt_to_phys_def at_def not_le)
  moreover have "unat (of_nat x :: u64) = x" using x by (simp add: unat_of_nat)
  ultimately show ?thesis by (simp add: virt_to_page_def phys_to_page_def drop_bit_eq_div unat_div)
qed

lemma memset_at:
  assumes "x + n \<le> DIRECT_MAP" "y < DIRECT_MAP"
  shows "memset (at x) v n m (at y) = (if y \<in> span x n then v else m (at y))"
proof (cases "n = 0")
  case False
  then have x: "x < DIRECT_MAP" using assms by simp
  then have "fits (at x) n" using assms(1) by (simp add: fits_def unat_at)
  moreover have "in_block (at y) (at x) n \<longleftrightarrow> y \<in> span x n" using x assms(2) by (auto simp: in_block_def unat_at)
  ultimately show ?thesis by (simp add: memset_apply)
qed auto

lemma store_u64_at:
  assumes "x + 8 \<le> DIRECT_MAP" "y < DIRECT_MAP"
  shows "store_u64 (at x) w m (at y) = (if y \<in> span x 8 then le64 w ! (y - x) else m (at y))"
proof -
  have "unat (at y - at x) < 8 \<longleftrightarrow> y \<in> span x 8" "x \<le> y \<Longrightarrow> unat (at y - at x) = y - x"
    using assms by (auto simp: unat_sub_if_size word_size unat_at)
  then show ?thesis by (auto simp: store_u64_def store_bytes_at)
qed

lemma load_u64_at: "load_u64 (at x) m = of_bytes (map (\<lambda>j. m (at (x + j))) [0..<8])"
  by (simp add: load_u64_def load_bytes_def at_add)

text \<open>Two memories agree on a set of offsets.\<close>

definition same_bytes :: "nat set \<Rightarrow> memory \<Rightarrow> memory \<Rightarrow> bool" where
  "same_bytes A m m' \<longleftrightarrow> (\<forall>y\<in>A. m' (at y) = m (at y))"

lemma same_bytesD: "same_bytes A m m' \<Longrightarrow> y \<in> A \<Longrightarrow> m' (at y) = m (at y)"
  by (simp add: same_bytes_def)

lemma same_bytes_mono: "same_bytes A m m' \<Longrightarrow> B \<subseteq> A \<Longrightarrow> same_bytes B m m'"
  by (auto simp: same_bytes_def)

lemma same_bytes_refl [simp]: "same_bytes A m m"
  by (simp add: same_bytes_def)

lemma same_bytes_trans: "same_bytes A m m' \<Longrightarrow> same_bytes A m' m'' \<Longrightarrow> same_bytes A m m''"
  by (simp add: same_bytes_def)

lemma span_sub: "x \<le> y \<Longrightarrow> y + n \<le> x + k \<Longrightarrow> span y n \<subseteq> span x k"
  by auto

lemma load_u64_at_cong:
  assumes "same_bytes (span x 8) m m'"
  shows "load_u64 (at x) m' = load_u64 (at x) m"
  unfolding load_u64_at by (intro arg_cong[of _ _ of_bytes] map_cong) (auto intro: same_bytesD[OF assms])

lemma load_u64_at_word:
  assumes "\<And>y. y \<in> span x 8 \<Longrightarrow> m (at y) = le64 w ! (y - x)"
  shows "load_u64 (at x) m = w"
proof -
  have "map (\<lambda>j. m (at (x + j))) [0..<8] = le64 w"
    by (rule nth_equalityI) (use assms in auto)
  then show ?thesis by (simp add: load_u64_at)
qed

section \<open>Free objects\<close>

text \<open>\<open>st\<close> is the stride of the cache: the distance between two objects, redzone included.\<close>

definition redzone_ok :: "nat \<Rightarrow> nat \<Rightarrow> memory \<Rightarrow> bool" where
  "redzone_ok st x m \<longleftrightarrow> (\<forall>y\<in>span (x + (st - 8)) 8. m (at y) = RZ_BYTE)"

definition free_object :: "nat \<Rightarrow> nat \<Rightarrow> memory \<Rightarrow> bool" where
  "free_object st x m \<longleftrightarrow> load_u64 (at (x + 8)) m = FREE_MAGIC \<and>
     (\<forall>y\<in>span (x + 16) (st - 24). m (at y) = POISON_FREE) \<and> redzone_ok st x m"

lemma redzone_ok_cong:
  assumes "same_bytes (span x st) m m'" "8 \<le> st"
  shows "redzone_ok st x m' = redzone_ok st x m"
proof -
  have "same_bytes (span (x + (st - 8)) 8) m m'"
    using assms(1) by (rule same_bytes_mono) (use assms(2) in \<open>auto intro: span_sub\<close>)
  then show ?thesis unfolding redzone_ok_def same_bytes_def by simp
qed

lemma free_object_cong:
  assumes "same_bytes (span x st) m m'" "24 \<le> st"
  shows "free_object st x m' = free_object st x m"
proof -
  have "same_bytes (span (x + 8) 8) m m'" "same_bytes (span (x + 16) (st - 24)) m m'"
    using assms(1) by (rule same_bytes_mono, use assms(2) in \<open>auto intro: span_sub\<close>)+
  moreover have "redzone_ok st x m' = redzone_ok st x m" using assms by (intro redzone_ok_cong) simp_all
  ultimately show ?thesis unfolding free_object_def using load_u64_at_cong[of "x + 8" m m']
    by (simp add: same_bytes_def)
qed

lemma stride_end:
  assumes "unat (c_stride k) = st" "24 \<le> st" "x + st \<le> DIRECT_MAP"
  shows "at x + c_stride k - REDZONE = at (x + (st - 8))" "unat (c_stride k - REDZONE) = st - 8"
proof -
  have s: "c_stride k = of_nat st" by (simp flip: assms(1))
  have "c_stride k - REDZONE = of_nat (st - 8)" using assms(2) by (simp add: s of_nat_diff)
  then show "at x + c_stride k - REDZONE = at (x + (st - 8))" by (simp add: at_def algebra_simps)
  have "(8::u64) \<le> c_stride k" using assms(1,2) by (simp add: word_le_nat_alt)
  then show "unat (c_stride k - REDZONE) = st - 8" using assms(1) by (simp add: unat_sub)
qed

lemma check_redzone_at:
  assumes "unat (c_stride k) = st" "24 \<le> st" "x + st \<le> DIRECT_MAP"
  shows "check_redzone k (at x) m = (if redzone_ok st x m then Inr () else Inl Panic_redzone)"
proof -
  have eq: "(\<forall>i<8. m (at (x + (st - 8) + i)) = RZ_BYTE) = redzone_ok st x m"
    unfolding redzone_ok_def by (auto simp: nat_le_iff_add)
  have "list_all (\<lambda>i. m (at (x + (st - 8)) + of_nat i) = RZ_BYTE) [0..<8] = redzone_ok st x m"
    unfolding list_all_iff at_add using eq by auto
  then show ?thesis by (simp add: check_redzone_def stride_end[OF assms] del: upt.simps upt_rec_numeral)
qed

lemma check_free_object_at:
  assumes st: "unat (c_stride k) = st" "24 \<le> st" "x + st \<le> DIRECT_MAP"
  shows "check_free_object k (at x) m =
    (if load_u64 (at (x + 8)) m \<noteq> FREE_MAGIC then Inl Panic_free_magic
     else if \<exists>y\<in>span (x + 16) (st - 24). m (at y) \<noteq> POISON_FREE then Inl Panic_use_after_free
     else if \<not> redzone_ok st x m then Inl Panic_redzone else Inr ())"
proof -
  have eq: "(\<forall>i. 16 \<le> i \<and> i < st - 8 \<longrightarrow> m (at (x + i)) = POISON_FREE)
      = (\<forall>y\<in>span (x + 16) (st - 24). m (at y) = POISON_FREE)"
  proof safe
    fix y assume a: "\<forall>i. 16 \<le> i \<and> i < st - 8 \<longrightarrow> m (at (x + i)) = POISON_FREE" "y \<in> span (x + 16) (st - 24)"
    then have "16 \<le> y - x \<and> y - x < st - 8" using st(2) by auto
    with a(1)[rule_format, of "y - x"] a(2) show "m (at y) = POISON_FREE" by simp
  qed auto
  have "list_all (\<lambda>i. m (at x + of_nat i) = POISON_FREE) [16..<st - 8]
      = (\<forall>y\<in>span (x + 16) (st - 24). m (at y) = POISON_FREE)"
    unfolding list_all_iff at_add using eq by auto
  then show ?thesis
    by (auto simp: check_free_object_def stride_end[OF st] at_add check_redzone_at[OF st])
qed

lemma check_free_object_ok:
  assumes "unat (c_stride k) = st" "24 \<le> st" "x + st \<le> DIRECT_MAP" "free_object st x m"
  shows "check_free_object k (at x) m = Inr ()"
  using assms(4) by (simp add: check_free_object_at[OF assms(1-3)] free_object_def)

lemma make_free_at:
  assumes st: "unat (c_stride k) = st" "24 \<le> st" "x + st \<le> DIRECT_MAP"
  shows "free_object st x (make_free k (at x) nxt m)" "load_u64 (at x) (make_free k (at x) nxt m) = nxt"
    "y < DIRECT_MAP \<Longrightarrow> y \<notin> span x st \<Longrightarrow> make_free k (at x) nxt m (at y) = m (at y)"
proof -
  let ?m = "make_free k (at x) nxt m"
  have m: "?m (at y) =
      (if y \<in> span (x + 8) 8 then le64 FREE_MAGIC ! (y - (x + 8))
       else if y \<in> span x 8 then le64 nxt ! (y - x)
       else if y \<in> span (x + (st - 8)) 8 then RZ_BYTE
       else if y \<in> span x (st - 8) then POISON_FREE else m (at y))" if "y < DIRECT_MAP" for y
    using that st(2,3) by (simp add: make_free_def Let_def stride_end[OF st] at_add store_u64_at memset_at)
  have in_map: "y < DIRECT_MAP" if "y \<in> span x st" for y using that st(3) by simp
  show "load_u64 (at x) ?m = nxt"
    by (rule load_u64_at_word) (use m in_map st(2) in auto)
  have "load_u64 (at (x + 8)) ?m = FREE_MAGIC"
    by (rule load_u64_at_word) (use m in_map st(2) in auto)
  moreover have "?m (at y) = POISON_FREE" if "y \<in> span (x + 16) (st - 24)" for y
    using m[of y] in_map[of y] that st(2) by auto
  moreover have "?m (at y) = RZ_BYTE" if "y \<in> span (x + (st - 8)) 8" for y
    using m[of y] in_map[of y] that st(2) by auto
  ultimately show "free_object st x ?m" by (simp add: free_object_def redzone_ok_def)
  show "y < DIRECT_MAP \<Longrightarrow> y \<notin> span x st \<Longrightarrow> ?m (at y) = m (at y)"
    using m[of y] st(2) by auto
qed

section \<open>The free list\<close>

fun chain :: "nat \<Rightarrow> memory \<Rightarrow> u64 \<Rightarrow> nat list \<Rightarrow> bool" where
  "chain st m a [] \<longleftrightarrow> a = 0"
| "chain st m a (x # xs) \<longleftrightarrow> a = at x \<and> free_object st x m \<and> chain st m (load_u64 (at x) m) xs"

lemma chain_cong:
  assumes "same_bytes (\<Union>x\<in>set xs. span x st) m m'" "24 \<le> st"
  shows "chain st m' a xs = chain st m a xs"
  using assms(1)
proof (induction xs arbitrary: a)
  case (Cons x xs)
  have x: "same_bytes (span x st) m m'" "same_bytes (\<Union>x\<in>set xs. span x st) m m'"
    using Cons.prems by (rule same_bytes_mono, auto)+
  have "same_bytes (span x 8) m m'" using x(1) by (rule same_bytes_mono) (use assms(2) in \<open>auto intro: span_sub\<close>)
  then have "load_u64 (at x) m' = load_u64 (at x) m" by (rule load_u64_at_cong)
  then show ?case using Cons.IH[OF x(2)] free_object_cong[OF x(1) assms(2)] by simp
qed simp

lemma chain_unique:
  assumes "chain st m a xs" "chain st m a ys" "set xs \<subseteq> {..<DIRECT_MAP}" "set ys \<subseteq> {..<DIRECT_MAP}"
  shows "xs = ys"
  using assms
proof (induction xs arbitrary: a ys)
  case Nil
  then show ?case by (cases ys) (auto simp: at_nonzero eq_commute[of 0])
next
  case (Cons x xs)
  then show ?case by (cases ys) (auto simp: at_nonzero at_eq)
qed

lemma chain_free: "chain st m a xs \<Longrightarrow> x \<in> set xs \<Longrightarrow> free_object st x m"
  by (induction xs arbitrary: a) auto

lemma init_objs_chain:
  assumes st: "unat (c_stride k) = st" "24 \<le> st" and "b + i * st \<le> DIRECT_MAP"
    and "chain st m nxt xs" "\<forall>x\<in>set xs. b + i * st \<le> x \<and> x + st \<le> DIRECT_MAP"
    and "init_objs k (at b) i nxt m = (nxt', m')"
  shows "chain st m' nxt' (map (\<lambda>j. b + j * st) [0..<i] @ xs) \<and>
    same_bytes ({..<DIRECT_MAP} - span b (i * st)) m m'"
  using assms(3-)
proof (induction i arbitrary: nxt m xs)
  case (Suc i)
  let ?x = "b + i * st" and ?m = "make_free k (at (b + i * st)) nxt m"
  have s: "c_stride k = of_nat st" by (simp flip: st(1))
  have "at b + of_nat i * c_stride k = at ?x" by (simp add: s at_def)
  then have run: "init_objs k (at b) i (at ?x) ?m = (nxt', m')"
    using Suc.prems(4) by (simp add: Let_def)
  have fit: "?x + st \<le> DIRECT_MAP" using Suc.prems(1) by simp
  note mf = make_free_at[OF st fit, where nxt = nxt and m = m]
  have out: "same_bytes ({..<DIRECT_MAP} - span ?x st) m ?m" using mf(3) by (simp add: same_bytes_def)
  have "same_bytes (\<Union>x\<in>set xs. span x st) m ?m"
    using out by (rule same_bytes_mono) (use Suc.prems(3) in fastforce)
  then have "chain st ?m nxt xs" using Suc.prems(2) chain_cong[OF _ st(2)] by simp
  then have ch: "chain st ?m (at ?x) (?x # xs)" using mf(1,2) by simp
  have "chain st m' nxt' (map (\<lambda>j. b + j * st) [0..<i] @ ?x # xs) \<and>
    same_bytes ({..<DIRECT_MAP} - span b (i * st)) ?m m'"
    by (rule Suc.IH[OF _ ch _ run]) (use Suc.prems(3) fit in auto)
  moreover have "same_bytes ({..<DIRECT_MAP} - span b (Suc i * st)) m ?m"
    using out by (rule same_bytes_mono) auto
  ultimately show ?case
    by (auto intro: same_bytes_trans[OF _ same_bytes_mono])
qed simp

end
