(* ===== verification/Slab_Proofs.thy ===== *)
theory Slab_Proofs
  imports Slab_Objects
begin

text \<open>
  Correctness of the object allocator. The invariant of a cache says which objects of its slabs are free (they
  form the free list of the slab) and on which of its lists every slab is; all others are live. The lemmas
  show that allocation makes one more object live, freeing one less, and that neither touches the bytes of
  any other object nor of any other frame in use.
\<close>

section \<open>Changes that leave the page allocator alone\<close>

definition quiet :: "'a pmm_scheme \<Rightarrow> 'a pmm_scheme \<Rightarrow> bool" where
  "quiet s s' \<longleftrightarrow> zones s' = zones s \<and> max_pfn s' = max_pfn s \<and>
     (\<forall>q. pg_order (mem_map s' q) = pg_order (mem_map s q) \<and>
        (\<forall>f\<in>{PG_RESERVED, PG_BUDDY, PG_HEAD}.
           has_flag (pg_flags (mem_map s' q)) f = has_flag (pg_flags (mem_map s q)) f))"

lemma quiet_refl [simp]: "quiet s s"
  by (simp add: quiet_def)

lemma quiet_trans: "quiet s s' \<Longrightarrow> quiet s' s'' \<Longrightarrow> quiet s s''"
  by (simp add: quiet_def)

lemma quiet_allocated:
  assumes "quiet s s'"
  shows "free_frames s' = free_frames s" "allocated s' h k = allocated s h k"
  using assms by (auto simp: quiet_def free_frames_def allocated_def in_zone_def)

lemma quiet_pmm_inv:
  assumes "quiet s s'" "pmm_inv s"
  shows "pmm_inv s'"
proof -
  have "zone_inv zi s'" if "zi < 2" for zi
  proof -
    have "zone_ok (mem_map s') (zones s zi)"
      by (rule zone_ok_cong[of "mem_map s"])
        (use pmm_inv_zone[OF assms(2) that] assms(1) in \<open>simp_all add: zone_inv_def quiet_def\<close>)
    then show ?thesis using pmm_inv_zone[OF assms(2) that] assms(1) by (simp add: zone_inv_def quiet_def)
  qed
  from this[of 0] this[of 1] show ?thesis
    using assms quiet_allocated(1)[OF assms(1)] by (auto simp: pmm_inv_def quiet_def)
qed

lemma mark_slab_eq:
  "mem_map (mark_slab c h n s) q = (if q \<in> span h n
     then (mem_map s q)\<lparr>pg_flags := pg_flags (mem_map s q) OR PG_SLAB, pg_cache := Some c, pg_head := Some h\<rparr>
     else mem_map s q)"
  "zones (mark_slab c h n s) = zones s" "max_pfn (mark_slab c h n s) = max_pfn s"
  "kmem (mark_slab c h n s) = kmem s" "pmm.more (mark_slab c h n s) = pmm.more s"
  by (induction n) (auto simp: upd_page_def less_Suc_eq)

lemma unmark_slab_eq:
  "mem_map (unmark_slab h n s) q = (if q \<in> span h n
     then (mem_map s q)\<lparr>pg_flags := pg_flags (mem_map s q) AND NOT PG_SLAB, pg_cache := None, pg_head := None\<rparr>
     else mem_map s q)"
  "zones (unmark_slab h n s) = zones s" "max_pfn (unmark_slab h n s) = max_pfn s"
  "kmem (unmark_slab h n s) = kmem s" "pmm.more (unmark_slab h n s) = pmm.more s"
  by (induction n) (auto simp: upd_page_def less_Suc_eq)

lemma mark_quiet: "quiet s (mark_slab c h n s)" "quiet s (unmark_slab h n s)"
proof -
  have a: "PG_SLAB AND PG_HEAD = 0" by (simp add: PG_SLAB_def PG_HEAD_def)
  show "quiet s (mark_slab c h n s)" by (auto simp: quiet_def mark_slab_eq flag_simps)
  show "quiet s (unmark_slab h n s)" by (auto simp: quiet_def unmark_slab_eq flag_simps a)
qed

section \<open>Geometry of a cache\<close>

abbreviation stride :: "kmem_cache \<Rightarrow> nat" where "stride k \<equiv> unat (c_stride k)"
abbreviation nobj :: "kmem_cache \<Rightarrow> nat" where "nobj k \<equiv> unat (c_objs_per_slab k)"

text \<open>
  A constructor initialises the object it is given and nothing else, and does not leave the mark of a free
  object in it.
\<close>

definition ctor_local :: "kmem_cache \<Rightarrow> bool" where
  "ctor_local k \<longleftrightarrow> (\<forall>f x m. c_ctor k = Some f \<and> x + stride k \<le> DIRECT_MAP \<longrightarrow>
     same_bytes ({..<DIRECT_MAP} - span x (stride k - 8)) m (f (at x) m) \<and>
     load_u64 (at (x + 8)) (f (at x) m) \<noteq> FREE_MAGIC)"

definition geometry :: "kmem_cache \<Rightarrow> bool" where
  "geometry k \<longleftrightarrow> 24 \<le> stride k \<and> 8 dvd stride k \<and> c_order k \<le> 3 \<and> 0 < nobj k \<and>
     nobj k * stride k \<le> 4096 * 2 ^ c_order k \<and> unat (c_size k) + 8 \<le> stride k \<and> ctor_local k"

definition same_geometry :: "kmem_cache \<Rightarrow> kmem_cache \<Rightarrow> bool" where
  "same_geometry k k' \<longleftrightarrow> c_size k' = c_size k \<and> c_stride k' = c_stride k \<and> c_order k' = c_order k \<and>
     c_objs_per_slab k' = c_objs_per_slab k \<and> c_ctor k' = c_ctor k"

lemma same_geometry_refl [simp]: "same_geometry k k"
  by (simp add: same_geometry_def)

lemma geometry_same: "same_geometry k k' \<Longrightarrow> geometry k' = geometry k"
  by (simp add: same_geometry_def geometry_def ctor_local_def)

text \<open>The offsets of the objects of the slab whose first frame is \<open>h\<close>.\<close>

definition objs :: "kmem_cache \<Rightarrow> nat \<Rightarrow> nat set" where
  "objs k h = (\<lambda>i. 4096 * h + i * stride k) ` {..<nobj k}"

definition slab_bytes :: "nat \<Rightarrow> nat \<Rightarrow> nat set" where
  "slab_bytes h order = span (4096 * h) (4096 * 2 ^ order)"

lemma slab_bytes_frame: "y \<in> slab_bytes h order \<longleftrightarrow> y div 4096 \<in> block h order"
  by (auto simp: slab_bytes_def less_mult_imp_div_less algebra_simps div_less_iff_less_mult less_eq_div_iff_mult_less_eq)

lemma finite_objs [simp]: "finite (objs k h)"
  by (simp add: objs_def)

lemma card_objs: "geometry k \<Longrightarrow> card (objs k h) = nobj k"
  unfolding objs_def by (subst card_image) (auto simp: inj_on_def geometry_def)

lemma objs_bytes:
  assumes "geometry k" "x \<in> objs k h"
  shows "span x (stride k) \<subseteq> slab_bytes h (c_order k)"
proof -
  from assms(2) obtain i where i: "i < nobj k" "x = 4096 * h + i * stride k" by (auto simp: objs_def)
  have "Suc i * stride k \<le> nobj k * stride k" using i(1) by (intro mult_le_mono1) simp
  also have "\<dots> \<le> 4096 * 2 ^ c_order k" using assms(1) by (simp add: geometry_def)
  finally show ?thesis unfolding slab_bytes_def by (auto simp: i(2))
qed

lemma objs_apart:
  assumes "x \<in> objs k h" "y \<in> objs k h" "x \<noteq> y"
  shows "span x (stride k) \<inter> span y (stride k) = {}"
proof -
  obtain i j where ij: "x = 4096 * h + i * stride k" "y = 4096 * h + j * stride k"
    using assms by (auto simp: objs_def)
  then have "i < j \<or> j < i" using assms(3) by (cases i j rule: linorder_cases) auto
  then have "Suc i * stride k \<le> j * stride k \<or> Suc j * stride k \<le> i * stride k"
    using mult_le_mono1[of "Suc i" j "stride k"] mult_le_mono1[of "Suc j" i "stride k"] by auto
  then show ?thesis by (auto simp: ij)
qed

lemma slab_bytes_map:
  assumes "pmm_inv s" "allocated s h order"
  shows "slab_bytes h order \<subseteq> {..<DIRECT_MAP}" "h + 2 ^ order \<le> PFN_LIMIT" "h < PFN_LIMIT"
proof -
  have z: "in_zone s h order" using assms(2) by (simp add: allocated_def)
  have pos: "(0::nat) < 2 ^ order" by simp
  then have "h + (2 ^ order - 1) \<in> block h order" unfolding block_iff by linarith
  then have "h + (2 ^ order - 1) < max_pfn s" by (rule in_zone_pfn_zone(2)[OF assms(1) z])
  then have "h + (2 ^ order - 1) < PFN_LIMIT" using assms(1) by (simp add: pmm_inv_def)
  then show l: "h + 2 ^ order \<le> PFN_LIMIT" using pos by linarith
  then show "h < PFN_LIMIT" using pos by linarith
  have "4096 * (h + 2 ^ order) \<le> 4096 * PFN_LIMIT" using l by (rule mult_le_mono2)
  then show "slab_bytes h order \<subseteq> {..<DIRECT_MAP}" by (auto simp: slab_bytes_def algebra_simps)
qed

section \<open>Slabs\<close>

definition marked :: "'a slab_scheme \<Rightarrow> nat \<Rightarrow> nat \<Rightarrow> nat \<Rightarrow> bool" where
  "marked s c h q \<longleftrightarrow> has_flag (pg_flags (mem_map s q)) PG_SLAB \<and> pg_cache (mem_map s q) = Some c \<and>
     pg_head (mem_map s q) = Some h"

abbreviation inuse :: "'a slab_scheme \<Rightarrow> nat \<Rightarrow> nat" where "inuse s h \<equiv> unat (pg_inuse (mem_map s h))"

text \<open>\<open>slab_ok c s h xs\<close>: block \<open>h\<close> is a slab of cache \<open>c\<close> whose free objects are \<open>xs\<close>, in the order of the list.\<close>

definition slab_ok :: "nat \<Rightarrow> 'a slab_scheme \<Rightarrow> nat \<Rightarrow> nat list \<Rightarrow> bool" where
  "slab_ok c s h xs \<longleftrightarrow>
     (let k = caches s c in
      allocated s h (c_order k) \<and> (\<forall>q\<in>block h (c_order k). marked s c h q) \<and>
      chain (stride k) (kmem s) (pg_freelist (mem_map s h)) xs \<and> distinct xs \<and> set xs \<subseteq> objs k h \<and>
      inuse s h + length xs = nobj k)"

lemma slab_okD:
  assumes "slab_ok c s h xs"
  shows "allocated s h (c_order (caches s c))" "q \<in> block h (c_order (caches s c)) \<Longrightarrow> marked s c h q"
    "chain (stride (caches s c)) (kmem s) (pg_freelist (mem_map s h)) xs" "distinct xs"
    "set xs \<subseteq> objs (caches s c) h" "inuse s h + length xs = nobj (caches s c)"
  using assms by (simp_all add: slab_ok_def Let_def del: block_iff)

lemma slab_objs_map:
  assumes "pmm_inv s" "slab_ok c s h xs" "geometry (caches s c)" "x \<in> objs (caches s c) h"
  shows "x + stride (caches s c) \<le> DIRECT_MAP" "x < DIRECT_MAP"
    "span x (stride (caches s c)) \<subseteq> slab_bytes h (c_order (caches s c))"
proof -
  show sub: "span x (stride (caches s c)) \<subseteq> slab_bytes h (c_order (caches s c))"
    by (rule objs_bytes[OF assms(3,4)])
  have st: "24 \<le> stride (caches s c)" using assms(3) by (simp add: geometry_def)
  have "x + stride (caches s c) - 1 \<in> span x (stride (caches s c))" using st by auto
  then have "x + stride (caches s c) - 1 < DIRECT_MAP"
    using sub slab_bytes_map(1)[OF assms(1) slab_okD(1)[OF assms(2)]] by blast
  then show "x + stride (caches s c) \<le> DIRECT_MAP" "x < DIRECT_MAP" using st by auto
qed

lemma slab_ok_unique:
  assumes "pmm_inv s" "geometry (caches s c)" "slab_ok c s h xs" "slab_ok c s h ys"
  shows "xs = ys"
  using chain_unique[OF slab_okD(3)[OF assms(3)] slab_okD(3)[OF assms(4)]]
    slab_objs_map(2)[OF assms(1,3,2)] slab_okD(5)[OF assms(3)] slab_okD(5)[OF assms(4)] by blast

text \<open>Slabs are disjoint, because every frame names its cache and its head.\<close>

lemma slabs_apart:
  assumes "slab_ok c s h xs" "slab_ok c' s h' ys" "(c, h) \<noteq> (c', h')"
  shows "block h (c_order (caches s c)) \<inter> block h' (c_order (caches s c')) = {}"
    "slab_bytes h (c_order (caches s c)) \<inter> slab_bytes h' (c_order (caches s c')) = {}"
proof -
  show "block h (c_order (caches s c)) \<inter> block h' (c_order (caches s c')) = {}"
    using slab_okD(2)[OF assms(1)] slab_okD(2)[OF assms(2)] assms(3)
    unfolding marked_def by (fastforce simp del: block_iff)
  then show "slab_bytes h (c_order (caches s c)) \<inter> slab_bytes h' (c_order (caches s c')) = {}"
    using slab_bytes_frame by blast
qed

text \<open>What a change must leave alone for a slab to stay as it is.\<close>

definition untouched :: "'a slab_scheme \<Rightarrow> 'a slab_scheme \<Rightarrow> nat \<Rightarrow> nat \<Rightarrow> bool" where
  "untouched s s' h order \<longleftrightarrow> (allocated s h order \<longrightarrow> allocated s' h order) \<and>
     (\<forall>q\<in>block h order. mem_map s' q = mem_map s q) \<and> same_bytes (slab_bytes h order) (kmem s) (kmem s')"

lemma slab_ok_untouched:
  assumes "slab_ok c s h xs" "same_geometry (caches s c) (caches s' c)" "geometry (caches s c)"
    and "untouched s s' h (c_order (caches s c))"
  shows "slab_ok c s' h xs" "inuse s' h = inuse s h"
proof -
  let ?k = "caches s c" and ?k' = "caches s' c"
  have k: "c_stride ?k' = c_stride ?k" "c_order ?k' = c_order ?k" "c_objs_per_slab ?k' = c_objs_per_slab ?k"
    using assms(2) by (simp_all add: same_geometry_def)
  have mm: "mem_map s' q = mem_map s q" if "q \<in> block h (c_order ?k)" for q
    using assms(4) that by (simp add: untouched_def)
  have hh: "mem_map s' h = mem_map s h" by (rule mm) simp
  have "same_bytes (\<Union>x\<in>set xs. span x (stride ?k)) (kmem s) (kmem s')"
  proof (rule same_bytes_mono)
    show "same_bytes (slab_bytes h (c_order ?k)) (kmem s) (kmem s')" using assms(4) by (simp add: untouched_def)
    show "(\<Union>x\<in>set xs. span x (stride ?k)) \<subseteq> slab_bytes h (c_order ?k)"
      using objs_bytes[OF assms(3)] slab_okD(5)[OF assms(1)] by blast
  qed
  then have "chain (stride ?k) (kmem s') (pg_freelist (mem_map s h)) xs"
    using slab_okD(3)[OF assms(1)] chain_cong[where st = "stride ?k"] assms(3) by (simp add: geometry_def)
  moreover have "marked s' c h q" if "q \<in> block h (c_order ?k)" for q
    using slab_okD(2)[OF assms(1) that] mm[OF that] by (simp add: marked_def)
  moreover have "objs ?k' h = objs ?k h" by (simp add: objs_def k)
  ultimately show "slab_ok c s' h xs"
    using assms(4) slab_okD[OF assms(1)] by (simp add: slab_ok_def Let_def k hh untouched_def del: block_iff)
  show "inuse s' h = inuse s h" by (simp add: hh)
qed

section \<open>Caches\<close>

definition slabs :: "kmem_cache \<Rightarrow> nat list" where
  "slabs k = c_partial k @ c_full k @ c_empty k"

definition base_ok :: "nat \<Rightarrow> 'a slab_scheme \<Rightarrow> bool" where
  "base_ok c s \<longleftrightarrow>
     (let k = caches s c in
      geometry k \<and> distinct (slabs k) \<and> (\<forall>h\<in>set (slabs k). \<exists>xs. slab_ok c s h xs) \<and>
      c_nr_slabs k = of_nat (length (slabs k)) \<and> c_active_objs k = of_nat (\<Sum>h\<in>set (slabs k). inuse s h))"

text \<open>Every slab is on the list for its filling, except possibly the slabs in \<open>A\<close>.\<close>

definition classified :: "nat set \<Rightarrow> nat \<Rightarrow> 'a slab_scheme \<Rightarrow> bool" where
  "classified A c s \<longleftrightarrow>
     (let k = caches s c in
      (\<forall>h\<in>set (c_partial k) - A. 0 < inuse s h \<and> inuse s h < nobj k) \<and>
      (\<forall>h\<in>set (c_full k) - A. inuse s h = nobj k) \<and> (\<forall>h\<in>set (c_empty k) - A. inuse s h = 0) \<and>
      length (c_empty k) \<le> 1)"

definition cache_ok :: "nat \<Rightarrow> 'a slab_scheme \<Rightarrow> bool" where
  "cache_ok c s \<longleftrightarrow> base_ok c s \<and> classified {} c s"

definition live_in :: "nat \<Rightarrow> 'a slab_scheme \<Rightarrow> nat \<Rightarrow> nat set" where
  "live_in c s h = {x\<in>objs (caches s c) h. \<exists>xs. slab_ok c s h xs \<and> x \<notin> set xs}"

definition live :: "nat \<Rightarrow> 'a slab_scheme \<Rightarrow> nat set" where
  "live c s = (\<Union>h\<in>set (slabs (caches s c)). live_in c s h)"

lemma live_in_eq:
  assumes "pmm_inv s" "geometry (caches s c)" "slab_ok c s h xs"
  shows "live_in c s h = objs (caches s c) h - set xs"
  unfolding live_in_def using assms(3) slab_ok_unique[OF assms] by blast

lemma live_in_untouched:
  assumes "pmm_inv s" "pmm_inv s'" "slab_ok c s h xs" "same_geometry (caches s c) (caches s' c)" "geometry (caches s c)"
    and "untouched s s' h (c_order (caches s c))"
  shows "live_in c s' h = live_in c s h"
proof -
  have "objs (caches s' c) h = objs (caches s c) h" using assms(4) by (simp add: objs_def same_geometry_def)
  moreover have "geometry (caches s' c)" using assms(4,5) by (simp add: geometry_same)
  ultimately show ?thesis
    using live_in_eq[OF assms(1,5,3)] live_in_eq[OF assms(2) _ slab_ok_untouched(1)[OF assms(3-6)]] by simp
qed

text \<open>A cache none of whose slabs is touched stays as it is.\<close>

lemma cache_untouched:
  assumes "pmm_inv s" "pmm_inv s'" "cache_ok c s" "caches s' c = caches s c"
    and "\<And>h. h \<in> set (slabs (caches s c)) \<Longrightarrow> untouched s s' h (c_order (caches s c))"
  shows "cache_ok c s'" "live c s' = live c s"
proof -
  have geo: "geometry (caches s c)" "same_geometry (caches s c) (caches s' c)"
    using assms(3,4) by (simp_all add: cache_ok_def base_ok_def Let_def)
  have ok: "\<exists>xs. slab_ok c s h xs" if "h \<in> set (slabs (caches s c))" for h
    using assms(3) that by (simp add: cache_ok_def base_ok_def Let_def)
  have same: "(\<exists>xs. slab_ok c s' h xs) \<and> inuse s' h = inuse s h \<and> live_in c s' h = live_in c s h"
    if hs: "h \<in> set (slabs (caches s c))" for h
  proof -
    obtain xs where xs: "slab_ok c s h xs" using ok[OF hs] by blast
    from slab_ok_untouched[OF xs geo(2,1) assms(5)[OF hs]]
      live_in_untouched[OF assms(1,2) xs geo(2,1) assms(5)[OF hs]]
    show ?thesis by blast
  qed
  have "set (c_partial (caches s c)) \<subseteq> set (slabs (caches s c))" "set (c_full (caches s c)) \<subseteq> set (slabs (caches s c))"
    "set (c_empty (caches s c)) \<subseteq> set (slabs (caches s c))"
    by (auto simp: slabs_def)
  then show "cache_ok c s'" using assms(3,4) same
    unfolding cache_ok_def base_ok_def classified_def Let_def by (simp add: subset_iff)
  show "live c s' = live c s" using same by (simp add: live_def assms(4))
qed

section \<open>Changing one slab\<close>

lemma others_untouched:
  assumes "pmm_inv s" "geometry (caches s c)" "slab_ok c s h xs" "x \<in> objs (caches s c) h" "quiet s s'"
    and "\<And>q. q \<noteq> h \<Longrightarrow> mem_map s' q = mem_map s q"
    and "same_bytes ({..<DIRECT_MAP} - span x (stride (caches s c))) (kmem s) (kmem s')"
    and "slab_ok c' s h' ys" "(c', h') \<noteq> (c, h)"
  shows "untouched s s' h' (c_order (caches s c'))"
proof -
  have apart: "block h (c_order (caches s c)) \<inter> block h' (c_order (caches s c')) = {}"
    "slab_bytes h (c_order (caches s c)) \<inter> slab_bytes h' (c_order (caches s c')) = {}"
    using slabs_apart[OF assms(3,8)] assms(9) by auto
  have "h \<notin> block h' (c_order (caches s c'))" using apart(1) block_head by blast
  moreover have "same_bytes (slab_bytes h' (c_order (caches s c'))) (kmem s) (kmem s')"
    using assms(7) by (rule same_bytes_mono)
      (use apart(2) objs_bytes[OF assms(2,4)] slab_bytes_map(1)[OF assms(1) slab_okD(1)[OF assms(8)]] in blast)
  ultimately show ?thesis
    using assms(6) quiet_allocated(2)[OF assms(5)] unfolding untouched_def by metis
qed

lemma slabs_del:
  assumes "distinct (slabs k)"
  shows "set (c_partial (list_del_slab h k)) = set (c_partial k) - {h}" "set (c_full (list_del_slab h k)) = set (c_full k) - {h}"
    "set (c_empty (list_del_slab h k)) = set (c_empty k) - {h}" "distinct (slabs (list_del_slab h k))"
    "set (slabs (list_del_slab h k)) = set (slabs k) - {h}" "length (c_empty (list_del_slab h k)) \<le> length (c_empty k)"
  using assms by (auto simp: slabs_def list_del_slab_def length_remove1 dest: notin_set_remove1)

lemma list_del_slab_keeps [simp]:
  "same_geometry k (list_del_slab h k)" "c_nr_slabs (list_del_slab h k) = c_nr_slabs k"
  "c_active_objs (list_del_slab h k) = c_active_objs k"
  by (simp_all add: same_geometry_def list_del_slab_def)

lemma objs_of_slabs_apart:
  assumes "base_ok c s" "h \<in> set (slabs (caches s c))" "h' \<in> set (slabs (caches s c))" "h' \<noteq> h"
  shows "objs (caches s c) h \<inter> objs (caches s c) h' = {}"
proof -
  let ?k = "caches s c"
  have g: "geometry ?k" and ok: "\<exists>xs. slab_ok c s h xs" "\<exists>ys. slab_ok c s h' ys"
    using assms by (simp_all add: base_ok_def Let_def)
  then have "slab_bytes h (c_order ?k) \<inter> slab_bytes h' (c_order ?k) = {}"
    using slabs_apart(2) assms(4) by fast
  moreover have "x \<in> span x (stride ?k)" for x using g by (simp add: geometry_def)
  ultimately show ?thesis using objs_bytes[OF g] by blast
qed

lemma live_at:
  assumes "pmm_inv s" "base_ok c s" "h \<in> set (slabs (caches s c))" "slab_ok c s h xs" "x \<in> objs (caches s c) h"
  shows "x \<in> live c s \<longleftrightarrow> x \<notin> set xs"
proof -
  have g: "geometry (caches s c)" using assms(2) by (simp add: base_ok_def Let_def)
  have "x \<in> live c s \<longleftrightarrow> x \<in> live_in c s h"
    using assms(3,5) objs_of_slabs_apart[OF assms(2,3)] unfolding live_def live_in_def by blast
  then show ?thesis using live_in_eq[OF assms(1) g assms(4)] assms(5) by simp
qed

text \<open>The invariant of a cache after a change to one of its slabs and to its lists.\<close>

lemma base_ok_change:
  assumes inv: "pmm_inv s" and base: "base_ok c s" and h: "h \<in> set (slabs (caches s c))"
    and xs: "slab_ok c s h xs" "x \<in> objs (caches s c) h" and q: "quiet s s'"
    and mm: "\<And>q. q \<noteq> h \<Longrightarrow> mem_map s' q = mem_map s q"
    and bytes: "same_bytes ({..<DIRECT_MAP} - span x (stride (caches s c))) (kmem s) (kmem s')"
    and geo: "same_geometry (caches s c) (caches s' c)"
    and lists: "distinct (slabs (caches s' c))" "set (slabs (caches s' c)) = set (slabs (caches s c))"
      "c_nr_slabs (caches s' c) = c_nr_slabs (caches s c)"
    and ys: "slab_ok c s' h ys"
    and act: "c_active_objs (caches s' c) + of_nat (inuse s h) = c_active_objs (caches s c) + of_nat (inuse s' h)"
  shows "base_ok c s'" "live c s' = live c s - live_in c s h \<union> live_in c s' h"
proof -
  let ?k = "caches s c" and ?k' = "caches s' c"
  have g: "geometry ?k" "distinct (slabs ?k)" "c_nr_slabs ?k = of_nat (length (slabs ?k))"
    "c_active_objs ?k = of_nat (\<Sum>h\<in>set (slabs ?k). inuse s h)"
    using base by (simp_all add: base_ok_def Let_def)
  have ok: "\<exists>zs. slab_ok c s h' zs" if "h' \<in> set (slabs ?k)" for h'
    using base that by (simp add: base_ok_def Let_def)
  have inv': "pmm_inv s'" using quiet_pmm_inv[OF q inv] .
  have oth: "(\<exists>zs. slab_ok c s' h' zs) \<and> inuse s' h' = inuse s h' \<and> live_in c s' h' = live_in c s h'"
    if h': "h' \<in> set (slabs ?k)" "h' \<noteq> h" for h'
  proof -
    obtain zs where zs: "slab_ok c s h' zs" using ok[OF h'(1)] by blast
    have u: "untouched s s' h' (c_order ?k)"
      using others_untouched[OF inv g(1) xs q mm bytes zs] h'(2) by auto
    from slab_ok_untouched[OF zs geo g(1) u] live_in_untouched[OF inv inv' zs geo g(1) u] show ?thesis by blast
  qed
  have "(\<Sum>h\<in>set (slabs ?k) - {h}. inuse s' h) = (\<Sum>h\<in>set (slabs ?k) - {h}. inuse s h)"
    by (rule sum.cong) (use oth in auto)
  then have "(\<Sum>h\<in>set (slabs ?k). inuse s' h) + inuse s h = (\<Sum>h\<in>set (slabs ?k). inuse s h) + inuse s' h"
    by (simp add: sum.remove[OF _ h])
  then have "(of_nat (\<Sum>h\<in>set (slabs ?k). inuse s' h) :: u64) + of_nat (inuse s h) =
      of_nat (\<Sum>h\<in>set (slabs ?k). inuse s h) + of_nat (inuse s' h)"
    by (simp only: flip: of_nat_add)
  then have "c_active_objs ?k' = of_nat (\<Sum>h\<in>set (slabs ?k). inuse s' h)"
    using act unfolding g(4) by (metis add_right_cancel)
  moreover have "length (slabs ?k') = length (slabs ?k)"
    using lists(1,2) g(2) by (metis distinct_card)
  moreover have "\<exists>zs. slab_ok c s' h' zs" if "h' \<in> set (slabs ?k)" for h'
    using oth[OF that] ys by (cases "h' = h") auto
  ultimately show "base_ok c s'"
    unfolding base_ok_def Let_def using g lists geo by (simp add: geometry_same)
  have "live c s = live_in c s h \<union> (\<Union>h'\<in>set (slabs ?k) - {h}. live_in c s h')"
    "live c s' = live_in c s' h \<union> (\<Union>h'\<in>set (slabs ?k) - {h}. live_in c s h')"
    unfolding live_def lists(2) using h oth by auto
  moreover have "live_in c s h \<inter> (\<Union>h'\<in>set (slabs ?k) - {h}. live_in c s h') = {}"
    using objs_of_slabs_apart[OF base h] unfolding live_in_def by blast
  ultimately show "live c s' = live c s - live_in c s h \<union> live_in c s' h" by blast
qed

section \<open>Taking an object\<close>

definition after_ctor :: "kmem_cache \<Rightarrow> u64 \<Rightarrow> memory \<Rightarrow> memory" where
  "after_ctor k obj m = (case c_ctor k of None \<Rightarrow> m | Some f \<Rightarrow> f obj m)"

definition counted_alloc :: "kmem_cache \<Rightarrow> kmem_cache" where
  "counted_alloc k = k\<lparr>c_active_objs := c_active_objs k + 1, c_allocs := c_allocs k + 1\<rparr>"

definition full_slab :: "nat \<Rightarrow> kmem_cache \<Rightarrow> kmem_cache" where
  "full_slab h k = (list_del_slab h k)\<lparr>c_full := h # c_full (list_del_slab h k)\<rparr>"

lemma take_object_eq:
  fixes s :: "'a slab_scheme" and c h :: nat and obj :: u64
  defines "s' \<equiv> take_object c h obj s"
  shows "mem_map s' = (mem_map s)(h := (mem_map s h)\<lparr>pg_freelist := load_u64 obj (kmem s), pg_inuse := pg_inuse (mem_map s h) + 1\<rparr>)"
    "zones s' = zones s" "max_pfn s' = max_pfn s" "cache_list s' = cache_list s" "kmalloc_caches s' = kmalloc_caches s"
    "kmem s' = after_ctor (caches s c) obj (store_u64 (obj + 8) 0 (kmem s))"
    "caches s' = (caches s)(c := counted_alloc (if pg_inuse (mem_map s h) + 1 = c_objs_per_slab (caches s c)
       then full_slab h (caches s c) else caches s c))"
  unfolding s'_def
  by (auto simp: take_object_def Let_def upd_page_def upd_cache_def after_ctor_def counted_alloc_def full_slab_def list_del_slab_def
      split: option.splits)

lemma take_object_quiet: "quiet s (take_object c h obj s)"
  by (simp add: quiet_def take_object_eq)

lemma take_object_bytes:
  assumes "geometry (caches s c)" "x + stride (caches s c) \<le> DIRECT_MAP"
  shows "same_bytes ({..<DIRECT_MAP} - span x (stride (caches s c) - 8)) (kmem s) (kmem (take_object c h (at x) s))"
proof -
  let ?k = "caches s c" and ?m = "store_u64 (at x + 8) 0 (kmem s)"
  have st: "24 \<le> stride ?k" using assms(1) by (simp add: geometry_def)
  have "same_bytes ({..<DIRECT_MAP} - span x (stride ?k - 8)) (kmem s) ?m"
    unfolding same_bytes_def at_add using assms(2) st by (auto simp: store_u64_at)
  moreover have "same_bytes ({..<DIRECT_MAP} - span x (stride ?k - 8)) ?m (after_ctor ?k (at x) ?m)"
    using assms by (auto simp: after_ctor_def geometry_def ctor_local_def split: option.splits)
  ultimately show ?thesis unfolding take_object_eq by (rule same_bytes_trans)
qed

lemma take_object_slab:
  assumes inv: "pmm_inv s" and g: "geometry (caches s c)" and ok: "slab_ok c s h (x # xs)"
  shows "slab_ok c (take_object c h (at x) s) h xs" "inuse (take_object c h (at x) s) h = inuse s h + 1"
proof -
  let ?k = "caches s c" and ?s = "take_object c h (at x) s"
  have k: "same_geometry ?k (caches ?s c)"
    by (simp add: take_object_eq counted_alloc_def full_slab_def list_del_slab_def same_geometry_def)
  then have k': "c_stride (caches ?s c) = c_stride ?k" "c_order (caches ?s c) = c_order ?k"
    "c_objs_per_slab (caches ?s c) = c_objs_per_slab ?k" by (simp_all add: same_geometry_def)
  note D = slab_okD[OF ok]
  have x: "x \<in> objs ?k h" using D(5) by simp
  have "unat (pg_inuse (mem_map s h)) + 1 < 2 ^ 32" using D(6) unat_lt_32[of "c_objs_per_slab ?k"] by simp
  then show u: "inuse ?s h = inuse s h + 1" by (simp add: take_object_eq unat_word_ariths)
  have "same_bytes (\<Union>y\<in>set xs. span y (stride ?k)) (kmem s) (kmem ?s)"
  proof (rule same_bytes_mono[OF take_object_bytes[OF g slab_objs_map(1)[OF inv ok g x]]])
    have "span y (stride ?k) \<inter> span x (stride ?k) = {}" "span y (stride ?k) \<subseteq> {..<DIRECT_MAP}" if "y \<in> set xs" for y
    proof -
      have y: "y \<in> objs ?k h" "y \<noteq> x" using that D(4,5) by auto
      show "span y (stride ?k) \<inter> span x (stride ?k) = {}" by (rule objs_apart[OF y(1) x y(2)])
      show "span y (stride ?k) \<subseteq> {..<DIRECT_MAP}" using slab_objs_map(1)[OF inv ok g y(1)] by auto
    qed
    moreover have "span x (stride ?k - 8) \<subseteq> span x (stride ?k)" by auto
    ultimately show "(\<Union>y\<in>set xs. span y (stride ?k)) \<subseteq> {..<DIRECT_MAP} - span x (stride ?k - 8)" by blast
  qed
  then have "chain (stride ?k) (kmem ?s) (load_u64 (at x) (kmem s)) xs"
    using D(3) chain_cong[where st = "stride ?k"] g by (simp add: geometry_def)
  moreover have "marked ?s c h q" if "q \<in> block h (c_order ?k)" for q
    using D(2)[OF that] by (auto simp: marked_def take_object_eq)
  moreover have "objs (caches ?s c) h = objs ?k h" by (simp add: objs_def k')
  moreover have "pg_freelist (mem_map ?s h) = load_u64 (at x) (kmem s)" by (simp add: take_object_eq)
  ultimately show "slab_ok c ?s h xs"
    using D quiet_allocated(2)[OF take_object_quiet[of s c h "at x"]] u unfolding slab_ok_def Let_def k' by simp
qed

lemma classified_change:
  assumes "classified {h} c s" "\<And>h'. h' \<noteq> h \<Longrightarrow> inuse s' h' = inuse s h'" "nobj (caches s' c) = nobj (caches s c)"
    and "set (c_partial (caches s' c)) \<subseteq> insert h (set (c_partial (caches s c)))"
      "set (c_full (caches s' c)) \<subseteq> insert h (set (c_full (caches s c)))"
      "set (c_empty (caches s' c)) \<subseteq> insert h (set (c_empty (caches s c)))" "length (c_empty (caches s' c)) \<le> 1"
    and "h \<in> set (c_partial (caches s' c)) \<Longrightarrow> 0 < inuse s' h \<and> inuse s' h < nobj (caches s c)"
      "h \<in> set (c_full (caches s' c)) \<Longrightarrow> inuse s' h = nobj (caches s c)"
      "h \<in> set (c_empty (caches s' c)) \<Longrightarrow> inuse s' h = 0"
  shows "classified {} c s'"
  unfolding classified_def Let_def
proof (intro conjI ballI)
  fix h' assume "h' \<in> set (c_partial (caches s' c)) - {}"
  then show "0 < inuse s' h'" "inuse s' h' < nobj (caches s' c)"
    using assms(1) assms(2)[of h'] assms(3,4,8) by (cases "h' = h"; auto simp: classified_def Let_def)+
next
  fix h' assume "h' \<in> set (c_full (caches s' c)) - {}"
  then show "inuse s' h' = nobj (caches s' c)"
    using assms(1) assms(2)[of h'] assms(3,5,9) by (cases "h' = h") (auto simp: classified_def Let_def)
next
  fix h' assume "h' \<in> set (c_empty (caches s' c)) - {}"
  then show "inuse s' h' = 0"
    using assms(1) assms(2)[of h'] assms(6,10) by (cases "h' = h") (auto simp: classified_def Let_def)
qed (rule assms(7))

lemma full_slab_lists:
  assumes "distinct (slabs k)" "h \<in> set (slabs k)"
  shows "distinct (slabs (full_slab h k))" "set (slabs (full_slab h k)) = set (slabs k)"
    "set (c_partial (full_slab h k)) = set (c_partial k) - {h}" "set (c_full (full_slab h k)) = insert h (set (c_full k))"
    "set (c_empty (full_slab h k)) = set (c_empty k) - {h}" "length (c_empty (full_slab h k)) \<le> length (c_empty k)"
  using slabs_del[OF assms(1), of h] assms(2) by (auto simp: full_slab_def slabs_def)

lemma counted_alloc_keeps [simp]:
  "slabs (counted_alloc k) = slabs k" "c_partial (counted_alloc k) = c_partial k" "c_full (counted_alloc k) = c_full k"
  "c_empty (counted_alloc k) = c_empty k" "same_geometry k' (counted_alloc k) = same_geometry k' k"
  "c_nr_slabs (counted_alloc k) = c_nr_slabs k" "c_active_objs (counted_alloc k) = c_active_objs k + 1"
  by (simp_all add: counted_alloc_def slabs_def same_geometry_def)

lemma full_slab_keeps [simp]:
  "same_geometry k (full_slab h k)" "c_nr_slabs (full_slab h k) = c_nr_slabs k" "c_active_objs (full_slab h k) = c_active_objs k"
  by (simp_all add: full_slab_def list_del_slab_def same_geometry_def)

lemma take_object_cache:
  assumes inv: "pmm_inv s" and base: "base_ok c s" and cl: "classified {h} c s" and h: "h \<in> set (c_partial (caches s c))"
    and ok: "slab_ok c s h (x # xs)"
  shows "cache_ok c (take_object c h (at x) s)" "live c (take_object c h (at x) s) = insert x (live c s)"
    "x \<notin> live c s" "x \<in> objs (caches s c) h"
proof -
  let ?k = "caches s c" and ?s = "take_object c h (at x) s"
  have g: "geometry ?k" "distinct (slabs ?k)" using base by (simp_all add: base_ok_def Let_def)
  have hs: "h \<in> set (slabs ?k)" using h by (simp add: slabs_def)
  show x: "x \<in> objs ?k h" using slab_okD(5)[OF ok] by simp
  note T = take_object_slab[OF inv g(1) ok] and L = full_slab_lists[OF g(2) hs]
  have inv': "pmm_inv ?s" using quiet_pmm_inv[OF take_object_quiet inv] .
  define k' where "k' = caches ?s c"
  have k': "k' = counted_alloc (if inuse ?s h = nobj ?k then full_slab h ?k else ?k)"
    using T(2) by (simp add: k'_def take_object_eq word_unat_eq_iff[of "pg_inuse (mem_map s h) + 1"])
  have geo: "same_geometry ?k k'" by (simp add: k')
  have bytes: "same_bytes ({..<DIRECT_MAP} - span x (stride ?k)) (kmem s) (kmem ?s)"
    by (rule same_bytes_mono[OF take_object_bytes[OF g(1) slab_objs_map(1)[OF inv ok g(1) x]]]) auto
  have lists: "distinct (slabs k')" "set (slabs k') = set (slabs ?k)" "c_nr_slabs k' = c_nr_slabs ?k"
    using L(1,2) g(2) by (simp_all add: k')
  have act: "c_active_objs k' + of_nat (inuse s h) = c_active_objs ?k + of_nat (inuse ?s h)"
    by (simp add: k' T(2))
  have mm: "mem_map ?s q = mem_map s q" if "q \<noteq> h" for q using that by (simp add: take_object_eq)
  note C = base_ok_change[OF inv base hs ok x take_object_quiet mm bytes geo[unfolded k'_def]
      lists[unfolded k'_def] T(1) act[unfolded k'_def], simplified]
  have dis: "h \<notin> set (c_full ?k)" "h \<notin> set (c_empty ?k)" using g(2) h by (auto simp: slabs_def)
  have cnt: "0 < inuse ?s h" "inuse ?s h \<le> nobj ?k" using T(2) slab_okD(6)[OF ok] by simp_all
  have n: "nobj k' = nobj ?k" using geo by (simp add: same_geometry_def)
  have e1: "length (c_empty ?k) \<le> 1" using cl by (simp add: classified_def Let_def)
  have sets: "set (c_partial k') = set (c_partial ?k) - (if inuse ?s h = nobj ?k then {h} else {})"
    "set (c_full k') = set (c_full ?k) \<union> (if inuse ?s h = nobj ?k then {h} else {})"
    "set (c_empty k') = set (c_empty ?k)" "length (c_empty k') \<le> 1"
    using L(3-6) dis e1 by (auto simp: k')
  have "classified {} c ?s"
    using sets n cnt dis unfolding k'_def
    by (intro classified_change[OF cl]) (auto simp: mm split: if_splits)
  then show "cache_ok c ?s" using C(1) by (simp add: cache_ok_def)
  show nl: "x \<notin> live c s" using live_at[OF inv base hs ok x] by simp
  have "live_in c s h = objs ?k h - set (x # xs)" by (rule live_in_eq[OF inv g(1) ok])
  moreover have "objs (caches ?s c) h = objs ?k h" using geo unfolding k'_def by (simp add: objs_def same_geometry_def)
  then have "live_in c ?s h = objs ?k h - set xs"
    using live_in_eq[OF inv' _ T(1)] g(1) geo unfolding k'_def by (simp add: geometry_same)
  moreover have "x \<notin> set xs" using slab_okD(4)[OF ok] by simp
  moreover have "live_in c s h \<subseteq> live c s" unfolding live_def using hs by blast
  ultimately show "live c ?s = insert x (live c s)" unfolding C(2) using x by auto
qed

section \<open>Choosing a slab\<close>

text \<open>A change that only uses frames that were free.\<close>

definition used_bytes :: "'a pmm_scheme \<Rightarrow> nat set" where
  "used_bytes s = {y. y < DIRECT_MAP \<and> y div 4096 \<notin> free_frames s}"

definition grown :: "'a slab_scheme \<Rightarrow> 'a slab_scheme \<Rightarrow> bool" where
  "grown s s' \<longleftrightarrow> pmm_inv s' \<and> (\<forall>q. q \<notin> free_frames s \<longrightarrow> mem_map s' q = mem_map s q) \<and>
     same_bytes (used_bytes s) (kmem s) (kmem s') \<and> (\<forall>h k. allocated s h k \<longrightarrow> allocated s' h k) \<and>
     free_frames s' \<subseteq> free_frames s \<and> cache_list s' = cache_list s \<and> kmalloc_caches s' = kmalloc_caches s"

lemma grown_untouched:
  assumes "pmm_inv s" "grown s s'" "allocated s h k"
  shows "untouched s s' h k"
proof -
  have "block h k \<inter> free_frames s = {}" using assms(3) by (simp add: allocated_def)
  then have "slab_bytes h k \<subseteq> used_bytes s"
    using slab_bytes_map(1)[OF assms(1,3)] slab_bytes_frame unfolding used_bytes_def by blast
  then show ?thesis using assms(2) \<open>block h k \<inter> free_frames s = {}\<close>
    unfolding untouched_def grown_def by (blast intro: same_bytes_mono)
qed

lemma slab_more:
  assumes "pmm.more s' = pmm.more (s :: 'a slab_scheme)"
  shows "caches s' = caches s" "cache_list s' = cache_list s" "kmalloc_caches s' = kmalloc_caches s"
  using assms by (cases s; cases s'; simp)+

lemma new_slab_None:
  assumes "pmm_inv s" "new_slab c s = (None, s')"
  shows "s' = s" "c_order (caches s c) < MAX_ORDER \<Longrightarrow> \<not> runs_free s 0 (c_order (caches s c)) p"
proof -
  have "alloc_pages (c_order (caches s c)) 0 s = (None, s')"
    using assms(2) by (auto simp: new_slab_def Let_def split: prod.splits option.splits)
  from alloc_pages_None[OF assms(1) this] show "s' = s"
    "c_order (caches s c) < MAX_ORDER \<Longrightarrow> \<not> runs_free s 0 (c_order (caches s c)) p" by blast+
qed

definition new_objs :: "kmem_cache \<Rightarrow> nat \<Rightarrow> nat list" where
  "new_objs k h = map (\<lambda>i. 4096 * h + i * stride k) [0..<nobj k]"

lemma new_objs_props:
  assumes "geometry k"
  shows "set (new_objs k h) = objs k h" "distinct (new_objs k h)" "length (new_objs k h) = nobj k" "new_objs k h \<noteq> []"
  using assms by (auto simp: new_objs_def objs_def distinct_map inj_on_def geometry_def)

lemma new_slab_Some:
  assumes inv: "pmm_inv s" and g: "geometry (caches s c)" and new: "new_slab c s = (Some h, s')"
  shows "grown s s'" "slab_ok c s' h (new_objs (caches s c) h)" "inuse s' h = 0" "h \<in> free_frames s"
    "caches s' = (caches s)(c := (caches s c)\<lparr>c_nr_slabs := c_nr_slabs (caches s c) + 1\<rparr>)"
proof -
  let ?k = "caches s c"
  obtain s1 where a: "alloc_pages (c_order ?k) 0 s = (Some h, s1)"
    using new by (auto simp: new_slab_def Let_def split: prod.splits option.splits)
  have t: "took (pfn_zone h) h (c_order ?k) 0 s s1" by (rule alloc_pages_took(1)[OF inv a])
  then have t': "pmm_inv s1" "allocated s1 h (c_order ?k)" "block h (c_order ?k) \<subseteq> free_frames s"
    "free_frames s1 = free_frames s - block h (c_order ?k)" "pmm.more s1 = pmm.more s"
    "\<And>q. q \<notin> free_frames s \<Longrightarrow> mem_map s1 q = mem_map s q" "kmem s1 = kmem s"
    unfolding took_def by simp_all
  define s2 where "s2 = mark_slab c h (2 ^ c_order ?k) s1"
  have more2: "pmm.more s2 = pmm.more s" by (simp add: s2_def mark_slab_eq t'(5))
  obtain nxt m where i: "init_objs ?k (page_to_virt h) (nobj ?k) 0 (kmem s1) = (nxt, m)" by (cases "init_objs ?k (page_to_virt h) (nobj ?k) 0 (kmem s1)")
  have s': "s' = upd_cache c (\<lambda>k. k\<lparr>c_nr_slabs := c_nr_slabs k + 1\<rparr>)
      (upd_page h (\<lambda>pg. pg\<lparr>pg_freelist := nxt, pg_inuse := 0\<rparr>) (s2\<lparr>kmem := m\<rparr>))"
    using new by (simp add: new_slab_def Let_def a s2_def[symmetric] split: prod.splits) (simp add: s2_def mark_slab_eq i)
  have mm: "mem_map s' = (mem_map s2)(h := (mem_map s2 h)\<lparr>pg_freelist := nxt, pg_inuse := 0\<rparr>)"
    and km: "kmem s' = m" and z: "zones s' = zones s2" "max_pfn s' = max_pfn s2"
    and cs: "caches s' = (caches s)(c := ?k\<lparr>c_nr_slabs := c_nr_slabs ?k + 1\<rparr>)"
      "cache_list s' = cache_list s" "kmalloc_caches s' = kmalloc_caches s"
    by (simp_all add: s' upd_cache_def upd_page_def slab_more[OF more2])
  have q: "quiet s1 s'"
    by (rule quiet_trans[OF mark_quiet(1)[of s1 c h "2 ^ c_order ?k"]]) (simp add: quiet_def mm z s2_def)
  have al: "allocated s' h (c_order ?k)" using t'(2) quiet_allocated(2)[OF q] by simp
  have lim: "h < PFN_LIMIT" and sub: "slab_bytes h (c_order ?k) \<subseteq> {..<DIRECT_MAP}"
    using slab_bytes_map[OF t'(1,2)] by simp_all
  have st: "24 \<le> stride ?k" "nobj ?k * stride ?k \<le> 4096 * 2 ^ c_order ?k" using g by (simp_all add: geometry_def)
  have top: "4096 * h + 4096 * 2 ^ c_order ?k \<le> DIRECT_MAP"
    using mult_le_mono2[OF slab_bytes_map(2)[OF t'(1,2)], of 4096] by (simp add: algebra_simps)
  have init: "chain (stride ?k) m nxt (new_objs ?k h)"
      "same_bytes ({..<DIRECT_MAP} - span (4096 * h) (nobj ?k * stride ?k)) (kmem s) m"
    using init_objs_chain[OF refl st(1), of "4096 * h" "nobj ?k" "kmem s1" 0 "[]" nxt m] top st(2) i
    by (simp_all add: page_to_virt_at[OF lim] t'(7) new_objs_def)
  have mk: "marked s' c h q" if "q \<in> block h (c_order ?k)" for q
    using that by (auto simp: marked_def mm s2_def mark_slab_eq block_def flag_simps)
  show "inuse s' h = 0" by (simp add: mm)
  then show "slab_ok c s' h (new_objs ?k h)"
    using al mk init(1) new_objs_props[OF g, of h] by (simp add: slab_ok_def Let_def cs(1) km mm objs_def del: block_iff)
  show "h \<in> free_frames s" using t'(3) block_head by blast
  show "caches s' = (caches s)(c := ?k\<lparr>c_nr_slabs := c_nr_slabs ?k + 1\<rparr>)" by (rule cs(1))
  have "mem_map s' q = mem_map s q" if "q \<notin> free_frames s" for q
  proof -
    have "q \<notin> block h (c_order ?k)" using that t'(3) by blast
    then have "q \<noteq> h" "q \<notin> span h (2 ^ c_order ?k)" by (auto simp: block_def)
    then show ?thesis using t'(6)[OF that] by (auto simp: mm s2_def mark_slab_eq)
  qed
  moreover have "same_bytes (used_bytes s) (kmem s) (kmem s')"
  proof (unfold km, rule same_bytes_mono[OF init(2)])
    have "span (4096 * h) (nobj ?k * stride ?k) \<subseteq> slab_bytes h (c_order ?k)" using st(2) by (auto simp: slab_bytes_def)
    then show "used_bytes s \<subseteq> {..<DIRECT_MAP} - span (4096 * h) (nobj ?k * stride ?k)"
      using t'(3) slab_bytes_frame unfolding used_bytes_def by blast
  qed
  moreover have "allocated s' h' k" if "allocated s h' k" for h' k
    using took_keeps[OF t that] quiet_allocated(2)[OF q] by simp
  ultimately show "grown s s'"
    using quiet_pmm_inv[OF q t'(1)] quiet_allocated(1)[OF q] t'(4) cs by (auto simp: grown_def)
qed

definition partial_slab :: "nat \<Rightarrow> kmem_cache \<Rightarrow> kmem_cache" where
  "partial_slab h k = (list_del_slab h k)\<lparr>c_partial := h # c_partial (list_del_slab h k)\<rparr>"

lemma partial_slab_lists:
  assumes "distinct (slabs k)" "h \<in> set (slabs k)"
  shows "distinct (slabs (partial_slab h k))" "set (slabs (partial_slab h k)) = set (slabs k)"
    "set (c_partial (partial_slab h k)) = insert h (set (c_partial k))" "set (c_full (partial_slab h k)) = set (c_full k) - {h}"
    "set (c_empty (partial_slab h k)) = set (c_empty k) - {h}" "length (c_empty (partial_slab h k)) \<le> length (c_empty k)"
    "c_nr_slabs (partial_slab h k) = c_nr_slabs k" "c_active_objs (partial_slab h k) = c_active_objs k"
    "same_geometry k (partial_slab h k)"
  using slabs_del[OF assms(1), of h] assms(2) by (auto simp: partial_slab_def slabs_def list_del_slab_def same_geometry_def)

text \<open>Everything a slab's well-formedness depends on, apart from the lists.\<close>

lemma slab_ok_lists:
  assumes "same_geometry (caches s c) k'"
  shows "slab_ok c (upd_cache c (\<lambda>_. k') s) h xs = slab_ok c s h xs"
  using assms by (simp add: slab_ok_def Let_def upd_cache_def same_geometry_def marked_def objs_def allocated_def in_zone_def free_frames_def)

lemma live_in_lists:
  assumes "same_geometry (caches s c) k'"
  shows "live_in c (upd_cache c (\<lambda>_. k') s) h = live_in c s h"
proof -
  have "objs (caches (upd_cache c (\<lambda>_. k') s) c) h = objs (caches s c) h"
    using assms by (simp add: upd_cache_def objs_def same_geometry_def)
  then show ?thesis by (simp add: live_in_def slab_ok_lists[OF assms])
qed

lemma base_ok_lists:
  assumes "base_ok c s" "same_geometry (caches s c) k'" "distinct (slabs k')" "set (slabs k') = set (slabs (caches s c))"
    "c_nr_slabs k' = c_nr_slabs (caches s c)" "c_active_objs k' = c_active_objs (caches s c)"
  shows "base_ok c (upd_cache c (\<lambda>_. k') s)" "live c (upd_cache c (\<lambda>_. k') s) = live c s"
proof -
  have [simp]: "caches (upd_cache c (\<lambda>_. k') s) c = k'" "mem_map (upd_cache c (\<lambda>_. k') s) = mem_map s"
    by (simp_all add: upd_cache_def)
  have "length (slabs k') = length (slabs (caches s c))"
    using assms(1,3,4) by (metis base_ok_def distinct_card)
  then show "base_ok c (upd_cache c (\<lambda>_. k') s)"
    using assms by (simp add: base_ok_def Let_def slab_ok_lists geometry_same)
  show "live c (upd_cache c (\<lambda>_. k') s) = live c s"
    by (simp add: live_def live_in_lists[OF assms(2)] assms(4))
qed

lemma upd_cache_const: "upd_cache c f s = upd_cache c (\<lambda>_. f (caches s c)) s"
  by (simp add: upd_cache_def)

lemma upd_cache_quiet: "quiet s (upd_cache c f s)"
  by (simp add: quiet_def upd_cache_def)

text \<open>What an allocation relies on once it has chosen a slab.\<close>

definition picked :: "nat \<Rightarrow> nat \<Rightarrow> 'a slab_scheme \<Rightarrow> 'a slab_scheme \<Rightarrow> bool" where
  "picked c h s s' \<longleftrightarrow> grown s s' \<and> base_ok c s' \<and> classified {h} c s' \<and> h \<in> set (c_partial (caches s' c)) \<and>
     (\<exists>x xs. slab_ok c s' h (x # xs)) \<and> live c s' = live c s \<and> same_geometry (caches s c) (caches s' c) \<and>
     (\<forall>c'. c' \<noteq> c \<longrightarrow> caches s' c' = caches s c')"

lemma grown_upd_cache: "grown s s' \<Longrightarrow> grown s (upd_cache c f s')"
proof -
  assume g: "grown s s'"
  have q: "quiet s' (upd_cache c f s')" by (rule upd_cache_quiet)
  have "mem_map (upd_cache c f s') = mem_map s'" "kmem (upd_cache c f s') = kmem s'"
    "cache_list (upd_cache c f s') = cache_list s'" "kmalloc_caches (upd_cache c f s') = kmalloc_caches s'"
    by (simp_all add: upd_cache_def)
  then show ?thesis using g quiet_pmm_inv[OF q] quiet_allocated[OF q] by (simp add: grown_def)
qed

lemma grown_refl: "pmm_inv s \<Longrightarrow> grown s s"
  by (simp add: grown_def)

lemma pick_partial:
  assumes inv: "pmm_inv s" and ok: "cache_ok c s" and p: "h \<in> set (c_partial (caches s c))"
  shows "picked c h s s"
proof -
  have h: "h \<in> set (slabs (caches s c))" using p by (simp add: slabs_def)
  obtain ys where ys: "slab_ok c s h ys" using ok h by (auto simp: cache_ok_def base_ok_def Let_def)
  have "inuse s h < nobj (caches s c)" using ok p by (simp add: cache_ok_def classified_def Let_def)
  then have "ys \<noteq> []" using slab_okD(6)[OF ys] by auto
  then have "\<exists>x xs. slab_ok c s h (x # xs)" using ys by (cases ys) auto
  then show ?thesis using ok p grown_refl[OF inv]
    by (auto simp: picked_def cache_ok_def classified_def Let_def)
qed

lemma pick_empty:
  assumes inv: "pmm_inv s" and ok: "cache_ok c s" and e: "h \<in> set (c_empty (caches s c))"
  shows "picked c h s (upd_cache c (partial_slab h) s)"
proof -
  let ?k = "caches s c" and ?s = "upd_cache c (\<lambda>_. partial_slab h (caches s c)) s"
  have base: "base_ok c s" and g: "geometry ?k" "distinct (slabs ?k)" and cl: "classified {} c s"
    using ok by (simp_all add: cache_ok_def base_ok_def Let_def)
  have h: "h \<in> set (slabs ?k)" using e by (simp add: slabs_def)
  obtain ys where ys: "slab_ok c s h ys" using base h by (auto simp: base_ok_def Let_def)
  have "inuse s h = 0" using cl e by (simp add: classified_def Let_def)
  then obtain x xs where "slab_ok c s h (x # xs)"
    using slab_okD(6)[OF ys] ys g(1) by (cases ys) (auto simp: geometry_def)
  note L = partial_slab_lists[OF g(2) h]
  have c': "caches ?s c = partial_slab h ?k" "mem_map ?s = mem_map s" "\<And>c'. c' \<noteq> c \<Longrightarrow> caches ?s c' = caches s c'"
    by (simp_all add: upd_cache_def)
  have n: "nobj (partial_slab h ?k) = nobj ?k" using L(9) by (simp add: same_geometry_def)
  have "classified {h} c ?s"
    using cl L(3-6) unfolding classified_def Let_def c' n by auto
  moreover have "slab_ok c ?s h (x # xs)" using \<open>slab_ok c s h (x # xs)\<close> slab_ok_lists[OF L(9)] by simp
  ultimately have "picked c h s ?s"
    using base_ok_lists[OF base L(9) L(1,2,7,8)] L(3,9) grown_upd_cache[OF grown_refl[OF inv]] c'
    by (auto simp: picked_def)
  then show ?thesis by (simp add: upd_cache_const[of c "partial_slab h"])
qed

end
