(* ===== verification/Slab_Alloc.thy ===== *)
theory Slab_Alloc
  imports Slab_Proofs
begin

text \<open>
  The operations of the object allocator as a whole: allocation and freeing of objects in any cache, creation
  of caches, the start-up of the allocator, and \<^verbatim>\<open>kmalloc\<close> on top of it.
\<close>

section \<open>The invariant\<close>

definition slab_inv :: "'a slab_scheme \<Rightarrow> bool" where
  "slab_inv s \<longleftrightarrow> pmm_inv s \<and> distinct (cache_list s) \<and> (\<forall>c\<in>set (cache_list s). cache_ok c s)"

lemma slab_invD:
  assumes "slab_inv s" "c \<in> set (cache_list s)"
  shows "pmm_inv s" "cache_ok c s" "base_ok c s" "geometry (caches s c)" "distinct (slabs (caches s c))"
  using assms by (simp_all add: slab_inv_def cache_ok_def base_ok_def Let_def)

lemma slab_of_cache:
  assumes "slab_inv s" "c \<in> set (cache_list s)" "h \<in> set (slabs (caches s c))"
  obtains xs where "slab_ok c s h xs"
  using assms by (auto simp: slab_inv_def cache_ok_def base_ok_def Let_def)

section \<open>Allocation\<close>

lemma pick_new:
  assumes inv: "pmm_inv s" and ok: "cache_ok c s" and new: "new_slab c s = (Some h, s1)"
    and none: "c_partial (caches s c) = []" "c_empty (caches s c) = []"
  shows "picked c h s (upd_cache c (\<lambda>k. k\<lparr>c_partial := h # c_partial k\<rparr>) s1)"
proof -
  let ?k = "caches s c"
  let ?k' = "?k\<lparr>c_nr_slabs := c_nr_slabs ?k + 1, c_partial := [h]\<rparr>"
  have base: "base_ok c s" and g: "geometry ?k" "distinct (slabs ?k)" and cl: "classified {} c s"
    using ok by (simp_all add: cache_ok_def base_ok_def Let_def)
  note N = new_slab_Some[OF inv g(1) new]
  define s' where "s' = upd_cache c (\<lambda>_. ?k') s1"
  have s': "upd_cache c (\<lambda>k. k\<lparr>c_partial := h # c_partial k\<rparr>) s1 = s'"
    by (simp add: s'_def upd_cache_def N(5) none)
  have k': "caches s' c = ?k'" "mem_map s' = mem_map s1" "\<And>c'. c' \<noteq> c \<Longrightarrow> caches s' c' = caches s c'"
    by (simp_all add: s'_def upd_cache_def N(5))
  have gr: "grown s s'" unfolding s'_def by (rule grown_upd_cache[OF N(1)])
  then have inv': "pmm_inv s'" by (simp add: grown_def)
  have geo: "same_geometry ?k (caches s' c)" "same_geometry (caches s1 c) ?k'"
    by (simp_all add: same_geometry_def k' N(5))
  have okh: "slab_ok c s' h (new_objs ?k h)" unfolding s'_def using N(2) by (simp add: slab_ok_lists[OF geo(2)])
  have old: "(\<exists>ys. slab_ok c s' h' ys) \<and> inuse s' h' = inuse s h' \<and> live_in c s' h' = live_in c s h' \<and> h' \<noteq> h"
    if h': "h' \<in> set (slabs ?k)" for h'
  proof -
    obtain ys where ys: "slab_ok c s h' ys" using base h' by (auto simp: base_ok_def Let_def)
    have al: "allocated s h' (c_order ?k)" by (rule slab_okD(1)[OF ys])
    then have "h' \<notin> free_frames s" using block_head[of h' "c_order ?k"] unfolding allocated_def by blast
    then have "h' \<noteq> h" using N(4) by blast
    moreover note u = grown_untouched[OF inv gr al]
    ultimately show ?thesis
      using slab_ok_untouched[OF ys geo(1) g(1) u] live_in_untouched[OF inv inv' ys geo(1) g(1) u] by blast
  qed
  have sl: "slabs (caches s' c) = h # slabs ?k" by (simp add: slabs_def k' none)
  have zero: "inuse s' h = 0" by (simp add: k' N(3))
  have "(\<Sum>h'\<in>set (slabs ?k). inuse s' h') = (\<Sum>h'\<in>set (slabs ?k). inuse s h')"
    by (rule sum.cong) (use old in auto)
  moreover have "h \<notin> set (slabs ?k)" using old by blast
  ultimately have sum: "(\<Sum>h'\<in>set (slabs (caches s' c)). inuse s' h') = (\<Sum>h'\<in>set (slabs ?k). inuse s h')"
    using zero by (simp add: sl)
  have "\<exists>ys. slab_ok c s' h' ys" if "h' \<in> set (slabs (caches s' c))" for h'
    using that old okh unfolding sl by auto
  moreover have "c_nr_slabs (caches s' c) = of_nat (length (slabs (caches s' c)))"
    "c_active_objs (caches s' c) = of_nat (\<Sum>h'\<in>set (slabs (caches s' c)). inuse s' h')"
    using base unfolding sum by (simp_all add: sl) (simp_all add: k' base_ok_def Let_def)
  ultimately have base': "base_ok c s'"
    using geo g \<open>h \<notin> set (slabs ?k)\<close> unfolding base_ok_def Let_def by (simp add: geometry_same sl)
  have "live_in c s' h = {}"
    using live_in_eq[OF inv' _ okh] geo(1) g(1) new_objs_props(1)[OF g(1), of h] unfolding objs_def
    by (simp add: geometry_same k')
  then have "live c s' = live c s" using old unfolding live_def sl by simp
  moreover have "classified {h} c s'"
    using cl old none unfolding classified_def Let_def k' by (simp add: slabs_def)
  moreover have "\<exists>x xs. slab_ok c s' h (x # xs)"
    using okh new_objs_props(4)[OF g(1), of h] by (cases "new_objs ?k h") auto
  ultimately show ?thesis
    unfolding s' picked_def using gr base' geo(1) k' by simp
qed

lemma pick_slab_cases:
  assumes inv: "pmm_inv s" and ok: "cache_ok c s"
  obtains (none) "pick_slab c s = (None, s)" "c_partial (caches s c) = []" "c_empty (caches s c) = []"
      "\<And>p. \<not> runs_free s 0 (c_order (caches s c)) p"
    | (some) h s' where "pick_slab c s = (Some h, s')" "picked c h s s'"
proof (cases "c_partial (caches s c)")
  case (Cons h ps)
  then have "picked c h s s" using pick_partial[OF inv ok] by simp
  then show ?thesis using some Cons by (simp add: pick_slab_def)
next
  case Nil
  note P = this
  show ?thesis
  proof (cases "c_empty (caches s c)")
    case (Cons h ps)
    then have "picked c h s (upd_cache c (partial_slab h) s)" using pick_empty[OF inv ok] by simp
    then show ?thesis using some P Cons by (simp add: pick_slab_def partial_slab_def[abs_def])
  next
    case Nil
    obtain r s1 where new: "new_slab c s = (r, s1)" by (cases "new_slab c s")
    show ?thesis
    proof (cases r)
      case None
      have "c_order (caches s c) < MAX_ORDER" using ok by (simp add: cache_ok_def base_ok_def geometry_def Let_def)
      then show ?thesis using none P Nil new None new_slab_None[OF inv, of c s1] by (simp add: pick_slab_def)
    next
      case (Some h)
      then have "picked c h s (upd_cache c (\<lambda>k. k\<lparr>c_partial := h # c_partial k\<rparr>) s1)"
        using pick_new[OF inv ok _ P Nil] new by simp
      then show ?thesis using some P Nil new Some by (simp add: pick_slab_def)
    qed
  qed
qed

text \<open>What a caller sees of a successful allocation.\<close>

definition obtained :: "nat \<Rightarrow> nat \<Rightarrow> 'a slab_scheme \<Rightarrow> 'a slab_scheme \<Rightarrow> bool" where
  "obtained c x s s' \<longleftrightarrow>
     (let st = stride (caches s c) in
      slab_inv s' \<and> cache_list s' = cache_list s \<and> kmalloc_caches s' = kmalloc_caches s \<and>
      (\<forall>c'. c' \<noteq> c \<longrightarrow> caches s' c' = caches s c') \<and>
      same_geometry (caches s c) (caches s' c) \<and> free_frames s' \<subseteq> free_frames s \<and>
      (\<forall>h k. allocated s h k \<longrightarrow> allocated s' h k) \<and>
      x + st \<le> DIRECT_MAP \<and> 8 dvd x \<and> x \<notin> live c s \<and> live c s' = insert x (live c s) \<and>
      (\<forall>c'\<in>set (cache_list s). c' \<noteq> c \<longrightarrow> live c' s' = live c' s) \<and> redzone_ok st x (kmem s') \<and>
      load_u64 (at (x + 8)) (kmem s') \<noteq> FREE_MAGIC \<and> same_bytes (used_bytes s - span x (st - 8)) (kmem s) (kmem s'))"

lemma picked_others:
  assumes inv: "slab_inv s" and p: "picked c h s s'" and c: "c' \<in> set (cache_list s)" "c' \<noteq> c"
  shows "cache_ok c' s'" "live c' s' = live c' s"
proof -
  have g: "grown s s'" and k: "caches s' c' = caches s c'" using p c(2) by (simp_all add: picked_def)
  have i: "pmm_inv s" "pmm_inv s'" using inv g by (simp_all add: slab_inv_def grown_def)
  have "untouched s s' h' (c_order (caches s c'))" if "h' \<in> set (slabs (caches s c'))" for h'
    using slab_of_cache[OF inv c(1) that] slab_okD(1) grown_untouched[OF i(1) g] by metis
  from cache_untouched[OF i slab_invD(2)[OF inv c(1)] k this] show "cache_ok c' s'" "live c' s' = live c' s" by blast+
qed

lemma take_others:
  assumes inv: "pmm_inv s" and g: "geometry (caches s c)" and ok: "slab_ok c s h (x # xs)"
    and c': "cache_ok c' s" "c' \<noteq> c"
  shows "cache_ok c' (take_object c h (at x) s)" "live c' (take_object c h (at x) s) = live c' s"
proof -
  let ?s = "take_object c h (at x) s"
  have x: "x \<in> objs (caches s c) h" using slab_okD(5)[OF ok] by simp
  have bytes: "same_bytes ({..<DIRECT_MAP} - span x (stride (caches s c))) (kmem s) (kmem ?s)"
    by (rule same_bytes_mono[OF take_object_bytes[OF g slab_objs_map(1)[OF inv ok g x]]]) auto
  have u: "untouched s ?s h' (c_order (caches s c'))" if h': "h' \<in> set (slabs (caches s c'))" for h'
  proof -
    obtain ys where "slab_ok c' s h' ys" using c'(1) h' by (auto simp: cache_ok_def base_ok_def Let_def)
    then show ?thesis using others_untouched[OF inv g ok x take_object_quiet _ bytes] c'(2)
      by (auto simp: take_object_eq)
  qed
  have k: "caches ?s c' = caches s c'" using c'(2) by (simp add: take_object_eq)
  from cache_untouched[OF inv quiet_pmm_inv[OF take_object_quiet inv] c'(1) k u]
  show "cache_ok c' ?s" "live c' ?s = live c' s" by blast+
qed

lemma objs_aligned: "geometry k \<Longrightarrow> x \<in> objs k h \<Longrightarrow> 8 dvd x"
  by (auto simp: objs_def geometry_def)

lemma take_picked:
  assumes inv: "slab_inv s" and c: "c \<in> set (cache_list s)" and p: "picked c h s s1" and ok: "slab_ok c s1 h (x # xs)"
  shows "obtained c x s (take_object c h (at x) s1)"
proof -
  let ?s = "take_object c h (at x) s1" and ?k = "caches s1 c"
  have P: "grown s s1" "base_ok c s1" "classified {h} c s1" "h \<in> set (c_partial ?k)" "live c s1 = live c s"
    "same_geometry (caches s c) ?k" "\<And>c'. c' \<noteq> c \<Longrightarrow> caches s1 c' = caches s c'"
    using p by (simp_all add: picked_def)
  have G: "pmm_inv s1" "cache_list s1 = cache_list s" "kmalloc_caches s1 = kmalloc_caches s" "free_frames s1 \<subseteq> free_frames s"
    "same_bytes (used_bytes s) (kmem s) (kmem s1)" "\<And>h k. allocated s h k \<Longrightarrow> allocated s1 h k"
    using P(1) by (simp_all add: grown_def)
  have g: "geometry ?k" using P(2) by (simp add: base_ok_def Let_def)
  have st: "stride (caches s c) = stride ?k" using P(6) by (simp add: same_geometry_def)
  note T = take_object_cache[OF G(1) P(2-4) ok]
  note fit = slab_objs_map(1)[OF G(1) ok g T(4)]
  note bytes = take_object_bytes[OF g fit, of h]
  have q: "quiet s1 ?s" by (rule take_object_quiet)
  have oth: "cache_ok c' ?s \<and> live c' ?s = live c' s" if "c' \<in> set (cache_list s)" "c' \<noteq> c" for c'
    using picked_others[OF inv p that] take_others[OF G(1) g ok _ that(2)] by simp
  have "slab_inv ?s" using oth T(1) inv quiet_pmm_inv[OF q G(1)] G(2)
    by (auto simp: slab_inv_def take_object_eq)
  moreover have "same_bytes (used_bytes s - span x (stride ?k - 8)) (kmem s) (kmem ?s)"
    by (rule same_bytes_trans[OF same_bytes_mono[OF G(5)] same_bytes_mono[OF bytes]]) (auto simp: used_bytes_def)
  moreover have "redzone_ok (stride ?k) x (kmem ?s)"
  proof -
    have "same_bytes (span (x + (stride ?k - 8)) 8) (kmem s1) (kmem ?s)"
      by (rule same_bytes_mono[OF bytes]) (use fit g in \<open>auto simp: geometry_def\<close>)
    moreover have "free_object (stride ?k) x (kmem s1)" using slab_okD(3)[OF ok] by simp
    ultimately show ?thesis by (simp add: redzone_ok_def free_object_def same_bytes_def)
  qed
  moreover have "load_u64 (at (x + 8)) (kmem ?s) \<noteq> FREE_MAGIC"
  proof (cases "c_ctor ?k")
    case None
    have "load_u64 (at (x + 8)) (store_u64 (at (x + 8)) 0 (kmem s1)) = 0"
      by (rule load_u64_at_word) (use fit g in \<open>auto simp: store_u64_at geometry_def\<close>)
    then show ?thesis using None by (simp add: take_object_eq after_ctor_def at_add)
  next
    case (Some f)
    then show ?thesis using g fit by (simp add: take_object_eq after_ctor_def geometry_def ctor_local_def)
  qed
  moreover have "same_geometry (caches s c) (caches ?s c)"
    using P(6) by (simp add: take_object_eq same_geometry_def full_slab_def list_del_slab_def counted_alloc_def)
  moreover have "caches ?s c' = caches s c'" if "c' \<noteq> c" for c' using that P(7) by (simp add: take_object_eq)
  ultimately show ?thesis
    using T(2,3) P(5) G fit objs_aligned[OF g T(4)] oth quiet_allocated[OF q]
    unfolding obtained_def Let_def st by (simp add: take_object_eq)
qed

lemma kmem_cache_alloc_cases:
  assumes inv: "slab_inv s" and c: "c \<in> set (cache_list s)"
  obtains (none) "kmem_cache_alloc c s = Inr (0, s)" "c_partial (caches s c) = []" "c_empty (caches s c) = []"
      "\<And>p. \<not> runs_free s 0 (c_order (caches s c)) p"
    | (some) x s' where "kmem_cache_alloc c s = Inr (at x, s')" "obtained c x s s'"
  using slab_invD(1,2)[OF inv c]
proof (cases rule: pick_slab_cases)
  case none
  then show ?thesis using that(1) by (simp add: kmem_cache_alloc_def)
next
  case (some h s1)
  obtain x xs where ok: "slab_ok c s1 h (x # xs)" using some(2) by (auto simp: picked_def)
  have G: "pmm_inv s1" "geometry (caches s1 c)" using some(2) by (simp_all add: picked_def grown_def base_ok_def Let_def)
  have x: "x \<in> objs (caches s1 c) h" using slab_okD(5)[OF ok] by simp
  have "check_free_object (caches s1 c) (at x) (kmem s1) = Inr ()"
    by (rule check_free_object_ok[OF refl _ slab_objs_map(1)[OF G(1) ok G(2) x]])
      (use slab_okD(3)[OF ok] G(2) in \<open>simp_all add: geometry_def\<close>)
  then have "kmem_cache_alloc c s = Inr (at x, take_object c h (at x) s1)"
    using slab_okD(3)[OF ok] by (simp add: kmem_cache_alloc_def some(1) Let_def)
  then show ?thesis using that(2) take_picked[OF inv c some(2) ok] by blast
qed

section \<open>Freeing\<close>

definition counted_free :: "kmem_cache \<Rightarrow> kmem_cache" where
  "counted_free k = k\<lparr>c_active_objs := c_active_objs k - 1, c_frees := c_frees k + 1\<rparr>"

text \<open>The object is back on the free list of its slab; the slab is still on its old list.\<close>

definition relinked :: "nat \<Rightarrow> nat \<Rightarrow> u64 \<Rightarrow> 'a slab_scheme \<Rightarrow> 'a slab_scheme" where
  "relinked c h obj s =
     s\<lparr>kmem := make_free (caches s c) obj (pg_freelist (mem_map s h)) (kmem s),
       mem_map := (mem_map s)(h := (mem_map s h)\<lparr>pg_freelist := obj, pg_inuse := pg_inuse (mem_map s h) - 1\<rparr>),
       caches := (caches s)(c := counted_free (caches s c))\<rparr>"

lemma put_object_eq:
  "put_object c h obj s =
     (let s1 = relinked c h obj s;
          s2 = (if pg_inuse (mem_map s h) = c_objs_per_slab (caches s c) then upd_cache c (partial_slab h) s1 else s1)
      in if pg_inuse (mem_map s1 h) = 0 then
           (let s3 = upd_cache c (list_del_slab h) s2 in
            if c_empty (caches s3 c) = [] then Inr (upd_cache c (\<lambda>k. k\<lparr>c_empty := h # c_empty k\<rparr>) s3)
            else free_slab_pages c h s3)
         else Inr s2)"
  by (simp add: put_object_def relinked_def Let_def upd_page_def upd_cache_def counted_free_def partial_slab_def)

lemma counted_free_keeps [simp]:
  "slabs (counted_free k) = slabs k" "c_partial (counted_free k) = c_partial k" "c_full (counted_free k) = c_full k"
  "c_empty (counted_free k) = c_empty k" "same_geometry k' (counted_free k) = same_geometry k' k"
  "c_nr_slabs (counted_free k) = c_nr_slabs k" "c_active_objs (counted_free k) = c_active_objs k - 1"
  by (simp_all add: counted_free_def slabs_def same_geometry_def)

lemma relinked_quiet: "quiet s (relinked c h obj s)"
  by (simp add: quiet_def relinked_def)

lemma relinked_bytes:
  assumes "geometry (caches s c)" "x + stride (caches s c) \<le> DIRECT_MAP"
  shows "same_bytes ({..<DIRECT_MAP} - span x (stride (caches s c))) (kmem s) (kmem (relinked c h (at x) s))"
  using make_free_at(3)[OF refl _ assms(2)] assms(1) by (simp add: same_bytes_def relinked_def geometry_def)

lemma relinked_slab:
  assumes inv: "pmm_inv s" and g: "geometry (caches s c)" and ok: "slab_ok c s h xs"
    and x: "x \<in> objs (caches s c) h" "x \<notin> set xs"
  shows "slab_ok c (relinked c h (at x) s) h (x # xs)" "inuse (relinked c h (at x) s) h + 1 = inuse s h"
proof -
  let ?k = "caches s c" and ?s = "relinked c h (at x) s"
  note D = slab_okD[OF ok] and fit = slab_objs_map(1)[OF inv ok g x(1)]
  have st: "24 \<le> stride ?k" using g by (simp add: geometry_def)
  have k': "c_stride (caches ?s c) = c_stride ?k" "c_order (caches ?s c) = c_order ?k"
    "c_objs_per_slab (caches ?s c) = c_objs_per_slab ?k" by (simp_all add: relinked_def counted_free_def)
  have "card (set xs) < card (objs ?k h)" using D(5) x by (intro psubset_card_mono) auto
  then have "length xs < nobj ?k" using D(4) card_objs[OF g] by (simp add: distinct_card)
  then have "0 < inuse s h" using D(6) by simp
  then have "pg_inuse (mem_map s h) \<noteq> 0" by auto
  then show u: "inuse ?s h + 1 = inuse s h" using \<open>0 < inuse s h\<close> by (simp add: relinked_def unat_minus_one)
  have "same_bytes (\<Union>y\<in>set xs. span y (stride ?k)) (kmem s) (kmem ?s)"
  proof (rule same_bytes_mono[OF relinked_bytes[OF g fit]])
    have "span y (stride ?k) \<inter> span x (stride ?k) = {}" "span y (stride ?k) \<subseteq> {..<DIRECT_MAP}" if "y \<in> set xs" for y
    proof -
      have y: "y \<in> objs ?k h" "y \<noteq> x" using that D(5) x(2) by auto
      show "span y (stride ?k) \<inter> span x (stride ?k) = {}" by (rule objs_apart[OF y(1) x(1) y(2)])
      show "span y (stride ?k) \<subseteq> {..<DIRECT_MAP}" using slab_objs_map(1)[OF inv ok g y(1)] by auto
    qed
    then show "(\<Union>y\<in>set xs. span y (stride ?k)) \<subseteq> {..<DIRECT_MAP} - span x (stride ?k)" by blast
  qed
  then have "chain (stride ?k) (kmem ?s) (pg_freelist (mem_map s h)) xs"
    using D(3) chain_cong[where st = "stride ?k"] st by simp
  moreover have "free_object (stride ?k) x (kmem ?s)" "load_u64 (at x) (kmem ?s) = pg_freelist (mem_map s h)"
    using make_free_at(1,2)[OF refl st fit] by (simp_all add: relinked_def)
  moreover have "marked ?s c h q" if "q \<in> block h (c_order ?k)" for q
    using D(2)[OF that] by (auto simp: marked_def relinked_def)
  moreover have "objs (caches ?s c) h = objs ?k h" by (simp add: objs_def k')
  moreover have "pg_freelist (mem_map ?s h) = at x" by (simp add: relinked_def)
  ultimately show "slab_ok c ?s h (x # xs)"
    using D x u quiet_allocated(2)[OF relinked_quiet[of s c h "at x"]] unfolding slab_ok_def Let_def k' by simp
qed

lemma relinked_cache:
  assumes inv: "pmm_inv s" and ok: "cache_ok c s" and h: "h \<in> set (slabs (caches s c))" "slab_ok c s h xs"
    and x: "x \<in> objs (caches s c) h" "x \<notin> set xs"
  shows "base_ok c (relinked c h (at x) s)" "live c (relinked c h (at x) s) = live c s - {x}"
    "classified {h} c (relinked c h (at x) s)"
proof -
  let ?k = "caches s c" and ?s = "relinked c h (at x) s"
  have base: "base_ok c s" and g: "geometry ?k" "distinct (slabs ?k)" and cl: "classified {} c s"
    using ok by (simp_all add: cache_ok_def base_ok_def Let_def)
  note R = relinked_slab[OF inv g(1) h(2) x] and fit = slab_objs_map(1)[OF inv h(2) g(1) x(1)]
  have inv': "pmm_inv ?s" using quiet_pmm_inv[OF relinked_quiet inv] .
  have k': "caches ?s c = counted_free ?k" by (simp add: relinked_def)
  have geo: "same_geometry ?k (caches ?s c)" by (simp add: k')
  have act: "c_active_objs (caches ?s c) + of_nat (inuse s h) = c_active_objs ?k + of_nat (inuse ?s h)"
    by (simp add: k' flip: R(2))
  have mm: "mem_map ?s q = mem_map s q" if "q \<noteq> h" for q using that by (simp add: relinked_def)
  note C = base_ok_change[OF inv base h(1,2) x(1) relinked_quiet mm relinked_bytes[OF g(1) fit] geo _ _ _ R(1) act]
  show "base_ok c ?s" using C(1) g(2) by (simp add: k')
  have "live_in c s h = objs ?k h - set xs" by (rule live_in_eq[OF inv g(1) h(2)])
  moreover have "objs (caches ?s c) h = objs ?k h" by (simp add: objs_def k' counted_free_def)
  then have "live_in c ?s h = objs ?k h - set (x # xs)"
    using live_in_eq[OF inv' _ R(1)] g(1) geo by (simp add: geometry_same)
  moreover have "live c ?s = live c s - live_in c s h \<union> live_in c ?s h" using C(2) g(2) by (simp add: k')
  moreover have "live_in c s h \<subseteq> live c s" unfolding live_def using h(1) by blast
  ultimately show "live c ?s = live c s - {x}" using x by auto
  have n: "nobj (caches ?s c) = nobj ?k" using geo by (simp add: same_geometry_def)
  show "classified {h} c ?s" using cl unfolding classified_def Let_def n by (auto simp: k' mm)
qed

text \<open>A slab that moves to another list of its cache.\<close>

lemma settle_slab:
  assumes base: "base_ok c s" and cl: "classified {h} c s" and geo: "same_geometry (caches s c) k'"
    and lists: "distinct (slabs k')" "set (slabs k') = set (slabs (caches s c))"
      "c_nr_slabs k' = c_nr_slabs (caches s c)" "c_active_objs k' = c_active_objs (caches s c)"
    and sets: "set (c_partial k') \<subseteq> insert h (set (c_partial (caches s c)))"
      "set (c_full k') \<subseteq> insert h (set (c_full (caches s c)))"
      "set (c_empty k') \<subseteq> insert h (set (c_empty (caches s c)))" "length (c_empty k') \<le> 1"
    and "h \<in> set (c_partial k') \<Longrightarrow> 0 < inuse s h \<and> inuse s h < nobj (caches s c)"
      "h \<in> set (c_full k') \<Longrightarrow> inuse s h = nobj (caches s c)" "h \<in> set (c_empty k') \<Longrightarrow> inuse s h = 0"
  shows "cache_ok c (upd_cache c (\<lambda>_. k') s)" "live c (upd_cache c (\<lambda>_. k') s) = live c s"
proof -
  have [simp]: "caches (upd_cache c (\<lambda>_. k') s) c = k'" "mem_map (upd_cache c (\<lambda>_. k') s) = mem_map s"
    by (simp_all add: upd_cache_def)
  have "classified {} c (upd_cache c (\<lambda>_. k') s)"
    by (rule classified_change[OF cl]) (use assms in \<open>simp_all add: same_geometry_def\<close>)
  then show "cache_ok c (upd_cache c (\<lambda>_. k') s)" "live c (upd_cache c (\<lambda>_. k') s) = live c s"
    using base_ok_lists[OF base geo lists] by (simp_all add: cache_ok_def)
qed

text \<open>A slab whose frames go back to the page allocator.\<close>

lemma free_slab_pages_gave:
  assumes inv: "pmm_inv s" and ok: "allocated s h (c_order (caches s c))"
  obtains s' where "free_slab_pages c h s = Inr s'" "pmm_inv s'"
    "free_frames s' = free_frames s \<union> block h (c_order (caches s c))" "kmem s' = kmem s"
    "caches s' = (caches s)(c := (caches s c)\<lparr>c_nr_slabs := c_nr_slabs (caches s c) - 1\<rparr>)"
    "cache_list s' = cache_list s" "kmalloc_caches s' = kmalloc_caches s"
    "\<And>q. q \<notin> free_frames s \<union> block h (c_order (caches s c)) \<Longrightarrow> mem_map s' q = mem_map s q"
    "\<And>h' k. allocated s h' k \<Longrightarrow> block h' k \<inter> block h (c_order (caches s c)) = {} \<Longrightarrow> allocated s' h' k"
proof -
  let ?o = "c_order (caches s c)"
  define s1 where "s1 = upd_cache c (\<lambda>k. k\<lparr>c_nr_slabs := c_nr_slabs k - 1\<rparr>) (unmark_slab h (2 ^ ?o) s)"
  have q: "quiet s s1" unfolding s1_def by (rule quiet_trans[OF mark_quiet(2) upd_cache_quiet])
  have inv1: "pmm_inv s1" by (rule quiet_pmm_inv[OF q inv])
  have "allocated s1 h ?o" using ok quiet_allocated(2)[OF q] by simp
  then obtain s' where f: "free_pages h ?o s1 = Inr s'" and gv: "gave h ?o s1 s'" using free_pages_gave[OF inv1] by blast
  have fr: "free_slab_pages c h s = Inr s'" using f by (simp add: free_slab_pages_def Let_def s1_def)
  have un: "caches (unmark_slab h (2 ^ ?o) s) = caches s" "cache_list (unmark_slab h (2 ^ ?o) s) = cache_list s"
    "kmalloc_caches (unmark_slab h (2 ^ ?o) s) = kmalloc_caches s"
    using slab_more[OF unmark_slab_eq(5)] by blast+
  have s1: "caches s1 = (caches s)(c := (caches s c)\<lparr>c_nr_slabs := c_nr_slabs (caches s c) - 1\<rparr>)"
    "cache_list s1 = cache_list s" "kmalloc_caches s1 = kmalloc_caches s" "kmem s1 = kmem s"
    "\<And>q. q \<notin> block h ?o \<Longrightarrow> mem_map s1 q = mem_map s q"
    by (auto simp: s1_def upd_cache_def un unmark_slab_eq block_def)
  have G: "pmm_inv s'" "free_frames s' = free_frames s \<union> block h ?o" "pmm.more s' = pmm.more s1" "kmem s' = kmem s1"
    "\<And>q. q \<notin> free_frames s \<union> block h ?o \<Longrightarrow> mem_map s' q = mem_map s1 q"
    using gv quiet_allocated(1)[OF q] by (simp_all add: gave_def)
  show thesis
  proof (rule that[OF fr G(1,2)])
    show "allocated s' h' k" if "allocated s h' k" "block h' k \<inter> block h ?o = {}" for h' k
      using gave_keeps[OF gv _ that(2)] that(1) quiet_allocated(2)[OF q] by simp
    show "mem_map s' p = mem_map s p" if "p \<notin> free_frames s \<union> block h ?o" for p
      using G(5)[OF that] s1(5)[of p] that by (metis UnCI)
  qed (simp_all add: G(4) s1 slab_more[OF G(3)])
qed

lemma drop_slab:
  assumes inv: "pmm_inv s" and base: "base_ok c s" and cl: "classified {h} c s" and h: "h \<in> set (slabs (caches s c))"
    and zero: "inuse s h = 0" and geo: "same_geometry (caches s c) k'"
    and lists: "distinct (slabs k')" "set (slabs k') = set (slabs (caches s c)) - {h}"
      "c_nr_slabs k' = c_nr_slabs (caches s c)" "c_active_objs k' = c_active_objs (caches s c)"
    and sets: "set (c_partial k') \<subseteq> set (c_partial (caches s c)) - {h}" "set (c_full k') \<subseteq> set (c_full (caches s c)) - {h}"
      "set (c_empty k') \<subseteq> set (c_empty (caches s c)) - {h}" "length (c_empty k') \<le> 1"
  obtains s' where "free_slab_pages c h (upd_cache c (\<lambda>_. k') s) = Inr s'" "pmm_inv s'" "cache_ok c s'" "live c s' = live c s"
    "kmem s' = kmem s" "free_frames s \<subseteq> free_frames s'" "same_geometry (caches s c) (caches s' c)"
    "cache_list s' = cache_list s" "kmalloc_caches s' = kmalloc_caches s" "\<And>c'. c' \<noteq> c \<Longrightarrow> caches s' c' = caches s c'"
    "\<And>c' h' ys. slab_ok c' s h' ys \<Longrightarrow> (c', h') \<noteq> (c, h) \<Longrightarrow> untouched s s' h' (c_order (caches s c'))"
proof -
  let ?k = "caches s c" and ?s = "upd_cache c (\<lambda>_. k') s"
  have g: "geometry ?k" "distinct (slabs ?k)" "c_nr_slabs ?k = of_nat (length (slabs ?k))"
    "c_active_objs ?k = of_nat (\<Sum>h\<in>set (slabs ?k). inuse s h)"
    using base by (simp_all add: base_ok_def Let_def)
  have okE: "\<exists>ys. slab_ok c s h' ys" if "h' \<in> set (slabs ?k)" for h' using base that by (simp add: base_ok_def Let_def)
  obtain xs where xs: "slab_ok c s h xs" using okE[OF h] by blast
  have s1: "caches ?s c = k'" "\<And>c'. c' \<noteq> c \<Longrightarrow> caches ?s c' = caches s c'" "mem_map ?s = mem_map s" "kmem ?s = kmem s"
    "cache_list ?s = cache_list s" "kmalloc_caches ?s = kmalloc_caches s" by (simp_all add: upd_cache_def)
  note q = upd_cache_quiet[of s c "\<lambda>_. k'"]
  have ord: "c_order k' = c_order ?k" using geo by (simp add: same_geometry_def)
  have al: "allocated ?s h (c_order (caches ?s c))"
    using slab_okD(1)[OF xs] quiet_allocated(2)[OF q] by (simp add: s1(1) ord)
  obtain s' where f: "free_slab_pages c h ?s = Inr s'" "pmm_inv s'"
    "free_frames s' = free_frames s \<union> block h (c_order ?k)" "kmem s' = kmem s"
    "caches s' = (caches ?s)(c := k'\<lparr>c_nr_slabs := c_nr_slabs k' - 1\<rparr>)" "cache_list s' = cache_list s"
    "kmalloc_caches s' = kmalloc_caches s"
    and keep: "\<And>q. q \<notin> free_frames s \<union> block h (c_order ?k) \<Longrightarrow> mem_map s' q = mem_map s q"
    "\<And>h' k. allocated s h' k \<Longrightarrow> block h' k \<inter> block h (c_order ?k) = {} \<Longrightarrow> allocated s' h' k"
    using free_slab_pages_gave[OF quiet_pmm_inv[OF q inv] al] quiet_allocated[OF q]
    by (simp add: s1 ord) metis
  have un: "untouched s s' h' (c_order (caches s c'))" if "slab_ok c' s h' ys" "(c', h') \<noteq> (c, h)" for c' h' ys
  proof -
    have d: "block h' (c_order (caches s c')) \<inter> block h (c_order ?k) = {}"
      using slabs_apart(1)[OF that(1) xs that(2)] by simp
    have a: "allocated s h' (c_order (caches s c'))" by (rule slab_okD(1)[OF that(1)])
    then have "block h' (c_order (caches s c')) \<inter> (free_frames s \<union> block h (c_order ?k)) = {}"
      using d unfolding allocated_def by blast
    then show ?thesis using keep a d unfolding untouched_def f(4) by (auto simp del: block_iff)
  qed
  have kc: "caches s' c = k'\<lparr>c_nr_slabs := c_nr_slabs ?k - 1\<rparr>" by (simp add: f(5) lists(3))
  then have geo': "same_geometry ?k (caches s' c)" using geo by (simp add: same_geometry_def)
  have oth: "(\<exists>ys. slab_ok c s' h' ys) \<and> inuse s' h' = inuse s h' \<and> live_in c s' h' = live_in c s h'"
    if h': "h' \<in> set (slabs ?k)" "h' \<noteq> h" for h'
  proof -
    obtain ys where ys: "slab_ok c s h' ys" using okE[OF h'(1)] by blast
    have u: "untouched s s' h' (c_order ?k)" using un[OF ys] h'(2) by simp
    from slab_ok_untouched[OF ys geo' g(1) u] live_in_untouched[OF inv f(2) ys geo' g(1) u] show ?thesis by blast
  qed
  have sl: "slabs (caches s' c) = slabs k'" by (simp add: kc slabs_def)
  have "live_in c s h = {}"
    using slab_okD(4-6)[OF xs] zero live_in_eq[OF inv g(1) xs] card_objs[OF g(1), of h]
    by (metis Diff_cancel add_0 card_subset_eq distinct_card finite_objs)
  then have "live c s' = live c s"
    using oth h unfolding live_def sl lists(2) by auto
  moreover have "length (slabs ?k) = Suc (length (slabs k'))"
    using lists(1,2) g(2) h by (metis List.finite_set card.remove distinct_card)
  moreover have "(\<Sum>h\<in>set (slabs ?k). inuse s h) = (\<Sum>h\<in>set (slabs k'). inuse s' h)"
    using zero oth unfolding lists(2) by (simp add: sum.remove[OF _ h])
  ultimately have "base_ok c s'" "live c s' = live c s"
    using oth g lists geo' unfolding base_ok_def Let_def sl by (auto simp: geometry_same kc)
  moreover have "classified {} c s'"
    using geo' sets oth cl unfolding classified_def Let_def same_geometry_def
    by (auto simp: kc slabs_def subset_iff)
  ultimately show thesis
    using that[OF f(1,2)] f(3-7) geo' un s1(2) by (simp add: cache_ok_def)
qed

text \<open>The end of \<^verbatim>\<open>kmem_cache_free\<close>: the slab goes to the list for its new filling, or away.\<close>

definition settle :: "bool \<Rightarrow> nat \<Rightarrow> nat \<Rightarrow> 'a slab_scheme \<Rightarrow> panic + 'a slab_scheme" where
  "settle was_full c h s =
     (let s = (if was_full then upd_cache c (partial_slab h) s else s)
      in if pg_inuse (mem_map s h) = 0 then
           (let s = upd_cache c (list_del_slab h) s in
            if c_empty (caches s c) = [] then Inr (upd_cache c (\<lambda>k. k\<lparr>c_empty := h # c_empty k\<rparr>) s)
            else free_slab_pages c h s)
         else Inr s)"

definition settled :: "nat \<Rightarrow> nat \<Rightarrow> 'a slab_scheme \<Rightarrow> 'a slab_scheme \<Rightarrow> bool" where
  "settled c h s s' \<longleftrightarrow> pmm_inv s' \<and> cache_ok c s' \<and> live c s' = live c s \<and> kmem s' = kmem s \<and>
     free_frames s \<subseteq> free_frames s' \<and> same_geometry (caches s c) (caches s' c) \<and> cache_list s' = cache_list s \<and>
     kmalloc_caches s' = kmalloc_caches s \<and> (\<forall>c'. c' \<noteq> c \<longrightarrow> caches s' c' = caches s c') \<and>
     (\<forall>c' h' ys. slab_ok c' s h' ys \<longrightarrow> (c', h') \<noteq> (c, h) \<longrightarrow> untouched s s' h' (c_order (caches s c')))"

lemma settled_lists:
  assumes "pmm_inv s" "cache_ok c (upd_cache c (\<lambda>_. k') s)" "live c (upd_cache c (\<lambda>_. k') s) = live c s"
    "same_geometry (caches s c) k'"
  shows "settled c h s (upd_cache c (\<lambda>_. k') s)"
proof -
  note q = upd_cache_quiet[of s c "\<lambda>_. k'"]
  show ?thesis using assms quiet_pmm_inv[OF q] quiet_allocated[OF q]
    unfolding settled_def untouched_def by (simp add: upd_cache_def)
qed

lemma settle_ok:
  assumes inv: "pmm_inv s" and base: "base_ok c s" and cl: "classified {h} c s" and h: "h \<in> set (slabs (caches s c))"
    and wf: "was_full \<Longrightarrow> inuse s h + 1 = nobj (caches s c)"
    and nwf: "\<not> was_full \<Longrightarrow> h \<in> set (c_partial (caches s c)) \<and> inuse s h + 1 < nobj (caches s c)"
  shows "\<exists>s'. settle was_full c h s = Inr s' \<and> settled c h s s'"
proof -
  let ?k = "caches s c"
  define k1 where "k1 = (if was_full then partial_slab h ?k else ?k)"
  define k2 where "k2 = list_del_slab h k1"
  have d: "distinct (slabs ?k)" using base by (simp add: base_ok_def Let_def)
  have e1: "length (c_empty ?k) \<le> 1" using cl by (simp add: classified_def Let_def)
  note P = partial_slab_lists[OF d h]
  have K1: "distinct (slabs k1)" "set (slabs k1) = set (slabs ?k)" "c_nr_slabs k1 = c_nr_slabs ?k"
    "c_active_objs k1 = c_active_objs ?k" "same_geometry ?k k1" "set (c_partial k1) = insert h (set (c_partial ?k))"
    "set (c_full k1) \<subseteq> set (c_full ?k) - {h}" "set (c_empty k1) \<subseteq> set (c_empty ?k) - {h}" "length (c_empty k1) \<le> 1"
    using P d nwf e1 by (auto simp: k1_def slabs_def)
  note D = slabs_del[OF K1(1), of h]
  have s1: "(if was_full then upd_cache c (partial_slab h) s else s) = upd_cache c (\<lambda>_. k1) s"
    by (simp add: k1_def upd_cache_const[of c "partial_slab h"]) (simp add: upd_cache_def)
  have s2: "upd_cache c (list_del_slab h) (upd_cache c (\<lambda>_. k1) s) = upd_cache c (\<lambda>_. k2) s"
    by (simp add: upd_cache_def k2_def)
  have s3: "upd_cache c (\<lambda>k. k\<lparr>c_empty := h # c_empty k\<rparr>) (upd_cache c (\<lambda>_. k2) s) =
      upd_cache c (\<lambda>_. k2\<lparr>c_empty := h # c_empty k2\<rparr>) s"
    by (simp add: upd_cache_def)
  have geo2: "same_geometry ?k k2" using K1(5) by (simp add: k2_def list_del_slab_def same_geometry_def)
  have eq: "settle was_full c h s =
      (if inuse s h = 0 then
         (if c_empty k2 = [] then Inr (upd_cache c (\<lambda>_. k2\<lparr>c_empty := [h]\<rparr>) s) else free_slab_pages c h (upd_cache c (\<lambda>_. k2) s))
       else Inr (upd_cache c (\<lambda>_. k1) s))"
    unfolding settle_def s1 Let_def s2 s3 by (simp add: unsigned_eq_0_iff) (simp add: upd_cache_def)
  show ?thesis
  proof (cases "inuse s h = 0")
    case False
    have "0 < inuse s h \<and> inuse s h < nobj ?k" using False wf nwf by (cases was_full) auto
    then have "cache_ok c (upd_cache c (\<lambda>_. k1) s) \<and> live c (upd_cache c (\<lambda>_. k1) s) = live c s"
      using settle_slab[OF base cl K1(5) K1(1-4)] K1(6-9) by blast
    then show ?thesis using settled_lists[OF inv _ _ K1(5)] False by (simp add: eq)
  next
    case True
    show ?thesis
    proof (cases "c_empty k2 = []")
      case e: True
      let ?k3 = "k2\<lparr>c_empty := [h]\<rparr>"
      have g3: "same_geometry ?k ?k3" using geo2 by (simp add: same_geometry_def)
      have l3: "distinct (slabs ?k3)" "set (slabs ?k3) = set (slabs ?k)" "c_nr_slabs ?k3 = c_nr_slabs ?k"
        "c_active_objs ?k3 = c_active_objs ?k"
      proof -
        have sl: "slabs ?k3 = slabs k2 @ [h]" using e by (simp add: slabs_def)
        show "distinct (slabs ?k3)" "set (slabs ?k3) = set (slabs ?k)"
          using D(4,5)[folded k2_def] K1(2) h by (auto simp: sl)
        show "c_nr_slabs ?k3 = c_nr_slabs ?k" "c_active_objs ?k3 = c_active_objs ?k" using K1(3,4) by (simp_all add: k2_def)
      qed
      have "cache_ok c (upd_cache c (\<lambda>_. ?k3) s) \<and> live c (upd_cache c (\<lambda>_. ?k3) s) = live c s"
        by (intro conjI; rule settle_slab[OF base cl g3 l3])
          (use D(1-3)[folded k2_def] K1(6,7) True in auto)
      then show ?thesis using settled_lists[OF inv _ _ g3] True e by (simp add: eq)
    next
      case e: False
      have n2: "c_nr_slabs k2 = c_nr_slabs ?k" "c_active_objs k2 = c_active_objs ?k" "length (c_empty k2) \<le> 1"
        using K1 D(6) by (simp_all add: k2_def)
      have l2: "set (slabs k2) = set (slabs ?k) - {h}" "set (c_partial k2) \<subseteq> set (c_partial ?k) - {h}"
        "set (c_full k2) \<subseteq> set (c_full ?k) - {h}" "set (c_empty k2) \<subseteq> set (c_empty ?k) - {h}"
        using D(1-5)[folded k2_def] K1(2,6-8) by auto
      obtain s' where "free_slab_pages c h (upd_cache c (\<lambda>_. k2) s) = Inr s'" "settled c h s s'"
        by (rule drop_slab[OF inv base cl h True geo2 D(4)[folded k2_def] l2(1) n2(1,2) l2(2-4) n2(3)])
          (unfold settled_def, blast)
      then show ?thesis using True e by (simp add: eq)
    qed
  qed
qed

lemma put_object_settle:
  "put_object c h obj s = settle (pg_inuse (mem_map s h) = c_objs_per_slab (caches s c)) c h (relinked c h obj s)"
  by (simp add: put_object_eq settle_def Let_def upd_cache_def)

text \<open>What a caller sees of freeing an object.\<close>

definition released :: "nat \<Rightarrow> nat \<Rightarrow> 'a slab_scheme \<Rightarrow> 'a slab_scheme \<Rightarrow> bool" where
  "released c x s s' \<longleftrightarrow>
     slab_inv s' \<and> cache_list s' = cache_list s \<and> kmalloc_caches s' = kmalloc_caches s \<and>
     (\<forall>c'. c' \<noteq> c \<longrightarrow> caches s' c' = caches s c') \<and> same_geometry (caches s c) (caches s' c) \<and>
     free_frames s \<subseteq> free_frames s' \<and> live c s' = live c s - {x} \<and>
     (\<forall>c'\<in>set (cache_list s). c' \<noteq> c \<longrightarrow> live c' s' = live c' s) \<and>
     same_bytes ({..<DIRECT_MAP} - span x (stride (caches s c))) (kmem s) (kmem s')"

lemma put_object_ok:
  assumes inv: "slab_inv s" and c: "c \<in> set (cache_list s)" and h: "h \<in> set (slabs (caches s c))" "slab_ok c s h xs"
    and x: "x \<in> objs (caches s c) h" "x \<notin> set xs"
  shows "\<exists>s'. put_object c h (at x) s = Inr s' \<and> released c x s s'"
proof -
  let ?k = "caches s c" and ?s = "relinked c h (at x) s"
  note I = slab_invD[OF inv c]
  have cl: "classified {} c s" using I(2) by (simp add: cache_ok_def)
  note R = relinked_cache[OF I(1,2) h x] and S = relinked_slab[OF I(1,4) h(2) x]
  note bytes = relinked_bytes[OF I(4) slab_objs_map(1)[OF I(1) h(2) I(4) x(1)]]
  have q: "quiet s ?s" by (rule relinked_quiet)
  have inv1: "pmm_inv ?s" by (rule quiet_pmm_inv[OF q I(1)])
  have k1: "caches ?s c = counted_free ?k" "\<And>c'. c' \<noteq> c \<Longrightarrow> caches ?s c' = caches s c'"
    "cache_list ?s = cache_list s" "kmalloc_caches ?s = kmalloc_caches s" by (simp_all add: relinked_def)
  have n1: "nobj (caches ?s c) = nobj ?k" by (simp add: k1 counted_free_def)
  let ?wf = "pg_inuse (mem_map s h) = c_objs_per_slab ?k"
  have hs: "h \<in> set (slabs (caches ?s c))" using h(1) by (simp add: k1)
  have wf: "?wf \<Longrightarrow> inuse ?s h + 1 = nobj (caches ?s c)" using S(2) n1 by simp
  have nwf: "h \<in> set (c_partial (caches ?s c)) \<and> inuse ?s h + 1 < nobj (caches ?s c)" if nf: "\<not> ?wf"
  proof -
    have "inuse s h \<noteq> nobj ?k" using nf by (simp add: word_unat_eq_iff)
    moreover have "inuse s h \<noteq> 0" using S(2) by simp
    ultimately have "h \<in> set (c_partial ?k)" using cl h(1) by (auto simp: classified_def Let_def slabs_def)
    then show ?thesis using cl S(2) n1 by (simp add: classified_def Let_def k1)
  qed
  from settle_ok[OF inv1 R(1,3) hs wf nwf] obtain s' where
    s': "put_object c h (at x) s = Inr s'" "settled c h ?s s'" unfolding put_object_settle by blast
  have T: "pmm_inv s'" "cache_ok c s'" "live c s' = live c s - {x}" "kmem s' = kmem ?s" "free_frames s \<subseteq> free_frames s'"
    "same_geometry (caches ?s c) (caches s' c)" "cache_list s' = cache_list s" "kmalloc_caches s' = kmalloc_caches s"
    "\<And>c'. c' \<noteq> c \<Longrightarrow> caches s' c' = caches s c'"
    and un: "\<And>c' h' ys. slab_ok c' ?s h' ys \<Longrightarrow> (c', h') \<noteq> (c, h) \<Longrightarrow> untouched ?s s' h' (c_order (caches ?s c'))"
    using s'(2) R(2) quiet_allocated(1)[OF q] k1 by (simp_all add: settled_def) blast
  have oth: "cache_ok c' s' \<and> live c' s' = live c' s" if c': "c' \<in> set (cache_list s)" "c' \<noteq> c" for c'
  proof -
    have u1: "untouched s ?s h' (c_order (caches s c'))" if h': "h' \<in> set (slabs (caches s c'))" for h'
    proof -
      obtain ys where "slab_ok c' s h' ys" using slab_of_cache[OF inv c'(1) h'] .
      from others_untouched[OF I(1,4) h(2) x(1) q _ bytes this] c'(2) show ?thesis by (auto simp: relinked_def)
    qed
    note A = cache_untouched[OF I(1) inv1 slab_invD(2)[OF inv c'(1)] k1(2)[OF c'(2)] u1]
    have "untouched ?s s' h' (c_order (caches ?s c'))" if h': "h' \<in> set (slabs (caches ?s c'))" for h'
    proof -
      obtain ys where "slab_ok c' ?s h' ys" using A(1) h' by (auto simp: cache_ok_def base_ok_def Let_def)
      then show ?thesis using un c'(2) by blast
    qed
    from cache_untouched[OF inv1 T(1) A(1) _ this] A(2) show ?thesis using T(9)[OF c'(2)] k1(2)[OF c'(2)] by simp
  qed
  have "slab_inv s'" using T(1,2,7) oth inv by (auto simp: slab_inv_def)
  moreover have "same_geometry ?k (caches s' c)" using T(6) by (simp add: k1 same_geometry_def counted_free_def)
  ultimately have "released c x s s'" using T oth bytes by (simp add: released_def)
  then show ?thesis using s'(1) by blast
qed

text \<open>Finding the slab of an object from its address.\<close>

lemma object_page:
  assumes inv: "slab_inv s" and c: "c \<in> set (cache_list s)" and h: "h \<in> set (slabs (caches s c))"
    and x: "x \<in> span (4096 * h) (nobj (caches s c) * stride (caches s c))"
  shows "marked s c h (virt_to_page (at x))"
    "(at x - page_to_virt h) mod c_stride (caches s c) = 0 \<longleftrightarrow> stride (caches s c) dvd x - 4096 * h"
proof -
  let ?k = "caches s c"
  obtain xs where ok: "slab_ok c s h xs" using slab_of_cache[OF inv c h] .
  note I = slab_invD[OF inv c] and A = slab_okD(1)[OF ok]
  have b: "x \<in> slab_bytes h (c_order ?k)" using x I(4) by (auto simp: slab_bytes_def geometry_def)
  then have lt: "x < DIRECT_MAP" using slab_bytes_map(1)[OF I(1) A] by blast
  show "marked s c h (virt_to_page (at x))"
    using slab_okD(2)[OF ok] b by (simp add: virt_to_page_at[OF lt] slab_bytes_frame del: block_iff)
  have "at x - page_to_virt h = of_nat (x - 4096 * h)"
    using x by (simp add: page_to_virt_at[OF slab_bytes_map(3)[OF I(1) A]] at_def of_nat_diff)
  moreover have "unat (of_nat (x - 4096 * h) :: u64) = x - 4096 * h" using lt by (simp add: unat_of_nat)
  ultimately show "(at x - page_to_virt h) mod c_stride ?k = 0 \<longleftrightarrow> stride ?k dvd x - 4096 * h"
    by (simp add: word_unat_eq_iff unat_mod dvd_eq_mod_eq_0)
qed

lemma objs_iff:
  assumes "0 < stride k"
  shows "x \<in> objs k h \<longleftrightarrow> x \<in> span (4096 * h) (nobj k * stride k) \<and> stride k dvd x - 4096 * h"
proof
  assume "x \<in> objs k h"
  then obtain i where i: "i < nobj k" "x = 4096 * h + i * stride k" by (auto simp: objs_def)
  then show "x \<in> span (4096 * h) (nobj k * stride k) \<and> stride k dvd x - 4096 * h" using assms by auto
next
  assume a: "x \<in> span (4096 * h) (nobj k * stride k) \<and> stride k dvd x - 4096 * h"
  define i where "i = (x - 4096 * h) div stride k"
  have "x = 4096 * h + i * stride k" using a by (simp add: i_def)
  moreover have "i < nobj k" using a assms by (simp add: i_def div_less_iff_less_mult less_diff_conv2)
  ultimately show "x \<in> objs k h" by (auto simp: objs_def)
qed

text \<open>The checks of \<^verbatim>\<open>kmem_cache_free\<close> on a pointer into one of the slabs of the cache.\<close>

lemma kmem_cache_free_cases:
  assumes inv: "slab_inv s" and c: "c \<in> set (cache_list s)" and h: "h \<in> set (slabs (caches s c))" "slab_ok c s h xs"
    and x: "x \<in> span (4096 * h) (nobj (caches s c) * stride (caches s c))"
  shows "kmem_cache_free c (at x) s =
    (if x \<notin> objs (caches s c) h then Inl Panic_not_object_start
     else if load_u64 (at (x + 8)) (kmem s) = FREE_MAGIC then Inl Panic_double_free
     else if \<not> redzone_ok (stride (caches s c)) x (kmem s) then Inl Panic_redzone
     else put_object c h (at x) s)"
proof -
  let ?k = "caches s c"
  note I = slab_invD[OF inv c] and O = object_page[OF inv c h(1) x]
  have st: "24 \<le> stride ?k" using I(4) by (simp add: geometry_def)
  have m: "has_flag (pg_flags (mem_map s (virt_to_page (at x)))) PG_SLAB"
    "pg_cache (mem_map s (virt_to_page (at x))) = Some c" "pg_head (mem_map s (virt_to_page (at x))) = Some h"
    using O(1) by (simp_all add: marked_def)
  have o: "(at x - page_to_virt h) mod c_stride ?k = 0 \<longleftrightarrow> x \<in> objs ?k h"
    using O(2) objs_iff[of ?k x h] st x by auto
  have "check_redzone ?k (at x) (kmem s) = (if redzone_ok (stride ?k) x (kmem s) then Inr () else Inl Panic_redzone)"
    if "x \<in> objs ?k h"
    by (rule check_redzone_at[OF refl st slab_objs_map(1)[OF I(1) h(2) I(4) that]])
  then show ?thesis by (simp add: kmem_cache_free_def Let_def m o at_add)
qed

lemma live_slab:
  assumes "slab_inv s" "c \<in> set (cache_list s)" "x \<in> live c s"
  obtains h xs where "h \<in> set (slabs (caches s c))" "slab_ok c s h xs" "x \<in> objs (caches s c) h" "x \<notin> set xs"
    "x \<in> span (4096 * h) (nobj (caches s c) * stride (caches s c))"
proof -
  obtain h xs where "h \<in> set (slabs (caches s c))" "slab_ok c s h xs" "x \<in> objs (caches s c) h" "x \<notin> set xs"
    using assms(3) by (auto simp: live_def live_in_def)
  moreover have "0 < stride (caches s c)" using slab_invD(4)[OF assms(1,2)] by (simp add: geometry_def)
  ultimately show thesis using that objs_iff by blast
qed

lemma kmem_cache_free_live:
  assumes inv: "slab_inv s" and c: "c \<in> set (cache_list s)" and x: "x \<in> live c s"
    and "load_u64 (at (x + 8)) (kmem s) \<noteq> FREE_MAGIC" "redzone_ok (stride (caches s c)) x (kmem s)"
  shows "\<exists>s'. kmem_cache_free c (at x) s = Inr s' \<and> released c x s s'"
proof -
  obtain h xs where h: "h \<in> set (slabs (caches s c))" "slab_ok c s h xs" "x \<in> objs (caches s c) h" "x \<notin> set xs"
    "x \<in> span (4096 * h) (nobj (caches s c) * stride (caches s c))"
    using live_slab[OF inv c x] .
  show ?thesis
    using kmem_cache_free_cases[OF inv c h(1,2,5)] put_object_ok[OF inv c h(1-4)] assms(4,5) h(3) by simp
qed

text \<open>Live objects do not overlap, whatever caches they belong to.\<close>

lemma live_apart:
  assumes inv: "slab_inv s" and c: "c \<in> set (cache_list s)" "c' \<in> set (cache_list s)"
    and x: "x \<in> live c s" "y \<in> live c' s" "(c, x) \<noteq> (c', y)"
  shows "span x (stride (caches s c)) \<inter> span y (stride (caches s c')) = {}"
proof -
  obtain h xs where h: "slab_ok c s h xs" "x \<in> objs (caches s c) h" using live_slab[OF inv c(1) x(1)] .
  obtain h' ys where h': "slab_ok c' s h' ys" "y \<in> objs (caches s c') h'" using live_slab[OF inv c(2) x(2)] .
  show ?thesis
  proof (cases "(c, h) = (c', h')")
    case True
    then show ?thesis using objs_apart[OF h(2)] h'(2) x(3) by auto
  next
    case False
    from slabs_apart(2)[OF h(1) h'(1) this] show ?thesis
      using objs_bytes[OF slab_invD(4)[OF inv c(1)] h(2)] objs_bytes[OF slab_invD(4)[OF inv c(2)] h'(2)] by blast
  qed
qed

lemma live_used:
  assumes inv: "slab_inv s" and c: "c \<in> set (cache_list s)" and x: "x \<in> live c s"
  shows "span x (stride (caches s c)) \<subseteq> used_bytes s" "x < DIRECT_MAP"
proof -
  obtain h xs where h: "slab_ok c s h xs" "x \<in> objs (caches s c) h" using live_slab[OF inv c x] .
  note I = slab_invD[OF inv c] and A = slab_okD(1)[OF h(1)]
  have "block h (c_order (caches s c)) \<inter> free_frames s = {}" using A by (simp add: allocated_def)
  then have "slab_bytes h (c_order (caches s c)) \<subseteq> used_bytes s"
    using slab_bytes_map(1)[OF I(1) A] slab_bytes_frame unfolding used_bytes_def by blast
  then show "span x (stride (caches s c)) \<subseteq> used_bytes s" using objs_bytes[OF I(4) h(2)] by blast
  show "x < DIRECT_MAP" by (rule slab_objs_map(2)[OF I(1) h(1) I(4) h(2)])
qed

end
