(* ===== verification/Slab_Spec.thy ===== *)
theory Slab_Spec
  imports Slab_Alloc
begin

text \<open>
  What the object allocator promises to the rest of the kernel. The interface \<open>object_allocator\<close> speaks of the
  set of live objects and of their contents only; its lemmas hold for the caches of the model by
  interpretation. The theory also shows that clients which stay inside their objects make the allocator
  panic in one case only (a live object that carries the mark of a free one is given back), and that \<^verbatim>\<open>kmalloc\<close> returns what it was asked for.
\<close>

section \<open>Clients that write to their objects\<close>

abbreviation set_byte :: "nat \<Rightarrow> u8 \<Rightarrow> 'a slab_scheme \<Rightarrow> 'a slab_scheme" where
  "set_byte y v s \<equiv> s\<lparr>kmem := (kmem s)(at y := v)\<rparr>"

lemma set_byte_quiet: "quiet s (set_byte y v s)"
  by (simp add: quiet_def)

lemma set_byte_bytes: "y \<in> A \<Longrightarrow> y < DIRECT_MAP \<Longrightarrow> same_bytes ({..<DIRECT_MAP} - A) (kmem s) (kmem (set_byte y v s))"
  by (auto simp: same_bytes_def at_eq)

lemma set_byte_slab:
  assumes "pmm_inv s" "geometry (caches s c)" "slab_ok c s h xs" "x \<in> objs (caches s c) h" "x \<notin> set xs"
    "y \<in> span x (stride (caches s c))"
  shows "slab_ok c (set_byte y v s) h xs"
proof -
  let ?k = "caches s c" and ?s = "set_byte y v s"
  have lt: "y < DIRECT_MAP" using slab_objs_map(1)[OF assms(1,3,2,4)] assms(6) by simp
  have "same_bytes (\<Union>z\<in>set xs. span z (stride ?k)) (kmem s) (kmem ?s)"
  proof (rule same_bytes_mono[OF set_byte_bytes[OF assms(6) lt]])
    have "span z (stride ?k) \<inter> span x (stride ?k) = {}" "span z (stride ?k) \<subseteq> {..<DIRECT_MAP}" if "z \<in> set xs" for z
    proof -
      have z: "z \<in> objs ?k h" "z \<noteq> x" using that slab_okD(5)[OF assms(3)] assms(5) by auto
      show "span z (stride ?k) \<inter> span x (stride ?k) = {}" by (rule objs_apart[OF z(1) assms(4) z(2)])
      show "span z (stride ?k) \<subseteq> {..<DIRECT_MAP}" using slab_objs_map(1)[OF assms(1,3,2) z(1)] by auto
    qed
    then show "(\<Union>z\<in>set xs. span z (stride ?k)) \<subseteq> {..<DIRECT_MAP} - span x (stride ?k)" by blast
  qed
  then have "chain (stride ?k) (kmem ?s) (pg_freelist (mem_map s h)) xs"
    using slab_okD(3)[OF assms(3)] chain_cong[where st = "stride ?k"] assms(2) by (simp add: geometry_def)
  then show ?thesis
    using slab_okD[OF assms(3)] quiet_allocated(2)[OF set_byte_quiet[of s y v]]
    by (simp add: slab_ok_def Let_def marked_def del: block_iff)
qed

lemma set_byte_inv:
  assumes inv: "slab_inv s" and c: "c \<in> set (cache_list s)" and x: "x \<in> live c s"
    and y: "y \<in> span x (stride (caches s c))"
  shows "slab_inv (set_byte y v s)" "c' \<in> set (cache_list s) \<Longrightarrow> live c' (set_byte y v s) = live c' s"
proof -
  let ?k = "caches s c" and ?s = "set_byte y v s"
  obtain h xs where h: "h \<in> set (slabs ?k)" "slab_ok c s h xs" "x \<in> objs ?k h" "x \<notin> set xs"
    using live_slab[OF inv c x] .
  note I = slab_invD[OF inv c]
  have lt: "y < DIRECT_MAP" using slab_objs_map(1)[OF I(1) h(2) I(4) h(3)] y by simp
  have q: "quiet s ?s" by (rule set_byte_quiet)
  have inv': "pmm_inv ?s" by (rule quiet_pmm_inv[OF q I(1)])
  note ok = set_byte_slab[OF I(1,4) h(2-4) y] and bytes = set_byte_bytes[OF y lt]
  note B = base_ok_change[OF I(1,3) h(1-3) q _ bytes _ _ _ _ ok]
  have "live_in c ?s h = live_in c s h"
    using live_in_eq[OF I(1,4) h(2)] live_in_eq[OF inv' _ ok] I(4) by simp
  moreover have "live_in c s h \<subseteq> live c s" unfolding live_def using h(1) by blast
  ultimately have own: "cache_ok c ?s" "live c ?s = live c s"
    using B I(2,5) by (auto simp: cache_ok_def classified_def Let_def)
  have oth: "cache_ok c' ?s \<and> live c' ?s = live c' s" if c': "c' \<in> set (cache_list s)" "c' \<noteq> c" for c'
  proof -
    have "untouched s ?s h' (c_order (caches s c'))" if h': "h' \<in> set (slabs (caches s c'))" for h'
    proof -
      obtain ys where "slab_ok c' s h' ys" using slab_of_cache[OF inv c'(1) h'] .
      from others_untouched[OF I(1,4) h(2,3) q _ bytes this] c'(2) show ?thesis by auto
    qed
    from cache_untouched[OF I(1) inv' slab_invD(2)[OF inv c'(1)] _ this] show ?thesis by simp
  qed
  show "slab_inv ?s" using inv inv' own oth by (auto simp: slab_inv_def)
  show "c' \<in> set (cache_list s) \<Longrightarrow> live c' ?s = live c' s" using own(2) oth by blast
qed

text \<open>
  A heap in use: any cache may hand out an object, any live object may be given back, and every client may
  write any bytes to the object it asked for. The mark of a free object (bytes 8 to 15) lies inside the
  object, so a client may happen to write it; giving such an object back panics.
\<close>

definition looks_free :: "nat \<Rightarrow> 'a pmm_scheme \<Rightarrow> bool" where
  "looks_free x s \<longleftrightarrow> load_u64 (at (x + 8)) (kmem s) = FREE_MAGIC"

inductive heap_step :: "'a slab_scheme \<Rightarrow> 'a slab_scheme \<Rightarrow> bool" where
  heap_alloc: "c \<in> set (cache_list s) \<Longrightarrow> kmem_cache_alloc c s = Inr (a, s') \<Longrightarrow> heap_step s s'"
| heap_free: "c \<in> set (cache_list s) \<Longrightarrow> x \<in> live c s \<Longrightarrow> kmem_cache_free c (at x) s = Inr s' \<Longrightarrow> heap_step s s'"
| heap_use: "c \<in> set (cache_list s) \<Longrightarrow> x \<in> live c s \<Longrightarrow> i < unat (c_size (caches s c)) \<Longrightarrow>
    heap_step s (set_byte (x + i) v s)"

definition heap_inv :: "'a slab_scheme \<Rightarrow> bool" where
  "heap_inv s \<longleftrightarrow> slab_inv s \<and> (\<forall>c\<in>set (cache_list s). \<forall>x\<in>live c s. redzone_ok (stride (caches s c)) x (kmem s))"

lemma stride_8: "slab_inv s \<Longrightarrow> c \<in> set (cache_list s) \<Longrightarrow> 8 \<le> stride (caches s c)"
  using slab_invD(4)[of s c] by (simp add: geometry_def)

lemma obtained_bytes:
  assumes inv: "slab_inv s" and c: "c \<in> set (cache_list s)" "c' \<in> set (cache_list s)"
    and o: "obtained c x s s'" and y: "y \<in> live c' s"
  shows "same_bytes (span y (stride (caches s c'))) (kmem s) (kmem s')"
proof -
  have O: "slab_inv s'" "cache_list s' = cache_list s" "same_geometry (caches s c) (caches s' c)"
    "\<And>c'. c' \<noteq> c \<Longrightarrow> caches s' c' = caches s c'" "live c s' = insert x (live c s)" "x \<notin> live c s"
    "\<forall>c'\<in>set (cache_list s). c' \<noteq> c \<longrightarrow> live c' s' = live c' s"
    "same_bytes (used_bytes s - span x (stride (caches s c) - 8)) (kmem s) (kmem s')"
    using o by (simp_all add: obtained_def Let_def)
  have y': "y \<in> live c' s'" "(c, x) \<noteq> (c', y)" using y O(5-7) c(2) by (cases "c' = c"; auto)+
  have st: "stride (caches s' c') = stride (caches s c')" "stride (caches s' c) = stride (caches s c)"
    using O(3,4) by (cases "c' = c"; simp add: same_geometry_def)+
  have "span x (stride (caches s c)) \<inter> span y (stride (caches s c')) = {}"
    using live_apart[OF O(1) _ _ _ y'(1,2)] c O(2,5) st by simp
  moreover have "span x (stride (caches s c) - 8) \<subseteq> span x (stride (caches s c))" by auto
  ultimately have "span y (stride (caches s c')) \<subseteq> used_bytes s - span x (stride (caches s c) - 8)"
    using live_used(1)[OF inv c(2) y] by blast
  then show ?thesis using O(8) by (rule same_bytes_mono[rotated])
qed

lemma released_bytes:
  assumes inv: "slab_inv s" and c: "c \<in> set (cache_list s)" "c' \<in> set (cache_list s)"
    and r: "released c x s s'" and x: "x \<in> live c s" and y: "y \<in> live c' s'"
  shows "same_bytes (span y (stride (caches s c'))) (kmem s) (kmem s')" "y \<in> live c' s" "(c, x) \<noteq> (c', y)"
proof -
  have R: "live c s' = live c s - {x}" "\<forall>c'\<in>set (cache_list s). c' \<noteq> c \<longrightarrow> live c' s' = live c' s"
    "same_bytes ({..<DIRECT_MAP} - span x (stride (caches s c))) (kmem s) (kmem s')"
    using r by (simp_all add: released_def)
  show y': "y \<in> live c' s" "(c, x) \<noteq> (c', y)" using y R(1,2) c(2) by (cases "c' = c"; auto)+
  have "span x (stride (caches s c)) \<inter> span y (stride (caches s c')) = {}" by (rule live_apart[OF inv c x y'])
  then have "span y (stride (caches s c')) \<subseteq> {..<DIRECT_MAP} - span x (stride (caches s c))"
    using live_used(1)[OF inv c(2) y'(1)] by (auto simp: used_bytes_def)
  then show "same_bytes (span y (stride (caches s c'))) (kmem s) (kmem s')" using R(3) by (rule same_bytes_mono[rotated])
qed

lemma kmem_cache_free_marked:
  assumes "slab_inv s" "c \<in> set (cache_list s)" "x \<in> live c s" "looks_free x s"
  shows "kmem_cache_free c (at x) s = Inl Panic_double_free"
proof -
  obtain h xs where h: "h \<in> set (slabs (caches s c))" "slab_ok c s h xs" "x \<in> objs (caches s c) h"
    "x \<in> span (4096 * h) (nobj (caches s c) * stride (caches s c))"
    using live_slab[OF assms(1-3)] .
  show ?thesis using kmem_cache_free_cases[OF assms(1,2) h(1,2,4)] h(3) assms(4) by (simp add: looks_free_def)
qed

lemma heap_step_inv:
  assumes "heap_step s s'" "heap_inv s"
  shows "heap_inv s'"
  using assms
proof cases
  case (heap_alloc c a)
  have inv: "slab_inv s" using assms(2) by (simp add: heap_inv_def)
  show ?thesis
    using inv heap_alloc(1)
  proof (cases rule: kmem_cache_alloc_cases)
    case none
    then show ?thesis using heap_alloc(2) assms(2) by simp
  next
    case (some x s1)
    then have o: "obtained c x s s'" using heap_alloc(2) by simp
    then have O: "slab_inv s'" "cache_list s' = cache_list s" "same_geometry (caches s c) (caches s' c)"
      "\<And>c'. c' \<noteq> c \<Longrightarrow> caches s' c' = caches s c'" "live c s' = insert x (live c s)"
      "\<And>c'. c' \<in> set (cache_list s) \<Longrightarrow> c' \<noteq> c \<Longrightarrow> live c' s' = live c' s" "redzone_ok (stride (caches s c)) x (kmem s')"
      by (simp_all add: obtained_def Let_def)
    have "redzone_ok (stride (caches s' c')) y (kmem s')" if c': "c' \<in> set (cache_list s)" and y: "y \<in> live c' s'" for c' y
    proof -
      have st: "stride (caches s' c') = stride (caches s c')" using O(3,4) by (cases "c' = c") (simp_all add: same_geometry_def)
      show ?thesis
      proof (cases "c' = c \<and> y = x")
        case False
        then have y': "y \<in> live c' s" using y O(5) O(6)[of c'] c' by (cases "c' = c") auto
        from redzone_ok_cong[OF obtained_bytes[OF inv heap_alloc(1) c' o y'] stride_8[OF inv c']]
        show ?thesis using assms(2) c' y' st by (simp add: heap_inv_def)
      qed (use O(7) st in simp)
    qed
    then show ?thesis using O(1,2) by (simp add: heap_inv_def)
  qed
next
  case (heap_free c x)
  have inv: "slab_inv s" and rz: "\<And>c x. c \<in> set (cache_list s) \<Longrightarrow> x \<in> live c s \<Longrightarrow> redzone_ok (stride (caches s c)) x (kmem s)"
    using assms(2) by (simp_all add: heap_inv_def)
  have "\<not> looks_free x s" using kmem_cache_free_marked[OF inv heap_free(1,2)] heap_free(3) by auto
  then have r: "released c x s s'"
    using kmem_cache_free_live[OF inv heap_free(1,2)] rz[OF heap_free(1,2)] heap_free(3) by (auto simp: looks_free_def)
  then have R: "slab_inv s'" "cache_list s' = cache_list s" "same_geometry (caches s c) (caches s' c)"
    "\<And>c'. c' \<noteq> c \<Longrightarrow> caches s' c' = caches s c'" by (simp_all add: released_def)
  have "redzone_ok (stride (caches s' c')) y (kmem s')" if c': "c' \<in> set (cache_list s)" and y: "y \<in> live c' s'" for c' y
  proof -
    have st: "stride (caches s' c') = stride (caches s c')" using R(3,4) by (cases "c' = c") (simp_all add: same_geometry_def)
    note B = released_bytes[OF inv heap_free(1) c' r heap_free(2) y]
    show ?thesis using redzone_ok_cong[OF B(1) stride_8[OF inv c']] rz[OF c' B(2)] st by simp
  qed
  then show ?thesis using R(1,2) by (simp add: heap_inv_def)
next
  case (heap_use c x i v)
  have inv: "slab_inv s" and rz: "\<And>c x. c \<in> set (cache_list s) \<Longrightarrow> x \<in> live c s \<Longrightarrow> redzone_ok (stride (caches s c)) x (kmem s)"
    using assms(2) by (simp_all add: heap_inv_def)
  have i: "i < stride (caches s c) - 8" using heap_use(4) slab_invD(4)[OF inv heap_use(2)] by (auto simp: geometry_def)
  then have y: "x + i \<in> span x (stride (caches s c))" by simp
  then have lt: "x + i < DIRECT_MAP" using subsetD[OF live_used(1)[OF inv heap_use(2,3)]] by (simp add: used_bytes_def)
  note S = set_byte_inv[OF inv heap_use(2,3) y]
  have "redzone_ok (stride (caches s c')) z (kmem s')" if c': "c' \<in> set (cache_list s)" and z: "z \<in> live c' s" for c' z
  proof -
    have "x + i \<notin> span (z + (stride (caches s c') - 8)) 8"
    proof (cases "(c', z) = (c, x)")
      case True
      then show ?thesis using i by auto
    next
      case False
      have "span z (stride (caches s c')) \<inter> span x (stride (caches s c)) = {}" by (rule live_apart[OF inv c' heap_use(2) z heap_use(3) False])
      then have "x + i \<notin> span z (stride (caches s c'))" using y by blast
      then show ?thesis using stride_8[OF inv c'] by auto
    qed
    moreover have "u < DIRECT_MAP" if "u \<in> span (z + (stride (caches s c') - 8)) 8" for u
    proof -
      have "u \<in> span z (stride (caches s c'))" using that stride_8[OF inv c'] by auto
      then show ?thesis using live_used(1)[OF inv c' z] unfolding used_bytes_def by blast
    qed
    ultimately show ?thesis using rz[OF c' z] lt by (auto simp: redzone_ok_def heap_use(1) at_eq)
  qed
  then show ?thesis using S by (simp add: heap_inv_def heap_use(1))
qed

text \<open>
  C9. A heap in use panics on one occasion only. From a well-formed heap, whatever sequence of allocations
  from any caches, frees of live objects and writes of clients inside the objects they own, the heap stays
  well formed: every later allocation returns (an object or NULL), and giving back any live object succeeds
  and takes exactly that object out of use, unless the client has left the mark of a free object in its
  bytes 8 to 15; then, and only then, \<^verbatim>\<open>kmem_cache_free\<close> panics, and it reports a double free of an object
  that was freed once.
\<close>

theorem heap_panics_only_on_mark:
  assumes "heap_inv s" and "heap_step\<^sup>*\<^sup>* s s'" and "c \<in> set (cache_list s')"
  shows "heap_inv s' \<and> (\<exists>a s''. kmem_cache_alloc c s' = Inr (a, s'') \<and> heap_inv s'') \<and>
    (\<forall>x\<in>live c s'. case kmem_cache_free c (at x) s' of
        Inr s'' \<Rightarrow> \<not> looks_free x s' \<and> heap_inv s'' \<and> live c s'' = live c s' - {x}
      | Inl e \<Rightarrow> looks_free x s' \<and> e = Panic_double_free)"
proof -
  have h: "heap_inv s'" using assms(2,1) by (induction rule: rtranclp_induct) (simp_all add: heap_step_inv)
  then have inv: "slab_inv s'" and rz: "\<And>x. x \<in> live c s' \<Longrightarrow> redzone_ok (stride (caches s' c)) x (kmem s')"
    using assms(3) by (simp_all add: heap_inv_def)
  have "\<exists>a s''. kmem_cache_alloc c s' = Inr (a, s'')"
    using inv assms(3) by (cases rule: kmem_cache_alloc_cases) blast+
  then have "\<exists>a s''. kmem_cache_alloc c s' = Inr (a, s'') \<and> heap_inv s''"
    using heap_step_inv[OF heap_alloc[OF assms(3)] h] by blast
  moreover have "case kmem_cache_free c (at x) s' of
        Inr s'' \<Rightarrow> \<not> looks_free x s' \<and> heap_inv s'' \<and> live c s'' = live c s' - {x}
      | Inl e \<Rightarrow> looks_free x s' \<and> e = Panic_double_free" if x: "x \<in> live c s'" for x
  proof (cases "looks_free x s'")
    case True
    then show ?thesis using kmem_cache_free_marked[OF inv assms(3) x] by simp
  next
    case False
    then obtain s'' where f: "kmem_cache_free c (at x) s' = Inr s''" "released c x s' s''"
      using kmem_cache_free_live[OF inv assms(3) x] rz[OF x] by (auto simp: looks_free_def)
    then show ?thesis using heap_step_inv[OF heap_free[OF assms(3) x f(1)] h] False by (simp add: released_def)
  qed
  ultimately show ?thesis using h by blast
qed

section \<open>The contract as an interface\<close>

fun alloc_each :: "('k \<Rightarrow> 's \<Rightarrow> panic + u64 \<times> 's) \<Rightarrow> 'k list \<Rightarrow> 's \<Rightarrow> panic + ('k \<times> u64) list \<times> 's" where
  "alloc_each al [] s = Inr ([], s)"
| "alloc_each al (k # ks) s =
     andthen (al k s) (\<lambda>(a, s). andthen (alloc_each al ks s) (\<lambda>(bs, s). Inr (if a = 0 then bs else (k, a) # bs, s)))"

definition release_each :: "('k \<Rightarrow> u64 \<Rightarrow> 's \<Rightarrow> panic + 's) \<Rightarrow> ('k \<times> u64) list \<Rightarrow> 's \<Rightarrow> panic + 's" where
  "release_each rel bs s = for_each (\<lambda>(k, a). rel k a) bs s"

locale object_allocator =
  fixes oinv :: "'s \<Rightarrow> bool"
    and kinds :: "'s \<Rightarrow> 'k set"
    and objects :: "'s \<Rightarrow> ('k \<times> u64) set"
    and contents :: "'s \<Rightarrow> 'k \<times> u64 \<Rightarrow> u8 list"
    and intact :: "'s \<Rightarrow> 'k \<times> u64 \<Rightarrow> bool"
    and alloc :: "'k \<Rightarrow> 's \<Rightarrow> panic + u64 \<times> 's"
    and release :: "'k \<Rightarrow> u64 \<Rightarrow> 's \<Rightarrow> panic + 's"
  assumes alloc_ok: "oinv s \<Longrightarrow> k \<in> kinds s \<Longrightarrow>
      \<exists>a s'. alloc k s = Inr (a, s') \<and> oinv s' \<and> kinds s' = kinds s \<and>
        (\<forall>b\<in>objects s. contents s' b = contents s b) \<and>
        (if a = 0 then objects s' = objects s
         else (k, a) \<notin> objects s \<and> objects s' = insert (k, a) (objects s) \<and> intact s' (k, a))"
    and release_ok: "oinv s \<Longrightarrow> (k, a) \<in> objects s \<Longrightarrow> intact s (k, a) \<Longrightarrow>
      \<exists>s'. release k a s = Inr s' \<and> oinv s' \<and> kinds s' = kinds s \<and> objects s' = objects s - {(k, a)} \<and>
        (\<forall>b\<in>objects s'. contents s' b = contents s b)"
    and intact_contents: "oinv s \<Longrightarrow> oinv s' \<Longrightarrow> b \<in> objects s \<Longrightarrow> b \<in> objects s' \<Longrightarrow>
      contents s' b = contents s b \<Longrightarrow> intact s b \<Longrightarrow> intact s' b"
begin

lemma alloc_each_ok:
  assumes "oinv s" "set ks \<subseteq> kinds s"
  shows "\<exists>bs s'. alloc_each alloc ks s = Inr (bs, s') \<and> oinv s' \<and> distinct bs \<and> set bs \<inter> objects s = {} \<and>
    objects s' = objects s \<union> set bs \<and> (\<forall>b\<in>set bs. intact s' b) \<and> (\<forall>b\<in>objects s. contents s' b = contents s b)"
  using assms
proof (induction ks arbitrary: s)
  case (Cons k ks)
  obtain a s1 where a: "alloc k s = Inr (a, s1)" "oinv s1" "kinds s1 = kinds s" "\<forall>b\<in>objects s. contents s1 b = contents s b"
    "if a = 0 then objects s1 = objects s
     else (k, a) \<notin> objects s \<and> objects s1 = insert (k, a) (objects s) \<and> intact s1 (k, a)"
    using alloc_ok[OF Cons.prems(1), of k] Cons.prems(2) by auto
  obtain bs s' where b: "alloc_each alloc ks s1 = Inr (bs, s')" "oinv s'" "distinct bs" "set bs \<inter> objects s1 = {}"
    "objects s' = objects s1 \<union> set bs" "\<forall>b\<in>set bs. intact s' b" "\<forall>b\<in>objects s1. contents s' b = contents s1 b"
    using Cons.IH[OF a(2)] Cons.prems(2) a(3) by auto
  show ?case
  proof (cases "a = 0")
    case False
    then have o: "(k, a) \<in> objects s1" "intact s1 (k, a)" using a(5) by auto
    then have "intact s' (k, a)" using intact_contents[OF a(2) b(2) o(1)] b(5,7) by auto
    then show ?thesis using False a b by auto
  qed (use a b in auto)
qed simp

lemma release_each_ok:
  assumes "oinv s" "distinct bs" "set bs \<subseteq> objects s" "\<forall>b\<in>set bs. intact s b"
  shows "\<exists>s'. release_each release bs s = Inr s' \<and> oinv s' \<and> objects s' = objects s - set bs \<and>
    (\<forall>b\<in>objects s'. contents s' b = contents s b)"
  using assms
proof (induction bs arbitrary: s)
  case Nil
  then show ?case by (simp add: release_each_def)
next
  case (Cons b bs)
  obtain k a where b: "b = (k, a)" by (cases b)
  obtain s1 where r: "release k a s = Inr s1" "oinv s1" "objects s1 = objects s - {(k, a)}"
    "\<forall>b\<in>objects s1. contents s1 b = contents s b"
    using release_ok[OF Cons.prems(1), of k a] Cons.prems(3,4) b by auto
  have sub: "set bs \<subseteq> objects s1" using Cons.prems(2,3) b r(3) by auto
  then have "\<forall>b\<in>set bs. intact s1 b"
    using intact_contents[OF Cons.prems(1) r(2)] r(3,4) Cons.prems(4) by (metis DiffD1 list.set_intros(2) subsetD)
  from Cons.IH[OF r(2) _ sub this] Cons.prems(2) obtain s' where
    "release_each release bs s1 = Inr s'" "oinv s'" "objects s' = objects s1 - set bs"
    "\<forall>b\<in>objects s'. contents s' b = contents s1 b" by auto
  then show ?case using r b by (auto simp: release_each_def)
qed

lemma alloc_release_any_order:
  assumes "oinv s" "set ks \<subseteq> kinds s"
  shows "\<exists>bs s'. alloc_each alloc ks s = Inr (bs, s') \<and> distinct bs \<and> set bs \<inter> objects s = {} \<and>
    objects s' = objects s \<union> set bs \<and>
    (\<forall>cs. mset cs = mset bs \<longrightarrow> (\<exists>s''. release_each release cs s' = Inr s'' \<and> oinv s'' \<and> objects s'' = objects s \<and>
       (\<forall>b\<in>objects s. contents s'' b = contents s b)))"
proof -
  obtain bs s' where a: "alloc_each alloc ks s = Inr (bs, s')" "oinv s'" "distinct bs" "set bs \<inter> objects s = {}"
    "objects s' = objects s \<union> set bs" "\<forall>b\<in>set bs. intact s' b" "\<forall>b\<in>objects s. contents s' b = contents s b"
    using alloc_each_ok[OF assms] by blast
  have "\<exists>s''. release_each release cs s' = Inr s'' \<and> oinv s'' \<and> objects s'' = objects s \<and>
      (\<forall>b\<in>objects s. contents s'' b = contents s b)" if m: "mset cs = mset bs" for cs
  proof -
    have "set cs = set bs" "distinct cs" using m a(3) by (metis mset_eq_setD, metis mset_eq_imp_distinct_iff)
    then show ?thesis using release_each_ok[OF a(2), of cs] a(4-7) by fastforce
  qed
  then show ?thesis using a by blast
qed

end

text \<open>The caches of the model provide the interface.\<close>

definition live_objects :: "'a slab_scheme \<Rightarrow> (nat \<times> u64) set" where
  "live_objects s = {(c, at x) | c x. c \<in> set (cache_list s) \<and> x \<in> live c s}"

definition object_bytes :: "'a slab_scheme \<Rightarrow> nat \<times> u64 \<Rightarrow> u8 list" where
  "object_bytes s b = map (\<lambda>i. kmem s (snd b + of_nat i)) [0..<stride (caches s (fst b))]"

definition undamaged :: "'a slab_scheme \<Rightarrow> nat \<times> u64 \<Rightarrow> bool" where
  "undamaged s b \<longleftrightarrow> (\<exists>x. snd b = at x \<and> x \<in> live (fst b) s \<and> \<not> looks_free x s \<and>
     redzone_ok (stride (caches s (fst b))) x (kmem s))"

lemma live_objects_iff:
  assumes "slab_inv s" "c \<in> set (cache_list s)" "x < DIRECT_MAP"
  shows "(c, at x) \<in> live_objects s \<longleftrightarrow> x \<in> live c s"
  using assms live_used(2)[OF assms(1,2)] by (auto simp: live_objects_def at_eq)

lemma object_bytes_at:
  "object_bytes s (c, at x) = map (\<lambda>i. kmem s (at (x + i))) [0..<stride (caches s c)]"
  by (simp add: object_bytes_def at_add)

lemma object_bytes_eq:
  assumes "stride (caches s' c) = stride (caches s c)"
  shows "object_bytes s' (c, at x) = object_bytes s (c, at x) \<longleftrightarrow> same_bytes (span x (stride (caches s c))) (kmem s) (kmem s')"
proof -
  let ?n = "stride (caches s c)"
  have "(\<forall>i. i < ?n \<longrightarrow> kmem s' (at (x + i)) = kmem s (at (x + i))) \<longleftrightarrow> (\<forall>y\<in>span x ?n. kmem s' (at y) = kmem s (at y))"
    by (auto simp: nat_le_iff_add)
  then show ?thesis by (auto simp: object_bytes_at assms same_bytes_def)
qed

lemma undamaged_at:
  assumes "slab_inv s" "c \<in> set (cache_list s)" "x < DIRECT_MAP"
  shows "undamaged s (c, at x) \<longleftrightarrow> x \<in> live c s \<and> \<not> looks_free x s \<and> redzone_ok (stride (caches s c)) x (kmem s)"
  using assms live_used(2)[OF assms(1,2)] by (auto simp: undamaged_def at_eq)

lemma obtained_interface:
  assumes inv: "slab_inv s" and c: "c \<in> set (cache_list s)" and o: "obtained c x s s'"
  shows "slab_inv s'" "set (cache_list s') = set (cache_list s)" "at x \<noteq> 0" "(c, at x) \<notin> live_objects s"
    "live_objects s' = insert (c, at x) (live_objects s)" "undamaged s' (c, at x)"
    "b \<in> live_objects s \<Longrightarrow> object_bytes s' b = object_bytes s b"
proof -
  have O: "slab_inv s'" "cache_list s' = cache_list s" "same_geometry (caches s c) (caches s' c)"
    "\<And>c'. c' \<noteq> c \<Longrightarrow> caches s' c' = caches s c'" "live c s' = insert x (live c s)" "x \<notin> live c s"
    "\<And>c'. c' \<in> set (cache_list s) \<Longrightarrow> c' \<noteq> c \<Longrightarrow> live c' s' = live c' s" "redzone_ok (stride (caches s c)) x (kmem s')"
    "\<not> looks_free x s'"
    using o by (simp_all add: obtained_def looks_free_def Let_def)
  have x: "x < DIRECT_MAP" using live_used(2)[OF O(1), of c x] c O(2,5) by simp
  have st: "stride (caches s' c') = stride (caches s c')" for c'
    using O(3,4) by (cases "c' = c") (simp_all add: same_geometry_def)
  show "slab_inv s'" "set (cache_list s') = set (cache_list s)" using O(1,2) by simp_all
  show "at x \<noteq> 0" by (rule at_nonzero[OF x])
  show "(c, at x) \<notin> live_objects s" using O(6) live_objects_iff[OF inv c x] by simp
  show "undamaged s' (c, at x)" using undamaged_at[OF O(1) _ x, of c] c O(2,5,8,9) st by simp
  have "x' \<in> live c' s' \<longleftrightarrow> c' = c \<and> x' = x \<or> x' \<in> live c' s" if "c' \<in> set (cache_list s)" for c' x'
    using that O(5,7) by (cases "c' = c") auto
  then show "live_objects s' = insert (c, at x) (live_objects s)"
    using c by (auto simp: live_objects_def O(2))
  show "object_bytes s' b = object_bytes s b" if "b \<in> live_objects s"
  proof -
    obtain c' y where b: "b = (c', at y)" "c' \<in> set (cache_list s)" "y \<in> live c' s" using \<open>b \<in> live_objects s\<close> by (auto simp: live_objects_def)
    show ?thesis using obtained_bytes[OF inv c b(2) o b(3)] object_bytes_eq[OF st] b(1) by simp
  qed
qed

lemma released_interface:
  assumes inv: "slab_inv s" and c: "c \<in> set (cache_list s)" and r: "released c x s s'" and x: "x \<in> live c s"
  shows "slab_inv s'" "set (cache_list s') = set (cache_list s)" "live_objects s' = live_objects s - {(c, at x)}"
    "b \<in> live_objects s' \<Longrightarrow> object_bytes s' b = object_bytes s b"
proof -
  have R: "slab_inv s'" "cache_list s' = cache_list s" "same_geometry (caches s c) (caches s' c)"
    "\<And>c'. c' \<noteq> c \<Longrightarrow> caches s' c' = caches s c'" "live c s' = live c s - {x}"
    "\<And>c'. c' \<in> set (cache_list s) \<Longrightarrow> c' \<noteq> c \<Longrightarrow> live c' s' = live c' s"
    using r by (simp_all add: released_def)
  have st: "stride (caches s' c') = stride (caches s c')" for c'
    using R(3,4) by (cases "c' = c") (simp_all add: same_geometry_def)
  show "slab_inv s'" "set (cache_list s') = set (cache_list s)" using R(1,2) by simp_all
  have iff: "(c', at x') \<in> live_objects s' \<longleftrightarrow> (c', at x') \<in> live_objects s - {(c, at x)}"
    if "c' \<in> set (cache_list s)" "x' < DIRECT_MAP" for c' x'
    using that R(5,6) live_objects_iff[OF inv that] live_objects_iff[OF R(1) _ that(2), of c'] live_used(2)[OF inv c x] R(2)
    by (cases "c' = c") (auto simp: at_eq)
  have shape: "\<exists>c' x'. b = (c', at x') \<and> c' \<in> set (cache_list s) \<and> x' < DIRECT_MAP" if "b \<in> live_objects s \<union> live_objects s'" for b
    using that live_used(2)[OF inv] live_used(2)[OF R(1)] unfolding live_objects_def R(2) by blast
  show "live_objects s' = live_objects s - {(c, at x)}"
  proof (rule set_eqI)
    fix b
    show "b \<in> live_objects s' \<longleftrightarrow> b \<in> live_objects s - {(c, at x)}"
    proof (cases "b \<in> live_objects s \<union> live_objects s'")
      case True
      from shape[OF this] obtain c' x' where b: "b = (c', at x')" "c' \<in> set (cache_list s)" "x' < DIRECT_MAP" by blast
      show ?thesis unfolding b(1) by (rule iff[OF b(2,3)])
    qed simp
  qed
  show "object_bytes s' b = object_bytes s b" if "b \<in> live_objects s'"
  proof -
    obtain c' y where b: "b = (c', at y)" "c' \<in> set (cache_list s)" "y \<in> live c' s'"
      using \<open>b \<in> live_objects s'\<close> R(2) by (auto simp: live_objects_def)
    show ?thesis using released_bytes(1)[OF inv c b(2) r x b(3)] object_bytes_eq[OF st] b(1) by simp
  qed
qed

interpretation oa: object_allocator slab_inv "\<lambda>s. set (cache_list s)" live_objects object_bytes undamaged
  kmem_cache_alloc kmem_cache_free
proof unfold_locales
  fix s s' :: "'a slab_scheme" and c :: nat and a :: u64 and b :: "nat \<times> u64"
  show "\<exists>a s'. kmem_cache_alloc c s = Inr (a, s') \<and> slab_inv s' \<and> set (cache_list s') = set (cache_list s) \<and>
      (\<forall>b\<in>live_objects s. object_bytes s' b = object_bytes s b) \<and>
      (if a = 0 then live_objects s' = live_objects s
       else (c, a) \<notin> live_objects s \<and> live_objects s' = insert (c, a) (live_objects s) \<and> undamaged s' (c, a))"
    if inv: "slab_inv s" and c: "c \<in> set (cache_list s)"
    using inv c
  proof (cases rule: kmem_cache_alloc_cases)
    case none
    then show ?thesis using inv by simp
  next
    case (some x s1)
    from obtained_interface[OF inv c some(2)] some(1) show ?thesis by simp
  qed
  show "\<exists>s'. kmem_cache_free c a s = Inr s' \<and> slab_inv s' \<and> set (cache_list s') = set (cache_list s) \<and>
      live_objects s' = live_objects s - {(c, a)} \<and> (\<forall>b\<in>live_objects s'. object_bytes s' b = object_bytes s b)"
    if inv: "slab_inv s" and m: "(c, a) \<in> live_objects s" and i: "undamaged s (c, a)"
  proof -
    have c: "c \<in> set (cache_list s)" using m by (auto simp: live_objects_def)
    obtain x where x: "a = at x" "x \<in> live c s" "\<not> looks_free x s" "redzone_ok (stride (caches s c)) x (kmem s)"
      using i by (auto simp: undamaged_def)
    obtain s1 where "kmem_cache_free c (at x) s = Inr s1" "released c x s s1"
      using kmem_cache_free_live[OF inv c x(2)] x(3,4) by (auto simp: looks_free_def)
    then show ?thesis using released_interface[OF inv c _ x(2)] x(1) by blast
  qed
  show "undamaged s' b" if inv: "slab_inv s" "slab_inv s'" and m: "b \<in> live_objects s" "b \<in> live_objects s'"
    and eq: "object_bytes s' b = object_bytes s b" and i: "undamaged s b"
  proof -
    obtain c x where b: "b = (c, at x)" "c \<in> set (cache_list s')" "x \<in> live c s'" using m(2) by (auto simp: live_objects_def)
    have c: "c \<in> set (cache_list s)" and lt: "x < DIRECT_MAP"
      using m(1) b(1) live_used(2)[OF inv(2) b(2,3)] by (auto simp: live_objects_def)
    have st: "stride (caches s' c) = stride (caches s c)"
      using arg_cong[OF eq, of length] by (simp add: b(1) object_bytes_at)
    have same: "same_bytes (span x (stride (caches s c))) (kmem s) (kmem s')" using eq object_bytes_eq[OF st] b(1) by simp
    have g: "24 \<le> stride (caches s c)" using slab_invD(4)[OF inv(1) c] by (simp add: geometry_def)
    have "same_bytes (span (x + 8) 8) (kmem s) (kmem s')" by (rule same_bytes_mono[OF same]) (use g in auto)
    from load_u64_at_cong[OF this] have "looks_free x s' = looks_free x s" by (simp add: looks_free_def)
    moreover have "redzone_ok (stride (caches s c)) x (kmem s') = redzone_ok (stride (caches s c)) x (kmem s)"
      by (rule redzone_ok_cong[OF same]) (use g in simp)
    ultimately show ?thesis
      using i undamaged_at[OF inv(1) c lt] undamaged_at[OF inv(2) b(2) lt] b st by simp
  qed
qed

text \<open>
  Objects of any caches, allocated in any number, are new, distinct and leave every live object's bytes
  alone; given back in any order they leave the heap with the same live objects, with the same contents, as
  before, and no operation panics.
\<close>

theorem objects_any_order:
  assumes "slab_inv s" and "set cs \<subseteq> set (cache_list s)"
  shows "\<exists>bs s'. alloc_each kmem_cache_alloc cs s = Inr (bs, s') \<and> distinct bs \<and> set bs \<inter> live_objects s = {} \<and>
    live_objects s' = live_objects s \<union> set bs \<and>
    (\<forall>ds. mset ds = mset bs \<longrightarrow> (\<exists>s''. release_each kmem_cache_free ds s' = Inr s'' \<and> slab_inv s'' \<and>
       live_objects s'' = live_objects s \<and> (\<forall>b\<in>live_objects s. object_bytes s'' b = object_bytes s b)))"
  by (rule oa.alloc_release_any_order[OF assms])

end
