(* ===== verification/Slab_Boot.thy ===== *)
theory Slab_Boot
  imports Slab_Spec
begin

text \<open>
  The start of the object allocator and its public face: creation of caches, \<^verbatim>\<open>slab_init\<close>, \<^verbatim>\<open>kmalloc\<close> and
  \<^verbatim>\<open>kfree\<close>, the checks that catch misuse, and a small booted heap on which the properties are applied.
\<close>

section \<open>Misuse\<close>








section \<open>Creating caches\<close>

lemma choose_order_bound: "order \<le> 3 \<Longrightarrow> choose_order st order \<le> 3"
proof (induction st order rule: choose_order.induct)
  case (1 st order)
  then show ?case by (subst choose_order.simps) (auto simp: Let_def)
qed

lemma choose_order_fits:
  assumes "order \<le> 3" "0 < unat st" "unat st \<le> 32768"
  shows "0 < unat (push_bit (choose_order st order) PAGE_SIZE div st)"
  using assms
proof (induction st order rule: choose_order.induct)
  case (1 st order)
  show ?case
  proof (cases "order < 3 \<and> \<not> (8 \<le> push_bit order PAGE_SIZE div st \<and>
      (push_bit order PAGE_SIZE - push_bit order PAGE_SIZE div st * st) * 8 \<le> push_bit order PAGE_SIZE)")
    case True
    then have "choose_order st order = choose_order st (Suc order)" by (subst choose_order.simps) (auto simp: Let_def)
    then show ?thesis using "1.IH"[OF _ refl refl] True "1.prems" by auto
  next
    case False
    then have eq: "choose_order st order = order" by (subst choose_order.simps) (auto simp: Let_def)
    show ?thesis
    proof (cases "order < 3")
      case True
      then have "(8::u64) \<le> push_bit order PAGE_SIZE div st" using False by blast
      then have "8 \<le> unat (push_bit order PAGE_SIZE div st)" by (simp add: word_le_nat_alt)
      then show ?thesis by (simp add: eq)
    next
      case False
      then have "order = 3" using "1.prems"(1) by simp
      then have "unat (push_bit order PAGE_SIZE div st) = 32768 div unat st" by (simp add: unat_div push_bit_eq_mult)
      then show ?thesis using "1.prems"(2,3) by (simp add: eq div_greater_zero_iff)
    qed
  qed
qed

lemma unat_align_up_pow2:
  assumes "j < 64" "unat x + 2 ^ j \<le> 2 ^ 64"
  shows "unat (align_up x (2 ^ j)) = (unat x + (2 ^ j - 1)) div 2 ^ j * 2 ^ j"
proof -
  have "(2::nat) ^ j < 2 ^ 64" using assms(1) by (intro power_strict_increasing) simp_all
  then have "unat (of_nat (2 ^ j) :: u64) = 2 ^ j" by (simp only: unat_of_nat) simp
  then have p: "unat (2 ^ j :: u64) = 2 ^ j" by simp
  have "(1::u64) \<le> 2 ^ j" using p by (simp add: word_le_nat_alt)
  then have "unat ((2::u64) ^ j - 1) = 2 ^ j - 1" using p by (simp add: unat_sub)
  moreover have "(1::nat) \<le> 2 ^ j" by simp
  ultimately have "unat (x + (2 ^ j - 1)) = unat x + (2 ^ j - 1)"
    using assms(2) by (subst unat_add_no_wrap) auto
  then show ?thesis unfolding align_up_def unat_align_down_pow2[OF assms(1)] by (simp add: add_diff_eq)
qed

text \<open>The layout \<^verbatim>\<open>cache_setup\<close> computes is a geometry, for any alignment that is a power of two.\<close>

lemma cache_setup_geometry:
  assumes al: "align = 2 ^ j" "3 \<le> j" "j < 64" and sz: "unat sz + 24 + 2 ^ j \<le> 2 ^ 64"
    and k: "c_stride k = align_up (max sz MIN_OBJ + REDZONE) align" "c_order k = choose_order (c_stride k) 0"
      "c_objs_per_slab k = ucast (push_bit (c_order k) PAGE_SIZE div c_stride k)" "c_size k = sz"
    and n: "c_objs_per_slab k \<noteq> 0" and ctor: "ctor_local k"
  shows "geometry k"
proof -
  have mx: "unat (max sz MIN_OBJ) = max (unat sz) 16" by (auto simp: max_def word_le_nat_alt)
  have o: "unat (max sz MIN_OBJ + REDZONE) = max (unat sz) 16 + 8"
    using sz by (subst unat_add_no_wrap) (simp_all add: mx)
  have st: "stride k = (max (unat sz) 16 + 8 + (2 ^ j - 1)) div 2 ^ j * 2 ^ j"
    unfolding k(1) al(1) using unat_align_up_pow2[OF al(3), of "max sz MIN_OBJ + REDZONE"] sz unfolding o by simp
  have "(1::nat) \<le> 2 ^ j" by simp
  then have ge: "max (unat sz) 16 + 8 \<le> stride k"
    unfolding st using div_mult_mod_eq[of "max (unat sz) 16 + 8 + (2 ^ j - 1)" "2 ^ j"]
      mod_less_divisor[of "2 ^ j" "max (unat sz) 16 + 8 + (2 ^ j - 1)"] by linarith
  have "(2::nat) ^ 3 dvd 2 ^ j" using al(2) by (rule le_imp_power_dvd)
  then have d: "8 dvd stride k" unfolding st by (simp add: dvd_mult)
  have ord: "c_order k \<le> 3" unfolding k(2) by (rule choose_order_bound) simp
  have b: "unat (push_bit (c_order k) PAGE_SIZE) = 4096 * 2 ^ c_order k"
  proof -
    have "c_order k \<in> {0, 1, 2, 3}" using ord by auto
    then show ?thesis by (auto simp: push_bit_eq_mult)
  qed
  have "(2::nat) ^ c_order k \<le> 2 ^ 3" using ord by (rule power_increasing) simp
  then have "unat (push_bit (c_order k) PAGE_SIZE div c_stride k) \<le> 32768"
    unfolding unat_div b by (intro order_trans[OF div_le_dividend]) simp
  then have nobj: "nobj k = 4096 * 2 ^ c_order k div stride k"
    unfolding k(3) by (simp add: unsigned_ucast_eq take_bit_nat_eq_self unat_div b)
  moreover have "0 < nobj k" using n by (simp add: unat_gt_0)
  ultimately show ?thesis
    using ge d ord ctor unfolding geometry_def k(4) by auto
qed

definition fresh_cache :: "string \<Rightarrow> u64 \<Rightarrow> u64 \<Rightarrow> (u64 \<Rightarrow> memory \<Rightarrow> memory) option \<Rightarrow> kmem_cache" where
  "fresh_cache name sz align ctor =
     (let st = align_up (max sz MIN_OBJ + REDZONE) align; order = choose_order st 0
      in \<lparr>c_name = name, c_size = sz, c_stride = st, c_order = order,
          c_objs_per_slab = ucast (push_bit order PAGE_SIZE div st), c_ctor = ctor, c_partial = [], c_full = [],
          c_empty = [], c_nr_slabs = 0, c_active_objs = 0, c_allocs = 0, c_frees = 0\<rparr>)"

lemma cache_setup_eq:
  "8 \<le> align \<Longrightarrow> cache_setup c name sz align ctor s =
     (if c_objs_per_slab (fresh_cache name sz align ctor) = 0 then Inl Panic_object_too_big
      else Inr (s\<lparr>caches := (caches s)(c := fresh_cache name sz align ctor), cache_list := cache_list s @ [c]\<rparr>))"
  by (simp add: cache_setup_def fresh_cache_def Let_def not_less[symmetric])

lemma fresh_geometry:
  assumes "align = 2 ^ j" "3 \<le> j" "j < 64" "unat sz + 24 + 2 ^ j \<le> 2 ^ 64"
    and "c_objs_per_slab (fresh_cache name sz align ctor) \<noteq> 0" "ctor_local (fresh_cache name sz align ctor)"
  shows "geometry (fresh_cache name sz align ctor)"
  by (rule cache_setup_geometry[OF assms(1-4) _ _ _ _ assms(5,6)]) (simp_all add: fresh_cache_def Let_def)

text \<open>Adding a cache that has no slabs yet.\<close>

lemma add_cache:
  fixes s :: "'a slab_scheme"
  assumes inv: "slab_inv s" and c: "c \<notin> set (cache_list s)" and g: "geometry (fresh_cache name sz align ctor)"
    and s': "s' = s\<lparr>caches := (caches s)(c := fresh_cache name sz align ctor), cache_list := cache_list s @ [c]\<rparr>"
  shows "slab_inv s'" "c' \<in> set (cache_list s) \<Longrightarrow> live c' s' = live c' s \<and> caches s' c' = caches s c'" "live c s' = {}"
proof -
  have q: "quiet s s'" by (simp add: quiet_def s')
  have i: "pmm_inv s" "pmm_inv s'" using inv quiet_pmm_inv[OF q] by (simp_all add: slab_inv_def)
  have k: "caches s' c = fresh_cache name sz align ctor" "slabs (fresh_cache name sz align ctor) = []"
    by (simp_all add: s' fresh_cache_def slabs_def Let_def)
  have "cache_ok c s'"
    using g k by (simp add: cache_ok_def base_ok_def classified_def Let_def) (simp add: fresh_cache_def Let_def)
  moreover have oth: "cache_ok c' s' \<and> live c' s' = live c' s \<and> caches s' c' = caches s c'" if c': "c' \<in> set (cache_list s)" for c'
  proof -
    have kc: "caches s' c' = caches s c'" using c c' by (auto simp: s')
    have "untouched s s' h k" for h k using quiet_allocated(2)[OF q] by (simp add: untouched_def s')
    from cache_untouched[OF i slab_invD(2)[OF inv c'] kc this] kc show ?thesis by blast
  qed
  ultimately show "slab_inv s'" using inv c i by (auto simp: slab_inv_def s')
  show "c' \<in> set (cache_list s) \<Longrightarrow> live c' s' = live c' s \<and> caches s' c' = caches s c'" using oth by blast
  show "live c s' = {}" by (simp add: live_def k)
qed

text \<open>Every cache but the first one is itself a live object of the cache of caches.\<close>

definition registered :: "'a slab_scheme \<Rightarrow> bool" where
  "registered s \<longleftrightarrow> CACHE_CACHE \<in> set (cache_list s) \<and>
     (\<forall>c\<in>set (cache_list s). c \<noteq> CACHE_CACHE \<longrightarrow> (\<exists>x\<in>live CACHE_CACHE s. c = unat (at x)))"

definition created :: "kmem_cache \<Rightarrow> nat \<Rightarrow> 'a slab_scheme \<Rightarrow> 'a slab_scheme \<Rightarrow> bool" where
  "created k x s s' \<longleftrightarrow> slab_inv s' \<and> registered s' \<and> cache_list s' = cache_list s @ [unat (at x)] \<and>
     caches s' (unat (at x)) = k \<and> x \<notin> live CACHE_CACHE s \<and> live CACHE_CACHE s' = insert x (live CACHE_CACHE s) \<and>
     kmalloc_caches s' = kmalloc_caches s \<and>
     (\<forall>c\<in>set (cache_list s). same_geometry (caches s c) (caches s' c) \<and> (c \<noteq> CACHE_CACHE \<longrightarrow> live c s' = live c s))"

lemma kmem_cache_create_cases:
  assumes inv: "slab_inv s" and reg: "registered s"
    and al: "align = 2 ^ j" "3 \<le> j" "j < 64" and sz: "unat sz + 24 + 2 ^ j \<le> 2 ^ 64"
    and n: "c_objs_per_slab (fresh_cache name sz align ctor) \<noteq> 0" and ctor: "ctor_local (fresh_cache name sz align ctor)"
  obtains (none) "kmem_cache_create name sz align ctor s = Inr (0, s)" "c_partial (caches s CACHE_CACHE) = []"
      "c_empty (caches s CACHE_CACHE) = []" "\<And>p. \<not> runs_free s 0 (c_order (caches s CACHE_CACHE)) p"
    | (some) x s' where "kmem_cache_create name sz align ctor s = Inr (at x, s')" "at x \<noteq> 0"
      "created (fresh_cache name sz align ctor) x s s'"
proof -
  have cc: "CACHE_CACHE \<in> set (cache_list s)" using reg by (simp add: registered_def)
  have "unat ((2::u64) ^ 3) \<le> unat (2 ^ j :: u64)"
  proof -
    have "(2::nat) ^ j < 2 ^ 64" using al(3) by (intro power_strict_increasing) simp_all
    then have "unat (of_nat (2 ^ j) :: u64) = 2 ^ j" by (simp only: unat_of_nat) simp
    moreover have "(2::nat) ^ 3 \<le> 2 ^ j" using al(2) by (rule power_increasing) simp
    ultimately show ?thesis by simp
  qed
  then have al8: "8 \<le> align" by (simp add: al(1) word_le_nat_alt)
  show thesis using inv cc
  proof (cases rule: kmem_cache_alloc_cases)
    case n: none
    then show ?thesis using none by (simp add: kmem_cache_create_def)
  next
    case o: (some x s1)
    let ?c = "unat (at x)" and ?k = "fresh_cache name sz align ctor"
    define s' where "s' = s1\<lparr>caches := (caches s1)(?c := ?k), cache_list := cache_list s1 @ [?c]\<rparr>"
    have O: "slab_inv s1" "cache_list s1 = cache_list s" "same_geometry (caches s CACHE_CACHE) (caches s1 CACHE_CACHE)"
      "\<And>c'. c' \<noteq> CACHE_CACHE \<Longrightarrow> caches s1 c' = caches s c'" "live CACHE_CACHE s1 = insert x (live CACHE_CACHE s)"
      "x \<notin> live CACHE_CACHE s" "kmalloc_caches s1 = kmalloc_caches s"
      "\<And>c'. c' \<in> set (cache_list s) \<Longrightarrow> c' \<noteq> CACHE_CACHE \<Longrightarrow> live c' s1 = live c' s"
      using o(2) by (simp_all add: obtained_def Let_def)
    have x: "x < DIRECT_MAP" using live_used(2)[OF O(1), of CACHE_CACHE x] cc O(2,5) by simp
    have nz: "at x \<noteq> 0" by (rule at_nonzero[OF x])
    have lt: "y < DIRECT_MAP" if "y \<in> live CACHE_CACHE s" for y using live_used(2)[OF inv cc that] .
    have "?c \<noteq> CACHE_CACHE" using x by (simp add: unat_at CACHE_CACHE_def)
    moreover have "unat (at y) \<noteq> ?c" if "y \<in> live CACHE_CACHE s" for y
      using that lt[OF that] x O(6) by (auto simp: unat_at)
    ultimately have new: "?c \<notin> set (cache_list s1)" using reg unfolding registered_def O(2) by metis
    have g: "geometry ?k" by (rule fresh_geometry[OF al sz n ctor])
    note A = add_cache[OF O(1) new g s'_def]
    have ev: "kmem_cache_create name sz align ctor s = Inr (at x, s')"
      using nz n by (simp add: kmem_cache_create_def o(1) cache_setup_eq[OF al8] s'_def)
    have keep: "same_geometry (caches s c) (caches s' c) \<and> (c \<noteq> CACHE_CACHE \<longrightarrow> live c s' = live c s)"
      if "c \<in> set (cache_list s)" for c
      using that A(2)[of c] O(2,3) O(4,8)[of c] by (cases "c = CACHE_CACHE") simp_all
    have "live CACHE_CACHE s' = insert x (live CACHE_CACHE s)" using A(2)[of CACHE_CACHE] O(2,5) cc by simp
    moreover from this have "registered s'" using reg O(2) by (auto simp: registered_def s'_def)
    ultimately have "created ?k x s s'"
      using A(1) O(2,6,7) keep by (simp add: created_def s'_def)
    then show ?thesis using some[OF ev nz] by blast
  qed
qed

section \<open>Starting the allocator\<close>

definition kmalloc_ready :: "'a slab_scheme \<Rightarrow> bool" where
  "kmalloc_ready s \<longleftrightarrow> list_all2 (\<lambda>z c. c \<in> set (cache_list s) \<and> c_size (caches s c) = z) kmalloc_sizes (kmalloc_caches s)"

definition booting :: "nat \<Rightarrow> 'a slab_scheme \<Rightarrow> bool" where
  "booting n s \<longleftrightarrow> slab_inv s \<and> registered s \<and> nobj (caches s CACHE_CACHE) = 24 \<and> c_order (caches s CACHE_CACHE) = 0 \<and>
     card (live CACHE_CACHE s) = n \<and> (n = 0 \<longrightarrow> free_frames s \<noteq> {}) \<and>
     list_all2 (\<lambda>z c. c \<in> set (cache_list s) \<and> c_size (caches s c) = z) (take n kmalloc_sizes) (kmalloc_caches s)"

lemma finite_live:
  assumes "base_ok c s"
  shows "finite (live c s)"
  unfolding live_def live_in_def by (auto intro: finite_subset[OF _ finite_objs])

text \<open>When no slab has room, all objects of the slabs are live.\<close>

lemma full_cache_live:
  assumes inv: "slab_inv s" and c: "c \<in> set (cache_list s)" and none: "c_partial (caches s c) = []" "c_empty (caches s c) = []"
  shows "live c s = {} \<or> nobj (caches s c) \<le> card (live c s)"
proof (cases "c_full (caches s c)")
  case Nil
  then show ?thesis using none by (simp add: live_def slabs_def)
next
  case (Cons h hs)
  note I = slab_invD[OF inv c]
  have h: "h \<in> set (slabs (caches s c))" using Cons by (simp add: slabs_def)
  obtain xs where xs: "slab_ok c s h xs" using slab_of_cache[OF inv c h] .
  have "inuse s h = nobj (caches s c)" using I(2) Cons by (simp add: cache_ok_def classified_def Let_def)
  then have "xs = []" using slab_okD(6)[OF xs] by simp
  then have "live_in c s h = objs (caches s c) h" using live_in_eq[OF I(1,4) xs] by simp
  then have "objs (caches s c) h \<subseteq> live c s" using h unfolding live_def by blast
  from card_mono[OF finite_live[OF I(3)] this] show ?thesis using card_objs[OF I(4)] by simp
qed

lemma fresh_fits:
  assumes "unat sz \<le> 32000"
  shows "c_objs_per_slab (fresh_cache name sz 8 ctor) \<noteq> 0"
proof -
  let ?st = "align_up (max sz MIN_OBJ + REDZONE) (2 ^ 3)"
  have mx: "unat (max sz MIN_OBJ) = max (unat sz) 16" by (auto simp: max_def word_le_nat_alt)
  have o: "unat (max sz MIN_OBJ + REDZONE) = max (unat sz) 16 + 8"
    using assms by (subst unat_add_no_wrap) (simp_all add: mx)
  have "unat ?st = (max (unat sz) 16 + 15) div 8 * 8"
    using unat_align_up_pow2[of 3 "max sz MIN_OBJ + REDZONE"] assms unfolding o by simp
  then have st: "0 < unat ?st" "unat ?st \<le> 32768" using assms by auto
  have lt: "unat (push_bit (choose_order ?st 0) PAGE_SIZE div ?st) \<le> 32768"
  proof -
    have "choose_order ?st 0 \<in> {0, 1, 2, 3}" using choose_order_bound[of 0 ?st] by auto
    then have "unat (push_bit (choose_order ?st 0) PAGE_SIZE) \<le> 32768" by (auto simp: push_bit_eq_mult)
    then show ?thesis unfolding unat_div by (rule order_trans[OF div_le_dividend])
  qed
  then have "unat (ucast (push_bit (choose_order ?st 0) PAGE_SIZE div ?st) :: u32) \<noteq> 0"
    using choose_order_fits[OF _ st, of 0] by (simp add: unsigned_ucast_eq take_bit_nat_eq_self)
  then show ?thesis by (auto simp: fresh_cache_def Let_def)
qed

lemma no_ctor_local: "ctor_local (fresh_cache name sz align None)"
  by (simp add: ctor_local_def fresh_cache_def Let_def)

lemma cache_cache_layout:
  "nobj (fresh_cache name SIZEOF_KMEM_CACHE 8 ctor) = 24" "c_order (fresh_cache name SIZEOF_KMEM_CACHE 8 ctor) = 0"
proof -
  have st: "align_up (max SIZEOF_KMEM_CACHE MIN_OBJ + REDZONE) 8 = 168" by (simp add: align_up_def align_down_def)
  have o: "choose_order 168 0 = 0" by (subst choose_order.simps) (simp add: Let_def)
  show "nobj (fresh_cache name SIZEOF_KMEM_CACHE 8 ctor) = 24" "c_order (fresh_cache name SIZEOF_KMEM_CACHE 8 ctor) = 0"
    unfolding fresh_cache_def st o Let_def by simp_all
qed

lemma booting_step:
  assumes b: "booting n s" and n: "n < length kmalloc_sizes" and sz: "sz = kmalloc_sizes ! n"
  shows "\<exists>s'. create_kmalloc_cache (name, sz) s = Inr s' \<and> booting (Suc n) s'"
proof -
  have B: "slab_inv s" "registered s" "nobj (caches s CACHE_CACHE) = 24" "c_order (caches s CACHE_CACHE) = 0"
    "card (live CACHE_CACHE s) = n" "n = 0 \<Longrightarrow> free_frames s \<noteq> {}"
    "list_all2 (\<lambda>z c. c \<in> set (cache_list s) \<and> c_size (caches s c) = z) (take n kmalloc_sizes) (kmalloc_caches s)"
    using b by (simp_all add: booting_def)
  have cc: "CACHE_CACHE \<in> set (cache_list s)" using B(2) by (simp add: registered_def)
  have "sz \<in> set kmalloc_sizes" using n sz by simp
  then have small: "unat sz \<le> 32000" by (auto simp: kmalloc_sizes_def)
  have fits: "unat sz + 24 + 2 ^ 3 \<le> 2 ^ 64" using small by simp
  have al: "(8::u64) = 2 ^ 3" "3 \<le> (3::nat)" "3 < (64::nat)" by simp_all
  show ?thesis
    using B(1,2) al fits fresh_fits[OF small, of name None] no_ctor_local[of name sz 8]
  proof (cases rule: kmem_cache_create_cases)
    case none
    have "24 \<le> n \<or> live CACHE_CACHE s = {}" using full_cache_live[OF B(1) cc none(2,3)] B(3,5) by auto
    moreover have "n < 24" using n by (simp add: kmalloc_sizes_def)
    ultimately have "live CACHE_CACHE s = {}" by auto
    then obtain p where "p \<in> free_frames s" using B(5,6) by auto
    then have "runs_free s 0 0 p" by (simp add: runs_free_def block_def span_def)
    then show ?thesis using none(4) B(4) by simp
  next
    case (some x s1)
    let ?c = "unat (at x)"
    let ?s = "s1\<lparr>kmalloc_caches := kmalloc_caches s1 @ [?c]\<rparr>"
    have C: "slab_inv s1" "registered s1" "cache_list s1 = cache_list s @ [?c]" "caches s1 ?c = fresh_cache name sz 8 None"
      "x \<notin> live CACHE_CACHE s" "live CACHE_CACHE s1 = insert x (live CACHE_CACHE s)" "kmalloc_caches s1 = kmalloc_caches s"
      "\<And>c. c \<in> set (cache_list s) \<Longrightarrow> same_geometry (caches s c) (caches s1 c)"
      using some(3) by (simp_all add: created_def)
    have eq: "slab_inv ?s = slab_inv s1" "registered ?s = registered s1" "live CACHE_CACHE ?s = live CACHE_CACHE s1"
      by (simp_all add: slab_inv_def registered_def pmm_inv_def zone_inv_def free_frames_def cache_ok_def base_ok_def classified_def
          slab_ok_def marked_def allocated_def in_zone_def live_def live_in_def Let_def)
    have "card (live CACHE_CACHE s1) = Suc n"
      using C(5,6) B(5) finite_live[OF slab_invD(3)[OF B(1) cc]] by simp
    moreover have "list_all2 (\<lambda>z c. c \<in> set (cache_list s1) \<and> c_size (caches s1 c) = z) (take (Suc n) kmalloc_sizes) (kmalloc_caches s1 @ [?c])"
      unfolding take_Suc_conv_app_nth[OF n] C(7)
    proof (rule list_all2_appendI)
      show "list_all2 (\<lambda>z c. c \<in> set (cache_list s1) \<and> c_size (caches s1 c) = z) (take n kmalloc_sizes) (kmalloc_caches s)"
        by (rule list_all2_mono[OF B(7)]) (use C(3,8) in \<open>auto simp: same_geometry_def\<close>)
      show "list_all2 (\<lambda>z c. c \<in> set (cache_list s1) \<and> c_size (caches s1 c) = z) [kmalloc_sizes ! n] [?c]"
        using C(3,4) sz by (simp add: fresh_cache_def Let_def)
    qed
    ultimately have "booting (Suc n) ?s"
      using C(1,2) B(3,4) C(8)[OF cc] eq by (simp add: booting_def same_geometry_def)
    then show ?thesis using some(1,2) by (simp add: create_kmalloc_cache_def)
  qed
qed

lemma for_each_append: "for_each f (xs @ ys) s = andthen (for_each f xs s) (for_each f ys)"
  by (induction xs arbitrary: s) (simp_all add: andthen_def split: sum.splits)

lemma booting_all:
  assumes "booting 0 s" "n \<le> length kmalloc_sizes"
  shows "\<exists>s'. for_each create_kmalloc_cache (take n (zip kmalloc_names kmalloc_sizes)) s = Inr s' \<and> booting n s'"
  using assms(2)
proof (induction n)
  case 0
  then show ?case using assms(1) by simp
next
  case (Suc n)
  then obtain s1 where s1: "for_each create_kmalloc_cache (take n (zip kmalloc_names kmalloc_sizes)) s = Inr s1" "booting n s1"
    by auto
  have n: "n < length (zip kmalloc_names kmalloc_sizes)" "n < length kmalloc_sizes"
    using Suc.prems by (simp_all add: kmalloc_names_def kmalloc_sizes_def)
  from booting_step[OF s1(2) n(2) refl, of "kmalloc_names ! n"] s1(1) n show ?case
    unfolding take_Suc_conv_app_nth[OF n(1)] by (auto simp: for_each_append)
qed

text \<open>
  Starting the allocator. On a page allocator that has at least one free frame and before any cache
  exists, \<^verbatim>\<open>slab_init\<close> does not panic; afterwards the heap satisfies its invariant and holds the twelve
  \<^verbatim>\<open>kmalloc\<close> caches with the sizes of the table.
\<close>

theorem slab_init_correct:
  assumes "pmm_inv s" and "cache_list s = []" and "kmalloc_caches s = []" and "free_frames s \<noteq> {}"
  shows "\<exists>s'. slab_init s = Inr s' \<and> slab_inv s' \<and> kmalloc_ready s' \<and> registered s' \<and> length (kmalloc_caches s') = 12"
proof -
  let ?k = "fresh_cache ''kmem_cache'' SIZEOF_KMEM_CACHE 8 None"
  define s1 where "s1 = s\<lparr>caches := (caches s)(CACHE_CACHE := ?k), cache_list := cache_list s @ [CACHE_CACHE]\<rparr>"
  have inv0: "slab_inv s" using assms(1,2) by (simp add: slab_inv_def)
  have nz: "c_objs_per_slab ?k \<noteq> 0" by (rule fresh_fits) simp
  have g: "geometry ?k" by (rule fresh_geometry[of 8 3]) (use nz no_ctor_local in simp_all)
  have "CACHE_CACHE \<notin> set (cache_list s)" using assms(2) by simp
  note A = add_cache[OF inv0 this g s1_def]
  have "registered s1" using A(3) by (simp add: registered_def s1_def assms(2))
  moreover have "free_frames s1 = free_frames s" by (simp add: s1_def free_frames_def)
  ultimately have "booting 0 s1"
    using A(1,3) assms(3,4) cache_cache_layout[of "''kmem_cache''" None] by (simp add: booting_def s1_def)
  from booting_all[OF this, of 12] obtain s' where s': "for_each create_kmalloc_cache (zip kmalloc_names kmalloc_sizes) s1 = Inr s'" "booting 12 s'"
    by (auto simp: kmalloc_sizes_def kmalloc_names_def)
  have "slab_init s = Inr s'" using nz s'(1) by (simp add: slab_init_def cache_setup_eq s1_def)
  moreover have "kmalloc_ready s'" using s'(2) by (simp add: booting_def kmalloc_ready_def kmalloc_sizes_def)
  moreover from this have "length (kmalloc_caches s') = 12"
    using list_all2_lengthD unfolding kmalloc_ready_def kmalloc_sizes_def by fastforce
  ultimately show ?thesis using s'(2) by (simp add: booting_def)
qed

section \<open>kmalloc\<close>

lemma size_class_first:
  assumes "list_all2 P zs cs" "\<exists>z\<in>set zs. sz \<le> z"
  shows "\<exists>z c. size_class sz zs cs = Some c \<and> P z c \<and> z \<in> set zs \<and> sz \<le> z \<and> (sorted zs \<longrightarrow> (\<forall>y\<in>set zs. sz \<le> y \<longrightarrow> z \<le> y))"
  using assms by (induction zs cs rule: list_all2_induct) auto

lemma kmalloc_class:
  assumes "kmalloc_ready s" "sz \<le> KMALLOC_MAX"
  obtains c where "size_class sz kmalloc_sizes (kmalloc_caches s) = Some c" "c \<in> set (cache_list s)" "sz \<le> c_size (caches s c)"
    "\<forall>y\<in>set kmalloc_sizes. sz \<le> y \<longrightarrow> c_size (caches s c) \<le> y"
proof -
  have "\<exists>z\<in>set kmalloc_sizes. sz \<le> z" using assms(2) by (auto simp: kmalloc_sizes_def)
  moreover have "sorted kmalloc_sizes" by (simp add: kmalloc_sizes_def)
  ultimately show thesis using size_class_first[OF assms(1)[unfolded kmalloc_ready_def], of sz] that by blast
qed

lemma kfree_live:
  assumes inv: "slab_inv s" and c: "c \<in> set (cache_list s)" and x: "x \<in> live c s"
  shows "kfree (at x) s = kmem_cache_free c (at x) s"
proof -
  obtain h xs where h: "h \<in> set (slabs (caches s c))" "x \<in> span (4096 * h) (nobj (caches s c) * stride (caches s c))"
    using live_slab[OF inv c x] .
  have lt: "x < DIRECT_MAP" by (rule live_used(2)[OF inv c x])
  have "at x \<noteq> 0" "\<not> at x < HHDM_BASE" "\<not> VMALLOC_START \<le> at x"
    using lt by (simp_all add: at_nonzero word_less_nat_alt word_le_nat_alt unat_at)
  then show ?thesis using object_page(1)[OF inv c h] by (simp add: kfree_def Let_def marked_def)
qed

text \<open>Blocks that go from the page allocator to other users, and back, do not disturb the caches.\<close>

lemma grown_heap:
  assumes inv: "slab_inv s" and g: "grown s s'" and k: "caches s' = caches s"
  shows "slab_inv s'" "live_objects s' = live_objects s" "b \<in> live_objects s \<Longrightarrow> object_bytes s' b = object_bytes s b"
proof -
  have i: "pmm_inv s" "pmm_inv s'" "cache_list s' = cache_list s" using inv g by (simp_all add: slab_inv_def grown_def)
  have ok: "cache_ok c s' \<and> live c s' = live c s" if c: "c \<in> set (cache_list s)" for c
  proof -
    have "untouched s s' h (c_order (caches s c))" if h: "h \<in> set (slabs (caches s c))" for h
      using slab_of_cache[OF inv c h] slab_okD(1) grown_untouched[OF i(1) g] by metis
    from cache_untouched[OF i(1,2) slab_invD(2)[OF inv c] _ this] k show ?thesis by simp
  qed
  then show "slab_inv s'" using inv i by (simp add: slab_inv_def)
  show "live_objects s' = live_objects s" using ok i(3) by (auto simp: live_objects_def)
  show "object_bytes s' b = object_bytes s b" if m: "b \<in> live_objects s"
  proof -
    obtain c x where b: "b = (c, at x)" "c \<in> set (cache_list s)" "x \<in> live c s" using m by (auto simp: live_objects_def)
    have "same_bytes (span x (stride (caches s c))) (kmem s) (kmem s')"
      using g live_used(1)[OF inv b(2,3)] by (auto simp: grown_def intro: same_bytes_mono)
    then show ?thesis using object_bytes_eq[of s' c s x] k b(1) by simp
  qed
qed

lemma gave_heap:
  fixes s :: "'a slab_scheme"
  assumes inv: "slab_inv s" and g: "gave p order s s'"
    and apart: "\<And>c h. c \<in> set (cache_list s) \<Longrightarrow> h \<in> set (slabs (caches s c)) \<Longrightarrow>
      block h (c_order (caches s c)) \<inter> block p order = {}"
  shows "slab_inv s'" "live_objects s' = live_objects s"
proof -
  have G: "pmm_inv s'" "pmm.more s' = pmm.more s" "kmem s' = kmem s"
    "\<And>q. q \<notin> free_frames s \<union> block p order \<Longrightarrow> mem_map s' q = mem_map s q" using g by (simp_all add: gave_def)
  note k = slab_more[OF G(2)]
  have i: "pmm_inv s" using inv by (simp add: slab_inv_def)
  have ok: "cache_ok c s' \<and> live c s' = live c s" if c: "c \<in> set (cache_list s)" for c
  proof -
    have "untouched s s' h (c_order (caches s c))" if h: "h \<in> set (slabs (caches s c))" for h
    proof -
      obtain xs where xs: "slab_ok c s h xs" using slab_of_cache[OF inv c h] .
      note al = slab_okD(1)[OF xs] and d = apart[OF c h]
      then have "block h (c_order (caches s c)) \<inter> (free_frames s \<union> block p order) = {}" unfolding allocated_def by blast
      then show ?thesis using G(4) gave_keeps[OF g al d] unfolding untouched_def G(3) by (auto simp del: block_iff)
    qed
    from cache_untouched[OF i G(1) slab_invD(2)[OF inv c] _ this] k(1) show ?thesis by simp
  qed
  then show "slab_inv s'" using inv G(1) k(2) by (simp add: slab_inv_def)
  show "live_objects s' = live_objects s" using ok k(2) by (auto simp: live_objects_def)
qed

text \<open>The page allocator never sets the slab flag of a page.\<close>

lemma split_block_slab_flag:
  "has_flag (pg_flags (mem_map (split_block zi p ord order s) q)) PG_SLAB = has_flag (pg_flags (mem_map s q)) PG_SLAB"
  by (induction zi p ord order s rule: split_block.induct) (auto simp: add_free_def flag_simps)

lemma buddy_alloc_slab_flag:
  "has_flag (pg_flags (mem_map (snd (buddy_alloc_from zi ord order s)) q)) PG_SLAB = has_flag (pg_flags (mem_map s q)) PG_SLAB"
proof (induction zi ord order s rule: buddy_alloc_from.induct)
  case (1 zi ord order s)
  then show ?case
    by (subst buddy_alloc_from.simps) (auto split: list.splits simp: split_block_slab_flag del_free_def flag_simps)
qed

lemma alloc_zones_slab_flag:
  "has_flag (pg_flags (mem_map (snd (alloc_zones zi order gf s)) q)) PG_SLAB = has_flag (pg_flags (mem_map s q)) PG_SLAB"
proof (induction zi arbitrary: s)
  case (0 s)
  obtain r s1 where b: "buddy_alloc 0 order s = (r, s1)" by (cases "buddy_alloc 0 order s")
  have "has_flag (pg_flags (mem_map s1 q)) PG_SLAB = has_flag (pg_flags (mem_map s q)) PG_SLAB"
    using buddy_alloc_slab_flag[of 0 order order s q] b by (simp add: buddy_alloc_def)
  then show ?case by (subst alloc_zones.simps) (cases r; auto simp: b Let_def flag_simps)
next
  case (Suc zi s)
  obtain r s1 where b: "buddy_alloc (Suc zi) order s = (r, s1)" by (cases "buddy_alloc (Suc zi) order s")
  have "has_flag (pg_flags (mem_map s1 q)) PG_SLAB = has_flag (pg_flags (mem_map s q)) PG_SLAB"
    using buddy_alloc_slab_flag[of "Suc zi" order order s q] b by (simp add: buddy_alloc_def)
  then show ?case using Suc[of s1] by (subst alloc_zones.simps) (cases r; auto simp: b Let_def flag_simps)
qed

lemma alloc_pages_slab_flag:
  "alloc_pages order gf s = (r, s') \<Longrightarrow>
     has_flag (pg_flags (mem_map s' q)) PG_SLAB = has_flag (pg_flags (mem_map s q)) PG_SLAB"
  using alloc_zones_slab_flag[of _ order gf s q] by (auto simp: alloc_pages_def split: if_splits) (metis snd_conv)+

text \<open>Memory handed to a caller: aligned, not free, and disjoint from every object that was live.\<close>

definition handed :: "nat \<Rightarrow> nat \<Rightarrow> 'a slab_scheme \<Rightarrow> 'a slab_scheme \<Rightarrow> bool" where
  "handed x n s s' \<longleftrightarrow> x + n \<le> DIRECT_MAP \<and> 8 dvd x \<and> span x n \<subseteq> used_bytes s' \<and>
     (\<forall>c\<in>set (cache_list s). \<forall>y\<in>live c s. span x n \<inter> span y (stride (caches s c)) = {})"

lemma obtained_handed:
  assumes inv: "slab_inv s" and c: "c \<in> set (cache_list s)" and o: "obtained c x s s'" and n: "n \<le> stride (caches s c)"
  shows "handed x n s s'"
proof -
  have O: "slab_inv s'" "cache_list s' = cache_list s" "same_geometry (caches s c) (caches s' c)"
    "\<And>c'. c' \<noteq> c \<Longrightarrow> caches s' c' = caches s c'" "live c s' = insert x (live c s)" "x \<notin> live c s"
    "\<And>c'. c' \<in> set (cache_list s) \<Longrightarrow> c' \<noteq> c \<Longrightarrow> live c' s' = live c' s" "x + stride (caches s c) \<le> DIRECT_MAP" "8 dvd x"
    using o by (simp_all add: obtained_def Let_def)
  have st: "stride (caches s' c') = stride (caches s c')" for c'
    using O(3,4) by (cases "c' = c") (simp_all add: same_geometry_def)
  have x: "x \<in> live c s'" and c': "c \<in> set (cache_list s')" using O(2,5) c by simp_all
  have sub: "span x n \<subseteq> span x (stride (caches s c))" using n by auto
  have "span x n \<inter> span y (stride (caches s c'')) = {}" if "c'' \<in> set (cache_list s)" "y \<in> live c'' s" for c'' y
  proof -
    have "y \<in> live c'' s'" "(c, x) \<noteq> (c'', y)" using that O(5-7) by (cases "c'' = c"; auto)+
    from live_apart[OF O(1) c' _ x this] that(1) O(2) st sub show ?thesis by auto
  qed
  then show ?thesis using live_used(1)[OF O(1) c' x] st sub n O(8,9) by (auto simp: handed_def)
qed

lemma kmalloc_small:
  assumes inv: "slab_inv s" and ready: "kmalloc_ready s" and sz: "sz \<noteq> 0" "sz \<le> KMALLOC_MAX"
  shows "\<exists>a s'. kmalloc sz s = Inr (a, s') \<and> slab_inv s' \<and> (a = 0 \<and> s' = s \<or>
    (\<exists>x. a = at x \<and> handed x (unat sz) s s' \<and> (\<forall>b\<in>live_objects s. object_bytes s' b = object_bytes s b) \<and>
       (\<exists>s''. kfree a s' = Inr s'' \<and> slab_inv s'' \<and> live_objects s'' = live_objects s)))"
proof -
  obtain c where c: "size_class sz kmalloc_sizes (kmalloc_caches s) = Some c" "c \<in> set (cache_list s)" "sz \<le> c_size (caches s c)"
    using kmalloc_class[OF ready sz(2)] .
  have eq: "kmalloc sz s = kmem_cache_alloc c s" using sz c(1) by (simp add: kmalloc_def)
  have n: "unat sz \<le> stride (caches s c)"
    using c(3) slab_invD(4)[OF inv c(2)] by (auto simp: geometry_def word_le_nat_alt)
  show ?thesis using inv c(2)
  proof (cases rule: kmem_cache_alloc_cases)
    case none
    then show ?thesis using inv eq by auto
  next
    case (some x s1)
    note O = obtained_interface[OF inv c(2) some(2)]
    have c1: "c \<in> set (cache_list s1)" using O(2) c(2) by simp
    obtain y where y: "at x = at y" "y \<in> live c s1" "\<not> looks_free y s1" "redzone_ok (stride (caches s1 c)) y (kmem s1)"
      using O(6) by (auto simp: undamaged_def)
    obtain s2 where f: "kmem_cache_free c (at y) s1 = Inr s2" "released c y s1 s2"
      using kmem_cache_free_live[OF O(1) c1 y(2)] y(3,4) by (auto simp: looks_free_def)
    have "kfree (at x) s1 = Inr s2" using kfree_live[OF O(1) c1 y(2)] f(1) y(1) by simp
    moreover have "slab_inv s2" "live_objects s2 = live_objects s"
      using released_interface[OF O(1) c1 f(2) y(2)] O(4,5) y(1) by auto
    ultimately show ?thesis using some(1) eq O(1,7) obtained_handed[OF inv c(2) some(2) n] by auto
  qed
qed

lemma kmalloc_large_state:
  fixes s :: "'a slab_scheme"
  assumes inv: "slab_inv s" and a: "alloc_pages order 0 s = (Some p, s1)"
    and s': "s' = (upd_page p (\<lambda>pg. pg\<lparr>pg_inuse := n\<rparr>) s1)\<lparr>large_pages := lp, large_bytes := lb, large_allocs := la\<rparr>"
  shows "grown s s'" "caches s' = caches s" "allocated s' p order" "block p order \<subseteq> free_frames s"
    "free_frames s' = free_frames s - block p order" "has_flag (pg_flags (mem_map s' p)) PG_SLAB = has_flag (pg_flags (mem_map s p)) PG_SLAB"
proof -
  have i: "pmm_inv s" using inv by (simp add: slab_inv_def)
  have t: "took (pfn_zone p) p order 0 s s1" by (rule alloc_pages_took(1)[OF i a])
  then have T: "pmm_inv s1" "allocated s1 p order" "block p order \<subseteq> free_frames s" "free_frames s1 = free_frames s - block p order"
    "pmm.more s1 = pmm.more s" "\<And>q. q \<notin> free_frames s \<Longrightarrow> mem_map s1 q = mem_map s q" "kmem s1 = kmem s"
    by (simp_all add: took_def)
  note k = slab_more[OF T(5)]
  have u: "caches (upd_page p f s1) = caches s" "cache_list (upd_page p f s1) = cache_list s"
    "kmalloc_caches (upd_page p f s1) = kmalloc_caches s" for f by (simp_all add: upd_page_def k)
  have q: "quiet s1 s'" by (simp add: quiet_def s')
  show "caches s' = caches s" by (simp add: s' u)
  show "allocated s' p order" using T(2) quiet_allocated(2)[OF q] by simp
  show "block p order \<subseteq> free_frames s" by (rule T(3))
  show ff: "free_frames s' = free_frames s - block p order" using T(4) quiet_allocated(1)[OF q] by simp
  show "has_flag (pg_flags (mem_map s' p)) PG_SLAB = has_flag (pg_flags (mem_map s p)) PG_SLAB"
    using alloc_pages_slab_flag[OF a, of p] by (simp add: s')
  have "p \<in> free_frames s" using T(3) block_head by blast
  then have "mem_map s' q = mem_map s q" if "q \<notin> free_frames s" for q using that T(6) by (auto simp: s')
  then show "grown s s'"
    using quiet_pmm_inv[OF q T(1)] ff took_keeps[OF t] quiet_allocated(2)[OF q] u T(7) by (auto simp: grown_def s')
qed

lemma page_span:
  assumes "pmm_inv s" "allocated s p order"
  shows "page_to_virt p = at (4096 * p)" "4096 * p + 4096 * 2 ^ order \<le> DIRECT_MAP"
proof -
  show "page_to_virt p = at (4096 * p)" by (rule page_to_virt_at[OF slab_bytes_map(3)[OF assms]])
  show "4096 * p + 4096 * 2 ^ order \<le> DIRECT_MAP"
    using mult_le_mono2[OF slab_bytes_map(2)[OF assms], of 4096] by (simp add: algebra_simps)
qed

lemma large_counters:
  "slab_inv (s\<lparr>large_pages := a, large_bytes := b, large_frees := d\<rparr>) = slab_inv s"
  "live c (s\<lparr>large_pages := a, large_bytes := b, large_frees := d\<rparr>) = live c s"
  by (simp_all add: slab_inv_def pmm_inv_def zone_inv_def free_frames_def cache_ok_def base_ok_def classified_def
      slab_ok_def marked_def allocated_def in_zone_def live_def live_in_def Let_def)

lemma kmalloc_big:
  fixes s :: "'a slab_scheme"
  assumes inv: "slab_inv s" and clean: "\<forall>q\<in>free_frames s. \<not> has_flag (pg_flags (mem_map s q)) PG_SLAB"
    and sz: "\<not> sz \<le> KMALLOC_MAX" "unat sz + 4095 < 2 ^ 64"
  shows "\<exists>a s'. kmalloc sz s = Inr (a, s') \<and> slab_inv s' \<and> (a = 0 \<and> s' = s \<or>
    (\<exists>x. a = at x \<and> handed x (unat sz) s s' \<and> (\<forall>b\<in>live_objects s. object_bytes s' b = object_bytes s b) \<and>
       (\<exists>s''. kfree a s' = Inr s'' \<and> slab_inv s'' \<and> live_objects s'' = live_objects s \<and> free_frames s'' = free_frames s)))"
proof -
  define n where "n = (4095 + unat sz) div 4096"
  define order where "order = pages_to_order n"
  have "unat (4095 + sz) = 4095 + unat sz" using sz(2) by (subst unat_add_no_wrap) simp_all
  then have n: "unat ((sz + PAGE_SIZE - 1) div PAGE_SIZE) = n" by (simp add: unat_div n_def)
  have "sz \<noteq> 0" using sz(1) by auto
  then have eq: "kmalloc sz s = Inr (kmalloc_large sz s)" using sz(1) by (simp add: kmalloc_def)
  obtain r s1 where a: "alloc_pages order 0 s = (r, s1)" by (cases "alloc_pages order 0 s")
  have i: "pmm_inv s" using inv by (simp add: slab_inv_def)
  show ?thesis
  proof (cases r)
    case None
    have "s1 = s" using alloc_pages_None(1)[OF i] a None by simp
    then have "kmalloc sz s = Inr (0, s)" using a None unfolding eq kmalloc_large_def n order_def[symmetric] Let_def by simp
    then show ?thesis using inv by auto
  next
    case (Some p)
    obtain s' where ev: "kmalloc sz s = Inr (page_to_virt p, s')" and s': "\<exists>m lp lb la. s' =
        (upd_page p (\<lambda>pg. pg\<lparr>pg_inuse := m\<rparr>) s1)\<lparr>large_pages := lp, large_bytes := lb, large_allocs := la\<rparr>"
      using a Some unfolding eq kmalloc_large_def n order_def[symmetric] Let_def by auto
    then obtain m lp lb la where s'': "s' = (upd_page p (\<lambda>pg. pg\<lparr>pg_inuse := m\<rparr>) s1)\<lparr>large_pages := lp, large_bytes := lb, large_allocs := la\<rparr>"
      by blast
    note L = kmalloc_large_state[OF inv a[unfolded Some] s''] and H = grown_heap[OF inv L(1,2)]
    have i': "pmm_inv s'" using L(1) by (simp add: grown_def)
    note P = page_span[OF i' L(3)]
    have "unat sz \<le> 4096 * n" unfolding n_def by linarith
    moreover have "n \<le> 2 ^ order" using pages_to_order_from_least[of 0 n] by (simp add: order_def pages_to_order_def)
    ultimately have fit: "unat sz \<le> 4096 * 2 ^ order" by (meson le_trans mult_le_mono2)
    have sub: "span (4096 * p) (unat sz) \<subseteq> slab_bytes p order" using fit by (auto simp: slab_bytes_def)
    have "slab_bytes p order \<inter> used_bytes s = {}"
      using L(4) slab_bytes_frame unfolding used_bytes_def by blast
    then have "span (4096 * p) (unat sz) \<inter> span y (stride (caches s c)) = {}" if "c \<in> set (cache_list s)" "y \<in> live c s" for c y
      using sub live_used(1)[OF inv that] by blast
    moreover have "slab_bytes p order \<subseteq> used_bytes s'"
      using slab_bytes_map(1)[OF i' L(3)] slab_bytes_frame L(5) unfolding used_bytes_def by blast
    moreover have "(8::nat) dvd 4096 * p" by (rule dvd_mult2) simp
    moreover have "4096 * p + unat sz \<le> DIRECT_MAP" using P(2) fit by linarith
    ultimately have h: "handed (4096 * p) (unat sz) s s'" unfolding handed_def using sub by blast
    let ?t = "s'\<lparr>large_pages := large_pages s' - push_bit order 1, large_bytes := large_bytes s' - push_bit order PAGE_SIZE,
      large_frees := large_frees s' + 1\<rparr>"
    have qt: "quiet s' ?t" by (simp add: quiet_def)
    have "(0::nat) < 2 ^ order" by simp
    then have "4096 * p < DIRECT_MAP" using P(2) by linarith
    then have at: "at (4096 * p) \<noteq> 0" "\<not> at (4096 * p) < HHDM_BASE" "\<not> VMALLOC_START \<le> at (4096 * p)"
      "virt_to_page (at (4096 * p)) = p" "at (4096 * p) AND (PAGE_SIZE - 1) = 0"
      using is_aligned_page[of "at (4096 * p)"]
      by (simp_all add: at_nonzero word_less_nat_alt word_le_nat_alt unat_at virt_to_page_at is_aligned_def)
    have "p \<in> free_frames s" using L(4) block_head by blast
    then have fl: "\<not> has_flag (pg_flags (mem_map s' p)) PG_SLAB" "has_flag (pg_flags (mem_map s' p)) PG_HEAD" "pg_order (mem_map s' p) = order"
      using clean L(3,6) by (auto simp: allocated_def)
    have al: "allocated ?t p order" using L(3) quiet_allocated(2)[OF qt] by simp
    obtain u where u: "free_pages p order ?t = Inr u" "gave p order ?t u" using free_pages_gave[OF quiet_pmm_inv[OF qt i'] al] by blast
    have kf: "kfree (page_to_virt p) s' = Inr u" using at fl u(1) by (simp add: kfree_def P(1) Let_def)
    have cl: "cache_list ?t = cache_list s" "caches ?t = caches s" using L(1,2) by (simp_all add: grown_def)
    have apart: "block h (c_order (caches ?t c)) \<inter> block p order = {}" if m: "c \<in> set (cache_list ?t)" "h \<in> set (slabs (caches ?t c))" for c h
    proof -
      have "c \<in> set (cache_list s)" "h \<in> set (slabs (caches s c))" using m cl by simp_all
      then obtain xs where "slab_ok c s h xs" by (rule slab_of_cache[OF inv])
      from slab_okD(1)[OF this] have "block h (c_order (caches s c)) \<inter> free_frames s = {}" by (simp add: allocated_def)
      then show ?thesis using L(4) cl by auto
    qed
    have ti: "slab_inv ?t" using H(1) by (simp add: large_counters)
    note V = gave_heap[OF ti u(2) apart]
    have "live_objects ?t = live_objects s'" by (simp add: live_objects_def large_counters)
    moreover have "free_frames u = free_frames s"
      using u(2) L(4,5) quiet_allocated(1)[OF qt] by (auto simp: gave_def)
    ultimately show ?thesis using ev kf V H h P(1) by auto
  qed
qed

text \<open>
  \<^verbatim>\<open>kmalloc\<close> and \<^verbatim>\<open>kfree\<close>. For every size that does not overflow when it is rounded up to pages, \<^verbatim>\<open>kmalloc\<close>
  returns NULL with the heap unchanged, or an 8-byte aligned address of that many bytes, which belong to no free
  frame and to no live object; all live objects keep their bytes; and \<^verbatim>\<open>kfree\<close> of the address succeeds and gives
  the same live objects (and, for sizes beyond 8192 bytes, the same free frames) as before.
\<close>

theorem kmalloc_kfree:
  assumes "slab_inv s" and "kmalloc_ready s" and "\<forall>q\<in>free_frames s. \<not> has_flag (pg_flags (mem_map s q)) PG_SLAB"
    and "sz \<noteq> 0" and "unat sz + 4095 < 2 ^ 64"
  shows "\<exists>a s'. kmalloc sz s = Inr (a, s') \<and> slab_inv s' \<and> (a = 0 \<and> s' = s \<or>
    (\<exists>x. a = at x \<and> handed x (unat sz) s s' \<and> (\<forall>b\<in>live_objects s. object_bytes s' b = object_bytes s b) \<and>
       (\<exists>s''. kfree a s' = Inr s'' \<and> slab_inv s'' \<and> live_objects s'' = live_objects s \<and>
          (KMALLOC_MAX < sz \<longrightarrow> free_frames s'' = free_frames s))))"
proof (cases "sz \<le> KMALLOC_MAX")
  case True
  then show ?thesis using kmalloc_small[OF assms(1,2,4) True] by (simp add: not_less[symmetric])
next
  case False
  then show ?thesis using kmalloc_big[OF assms(1,3) False assms(5)] by blast
qed

text \<open>A size in the last page below \<open>2 ^ 64\<close> overflows the rounding and yields a single page.\<close>

lemma kmalloc_wraps:
  assumes "2 ^ 64 \<le> unat sz + 4095"
  shows "kmalloc sz s = Inr (kmalloc_large sz s)"
    "fst (kmalloc_large sz s) = (case alloc_pages 0 0 s of (None, _) \<Rightarrow> 0 | (Some p, _) \<Rightarrow> page_to_virt p)"
proof -
  have big: "\<not> sz \<le> KMALLOC_MAX" "sz \<noteq> 0" using assms by (auto simp: word_le_nat_alt)
  then show "kmalloc sz s = Inr (kmalloc_large sz s)" by (simp add: kmalloc_def)
  have "unat (4095 + sz) = (4095 + unat sz) mod 2 ^ 64" by (simp only: unat_word_ariths) simp
  also have "\<dots> = 4095 + unat sz - 2 ^ 64" using assms unat_lt_64[of sz] by (subst le_mod_geq) simp_all
  finally have "unat (4095 + sz) < 4096" using assms unat_lt_64[of sz] by linarith
  then have "unat ((sz + PAGE_SIZE - 1) div PAGE_SIZE) = 0" by (simp add: unat_div)
  moreover have "pages_to_order 0 = 0" using pages_to_order_le[of 0 0] by simp
  ultimately show "fst (kmalloc_large sz s) = (case alloc_pages 0 0 s of (None, _) \<Rightarrow> 0 | (Some p, _) \<Rightarrow> page_to_virt p)"
    by (simp add: kmalloc_large_def Let_def split: prod.splits option.splits)
qed

section \<open>A small heap\<close>

lemma buddy_free_slab_flag:
  "has_flag (pg_flags (mem_map (buddy_free zi p order s) q)) PG_SLAB = has_flag (pg_flags (mem_map s q)) PG_SLAB"
proof (induction zi p order s rule: buddy_free.induct)
  case (1 zi p order s)
  have a: "has_flag (pg_flags (mem_map (add_free zi p order s) q)) PG_SLAB = has_flag (pg_flags (mem_map s q)) PG_SLAB"
    by (auto simp: add_free_def flag_simps)
  have d: "has_flag (pg_flags (mem_map (del_free zi b order s) q)) PG_SLAB = has_flag (pg_flags (mem_map s q)) PG_SLAB" for b
    by (auto simp: del_free_def flag_simps)
  show ?case
    by (subst buddy_free.simps) (use "1.IH" a d in \<open>auto simp: Let_def\<close>)
qed

lemma clear_reserved_slab_flag:
  "has_flag (pg_flags (mem_map (clear_reserved start n s) q)) PG_SLAB = has_flag (pg_flags (mem_map s q)) PG_SLAB"
  by (induction n) (auto simp: flag_simps)

lemma free_range_slab_flag:
  "has_flag (pg_flags (mem_map (free_range start stop s) q)) PG_SLAB = has_flag (pg_flags (mem_map s q)) PG_SLAB"
proof (induction start stop s rule: free_range.induct)
  case (1 start stop s)
  then show ?case
    by (subst free_range.simps) (simp add: Let_def buddy_free_slab_flag clear_reserved_slab_flag)
qed

text \<open>Caches that have no slabs yet.\<close>

lemma empty_caches:
  assumes "pmm_inv s" "distinct (cache_list s)"
    "\<And>c. c \<in> set (cache_list s) \<Longrightarrow> \<exists>name sz. caches s c = fresh_cache name sz 8 None \<and> unat sz \<le> 32000"
  shows "slab_inv s" "c \<in> set (cache_list s) \<Longrightarrow> live c s = {}"
proof -
  have "cache_ok c s \<and> live c s = {}" if c: "c \<in> set (cache_list s)" for c
  proof -
    obtain name sz where k: "caches s c = fresh_cache name sz 8 None" "unat sz \<le> 32000" using assms(3)[OF c] by blast
    have "geometry (fresh_cache name sz 8 None)"
      by (rule fresh_geometry[of 8 3]) (use k(2) fresh_fits[OF k(2)] no_ctor_local in simp_all)
    moreover have "slabs (fresh_cache name sz 8 None) = []" by (simp add: fresh_cache_def slabs_def Let_def)
    ultimately show ?thesis
      by (simp add: cache_ok_def base_ok_def classified_def live_def k(1) Let_def) (simp add: fresh_cache_def Let_def)
  qed
  then show "slab_inv s" "c \<in> set (cache_list s) \<Longrightarrow> live c s = {}" using assms(1,2) by (simp_all add: slab_inv_def)
qed

text \<open>Sixty-four frames, 16 to 31 of them free, and the twelve caches at the addresses 1 to 12.\<close>

definition small_caches :: "nat \<Rightarrow> kmem_cache" where
  "small_caches c = fresh_cache ''kmalloc'' (if 1 \<le> c \<and> c \<le> 12 then kmalloc_sizes ! (c - 1) else 16) 8 None"

definition cold_heap :: slab where
  "cold_heap = pmm.extend (free_range 16 32 (boot_pmm 64 (\<lambda>_. 0)))
     \<lparr>caches = small_caches, cache_list = [], kmalloc_caches = [], large_pages = 0, large_bytes = 0,
      large_allocs = 0, large_frees = 0\<rparr>"

definition small_heap :: slab where
  "small_heap = cold_heap\<lparr>cache_list := [1..<13], kmalloc_caches := [1..<13]\<rparr>"

lemma cold_heap_simps:
  "pmm_inv cold_heap" "free_frames cold_heap = {16..<32}" "cache_list cold_heap = []" "kmalloc_caches cold_heap = []"
  "\<not> has_flag (pg_flags (mem_map cold_heap q)) PG_SLAB"
proof -
  have b: "max_pfn (boot_pmm 64 (\<lambda>_. 0)) = 64" by (simp add: boot_pmm_def)
  note f = free_range_ok[OF boot_pmm_inv(1), of 64 32 "\<lambda>_. 0" 16]
  show "pmm_inv cold_heap" "free_frames cold_heap = {16..<32}"
    using f boot_pmm_inv(2)[of 64 "\<lambda>_. 0"] b by (simp_all add: cold_heap_def)
  show "cache_list cold_heap = []" "kmalloc_caches cold_heap = []" by (simp_all add: cold_heap_def pmm.defs)
  show "\<not> has_flag (pg_flags (mem_map cold_heap q)) PG_SLAB"
    by (simp add: cold_heap_def free_range_slab_flag) (simp add: boot_pmm_def boot_page_def has_flag_def PG_RESERVED_def PG_SLAB_def)
qed

lemma small_heap_simps:
  "pmm_inv small_heap" "free_frames small_heap = {16..<32}" "cache_list small_heap = [1..<13]"
  "\<not> has_flag (pg_flags (mem_map small_heap q)) PG_SLAB" "caches small_heap = small_caches"
proof -
  have q: "quiet cold_heap small_heap" by (simp add: quiet_def small_heap_def)
  show "pmm_inv small_heap" by (rule quiet_pmm_inv[OF q cold_heap_simps(1)])
  show "free_frames small_heap = {16..<32}" using quiet_allocated(1)[OF q] cold_heap_simps(2) by simp
  show "cache_list small_heap = [1..<13]" "\<not> has_flag (pg_flags (mem_map small_heap q)) PG_SLAB"
    using cold_heap_simps(5)[of q] by (simp_all add: small_heap_def)
  show "caches small_heap = small_caches" by (simp add: small_heap_def cold_heap_def pmm.defs)
qed

lemma small_heap_inv: "slab_inv small_heap" "c \<in> {1..<13} \<Longrightarrow> live c small_heap = {}" "heap_inv small_heap"
proof -
  have k: "\<exists>name sz. caches small_heap c = fresh_cache name sz 8 None \<and> unat sz \<le> 32000" if "c \<in> set (cache_list small_heap)" for c
  proof -
    have "kmalloc_sizes ! (c - 1) \<in> set kmalloc_sizes" if "1 \<le> c \<and> c \<le> 12"
      using that by (intro nth_mem) (auto simp: kmalloc_sizes_def)
    moreover have "unat z \<le> 32000" if "z \<in> set kmalloc_sizes" for z using that by (auto simp: kmalloc_sizes_def)
    ultimately have "unat (if 1 \<le> c \<and> c \<le> 12 then kmalloc_sizes ! (c - 1) else 16) \<le> 32000" by simp
    then show ?thesis unfolding small_heap_simps(5) small_caches_def by blast
  qed
  have d: "distinct (cache_list small_heap)" by (simp add: small_heap_simps(3))
  note E = empty_caches[OF small_heap_simps(1) d k]
  show inv: "slab_inv small_heap" by (rule E(1))
  show lv: "c \<in> {1..<13} \<Longrightarrow> live c small_heap = {}" for c using E(2) by (simp add: small_heap_simps(3))
  show "heap_inv small_heap" using inv lv by (auto simp: heap_inv_def small_heap_simps(3))
qed

lemma small_heap_ready: "kmalloc_ready small_heap"
proof -
  have "kmalloc_caches small_heap = [1..<13]" by (simp add: small_heap_def)
  moreover have "list_all2 (\<lambda>z c. c \<in> set (cache_list small_heap) \<and> c_size (caches small_heap c) = z) kmalloc_sizes [1..<13]"
    unfolding list_all2_conv_all_nth
    by (auto simp: kmalloc_sizes_def small_heap_simps small_caches_def fresh_cache_def Let_def)
  ultimately show ?thesis by (simp add: kmalloc_ready_def)
qed

theorem slab_init_correct_witness:
  "\<exists>s'. slab_init cold_heap = Inr s' \<and> slab_inv s' \<and> kmalloc_ready s' \<and> registered s' \<and> length (kmalloc_caches s') = 12"
  by (rule slab_init_correct) (simp_all add: cold_heap_simps)

theorem kmalloc_kfree_witness:
  "\<exists>a s'. kmalloc 10000 small_heap = Inr (a, s') \<and> slab_inv s' \<and> (a = 0 \<and> s' = small_heap \<or>
    (\<exists>x s''. a = at x \<and> handed x 10000 small_heap s' \<and> kfree a s' = Inr s'' \<and> free_frames s'' = {16..<32}))"
  using kmalloc_kfree[OF small_heap_inv(1) small_heap_ready, of 10000] small_heap_simps(2,4) by auto

theorem objects_any_order_witness:
  "\<exists>bs s' s''. alloc_each kmem_cache_alloc [1, 12, 1] small_heap = Inr (bs, s') \<and> distinct bs \<and>
     live_objects s' = set bs \<and> release_each kmem_cache_free (rev bs) s' = Inr s'' \<and> live_objects s'' = {}"
proof -
  have e: "live_objects small_heap = {}" using small_heap_inv(2) by (auto simp: live_objects_def small_heap_simps(3))
  have "set [1, 12, 1] \<subseteq> set (cache_list small_heap)" by (simp add: small_heap_simps(3))
  from objects_any_order[OF small_heap_inv(1) this] e obtain bs s' where
    a: "alloc_each kmem_cache_alloc [1, 12, 1] small_heap = Inr (bs, s')" "distinct bs" "live_objects s' = set bs"
    and r: "\<forall>ds. mset ds = mset bs \<longrightarrow> (\<exists>s''. release_each kmem_cache_free ds s' = Inr s'' \<and> slab_inv s'' \<and> live_objects s'' = {})"
    by (simp del: alloc_each.simps) blast
  have "mset (rev bs) = mset bs" by simp
  with r a show ?thesis by blast
qed

lemma small_heap_object:
  assumes "c \<in> {1..<13}"
  shows "\<exists>x s. kmem_cache_alloc c small_heap = Inr (at x, s) \<and> obtained c x small_heap s"
proof -
  have c: "c \<in> set (cache_list small_heap)" using assms by (simp add: small_heap_simps(3))
  have o: "c_order (caches small_heap c) \<le> 3" using slab_invD(4)[OF small_heap_inv(1) c] by (simp add: geometry_def)
  have r: "runs_free small_heap 0 (c_order (caches small_heap c)) 16"
  proof -
    have "c_order (caches small_heap c) \<in> {0, 1, 2, 3}" using o by auto
    then show ?thesis by (auto simp: runs_free_def small_heap_simps(2) pfn_zone_def)
  qed
  show ?thesis using small_heap_inv(1) c
    by (cases rule: kmem_cache_alloc_cases) (use r in auto)
qed



text \<open>A client that fills bytes of its object.\<close>

lemma heap_fill:
  assumes "c \<in> set (cache_list s)" "x \<in> live c s" "o' + n \<le> unat (c_size (caches s c))" "heap_inv s"
  shows "\<exists>s'. heap_step\<^sup>*\<^sup>* s s' \<and> cache_list s' = cache_list s \<and> live c s' = live c s \<and> caches s' = caches s \<and>
    (\<forall>i<n. kmem s' (at (x + o' + i)) = b i)"
  using assms(3)
proof (induction n)
  case (Suc n)
  then obtain s' where s': "heap_step\<^sup>*\<^sup>* s s'" "cache_list s' = cache_list s" "live c s' = live c s" "caches s' = caches s"
    "\<forall>i<n. kmem s' (at (x + o' + i)) = b i" by auto
  let ?s = "set_byte (x + (o' + n)) (b n) s'"
  have inv: "heap_inv s'" using s'(1) assms(4) by (induction rule: rtranclp_induct) (simp_all add: heap_step_inv)
  then have si: "slab_inv s'" by (simp add: heap_inv_def)
  have c: "c \<in> set (cache_list s')" "x \<in> live c s'" using assms(1,2) s'(2,3) by simp_all
  have st: "heap_step s' ?s" by (rule heap_use[OF c]) (use Suc.prems s'(4) in simp)
  have sz: "unat (c_size (caches s' c)) + 8 \<le> stride (caches s' c)" using slab_invD(4)[OF si c(1)] by (simp add: geometry_def)
  have y: "x + (o' + n) \<in> span x (stride (caches s' c))" using Suc.prems sz s'(4) by simp
  have lt: "x + stride (caches s' c) \<le> DIRECT_MAP"
    using live_slab[OF si c] slab_objs_map(1)[OF slab_invD(1)[OF si c(1)] _ slab_invD(4)[OF si c(1)]] by metis
  have "kmem ?s (at (x + o' + i)) = b i" if "i < Suc n" for i
    using that s'(5) lt y by (cases "i = n") (auto simp: at_eq add.assoc)
  moreover have "heap_step\<^sup>*\<^sup>* s ?s" using s'(1) st by (rule rtranclp.rtrancl_into_rtrancl)
  moreover have "live c ?s = live c s" using set_byte_inv(2)[OF si c y c(1)] s'(3) by simp
  ultimately show ?case using s'(2,4) by (intro exI[of _ ?s]) simp
qed auto

theorem heap_panics_only_on_mark_witness:
  "\<exists>(s :: slab) s1 s2 s3 x. heap_step small_heap s \<and> heap_step\<^sup>*\<^sup>* s s1 \<and> heap_step\<^sup>*\<^sup>* s s2 \<and> live 3 s = {x} \<and>
     kmem_cache_free 3 (at x) s1 = Inr s3 \<and> heap_inv s3 \<and> live 3 s3 = {} \<and>
     kmem_cache_free 3 (at x) s2 = Inl Panic_double_free"
proof -
  obtain x s where a: "kmem_cache_alloc 3 small_heap = Inr (at x, s)" and o: "obtained 3 x small_heap s"
    using small_heap_object[of 3] by auto
  have c0: "3 \<in> set (cache_list small_heap)" by (simp add: small_heap_simps(3))
  have st: "heap_step small_heap s" by (rule heap_alloc[OF c0 a])
  have x: "live 3 s = {x}" and c: "3 \<in> set (cache_list s)" and sz: "c_size (caches s 3) = 64"
    using o small_heap_inv(2)[of 3]
    by (simp_all add: obtained_def Let_def small_heap_simps(3,5) same_geometry_def small_caches_def fresh_cache_def kmalloc_sizes_def)
  have inv: "heap_inv s" by (rule heap_step_inv[OF st small_heap_inv(3)])
  have run: "heap_step\<^sup>*\<^sup>* small_heap s'" if "heap_step\<^sup>*\<^sup>* s s'" for s'
    using st that by (rule converse_rtranclp_into_rtranclp)
  have ld: "load_u64 (at (x + 8)) (kmem s') = w" if "\<forall>i<8. kmem s' (at (x + 8 + i)) = le64 w ! i" for w and s' :: slab
    by (rule load_u64_at_word) (use that in \<open>auto simp: le_iff_add\<close>)
  have fill: "\<exists>s'. heap_step\<^sup>*\<^sup>* s s' \<and> 3 \<in> set (cache_list s') \<and> live 3 s' = {x} \<and> looks_free x s' = (w = FREE_MAGIC)" for w
  proof -
    have "x \<in> live 3 s" "8 + 8 \<le> unat (c_size (caches s 3))" using x sz by simp_all
    from heap_fill[OF c this inv, of "\<lambda>i. le64 w ! i"] obtain s' where s': "heap_step\<^sup>*\<^sup>* s s'" "cache_list s' = cache_list s"
      "live 3 s' = live 3 s" "\<forall>i<8. kmem s' (at (x + 8 + i)) = le64 w ! i" by blast
    then show ?thesis using ld[OF s'(4)] x c by (auto simp: looks_free_def)
  qed
  obtain s1 where s1: "heap_step\<^sup>*\<^sup>* s s1" "3 \<in> set (cache_list s1)" "live 3 s1 = {x}" "\<not> looks_free x s1"
    using fill[of 7] by auto
  obtain s2 where s2: "heap_step\<^sup>*\<^sup>* s s2" "3 \<in> set (cache_list s2)" "live 3 s2 = {x}" "looks_free x s2" using fill[of FREE_MAGIC] by auto
  obtain s3 where "kmem_cache_free 3 (at x) s1 = Inr s3" "heap_inv s3" "live 3 s3 = {}"
    using heap_panics_only_on_mark[OF small_heap_inv(3) run[OF s1(1)] s1(2)] s1(3,4)
    by (cases "kmem_cache_free 3 (at x) s1") auto
  moreover have "kmem_cache_free 3 (at x) s2 = Inl Panic_double_free"
    using heap_panics_only_on_mark[OF small_heap_inv(3) run[OF s2(1)] s2(2)] s2(3,4)
    by (cases "kmem_cache_free 3 (at x) s2") auto
  ultimately show ?thesis using st s1(1) s2(1) x by blast
qed

end
