(* ===== verification/Path.thy ===== *)
theory Path
  imports Kprintf
begin

text \<open>
  Path strings of \<^verbatim>\<open>kernel/fs/vfs.c\<close>: cutting a path into its components (\<^verbatim>\<open>next_component\<close>) and bringing it
  into canonical form in a buffer (\<^verbatim>\<open>path_normalize\<close>). A C string is the list of the characters before its
  terminator. The reference definitions split a path at its slashes and keep a stack of names.
\<close>

abbreviation NAME_MAX :: nat where "NAME_MAX \<equiv> 255"
abbreviation PATH_MAX :: nat where "PATH_MAX \<equiv> 1024"
abbreviation slash :: char where "slash \<equiv> CHR ''/''"
abbreviation NUL :: char where "NUL \<equiv> char_of (0::nat)"

section \<open>The code\<close>

text \<open>None is the NULL at the end of the path; a name is followed by the rest of the path.\<close>

definition next_component :: "string \<Rightarrow> (errno + string \<times> string) option" where
  "next_component s =
     (let s = dropWhile (\<lambda>c. c = slash) s in
      if s = [] then None
      else
        (let n = length (takeWhile (\<lambda>c. c \<noteq> slash) s)
         in if n > NAME_MAX then Some (Inl ENAMETOOLONG) else Some (Inr (take n s, drop n s))))"

text \<open>Writing to and reading from the output buffer; outside of it the result is None.\<close>

definition put :: "nat \<Rightarrow> char \<Rightarrow> string \<Rightarrow> string option" where
  "put i c out = (if i < length out then Some (out[i := c]) else None)"

fun put_all :: "nat \<Rightarrow> string \<Rightarrow> string \<Rightarrow> string option" where
  "put_all i [] out = Some out"
| "put_all i (c # cs) out = Option.bind (put i c out) (put_all (Suc i) cs)"

fun pop_to_slash :: "nat \<Rightarrow> string \<Rightarrow> nat option" where
  "pop_to_slash 0 out = Some 0"
| "pop_to_slash (Suc k) out =
     (if k \<ge> length out then None else if out ! k \<noteq> slash then pop_to_slash k out else Some (Suc k))"

lemma component_shorter:
  assumes "t = dropWhile (\<lambda>c. c = slash) s" "t \<noteq> []" "n = length (takeWhile (\<lambda>c. c \<noteq> slash) t)" "e = drop n t"
  shows "length e < length s"
proof -
  have "hd t \<noteq> slash" using assms(1,2) hd_dropWhile by fast
  then have "takeWhile (\<lambda>c. c \<noteq> slash) t \<noteq> []" using assms(2) by (cases t) auto
  then have "0 < n" using assms(3) by blast
  moreover have "length t \<le> length s" "0 < length t"
    using assms(2) length_dropWhile_le[of "\<lambda>c. c = slash" s] unfolding assms(1) by blast+
  ultimately show ?thesis using assms(4) by (simp only: length_drop)
qed

text \<open>The loop of \<^verbatim>\<open>path_normalize\<close>: the rest of the input, the length of the output, the output buffer.\<close>

function normalize_loop :: "string \<Rightarrow> nat \<Rightarrow> string \<Rightarrow> ((errno + nat) \<times> string) option" where
  "normalize_loop s0 len out =
     (let s = dropWhile (\<lambda>c. c = slash) s0 in
      if s = [] then Some (Inr len, out)
      else
        (let n = length (takeWhile (\<lambda>c. c \<noteq> slash) s); e = drop n s in
         if n = 1 \<and> s ! 0 = CHR ''.'' then normalize_loop e len out
         else if n = 2 \<and> s ! 0 = CHR ''.'' \<and> s ! 1 = CHR ''.'' then
           (case pop_to_slash len out of
              None \<Rightarrow> None
            | Some len \<Rightarrow>
                (let len = (if len > 0 then len - 1 else len) in
                 case put len NUL out of None \<Rightarrow> None | Some out \<Rightarrow> normalize_loop e len out))
         else if len + 1 + n + 1 > length out then Some (Inl ENAMETOOLONG, out)
         else
           (case put len slash out of
              None \<Rightarrow> None
            | Some out \<Rightarrow>
                (case put_all (len + 1) (take n s) out of
                   None \<Rightarrow> None
                 | Some out \<Rightarrow>
                     (case put (len + 1 + n) NUL out of
                        None \<Rightarrow> None
                      | Some out \<Rightarrow> normalize_loop e (len + 1 + n) out)))))"
  by pat_completeness auto
termination
  by (relation "measure (\<lambda>(s, len, out). length s)") (rule wf_measure, unfold in_measure prod.case, (rule component_shorter; assumption)+)

declare normalize_loop.simps [simp del]

text \<open>The string in a buffer.\<close>

definition cstring :: "string \<Rightarrow> string" where
  "cstring b = takeWhile (\<lambda>c. c \<noteq> NUL) b"

text \<open>The local buffer of \<open>2 * PATH_MAX\<close> bytes; \<open>buf\<close> is what the stack held there before.\<close>

definition joined_path :: "string \<Rightarrow> string \<Rightarrow> string \<Rightarrow> string" where
  "joined_path buf cwd path =
     (if path \<noteq> [] \<and> path ! 0 = slash then take (2 * PATH_MAX - 1) path
      else
        (case kvsnprintf buf (2 * PATH_MAX) ''%s/%s'' [Va_str (Some cwd), Va_str (Some path)] of
           None \<Rightarrow> []
         | Some (buf, n) \<Rightarrow> cstring buf))"

definition path_normalize :: "string \<Rightarrow> string \<Rightarrow> string \<Rightarrow> string \<Rightarrow> ((errno + unit) \<times> string) option" where
  "path_normalize buf cwd path out =
     (case put 0 NUL out of
        None \<Rightarrow> None
      | Some out \<Rightarrow>
          (case normalize_loop (joined_path buf cwd path) 0 out of
             None \<Rightarrow> None
           | Some (Inl err, out) \<Rightarrow> Some (Inl err, out)
           | Some (Inr len, out) \<Rightarrow>
               if len = 0 then
                 (case put 0 slash out of
                    None \<Rightarrow> None
                  | Some out \<Rightarrow> (case put 1 NUL out of None \<Rightarrow> None | Some out \<Rightarrow> Some (Inr (), out)))
               else Some (Inr (), out)))"

section \<open>Reference definitions\<close>

text \<open>Splitting at the slashes; the components are the nonempty pieces.\<close>

fun split_slash :: "string \<Rightarrow> string list" where
  "split_slash [] = [[]]"
| "split_slash (c # cs) =
     (if c = slash then [] # split_slash cs else (c # hd (split_slash cs)) # tl (split_slash cs))"

definition components :: "string \<Rightarrow> string list" where
  "components p = filter (\<lambda>c. c \<noteq> []) (split_slash p)"

text \<open>A stack of names and the effect of one component on it.\<close>

definition walk :: "string list \<Rightarrow> string \<Rightarrow> string list" where
  "walk st c = (if c = ''.'' then st else if c = ''..'' then butlast st else st @ [c])"

definition render :: "string list \<Rightarrow> string" where
  "render st = concat (map (\<lambda>c. slash # c) st)"

definition canonical :: "string \<Rightarrow> string" where
  "canonical p = (let st = foldl walk [] (components p) in if st = [] then [slash] else render st)"

text \<open>Does a buffer of \<open>sz\<close> bytes hold the stack and its terminator after every component?\<close>

definition stack_fits :: "nat \<Rightarrow> string list \<Rightarrow> string list \<Rightarrow> bool" where
  "stack_fits sz st cs \<longleftrightarrow> (\<forall>k\<le>length cs. length (render (foldl walk st (take k cs))) < sz)"

section \<open>Proofs\<close>

lemma NUL_slash [simp]: "NUL \<noteq> slash" "slash \<noteq> NUL"
  by (simp_all add: char_of_def)

lemma split_slash_nonempty [simp]: "split_slash s \<noteq> []"
  by (cases s) auto

lemma components_Nil [simp]: "components [] = []"
  by (simp add: components_def)

lemma components_slash [simp]: "components (slash # s) = components s"
  by (simp add: components_def)

lemma components_dropWhile: "components (dropWhile (\<lambda>c. c = slash) s) = components s"
  by (induction s) auto

lemma split_slash_take:
  "split_slash s = takeWhile (\<lambda>c. c \<noteq> slash) s # tl (split_slash s)"
  by (induction s) (auto, metis list.sel(1))

lemma split_slash_drop:
  "dropWhile (\<lambda>c. c \<noteq> slash) s = slash # r \<Longrightarrow> tl (split_slash s) = split_slash r"
  "dropWhile (\<lambda>c. c \<noteq> slash) s = [] \<Longrightarrow> tl (split_slash s) = []"
  by (induction s) (auto split: if_splits)

text \<open>The components in the order in which both loops meet them.\<close>

lemma components_step:
  assumes "dropWhile (\<lambda>c. c = slash) s = t" "t \<noteq> []"
  shows "components s = takeWhile (\<lambda>c. c \<noteq> slash) t # components (dropWhile (\<lambda>c. c \<noteq> slash) t)"
proof -
  have h: "hd t \<noteq> slash" using assms hd_dropWhile by fast
  then have ne: "takeWhile (\<lambda>c. c \<noteq> slash) t \<noteq> []" using assms(2) by (cases t) auto
  have "components s = components t" using components_dropWhile[of s] assms by simp
  also have "\<dots> = takeWhile (\<lambda>c. c \<noteq> slash) t # filter (\<lambda>c. c \<noteq> []) (tl (split_slash t))"
    unfolding components_def by (subst split_slash_take) (simp add: ne)
  also have "filter (\<lambda>c. c \<noteq> []) (tl (split_slash t)) = components (dropWhile (\<lambda>c. c \<noteq> slash) t)"
  proof (cases "dropWhile (\<lambda>c. c \<noteq> slash) t")
    case Nil
    with split_slash_drop(2)[of t] show ?thesis by (simp add: components_def del: dropWhile_eq_Nil_conv)
  next
    case (Cons x r)
    then have "x = slash" using hd_dropWhile[of "\<lambda>c. c \<noteq> slash" t] by auto
    with Cons split_slash_drop(1)[of t r] show ?thesis by (simp add: components_def)
  qed
  finally show ?thesis .
qed

lemma components_none: "dropWhile (\<lambda>c. c = slash) s = [] \<Longrightarrow> components s = []"
  by (metis components_dropWhile components_Nil)

text \<open>\<open>next_component\<close> takes the first component off a path.\<close>

lemma next_component_components:
  "next_component s =
     (case components s of
        [] \<Rightarrow> None
      | c # cs \<Rightarrow> if length c > NAME_MAX then Some (Inl ENAMETOOLONG)
          else Some (Inr (c, dropWhile (\<lambda>c. c \<noteq> slash) (dropWhile (\<lambda>c. c = slash) s))))"
  "components (dropWhile (\<lambda>c. c \<noteq> slash) (dropWhile (\<lambda>c. c = slash) s)) = tl (components s)"
proof -
  let ?t = "dropWhile (\<lambda>c. c = slash) s"
  have td: "take (length (takeWhile (\<lambda>c. c \<noteq> slash) ?t)) ?t = takeWhile (\<lambda>c. c \<noteq> slash) ?t"
    "drop (length (takeWhile (\<lambda>c. c \<noteq> slash) ?t)) ?t = dropWhile (\<lambda>c. c \<noteq> slash) ?t"
    by (metis takeWhile_eq_take, metis dropWhile_eq_drop)
  show "next_component s =
     (case components s of
        [] \<Rightarrow> None
      | c # cs \<Rightarrow> if length c > NAME_MAX then Some (Inl ENAMETOOLONG)
          else Some (Inr (c, dropWhile (\<lambda>c. c \<noteq> slash) (dropWhile (\<lambda>c. c = slash) s))))"
  proof (cases "?t = []")
    case True
    with components_none[of s] show ?thesis by (simp only: next_component_def Let_def) simp
  next
    case False
    then have "next_component s =
      (if length (takeWhile (\<lambda>c. c \<noteq> slash) ?t) > NAME_MAX then Some (Inl ENAMETOOLONG)
       else Some (Inr (takeWhile (\<lambda>c. c \<noteq> slash) ?t, dropWhile (\<lambda>c. c \<noteq> slash) ?t)))"
      by (simp only: next_component_def Let_def td if_False)
    with components_step[OF refl False] show ?thesis by (simp only: list.case)
  qed
  show "components (dropWhile (\<lambda>c. c \<noteq> slash) ?t) = tl (components s)"
    using components_step[OF refl, of s] components_none[of s] by (metis components_Nil dropWhile.simps(1) list.sel(2,3))
qed

text \<open>Names have no slash in them and are not empty.\<close>

definition proper :: "string \<Rightarrow> bool" where
  "proper c \<longleftrightarrow> c \<noteq> [] \<and> slash \<notin> set c"

lemma split_slash_no_slash: "c \<in> set (split_slash s) \<Longrightarrow> slash \<notin> set c"
proof (induction s arbitrary: c)
  case (Cons x s)
  have "hd (split_slash s) \<in> set (split_slash s)" "set (tl (split_slash s)) \<subseteq> set (split_slash s)"
    by (simp, cases "split_slash s", auto)
  with Cons show ?case by (auto split: if_splits)
qed auto

lemma components_proper: "list_all proper (components s)"
  using split_slash_no_slash by (auto simp: components_def list_all_iff proper_def)

lemma walk_proper: "list_all proper st \<Longrightarrow> proper c \<Longrightarrow> list_all proper (walk st c)"
  by (auto simp: walk_def list_all_iff dest: in_set_butlastD)

lemma render_simps [simp]: "render [] = []" "render (st @ [c]) = render st @ slash # c" "render (c # st) = slash # c @ render st"
  by (simp_all add: render_def)

lemma render_Nil_iff [simp]: "render st = [] \<longleftrightarrow> st = []"
  by (cases st) simp_all

text \<open>The buffer operations.\<close>

lemma put_all_correct:
  "i + length cs \<le> length out \<Longrightarrow> put_all i cs out = Some (take i out @ cs @ drop (i + length cs) out)"
proof (induction cs arbitrary: i out)
  case (Cons c cs)
  then have "take (Suc i) (out[i := c]) = take i out @ [c]" by (simp add: take_Suc_conv_app_nth)
  with Cons show ?case by (simp add: put_def)
qed simp

lemma pop_to_slash_correct:
  assumes "take (length xs + 1 + length c) out = xs @ slash # c" "slash \<notin> set c"
  shows "pop_to_slash (length xs + 1 + length c) out = Some (length xs + 1)"
  using assms
proof (induction c rule: rev_induct)
  case Nil
  then have "length out \<ge> length xs + 1" by (metis append_eq_conv_conj length_append length_take list.size(3,4) min.absorb_iff1 add_0_right One_nat_def min_def linorder_linear length_Cons append_Nil2 take_all)
  moreover have "out ! length xs = slash" using Nil(1) by (metis add_0_right length_append_singleton lessI list.size(3) nth_append_length nth_take One_nat_def add_Suc_right)
  ultimately show ?case by simp
next
  case (snoc x c)
  let ?n = "length xs + 1 + length c"
  have l: "?n < length out"
    using arg_cong[OF snoc(2), of length] by simp
  have "take (Suc ?n) out = (xs @ slash # c) @ [x]" using snoc(2) by simp
  then have "out ! ?n = x" "take ?n out = xs @ slash # c"
    using l by (simp_all add: take_Suc_conv_app_nth)
  moreover have "x \<noteq> slash" using snoc(3) by auto
  ultimately show ?case using snoc l by simp
qed

text \<open>The buffer holds a stack of names.\<close>

definition holds :: "string list \<Rightarrow> nat \<Rightarrow> string \<Rightarrow> bool" where
  "holds st len out \<longleftrightarrow> len = length (render st) \<and> len < length out \<and> take len out = render st \<and> out ! len = NUL"

lemma holds_pop:
  assumes "holds st len out" "list_all proper st"
  obtains len' out' where "pop_to_slash len out = Some len'"
    "put (if len' > 0 then len' - 1 else len') NUL out = Some out'" "length out' = length out"
    "holds (butlast st) (if len' > 0 then len' - 1 else len') out'"
proof (cases st rule: rev_cases)
  case Nil
  with assms have "len = 0" "0 < length out" by (auto simp: holds_def)
  with Nil that[of 0 "out[0 := NUL]"] show ?thesis by (simp add: holds_def put_def)
next
  case (snoc st' c)
  let ?l = "length (render st')"
  have "take (?l + 1 + length c) out = render st' @ slash # c" "slash \<notin> set c"
    using assms snoc by (auto simp: holds_def list_all_iff proper_def)
  then have p: "pop_to_slash len out = Some (?l + 1)"
    using pop_to_slash_correct[of "render st'" c out] assms(1) snoc by (simp add: holds_def)
  have "take ?l out = render st'"
    using \<open>take (?l + 1 + length c) out = render st' @ slash # c\<close>
    by (metis append_eq_conv_conj le_add1 min.absorb1 take_take add.assoc)
  moreover have "?l < length out" using assms(1) snoc by (simp add: holds_def)
  ultimately show ?thesis
    using that[OF p, of "out[?l := NUL]"] snoc by (simp add: holds_def put_def)
qed

lemma holds_push:
  assumes "holds st len out" "len + 1 + length c + 1 \<le> length out"
  obtains out1 out2 out3 where "put len slash out = Some out1" "put_all (len + 1) c out1 = Some out2"
    "put (len + 1 + length c) NUL out2 = Some out3" "length out3 = length out"
    "holds (st @ [c]) (len + 1 + length c) out3"
proof -
  let ?o1 = "out[len := slash]"
  let ?o2 = "take (len + 1) ?o1 @ c @ drop (len + 1 + length c) ?o1"
  have "put len slash out = Some ?o1" using assms by (simp add: put_def)
  moreover have "put_all (len + 1) c ?o1 = Some ?o2" using assms(2) by (intro put_all_correct) simp
  moreover have "put (len + 1 + length c) NUL ?o2 = Some (?o2[len + 1 + length c := NUL])" using assms(2) by (simp add: put_def)
  moreover have "take (len + 1) ?o1 = render st @ [slash]" using assms by (auto simp: holds_def take_Suc_conv_app_nth)
  moreover have "len = length (render st)" using assms by (simp add: holds_def)
  ultimately show ?thesis using that assms(2) by (simp add: holds_def)
qed

lemma component_dots:
  "length c = 1 \<and> c ! 0 = CHR ''.'' \<longleftrightarrow> c = ''.''"
  "length c = 2 \<and> c ! 0 = CHR ''.'' \<and> c ! 1 = CHR ''.'' \<longleftrightarrow> c = ''..''"
  by (auto simp: length_Suc_conv numeral_2_eq_2)

text \<open>One round of the loop on component \<open>c\<close>, with the rest \<open>e\<close> of the path.\<close>

definition normalize_round :: "string \<Rightarrow> string \<Rightarrow> nat \<Rightarrow> string \<Rightarrow> ((errno + nat) \<times> string) option" where
  "normalize_round e c len out =
     (if c = ''.'' then normalize_loop e len out
      else if c = ''..'' then
        (case pop_to_slash len out of
           None \<Rightarrow> None
         | Some len \<Rightarrow>
             (case put (if len > 0 then len - 1 else len) NUL out of
                None \<Rightarrow> None | Some out \<Rightarrow> normalize_loop e (if len > 0 then len - 1 else len) out))
      else if len + 1 + length c + 1 > length out then Some (Inl ENAMETOOLONG, out)
      else
        (case put len slash out of
           None \<Rightarrow> None
         | Some out \<Rightarrow>
             (case put_all (len + 1) c out of
                None \<Rightarrow> None
              | Some out \<Rightarrow>
                  (case put (len + 1 + length c) NUL out of
                     None \<Rightarrow> None | Some out \<Rightarrow> normalize_loop e (len + 1 + length c) out))))"

lemma normalize_loop_components:
  "components s = [] \<Longrightarrow> normalize_loop s len out = Some (Inr len, out)"
  "components s = c # cs \<Longrightarrow> \<exists>e. components e = cs \<and> normalize_loop s len out = normalize_round e c len out"
proof -
  let ?t = "dropWhile (\<lambda>c. c = slash) s"
  show "normalize_loop s len out = Some (Inr len, out)" if "components s = []"
  proof -
    have "?t = []" using that components_step[OF refl, of s] by (metis list.distinct(1))
    then show ?thesis by (subst normalize_loop.simps) (simp only: Let_def, simp)
  qed
  assume c: "components s = c # cs"
  then have t: "?t \<noteq> []" using components_none by fastforce
  let ?n = "length (takeWhile (\<lambda>c. c \<noteq> slash) ?t)"
  let ?e = "drop ?n ?t"
  have e: "?e = dropWhile (\<lambda>c. c \<noteq> slash) ?t" by (metis dropWhile_eq_drop)
  have cc: "takeWhile (\<lambda>c. c \<noteq> slash) ?t = c" "components ?e = cs"
    using components_step[OF refl t] c unfolding e by simp_all
  have n0: "0 < length c" using c components_proper[of s] by (simp add: proper_def)
  have nth: "?t ! k = c ! k" if "k < length c" for k
    using that cc(1) by (metis takeWhile_nth)
  have d: "length c = 1 \<and> ?t ! 0 = CHR ''.'' \<longleftrightarrow> c = ''.''"
    "length c = 2 \<and> ?t ! 0 = CHR ''.'' \<and> ?t ! 1 = CHR ''.'' \<longleftrightarrow> c = ''..''"
    using component_dots[of c] nth[of 0] nth[of 1] n0 by auto
  have tk: "take (length c) ?t = c" using cc(1) by (metis takeWhile_eq_take)
  have "normalize_loop s len out = normalize_round (drop (length c) ?t) c len out"
    using t unfolding normalize_round_def by (subst normalize_loop.simps) (simp only: Let_def if_False cc(1) d tk)
  with cc show "\<exists>e. components e = cs \<and> normalize_loop s len out = normalize_round e c len out" by auto
qed

lemma stack_fits_Cons:
  "stack_fits sz st (c # cs) \<longleftrightarrow> length (render st) < sz \<and> stack_fits sz (walk st c) cs"
proof -
  have "(\<forall>k\<le>length (c # cs). Q k) \<longleftrightarrow> Q 0 \<and> (\<forall>k\<le>length cs. Q (Suc k))" for Q
    by (metis le_zero_eq length_Cons linorder_le_cases not0_implies_Suc Suc_le_mono)
  from this[of "\<lambda>k. length (render (foldl walk st (take k (c # cs)))) < sz"]
  show ?thesis by (simp add: stack_fits_def)
qed

lemma stack_fits_first: "stack_fits sz st cs \<Longrightarrow> length (render st) < sz"
  by (auto simp: stack_fits_def)

text \<open>What the loop leaves: the canonical stack, or the error when the stack did not fit at some point.\<close>

definition left_by_loop :: "nat \<Rightarrow> string list \<Rightarrow> string list \<Rightarrow> (errno + nat) \<times> string \<Rightarrow> bool" where
  "left_by_loop sz st cs res \<longleftrightarrow> length (snd res) = sz \<and>
     (if stack_fits sz st cs
      then fst res = Inr (length (render (foldl walk st cs))) \<and>
        holds (foldl walk st cs) (length (render (foldl walk st cs))) (snd res)
      else fst res = Inl ENAMETOOLONG)"

lemma left_by_loop_Cons:
  "length (render st) < sz \<Longrightarrow> left_by_loop sz st (c # cs) res = left_by_loop sz (walk st c) cs res"
  by (simp add: left_by_loop_def stack_fits_Cons)

lemma holds_less: "holds st len out \<Longrightarrow> length (render st) < length out"
  by (auto simp: holds_def)

lemma normalize_loop_correct:
  assumes "holds st len out" "list_all proper st" "components s = cs"
  shows "\<exists>res. normalize_loop s len out = Some res \<and> left_by_loop (length out) st cs res"
  using assms
proof (induction cs arbitrary: s st len out)
  case Nil
  then show ?case by (auto simp: normalize_loop_components(1) holds_def left_by_loop_def stack_fits_def)
next
  case (Cons c cs)
  obtain e where e: "components e = cs" and loop: "normalize_loop s len out = normalize_round e c len out"
    using normalize_loop_components(2)[OF Cons(4)] by blast
  have "proper c" using components_proper[of s] Cons(4) by simp
  note w = walk_proper[OF Cons(3) this]
  note L = left_by_loop_Cons[OF holds_less[OF Cons(2)]]
  consider (dot) "c = ''.''" | (dots) "c = ''..''" | (long) "c \<noteq> ''.''" "c \<noteq> ''..''" "len + 1 + length c + 1 > length out"
    | (name) "c \<noteq> ''.''" "c \<noteq> ''..''" "len + 1 + length c + 1 \<le> length out" by linarith
  then show ?case
  proof cases
    case dot
    then have "walk st c = st" by (simp add: walk_def)
    with Cons(1)[OF Cons(2,3) e] loop dot show ?thesis unfolding L by (simp add: normalize_round_def)
  next
    case dots
    then have wk: "walk st c = butlast st" by (simp add: walk_def)
    obtain len' out' where o: "pop_to_slash len out = Some len'"
      "put (if len' > 0 then len' - 1 else len') NUL out = Some out'" "length out' = length out"
      "holds (butlast st) (if len' > 0 then len' - 1 else len') out'"
      using holds_pop[OF Cons(2,3)] .
    with Cons(1)[OF o(4) w[unfolded wk] e] loop dots wk show ?thesis unfolding L by (simp add: normalize_round_def)
  next
    case long
    then have "\<not> length (render (walk st c)) < length out" using Cons(2) by (auto simp: walk_def holds_def)
    then have "\<not> stack_fits (length out) (walk st c) cs" using stack_fits_first by blast
    with long loop show ?thesis unfolding L by (simp add: normalize_round_def left_by_loop_def)
  next
    case name
    then have wk: "walk st c = st @ [c]" by (simp add: walk_def)
    obtain o1 o2 o3 where o: "put len slash out = Some o1" "put_all (len + 1) c o1 = Some o2"
      "put (len + 1 + length c) NUL o2 = Some o3" "length o3 = length out" "holds (st @ [c]) (len + 1 + length c) o3"
      using holds_push[OF Cons(2) name(3)] .
    with Cons(1)[OF o(5) w[unfolded wk] e] loop name wk show ?thesis unfolding L by (simp add: normalize_round_def)
  qed
qed

lemma cstring_append: "NUL \<notin> set xs \<Longrightarrow> cstring (xs @ NUL # ys) = xs"
proof -
  assume "NUL \<notin> set xs"
  then have "takeWhile (\<lambda>c. c \<noteq> NUL) (xs @ NUL # ys) = xs @ takeWhile (\<lambda>c. c \<noteq> NUL) (NUL # ys)"
    by (intro takeWhile_append2) auto
  then show ?thesis by (simp add: cstring_def)
qed

text \<open>The path that is normalised, cut to the size of the local buffer.\<close>

lemma joined_path_eq:
  assumes "length buf = 2 * PATH_MAX" "NUL \<notin> set cwd" "NUL \<notin> set path"
  shows "joined_path buf cwd path =
    take (2 * PATH_MAX - 1) (if path \<noteq> [] \<and> path ! 0 = slash then path else cwd @ slash # path)"
proof (cases "path \<noteq> [] \<and> path ! 0 = slash")
  case False
  let ?full = "cwd @ slash # path"
  have "format_core ''%s/%s'' [Va_str (Some cwd), Va_str (Some path)] = Some (?full, length ?full)"
    by (simp add: is_flag_def length_modifier_def convert_def emit_string_def Let_def)
  then have k: "kvsnprintf buf (2 * PATH_MAX) ''%s/%s'' [Va_str (Some cwd), Va_str (Some path)] =
    Some (take (2 * PATH_MAX - 1) ?full @ [NUL] @ drop (Suc (min (length ?full) (2 * PATH_MAX - 1))) buf, length ?full)"
    by (rule kvsnprintf_stores) (simp_all add: assms(1))
  have "NUL \<notin> set (take (2 * PATH_MAX - 1) ?full)"
    using assms(2,3) by (auto dest!: in_set_takeD)
  then have "cstring (take (2 * PATH_MAX - 1) ?full @ [NUL] @ ys) = take (2 * PATH_MAX - 1) ?full" for ys
    using cstring_append by (simp only: append_Cons append_Nil)
  with k False show ?thesis unfolding joined_path_def by (simp only: if_False option.case prod.case)
qed (simp add: joined_path_def)

text \<open>The canonical form is a fixed point.\<close>

definition no_dots :: "string list \<Rightarrow> bool" where
  "no_dots st \<longleftrightarrow> (\<forall>c\<in>set st. c \<noteq> ''.'' \<and> c \<noteq> ''..'')"

lemma walk_no_dots: "no_dots st \<Longrightarrow> no_dots (walk st c)"
  by (auto simp: no_dots_def walk_def dest: in_set_butlastD)

lemma foldl_walk_names:
  "list_all proper st \<Longrightarrow> no_dots st \<Longrightarrow> list_all proper cs \<Longrightarrow>
   list_all proper (foldl walk st cs) \<and> no_dots (foldl walk st cs)"
  by (induction cs arbitrary: st) (auto intro: walk_proper walk_no_dots)

lemma foldl_walk_id: "no_dots cs \<Longrightarrow> foldl walk st cs = st @ cs"
  by (induction cs arbitrary: st) (auto simp: no_dots_def walk_def)

lemma components_render: "list_all proper st \<Longrightarrow> components (render st) = st"
proof (induction st)
  case (Cons c st)
  have s: "\<And>x. x \<in> set c \<Longrightarrow> x \<noteq> slash" using Cons(2) by (auto simp: proper_def)
  have tw: "takeWhile (\<lambda>c. c \<noteq> slash) (c @ render st) = c @ takeWhile (\<lambda>c. c \<noteq> slash) (render st)"
    "dropWhile (\<lambda>c. c \<noteq> slash) (c @ render st) = dropWhile (\<lambda>c. c \<noteq> slash) (render st)"
    using s by (simp_all add: takeWhile_append2 dropWhile_append2)
  have "takeWhile (\<lambda>c. c \<noteq> slash) (render st) = []" "dropWhile (\<lambda>c. c \<noteq> slash) (render st) = render st"
    by (cases st; simp)+
  note tw = tw[unfolded this append_Nil2]
  have "c @ render st \<noteq> []" "hd (c @ render st) \<noteq> slash" using Cons(2) s by (auto simp: proper_def hd_append dest: hd_in_set)
  then have "dropWhile (\<lambda>c. c = slash) (render (c # st)) = c @ render st" by (cases "c @ render st") auto
  from components_step[OF this \<open>c @ render st \<noteq> []\<close>] tw Cons show ?case by simp
qed simp

lemma foldl_walk_subset: "set (foldl walk st cs) \<subseteq> set st \<union> set cs"
proof (induction cs arbitrary: st)
  case (Cons c cs)
  have "set (walk st c) \<subseteq> insert c (set st)" by (auto simp: walk_def dest: in_set_butlastD)
  with Cons[of "walk st c"] show ?case by auto
qed simp

lemma components_chars: "c \<in> set (components s) \<Longrightarrow> set c \<subseteq> set s"
proof -
  have "c \<in> set (split_slash s) \<Longrightarrow> set c \<subseteq> set s" for c
  proof (induction s arbitrary: c)
    case (Cons x s)
    have "hd (split_slash s) \<in> set (split_slash s)" "set (tl (split_slash s)) \<subseteq> set (split_slash s)"
      by (simp, cases "split_slash s", auto)
    then have "set (hd (split_slash s)) \<subseteq> set s" "c \<in> set (tl (split_slash s)) \<Longrightarrow> set c \<subseteq> set s" for c
      using Cons(1) by auto
    with Cons(1)[of c] Cons(2) show ?case by (auto split: if_splits)
  qed simp
  then show "c \<in> set (components s) \<Longrightarrow> set c \<subseteq> set s" by (simp add: components_def)
qed

lemma canonical_chars: "set (canonical p) \<subseteq> insert slash (set p)"
proof -
  have "set c \<subseteq> set p" if "c \<in> set (foldl walk [] (components p))" for c
    using foldl_walk_subset[of "[]" "components p"] components_chars[of c p] that by auto
  then show ?thesis by (auto simp: canonical_def Let_def render_def)
qed

lemma components_canonical:
  "components (canonical p) = foldl walk [] (components p)" "no_dots (components (canonical p))"
  "canonical (canonical p) = canonical p"
proof -
  let ?st = "foldl walk [] (components p)"
  have st: "list_all proper ?st" "no_dots ?st"
    using foldl_walk_names[of "[]" "components p"] components_proper[of p] by (simp_all add: no_dots_def)
  show c: "components (canonical p) = ?st"
    using components_render[OF st(1)] by (simp add: canonical_def Let_def)
  show "no_dots (components (canonical p))" unfolding c by (rule st(2))
  show "canonical (canonical p) = canonical p"
    unfolding canonical_def[of "canonical p"] c foldl_walk_id[OF st(2)] by (simp add: canonical_def)
qed

section \<open>Properties\<close>

text \<open>
  C20. Normalising a path. In a buffer of at least two bytes \<^verbatim>\<open>path_normalize\<close> never writes or reads outside the
  buffer and ends with the canonical form of the path: the names left on the stack after dropping every
  \<^verbatim>\<open>.\<close> and letting every \<^verbatim>\<open>..\<close> remove the name before it. Relative paths start at the working directory, and
  the path is the first 2047 bytes of the two together. It fails with ENAMETOOLONG exactly when the stack
  did not fit at some point. The canonical form has no \<^verbatim>\<open>.\<close> and \<^verbatim>\<open>..\<close> in it and normalises to itself.
\<close>

theorem path_normalize_canonical:
  assumes "length buf = 2 * PATH_MAX" "NUL \<notin> set cwd" "NUL \<notin> set path" "2 \<le> length out"
    and p: "p = take (2 * PATH_MAX - 1) (if path \<noteq> [] \<and> path ! 0 = slash then path else cwd @ slash # path)"
  shows "\<exists>out'. length out' = length out \<and>
    path_normalize buf cwd path out =
      Some (if stack_fits (length out) [] (components p) then Inr () else Inl ENAMETOOLONG, out') \<and>
    (stack_fits (length out) [] (components p) \<longrightarrow>
       cstring out' = canonical p \<and> canonical (canonical p) = canonical p \<and>
       ''.'' \<notin> set (components (canonical p)) \<and> ''..'' \<notin> set (components (canonical p)))"
proof -
  let ?out = "out[0 := NUL]"
  let ?st = "foldl walk [] (components p)"
  have "holds [] 0 ?out" using assms(4) by (auto simp: holds_def intro!: nth_list_update_eq)
  from normalize_loop_correct[OF this _ refl, of p]
  obtain r out' where loop: "normalize_loop p 0 ?out = Some (r, out')" and left: "left_by_loop (length out) [] (components p) (r, out')"
    by auto
  have len: "length out' = length out" using left by (simp add: left_by_loop_def)
  have n: "path_normalize buf cwd path out =
    (case r of Inl err \<Rightarrow> Some (Inl err, out')
     | Inr l \<Rightarrow> Some (Inr (), if l = 0 then out'[0 := slash, 1 := NUL] else out'))"
    using loop len assms(4) joined_path_eq[OF assms(1-3)] unfolding p[symmetric]
    by (auto simp: path_normalize_def put_def split: sum.splits)
  show ?thesis
  proof (cases "stack_fits (length out) [] (components p)")
    case True
    then have r: "r = Inr (length (render ?st))" and h: "holds ?st (length (render ?st)) out'"
      using left by (simp_all add: left_by_loop_def)
    have "NUL \<notin> set p" using assms(2,3) unfolding p by (auto dest!: in_set_takeD)
    then have nn: "NUL \<notin> set (canonical p)" using canonical_chars[of p] by auto
    let ?o = "if length (render ?st) = 0 then out'[0 := slash, 1 := NUL] else out'"
    have "\<exists>ys. ?o = canonical p @ NUL # ys"
    proof (cases "?st = []")
      case True
      from len assms(4) obtain x y ys where "out' = x # y # ys" by (metis Suc_le_length_iff numeral_2_eq_2)
      with True show ?thesis by (simp add: canonical_def)
    next
      case False
      then have "out' = take (length (render ?st)) out' @ out' ! length (render ?st) # drop (Suc (length (render ?st))) out'"
        using holds_less[OF h] by (simp add: id_take_nth_drop)
      also have "\<dots> = canonical p @ NUL # drop (Suc (length (render ?st))) out'"
        using h False by (simp add: holds_def canonical_def Let_def)
      finally show ?thesis using False by auto
    qed
    then have "cstring ?o = canonical p"
      using nn cstring_append by force
    with n r True len components_canonical[of p] show ?thesis
      by (intro exI[of _ ?o]) (auto simp: no_dots_def)
  next
    case False
    with left n len show ?thesis by (auto simp: left_by_loop_def)
  qed
qed

theorem path_normalize_canonical_witness:
  "\<exists>out'. path_normalize (replicate 2048 CHR ''x'') ''/a/c'' ''.././/b'' (replicate 16 CHR ''y'') = Some (Inr (), out')
     \<and> cstring out' = ''/a/b''"
proof -
  let ?p = "''/a/c/.././/b''"
  have c: "components ?p = [''a'', ''c'', ''..'', ''.'', ''b'']" by (simp add: components_def)
  have s: "stack_fits 16 [] (components ?p)"
    unfolding c by (simp add: stack_fits_Cons walk_def) (simp add: stack_fits_def)
  have can: "canonical ?p = ''/a/b''" unfolding canonical_def c by (simp add: walk_def)
  have "\<exists>out'. length out' = length (replicate 16 CHR ''y'') \<and>
    path_normalize (replicate 2048 CHR ''x'') ''/a/c'' ''.././/b'' (replicate 16 CHR ''y'') =
      Some (if stack_fits (length (replicate 16 CHR ''y'')) [] (components ?p) then Inr () else Inl ENAMETOOLONG, out') \<and>
    (stack_fits (length (replicate 16 CHR ''y'')) [] (components ?p) \<longrightarrow>
       cstring out' = canonical ?p \<and> canonical (canonical ?p) = canonical ?p \<and>
       ''.'' \<notin> set (components (canonical ?p)) \<and> ''..'' \<notin> set (components (canonical ?p)))"
    by (rule path_normalize_canonical) (simp_all add: char_of_def)
  with s show ?thesis by (simp only: length_replicate can if_True) blast
qed

end
