(* ===== verification/Vfs.thy ===== *)
theory Vfs
  imports Path
begin

text \<open>
  The file tree: the inodes, open files, path walk, directory operations and mounts of \<^verbatim>\<open>kernel/fs/vfs.c\<close>
  with the directories of \<^verbatim>\<open>kernel/fs/tmpfs.c\<close>. An inode, an open file and a super block is named by its
  address; a freed one is absent from the store, so that following a pointer to it is the error
  \<open>Use_after_free\<close>. The results of the memory allocator are arguments. Reference and link counts are
  unbounded here. Not part of the state: the contents of files (theory \<^verbatim>\<open>Tmpfs_File\<close>; only their size is
  here), time stamps and owners, and inodes of other file systems than tmpfs.
\<close>

section \<open>Data\<close>

abbreviation S_IFMT :: u32 where "S_IFMT \<equiv> 0xF000"
abbreviation S_IFREG :: u32 where "S_IFREG \<equiv> 0x8000"
abbreviation S_IFDIR :: u32 where "S_IFDIR \<equiv> 0x4000"
abbreviation S_IFCHR :: u32 where "S_IFCHR \<equiv> 0x2000"
abbreviation S_IFBLK :: u32 where "S_IFBLK \<equiv> 0x6000"
abbreviation O_RDONLY :: u32 where "O_RDONLY \<equiv> 0"
abbreviation O_WRONLY :: u32 where "O_WRONLY \<equiv> 1"
abbreviation O_ACCMODE :: u32 where "O_ACCMODE \<equiv> 3"
abbreviation O_CREAT :: u32 where "O_CREAT \<equiv> 0x40"
abbreviation O_EXCL :: u32 where "O_EXCL \<equiv> 0x80"
abbreviation O_TRUNC :: u32 where "O_TRUNC \<equiv> 0x200"
abbreviation O_APPEND :: u32 where "O_APPEND \<equiv> 0x400"
abbreviation O_DIRECTORY :: u32 where "O_DIRECTORY \<equiv> 0x10000"

definition S_ISREG :: "u32 \<Rightarrow> bool" where "S_ISREG m \<longleftrightarrow> m AND S_IFMT = S_IFREG"
definition S_ISDIR :: "u32 \<Rightarrow> bool" where "S_ISDIR m \<longleftrightarrow> m AND S_IFMT = S_IFDIR"
definition S_ISCHR :: "u32 \<Rightarrow> bool" where "S_ISCHR m \<longleftrightarrow> m AND S_IFMT = S_IFCHR"
definition S_ISBLK :: "u32 \<Rightarrow> bool" where "S_ISBLK m \<longleftrightarrow> m AND S_IFMT = S_IFBLK"

definition MAJOR :: "u32 \<Rightarrow> nat" where "MAJOR d = unat (drop_bit 20 d)"

text \<open>The operation tables of the code are named; drivers register theirs by number.\<close>

datatype inode_ops = Tmpfs_dir_ops | Tmpfs_file_iops

datatype file_ops = Tmpfs_file_ops | Blkdev_ops | Driver_ops nat

record tmpfs_node =
  children :: "(string \<times> nat) list"
  parent :: "nat option"

record inode =
  ino :: u64
  mode :: u32
  nlink :: int
  i_size :: u64
  rdev :: u32
  refcount :: int
  i_sb :: "nat option"
  iops :: "inode_ops option"
  i_fops :: "file_ops option"
  priv :: "tmpfs_node option"
  mounted :: "nat option"
  covered :: "nat option"

record vfile =
  f_inode :: nat
  f_fops :: "file_ops option"
  offset :: u64
  flags :: u32
  f_refcount :: int

record super_block =
  s_root :: nat
  read_only :: bool
  s_dev :: u32

record mount =
  m_target :: string
  m_sb :: nat
  mountpoint :: "nat option"

record vfs =
  inodes :: "nat \<Rightarrow> inode option"
  files :: "nat \<Rightarrow> vfile option"
  supers :: "nat \<Rightarrow> super_block option"
  root_inode :: "nat option"
  mounts :: "mount list"
  chrdevs :: "nat \<Rightarrow> file_ops option"
  next_ino :: u64
  next_dev :: u32

datatype vfs_panic = Use_after_free | Null_pointer | Refcount_negative | Endless_loop

text \<open>What the allocator returns: addresses of new objects, and whether smaller requests succeed.\<close>

record allocs =
  a_inode :: "nat option"
  a_file :: "nat option"
  a_sb :: "nat option"
  a_node :: bool
  a_dirent :: bool
  a_mount :: bool

type_synonym 'a vfs_result = "vfs_panic + 'a \<times> vfs"

definition fetch :: "nat \<Rightarrow> vfs \<Rightarrow> vfs_panic + inode" where
  "fetch i s = (case inodes s i of None \<Rightarrow> Inl Use_after_free | Some x \<Rightarrow> Inr x)"

definition upd_inode :: "nat \<Rightarrow> (inode \<Rightarrow> inode) \<Rightarrow> vfs \<Rightarrow> vfs" where
  "upd_inode i f s = s\<lparr>inodes := (inodes s)(i := map_option f (inodes s i))\<rparr>"

definition NODE :: "inode \<Rightarrow> vfs_panic + tmpfs_node" where
  "NODE x = (case priv x of None \<Rightarrow> Inl Null_pointer | Some n \<Rightarrow> Inr n)"

definition upd_node :: "nat \<Rightarrow> (tmpfs_node \<Rightarrow> tmpfs_node) \<Rightarrow> vfs \<Rightarrow> vfs" where
  "upd_node i f = upd_inode i (\<lambda>x. x\<lparr>priv := map_option f (priv x)\<rparr>)"

section \<open>Inodes\<close>

definition inode_alloc :: "nat option \<Rightarrow> nat option \<Rightarrow> vfs \<Rightarrow> nat option \<times> vfs" where
  "inode_alloc sb alloc s =
     (case alloc of
        None \<Rightarrow> (None, s)
      | Some a \<Rightarrow> (Some a, s\<lparr>inodes := (inodes s)(a \<mapsto>
          \<lparr>ino = 0, mode = 0, nlink = 0, i_size = 0, rdev = 0, refcount = 1, i_sb = sb, iops = None, i_fops = None,
           priv = None, mounted = None, covered = None\<rparr>)\<rparr>))"

definition iget :: "nat \<Rightarrow> vfs \<Rightarrow> vfs_panic + vfs" where
  "iget i s = andthen (fetch i s) (\<lambda>x. Inr (upd_inode i (\<lambda>x. x\<lparr>refcount := refcount x + 1\<rparr>) s))"

text \<open>The last reference frees the inode and, through \<^verbatim>\<open>tmpfs_free_inode\<close>, its tmpfs node.\<close>

definition iput :: "nat \<Rightarrow> vfs \<Rightarrow> vfs_panic + vfs" where
  "iput i s =
     andthen (fetch i s) (\<lambda>x.
       (let n = refcount x - 1; s = upd_inode i (\<lambda>x. x\<lparr>refcount := n\<rparr>) s
        in if n > 0 then Inr s
           else if n < 0 then Inl Refcount_negative
           else Inr (s\<lparr>inodes := (inodes s)(i := None)\<rparr>)))"

definition iput_opt :: "nat option \<Rightarrow> vfs \<Rightarrow> vfs_panic + vfs" where
  "iput_opt i s = (case i of None \<Rightarrow> Inr s | Some i \<Rightarrow> iput i s)"

section \<open>Directories of tmpfs\<close>

definition tmpfs_new_inode :: "nat option \<Rightarrow> u32 \<Rightarrow> allocs \<Rightarrow> vfs \<Rightarrow> nat option vfs_result" where
  "tmpfs_new_inode sb m A s =
     (case inode_alloc sb (a_inode A) s of
        (None, s) \<Rightarrow> Inr (None, s)
      | (Some a, s) \<Rightarrow>
          if \<not> a_node A then andthen (iput a s) (\<lambda>s. Inr (None, s))
          else
            (let s = upd_inode a (\<lambda>x. x\<lparr>priv := Some \<lparr>children = [], parent = None\<rparr>, ino := next_ino s, mode := m, nlink := 1\<rparr>) s;
                 s = s\<lparr>next_ino := next_ino s + 1\<rparr>;
                 s = (if S_ISDIR m then upd_inode a (\<lambda>x. x\<lparr>iops := Some Tmpfs_dir_ops, nlink := 2\<rparr>) s
                      else upd_inode a (\<lambda>x. x\<lparr>iops := Some Tmpfs_file_iops, i_fops := Some Tmpfs_file_ops\<rparr>) s)
             in Inr (Some a, s)))"

text \<open>\<^verbatim>\<open>find\<close>: the first entry with the name.\<close>

definition find_entry :: "nat \<Rightarrow> string \<Rightarrow> vfs \<Rightarrow> vfs_panic + nat option" where
  "find_entry dir name s =
     andthen (fetch dir s) (\<lambda>x. andthen (NODE x) (\<lambda>n. Inr (map_of (children n) name)))"

definition tmpfs_lookup :: "nat \<Rightarrow> string \<Rightarrow> vfs \<Rightarrow> nat option vfs_result" where
  "tmpfs_lookup dir name s =
     (if name = ''..'' then
        andthen (fetch dir s) (\<lambda>x. andthen (NODE x) (\<lambda>n.
          (let p = (case parent n of Some p \<Rightarrow> p | None \<Rightarrow> dir)
           in andthen (iget p s) (\<lambda>s. Inr (Some p, s)))))
      else
        andthen (find_entry dir name s) (\<lambda>d.
          case d of None \<Rightarrow> Inr (None, s) | Some i \<Rightarrow> andthen (iget i s) (\<lambda>s. Inr (Some i, s))))"

definition add_entry :: "nat \<Rightarrow> string \<Rightarrow> nat \<Rightarrow> allocs \<Rightarrow> vfs \<Rightarrow> (errno + unit) vfs_result" where
  "add_entry dir name child A s =
     (if \<not> a_dirent A then Inr (Inl ENOMEM, s)
      else andthen (fetch dir s) (\<lambda>x. andthen (NODE x) (\<lambda>n.
        Inr (Inr (), upd_node dir (\<lambda>n. n\<lparr>children := children n @ [(take NAME_MAX name, child)]\<rparr>) s))))"

text \<open>The failure path the three constructors share: the new inode is given back.\<close>

definition drop_new :: "nat \<Rightarrow> errno \<Rightarrow> vfs \<Rightarrow> (errno + 'a) vfs_result" where
  "drop_new a e s = andthen (iput a (upd_inode a (\<lambda>x. x\<lparr>nlink := 0\<rparr>) s)) (\<lambda>s. Inr (Inl e, s))"

definition tmpfs_create :: "nat \<Rightarrow> string \<Rightarrow> u32 \<Rightarrow> allocs \<Rightarrow> vfs \<Rightarrow> (errno + nat) vfs_result" where
  "tmpfs_create dir name m A s =
     andthen (fetch dir s) (\<lambda>d. andthen (tmpfs_new_inode (i_sb d) m A s) (\<lambda>(r, s).
       case r of
         None \<Rightarrow> Inr (Inl ENOMEM, s)
       | Some a \<Rightarrow>
           andthen (add_entry dir name a A s) (\<lambda>(r, s).
             case r of
               Inl e \<Rightarrow> drop_new a e s
             | Inr _ \<Rightarrow> andthen (iget a s) (\<lambda>s. Inr (Inr a, s)))))"

definition tmpfs_mkdir :: "nat \<Rightarrow> string \<Rightarrow> u32 \<Rightarrow> allocs \<Rightarrow> vfs \<Rightarrow> (errno + unit) vfs_result" where
  "tmpfs_mkdir dir name m A s =
     andthen (fetch dir s) (\<lambda>d. andthen (tmpfs_new_inode (i_sb d) m A s) (\<lambda>(r, s).
       case r of
         None \<Rightarrow> Inr (Inl ENOMEM, s)
       | Some a \<Rightarrow>
           (let s = upd_node a (\<lambda>n. n\<lparr>parent := Some dir\<rparr>) s in
            andthen (add_entry dir name a A s) (\<lambda>(r, s).
              case r of
                Inl e \<Rightarrow> drop_new a e s
              | Inr _ \<Rightarrow> Inr (Inr (), upd_inode dir (\<lambda>x. x\<lparr>nlink := nlink x + 1\<rparr>) s)))))"

definition tmpfs_mknod :: "nat \<Rightarrow> string \<Rightarrow> u32 \<Rightarrow> u32 \<Rightarrow> allocs \<Rightarrow> vfs \<Rightarrow> (errno + unit) vfs_result" where
  "tmpfs_mknod dir name m dev A s =
     andthen (fetch dir s) (\<lambda>d. andthen (tmpfs_new_inode (i_sb d) m A s) (\<lambda>(r, s).
       case r of
         None \<Rightarrow> Inr (Inl ENOMEM, s)
       | Some a \<Rightarrow>
           (let s = upd_inode a (\<lambda>x. x\<lparr>rdev := dev, i_fops := None\<rparr>) s in
            andthen (add_entry dir name a A s) (\<lambda>(r, s).
              case r of Inl e \<Rightarrow> drop_new a e s | Inr _ \<Rightarrow> Inr (Inr (), s)))))"

text \<open>\<^verbatim>\<open>list_del\<close> of the first entry with the name.\<close>

fun del_entry :: "string \<Rightarrow> (string \<times> nat) list \<Rightarrow> (string \<times> nat) list" where
  "del_entry name [] = []"
| "del_entry name (e # es) = (if fst e = name then es else e # del_entry name es)"

definition unlink_entry :: "nat \<Rightarrow> string \<Rightarrow> vfs \<Rightarrow> vfs" where
  "unlink_entry dir name = upd_node dir (\<lambda>n. n\<lparr>children := del_entry name (children n)\<rparr>)"

definition tmpfs_unlink :: "nat \<Rightarrow> string \<Rightarrow> vfs \<Rightarrow> (errno + unit) vfs_result" where
  "tmpfs_unlink dir name s =
     andthen (find_entry dir name s) (\<lambda>d.
       case d of
         None \<Rightarrow> Inr (Inl ENOENT, s)
       | Some i \<Rightarrow>
           andthen (fetch i s) (\<lambda>_.
             andthen (iput i (upd_inode i (\<lambda>x. x\<lparr>nlink := nlink x - 1\<rparr>) (unlink_entry dir name s))) (\<lambda>s.
               Inr (Inr (), s))))"

definition tmpfs_rmdir :: "nat \<Rightarrow> string \<Rightarrow> vfs \<Rightarrow> (errno + unit) vfs_result" where
  "tmpfs_rmdir dir name s =
     andthen (find_entry dir name s) (\<lambda>d.
       case d of
         None \<Rightarrow> Inr (Inl ENOENT, s)
       | Some i \<Rightarrow>
           andthen (fetch i s) (\<lambda>x. andthen (NODE x) (\<lambda>n.
             if children n \<noteq> [] then Inr (Inl ENOTEMPTY, s)
             else
               (let s = unlink_entry dir name s;
                    s = upd_inode i (\<lambda>x. x\<lparr>nlink := 0\<rparr>) s;
                    s = upd_inode dir (\<lambda>x. x\<lparr>nlink := nlink x - 1\<rparr>) s
                in andthen (iput i s) (\<lambda>s. Inr (Inr (), s))))))"

text \<open>
  The loop of \<^verbatim>\<open>tmpfs_rename\<close> from \<open>p\<close> up the parent pointers, looking for \<open>d\<close>. It ends at a root, whose
  parent is NULL; on a cyclic chain it would not return.
\<close>

partial_function (option) is_ancestor :: "nat \<Rightarrow> nat option \<Rightarrow> vfs \<Rightarrow> (vfs_panic + bool) option" where
  "is_ancestor d p s =
     (case p of
        None \<Rightarrow> Some (Inr False)
      | Some p \<Rightarrow>
          if p = d then Some (Inr True)
          else
            (case fetch p s of
               Inl e \<Rightarrow> Some (Inl e)
             | Inr x \<Rightarrow> (case NODE x of Inl e \<Rightarrow> Some (Inl e) | Inr n \<Rightarrow> is_ancestor d (parent n) s)))"

definition moves_into_itself :: "nat \<Rightarrow> nat \<Rightarrow> vfs \<Rightarrow> vfs_panic + bool" where
  "moves_into_itself d ndir s = (case is_ancestor d (Some ndir) s of None \<Rightarrow> Inl Endless_loop | Some r \<Rightarrow> r)"

text \<open>Replacing an existing target: the checks, then the removal of its entry.\<close>

definition replace_target :: "nat \<Rightarrow> string \<Rightarrow> bool \<Rightarrow> nat \<Rightarrow> vfs \<Rightarrow> (errno + unit) vfs_result" where
  "replace_target ndir nname isdir t s =
     andthen (fetch t s) (\<lambda>x.
       if S_ISDIR (mode x) \<noteq> isdir then Inr (Inl (if S_ISDIR (mode x) then EISDIR else ENOTDIR), s)
       else
         andthen (if S_ISDIR (mode x) then andthen (NODE x) (\<lambda>n. Inr (children n \<noteq> [])) else Inr False) (\<lambda>full.
           if full then Inr (Inl ENOTEMPTY, s)
           else
             (let s = unlink_entry ndir nname s;
                  s = (if S_ISDIR (mode x)
                       then upd_inode ndir (\<lambda>x. x\<lparr>nlink := nlink x - 1\<rparr>) (upd_inode t (\<lambda>x. x\<lparr>nlink := 0\<rparr>) s)
                       else upd_inode t (\<lambda>x. x\<lparr>nlink := nlink x - 1\<rparr>) s)
              in andthen (iput t s) (\<lambda>s. Inr (Inr (), s)))))"

definition move_entry :: "nat \<Rightarrow> string \<Rightarrow> nat \<Rightarrow> string \<Rightarrow> bool \<Rightarrow> nat \<Rightarrow> vfs \<Rightarrow> vfs" where
  "move_entry odir oname ndir nname isdir i s =
     (let s = unlink_entry odir oname s;
          s = upd_node ndir (\<lambda>n. n\<lparr>children := children n @ [(take NAME_MAX nname, i)]\<rparr>) s
      in if isdir \<and> odir \<noteq> ndir
         then upd_inode ndir (\<lambda>x. x\<lparr>nlink := nlink x + 1\<rparr>)
                (upd_inode odir (\<lambda>x. x\<lparr>nlink := nlink x - 1\<rparr>) (upd_node i (\<lambda>n. n\<lparr>parent := Some ndir\<rparr>) s))
         else s)"

definition tmpfs_rename :: "nat \<Rightarrow> string \<Rightarrow> nat \<Rightarrow> string \<Rightarrow> vfs \<Rightarrow> (errno + unit) vfs_result" where
  "tmpfs_rename odir oname ndir nname s =
     andthen (find_entry odir oname s) (\<lambda>d.
       case d of
         None \<Rightarrow> Inr (Inl ENOENT, s)
       | Some i \<Rightarrow>
           andthen (find_entry ndir nname s) (\<lambda>target.
             if odir = ndir \<and> oname = nname then Inr (Inr (), s)
             else
               andthen (fetch i s) (\<lambda>x.
               andthen (if S_ISDIR (mode x) then moves_into_itself i ndir s else Inr False) (\<lambda>inside.
                 if inside then Inr (Inl EINVAL, s)
                 else
                   andthen (case target of
                              None \<Rightarrow> Inr (Inr (), s)
                            | Some t \<Rightarrow> replace_target ndir nname (S_ISDIR (mode x)) t s) (\<lambda>(r, s).
                     case r of
                       Inl e \<Rightarrow> Inr (Inl e, s)
                     | Inr _ \<Rightarrow> Inr (Inr (), move_entry odir oname ndir nname (S_ISDIR (mode x)) i s))))))"

text \<open>A directory entry for the caller: number, type and name.\<close>

definition tmpfs_readdir :: "nat \<Rightarrow> nat \<Rightarrow> vfs \<Rightarrow> vfs_panic + (u64 \<times> u32 \<times> string) option" where
  "tmpfs_readdir dir pos s =
     andthen (fetch dir s) (\<lambda>x. andthen (NODE x) (\<lambda>n.
       if pos = 0 then Inr (Some (ino x, S_IFDIR, ''.''))
       else if pos = 1 then
         andthen (fetch (case parent n of Some p \<Rightarrow> p | None \<Rightarrow> dir) s) (\<lambda>p. Inr (Some (ino p, S_IFDIR, ''..'')))
       else if pos - 2 < length (children n) then
         (case children n ! (pos - 2) of (name, i) \<Rightarrow>
            andthen (fetch i s) (\<lambda>c. Inr (Some (ino c, mode c AND S_IFMT, name))))
       else Inr None))"

definition tmpfs_create_sb :: "allocs \<Rightarrow> vfs \<Rightarrow> nat option vfs_result" where
  "tmpfs_create_sb A s =
     (case a_sb A of
        None \<Rightarrow> Inr (None, s)
      | Some b \<Rightarrow>
          (let dev = next_dev s; s = s\<lparr>next_dev := next_dev s + 1\<rparr> in
           andthen (tmpfs_new_inode (Some b) (S_IFDIR OR 0x1ED) A s) (\<lambda>(r, s).
             case r of
               None \<Rightarrow> Inr (None, s)
             | Some i \<Rightarrow> Inr (Some b, s\<lparr>supers := (supers s)(b \<mapsto> \<lparr>s_root = i, read_only = False, s_dev = dev\<rparr>)\<rparr>))))"

section \<open>Walking a path\<close>

text \<open>On a cyclic chain of mounts the loop would not return.\<close>

partial_function (option) follow_loop :: "nat \<Rightarrow> vfs \<Rightarrow> (nat vfs_result) option" where
  "follow_loop i s =
     (case fetch i s of
        Inl e \<Rightarrow> Some (Inl e)
      | Inr x \<Rightarrow>
          (case mounted x of
             None \<Rightarrow> Some (Inr (i, s))
           | Some m \<Rightarrow>
               (case iget m s of
                  Inl e \<Rightarrow> Some (Inl e)
                | Inr s \<Rightarrow> (case iput i s of Inl e \<Rightarrow> Some (Inl e) | Inr s \<Rightarrow> follow_loop m s))))"

definition follow_mounts :: "nat \<Rightarrow> vfs \<Rightarrow> nat vfs_result" where
  "follow_mounts i s = (case follow_loop i s of None \<Rightarrow> Inl Endless_loop | Some r \<Rightarrow> r)"

text \<open>The error, if any, and the new current inode, which the caller owns a reference to in every case.\<close>

definition step :: "nat \<Rightarrow> string \<Rightarrow> vfs \<Rightarrow> (errno option \<times> nat) vfs_result" where
  "step cur name s =
     andthen (fetch cur s) (\<lambda>dx.
       if \<not> S_ISDIR (mode dx) then Inr ((Some ENOTDIR, cur), s)
       else if name = ''.'' then Inr ((None, cur), s)
       else if name = ''..'' \<and> root_inode s = Some cur then Inr ((None, cur), s)
       else
         andthen (if name = ''..'' then
                    (case covered dx of
                       None \<Rightarrow> Inr (cur, s)
                     | Some c \<Rightarrow> andthen (iget c s) (\<lambda>s. andthen (iput cur s) (\<lambda>s. Inr (c, s))))
                  else Inr (cur, s)) (\<lambda>(dir, s).
         andthen (fetch dir s) (\<lambda>dx.
           if iops dx \<noteq> Some Tmpfs_dir_ops then Inr ((Some ENOTDIR, dir), s)
           else
             andthen (tmpfs_lookup dir name s) (\<lambda>(r, s).
               case r of
                 None \<Rightarrow> Inr ((Some ENOENT, dir), s)
               | Some child \<Rightarrow>
                   andthen (iput dir s) (\<lambda>s.
                   andthen (follow_mounts child s) (\<lambda>(c, s). Inr ((None, c), s)))))))"

definition start_inode :: "string \<Rightarrow> nat option \<Rightarrow> vfs \<Rightarrow> nat vfs_result" where
  "start_inode path cwd s =
     (let i = (if path \<noteq> [] \<and> path ! 0 = slash then root_inode s else case cwd of None \<Rightarrow> root_inode s | Some _ \<Rightarrow> cwd)
      in case i of None \<Rightarrow> Inl Null_pointer | Some i \<Rightarrow> andthen (iget i s) (\<lambda>s. Inr (i, s)))"

lemma next_component_shorter: "next_component s = Some (Inr (name, rest)) \<Longrightarrow> length rest < length s"
  using component_shorter[OF refl _ refl refl, of s]
  by (auto simp: next_component_def Let_def split: if_splits)

function lookup_loop :: "string \<Rightarrow> nat \<Rightarrow> vfs \<Rightarrow> (errno + nat) vfs_result" where
  "lookup_loop p cur s =
     (case next_component p of
        None \<Rightarrow> Inr (Inr cur, s)
      | Some (Inl e) \<Rightarrow> andthen (iput cur s) (\<lambda>s. Inr (Inl e, s))
      | Some (Inr (name, rest)) \<Rightarrow>
          (case step cur name s of
             Inl e \<Rightarrow> Inl e
           | Inr ((Some e, cur), s) \<Rightarrow> andthen (iput cur s) (\<lambda>s. Inr (Inl e, s))
           | Inr ((None, cur), s) \<Rightarrow> lookup_loop rest cur s))"
  by pat_completeness auto
termination
  by (relation "measure (\<lambda>(p, cur, s). length p)") (auto dest: next_component_shorter)

declare lookup_loop.simps [simp del]

definition vfs_lookup :: "string \<Rightarrow> nat option \<Rightarrow> vfs \<Rightarrow> (errno + nat) vfs_result" where
  "vfs_lookup path cwd s =
     (if path = [] then Inr (Inl ENOENT, s)
      else if length path \<ge> PATH_MAX then Inr (Inl ENAMETOOLONG, s)
      else andthen (start_inode path cwd s) (\<lambda>(cur, s). lookup_loop path cur s))"

text \<open>The walk to the directory of the last component, which is not looked up.\<close>

function parent_loop :: "string \<Rightarrow> nat \<Rightarrow> vfs \<Rightarrow> (errno + nat \<times> string) vfs_result" where
  "parent_loop p cur s =
     (case next_component p of
        None \<Rightarrow> andthen (iput cur s) (\<lambda>s. Inr (Inl EINVAL, s))
      | Some (Inl e) \<Rightarrow> andthen (iput cur s) (\<lambda>s. Inr (Inl e, s))
      | Some (Inr (name, rest)) \<Rightarrow>
          if dropWhile (\<lambda>c. c = slash) rest = [] then
            (if name = ''.'' \<or> name = ''..'' then andthen (iput cur s) (\<lambda>s. Inr (Inl EINVAL, s))
             else
               andthen (fetch cur s) (\<lambda>x.
                 if \<not> S_ISDIR (mode x) then andthen (iput cur s) (\<lambda>s. Inr (Inl ENOTDIR, s))
                 else Inr (Inr (cur, name), s)))
          else
            (case step cur name s of
               Inl e \<Rightarrow> Inl e
             | Inr ((Some e, cur), s) \<Rightarrow> andthen (iput cur s) (\<lambda>s. Inr (Inl e, s))
             | Inr ((None, cur), s) \<Rightarrow> parent_loop rest cur s))"
  by pat_completeness auto
termination
  by (relation "measure (\<lambda>(p, cur, s). length p)") (auto dest: next_component_shorter)

declare parent_loop.simps [simp del]

definition vfs_lookup_parent :: "string \<Rightarrow> nat option \<Rightarrow> vfs \<Rightarrow> (errno + nat \<times> string) vfs_result" where
  "vfs_lookup_parent path cwd s =
     (if path = [] then Inr (Inl ENOENT, s)
      else if length path \<ge> PATH_MAX then Inr (Inl ENAMETOOLONG, s)
      else andthen (start_inode path cwd s) (\<lambda>(cur, s). parent_loop path cur s))"

definition is_read_only :: "inode \<Rightarrow> vfs \<Rightarrow> vfs_panic + bool" where
  "is_read_only x s =
     (case i_sb x of
        None \<Rightarrow> Inr False
      | Some b \<Rightarrow> (case supers s b of None \<Rightarrow> Inl Use_after_free | Some sb \<Rightarrow> Inr (read_only sb)))"

definition with_parent :: "string \<Rightarrow> nat option \<Rightarrow> vfs \<Rightarrow> (errno + nat \<times> string) vfs_result" where
  "with_parent path cwd s =
     andthen (vfs_lookup_parent path cwd s) (\<lambda>(r, s).
       case r of
         Inl e \<Rightarrow> Inr (Inl e, s)
       | Inr (dir, name) \<Rightarrow>
           andthen (fetch dir s) (\<lambda>x. andthen (is_read_only x s) (\<lambda>ro.
             if ro then andthen (iput dir s) (\<lambda>s. Inr (Inl EROFS, s)) else Inr (Inr (dir, name), s))))"

section \<open>Operations on names\<close>

text \<open>
  In the directories that \<open>with_parent\<close> returns \<^verbatim>\<open>iops\<close> is not NULL; the table of a directory has every
  operation, the table of a file only \<^verbatim>\<open>truncate\<close>.
\<close>

definition dir_lookup :: "nat \<Rightarrow> string \<Rightarrow> vfs \<Rightarrow> nat option vfs_result" where
  "dir_lookup dir name s =
     andthen (fetch dir s) (\<lambda>x. if iops x = Some Tmpfs_dir_ops then tmpfs_lookup dir name s else Inl Null_pointer)"

text \<open>The common end: release the directory and return.\<close>

definition put_and_return :: "nat \<Rightarrow> 'a \<Rightarrow> vfs \<Rightarrow> 'a vfs_result" where
  "put_and_return dir r s = andthen (iput dir s) (\<lambda>s. Inr (r, s))"

definition vfs_mkdir :: "string \<Rightarrow> nat option \<Rightarrow> u32 \<Rightarrow> allocs \<Rightarrow> vfs \<Rightarrow> (errno + unit) vfs_result" where
  "vfs_mkdir path cwd m A s =
     andthen (with_parent path cwd s) (\<lambda>(r, s).
       case r of
         Inl e \<Rightarrow> Inr (Inl e, s)
       | Inr (dir, name) \<Rightarrow>
           andthen (dir_lookup dir name s) (\<lambda>(ex, s).
             andthen (case ex of
                        Some i \<Rightarrow> andthen (iput i s) (\<lambda>s. Inr (Inl EEXIST, s))
                      | None \<Rightarrow> tmpfs_mkdir dir name (S_IFDIR OR (m AND 0xFFF)) A s) (\<lambda>(r, s).
               put_and_return dir r s)))"

definition vfs_mknod :: "string \<Rightarrow> nat option \<Rightarrow> u32 \<Rightarrow> u32 \<Rightarrow> allocs \<Rightarrow> vfs \<Rightarrow> (errno + unit) vfs_result" where
  "vfs_mknod path cwd m dev A s =
     andthen (with_parent path cwd s) (\<lambda>(r, s).
       case r of
         Inl e \<Rightarrow> Inr (Inl e, s)
       | Inr (dir, name) \<Rightarrow>
           andthen (dir_lookup dir name s) (\<lambda>(ex, s).
             andthen (case ex of
                        Some i \<Rightarrow> andthen (iput i s) (\<lambda>s. Inr (Inl EEXIST, s))
                      | None \<Rightarrow> tmpfs_mknod dir name m dev A s) (\<lambda>(r, s).
               put_and_return dir r s)))"

text \<open>\<^verbatim>\<open>unlink\<close> and \<^verbatim>\<open>rmdir\<close> refuse a victim of the wrong kind and a mount point.\<close>

definition remove_victim :: "bool \<Rightarrow> nat \<Rightarrow> string \<Rightarrow> nat option \<Rightarrow> vfs \<Rightarrow> (errno + unit) vfs_result" where
  "remove_victim want_dir dir name victim s =
     (case victim of
        None \<Rightarrow> Inr (Inl ENOENT, s)
      | Some v \<Rightarrow>
          andthen (fetch v s) (\<lambda>x.
            if S_ISDIR (mode x) \<noteq> want_dir then Inr (Inl (if want_dir then ENOTDIR else EISDIR), s)
            else if mounted x \<noteq> None then Inr (Inl EBUSY, s)
            else if want_dir then tmpfs_rmdir dir name s else tmpfs_unlink dir name s))"

definition vfs_remove :: "bool \<Rightarrow> string \<Rightarrow> nat option \<Rightarrow> vfs \<Rightarrow> (errno + unit) vfs_result" where
  "vfs_remove want_dir path cwd s =
     andthen (with_parent path cwd s) (\<lambda>(r, s).
       case r of
         Inl e \<Rightarrow> Inr (Inl e, s)
       | Inr (dir, name) \<Rightarrow>
           andthen (dir_lookup dir name s) (\<lambda>(victim, s).
             andthen (remove_victim want_dir dir name victim s) (\<lambda>(r, s).
               andthen (iput_opt victim s) (\<lambda>s. put_and_return dir r s))))"

definition vfs_unlink :: "string \<Rightarrow> nat option \<Rightarrow> vfs \<Rightarrow> (errno + unit) vfs_result" where
  "vfs_unlink = vfs_remove False"

definition vfs_rmdir :: "string \<Rightarrow> nat option \<Rightarrow> vfs \<Rightarrow> (errno + unit) vfs_result" where
  "vfs_rmdir = vfs_remove True"

definition vfs_rename :: "string \<Rightarrow> string \<Rightarrow> nat option \<Rightarrow> vfs \<Rightarrow> (errno + unit) vfs_result" where
  "vfs_rename from to cwd s =
     andthen (with_parent from cwd s) (\<lambda>(r, s).
       case r of
         Inl e \<Rightarrow> Inr (Inl e, s)
       | Inr (odir, oname) \<Rightarrow>
           andthen (with_parent to cwd s) (\<lambda>(r, s).
             case r of
               Inl e \<Rightarrow> put_and_return odir (Inl e) s
             | Inr (ndir, nname) \<Rightarrow>
                 andthen (fetch odir s) (\<lambda>ox. andthen (fetch ndir s) (\<lambda>nx.
                 andthen (if i_sb ox \<noteq> i_sb nx then Inr (Inl EXDEV, s)
                          else if iops ox \<noteq> Some Tmpfs_dir_ops then Inr (Inl EPERM, s)
                          else tmpfs_rename odir oname ndir nname s) (\<lambda>(r, s).
                   andthen (iput odir s) (\<lambda>s. put_and_return ndir r s))))))"

section \<open>Open files\<close>

definition fetch_file :: "nat \<Rightarrow> vfs \<Rightarrow> vfs_panic + vfile" where
  "fetch_file f s = (case files s f of None \<Rightarrow> Inl Use_after_free | Some x \<Rightarrow> Inr x)"

definition chrdev_register :: "nat \<Rightarrow> file_ops \<Rightarrow> vfs \<Rightarrow> vfs" where
  "chrdev_register major fops s = (if major < 256 then s\<lparr>chrdevs := (chrdevs s)(major \<mapsto> fops)\<rparr> else s)"

definition chrdev_get :: "nat \<Rightarrow> vfs \<Rightarrow> file_ops option" where
  "chrdev_get major s = (if major < 256 then chrdevs s major else None)"

definition file_alloc :: "nat \<Rightarrow> u32 \<Rightarrow> allocs \<Rightarrow> vfs \<Rightarrow> nat option vfs_result" where
  "file_alloc i fl A s =
     (case a_file A of
        None \<Rightarrow> Inr (None, s)
      | Some f \<Rightarrow>
          andthen (fetch i s) (\<lambda>x.
            (let fops = (if S_ISCHR (mode x) then chrdev_get (MAJOR (rdev x)) s
                         else if S_ISBLK (mode x) then Some Blkdev_ops else i_fops x)
             in Inr (Some f, s\<lparr>files := (files s)(f \<mapsto>
                  \<lparr>f_inode = i, f_fops = fops, offset = 0, flags = fl, f_refcount = 1\<rparr>)\<rparr>))))"

definition file_dup :: "nat \<Rightarrow> vfs \<Rightarrow> vfs_panic + vfs" where
  "file_dup f s =
     andthen (fetch_file f s) (\<lambda>x. Inr (s\<lparr>files := (files s)(f \<mapsto> x\<lparr>f_refcount := f_refcount x + 1\<rparr>)\<rparr>))"

text \<open>Only pipes have a \<^verbatim>\<open>release\<close> operation; their ends are in theory \<^verbatim>\<open>Pipe\<close>.\<close>

definition file_close :: "nat \<Rightarrow> vfs \<Rightarrow> vfs_panic + vfs" where
  "file_close f s =
     andthen (fetch_file f s) (\<lambda>x.
       (let n = f_refcount x - 1; s = s\<lparr>files := (files s)(f \<mapsto> x\<lparr>f_refcount := n\<rparr>)\<rparr>
        in if n > 0 then Inr s
           else andthen (iput (f_inode x) s) (\<lambda>s. Inr (s\<lparr>files := (files s)(f := None)\<rparr>))))"

text \<open>The first half of \<^verbatim>\<open>vfs_open\<close>: the inode to open, created if asked for.\<close>

definition open_create :: "string \<Rightarrow> nat option \<Rightarrow> u32 \<Rightarrow> u32 \<Rightarrow> allocs \<Rightarrow> vfs \<Rightarrow> (errno + nat) vfs_result" where
  "open_create path cwd fl m A s =
     andthen (with_parent path cwd s) (\<lambda>(r, s).
       case r of
         Inl e \<Rightarrow> Inr (Inl e, s)
       | Inr (dir, name) \<Rightarrow>
           andthen (dir_lookup dir name s) (\<lambda>(found, s).
             andthen (case found of
                        Some i \<Rightarrow>
                          if has_flag fl O_EXCL then andthen (iput i s) (\<lambda>s. Inr (Inl EEXIST, s)) else Inr (Inr i, s)
                      | None \<Rightarrow> tmpfs_create dir name (S_IFREG OR (m AND 0xFFF)) A s) (\<lambda>(r, s).
               andthen (iput dir s) (\<lambda>s.
                 case r of
                   Inl e \<Rightarrow> Inr (Inl e, s)
                 | Inr i \<Rightarrow> andthen (follow_mounts i s) (\<lambda>(i, s). Inr (Inr i, s))))))"

text \<open>
  The second half: the checks on the inode, truncation, and the open file, which takes over the reference.
  Truncating always succeeds; none of the operation tables has an \<^verbatim>\<open>open\<close> operation.
\<close>

definition open_file :: "nat \<Rightarrow> u32 \<Rightarrow> allocs \<Rightarrow> vfs \<Rightarrow> (errno + nat) vfs_result" where
  "open_file i fl A s =
     andthen (fetch i s) (\<lambda>x. andthen (is_read_only x s) (\<lambda>ro.
       (let writing = (fl AND O_ACCMODE \<noteq> O_RDONLY) in
        if S_ISDIR (mode x) \<and> writing then put_and_return i (Inl EISDIR) s
        else if has_flag fl O_DIRECTORY \<and> \<not> S_ISDIR (mode x) then put_and_return i (Inl ENOTDIR) s
        else if writing \<and> ro \<and> S_ISREG (mode x) then put_and_return i (Inl EROFS) s
        else
          (let s = (if has_flag fl O_TRUNC \<and> writing \<and> S_ISREG (mode x) \<and> iops x = Some Tmpfs_file_iops
                    then upd_inode i (\<lambda>x. x\<lparr>i_size := 0\<rparr>) s else s) in
           andthen (file_alloc i fl A s) (\<lambda>(r, s).
             case r of
               None \<Rightarrow> put_and_return i (Inl ENOMEM) s
             | Some f \<Rightarrow>
                 andthen (fetch_file f s) (\<lambda>fx.
                   if S_ISCHR (mode x) \<and> f_fops fx = None
                   then andthen (file_close f s) (\<lambda>s. Inr (Inl ENXIO, s))
                   else Inr (Inr f, s)))))))"

definition vfs_open :: "string \<Rightarrow> nat option \<Rightarrow> u32 \<Rightarrow> u32 \<Rightarrow> allocs \<Rightarrow> vfs \<Rightarrow> (errno + nat) vfs_result" where
  "vfs_open path cwd fl m A s =
     andthen (if has_flag fl O_CREAT then open_create path cwd fl m A s else vfs_lookup path cwd s) (\<lambda>(r, s).
       case r of Inl e \<Rightarrow> Inr (Inl e, s) | Inr i \<Rightarrow> open_file i fl A s)"

definition vfs_readdir :: "nat \<Rightarrow> vfs \<Rightarrow> (errno + (u64 \<times> u32 \<times> string) option) vfs_result" where
  "vfs_readdir f s =
     andthen (fetch_file f s) (\<lambda>fx. andthen (fetch (f_inode fx) s) (\<lambda>x.
       if \<not> S_ISDIR (mode x) then Inr (Inl ENOTDIR, s)
       else if iops x \<noteq> Some Tmpfs_dir_ops then Inr (Inl EINVAL, s)
       else
         andthen (tmpfs_readdir (f_inode fx) (unat (offset fx)) s) (\<lambda>r.
           Inr (Inr r, case r of None \<Rightarrow> s | Some _ \<Rightarrow> s\<lparr>files := (files s)(f \<mapsto> fx\<lparr>offset := offset fx + 1\<rparr>)\<rparr>))))"

section \<open>Mounts\<close>

definition vfs_mount_root :: "nat \<Rightarrow> allocs \<Rightarrow> vfs \<Rightarrow> vfs_panic + vfs" where
  "vfs_mount_root b A s =
     (case supers s b of
        None \<Rightarrow> Inl Use_after_free
      | Some sb \<Rightarrow>
          andthen (iget (s_root sb) s) (\<lambda>s.
            if \<not> a_mount A then Inl Null_pointer
            else Inr (s\<lparr>root_inode := Some (s_root sb),
                        mounts := mounts s @ [\<lparr>m_target = ''/'', m_sb = b, mountpoint = None\<rparr>]\<rparr>)))"

text \<open>
  The registered file system is tmpfs, whose \<^verbatim>\<open>mount\<close> operation ignores the device; \<open>blkdev_find\<close> tells which
  devices exist.
\<close>

definition vfs_mount :: "(string \<Rightarrow> bool) \<Rightarrow> string \<Rightarrow> string \<Rightarrow> string \<Rightarrow> allocs \<Rightarrow> vfs \<Rightarrow> (errno + unit) vfs_result" where
  "vfs_mount blkdev_find source target fstype A s =
     (if fstype \<noteq> ''tmpfs'' then Inr (Inl ENODEV, s)
      else if source \<noteq> [] \<and> source \<noteq> ''none'' \<and>
              \<not> blkdev_find (if take 5 source = ''/dev/'' then drop 5 source else source) then Inr (Inl ENXIO, s)
      else
        andthen (vfs_lookup target None s) (\<lambda>(r, s).
          case r of
            Inl e \<Rightarrow> Inr (Inl e, s)
          | Inr mp \<Rightarrow>
              andthen (fetch mp s) (\<lambda>x.
                if \<not> S_ISDIR (mode x) then put_and_return mp (Inl ENOTDIR) s
                else if mounted x \<noteq> None \<or> root_inode s = Some mp then put_and_return mp (Inl EBUSY) s
                else
                  andthen (tmpfs_create_sb A s) (\<lambda>(r, s).
                    case r of
                      None \<Rightarrow> put_and_return mp (Inl ENOMEM) s
                    | Some b \<Rightarrow>
                        if \<not> a_mount A then Inl Null_pointer
                        else
                          (case supers s b of
                             None \<Rightarrow> Inl Use_after_free
                           | Some sb \<Rightarrow>
                               andthen (iget (s_root sb) s) (\<lambda>s.
                               (let s = upd_inode mp (\<lambda>x. x\<lparr>mounted := Some (s_root sb)\<rparr>) s in
                                andthen (iget mp s) (\<lambda>s.
                                  Inr (Inr (), (upd_inode (s_root sb) (\<lambda>x. x\<lparr>covered := Some mp\<rparr>) s)
                                    \<lparr>mounts := mounts s @
                                       [\<lparr>m_target = take (PATH_MAX - 1) target, m_sb = b, mountpoint = Some mp\<rparr>]\<rparr>)))))))))"

text \<open>The mount whose root is \<open>i\<close>: the last one in the list that has a mount point.\<close>

definition mount_of :: "nat \<Rightarrow> vfs \<Rightarrow> mount option" where
  "mount_of i s =
     find (\<lambda>m. mountpoint m \<noteq> None \<and> map_option s_root (supers s (m_sb m)) = Some i) (rev (mounts s))"

definition vfs_umount :: "string \<Rightarrow> vfs \<Rightarrow> (errno + unit) vfs_result" where
  "vfs_umount target s =
     andthen (vfs_lookup target None s) (\<lambda>(r, s).
       case r of
         Inl e \<Rightarrow> Inr (Inl e, s)
       | Inr i \<Rightarrow>
           (case mount_of i s of
              None \<Rightarrow> put_and_return i (Inl EINVAL) s
            | Some m \<Rightarrow>
                andthen (fetch i s) (\<lambda>x.
                  if refcount x > 3 then put_and_return i (Inl EBUSY) s
                  else
                    (case mountpoint m of
                       None \<Rightarrow> Inl Null_pointer
                     | Some mp \<Rightarrow>
                         andthen (fetch mp s) (\<lambda>_.
                         andthen (iput i (upd_inode mp (\<lambda>x. x\<lparr>mounted := None\<rparr>) s)) (\<lambda>s.
                         andthen (fetch i s) (\<lambda>_.
                         andthen (iput mp (upd_inode i (\<lambda>x. x\<lparr>covered := None\<rparr>) s)) (\<lambda>s.
                         andthen (iput mp s) (\<lambda>s.
                           put_and_return i (Inr ()) (s\<lparr>mounts := remove1 m (mounts s)\<rparr>))))))))))"

end
