(* ===== verification/Vfs_Walk.thy ===== *)
theory Vfs_Walk
  imports Vfs "HOL-Library.Multiset"
begin

text \<open>
  References and the path walk. The reference count of an inode is the number of references to it: directory
  entries, mounts, open files, super blocks and those that callers hold. A walk takes and drops references
  on its way; in a well-formed tree it returns what pure name resolution returns, with one new reference to
  the result and all others as before.
\<close>

section \<open>Reading the tree\<close>

definition kids :: "vfs \<Rightarrow> nat \<Rightarrow> (string \<times> nat) list" where
  "kids s i = (case inodes s i of None \<Rightarrow> [] | Some x \<Rightarrow> (case priv x of None \<Rightarrow> [] | Some n \<Rightarrow> children n))"

definition par :: "vfs \<Rightarrow> nat \<Rightarrow> nat option" where
  "par s i = Option.bind (inodes s i) (\<lambda>x. Option.bind (priv x) parent)"

definition isdir :: "vfs \<Rightarrow> nat \<Rightarrow> bool" where
  "isdir s i = (case inodes s i of None \<Rightarrow> False | Some x \<Rightarrow> S_ISDIR (mode x))"

definition mnt :: "vfs \<Rightarrow> nat \<Rightarrow> nat option" where
  "mnt s i = Option.bind (inodes s i) mounted"

definition cov :: "vfs \<Rightarrow> nat \<Rightarrow> nat option" where
  "cov s i = Option.bind (inodes s i) covered"

definition alive :: "vfs \<Rightarrow> nat \<Rightarrow> bool" where
  "alive s i = (case inodes s i of None \<Rightarrow> False | Some x \<Rightarrow> 0 < refcount x)"

section \<open>Pure name resolution\<close>

partial_function (option) top :: "vfs \<Rightarrow> nat \<Rightarrow> nat option" where
  "top s i = (case mnt s i of None \<Rightarrow> Some i | Some r \<Rightarrow> top s r)"

text \<open>The inode a name leads to from a directory.\<close>

definition named :: "vfs \<Rightarrow> nat \<Rightarrow> string \<Rightarrow> nat option" where
  "named s dir name =
     (if name = ''..'' then Some (case par s dir of Some p \<Rightarrow> p | None \<Rightarrow> dir) else map_of (kids s dir) name)"

definition walk_step :: "vfs \<Rightarrow> nat \<Rightarrow> string \<Rightarrow> errno + nat" where
  "walk_step s cur name =
     (if \<not> isdir s cur then Inl ENOTDIR
      else if name = ''.'' then Inr cur
      else if name = ''..'' \<and> root_inode s = Some cur then Inr cur
      else
        (let dir = (if name = ''..'' then case cov s cur of Some c \<Rightarrow> c | None \<Rightarrow> cur else cur) in
         case named s dir name of None \<Rightarrow> Inl ENOENT | Some c \<Rightarrow> Inr (case top s c of Some t \<Rightarrow> t | None \<Rightarrow> c)))"

fun resolve :: "vfs \<Rightarrow> nat \<Rightarrow> string list \<Rightarrow> errno + nat" where
  "resolve s cur [] = Inr cur"
| "resolve s cur (c # cs) =
     (if length c > NAME_MAX then Inl ENAMETOOLONG
      else case walk_step s cur c of Inl e \<Rightarrow> Inl e | Inr i \<Rightarrow> resolve s i cs)"

fun resolve_parent :: "vfs \<Rightarrow> nat \<Rightarrow> string list \<Rightarrow> errno + nat \<times> string" where
  "resolve_parent s cur [] = Inl EINVAL"
| "resolve_parent s cur [c] =
     (if length c > NAME_MAX then Inl ENAMETOOLONG
      else if c = ''.'' \<or> c = ''..'' then Inl EINVAL
      else if isdir s cur then Inr (cur, c) else Inl ENOTDIR)"
| "resolve_parent s cur (c # cs) =
     (if length c > NAME_MAX then Inl ENAMETOOLONG
      else case walk_step s cur c of Inl e \<Rightarrow> Inl e | Inr i \<Rightarrow> resolve_parent s i cs)"

definition start_of :: "vfs \<Rightarrow> string \<Rightarrow> nat option \<Rightarrow> nat option" where
  "start_of s path cwd =
     (if path \<noteq> [] \<and> path ! 0 = slash then root_inode s else case cwd of None \<Rightarrow> root_inode s | Some _ \<Rightarrow> cwd)"

section \<open>Changing a reference count\<close>

definition bump :: "nat \<Rightarrow> int \<Rightarrow> vfs \<Rightarrow> vfs" where
  "bump i k = upd_inode i (\<lambda>x. x\<lparr>refcount := refcount x + k\<rparr>)"

lemma upd_inode_fields [simp]:
  "files (upd_inode i f s) = files s" "supers (upd_inode i f s) = supers s" "root_inode (upd_inode i f s) = root_inode s"
  "mounts (upd_inode i f s) = mounts s" "chrdevs (upd_inode i f s) = chrdevs s" "next_ino (upd_inode i f s) = next_ino s"
  "next_dev (upd_inode i f s) = next_dev s"
  by (simp_all add: upd_inode_def)

lemma inodes_upd_inode: "inodes (upd_inode i f s) j = (if j = i then map_option f (inodes s i) else inodes s j)"
  by (simp add: upd_inode_def)

lemma bump_fields [simp]:
  "files (bump i k s) = files s" "supers (bump i k s) = supers s" "root_inode (bump i k s) = root_inode s"
  "mounts (bump i k s) = mounts s" "chrdevs (bump i k s) = chrdevs s" "next_ino (bump i k s) = next_ino s"
  "next_dev (bump i k s) = next_dev s"
  by (simp_all add: bump_def)

lemma inodes_bump:
  "inodes (bump i k s) j = (if j = i then map_option (\<lambda>x. x\<lparr>refcount := refcount x + k\<rparr>) (inodes s i) else inodes s j)"
  by (simp add: bump_def inodes_upd_inode)

lemma bump_tree [simp]:
  "kids (bump i k s) = kids s" "par (bump i k s) = par s" "isdir (bump i k s) = isdir s" "mnt (bump i k s) = mnt s"
  "cov (bump i k s) = cov s"
  by (cases "inodes s i"; auto simp: fun_eq_iff kids_def par_def isdir_def mnt_def cov_def inodes_bump split: option.splits)+

lemma vfs_eqI:
  "inodes s = inodes t \<Longrightarrow> files s = files t \<Longrightarrow> supers s = supers t \<Longrightarrow> root_inode s = root_inode t \<Longrightarrow> mounts s = mounts t \<Longrightarrow>
   chrdevs s = chrdevs t \<Longrightarrow> next_ino s = next_ino t \<Longrightarrow> next_dev s = next_dev t \<Longrightarrow> s = (t :: vfs)"
  by simp

lemma bump_bump: "bump i a (bump i b s) = bump i (b + a) s"
  by (rule vfs_eqI) (auto simp: fun_eq_iff inodes_bump map_option.compositionality o_def ac_simps)

lemma bump_0 [simp]: "bump i 0 s = s"
  by (rule vfs_eqI) (auto simp: fun_eq_iff inodes_bump option.map_id0[unfolded id_def])

lemma bump_commute: "bump i a (bump j b s) = bump j b (bump i a s)"
  by (rule vfs_eqI) (auto simp: fun_eq_iff inodes_bump map_option.compositionality o_def ac_simps)

lemma alive_bump [simp]: "alive s i \<Longrightarrow> alive (bump j 1 s) i"
  by (auto simp: alive_def inodes_bump split: option.splits)

lemma fetch_alive: "alive s i \<Longrightarrow> \<exists>x. inodes s i = Some x \<and> fetch i s = Inr x \<and> 0 < refcount x"
  by (auto simp: alive_def fetch_def split: option.splits)

lemma iget_ok: "alive s i \<Longrightarrow> iget i s = Inr (bump i 1 s)"
  using fetch_alive[of s i] by (auto simp: iget_def bump_def)

text \<open>Dropping a reference that is not the last one.\<close>

lemma iput_ok: "alive s i \<Longrightarrow> iput i (bump i 1 s) = Inr s"
proof -
  assume "alive s i"
  then obtain x where x: "inodes s i = Some x" "0 < refcount x" using fetch_alive by blast
  then have "upd_inode i (\<lambda>x'. x'\<lparr>refcount := refcount x\<rparr>) (bump i 1 s) = s"
    by (intro vfs_eqI) (auto simp: fun_eq_iff inodes_upd_inode inodes_bump)
  with x show ?thesis by (simp add: iput_def fetch_def inodes_bump Let_def)
qed

lemma iput_ok2: "alive s i \<Longrightarrow> iput i (bump j 1 (bump i 1 s)) = Inr (bump j 1 s)"
  using iput_ok[of "bump j 1 s" i] by (simp add: bump_commute[of j])

section \<open>Well-formed trees\<close>

text \<open>What the walk relies on.\<close>

definition shape :: "inode \<Rightarrow> bool" where
  "shape x \<longleftrightarrow> (\<exists>n. priv x = Some n \<and>
     (if S_ISDIR (mode x) then iops x = Some Tmpfs_dir_ops \<and> distinct (map fst (children n))
      else iops x = Some Tmpfs_file_iops \<and> children n = [] \<and> parent n = None \<and> mounted x = None \<and> covered x = None))"

definition mount_rel :: "vfs \<Rightarrow> (nat \<times> nat) set" where
  "mount_rel s = {(r, i). mnt s i = Some r}"

definition walkable :: "vfs \<Rightarrow> bool" where
  "walkable s \<longleftrightarrow>
     (\<forall>i x. inodes s i = Some x \<longrightarrow> shape x \<and> 0 < refcount x) \<and>
     (\<forall>i c. c \<in> snd ` set (kids s i) \<or> mnt s i = Some c \<longrightarrow> alive s c) \<and>
     (\<forall>i p. par s i = Some p \<longrightarrow> isdir s p) \<and>
     (\<forall>i c. cov s i = Some c \<longrightarrow> isdir s c) \<and>
     (\<exists>r. root_inode s = Some r \<and> alive s r) \<and>
     wf (mount_rel s)"

lemma walkable_alive: "walkable s \<Longrightarrow> inodes s i = Some x \<Longrightarrow> alive s i"
  by (auto simp: walkable_def alive_def)

lemma walkable_isdir: "walkable s \<Longrightarrow> isdir s i \<Longrightarrow> alive s i"
  by (auto simp: isdir_def intro: walkable_alive split: option.splits)

lemma top_exists:
  assumes "wf (mount_rel s)"
  shows "\<exists>t. top s i = Some t"
  using assms
proof (induction i rule: wf_induct_rule)
  case (less i)
  show ?case
    by (subst top.simps) (auto split: option.splits intro: less simp: mount_rel_def)
qed

text \<open>Following mounts.\<close>

lemma follow_loop_ok:
  assumes "walkable s" "alive s i"
  shows "\<exists>t. top s i = Some t \<and> alive s t \<and> follow_loop i (bump i 1 s) = Some (Inr (t, bump t 1 s))"
proof -
  have "wf (mount_rel s)" using assms(1) by (simp add: walkable_def)
  then show ?thesis using assms(2)
  proof (induction i rule: wf_induct_rule)
    case (less i)
    then obtain x where x: "inodes s i = Some x" using fetch_alive by blast
    have f: "fetch i (bump i 1 s) = Inr (x\<lparr>refcount := refcount x + 1\<rparr>)" using x by (simp add: fetch_def inodes_bump)
    show ?case
    proof (cases "mounted x")
      case None
      then have "mnt s i = None" using x by (simp add: mnt_def)
      with None less(2) f show ?thesis by (subst top.simps, subst follow_loop.simps) simp
    next
      case (Some m)
      then have m: "mnt s i = Some m" using x by (simp add: mnt_def)
      then have al: "alive s m" using assms(1) by (auto simp: walkable_def)
      from less(1)[of m] m al obtain t where
        t: "top s m = Some t" "alive s t" "follow_loop m (bump m 1 s) = Some (Inr (t, bump t 1 s))"
        by (auto simp: mount_rel_def)
      have "iget m (bump i 1 s) = Inr (bump m 1 (bump i 1 s))" using al by (simp add: iget_ok)
      with t m Some f iput_ok2[OF less(2), of m] show ?thesis
        by (subst top.simps, subst follow_loop.simps) simp
    qed
  qed
qed

lemma follow_mounts_ok:
  assumes "walkable s" "alive s i"
  obtains t where "top s i = Some t" "alive s t" "follow_mounts i (bump i 1 s) = Inr (t, bump t 1 s)"
  using follow_loop_ok[OF assms] by (auto simp: follow_mounts_def)

text \<open>Looking up a name in a directory.\<close>

lemma isdir_node:
  assumes "walkable s" "isdir s i"
  obtains x n where "inodes s i = Some x" "priv x = Some n" "iops x = Some Tmpfs_dir_ops" "S_ISDIR (mode x)"
    "kids s i = children n" "par s i = parent n" "mnt s i = mounted x" "cov s i = covered x" "distinct (map fst (kids s i))"
    "0 < refcount x"
proof -
  obtain x where x: "inodes s i = Some x" "S_ISDIR (mode x)" using assms(2) by (auto simp: isdir_def split: option.splits)
  then have "shape x" "0 < refcount x" using assms(1) by (auto simp: walkable_def)
  with x that show ?thesis by (auto simp: shape_def kids_def par_def mnt_def cov_def)
qed

lemma tmpfs_lookup_ok:
  assumes w: "walkable s" and d: "isdir s dir"
  shows "tmpfs_lookup dir name (bump dir 1 s) =
    Inr (named s dir name, case named s dir name of None \<Rightarrow> bump dir 1 s | Some c \<Rightarrow> bump c 1 (bump dir 1 s))"
    "named s dir name = Some c \<Longrightarrow> alive s c"
proof -
  obtain x n where x: "inodes s dir = Some x" "priv x = Some n" "kids s dir = children n" "par s dir = parent n"
    using isdir_node[OF w d] by metis
  have f: "fetch dir (bump dir 1 s) = Inr (x\<lparr>refcount := refcount x + 1\<rparr>)" using x by (simp add: fetch_def inodes_bump)
  show al: "alive s c" if "named s dir name = Some c" for c
  proof (cases "name = ''..''")
    case True
    then have c: "c = (case par s dir of Some p \<Rightarrow> p | None \<Rightarrow> dir)" using that by (simp add: named_def)
    have "isdir s c" using w d unfolding c by (auto simp: walkable_def split: option.splits)
    then show ?thesis by (rule walkable_isdir[OF w])
  next
    case False
    then have "c \<in> snd ` set (kids s dir)" using that map_of_SomeD by (force simp: named_def)
    then show ?thesis using w by (auto simp: walkable_def)
  qed
  show "tmpfs_lookup dir name (bump dir 1 s) =
    Inr (named s dir name, case named s dir name of None \<Rightarrow> bump dir 1 s | Some c \<Rightarrow> bump c 1 (bump dir 1 s))"
  proof (cases "name = ''..''")
    case True
    then have "named s dir name = Some (case parent n of Some p \<Rightarrow> p | None \<Rightarrow> dir)" using x(4) by (simp add: named_def)
    moreover from al[OF this] have "iget (case parent n of Some p \<Rightarrow> p | None \<Rightarrow> dir) (bump dir 1 s) =
      Inr (bump (case parent n of Some p \<Rightarrow> p | None \<Rightarrow> dir) 1 (bump dir 1 s))" by (simp add: iget_ok)
    ultimately show ?thesis using True f x by (simp add: tmpfs_lookup_def NODE_def Let_def)
  next
    case False
    then have "named s dir name = map_of (children n) name" using x(3) by (simp add: named_def)
    with False f x al show ?thesis
      by (auto simp: tmpfs_lookup_def find_entry_def NODE_def iget_ok split: option.splits)
  qed
qed

text \<open>One component.\<close>

lemma step_ok:
  assumes w: "walkable s" and a: "alive s cur"
  shows "case walk_step s cur name of
      Inl e \<Rightarrow> \<exists>c. alive s c \<and> step cur name (bump cur 1 s) = Inr ((Some e, c), bump c 1 s)
    | Inr i \<Rightarrow> alive s i \<and> step cur name (bump cur 1 s) = Inr ((None, i), bump i 1 s)"
proof -
  obtain x where x: "inodes s cur = Some x" using fetch_alive[OF a] by blast
  have f: "fetch cur (bump cur 1 s) = Inr (x\<lparr>refcount := refcount x + 1\<rparr>)" using x by (simp add: fetch_def inodes_bump)
  have di: "isdir s cur \<longleftrightarrow> S_ISDIR (mode x)" "cov s cur = covered x" using x by (simp_all add: isdir_def cov_def)
  consider (nodir) "\<not> isdir s cur" | (stay) "isdir s cur" "name = ''.'' \<or> name = ''..'' \<and> root_inode s = Some cur"
    | (go) "isdir s cur" "name \<noteq> ''.''" "\<not> (name = ''..'' \<and> root_inode s = Some cur)" by blast
  then show ?thesis
  proof cases
    case nodir
    with a f di show ?thesis by (auto simp: walk_step_def step_def)
  next
    case stay
    with a f di show ?thesis by (auto simp: walk_step_def step_def)
  next
    case go
    define dir where "dir = (if name = ''..'' then case cov s cur of Some c \<Rightarrow> c | None \<Rightarrow> cur else cur)"
    have d: "isdir s dir" using w go(1) by (auto simp: dir_def walkable_def split: option.splits)
    then have ad: "alive s dir" by (rule walkable_isdir[OF w])
    have out: "(if name = ''..'' then
          (case covered (x\<lparr>refcount := refcount x + 1\<rparr>) of
             None \<Rightarrow> Inr (cur, bump cur 1 s)
           | Some c \<Rightarrow> andthen (iget c (bump cur 1 s)) (\<lambda>s. andthen (iput cur s) (\<lambda>s. Inr (c, s))))
        else Inr (cur, bump cur 1 s)) = (Inr (dir, bump dir 1 s) :: vfs_panic + nat \<times> vfs)"
      using ad a iput_ok2[OF a] by (auto simp: dir_def di iget_ok split: option.splits)
    obtain y where y: "inodes s dir = Some y" "iops y = Some Tmpfs_dir_ops" using isdir_node[OF w d] by metis
    have fy: "fetch dir (bump dir 1 s) = Inr (y\<lparr>refcount := refcount y + 1\<rparr>)" using y by (simp add: fetch_def inodes_bump)
    have ws: "walk_step s cur name = (case named s dir name of None \<Rightarrow> Inl ENOENT
      | Some c \<Rightarrow> Inr (case top s c of Some t \<Rightarrow> t | None \<Rightarrow> c))"
      using go by (auto simp: walk_step_def dir_def Let_def)
    have st: "step cur name (bump cur 1 s) =
      andthen (tmpfs_lookup dir name (bump dir 1 s)) (\<lambda>(r, s).
               case r of
                 None \<Rightarrow> Inr ((Some ENOENT, dir), s)
               | Some child \<Rightarrow>
                   andthen (iput dir s) (\<lambda>s.
                   andthen (follow_mounts child s) (\<lambda>(c, s). Inr ((None, c), s))))"
      unfolding step_def f andthen_simps
      using go di(1) y(2) by (simp only: bump_fields) (simp add: out[simplified] fy)
    show ?thesis
    proof (cases "named s dir name")
      case None
      with ad show ?thesis unfolding st ws tmpfs_lookup_ok(1)[OF w d] by auto
    next
      case (Some c)
      then have ac: "alive s c" using tmpfs_lookup_ok(2)[OF w d] by blast
      obtain t where t: "top s c = Some t" "alive s t" "follow_mounts c (bump c 1 s) = Inr (t, bump t 1 s)"
        using follow_mounts_ok[OF w ac] .
      with Some ad iput_ok2[OF ad, of c] show ?thesis unfolding st ws tmpfs_lookup_ok(1)[OF w d] by simp
    qed
  qed
qed

section \<open>Paths\<close>

lemma lookup_loop_ok:
  assumes "walkable s" "alive s cur" "components p = cs"
  shows "case resolve s cur cs of
      Inl e \<Rightarrow> lookup_loop p cur (bump cur 1 s) = Inr (Inl e, s)
    | Inr i \<Rightarrow> alive s i \<and> lookup_loop p cur (bump cur 1 s) = Inr (Inr i, bump i 1 s)"
  using assms(2,3)
proof (induction cs arbitrary: cur p)
  case Nil
  then show ?case by (subst lookup_loop.simps) (simp add: next_component_components)
next
  case (Cons c cs)
  let ?rest = "dropWhile (\<lambda>c. c \<noteq> slash) (dropWhile (\<lambda>c. c = slash) p)"
  have r: "components ?rest = cs" using next_component_components(2)[of p] Cons(3) by simp
  show ?case
  proof (cases "length c > NAME_MAX")
    case True
    with Cons(3) iput_ok[OF Cons(2)] show ?thesis
      by (subst lookup_loop.simps) (simp add: next_component_components(1))
  next
    case False
    then have n: "next_component p = Some (Inr (c, ?rest))" using Cons(3) by (simp add: next_component_components(1))
    note st = step_ok[OF assms(1) Cons(2), of c]
    show ?thesis
    proof (cases "walk_step s cur c")
      case (Inl e)
      with st obtain c' where c: "alive s c'" "step cur c (bump cur 1 s) = Inr ((Some e, c'), bump c' 1 s)" by auto
      with n False Inl show ?thesis by (subst lookup_loop.simps) (simp add: iput_ok)
    next
      case (Inr i)
      with st have c: "alive s i" "step cur c (bump cur 1 s) = Inr ((None, i), bump i 1 s)" by auto
      then have "lookup_loop p cur (bump cur 1 s) = lookup_loop ?rest i (bump i 1 s)"
        using n by (subst lookup_loop.simps) simp
      with False Inr Cons(1)[OF c(1) r] show ?thesis by (simp split: sum.splits)
    qed
  qed
qed

lemma parent_loop_ok:
  assumes "walkable s" "alive s cur" "components p = cs"
  shows "case resolve_parent s cur cs of
      Inl e \<Rightarrow> parent_loop p cur (bump cur 1 s) = Inr (Inl e, s)
    | Inr (i, name) \<Rightarrow> isdir s i \<and> length name \<le> NAME_MAX \<and> name \<noteq> ''.'' \<and> name \<noteq> ''..'' \<and>
        parent_loop p cur (bump cur 1 s) = Inr (Inr (i, name), bump i 1 s)"
  using assms(2,3)
proof (induction cs arbitrary: cur p)
  case Nil
  then show ?case by (subst parent_loop.simps) (simp add: next_component_components iput_ok)
next
  case (Cons c cs)
  let ?rest = "dropWhile (\<lambda>c. c \<noteq> slash) (dropWhile (\<lambda>c. c = slash) p)"
  have r: "components ?rest = cs" using next_component_components(2)[of p] Cons(3) by simp
  have e: "dropWhile (\<lambda>c. c = slash) ?rest = [] \<longleftrightarrow> cs = []"
    using components_none[of ?rest] components_step[OF refl, of ?rest] r by (metis list.distinct(1))
  obtain x where x: "inodes s cur = Some x" using fetch_alive[OF Cons(2)] by blast
  then have f: "fetch cur (bump cur 1 s) = Inr (x\<lparr>refcount := refcount x + 1\<rparr>)" "isdir s cur \<longleftrightarrow> S_ISDIR (mode x)"
    by (simp_all add: fetch_def inodes_bump isdir_def)
  consider (long) "length c > NAME_MAX" | (last) "length c \<le> NAME_MAX" "cs = []"
    | (inner) d ds where "length c \<le> NAME_MAX" "cs = d # ds" by (cases cs; metis not_le_imp_less)
  then show ?case
  proof cases
    case long
    then have "resolve_parent s cur (c # cs) = Inl ENAMETOOLONG" by (cases cs) simp_all
    with long Cons(3) iput_ok[OF Cons(2)] show ?thesis
      by (subst parent_loop.simps) (simp add: next_component_components(1))
  next
    case last
    then have n: "next_component p = Some (Inr (c, ?rest))" using Cons(3) by (simp add: next_component_components(1))
    have ne: "dropWhile (\<lambda>c. c = slash) ?rest = []" using e last(2) by blast
    have "parent_loop p cur (bump cur 1 s) =
      (if c = ''.'' \<or> c = ''..'' then Inr (Inl EINVAL, s)
       else if \<not> isdir s cur then Inr (Inl ENOTDIR, s) else Inr (Inr (cur, c), bump cur 1 s))"
      by (subst parent_loop.simps) (simp only: n ne option.case sum.case prod.case if_True f andthen_simps iput_ok[OF Cons(2)], simp)
    with last show ?thesis by simp
  next
    case inner
    then have n: "next_component p = Some (Inr (c, ?rest))" using Cons(3) by (simp add: next_component_components(1))
    have ne: "dropWhile (\<lambda>c. c = slash) ?rest \<noteq> []" using e inner(2) by blast
    note st = step_ok[OF assms(1) Cons(2), of c]
    show ?thesis
    proof (cases "walk_step s cur c")
      case (Inl e)
      with st obtain c' where c: "alive s c'" "step cur c (bump cur 1 s) = Inr ((Some e, c'), bump c' 1 s)" by auto
      with n ne inner Inl show ?thesis
        by (subst parent_loop.simps) (simp only: option.case sum.case prod.case if_False andthen_simps, simp add: iput_ok)
    next
      case (Inr i)
      with st have c: "alive s i" "step cur c (bump cur 1 s) = Inr ((None, i), bump i 1 s)" by auto
      have "parent_loop p cur (bump cur 1 s) = parent_loop ?rest i (bump i 1 s)"
        using n ne c by (subst parent_loop.simps) (simp only: option.case sum.case prod.case if_False andthen_simps)
      with inner Inr Cons(1)[OF c(1) r] show ?thesis by (auto split: sum.splits prod.splits)
    qed
  qed
qed

text \<open>The walk from the start inode.\<close>

lemma start_alive:
  assumes "walkable s" "\<forall>c. cwd = Some c \<longrightarrow> alive s c"
  obtains i where "start_of s path cwd = Some i" "alive s i" "start_inode path cwd s = Inr (i, bump i 1 s)"
proof -
  obtain r where r: "root_inode s = Some r" "alive s r" using assms(1) by (auto simp: walkable_def)
  obtain i where i: "start_of s path cwd = Some i" "alive s i"
  proof (cases "path \<noteq> [] \<and> path ! 0 = slash \<or> cwd = None")
    case True
    then have "start_of s path cwd = root_inode s" by (auto simp: start_of_def)
    with r that show ?thesis by simp
  next
    case False
    then have "start_of s path cwd = cwd" by (auto simp: start_of_def)
    with False assms(2) that show ?thesis by auto
  qed
  then have "start_inode path cwd s = Inr (i, bump i 1 s)"
    by (simp add: start_inode_def start_of_def Let_def iget_ok)
  with i that show ?thesis by blast
qed

definition lookup_result :: "vfs \<Rightarrow> string \<Rightarrow> nat option \<Rightarrow> errno + nat" where
  "lookup_result s path cwd =
     (if path = [] then Inl ENOENT
      else if length path \<ge> PATH_MAX then Inl ENAMETOOLONG
      else case start_of s path cwd of None \<Rightarrow> Inl ENOENT | Some i \<Rightarrow> resolve s i (components path))"

definition parent_result :: "vfs \<Rightarrow> string \<Rightarrow> nat option \<Rightarrow> errno + nat \<times> string" where
  "parent_result s path cwd =
     (if path = [] then Inl ENOENT
      else if length path \<ge> PATH_MAX then Inl ENAMETOOLONG
      else case start_of s path cwd of None \<Rightarrow> Inl ENOENT | Some i \<Rightarrow> resolve_parent s i (components path))"

lemma vfs_lookup_ok:
  assumes "walkable s" "\<forall>c. cwd = Some c \<longrightarrow> alive s c"
  shows "case lookup_result s path cwd of
      Inl e \<Rightarrow> vfs_lookup path cwd s = Inr (Inl e, s)
    | Inr i \<Rightarrow> alive s i \<and> vfs_lookup path cwd s = Inr (Inr i, bump i 1 s)"
proof -
  obtain i where i: "start_of s path cwd = Some i" "alive s i" "start_inode path cwd s = Inr (i, bump i 1 s)"
    using start_alive[OF assms] .
  with lookup_loop_ok[OF assms(1) i(2) refl, of path] show ?thesis
    by (cases "path = [] \<or> length path \<ge> PATH_MAX") (auto simp: lookup_result_def vfs_lookup_def split: sum.splits)
qed

lemma vfs_lookup_parent_ok:
  assumes "walkable s" "\<forall>c. cwd = Some c \<longrightarrow> alive s c"
  shows "case parent_result s path cwd of
      Inl e \<Rightarrow> vfs_lookup_parent path cwd s = Inr (Inl e, s)
    | Inr (i, name) \<Rightarrow> isdir s i \<and> length name \<le> NAME_MAX \<and> name \<noteq> ''.'' \<and> name \<noteq> ''..'' \<and>
        vfs_lookup_parent path cwd s = Inr (Inr (i, name), bump i 1 s)"
proof -
  obtain i where i: "start_of s path cwd = Some i" "alive s i" "start_inode path cwd s = Inr (i, bump i 1 s)"
    using start_alive[OF assms] .
  with parent_loop_ok[OF assms(1) i(2) refl, of path] show ?thesis
    by (cases "path = [] \<or> length path \<ge> PATH_MAX") (auto simp: parent_result_def vfs_lookup_parent_def split: sum.splits)
qed

end
