(* ===== verification/Vfs_Tree.thy ===== *)
theory Vfs_Tree
  imports Vfs_Walk
begin

text \<open>
  The invariant of the file tree. The count of every inode is exact; entries of a directory that are
  directories point back to it; the parent pointers and the mounts have no cycles. A tree is attached when
  every directory with a parent is an entry of it: then no parent pointer dangles.
\<close>

section \<open>References\<close>

definition opt_ref :: "nat option \<Rightarrow> nat multiset" where
  "opt_ref r = (case r of None \<Rightarrow> {#} | Some i \<Rightarrow> {#i#})"

lemma opt_ref_simps [simp]: "opt_ref None = {#}" "opt_ref (Some i) = {#i#}"
  by (simp_all add: opt_ref_def)

definition node_refs :: "inode \<Rightarrow> nat multiset" where
  "node_refs x = (case priv x of None \<Rightarrow> {#} | Some n \<Rightarrow> mset (map snd (children n))) + opt_ref (mounted x) + opt_ref (covered x)"

definition store_sum :: "('a \<Rightarrow> nat multiset) \<Rightarrow> (nat \<Rightarrow> 'a option) \<Rightarrow> nat multiset" where
  "store_sum f m = (\<Sum>i\<in>dom m. f (the (m i)))"

definition refs :: "vfs \<Rightarrow> nat multiset" where
  "refs s = store_sum node_refs (inodes s) + store_sum (\<lambda>f. {#f_inode f#}) (files s) + store_sum (\<lambda>b. {#s_root b#}) (supers s)
     + mset (List.map_filter mountpoint (mounts s)) + opt_ref (root_inode s)"

lemma store_sum_new:
  assumes "finite (dom m)" "m i = None"
  shows "store_sum f (m(i \<mapsto> y)) = store_sum f m + f y"
proof -
  have "(\<Sum>j\<in>dom m. f (the ((m(i \<mapsto> y)) j))) = (\<Sum>j\<in>dom m. f (the (m j)))"
    using assms(2) by (intro sum.cong) auto
  with assms show ?thesis by (simp add: store_sum_def domIff sum.insert_if ac_simps)
qed

lemma store_sum_upd:
  assumes "finite (dom m)" "m i = Some x"
  shows "store_sum f (m(i \<mapsto> y)) + f x = store_sum f m + f y"
proof -
  have d: "dom (m(i \<mapsto> y)) = insert i (dom m - {i})" "dom m = insert i (dom m - {i})" using assms(2) by auto
  have "(\<Sum>j\<in>dom m - {i}. f (the ((m(i \<mapsto> y)) j))) = (\<Sum>j\<in>dom m - {i}. f (the (m j)))" by (intro sum.cong) auto
  then have "store_sum f (m(i \<mapsto> y)) = f y + (\<Sum>j\<in>dom m - {i}. f (the (m j)))"
    unfolding store_sum_def d(1) using assms(1) by (subst sum.insert) auto
  moreover have "store_sum f m = f x + (\<Sum>j\<in>dom m - {i}. f (the (m j)))"
    unfolding store_sum_def by (subst d(2), subst sum.insert) (use assms in auto)
  ultimately show ?thesis by (simp add: ac_simps)
qed

lemma store_sum_del:
  assumes "finite (dom m)" "m i = Some x"
  shows "store_sum f (m(i := None)) + f x = store_sum f m"
proof -
  have d: "dom (m(i := None)) = dom m - {i}" "dom m = insert i (dom m - {i})" using assms(2) by auto
  have "(\<Sum>j\<in>dom m - {i}. f (the ((m(i := None)) j))) = (\<Sum>j\<in>dom m - {i}. f (the (m j)))" by (intro sum.cong) auto
  then have "store_sum f (m(i := None)) = (\<Sum>j\<in>dom m - {i}. f (the (m j)))"
    unfolding store_sum_def d(1) .
  moreover have "store_sum f m = f x + (\<Sum>j\<in>dom m - {i}. f (the (m j)))"
    unfolding store_sum_def by (subst d(2), subst sum.insert) (use assms in auto)
  ultimately show ?thesis by (simp add: ac_simps)
qed

lemma store_sum_mem:
  assumes "finite (dom m)" "m i = Some x"
  shows "f x \<subseteq># store_sum f m"
  using store_sum_del[OF assms, of f] by (metis mset_subset_eq_add_right)

section \<open>The invariant\<close>

definition rc :: "vfs \<Rightarrow> nat \<Rightarrow> int" where
  "rc s i = (case inodes s i of None \<Rightarrow> 0 | Some x \<Rightarrow> refcount x)"

text \<open>\<open>H\<close> is the bag of references that callers hold.\<close>

definition counted :: "nat multiset \<Rightarrow> vfs \<Rightarrow> bool" where
  "counted H s \<longleftrightarrow> finite (dom (inodes s)) \<and> finite (dom (files s)) \<and> finite (dom (supers s)) \<and>
     (\<forall>i. rc s i = int (count (refs s + H) i)) \<and> (\<forall>i x. inodes s i = Some x \<longrightarrow> 0 < refcount x)"

definition par_rel :: "vfs \<Rightarrow> (nat \<times> nat) set" where
  "par_rel s = {(i, p). par s i = Some p}"

definition is_root :: "vfs \<Rightarrow> nat \<Rightarrow> bool" where
  "is_root s i \<longleftrightarrow> (\<exists>b sb. supers s b = Some sb \<and> s_root sb = i)"

definition mount_ok :: "vfs \<Rightarrow> mount \<Rightarrow> bool" where
  "mount_ok s m \<longleftrightarrow> (\<forall>mp. mountpoint m = Some mp \<longrightarrow>
     (\<exists>sb. supers s (m_sb m) = Some sb \<and> mnt s mp = Some (s_root sb) \<and> cov s (s_root sb) = Some mp))"

definition tree :: "vfs \<Rightarrow> bool" where
  "tree s \<longleftrightarrow>
     (\<forall>i x. inodes s i = Some x \<longrightarrow> shape x \<and> (\<forall>b. i_sb x = Some b \<longrightarrow> supers s b \<noteq> None)) \<and>
     (\<forall>p name i. (name, i) \<in> set (kids s p) \<and> isdir s i \<longrightarrow> par s i = Some p) \<and>
     (\<forall>p a b i. (a, i) \<in> set (kids s p) \<and> (b, i) \<in> set (kids s p) \<and> isdir s i \<longrightarrow> a = b) \<and>
     (\<forall>i. is_root s i \<longrightarrow> isdir s i \<and> par s i = None) \<and>
     (\<forall>i. isdir s i \<and> par s i = None \<longrightarrow> is_root s i) \<and>
     (\<forall>i c. cov s i = Some c \<longrightarrow> isdir s c \<and> is_root s i) \<and>
     (\<exists>r. root_inode s = Some r \<and> isdir s r) \<and>
     acyclic (par_rel s) \<and> acyclic (mount_rel s) \<and>
     (\<forall>m\<in>set (mounts s). mount_ok s m) \<and> distinct (List.map_filter mountpoint (mounts s)) \<and>
     (\<forall>i r. mnt s i = Some r \<longrightarrow> cov s r = Some i)"

definition attached :: "vfs \<Rightarrow> bool" where
  "attached s \<longleftrightarrow> (\<forall>i p. par s i = Some p \<longrightarrow> i \<in> snd ` set (kids s p))"

definition vfs_inv :: "nat multiset \<Rightarrow> vfs \<Rightarrow> bool" where
  "vfs_inv H s \<longleftrightarrow> counted H s \<and> tree s \<and> attached s"

lemma treeI:
  assumes "\<And>i x. inodes s i = Some x \<Longrightarrow> shape x" "\<And>i x b. inodes s i = Some x \<Longrightarrow> i_sb x = Some b \<Longrightarrow> supers s b \<noteq> None"
    "\<And>p name i. (name, i) \<in> set (kids s p) \<Longrightarrow> isdir s i \<Longrightarrow> par s i = Some p"
    "\<And>p a b i. (a, i) \<in> set (kids s p) \<Longrightarrow> (b, i) \<in> set (kids s p) \<Longrightarrow> isdir s i \<Longrightarrow> a = b"
    "\<And>i. is_root s i \<Longrightarrow> isdir s i" "\<And>i. is_root s i \<Longrightarrow> par s i = None"
    "\<And>i. isdir s i \<Longrightarrow> par s i = None \<Longrightarrow> is_root s i"
    "\<And>i c. cov s i = Some c \<Longrightarrow> isdir s c" "\<And>i c. cov s i = Some c \<Longrightarrow> is_root s i"
    "\<exists>r. root_inode s = Some r \<and> isdir s r" "acyclic (par_rel s)" "acyclic (mount_rel s)"
    "\<And>m. m \<in> set (mounts s) \<Longrightarrow> mount_ok s m" "distinct (List.map_filter mountpoint (mounts s))"
    "\<And>i r. mnt s i = Some r \<Longrightarrow> cov s r = Some i"
  shows "tree s"
  using assms unfolding tree_def by blast

lemma tree_shape: "tree s \<Longrightarrow> inodes s i = Some x \<Longrightarrow> shape x"
  and tree_sb: "tree s \<Longrightarrow> inodes s i = Some x \<Longrightarrow> i_sb x = Some b \<Longrightarrow> supers s b \<noteq> None"
  and tree_par: "tree s \<Longrightarrow> (name, i) \<in> set (kids s p) \<Longrightarrow> isdir s i \<Longrightarrow> par s i = Some p"
  and tree_once: "tree s \<Longrightarrow> (name, i) \<in> set (kids s p) \<Longrightarrow> (name', i) \<in> set (kids s p) \<Longrightarrow> isdir s i \<Longrightarrow> name = name'"
  and tree_root: "tree s \<Longrightarrow> \<exists>r. root_inode s = Some r \<and> isdir s r"
  and tree_acyclic: "tree s \<Longrightarrow> acyclic (par_rel s)" "tree s \<Longrightarrow> acyclic (mount_rel s)"
  and tree_mounts: "tree s \<Longrightarrow> m \<in> set (mounts s) \<Longrightarrow> mount_ok s m" "tree s \<Longrightarrow> distinct (List.map_filter mountpoint (mounts s))"
  unfolding tree_def by blast+

lemma tree_mnt: "tree s \<Longrightarrow> mnt s i = Some r \<Longrightarrow> cov s r = Some i"
  unfolding tree_def by blast

lemma tree_is_root: "tree s \<Longrightarrow> is_root s i \<Longrightarrow> isdir s i" "tree s \<Longrightarrow> is_root s i \<Longrightarrow> par s i = None"
  "tree s \<Longrightarrow> isdir s i \<Longrightarrow> par s i = None \<Longrightarrow> is_root s i"
  unfolding tree_def by blast+

lemma tree_cov: "tree s \<Longrightarrow> cov s i = Some c \<Longrightarrow> isdir s c" "tree s \<Longrightarrow> cov s i = Some c \<Longrightarrow> is_root s i"
  unfolding tree_def by blast+

lemma kidsE:
  assumes "e \<in> set (kids s i)"
  obtains x n where "inodes s i = Some x" "priv x = Some n" "e \<in> set (children n)"
  using assms by (cases "inodes s i"; cases "priv (the (inodes s i))") (auto simp: kids_def)

lemma refs_kids: "finite (dom (inodes s)) \<Longrightarrow> (name, c) \<in> set (kids s i) \<Longrightarrow> c \<in># refs s"
proof -
  assume fin: "finite (dom (inodes s))" and k: "(name, c) \<in> set (kids s i)"
  from k obtain x n where x: "inodes s i = Some x" "priv x = Some n" "(name, c) \<in> set (children n)"
    by (rule kidsE)
  then have "c \<in># node_refs x" by (force simp: node_refs_def)
  then have "c \<in># store_sum node_refs (inodes s)"
    using store_sum_mem[where f = node_refs, OF fin x(1)] by (meson mset_subset_eqD)
  then show ?thesis by (simp add: refs_def)
qed

lemma refs_mnt_cov:
  assumes fin: "finite (dom (inodes s))" and m: "mnt s i = Some c \<or> cov s i = Some c"
  shows "c \<in># refs s"
proof -
  obtain x where x: "inodes s i = Some x" "mounted x = Some c \<or> covered x = Some c"
    using m by (auto simp: mnt_def cov_def Option.bind_eq_Some_conv)
  then have "c \<in># node_refs x" by (auto simp: node_refs_def)
  then have "c \<in># store_sum node_refs (inodes s)"
    using store_sum_mem[where f = node_refs, OF fin x(1)] by (meson mset_subset_eqD)
  then show ?thesis by (simp add: refs_def)
qed

lemma refs_root: "root_inode s = Some r \<Longrightarrow> r \<in># refs s"
  by (simp add: refs_def)

lemma refs_is_root: "finite (dom (supers s)) \<Longrightarrow> is_root s i \<Longrightarrow> i \<in># refs s"
proof -
  assume fin: "finite (dom (supers s))" and "is_root s i"
  then obtain b sb where b: "supers s b = Some sb" "s_root sb = i" by (auto simp: is_root_def)
  then have "i \<in># store_sum (\<lambda>b. {#s_root b#}) (supers s)"
    using store_sum_mem[where f = "\<lambda>b. {#s_root b#}", OF fin b(1)] by simp
  then show ?thesis by (simp add: refs_def)
qed

lemma counted_alive: "counted H s \<Longrightarrow> i \<in># refs s + H \<Longrightarrow> alive s i"
proof -
  assume c: "counted H s" and i: "i \<in># refs s + H"
  then have "0 < rc s i" unfolding counted_def by (metis count_greater_zero_iff of_nat_0_less_iff)
  then show ?thesis by (auto simp: rc_def alive_def split: option.splits)
qed

lemma finite_acyclic_wf_mount: "finite (dom (inodes s)) \<Longrightarrow> acyclic (mount_rel s) \<Longrightarrow> wf (mount_rel s)"
proof -
  assume fin: "finite (dom (inodes s))" and ac: "acyclic (mount_rel s)"
  have "mount_rel s \<subseteq> (\<lambda>i. (the (mnt s i), i)) ` dom (inodes s)"
    by (force simp: mount_rel_def mnt_def Option.bind_eq_Some_conv)
  then have "finite (mount_rel s)" using fin finite_surj by blast
  then show ?thesis using ac by (rule finite_acyclic_wf)
qed

lemma kids_isdir: "tree s \<Longrightarrow> (name, c) \<in> set (kids s i) \<Longrightarrow> isdir s i"
proof (erule kidsE)
  fix x n assume "tree s" "inodes s i = Some x" "priv x = Some n" "(name, c) \<in> set (children n)"
  then have "shape x" by (simp add: tree_def)
  then show "isdir s i" using \<open>inodes s i = Some x\<close> \<open>priv x = Some n\<close> \<open>(name, c) \<in> set (children n)\<close>
    by (auto simp: shape_def isdir_def split: if_splits)
qed

lemma attached_par: "tree s \<Longrightarrow> attached s \<Longrightarrow> par s i = Some p \<Longrightarrow> isdir s p"
  unfolding attached_def using kids_isdir by fastforce

lemma inv_walkable: "vfs_inv H s \<Longrightarrow> walkable s"
proof -
  assume inv: "vfs_inv H s"
  then have c: "counted H s" and t: "tree s" and a: "attached s" by (simp_all add: vfs_inv_def)
  have fin: "finite (dom (inodes s))" "finite (dom (supers s))" using c by (simp_all add: counted_def)
  have "alive s d" if "d \<in> snd ` set (kids s i) \<or> mnt s i = Some d" for i d
  proof -
    have "d \<in># refs s" using that refs_kids[OF fin(1), of _ d i] refs_mnt_cov[OF fin(1), of i d] by force
    then show ?thesis using counted_alive[OF c] by simp
  qed
  moreover have "\<exists>r. root_inode s = Some r \<and> alive s r"
  proof -
    obtain r where "root_inode s = Some r" using tree_root[OF t] by blast
    then show ?thesis using counted_alive[OF c, of r] refs_root by simp
  qed
  moreover have "wf (mount_rel s)" using finite_acyclic_wf_mount[OF fin(1) tree_acyclic(2)[OF t]] .
  moreover have "shape x \<and> 0 < refcount x" if "inodes s i = Some x" for i x
    using that tree_shape[OF t] c by (simp add: counted_def)
  moreover have "isdir s d" if "cov s i = Some d" for i d using tree_cov(1)[OF t that] .
  moreover have "isdir s p" if "par s i = Some p" for i p using attached_par[OF t a that] .
  ultimately show ?thesis unfolding walkable_def by blast
qed

lemma held_alive: "vfs_inv H s \<Longrightarrow> i \<in># H \<Longrightarrow> alive s i"
  using counted_alive by (auto simp: vfs_inv_def)

text \<open>Directories of an attached tree are referenced from inside the tree.\<close>

lemma dir_in_refs: "vfs_inv H s \<Longrightarrow> isdir s i \<Longrightarrow> i \<in># refs s"
proof -
  assume inv: "vfs_inv H s" and d: "isdir s i"
  then have fin: "finite (dom (inodes s))" "finite (dom (supers s))" and t: "tree s" and a: "attached s"
    by (simp_all add: vfs_inv_def counted_def)
  show ?thesis
  proof (cases "par s i")
    case None
    then have "is_root s i" using tree_is_root(3)[OF t d] by simp
    then show ?thesis by (rule refs_is_root[OF fin(2)])
  next
    case (Some p)
    then obtain name where "(name, i) \<in> set (kids s p)" using a by (force simp: attached_def)
    then show ?thesis by (rule refs_kids[OF fin(1)])
  qed
qed

section \<open>Changes that keep the tree\<close>

definition skel :: "inode \<Rightarrow> u32 \<times> nat option \<times> inode_ops option \<times> tmpfs_node option \<times> nat option \<times> nat option" where
  "skel x = (mode x, i_sb x, iops x, priv x, mounted x, covered x)"

definition agree :: "vfs \<Rightarrow> vfs \<Rightarrow> bool" where
  "agree s t \<longleftrightarrow> (\<forall>i. map_option skel (inodes s i) = map_option skel (inodes t i)) \<and>
     files s = files t \<and> supers s = supers t \<and> root_inode s = root_inode t \<and> mounts s = mounts t"

lemma agreeD: "agree s t \<Longrightarrow> inodes t i = Some y \<Longrightarrow> \<exists>x. inodes s i = Some x \<and> skel x = skel y"
  unfolding agree_def by (metis map_option_eq_Some)

lemma agree_sym: "agree s t \<Longrightarrow> agree t s"
  by (simp add: agree_def)

lemma agree_trans: "agree s t \<Longrightarrow> agree t u \<Longrightarrow> agree s u"
  by (simp add: agree_def)

lemma agree_upd [simp]: "(\<And>x. skel (f x) = skel x) \<Longrightarrow> agree s (upd_inode i f s)"
  by (auto simp: agree_def inodes_upd_inode map_option.compositionality o_def)

lemma agree_bump [simp]: "agree s (bump i k s)"
  unfolding bump_def by (rule agree_upd) (simp add: skel_def)

lemma agree_dom: "agree s t \<Longrightarrow> dom (inodes t) = dom (inodes s)"
  unfolding agree_def dom_def by (metis map_option_is_None)

lemma agree_view:
  assumes "agree s t"
  shows "kids t = kids s" "par t = par s" "isdir t = isdir s" "mnt t = mnt s" "cov t = cov s"
proof -
  have "kids t i = kids s i \<and> par t i = par s i \<and> isdir t i = isdir s i \<and> mnt t i = mnt s i \<and> cov t i = cov s i" for i
  proof (cases "inodes t i")
    case None
    then have "inodes s i = None" using assms by (simp add: agree_def) (metis map_option_is_None)
    with None show ?thesis by (simp add: kids_def par_def isdir_def mnt_def cov_def)
  next
    case (Some y)
    then obtain x where "inodes s i = Some x" "skel x = skel y" using agreeD[OF assms] by blast
    with Some show ?thesis by (simp add: kids_def par_def isdir_def mnt_def cov_def skel_def)
  qed
  then show "kids t = kids s" "par t = par s" "isdir t = isdir s" "mnt t = mnt s" "cov t = cov s" by auto
qed

lemma agree_refs: "agree s t \<Longrightarrow> refs t = refs s"
proof -
  assume a: "agree s t"
  have "store_sum node_refs (inodes t) = store_sum node_refs (inodes s)"
    unfolding store_sum_def agree_dom[OF a]
  proof (rule sum.cong[OF refl])
    fix i assume "i \<in> dom (inodes s)"
    then obtain y where y: "inodes t i = Some y" using agree_dom[OF a] by blast
    with agreeD[OF a y] show "node_refs (the (inodes t i)) = node_refs (the (inodes s i))"
      by (auto simp: node_refs_def skel_def)
  qed
  with a show ?thesis by (simp add: refs_def agree_def)
qed

lemma agree_rels:
  assumes a: "agree s t"
  shows "par_rel t = par_rel s" "mount_rel t = mount_rel s" "is_root t = is_root s" "mount_ok t = mount_ok s"
proof -
  show "par_rel t = par_rel s" "mount_rel t = mount_rel s" using a by (simp_all add: par_rel_def mount_rel_def agree_view)
  have "supers t = supers s" using a by (simp add: agree_def)
  then show "is_root t = is_root s" "mount_ok t = mount_ok s"
    using a by (simp_all add: is_root_def mount_ok_def agree_view fun_eq_iff)
qed

lemma shape_skel: "skel x = skel y \<Longrightarrow> shape x = shape y"
  by (simp add: skel_def shape_def)

lemma agree_same: "agree s t \<Longrightarrow> supers t = supers s" "agree s t \<Longrightarrow> root_inode t = root_inode s"
  "agree s t \<Longrightarrow> mounts t = mounts s" "agree s t \<Longrightarrow> files t = files s"
  by (simp_all add: agree_def)

lemma agree_tree:
  assumes a: "agree s t" and t: "tree s"
  shows "tree t"
proof -
  note v = agree_view[OF a] agree_rels[OF a] agree_same[OF a]
  show ?thesis
  proof (rule treeI, unfold v, goal_cases)
    case (1 i x)
    then obtain y where "inodes s i = Some y" "skel y = skel x" using agreeD[OF a] by blast
    then show ?case using tree_shape[OF t] shape_skel by metis
  next
    case (2 i x b)
    then obtain y where y: "inodes s i = Some y" "skel y = skel x" using agreeD[OF a] by blast
    with tree_sb[OF t y(1)] 2 show ?case by (simp add: skel_def)
  next
    case 4
    then show ?case using tree_once[OF t] by blast
  qed (use tree_par[OF t] tree_is_root[OF t] tree_cov[OF t] tree_root[OF t] tree_acyclic[OF t] tree_mounts[OF t] tree_mnt[OF t] in blast)+
qed

lemma agree_attached: "agree s t \<Longrightarrow> attached s \<Longrightarrow> attached t"
  by (simp add: attached_def agree_view)

section \<open>Taking and dropping references\<close>

lemma rc_bump: "alive s i \<Longrightarrow> rc (bump i k s) j = rc s j + (if j = i then k else 0)"
  by (auto simp: rc_def inodes_bump alive_def split: option.splits)

lemma counted_bump:
  assumes "counted H s" "alive s i"
  shows "counted (add_mset i H) (bump i 1 s)"
proof -
  have "dom (inodes (bump i 1 s)) = dom (inodes s)" using agree_dom agree_bump by blast
  moreover have "refs (bump i 1 s) = refs s" using agree_refs agree_bump by blast
  moreover have "0 < refcount x" if x: "inodes (bump i 1 s) j = Some x" for j x
  proof (cases "j = i")
    case True
    then obtain z where "inodes s i = Some z" "x = z\<lparr>refcount := refcount z + 1\<rparr>" using x by (auto simp: inodes_bump)
    moreover from this assms(1) have "0 < refcount z" by (simp add: counted_def)
    ultimately show ?thesis by simp
  next
    case False
    then show ?thesis using x assms(1) by (simp add: inodes_bump counted_def)
  qed
  ultimately show ?thesis using assms by (auto simp: counted_def rc_bump)
qed

lemma inv_bump: "vfs_inv H s \<Longrightarrow> alive s i \<Longrightarrow> vfs_inv (add_mset i H) (bump i 1 s)"
  using counted_bump agree_tree[OF agree_bump] agree_attached[OF agree_bump] by (simp add: vfs_inv_def)

text \<open>An inode without references disappears.\<close>

definition del_inode :: "nat \<Rightarrow> vfs \<Rightarrow> vfs" where
  "del_inode i s = s\<lparr>inodes := (inodes s)(i := None)\<rparr>"

lemma iput_cases:
  assumes "counted (add_mset i H) s"
  shows "iput i s = Inr (if i \<in># refs s + H then bump i (- 1) s else del_inode i s)"
proof -
  have "alive s i" using counted_alive[OF assms] by simp
  then obtain x where x: "inodes s i = Some x" "fetch i s = Inr x" using fetch_alive by blast
  have r: "refcount x = int (count (refs s + H) i) + 1"
    using assms x by (auto simp: counted_def rc_def dest: spec[of _ i])
  have "upd_inode i (\<lambda>y. y\<lparr>refcount := refcount x - 1\<rparr>) s = bump i (- 1) s"
    using x by (intro vfs_eqI) (auto simp: fun_eq_iff inodes_upd_inode inodes_bump)
  moreover have "(upd_inode i f s)\<lparr>inodes := (inodes (upd_inode i f s))(i := None)\<rparr> = del_inode i s" for f
    by (simp add: upd_inode_def del_inode_def)
  ultimately have i: "iput i s = (if refcount x - 1 > 0 then Inr (bump i (- 1) s) else if refcount x - 1 < 0 then Inl Refcount_negative
      else Inr (del_inode i s))"
    using x(2) by (simp add: iput_def Let_def)
  show ?thesis
  proof (cases "i \<in># refs s + H")
    case True
    then have "refcount x - 1 > 0" using r count_greater_zero_iff[of "refs s + H" i] by linarith
    with i True show ?thesis by simp
  next
    case False
    then have "refcount x - 1 = 0" using r by (simp add: not_in_iff)
    with i False show ?thesis by simp
  qed
qed

lemma del_inode_fields [simp]:
  "files (del_inode i s) = files s" "supers (del_inode i s) = supers s" "root_inode (del_inode i s) = root_inode s"
  "mounts (del_inode i s) = mounts s" "chrdevs (del_inode i s) = chrdevs s"
  by (simp_all add: del_inode_def)

lemma inodes_del_inode: "inodes (del_inode i s) j = (if j = i then None else inodes s j)"
  by (simp add: del_inode_def)

lemma del_view:
  "par (del_inode i s) j = (if j = i then None else par s j)" "isdir (del_inode i s) j \<longleftrightarrow> j \<noteq> i \<and> isdir s j"
  "mnt (del_inode i s) j = (if j = i then None else mnt s j)" "cov (del_inode i s) j = (if j = i then None else cov s j)"
  "kids (del_inode i s) j = (if j = i then [] else kids s j)"
  by (auto simp: par_def isdir_def mnt_def cov_def kids_def inodes_del_inode)

lemma refs_del:
  assumes "finite (dom (inodes s))" "inodes s i = Some x" "node_refs x = {#}"
  shows "refs (del_inode i s) = refs s"
  using store_sum_del[OF assms(1,2), of node_refs] assms(3) by (simp add: refs_def del_inode_def)

lemma mountpoint_in_refs: "m \<in> set (mounts s) \<Longrightarrow> mountpoint m = Some mp \<Longrightarrow> mp \<in># refs s"
  by (auto simp: refs_def List.map_filter_def intro!: image_eqI[of _ _ m])

lemma counted_del:
  assumes "counted (add_mset i H) s" "i \<notin># refs s + H" "inodes s i = Some x" "node_refs x = {#}"
  shows "counted H (del_inode i s)"
proof -
  have fin: "finite (dom (inodes s))" using assms(1) by (simp add: counted_def)
  have "rc (del_inode i s) j = int (count (refs s + H) j)" for j
  proof (cases "j = i")
    case True
    then show ?thesis using assms(2) by (simp add: rc_def inodes_del_inode not_in_iff)
  next
    case False
    then have "rc (del_inode i s) j = rc s j" by (simp add: rc_def inodes_del_inode)
    with assms(1) False show ?thesis by (simp add: counted_def)
  qed
  moreover have "dom (inodes (del_inode i s)) \<subseteq> dom (inodes s)" by (auto simp: inodes_del_inode split: if_splits)
  then have "finite (dom (inodes (del_inode i s)))" using fin finite_subset by blast
  moreover have "0 < refcount y" if "inodes (del_inode i s) j = Some y" for j y
    using that assms(1) by (auto simp: inodes_del_inode counted_def split: if_splits)
  ultimately show ?thesis using assms(1) refs_del[OF fin assms(3,4)] by (simp add: counted_def)
qed

lemma tree_del:
  assumes t: "tree s" and fin: "finite (dom (inodes s))" "finite (dom (supers s))" and i: "i \<notin># refs s"
    and x: "inodes s i = Some x" "node_refs x = {#}"
  shows "tree (del_inode i s)"
proof -
  let ?t = "del_inode i s"
  have k: "kids s i = []" "mnt s i = None" "cov s i = None" using x
    by (auto simp: kids_def mnt_def cov_def node_refs_def opt_ref_def split: option.splits)
  then have v: "kids ?t = kids s" "mnt ?t = mnt s" "cov ?t = cov s" by (auto simp: fun_eq_iff del_view)
  have root: "is_root ?t = is_root s" by (simp add: is_root_def fun_eq_iff)
  have ri: "is_root s j \<Longrightarrow> j \<noteq> i" for j using i refs_is_root[OF fin(2)] by blast
  have kid: "(name, j) \<in> set (kids s p) \<Longrightarrow> j \<noteq> i" for name j p using i refs_kids[OF fin(1)] by blast
  have mc: "mnt s p = Some j \<or> cov s p = Some j \<Longrightarrow> j \<noteq> i" for j p using i refs_mnt_cov[OF fin(1)] by blast
  show ?thesis
  proof (rule treeI, goal_cases)
    case (1 j y)
    then show ?case using tree_shape[OF t, of j] by (simp add: inodes_del_inode split: if_splits)
  next
    case (2 j y b)
    then show ?case using tree_sb[OF t, of j] by (simp add: inodes_del_inode split: if_splits)
  next
    case (3 p name j)
    then show ?case using tree_par[OF t, of name j p] kid by (simp add: v del_view)
  next
    case (4 p a b j)
    then show ?case using tree_once[OF t, of a j p b] by (simp add: v del_view)
  next
    case (5 j)
    then show ?case using tree_is_root(1)[OF t, of j] ri by (simp add: root del_view)
  next
    case (6 j)
    then show ?case using tree_is_root(2)[OF t, of j] by (simp add: root del_view)
  next
    case (7 j)
    then show ?case using tree_is_root(3)[OF t, of j] by (simp add: root del_view split: if_splits)
  next
    case (8 j c)
    then show ?case using tree_cov(1)[OF t, of j c] mc[of j c] by (simp add: v del_view)
  next
    case (9 j c)
    then show ?case using tree_cov(2)[OF t, of j c] by (simp add: v root)
  next
    case 10
    obtain r where "root_inode s = Some r" "isdir s r" using tree_root[OF t] by blast
    then show ?case using refs_root[of s r] i by (auto simp: del_view)
  next
    case 11
    have "par_rel ?t \<subseteq> par_rel s" by (auto simp: par_rel_def del_view split: if_splits)
    then show ?case using tree_acyclic(1)[OF t] acyclic_subset by blast
  next
    case 12
    then show ?case using tree_acyclic(2)[OF t] by (simp add: mount_rel_def v)
  next
    case (13 m)
    then show ?case using tree_mounts(1)[OF t, of m] by (simp add: mount_ok_def v)
  next
    case 14
    then show ?case using tree_mounts(2)[OF t] by simp
  next
    case (15 j r)
    then show ?case using tree_mnt[OF t] by (simp add: v)
  qed
qed

lemma attached_del: "attached s \<Longrightarrow> kids s i = [] \<Longrightarrow> attached (del_inode i s)"
  by (fastforce simp: attached_def del_view)

end
