(* ===== verification/Vfs_Ops.thy ===== *)
theory Vfs_Ops
  imports Vfs_Tree
begin

text \<open>
  The operations on names keep the invariant of the file tree and change exactly the entries they are asked
  to change. References a caller holds stay valid; a file that was unlinked while open lives on until
  the last reference is dropped.
\<close>

section \<open>Dropping a reference\<close>

definition same_files :: "vfs \<Rightarrow> vfs \<Rightarrow> bool" where
  "same_files s t \<longleftrightarrow> kids t = kids s \<and> par t = par s \<and> isdir t = isdir s \<and> mnt t = mnt s \<and> cov t = cov s \<and>
     files t = files s \<and> supers t = supers s \<and> root_inode t = root_inode s \<and> mounts t = mounts s \<and>
     dom (inodes t) \<subseteq> dom (inodes s)"

lemma same_files_refl [simp]: "same_files s s"
  by (simp add: same_files_def)

lemma same_files_trans: "same_files s t \<Longrightarrow> same_files t u \<Longrightarrow> same_files s u"
  unfolding same_files_def by (metis subset_trans)

lemma agree_same_files: "agree s t \<Longrightarrow> same_files s t"
  by (simp add: same_files_def agree_view agree_same agree_dom)

lemma same_files_bump [simp]: "same_files s (bump i k s)"
  by (rule agree_same_files) simp

lemma counted_drop:
  assumes "counted (add_mset i H) s" "i \<in># refs s + H"
  shows "counted H (bump i (- 1) s)"
proof -
  have al: "alive s i" using counted_alive[OF assms(1)] by simp
  have d: "dom (inodes (bump i (- 1) s)) = dom (inodes s)" using agree_dom agree_bump by blast
  have rf: "refs (bump i (- 1) s) = refs s" using agree_refs agree_bump by blast
  have r: "rc (bump i (- 1) s) j = int (count (refs s + H) j)" for j
    using assms(1) rc_bump[OF al, of "- 1" j] by (auto simp: counted_def)
  have "0 < refcount x" if x: "inodes (bump i (- 1) s) j = Some x" for j x
  proof (cases "j = i")
    case True
    then have "refcount x = rc (bump i (- 1) s) i" using x by (simp add: rc_def)
    also have "\<dots> > 0" unfolding r using assms(2) count_greater_zero_iff[of "refs s + H" i] by linarith
    finally show ?thesis .
  next
    case False
    then show ?thesis using x assms(1) by (simp add: inodes_bump counted_def)
  qed
  with r d rf assms(1) show ?thesis by (simp add: counted_def)
qed

lemma file_node_refs: "shape x \<Longrightarrow> \<not> S_ISDIR (mode x) \<Longrightarrow> node_refs x = {#}"
  by (auto simp: shape_def node_refs_def)

lemma file_view:
  assumes "tree s" "inodes s i = Some x" "\<not> S_ISDIR (mode x)"
  shows "kids s i = []" "par s i = None" "mnt s i = None" "cov s i = None" "\<not> isdir s i"
  using tree_shape[OF assms(1,2)] assms(2,3) by (auto simp: shape_def kids_def par_def mnt_def cov_def isdir_def)

lemma inv_drop:
  assumes inv: "vfs_inv (add_mset i H) s"
  obtains s' where "iput i s = Inr s'" "vfs_inv H s'" "same_files s s'"
    "i \<in># refs s + H \<Longrightarrow> s' = bump i (- 1) s" "i \<notin># refs s + H \<Longrightarrow> s' = del_inode i s"
proof (cases "i \<in># refs s + H")
  case True
  have "iput i s = Inr (bump i (- 1) s)" using iput_cases[of i H s] inv True by (simp add: vfs_inv_def)
  moreover have "vfs_inv H (bump i (- 1) s)"
    using inv counted_drop[OF _ True] agree_tree[OF agree_bump] agree_attached[OF agree_bump] by (simp add: vfs_inv_def)
  ultimately show ?thesis using that[of "bump i (- 1) s"] True by auto
next
  case False
  have c: "counted (add_mset i H) s" and t: "tree s" and a: "attached s" using inv by (simp_all add: vfs_inv_def)
  obtain x where x: "inodes s i = Some x" using fetch_alive[OF held_alive[OF inv]] by auto
  have nd: "\<not> S_ISDIR (mode x)" using dir_in_refs[OF inv, of i] False x by (auto simp: isdir_def)
  have nr: "node_refs x = {#}" using file_node_refs[OF tree_shape[OF t x] nd] .
  have fin: "finite (dom (inodes s))" "finite (dom (supers s))" using c by (simp_all add: counted_def)
  have "iput i s = Inr (del_inode i s)" using iput_cases[OF c] False by simp
  moreover have "vfs_inv H (del_inode i s)"
    using counted_del[OF c False x nr] tree_del[OF t fin _ x nr] False attached_del[OF a file_view(1)[OF t x nd]]
    by (simp add: vfs_inv_def)
  moreover have "same_files s (del_inode i s)"
    using file_view[OF t x nd] by (auto simp: same_files_def fun_eq_iff del_view inodes_del_inode split: if_splits)
  ultimately show ?thesis using that[of "del_inode i s"] False by auto
qed

text \<open>Releasing and returning.\<close>

lemma inv_return:
  assumes "vfs_inv (add_mset i H) s"
  obtains s' where "put_and_return i r s = Inr (r, s')" "vfs_inv H s'" "same_files s s'"
  using inv_drop[OF assms] by (metis put_and_return_def andthen_simps(1))

section \<open>The directory of a path\<close>

definition name_ok :: "string \<Rightarrow> bool" where
  "name_ok name \<longleftrightarrow> length name \<le> NAME_MAX \<and> name \<noteq> ''.'' \<and> name \<noteq> ''..''"

lemma is_read_only_ok:
  assumes "tree s" "inodes s i = Some x"
  shows "\<exists>ro. is_read_only x s = Inr ro"
proof (cases "i_sb x")
  case (Some b)
  with tree_sb[OF assms Some] show ?thesis by (auto simp: is_read_only_def)
qed (auto simp: is_read_only_def)

lemma is_read_only_cong: "i_sb x = i_sb y \<Longrightarrow> supers s = supers t \<Longrightarrow> is_read_only x s = is_read_only y t"
  by (auto simp: is_read_only_def split: option.splits)

lemma with_parent_cases:
  assumes inv: "vfs_inv H s" and cwd: "\<forall>c. cwd = Some c \<longrightarrow> alive s c"
  obtains (err) e where "with_parent path cwd s = Inr (Inl e, s)"
    | (ok) dir name where "parent_result s path cwd = Inr (dir, name)" "isdir s dir" "name_ok name"
        "with_parent path cwd s = Inr (Inr (dir, name), bump dir 1 s)"
proof (cases "parent_result s path cwd")
  case (Inl e)
  with vfs_lookup_parent_ok[OF inv_walkable[OF inv] cwd, of path] err show ?thesis by (simp add: with_parent_def)
next
  case (Inr p)
  obtain dir name where p: "p = (dir, name)" by (cases p)
  from vfs_lookup_parent_ok[OF inv_walkable[OF inv] cwd, of path] Inr p
  have d: "isdir s dir" "name_ok name" and l: "vfs_lookup_parent path cwd s = Inr (Inr (dir, name), bump dir 1 s)"
    by (simp_all add: name_ok_def)
  have al: "alive s dir" using walkable_isdir[OF inv_walkable[OF inv] d(1)] .
  then obtain x where x: "inodes s dir = Some x" using fetch_alive by blast
  have "tree s" using inv by (simp add: vfs_inv_def)
  from is_read_only_ok[OF this x] obtain ro where ro: "is_read_only x s = Inr ro" by blast
  have f: "fetch dir (bump dir 1 s) = Inr (x\<lparr>refcount := refcount x + 1\<rparr>)" using x by (simp add: fetch_def inodes_bump)
  have ro': "is_read_only (x\<lparr>refcount := refcount x + 1\<rparr>) (bump dir 1 s) = Inr ro"
    using ro is_read_only_cong[of "x\<lparr>refcount := refcount x + 1\<rparr>" x "bump dir 1 s" s] by simp
  show ?thesis
  proof (cases ro)
    case True
    with l f ro' iput_ok[OF al] err show ?thesis by (simp add: with_parent_def)
  next
    case False
    with l f ro' Inr p d ok show ?thesis by (simp add: with_parent_def)
  qed
qed

lemma dir_lookup_ok:
  assumes inv: "vfs_inv H s" and d: "isdir s dir" and n: "name_ok name"
  shows "dir_lookup dir name (bump dir 1 s) = Inr (map_of (kids s dir) name,
    case map_of (kids s dir) name of None \<Rightarrow> bump dir 1 s | Some c \<Rightarrow> bump c 1 (bump dir 1 s))"
    "map_of (kids s dir) name = Some c \<Longrightarrow> alive s c"
proof -
  note w = inv_walkable[OF inv]
  obtain x where x: "inodes s dir = Some x" "iops x = Some Tmpfs_dir_ops" using isdir_node[OF w d] by metis
  have "named s dir name = map_of (kids s dir) name" using n by (simp add: named_def name_ok_def)
  with tmpfs_lookup_ok[OF w d, of name] x show "dir_lookup dir name (bump dir 1 s) = Inr (map_of (kids s dir) name,
    case map_of (kids s dir) name of None \<Rightarrow> bump dir 1 s | Some c \<Rightarrow> bump c 1 (bump dir 1 s))"
    "map_of (kids s dir) name = Some c \<Longrightarrow> alive s c"
    by (auto simp: dir_lookup_def fetch_def inodes_bump)
qed

section \<open>Adding an entry\<close>

definition new_inode :: "nat option \<Rightarrow> u32 \<Rightarrow> u64 \<Rightarrow> inode" where
  "new_inode sb m k =
     \<lparr>ino = k, mode = m, nlink = (if S_ISDIR m then 2 else 1), i_size = 0, rdev = 0, refcount = 1, i_sb = sb,
      iops = Some (if S_ISDIR m then Tmpfs_dir_ops else Tmpfs_file_iops),
      i_fops = (if S_ISDIR m then None else Some Tmpfs_file_ops),
      priv = Some \<lparr>children = [], parent = None\<rparr>, mounted = None, covered = None\<rparr>"

definition fresh :: "allocs \<Rightarrow> vfs \<Rightarrow> bool" where
  "fresh A s \<longleftrightarrow> (\<forall>a. a_inode A = Some a \<longrightarrow> inodes s a = None) \<and> (\<forall>f. a_file A = Some f \<longrightarrow> files s f = None) \<and>
     (\<forall>b. a_sb A = Some b \<longrightarrow> supers s b = None)"

definition with_inode :: "nat \<Rightarrow> inode \<Rightarrow> vfs \<Rightarrow> vfs" where
  "with_inode a x s = s\<lparr>inodes := (inodes s)(a \<mapsto> x), next_ino := next_ino s + 1\<rparr>"

definition link :: "nat \<Rightarrow> string \<Rightarrow> nat \<Rightarrow> inode \<Rightarrow> vfs \<Rightarrow> vfs" where
  "link dir name a x s = upd_node dir (\<lambda>n. n\<lparr>children := children n @ [(name, a)]\<rparr>) (with_inode a x s)"

lemma tmpfs_new_inode_cases:
  assumes "fresh A s"
  obtains (none) "tmpfs_new_inode sb m A s = Inr (None, s)"
    | (some) a where "a_inode A = Some a" "inodes s a = None"
        "tmpfs_new_inode sb m A s = Inr (Some a, with_inode a (new_inode sb m (next_ino s)) s)"
proof (cases "a_inode A")
  case None
  with none show ?thesis by (simp add: tmpfs_new_inode_def inode_alloc_def)
next
  case (Some a)
  then have a: "inodes s a = None" using assms by (simp add: fresh_def)
  show ?thesis
  proof (cases "a_node A")
    case True
    have "tmpfs_new_inode sb m A s = Inr (Some a, with_inode a (new_inode sb m (next_ino s)) s)"
      using Some True
      by (simp add: tmpfs_new_inode_def inode_alloc_def Let_def upd_inode_def new_inode_def with_inode_def)
    with some Some a show ?thesis by blast
  next
    case False
    have "tmpfs_new_inode sb m A s = Inr (None, s)"
      using Some False a by (simp add: tmpfs_new_inode_def inode_alloc_def iput_def fetch_def upd_inode_def Let_def fun_upd_idem)
    with none show ?thesis by blast
  qed
qed

lemma counted_link:
  assumes c: "counted H s" and a: "inodes s a = None" and d: "inodes s dir = Some d" "priv d = Some n"
    and x: "refcount x = 1" "node_refs x = {#}"
  shows "counted H (link dir name a x s)"
proof -
  let ?d = "d\<lparr>priv := Some (n\<lparr>children := children n @ [(name, a)]\<rparr>)\<rparr>"
  have ne: "a \<noteq> dir" using a d by auto
  have i: "inodes (link dir name a x s) = ((inodes s)(a \<mapsto> x))(dir \<mapsto> ?d)"
    using d ne by (simp add: link_def upd_node_def upd_inode_def with_inode_def)
  have fin: "finite (dom (inodes s))" "finite (dom ((inodes s)(a \<mapsto> x)))" using c by (simp_all add: counted_def)
  define M where "M = (inodes s)(a \<mapsto> x)"
  have da: "M dir = Some d" and finM: "finite (dom M)" using d ne fin by (simp_all add: M_def)
  have M: "store_sum node_refs M = store_sum node_refs (inodes s)"
    using store_sum_new[where f = node_refs, OF fin(1) a, of x] x(2) by (simp add: M_def)
  have "node_refs ?d = add_mset a (node_refs d)" using d by (simp add: node_refs_def)
  with store_sum_upd[where f = node_refs, OF finM da, of ?d]
  have "store_sum node_refs (M(dir \<mapsto> ?d)) = add_mset a (store_sum node_refs M)" by simp
  then have "store_sum node_refs (inodes (link dir name a x s)) = add_mset a (store_sum node_refs (inodes s))"
    unfolding i M M_def[symmetric] .
  then have r: "refs (link dir name a x s) = add_mset a (refs s)"
    by (simp add: refs_def link_def upd_node_def with_inode_def)
  have ra: "count (refs s + H) a = 0" using c a by (auto simp: counted_def rc_def split: option.splits dest: spec[of _ a])
  have "rc (link dir name a x s) j = int (count (refs (link dir name a x s) + H) j)" for j
  proof -
    have "rc s j = int (count (refs s + H) j)" using c by (simp add: counted_def)
    with ra ne d x(1) show ?thesis unfolding r by (auto simp: rc_def i)
  qed
  moreover have "finite (dom (inodes (link dir name a x s)))" unfolding i using fin by simp
  moreover have "0 < refcount y" if "inodes (link dir name a x s) j = Some y" for j y
    using that c d x(1) unfolding i by (auto simp: counted_def split: if_splits)
  ultimately show ?thesis using c by (simp add: counted_def link_def upd_node_def with_inode_def)
qed

text \<open>A new inode that can be linked into \<open>dir\<close>.\<close>

definition linkable :: "nat \<Rightarrow> inode \<Rightarrow> vfs \<Rightarrow> bool" where
  "linkable dir x s \<longleftrightarrow> refcount x = 1 \<and> mounted x = None \<and> covered x = None \<and>
     priv x = Some \<lparr>children = [], parent = (if S_ISDIR (mode x) then Some dir else None)\<rparr> \<and>
     iops x = Some (if S_ISDIR (mode x) then Tmpfs_dir_ops else Tmpfs_file_iops) \<and>
     (\<forall>b. i_sb x = Some b \<longrightarrow> supers s b \<noteq> None)"

lemma linkable_shape: "linkable dir x s \<Longrightarrow> shape x \<and> node_refs x = {#}"
  by (auto simp: linkable_def shape_def node_refs_def)

lemma link_view:
  assumes "isdir s dir" "tree s" "inodes s a = None" "linkable dir x s"
  shows "kids (link dir name a x s) = (kids s)(dir := kids s dir @ [(name, a)])"
    "par (link dir name a x s) = (par s)(a := if S_ISDIR (mode x) then Some dir else None)"
    "isdir (link dir name a x s) = (isdir s)(a := S_ISDIR (mode x))"
    "mnt (link dir name a x s) = mnt s" "cov (link dir name a x s) = cov s"
    "files (link dir name a x s) = files s" "supers (link dir name a x s) = supers s"
    "root_inode (link dir name a x s) = root_inode s" "mounts (link dir name a x s) = mounts s"
proof -
  obtain d where d: "inodes s dir = Some d" using assms(1) by (auto simp: isdir_def split: option.splits)
  then have sh: "shape d" using tree_shape[OF assms(2)] by blast
  then obtain n where n: "priv d = Some n" by (auto simp: shape_def)
  have ne: "a \<noteq> dir" using assms(3) d by auto
  have i: "inodes (link dir name a x s) = ((inodes s)(a \<mapsto> x))(dir \<mapsto> d\<lparr>priv := Some (n\<lparr>children := children n @ [(name, a)]\<rparr>)\<rparr>)"
    using d n ne by (simp add: link_def upd_node_def upd_inode_def with_inode_def)
  show "kids (link dir name a x s) = (kids s)(dir := kids s dir @ [(name, a)])"
    "par (link dir name a x s) = (par s)(a := if S_ISDIR (mode x) then Some dir else None)"
    "isdir (link dir name a x s) = (isdir s)(a := S_ISDIR (mode x))"
    "mnt (link dir name a x s) = mnt s" "cov (link dir name a x s) = cov s"
    using assms(3,4) d n ne
    by (auto simp: fun_eq_iff kids_def par_def isdir_def mnt_def cov_def i linkable_def)
qed (simp_all add: link_def upd_node_def with_inode_def)

lemma acyclic_parent_insert:
  assumes "acyclic r" "(p, a) \<notin> r\<^sup>*"
  shows "acyclic (insert (a, p) r)"
  using assms by (simp add: acyclic_insert)

lemma no_path_to_fresh:
  assumes "attached s" "tree s" "inodes s a = None" "p \<noteq> a"
  shows "(p, a) \<notin> (par_rel s)\<^sup>*"
proof
  assume "(p, a) \<in> (par_rel s)\<^sup>*"
  then obtain q where "(q, a) \<in> par_rel s" using assms(4) by (metis rtranclE)
  then have "isdir s a" using attached_par[OF assms(2,1)] by (simp add: par_rel_def)
  then show False using assms(3) by (simp add: isdir_def)
qed

lemma tree_link:
  assumes t: "tree s" and at: "attached s" and fin: "finite (dom (inodes s))" and d: "isdir s dir" and a: "inodes s a = None"
    and na: "a \<notin># refs s" and x: "linkable dir x s" and n: "map_of (kids s dir) name = None"
  shows "tree (link dir name a x s)" "attached (link dir name a x s)"
proof -
  let ?t = "link dir name a x s"
  note v = link_view[OF d t a x]
  have root: "is_root ?t = is_root s" by (simp add: is_root_def fun_eq_iff v)
  have nd: "\<not> isdir s a" and ad: "a \<noteq> dir" using a d by (auto simp: isdir_def)
  have nk: "(m, a) \<notin> set (kids s p)" for m p using na refs_kids[OF fin] by blast
  have ra: "\<not> is_root s a" using tree_is_root(1)[OF t] nd by blast
  show "tree ?t"
  proof (rule treeI, unfold root, goal_cases)
    case (1 j y)
    obtain z where z: "inodes s dir = Some z" using d by (auto simp: isdir_def split: option.splits)
    then have sh: "shape z" using tree_shape[OF t] by blast
    then obtain m where m: "priv z = Some m" by (auto simp: shape_def)
    have k: "kids s dir = children m" using z m by (simp add: kids_def)
    have "inodes ?t = ((inodes s)(a \<mapsto> x))(dir \<mapsto> z\<lparr>priv := Some (m\<lparr>children := children m @ [(name, a)]\<rparr>)\<rparr>)"
      using z m ad by (simp add: link_def upd_node_def upd_inode_def with_inode_def)
    moreover have "shape (z\<lparr>priv := Some (m\<lparr>children := children m @ [(name, a)]\<rparr>)\<rparr>)"
      using sh m n z d k by (auto simp: shape_def isdir_def map_of_eq_None_iff)
    ultimately show ?case using 1 tree_shape[OF t, of j] linkable_shape[OF x] by (auto split: if_splits)
  next
    case (2 j y b)
    obtain z where z: "inodes s dir = Some z" using d by (auto simp: isdir_def split: option.splits)
    then have "inodes ?t = ((inodes s)(a \<mapsto> x))(dir \<mapsto> z\<lparr>priv := map_option (\<lambda>m. m\<lparr>children := children m @ [(name, a)]\<rparr>) (priv z)\<rparr>)"
      using ad by (simp add: link_def upd_node_def upd_inode_def with_inode_def)
    then show ?case using 2 tree_sb[OF t, of j] tree_sb[OF t z] x by (auto simp: linkable_def v split: if_splits)
  next
    case (3 p m j)
    then show ?case using tree_par[OF t, of m j p] nk by (auto simp: v split: if_splits)
  next
    case (4 p m m' j)
    then show ?case using tree_once[OF t, of m j p m'] nk by (auto simp: v split: if_splits)
  next
    case (5 j)
    then show ?case using tree_is_root(1)[OF t, of j] ra by (auto simp: v)
  next
    case (6 j)
    then show ?case using tree_is_root(2)[OF t, of j] ra by (auto simp: v)
  next
    case (7 j)
    then show ?case using tree_is_root(3)[OF t, of j] by (auto simp: v split: if_splits)
  next
    case (8 j c)
    then show ?case using tree_cov(1)[OF t, of j c] nd by (auto simp: v)
  next
    case (9 j c)
    then show ?case using tree_cov(2)[OF t, of j c] by (simp add: v)
  next
    case 10
    then show ?case using tree_root[OF t] nd by (auto simp: v)
  next
    case 11
    have "par_rel ?t \<subseteq> insert (a, dir) (par_rel s)" by (auto simp: par_rel_def v split: if_splits)
    moreover have "acyclic (insert (a, dir) (par_rel s))"
      using acyclic_parent_insert[OF tree_acyclic(1)[OF t] no_path_to_fresh[OF at t a ad[symmetric]]] .
    ultimately show ?case using acyclic_subset by blast
  next
    case 12
    then show ?case using tree_acyclic(2)[OF t] by (simp add: mount_rel_def v)
  next
    case (13 m)
    then show ?case using tree_mounts(1)[OF t, of m] by (simp add: mount_ok_def v)
  next
    case 14
    then show ?case using tree_mounts(2)[OF t] by (simp add: v)
  next
    case (15 j r)
    then show ?case using tree_mnt[OF t] by (simp add: v)
  qed
  show "attached ?t" using at by (auto simp: attached_def v)
qed

lemma inv_link:
  assumes inv: "vfs_inv H s" and d: "isdir s dir" and a: "inodes s a = None" and x: "linkable dir x s"
    and n: "map_of (kids s dir) name = None"
  shows "vfs_inv H (link dir name a x s)"
proof -
  have c: "counted H s" and t: "tree s" and at: "attached s" using inv by (simp_all add: vfs_inv_def)
  obtain z m where z: "inodes s dir = Some z" "priv z = Some m" using isdir_node[OF inv_walkable[OF inv] d] by metis
  have "a \<notin># refs s" using counted_alive[OF c, of a] a by (auto simp: alive_def)
  then show ?thesis
    using counted_link[OF c a z, of x name] tree_link[OF t at _ d a _ x n] x linkable_shape[OF x] c
    by (simp add: vfs_inv_def linkable_def counted_def)
qed

text \<open>Changes to numbers that nothing else depends on.\<close>

lemma inv_agree:
  assumes inv: "vfs_inv H s" and a: "agree s t" and r: "\<And>i. rc t i = rc s i"
  shows "vfs_inv H t"
proof -
  have c: "counted H s" using inv by (simp add: vfs_inv_def)
  have "0 < refcount x" if x: "inodes t i = Some x" for i x
  proof -
    obtain y where y: "inodes s i = Some y" using agreeD[OF a x] by blast
    then have "0 < refcount y" using c by (simp add: counted_def)
    then show ?thesis using r[of i] x y by (simp add: rc_def)
  qed
  then have "counted H t" using c r agree_refs[OF a] agree_dom[OF a] agree_same[OF a] by (simp add: counted_def)
  then show ?thesis using inv agree_tree[OF a] agree_attached[OF a] by (simp add: vfs_inv_def)
qed

lemma inv_next_ino: "vfs_inv H s \<Longrightarrow> vfs_inv H (s\<lparr>next_ino := k\<rparr>)" "same_files s (s\<lparr>next_ino := k\<rparr>)"
proof -
  have a: "agree s (s\<lparr>next_ino := k\<rparr>)" by (simp add: agree_def)
  show "vfs_inv H s \<Longrightarrow> vfs_inv H (s\<lparr>next_ino := k\<rparr>)" by (erule inv_agree[OF _ a]) (simp add: rc_def)
  show "same_files s (s\<lparr>next_ino := k\<rparr>)" by (rule agree_same_files[OF a])
qed

definition keeps :: "(inode \<Rightarrow> inode) \<Rightarrow> bool" where
  "keeps f \<longleftrightarrow> (\<forall>x. skel (f x) = skel x \<and> refcount (f x) = refcount x)"

lemma inv_upd: "vfs_inv H s \<Longrightarrow> keeps f \<Longrightarrow> vfs_inv H (upd_inode i f s)" "keeps f \<Longrightarrow> agree s (upd_inode i f s)"
proof -
  show a: "agree s (upd_inode i f s)" if "keeps f" using that by (intro agree_upd) (simp add: keeps_def)
  show "vfs_inv H (upd_inode i f s)" if "vfs_inv H s" "keeps f"
    using that(2) by (intro inv_agree[OF that(1) a[OF that(2)]]) (auto simp: rc_def inodes_upd_inode keeps_def split: option.splits)
qed

lemma keeps_simps [simp]: "keeps (\<lambda>x. x\<lparr>nlink := g x\<rparr>)" "keeps (\<lambda>x. x\<lparr>i_size := h x\<rparr>)"
  by (simp_all add: keeps_def skel_def)

lemma with_inode_upd: "upd_inode a f (with_inode a x s) = with_inode a (f x) s"
  by (simp add: upd_inode_def with_inode_def)

lemma add_new_entry:
  assumes "inodes s a = None" "isdir s dir" "tree s" "name_ok name"
  shows "add_entry dir name a A (with_inode a x s) =
    Inr (if a_dirent A then (Inr (), link dir name a x s) else (Inl ENOMEM, with_inode a x s))"
proof -
  obtain d where d: "inodes s dir = Some d" using assms(2) by (auto simp: isdir_def split: option.splits)
  moreover from this obtain n where "priv d = Some n" using tree_shape[OF assms(3)] by (auto simp: shape_def)
  moreover have "a \<noteq> dir" using d assms(1) by auto
  ultimately show ?thesis using assms(4)
    by (simp add: add_entry_def fetch_def with_inode_def NODE_def link_def name_ok_def)
qed

lemma drop_new_eq:
  assumes "inodes s a = None" "refcount x = 1"
  shows "drop_new a e (with_inode a x s) = Inr (Inl e, s\<lparr>next_ino := next_ino s + 1\<rparr>)"
  using assms by (simp add: drop_new_def with_inode_upd iput_def fetch_def Let_def)
    (simp add: with_inode_def upd_inode_def fun_upd_idem)

lemma new_inode_refcount [simp]: "refcount (new_inode sb m k) = 1"
  by (simp add: new_inode_def)

lemma new_inode_linkable:
  assumes "\<forall>b. sb = Some b \<longrightarrow> supers s b \<noteq> None"
  shows "S_ISDIR m \<Longrightarrow> linkable dir ((new_inode sb m k)\<lparr>priv := Some \<lparr>children = [], parent = Some dir\<rparr>\<rparr>) s"
    "\<not> S_ISDIR m \<Longrightarrow> linkable dir (new_inode sb m k) s"
    "\<not> S_ISDIR m \<Longrightarrow> linkable dir ((new_inode sb m k)\<lparr>rdev := dev, i_fops := None\<rparr>) s"
  using assms by (simp_all add: linkable_def new_inode_def)

text \<open>The outcome of adding a new inode to a directory: no memory, or one more entry.\<close>

definition added :: "nat \<Rightarrow> string \<Rightarrow> nat \<Rightarrow> bool \<Rightarrow> vfs \<Rightarrow> vfs \<Rightarrow> bool" where
  "added dir name a isd s s' \<longleftrightarrow> inodes s a = None \<and> kids s' = (kids s)(dir := kids s dir @ [(name, a)]) \<and>
     isdir s' = (isdir s)(a := isd) \<and> mnt s' = mnt s \<and> cov s' = cov s \<and> files s' = files s \<and> supers s' = supers s \<and>
     root_inode s' = root_inode s \<and> mounts s' = mounts s \<and> par s' = (par s)(a := if isd then Some dir else None)"

lemma link_added:
  assumes "isdir s dir" "tree s" "inodes s a = None" "linkable dir x s"
  shows "added dir name a (S_ISDIR (mode x)) s (link dir name a x s)"
  using link_view[OF assms] assms(3) by (simp add: added_def)

lemma same_files_added: "added dir name a b s t \<Longrightarrow> same_files t u \<Longrightarrow> added dir name a b s u"
  by (simp add: added_def same_files_def)

definition made :: "nat \<Rightarrow> string \<Rightarrow> bool \<Rightarrow> errno + unit \<Rightarrow> vfs \<Rightarrow> vfs \<Rightarrow> bool" where
  "made dir name isd r s s' \<longleftrightarrow> (case r of Inl _ \<Rightarrow> same_files s s' | Inr _ \<Rightarrow> \<exists>a. added dir name a isd s s')"

lemma added_bump: "added dir name a b (bump i k s) t \<longleftrightarrow> added dir name a b s t"
  by (auto simp: added_def inodes_bump)

lemma made_trans: "made dir name isd r (bump i k s) t \<Longrightarrow> same_files t u \<Longrightarrow> made dir name isd r s u"
proof (cases r)
  case (Inl e)
  then show "made dir name isd r (bump i k s) t \<Longrightarrow> same_files t u \<Longrightarrow> made dir name isd r s u"
    using same_files_trans[OF same_files_trans[OF same_files_bump]] by (simp add: made_def)
next
  case (Inr x)
  then show "made dir name isd r (bump i k s) t \<Longrightarrow> same_files t u \<Longrightarrow> made dir name isd r s u"
    by (auto simp: made_def added_bump intro: same_files_added)
qed

lemma dir_inode:
  assumes "vfs_inv H s" "isdir s dir"
  obtains x where "fetch dir s = Inr x" "inodes s dir = Some x" "\<forall>b. i_sb x = Some b \<longrightarrow> supers s b \<noteq> None"
proof -
  have t: "tree s" using assms(1) by (simp add: vfs_inv_def)
  obtain x where x: "inodes s dir = Some x" using assms(2) by (auto simp: isdir_def split: option.splits)
  with tree_sb[OF t x] that show ?thesis by (auto simp: fetch_def)
qed

lemma tmpfs_mkdir_ok:
  assumes inv: "vfs_inv H s" and d: "isdir s dir" and n: "name_ok name" and f: "fresh A s"
    and free: "map_of (kids s dir) name = None" and m: "S_ISDIR m"
  shows "\<exists>r s'. tmpfs_mkdir dir name m A s = Inr (r, s') \<and> vfs_inv H s' \<and> made dir name True r s s'"
proof -
  have t: "tree s" using inv by (simp add: vfs_inv_def)
  obtain x where x: "fetch dir s = Inr x" "\<forall>b. i_sb x = Some b \<longrightarrow> supers s b \<noteq> None" using dir_inode[OF inv d] by metis
  from f show ?thesis
  proof (cases rule: tmpfs_new_inode_cases[where sb = "i_sb x" and m = m])
    case none
    with x inv show ?thesis by (simp add: tmpfs_mkdir_def made_def)
  next
    case (some a)
    let ?x = "(new_inode (i_sb x) m (next_ino s))\<lparr>priv := Some \<lparr>children = [], parent = Some dir\<rparr>\<rparr>"
    let ?s = "upd_inode dir (\<lambda>x. x\<lparr>nlink := nlink x + 1\<rparr>) (link dir name a ?x s)"
    have u: "upd_node a (\<lambda>n. n\<lparr>parent := Some dir\<rparr>) (with_inode a (new_inode (i_sb x) m (next_ino s)) s) = with_inode a ?x s"
      by (simp add: upd_node_def with_inode_upd new_inode_def)
    have l: "linkable dir ?x s" using new_inode_linkable(1)[OF x(2) m] .
    have "tmpfs_mkdir dir name m A s = Inr (if a_dirent A then (Inr (), ?s) else (Inl ENOMEM, s\<lparr>next_ino := next_ino s + 1\<rparr>))"
      using x some by (simp add: tmpfs_mkdir_def u add_new_entry[OF some(2) d t n] drop_new_eq[OF some(2)])
    moreover have "vfs_inv H ?s" by (intro inv_upd(1) inv_link[OF inv d some(2) l free] keeps_simps)
    moreover have "added dir name a True s ?s"
      using same_files_added[OF link_added[OF d t some(2) l] agree_same_files[OF inv_upd(2)]] m by (simp add: new_inode_def)
    ultimately show ?thesis using inv_next_ino(1)[OF inv] inv_next_ino(2) by (cases "a_dirent A") (auto simp: made_def)
  qed
qed

lemma tmpfs_mknod_ok:
  assumes inv: "vfs_inv H s" and d: "isdir s dir" and n: "name_ok name" and f: "fresh A s"
    and free: "map_of (kids s dir) name = None" and m: "\<not> S_ISDIR m"
  shows "\<exists>r s'. tmpfs_mknod dir name m dev A s = Inr (r, s') \<and> vfs_inv H s' \<and> made dir name False r s s'"
proof -
  have t: "tree s" using inv by (simp add: vfs_inv_def)
  obtain x where x: "fetch dir s = Inr x" "\<forall>b. i_sb x = Some b \<longrightarrow> supers s b \<noteq> None" using dir_inode[OF inv d] by metis
  from f show ?thesis
  proof (cases rule: tmpfs_new_inode_cases[where sb = "i_sb x" and m = m])
    case none
    with x inv show ?thesis by (simp add: tmpfs_mknod_def made_def)
  next
    case (some a)
    let ?x = "(new_inode (i_sb x) m (next_ino s))\<lparr>rdev := dev, i_fops := None\<rparr>"
    have l: "linkable dir ?x s" using new_inode_linkable(3)[OF x(2) m] .
    have "tmpfs_mknod dir name m dev A s =
      Inr (if a_dirent A then (Inr (), link dir name a ?x s) else (Inl ENOMEM, s\<lparr>next_ino := next_ino s + 1\<rparr>))"
      using x some by (simp add: tmpfs_mknod_def with_inode_upd add_new_entry[OF some(2) d t n] drop_new_eq[OF some(2)])
    moreover have "added dir name a False s (link dir name a ?x s)" using link_added[OF d t some(2) l] m by (simp add: new_inode_def)
    ultimately show ?thesis using inv_link[OF inv d some(2) l free] inv_next_ino(1)[OF inv] inv_next_ino(2) by (cases "a_dirent A") (auto simp: made_def)
  qed
qed

lemma tmpfs_create_ok:
  assumes inv: "vfs_inv H s" and d: "isdir s dir" and n: "name_ok name" and f: "fresh A s"
    and free: "map_of (kids s dir) name = None" and m: "\<not> S_ISDIR m"
  shows "\<exists>r s'. tmpfs_create dir name m A s = Inr (r, s') \<and>
    (case r of Inl _ \<Rightarrow> vfs_inv H s' \<and> same_files s s' | Inr a \<Rightarrow> vfs_inv (add_mset a H) s' \<and> added dir name a False s s')"
proof -
  have t: "tree s" using inv by (simp add: vfs_inv_def)
  obtain x where x: "fetch dir s = Inr x" "\<forall>b. i_sb x = Some b \<longrightarrow> supers s b \<noteq> None" using dir_inode[OF inv d] by metis
  from f show ?thesis
  proof (cases rule: tmpfs_new_inode_cases[where sb = "i_sb x" and m = m])
    case none
    with x inv show ?thesis by (simp add: tmpfs_create_def)
  next
    case (some a)
    let ?x = "new_inode (i_sb x) m (next_ino s)"
    let ?l = "link dir name a ?x s"
    have l: "linkable dir ?x s" using new_inode_linkable(2)[OF x(2) m] .
    have i: "vfs_inv H ?l" using inv_link[OF inv d some(2) l free] .
    have ne: "a \<noteq> dir" using some(2) d by (auto simp: isdir_def)
    have al: "alive ?l a" using ne l by (simp add: alive_def link_def upd_node_def inodes_upd_inode with_inode_def linkable_def)
    have "tmpfs_create dir name m A s =
      Inr (if a_dirent A then (Inr a, bump a 1 ?l) else (Inl ENOMEM, s\<lparr>next_ino := next_ino s + 1\<rparr>))"
      using x some iget_ok[OF al]
      by (simp add: tmpfs_create_def add_new_entry[OF some(2) d t n] drop_new_eq[OF some(2)])
    moreover have "added dir name a False s (bump a 1 ?l)"
      using same_files_added[OF link_added[OF d t some(2) l] same_files_bump] m by (simp add: new_inode_def)
    ultimately show ?thesis using inv_bump[OF i al] inv_next_ino(1)[OF inv] inv_next_ino(2) by (cases "a_dirent A") auto
  qed
qed

lemma fresh_bump [simp]: "fresh A (bump i k s) = fresh A s"
  by (auto simp: fresh_def inodes_bump)

text \<open>Making directories and device files.\<close>

lemma mode_bits: "S_ISDIR (S_IFDIR OR (m AND 0xFFF))" "\<not> S_ISDIR (S_IFREG OR (m AND 0xFFF))"
  by (simp_all add: S_ISDIR_def bit.conj_disj_distrib2 and.assoc)

text \<open>Directories and device files are made alike, up to the operation of the file system.\<close>

lemma vfs_make_ok:
  fixes mk :: "nat \<Rightarrow> string \<Rightarrow> vfs \<Rightarrow> (errno + unit) vfs_result"
  assumes inv: "vfs_inv H s" and cwd: "\<forall>c. cwd = Some c \<longrightarrow> alive s c" and f: "fresh A s"
    and mk: "\<And>H s dir name. vfs_inv H s \<Longrightarrow> isdir s dir \<Longrightarrow> name_ok name \<Longrightarrow> fresh A s \<Longrightarrow> map_of (kids s dir) name = None \<Longrightarrow>
      \<exists>r s'. mk dir name s = Inr (r, s') \<and> vfs_inv H s' \<and> made dir name isd r s s'"
    and op: "op = andthen (with_parent path cwd s) (\<lambda>(r, s).
       case r of
         Inl e \<Rightarrow> Inr (Inl e, s)
       | Inr (dir, name) \<Rightarrow>
           andthen (dir_lookup dir name s) (\<lambda>(ex, s).
             andthen (case ex of
                        Some i \<Rightarrow> andthen (iput i s) (\<lambda>s. Inr (Inl EEXIST, s))
                      | None \<Rightarrow> mk dir name s) (\<lambda>(r, s).
               put_and_return dir r s)))"
  shows "\<exists>r s'. op = Inr (r, s') \<and> vfs_inv H s' \<and>
    (case r of Inl _ \<Rightarrow> same_files s s'
     | Inr _ \<Rightarrow> \<exists>dir name a. parent_result s path cwd = Inr (dir, name) \<and> isdir s dir \<and> name_ok name \<and>
         map_of (kids s dir) name = None \<and> added dir name a isd s s')"
  using inv cwd
proof (cases rule: with_parent_cases[where path = path])
  case (err e)
  with inv show ?thesis by (simp add: op)
next
  case (ok dir name)
  note al = walkable_isdir[OF inv_walkable[OF inv] ok(2)]
  note b = inv_bump[OF inv al]
  note dl = dir_lookup_ok[OF inv ok(2,3)]
  show ?thesis
  proof (cases "map_of (kids s dir) name")
    case (Some i)
    then have "op = Inr (Inl EEXIST, s)"
      using ok dl iput_ok[of "bump dir 1 s" i] iput_ok[OF al] by (simp add: op put_and_return_def)
    with inv show ?thesis by simp
  next
    case None
    obtain r s1 where r: "mk dir name (bump dir 1 s) = Inr (r, s1)" "vfs_inv (add_mset dir H) s1" "made dir name isd r (bump dir 1 s) s1"
      using mk[OF b, of dir name] ok f None by auto
    obtain s2 where s2: "put_and_return dir r s1 = Inr (r, s2)" "vfs_inv H s2" "same_files s1 s2" using inv_return[OF r(2)] .
    have "op = Inr (r, s2)" using ok dl None r(1) s2(1) by (simp add: op)
    then show ?thesis using s2(2) ok None made_trans[OF r(3) s2(3)] by (auto simp: made_def split: sum.splits)
  qed
qed

lemma vfs_mkdir_ok:
  assumes "vfs_inv H s" "\<forall>c. cwd = Some c \<longrightarrow> alive s c" "fresh A s"
  shows "\<exists>r s'. vfs_mkdir path cwd m A s = Inr (r, s') \<and> vfs_inv H s' \<and>
    (case r of Inl _ \<Rightarrow> same_files s s'
     | Inr _ \<Rightarrow> \<exists>dir name a. parent_result s path cwd = Inr (dir, name) \<and> isdir s dir \<and> name_ok name \<and>
         map_of (kids s dir) name = None \<and> added dir name a True s s')"
  by (rule vfs_make_ok[OF assms _ vfs_mkdir_def], rule tmpfs_mkdir_ok) (simp_all add: mode_bits)

lemma vfs_mknod_ok:
  assumes "vfs_inv H s" "\<forall>c. cwd = Some c \<longrightarrow> alive s c" "fresh A s" "\<not> S_ISDIR m"
  shows "\<exists>r s'. vfs_mknod path cwd m dev A s = Inr (r, s') \<and> vfs_inv H s' \<and>
    (case r of Inl _ \<Rightarrow> same_files s s'
     | Inr _ \<Rightarrow> \<exists>dir name a. parent_result s path cwd = Inr (dir, name) \<and> isdir s dir \<and> name_ok name \<and>
         map_of (kids s dir) name = None \<and> added dir name a False s s')"
  by (rule vfs_make_ok[OF assms(1-3) _ vfs_mknod_def], rule tmpfs_mknod_ok) (simp_all add: assms(4))

end
