(* ===== verification/Vfs_Remove.thy ===== *)
theory Vfs_Remove
  imports Vfs_Ops
begin

text \<open>
  Removing and moving entries: \<^verbatim>\<open>unlink\<close>, \<^verbatim>\<open>rmdir\<close> and \<^verbatim>\<open>rename\<close>. A removed file lives on while it is held. The
  parent pointer of a removed directory is not counted, so the results on \<^verbatim>\<open>rmdir\<close> and \<^verbatim>\<open>rename\<close> leave open
  whether the tree stays attached: it does unless a removed directory is still held.
\<close>

section \<open>Changing the entries of a directory\<close>

lemma del_entry_mset: "map_of es name = Some v \<Longrightarrow> add_mset v (mset (map snd (del_entry name es))) = mset (map snd es)"
  by (induction es) (auto split: if_splits)

lemma set_del_entry: "distinct (map fst es) \<Longrightarrow> set (del_entry name es) = {e \<in> set es. fst e \<noteq> name}"
  by (induction es) (auto simp: image_iff)

lemma distinct_del_entry: "distinct (map fst es) \<Longrightarrow> distinct (map fst (del_entry name es))"
proof (induction es)
  case (Cons e es)
  then have "fst ` set (del_entry name es) \<subseteq> fst ` set es" by (auto simp: set_del_entry)
  with Cons show ?case by auto
qed simp

lemma map_of_del_entry: "distinct (map fst es) \<Longrightarrow> map_of (del_entry name es) = (map_of es)(name := None)"
proof (induction es)
  case (Cons e es)
  have "map_of es (fst e) = None" using Cons(2) by (simp add: map_of_eq_None_iff)
  with Cons show ?case by (auto simp: fun_eq_iff)
qed simp

definition edit_kids :: "nat \<Rightarrow> ((string \<times> nat) list \<Rightarrow> (string \<times> nat) list) \<Rightarrow> vfs \<Rightarrow> vfs" where
  "edit_kids dir g = upd_node dir (\<lambda>n. n\<lparr>children := g (children n)\<rparr>)"

lemma edit_fields [simp]:
  "files (edit_kids dir g s) = files s" "supers (edit_kids dir g s) = supers s" "root_inode (edit_kids dir g s) = root_inode s"
  "mounts (edit_kids dir g s) = mounts s"
  by (simp_all add: edit_kids_def upd_node_def)

lemma edit_view:
  assumes "isdir s dir" "tree s"
  shows "kids (edit_kids dir g s) = (kids s)(dir := g (kids s dir))" "par (edit_kids dir g s) = par s"
    "isdir (edit_kids dir g s) = isdir s" "mnt (edit_kids dir g s) = mnt s" "cov (edit_kids dir g s) = cov s"
    "rc (edit_kids dir g s) = rc s" "dom (inodes (edit_kids dir g s)) = dom (inodes s)"
proof -
  obtain d where d: "inodes s dir = Some d" using assms(1) by (auto simp: isdir_def split: option.splits)
  then obtain n where n: "priv d = Some n" using tree_shape[OF assms(2)] by (auto simp: shape_def)
  have i: "inodes (edit_kids dir g s) = (inodes s)(dir \<mapsto> d\<lparr>priv := Some (n\<lparr>children := g (children n)\<rparr>)\<rparr>)"
    using d n by (simp add: edit_kids_def upd_node_def upd_inode_def)
  show "kids (edit_kids dir g s) = (kids s)(dir := g (kids s dir))" "par (edit_kids dir g s) = par s"
    "isdir (edit_kids dir g s) = isdir s" "mnt (edit_kids dir g s) = mnt s" "cov (edit_kids dir g s) = cov s"
    "rc (edit_kids dir g s) = rc s" "dom (inodes (edit_kids dir g s)) = dom (inodes s)"
    using d n by (auto simp: fun_eq_iff kids_def par_def isdir_def mnt_def cov_def rc_def i)
qed

lemma mset_swap:
  fixes S :: "'a multiset"
  assumes "S + d = A + e" "e + k = d + l"
  shows "S + k = A + l"
proof -
  have "S + k + d = S + d + k" by (simp add: ac_simps)
  also have "\<dots> = A + (e + k)" using assms(1) by (simp add: ac_simps)
  also have "\<dots> = A + l + d" using assms(2) by (simp add: ac_simps)
  finally show ?thesis by (rule add_right_imp_eq)
qed

lemma edit_refs:
  assumes "isdir s dir" "tree s" "finite (dom (inodes s))"
  shows "refs (edit_kids dir g s) + mset (map snd (kids s dir)) = refs s + mset (map snd (g (kids s dir)))"
proof -
  obtain d where d: "inodes s dir = Some d" using assms(1) by (auto simp: isdir_def split: option.splits)
  then obtain n where n: "priv d = Some n" using tree_shape[OF assms(2)] by (auto simp: shape_def)
  let ?d = "d\<lparr>priv := Some (n\<lparr>children := g (children n)\<rparr>)\<rparr>"
  have i: "inodes (edit_kids dir g s) = (inodes s)(dir \<mapsto> ?d)"
    using d n by (simp add: edit_kids_def upd_node_def upd_inode_def)
  have k: "kids s dir = children n" using d n by (simp add: kids_def)
  have nr: "node_refs ?d + mset (map snd (children n)) = node_refs d + mset (map snd (g (children n)))"
    using n by (simp add: node_refs_def)
  define S where "S = store_sum node_refs ((inodes s)(dir \<mapsto> ?d))"
  have "S + node_refs d = store_sum node_refs (inodes s) + node_refs ?d"
    unfolding S_def using store_sum_upd[where f = node_refs, OF assms(3) d] .
  then have "S + mset (map snd (children n)) = store_sum node_refs (inodes s) + mset (map snd (g (children n)))"
    using nr by (rule mset_swap)
  then show ?thesis unfolding k by (simp add: refs_def i S_def[symmetric] ac_simps)
qed

definition binv :: "nat multiset \<Rightarrow> vfs \<Rightarrow> bool" where
  "binv H s \<longleftrightarrow> counted H s \<and> tree s"

lemma inv_binv: "vfs_inv H s \<longleftrightarrow> binv H s \<and> attached s"
  by (simp add: vfs_inv_def binv_def)

lemma binv_agree: "binv H s \<Longrightarrow> agree s t \<Longrightarrow> (\<And>i. rc t i = rc s i) \<Longrightarrow> binv H t"
proof -
  assume inv: "binv H s" and a: "agree s t" and r: "\<And>i. rc t i = rc s i"
  have c: "counted H s" using inv by (simp add: binv_def)
  have "0 < refcount x" if x: "inodes t i = Some x" for i x
  proof -
    obtain y where y: "inodes s i = Some y" using agreeD[OF a x] by blast
    then have "0 < refcount y" using c by (simp add: counted_def)
    then show ?thesis using r[of i] x y by (simp add: rc_def)
  qed
  then have "counted H t" using c r agree_refs[OF a] agree_dom[OF a] agree_same[OF a] by (simp add: counted_def)
  then show ?thesis using inv agree_tree[OF a] by (simp add: binv_def)
qed

lemma binv_upd: "binv H s \<Longrightarrow> keeps f \<Longrightarrow> binv H (upd_inode i f s)"
  by (erule binv_agree[OF _ inv_upd(2)]) (auto simp: rc_def inodes_upd_inode keeps_def split: option.splits)

text \<open>Deleting an entry turns its reference into one that the caller holds.\<close>

lemma counted_unlink:
  assumes "counted H s" "tree s" "isdir s dir" "map_of (kids s dir) name = Some v"
  shows "counted (add_mset v H) (edit_kids dir (del_entry name) s)" "add_mset v (refs (edit_kids dir (del_entry name) s)) = refs s"
proof -
  let ?t = "edit_kids dir (del_entry name) s"
  note vw = edit_view[OF assms(3,2), of "del_entry name"]
  have fin: "finite (dom (inodes s))" using assms(1) by (simp add: counted_def)
  define L where "L = mset (map snd (del_entry name (kids s dir)))"
  have "refs ?t + add_mset v L = refs s + L"
    unfolding L_def using edit_refs[OF assms(3,2) fin, of "del_entry name"] del_entry_mset[OF assms(4)] by simp
  then have "add_mset v (refs ?t) + L = refs s + L" by simp
  then show r: "add_mset v (refs ?t) = refs s" by (rule add_right_imp_eq)
  have "rc ?t i = int (count (refs ?t + add_mset v H) i)" for i
  proof -
    have "refs ?t + add_mset v H = refs s + H" using r by (metis union_mset_add_mset_left union_mset_add_mset_right)
    then show ?thesis using assms(1) unfolding vw(6) by (simp only: counted_def)
  qed
  moreover have "0 < refcount x" if x: "inodes ?t i = Some x" for i x
  proof -
    have "rc s i = refcount x" using vw(6) x by (metis rc_def option.case(2))
    moreover obtain y where y: "inodes s i = Some y" using x vw(7) by (metis domD domI)
    moreover have "0 < refcount y" using assms(1) y by (simp add: counted_def)
    ultimately show ?thesis by (simp add: rc_def)
  qed
  ultimately show "counted (add_mset v H) ?t" using assms(1) vw(7) by (simp add: counted_def)
qed

text \<open>A tree stays one when entries are deleted.\<close>

lemma edit_shape:
  assumes t: "tree s" and d: "isdir s dir" and g: "distinct (map fst (g (kids s dir)))" and i: "inodes (edit_kids dir g s) i = Some x"
  shows "shape x" "i_sb x = Some b \<Longrightarrow> supers s b \<noteq> None"
proof -
  obtain z where z: "inodes s dir = Some z" using d by (auto simp: isdir_def split: option.splits)
  then have sh: "shape z" using tree_shape[OF t] by blast
  then obtain m where m: "priv z = Some m" by (auto simp: shape_def)
  have k: "kids s dir = children m" using z m by (simp add: kids_def)
  have e: "inodes (edit_kids dir g s) = (inodes s)(dir \<mapsto> z\<lparr>priv := Some (m\<lparr>children := g (children m)\<rparr>)\<rparr>)"
    using z m by (simp add: edit_kids_def upd_node_def upd_inode_def)
  have "shape (z\<lparr>priv := Some (m\<lparr>children := g (children m)\<rparr>)\<rparr>)"
    using sh m g z d k by (auto simp: shape_def isdir_def)
  then show "shape x" "i_sb x = Some b \<Longrightarrow> supers s b \<noteq> None"
    using i e tree_shape[OF t, of i] tree_sb[OF t, of i] tree_sb[OF t z] by (auto split: if_splits)
qed

lemma tree_unlink:
  assumes t: "tree s" and d: "isdir s dir" and dis: "distinct (map fst (kids s dir))"
  shows "tree (edit_kids dir (del_entry name) s)"
proof -
  let ?t = "edit_kids dir (del_entry name) s"
  note vw = edit_view[OF d t, of "del_entry name"]
  have sub: "set (kids ?t p) \<subseteq> set (kids s p)" for p using set_del_entry[OF dis] by (auto simp: vw)
  have root: "is_root ?t = is_root s" by (simp add: is_root_def fun_eq_iff)
  show ?thesis
  proof (rule treeI, unfold root, goal_cases)
    case (1 i x)
    then show ?case using edit_shape(1)[of s dir "del_entry name", OF t d distinct_del_entry[OF dis]] by blast
  next
    case (2 i x b)
    then show ?case using edit_shape(2)[of s dir "del_entry name", OF t d distinct_del_entry[OF dis]] by simp
  next
    case (3 p m j)
    then show ?case using tree_par[OF t, of m j p] sub by (auto simp only: vw)
  next
    case (4 p m m' j)
    then show ?case using tree_once[OF t, of m j p m'] sub by (simp only: vw) blast
  next
    case 11
    then show ?case using tree_acyclic(1)[OF t] by (simp add: par_rel_def vw)
  next
    case 12
    then show ?case using tree_acyclic(2)[OF t] by (simp add: mount_rel_def vw)
  next
    case (13 m)
    then show ?case using tree_mounts(1)[OF t, of m] by (simp add: mount_ok_def vw)
  next
    case 14
    then show ?case using tree_mounts(2)[OF t] by simp
  qed (simp_all add: vw, (use tree_is_root[OF t] tree_cov[OF t] tree_root[OF t] tree_mnt[OF t] in blast)+)
qed

text \<open>Dropping a reference without assuming that the tree is attached.\<close>

lemma binv_drop:
  assumes inv: "binv (add_mset i H) s" and x: "inodes s i = Some x" "i \<notin># refs s + H \<Longrightarrow> node_refs x = {#}"
  obtains s' where "iput i s = Inr s'" "binv H s'" "kids s' = kids s" "refs s' = refs s"
    "i \<in># refs s + H \<Longrightarrow> s' = bump i (- 1) s" "i \<notin># refs s + H \<Longrightarrow> s' = del_inode i s"
proof (cases "i \<in># refs s + H")
  case True
  have c: "counted (add_mset i H) s" and t: "tree s" using inv by (simp_all add: binv_def)
  have "iput i s = Inr (bump i (- 1) s)" using iput_cases[OF c] True by simp
  moreover have "binv H (bump i (- 1) s)" using counted_drop[OF c True] agree_tree[OF agree_bump t] by (simp add: binv_def)
  moreover have "refs (bump i (- 1) s) = refs s" by (rule agree_refs) simp
  ultimately show ?thesis using that[of "bump i (- 1) s"] True by auto
next
  case False
  have c: "counted (add_mset i H) s" and t: "tree s" using inv by (simp_all add: binv_def)
  have fin: "finite (dom (inodes s))" "finite (dom (supers s))" using c by (simp_all add: counted_def)
  note nr = x(2)[OF False]
  have "iput i s = Inr (del_inode i s)" using iput_cases[OF c] False by simp
  moreover have "binv H (del_inode i s)"
    using counted_del[OF c False x(1) nr] tree_del[OF t fin _ x(1) nr] False by (simp add: binv_def)
  moreover have "kids s i = []" using x(1) nr by (auto simp: kids_def node_refs_def split: option.splits)
  then have "kids (del_inode i s) = kids s" by (auto simp: fun_eq_iff del_view)
  ultimately show ?thesis using that[of "del_inode i s"] False refs_del[OF fin(1) x(1) nr] by auto
qed

section \<open>Unlink\<close>

lemma kid_alive: "vfs_inv H s \<Longrightarrow> map_of (kids s dir) name = Some v \<Longrightarrow> alive s v"
proof -
  assume inv: "vfs_inv H s" and m: "map_of (kids s dir) name = Some v"
  then have "v \<in># refs s" using refs_kids[of s name v dir] map_of_SomeD[OF m] by (simp add: vfs_inv_def counted_def)
  then show ?thesis using counted_alive[of H s v] inv by (simp add: vfs_inv_def)
qed

lemma find_entry_ok:
  assumes "vfs_inv H s" "isdir s dir"
  shows "find_entry dir name s = Inr (map_of (kids s dir) name)"
proof -
  obtain x n where "inodes s dir = Some x" "priv x = Some n" "kids s dir = children n"
    using isdir_node[OF inv_walkable[OF assms(1)] assms(2)] by metis
  then show ?thesis by (simp add: find_entry_def fetch_def NODE_def)
qed

lemma kids_distinct: "vfs_inv H s \<Longrightarrow> isdir s dir \<Longrightarrow> distinct (map fst (kids s dir))"
  using isdir_node[OF inv_walkable] by metis

lemma unlink_entry_eq: "unlink_entry dir name = edit_kids dir (del_entry name)"
  by (simp add: unlink_entry_def edit_kids_def)

text \<open>A tree after the entry \<open>name\<close> of \<open>dir\<close> is gone.\<close>

definition entry_gone :: "nat \<Rightarrow> string \<Rightarrow> vfs \<Rightarrow> vfs \<Rightarrow> bool" where
  "entry_gone dir name s s' \<longleftrightarrow> kids s' = (kids s)(dir := del_entry name (kids s dir))"

lemma par_isdir: "tree s \<Longrightarrow> par s j = Some p \<Longrightarrow> isdir s j"
proof -
  assume t: "tree s" and j: "par s j = Some p"
  then obtain x where x: "inodes s j = Some x" by (auto simp: par_def Option.bind_eq_Some_conv)
  show "isdir s j"
  proof (cases "S_ISDIR (mode x)")
    case False
    then show ?thesis using file_view(2)[OF t x] j by simp
  qed (simp add: isdir_def x)
qed

lemma attached_unlink:
  assumes inv: "vfs_inv H s" and d: "isdir s dir" and v: "map_of (kids s dir) name = Some v" "\<not> isdir s v"
  shows "attached (edit_kids dir (del_entry name) s)"
proof -
  have t: "tree s" and at: "attached s" using inv by (simp_all add: vfs_inv_def)
  note vw = edit_view[OF d t, of "del_entry name"]
  have "j \<in> snd ` set (kids (edit_kids dir (del_entry name) s) p)" if j: "par s j = Some p" for j p
  proof -
    obtain m where m: "(m, j) \<in> set (kids s p)" using at j by (force simp: attached_def)
    have "isdir s j" using par_isdir[OF t j] .
    then have "\<not> (p = dir \<and> m = name)" using m v map_of_is_SomeI[OF kids_distinct[OF inv d], of m j] by auto
    then have "(m, j) \<in> set (kids (edit_kids dir (del_entry name) s) p)"
      using m set_del_entry[OF kids_distinct[OF inv d], of name] by (auto simp: vw)
    then show ?thesis by force
  qed
  then show ?thesis by (auto simp: attached_def vw)
qed

lemma tmpfs_unlink_ok:
  assumes inv: "vfs_inv H s" and d: "isdir s dir" and v: "map_of (kids s dir) name = Some v" "\<not> isdir s v"
  obtains s' where "tmpfs_unlink dir name s = Inr (Inr (), s')" "vfs_inv H s'" "entry_gone dir name s s'"
proof -
  have t: "tree s" and c: "counted H s" using inv by (simp_all add: vfs_inv_def)
  let ?u = "upd_inode v (\<lambda>x. x\<lparr>nlink := nlink x - 1\<rparr>) (edit_kids dir (del_entry name) s)"
  have "vfs_inv (add_mset v H) (edit_kids dir (del_entry name) s)"
    using counted_unlink(1)[OF c t d v(1)] tree_unlink[OF t d kids_distinct[OF inv d]] attached_unlink[OF inv d v]
    by (simp add: vfs_inv_def)
  then have "vfs_inv (add_mset v H) ?u" by (rule inv_upd) simp
  then obtain s' where s': "iput v ?u = Inr s'" "vfs_inv H s'" "same_files ?u s'" by (rule inv_drop)
  have "kids ?u = (kids s)(dir := del_entry name (kids s dir))"
    using agree_view(1)[OF inv_upd(2)[OF keeps_simps(1)]] edit_view(1)[OF d t] by simp
  then have "entry_gone dir name s s'" using s'(3) by (simp add: entry_gone_def same_files_def)
  moreover have "\<exists>x. fetch v s = Inr x" using fetch_alive[OF kid_alive[OF inv v(1)]] by blast
  then have "tmpfs_unlink dir name s = Inr (Inr (), s')"
    using find_entry_ok[OF inv d, of name] v(1) s'(1) by (auto simp: tmpfs_unlink_def unlink_entry_eq)
  ultimately show ?thesis using that s'(2) by blast
qed

section \<open>Rmdir\<close>

text \<open>An entry that is a directory is referenced by its parent only once and is not a mounted root.\<close>

lemma subdir_facts:
  assumes inv: "vfs_inv H s" and d: "isdir s dir" and v: "map_of (kids s dir) name = Some v" "isdir s v"
  shows "par s v = Some dir" "v \<noteq> dir" "cov s v = None"
proof -
  have t: "tree s" using inv by (simp add: vfs_inv_def)
  show p: "par s v = Some dir" using tree_par[OF t map_of_SomeD[OF v(1)] v(2)] .
  then have "(v, dir) \<in> par_rel s" by (simp add: par_rel_def)
  then show "v \<noteq> dir" using tree_acyclic(1)[OF t] by (auto simp: acyclic_def)
  show "cov s v = None" using tree_cov(2)[OF t, of v] tree_is_root(2)[OF t, of v] p by (cases "cov s v") auto
qed

lemma node_refs_empty:
  assumes "inodes s v = Some x" "kids s v = []" "mnt s v = None" "cov s v = None"
  shows "node_refs x = {#}"
  using assms by (auto simp: node_refs_def kids_def mnt_def cov_def split: option.splits)

lemma tmpfs_rmdir_ok:
  assumes inv: "vfs_inv H s" and d: "isdir s dir" and v: "map_of (kids s dir) name = Some v" "isdir s v" "kids s v = []"
    and held: "v \<in># H"
  obtains u where "tmpfs_rmdir dir name s = Inr (Inr (), bump v (- 1) u)" "binv H (bump v (- 1) u)"
    "entry_gone dir name s u" "add_mset v (refs u) = refs s" "isdir u = isdir s" "mnt u = mnt s" "cov u = cov s"
    "dom (inodes u) = dom (inodes s)" "par u = par s"
proof -
  have t: "tree s" and c: "counted H s" using inv by (simp_all add: vfs_inv_def)
  let ?e = "edit_kids dir (del_entry name) s"
  let ?f = "upd_inode v (\<lambda>x. x\<lparr>nlink := 0\<rparr>) ?e"
  let ?u = "upd_inode dir (\<lambda>x. x\<lparr>nlink := nlink x - 1\<rparr>) ?f"
  note vw = edit_view[OF d t, of "del_entry name"]
  have a: "agree ?e ?u" by (rule agree_trans[OF inv_upd(2) inv_upd(2)]) simp_all
  have e: "binv (add_mset v H) ?e"
    using counted_unlink(1)[OF c t d v(1)] tree_unlink[OF t d kids_distinct[OF inv d]] by (simp add: binv_def)
  then have u: "binv (add_mset v H) ?u" by (intro binv_upd) simp_all
  have r: "add_mset v (refs ?u) = refs s" using counted_unlink(2)[OF c t d v(1)] agree_refs[OF a] by simp
  have iv: "v \<in># refs ?u + H" using held by simp
  have "counted (add_mset v H) ?u" using u by (simp add: binv_def)
  from iput_cases[OF this] iv have "iput v ?u = Inr (bump v (- 1) ?u)" by simp
  moreover have "binv H (bump v (- 1) ?u)"
    using counted_drop[OF _ iv] u agree_tree[OF agree_bump] by (simp add: binv_def)
  moreover have "tmpfs_rmdir dir name s = andthen (iput v ?u) (\<lambda>s. Inr (Inr (), s))"
  proof -
    obtain x n where "fetch v s = Inr x" "priv x = Some n" "children n = []"
      using isdir_node[OF inv_walkable[OF inv] v(2)] v(3) by (metis fetch_def option.case(2))
    then show ?thesis using find_entry_ok[OF inv d, of name] v(1)
      by (simp add: tmpfs_rmdir_def NODE_def unlink_entry_eq Let_def)
  qed
  moreover have "entry_gone dir name s ?u" using vw(1) agree_view(1)[OF a] by (simp add: entry_gone_def)
  ultimately show ?thesis using that[of ?u] r agree_view[OF a] vw agree_dom[OF a] by auto
qed

section \<open>Removal by path\<close>

lemma remove_refused:
  assumes inv: "vfs_inv H s" and ok: "with_parent path cwd s = Inr (Inr (dir, name), bump dir 1 s)" "isdir s dir" "name_ok name"
    and rv: "remove_victim want dir name (map_of (kids s dir) name)
        (case map_of (kids s dir) name of None \<Rightarrow> bump dir 1 s | Some c \<Rightarrow> bump c 1 (bump dir 1 s)) =
      Inr (Inl e, case map_of (kids s dir) name of None \<Rightarrow> bump dir 1 s | Some c \<Rightarrow> bump c 1 (bump dir 1 s))"
  shows "vfs_remove want path cwd s = Inr (Inl e, s)"
proof -
  note al = walkable_isdir[OF inv_walkable[OF inv] ok(2)]
  note dl = dir_lookup_ok[OF inv ok(2,3)]
  show ?thesis
  proof (cases "map_of (kids s dir) name")
    case None
    with ok dl rv iput_ok[OF al] show ?thesis by (simp add: vfs_remove_def iput_opt_def put_and_return_def)
  next
    case (Some v)
    with ok dl rv iput_ok[OF al] iput_ok[of "bump dir 1 s" v] show ?thesis
      by (simp add: vfs_remove_def iput_opt_def put_and_return_def)
  qed
qed

lemma fetch_bumped:
  assumes "alive s v"
  obtains x where "inodes s v = Some x" "fetch v (bump v 1 (bump dir 1 s)) = Inr (x\<lparr>refcount := rc (bump dir 1 s) v + 1\<rparr>)"
proof -
  obtain x where x: "inodes s v = Some x" using fetch_alive[OF assms] by blast
  then have "inodes (bump v 1 (bump dir 1 s)) v = Some (x\<lparr>refcount := rc (bump dir 1 s) v + 1\<rparr>)"
    by (cases "v = dir") (simp_all add: inodes_bump rc_def)
  with that[OF x] show ?thesis by (simp add: fetch_def)
qed

lemma vfs_unlink_ok:
  assumes inv: "vfs_inv H s" and cwd: "\<forall>c. cwd = Some c \<longrightarrow> alive s c"
  shows "\<exists>r s'. vfs_unlink path cwd s = Inr (r, s') \<and> vfs_inv H s' \<and>
    (case r of Inl _ \<Rightarrow> s' = s
     | Inr _ \<Rightarrow> \<exists>dir name v. parent_result s path cwd = Inr (dir, name) \<and> isdir s dir \<and>
         map_of (kids s dir) name = Some v \<and> \<not> isdir s v \<and> entry_gone dir name s s')"
  using inv cwd
proof (cases rule: with_parent_cases[where path = path])
  case (err e)
  with inv show ?thesis by (simp add: vfs_unlink_def vfs_remove_def)
next
  case (ok dir name)
  note al = walkable_isdir[OF inv_walkable[OF inv] ok(2)]
  note dl = dir_lookup_ok[OF inv ok(2,3)]
  note refused = remove_refused[OF inv ok(4,2,3), of False]
  show ?thesis
  proof (cases "map_of (kids s dir) name")
    case None
    with refused[of ENOENT] inv show ?thesis by (simp add: vfs_unlink_def remove_victim_def)
  next
    case (Some v)
    let ?s = "bump v 1 (bump dir 1 s)"
    note av = kid_alive[OF inv Some]
    obtain x where x: "inodes s v = Some x" "fetch v ?s = Inr (x\<lparr>refcount := rc (bump dir 1 s) v + 1\<rparr>)" using fetch_bumped[OF av] .
    have dx: "isdir s v \<longleftrightarrow> S_ISDIR (mode x)" using x by (simp add: isdir_def)
    consider (dir) "S_ISDIR (mode x)" | (busy) "\<not> S_ISDIR (mode x)" "mounted x \<noteq> None"
      | (go) "\<not> S_ISDIR (mode x)" "mounted x = None" by blast
    then show ?thesis
    proof cases
      case dir
      with refused[of EISDIR] inv x Some show ?thesis by (simp add: vfs_unlink_def remove_victim_def)
    next
      case busy
      with refused[of EBUSY] inv x Some show ?thesis by (simp add: vfs_unlink_def remove_victim_def)
    next
      case go
      have "vfs_inv (add_mset v (add_mset dir H)) ?s" using inv_bump[OF inv_bump[OF inv al], of v] av by simp
      moreover have "isdir ?s dir" "map_of (kids ?s dir) name = Some v" "\<not> isdir ?s v" using ok Some go dx by simp_all
      ultimately obtain s1 where s1: "tmpfs_unlink dir name ?s = Inr (Inr (), s1)" "vfs_inv (add_mset v (add_mset dir H)) s1"
        "entry_gone dir name ?s s1" by (rule tmpfs_unlink_ok)
      obtain s2 where s2: "iput v s1 = Inr s2" "vfs_inv (add_mset dir H) s2" "same_files s1 s2" using inv_drop[OF s1(2)] .
      obtain s3 where s3: "put_and_return dir (Inr ()) s2 = Inr (Inr () :: errno + unit, s3)" "vfs_inv H s3" "same_files s2 s3"
        using inv_return[OF s2(2)] .
      have "vfs_unlink path cwd s = Inr (Inr (), s3)"
        using ok dl Some x go s1(1) s2(1) s3(1) by (simp add: vfs_unlink_def vfs_remove_def remove_victim_def iput_opt_def)
      moreover have "entry_gone dir name s s3" using s1(3) s2(3) s3(3) by (simp add: entry_gone_def same_files_def)
      ultimately show ?thesis using s3(2) ok Some go dx by auto
    qed
  qed
qed

lemma attached_after_rmdir:
  assumes inv: "vfs_inv H s" and d: "isdir s dir" and v: "map_of (kids s dir) name = Some v"
    and k: "kids s' = (kids s)(dir := del_entry name (kids s dir))" and p: "\<And>j q. par s' j = Some q \<Longrightarrow> j \<noteq> v \<and> par s j = Some q"
  shows "attached s'"
  unfolding attached_def
proof (intro allI impI)
  fix j q assume j: "par s' j = Some q"
  then obtain m where m: "(m, j) \<in> set (kids s q)" using p inv by (force simp: vfs_inv_def attached_def)
  have "\<not> (q = dir \<and> m = name)" using m v p[OF j] map_of_is_SomeI[OF kids_distinct[OF inv d], of m j] by auto
  then have "(m, j) \<in> set (kids s' q)" using m set_del_entry[OF kids_distinct[OF inv d], of name] by (auto simp: k)
  then show "j \<in> snd ` set (kids s' q)" by force
qed

lemma vfs_rmdir_ok:
  assumes inv: "vfs_inv H s" and cwd: "\<forall>c. cwd = Some c \<longrightarrow> alive s c"
  shows "\<exists>r s'. vfs_rmdir path cwd s = Inr (r, s') \<and> binv H s' \<and>
    (case r of Inl _ \<Rightarrow> s' = s
     | Inr _ \<Rightarrow> \<exists>dir name v. parent_result s path cwd = Inr (dir, name) \<and> isdir s dir \<and>
         map_of (kids s dir) name = Some v \<and> isdir s v \<and> kids s v = [] \<and> mnt s v = None \<and> entry_gone dir name s s' \<and>
         (inodes s' v = None \<longrightarrow> attached s'))"
  using inv cwd
proof (cases rule: with_parent_cases[where path = path])
  case (err e)
  with inv show ?thesis by (simp add: vfs_rmdir_def vfs_remove_def inv_binv)
next
  case (ok dir name)
  note al = walkable_isdir[OF inv_walkable[OF inv] ok(2)]
  note dl = dir_lookup_ok[OF inv ok(2,3)]
  note refused = remove_refused[OF inv ok(4,2,3), of True]
  have bi: "binv H s" using inv by (simp add: inv_binv)
  show ?thesis
  proof (cases "map_of (kids s dir) name")
    case None
    with refused[of ENOENT] bi show ?thesis by (simp add: vfs_rmdir_def remove_victim_def)
  next
    case (Some v)
    let ?s = "bump v 1 (bump dir 1 s)"
    note av = kid_alive[OF inv Some]
    have i1: "vfs_inv (add_mset v (add_mset dir H)) ?s" using inv_bump[OF inv_bump[OF inv al], of v] av by simp
    obtain x where x: "inodes s v = Some x" "fetch v ?s = Inr (x\<lparr>refcount := rc (bump dir 1 s) v + 1\<rparr>)" using fetch_bumped[OF av] .
    have dx: "isdir s v \<longleftrightarrow> S_ISDIR (mode x)" "mnt s v = mounted x" using x by (simp_all add: isdir_def mnt_def)
    consider (plain) "\<not> S_ISDIR (mode x)" | (busy) "S_ISDIR (mode x)" "mounted x \<noteq> None"
      | (full) "S_ISDIR (mode x)" "mounted x = None" "kids s v \<noteq> []" | (go) "S_ISDIR (mode x)" "mounted x = None" "kids s v = []" by blast
    then show ?thesis
    proof cases
      case plain
      with refused[of ENOTDIR] bi x Some show ?thesis by (simp add: vfs_rmdir_def remove_victim_def)
    next
      case busy
      with refused[of EBUSY] bi x Some show ?thesis by (simp add: vfs_rmdir_def remove_victim_def)
    next
      case full
      have fd: "find_entry dir name ?s = Inr (Some v)" using find_entry_ok[OF i1, of dir name] ok(2) Some by simp
      have "isdir ?s v" using full dx by simp
      then obtain y n where y: "inodes ?s v = Some y" "priv y = Some n" "kids ?s v = children n"
        using isdir_node[OF inv_walkable[OF i1]] by metis
      then have "tmpfs_rmdir dir name ?s = Inr (Inl ENOTEMPTY, ?s)"
        unfolding tmpfs_rmdir_def fd using full(3) by (simp add: fetch_def NODE_def)
      with refused[of ENOTEMPTY] bi x Some full show ?thesis by (simp add: vfs_rmdir_def remove_victim_def)
    next
      case go
      then have dv: "isdir s v" using dx by simp
      have "isdir ?s dir" "map_of (kids ?s dir) name = Some v" "isdir ?s v" "kids ?s v = []" "v \<in># add_mset v (add_mset dir H)"
        using ok Some go dx by simp_all
      from i1 this obtain u where u: "tmpfs_rmdir dir name ?s = Inr (Inr (), bump v (- 1) u)"
        "binv (add_mset v (add_mset dir H)) (bump v (- 1) u)"
        "entry_gone dir name ?s u" "add_mset v (refs u) = refs ?s" "isdir u = isdir ?s" "mnt u = mnt ?s" "cov u = cov ?s"
        "dom (inodes u) = dom (inodes ?s)" "par u = par ?s" by (rule tmpfs_rmdir_ok)
      let ?t = "bump v (- 1) u"
      note sub = subdir_facts[OF inv ok(2) Some dv]
      have "v \<in> dom (inodes ?t)" using u(8) x(1) agree_dom[OF agree_bump] by (metis domI)
      then obtain y where y: "inodes ?t v = Some y" by blast
      have ku: "kids u = (kids s)(dir := del_entry name (kids s dir))" using u(3) by (simp add: entry_gone_def)
      have "node_refs y = {#}"
        using node_refs_empty[OF y] ku sub go dx u(6,7) by simp
      with u(2) y obtain s2 where s2: "iput v ?t = Inr s2" "binv (add_mset dir H) s2" "kids s2 = kids ?t" "refs s2 = refs ?t"
        "v \<in># refs ?t + add_mset dir H \<Longrightarrow> s2 = bump v (- 1) ?t" "v \<notin># refs ?t + add_mset dir H \<Longrightarrow> s2 = del_inode v ?t"
        by (metis binv_drop)
      have rt: "refs ?t = refs u" "refs ?s = refs s" by (rule agree_refs, simp, rule agree_refs[OF agree_trans[OF agree_bump agree_bump]])
      have "dir \<in># refs s" using dir_in_refs[OF inv ok(2)] .
      then have dr: "dir \<in># refs s2" using u(4) s2(4) rt sub(2) by (metis insert_iff set_mset_add_mset_insert)
      then have "alive s2 dir" using counted_alive[of "add_mset dir H" s2 dir] s2(2) by (simp add: binv_def)
      then obtain z where z: "inodes s2 dir = Some z" using fetch_alive by blast
      have dr': "dir \<in># refs s2 + H" using dr by simp
      from s2(2) z dr' obtain s3 where s3: "iput dir s2 = Inr s3" "binv H s3" "s3 = bump dir (- 1) s2"
        by (metis binv_drop)
      have "vfs_rmdir path cwd s = Inr (Inr (), s3)"
        using ok dl Some x go u(1) s2(1) s3(1)
        by (simp add: vfs_rmdir_def vfs_remove_def remove_victim_def iput_opt_def put_and_return_def)
      moreover have k3: "kids s3 = (kids s)(dir := del_entry name (kids s dir))" using s3(3) s2(3) ku by simp
      moreover have "attached s3" if dead: "inodes s3 v = None"
      proof (rule attached_after_rmdir[OF inv ok(2) Some k3])
        fix j q assume j: "par s3 j = Some q"
        have "s2 \<noteq> bump v (- 1) ?t" using dead s3(3) y sub(2) by (auto simp: inodes_bump)
        then have "s2 = del_inode v ?t" using s2(5,6) by blast
        then show "j \<noteq> v \<and> par s j = Some q" using j s3(3) u(9) by (auto simp: del_view split: if_splits)
      qed
      ultimately show ?thesis using s3(2) ok(1,2) Some dv go dx(2) by (auto simp: entry_gone_def)
    qed
  qed
qed

end
