(* ===== verification/Vfs_Rename.thy ===== *)
theory Vfs_Rename
  imports Vfs_Remove
begin

text \<open>
  Renaming: the walk up the parent pointers decides whether a directory would move into itself, an existing
  target is replaced, and the entry moves with everything below it.
\<close>

lemma agree_refl: "agree s s"
  by (simp add: agree_def)

section \<open>The walk to the root\<close>

lemma par_wf: "counted H s \<Longrightarrow> tree s \<Longrightarrow> wf ((par_rel s)\<inverse>)"
proof -
  assume c: "counted H s" and t: "tree s"
  have "par_rel s \<subseteq> (\<lambda>i. (i, the (par s i))) ` dom (inodes s)"
    by (force simp: par_rel_def par_def Option.bind_eq_Some_conv)
  moreover have "finite (dom (inodes s))" using c by (simp add: counted_def)
  ultimately have "finite (par_rel s)" using finite_surj by blast
  then show ?thesis using tree_acyclic(1)[OF t] by (rule finite_acyclic_wf_converse)
qed

lemma is_ancestor_ok:
  assumes inv: "vfs_inv H s" and p: "isdir s p"
  shows "is_ancestor d (Some p) s = Some (Inr ((p, d) \<in> (par_rel s)\<^sup>*))"
proof -
  have c: "counted H s" and t: "tree s" and at: "attached s" using inv by (simp_all add: vfs_inv_def)
  from par_wf[OF c t] p show ?thesis
  proof (induction p rule: wf_induct_rule)
    case (less p)
    show ?case
    proof (cases "p = d")
      case True
      then show ?thesis by (subst is_ancestor.simps) simp
    next
      case False
      obtain x n where x: "inodes s p = Some x" "priv x = Some n" "par s p = parent n"
        using isdir_node[OF inv_walkable[OF inv] less(2)] by metis
      then have up: "is_ancestor d (Some p) s = is_ancestor d (par s p) s"
        using False by (subst is_ancestor.simps) (simp add: fetch_def NODE_def)
      show ?thesis
      proof (cases "par s p")
        case None
        then have "(p, d) \<notin> (par_rel s)\<^sup>*" using False by (auto simp: par_rel_def elim: converse_rtranclE)
        with None show ?thesis unfolding up by (subst is_ancestor.simps) simp
      next
        case (Some q)
        then have q: "(q, p) \<in> (par_rel s)\<inverse>" "isdir s q" using attached_par[OF t at Some] by (simp_all add: par_rel_def)
        have "(p, d) \<in> (par_rel s)\<^sup>* \<longleftrightarrow> (q, d) \<in> (par_rel s)\<^sup>*"
          using False Some by (auto simp: par_rel_def elim: converse_rtranclE intro: converse_rtrancl_into_rtrancl)
        with less(1)[OF q] Some show ?thesis unfolding up by simp
      qed
    qed
  qed
qed

section \<open>Replacing the target\<close>

text \<open>A state in which nothing but inode \<open>t\<close> may have been freed.\<close>

definition without :: "nat \<Rightarrow> vfs \<Rightarrow> vfs \<Rightarrow> bool" where
  "without t s s' \<longleftrightarrow> mnt s' = mnt s \<and> cov s' = cov s \<and> supers s' = supers s \<and> root_inode s' = root_inode s \<and>
     mounts s' = mounts s \<and> files s' = files s \<and>
     (\<forall>j. inodes s j \<noteq> None \<and> (j = t \<longrightarrow> inodes s' t \<noteq> None) \<longrightarrow> inodes s' j \<noteq> None \<and> par s' j = par s j \<and> isdir s' j = isdir s j) \<and>
     dom (inodes s') \<subseteq> dom (inodes s)"

lemma without_refl: "without t s s"
  by (auto simp: without_def)

lemma replace_target_ok:
  assumes inv: "vfs_inv H s" and d: "isdir s ndir" and v: "map_of (kids s ndir) nname = Some t"
  shows "\<exists>r s'. replace_target ndir nname isd t s = Inr (r, s') \<and>
    (case r of Inl _ \<Rightarrow> s' = s
     | Inr _ \<Rightarrow> binv H s' \<and> entry_gone ndir nname s s' \<and> isdir s t = isd \<and> (isd \<longrightarrow> kids s t = []) \<and>
         add_mset t (refs s') = refs s \<and> without t s s')"
proof -
  have tr: "tree s" and c: "counted H s" using inv by (simp_all add: vfs_inv_def)
  obtain x where x: "inodes s t = Some x" "fetch t s = Inr x" using fetch_alive[OF kid_alive[OF inv v]] by blast
  have dx: "isdir s t \<longleftrightarrow> S_ISDIR (mode x)" using x by (simp add: isdir_def)
  obtain n where n: "priv x = Some n" "kids s t = children n"
    using tree_shape[OF tr x(1)] x(1) by (auto simp: shape_def kids_def)
  consider (kind) "isdir s t \<noteq> isd" | (full) "isdir s t = isd" "isd" "kids s t \<noteq> []"
    | (go) "isdir s t = isd" "isd \<longrightarrow> kids s t = []" by blast
  then show ?thesis
  proof cases
    case kind
    with x dx show ?thesis by (auto simp: replace_target_def)
  next
    case full
    with x dx n show ?thesis by (auto simp: replace_target_def NODE_def)
  next
    case go
    let ?e = "edit_kids ndir (del_entry nname) s"
    define u where "u = (if isd then upd_inode ndir (\<lambda>x. x\<lparr>nlink := nlink x - 1\<rparr>) (upd_inode t (\<lambda>x. x\<lparr>nlink := 0\<rparr>) ?e)
      else upd_inode t (\<lambda>x. x\<lparr>nlink := nlink x - 1\<rparr>) ?e)"
    have a: "agree ?e u" by (simp add: u_def agree_trans[OF inv_upd(2) inv_upd(2)] inv_upd(2))
    have e: "binv (add_mset t H) ?e"
      using counted_unlink(1)[OF c tr d v] tree_unlink[OF tr d kids_distinct[OF inv d]] by (simp add: binv_def)
    have u: "binv (add_mset t H) u" using binv_upd[OF binv_upd[OF e]] binv_upd[OF e] by (simp add: u_def)
    note vw = edit_view[OF d tr, of "del_entry nname"] and av = agree_view[OF a]
    have ru: "add_mset t (refs u) = refs s" using counted_unlink(2)[OF c tr d v] agree_refs[OF a] by simp
    have "dom (inodes u) = dom (inodes s)" using agree_dom[OF a] vw(7) by simp
    then obtain y where y: "inodes u t = Some y" using x(1) by blast
    have nt: "t \<noteq> ndir" if isd using subdir_facts(2)[OF inv d v] go(1) that by simp
    have nr: "node_refs y = {#}" if nin: "t \<notin># refs u + H"
    proof (cases isd)
      case True
      have "kids u t = []" using av(1) vw(1) nt[OF True] go(2) True by simp
      moreover have "cov u t = None" using subdir_facts(3)[OF inv d v] go(1) True av(5) vw(5) by simp
      moreover have "mnt u t = None"
      proof (cases "mnt s t")
        case None
        then show ?thesis using av(4) vw(4) by simp
      next
        case (Some r)
        have "cov s r = Some t" using tree_mnt[OF tr Some] .
        then have "cov u r = Some t" using av(5) vw(5) by simp
        then have "t \<in># refs u" using refs_mnt_cov[of u r t] u by (simp add: binv_def counted_def)
        then show ?thesis using nin by simp
      qed
      ultimately show ?thesis using node_refs_empty[OF y] by simp
    next
      case False
      then have "\<not> isdir u t" using go(1) av(3) vw(3) by simp
      then have "\<not> S_ISDIR (mode y)" using y by (simp add: isdir_def)
      moreover have "shape y" using u tree_shape[OF _ y] by (simp add: binv_def)
      ultimately show ?thesis by (intro file_node_refs)
    qed
    obtain s' where s': "iput t u = Inr s'" "binv H s'" "kids s' = kids u" "refs s' = refs u"
      "t \<in># refs u + H \<Longrightarrow> s' = bump t (- 1) u" "t \<notin># refs u + H \<Longrightarrow> s' = del_inode t u"
      using binv_drop[OF u y nr] by metis
    have r: "replace_target ndir nname isd t s = Inr (Inr (), s')"
      using x(2) dx go n s'(1) by (cases isd) (auto simp: replace_target_def NODE_def unlink_entry_eq Let_def u_def)
    have g: "entry_gone ndir nname s s'" using s'(3) av(1) vw(1) by (simp add: entry_gone_def)
    have w: "without t s s'"
    proof (cases "t \<in># refs u + H")
      case True
      have "agree ?e s'" unfolding s'(5)[OF True] by (rule agree_trans[OF a agree_bump])
      note b = this
      have "inodes s' j \<noteq> None" if "inodes s j \<noteq> None" for j using that agree_dom[OF b] vw(7) by (metis domIff)
      then show ?thesis using agree_view[OF b] agree_same[OF b] agree_dom[OF b] vw by (simp add: without_def)
    next
      case False
      then have "mnt u t = None" "cov u t = None" using nr[OF False] y
        by (auto simp: node_refs_def mnt_def cov_def opt_ref_def split: option.splits)
      then show ?thesis using s'(6)[OF False] av vw agree_same[OF a] agree_dom[OF a]
        by (auto simp: without_def del_view inodes_del_inode fun_eq_iff dom_def)
    qed
    show ?thesis using r s'(2,4) ru g w go by auto
  qed
qed

section \<open>Moving the entry\<close>

lemma counted_rc:
  assumes "counted H s" "rc t = rc s" "dom (inodes t) = dom (inodes s)" "files t = files s" "supers t = supers s"
    "refs t + H' = refs s + H"
  shows "counted H' t"
proof -
  have "0 < refcount x" if x: "inodes t i = Some x" for i x
  proof -
    obtain y where y: "inodes s i = Some y" using x assms(3) by (metis domD domI)
    then have "0 < refcount y" using assms(1) by (simp add: counted_def)
    moreover have "refcount x = refcount y" using fun_cong[OF assms(2), of i] x y by (simp add: rc_def)
    ultimately show ?thesis by simp
  qed
  with assms show ?thesis by (simp add: counted_def)
qed

text \<open>Setting the parent of a directory changes no reference.\<close>

definition set_parent :: "nat \<Rightarrow> nat \<Rightarrow> vfs \<Rightarrow> vfs" where
  "set_parent i p = upd_node i (\<lambda>n. n\<lparr>parent := Some p\<rparr>)"

lemma set_parent_view:
  assumes "isdir s i" "\<And>x. inodes s i = Some x \<Longrightarrow> shape x" "finite (dom (inodes s))"
  shows "kids (set_parent i p s) = kids s" "par (set_parent i p s) = (par s)(i := Some p)"
    "isdir (set_parent i p s) = isdir s" "mnt (set_parent i p s) = mnt s" "cov (set_parent i p s) = cov s"
    "rc (set_parent i p s) = rc s" "dom (inodes (set_parent i p s)) = dom (inodes s)" "refs (set_parent i p s) = refs s"
    "files (set_parent i p s) = files s" "supers (set_parent i p s) = supers s"
    "root_inode (set_parent i p s) = root_inode s" "mounts (set_parent i p s) = mounts s"
    "inodes (set_parent i p s) j = Some x \<Longrightarrow> \<exists>y. inodes s j = Some y \<and> (shape y \<longrightarrow> shape x) \<and> i_sb x = i_sb y"
proof -
  obtain d where d: "inodes s i = Some d" "S_ISDIR (mode d)" using assms(1) by (auto simp: isdir_def split: option.splits)
  then obtain n where n: "priv d = Some n" using assms(2) by (auto simp: shape_def)
  let ?d = "d\<lparr>priv := Some (n\<lparr>parent := Some p\<rparr>)\<rparr>"
  have e: "inodes (set_parent i p s) = (inodes s)(i \<mapsto> ?d)"
    using d n by (simp add: set_parent_def upd_node_def upd_inode_def)
  show "kids (set_parent i p s) = kids s" "par (set_parent i p s) = (par s)(i := Some p)"
    "isdir (set_parent i p s) = isdir s" "mnt (set_parent i p s) = mnt s" "cov (set_parent i p s) = cov s"
    "rc (set_parent i p s) = rc s" "dom (inodes (set_parent i p s)) = dom (inodes s)"
    using d n by (auto simp: fun_eq_iff kids_def par_def isdir_def mnt_def cov_def rc_def e)
  have "node_refs ?d = node_refs d" using n by (simp add: node_refs_def)
  then have "store_sum node_refs (inodes (set_parent i p s)) = store_sum node_refs (inodes s)"
    unfolding e using store_sum_upd[where f = node_refs, OF assms(3) d(1), of ?d] by simp
  then show "refs (set_parent i p s) = refs s" by (simp add: refs_def set_parent_def upd_node_def)
  show "files (set_parent i p s) = files s" "supers (set_parent i p s) = supers s"
    "root_inode (set_parent i p s) = root_inode s" "mounts (set_parent i p s) = mounts s"
    by (simp_all add: set_parent_def upd_node_def)
  show "\<exists>y. inodes s j = Some y \<and> (shape y \<longrightarrow> shape x) \<and> i_sb x = i_sb y" if x: "inodes (set_parent i p s) j = Some x"
  proof (cases "j = i")
    case True
    then have "x = ?d" using x e by simp
    moreover have "shape d \<longrightarrow> shape ?d" using n d(2) by (simp add: shape_def)
    ultimately show ?thesis using d(1) True by auto
  next
    case False
    then show ?thesis using x e by auto
  qed
qed

text \<open>The tree after the move, from what is known of its entries and parent pointers.\<close>

definition move_kids :: "nat \<Rightarrow> string \<Rightarrow> nat \<Rightarrow> string \<Rightarrow> nat \<Rightarrow> (nat \<Rightarrow> (string \<times> nat) list) \<Rightarrow> nat \<Rightarrow> (string \<times> nat) list" where
  "move_kids odir oname ndir nname i k =
     (let k = k(odir := del_entry oname (k odir)) in k(ndir := k ndir @ [(nname, i)]))"

lemma move_kids_mem:
  assumes "distinct (map fst (k odir))" "(m, j) \<in> set (move_kids odir oname ndir nname i k p)"
  shows "(m, j) = (nname, i) \<and> p = ndir \<or> (m, j) \<in> set (k p) \<and> \<not> (p = odir \<and> m = oname)"
  using assms set_del_entry[OF assms(1), of oname] by (auto simp: move_kids_def Let_def split: if_splits)

lemma tree_move:
  assumes t: "tree s" and dis: "distinct (map fst (kids s odir))" and i: "map_of (kids s odir) oname = Some i"
    and di: "isdir s ndir" and nself: "isdir s i \<Longrightarrow> (ndir, i) \<notin> (par_rel s)\<^sup>*"
    and sh: "\<And>j x. inodes s' j = Some x \<Longrightarrow> shape x \<and> (\<forall>b. i_sb x = Some b \<longrightarrow> supers s b \<noteq> None)"
    and k: "kids s' = move_kids odir oname ndir nname i (kids s)"
    and p: "par s' = (if isdir s i then (par s)(i := Some ndir) else par s)"
    and eq: "isdir s' = isdir s" "mnt s' = mnt s" "cov s' = cov s" "supers s' = supers s" "root_inode s' = root_inode s" "mounts s' = mounts s"
  shows "tree s'"
proof -
  have root: "is_root s' = is_root s" by (simp add: is_root_def fun_eq_iff eq)
  have io: "(oname, i) \<in> set (kids s odir)" using map_of_SomeD[OF i] .
  have po: "par s i = Some odir" if "isdir s i" using tree_par[OF t io that] .
  have nr: "\<not> is_root s i" if "isdir s i" using tree_is_root(2)[OF t, of i] po[OF that] by auto
  have mem: "(m, j) = (nname, i) \<and> q = ndir \<or> (m, j) \<in> set (kids s q) \<and> \<not> (q = odir \<and> m = oname)"
    if "(m, j) \<in> set (kids s' q)" for m j q using move_kids_mem[OF dis that[unfolded k]] .
  have old: "j \<noteq> i" if "(m, j) \<in> set (kids s q)" "\<not> (q = odir \<and> m = oname)" "isdir s j" for m j q
  proof
    assume j: "j = i"
    then have "q = odir" using tree_par[OF t that(1,3)] po that(3) by simp
    then show False using tree_once[OF t, of m i odir oname] that io j by simp
  qed
  show ?thesis
  proof (rule treeI, unfold root eq, goal_cases)
    case (1 j x)
    then show ?case using sh by blast
  next
    case (2 j x b)
    then show ?case using sh by blast
  next
    case (3 q m j)
    show ?case
    proof (cases "(m, j) = (nname, i) \<and> q = ndir")
      case True
      then show ?thesis using 3 p by simp
    next
      case False
      then have e: "(m, j) \<in> set (kids s q)" "\<not> (q = odir \<and> m = oname)" using mem[OF 3(1)] by auto
      then show ?thesis using old[OF e 3(2)] tree_par[OF t e(1) 3(2)] p by simp
    qed
  next
    case (4 q a b j)
    show ?case
    proof (cases "j = i")
      case True
      have "a = nname" if "(a, i) \<in> set (kids s' q)" for a
      proof (rule ccontr)
        assume "a \<noteq> nname"
        then have "(a, i) \<in> set (kids s q)" "\<not> (q = odir \<and> a = oname)" using mem[OF that] by auto
        then show False using old[of a i q] 4(3) True by simp
      qed
      then show ?thesis using 4(1,2) True by blast
    next
      case False
      then show ?thesis using mem[OF 4(1)] mem[OF 4(2)] tree_once[OF t _ _ 4(3)] by blast
    qed
  next
    case (6 j)
    then show ?case using tree_is_root(2)[OF t, of j] nr p by auto
  next
    case (7 j)
    then show ?case using tree_is_root(3)[OF t, of j] p by (auto split: if_splits)
  next
    case 11
    have sub: "par_rel s' \<subseteq> insert (i, ndir) (par_rel s)" if "isdir s i" using p that by (auto simp: par_rel_def split: if_splits)
    show ?case
    proof (cases "isdir s i")
      case True
      have "acyclic (insert (i, ndir) (par_rel s))"
        using acyclic_parent_insert[OF tree_acyclic(1)[OF t] nself[OF True]] .
      then show ?thesis using acyclic_subset sub[OF True] by blast
    next
      case False
      then show ?thesis using tree_acyclic(1)[OF t] p by (simp add: par_rel_def)
    qed
  next
    case 12
    then show ?case using tree_acyclic(2)[OF t] by (simp add: mount_rel_def eq)
  next
    case (13 m)
    then show ?case using tree_mounts(1)[OF t, of m] by (simp add: mount_ok_def eq)
  qed (use tree_is_root(1)[OF t] tree_cov[OF t] tree_root[OF t] tree_mnt[OF t] tree_mounts(2)[OF t] in blast)+
qed

lemma tree_kids_distinct: "tree s \<Longrightarrow> isdir s d \<Longrightarrow> distinct (map fst (kids s d))"
proof -
  assume t: "tree s" and d: "isdir s d"
  then obtain x where x: "inodes s d = Some x" "S_ISDIR (mode x)" by (auto simp: isdir_def split: option.splits)
  with tree_shape[OF t x(1)] show ?thesis by (auto simp: shape_def kids_def)
qed

lemma move_entry_ok:
  assumes b: "binv H s" and d: "isdir s odir" "isdir s ndir" and i: "map_of (kids s odir) oname = Some i"
    and n: "map_of (kids s ndir) nname = None" "name_ok nname" and nself: "isdir s i \<Longrightarrow> (ndir, i) \<notin> (par_rel s)\<^sup>*"
  shows "binv H (move_entry odir oname ndir nname (isdir s i) i s)"
    "kids (move_entry odir oname ndir nname (isdir s i) i s) = move_kids odir oname ndir nname i (kids s)"
    "refs (move_entry odir oname ndir nname (isdir s i) i s) = refs s"
    "isdir (move_entry odir oname ndir nname (isdir s i) i s) = isdir s"
    "par (move_entry odir oname ndir nname (isdir s i) i s) = (if isdir s i then (par s)(i := Some ndir) else par s)"
proof -
  have t: "tree s" and c: "counted H s" using b by (simp_all add: binv_def)
  have fin: "finite (dom (inodes s))" using c by (simp add: counted_def)
  have dis: "distinct (map fst (kids s odir))" "distinct (map fst (kids s ndir))" using tree_kids_distinct[OF t] d by simp_all
  define e1 where "e1 = edit_kids odir (del_entry oname) s"
  have v1: "kids e1 = (kids s)(odir := del_entry oname (kids s odir))" "par e1 = par s" "isdir e1 = isdir s" "mnt e1 = mnt s"
    "cov e1 = cov s" "rc e1 = rc s" "dom (inodes e1) = dom (inodes s)"
    unfolding e1_def by (rule edit_view[OF d(1) t])+
  have t1: "tree e1" unfolding e1_def by (rule tree_unlink[OF t d(1) dis(1)])
  have r1: "add_mset i (refs e1) = refs s" unfolding e1_def by (rule counted_unlink(2)[OF c t d(1) i])
  have d1: "isdir e1 ndir" "finite (dom (inodes e1))" using d v1 fin by simp_all
  define e2 where "e2 = edit_kids ndir (\<lambda>es. es @ [(nname, i)]) e1"
  have v2: "kids e2 = (kids e1)(ndir := kids e1 ndir @ [(nname, i)])" "par e2 = par e1" "isdir e2 = isdir e1" "mnt e2 = mnt e1"
    "cov e2 = cov e1" "rc e2 = rc e1" "dom (inodes e2) = dom (inodes e1)"
    unfolding e2_def by (rule edit_view[OF d1(1) t1])+
  have "refs e2 + mset (map snd (kids e1 ndir)) = refs e1 + mset (map snd (kids e1 ndir @ [(nname, i)]))"
    unfolding e2_def by (rule edit_refs[OF d1(1) t1 d1(2)])
  then have r2: "refs e2 = refs s" using r1 by simp
  have k2: "kids e2 = move_kids odir oname ndir nname i (kids s)" unfolding v2 v1 by (simp add: move_kids_def Let_def)
  have "distinct (map fst (kids e1 ndir @ [(nname, i)]))"
    using dis n(1) distinct_del_entry[OF dis(1), of oname] set_del_entry[OF dis(1), of oname] unfolding v1(1)
    by (auto simp: map_of_eq_None_iff)
  then have sh2: "shape x \<and> (\<forall>b. i_sb x = Some b \<longrightarrow> supers s b \<noteq> None)" if x: "inodes e2 j = Some x" for j x
    using edit_shape[of e1 ndir "\<lambda>es. es @ [(nname, i)]", OF t1 d1(1) _ x[unfolded e2_def]] by (auto simp: e1_def)
  define e3 where "e3 = (if isdir s i \<and> odir \<noteq> ndir then set_parent i ndir e2 else e2)"
  have same: "(par s)(i := Some ndir) = par s" if "isdir s i" "odir = ndir"
    using tree_par[OF t map_of_SomeD[OF i] that(1)] that(2) by auto
  have f2: "finite (dom (inodes e2))" "\<And>x. inodes e2 i = Some x \<Longrightarrow> shape x" using v2 v1 fin sh2 by auto
  have v3: "kids e3 = kids e2" "par e3 = (if isdir s i then (par s)(i := Some ndir) else par s)" "isdir e3 = isdir s"
    "mnt e3 = mnt s" "cov e3 = cov s" "rc e3 = rc s" "dom (inodes e3) = dom (inodes s)" "refs e3 = refs s"
    "files e3 = files s" "supers e3 = supers s" "root_inode e3 = root_inode s" "mounts e3 = mounts s"
    using set_parent_view[of e2 i ndir] f2 v2 v1 r2 same by (auto simp: e3_def e2_def e1_def)
  have sh3: "shape x \<and> (\<forall>b. i_sb x = Some b \<longrightarrow> supers s b \<noteq> None)" if x: "inodes e3 j = Some x" for j x
  proof (cases "isdir s i \<and> odir \<noteq> ndir")
    case True
    then have "isdir e2 i" using v2 v1 by simp
    moreover have "inodes (set_parent i ndir e2) j = Some x" using x True by (simp add: e3_def)
    ultimately obtain y where "inodes e2 j = Some y" "shape y \<longrightarrow> shape x" "i_sb x = i_sb y"
      using set_parent_view(13)[OF _ f2(2,1)] by blast
    with sh2 show ?thesis by auto
  next
    case False
    then have "e3 = e2" by (auto simp: e3_def)
    then show ?thesis using sh2 x by simp
  qed
  have "tree e3"
    by (rule tree_move[OF t dis(1) i d(2) nself sh3 v3(1)[unfolded k2] v3(2,3,4,5,10,11,12)])
  moreover have "counted H e3" by (rule counted_rc[OF c v3(6,7,9,10)]) (simp add: v3)
  ultimately have b3: "binv H e3" by (simp add: binv_def)
  let ?m = "move_entry odir oname ndir nname (isdir s i) i s"
  have m: "?m = (if isdir s i \<and> odir \<noteq> ndir
      then upd_inode ndir (\<lambda>x. x\<lparr>nlink := nlink x + 1\<rparr>) (upd_inode odir (\<lambda>x. x\<lparr>nlink := nlink x - 1\<rparr>) e3) else e3)"
    using n(2) by (simp add: move_entry_def unlink_entry_eq e3_def e2_def e1_def edit_kids_def set_parent_def name_ok_def Let_def)
  have a: "agree e3 ?m" unfolding m by (simp add: agree_trans[OF inv_upd(2) inv_upd(2)] agree_refl)
  show "binv H ?m" unfolding m using b3 binv_upd[OF binv_upd[OF b3]] by simp
  show "kids ?m = move_kids odir oname ndir nname i (kids s)" using agree_view(1)[OF a] v3(1) k2 by simp
  show "refs ?m = refs s" using agree_refs[OF a] v3(8) by simp
  show "isdir ?m = isdir s" using agree_view(3)[OF a] v3(3) by simp
  show "par ?m = (if isdir s i then (par s)(i := Some ndir) else par s)" using agree_view(2)[OF a] v3(2) by simp
qed

section \<open>Rename\<close>

text \<open>What a successful rename leaves: the target is gone, the entry has moved.\<close>

definition renamed :: "nat \<Rightarrow> string \<Rightarrow> nat \<Rightarrow> string \<Rightarrow> nat \<Rightarrow> vfs \<Rightarrow> vfs \<Rightarrow> bool" where
  "renamed odir oname ndir nname i s s' \<longleftrightarrow>
     \<not> (odir = ndir \<and> oname = nname) \<and> map_of (kids s odir) oname = Some i \<and> (isdir s i \<longrightarrow> (ndir, i) \<notin> (par_rel s)\<^sup>*) \<and>
     (\<forall>t. map_of (kids s ndir) nname = Some t \<longrightarrow> isdir s t = isdir s i \<and> (isdir s t \<longrightarrow> kids s t = [])) \<and>
     kids s' = move_kids odir oname ndir nname i ((kids s)(ndir := del_entry nname (kids s ndir)))"

lemma del_entry_absent: "map_of es name = None \<Longrightarrow> del_entry name es = es"
  by (induction es) (auto split: if_splits)

lemma rename_moved:
  assumes inv: "vfs_inv H s" and d: "isdir s odir" "isdir s ndir" and n: "name_ok nname" and ne: "\<not> (odir = ndir \<and> oname = nname)"
    and i: "map_of (kids s odir) oname = Some i" and nself: "isdir s i \<Longrightarrow> (ndir, i) \<notin> (par_rel s)\<^sup>*"
    and b2: "binv H s2" and k2: "kids s2 = (kids s)(ndir := del_entry nname (kids s ndir))"
    and w: "without t s s2" and t: "odir \<noteq> t" "ndir \<noteq> t" and r2: "refs s2 = refs s \<or> add_mset t (refs s2) = refs s"
    and tt: "\<forall>t. map_of (kids s ndir) nname = Some t \<longrightarrow> isdir s t = isdir s i \<and> (isdir s t \<longrightarrow> kids s t = [])"
  shows "\<exists>s'. move_entry odir oname ndir nname (isdir s i) i s2 = s' \<and> binv H s' \<and> renamed odir oname ndir nname i s s' \<and>
    odir \<in># refs s' \<and> ndir \<in># refs s'"
proof -
  have dead: "inodes s j \<noteq> None" if "isdir s j" for j using that by (auto simp: isdir_def split: option.splits)
  have d2: "isdir s2 odir" "isdir s2 ndir" using w t d dead by (auto simp: without_def)
  have i2: "map_of (kids s2 odir) oname = Some i"
    using i ne map_of_del_entry[OF kids_distinct[OF inv d(2)], of nname] by (auto simp: k2)
  have n2: "map_of (kids s2 ndir) nname = None" using map_of_del_entry[OF kids_distinct[OF inv d(2)], of nname] by (simp add: k2)
  have c2: "counted H s2" using b2 by (simp add: binv_def)
  then have "i \<in># refs s2" using refs_kids[of s2 oname i odir] map_of_SomeD[OF i2] by (simp add: counted_def)
  then have "alive s2 i" using counted_alive[OF c2] by simp
  then have ai: "inodes s2 i \<noteq> None" using fetch_alive by force
  moreover have "inodes s i \<noteq> None" using ai w by (auto simp: without_def dom_def)
  ultimately have di: "isdir s2 i = isdir s i" using w by (auto simp: without_def)
  have "par_rel s2 \<subseteq> par_rel s"
  proof (clarsimp simp: par_rel_def)
    fix j q assume j: "par s2 j = Some q"
    then have l: "inodes s2 j \<noteq> None" by (cases "inodes s2 j") (auto simp: par_def)
    then have "inodes s j \<noteq> None" using w by (auto simp: without_def dom_def)
    with l w have "par s2 j = par s j" by (auto simp: without_def)
    with j show "par s j = Some q" by simp
  qed
  then have ns: "(ndir, i) \<notin> (par_rel s2)\<^sup>*" if "isdir s2 i" using nself that di rtrancl_mono by blast
  note m = move_entry_ok[OF b2 d2 i2 n2 n ns]
  let ?s = "move_entry odir oname ndir nname (isdir s i) i s2"
  have "binv H ?s" "kids ?s = move_kids odir oname ndir nname i (kids s2)" "refs ?s = refs s2" using m(1-3) di by simp_all
  moreover have "odir \<in># refs s2" "ndir \<in># refs s2"
    using dir_in_refs[OF inv d(1)] dir_in_refs[OF inv d(2)] r2 t by (metis insert_iff set_mset_add_mset_insert)+
  moreover have "renamed odir oname ndir nname i s ?s"
    unfolding renamed_def using ne i nself tt calculation(2) k2 by metis
  ultimately show ?thesis by simp
qed

lemma tmpfs_rename_ok:
  assumes inv: "vfs_inv H s" and d: "isdir s odir" "isdir s ndir" and n: "name_ok nname"
  shows "\<exists>r s'. tmpfs_rename odir oname ndir nname s = Inr (r, s') \<and>
    (s' = s \<and> (\<forall>u. r = Inr u \<longrightarrow> odir = ndir \<and> oname = nname \<and> map_of (kids s odir) oname \<noteq> None) \<or>
     r = Inr () \<and> binv H s' \<and> (\<exists>i. renamed odir oname ndir nname i s s') \<and> odir \<in># refs s' \<and> ndir \<in># refs s')"
proof (cases "map_of (kids s odir) oname")
  case None
  then show ?thesis using find_entry_ok[OF inv d(1), of oname] by (auto simp: tmpfs_rename_def)
next
  case (Some i)
  note f = find_entry_ok[OF inv d(1), of oname] find_entry_ok[OF inv d(2), of nname]
  obtain x where x: "inodes s i = Some x" "fetch i s = Inr x" using fetch_alive[OF kid_alive[OF inv Some]] by blast
  have dx: "S_ISDIR (mode x) = isdir s i" using x by (simp add: isdir_def)
  show ?thesis
  proof (cases "odir = ndir \<and> oname = nname")
    case True
    then show ?thesis using f Some by (auto simp: tmpfs_rename_def)
  next
    case False
    have anc: "moves_into_itself i ndir s = Inr ((ndir, i) \<in> (par_rel s)\<^sup>*)"
      using is_ancestor_ok[OF inv d(2), of i] by (simp add: moves_into_itself_def)
    define tg where "tg = map_of (kids s ndir) nname"
    have "tmpfs_rename odir oname ndir nname s =
      (if S_ISDIR (mode x) \<and> (ndir, i) \<in> (par_rel s)\<^sup>* then Inr (Inl EINVAL, s)
       else andthen (case tg of None \<Rightarrow> Inr (Inr (), s) | Some t \<Rightarrow> replace_target ndir nname (S_ISDIR (mode x)) t s) (\<lambda>(r, s').
         case r of Inl e \<Rightarrow> Inr (Inl e, s') | Inr _ \<Rightarrow> Inr (Inr (), move_entry odir oname ndir nname (S_ISDIR (mode x)) i s')))"
      using f Some False x(2) by (auto simp: tmpfs_rename_def anc tg_def)
    note main = this[unfolded dx]
    show ?thesis
    proof (cases "isdir s i \<and> (ndir, i) \<in> (par_rel s)\<^sup>*")
      case True
      then show ?thesis unfolding main by auto
    next
      case nself: False
      note moved = rename_moved[OF inv d n False Some]
      show ?thesis
      proof (cases tg)
        case None
        have "kids s = (kids s)(ndir := del_entry nname (kids s ndir))" using del_entry_absent None by (simp add: tg_def)
        moreover obtain t where "odir \<noteq> t" "ndir \<noteq> t"
        proof -
          obtain t where "t \<notin> {odir, ndir}" using ex_new_if_finite[of "{odir, ndir}"] by auto
          then show ?thesis using that[of t] by blast
        qed
        moreover have "binv H s" using inv by (simp add: inv_binv)
        ultimately have "\<exists>s'. move_entry odir oname ndir nname (isdir s i) i s = s' \<and> binv H s' \<and>
            renamed odir oname ndir nname i s s' \<and> odir \<in># refs s' \<and> ndir \<in># refs s'"
          using nself None by (intro moved[OF _ _ _ without_refl]) (simp_all add: tg_def)
        then show ?thesis using None nself unfolding main by auto
      next
        case (Some t)
        from replace_target_ok[OF inv d(2) Some[unfolded tg_def], of "isdir s i"] obtain r s2 where
          rt: "replace_target ndir nname (isdir s i) t s = Inr (r, s2)"
            "case r of Inl _ \<Rightarrow> s2 = s
             | Inr _ \<Rightarrow> binv H s2 \<and> entry_gone ndir nname s s2 \<and> isdir s t = isdir s i \<and> (isdir s i \<longrightarrow> kids s t = []) \<and>
               add_mset t (refs s2) = refs s \<and> without t s s2" by blast
        show ?thesis
        proof (cases r)
          case (Inl e)
          then show ?thesis using rt Some nself unfolding main by auto
        next
          case (Inr u)
          then have q: "binv H s2" "entry_gone ndir nname s s2" "isdir s t = isdir s i" "isdir s i \<longrightarrow> kids s t = []"
            "add_mset t (refs s2) = refs s" "without t s s2" using rt(2) by simp_all
          have "odir \<noteq> t"
          proof
            assume o: "odir = t"
            then have "kids s odir = []" using d(1) q(3,4) by simp
            then show False using \<open>map_of (kids s odir) oname = Some i\<close> by simp
          qed
          moreover have "ndir \<noteq> t" using subdir_facts(2)[OF inv d(2), of nname t] Some d(2) by (auto simp: tg_def)
          ultimately have "\<exists>s'. move_entry odir oname ndir nname (isdir s i) i s2 = s' \<and> binv H s' \<and>
              renamed odir oname ndir nname i s s' \<and> odir \<in># refs s' \<and> ndir \<in># refs s'"
            using nself q Some by (intro moved[of s2 t]) (auto simp: entry_gone_def tg_def)
          then show ?thesis using rt(1) Inr nself Some unfolding main by auto
        qed
      qed
    qed
  qed
qed

section \<open>Rename by path\<close>

text \<open>Name resolution looks only at the tree.\<close>

lemma top_mono: "top s i = Some t \<Longrightarrow> \<forall>s'. mnt s' = mnt s \<longrightarrow> top s' i = Some t"
proof (induction rule: top.raw_induct[rotated, consumes 1, case_names unfold])
  case (unfold top' s i t)
  note 1 = unfold
  show ?case
  proof (intro allI impI)
    fix s' assume e: "mnt s' = mnt s"
    show "top s' i = Some t"
    proof (cases "mnt s i")
      case None
      then show ?thesis using 1(2) e by (subst top.simps) simp
    next
      case (Some r)
      then have "top' s r = Some t" using 1(2) by simp
      then have "\<forall>s'. mnt s' = mnt s \<longrightarrow> top s' r = Some t" by (rule 1(1))
      then have "top s' r = Some t" using e by blast
      then show ?thesis using Some e by (subst top.simps) simp
    qed
  qed
qed

lemma top_cong: "mnt s' = mnt s \<Longrightarrow> top s' = top s"
proof
  fix i assume "mnt s' = mnt s"
  then show "top s' i = top s i" using top_mono[of s i] top_mono[of s' i] by (metis not_Some_eq)
qed

lemma walk_step_bump [simp]: "walk_step (bump i k s) = walk_step s"
  by (rule ext)+ (unfold walk_step_def named_def bump_tree bump_fields top_cong[OF bump_tree(4)], rule refl)

lemma resolve_parent_bump [simp]: "resolve_parent (bump i k s) c cs = resolve_parent s c cs"
  by (induction s c cs rule: resolve_parent.induct) (auto split: sum.splits)

lemma parent_result_bump [simp]: "parent_result (bump i k s) path cwd = parent_result s path cwd"
  by (unfold parent_result_def start_of_def bump_fields resolve_parent_bump, rule refl)

lemma renamed_bump: "renamed odir oname ndir nname i (bump j k s) s' = renamed odir oname ndir nname i s s'"
  using agree_rels(1)[OF agree_bump] by (simp add: renamed_def)

lemma binv_drop_kept:
  assumes "binv (add_mset i H) s" "i \<in># refs s"
  obtains s' where "iput i s = Inr s'" "binv H s'" "kids s' = kids s" "refs s' = refs s"
proof -
  have "alive s i" using counted_alive[of "add_mset i H" s i] assms by (simp add: binv_def)
  then obtain x where x: "inodes s i = Some x" using fetch_alive by blast
  have "i \<in># refs s + H" using assms(2) by simp
  with assms(1) x that show ?thesis by (metis binv_drop)
qed

lemma put_both:
  assumes "t = Inr (r, s1)" "iput i s1 = Inr s2" "iput j s2 = Inr s3"
  shows "andthen t (\<lambda>(r, s). andthen (iput i s) (\<lambda>s. put_and_return j r s)) = Inr (r, s3)"
  using assms by (simp add: put_and_return_def)

lemma vfs_rename_ok:
  assumes inv: "vfs_inv H s" and cwd: "\<forall>c. cwd = Some c \<longrightarrow> alive s c"
  shows "\<exists>r s'. vfs_rename from_path to_path cwd s = Inr (r, s') \<and>
    (s' = s \<and> (r = Inr () \<longrightarrow> (\<exists>d. parent_result s from_path cwd = Inr d \<and> parent_result s to_path cwd = Inr d)) \<or>
     r = Inr () \<and> binv H s' \<and> (\<exists>odir oname ndir nname i. parent_result s from_path cwd = Inr (odir, oname) \<and>
         parent_result s to_path cwd = Inr (ndir, nname) \<and> renamed odir oname ndir nname i s s'))"
  using inv cwd
proof (cases rule: with_parent_cases[where path = from_path])
  case (err e)
  then show ?thesis by (simp add: vfs_rename_def)
next
  case (ok odir oname)
  note al = walkable_isdir[OF inv_walkable[OF inv] ok(2)]
  note i1 = inv_bump[OF inv al]
  have cwd1: "\<forall>c. cwd = Some c \<longrightarrow> alive (bump odir 1 s) c" using cwd by simp
  from i1 cwd1 show ?thesis
  proof (cases rule: with_parent_cases[where path = to_path])
    case (err e)
    then show ?thesis using ok(4) iput_ok[OF al] by (simp add: vfs_rename_def put_and_return_def)
  next
    case ok2: (ok ndir nname)
    let ?s = "bump ndir 1 (bump odir 1 s)"
    have dn: "isdir s ndir" using ok2(2) by simp
    note al2 = walkable_isdir[OF inv_walkable[OF inv] dn]
    have i2: "vfs_inv (add_mset ndir (add_mset odir H)) ?s" using inv_bump[OF i1, of ndir] al2 by simp
    have d: "isdir ?s odir" "isdir ?s ndir" using ok(2) dn by simp_all
    obtain ox nx where ox: "fetch odir ?s = Inr ox" "iops ox = Some Tmpfs_dir_ops" "fetch ndir ?s = Inr nx"
      using isdir_node[OF inv_walkable[OF i2] d(1)] isdir_node[OF inv_walkable[OF i2] d(2)] by (metis fetch_def option.case(2))
    have undo: "andthen (iput odir ?s) (\<lambda>s. put_and_return ndir r s) = Inr (r, s)" for r :: "errno + unit"
      using iput_ok2[OF al, of ndir] iput_ok[OF al2] by (simp add: put_and_return_def)
    have main: "vfs_rename from_path to_path cwd s =
      andthen (if i_sb ox \<noteq> i_sb nx then Inr (Inl EXDEV, ?s) else tmpfs_rename odir oname ndir nname ?s) (\<lambda>(r, s).
        andthen (iput odir s) (\<lambda>s. put_and_return ndir r s))"
      using ok(4) ok2(4) ox by (simp add: vfs_rename_def)
    show ?thesis
    proof (cases "i_sb ox = i_sb nx")
      case False
      then show ?thesis unfolding main using undo by simp
    next
      case True
      from tmpfs_rename_ok[OF i2 d ok2(3), of oname] obtain r s3 where r: "tmpfs_rename odir oname ndir nname ?s = Inr (r, s3)"
        and c: "(s3 = ?s \<and> (\<forall>u. r = Inr u \<longrightarrow> odir = ndir \<and> oname = nname \<and> map_of (kids ?s odir) oname \<noteq> None)) \<or>
          r = Inr () \<and> binv (add_mset ndir (add_mset odir H)) s3 \<and> (\<exists>i. renamed odir oname ndir nname i ?s s3) \<and>
          odir \<in># refs s3 \<and> ndir \<in># refs s3" by blast
      from c show ?thesis
      proof
        assume n: "s3 = ?s \<and> (\<forall>u. r = Inr u \<longrightarrow> odir = ndir \<and> oname = nname \<and> map_of (kids ?s odir) oname \<noteq> None)"
        then have "vfs_rename from_path to_path cwd s = Inr (r, s)" unfolding main using True r undo by simp
        with n ok(1) ok2(1) show ?thesis by simp
      next
        assume m: "r = Inr () \<and> binv (add_mset ndir (add_mset odir H)) s3 \<and> (\<exists>i. renamed odir oname ndir nname i ?s s3) \<and>
          odir \<in># refs s3 \<and> ndir \<in># refs s3"
        then obtain i where rn: "renamed odir oname ndir nname i s s3" by (auto simp: renamed_bump)
        have "binv (add_mset odir (add_mset ndir H)) s3" using m by (simp add: add_mset_commute)
        moreover have "odir \<in># refs s3" using m by simp
        ultimately obtain s4 where s4: "iput odir s3 = Inr s4" "binv (add_mset ndir H) s4" "kids s4 = kids s3" "refs s4 = refs s3"
          by (rule binv_drop_kept)
        have "ndir \<in># refs s4" using m s4(4) by simp
        with s4(2) obtain s5 where s5: "iput ndir s4 = Inr s5" "binv H s5" "kids s5 = kids s4"
          by (rule binv_drop_kept)
        have ru: "tmpfs_rename odir oname ndir nname ?s = Inr (Inr (), s3)" using r m by simp
        have "(if i_sb ox \<noteq> i_sb nx then Inr (Inl EXDEV, ?s) else tmpfs_rename odir oname ndir nname ?s) = Inr (Inr (), s3)"
          using True ru by argo
        then have "vfs_rename from_path to_path cwd s = Inr (Inr (), s5)"
          by (rule trans[OF main put_both[OF _ s4(1) s5(1)]])
        moreover have "renamed odir oname ndir nname i s s5" using rn unfolding renamed_def s5(3) s4(3) .
        moreover have "parent_result s to_path cwd = Inr (ndir, nname)" using ok2(1) by simp
        ultimately show ?thesis using s5(2) ok(1) by blast
      qed
    qed
  qed
qed

end
