(* ===== verification/Vfs_Files.thy ===== *)
theory Vfs_Files
  imports Vfs_Rename
begin

text \<open>
  Open files in the reference counts. An open file holds one reference to its inode and counts its own users:
  \<open>opened F\<close> says that the users of every file object are the handles in the bag \<open>F\<close>. Opening, duplicating,
  closing and listing keep both counts exact.
\<close>

section \<open>File objects\<close>

definition set_file :: "nat \<Rightarrow> vfile option \<Rightarrow> vfs \<Rightarrow> vfs" where
  "set_file f x s = s\<lparr>files := (files s)(f := x)\<rparr>"

lemma set_file_fields [simp]:
  "inodes (set_file f x s) = inodes s" "supers (set_file f x s) = supers s" "root_inode (set_file f x s) = root_inode s"
  "mounts (set_file f x s) = mounts s" "files (set_file f x s) = (files s)(f := x)"
  by (simp_all add: set_file_def)

lemma set_file_view [simp]:
  "kids (set_file f x s) = kids s" "par (set_file f x s) = par s" "isdir (set_file f x s) = isdir s" "mnt (set_file f x s) = mnt s"
  "cov (set_file f x s) = cov s" "rc (set_file f x s) = rc s" "alive (set_file f x s) = alive s"
  "is_root (set_file f x s) = is_root s" "par_rel (set_file f x s) = par_rel s" "mount_rel (set_file f x s) = mount_rel s"
  "mount_ok (set_file f x s) = mount_ok s"
  by (simp_all add: fun_eq_iff kids_def par_def isdir_def mnt_def cov_def rc_def alive_def is_root_def par_rel_def
        mount_rel_def mount_ok_def)

lemma set_file_tree [simp]: "tree (set_file f x s) = tree s" "attached (set_file f x s) = attached s"
  unfolding tree_def attached_def by simp_all

lemma inv_set_file:
  assumes "vfs_inv H s" "refs (set_file f x s) + H' = refs s + H"
  shows "vfs_inv H' (set_file f x s)"
  using assms unfolding vfs_inv_def counted_def by simp

lemma refs_set_file:
  "refs (set_file f x s) = store_sum node_refs (inodes s) + store_sum (\<lambda>f. {#f_inode f#}) ((files s)(f := x)) +
     store_sum (\<lambda>b. {#s_root b#}) (supers s) + mset (List.map_filter mountpoint (mounts s)) + opt_ref (root_inode s)"
  by (simp add: refs_def)

text \<open>A new file object takes over a reference, a closed one leaves it behind.\<close>

lemma inv_file_new:
  assumes inv: "vfs_inv (add_mset (f_inode x) H) s" and f: "files s f = None"
  shows "vfs_inv H (set_file f (Some x) s)"
proof -
  have "finite (dom (files s))" using inv by (simp add: vfs_inv_def counted_def)
  then have "refs (set_file f (Some x) s) + H = refs s + add_mset (f_inode x) H"
    unfolding refs_set_file refs_def by (simp add: store_sum_new f)
  with inv show ?thesis by (rule inv_set_file)
qed

lemma inv_file_upd:
  assumes inv: "vfs_inv H s" and f: "files s f = Some x" and y: "f_inode y = f_inode x"
  shows "vfs_inv H (set_file f (Some y) s)"
proof -
  have "finite (dom (files s))" using inv by (simp add: vfs_inv_def counted_def)
  from store_sum_upd[OF this f, of "\<lambda>f. {#f_inode f#}" y]
  have "refs (set_file f (Some y) s) + H = refs s + H" unfolding refs_set_file refs_def by (simp add: y)
  with inv show ?thesis by (rule inv_set_file)
qed

lemma inv_file_del:
  assumes inv: "vfs_inv H s" and f: "files s f = Some x"
  shows "vfs_inv (add_mset (f_inode x) H) (set_file f None s)"
proof -
  have "finite (dom (files s))" using inv by (simp add: vfs_inv_def counted_def)
  from store_sum_del[OF this f, of "\<lambda>f. {#f_inode f#}"]
  have "refs (set_file f None s) + add_mset (f_inode x) H = refs s + H" unfolding refs_set_file refs_def by simp
  with inv show ?thesis by (rule inv_set_file)
qed

lemma upd_inode_set_file: "upd_inode i g (set_file f x s) = set_file f x (upd_inode i g s)"
  by (simp add: upd_inode_def set_file_def)

lemma iput_set_file: "iput i (set_file f x s) = (case iput i s of Inl e \<Rightarrow> Inl e | Inr t \<Rightarrow> Inr (set_file f x t))"
proof (cases "inodes s i")
  case (Some y)
  then show ?thesis by (simp add: iput_def fetch_def Let_def upd_inode_set_file) (simp add: set_file_def upd_inode_def)
qed (simp add: iput_def fetch_def)

section \<open>The users of file objects\<close>

definition opened :: "nat multiset \<Rightarrow> vfs \<Rightarrow> bool" where
  "opened F s \<longleftrightarrow> (\<forall>f. files s f = None \<longrightarrow> count F f = 0) \<and>
     (\<forall>f x. files s f = Some x \<longrightarrow> 0 < count F f \<and> f_refcount x = int (count F f))"

lemma openedD: "opened F s \<Longrightarrow> f \<in># F \<Longrightarrow> \<exists>x. files s f = Some x \<and> f_refcount x = int (count F f)"
  by (cases "files s f") (auto simp: opened_def simp flip: count_greater_zero_iff)

lemma opened_cong: "opened F s \<Longrightarrow> files t = files s \<Longrightarrow> opened F t"
  by (simp add: opened_def)

lemma opened_upd:
  "opened F s \<Longrightarrow> f \<in># F' \<Longrightarrow> f_refcount x = int (count F' f) \<Longrightarrow> (\<And>g. g \<noteq> f \<Longrightarrow> count F' g = count F g) \<Longrightarrow>
   opened F' (set_file f (Some x) s)"
  by (auto simp: opened_def simp flip: count_greater_zero_iff)

lemma opened_new: "opened F s \<Longrightarrow> files s f = None \<Longrightarrow> f_refcount x = 1 \<Longrightarrow> opened (add_mset f F) (set_file f (Some x) s)"
  by (rule opened_upd) (auto simp: opened_def)

lemma opened_del: "opened (add_mset f F) s \<Longrightarrow> f \<notin># F \<Longrightarrow> opened F (set_file f None s)"
  by (auto simp: opened_def not_in_iff split: if_splits)

section \<open>Operations on open files\<close>

lemma file_dup_ok:
  assumes inv: "vfs_inv H s" and o: "opened F s" and f: "f \<in># F"
  shows "\<exists>s'. file_dup f s = Inr s' \<and> vfs_inv H s' \<and> opened (add_mset f F) s'"
proof -
  obtain x where x: "files s f = Some x" "f_refcount x = int (count F f)" using openedD[OF o f] by blast
  let ?x = "x\<lparr>f_refcount := f_refcount x + 1\<rparr>"
  have "file_dup f s = Inr (set_file f (Some ?x) s)" using x by (simp add: file_dup_def fetch_file_def set_file_def)
  moreover have "vfs_inv H (set_file f (Some ?x) s)" by (rule inv_file_upd[OF inv x(1)]) simp
  moreover have "opened (add_mset f F) (set_file f (Some ?x) s)" by (rule opened_upd[OF o]) (simp_all add: x)
  ultimately show ?thesis by blast
qed

lemma file_close_ok:
  assumes inv: "vfs_inv H s" and o: "opened (add_mset f F) s"
  shows "\<exists>s'. file_close f s = Inr s' \<and> vfs_inv H s' \<and> opened F s'"
proof -
  obtain x where x: "files s f = Some x" "f_refcount x = int (count (add_mset f F) f)" using openedD[OF o, of f] by auto
  let ?x = "x\<lparr>f_refcount := f_refcount x - 1\<rparr>"
  show ?thesis
  proof (cases "f \<in># F")
    case True
    then have "0 < f_refcount x - 1" using x(2) by simp
    then have "file_close f s = Inr (set_file f (Some ?x) s)"
      using x(1) by (simp add: file_close_def fetch_file_def set_file_def)
    moreover have "vfs_inv H (set_file f (Some ?x) s)" by (rule inv_file_upd[OF inv x(1)]) simp
    moreover have "opened F (set_file f (Some ?x) s)" by (rule opened_upd[OF o]) (simp_all add: x(2) True)
    ultimately show ?thesis by blast
  next
    case False
    then have n: "f_refcount x = 1" using x(2) by (simp add: not_in_iff)
    obtain t where t: "iput (f_inode x) (set_file f None s) = Inr t" "vfs_inv H t" "same_files (set_file f None s) t"
      using inv_drop[OF inv_file_del[OF inv x(1)]] .
    obtain u where u: "iput (f_inode x) s = Inr u" "t = set_file f None u"
      using t(1) by (auto simp: iput_set_file split: sum.splits)
    have "file_close f s = Inr (set_file f None (set_file f (Some ?x) u))"
      using x(1) n u(1) iput_set_file[of "f_inode x" f "Some ?x" s] by (simp add: file_close_def fetch_file_def set_file_def)
    also have "set_file f None (set_file f (Some ?x) u) = t" using u(2) by (simp add: set_file_def)
    finally have "file_close f s = Inr t" .
    moreover have "opened F t" using opened_cong[OF opened_del[OF o False]] t(3) by (simp add: same_files_def)
    ultimately show ?thesis using t(2) by blast
  qed
qed

lemma file_inode_refs: "vfs_inv H s \<Longrightarrow> files s f = Some x \<Longrightarrow> f_inode x \<in># refs s"
  using store_sum_mem[of "files s" f x "\<lambda>f. {#f_inode f#}"]
  by (auto simp: vfs_inv_def counted_def refs_def)

lemma file_inode_alive: "vfs_inv H s \<Longrightarrow> files s f = Some x \<Longrightarrow> alive s (f_inode x)"
  using file_inode_refs[of H s f x] counted_alive[of H s "f_inode x"] by (simp add: vfs_inv_def)

section \<open>Opening\<close>

lemma added_files: "added dir name a b s t \<Longrightarrow> files t = files s"
  by (simp add: added_def)

text \<open>The inode to open: an existing one, or a new one that is already in the directory.\<close>

definition create_or_take :: "nat \<Rightarrow> string \<Rightarrow> u32 \<Rightarrow> u32 \<Rightarrow> allocs \<Rightarrow> nat option \<Rightarrow> vfs \<Rightarrow> (errno + nat) vfs_result" where
  "create_or_take dir name fl m A found s =
     (case found of
        Some i \<Rightarrow> if has_flag fl O_EXCL then andthen (iput i s) (\<lambda>s. Inr (Inl EEXIST, s)) else Inr (Inr i, s)
      | None \<Rightarrow> tmpfs_create dir name (S_IFREG OR (m AND 0xFFF)) A s)"

lemma create_or_take_ok:
  assumes inv: "vfs_inv H s" and d: "isdir s dir" and n: "name_ok name" and f: "fresh A s"
  shows "\<exists>r s'. create_or_take dir name fl m A (map_of (kids s dir) name)
      (case map_of (kids s dir) name of None \<Rightarrow> bump dir 1 s | Some c \<Rightarrow> bump c 1 (bump dir 1 s)) = Inr (r, s') \<and> files s' = files s \<and>
    (case r of Inl _ \<Rightarrow> vfs_inv (add_mset dir H) s' | Inr i \<Rightarrow> vfs_inv (add_mset i (add_mset dir H)) s')"
proof -
  note al = walkable_isdir[OF inv_walkable[OF inv] d]
  note b = inv_bump[OF inv al]
  show ?thesis
  proof (cases "map_of (kids s dir) name")
    case (Some c)
    have ac: "alive (bump dir 1 s) c" using dir_lookup_ok(2)[OF inv d n Some] by simp
    show ?thesis
      using Some iput_ok[OF ac] b inv_bump[OF b ac] by (cases "has_flag fl O_EXCL") (simp_all add: create_or_take_def)
  next
    case None
    then obtain r s' where r: "tmpfs_create dir name (S_IFREG OR (m AND 0xFFF)) A (bump dir 1 s) = Inr (r, s')"
        "case r of Inl _ \<Rightarrow> vfs_inv (add_mset dir H) s' \<and> same_files (bump dir 1 s) s'
         | Inr a \<Rightarrow> vfs_inv (add_mset a (add_mset dir H)) s' \<and> added dir name a False (bump dir 1 s) s'"
      using tmpfs_create_ok[OF b, of dir name A "S_IFREG OR (m AND 0xFFF)"] d n f mode_bits(2) by auto
    then have "files s' = files s" by (cases r) (simp_all add: same_files_def added_def)
    with r None show ?thesis by (cases r) (simp_all add: create_or_take_def)
  qed
qed

text \<open>Following mounts with a reference in hand.\<close>

lemma follow_held_loop:
  assumes "wf R"
  shows "vfs_inv (add_mset i H) s \<Longrightarrow> mount_rel s = R \<Longrightarrow>
    \<exists>t s'. follow_loop i s = Some (Inr (t, s')) \<and> vfs_inv (add_mset t H) s' \<and> files s' = files s"
  using assms
proof (induction i arbitrary: s rule: wf_induct_rule)
  case (less i)
  obtain x where x: "inodes s i = Some x" "fetch i s = Inr x" using fetch_alive[OF held_alive[OF less.prems(1)]] by auto
  show ?case
  proof (cases "mounted x")
    case None
    with less.prems x show ?thesis by (subst follow_loop.simps) simp
  next
    case (Some m)
    then have m: "mnt s i = Some m" using x by (simp add: mnt_def)
    then have al: "alive s m" using inv_walkable[OF less.prems(1)] by (auto simp: walkable_def)
    have "vfs_inv (add_mset i (add_mset m H)) (bump m 1 s)"
      using inv_bump[OF less.prems(1) al] by (simp add: add_mset_commute)
    then obtain s2 where s2: "iput i (bump m 1 s) = Inr s2" "vfs_inv (add_mset m H) s2" "same_files (bump m 1 s) s2"
      by (rule inv_drop)
    have "mount_rel s2 = R" using s2(3) less.prems(2) by (simp add: same_files_def mount_rel_def)
    moreover have "(m, i) \<in> R" using m less.prems(2) by (auto simp: mount_rel_def)
    ultimately obtain t s3 where "follow_loop m s2 = Some (Inr (t, s3))" "vfs_inv (add_mset t H) s3" "files s3 = files s2"
      using less.IH s2(2) by blast
    then show ?thesis using x Some iget_ok[OF al] s2(1,3) by (subst follow_loop.simps) (simp add: same_files_def)
  qed
qed

lemma follow_held:
  assumes "vfs_inv (add_mset i H) s"
  obtains t s' where "follow_mounts i s = Inr (t, s')" "vfs_inv (add_mset t H) s'" "files s' = files s"
  using follow_held_loop[of "mount_rel s", OF _ assms refl] inv_walkable[OF assms]
  by (auto simp: follow_mounts_def walkable_def)

lemma open_create_ok:
  assumes inv: "vfs_inv H s" and cwd: "\<forall>c. cwd = Some c \<longrightarrow> alive s c" and f: "fresh A s"
  shows "\<exists>r s'. open_create path cwd fl m A s = Inr (r, s') \<and> files s' = files s \<and>
    (case r of Inl _ \<Rightarrow> vfs_inv H s' | Inr i \<Rightarrow> vfs_inv (add_mset i H) s')"
  using inv cwd
proof (cases rule: with_parent_cases[where path = path])
  case (err e)
  with inv show ?thesis by (simp add: open_create_def)
next
  case (ok dir name)
  note dl = dir_lookup_ok[OF inv ok(2,3)]
  obtain r s1 where c: "create_or_take dir name fl m A (map_of (kids s dir) name)
      (case map_of (kids s dir) name of None \<Rightarrow> bump dir 1 s | Some c \<Rightarrow> bump c 1 (bump dir 1 s)) = Inr (r, s1)" "files s1 = files s"
    "case r of Inl _ \<Rightarrow> vfs_inv (add_mset dir H) s1 | Inr i \<Rightarrow> vfs_inv (add_mset i (add_mset dir H)) s1"
    using create_or_take_ok[OF inv ok(2,3) f] by blast
  have main: "open_create path cwd fl m A s = andthen (iput dir s1) (\<lambda>s.
      case r of Inl e \<Rightarrow> Inr (Inl e, s) | Inr i \<Rightarrow> andthen (follow_mounts i s) (\<lambda>(i, s). Inr (Inr i, s)))"
    using ok(4) dl c(1) by (simp add: open_create_def create_or_take_def)
  show ?thesis
  proof (cases r)
    case (Inl e)
    obtain s2 where "iput dir s1 = Inr s2" "vfs_inv H s2" "same_files s1 s2" using inv_drop[of dir H s1] c(3) Inl by auto
    then show ?thesis using main Inl c(2) by (simp add: same_files_def)
  next
    case (Inr i)
    then have "vfs_inv (add_mset dir (add_mset i H)) s1" using c(3) by (simp add: add_mset_commute)
    then obtain s2 where s2: "iput dir s1 = Inr s2" "vfs_inv (add_mset i H) s2" "same_files s1 s2" by (rule inv_drop)
    obtain t s3 where "follow_mounts i s2 = Inr (t, s3)" "vfs_inv (add_mset t H) s3" "files s3 = files s2" using follow_held[OF s2(2)] .
    then show ?thesis using main Inr c(2) s2(1,3) by (simp add: same_files_def)
  qed
qed

text \<open>The file object for an inode, given back if the device has no driver.\<close>

lemma finish_open_ok:
  assumes inv: "vfs_inv (add_mset i H) s" and o: "opened F s" and f: "\<forall>f. a_file A = Some f \<longrightarrow> files s f = None"
    and x: "fetch i s = Inr y"
  shows "\<exists>r s'. andthen (file_alloc i fl A s) (\<lambda>(r, s).
      case r of
        None \<Rightarrow> put_and_return i (Inl ENOMEM) s
      | Some f \<Rightarrow>
          andthen (fetch_file f s) (\<lambda>fx.
            if dev \<and> f_fops fx = None then andthen (file_close f s) (\<lambda>s. Inr (Inl ENXIO, s)) else Inr (Inr f, s))) = Inr (r, s') \<and>
    vfs_inv H s' \<and> (case r of Inl _ \<Rightarrow> opened F s' | Inr f \<Rightarrow> files s f = None \<and> opened (add_mset f F) s' \<and>
      (\<exists>x. files s' f = Some x \<and> f_inode x = i \<and> offset x = 0 \<and> flags x = fl))"
proof (cases "a_file A")
  case None
  obtain s' where "put_and_return i (Inl ENOMEM) s = Inr (Inl ENOMEM :: errno + nat, s')" "vfs_inv H s'" "same_files s s'"
    using inv_return[OF inv] .
  then show ?thesis using None opened_cong[OF o, of s'] by (simp add: file_alloc_def same_files_def)
next
  case (Some f)
  define fops where "fops = (if S_ISCHR (mode y) then chrdev_get (MAJOR (rdev y)) s
    else if S_ISBLK (mode y) then Some Blkdev_ops else i_fops y)"
  define fx where "fx = \<lparr>f_inode = i, f_fops = fops, offset = 0, flags = fl, f_refcount = 1\<rparr>"
  have new: "files s f = None" using f Some by simp
  have al: "file_alloc i fl A s = Inr (Some f, set_file f (Some fx) s)"
    using Some x by (simp add: file_alloc_def set_file_def fx_def fops_def)
  have i2: "vfs_inv H (set_file f (Some fx) s)" using inv_file_new[of fx H s f] inv new by (simp add: fx_def)
  have o2: "opened (add_mset f F) (set_file f (Some fx) s)" using opened_new[OF o new] by (simp add: fx_def)
  obtain s3 where s3: "file_close f (set_file f (Some fx) s) = Inr s3" "vfs_inv H s3" "opened F s3"
    using file_close_ok[OF i2 o2] by blast
  have ff: "fetch_file f (set_file f (Some fx) s) = Inr fx" by (simp add: fetch_file_def)
  show ?thesis
  proof (cases "dev \<and> fops = None")
    case True
    then show ?thesis using al ff s3 by (simp add: fx_def)
  next
    case False
    then show ?thesis using al ff i2 o2 new by (auto simp: fx_def)
  qed
qed

lemma open_file_ok:
  assumes inv: "vfs_inv (add_mset i H) s" and o: "opened F s" and f: "\<forall>f. a_file A = Some f \<longrightarrow> files s f = None"
  shows "\<exists>r s'. open_file i fl A s = Inr (r, s') \<and> vfs_inv H s' \<and>
    (case r of Inl _ \<Rightarrow> opened F s' | Inr f \<Rightarrow> files s f = None \<and> opened (add_mset f F) s' \<and>
      (\<exists>x. files s' f = Some x \<and> f_inode x = i \<and> offset x = 0 \<and> flags x = fl))"
proof -
  have t: "tree s" using inv by (simp add: vfs_inv_def)
  obtain x where x: "inodes s i = Some x" "fetch i s = Inr x" using fetch_alive[OF held_alive[OF inv]] by auto
  obtain ro where ro: "is_read_only x s = Inr ro" using is_read_only_ok[OF t x(1)] by blast
  define wr where "wr \<longleftrightarrow> fl AND O_ACCMODE \<noteq> O_RDONLY"
  define err where "err = (if S_ISDIR (mode x) \<and> wr then Some EISDIR else if has_flag fl O_DIRECTORY \<and> \<not> S_ISDIR (mode x) then Some ENOTDIR
    else if wr \<and> ro \<and> S_ISREG (mode x) then Some EROFS else None)"
  define s1 where "s1 = (if has_flag fl O_TRUNC \<and> wr \<and> S_ISREG (mode x) \<and> iops x = Some Tmpfs_file_iops
    then upd_inode i (\<lambda>x. x\<lparr>i_size := 0\<rparr>) s else s)"
  have k: "keeps (\<lambda>x. x\<lparr>i_size := 0\<rparr>)" by (rule keeps_simps)
  have i1: "vfs_inv (add_mset i H) s1" using inv inv_upd(1)[OF inv k] by (simp add: s1_def)
  have f1: "files s1 = files s" by (simp add: s1_def)
  obtain y where y: "fetch i s1 = Inr y" using fetch_alive[OF held_alive[OF i1]] by auto
  show ?thesis
  proof (cases err)
    case (Some e)
    then have "open_file i fl A s = put_and_return i (Inl e) s"
      using x ro by (auto simp: open_file_def err_def wr_def Let_def split: if_splits)
    moreover obtain s' where "put_and_return i (Inl e) s = Inr (Inl e :: errno + nat, s')" "vfs_inv H s'" "same_files s s'"
      using inv_return[OF inv] .
    ultimately show ?thesis using opened_cong[OF o, of s'] by (simp add: same_files_def)
  next
    case None
    have m: "open_file i fl A s = andthen (file_alloc i fl A s1) (\<lambda>(r, s).
      case r of
        None \<Rightarrow> put_and_return i (Inl ENOMEM) s
      | Some f \<Rightarrow>
          andthen (fetch_file f s) (\<lambda>fx.
            if S_ISCHR (mode x) \<and> f_fops fx = None then andthen (file_close f s) (\<lambda>s. Inr (Inl ENXIO, s)) else Inr (Inr f, s)))"
      using x ro None by (auto simp: open_file_def err_def wr_def s1_def Let_def split: if_splits)
    have "\<forall>f. a_file A = Some f \<longrightarrow> files s1 f = None" using f f1 by simp
    from finish_open_ok[OF i1 opened_cong[OF o f1] this y] show ?thesis unfolding m f1 .
  qed
qed

lemma vfs_open_ok:
  assumes inv: "vfs_inv H s" and o: "opened F s" and cwd: "\<forall>c. cwd = Some c \<longrightarrow> alive s c" and f: "fresh A s"
  shows "\<exists>r s'. vfs_open path cwd fl m A s = Inr (r, s') \<and> vfs_inv H s' \<and>
    (case r of Inl _ \<Rightarrow> opened F s' | Inr f \<Rightarrow> opened (add_mset f F) s' \<and>
      (\<exists>x. files s f = None \<and> files s' f = Some x \<and> alive s' (f_inode x) \<and> offset x = 0 \<and> flags x = fl))"
proof -
  have "\<exists>r s'. (if has_flag fl O_CREAT then open_create path cwd fl m A s else vfs_lookup path cwd s) = Inr (r, s') \<and>
      files s' = files s \<and> (case r of Inl _ \<Rightarrow> vfs_inv H s' | Inr i \<Rightarrow> vfs_inv (add_mset i H) s')"
  proof (cases "has_flag fl O_CREAT")
    case True
    then show ?thesis using open_create_ok[OF inv cwd f, of path fl m] by simp
  next
    case False
    then show ?thesis using vfs_lookup_ok[OF inv_walkable[OF inv] cwd, of path] inv inv_bump[OF inv]
      by (cases "lookup_result s path cwd") auto
  qed
  then obtain r s1 where r: "(if has_flag fl O_CREAT then open_create path cwd fl m A s else vfs_lookup path cwd s) = Inr (r, s1)"
      "files s1 = files s" "case r of Inl _ \<Rightarrow> vfs_inv H s1 | Inr i \<Rightarrow> vfs_inv (add_mset i H) s1" by blast
  show ?thesis
  proof (cases r)
    case (Inl e)
    then show ?thesis using r opened_cong[OF o r(2)] by (simp add: vfs_open_def)
  next
    case (Inr i)
    have "\<forall>f. a_file A = Some f \<longrightarrow> files s1 f = None" using f r(2) by (simp add: fresh_def)
    from open_file_ok[OF _ opened_cong[OF o r(2)] this, of i H fl] obtain r' s' where
      o2: "open_file i fl A s1 = Inr (r', s')" "vfs_inv H s'"
        "case r' of Inl _ \<Rightarrow> opened F s' | Inr f \<Rightarrow> files s1 f = None \<and> opened (add_mset f F) s' \<and>
          (\<exists>x. files s' f = Some x \<and> f_inode x = i \<and> offset x = 0 \<and> flags x = fl)" using r(3) Inr by auto
    have m: "vfs_open path cwd fl m A s = Inr (r', s')" using r(1) Inr o2(1) by (simp add: vfs_open_def)
    show ?thesis
    proof (cases r')
      case (Inr f)
      then obtain x where "files s' f = Some x" "f_inode x = i" "offset x = 0" "flags x = fl" "files s f = None" "opened (add_mset f F) s'"
        using o2(3) r(2) by auto
      then show ?thesis using m o2(2) Inr file_inode_alive[OF o2(2)] by auto
    qed (use m o2 in simp)
  qed
qed

section \<open>Listing a directory\<close>

definition listing :: "vfs \<Rightarrow> nat \<Rightarrow> string list" where
  "listing s d = ''.'' # ''..'' # map fst (kids s d)"

lemma tmpfs_readdir_ok:
  assumes inv: "vfs_inv H s" and d: "isdir s dir"
  shows "\<exists>e. tmpfs_readdir dir pos s = Inr e \<and>
    (if pos < length (listing s dir) then \<exists>k m. e = Some (k, m, listing s dir ! pos) else e = None)"
proof -
  note w = inv_walkable[OF inv]
  obtain x n where x: "inodes s dir = Some x" "priv x = Some n" "kids s dir = children n" "par s dir = parent n"
    using isdir_node[OF w d] by metis
  have f: "fetch dir s = Inr x" "NODE x = Inr n" using x by (simp_all add: fetch_def NODE_def)
  have "isdir s (case parent n of Some p \<Rightarrow> p | None \<Rightarrow> dir)"
    using w d x(4) by (auto simp: walkable_def split: option.splits)
  then obtain px where p: "fetch (case parent n of Some p \<Rightarrow> p | None \<Rightarrow> dir) s = Inr px"
    using fetch_alive[OF walkable_isdir[OF w]] by blast
  have c: "\<exists>cx. fetch (snd (children n ! (pos - 2))) s = Inr cx" if "pos - 2 < length (children n)"
  proof -
    have "snd (children n ! (pos - 2)) \<in> snd ` set (kids s dir)" using that x(3) by simp
    then have "alive s (snd (children n ! (pos - 2)))" using w by (auto simp: walkable_def)
    then show ?thesis using fetch_alive by blast
  qed
  consider "pos = 0" | "pos = 1" | "2 \<le> pos" "pos - 2 < length (children n)" | "2 \<le> pos" "\<not> pos - 2 < length (children n)" by linarith
  then show ?thesis
  proof cases
    case 3
    then obtain k where k: "pos = Suc (Suc k)" "k < length (children n)" by (metis add_2_eq_Suc le_Suc_ex diff_add_inverse)
    obtain cx where "fetch (snd (children n ! k)) s = Inr cx" using c k by auto
    then show ?thesis using f k x(3) by (simp add: tmpfs_readdir_def listing_def case_prod_unfold)
  qed (use f p x(3) in \<open>auto simp: tmpfs_readdir_def listing_def\<close>)
qed

text \<open>A client that reads names until there are no more, at most \<open>n\<close> calls.\<close>

primrec read_names :: "nat \<Rightarrow> nat \<Rightarrow> vfs \<Rightarrow> vfs_panic + string list \<times> vfs" where
  "read_names 0 f s = Inr ([], s)"
| "read_names (Suc n) f s =
     andthen (vfs_readdir f s) (\<lambda>(r, s).
       case r of
         Inr (Some (_, _, name)) \<Rightarrow> andthen (read_names n f s) (\<lambda>(names, s). Inr (name # names, s))
       | _ \<Rightarrow> Inr ([], s))"

lemma vfs_readdir_ok:
  assumes inv: "vfs_inv H s" and f: "files s f = Some x"
  shows "\<exists>r. vfs_readdir f s = Inr (r, case r of Inr (Some _) \<Rightarrow> set_file f (Some (x\<lparr>offset := offset x + 1\<rparr>)) s | _ \<Rightarrow> s) \<and>
    (if \<not> isdir s (f_inode x) then r = Inl ENOTDIR
     else if unat (offset x) < length (listing s (f_inode x)) then \<exists>k m. r = Inr (Some (k, m, listing s (f_inode x) ! unat (offset x)))
     else r = Inr None)"
proof (cases "isdir s (f_inode x)")
  case True
  obtain y where y: "fetch (f_inode x) s = Inr y" "S_ISDIR (mode y)" "iops y = Some Tmpfs_dir_ops"
    using isdir_node[OF inv_walkable[OF inv] True] by (metis fetch_def option.case(2))
  obtain e where "tmpfs_readdir (f_inode x) (unat (offset x)) s = Inr e"
    "if unat (offset x) < length (listing s (f_inode x)) then \<exists>k m. e = Some (k, m, listing s (f_inode x) ! unat (offset x)) else e = None"
    using tmpfs_readdir_ok[OF inv True] by blast
  then show ?thesis using True y f by (cases e) (auto simp: vfs_readdir_def fetch_file_def set_file_def split: if_splits)
next
  case False
  obtain y where "inodes s (f_inode x) = Some y" "fetch (f_inode x) s = Inr y" using fetch_alive[OF file_inode_alive[OF inv f]] by blast
  then show ?thesis using False f by (simp add: vfs_readdir_def fetch_file_def isdir_def)
qed

lemma listing_set_file [simp]: "listing (set_file f x s) = listing s"
  by (simp add: fun_eq_iff listing_def)

lemma read_names_ok:
  assumes "vfs_inv H s" "files s f = Some x" "isdir s (f_inode x)" "length (listing s (f_inode x)) < 2 ^ 64"
    "length (listing s (f_inode x)) - unat (offset x) < n"
  shows "\<exists>s'. read_names n f s = Inr (drop (unat (offset x)) (listing s (f_inode x)), s')"
  using assms
proof (induction n arbitrary: s x)
  case (Suc n)
  let ?l = "listing s (f_inode x)"
  let ?x = "x\<lparr>offset := offset x + 1\<rparr>"
  obtain r where r: "vfs_readdir f s = Inr (r, case r of Inr (Some _) \<Rightarrow> set_file f (Some ?x) s | _ \<Rightarrow> s)"
    "if unat (offset x) < length ?l then \<exists>k m. r = Inr (Some (k, m, ?l ! unat (offset x))) else r = Inr None"
    using vfs_readdir_ok[OF Suc.prems(1,2)] Suc.prems(3) by auto
  show ?case
  proof (cases "unat (offset x) < length ?l")
    case True
    have u: "unat (offset x + 1) = Suc (unat (offset x))" using True Suc.prems(4) by (simp add: unat_word_ariths)
    have i: "vfs_inv H (set_file f (Some ?x) s)" by (rule inv_file_upd[OF Suc.prems(1,2)]) simp
    have "\<exists>s'. read_names n f (set_file f (Some ?x) s) = Inr (drop (Suc (unat (offset x))) ?l, s')"
      using Suc.IH[OF i, of ?x] Suc.prems True by (simp add: u)
    then show ?thesis using r True by (auto simp: Cons_nth_drop_Suc)
  qed (use r in simp)
qed simp

end
