(* ===== verification/Vfs_Mount.thy ===== *)
theory Vfs_Mount
  imports Vfs_Files
begin

text \<open>
  Mounting and unmounting. A mount adds a super block with a new root directory and connects the root and
  the directory it covers by counted references in both directions; unmounting takes back exactly these.
\<close>

section \<open>A new super block\<close>

definition with_super :: "nat \<Rightarrow> nat \<Rightarrow> u32 \<Rightarrow> vfs \<Rightarrow> vfs" where
  "with_super b a m s =
     s\<lparr>inodes := (inodes s)(a \<mapsto> new_inode (Some b) m (next_ino s)), next_ino := next_ino s + 1, next_dev := next_dev s + 1,
       supers := (supers s)(b \<mapsto> \<lparr>s_root = a, read_only = False, s_dev = next_dev s\<rparr>)\<rparr>"

lemma with_super_fields [simp]:
  "files (with_super b a m s) = files s" "root_inode (with_super b a m s) = root_inode s" "mounts (with_super b a m s) = mounts s"
  "inodes (with_super b a m s) = (inodes s)(a \<mapsto> new_inode (Some b) m (next_ino s))"
  "supers (with_super b a m s) = (supers s)(b \<mapsto> \<lparr>s_root = a, read_only = False, s_dev = next_dev s\<rparr>)"
  by (simp_all add: with_super_def)

lemma with_super_view:
  assumes "inodes s a = None" "S_ISDIR m"
  shows "kids (with_super b a m s) = kids s" "par (with_super b a m s) = par s" "mnt (with_super b a m s) = mnt s"
    "cov (with_super b a m s) = cov s" "isdir (with_super b a m s) = (isdir s)(a := True)"
  using assms by (auto simp: fun_eq_iff kids_def par_def mnt_def cov_def isdir_def new_inode_def)

lemma counted_fresh: "counted H s \<Longrightarrow> inodes s a = None \<Longrightarrow> a \<notin># refs s + H"
  using counted_alive[of H s a] by (auto simp: alive_def)

lemma inv_with_super:
  assumes inv: "vfs_inv H s" and a: "inodes s a = None" and b: "supers s b = None" and m: "S_ISDIR m"
  shows "vfs_inv H (with_super b a m s)"
proof -
  let ?t = "with_super b a m s"
  have c: "counted H s" and t: "tree s" and at: "attached s" using inv by (simp_all add: vfs_inv_def)
  have fin: "finite (dom (inodes s))" "finite (dom (supers s))" using c by (simp_all add: counted_def)
  note v = with_super_view[OF a m]
  have na: "a \<notin># refs s + H" by (rule counted_fresh[OF c a])
  have nk: "(n, a) \<notin> set (kids s p)" for n p using na refs_kids[OF fin(1)] by fastforce
  have nd: "\<not> isdir s a" and pa: "par s a = None" using a by (simp_all add: isdir_def par_def)
  have ra: "\<not> is_root s a" using tree_is_root(1)[OF t] nd by blast
  have root: "is_root ?t i \<longleftrightarrow> i = a \<or> is_root s i" for i using b unfolding is_root_def by (simp add: fun_upd_def) (metis option.distinct(1) option.inject super_block.select_convs(1))
  have nx: "node_refs (new_inode (Some b) m k) = {#}" "refcount (new_inode (Some b) m k) = 1" "shape (new_inode (Some b) m k)"
    "i_sb (new_inode (Some b) m k) = Some b" for k using m by (simp_all add: new_inode_def node_refs_def shape_def)
  have "refs ?t = add_mset a (refs s)"
    by (simp add: refs_def store_sum_new[OF fin(1) a] store_sum_new[OF fin(2) b] nx)
  moreover have "rc ?t j = rc s j + (if j = a then 1 else 0)" for j using a by (simp add: rc_def nx)
  ultimately have "counted H ?t" using c by (auto simp: counted_def nx)
  moreover have "tree ?t"
  proof (rule treeI, goal_cases)
    case (1 j y)
    then show ?case using tree_shape[OF t, of j] nx by (auto split: if_splits)
  next
    case (2 j y b')
    then show ?case using tree_sb[OF t, of j] nx by (auto split: if_splits)
  next
    case (3 p n j)
    then show ?case using tree_par[OF t, of n j p] nk by (auto simp: v split: if_splits)
  next
    case (4 p n n' j)
    then show ?case using tree_once[OF t, of n j p n'] nk by (auto simp: v split: if_splits)
  next
    case (5 j)
    then show ?case using tree_is_root(1)[OF t, of j] by (auto simp: v root)
  next
    case (6 j)
    then show ?case using tree_is_root(2)[OF t, of j] pa by (auto simp: v root)
  next
    case (7 j)
    then show ?case using tree_is_root(3)[OF t, of j] by (auto simp: v root split: if_splits)
  next
    case (8 j c)
    then show ?case using tree_cov(1)[OF t, of j c] by (auto simp: v)
  next
    case (9 j c)
    then show ?case using tree_cov(2)[OF t, of j c] by (simp add: v root)
  next
    case 10
    then show ?case using tree_root[OF t] by (auto simp: v)
  next
    case 11
    then show ?case using tree_acyclic(1)[OF t] by (simp add: par_rel_def v)
  next
    case 12
    then show ?case using tree_acyclic(2)[OF t] by (simp add: mount_rel_def v)
  next
    case (13 k)
    then show ?case using tree_mounts(1)[OF t, of k] b by (auto simp: mount_ok_def v)
  next
    case 14
    then show ?case using tree_mounts(2)[OF t] by simp
  next
    case (15 j r)
    then show ?case using tree_mnt[OF t] by (simp add: v)
  qed
  moreover have "attached ?t" using at by (simp add: attached_def v)
  ultimately show ?thesis by (simp add: vfs_inv_def)
qed

lemma mode_sb: "S_ISDIR (S_IFDIR OR 0x1ED)"
  by (simp add: S_ISDIR_def)

lemma inv_next_dev: "vfs_inv H s \<Longrightarrow> vfs_inv H (s\<lparr>next_dev := k\<rparr>)" "same_files s (s\<lparr>next_dev := k\<rparr>)"
proof -
  have a: "agree s (s\<lparr>next_dev := k\<rparr>)" by (simp add: agree_def)
  then show "same_files s (s\<lparr>next_dev := k\<rparr>)" by (rule agree_same_files)
  show "vfs_inv H (s\<lparr>next_dev := k\<rparr>)" if "vfs_inv H s" using inv_agree[OF that a] by (simp add: rc_def)
qed

lemma tmpfs_create_sb_cases:
  assumes inv: "vfs_inv H s" and f: "fresh A s"
  obtains (none) s' where "tmpfs_create_sb A s = Inr (None, s')" "vfs_inv H s'" "same_files s s'"
    | (some) b a where "inodes s a = None" "supers s b = None"
        "tmpfs_create_sb A s = Inr (Some b, with_super b a (S_IFDIR OR 0x1ED) s)"
proof (cases "a_sb A")
  case None
  then show ?thesis using none[of s] inv by (simp add: tmpfs_create_sb_def)
next
  case (Some b)
  let ?s = "s\<lparr>next_dev := next_dev s + 1\<rparr>"
  have "fresh A ?s" using f by (simp add: fresh_def)
  then show ?thesis
  proof (cases rule: tmpfs_new_inode_cases[where sb = "Some b" and m = "S_IFDIR OR 0x1ED"])
    case n: none
    then show ?thesis using none[of ?s] inv_next_dev(1)[OF inv] inv_next_dev(2) Some by (simp add: tmpfs_create_sb_def)
  next
    case c: (some a)
    then have "tmpfs_create_sb A s = Inr (Some b, with_super b a (S_IFDIR OR 0x1ED) s)"
      using Some by (simp add: tmpfs_create_sb_def with_super_def with_inode_def)
    then show ?thesis using some[of a b] c(2) Some f by (simp add: fresh_def)
  qed
qed

section \<open>Connecting and disconnecting\<close>

definition set_mnt :: "nat \<Rightarrow> nat option \<Rightarrow> vfs \<Rightarrow> vfs" where
  "set_mnt mp r = upd_inode mp (\<lambda>x. x\<lparr>mounted := r\<rparr>)"

definition set_cov :: "nat \<Rightarrow> nat option \<Rightarrow> vfs \<Rightarrow> vfs" where
  "set_cov r mp = upd_inode r (\<lambda>x. x\<lparr>covered := mp\<rparr>)"

definition set_mounts :: "mount list \<Rightarrow> vfs \<Rightarrow> vfs" where
  "set_mounts ms s = s\<lparr>mounts := ms\<rparr>"

text \<open>Both directions and the list at once.\<close>

definition relink :: "nat \<Rightarrow> nat option \<Rightarrow> nat \<Rightarrow> nat option \<Rightarrow> mount list \<Rightarrow> vfs \<Rightarrow> vfs" where
  "relink mp r' r mp' ms s = set_mounts ms (set_cov r mp' (set_mnt mp r' s))"

lemma relink_fields [simp]:
  "files (relink mp r' r mp' ms s) = files s" "supers (relink mp r' r mp' ms s) = supers s"
  "root_inode (relink mp r' r mp' ms s) = root_inode s" "mounts (relink mp r' r mp' ms s) = ms"
  "is_root (relink mp r' r mp' ms s) = is_root s"
  by (simp_all add: relink_def set_mnt_def set_cov_def set_mounts_def is_root_def fun_eq_iff)

lemma inodes_relink:
  "mp \<noteq> r \<Longrightarrow> inodes (relink mp r' r mp' ms s) j = map_option (\<lambda>x. if j = mp then x\<lparr>mounted := r'\<rparr> else if j = r then x\<lparr>covered := mp'\<rparr> else x) (inodes s j)"
  by (auto simp: relink_def set_mnt_def set_cov_def set_mounts_def inodes_upd_inode option.map_id0[unfolded id_def])

lemma relink_view:
  assumes "mp \<noteq> r" "isdir s mp" "isdir s r"
  shows "kids (relink mp r' r mp' ms s) = kids s" "par (relink mp r' r mp' ms s) = par s" "isdir (relink mp r' r mp' ms s) = isdir s"
    "mnt (relink mp r' r mp' ms s) = (mnt s)(mp := r')" "cov (relink mp r' r mp' ms s) = (cov s)(r := mp')"
    "rc (relink mp r' r mp' ms s) = rc s"
proof -
  let ?t = "relink mp r' r mp' ms s"
  have m: "inodes s mp \<noteq> None" "inodes s r \<noteq> None" using assms(2,3) by (auto simp: isdir_def split: option.splits)
  have "kids ?t j = kids s j \<and> par ?t j = par s j \<and> isdir ?t j = isdir s j \<and> mnt ?t j = ((mnt s)(mp := r')) j \<and>
      cov ?t j = ((cov s)(r := mp')) j \<and> rc ?t j = rc s j" for j
    using m assms(1)
    by (cases "inodes s j") (auto simp: kids_def par_def isdir_def mnt_def cov_def rc_def inodes_relink)
  then show "kids ?t = kids s" "par ?t = par s" "isdir ?t = isdir s" "mnt ?t = (mnt s)(mp := r')" "cov ?t = (cov s)(r := mp')"
    "rc ?t = rc s" by blast+
qed

lemma mset_exchange:
  fixes A B C p q r m x x' y y' :: "'a multiset"
  assumes "A + x = B + x'" "C + y = A + y'" "x + r = x' + p" "y + m = y' + q"
  shows "C + p + q = B + r + m"
proof (rule multiset_eqI)
  fix a
  show "count (C + p + q) a = count (B + r + m) a" using assms[THEN arg_cong[where f = "\<lambda>M. count M a"]] by simp
qed

lemma relink_refs:
  assumes c: "finite (dom (inodes s))" and ne: "mp \<noteq> r" and d: "isdir s mp" "isdir s r"
  shows "refs (relink mp r' r mp' ms s) + opt_ref (mnt s mp) + opt_ref (cov s r) + mset (List.map_filter mountpoint (mounts s)) =
    refs s + opt_ref r' + opt_ref mp' + mset (List.map_filter mountpoint ms)"
proof -
  obtain x y where x: "inodes s mp = Some x" "inodes s r = Some y" using d by (auto simp: isdir_def split: option.splits)
  have i: "inodes (relink mp r' r mp' ms s) = (inodes s)(mp \<mapsto> x\<lparr>mounted := r'\<rparr>, r \<mapsto> y\<lparr>covered := mp'\<rparr>)"
    using ne x by (auto simp: fun_eq_iff inodes_relink option.map_id0[unfolded id_def])
  define M where "M = (inodes s)(mp \<mapsto> x\<lparr>mounted := r'\<rparr>)"
  have M: "finite (dom M)" "M r = Some y" using c x ne by (simp_all add: M_def)
  have "store_sum node_refs M + node_refs x = store_sum node_refs (inodes s) + node_refs (x\<lparr>mounted := r'\<rparr>)"
    unfolding M_def by (rule store_sum_upd[OF c x(1)])
  moreover have "store_sum node_refs (M(r \<mapsto> y\<lparr>covered := mp'\<rparr>)) + node_refs y = store_sum node_refs M + node_refs (y\<lparr>covered := mp'\<rparr>)"
    by (rule store_sum_upd[OF M])
  moreover have "node_refs x + opt_ref r' = node_refs (x\<lparr>mounted := r'\<rparr>) + opt_ref (mnt s mp)"
    using x by (simp add: node_refs_def mnt_def)
  moreover have "node_refs y + opt_ref mp' = node_refs (y\<lparr>covered := mp'\<rparr>) + opt_ref (cov s r)"
    using x by (simp add: node_refs_def cov_def)
  ultimately have "store_sum node_refs (M(r \<mapsto> y\<lparr>covered := mp'\<rparr>)) + opt_ref (mnt s mp) + opt_ref (cov s r) =
      store_sum node_refs (inodes s) + opt_ref r' + opt_ref mp'"
    by (rule mset_exchange)
  then show ?thesis unfolding refs_def i M_def[symmetric] by (simp add: ac_simps)
qed

text \<open>A mount uses up a reference to the root and two to the directory it covers.\<close>

lemma inv_connect:
  assumes inv: "vfs_inv (add_mset r (add_mset mp (add_mset mp H))) s" and ne: "mp \<noteq> r" and d: "isdir s mp" "isdir s r"
    and free: "mnt s mp = None" "cov s r = None" "mnt s r = None" and root: "is_root s r"
    and k: "mountpoint k = Some mp" "supers s (m_sb k) = Some sb" "s_root sb = r"
  shows "vfs_inv H (relink mp (Some r) r (Some mp) (mounts s @ [k]) s)"
proof -
  let ?t = "relink mp (Some r) r (Some mp) (mounts s @ [k]) s"
  have c: "counted (add_mset r (add_mset mp (add_mset mp H))) s" and t: "tree s" and at: "attached s"
    using inv by (simp_all add: vfs_inv_def)
  have fin: "finite (dom (inodes s))" using c by (simp add: counted_def)
  note v = relink_view[OF ne d]
  have dom: "inodes ?t j = None \<longleftrightarrow> inodes s j = None" for j by (simp add: inodes_relink[OF ne])
  have mf: "List.map_filter mountpoint (mounts s @ [k]) = List.map_filter mountpoint (mounts s) @ [mp]"
    using k(1) by (simp add: List.map_filter_def)
  have new: "mp \<notin> set (List.map_filter mountpoint (mounts s))"
  proof
    assume "mp \<in> set (List.map_filter mountpoint (mounts s))"
    then obtain j where "j \<in> set (mounts s)" "mountpoint j = Some mp" by (auto simp: List.map_filter_def)
    then show False using tree_mounts(1)[OF t, of j] free(1) by (simp add: mount_ok_def)
  qed
  have old: "mnt s i \<noteq> Some r" for i using tree_mnt[OF t] free(2) by fastforce
  have "refs ?t = add_mset r (add_mset mp (add_mset mp (refs s)))"
    using relink_refs[OF fin ne d, of "Some r" "Some mp" "mounts s @ [k]"] free by (simp add: mf)
  moreover have "0 < refcount y" if y: "inodes ?t j = Some y" for j y
  proof -
    obtain x where "inodes s j = Some x" "refcount y = refcount x" using y by (auto simp: inodes_relink[OF ne] split: if_splits)
    then show ?thesis using c by (auto simp: counted_def)
  qed
  moreover have "dom (inodes ?t) = dom (inodes s)" using dom by (simp add: dom_def)
  ultimately have "counted H ?t" using c by (simp add: counted_def v)
  moreover have "tree ?t"
  proof (rule treeI, goal_cases)
    case (1 j y)
    then obtain x where "inodes s j = Some x" "y = (if j = mp then x\<lparr>mounted := Some r\<rparr> else if j = r then x\<lparr>covered := Some mp\<rparr> else x)"
      by (auto simp: inodes_relink[OF ne])
    then show ?case using tree_shape[OF t, of j x] d by (auto simp: shape_def isdir_def split: if_splits)
  next
    case (2 j y b)
    then show ?case using tree_sb[OF t, of j] by (auto simp: inodes_relink[OF ne] split: if_splits)
  next
    case (3 p n j)
    then show ?case using tree_par[OF t, of n j p] by (simp add: v)
  next
    case (4 p n n' j)
    then show ?case using tree_once[OF t, of n j p n'] by (simp add: v)
  next
    case (5 j)
    then show ?case using tree_is_root(1)[OF t, of j] by (simp add: v)
  next
    case (6 j)
    then show ?case using tree_is_root(2)[OF t, of j] by (simp add: v)
  next
    case (7 j)
    then show ?case using tree_is_root(3)[OF t, of j] by (simp add: v)
  next
    case (8 j c)
    then show ?case using tree_cov(1)[OF t, of j c] d by (auto simp: v split: if_splits)
  next
    case (9 j c)
    then show ?case using tree_cov(2)[OF t, of j c] root by (auto simp: v split: if_splits)
  next
    case 10
    then show ?case using tree_root[OF t] by (simp add: v)
  next
    case 11
    then show ?case using tree_acyclic(1)[OF t] by (simp add: par_rel_def v)
  next
    case 12
    have "(mp, r) \<notin> (mount_rel s)\<^sup>*"
    proof
      assume "(mp, r) \<in> (mount_rel s)\<^sup>*"
      then obtain q where "(q, r) \<in> mount_rel s" using ne by (metis rtranclE)
      then show False using free(3) by (simp add: mount_rel_def)
    qed
    then have "acyclic (insert (r, mp) (mount_rel s))" using tree_acyclic(2)[OF t] by (simp add: acyclic_insert)
    moreover have "mount_rel ?t \<subseteq> insert (r, mp) (mount_rel s)" by (auto simp: mount_rel_def v split: if_splits)
    ultimately show ?case using acyclic_subset by blast
  next
    case (13 j)
    show ?case
    proof (cases "j = k")
      case True
      then show ?thesis using k ne by (simp add: mount_ok_def v)
    next
      case False
      then have m: "mount_ok s j" using 13 tree_mounts(1)[OF t, of j] by simp
      show ?thesis unfolding mount_ok_def
      proof (intro allI impI)
        fix q assume q: "mountpoint j = Some q"
        then obtain sb' where sb': "supers s (m_sb j) = Some sb'" "mnt s q = Some (s_root sb')" "cov s (s_root sb') = Some q"
          using m by (auto simp: mount_ok_def)
        then show "\<exists>sb. supers ?t (m_sb j) = Some sb \<and> mnt ?t q = Some (s_root sb) \<and> cov ?t (s_root sb) = Some q"
          using free by (auto simp: v)
      qed
    qed
  next
    case 14
    then show ?case using tree_mounts(2)[OF t] new mf by simp
  next
    case (15 j i)
    then show ?case using tree_mnt[OF t, of j i] old[of j] ne by (auto simp: v split: if_splits)
  qed
  moreover have "attached ?t" using at by (simp add: attached_def v)
  ultimately show ?thesis by (simp add: vfs_inv_def)
qed

lemma filter_remove1:
  "k \<in> set ks \<Longrightarrow> f k = Some y \<Longrightarrow> add_mset y (mset (List.map_filter f (remove1 k ks))) = mset (List.map_filter f ks)"
proof (induction ks)
  case (Cons a ks)
  then show ?case by (cases "f a") (auto simp: List.map_filter_simps split: option.splits)
qed simp

lemma inv_disconnect:
  assumes inv: "vfs_inv H s" and ne: "mp \<noteq> r" and d: "isdir s mp" "isdir s r"
    and on: "mnt s mp = Some r" "cov s r = Some mp" and k: "k \<in> set (mounts s)" "mountpoint k = Some mp"
  shows "vfs_inv (add_mset r (add_mset mp (add_mset mp H))) (relink mp None r None (remove1 k (mounts s)) s)"
proof -
  let ?t = "relink mp None r None (remove1 k (mounts s)) s"
  have c: "counted H s" and t: "tree s" and at: "attached s" using inv by (simp_all add: vfs_inv_def)
  have fin: "finite (dom (inodes s))" using c by (simp add: counted_def)
  note v = relink_view[OF ne d]
  have dom: "inodes ?t j = None \<longleftrightarrow> inodes s j = None" for j by (simp add: inodes_relink[OF ne])
  note mf = filter_remove1[OF k(1), of mountpoint mp, OF k(2)]
  have gone: "mp \<notin> set (List.map_filter mountpoint (remove1 k (mounts s)))"
  proof
    assume "mp \<in> set (List.map_filter mountpoint (remove1 k (mounts s)))"
    then have "1 < count (mset (List.map_filter mountpoint (mounts s))) mp" unfolding mf[symmetric]
      by (simp flip: set_mset_mset)
    then show False using tree_mounts(2)[OF t] distinct_count_atmost_1[of "List.map_filter mountpoint (mounts s)"]
      by (metis less_irrefl_nat zero_less_one order_less_trans)
  qed
  have dist: "distinct (List.map_filter mountpoint (remove1 k (mounts s)))"
    using tree_mounts(2)[OF t] mf gone by (metis distinct.simps(2) mset.simps(2) mset_eq_imp_distinct_iff)
  have "add_mset r (add_mset mp (add_mset mp (refs ?t))) = refs s"
  proof (rule multiset_eqI)
    fix a
    show "count (add_mset r (add_mset mp (add_mset mp (refs ?t)))) a = count (refs s) a"
      using relink_refs[OF fin ne d, of None None "remove1 k (mounts s)", THEN arg_cong[where f = "\<lambda>M. count M a"]]
        mf[symmetric, THEN arg_cong[where f = "\<lambda>M. count M a"]] on
      by (cases "mp = a"; cases "r = a") simp_all
  qed
  then have "refs s + H = refs ?t + add_mset r (add_mset mp (add_mset mp H))" by (metis union_mset_add_mset_left union_mset_add_mset_right)
  moreover have "0 < refcount y" if y: "inodes ?t j = Some y" for j y
  proof -
    obtain x where "inodes s j = Some x" "refcount y = refcount x" using y by (auto simp: inodes_relink[OF ne] split: if_splits)
    then show ?thesis using c by (auto simp: counted_def)
  qed
  moreover have "dom (inodes ?t) = dom (inodes s)" using dom by (simp add: dom_def)
  ultimately have "counted (add_mset r (add_mset mp (add_mset mp H))) ?t" using c unfolding counted_def v by simp
  moreover have "tree ?t"
  proof (rule treeI, goal_cases)
    case (1 j y)
    then obtain x where "inodes s j = Some x" "y = (if j = mp then x\<lparr>mounted := None\<rparr> else if j = r then x\<lparr>covered := None\<rparr> else x)"
      by (auto simp: inodes_relink[OF ne])
    then show ?case using tree_shape[OF t, of j x] d by (auto simp: shape_def isdir_def split: if_splits)
  next
    case (2 j y b)
    then show ?case using tree_sb[OF t, of j] by (auto simp: inodes_relink[OF ne] split: if_splits)
  next
    case (3 p n j)
    then show ?case using tree_par[OF t, of n j p] by (simp add: v)
  next
    case (4 p n n' j)
    then show ?case using tree_once[OF t, of n j p n'] by (simp add: v)
  next
    case (5 j)
    then show ?case using tree_is_root(1)[OF t, of j] by (simp add: v)
  next
    case (6 j)
    then show ?case using tree_is_root(2)[OF t, of j] by (simp add: v)
  next
    case (7 j)
    then show ?case using tree_is_root(3)[OF t, of j] by (simp add: v)
  next
    case (8 j c)
    then show ?case using tree_cov(1)[OF t, of j c] by (auto simp: v split: if_splits)
  next
    case (9 j c)
    then show ?case using tree_cov(2)[OF t, of j c] by (auto simp: v split: if_splits)
  next
    case 10
    then show ?case using tree_root[OF t] by (simp add: v)
  next
    case 11
    then show ?case using tree_acyclic(1)[OF t] by (simp add: par_rel_def v)
  next
    case 12
    have "mount_rel ?t \<subseteq> mount_rel s" by (auto simp: mount_rel_def v split: if_splits)
    then show ?case using tree_acyclic(2)[OF t] acyclic_subset by blast
  next
    case (13 j)
    then have m: "mount_ok s j" "j \<in> set (remove1 k (mounts s))" using tree_mounts(1)[OF t, of j] set_remove1_subset[of k "mounts s"] by auto
    show ?case unfolding mount_ok_def
    proof (intro allI impI)
      fix q assume q: "mountpoint j = Some q"
      have "q \<noteq> mp" using gone m(2) q by (force simp: List.map_filter_def)
      moreover obtain sb where sb: "supers s (m_sb j) = Some sb" "mnt s q = Some (s_root sb)" "cov s (s_root sb) = Some q"
        using m(1) q by (auto simp: mount_ok_def)
      ultimately have "s_root sb \<noteq> r" using on by auto
      then show "\<exists>sb. supers ?t (m_sb j) = Some sb \<and> mnt ?t q = Some (s_root sb) \<and> cov ?t (s_root sb) = Some q"
        using sb \<open>q \<noteq> mp\<close> by (simp add: v)
    qed
  next
    case 14
    then show ?case using dist by simp
  next
    case (15 j i)
    then show ?case using tree_mnt[OF t, of j i] on by (auto simp: v split: if_splits)
  qed
  moreover have "attached ?t" using at by (simp add: attached_def v)
  ultimately show ?thesis by (simp add: vfs_inv_def)
qed

section \<open>The operations\<close>

lemma is_root_alone: "vfs_inv H s \<Longrightarrow> inodes s a = None \<Longrightarrow> mnt (with_super b a m s) a = None \<and> cov (with_super b a m s) a = None"
  by (simp add: mnt_def cov_def new_inode_def)

lemma vfs_mount_ok:
  assumes inv: "vfs_inv H s" and f: "fresh A s" and ma: "a_mount A"
  shows "\<exists>r s'. vfs_mount dev source target fstype A s = Inr (r, s') \<and> vfs_inv H s' \<and> files s' = files s \<and>
    (case r of Inl _ \<Rightarrow> same_files s s'
     | Inr _ \<Rightarrow> \<exists>mp root b. lookup_result s target None = Inr mp \<and> isdir s mp \<and> mnt s mp = None \<and> root_inode s \<noteq> Some mp \<and>
         inodes s root = None \<and> root_inode s' = root_inode s \<and> par s' = par s \<and>
         kids s' = kids s \<and> isdir s' = (isdir s)(root := True) \<and> mnt s' = (mnt s)(mp := Some root) \<and> cov s' = (cov s)(root := Some mp) \<and>
         mounts s' = mounts s @ [\<lparr>m_target = take (PATH_MAX - 1) target, m_sb = b, mountpoint = Some mp\<rparr>])"
proof (cases "fstype \<noteq> ''tmpfs'' \<or> source \<noteq> [] \<and> source \<noteq> ''none'' \<and>
    \<not> dev (if take 5 source = ''/dev/'' then drop 5 source else source)")
  case True
  then show ?thesis using inv by (auto simp: vfs_mount_def)
next
  case False
  note look = vfs_lookup_ok[OF inv_walkable[OF inv], of None target]
  show ?thesis
  proof (cases "lookup_result s target None")
    case (Inl e)
    then show ?thesis using False look inv by (auto simp: vfs_mount_def)
  next
    case (Inr mp)
    then have al: "alive s mp" and l: "vfs_lookup target None s = Inr (Inr mp, bump mp 1 s)" using look by auto
    note i1 = inv_bump[OF inv al]
    obtain x where x: "inodes s mp = Some x" using fetch_alive[OF al] by blast
    let ?s1 = "bump mp 1 s"
    have fx: "fetch mp ?s1 = Inr (x\<lparr>refcount := refcount x + 1\<rparr>)" using x by (simp add: fetch_def inodes_bump)
    have ret: "put_and_return mp (Inl e) ?s1 = Inr (Inl e :: errno + unit, s)" for e using iput_ok[OF al] by (simp add: put_and_return_def)
    have dx: "isdir s mp = S_ISDIR (mode x)" "mnt s mp = mounted x" using x by (simp_all add: isdir_def mnt_def)
    show ?thesis
    proof (cases "S_ISDIR (mode x) \<and> mounted x = None \<and> root_inode s \<noteq> Some mp")
      case no: False
      then have "\<exists>e. vfs_mount dev source target fstype A s = Inr (Inl e, s)"
        using False l fx ret by (auto simp: vfs_mount_def)
      then show ?thesis using inv by auto
    next
      case ok: True
      have f1: "fresh A ?s1" using f by simp
      from i1 f1 show ?thesis
      proof (cases rule: tmpfs_create_sb_cases)
        case (none s2)
        obtain s3 where s3: "put_and_return mp (Inl ENOMEM) s2 = Inr (Inl ENOMEM :: errno + unit, s3)" "vfs_inv H s3" "same_files s2 s3"
          using inv_return[OF none(2)] .
        have "vfs_mount dev source target fstype A s = Inr (Inl ENOMEM, s3)"
          using False l fx ok none(1) s3(1) by (auto simp: vfs_mount_def)
        moreover have "same_files s s3" using same_files_trans[OF same_files_bump same_files_trans[OF none(3) s3(3)]] .
        ultimately show ?thesis using s3(2) by (simp add: same_files_def)
      next
        case (some b a)
        have ne: "mp \<noteq> a" and na: "inodes s a = None" using some(1) x by (auto simp: inodes_bump split: if_splits)
        have mo: "S_ISDIR (S_IFDIR OR 0x1ED)" by (rule mode_sb)
        define u where "u = with_super b a (S_IFDIR OR 0x1ED) ?s1"
        define k where "k = \<lparr>m_target = take (PATH_MAX - 1) target, m_sb = b, mountpoint = Some mp\<rparr>"
        define v where "v = bump mp 1 (bump a 1 u)"
        note uv = with_super_view[OF some(1) mo, of b, folded u_def]
        have iu: "vfs_inv (add_mset mp H) u" unfolding u_def by (rule inv_with_super[OF i1 some(1,2) mo])
        have du: "isdir u a" "isdir u mp" using ok dx by (simp_all add: uv)
        have sb: "supers u b = Some \<lparr>s_root = a, read_only = False, s_dev = next_dev ?s1\<rparr>" by (simp add: u_def)
        note w = walkable_isdir[OF inv_walkable[OF iu]]
        have iv: "vfs_inv (add_mset a (add_mset mp (add_mset mp H))) v"
          using inv_bump[OF inv_bump[OF iu w[OF du(1)]], of mp] w[OF du(2)] by (simp add: v_def add_mset_commute)
        have free: "mnt v mp = None" "cov v a = None" "mnt v a = None"
          using ok dx na by (simp_all add: v_def uv mnt_def cov_def inodes_bump)
        have root: "is_root v a" unfolding is_root_def by (rule exI[of _ b]) (simp add: v_def sb)
        have it: "vfs_inv H (relink mp (Some a) a (Some mp) (mounts v @ [k]) v)"
          by (rule inv_connect[OF iv ne _ _ free root, of k "\<lparr>s_root = a, read_only = False, s_dev = next_dev ?s1\<rparr>"])
            (use du sb in \<open>simp_all add: k_def v_def\<close>)
        have g1: "iget a u = Inr (bump a 1 u)" by (rule iget_ok[OF w[OF du(1)]])
        have al2: "alive (upd_inode mp (\<lambda>x. x\<lparr>mounted := Some a\<rparr>) (bump a 1 u)) mp"
          using w[OF du(2)] ne by (auto simp: alive_def inodes_upd_inode inodes_bump split: option.splits)
        have "(upd_inode a (\<lambda>x. x\<lparr>covered := Some mp\<rparr>) (bump mp 1 (upd_inode mp (\<lambda>x. x\<lparr>mounted := Some a\<rparr>) (bump a 1 u))))
            \<lparr>mounts := mounts u @ [k]\<rparr> = relink mp (Some a) a (Some mp) (mounts v @ [k]) v"
          using ne by (intro vfs_eqI; cases "inodes u mp")
            (auto simp: fun_eq_iff relink_def set_mnt_def set_cov_def set_mounts_def v_def inodes_upd_inode inodes_bump map_option.compositionality o_def)
        then have m: "vfs_mount dev source target fstype A s = Inr (Inr (), relink mp (Some a) a (Some mp) (mounts v @ [k]) v)"
          using False l fx ok some(3)[folded u_def] ma sb g1 iget_ok[OF al2] by (auto simp: vfs_mount_def k_def Let_def)
        note rv = relink_view[OF ne, of v "Some a" "Some mp" "mounts v @ [k]"]
        have "root_inode v = root_inode s" "par v = par s" "kids v = kids s" "isdir v = (isdir s)(a := True)" "mnt v = mnt s" "cov v = cov s" "files v = files s" "mounts v = mounts s"
          using uv by (simp_all add: v_def) (simp_all add: u_def)
        then show ?thesis using m it rv ok Inr dx na by (auto simp: k_def)
      qed
    qed
  qed
qed

text \<open>Dropping a reference that is not the last one, by the count alone.\<close>

lemma iput_rc: "1 < rc s i \<Longrightarrow> iput i s = Inr (bump i (- 1) s)"
proof -
  assume r: "1 < rc s i"
  then obtain x where x: "inodes s i = Some x" by (auto simp: rc_def split: option.splits)
  then have "upd_inode i (\<lambda>y. y\<lparr>refcount := refcount x - 1\<rparr>) s = bump i (- 1) s"
    by (intro vfs_eqI) (auto simp: fun_eq_iff inodes_upd_inode inodes_bump)
  with r x show ?thesis by (simp add: iput_def fetch_def rc_def Let_def)
qed

lemma rc_mounted [simp]:
  "rc (upd_inode j (\<lambda>x. x\<lparr>mounted := m\<rparr>) s) i = rc s i" "rc (upd_inode j (\<lambda>x. x\<lparr>covered := m\<rparr>) s) i = rc s i"
  by (auto simp: rc_def inodes_upd_inode split: option.splits)

lemma rc_bump_ex: "inodes s i \<noteq> None \<Longrightarrow> rc (bump i k s) j = rc s j + (if j = i then k else 0)"
  by (auto simp: rc_def inodes_bump)

lemma rc_exists: "0 < rc s i \<Longrightarrow> inodes s i \<noteq> None"
  by (auto simp: rc_def split: option.splits)

lemma rc_mounts [simp]: "rc (s\<lparr>mounts := ms\<rparr>) = rc s"
  by (simp add: rc_def fun_eq_iff)

lemma mount_of_Some:
  assumes inv: "vfs_inv H s" and m: "mount_of i s = Some k"
  obtains mp where "k \<in> set (mounts s)" "mountpoint k = Some mp" "mnt s mp = Some i" "cov s i = Some mp" "mp \<noteq> i" "isdir s mp" "isdir s i"
proof -
  have t: "tree s" using inv by (simp add: vfs_inv_def)
  obtain mp where mp: "k \<in> set (mounts s)" "mountpoint k = Some mp" "map_option s_root (supers s (m_sb k)) = Some i"
    using m unfolding mount_of_def find_Some_iff by (metis nth_mem option.exhaust set_rev)
  then have l: "mnt s mp = Some i" "cov s i = Some mp" using tree_mounts(1)[OF t, of k] by (auto simp: mount_ok_def)
  have "mp \<noteq> i"
  proof
    assume "mp = i"
    then have "(i, i) \<in> (mount_rel s)\<^sup>+" using l by (auto simp: mount_rel_def)
    then show False using tree_acyclic(2)[OF t] by (simp add: acyclic_def)
  qed
  moreover have "isdir s mp" using tree_cov(1)[OF t l(2)] .
  moreover have "isdir s i" using tree_is_root(1)[OF t tree_cov(2)[OF t l(2)]] .
  ultimately show ?thesis using that mp l by blast
qed

lemma vfs_umount_ok:
  assumes inv: "vfs_inv H s"
  shows "\<exists>r s'. vfs_umount target s = Inr (r, s') \<and> vfs_inv H s' \<and> files s' = files s \<and>
    (case r of Inl _ \<Rightarrow> s' = s
     | Inr _ \<Rightarrow> \<exists>mp root. lookup_result s target None = Inr root \<and> mnt s mp = Some root \<and> root_inode s' = root_inode s \<and> par s' = par s \<and>
         kids s' = kids s \<and> isdir s' = isdir s \<and>
         mnt s' = (mnt s)(mp := None) \<and> cov s' = (cov s)(root := None))"
proof -
  note look = vfs_lookup_ok[OF inv_walkable[OF inv], of None target]
  show ?thesis
  proof (cases "lookup_result s target None")
    case (Inl e)
    then show ?thesis using look inv by (auto simp: vfs_umount_def)
  next
    case (Inr i)
    let ?s1 = "bump i 1 s"
    have al: "alive s i" and l: "vfs_lookup target None s = Inr (Inr i, ?s1)" using Inr look by auto
    note i1 = inv_bump[OF inv al]
    obtain x where x: "inodes s i = Some x" using fetch_alive[OF al] by blast
    have fx: "fetch i ?s1 = Inr (x\<lparr>refcount := refcount x + 1\<rparr>)" using x by (simp add: fetch_def inodes_bump)
    have ret: "put_and_return i r ?s1 = Inr (r, s)" for r :: "errno + unit" using iput_ok[OF al] by (simp add: put_and_return_def)
    show ?thesis
    proof (cases "mount_of i ?s1")
      case None
      then show ?thesis using l ret inv by (simp add: vfs_umount_def)
    next
      case (Some k)
      from i1 Some obtain mp where k: "k \<in> set (mounts ?s1)" "mountpoint k = Some mp" "mnt ?s1 mp = Some i" "cov ?s1 i = Some mp"
        "mp \<noteq> i" "isdir ?s1 mp" "isdir ?s1 i" by (rule mount_of_Some)
      show ?thesis
      proof (cases "refcount x + 1 > 3")
        case True
        then show ?thesis using l Some fx ret inv by (simp add: vfs_umount_def)
      next
        case False
        define u where "u = relink mp None i None (remove1 k (mounts ?s1)) ?s1"
        note v = relink_view[OF k(5-7), of None None "remove1 k (mounts ?s1)", folded u_def]
        have iu: "vfs_inv (add_mset i (add_mset mp (add_mset mp (add_mset i H)))) u"
          unfolding u_def by (rule inv_disconnect[OF i1 k(5-7,3,4,1,2)])
        have du: "i \<in># refs u" "mp \<in># refs u" using dir_in_refs[OF iu] k(6,7) by (simp_all add: v)
        have rcs: "rc ?s1 j = int (count (refs u + add_mset i (add_mset mp (add_mset mp (add_mset i H)))) j)" for j
          using iu v(6) by (simp add: vfs_inv_def counted_def)
        have c: "2 < rc ?s1 i" "2 < rc ?s1 mp" unfolding rcs using du k(5) by (simp_all flip: count_greater_zero_iff)
        define s2 where "s2 = upd_inode mp (\<lambda>x. x\<lparr>mounted := None\<rparr>) ?s1"
        define s3 where "s3 = bump i (- 1) s2"
        define s4 where "s4 = upd_inode i (\<lambda>x. x\<lparr>covered := None\<rparr>) s3"
        define s5 where "s5 = bump mp (- 1) s4"
        define s6 where "s6 = bump mp (- 1) s5"
        define s7 where "s7 = s6\<lparr>mounts := remove1 k (mounts s6)\<rparr>"
        have r2: "rc s2 j = rc ?s1 j" for j by (simp add: s2_def)
        have r4: "rc s4 j = rc ?s1 j - (if j = i then 1 else 0)" for j
          unfolding s4_def rc_mounted s3_def using rc_bump_ex[OF rc_exists[of s2 i]] r2 c by simp
        have r5: "rc s5 j = rc s4 j - (if j = mp then 1 else 0)" for j
          unfolding s5_def using rc_bump_ex[OF rc_exists[of s4 mp]] r4 c k(5) by simp
        have r6: "rc s7 j = rc s5 j - (if j = mp then 1 else 0)" for j
          unfolding s7_def s6_def rc_mounts using rc_bump_ex[OF rc_exists[of s5 mp]] r5 r4 c k(5) by simp
        have "1 < rc s2 i" "1 < rc s4 mp" "1 < rc s5 mp" "1 < rc s7 i" using r2 r4 r5 r6 c k(5) by simp_all
        then have p: "iput i s2 = Inr s3" "iput mp s4 = Inr s5" "iput mp s5 = Inr s6" "iput i s7 = Inr (bump i (- 1) s7)"
          by (simp_all add: iput_rc s3_def s5_def[symmetric] s6_def)
        have f: "\<exists>y. fetch mp ?s1 = Inr y" "\<exists>y. fetch i s3 = Inr y"
          using rc_exists[of ?s1 mp] rc_exists[of s4 i] c r4 k(5) by (auto simp: fetch_def s4_def inodes_upd_inode)
        have m: "vfs_umount target s = Inr (Inr (), bump i (- 1) s7)"
          using l Some fx False k(2) f p
          by (auto simp: vfs_umount_def put_and_return_def simp flip: s2_def s4_def s7_def)
        have s7: "s7 = bump mp (- 1) (bump mp (- 1) (bump i (- 1) u))"
          unfolding s7_def s6_def s5_def s4_def s3_def s2_def u_def using k(5)
          by (intro vfs_eqI; cases "inodes s mp"; cases "inodes s i")
            (auto simp: fun_eq_iff relink_def set_mnt_def set_cov_def set_mounts_def inodes_upd_inode inodes_bump)
        have rb: "refs (bump j k w) = refs w" for j k w by (rule agree_refs[OF agree_bump])
        have "vfs_inv (add_mset mp (add_mset mp (add_mset i H))) (bump i (- 1) u)"
          using inv_drop[OF iu] du by (metis union_iff)
        then have "vfs_inv (add_mset mp (add_mset i H)) (bump mp (- 1) (bump i (- 1) u))"
          using inv_drop du by (metis union_iff rb)
        then have "vfs_inv (add_mset i H) s7" unfolding s7 using inv_drop du by (metis union_iff rb)
        then have "vfs_inv H (bump i (- 1) s7)" using inv_drop[of i H s7] du by (metis union_iff rb s7)
        moreover have "files u = files s" "root_inode u = root_inode s" "par u = par s" "kids u = kids s" "isdir u = isdir s" "mnt u = (mnt s)(mp := None)" "cov u = (cov s)(i := None)"
          using v by (simp_all add: u_def)
        moreover have "mnt s mp = Some i" using k(3) by simp
        ultimately show ?thesis using m Inr by (auto simp: s7)
      qed
    qed
  qed
qed

end
