(* ===== verification/Vfs_Spec.thy ===== *)
theory Vfs_Spec
  imports Vfs_Mount
begin

text \<open>
  What the file tree promises. Clients hold references and open files and call the operations in any order,
  with any results of the allocator; \<open>run\<close> performs a sequence of calls. The tree stays sound, and no call
  panics, up to the first moment when a directory that was removed is still in use: such a directory keeps a
  pointer to its parent that is not counted. \<open>files_reach\<close> are the states reached without such a moment. On
  these: paths lead where pure name resolution says, new
  directories are found, renaming moves one entry, listing shows every name once, and a mount can be undone.
\<close>

section \<open>Start-up\<close>

definition empty_vfs :: "(nat \<Rightarrow> file_ops option) \<Rightarrow> vfs" where
  "empty_vfs drivers =
     \<lparr>inodes = \<lambda>_. None, files = \<lambda>_. None, supers = \<lambda>_. None, root_inode = None, mounts = [], chrdevs = drivers, next_ino = 1,
      next_dev = 1\<rparr>"

text \<open>\<^verbatim>\<open>vfs_mount_root(tmpfs_create_sb())\<close> of \<^verbatim>\<open>main.c\<close>; the NULL of a failed allocation is followed.\<close>

definition start_vfs :: "(nat \<Rightarrow> file_ops option) \<Rightarrow> allocs \<Rightarrow> vfs_panic + vfs" where
  "start_vfs drivers A =
     andthen (tmpfs_create_sb A (empty_vfs drivers)) (\<lambda>(b, s).
       case b of None \<Rightarrow> Inl Null_pointer | Some b \<Rightarrow> vfs_mount_root b A s)"

lemma start_vfs_ok:
  assumes "start_vfs drivers A = Inr s"
  shows "vfs_inv {#} s \<and> opened {#} s"
proof -
  obtain b a where ba: "a_sb A = Some b" "a_inode A = Some a" "a_node A" "a_mount A"
    using assms
    by (auto simp: start_vfs_def tmpfs_create_sb_def tmpfs_new_inode_def inode_alloc_def andthen_Inr iput_def fetch_def upd_inode_def
          empty_vfs_def vfs_mount_root_def Let_def split: option.splits if_splits)
  have m: "S_ISDIR (S_IFDIR OR 0x1ED)" by (rule mode_sb)
  define x where "x = (new_inode (Some b) (S_IFDIR OR 0x1ED) 1)\<lparr>refcount := 2\<rparr>"
  have s: "s = \<lparr>inodes = [a \<mapsto> x], files = \<lambda>_. None, supers = [b \<mapsto> \<lparr>s_root = a, read_only = False, s_dev = 1\<rparr>], root_inode = Some a,
      mounts = [\<lparr>m_target = ''/'', m_sb = b, mountpoint = None\<rparr>], chrdevs = drivers, next_ino = 2, next_dev = 2\<rparr>"
    using assms ba m
    by (simp add: start_vfs_def tmpfs_create_sb_def tmpfs_new_inode_def inode_alloc_def upd_inode_def iget_def fetch_def
          empty_vfs_def vfs_mount_root_def Let_def x_def new_inode_def)
  have s': "inodes s = [a \<mapsto> x]" "files s = (\<lambda>_. None)" "supers s = [b \<mapsto> \<lparr>s_root = a, read_only = False, s_dev = 1\<rparr>]"
    "root_inode s = Some a" "mounts s = [\<lparr>m_target = ''/'', m_sb = b, mountpoint = None\<rparr>]" by (simp_all add: s)
  have nx: "node_refs x = {#}" "shape x" "refcount x = 2" "i_sb x = Some b" "S_ISDIR (mode x)" "priv x = Some \<lparr>children = [], parent = None\<rparr>"
    "mounted x = None" "covered x = None" using m by (simp_all add: x_def new_inode_def node_refs_def shape_def)
  have v: "kids s = (\<lambda>_. [])" "par s = (\<lambda>_. None)" "mnt s = (\<lambda>_. None)" "cov s = (\<lambda>_. None)" "isdir s = (\<lambda>i. i = a)"
    by (auto simp: s' fun_eq_iff kids_def par_def mnt_def cov_def isdir_def nx)
  have "refs s = {#a, a#}" by (simp add: s' refs_def store_sum_def nx List.map_filter_simps)
  then have "counted {#} s" by (auto simp: counted_def s' rc_def nx)
  moreover have "tree s"
    by (rule treeI)
      (auto simp: v is_root_def par_rel_def mount_rel_def acyclic_def mount_ok_def s' nx List.map_filter_simps split: if_splits)
  moreover have "attached s" by (simp add: attached_def v)
  moreover have "opened {#} s" by (simp add: opened_def s')
  ultimately show ?thesis by (simp add: vfs_inv_def)
qed

section \<open>Clients\<close>

text \<open>The references to inodes and the open files that clients hold, and the file tree.\<close>

record clients =
  held :: "nat multiset"
  opens :: "nat multiset"
  store :: vfs

datatype fs_call =
    Lookup string "nat option" | Get nat | Put nat
  | Mkdir string "nat option" u32 allocs | Mknod string "nat option" u32 u32 allocs
  | Unlink string "nat option" | Rmdir string "nat option" | Rename string string "nat option"
  | Open string "nat option" u32 u32 allocs | Dup nat | Close nat | Readdir nat
  | Mount "string \<Rightarrow> bool" string string string allocs | Umount string
  | Register nat file_ops

text \<open>A call that returns a status and changes nothing that clients hold.\<close>

definition plain :: "clients \<Rightarrow> 'a vfs_result \<Rightarrow> vfs_panic + clients" where
  "plain h r = andthen r (\<lambda>(_, s). Inr (h\<lparr>store := s\<rparr>))"

fun perform :: "fs_call \<Rightarrow> clients \<Rightarrow> vfs_panic + clients" where
  "perform (Lookup path cwd) h =
     andthen (vfs_lookup path cwd (store h)) (\<lambda>(r, s).
       Inr (h\<lparr>store := s, held := held h + (case r of Inl _ \<Rightarrow> {#} | Inr i \<Rightarrow> {#i#})\<rparr>))"
| "perform (Get i) h = andthen (iget i (store h)) (\<lambda>s. Inr (h\<lparr>store := s, held := held h + {#i#}\<rparr>))"
| "perform (Put i) h = andthen (iput i (store h)) (\<lambda>s. Inr (h\<lparr>store := s, held := held h - {#i#}\<rparr>))"
| "perform (Mkdir path cwd m A) h = plain h (vfs_mkdir path cwd m A (store h))"
| "perform (Mknod path cwd m dev A) h = plain h (vfs_mknod path cwd m dev A (store h))"
| "perform (Unlink path cwd) h = plain h (vfs_unlink path cwd (store h))"
| "perform (Rmdir path cwd) h = plain h (vfs_rmdir path cwd (store h))"
| "perform (Rename from_path to_path cwd) h = plain h (vfs_rename from_path to_path cwd (store h))"
| "perform (Open path cwd fl m A) h =
     andthen (vfs_open path cwd fl m A (store h)) (\<lambda>(r, s).
       Inr (h\<lparr>store := s, opens := opens h + (case r of Inl _ \<Rightarrow> {#} | Inr f \<Rightarrow> {#f#})\<rparr>))"
| "perform (Dup f) h = andthen (file_dup f (store h)) (\<lambda>s. Inr (h\<lparr>store := s, opens := opens h + {#f#}\<rparr>))"
| "perform (Close f) h = andthen (file_close f (store h)) (\<lambda>s. Inr (h\<lparr>store := s, opens := opens h - {#f#}\<rparr>))"
| "perform (Readdir f) h = plain h (vfs_readdir f (store h))"
| "perform (Mount dev source target fstype A) h = plain h (vfs_mount dev source target fstype A (store h))"
| "perform (Umount target) h = plain h (vfs_umount target (store h))"
| "perform (Register major ops) h = Inr (h\<lparr>store := chrdev_register major ops (store h)\<rparr>)"

text \<open>
  Clients name only what they hold, and the allocator returns unused addresses. Special files are not made
  with the mode of a directory.
\<close>

definition may_use :: "nat option \<Rightarrow> clients \<Rightarrow> bool" where
  "may_use cwd h \<longleftrightarrow> (\<forall>c. cwd = Some c \<longrightarrow> c \<in># held h)"

fun valid :: "fs_call \<Rightarrow> clients \<Rightarrow> bool" where
  "valid (Lookup path cwd) h = may_use cwd h"
| "valid (Get i) h = (i \<in># held h)"
| "valid (Put i) h = (i \<in># held h)"
| "valid (Mkdir path cwd m A) h = (may_use cwd h \<and> fresh A (store h))"
| "valid (Mknod path cwd m dev A) h = (may_use cwd h \<and> fresh A (store h) \<and> \<not> S_ISDIR m)"
| "valid (Unlink path cwd) h = may_use cwd h"
| "valid (Rmdir path cwd) h = may_use cwd h"
| "valid (Rename from_path to_path cwd) h = may_use cwd h"
| "valid (Open path cwd fl m A) h = (may_use cwd h \<and> fresh A (store h))"
| "valid (Dup f) h = (f \<in># opens h)"
| "valid (Close f) h = (f \<in># opens h)"
| "valid (Readdir f) h = (f \<in># opens h)"
| "valid (Mount dev source target fstype A) h = fresh A (store h)"
| "valid (Umount target) h = True"
| "valid (Register major ops) h = True"

text \<open>A sequence of calls, each of them one that the clients may make when its turn comes.\<close>

fun run :: "fs_call list \<Rightarrow> clients \<Rightarrow> vfs_panic + clients" where
  "run [] h = Inr h"
| "run (c # cs) h = andthen (perform c h) (run cs)"

fun valid_run :: "fs_call list \<Rightarrow> clients \<Rightarrow> bool" where
  "valid_run [] h = True"
| "valid_run (c # cs) h = (valid c h \<and> (case perform c h of Inl _ \<Rightarrow> True | Inr h' \<Rightarrow> valid_run cs h'))"

text \<open>
  A removed directory is still in use: the directory it names as its parent has no entry for it. Only the
  removal of a directory, also by renaming over it, can bring this about. \<open>lingers_before\<close>: some call of the
  sequence is made in such a state.
\<close>

definition lingers :: "clients \<Rightarrow> bool" where
  "lingers h \<longleftrightarrow> (\<exists>i p. par (store h) i = Some p \<and> i \<notin> snd ` set (kids (store h) p))"

lemma lingers_attached: "lingers h \<longleftrightarrow> \<not> attached (store h)"
  by (simp add: lingers_def attached_def)

definition lingers_before :: "fs_call list \<Rightarrow> clients \<Rightarrow> bool" where
  "lingers_before cs h \<longleftrightarrow> (\<exists>cs1 c cs2 h1. cs = cs1 @ c # cs2 \<and> run cs1 h = Inr h1 \<and> lingers h1)"

fun removes_directory :: "fs_call \<Rightarrow> bool" where
  "removes_directory (Rmdir path cwd) = True"
| "removes_directory (Rename from_path to_path cwd) = True"
| "removes_directory _ = False"

text \<open>\<^verbatim>\<open>vfs_mount\<close> does not check the result of its allocation of the entry in the mount table.\<close>

fun no_mount_record :: "fs_call \<Rightarrow> bool" where
  "no_mount_record (Mount dev source target fstype A) = (\<not> a_mount A)"
| "no_mount_record _ = False"

definition start_clients :: "vfs \<Rightarrow> clients" where
  "start_clients s = \<lparr>held = {#}, opens = {#}, store = s\<rparr>"

inductive files_reach :: "clients \<Rightarrow> bool" where
  start: "start_vfs drivers A = Inr s \<Longrightarrow> files_reach (start_clients s)"
| call: "files_reach h \<Longrightarrow> valid c h \<Longrightarrow> perform c h = Inr h' \<Longrightarrow> \<not> (removes_directory c \<and> lingers h') \<Longrightarrow> files_reach h'"

definition sound :: "clients \<Rightarrow> bool" where
  "sound h \<longleftrightarrow> binv (held h) (store h) \<and> opened (opens h) (store h)"

definition well_formed :: "clients \<Rightarrow> bool" where
  "well_formed h \<longleftrightarrow> vfs_inv (held h) (store h) \<and> opened (opens h) (store h)"

section \<open>Every call keeps the tree well formed\<close>

text \<open>Removing and renaming leave the open files alone.\<close>

lemma upd_files [simp]: "files (unlink_entry dir name s) = files s" "files (upd_node i f s) = files s"
  "files (move_entry odir oname ndir nname d i s) = files s"
  by (simp_all add: unlink_entry_def upd_node_def move_entry_def Let_def)

lemma iput_files: "iput i s = Inr s' \<Longrightarrow> files s' = files s"
  by (auto simp: iput_def andthen_Inr Let_def split: if_splits)

lemma andthen_sum:
  "andthen t (\<lambda>(r, s). case r of Inl e \<Rightarrow> f e s | Inr x \<Rightarrow> g x s) = Inr y \<longleftrightarrow>
     (\<exists>e s. t = Inr (Inl e, s) \<and> f e s = Inr y) \<or> (\<exists>x s. t = Inr (Inr x, s) \<and> g x s = Inr y)"
  by (cases t) (auto split: prod.splits sum.splits)

lemma tmpfs_unlink_files: "tmpfs_unlink dir name s = Inr (r, s') \<Longrightarrow> files s' = files s"
  by (auto simp: tmpfs_unlink_def andthen_Inr split: option.splits dest!: iput_files)

lemma tmpfs_rmdir_files: "tmpfs_rmdir dir name s = Inr (r, s') \<Longrightarrow> files s' = files s"
  by (auto simp: tmpfs_rmdir_def andthen_Inr Let_def split: option.splits if_splits dest!: iput_files)

lemma replace_target_files: "replace_target ndir nname d t s = Inr (r, s') \<Longrightarrow> files s' = files s"
  by (auto simp: replace_target_def andthen_Inr Let_def split: if_splits dest!: iput_files)

lemma rename_tail_files:
  "(case a of Inl e \<Rightarrow> Inr (Inl e, s) | Inr (u :: unit) \<Rightarrow> Inr (Inr (), move_entry odir oname ndir nname d i s)) = Inr (r, s') \<Longrightarrow>
   files s' = files s"
  by (cases a) auto

lemma tmpfs_rename_files: "tmpfs_rename odir oname ndir nname s = Inr (r, s') \<Longrightarrow> files s' = files s"
  by (auto simp: tmpfs_rename_def andthen_Inr split: option.splits if_splits dest!: replace_target_files rename_tail_files)

lemma remove_victim_files: "remove_victim w dir name v s = Inr (r, s') \<Longrightarrow> files s' = files s"
  by (auto simp: remove_victim_def andthen_Inr split: option.splits if_splits dest: tmpfs_unlink_files tmpfs_rmdir_files)

lemma with_parent_files: "vfs_inv H s \<Longrightarrow> \<forall>c. cwd = Some c \<longrightarrow> alive s c \<Longrightarrow> with_parent path cwd s = Inr (r, s') \<Longrightarrow> files s' = files s"
  by (erule with_parent_cases[where path = path], assumption, auto)

lemma tmpfs_lookup_files: "tmpfs_lookup dir name s = Inr (r, s') \<Longrightarrow> files s' = files s"
  by (auto simp: tmpfs_lookup_def andthen_Inr iget_def Let_def split: option.splits if_splits)

lemma vfs_remove_files:
  assumes "vfs_inv H s" "\<forall>c. cwd = Some c \<longrightarrow> alive s c" "vfs_remove w path cwd s = Inr (r, s')"
  shows "files s' = files s"
  using assms(3) with_parent_files[OF assms(1,2), of path] unfolding vfs_remove_def andthen_sum
  by (auto simp: dir_lookup_def andthen_Inr put_and_return_def iput_opt_def split: sum.splits option.splits if_splits
      dest!: iput_files tmpfs_lookup_files remove_victim_files)


lemma vfs_rename_files:
  assumes "vfs_inv H s" "\<forall>c. cwd = Some c \<longrightarrow> alive s c" "vfs_rename from_path to_path cwd s = Inr (r, s')"
  shows "files s' = files s"
  using assms(1,2)
proof (cases rule: with_parent_cases[where path = from_path])
  case (err e)
  with assms(3) show ?thesis by (simp add: vfs_rename_def)
next
  case (ok dir name)
  note i = inv_bump[OF assms(1) walkable_isdir[OF inv_walkable[OF assms(1)] ok(2)]]
  have c: "\<forall>c. cwd = Some c \<longrightarrow> alive (bump dir 1 s) c" using assms(2) by simp
  from i c show ?thesis
  proof (cases rule: with_parent_cases[where path = to_path])
    case (err e)
    with assms(3) ok(4) show ?thesis by (auto simp: vfs_rename_def put_and_return_def andthen_Inr dest!: iput_files)
  next
    case ok2: (ok ndir nname)
    with assms(3) ok(4) show ?thesis
      by (auto simp: vfs_rename_def put_and_return_def andthen_Inr split: if_splits dest!: iput_files tmpfs_rename_files)
  qed
qed

section \<open>The system\<close>

lemma may_use_alive: "well_formed h \<Longrightarrow> may_use cwd h \<Longrightarrow> \<forall>c. cwd = Some c \<longrightarrow> alive (store h) c"
  using held_alive by (auto simp: well_formed_def may_use_def)

text \<open>What is left to prove for a call that changes nothing that clients hold.\<close>

lemma plain_ok:
  assumes "well_formed h" "r = Inr (x, s)" "vfs_inv (held h) s" "files s = files (store h)"
  shows "\<exists>h'. plain h r = Inr h' \<and> well_formed h'"
  using assms opened_cong[of "opens h" "store h" s] by (simp add: plain_def well_formed_def)

lemma well_formed_sound: "well_formed h \<longleftrightarrow> sound h \<and> \<not> lingers h"
  by (auto simp: well_formed_def sound_def inv_binv lingers_attached)

lemma vfs_rmdir_step:
  assumes w: "well_formed h" and v: "may_use cwd h"
  shows "\<exists>h'. perform (Rmdir path cwd) h = Inr h' \<and> sound h'"
proof -
  have i: "vfs_inv (held h) (store h)" and o: "opened (opens h) (store h)" using w by (simp_all add: well_formed_def)
  note c = may_use_alive[OF w v]
  obtain r s where s: "vfs_rmdir path cwd (store h) = Inr (r, s)" "binv (held h) s" using vfs_rmdir_ok[OF i c] by blast
  have "files s = files (store h)" using vfs_remove_files[OF i c] s(1) by (simp add: vfs_rmdir_def)
  then show ?thesis using s opened_cong[OF o] by (simp add: plain_def sound_def)
qed

lemma vfs_rename_step:
  assumes w: "well_formed h" and v: "may_use cwd h"
  shows "\<exists>h'. perform (Rename from_path to_path cwd) h = Inr h' \<and> sound h'"
proof -
  have i: "vfs_inv (held h) (store h)" and o: "opened (opens h) (store h)" using w by (simp_all add: well_formed_def)
  note c = may_use_alive[OF w v]
  obtain r s where s: "vfs_rename from_path to_path cwd (store h) = Inr (r, s)" "s = store h \<or> binv (held h) s"
    using vfs_rename_ok[OF i c] by blast
  have "binv (held h) s" using s(2) i by (auto simp: inv_binv)
  moreover have "files s = files (store h)" by (rule vfs_rename_files[OF i c s(1)])
  ultimately show ?thesis using s(1) opened_cong[OF o] by (simp add: plain_def sound_def)
qed

lemma make_step:
  assumes w: "well_formed h" and ok: "\<exists>r s'. op = Inr (r, s') \<and> vfs_inv (held h) s' \<and>
    (case r of Inl _ \<Rightarrow> same_files (store h) s'
     | Inr _ \<Rightarrow> \<exists>dir name a. parent_result (store h) path cwd = Inr (dir, name) \<and> isdir (store h) dir \<and> name_ok name \<and>
         map_of (kids (store h) dir) name = None \<and> added dir name a d (store h) s')"
  shows "\<exists>h'. plain h op = Inr h' \<and> well_formed h'"
proof -
  obtain r s where r: "op = Inr (r, s)" "vfs_inv (held h) s"
    "case r of Inl _ \<Rightarrow> same_files (store h) s
     | Inr _ \<Rightarrow> \<exists>dir name a. parent_result (store h) path cwd = Inr (dir, name) \<and> isdir (store h) dir \<and> name_ok name \<and>
         map_of (kids (store h) dir) name = None \<and> added dir name a d (store h) s" using ok by blast
  then have "files s = files (store h)" by (cases r) (auto simp: same_files_def added_def)
  then show ?thesis by (rule plain_ok[OF w r(1,2)])
qed

lemma vfs_mount_no_record:
  "vfs_mount dev source target fstype A s = Inl Null_pointer \<or>
   vfs_mount dev source target fstype A s = vfs_mount dev source target fstype (A\<lparr>a_mount := True\<rparr>) s"
proof (cases "a_mount A")
  case False
  have "tmpfs_new_inode b m (A\<lparr>a_mount := True\<rparr>) t = tmpfs_new_inode b m A t" for b m t
    by (cases "a_inode A") (simp_all add: tmpfs_new_inode_def inode_alloc_def)
  then have sb: "tmpfs_create_sb (A\<lparr>a_mount := True\<rparr>) = tmpfs_create_sb A"
    by (cases "a_sb A") (simp_all add: fun_eq_iff tmpfs_create_sb_def Let_def)
  show ?thesis
  proof (cases "\<exists>mp s1 x b s2. vfs_lookup target None s = Inr (Inr mp, s1) \<and> fetch mp s1 = Inr x \<and> tmpfs_create_sb A s1 = Inr (Some b, s2)")
    case True
    then obtain mp s1 x b s2 where "vfs_lookup target None s = Inr (Inr mp, s1)" "fetch mp s1 = Inr x" "tmpfs_create_sb A s1 = Inr (Some b, s2)"
      by blast
    then show ?thesis using False by (simp add: vfs_mount_def sb)
  next
    case other: False
    then show ?thesis
    proof (cases "vfs_lookup target None s")
      case (Inr p)
      obtain r s1 where p: "p = (r, s1)" by (cases p)
      show ?thesis
      proof (cases r)
        case r: (Inr mp)
        show ?thesis
        proof (cases "fetch mp s1")
          case x: (Inr x)
          show ?thesis
          proof (cases "tmpfs_create_sb A s1")
            case q: (Inr q)
            obtain b s2 where b: "q = (b, s2)" by (cases q)
            then have "b = None" using other Inr p r x q by (cases b) auto
            then show ?thesis using Inr p r x q b by (simp add: vfs_mount_def sb)
          qed (use Inr p r x in \<open>simp add: vfs_mount_def sb\<close>)
        qed (use Inr p r in \<open>simp add: vfs_mount_def\<close>)
      qed (use Inr p in \<open>simp add: vfs_mount_def\<close>)
    qed (simp add: vfs_mount_def)
  qed
next
  case True
  then have "A\<lparr>a_mount := True\<rparr> = A" by (cases A) simp
  then show ?thesis by simp
qed

lemma perform_ok:
  assumes w: "well_formed h" and v: "valid c h"
  shows "perform c h = Inl Null_pointer \<and> no_mount_record c \<or>
    (\<exists>h'. perform c h = Inr h' \<and> (if removes_directory c then sound h' else well_formed h'))"
proof -
  have i: "vfs_inv (held h) (store h)" and o: "opened (opens h) (store h)" using w by (simp_all add: well_formed_def)
  note u = may_use_alive[OF w]
  note al = held_alive[OF i]
  show ?thesis
  proof (cases c)
    case (Lookup path cwd)
    then show ?thesis
      using v vfs_lookup_ok[OF inv_walkable[OF i] u, of cwd path] i o inv_bump[OF i] opened_cong[OF o]
      by (cases "lookup_result (store h) path cwd") (auto simp: well_formed_def)
  next
    case (Get j)
    then show ?thesis using v al iget_ok[of "store h" j] inv_bump[OF i] opened_cong[OF o] by (simp add: well_formed_def)
  next
    case (Put j)
    then have "add_mset j (held h - {#j#}) = held h" using v by simp
    then obtain s where "iput j (store h) = Inr s" "vfs_inv (held h - {#j#}) s" "same_files (store h) s"
      using inv_drop[of j "held h - {#j#}" "store h"] i by metis
    then show ?thesis using Put opened_cong[OF o] by (simp add: well_formed_def same_files_def)
  next
    case (Mkdir path cwd m A)
    then show ?thesis using v make_step[OF w vfs_mkdir_ok[OF i u, of cwd A path m]] by auto
  next
    case (Mknod path cwd m dev A)
    then show ?thesis using v make_step[OF w vfs_mknod_ok[OF i u, of cwd A m path dev]] by auto
  next
    case (Unlink path cwd)
    then have cw: "\<forall>c. cwd = Some c \<longrightarrow> alive (store h) c" using v u[of cwd] by simp
    then obtain r s where s: "vfs_unlink path cwd (store h) = Inr (r, s)" "vfs_inv (held h) s" using vfs_unlink_ok[OF i] by blast
    have "files s = files (store h)" using vfs_remove_files[OF i cw] s(1) by (simp add: vfs_unlink_def)
    from plain_ok[OF w s this] show ?thesis using Unlink by simp
  next
    case (Rmdir path cwd)
    then show ?thesis using vfs_rmdir_step[OF w] v by simp
  next
    case (Rename from_path to_path cwd)
    then show ?thesis using vfs_rename_step[OF w] v by simp
  next
    case (Open path cwd fl m A)
    then have cw: "\<forall>c. cwd = Some c \<longrightarrow> alive (store h) c" "fresh A (store h)" using v u[of cwd] by simp_all
    obtain r s where s: "vfs_open path cwd fl m A (store h) = Inr (r, s)" "vfs_inv (held h) s"
      "case r of Inl _ \<Rightarrow> opened (opens h) s | Inr f \<Rightarrow> opened (add_mset f (opens h)) s \<and>
        (\<exists>x. files (store h) f = None \<and> files s f = Some x \<and> alive s (f_inode x) \<and> offset x = 0 \<and> flags x = fl)"
      using vfs_open_ok[OF i o cw] by blast
    then show ?thesis using Open by (cases r) (simp_all add: well_formed_def)
  next
    case (Dup f)
    then show ?thesis using v file_dup_ok[OF i o, of f] by (auto simp: well_formed_def)
  next
    case (Close f)
    then have "opened (add_mset f (opens h - {#f#})) (store h)" using v o by simp
    then show ?thesis using Close file_close_ok[OF i, of f "opens h - {#f#}"] by (auto simp: well_formed_def)
  next
    case (Readdir f)
    then obtain x where x: "files (store h) f = Some x" "f_refcount x = int (count (opens h) f)" using v openedD[OF o] by auto
    let ?x = "x\<lparr>offset := offset x + 1\<rparr>"
    have n: "vfs_inv (held h) (set_file f (Some ?x) (store h))" by (rule inv_file_upd[OF i x(1)]) simp
    have p: "opened (opens h) (set_file f (Some ?x) (store h))"
      using v Readdir by (intro opened_upd[OF o]) (simp_all add: x)
    obtain r where r: "vfs_readdir f (store h) = Inr (r, case r of Inr (Some _) \<Rightarrow> set_file f (Some ?x) (store h) | _ \<Rightarrow> store h)"
      using vfs_readdir_ok[OF i x(1)] by blast
    show ?thesis using Readdir r n p i o by (auto simp: plain_def well_formed_def split: sum.splits option.splits)
  next
    case (Mount dev source target fstype A)
    have "fresh (A\<lparr>a_mount := True\<rparr>) (store h)" using v Mount by (simp add: fresh_def)
    then obtain r s where s: "vfs_mount dev source target fstype (A\<lparr>a_mount := True\<rparr>) (store h) = Inr (r, s)"
      "vfs_inv (held h) s" "files s = files (store h)"
      using vfs_mount_ok[OF i, of "A\<lparr>a_mount := True\<rparr>"] by force
    have full: "A\<lparr>a_mount := True\<rparr> = A" if "a_mount A" using that by (cases A) simp
    show ?thesis
      using vfs_mount_no_record[of dev source target fstype A "store h"] plain_ok[OF w s] Mount s full
      by (cases "a_mount A") (auto simp: plain_def)
  next
    case (Umount target)
    obtain r s where s: "vfs_umount target (store h) = Inr (r, s)" "vfs_inv (held h) s" "files s = files (store h)"
      using vfs_umount_ok[OF i] by blast
    from plain_ok[OF w s] show ?thesis using Umount by simp
  next
    case (Register major ops)
    have "agree (store h) (chrdev_register major ops (store h))" by (simp add: agree_def chrdev_register_def)
    then have "vfs_inv (held h) (chrdev_register major ops (store h))" using inv_agree[OF i] by (simp add: rc_def chrdev_register_def)
    then show ?thesis using Register opened_cong[OF o] by (simp add: well_formed_def chrdev_register_def)
  qed
qed

lemma start_well_formed: "start_vfs drivers A = Inr s \<Longrightarrow> well_formed (start_clients s)"
  using start_vfs_ok by (simp add: well_formed_def start_clients_def)

lemma reach_well_formed: "files_reach h \<Longrightarrow> well_formed h"
proof (induction rule: files_reach.induct)
  case (start drivers A s)
  then show ?case by (rule start_well_formed)
next
  case (call h c h')
  then show ?case using perform_ok[of h c] well_formed_sound by (auto split: if_splits)
qed

section \<open>Sequences of calls\<close>

lemma lingers_before_Cons:
  "perform c h = Inr h' \<Longrightarrow> \<not> lingers_before (c # cs) h \<Longrightarrow> \<not> lingers_before cs h' \<and> (cs \<noteq> [] \<longrightarrow> \<not> lingers h')"
proof -
  assume p: "perform c h = Inr h'" and n: "\<not> lingers_before (c # cs) h"
  have "\<not> lingers_before cs h'"
  proof
    assume "lingers_before cs h'"
    then obtain cs1 d cs2 h1 where "cs = cs1 @ d # cs2" "run cs1 h' = Inr h1" "lingers h1" by (auto simp: lingers_before_def)
    then have "c # cs = (c # cs1) @ d # cs2" "run (c # cs1) h = Inr h1" "lingers h1" using p by simp_all
    then show False using n unfolding lingers_before_def by blast
  qed
  moreover have "\<not> lingers h'" if ne: "cs \<noteq> []"
  proof
    assume l: "lingers h'"
    obtain d ds where "c # cs = [c] @ d # ds" using ne by (cases cs) auto
    moreover have "run [c] h = Inr h'" using p by simp
    ultimately show False using n l unfolding lingers_before_def by blast
  qed
  ultimately show ?thesis by blast
qed

text \<open>The result of a sequence during which no removed directory was in use when a call was made.\<close>

lemma run_ok:
  assumes "well_formed h" "valid_run cs h" "\<not> lingers_before cs h"
  shows "(case run cs h of Inl e \<Rightarrow> e = Null_pointer \<and> list_ex no_mount_record cs
    | Inr h' \<Rightarrow> sound h' \<and> (lingers h' \<longrightarrow> cs \<noteq> [] \<and> removes_directory (last cs)))"
  using assms
proof (induction cs arbitrary: h)
  case Nil
  then show ?case by (simp add: well_formed_sound)
next
  case (Cons c cs)
  note IH = Cons.IH and prems = Cons.prems
  consider "perform c h = Inl Null_pointer" "no_mount_record c"
    | h' where "perform c h = Inr h'" "if removes_directory c then sound h' else well_formed h'"
    using perform_ok[OF Cons.prems(1)] Cons.prems(2) by auto
  then show ?case
  proof cases
    case (2 h')
    note n = lingers_before_Cons[OF 2(1) Cons.prems(3)]
    show ?thesis
    proof (cases cs)
      case Nil
      then show ?thesis using 2 by (auto simp: well_formed_sound split: if_splits)
    next
      case (Cons d ds)
      then have "well_formed h'" using n 2(2) by (auto simp: well_formed_sound split: if_splits)
      moreover have "valid_run cs h'" using prems(2) 2(1) by simp
      ultimately show ?thesis using IH[of h'] n 2(1) \<open>cs = d # ds\<close> by (auto split: sum.splits)
    qed
  qed simp
qed

end
