(* ===== verification/Vfs_Correct.thy ===== *)
theory Vfs_Correct
  imports Vfs_Spec
begin

text \<open>
  The properties of the file tree, each with a concrete tree on which it is used: the root directory, a
  directory \<^verbatim>\<open>/a\<close> with a subdirectory \<^verbatim>\<open>/a/b\<close>, and an open regular file \<^verbatim>\<open>/f\<close>.
\<close>

section \<open>Name resolution in a growing tree\<close>

lemma walk_step_alive: "walkable s \<Longrightarrow> alive s cur \<Longrightarrow> walk_step s cur c = Inr i \<Longrightarrow> alive s i"
  using step_ok[of s cur c] by simp

text \<open>What \<open>s\<close> has, \<open>s'\<close> has in the same place.\<close>

definition extends :: "vfs \<Rightarrow> vfs \<Rightarrow> bool" where
  "extends s s' \<longleftrightarrow> root_inode s' = root_inode s \<and> mnt s' = mnt s \<and> cov s' = cov s \<and>
     (\<forall>i. alive s i \<longrightarrow> isdir s' i = isdir s i \<and> par s' i = par s i \<and> map_of (kids s i) \<subseteq>\<^sub>m map_of (kids s' i))"

lemma walk_step_eq:
  assumes "isdir s cur" "c \<noteq> ''.''" "\<not> (c = ''..'' \<and> root_inode s = Some cur)"
  shows "walk_step s cur c = (case named s (if c = ''..'' then case cov s cur of Some c \<Rightarrow> c | None \<Rightarrow> cur else cur) c of
    None \<Rightarrow> Inl ENOENT | Some j \<Rightarrow> Inr (case top s j of Some t \<Rightarrow> t | None \<Rightarrow> j))"
  using assms by (auto simp: walk_step_def Let_def)

lemma walk_step_extends:
  assumes w: "walkable s" and a: "alive s cur" and e: "extends s s'" and i: "walk_step s cur c = Inr i"
  shows "walk_step s' cur c = Inr i"
proof (cases "c = ''.'' \<or> c = ''..'' \<and> root_inode s = Some cur")
  case True
  then show ?thesis using a e i by (auto simp: walk_step_def extends_def split: if_splits)
next
  case False
  define dir where "dir = (if c = ''..'' then case cov s cur of Some c \<Rightarrow> c | None \<Rightarrow> cur else cur)"
  have d: "isdir s cur" using i by (auto simp: walk_step_def split: if_splits)
  have "mnt s' = mnt s" "cov s' = cov s" "isdir s' cur" "root_inode s' = root_inode s"
    using e a d unfolding extends_def by blast+
  note e' = this(2) top_cong[OF this(1)] this(3,4)
  have "isdir s dir" using w d by (auto simp: dir_def walkable_def split: option.splits)
  then have ad: "alive s dir" by (rule walkable_isdir[OF w])
  obtain j where j: "named s dir c = Some j" "i = (case top s j of Some t \<Rightarrow> t | None \<Rightarrow> j)"
    using i walk_step_eq[OF d, of c, folded dir_def] False by (cases "named s dir c") auto
  have "par s' dir = par s dir" "map_of (kids s dir) \<subseteq>\<^sub>m map_of (kids s' dir)" using e ad unfolding extends_def by blast+
  moreover from this(2) have "map_of (kids s dir) c = Some j \<Longrightarrow> map_of (kids s' dir) c = Some j" by (metis domI map_le_def)
  ultimately have "named s' dir c = Some j" using j(1) by (auto simp: named_def split: if_splits)
  then show ?thesis using walk_step_eq[OF e'(3), of c, unfolded e', folded dir_def] False j(2) by simp
qed

lemma resolve_last:
  assumes w: "walkable s" and e: "extends s s'" and l: "walk_step s' dir name = Inr i"
  shows "alive s cur \<Longrightarrow> resolve_parent s cur cs = Inr (dir, name) \<Longrightarrow> resolve s' cur cs = Inr i"
proof (induction cs arbitrary: cur)
  case (Cons c cs)
  show ?case
  proof (cases cs)
    case Nil
    then show ?thesis using Cons.prems(2) l by (auto split: if_splits)
  next
    case (Cons c' cs')
    obtain j where j: "walk_step s cur c = Inr j" "resolve_parent s j cs = Inr (dir, name)" "\<not> length c > NAME_MAX"
      using Cons.prems(2) \<open>cs = c' # cs'\<close> by (auto split: if_splits sum.splits)
    have "resolve s' j cs = Inr i" by (rule Cons.IH[OF walk_step_alive[OF w Cons.prems(1) j(1)] j(2)])
    then show ?thesis using walk_step_extends[OF w Cons.prems(1) e j(1)] j(3) by simp
  qed
qed simp

lemma added_extends:
  assumes "added dir name a d s s'" "map_of (kids s dir) name = None"
  shows "extends s s'"
proof -
  have "i \<noteq> a" if "alive s i" for i using that assms(1) by (auto simp: alive_def added_def)
  then show ?thesis using assms by (auto simp: extends_def added_def map_add_def map_le_def split: option.splits)
qed

lemma mkdir_resolved:
  assumes inv: "vfs_inv H s" and cwd: "\<forall>c. cwd = Some c \<longrightarrow> alive s c" and f: "fresh A s"
    and m: "vfs_mkdir path cwd m A s = Inr (Inr (), s')"
  obtains a where "inodes s a = None" "isdir s' a" "kids s' a = []" "lookup_result s' path cwd = Inr a" "vfs_inv H s'"
proof -
  obtain dir name a where p: "parent_result s path cwd = Inr (dir, name)" "isdir s dir" "name_ok name"
      "map_of (kids s dir) name = None" "added dir name a True s s'" and i: "vfs_inv H s'"
    using vfs_mkdir_ok[OF inv cwd f, of path m] m by auto
  note w = inv_walkable[OF inv]
  have na: "inodes s a = None" and ne: "a \<noteq> dir" using p(2,5) by (auto simp: added_def isdir_def)
  have "top s' a = Some a" using na p(5) by (subst top.simps) (simp add: added_def mnt_def)
  moreover have "named s' dir name = Some a" using p(3-5) by (simp add: named_def added_def name_ok_def map_add_def)
  moreover have "isdir s' dir" using p(2,5) by (simp add: added_def)
  ultimately have l: "walk_step s' dir name = Inr a" using p(3) by (simp add: walk_step_def name_ok_def Let_def)
  obtain r where r: "start_of s path cwd = Some r" "alive s r" using start_alive[OF w cwd] by metis
  note e = added_extends[OF p(5,4)]
  have "root_inode s' = root_inode s" using e unfolding extends_def by blast
  then have "start_of s' path cwd = start_of s path cwd" unfolding start_of_def by (rule arg_cong)
  then have "start_of s' path cwd = Some r" using r(1) by simp
  moreover have "resolve_parent s r (components path) = Inr (dir, name)" "path \<noteq> []" "\<not> length path \<ge> PATH_MAX"
    using p(1) r(1) by (auto simp: parent_result_def split: if_splits)
  ultimately have "lookup_result s' path cwd = Inr a" using resolve_last[OF w e l r(2)] by (simp add: lookup_result_def)
  moreover have "kids s' a = []" "isdir s' a" using p(5) na ne by (auto simp: added_def kids_def)
  ultimately show ?thesis using that na i by blast
qed

section \<open>A concrete tree\<close>

definition plenty :: "nat \<Rightarrow> allocs" where
  "plenty n = \<lparr>a_inode = Some n, a_file = Some n, a_sb = Some n, a_node = True, a_dirent = True, a_mount = True\<rparr>"

definition dir_inode :: "u64 \<Rightarrow> int \<Rightarrow> int \<Rightarrow> (string \<times> nat) list \<Rightarrow> nat option \<Rightarrow> inode" where
  "dir_inode k links users es p =
     \<lparr>ino = k, mode = 0x41ED, nlink = links, i_size = 0, rdev = 0, refcount = users, i_sb = Some 0, iops = Some Tmpfs_dir_ops,
      i_fops = None, priv = Some \<lparr>children = es, parent = p\<rparr>, mounted = None, covered = None\<rparr>"

definition file_inode :: "u64 \<Rightarrow> int \<Rightarrow> int \<Rightarrow> inode" where
  "file_inode k links users =
     \<lparr>ino = k, mode = 0x81A4, nlink = links, i_size = 0, rdev = 0, refcount = users, i_sb = Some 0, iops = Some Tmpfs_file_iops,
      i_fops = Some Tmpfs_file_ops, priv = Some \<lparr>children = [], parent = None\<rparr>, mounted = None, covered = None\<rparr>"

definition one_mount :: "(nat \<Rightarrow> inode option) \<Rightarrow> (nat \<Rightarrow> vfile option) \<Rightarrow> u64 \<Rightarrow> vfs" where
  "one_mount is fs k =
     \<lparr>inodes = is, files = fs, supers = [0 \<mapsto> \<lparr>s_root = 0, read_only = False, s_dev = 1\<rparr>], root_inode = Some 0,
      mounts = [\<lparr>m_target = ''/'', m_sb = 0, mountpoint = None\<rparr>], chrdevs = \<lambda>_. None, next_ino = k, next_dev = 2\<rparr>"

definition tree0 :: vfs where
  "tree0 = one_mount [0 \<mapsto> dir_inode 1 2 2 [] None] (\<lambda>_. None) 2"

definition tree1 :: vfs where
  "tree1 = one_mount [1 \<mapsto> dir_inode 2 2 1 [] (Some 0), 0 \<mapsto> dir_inode 1 3 2 [(''a'', 1)] None] (\<lambda>_. None) 3"

definition tree2 :: vfs where
  "tree2 = one_mount [0 \<mapsto> dir_inode 1 3 2 [(''a'', 1)] None, 1 \<mapsto> dir_inode 2 3 1 [(''b'', 2)] (Some 0),
     2 \<mapsto> dir_inode 3 2 1 [] (Some 1)] (\<lambda>_. None) 4"

definition tree3 :: vfs where
  "tree3 = one_mount [0 \<mapsto> dir_inode 1 3 2 [(''a'', 1), (''f'', 3)] None, 1 \<mapsto> dir_inode 2 3 1 [(''b'', 2)] (Some 0),
     2 \<mapsto> dir_inode 3 2 1 [] (Some 1), 3 \<mapsto> file_inode 4 1 2]
     [3 \<mapsto> \<lparr>f_inode = 3, f_fops = Some Tmpfs_file_ops, offset = 0, flags = O_CREAT OR O_WRONLY, f_refcount = 1\<rparr>] 5"

definition tree4 :: vfs where
  "tree4 = one_mount [0 \<mapsto> dir_inode 1 3 2 [(''a'', 1), (''f'', 3)] None, 1 \<mapsto> dir_inode 2 3 1 [(''b'', 2)] (Some 0),
     2 \<mapsto> dir_inode 3 2 2 [] (Some 1), 3 \<mapsto> file_inode 4 1 2]
     [3 \<mapsto> \<lparr>f_inode = 3, f_fops = Some Tmpfs_file_ops, offset = 0, flags = O_CREAT OR O_WRONLY, f_refcount = 1\<rparr>] 5"

text \<open>Evaluation: the continuation of a step is looked at once the step is evaluated.\<close>

named_theorems vfs_eval

lemma andthen_weak: "r = r' \<Longrightarrow> andthen r f = andthen r' f"
  by simp

lemma follow_plain [vfs_eval]: "inodes s i = Some x \<Longrightarrow> mounted x = None \<Longrightarrow> follow_mounts i s = Inr (i, s)"
  by (simp add: follow_mounts_def fetch_def follow_loop.simps)

lemmas [vfs_eval] = plenty_def dir_inode_def file_inode_def one_mount_def Let_def fetch_def fetch_file_def upd_inode_def upd_node_def
  NODE_def iget_def iput_def iput_opt_def next_component_def lookup_loop.simps parent_loop.simps

lemmas [vfs_eval] = start_inode_def step_def vfs_lookup_def vfs_lookup_parent_def with_parent_def is_read_only_def
  dir_lookup_def tmpfs_lookup_def find_entry_def put_and_return_def

lemmas [vfs_eval] = inode_alloc_def tmpfs_new_inode_def add_entry_def tmpfs_mkdir_def vfs_mkdir_def tmpfs_create_def open_create_def
  file_alloc_def open_file_def vfs_open_def unlink_entry_def tmpfs_rmdir_def remove_victim_def vfs_remove_def vfs_rmdir_def

lemmas [vfs_eval] = S_ISDIR_def S_ISREG_def S_ISCHR_def S_ISBLK_def has_flag_def

lemma start_eval: "start_vfs (\<lambda>_. None) (plenty 0) = Inr tree0"
  by (simp add: start_vfs_def empty_vfs_def tmpfs_create_sb_def vfs_mount_root_def tree0_def vfs_eval cong: andthen_weak)

lemma mkdir_a_eval: "vfs_mkdir ''/a'' None 0x1ED (plenty 1) tree0 = Inr (Inr (), tree1)"
  by (simp add: tree0_def tree1_def vfs_eval cong: andthen_weak)

lemma mkdir_b_eval: "vfs_mkdir ''a/b/'' None 0x1ED (plenty 2) tree1 = Inr (Inr (), tree2)"
  by (simp add: tree1_def tree2_def vfs_eval cong: andthen_weak) (simp add: fun_eq_iff)

lemma open_f_eval: "vfs_open ''/f'' None (O_CREAT OR O_WRONLY) 0x1A4 (plenty 3) tree2 = Inr (Inr 3, tree3)"
  by (simp add: tree2_def tree3_def vfs_eval cong: andthen_weak) (simp add: fun_eq_iff)

lemma lookup_b_eval: "vfs_lookup ''/a/b/../b'' None tree3 = Inr (Inr 2, tree4)"
  by (simp add: tree3_def tree4_def vfs_eval cong: andthen_weak) (simp add: fun_eq_iff)

definition tree8 :: vfs where
  "tree8 = one_mount [0 \<mapsto> dir_inode 1 3 2 [(''a'', 1), (''f'', 3)] None, 1 \<mapsto> dir_inode 2 2 1 [] (Some 0),
     2 \<mapsto> dir_inode 3 0 1 [] (Some 1), 3 \<mapsto> file_inode 4 1 2]
     [3 \<mapsto> \<lparr>f_inode = 3, f_fops = Some Tmpfs_file_ops, offset = 0, flags = O_CREAT OR O_WRONLY, f_refcount = 1\<rparr>] 5"

definition tree9 :: vfs where
  "tree9 = one_mount [0 \<mapsto> dir_inode 1 2 2 [(''f'', 3)] None, 2 \<mapsto> dir_inode 3 0 1 [] (Some 1), 3 \<mapsto> file_inode 4 1 2]
     [3 \<mapsto> \<lparr>f_inode = 3, f_fops = Some Tmpfs_file_ops, offset = 0, flags = O_CREAT OR O_WRONLY, f_refcount = 1\<rparr>] 5"

lemma rmdir_eval: "vfs_rmdir ''/a/b'' None tree4 = Inr (Inr (), tree8)" "vfs_rmdir ''/a'' None tree8 = Inr (Inr (), tree9)"
  by (simp add: tree4_def tree8_def vfs_eval cong: andthen_weak, simp add: fun_eq_iff)
    (simp add: tree8_def tree9_def vfs_eval cong: andthen_weak, simp add: fun_eq_iff)

lemma dangling_eval: "vfs_lookup ''..'' (Some 2) tree9 = Inl Use_after_free"
  by (simp add: tree9_def vfs_eval cong: andthen_weak)

definition sample :: clients where
  "sample = \<lparr>held = {#2#}, opens = {#3#}, store = tree4\<rparr>"

lemma sample_reach: "files_reach sample"
proof -
  note call = files_reach.call
  have r0: "files_reach \<lparr>held = {#}, opens = {#}, store = tree0\<rparr>"
    using files_reach.start[OF start_eval] by (simp add: start_clients_def)
  have r1: "files_reach \<lparr>held = {#}, opens = {#}, store = tree1\<rparr>"
    by (rule call[OF r0, of "Mkdir ''/a'' None 0x1ED (plenty 1)"])
      (simp_all add: mkdir_a_eval[simplified] plain_def may_use_def, simp_all add: fresh_def plenty_def tree0_def one_mount_def)
  have r2: "files_reach \<lparr>held = {#}, opens = {#}, store = tree2\<rparr>"
    by (rule call[OF r1, of "Mkdir ''a/b/'' None 0x1ED (plenty 2)"])
      (simp_all add: mkdir_b_eval[simplified] plain_def may_use_def, simp_all add: fresh_def plenty_def tree1_def one_mount_def)
  have r3: "files_reach \<lparr>held = {#}, opens = {#3#}, store = tree3\<rparr>"
    by (rule call[OF r2, of "Open ''/f'' None (O_CREAT OR O_WRONLY) 0x1A4 (plenty 3)"])
      (simp_all add: open_f_eval[simplified] may_use_def, simp_all add: fresh_def plenty_def tree2_def one_mount_def)
  show ?thesis
    unfolding sample_def by (rule call[OF r3, of "Lookup ''/a/b/../b'' None"]) (simp_all add: lookup_b_eval may_use_def)
qed

lemma sample_inv: "vfs_inv {#2#} tree4" "opened {#3#} tree4"
  using reach_well_formed[OF sample_reach] by (simp_all add: well_formed_def sample_def)

section \<open>Properties\<close>

text \<open>
  C5. From the start, after any sequence of valid calls before each of which every removed directory was out
  of use: the reference count of an inode is the number of references to it in directories, mounts, super
  blocks, open files and clients' hands, and never zero; no reference points to a freed inode; the operation
  table of an inode is that of its type; names in a directory are different; nothing is its own ancestor; and
  every open file is used by as many handles as it counts. A directory is an entry of its parent, unless the
  last call has just removed a directory that is still in use.
\<close>

theorem files_well_formed:
  assumes "start_vfs drivers A = Inr s" "valid_run cs (start_clients s)" "\<not> lingers_before cs (start_clients s)"
    and "run cs (start_clients s) = Inr h"
  shows "(\<forall>i x. inodes (store h) i = Some x \<longrightarrow> 0 < refcount x \<and> refcount x = int (count (refs (store h) + held h) i) \<and>
      (\<exists>n. priv x = Some n \<and> distinct (map fst (children n)) \<and>
        iops x = Some (if S_ISDIR (mode x) then Tmpfs_dir_ops else Tmpfs_file_iops))) \<and>
    (\<forall>i. i \<in># refs (store h) + held h \<longrightarrow> alive (store h) i) \<and>
    (\<forall>i. (i, i) \<notin> (par_rel (store h))\<^sup>+) \<and>
    (\<forall>f x. files (store h) f = Some x \<longrightarrow> 0 < f_refcount x \<and> f_refcount x = int (count (opens h) f) \<and> alive (store h) (f_inode x)) \<and>
    ((\<forall>i p. par (store h) i = Some p \<longrightarrow> isdir (store h) p \<and> i \<in> snd ` set (kids (store h) p)) \<or>
      cs \<noteq> [] \<and> removes_directory (last cs) \<and> lingers h)"
proof -
  have s: "sound h" and l: "lingers h \<longrightarrow> cs \<noteq> [] \<and> removes_directory (last cs)"
    using run_ok[OF start_well_formed[OF assms(1)] assms(2,3)] assms(4) by simp_all
  then have c: "counted (held h) (store h)" and t: "tree (store h)" and o: "opened (opens h) (store h)"
    by (simp_all add: sound_def binv_def)
  have "rc (store h) j = refcount x" if "inodes (store h) j = Some x" for j x using that by (simp add: rc_def)
  then have "0 < refcount x \<and> refcount x = int (count (refs (store h) + held h) j)" if "inodes (store h) j = Some x" for j x
    using c that unfolding counted_def by metis
  moreover have "\<exists>n. priv x = Some n \<and> distinct (map fst (children n)) \<and>
      iops x = Some (if S_ISDIR (mode x) then Tmpfs_dir_ops else Tmpfs_file_iops)" if "inodes (store h) j = Some x" for j x
    using tree_shape[OF t that] by (auto simp: shape_def split: if_splits)
  moreover have "isdir (store h) p \<and> j \<in> snd ` set (kids (store h) p)" if "\<not> lingers h" "par (store h) j = Some p" for j p
    using attached_par[OF t _ that(2)] that unfolding lingers_attached attached_def by blast
  moreover have "0 < f_refcount x \<and> f_refcount x = int (count (opens h) f) \<and> alive (store h) (f_inode x)"
    if "files (store h) f = Some x" for f x
  proof -
    have "f_inode x \<in># refs (store h)"
      using store_sum_mem[of "files (store h)" f x "\<lambda>f. {#f_inode f#}"] c that by (auto simp: counted_def refs_def)
    then show ?thesis using o that counted_alive[OF c] by (auto simp: opened_def)
  qed
  ultimately show ?thesis
    using l counted_alive[OF c] tree_acyclic(1)[OF t, unfolded acyclic_def] by (intro conjI allI impI; blast)
qed

text \<open>The calls that build the tree.\<close>

definition sample_calls :: "fs_call list" where
  "sample_calls = [Mkdir ''/a'' None 0x1ED (plenty 1), Mkdir ''a/b/'' None 0x1ED (plenty 2),
     Open ''/f'' None (O_CREAT OR O_WRONLY) 0x1A4 (plenty 3), Lookup ''/a/b/../b'' None]"

lemma sample_calls_run:
  "run sample_calls (start_clients tree0) = Inr sample" "valid_run sample_calls (start_clients tree0)"
  "run (sample_calls @ cs) (start_clients tree0) = run cs sample" "valid_run (sample_calls @ cs) (start_clients tree0) = valid_run cs sample"
  by (simp_all add: sample_calls_def start_clients_def sample_def plain_def may_use_def mkdir_a_eval[simplified] mkdir_b_eval[simplified]
      open_f_eval[simplified] lookup_b_eval)
    (simp_all add: fresh_def plenty_def tree0_def tree1_def tree2_def one_mount_def)


text \<open>Before each of these calls every directory is an entry of its parent.\<close>

lemma quiet_steps:
  "\<not> lingers_before [] h"
  "perform c h = Inr h' \<Longrightarrow> \<not> lingers h \<Longrightarrow> \<not> lingers_before cs h' \<Longrightarrow> \<not> lingers_before (c # cs) h"
proof -
  show "\<not> lingers_before [] h" by (simp add: lingers_before_def)
  assume p: "perform c h = Inr h'" and l: "\<not> lingers h" and n: "\<not> lingers_before cs h'"
  show "\<not> lingers_before (c # cs) h"
  proof
    assume "lingers_before (c # cs) h"
    then obtain cs1 d cs2 h1 where s: "c # cs = cs1 @ d # cs2" "run cs1 h = Inr h1" "lingers h1" by (auto simp: lingers_before_def)
    show False
    proof (cases cs1)
      case Nil
      then show ?thesis using s(2,3) l by simp
    next
      case (Cons e es)
      then have "cs = es @ d # cs2" "run es h' = Inr h1" using s(1,2) p by simp_all
      then show ?thesis using n s(3) unfolding lingers_before_def by blast
    qed
  qed
qed

lemma sample_steady: "\<not> lingers_before (Rmdir ''/a/b'' None # []) sample" "\<not> lingers_before sample_calls (start_clients tree0)"
proof -
  have q: "\<not> lingers \<lparr>held = H, opens = F, store = t\<rparr>" if "\<And>i p. par t i = Some p \<Longrightarrow> i \<in> set (map snd (kids t p))" for H F t
    using that by (auto simp: lingers_def)
  have l: "\<not> lingers (start_clients tree0)" "\<not> lingers \<lparr>held = {#}, opens = {#}, store = tree1\<rparr>"
    "\<not> lingers \<lparr>held = {#}, opens = {#}, store = tree2\<rparr>" "\<not> lingers \<lparr>held = {#}, opens = {#3#}, store = tree3\<rparr>" "\<not> lingers sample"
    unfolding start_clients_def sample_def
    by (rule q; auto simp: image_iff par_def kids_def tree0_def tree1_def tree2_def tree3_def tree4_def one_mount_def dir_inode_def file_inode_def
        split: if_splits)+
  show "\<not> lingers_before (Rmdir ''/a/b'' None # []) sample"
    by (rule quiet_steps(2)[OF _ l(5) quiet_steps(1), of _ "sample\<lparr>store := tree8\<rparr>"]) (simp add: sample_def plain_def rmdir_eval)
  have p: "perform (Mkdir ''/a'' None 0x1ED (plenty 1)) (start_clients tree0) = Inr \<lparr>held = {#}, opens = {#}, store = tree1\<rparr>"
    "perform (Mkdir ''a/b/'' None 0x1ED (plenty 2)) \<lparr>held = {#}, opens = {#}, store = tree1\<rparr> = Inr \<lparr>held = {#}, opens = {#}, store = tree2\<rparr>"
    "perform (Open ''/f'' None (O_CREAT OR O_WRONLY) 0x1A4 (plenty 3)) \<lparr>held = {#}, opens = {#}, store = tree2\<rparr> = Inr \<lparr>held = {#}, opens = {#3#}, store = tree3\<rparr>"
    "perform (Lookup ''/a/b/../b'' None) \<lparr>held = {#}, opens = {#3#}, store = tree3\<rparr> = Inr sample"
    by (simp_all add: start_clients_def sample_def plain_def mkdir_a_eval[simplified] mkdir_b_eval[simplified] open_f_eval[simplified] lookup_b_eval)
  show "\<not> lingers_before sample_calls (start_clients tree0)"
    unfolding sample_calls_def
    by (rule quiet_steps(2)[OF p(1) l(1)] quiet_steps(2)[OF p(2) l(2)] quiet_steps(2)[OF p(3) l(3)] quiet_steps(2)[OF p(4) l(4)] quiet_steps(1))+
qed

text \<open>Used on the tree of the example: of its directories each is an entry of its parent.\<close>

lemma files_well_formed_witness:
  "run sample_calls (start_clients tree0) = Inr sample \<and>
   refcount (the (inodes (store sample) 2)) = int (count (refs (store sample) + held sample) 2) \<and> 2 \<in> snd ` set (kids (store sample) 1)"
proof -
  have v: "inodes (store sample) 2 = Some (dir_inode 3 2 2 [] (Some 1))" "par (store sample) 2 = Some 1"
    by (simp_all add: sample_def tree4_def one_mount_def par_def dir_inode_def)
  have "\<not> removes_directory (last sample_calls)" by (simp add: sample_calls_def)
  then show ?thesis
    using files_well_formed[OF start_eval sample_calls_run(2) sample_steady(2) sample_calls_run(1)] v sample_calls_run(1) by auto
qed

text \<open>
  C6. When a call of a client panics, that is, follows a pointer to a freed object, drops a reference too many
  or loops, then one of two things was the case in the sequence of valid calls since the start that ends
  with it: some call was made while a removed directory was still in use, or memory for the entry in the
  mount table was missing in a \<^verbatim>\<open>mount\<close> and its NULL was followed. All other sequences of calls, whatever
  the allocator returns, run to the end.
\<close>

theorem files_panic_causes:
  assumes "start_vfs drivers A = Inr s" "valid_run cs (start_clients s)"
  shows "case run cs (start_clients s) of
      Inr h \<Rightarrow> True
    | Inl e \<Rightarrow> lingers_before cs (start_clients s) \<or> e = Null_pointer \<and> list_ex no_mount_record cs"
  using run_ok[OF start_well_formed[OF assms(1)] assms(2)] by (auto split: sum.splits)

text \<open>The removal of a held directory and of its parent, and a lookup that follows the freed parent.\<close>

lemma dangling_run:
  "run [Rmdir ''/a/b'' None, Rmdir ''/a'' None, Lookup ''..'' (Some 2)] sample = Inl Use_after_free"
  "valid_run [Rmdir ''/a/b'' None, Rmdir ''/a'' None, Lookup ''..'' (Some 2)] sample"
  by (simp_all add: sample_def plain_def rmdir_eval dangling_eval may_use_def)

lemma files_panic_causes_witness:
  "\<exists>cs. valid_run cs (start_clients tree0) \<and> run cs (start_clients tree0) = Inl Use_after_free \<and> lingers_before cs (start_clients tree0)"
proof -
  let ?cs = "sample_calls @ [Rmdir ''/a/b'' None, Rmdir ''/a'' None, Lookup ''..'' (Some 2)]"
  have r: "run ?cs (start_clients tree0) = Inl Use_after_free" "valid_run ?cs (start_clients tree0)"
    using dangling_run by (simp_all add: sample_calls_run(3,4))
  from files_panic_causes[OF start_eval r(2)] r show ?thesis by auto
qed

text \<open>
  C7. While no directory that was removed is in use, looking a path up returns what pure name resolution returns for its components. On success the caller
  has one new reference to the inode; nothing else has changed, although the walk took and dropped a
  reference at every step. On an error nothing has changed at all.
\<close>

theorem lookup_is_name_resolution:
  assumes "files_reach h" "may_use cwd h"
  shows "vfs_lookup path cwd (store h) =
    (case lookup_result (store h) path cwd of Inl e \<Rightarrow> Inr (Inl e, store h) | Inr i \<Rightarrow> Inr (Inr i, bump i 1 (store h)))"
proof -
  have w: "well_formed h" by (rule reach_well_formed[OF assms(1)])
  then have "walkable (store h)" using inv_walkable by (auto simp: well_formed_def)
  from vfs_lookup_ok[OF this may_use_alive[OF w assms(2)], of path] show ?thesis by (auto split: sum.splits)
qed

lemma top_here: "mnt s i = None \<Longrightarrow> top s i = Some i"
  by (subst top.simps) simp

lemma lookup_is_name_resolution_witness:
  "vfs_lookup ''..//b/.'' (Some 2) (store sample) = Inr (Inr 2, bump 2 1 (store sample)) \<and>
   vfs_lookup ''../c'' (Some 2) (store sample) = Inr (Inl ENOENT, store sample)"
proof -
  have m: "may_use (Some 2) sample" by (simp add: may_use_def sample_def)
  have v: "par (store sample) 2 = Some 1" "kids (store sample) 1 = [(''b'', 2)]" "isdir (store sample) 1" "isdir (store sample) 2"
    "mnt (store sample) = (\<lambda>_. None)" "cov (store sample) = (\<lambda>_. None)" "root_inode (store sample) = Some 0"
    by (simp_all add: fun_eq_iff sample_def tree4_def one_mount_def par_def kids_def isdir_def mnt_def cov_def dir_inode_def
          file_inode_def S_ISDIR_def)
  have c: "components ''..//b/.'' = [''..'', ''b'', ''.'']" "components ''../c'' = [''..'', ''c'']" by code_simp+
  have "lookup_result (store sample) ''..//b/.'' (Some 2) = Inr 2" "lookup_result (store sample) ''../c'' (Some 2) = Inl ENOENT"
    using v by (simp_all add: lookup_result_def start_of_def c walk_step_def named_def top_here Let_def)
  then show ?thesis
    using lookup_is_name_resolution[OF sample_reach m, of "''..//b/.''"] lookup_is_name_resolution[OF sample_reach m, of "''../c''"]
    by simp
qed

text \<open>
  A path under which \<^verbatim>\<open>mkdir\<close> succeeds leads to the new directory afterwards, from the same working
  directory: an inode that did not exist before, a directory, and empty.
\<close>

theorem mkdir_then_lookup:
  assumes "files_reach h" "may_use cwd h" "fresh A (store h)"
    and "vfs_mkdir path cwd m A (store h) = Inr (Inr (), s')"
  shows "\<exists>a. inodes (store h) a = None \<and> isdir s' a \<and> kids s' a = [] \<and> vfs_lookup path cwd s' = Inr (Inr a, bump a 1 s')"
proof -
  have w: "well_formed h" by (rule reach_well_formed[OF assms(1)])
  then have i: "vfs_inv (held h) (store h)" by (simp add: well_formed_def)
  obtain a where a: "inodes (store h) a = None" "isdir s' a" "kids s' a = []" "lookup_result s' path cwd = Inr a" "vfs_inv (held h) s'"
    using mkdir_resolved[OF i may_use_alive[OF w assms(2)] assms(3,4)] .
  have "\<forall>c. cwd = Some c \<longrightarrow> alive s' c" using assms(2) held_alive[OF a(5)] by (auto simp: may_use_def)
  from vfs_lookup_ok[OF inv_walkable[OF a(5)] this, of path] a show ?thesis by auto
qed

definition sample0 :: clients where
  "sample0 = \<lparr>held = {#}, opens = {#}, store = tree0\<rparr>"

lemma reach0: "files_reach sample0"
  using files_reach.start[OF start_eval] by (simp add: sample0_def start_clients_def)

lemma mkdir_then_lookup_witness: "\<exists>a. isdir tree1 a \<and> vfs_lookup ''/a'' None tree1 = Inr (Inr a, bump a 1 tree1)"
proof -
  have "may_use None sample0" "fresh (plenty 1) (store sample0)"
    by (simp_all add: may_use_def fresh_def plenty_def sample0_def tree0_def one_mount_def)
  moreover have "vfs_mkdir ''/a'' None 0x1ED (plenty 1) (store sample0) = Inr (Inr (), tree1)"
    unfolding sample0_def clients.select_convs by (rule mkdir_a_eval)
  ultimately show ?thesis using mkdir_then_lookup[OF reach0] by blast
qed

text \<open>
  C19. Renaming moves one entry, while no directory that was removed is in use: afterwards the new name is that of the inode that had the old name, the old
  name is gone, and every other name in every directory is as before. It succeeds only if a directory is not
  moved into itself or below, and if what the new name stood for was of the same kind and, being a directory,
  empty. If both paths name the same entry nothing changes.
\<close>

lemma map_of_moved:
  assumes t: "tree s" and d: "isdir s odir" "isdir s ndir" and ne: "\<not> (odir = ndir \<and> oname = nname)"
  shows "map_of (move_kids odir oname ndir nname i ((kids s)(ndir := del_entry nname (kids s ndir))) e) n =
    (if e = ndir \<and> n = nname then Some i else if e = odir \<and> n = oname then None else map_of (kids s e) n)"
proof -
  note k = tree_kids_distinct[OF t d(1)] tree_kids_distinct[OF t d(2)]
  note m = map_of_del_entry[OF k(1), of oname] map_of_del_entry[OF k(2), of nname]
    map_of_del_entry[OF distinct_del_entry[OF k(2), of nname], of oname]
  show ?thesis
    using ne m by (cases "odir = ndir"; cases "e = ndir"; cases "e = odir")
      (auto simp: move_kids_def Let_def map_add_def split: option.splits)
qed

theorem rename_moves_one_entry:
  assumes "files_reach h" "may_use cwd h" "vfs_rename from_path to_path cwd (store h) = Inr (Inr (), s')"
  shows "\<exists>odir oname ndir nname. parent_result (store h) from_path cwd = Inr (odir, oname) \<and>
    parent_result (store h) to_path cwd = Inr (ndir, nname) \<and>
    (if (odir, oname) = (ndir, nname) then s' = store h
     else \<exists>i. map_of (kids (store h) odir) oname = Some i \<and>
       (\<forall>d n. map_of (kids s' d) n =
          (if (d, n) = (ndir, nname) then Some i else if (d, n) = (odir, oname) then None else map_of (kids (store h) d) n)) \<and>
       (isdir (store h) i \<longrightarrow> (ndir, i) \<notin> (par_rel (store h))\<^sup>*) \<and>
       (\<forall>t. map_of (kids (store h) ndir) nname = Some t \<longrightarrow>
          isdir (store h) t = isdir (store h) i \<and> (isdir (store h) t \<longrightarrow> kids (store h) t = [])))"
proof -
  define s where "s = store h"
  have w: "well_formed h" by (rule reach_well_formed[OF assms(1)])
  then have inv: "vfs_inv (held h) s" by (simp add: well_formed_def s_def)
  then have t: "tree s" by (simp add: vfs_inv_def)
  note cwd = may_use_alive[OF w assms(2), folded s_def]
  consider (same) p where "s' = s" "parent_result s from_path cwd = Inr p" "parent_result s to_path cwd = Inr p"
    | (moved) odir oname ndir nname i where "parent_result s from_path cwd = Inr (odir, oname)"
        "parent_result s to_path cwd = Inr (ndir, nname)" "renamed odir oname ndir nname i s s'"
    using vfs_rename_ok[OF inv cwd, of from_path to_path] assms(3) unfolding s_def by auto
  then show ?thesis
  proof cases
    case same
    then show ?thesis unfolding s_def[symmetric] by (cases p) auto
  next
    case moved
    have "isdir s odir" "isdir s ndir"
      using vfs_lookup_parent_ok[OF inv_walkable[OF inv] cwd, of from_path] vfs_lookup_parent_ok[OF inv_walkable[OF inv] cwd, of to_path]
        moved(1,2) by auto
    note m = map_of_moved[OF t this, of oname nname i]
    have r: "\<not> (odir = ndir \<and> oname = nname)" "map_of (kids s odir) oname = Some i" "isdir s i \<longrightarrow> (ndir, i) \<notin> (par_rel s)\<^sup>*"
      "\<forall>t. map_of (kids s ndir) nname = Some t \<longrightarrow> isdir s t = isdir s i \<and> (isdir s t \<longrightarrow> kids s t = [])"
      "kids s' = move_kids odir oname ndir nname i ((kids s)(ndir := del_entry nname (kids s ndir)))"
      using moved(3) unfolding renamed_def by blast+
    have k: "map_of (kids s' d) n = (if (d, n) = (ndir, nname) then Some i else if (d, n) = (odir, oname) then None else map_of (kids s d) n)"
      for d n unfolding r(5) using m[OF r(1), of d n] by simp
    have "(odir, oname) \<noteq> (ndir, nname)" using r(1) by simp
    then show ?thesis unfolding s_def[symmetric]
      by (intro exI[of _ odir] exI[of _ oname] exI[of _ ndir] exI[of _ nname] conjI moved(1,2))
        (simp only: if_False, intro exI[of _ i] conjI allI k r(2-4))
  qed
qed

definition tree5 :: vfs where
  "tree5 = one_mount [0 \<mapsto> dir_inode 1 4 2 [(''a'', 1), (''f'', 3), (''c'', 2)] None, 1 \<mapsto> dir_inode 2 2 1 [] (Some 0),
     2 \<mapsto> dir_inode 3 2 2 [] (Some 0), 3 \<mapsto> file_inode 4 1 2]
     [3 \<mapsto> \<lparr>f_inode = 3, f_fops = Some Tmpfs_file_ops, offset = 0, flags = O_CREAT OR O_WRONLY, f_refcount = 1\<rparr>] 5"

lemma rename_eval: "vfs_rename ''/a/b'' ''/c'' None tree4 = Inr (Inr (), tree5)"
  by (simp add: tree4_def tree5_def vfs_rename_def tmpfs_rename_def moves_into_itself_def is_ancestor.simps move_entry_def vfs_eval
      cong: andthen_weak) (simp add: fun_eq_iff)

lemma rename_moves_one_entry_witness:
  "\<exists>odir oname ndir nname. parent_result (store sample) ''/a/b'' None = Inr (odir, oname) \<and>
     parent_result (store sample) ''/c'' None = Inr (ndir, nname) \<and> store sample = tree4"
proof -
  have "may_use None sample" "vfs_rename ''/a/b'' ''/c'' None (store sample) = Inr (Inr (), tree5)" "store sample = tree4"
    using rename_eval by (simp_all add: may_use_def sample_def)
  then show ?thesis using rename_moves_one_entry[OF sample_reach] by blast
qed

text \<open>
  Reading an open directory from the start gives the names \<^verbatim>\<open>.\<close> and \<^verbatim>\<open>..\<close> and then each name in it
  exactly once, in the order of creation, and then the end.
\<close>

theorem readdir_lists_directory:
  assumes "files_reach h" "files (store h) f = Some x" "isdir (store h) (f_inode x)" "offset x = 0"
    and "length (kids (store h) (f_inode x)) + 2 < 2 ^ 64" "length (kids (store h) (f_inode x)) + 2 < n"
  shows "\<exists>s'. read_names n f (store h) = Inr (''.'' # ''..'' # map fst (kids (store h) (f_inode x)), s') \<and>
    distinct (map fst (kids (store h) (f_inode x)))"
proof -
  have i: "vfs_inv (held h) (store h)" using reach_well_formed[OF assms(1)] by (simp add: well_formed_def)
  then have "distinct (map fst (kids (store h) (f_inode x)))" using tree_kids_distinct assms(3) by (simp add: vfs_inv_def)
  then show ?thesis using read_names_ok[OF i assms(2,3), of n] assms(4-6) by (simp add: listing_def)
qed

definition tree6 :: vfs where
  "tree6 = one_mount [0 \<mapsto> dir_inode 1 3 3 [(''a'', 1), (''f'', 3)] None, 1 \<mapsto> dir_inode 2 3 1 [(''b'', 2)] (Some 0),
     2 \<mapsto> dir_inode 3 2 2 [] (Some 1), 3 \<mapsto> file_inode 4 1 2]
     [3 \<mapsto> \<lparr>f_inode = 3, f_fops = Some Tmpfs_file_ops, offset = 0, flags = O_CREAT OR O_WRONLY, f_refcount = 1\<rparr>,
      4 \<mapsto> \<lparr>f_inode = 0, f_fops = None, offset = 0, flags = O_RDONLY, f_refcount = 1\<rparr>] 5"

lemma open_root_eval: "vfs_open ''/'' None O_RDONLY 0 (plenty 4) tree4 = Inr (Inr 4, tree6)"
  by (simp add: tree4_def tree6_def vfs_eval cong: andthen_weak) (simp add: fun_eq_iff)

definition sample_dir :: clients where
  "sample_dir = \<lparr>held = {#2#}, opens = {#3, 4#}, store = tree6\<rparr>"

lemma sample_dir_reach: "files_reach sample_dir"
  unfolding sample_dir_def
  by (rule files_reach.call[OF sample_reach, of "Open ''/'' None O_RDONLY 0 (plenty 4)"])
    (simp_all add: sample_def open_root_eval may_use_def, simp_all add: fresh_def plenty_def tree4_def one_mount_def)

lemma readdir_lists_directory_witness: "\<exists>s'. read_names 9 4 tree6 = Inr ([''.'', ''..'', ''a'', ''f''], s')"
proof -
  have "files (store sample_dir) 4 = Some \<lparr>f_inode = 0, f_fops = None, offset = 0, flags = O_RDONLY, f_refcount = 1\<rparr>"
    "isdir (store sample_dir) 0" "kids (store sample_dir) 0 = [(''a'', 1), (''f'', 3)]" "store sample_dir = tree6"
    by (simp_all add: sample_dir_def tree6_def one_mount_def isdir_def kids_def dir_inode_def S_ISDIR_def)
  then show ?thesis using readdir_lists_directory[OF sample_dir_reach, of 4 _ 9] by auto
qed

text \<open>Name resolution depends on the tree below the start only.\<close>

lemma lookup_result_same:
  assumes w: "walkable s" and v: "kids s' = kids s" "par s' = par s" "mnt s' = mnt s" "cov s' = cov s" "root_inode s' = root_inode s"
    and d: "\<And>i. alive s i \<Longrightarrow> isdir s' i = isdir s i" and cwd: "\<forall>c. cwd = Some c \<longrightarrow> alive s c"
  shows "lookup_result s' path cwd = lookup_result s path cwd"
proof -
  have n: "named s' = named s" by (simp add: fun_eq_iff named_def v)
  have st: "walk_step s' i c = walk_step s i c" if "alive s i" for i c
    unfolding walk_step_def d[OF that] v(4,5) n top_cong[OF v(3)] by (rule refl)
  have r: "resolve s' i cs = resolve s i cs" if "alive s i" for i cs
    using that
  proof (induction cs arbitrary: i)
    case (Cons c cs)
    then show ?case using st[OF Cons.prems, of c] walk_step_alive[OF w Cons.prems, of c] by (auto split: sum.splits)
  qed simp
  obtain i where i: "start_of s path cwd = Some i" "alive s i" using start_alive[OF w cwd] by metis
  have "start_of s' path cwd = Some i" using i(1) unfolding start_of_def v .
  then show ?thesis using i(1) r[OF i(2)] by (simp add: lookup_result_def)
qed

text \<open>
  A mounted file system starts empty, and unmounting it makes every path lead where it led before the
  mount, from every working directory that existed before.
\<close>

theorem mount_then_umount:
  assumes "files_reach h" "fresh A (store h)" "a_mount A"
    and "vfs_mount dev source target fstype A (store h) = Inr (Inr (), s1)"
    and "lookup_result s1 target' None = Inr r" "inodes (store h) r = None" "vfs_umount target' s1 = Inr (Inr (), s2)"
  shows "isdir s1 r \<and> kids s1 r = [] \<and> kids s2 = kids (store h) \<and>
    (\<forall>path cwd. may_use cwd h \<longrightarrow> lookup_result s2 path cwd = lookup_result (store h) path cwd)"
proof -
  define s where "s = store h"
  have w: "well_formed h" by (rule reach_well_formed[OF assms(1)])
  then have inv: "vfs_inv (held h) s" by (simp add: well_formed_def s_def)
  note wk = inv_walkable[OF inv]
  have t: "tree s" using inv by (simp add: vfs_inv_def)
  obtain mp root b where m: "vfs_inv (held h) s1" "mnt s mp = None" "inodes s root = None" "root_inode s1 = root_inode s" "par s1 = par s"
    "kids s1 = kids s" "isdir s1 = (isdir s)(root := True)" "mnt s1 = (mnt s)(mp := Some root)" "cov s1 = (cov s)(root := Some mp)"
    using vfs_mount_ok[OF inv assms(2)[folded s_def] assms(3), of dev source target fstype] assms(4)[folded s_def] by auto
  obtain mp' where u: "mnt s1 mp' = Some r" "root_inode s2 = root_inode s1" "par s2 = par s1" "kids s2 = kids s1" "isdir s2 = isdir s1"
    "mnt s2 = (mnt s1)(mp' := None)" "cov s2 = (cov s1)(r := None)"
    using vfs_umount_ok[OF m(1), of target'] assms(5,7) by auto
  have nr: "inodes s r = None" using assms(6) by (simp add: s_def)
  have "mnt s j \<noteq> Some r" for j
  proof
    assume "mnt s j = Some r"
    then have "alive s r" using wk by (auto simp: walkable_def)
    then show False using nr by (simp add: alive_def)
  qed
  then have mp: "mp' = mp" "r = root" using u(1) by (auto simp: m(8) split: if_splits)
  have "cov s root = None" using m(3) by (simp add: cov_def)
  then have v: "kids s2 = kids s" "par s2 = par s" "mnt s2 = mnt s" "cov s2 = cov s" "root_inode s2 = root_inode s"
    using m u mp by (auto simp: fun_eq_iff)
  have d: "isdir s2 i = isdir s i" if "alive s i" for i using that m(3,7) u(5) by (auto simp: alive_def)
  have "kids s1 r = []" using m(6) nr by (simp add: kids_def)
  moreover have "isdir s1 r" using m(7) mp by simp
  moreover have "lookup_result s2 path cwd = lookup_result s path cwd" if c: "may_use cwd h" for path cwd
    by (rule lookup_result_same[OF wk v d]) (use may_use_alive[OF w c] in \<open>simp_all add: s_def\<close>)
  ultimately show ?thesis using v(1) by (simp add: s_def)
qed

definition root_inode7 :: "inode" where
  "root_inode7 = (dir_inode 5 2 2 [] None)\<lparr>i_sb := Some 5, covered := Some 1\<rparr>"

definition tree7 :: vfs where
  "tree7 = (one_mount [0 \<mapsto> dir_inode 1 3 2 [(''a'', 1), (''f'', 3)] None,
       1 \<mapsto> (dir_inode 2 3 3 [(''b'', 2)] (Some 0))\<lparr>mounted := Some 5\<rparr>,
       2 \<mapsto> dir_inode 3 2 2 [] (Some 1), 3 \<mapsto> file_inode 4 1 2, 5 \<mapsto> root_inode7]
     [3 \<mapsto> \<lparr>f_inode = 3, f_fops = Some Tmpfs_file_ops, offset = 0, flags = O_CREAT OR O_WRONLY, f_refcount = 1\<rparr>] 6)
     \<lparr>next_dev := 3, supers := [0 \<mapsto> \<lparr>s_root = 0, read_only = False, s_dev = 1\<rparr>, 5 \<mapsto> \<lparr>s_root = 5, read_only = False, s_dev = 2\<rparr>],
      mounts := [\<lparr>m_target = ''/'', m_sb = 0, mountpoint = None\<rparr>, \<lparr>m_target = ''/a'', m_sb = 5, mountpoint = Some 1\<rparr>]\<rparr>"

lemma mount_eval: "vfs_mount (\<lambda>_. False) ''none'' ''/a'' ''tmpfs'' (plenty 5) tree4 = Inr (Inr (), tree7)"
  by (simp add: tree4_def tree7_def root_inode7_def vfs_mount_def tmpfs_create_sb_def vfs_eval cong: andthen_weak) (simp add: fun_eq_iff)

definition tree10 :: vfs where
  "tree10 = (one_mount [0 \<mapsto> dir_inode 1 3 2 [(''a'', 1), (''f'', 3)] None, 1 \<mapsto> dir_inode 2 3 1 [(''b'', 2)] (Some 0),
       2 \<mapsto> dir_inode 3 2 2 [] (Some 1), 3 \<mapsto> file_inode 4 1 2, 5 \<mapsto> (dir_inode 5 2 1 [] None)\<lparr>i_sb := Some 5\<rparr>]
     [3 \<mapsto> \<lparr>f_inode = 3, f_fops = Some Tmpfs_file_ops, offset = 0, flags = O_CREAT OR O_WRONLY, f_refcount = 1\<rparr>] 6)
     \<lparr>next_dev := 3, supers := [0 \<mapsto> \<lparr>s_root = 0, read_only = False, s_dev = 1\<rparr>, 5 \<mapsto> \<lparr>s_root = 5, read_only = False, s_dev = 2\<rparr>]\<rparr>"

lemma umount_eval: "vfs_umount ''/a'' tree7 = Inr (Inr (), tree10)"
  by (simp add: tree7_def tree10_def root_inode7_def vfs_umount_def mount_of_def follow_mounts_def follow_loop.simps vfs_eval cong: andthen_weak)
    (simp add: fun_eq_iff)

lemma mount_then_umount_witness:
  "kids tree7 5 = [] \<and> lookup_result tree10 ''/a/b'' None = lookup_result tree4 ''/a/b'' None \<and> store sample = tree4"
proof -
  have s: "store sample = tree4" by (simp add: sample_def)
  have "mnt tree7 = [1 \<mapsto> 5]" by (simp add: fun_eq_iff mnt_def tree7_def root_inode7_def one_mount_def dir_inode_def file_inode_def)
  then have "top tree7 1 = Some 5" using top_here[of tree7 5] by (subst top.simps) simp
  moreover have "components ''/a'' = [''a'']" by code_simp
  moreover have "kids tree7 0 = [(''a'', 1), (''f'', 3)]" "isdir tree7 0" "root_inode tree7 = Some 0"
    by (simp_all add: kids_def isdir_def tree7_def one_mount_def dir_inode_def S_ISDIR_def)
  ultimately have "lookup_result tree7 ''/a'' None = Inr 5"
    by (simp add: lookup_result_def start_of_def walk_step_def named_def Let_def)
  moreover have "fresh (plenty 5) (store sample)" "a_mount (plenty 5)" "inodes (store sample) 5 = None"
    by (simp_all add: s fresh_def plenty_def tree4_def one_mount_def)
  moreover have "may_use None sample" by (simp add: may_use_def)
  ultimately show ?thesis using mount_then_umount[OF sample_reach] mount_eval umount_eval s by metis
qed

text \<open>
  C21. A directory that somebody still holds can be removed, and then its parent: looking up \<^verbatim>\<open>..\<close> from the held
  directory follows a pointer to the freed parent. The removed directory does not count its reference to it.
  The states after the first removal are those that \<open>files_reach\<close>, and with it the properties above, leave out.
\<close>

theorem removed_directory_dangles:
  "\<exists>h h1 h2. files_reach h \<and> valid (Rmdir ''/a/b'' None) h \<and> perform (Rmdir ''/a/b'' None) h = Inr h1 \<and>
     valid (Rmdir ''/a'' None) h1 \<and> perform (Rmdir ''/a'' None) h1 = Inr h2 \<and> 2 \<in># held h2 \<and>
     valid (Lookup ''..'' (Some 2)) h2 \<and> perform (Lookup ''..'' (Some 2)) h2 = Inl Use_after_free"
proof -
  have "perform (Rmdir ''/a/b'' None) sample = Inr (sample\<lparr>store := tree8\<rparr>)"
    "perform (Rmdir ''/a'' None) (sample\<lparr>store := tree8\<rparr>) = Inr (sample\<lparr>store := tree9\<rparr>)"
    "perform (Lookup ''..'' (Some 2)) (sample\<lparr>store := tree9\<rparr>) = Inl Use_after_free"
    by (simp_all add: sample_def plain_def rmdir_eval dangling_eval)
  moreover have "2 \<in># held (sample\<lparr>store := tree9\<rparr>)" by (simp add: sample_def)
  ultimately show ?thesis using sample_reach by (force simp: may_use_def)
qed

end
