(* ===== verification/Block.thy ===== *)
theory Block
  imports Kprintf Path Bytes
begin

text \<open>
  Disks, partitions and the buffer cache: \<^verbatim>\<open>kernel/fs/block.c\<close>. A block device is named by its address; the
  contents of a whole disk is a function from sector numbers to bytes. The driver of a disk is a parameter:
  \<open>faults n\<close> tells whether its \<open>n\<close>-th call fails and moves nothing; a call that does not fail moves the sectors asked for. Every
  call of a driver is recorded. The results of the allocator are arguments. Not modelled: the nodes that
  \<^verbatim>\<open>devfs_add_block\<close> makes for a device, and the messages.
\<close>

section \<open>Data\<close>

abbreviation SECTOR :: nat where "SECTOR \<equiv> 512"
abbreviation BCACHE_MAX :: int where "BCACHE_MAX \<equiv> 1024"
abbreviation MAJOR_SD :: u32 where "MAJOR_SD \<equiv> 8"

record block_device =
  bd_name :: string
  sectors :: u64
  sector_size :: u32
  bd_parent :: "nat option"
  bd_start :: u64
  bd_dev :: u32

record buf =
  buf_bd :: nat
  buf_block :: u64
  buf_size :: u32
  buf_data :: "u8 list"
  buf_valid :: bool
  buf_refcount :: int

record driver_call =
  on_disk :: nat
  at_lba :: u64
  n_sectors :: u32
  writes :: bool

record blk =
  devs :: "nat \<Rightarrow> block_device option"
  disks :: "nat list"
  media :: "nat \<Rightarrow> nat \<Rightarrow> u8 list"
  driver_calls :: "driver_call list"
  bufs :: "nat \<Rightarrow> buf option"
  lru :: "nat list"
  bcache_count :: int
  next_sd :: int

datatype blk_panic = No_device | No_buffer | Divide_error | Endless_parents

type_synonym 'a blk_result = "blk_panic + 'a \<times> blk"

definition MKDEV :: "u32 \<Rightarrow> u32 \<Rightarrow> u32" where
  "MKDEV ma mi = push_bit 20 ma OR mi"

definition find_dev :: "nat \<Rightarrow> blk \<Rightarrow> blk_panic + block_device" where
  "find_dev bd s = (case devs s bd of None \<Rightarrow> Inl No_device | Some d \<Rightarrow> Inr d)"

section \<open>Sectors\<close>

text \<open>From a partition to the whole disk.\<close>

partial_function (option) to_disk :: "nat \<Rightarrow> u64 \<Rightarrow> blk \<Rightarrow> (blk_panic + nat \<times> u64) option" where
  "to_disk bd lba s =
     (case devs s bd of
        None \<Rightarrow> Some (Inl No_device)
      | Some d \<Rightarrow> (case bd_parent d of None \<Rightarrow> Some (Inr (bd, lba)) | Some p \<Rightarrow> to_disk p (lba + bd_start d) s))"

definition get_sectors :: "nat \<Rightarrow> nat \<Rightarrow> nat \<Rightarrow> blk \<Rightarrow> u8 list" where
  "get_sectors disk lba n s = concat (map (media s disk) [lba..<lba + n])"

definition put_sectors :: "nat \<Rightarrow> nat \<Rightarrow> nat \<Rightarrow> u8 list \<Rightarrow> blk \<Rightarrow> blk" where
  "put_sectors disk lba n bytes s =
     s\<lparr>media := (media s)(disk := (\<lambda>i. if lba \<le> i \<and> i < lba + n then take SECTOR (drop (SECTOR * (i - lba)) bytes) else media s disk i))\<rparr>"

text \<open>A call of the driver: the bytes it reads, or \<open>None\<close> on an error. \<open>bytes\<close> is what to write, if it is a write.\<close>

definition driver :: "(nat \<Rightarrow> bool) \<Rightarrow> nat \<Rightarrow> u64 \<Rightarrow> u32 \<Rightarrow> u8 list option \<Rightarrow> blk \<Rightarrow> u8 list option \<times> blk" where
  "driver faults disk lba n bytes s =
     (let k = length (driver_calls s);
          s = s\<lparr>driver_calls := \<lparr>on_disk = disk, at_lba = lba, n_sectors = n, writes = (bytes \<noteq> None)\<rparr> # driver_calls s\<rparr>
      in if faults k then (None, s)
         else
           (case bytes of
              None \<Rightarrow> (Some (get_sectors disk (unat lba) (unat n) s), s)
            | Some bs \<Rightarrow> (Some [], put_sectors disk (unat lba) (unat n) bs s)))"

definition blk_rw :: "(nat \<Rightarrow> bool) \<Rightarrow> nat \<Rightarrow> u64 \<Rightarrow> u32 \<Rightarrow> u8 list option \<Rightarrow> blk \<Rightarrow> (errno + u8 list) blk_result" where
  "blk_rw faults bd lba n bytes s =
     (if n = 0 then Inr (Inr [], s)
      else
        andthen (find_dev bd s) (\<lambda>d.
          if lba + ucast n < lba \<or> lba + ucast n > sectors d then Inr (Inl EINVAL, s)
          else
            (case to_disk bd lba s of
               None \<Rightarrow> Inl Endless_parents
             | Some (Inl e) \<Rightarrow> Inl e
             | Some (Inr (disk, lba)) \<Rightarrow>
                 (case driver faults disk lba n bytes s of
                    (None, s) \<Rightarrow> Inr (Inl EIO, s)
                  | (Some r, s) \<Rightarrow> Inr (Inr r, s)))))"

definition blk_read :: "(nat \<Rightarrow> bool) \<Rightarrow> nat \<Rightarrow> u64 \<Rightarrow> u32 \<Rightarrow> blk \<Rightarrow> (errno + u8 list) blk_result" where
  "blk_read faults bd lba n s = blk_rw faults bd lba n None s"

definition blk_write :: "(nat \<Rightarrow> bool) \<Rightarrow> nat \<Rightarrow> u64 \<Rightarrow> u32 \<Rightarrow> u8 list \<Rightarrow> blk \<Rightarrow> (errno + u8 list) blk_result" where
  "blk_write faults bd lba n bytes s = blk_rw faults bd lba n (Some bytes) s"

section \<open>Partitions\<close>

text \<open>A field of a structure in a sector.\<close>

definition field :: "nat \<Rightarrow> nat \<Rightarrow> u8 list \<Rightarrow> 'a::len word" where
  "field at n bs = of_bytes (take n (drop at bs))"

text \<open>The name of a partition: a disk that ends in a digit gets a \<open>p\<close> before the number. Names are not empty.\<close>

definition partition_name :: "string \<Rightarrow> nat \<Rightarrow> string" where
  "partition_name name num =
     (let fmt = (if name \<noteq> [] \<and> last name \<in> set ''0123456789'' then ''%sp%d'' else ''%s%d'')
      in case kvsnprintf (replicate 32 NUL) 32 fmt [Va_str (Some name), Va_int (of_nat num)] of None \<Rightarrow> [] | Some (b, _) \<Rightarrow> cstring b)"

definition add_partition :: "nat option \<Rightarrow> nat \<Rightarrow> nat \<Rightarrow> u64 \<Rightarrow> u64 \<Rightarrow> blk \<Rightarrow> unit blk_result" where
  "add_partition alloc disk num start n s =
     andthen (find_dev disk s) (\<lambda>d.
       if start \<ge> sectors d \<or> n = 0 \<or> start + n > sectors d then Inr ((), s)
       else
         (case alloc of
            None \<Rightarrow> Inr ((), s)
          | Some p \<Rightarrow>
              Inr ((), s\<lparr>devs := (devs s)(p \<mapsto>
                  \<lparr>bd_name = partition_name (bd_name d) num, sectors = n, sector_size = sector_size d, bd_parent = Some disk,
                   bd_start = start, bd_dev = bd_dev d + of_nat num\<rparr>),
                disks := disks s @ [p]\<rparr>)))"

text \<open>
  The entries of a GPT. \<open>rest\<close> entries are left, \<open>i\<close> is the index of the next one and \<open>sec\<close> the sector buffer;
  the sector of an entry is read when the first entry in it is reached.
\<close>

record gpt_header =
  signature :: "u8 list"
  entries_lba :: u64
  num_entries :: u32
  entry_size :: u32

definition gpt_header_of :: "u8 list \<Rightarrow> gpt_header" where
  "gpt_header_of bs = \<lparr>signature = take 8 bs, entries_lba = field 72 8 bs, num_entries = field 80 4 bs, entry_size = field 84 4 bs\<rparr>"

record gpt_entry =
  type_guid :: "u8 list"
  first_lba :: u64
  last_lba :: u64

definition gpt_entry_of :: "u8 list \<Rightarrow> gpt_entry" where
  "gpt_entry_of bs = \<lparr>type_guid = take 16 bs, first_lba = field 32 8 bs, last_lba = field 40 8 bs\<rparr>"

primrec gpt_loop :: "(nat \<Rightarrow> nat option) \<Rightarrow> (nat \<Rightarrow> bool) \<Rightarrow> nat \<Rightarrow> gpt_header \<Rightarrow> nat \<Rightarrow> nat \<Rightarrow> nat \<Rightarrow> u8 list \<Rightarrow> blk \<Rightarrow> unit blk_result" where
  "gpt_loop alloc faults disk h 0 i num sec s = Inr ((), s)"
| "gpt_loop alloc faults disk h (Suc rest) i num sec s =
     (let per_sector = unat (512 div entry_size h) in
      if per_sector = 0 then Inl Divide_error
      else
        andthen (if i mod per_sector = 0 then blk_read faults disk (entries_lba h + of_nat (i div per_sector)) 1 s else Inr (Inr sec, s))
          (\<lambda>(r, s).
            case r of
              Inl e \<Rightarrow> Inr ((), s)
            | Inr sec \<Rightarrow>
                (let e = gpt_entry_of (take 128 (drop ((i mod per_sector) * unat (entry_size h)) sec)) in
                 andthen (if (\<exists>b\<in>set (type_guid e). b \<noteq> 0) \<and> last_lba e \<ge> first_lba e
                          then add_partition (alloc num) disk num (first_lba e) (last_lba e - first_lba e + 1) s
                          else Inr ((), s)) (\<lambda>(_, s).
                   gpt_loop alloc faults disk h rest (i + 1) (num + 1) sec s))))"

definition scan_gpt :: "(nat \<Rightarrow> nat option) \<Rightarrow> (nat \<Rightarrow> bool) \<Rightarrow> nat \<Rightarrow> blk \<Rightarrow> unit blk_result" where
  "scan_gpt alloc faults disk s =
     andthen (blk_read faults disk 1 1 s) (\<lambda>(r, s).
       case r of
         Inl e \<Rightarrow> Inr ((), s)
       | Inr sec \<Rightarrow>
           (let h = gpt_header_of sec in
            if signature h \<noteq> map (\<lambda>c. of_nat (of_char c)) ''EFI PART'' \<or> entry_size h < 128 \<or> num_entries h > 256 then Inr ((), s)
            else gpt_loop alloc faults disk h (unat (num_entries h)) 0 1 sec s))"

record mbr_entry =
  mbr_type :: u8
  lba_start :: u32
  mbr_sectors :: u32

definition mbr_entry_of :: "u8 list \<Rightarrow> nat \<Rightarrow> mbr_entry" where
  "mbr_entry_of sec i =
     (let e = drop (446 + 16 * i) sec in \<lparr>mbr_type = field 4 1 e, lba_start = field 8 4 e, mbr_sectors = field 12 4 e\<rparr>)"

fun mbr_loop :: "(nat \<Rightarrow> nat option) \<Rightarrow> nat \<Rightarrow> nat \<Rightarrow> mbr_entry list \<Rightarrow> blk \<Rightarrow> unit blk_result" where
  "mbr_loop alloc disk i [] s = Inr ((), s)"
| "mbr_loop alloc disk i (e # es) s =
     andthen (if mbr_type e \<noteq> 0 \<and> mbr_sectors e \<noteq> 0
              then add_partition (alloc (i + 1)) disk (i + 1) (ucast (lba_start e)) (ucast (mbr_sectors e)) s
              else Inr ((), s)) (\<lambda>(_, s). mbr_loop alloc disk (i + 1) es s)"

text \<open>\<open>buffer\<close> tells whether the sector buffer was allocated.\<close>

definition scan_partitions :: "bool \<Rightarrow> (nat \<Rightarrow> nat option) \<Rightarrow> (nat \<Rightarrow> bool) \<Rightarrow> nat \<Rightarrow> blk \<Rightarrow> unit blk_result" where
  "scan_partitions buffer alloc faults disk s =
     (if \<not> buffer then Inr ((), s)
      else
        andthen (blk_read faults disk 0 1 s) (\<lambda>(r, s).
          case r of
            Inl e \<Rightarrow> Inr ((), s)
          | Inr sec \<Rightarrow>
              if sec ! 510 \<noteq> 0x55 \<or> sec ! 511 \<noteq> 0xAA then Inr ((), s)
              else if mbr_type (mbr_entry_of sec 0) = 0xEE then scan_gpt alloc faults disk s
              else mbr_loop alloc disk 0 (map (mbr_entry_of sec) [0..<4]) s))"

section \<open>The list of devices\<close>

definition blkdev_assign_sd :: "nat \<Rightarrow> blk \<Rightarrow> blk_panic + blk" where
  "blkdev_assign_sd bd s =
     andthen (find_dev bd s) (\<lambda>d.
       (let idx = next_sd s;
            name = (case kvsnprintf (replicate 32 NUL) 32 ''sd%c'' [Va_int (word_of_int (97 + idx mod 26))] of
                      None \<Rightarrow> [] | Some (b, _) \<Rightarrow> cstring b)
        in Inr (s\<lparr>next_sd := idx + 1, devs := (devs s)(bd \<mapsto> d\<lparr>bd_name := name, bd_dev := MKDEV MAJOR_SD (word_of_int (idx * 16))\<rparr>)\<rparr>)))"

definition blkdev_register :: "bool \<Rightarrow> (nat \<Rightarrow> nat option) \<Rightarrow> (nat \<Rightarrow> bool) \<Rightarrow> nat \<Rightarrow> blk \<Rightarrow> unit blk_result" where
  "blkdev_register buffer alloc faults bd s =
     andthen (find_dev bd s) (\<lambda>d.
       scan_partitions buffer alloc faults bd
         (s\<lparr>devs := (devs s)(bd \<mapsto> (if sector_size d = 0 then d\<lparr>sector_size := 512\<rparr> else d)), disks := disks s @ [bd]\<rparr>))"

definition blkdev_find :: "string \<Rightarrow> blk \<Rightarrow> nat option" where
  "blkdev_find name s = find (\<lambda>bd. map_option bd_name (devs s bd) = Some name) (disks s)"

definition blkdev_get :: "nat \<Rightarrow> blk \<Rightarrow> nat option" where
  "blkdev_get index s = (if index < length (disks s) then Some (disks s ! index) else None)"

definition file_bdev :: "u32 \<Rightarrow> blk \<Rightarrow> nat option" where
  "file_bdev rdev s = find (\<lambda>bd. map_option bd_dev (devs s bd) = Some rdev) (disks s)"

section \<open>Device files\<close>

text \<open>
  The loop over the bytes of a device: \<open>bytes\<close> is the caller's buffer, \<open>len\<close> what is left of the request
  after cutting it at the end of the device. A sector that is written in part is read first.
\<close>

definition splice :: "nat \<Rightarrow> 'a list \<Rightarrow> 'a list \<Rightarrow> 'a list" where
  "splice i xs ys = take i ys @ xs @ drop (i + length xs) ys"

definition rw_chunk :: "(nat \<Rightarrow> bool) \<Rightarrow> nat \<Rightarrow> bool \<Rightarrow> nat \<Rightarrow> nat \<Rightarrow> nat \<Rightarrow> nat \<Rightarrow> u8 list \<Rightarrow> u8 list \<Rightarrow> blk \<Rightarrow>
    (errno + u8 list \<times> u8 list) blk_result" where
  "rw_chunk faults bd write lba inside n at bytes sec s =
     andthen (if \<not> write \<or> n \<noteq> SECTOR then blk_read faults bd (of_nat lba) 1 s else Inr (Inr sec, s)) (\<lambda>(r, s).
       case r of
         Inl e \<Rightarrow> Inr (Inl e, s)
       | Inr sec \<Rightarrow>
           if write then
             (let sec = splice inside (take n (drop at bytes)) sec in
              andthen (blk_write faults bd (of_nat lba) 1 sec s) (\<lambda>(r, s).
                case r of Inl e \<Rightarrow> Inr (Inl e, s) | Inr _ \<Rightarrow> Inr (Inr (bytes, sec), s)))
           else Inr (Inr (splice at (take n (drop inside sec)) bytes, sec), s))"

function bdev_loop :: "(nat \<Rightarrow> bool) \<Rightarrow> nat \<Rightarrow> bool \<Rightarrow> nat \<Rightarrow> nat \<Rightarrow> nat \<Rightarrow> u8 list \<Rightarrow> u8 list \<Rightarrow> blk \<Rightarrow>
    (nat \<times> errno option \<times> u8 list) blk_result" where
  "bdev_loop faults bd write len off finished bytes sec s =
     (if \<not> finished < len then Inr ((finished, None, bytes), s)
      else
        (let pos = off + finished; inside = pos mod SECTOR; n = min (len - finished) (SECTOR - inside) in
         case rw_chunk faults bd write (pos div SECTOR) inside n finished bytes sec s of
           Inl e \<Rightarrow> Inl e
         | Inr (Inl e, s) \<Rightarrow> Inr ((finished, Some e, bytes), s)
         | Inr (Inr (bytes, sec), s) \<Rightarrow> bdev_loop faults bd write len off (finished + n) bytes sec s))"
  by pat_completeness auto
termination
  by (relation "measure (\<lambda>(_, _, _, len, _, finished, _). len - finished)") auto

declare bdev_loop.simps [simp del]

text \<open>The result is the number of bytes moved, or an error if there were none, and the caller's buffer.\<close>

definition bdev_rw :: "(nat \<Rightarrow> bool) \<Rightarrow> u32 \<Rightarrow> bool \<Rightarrow> u64 \<Rightarrow> u64 \<Rightarrow> u8 list \<Rightarrow> u8 list option \<Rightarrow> blk \<Rightarrow>
    ((errno + nat) \<times> u8 list) blk_result" where
  "bdev_rw faults rdev write len off bytes alloc s =
     (case file_bdev rdev s of
        None \<Rightarrow> Inr ((Inl ENXIO, bytes), s)
      | Some bd \<Rightarrow>
          andthen (find_dev bd s) (\<lambda>d.
            (let total = sectors d * 512 in
             if off \<ge> total then Inr ((Inr 0, bytes), s)
             else
               (case alloc of
                  None \<Rightarrow> Inr ((Inl ENOMEM, bytes), s)
                | Some sec \<Rightarrow>
                    andthen (bdev_loop faults bd write (unat (min len (total - off))) (unat off) 0 bytes sec s) (\<lambda>((finished, err, bytes), s).
                      Inr ((if finished \<noteq> 0 then Inr finished else case err of None \<Rightarrow> Inr 0 | Some e \<Rightarrow> Inl e, bytes), s))))))"

section \<open>The buffer cache\<close>

definition matches :: "nat \<Rightarrow> u64 \<Rightarrow> u32 \<Rightarrow> blk \<Rightarrow> nat \<Rightarrow> bool" where
  "matches bd k sz s b \<longleftrightarrow> (case bufs s b of None \<Rightarrow> False | Some x \<Rightarrow> buf_bd x = bd \<and> buf_block x = k \<and> buf_size x = sz)"

definition unused :: "blk \<Rightarrow> nat \<Rightarrow> bool" where
  "unused s b \<longleftrightarrow> (case bufs s b of None \<Rightarrow> False | Some x \<Rightarrow> buf_refcount x = 0)"

definition upd_buf :: "nat \<Rightarrow> (buf \<Rightarrow> buf) \<Rightarrow> blk \<Rightarrow> blk" where
  "upd_buf b f s = s\<lparr>bufs := (bufs s)(b := map_option f (bufs s b))\<rparr>"

text \<open>The buffer that is not in use and was used least recently.\<close>

definition find_victim :: "blk \<Rightarrow> nat option" where
  "find_victim s = (if bcache_count s \<ge> BCACHE_MAX then find (unused s) (rev (lru s)) else None)"

text \<open>
  \<^verbatim>\<open>bget\<close> is two critical sections with allocations between them. The first one finds the block in the cache or
  reuses a buffer of the same size; a victim of another size is taken out and freed.
\<close>

definition bget_find :: "nat \<Rightarrow> u64 \<Rightarrow> u32 \<Rightarrow> blk \<Rightarrow> nat option \<times> blk" where
  "bget_find bd k sz s =
     (case find (matches bd k sz s) (lru s) of
        Some b \<Rightarrow> (Some b, (upd_buf b (\<lambda>x. x\<lparr>buf_refcount := buf_refcount x + 1\<rparr>) s)\<lparr>lru := b # remove1 b (lru s)\<rparr>)
      | None \<Rightarrow>
          (case find_victim s of
             None \<Rightarrow> (None, s)
           | Some v \<Rightarrow>
               if map_option buf_size (bufs s v) = Some sz
               then (Some v, (upd_buf v (\<lambda>x. x\<lparr>buf_bd := bd, buf_block := k, buf_valid := False, buf_refcount := 1\<rparr>) s)
                               \<lparr>lru := v # remove1 v (lru s)\<rparr>)
               else (None, s\<lparr>lru := remove1 v (lru s), bcache_count := bcache_count s - 1, bufs := (bufs s)(v := None)\<rparr>)))"

text \<open>The second one adds the new buffer, unless the block has come into the cache in between.\<close>

definition bget_add :: "nat \<Rightarrow> u8 list \<Rightarrow> nat \<Rightarrow> u64 \<Rightarrow> u32 \<Rightarrow> blk \<Rightarrow> nat \<times> blk" where
  "bget_add b bytes bd k sz s =
     (case find (matches bd k sz s) (lru s) of
        Some c \<Rightarrow> (c, upd_buf c (\<lambda>x. x\<lparr>buf_refcount := buf_refcount x + 1\<rparr>) s)
      | None \<Rightarrow>
          (b, s\<lparr>bufs := (bufs s)(b \<mapsto> \<lparr>buf_bd = bd, buf_block = k, buf_size = sz, buf_data = bytes, buf_valid = False, buf_refcount = 1\<rparr>),
                 lru := b # lru s, bcache_count := bcache_count s + 1\<rparr>))"

text \<open>\<open>alloc\<close>: the address and the contents of the new buffer, if there is memory for it.\<close>

definition bget :: "(nat \<times> u8 list) option \<Rightarrow> nat \<Rightarrow> u64 \<Rightarrow> u32 \<Rightarrow> blk \<Rightarrow> nat option \<times> blk" where
  "bget alloc bd k sz s =
     (case bget_find bd k sz s of
        (Some b, s) \<Rightarrow> (Some b, s)
      | (None, s) \<Rightarrow>
          (case alloc of
             None \<Rightarrow> (None, s)
           | Some (b, bytes) \<Rightarrow> (case bget_add b bytes bd k sz s of (b, s) \<Rightarrow> (Some b, s))))"

definition brelse :: "nat \<Rightarrow> blk \<Rightarrow> blk_panic + blk" where
  "brelse b s = (case bufs s b of None \<Rightarrow> Inl No_buffer | Some x \<Rightarrow> Inr (upd_buf b (\<lambda>x. x\<lparr>buf_refcount := buf_refcount x - 1\<rparr>) s))"

text \<open>What \<^verbatim>\<open>bread\<close> does with the buffer, locked: the data comes from the disk if the buffer has not got it.\<close>

definition fill_buf :: "(nat \<Rightarrow> bool) \<Rightarrow> nat \<Rightarrow> nat \<Rightarrow> u64 \<Rightarrow> u32 \<Rightarrow> blk \<Rightarrow> bool blk_result" where
  "fill_buf faults b bd k sz s =
     (case bufs s b of
        None \<Rightarrow> Inl No_buffer
      | Some x \<Rightarrow>
          if buf_valid x then Inr (True, s)
          else
            andthen (blk_read faults bd (k * ucast (sz div 512)) (sz div 512) s) (\<lambda>(r, s).
              case r of
                Inl e \<Rightarrow> andthen (brelse b s) (\<lambda>s. Inr (False, s))
              | Inr bytes \<Rightarrow> Inr (True, upd_buf b (\<lambda>x. x\<lparr>buf_data := splice 0 bytes (buf_data x), buf_valid := True\<rparr>) s)))"

definition bread :: "(nat \<times> u8 list) option \<Rightarrow> (nat \<Rightarrow> bool) \<Rightarrow> nat \<Rightarrow> u64 \<Rightarrow> u32 \<Rightarrow> blk \<Rightarrow> nat option blk_result" where
  "bread alloc faults bd k sz s =
     (case bget alloc bd k sz s of
        (None, s) \<Rightarrow> Inr (None, s)
      | (Some b, s) \<Rightarrow> andthen (fill_buf faults b bd k sz s) (\<lambda>(ok, s). Inr (if ok then Some b else None, s)))"

definition bwrite :: "(nat \<Rightarrow> bool) \<Rightarrow> nat \<Rightarrow> blk \<Rightarrow> (errno + unit) blk_result" where
  "bwrite faults b s =
     (case bufs s b of
        None \<Rightarrow> Inl No_buffer
      | Some x \<Rightarrow>
          andthen (blk_write faults (buf_bd x) (buf_block x * ucast (buf_size x div 512)) (buf_size x div 512) (buf_data x) s) (\<lambda>(r, s).
            Inr (case r of Inl e \<Rightarrow> Inl e | Inr _ \<Rightarrow> Inr (), s)))"

definition bcache_invalidate :: "nat \<Rightarrow> blk \<Rightarrow> blk" where
  "bcache_invalidate bd s =
     s\<lparr>bufs := (\<lambda>b. map_option (\<lambda>x. if b \<in> set (lru s) \<and> buf_bd x = bd \<and> buf_refcount x = 0 then x\<lparr>buf_valid := False\<rparr> else x) (bufs s b))\<rparr>"

end
