(* ===== verification/Block_Proofs.thy ===== *)
theory Block_Proofs
  imports Block
begin

text \<open>
  Disks and partitions. While every partition lies inside its disk, each call of a driver stays inside the
  partition asked for; partitions from an MBR always do. The entries of a GPT are added with wrapping
  arithmetic, and a partition that wraps gives access to sectors beyond the disk.
\<close>

section \<open>Bounds\<close>

lemma unat_count: "unat (ucast (n :: u32) :: u64) = unat n" "unat (n :: u32) < 2 ^ 32"
proof -
  show u: "unat n < 2 ^ 32" by (rule unat_lt_32)
  then have "unat n < 2 ^ 64" by simp
  then show "unat (ucast n :: u64) = unat n" by (simp add: unsigned_ucast_eq take_bit_nat_eq_self)
qed

lemma bounds_check: "lba + ucast (n :: u32) < lba \<or> lba + ucast n > m \<longleftrightarrow> unat lba + unat n > unat (m :: u64)"
proof (cases "unat lba + unat n < 2 ^ 64")
  case True
  then have "unat (lba + ucast n) = unat lba + unat n" by (simp add: unat_word_ariths unat_count)
  then show ?thesis by (auto simp: word_less_nat_alt)
next
  case False
  have "(unat lba + unat n) mod 2 ^ 64 = unat lba + unat n - 2 ^ 64"
    using False unat_lt_64[of lba] unat_count(2)[of n] by (subst le_mod_geq) auto
  then have "unat (lba + ucast n) < unat lba"
    using False unat_count(2)[of n] unat_lt_64[of lba] by (simp add: unat_word_ariths unat_count)
  then show ?thesis using False unat_lt_64[of m] by (auto simp: word_less_nat_alt)
qed

text \<open>Where a device begins on its disk.\<close>

definition disk_of :: "blk \<Rightarrow> nat \<Rightarrow> nat" where
  "disk_of s bd = (case devs s bd of None \<Rightarrow> bd | Some d \<Rightarrow> (case bd_parent d of None \<Rightarrow> bd | Some p \<Rightarrow> p))"

definition first_of :: "blk \<Rightarrow> nat \<Rightarrow> nat" where
  "first_of s bd = (case devs s bd of None \<Rightarrow> 0 | Some d \<Rightarrow> (case bd_parent d of None \<Rightarrow> 0 | Some p \<Rightarrow> unat (bd_start d)))"

definition size_of :: "blk \<Rightarrow> nat \<Rightarrow> nat" where
  "size_of s bd = (case devs s bd of None \<Rightarrow> 0 | Some d \<Rightarrow> unat (sectors d))"

definition devices_ok :: "blk \<Rightarrow> bool" where
  "devices_ok s \<longleftrightarrow> (\<forall>bd d p. devs s bd = Some d \<and> bd_parent d = Some p \<longrightarrow>
     (\<exists>pd. devs s p = Some pd \<and> bd_parent pd = None \<and> unat (bd_start d) + unat (sectors d) \<le> unat (sectors pd)))"

lemma devices_okD: "devices_ok s \<Longrightarrow> devs s bd = Some d \<Longrightarrow> bd_parent d = Some p \<Longrightarrow>
    \<exists>pd. devs s p = Some pd \<and> bd_parent pd = None \<and> unat (bd_start d) + unat (sectors d) \<le> unat (sectors pd)"
  unfolding devices_ok_def by blast

lemma inside_disk: "devices_ok s \<Longrightarrow> devs s bd = Some d \<Longrightarrow> first_of s bd + size_of s bd \<le> size_of s (disk_of s bd)"
  by (cases "bd_parent d") (auto simp: first_of_def size_of_def disk_of_def dest: devices_okD)

lemma to_disk_ok:
  assumes "devices_ok s" "devs s bd = Some d" "unat lba < unat (sectors d)"
  shows "to_disk bd lba s = Some (Inr (disk_of s bd, of_nat (first_of s bd + unat lba)))"
proof (cases "bd_parent d")
  case None
  then show ?thesis using assms(2) by (subst to_disk.simps) (simp add: disk_of_def first_of_def)
next
  case (Some p)
  obtain pd where "devs s p = Some pd" "bd_parent pd = None" using devices_okD[OF assms(1,2) Some] by blast
  then show ?thesis
    using assms(2) Some by (subst to_disk.simps, simp, subst to_disk.simps) (simp add: disk_of_def first_of_def add.commute)
qed

text \<open>The one call of the driver, at the place of the sectors on the disk.\<close>

lemma blk_rw_ok:
  assumes "devices_ok s" "devs s bd = Some d" "n \<noteq> 0"
  shows "blk_rw faults bd lba n bytes s =
    (if unat lba + unat n > unat (sectors d) then Inr (Inl EINVAL, s)
     else
       (case driver faults (disk_of s bd) (of_nat (first_of s bd + unat lba)) n bytes s of
          (None, s) \<Rightarrow> Inr (Inl EIO, s)
        | (Some r, s) \<Rightarrow> Inr (Inr r, s)))"
proof (cases "unat lba + unat n > unat (sectors d)")
  case True
  then show ?thesis using assms(2,3) bounds_check[of lba n "sectors d"] by (simp add: blk_rw_def find_dev_def)
next
  case False
  have "0 < unat n" using assms(3) by (simp add: unat_gt_0)
  then have "unat lba < unat (sectors d)" using False by linarith
  from to_disk_ok[OF assms(1,2) this] False show ?thesis
    using assms(2,3) bounds_check[of lba n "sectors d"] by (simp add: blk_rw_def find_dev_def)
qed

lemma driver_logs:
  "driver_calls (snd (driver faults disk lba n bytes s)) = \<lparr>on_disk = disk, at_lba = lba, n_sectors = n, writes = (bytes \<noteq> None)\<rparr> # driver_calls s"
  "devs (snd (driver faults disk lba n bytes s)) = devs s" "disks (snd (driver faults disk lba n bytes s)) = disks s"
  "bufs (snd (driver faults disk lba n bytes s)) = bufs s" "lru (snd (driver faults disk lba n bytes s)) = lru s"
  "bcache_count (snd (driver faults disk lba n bytes s)) = bcache_count s" "next_sd (snd (driver faults disk lba n bytes s)) = next_sd s"
  by (simp_all add: driver_def Let_def put_sectors_def split: option.splits)

lemma blk_rw_confined:
  assumes "devices_ok s" "devs s bd = Some d"
  shows "\<exists>r s'. blk_rw faults bd lba n bytes s = Inr (r, s') \<and> devs s' = devs s \<and> disks s' = disks s \<and>
    (s' = s \<or> (\<exists>c. driver_calls s' = c # driver_calls s \<and> on_disk c = disk_of s bd \<and>
       first_of s bd \<le> unat (at_lba c) \<and> unat (at_lba c) + unat (n_sectors c) \<le> first_of s bd + unat (sectors d)))"
proof (cases "n = 0 \<or> unat lba + unat n > unat (sectors d)")
  case True
  then show ?thesis using blk_rw_ok[OF assms, of n] by (cases "n = 0") (auto simp: blk_rw_def)
next
  case False
  let ?a = "of_nat (first_of s bd + unat lba) :: u64"
  have "first_of s bd + unat (sectors d) \<le> size_of s (disk_of s bd)"
    using inside_disk[OF assms] assms(2) by (simp add: size_of_def)
  also have "\<dots> < 2 ^ 64" using unat_lt_64 by (auto simp: size_of_def split: option.splits)
  finally have "first_of s bd + unat lba < 2 ^ 64" using False by linarith
  then have "unat ?a = first_of s bd + unat lba" by (simp only: unat_of_nat) simp
  moreover obtain r s' where d: "driver faults (disk_of s bd) ?a n bytes s = (r, s')" by (cases "driver faults (disk_of s bd) ?a n bytes s")
  moreover have "blk_rw faults bd lba n bytes s = (case r of None \<Rightarrow> Inr (Inl EIO, s') | Some r \<Rightarrow> Inr (Inr r, s'))"
    using False d blk_rw_ok[OF assms, of n faults lba bytes] by simp
  ultimately show ?thesis
    using False driver_logs(1-3)[of faults "disk_of s bd" ?a n bytes s] by (cases r) auto
qed

section \<open>Partitions\<close>

lemma add_partition_ok:
  assumes "devices_ok s" "devs s disk = Some d" "bd_parent d = None" "\<forall>p. alloc = Some p \<longrightarrow> devs s p = None"
    and "unat start + unat n < 2 ^ 64"
  shows "\<exists>s'. add_partition alloc disk num start n s = Inr ((), s') \<and> devices_ok s' \<and> devs s' disk = Some d \<and>
    (\<forall>bd. devs s bd \<noteq> None \<longrightarrow> devs s' bd = devs s bd) \<and> (\<forall>bd. devs s' bd \<noteq> None \<longrightarrow> devs s bd \<noteq> None \<or> alloc = Some bd) \<and>
    media s' = media s \<and> driver_calls s' = driver_calls s"
proof (cases "start \<ge> sectors d \<or> n = 0 \<or> start + n > sectors d \<or> alloc = None")
  case True
  then show ?thesis using assms by (auto simp: add_partition_def find_dev_def)
next
  case False
  then obtain p where p: "alloc = Some p" "devs s p = None" using assms(4) by auto
  have "unat start + unat n \<le> unat (sectors d)"
    using False assms(5) unat_word_ariths(1)[of start n] by (auto simp: word_less_nat_alt)
  moreover have "bd_parent e \<noteq> Some p" if "devs s bd = Some e" for bd e
    using devices_okD[OF assms(1) that, of p] p(2) by auto
  moreover have "disk \<noteq> p" using assms(2) p(2) by auto
  ultimately have "devices_ok (s\<lparr>devs := (devs s)(p \<mapsto>
      \<lparr>bd_name = partition_name (bd_name d) num, sectors = n, sector_size = sector_size d, bd_parent = Some disk,
       bd_start = start, bd_dev = bd_dev d + of_nat num\<rparr>), disks := disks s @ [p]\<rparr>)"
    using assms(2,3) devices_okD[OF assms(1)] unfolding devices_ok_def by auto
  then show ?thesis using False p assms(2) by (auto simp: add_partition_def find_dev_def)
qed

text \<open>What scanning keeps: the disk itself and all that was there before.\<close>

definition scanned :: "(nat \<Rightarrow> nat option) \<Rightarrow> nat set \<Rightarrow> nat \<Rightarrow> blk \<Rightarrow> blk \<Rightarrow> bool" where
  "scanned alloc nums disk s s' \<longleftrightarrow> devices_ok s' \<and> media s' = media s \<and>
     (\<forall>bd. devs s bd \<noteq> None \<longrightarrow> devs s' bd = devs s bd) \<and>
     (\<forall>bd. devs s' bd \<noteq> None \<longrightarrow> devs s bd \<noteq> None \<or> (\<exists>i\<in>nums. alloc i = Some bd))"

lemma mbr_loop_ok:
  assumes "devices_ok s" "devs s disk = Some d" "bd_parent d = None" "inj_on alloc {i. alloc i \<noteq> None}"
    and "\<forall>j p. i < j \<longrightarrow> alloc j = Some p \<longrightarrow> devs s p = None"
  shows "\<exists>s'. mbr_loop alloc disk i es s = Inr ((), s') \<and> scanned alloc {i<..} disk s s' \<and> driver_calls s' = driver_calls s"
  using assms
proof (induction es arbitrary: i s)
  case Nil
  then show ?case by (simp add: scanned_def)
next
  case (Cons e es)
  have u: "unat (ucast (lba_start e) :: u64) + unat (ucast (mbr_sectors e) :: u64) < 2 ^ 64"
    using unat_lt_32[of "lba_start e"] unat_lt_32[of "mbr_sectors e"] by (simp add: unat_count)
  obtain s1 where s1: "(if mbr_type e \<noteq> 0 \<and> mbr_sectors e \<noteq> 0
      then add_partition (alloc (i + 1)) disk (i + 1) (ucast (lba_start e)) (ucast (mbr_sectors e)) s else Inr ((), s)) = Inr ((), s1)"
    "devices_ok s1" "devs s1 disk = Some d" "\<forall>bd. devs s bd \<noteq> None \<longrightarrow> devs s1 bd = devs s bd"
    "\<forall>bd. devs s1 bd \<noteq> None \<longrightarrow> devs s bd \<noteq> None \<or> alloc (i + 1) = Some bd" "media s1 = media s" "driver_calls s1 = driver_calls s"
    using add_partition_ok[OF Cons.prems(1-3) _ u, of "alloc (i + 1)" "i + 1"] Cons.prems(1,2,5)
    by (cases "mbr_type e \<noteq> 0 \<and> mbr_sectors e \<noteq> 0") auto
  have "devs s1 p = None" if "i + 1 < j" "alloc j = Some p" for j p
  proof (rule ccontr)
    assume "devs s1 p \<noteq> None"
    moreover have "i < j" using that(1) by simp
    then have "devs s p = None" using Cons.prems(5) that(2) by blast
    ultimately have "alloc (i + 1) = Some p" using s1(5) by blast
    then show False using inj_onD[OF Cons.prems(4), of "i + 1" j] that by auto
  qed
  then obtain s2 where s2: "mbr_loop alloc disk (i + 1) es s1 = Inr ((), s2)" "scanned alloc {i + 1<..} disk s1 s2"
      "driver_calls s2 = driver_calls s1" using Cons.IH[OF s1(2,3) Cons.prems(3,4), of "i + 1"] by blast
  have "scanned alloc {i<..} disk s s2"
    unfolding scanned_def
  proof (intro conjI allI impI)
    show "devices_ok s2" "media s2 = media s" using s2(2) s1(6) by (simp_all add: scanned_def)
    show "devs s2 bd = devs s bd" if "devs s bd \<noteq> None" for bd using that s1(4) s2(2) by (simp add: scanned_def)
    show "devs s bd \<noteq> None \<or> (\<exists>j\<in>{i<..}. alloc j = Some bd)" if b: "devs s2 bd \<noteq> None" for bd
    proof -
      have "devs s1 bd \<noteq> None \<or> (\<exists>j\<in>{i + 1<..}. alloc j = Some bd)" using b s2(2) unfolding scanned_def by blast
      then show ?thesis using s1(5) by (metis Suc_eq_plus1 Suc_lessD greaterThan_iff lessI)
    qed
  qed
  then show ?case using s1(1,7) s2(1,3) by simp
qed

lemma get_one [simp]: "get_sectors disk lba 1 s = media s disk lba" "get_sectors disk lba (Suc 0) s = media s disk lba"
  by (simp_all add: get_sectors_def)

lemma blk_read_one:
  assumes "devices_ok s" "devs s bd = Some d" "unat lba < unat (sectors d)"
  shows "blk_read faults bd lba 1 s =
    (let s' = s\<lparr>driver_calls := \<lparr>on_disk = disk_of s bd, at_lba = of_nat (first_of s bd + unat lba), n_sectors = 1, writes = False\<rparr> # driver_calls s\<rparr>
     in if faults (length (driver_calls s)) then Inr (Inl EIO, s')
        else Inr (Inr (media s (disk_of s bd) (unat (of_nat (first_of s bd + unat lba) :: u64))), s'))"
  using assms(3) blk_rw_ok[OF assms(1,2), of 1 faults lba None]
  by (simp add: blk_read_def driver_def Let_def get_sectors_def del: of_nat_add)

section \<open>Properties\<close>

text \<open>
  C16. Registering a disk with a partition table in its first sector, whatever its bytes are, leaves only
  partitions inside the disk; and then any transfer from or to any device, with any sector number and count,
  asks the driver for sectors inside that partition and inside the disk only.
\<close>

theorem mbr_partitions_confined:
  assumes "devices_ok s" "devs s disk = Some d" "bd_parent d = None" "inj_on alloc {i. alloc i \<noteq> None}"
    and "\<forall>j p. alloc j = Some p \<longrightarrow> devs s p = None" "mbr_type (mbr_entry_of (media s disk 0) 0) \<noteq> 0xEE"
  shows "\<exists>s'. blkdev_register buffer alloc faults disk s = Inr ((), s') \<and>
    (\<forall>bd e lba n bytes. devs s' bd = Some e \<longrightarrow>
      (\<exists>r s2. blk_rw faults bd lba n bytes s' = Inr (r, s2) \<and>
        (s2 = s' \<or> (\<exists>c. driver_calls s2 = c # driver_calls s' \<and> on_disk c = disk_of s' bd \<and>
           first_of s' bd \<le> unat (at_lba c) \<and> unat (at_lba c) + unat (n_sectors c) \<le> first_of s' bd + unat (sectors e) \<and>
           unat (at_lba c) + unat (n_sectors c) \<le> size_of s' (disk_of s' bd)))))"
proof -
  define d1 where "d1 = (if sector_size d = 0 then d\<lparr>sector_size := 512\<rparr> else d)"
  define s1 where "s1 = s\<lparr>devs := (devs s)(disk \<mapsto> d1), disks := disks s @ [disk]\<rparr>"
  have d1: "bd_parent d1 = None" "sectors d1 = sectors d" "bd_start d1 = bd_start d" using assms(3) by (simp_all add: d1_def)
  have ok: "devices_ok s1"
    unfolding devices_ok_def
  proof (intro allI impI, elim conjE)
    fix bd e p assume e: "devs s1 bd = Some e" "bd_parent e = Some p"
    then have "devs s bd = Some e" using d1 by (auto simp: s1_def split: if_splits)
    from devices_okD[OF assms(1) this e(2)] show "\<exists>pd. devs s1 p = Some pd \<and> bd_parent pd = None \<and> unat (bd_start e) + unat (sectors e) \<le> unat (sectors pd)"
      using d1 assms(2) by (auto simp: s1_def)
  qed
  have dev: "devs s1 disk = Some d1" by (simp add: s1_def)
  have reg: "blkdev_register buffer alloc faults disk s = scan_partitions buffer alloc faults disk s1"
    using assms(2) by (simp add: blkdev_register_def find_dev_def s1_def d1_def)
  have "\<exists>s'. scan_partitions buffer alloc faults disk s1 = Inr ((), s') \<and> devices_ok s'"
  proof (cases "buffer \<and> 0 < unat (sectors d)")
    case False
    have "blk_read faults disk 0 1 s1 = Inr (Inl EINVAL, s1)" if "\<not> 0 < unat (sectors d)"
      using blk_rw_ok[OF ok dev, of 1 faults 0 None] that d1 by (simp add: blk_read_def)
    with False ok show ?thesis by (auto simp: scan_partitions_def)
  next
    case True
    define s2 where "s2 = s1\<lparr>driver_calls := \<lparr>on_disk = disk, at_lba = 0, n_sectors = 1, writes = False\<rparr> # driver_calls s1\<rparr>"
    have first: "disk_of s1 disk = disk" "first_of s1 disk = 0" using dev d1 by (simp_all add: disk_of_def first_of_def)
    have rd: "blk_read faults disk 0 1 s1 = Inr (if faults (length (driver_calls s1)) then Inl EIO else Inr (media s disk 0), s2)"
      using blk_read_one[OF ok dev, of 0 faults] True d1 first by (simp add: Let_def s2_def s1_def)
    have ok2: "devices_ok s2" using ok by (simp add: devices_ok_def s2_def)
    have dev2: "devs s2 disk = Some d1" using dev by (simp add: s2_def)
    have fr: "\<forall>j p. 0 < j \<longrightarrow> alloc j = Some p \<longrightarrow> devs s2 p = None"
      using assms(2,5) by (auto simp: s2_def s1_def)
    obtain s3 where "mbr_loop alloc disk 0 (map (mbr_entry_of (media s disk 0)) [0..<4]) s2 = Inr ((), s3)" "devices_ok s3"
      using mbr_loop_ok[OF ok2 dev2 d1(1) assms(4) fr] unfolding scanned_def by blast
    then show ?thesis using True rd ok2 assms(6) by (simp add: scan_partitions_def del: upt_Suc)
  qed
  then obtain s' where s': "blkdev_register buffer alloc faults disk s = Inr ((), s')" "devices_ok s'" unfolding reg by blast
  have "\<exists>r s2. blk_rw faults bd lba n bytes s' = Inr (r, s2) \<and>
      (s2 = s' \<or> (\<exists>c. driver_calls s2 = c # driver_calls s' \<and> on_disk c = disk_of s' bd \<and> first_of s' bd \<le> unat (at_lba c) \<and>
         unat (at_lba c) + unat (n_sectors c) \<le> first_of s' bd + unat (sectors e) \<and>
         unat (at_lba c) + unat (n_sectors c) \<le> size_of s' (disk_of s' bd)))" if e: "devs s' bd = Some e" for bd e lba n bytes
    using blk_rw_confined[OF s'(2) e, of faults lba n bytes] inside_disk[OF s'(2) e] e unfolding size_of_def
    by (elim exE conjE, simp) (meson order_trans)
  then show ?thesis using s'(1) by blast
qed

text \<open>A machine with one disk of 100 sectors.\<close>

definition one_disk :: "(nat \<Rightarrow> u8 list) \<Rightarrow> blk" where
  "one_disk content =
     \<lparr>devs = [0 \<mapsto> \<lparr>bd_name = ''sda'', sectors = 100, sector_size = 512, bd_parent = None, bd_start = 0, bd_dev = MKDEV MAJOR_SD 0\<rparr>],
      disks = [], media = (\<lambda>_. content), driver_calls = [], bufs = (\<lambda>_. None), lru = [], bcache_count = 0, next_sd = 1\<rparr>"

lemma one_disk_ok: "devices_ok (one_disk content)"
  by (simp add: devices_ok_def one_disk_def)

definition mbr_sample :: "u8 list" where
  "mbr_sample = replicate 446 0 @ [0, 0, 0, 0, 0x83, 0, 0, 0, 10, 0, 0, 0, 80, 0, 0, 0] @ replicate 48 0 @ [0x55, 0xAA]"

lemma mbr_partitions_confined_witness:
  "\<exists>s'. blkdev_register True (\<lambda>n. if n = 1 then Some 5 else None) (\<lambda>_. False) 0 (one_disk (\<lambda>_. mbr_sample)) = Inr ((), s')"
proof -
  let ?s = "one_disk (\<lambda>_. mbr_sample)"
  have d: "devs ?s 0 = Some \<lparr>bd_name = ''sda'', sectors = 100, sector_size = 512, bd_parent = None, bd_start = 0, bd_dev = MKDEV MAJOR_SD 0\<rparr>"
    by (simp add: one_disk_def)
  have e: "mbr_type (mbr_entry_of (media ?s 0 0) 0) \<noteq> 0xEE"
    by (simp add: one_disk_def mbr_sample_def mbr_entry_of_def field_def)
  have i: "inj_on (\<lambda>n :: nat. if n = 1 then Some (5 :: nat) else None) {i. (if i = 1 then Some (5 :: nat) else None) \<noteq> None}"
    by (auto simp: inj_on_def split: if_splits)
  have f: "\<forall>j p. (if j = (1 :: nat) then Some (5 :: nat) else None) = Some p \<longrightarrow> devs ?s p = None" by (simp add: one_disk_def)
  show ?thesis using mbr_partitions_confined[OF one_disk_ok d _ i f e, of True "\<lambda>_. False"] by auto
qed

text \<open>
  C28. A GPT entry that starts inside the disk and ends at sector \<open>2 ^ 64 - 1\<close> is accepted, because the start plus
  the count wraps to 0. Through the new partition sectors beyond the end of the disk are asked of the driver.
\<close>

theorem gpt_partition_beyond_disk:
  assumes "devs s disk = Some d" "bd_parent d = None" "devs s p = None" "last_lba e = - 1" "0 < first_lba e" "first_lba e < sectors d"
    and "unat (sectors d) \<le> unat (first_lba e) + unat lba" "unat (first_lba e) + unat lba < 2 ^ 64"
  shows "last_lba e \<ge> first_lba e \<and>
    (\<exists>s1 r s2 c. add_partition (Some p) disk num (first_lba e) (last_lba e - first_lba e + 1) s = Inr ((), s1) \<and>
       blk_read faults p lba 1 s1 = Inr (r, s2) \<and> driver_calls s2 = c # driver_calls s1 \<and> on_disk c = disk \<and>
       unat (at_lba c) = unat (first_lba e) + unat lba \<and> unat (sectors d) \<le> unat (at_lba c))"
proof -
  let ?st = "first_lba e"
  have n: "last_lba e - ?st + 1 = - ?st" using assms(4) by simp
  have ne: "disk \<noteq> p" using assms(1,3) by auto
  have un: "unat (- ?st) = 2 ^ 64 - unat ?st" using assms(5) unat_sub_if'[of 0 ?st] by (auto simp: word_less_nat_alt)
  define s1 where "s1 = s\<lparr>devs := (devs s)(p \<mapsto>
      \<lparr>bd_name = partition_name (bd_name d) num, sectors = - ?st, sector_size = sector_size d, bd_parent = Some disk,
       bd_start = ?st, bd_dev = bd_dev d + of_nat num\<rparr>), disks := disks s @ [p]\<rparr>"
  have a: "add_partition (Some p) disk num ?st (last_lba e - ?st + 1) s = Inr ((), s1)"
    using assms(1,5,6) unfolding n by (simp add: add_partition_def find_dev_def s1_def not_le)
  have b: "\<not> (lba + ucast (1 :: u32) < lba \<or> lba + ucast (1 :: u32) > - ?st)"
    unfolding bounds_check un using assms(8) by simp
  have t: "to_disk p lba s1 = Some (Inr (disk, lba + ?st))"
    using assms(1,2) ne by (subst to_disk.simps, simp add: s1_def, subst to_disk.simps) simp
  have u: "unat (lba + ?st) = unat ?st + unat lba" using assms(8) by (simp add: unat_word_ariths)
  obtain r s2 where d: "driver faults disk (lba + ?st) 1 None s1 = (r, s2)" by (cases "driver faults disk (lba + ?st) 1 None s1")
  have fd: "find_dev p s1 = Inr \<lparr>bd_name = partition_name (bd_name d) num, sectors = - ?st, sector_size = sector_size d,
      bd_parent = Some disk, bd_start = ?st, bd_dev = bd_dev d + of_nat num\<rparr>" by (simp add: find_dev_def s1_def)
  have "blk_read faults p lba 1 s1 = (case r of None \<Rightarrow> Inr (Inl EIO, s2) | Some r \<Rightarrow> Inr (Inr r, s2))"
    unfolding blk_read_def blk_rw_def fd andthen_simps block_device.select_convs
    by (simp only: b t d if_False one_neq_zero option.case sum.case prod.case)
  then have "\<exists>r. blk_read faults p lba 1 s1 = Inr (r, s2)" by (cases r) auto
  moreover have "driver_calls s2 = \<lparr>on_disk = disk, at_lba = lba + ?st, n_sectors = 1, writes = False\<rparr> # driver_calls s1"
    using driver_logs(1)[of faults disk "lba + ?st" 1 None s1] d by simp
  ultimately show ?thesis using a u assms(4,7) by (force intro: word_n1_ge)
qed

lemma gpt_partition_beyond_disk_witness:
  "\<exists>s1 r s2 c. add_partition (Some 5) 0 1 50 (- 1 - 50 + 1) (one_disk (\<lambda>_. [])) = Inr ((), s1) \<and>
     blk_read (\<lambda>_. False) 5 1000 1 s1 = Inr (r, s2) \<and> driver_calls s2 = c # driver_calls s1 \<and> unat (at_lba c) = 1050"
proof -
  define e where "e = \<lparr>type_guid = [1], first_lba = 50, last_lba = - 1\<rparr>"
  have d: "devs (one_disk (\<lambda>_. [])) 0 = Some \<lparr>bd_name = ''sda'', sectors = 100, sector_size = 512, bd_parent = None, bd_start = 0, bd_dev = MKDEV MAJOR_SD 0\<rparr>"
    "devs (one_disk (\<lambda>_. [])) 5 = None" by (simp_all add: one_disk_def)
  from gpt_partition_beyond_disk[OF d(1) _ d(2), of e 1000 1 "\<lambda>_. False"] show ?thesis by (simp add: e_def) blast
qed

text \<open>
  A GPT header with a good signature whose entries are said to be longer than a sector stops the kernel with a
  division by zero while the disk is registered.
\<close>

theorem gpt_division_by_zero:
  assumes "devices_ok s" "devs s disk = Some d" "bd_parent d = None" "1 < unat (sectors d)" "\<forall>n. \<not> faults n"
    and "media s disk 0 ! 510 = 0x55" "media s disk 0 ! 511 = 0xAA" "mbr_type (mbr_entry_of (media s disk 0) 0) = 0xEE"
    and "signature (gpt_header_of (media s disk 1)) = map (\<lambda>c. of_nat (of_char c)) ''EFI PART''"
    and "512 < entry_size (gpt_header_of (media s disk 1))" "0 < num_entries (gpt_header_of (media s disk 1))" "num_entries (gpt_header_of (media s disk 1)) \<le> 256"
  shows "scan_partitions True alloc faults disk s = Inl Divide_error"
proof -
  let ?h = "gpt_header_of (media s disk 1)"
  have first: "disk_of s disk = disk" "first_of s disk = 0" using assms(2,3) by (simp_all add: disk_of_def first_of_def)
  define s1 where "s1 = s\<lparr>driver_calls := \<lparr>on_disk = disk, at_lba = 0, n_sectors = 1, writes = False\<rparr> # driver_calls s\<rparr>"
  have r0: "blk_read faults disk 0 1 s = Inr (Inr (media s disk 0), s1)"
    using blk_read_one[OF assms(1,2), of 0 faults] assms(4,5) first by (simp add: Let_def s1_def)
  have ok1: "devices_ok s1" "devs s1 disk = Some d" "disk_of s1 disk = disk" "first_of s1 disk = 0" "media s1 = media s"
    using assms(1,2) first by (simp_all add: s1_def devices_ok_def disk_of_def first_of_def)
  obtain s2 where r1: "blk_read faults disk 1 1 s1 = Inr (Inr (media s disk 1), s2)"
    using blk_read_one[OF ok1(1,2), of 1 faults] assms(4,5) ok1(3-5) by (simp add: Let_def)
  have z: "unat (512 div entry_size ?h) = 0" using assms(10) by (simp add: unat_div word_less_nat_alt)
  have "\<not> entry_size ?h < 128" "\<not> num_entries ?h > 256" using assms(10,12) by (auto simp: word_less_nat_alt word_le_nat_alt)
  then have g: "scan_gpt alloc faults disk s1 = gpt_loop alloc faults disk ?h (unat (num_entries ?h)) 0 1 (media s disk 1) s2"
    unfolding scan_gpt_def r1 using assms(9) by (simp add: Let_def)
  obtain rest where "unat (num_entries ?h) = Suc rest" using assms(11) by (cases "unat (num_entries ?h)") (auto simp: word_less_nat_alt)
  then show ?thesis unfolding scan_partitions_def r0 using assms(6-8) g z by (simp add: Let_def)
qed

definition gpt_sample :: "nat \<Rightarrow> u8 list" where
  "gpt_sample i =
     (if i = 0 then replicate 446 0 @ [0, 0, 0, 0, 0xEE] @ replicate 59 0 @ [0x55, 0xAA]
      else map (\<lambda>c. of_nat (of_char c)) ''EFI PART'' @ replicate 72 0 @ [1, 0, 0, 0, 0, 4, 0, 0] @ replicate 424 0)"

lemma gpt_division_by_zero_witness: "scan_partitions True (\<lambda>_. None) (\<lambda>_. False) 0 (one_disk gpt_sample) = Inl Divide_error"
proof -
  let ?s = "one_disk gpt_sample"
  have d: "devs ?s 0 = Some \<lparr>bd_name = ''sda'', sectors = 100, sector_size = 512, bd_parent = None, bd_start = 0, bd_dev = MKDEV MAJOR_SD 0\<rparr>"
    by (simp add: one_disk_def)
  have m: "media ?s 0 = gpt_sample" by (simp add: one_disk_def)
  have a: "media ?s 0 0 ! 510 = 0x55" "media ?s 0 0 ! 511 = 0xAA" "mbr_type (mbr_entry_of (media ?s 0 0) 0) = 0xEE"
    unfolding m by (simp_all add: gpt_sample_def nth_append mbr_entry_of_def field_def)
  have h: "signature (gpt_header_of (media ?s 0 1)) = map (\<lambda>c. of_nat (of_char c)) ''EFI PART''"
    "num_entries (gpt_header_of (media ?s 0 1)) = 1" "entry_size (gpt_header_of (media ?s 0 1)) = 1024"
    unfolding m by (simp_all add: gpt_sample_def gpt_header_of_def field_def)
  from gpt_division_by_zero[OF one_disk_ok d _ _ _ a h(1)] h(2,3) show ?thesis by simp
qed

end
