(* ===== verification/Block_Cache.thy ===== *)
theory Block_Cache
  imports Block_Proofs
begin

text \<open>
  The buffer cache, used by any number of processes. \<open>cache_step\<close> has one rule per critical section of
  \<^verbatim>\<open>bget\<close>, \<^verbatim>\<open>bread\<close>, \<^verbatim>\<open>bwrite\<close>, \<^verbatim>\<open>brelse\<close> and \<^verbatim>\<open>bcache_invalidate\<close>, so that the processes interleave between
  them; a change a client makes to the bytes of a buffer is a step of its own, apart from the \<^verbatim>\<open>bwrite\<close> that
  may follow. \<open>holds\<close> lists the buffers handed out with the block each was asked for; \<open>unsaved\<close> is the set of
  buffers whose bytes a client has changed since they were last read from the disk or written to it with
  success, or whose last write failed. Any holder may change the bytes, whether or not it has the lock of
  the buffer, and a call of the driver is one step. The clients are file systems: each mounted device has one block size,
  block numbers have 32 bits, and two mounted devices share no sector.
\<close>

section \<open>Clients\<close>

type_synonym block_key = "nat \<times> u64 \<times> u32"

definition key_of :: "buf \<Rightarrow> block_key" where
  "key_of x = (buf_bd x, buf_block x, buf_size x)"

record clients =
  holds :: "(nat \<times> block_key) list"
  unsaved :: "nat set"

definition asked :: "(nat \<Rightarrow> u32 option) \<Rightarrow> block_key \<Rightarrow> bool" where
  "asked bsize key = (case key of (bd, k, sz) \<Rightarrow> bsize bd = Some sz \<and> unat k < 2 ^ 32)"

definition mounts_ok :: "(nat \<Rightarrow> u32 option) \<Rightarrow> blk \<Rightarrow> bool" where
  "mounts_ok bsize s \<longleftrightarrow> devices_ok s \<and>
     (\<forall>bd sz. bsize bd = Some sz \<longrightarrow> devs s bd \<noteq> None \<and> 0 < unat sz \<and> unat sz mod SECTOR = 0) \<and>
     (\<forall>a b. bsize a \<noteq> None \<and> bsize b \<noteq> None \<and> a \<noteq> b \<and> disk_of s a = disk_of s b \<longrightarrow>
        first_of s a + size_of s a \<le> first_of s b \<or> first_of s b + size_of s b \<le> first_of s a)"

inductive cache_step :: "(nat \<Rightarrow> u32 option) \<Rightarrow> (nat \<Rightarrow> bool) \<Rightarrow> clients \<times> blk \<Rightarrow> clients \<times> blk \<Rightarrow> bool"
  for bsize faults where
  Found: "asked bsize (bd, k, sz) \<Longrightarrow> bget_find bd k sz s = (Some b, s') \<Longrightarrow>
    cache_step bsize faults (c, s) (c\<lparr>holds := (b, bd, k, sz) # holds c\<rparr>, s')"
| Not_found: "asked bsize (bd, k, sz) \<Longrightarrow> bget_find bd k sz s = (None, s') \<Longrightarrow> cache_step bsize faults (c, s) (c, s')"
| Added: "asked bsize (bd, k, sz) \<Longrightarrow> bufs s b = None \<Longrightarrow> length bytes = unat sz \<Longrightarrow> bget_add b bytes bd k sz s = (b', s') \<Longrightarrow>
    cache_step bsize faults (c, s) (c\<lparr>holds := (b', bd, k, sz) # holds c\<rparr>, s')"
| Filled: "(b, bd, k, sz) \<in> set (holds c) \<Longrightarrow> bufs s b = Some x \<Longrightarrow> fill_buf faults b bd k sz s = Inr (True, s') \<Longrightarrow>
    cache_step bsize faults (c, s) (if buf_valid x then c else c\<lparr>unsaved := unsaved c - {b}\<rparr>, s')"
| Not_filled: "(b, bd, k, sz) \<in> set (holds c) \<Longrightarrow> fill_buf faults b bd k sz s = Inr (False, s') \<Longrightarrow>
    cache_step bsize faults (c, s) (c\<lparr>holds := remove1 (b, bd, k, sz) (holds c)\<rparr>, s')"
| Modified: "(b, key) \<in> set (holds c) \<Longrightarrow> bufs s b = Some x \<Longrightarrow> length bytes = length (buf_data x) \<Longrightarrow>
    cache_step bsize faults (c, s) (c\<lparr>unsaved := insert b (unsaved c)\<rparr>, upd_buf b (\<lambda>x. x\<lparr>buf_data := bytes\<rparr>) s)"
| Written: "(b, key) \<in> set (holds c) \<Longrightarrow> bwrite faults b s = Inr (Inr (), s') \<Longrightarrow>
    cache_step bsize faults (c, s) (c\<lparr>unsaved := unsaved c - {b}\<rparr>, s')"
| Not_written: "(b, key) \<in> set (holds c) \<Longrightarrow> bwrite faults b s = Inr (Inl e, s') \<Longrightarrow>
    cache_step bsize faults (c, s) (c\<lparr>unsaved := insert b (unsaved c)\<rparr>, s')"
| Released: "(b, key) \<in> set (holds c) \<Longrightarrow> brelse b s = Inr s' \<Longrightarrow>
    cache_step bsize faults (c, s) (c\<lparr>holds := remove1 (b, key) (holds c)\<rparr>, s')"
| Invalidated: "cache_step bsize faults (c, s) (c, bcache_invalidate bd s)"

inductive cache_reach :: "(nat \<Rightarrow> u32 option) \<Rightarrow> (nat \<Rightarrow> bool) \<Rightarrow> blk \<Rightarrow> clients \<times> blk \<Rightarrow> bool"
  for bsize faults s0 where
  start: "cache_reach bsize faults s0 (\<lparr>holds = [], unsaved = {}\<rparr>, s0)"
| step: "cache_reach bsize faults s0 cs \<Longrightarrow> cache_step bsize faults cs cs' \<Longrightarrow> cache_reach bsize faults s0 cs'"

section \<open>The invariant\<close>

definition cache_ok :: "blk \<Rightarrow> bool" where
  "cache_ok s \<longleftrightarrow> distinct (lru s) \<and> set (lru s) = dom (bufs s) \<and> bcache_count s = int (length (lru s)) \<and>
     (\<forall>b c x y. bufs s b = Some x \<and> bufs s c = Some y \<and> key_of x = key_of y \<longrightarrow> b = c) \<and>
     (\<forall>b x. bufs s b = Some x \<longrightarrow> length (buf_data x) = unat (buf_size x))"

definition held_ok :: "(nat \<times> block_key) list \<Rightarrow> blk \<Rightarrow> bool" where
  "held_ok hs s \<longleftrightarrow> (\<forall>(b, key)\<in>set hs. \<exists>x. bufs s b = Some x \<and> key_of x = key) \<and>
     (\<forall>b x. bufs s b = Some x \<longrightarrow> buf_refcount x = int (count_list (map fst hs) b))"

definition block_at :: "blk \<Rightarrow> block_key \<Rightarrow> nat" where
  "block_at s key = (case key of (bd, k, sz) \<Rightarrow> first_of s bd + unat k * unat (sz div 512))"

definition stored :: "blk \<Rightarrow> block_key \<Rightarrow> u8 list" where
  "stored s key = (case key of (bd, k, sz) \<Rightarrow> get_sectors (disk_of s bd) (block_at s key) (unat (sz div 512)) s)"

definition in_range :: "blk \<Rightarrow> block_key \<Rightarrow> bool" where
  "in_range s key = (case key of (bd, k, sz) \<Rightarrow> (unat k + 1) * unat (sz div 512) \<le> size_of s bd)"

definition coherent :: "nat set \<Rightarrow> blk \<Rightarrow> bool" where
  "coherent D s \<longleftrightarrow> (\<forall>b x. bufs s b = Some x \<and> buf_valid x \<and> b \<notin> D \<longrightarrow> in_range s (key_of x) \<and> buf_data x = stored s (key_of x))"

definition sectors_ok :: "blk \<Rightarrow> bool" where
  "sectors_ok s \<longleftrightarrow> (\<forall>d i. length (media s d i) = SECTOR)"

definition keys_ok :: "(nat \<Rightarrow> u32 option) \<Rightarrow> blk \<Rightarrow> bool" where
  "keys_ok bsize s \<longleftrightarrow> (\<forall>b x. bufs s b = Some x \<longrightarrow> asked bsize (key_of x))"

definition cache_inv :: "(nat \<Rightarrow> u32 option) \<Rightarrow> clients \<times> blk \<Rightarrow> bool" where
  "cache_inv bsize cs = (case cs of (c, s) \<Rightarrow>
     mounts_ok bsize s \<and> sectors_ok s \<and> cache_ok s \<and> keys_ok bsize s \<and> held_ok (holds c) s \<and> coherent (unsaved c) s)"

definition empty_cache :: "blk \<Rightarrow> bool" where
  "empty_cache s \<longleftrightarrow> bufs s = (\<lambda>_. None) \<and> lru s = [] \<and> bcache_count s = 0"

lemma cache_inv_start: "mounts_ok bsize s \<Longrightarrow> sectors_ok s \<Longrightarrow> empty_cache s \<Longrightarrow> cache_inv bsize (\<lparr>holds = [], unsaved = {}\<rparr>, s)"
  by (simp add: cache_inv_def cache_ok_def keys_ok_def held_ok_def coherent_def empty_cache_def)

section \<open>Sectors of a block\<close>

lemma per_block: "unat (sz div 512 :: u32) = unat sz div SECTOR" by (simp add: unat_div)

lemma block_no_wrap:
  assumes "unat (k :: u64) < 2 ^ 32"
  shows "unat (k * ucast (n :: u32)) = unat k * unat n"
proof -
  have "unat k * unat n < 2 ^ 32 * 2 ^ 32" using assms unat_lt_32[of n] by (intro mult_strict_mono') auto
  then have "unat k * unat n < 2 ^ 64" by simp
  then show ?thesis by (simp add: unat_word_ariths unat_count)
qed

lemma mounts_okD:
  assumes "mounts_ok bsize s" "asked bsize (bd, k, sz)"
  shows "devices_ok s" "\<exists>d. devs s bd = Some d \<and> size_of s bd = unat (sectors d)" "sz div 512 \<noteq> 0"
    "unat (sz div 512) * SECTOR = unat sz" "unat k < 2 ^ 32" "bsize bd = Some sz"
proof -
  have z: "0 < unat sz" "unat sz mod SECTOR = 0" "bsize bd = Some sz" "devs s bd \<noteq> None"
    using assms unfolding mounts_ok_def asked_def by auto
  show "devices_ok s" "unat k < 2 ^ 32" "bsize bd = Some sz" using assms by (auto simp: mounts_ok_def asked_def)
  show "\<exists>d. devs s bd = Some d \<and> size_of s bd = unat (sectors d)" using z by (auto simp: size_of_def)
  show e: "unat (sz div 512) * SECTOR = unat sz" unfolding per_block using z(2) by auto
  show "sz div 512 \<noteq> 0"
  proof
    assume "sz div 512 = 0"
    then have "unat (sz div 512) = 0" by simp
    then show False using e z(1) by simp
  qed
qed

lemma block_rw:
  assumes "mounts_ok bsize s" "asked bsize (bd, k, sz)"
  shows "blk_rw faults bd (k * ucast (sz div 512)) (sz div 512) bytes s =
    (if \<not> in_range s (bd, k, sz) then Inr (Inl EINVAL, s)
     else
       (case driver faults (disk_of s bd) (of_nat (block_at s (bd, k, sz))) (sz div 512) bytes s of
          (None, s) \<Rightarrow> Inr (Inl EIO, s)
        | (Some r, s) \<Rightarrow> Inr (Inr r, s)))"
proof -
  obtain d where d: "devs s bd = Some d" "size_of s bd = unat (sectors d)" using mounts_okD(2)[OF assms] by blast
  have "unat k * unat (sz div 512) + unat (sz div 512) > unat (sectors d) \<longleftrightarrow> \<not> in_range s (bd, k, sz)"
    unfolding in_range_def using d by (simp add: algebra_simps not_le)
  then show ?thesis
    using blk_rw_ok[OF mounts_okD(1)[OF assms] d(1) mounts_okD(3)[OF assms]]
    unfolding block_at_def by (simp add: block_no_wrap[OF mounts_okD(5)[OF assms]])
qed

lemma in_range_disk:
  assumes "mounts_ok bsize s" "asked bsize (bd, k, sz)" "in_range s (bd, k, sz)"
  shows "block_at s (bd, k, sz) + unat (sz div 512) \<le> first_of s bd + size_of s bd"
    "unat (of_nat (block_at s (bd, k, sz)) :: u64) = block_at s (bd, k, sz)"
proof -
  show a: "block_at s (bd, k, sz) + unat (sz div 512) \<le> first_of s bd + size_of s bd"
    using assms(3) by (simp add: in_range_def block_at_def algebra_simps)
  obtain d where d: "devs s bd = Some d" using mounts_okD(2)[OF assms(1,2)] by blast
  have "size_of s (disk_of s bd) < 2 ^ 64" using unat_lt_64 by (auto simp: size_of_def split: option.splits)
  then have "block_at s (bd, k, sz) < 2 ^ 64" using a inside_disk[OF mounts_okD(1)[OF assms(1,2)] d] by linarith
  then show "unat (of_nat (block_at s (bd, k, sz)) :: u64) = block_at s (bd, k, sz)" by (simp only: unat_of_nat) simp
qed

section \<open>Writing a block\<close>

lemma concat_parts: "length bytes = n * m \<Longrightarrow> concat (map (\<lambda>i. take m (drop (m * i) bytes)) [0..<n]) = bytes"
proof (induction n arbitrary: bytes)
  case (Suc n)
  have "[0..<Suc n] = 0 # map Suc [0..<n]" by (simp add: upt_conv_Cons map_Suc_upt del: upt_Suc)
  then have "concat (map (\<lambda>i. take m (drop (m * i) bytes)) [0..<Suc n]) =
      take m bytes @ concat (map (\<lambda>i. take m (drop (m * i) (drop m bytes))) [0..<n])"
    by (simp add: o_def add.commute del: upt_Suc)
  then show ?case using Suc.IH[of "drop m bytes"] Suc.prems by simp
qed simp

lemma get_put_sectors:
  assumes "length bytes = n * SECTOR"
  shows "get_sectors disk a n (put_sectors disk a n bytes s) = bytes"
proof -
  have "get_sectors disk a n (put_sectors disk a n bytes s) = concat (map (\<lambda>i. take SECTOR (drop (SECTOR * (i - a)) bytes)) [a..<a + n])"
    unfolding get_sectors_def put_sectors_def by (intro arg_cong[where f = concat] map_cong refl) auto
  also have "[a..<a + n] = map (\<lambda>i. i + a) [0..<n]" by (simp add: map_add_upt add.commute)
  finally show ?thesis using concat_parts[OF assms] by (simp add: o_def)
qed

lemma get_other_sectors:
  assumes "disk' \<noteq> disk \<or> b + m \<le> a \<or> a + n \<le> b"
  shows "get_sectors disk' b m (put_sectors disk a n bytes s) = get_sectors disk' b m s"
  unfolding get_sectors_def put_sectors_def using assms by (intro arg_cong[where f = concat] map_cong refl) auto

lemma put_sectors_ok: "sectors_ok s \<Longrightarrow> length bytes = n * SECTOR \<Longrightarrow> sectors_ok (put_sectors disk a n bytes s)"
  unfolding sectors_ok_def put_sectors_def
proof (intro allI, goal_cases)
  case (1 d i)
  have "SECTOR \<le> length (drop (SECTOR * (i - a)) bytes)" if "a \<le> i" "i < a + n"
  proof -
    have "(i - a + 1) * SECTOR \<le> n * SECTOR" using that by (intro mult_right_mono) auto
    then show ?thesis using 1(2) by (simp add: algebra_simps)
  qed
  then show ?case using 1(1) by auto
qed

text \<open>Different blocks that file systems ask for have no sector in common.\<close>

lemma blocks_disjoint:
  assumes m: "mounts_ok bsize s" and a: "asked bsize x" "in_range s x" and b: "asked bsize y" "in_range s y" and ne: "x \<noteq> y"
  shows "disk_of s (fst y) \<noteq> disk_of s (fst x) \<or> block_at s y + unat (snd (snd y) div 512) \<le> block_at s x \<or>
    block_at s x + unat (snd (snd x) div 512) \<le> block_at s y"
proof -
  obtain xd k sz yd j ty where xy: "x = (xd, k, sz)" "y = (yd, j, ty)" by (cases x, cases y)
  show ?thesis
  proof (cases "xd = yd")
    case True
    then have "sz = ty" using a b by (simp add: xy asked_def)
    then have "unat k \<noteq> unat j" using ne True by (auto simp: xy word_unat_eq_iff)
    then consider "unat j + 1 \<le> unat k" | "unat k + 1 \<le> unat j" by linarith
    then show ?thesis
    proof cases
      case 1
      then have "(unat j + 1) * unat (sz div 512) \<le> unat k * unat (sz div 512)" by (rule mult_right_mono) simp
      then show ?thesis using True \<open>sz = ty\<close> by (simp add: xy block_at_def algebra_simps)
    next
      case 2
      then have "(unat k + 1) * unat (sz div 512) \<le> unat j * unat (sz div 512)" by (rule mult_right_mono) simp
      then show ?thesis using True \<open>sz = ty\<close> by (simp add: xy block_at_def algebra_simps)
    qed
  next
    case False
    have "bsize xd \<noteq> None" "bsize yd \<noteq> None" using a b by (simp_all add: xy asked_def)
    then have "disk_of s yd \<noteq> disk_of s xd \<or> first_of s yd + size_of s yd \<le> first_of s xd \<or> first_of s xd + size_of s xd \<le> first_of s yd"
      using m False unfolding mounts_ok_def by (metis (no_types, lifting))
    moreover have "first_of s xd \<le> block_at s x" "first_of s yd \<le> block_at s y" by (simp_all add: xy block_at_def)
    ultimately show ?thesis
      using in_range_disk(1)[OF m a[unfolded xy]] in_range_disk(1)[OF m b[unfolded xy]] by (auto simp: xy)
  qed
qed

section \<open>Every step keeps the invariant\<close>

lemma same_devs:
  assumes "devs s' = devs s"
  shows "disk_of s' = disk_of s" "first_of s' = first_of s" "size_of s' = size_of s" "block_at s' = block_at s" "in_range s' = in_range s"
    "mounts_ok bsize s' = mounts_ok bsize s"
proof -
  show a: "disk_of s' = disk_of s" "first_of s' = first_of s" "size_of s' = size_of s"
    using assms by (simp_all add: fun_eq_iff disk_of_def first_of_def size_of_def)
  then show "block_at s' = block_at s" "in_range s' = in_range s" by (simp_all add: fun_eq_iff block_at_def in_range_def)
  show "mounts_ok bsize s' = mounts_ok bsize s" using a assms by (simp add: mounts_ok_def devices_ok_def)
qed

lemma same_media: "devs s' = devs s \<Longrightarrow> media s' = media s \<Longrightarrow> stored s' = stored s"
  by (rule ext) (simp add: stored_def get_sectors_def same_devs(1,4)[of s' s])

lemma held_count:
  assumes "held_ok hs s" "bufs s b = Some x"
  shows "buf_refcount x = int (count_list (map fst hs) b)"
  using assms by (simp add: held_ok_def)

lemma held_key:
  assumes "held_ok hs s" "(b, key) \<in> set hs"
  shows "\<exists>x. bufs s b = Some x \<and> key_of x = key"
  using assms unfolding held_ok_def by fast

lemma held_okI:
  assumes "\<And>b key. (b, key) \<in> set hs \<Longrightarrow> \<exists>x. bufs s b = Some x \<and> key_of x = key"
    and "\<And>b x. bufs s b = Some x \<Longrightarrow> buf_refcount x = int (count_list (map fst hs) b)"
  shows "held_ok hs s"
  using assms unfolding held_ok_def by fast

lemma held_take:
  assumes h: "held_ok hs s" and b: "bufs s b = Some x" "bufs s' = (bufs s)(b \<mapsto> y)" "buf_refcount y = buf_refcount x + 1"
    and k: "key_of y = key_of x \<or> buf_refcount x = 0"
  shows "held_ok ((b, key_of y) # hs) s'"
proof (rule held_okI)
  fix a key assume "(a, key) \<in> set ((b, key_of y) # hs)"
  then consider "a = b" "key = key_of y" | "(a, key) \<in> set hs" by auto
  then show "\<exists>z. bufs s' a = Some z \<and> key_of z = key"
  proof cases
    case 2
    then have "a \<in> set (map fst hs)" by force
    then have "buf_refcount x \<noteq> 0" if "a = b" using that held_count[OF h b(1)] by (simp add: count_list_0_iff)
    moreover obtain z where "bufs s a = Some z" "key_of z = key" using held_key[OF h 2] by blast
    ultimately show ?thesis using k b(1,2) by (cases "a = b") auto
  qed (simp add: b)
next
  fix a z assume "bufs s' a = Some z"
  then show "buf_refcount z = int (count_list (map fst ((b, key_of y) # hs)) a)"
    using held_count[OF h, of a z] held_count[OF h b(1)] b(2,3) by (cases "a = b") auto
qed

lemma count_remove1: "p \<in> set hs \<Longrightarrow> int (count_list (map fst (remove1 p hs)) b) = int (count_list (map fst hs) b) - (if b = fst p then 1 else 0)"
proof (induction hs)
  case (Cons h hs)
  then show ?case by (cases "p = h"; cases "b = fst p") (auto split: if_splits)
qed simp

lemma held_give:
  assumes h: "held_ok hs s" and b: "bufs s b = Some x" "bufs s' = (bufs s)(b \<mapsto> y)" "buf_refcount y = buf_refcount x - 1" "key_of y = key_of x"
    and m: "(b, key) \<in> set hs"
  shows "held_ok (remove1 (b, key) hs) s'"
proof (rule held_okI)
  fix a key' assume "(a, key') \<in> set (remove1 (b, key) hs)"
  then have "(a, key') \<in> set hs" using set_remove1_subset by fast
  then show "\<exists>z. bufs s' a = Some z \<and> key_of z = key'" using held_key[OF h] b by fastforce
next
  fix a z assume "bufs s' a = Some z"
  then show "buf_refcount z = int (count_list (map fst (remove1 (b, key) hs)) a)"
    using held_count[OF h, of a z] held_count[OF h b(1)] b(2,3) unfolding count_remove1[OF m] by (cases "a = b") auto
qed

lemma held_same:
  assumes "held_ok hs s" "bufs s b = Some x" "bufs s' = (bufs s)(b \<mapsto> y)" "buf_refcount y = buf_refcount x" "key_of y = key_of x"
  shows "held_ok hs s'"
  using assms(2-5) held_key[OF assms(1)] held_count[OF assms(1)] by (intro held_okI) (fastforce split: if_splits)+

lemma cache_upd:
  assumes inv: "cache_inv bsize (c, s)" and b: "bufs s b = Some x" "bufs s' = (bufs s)(b \<mapsto> y)"
    and env: "devs s' = devs s" "media s' = media s"
    and lru: "distinct (lru s')" "set (lru s') = set (lru s)" "length (lru s') = length (lru s)" "bcache_count s' = bcache_count s"
    and key: "key_of y = key_of x \<or> (\<forall>a z. bufs s a = Some z \<longrightarrow> key_of z \<noteq> key_of y)" "asked bsize (key_of y)"
    and len: "length (buf_data y) = unat (buf_size y)" and held: "held_ok (holds c') s'"
    and val: "buf_valid y \<Longrightarrow> b \<notin> unsaved c' \<Longrightarrow> in_range s (key_of y) \<and> buf_data y = stored s (key_of y)"
    and st: "unsaved c \<subseteq> insert b (unsaved c')"
  shows "cache_inv bsize (c', s')"
proof -
  have i: "mounts_ok bsize s" "sectors_ok s" "cache_ok s" "keys_ok bsize s" "coherent (unsaved c) s"
    using inv by (simp_all add: cache_inv_def)
  have "mounts_ok bsize s'" "sectors_ok s'" using i(1,2) env by (simp_all add: same_devs(6)[OF env(1)] sectors_ok_def)
  moreover have "cache_ok s'"
    unfolding cache_ok_def
  proof (intro conjI allI impI, goal_cases)
    case 2
    show ?case using i(3) b lru(2) by (auto simp: cache_ok_def)
  next
    case 3
    show ?case using i(3) lru(3,4) by (simp add: cache_ok_def)
  next
    case (4 d e v w)
    have u: "d = e" if "bufs s d = Some v" "bufs s e = Some w" "key_of v = key_of w" for d e v w
      using i(3) that unfolding cache_ok_def by blast
    have other: "key_of z \<noteq> key_of y" if "bufs s a = Some z" "a \<noteq> b" for a z
      using key(1) u[OF that(1) b(1)] that by auto
    show ?case
    proof (rule ccontr)
      assume "d \<noteq> e"
      then consider "d = b" "e \<noteq> b" | "e = b" "d \<noteq> b" | "d \<noteq> b" "e \<noteq> b" by blast
      then show False
      proof cases
        case 1
        then show False using 4 other[of e w] b(2) by simp
      next
        case 2
        then show False using 4 other[of d v] b(2) by simp
      next
        case 3
        then show False using 4 u[of d v e w] b(2) \<open>d \<noteq> e\<close> by simp
      qed
    qed
  next
    case (5 d v)
    then show ?case using i(3) b len by (cases "d = b") (auto simp: cache_ok_def)
  next
    case 1
    show ?case by (rule lru(1))
  qed
  moreover have "keys_ok bsize s'" using i(4) b key(2) by (simp add: keys_ok_def)
  moreover have "coherent (unsaved c') s'"
    using i(5) b val st unfolding coherent_def same_devs[OF env(1)] same_media[OF env] by (auto split: if_splits)
  ultimately show ?thesis using held by (simp add: cache_inv_def)
qed

lemma cache_invD:
  assumes "cache_inv bsize (c, s)"
  shows "mounts_ok bsize s" "sectors_ok s" "cache_ok s" "keys_ok bsize s" "held_ok (holds c) s" "coherent (unsaved c) s"
    "distinct (lru s)" "b \<in> set (lru s) \<longleftrightarrow> bufs s b \<noteq> None" "bufs s b = Some x \<Longrightarrow> length (buf_data x) = unat (buf_size x)"
    "bufs s b = Some x \<Longrightarrow> asked bsize (key_of x)"
  using assms by (auto simp: cache_inv_def cache_ok_def keys_ok_def)

lemma inv_valid:
  assumes "cache_inv bsize (c, s)" "bufs s b = Some x" "buf_valid x" "b \<notin> unsaved c"
  shows "in_range s (key_of x) \<and> buf_data x = stored s (key_of x)"
  using cache_invD(6)[OF assms(1)] assms(2-4) by (simp add: coherent_def)

lemma front: "distinct xs \<Longrightarrow> x \<in> set xs \<Longrightarrow>
    distinct (x # remove1 x xs) \<and> set (x # remove1 x xs) = set xs \<and> length (x # remove1 x xs) = length xs"
  using length_pos_if_in_set[of x xs] by (auto simp: length_remove1)

lemma matches_key: "matches bd k sz s b \<longleftrightarrow> (\<exists>x. bufs s b = Some x \<and> key_of x = (bd, k, sz))"
  by (auto simp: matches_def key_of_def split: option.splits)

lemma find_match:
  assumes "cache_inv bsize (c, s)"
  shows "find (matches bd k sz s) (lru s) = Some b \<Longrightarrow> \<exists>x. bufs s b = Some x \<and> key_of x = (bd, k, sz)"
    "find (matches bd k sz s) (lru s) = None \<Longrightarrow> bufs s b = Some x \<Longrightarrow> key_of x \<noteq> (bd, k, sz)"
  using cache_invD(8)[OF assms, of b] by (auto simp: find_Some_iff find_None_iff matches_key)

lemma refer_inv:
  assumes inv: "cache_inv bsize (c, s)" and b: "bufs s b = Some x"
    and s': "s' = upd_buf b (\<lambda>x. x\<lparr>buf_refcount := buf_refcount x + 1\<rparr>) s \<or>
      s' = (upd_buf b (\<lambda>x. x\<lparr>buf_refcount := buf_refcount x + 1\<rparr>) s)\<lparr>lru := b # remove1 b (lru s)\<rparr>"
  shows "cache_inv bsize (c\<lparr>holds := (b, key_of x) # holds c\<rparr>, s')"
proof -
  let ?y = "x\<lparr>buf_refcount := buf_refcount x + 1\<rparr>"
  have n: "bufs s' = (bufs s)(b \<mapsto> ?y)" "devs s' = devs s" "media s' = media s" "bcache_count s' = bcache_count s"
    using s' b by (auto simp: upd_buf_def)
  have in_lru: "b \<in> set (lru s)" using cache_invD(8)[OF inv, of b] b by simp
  have "lru s' = lru s \<or> lru s' = b # remove1 b (lru s)" using s' by (auto simp: upd_buf_def)
  then have l: "distinct (lru s')" "set (lru s') = set (lru s)" "length (lru s') = length (lru s)"
    using front[OF cache_invD(7)[OF inv] in_lru] cache_invD(7)[OF inv] by presburger+
  have k: "key_of ?y = key_of x" by (simp add: key_of_def)
  show ?thesis
  proof (rule cache_upd[OF inv b n(1-3) l n(4)], goal_cases)
    case 4
    show ?case using held_take[OF cache_invD(5)[OF inv] b n(1)] k by simp
  next
    case 5
    then show ?case using inv_valid[OF inv b] k by simp
  qed (use k cache_invD(9,10)[OF inv b] in auto)
qed

lemma victimD:
  assumes "find_victim s = Some v"
  shows "\<exists>x. bufs s v = Some x \<and> buf_refcount x = 0 \<and> v \<in> set (lru s) \<and> bcache_count s \<ge> BCACHE_MAX"
  using assms by (auto simp: find_victim_def find_Some_iff unused_def rev_nth split: if_splits option.splits)

lemma found_inv:
  assumes inv: "cache_inv bsize (c, s)" and a: "asked bsize (bd, k, sz)" and f: "bget_find bd k sz s = (Some b, s')"
  shows "cache_inv bsize (c\<lparr>holds := (b, bd, k, sz) # holds c\<rparr>, s')"
proof (cases "find (matches bd k sz s) (lru s)")
  case (Some b')
  then have b: "b' = b" and s': "s' = (upd_buf b (\<lambda>x. x\<lparr>buf_refcount := buf_refcount x + 1\<rparr>) s)\<lparr>lru := b # remove1 b (lru s)\<rparr>"
    using f by (auto simp: bget_find_def)
  obtain x where "bufs s b = Some x" "key_of x = (bd, k, sz)" using find_match(1)[OF inv Some] b by blast
  with refer_inv[OF inv, of b x s'] s' show ?thesis by simp
next
  case None
  then obtain v x where v: "find_victim s = Some v" and x: "bufs s v = Some x" "buf_refcount x = 0" "v \<in> set (lru s)"
    using f victimD by (fastforce simp: bget_find_def split: option.splits)
  let ?y = "x\<lparr>buf_bd := bd, buf_block := k, buf_valid := False, buf_refcount := 1\<rparr>"
  have e: "buf_size x = sz" "b = v" "bufs s' = (bufs s)(v \<mapsto> ?y)" "devs s' = devs s" "media s' = media s" "bcache_count s' = bcache_count s"
      "lru s' = v # remove1 v (lru s)"
    using f None v x by (auto simp: bget_find_def upd_buf_def split: if_splits)
  have k: "key_of ?y = (bd, k, sz)" using e(1) by (simp add: key_of_def)
  have l: "distinct (lru s')" "set (lru s') = set (lru s)" "length (lru s') = length (lru s)"
    unfolding e(7) using front[OF cache_invD(7)[OF inv] x(3)] by blast+
  show ?thesis
  proof (rule cache_upd[OF inv x(1) e(3-5) l e(6)], goal_cases)
    case 1
    show ?case using find_match(2)[OF inv None] k by metis
  next
    case 4
    show ?case using held_take[OF cache_invD(5)[OF inv] x(1) e(3)] k x(2) e(2) by simp
  qed (use k a cache_invD(9)[OF inv x(1)] in auto)
qed

lemma freed_inv:
  assumes inv: "cache_inv bsize (c, s)" and f: "bget_find bd k sz s = (None, s')"
  shows "cache_inv bsize (c, s') \<and> devs s' = devs s \<and> media s' = media s \<and> driver_calls s' = driver_calls s \<and>
    (\<forall>b. bufs s b = None \<longrightarrow> bufs s' b = None) \<and> (\<forall>b x. bufs s' b = Some x \<longrightarrow> key_of x \<noteq> (bd, k, sz))"
proof -
  have miss: "find (matches bd k sz s) (lru s) = None" using f by (auto simp: bget_find_def split: option.splits)
  note absent = find_match(2)[OF inv miss]
  show ?thesis
  proof (cases "find_victim s")
    case None
    then show ?thesis using f inv miss absent by (simp add: bget_find_def)
  next
    case (Some v)
    then obtain x where x: "bufs s v = Some x" "buf_refcount x = 0" "v \<in> set (lru s)" using victimD by blast
    have s': "s' = s\<lparr>lru := remove1 v (lru s), bcache_count := bcache_count s - 1, bufs := (bufs s)(v := None)\<rparr>"
      using f miss Some by (auto simp: bget_find_def split: if_splits)
    have d: "devs s' = devs s" "media s' = media s" "bufs s' = (bufs s)(v := None)" by (simp_all add: s')
    have nh: "v \<notin> fst ` set (holds c)" using held_count[OF cache_invD(5)[OF inv] x(1)] x(2) by (simp add: count_list_0_iff)
    have "cache_ok s'"
      unfolding cache_ok_def
    proof (intro conjI, goal_cases)
      case 2
      show ?case using cache_invD(3,7)[OF inv] by (auto simp: cache_ok_def s')
    next
      case 3
      have "length (lru s) = Suc (length (remove1 v (lru s)))" using x(3) length_pos_if_in_set[OF x(3)] by (simp add: length_remove1)
      then show ?case using cache_invD(3)[OF inv] by (simp add: cache_ok_def s')
    next
      case 4
      have "\<forall>b c x y. bufs s b = Some x \<and> bufs s c = Some y \<and> key_of x = key_of y \<longrightarrow> b = c"
        using cache_invD(3)[OF inv] by (simp add: cache_ok_def)
      then show ?case unfolding d(3) by (metis fun_upd_apply option.distinct(1))
    next
      case 5
      show ?case using cache_invD(9)[OF inv] by (simp add: d(3))
    qed (use cache_invD(7)[OF inv] in \<open>simp add: s'\<close>)
    moreover have "held_ok (holds c) s'"
    proof (rule held_okI)
      fix b key assume h: "(b, key) \<in> set (holds c)"
      then have "b \<noteq> v" using nh by force
      then show "\<exists>x. bufs s' b = Some x \<and> key_of x = key" using held_key[OF cache_invD(5)[OF inv] h] d(3) by simp
    next
      fix b x assume "bufs s' b = Some x"
      then have "bufs s b = Some x" unfolding d(3) by (simp split: if_splits)
      then show "buf_refcount x = int (count_list (map fst (holds c)) b)" by (rule held_count[OF cache_invD(5)[OF inv]])
    qed
    moreover have "coherent (unsaved c) s'"
      using cache_invD(6)[OF inv] unfolding coherent_def same_devs[OF d(1)] same_media[OF d(1,2)] d(3) by auto
    ultimately have "cache_inv bsize (c, s')"
      using cache_invD(1,2,4)[OF inv] d unfolding cache_inv_def keys_ok_def by (simp add: same_devs(6)[OF d(1)] sectors_ok_def)
    then show ?thesis using absent by (simp add: s')
  qed
qed

lemma added_inv:
  assumes inv: "cache_inv bsize (c, s)" and a: "asked bsize (bd, k, sz)" and n: "bufs s b = None" "length bytes = unat sz"
    and f: "bget_add b bytes bd k sz s = (b', s')"
  shows "cache_inv bsize (c\<lparr>holds := (b', bd, k, sz) # holds c\<rparr>, s')"
proof (cases "find (matches bd k sz s) (lru s)")
  case (Some b'')
  then have b: "b'' = b'" and s': "s' = upd_buf b' (\<lambda>x. x\<lparr>buf_refcount := buf_refcount x + 1\<rparr>) s"
    using f by (auto simp: bget_add_def)
  obtain x where "bufs s b' = Some x" "key_of x = (bd, k, sz)" using find_match(1)[OF inv Some] b by blast
  with refer_inv[OF inv, of b' x s'] s' show ?thesis by simp
next
  case None
  define y where "y = \<lparr>buf_bd = bd, buf_block = k, buf_size = sz, buf_data = bytes, buf_valid = False, buf_refcount = 1\<rparr>"
  have e: "b' = b" "s' = s\<lparr>bufs := (bufs s)(b \<mapsto> y), lru := b # lru s, bcache_count := bcache_count s + 1\<rparr>"
    using f None by (auto simp: bget_add_def y_def)
  have d: "devs s' = devs s" "media s' = media s" "bufs s' = (bufs s)(b \<mapsto> y)" by (simp_all add: e)
  have k: "key_of y = (bd, k, sz)" by (simp add: y_def key_of_def)
  have b: "b \<notin> set (lru s)" using cache_invD(8)[OF inv, of b] n(1) by simp
  have nh: "b \<notin> fst ` set (holds c)" using held_key[OF cache_invD(5)[OF inv], of b] n(1) by force
  have "cache_ok s'"
    unfolding cache_ok_def
  proof (intro conjI, goal_cases)
    case 1
    show ?case using b cache_invD(7)[OF inv] by (simp add: e)
  next
    case 2
    show ?case using cache_invD(3)[OF inv] by (auto simp: cache_ok_def e)
  next
    case 3
    show ?case using cache_invD(3)[OF inv] by (simp add: cache_ok_def e)
  next
    case 4
    have "\<forall>b c x y. bufs s b = Some x \<and> bufs s c = Some y \<and> key_of x = key_of y \<longrightarrow> b = c"
      using cache_invD(3)[OF inv] by (simp add: cache_ok_def)
    then show ?case unfolding d(3) using find_match(2)[OF inv None] k by (metis fun_upd_apply option.inject)
  next
    case 5
    show ?case using cache_invD(9)[OF inv] n(2) by (simp add: d(3) y_def)
  qed
  moreover have "held_ok ((b, key_of y) # holds c) s'"
  proof (rule held_okI)
    fix p key assume "(p, key) \<in> set ((b, key_of y) # holds c)"
    then consider "p = b" "key = key_of y" | "(p, key) \<in> set (holds c)" "p \<noteq> b" using nh by force
    then show "\<exists>x. bufs s' p = Some x \<and> key_of x = key"
    proof cases
      case 2
      then show ?thesis using held_key[OF cache_invD(5)[OF inv] 2(1)] d(3) by simp
    qed (simp add: d(3))
  next
    fix p x assume "bufs s' p = Some x"
    then show "buf_refcount x = int (count_list (map fst ((b, key_of y) # holds c)) p)"
      using held_count[OF cache_invD(5)[OF inv], of p x] nh unfolding d(3)
      by (cases "p = b") (auto simp: y_def count_list_0_iff)
  qed
  moreover have "coherent (unsaved c) s'"
    using cache_invD(6)[OF inv] unfolding coherent_def same_devs[OF d(1)] same_media[OF d(1,2)] d(3) by (auto simp: y_def)
  ultimately show ?thesis
    using cache_invD(1,2,4)[OF inv] d a k e(1) unfolding cache_inv_def keys_ok_def by (simp add: same_devs(6)[OF d(1)] sectors_ok_def)
qed

lemma length_stored: "sectors_ok s \<Longrightarrow> length (stored s (bd, k, sz)) = unat (sz div 512) * SECTOR"
  by (simp add: stored_def get_sectors_def sectors_ok_def length_concat o_def sum_list_triv)

lemma splice_all: "length xs = length ys \<Longrightarrow> splice 0 xs ys = xs" by (simp add: splice_def)

text \<open>What filling a buffer does.\<close>

lemma fill_spec:
  assumes inv: "cache_inv bsize (c, s)" and b: "bufs s b = Some x" "key_of x = (bd, k, sz)" "\<not> buf_valid x"
  shows "\<exists>ok s'. fill_buf faults b bd k sz s = Inr (ok, s') \<and> devs s' = devs s \<and> media s' = media s \<and> lru s' = lru s \<and>
    bcache_count s' = bcache_count s \<and> (ok \<longrightarrow> in_range s (bd, k, sz)) \<and>
    (ok \<longleftrightarrow> in_range s (bd, k, sz) \<and> \<not> faults (length (driver_calls s))) \<and>
    bufs s' = (bufs s)(b \<mapsto> if ok then x\<lparr>buf_data := stored s (bd, k, sz), buf_valid := True\<rparr> else x\<lparr>buf_refcount := buf_refcount x - 1\<rparr>)"
proof -
  have a: "asked bsize (bd, k, sz)" using cache_invD(10)[OF inv b(1)] b(2) by simp
  note rw = block_rw[OF cache_invD(1)[OF inv] a]
  have len: "length (buf_data x) = unat sz" using cache_invD(9)[OF inv b(1)] b(2) by (simp add: key_of_def)
  show ?thesis
  proof (cases "in_range s (bd, k, sz)")
    case False
    then show ?thesis using b by (intro exI[of _ False]) (simp add: fill_buf_def blk_read_def rw brelse_def upd_buf_def)
  next
    case True
    define s1 where "s1 = s\<lparr>driver_calls := \<lparr>on_disk = disk_of s bd, at_lba = of_nat (block_at s (bd, k, sz)), n_sectors = sz div 512, writes = False\<rparr> # driver_calls s\<rparr>"
    have d: "driver faults (disk_of s bd) (of_nat (block_at s (bd, k, sz))) (sz div 512) None s =
        (if faults (length (driver_calls s)) then None else Some (stored s (bd, k, sz)), s1)"
      by (simp add: driver_def Let_def s1_def stored_def get_sectors_def in_range_disk(2)[OF cache_invD(1)[OF inv] a True])
    have "splice 0 (stored s (bd, k, sz)) (buf_data x) = stored s (bd, k, sz)"
      using len length_stored[OF cache_invD(2)[OF inv], of bd k sz] mounts_okD(4)[OF cache_invD(1)[OF inv] a] by (intro splice_all) simp
    then show ?thesis
      using b True by (auto simp: fill_buf_def blk_read_def rw d brelse_def upd_buf_def s1_def)
  qed
qed

lemma filled_inv:
  assumes inv: "cache_inv bsize (c, s)" and h: "(b, bd, k, sz) \<in> set (holds c)" and b: "bufs s b = Some x"
    and f: "fill_buf faults b bd k sz s = Inr (ok, s')"
  shows "cache_inv bsize (if \<not> ok then c\<lparr>holds := remove1 (b, bd, k, sz) (holds c)\<rparr> else if buf_valid x then c else c\<lparr>unsaved := unsaved c - {b}\<rparr>, s')"
proof (cases "buf_valid x")
  case True
  then show ?thesis using f inv b by (simp add: fill_buf_def)
next
  case False
  have key: "key_of x = (bd, k, sz)" using held_key[OF cache_invD(5)[OF inv] h] b by simp
  let ?y = "if ok then x\<lparr>buf_data := stored s (bd, k, sz), buf_valid := True\<rparr> else x\<lparr>buf_refcount := buf_refcount x - 1\<rparr>"
  have n: "bufs s' = (bufs s)(b \<mapsto> ?y)" "devs s' = devs s" "media s' = media s" "bcache_count s' = bcache_count s" "lru s' = lru s"
    "ok \<longrightarrow> in_range s (bd, k, sz)" using fill_spec[OF inv b key False, of faults] f by auto
  have l: "distinct (lru s')" "set (lru s') = set (lru s)" "length (lru s') = length (lru s)" using n(5) cache_invD(7)[OF inv] by simp_all
  have ky: "key_of ?y = key_of x" by (simp add: key_of_def)
  have a: "asked bsize (bd, k, sz)" using cache_invD(10)[OF inv b] key by simp
  show ?thesis
  proof (rule cache_upd[OF inv b n(1-3) l n(4)], goal_cases)
    case 3
    show ?case
      using cache_invD(9)[OF inv b] length_stored[OF cache_invD(2)[OF inv], of bd k sz] mounts_okD(4)[OF cache_invD(1)[OF inv] a] key
      by (auto simp: key_of_def)
  next
    case 4
    show ?case
    proof (cases ok)
      case True
      then show ?thesis using False ky held_same[OF cache_invD(5)[OF inv] b n(1)] by simp
    next
      case no: False
      then show ?thesis using held_give[OF cache_invD(5)[OF inv] b n(1) _ _ h] ky by simp
    qed
  qed (use ky key a n(6) False in \<open>auto split: if_splits\<close>)
qed

lemma released_inv:
  assumes inv: "cache_inv bsize (c, s)" and h: "(b, key) \<in> set (holds c)" and f: "brelse b s = Inr s'"
  shows "cache_inv bsize (c\<lparr>holds := remove1 (b, key) (holds c)\<rparr>, s')"
proof -
  obtain x where b: "bufs s b = Some x" using held_key[OF cache_invD(5)[OF inv] h] by blast
  let ?y = "x\<lparr>buf_refcount := buf_refcount x - 1\<rparr>"
  have n: "bufs s' = (bufs s)(b \<mapsto> ?y)" "devs s' = devs s" "media s' = media s" "bcache_count s' = bcache_count s" "lru s' = lru s"
    using f b by (auto simp: brelse_def upd_buf_def)
  have l: "distinct (lru s')" "set (lru s') = set (lru s)" "length (lru s') = length (lru s)" using n(5) cache_invD(7)[OF inv] by simp_all
  have ky: "key_of ?y = key_of x" by (simp add: key_of_def)
  show ?thesis
  proof (rule cache_upd[OF inv b n(1-3) l n(4)], goal_cases)
    case 4
    show ?case using held_give[OF cache_invD(5)[OF inv] b n(1) _ ky h] by simp
  qed (use ky cache_invD(9,10)[OF inv b] inv_valid[OF inv b] in auto)
qed

lemma put_sectors_rest:
  "devs (put_sectors disk a n bytes s) = devs s" "lru (put_sectors disk a n bytes s) = lru s" "bufs (put_sectors disk a n bytes s) = bufs s"
  "bcache_count (put_sectors disk a n bytes s) = bcache_count s"
  "media (put_sectors disk a n bytes (s\<lparr>driver_calls := cs\<rparr>)) = media (put_sectors disk a n bytes s)"
  by (simp_all add: put_sectors_def fun_eq_iff)

text \<open>What a write of a buffer does: nothing to the disk if it fails.\<close>

lemma write_spec:
  assumes inv: "cache_inv bsize (c, s)" and b: "bufs s b = Some x"
  shows "\<exists>r s'. bwrite faults b s = Inr (r, s') \<and> devs s' = devs s \<and> lru s' = lru s \<and> bcache_count s' = bcache_count s \<and> bufs s' = bufs s \<and>
    (case r of Inl _ \<Rightarrow> media s' = media s
     | Inr _ \<Rightarrow> in_range s (key_of x) \<and>
         media s' = media (put_sectors (disk_of s (buf_bd x)) (block_at s (key_of x)) (unat (buf_size x div 512)) (buf_data x) s))"
proof -
  have key: "key_of x = (buf_bd x, buf_block x, buf_size x)" by (simp add: key_of_def)
  have a: "asked bsize (buf_bd x, buf_block x, buf_size x)" using cache_invD(10)[OF inv b] by (simp add: key)
  note rw = block_rw[OF cache_invD(1)[OF inv] a]
  show ?thesis
  proof (cases "in_range s (key_of x)")
    case False
    then show ?thesis using b by (intro exI[of _ "Inl EINVAL"]) (simp add: bwrite_def blk_write_def rw key)
  next
    case True
    note at = in_range_disk(2)[OF cache_invD(1)[OF inv] a True[unfolded key]]
    show ?thesis
    proof (cases "faults (length (driver_calls s))")
      case f: True
      show ?thesis using b True f by (intro exI[of _ "Inl EIO"]) (simp add: bwrite_def blk_write_def rw key driver_def Let_def)
    next
      case f: False
      show ?thesis
        using b True f by (intro exI[of _ "Inr ()"]) (simp add: bwrite_def blk_write_def rw key driver_def Let_def at put_sectors_rest)
    qed
  qed
qed

lemma write_ok:
  assumes inv: "cache_inv bsize (c, s)" and b: "bufs s b = Some x" and rng: "in_range s (key_of x)"
    and ok: "\<not> faults (length (driver_calls s))" and w: "bwrite faults b s = Inr (r, s')"
  shows "r = Inr ()"
proof -
  have key: "key_of x = (buf_bd x, buf_block x, buf_size x)" by (simp add: key_of_def)
  have a: "asked bsize (buf_bd x, buf_block x, buf_size x)" using cache_invD(10)[OF inv b] by (simp add: key)
  show ?thesis
    using w b rng ok by (simp add: bwrite_def blk_write_def block_rw[OF cache_invD(1)[OF inv] a] key driver_def Let_def)
qed

lemma stored_put:
  assumes inv: "cache_inv bsize (c, s)" and b: "bufs s b = Some x" "in_range s (key_of x)"
    and s': "devs s' = devs s" "media s' = media (put_sectors (disk_of s (buf_bd x)) (block_at s (key_of x)) (unat (buf_size x div 512)) (buf_data x) s)"
  shows "stored s' (key_of x) = buf_data x" "sectors_ok s'"
    "bufs s a = Some y \<Longrightarrow> in_range s (key_of y) \<Longrightarrow> key_of y \<noteq> key_of x \<Longrightarrow> stored s' (key_of y) = stored s (key_of y)"
proof -
  let ?p = "put_sectors (disk_of s (buf_bd x)) (block_at s (key_of x)) (unat (buf_size x div 512)) (buf_data x) s"
  have key: "key_of z = (buf_bd z, buf_block z, buf_size z)" for z by (simp add: key_of_def)
  note a = cache_invD(10)[OF inv b(1)]
  have len: "length (buf_data x) = unat (buf_size x div 512) * SECTOR"
    using cache_invD(9)[OF inv b(1)] mounts_okD(4)[OF cache_invD(1)[OF inv] a[unfolded key]] by simp
  have st: "stored s' (d, k, sz) = get_sectors (disk_of s d) (block_at s (d, k, sz)) (unat (sz div 512)) ?p" for d k sz
    by (simp add: stored_def get_sectors_def same_devs(1,4)[OF s'(1)] s'(2))
  show "stored s' (key_of x) = buf_data x" unfolding key st using get_put_sectors[OF len] by (simp add: key)
  show "sectors_ok s'" using put_sectors_ok[OF cache_invD(2)[OF inv] len] s'(2) by (simp add: sectors_ok_def)
  show "stored s' (key_of y) = stored s (key_of y)" if y: "bufs s a = Some y" "in_range s (key_of y)" "key_of y \<noteq> key_of x"
  proof -
    have "disk_of s (buf_bd y) \<noteq> disk_of s (buf_bd x) \<or> block_at s (key_of y) + unat (buf_size y div 512) \<le> block_at s (key_of x) \<or>
        block_at s (key_of x) + unat (buf_size x div 512) \<le> block_at s (key_of y)"
      using blocks_disjoint[OF cache_invD(1)[OF inv] a b(2) cache_invD(10)[OF inv y(1)] y(2) y(3)[symmetric]] by (simp add: key)
    from get_other_sectors[OF this, of "buf_data x" s] show ?thesis unfolding key st by (simp add: stored_def)
  qed
qed

lemma new_data_inv:
  assumes inv: "cache_inv bsize (c, s)" and b: "bufs s b = Some x" and len: "length bytes = length (buf_data x)"
  shows "cache_inv bsize (c\<lparr>unsaved := insert b (unsaved c)\<rparr>, upd_buf b (\<lambda>x. x\<lparr>buf_data := bytes\<rparr>) s)"
proof -
  let ?y = "x\<lparr>buf_data := bytes\<rparr>" and ?s = "upd_buf b (\<lambda>x. x\<lparr>buf_data := bytes\<rparr>) s"
  have n: "bufs ?s = (bufs s)(b \<mapsto> ?y)" "devs ?s = devs s" "media ?s = media s" "bcache_count ?s = bcache_count s" "lru ?s = lru s"
    using b by (auto simp: upd_buf_def)
  have l: "distinct (lru ?s)" "set (lru ?s) = set (lru s)" "length (lru ?s) = length (lru s)" using n(5) cache_invD(7)[OF inv] by simp_all
  have ky: "key_of ?y = key_of x" by (simp add: key_of_def)
  show ?thesis
  proof (rule cache_upd[OF inv b n(1-3) l n(4)], goal_cases)
    case 4
    show ?case using held_same[OF cache_invD(5)[OF inv] b n(1) _ ky] by simp
  qed (use ky len cache_invD(9,10)[OF inv b] in auto)
qed

lemma written_inv:
  assumes inv: "cache_inv bsize (c, s)" and b: "bufs s b = Some x" and w: "bwrite faults b s = Inr (r, s')"
  shows "cache_inv bsize (c\<lparr>unsaved := case r of Inl _ \<Rightarrow> insert b (unsaved c) | Inr _ \<Rightarrow> unsaved c - {b}\<rparr>, s')"
proof -
  have n: "devs s' = devs s" "lru s' = lru s" "bcache_count s' = bcache_count s" "bufs s' = bufs s"
    "case r of Inl _ \<Rightarrow> media s' = media s
     | Inr _ \<Rightarrow> in_range s (key_of x) \<and>
         media s' = media (put_sectors (disk_of s (buf_bd x)) (block_at s (key_of x)) (unat (buf_size x div 512)) (buf_data x) s)"
    using write_spec[OF inv b, of faults] w by auto
  have common: "mounts_ok bsize s'" "cache_ok s'" "keys_ok bsize s'" "held_ok (holds c) s'"
    using cache_invD(1,3,4,5)[OF inv] n(2-4) by (simp_all add: same_devs(6)[OF n(1)] cache_ok_def keys_ok_def held_ok_def)
  show ?thesis
  proof (cases r)
    case (Inl e)
    then have m: "media s' = media s" using n(5) by simp
    then have "sectors_ok s'" "coherent (insert b (unsaved c)) s'"
      using cache_invD(2,6)[OF inv] n(4) by (auto simp: sectors_ok_def coherent_def same_devs(5)[OF n(1)] same_media[OF n(1)])
    then show ?thesis using common Inl by (simp add: cache_inv_def)
  next
    case (Inr u)
    then have m: "in_range s (key_of x)"
      "media s' = media (put_sectors (disk_of s (buf_bd x)) (block_at s (key_of x)) (unat (buf_size x div 512)) (buf_data x) s)"
      using n(5) by simp_all
    note put = stored_put[OF inv b m(1) n(1) m(2)]
    have "coherent (unsaved c - {b}) s'"
      unfolding coherent_def same_devs(5)[OF n(1)] n(4)
    proof (intro allI impI, elim conjE)
      fix a z assume z: "bufs s a = Some z" "buf_valid z" "a \<notin> unsaved c - {b}"
      show "in_range s (key_of z) \<and> buf_data z = stored s' (key_of z)"
      proof (cases "a = b")
        case True
        then show ?thesis using z b put(1) m(1) by simp
      next
        case False
        have "in_range s (key_of z)" "buf_data z = stored s (key_of z)" using inv_valid[OF inv z(1,2)] z(3) False by simp_all
        moreover have "key_of z \<noteq> key_of x" using cache_invD(3)[OF inv] z(1) b False unfolding cache_ok_def by blast
        ultimately show ?thesis using put(3)[OF z(1)] by simp
      qed
    qed
    then show ?thesis using common put(2) Inr by (simp add: cache_inv_def)
  qed
qed

lemma invalidated_inv:
  assumes inv: "cache_inv bsize (c, s)"
  shows "cache_inv bsize (c, bcache_invalidate bd s)"
proof -
  let ?s = "bcache_invalidate bd s"
  have n: "devs ?s = devs s" "media ?s = media s" "lru ?s = lru s" "bcache_count ?s = bcache_count s" by (simp_all add: bcache_invalidate_def)
  have b: "\<exists>x. bufs s b = Some x \<and> key_of y = key_of x \<and> buf_refcount y = buf_refcount x \<and> buf_data y = buf_data x \<and> (buf_valid y \<longrightarrow> buf_valid x)"
    if "bufs ?s b = Some y" for b y using that by (auto simp: bcache_invalidate_def key_of_def split: if_splits)
  have b': "\<exists>y. bufs ?s b = Some y \<and> key_of y = key_of x" if "bufs s b = Some x" for b x
    using that by (simp add: bcache_invalidate_def key_of_def)
  have "dom (bufs ?s) = dom (bufs s)" using b b' by blast
  moreover have u: "p = q" if "bufs ?s p = Some v" "bufs ?s q = Some w" "key_of v = key_of w" for p q v w
    using b[OF that(1)] b[OF that(2)] that(3) cache_invD(3)[OF inv] unfolding cache_ok_def by metis
  moreover have "length (buf_data y) = unat (buf_size y)" if "bufs ?s p = Some y" for p y
    using b[OF that] cache_invD(9)[OF inv] by (auto simp: key_of_def)
  ultimately have "cache_ok ?s"
    using cache_invD(3)[OF inv] n(3,4) unfolding cache_ok_def by (intro conjI allI impI; (elim conjE)?) (simp_all only: u)
  moreover have "held_ok (holds c) ?s"
  proof (rule held_okI)
    fix p key assume "(p, key) \<in> set (holds c)"
    then show "\<exists>x. bufs ?s p = Some x \<and> key_of x = key" using held_key[OF cache_invD(5)[OF inv]] b' by metis
  next
    fix p x assume "bufs ?s p = Some x"
    then show "buf_refcount x = int (count_list (map fst (holds c)) p)" using b held_count[OF cache_invD(5)[OF inv]] by metis
  qed
  moreover have "coherent (unsaved c) ?s"
    using cache_invD(6)[OF inv] b unfolding coherent_def same_devs[OF n(1)] same_media[OF n(1,2)] by metis
  moreover have "keys_ok bsize ?s" using cache_invD(4)[OF inv] b unfolding keys_ok_def by metis
  ultimately show ?thesis using cache_invD(1,2)[OF inv] n by (simp add: cache_inv_def same_devs(6)[OF n(1)] sectors_ok_def)
qed

lemma step_inv: "cache_step bsize faults cs cs' \<Longrightarrow> cache_inv bsize cs \<Longrightarrow> cache_inv bsize cs'"
proof (induction rule: cache_step.induct)
  case (Filled b bd k sz c s x s')
  then show ?case using filled_inv[of bsize c s b bd k sz x faults True s'] by simp
next
  case (Not_filled b bd k sz c s s')
  moreover obtain x where "bufs s b = Some x"
    using held_key[OF cache_invD(5)[OF Not_filled(3)] Not_filled(1)] by blast
  ultimately show ?case using filled_inv[of bsize c s b bd k sz x faults False s'] by simp
next
  case (Modified b key c s x bytes)
  then show ?case by (intro new_data_inv)
next
  case (Written b key c s s')
  moreover obtain x where "bufs s b = Some x" using held_key[OF cache_invD(5)[OF Written(3)] Written(1)] by blast
  ultimately show ?case using written_inv[of bsize c s b x faults "Inr ()" s'] by simp
next
  case (Not_written b key c s e s')
  moreover obtain x where "bufs s b = Some x" using held_key[OF cache_invD(5)[OF Not_written(3)] Not_written(1)] by blast
  ultimately show ?case using written_inv[of bsize c s b x faults "Inl e" s'] by simp
next
  case (Found bd k sz s b s' c)
  then show ?case by (intro found_inv)
next
  case (Not_found bd k sz s s' c)
  then show ?case using freed_inv by blast
next
  case (Added bd k sz s b bytes b' s' c)
  then show ?case by (intro added_inv)
next
  case (Released b key c s s')
  then show ?case by (intro released_inv)
next
  case (Invalidated c s bd)
  then show ?case by (rule invalidated_inv)
qed

lemma reach_inv:
  "cache_reach bsize faults s0 cs \<Longrightarrow> mounts_ok bsize s0 \<Longrightarrow> sectors_ok s0 \<Longrightarrow> empty_cache s0 \<Longrightarrow> cache_inv bsize cs"
  by (induction rule: cache_reach.induct) (auto intro: cache_inv_start step_inv)

section \<open>Reading a block\<close>

lemma bget_rest:
  "bget_find bd k sz s = (r, s') \<Longrightarrow> devs s' = devs s \<and> media s' = media s \<and> driver_calls s' = driver_calls s"
  "bget_add b bytes bd k sz s = (b', s') \<Longrightarrow> devs s' = devs s \<and> media s' = media s \<and> driver_calls s' = driver_calls s"
  by (auto simp: bget_find_def bget_add_def upd_buf_def split: option.splits if_splits)

lemma hit_find:
  assumes inv: "cache_inv bsize (c, s)" and x: "bufs s p = Some x" "key_of x = (bd, k, sz)"
  shows "\<exists>s'. bget_find bd k sz s = (Some p, s') \<and> bufs s' p = Some (x\<lparr>buf_refcount := buf_refcount x + 1\<rparr>)"
proof -
  obtain b where b: "find (matches bd k sz s) (lru s) = Some b" using find_match(2)[OF inv _ x(1)] x(2) by (cases "find (matches bd k sz s) (lru s)") auto
  obtain y where "bufs s b = Some y" "key_of y = (bd, k, sz)" using find_match(1)[OF inv b] by blast
  then have "b = p" using cache_invD(3)[OF inv] x unfolding cache_ok_def by metis
  then show ?thesis using b x(1) by (simp add: bget_find_def upd_buf_def)
qed

text \<open>The part of \<^verbatim>\<open>bread\<close> after \<^verbatim>\<open>bget\<close>, by the process that holds the buffer.\<close>

lemma fill_reach:
  assumes r: "cache_reach bsize faults s0 (c\<lparr>holds := (b, bd, k, sz) # holds c\<rparr>, s)"
    and inv: "cache_inv bsize (c\<lparr>holds := (b, bd, k, sz) # holds c\<rparr>, s)"
  shows "\<exists>c' ok s'. fill_buf faults b bd k sz s = Inr (ok, s') \<and> cache_reach bsize faults s0 (c', s') \<and> cache_inv bsize (c', s') \<and>
    media s' = media s \<and> devs s' = devs s \<and> unsaved c' \<subseteq> unsaved c \<and>
    (if ok then holds c' = (b, bd, k, sz) # holds c \<and> (\<exists>x. bufs s' b = Some x \<and> key_of x = (bd, k, sz) \<and> buf_valid x)
     else holds c' = holds c \<and> (\<not> in_range s (bd, k, sz) \<or> faults (length (driver_calls s)))) \<and>
    ((\<exists>x. bufs s b = Some x \<and> buf_valid x) \<longrightarrow> ok \<and> s' = s \<and> unsaved c' = unsaved c)"
proof -
  let ?c = "c\<lparr>holds := (b, bd, k, sz) # holds c\<rparr>"
  have h: "(b, bd, k, sz) \<in> set (holds ?c)" by simp
  obtain x where x: "bufs s b = Some x" "key_of x = (bd, k, sz)" using held_key[OF cache_invD(5)[OF inv] h] by blast
  show ?thesis
  proof (cases "buf_valid x")
    case True
    then have "fill_buf faults b bd k sz s = Inr (True, s)" using x by (simp add: fill_buf_def)
    then show ?thesis using True x r inv by (intro exI[of _ ?c] exI[of _ True]) auto
  next
    case False
    obtain ok s' where f: "fill_buf faults b bd k sz s = Inr (ok, s')" "devs s' = devs s" "media s' = media s"
      "ok \<longleftrightarrow> in_range s (bd, k, sz) \<and> \<not> faults (length (driver_calls s))"
      "bufs s' = (bufs s)(b \<mapsto> if ok then x\<lparr>buf_data := stored s (bd, k, sz), buf_valid := True\<rparr> else x\<lparr>buf_refcount := buf_refcount x - 1\<rparr>)"
      using fill_spec[OF inv x False, of faults] by blast
    let ?d = "if \<not> ok then ?c\<lparr>holds := remove1 (b, bd, k, sz) (holds ?c)\<rparr> else ?c\<lparr>unsaved := unsaved ?c - {b}\<rparr>"
    have st: "cache_step bsize faults (?c, s) (?d, s')"
      using Filled[OF h x(1), of faults s' bsize] Not_filled[OF h, of faults s s' bsize] f(1) False by (cases ok) simp_all
    show ?thesis
      using step[OF r st] step_inv[OF st inv] f x False by (intro exI[of _ ?d] exI[of _ ok] exI[of _ s']) (auto simp: key_of_def)
  qed
qed

lemma bread_reach:
  assumes r: "cache_reach bsize faults s0 (c, s)" and inv: "cache_inv bsize (c, s)" and a: "asked bsize (bd, k, sz)"
    and alloc: "\<forall>b bytes. alloc = Some (b, bytes) \<longrightarrow> bufs s b = None \<and> length bytes = unat sz"
  shows "\<exists>c' res s'. bread alloc faults bd k sz s = Inr (res, s') \<and> cache_reach bsize faults s0 (c', s') \<and> cache_inv bsize (c', s') \<and>
    media s' = media s \<and> devs s' = devs s \<and> unsaved c' \<subseteq> unsaved c \<and>
    (case res of
       None \<Rightarrow> holds c' = holds c \<and> (alloc = None \<or> \<not> in_range s (bd, k, sz) \<or> faults (length (driver_calls s)))
     | Some b \<Rightarrow> holds c' = (b, bd, k, sz) # holds c \<and> (\<exists>x. bufs s' b = Some x \<and> key_of x = (bd, k, sz) \<and> buf_valid x)) \<and>
    (\<forall>p x. bufs s p = Some x \<and> key_of x = (bd, k, sz) \<and> buf_valid x \<longrightarrow>
       res = Some p \<and> driver_calls s' = driver_calls s \<and> unsaved c' = unsaved c)"
proof -
  obtain res1 s1 where g: "bget_find bd k sz s = (res1, s1)" by (cases "bget_find bd k sz s")
  note rest = bget_rest(1)[OF g]
  have hit: "res1 = Some p \<and> (\<exists>y. bufs s1 p = Some y \<and> buf_valid y)" if "bufs s p = Some x" "key_of x = (bd, k, sz)" "buf_valid x" for p x
    using hit_find[OF inv that(1,2)] g that(3) by auto
  have rng: "in_range s1 = in_range s" using rest same_devs(5)[of s1 s] by blast
  show ?thesis
  proof (cases res1)
    case (Some b)
    note st = Found[OF a g[unfolded Some], of faults c]
    obtain c' ok s' where f: "fill_buf faults b bd k sz s1 = Inr (ok, s')" "cache_reach bsize faults s0 (c', s')" "cache_inv bsize (c', s')"
      "media s' = media s1" "devs s' = devs s1" "unsaved c' \<subseteq> unsaved c"
      "if ok then holds c' = (b, bd, k, sz) # holds c \<and> (\<exists>x. bufs s' b = Some x \<and> key_of x = (bd, k, sz) \<and> buf_valid x)
       else holds c' = holds c \<and> (\<not> in_range s1 (bd, k, sz) \<or> faults (length (driver_calls s1)))"
      "(\<exists>x. bufs s1 b = Some x \<and> buf_valid x) \<longrightarrow> ok \<and> s' = s1 \<and> unsaved c' = unsaved c"
      using fill_reach[OF step[OF r st] step_inv[OF st inv]] by auto
    have "bread alloc faults bd k sz s = Inr (if ok then Some b else None, s')"
      using f(1) g Some by (simp add: bread_def bget_def)
    moreover have "p = b \<and> ok \<and> s' = s1 \<and> unsaved c' = unsaved c" if "bufs s p = Some x" "key_of x = (bd, k, sz)" "buf_valid x" for p x
      using hit[OF that] Some f(8) by auto
    ultimately show ?thesis
      using f(2-7) rest rng by (intro exI[of _ c'] exI[of _ "if ok then Some b else None"] exI[of _ s']) auto
  next
    case None
    note st = Not_found[OF a g[unfolded None], of faults c]
    note fr = freed_inv[OF inv g[unfolded None]]
    have miss: False if "bufs s p = Some x" "key_of x = (bd, k, sz)" "buf_valid x" for p x using hit[OF that] None by simp
    show ?thesis
    proof (cases alloc)
      case no: None
      have "bread alloc faults bd k sz s = Inr (None, s1)" using g None no by (simp add: bread_def bget_def)
      then show ?thesis using step[OF r st] fr no miss by (intro exI[of _ c] exI[of _ None] exI[of _ s1]) auto
    next
      case (Some q)
      obtain b bytes where q: "q = (b, bytes)" by (cases q)
      have n: "bufs s1 b = None" "length bytes = unat sz" using alloc fr Some q by auto
      obtain b' s2 where g2: "bget_add b bytes bd k sz s1 = (b', s2)" by (cases "bget_add b bytes bd k sz s1")
      note rest2 = bget_rest(2)[OF g2]
      have rng2: "in_range s2 = in_range s" using rest rest2 same_devs(5)[of s2 s] by simp
      note st2 = Added[OF a n g2, of faults c]
      have i1: "cache_inv bsize (c, s1)" using fr by blast
      obtain c' ok s' where f: "fill_buf faults b' bd k sz s2 = Inr (ok, s')" "cache_reach bsize faults s0 (c', s')" "cache_inv bsize (c', s')"
        "media s' = media s2" "devs s' = devs s2" "unsaved c' \<subseteq> unsaved c"
        "if ok then holds c' = (b', bd, k, sz) # holds c \<and> (\<exists>x. bufs s' b' = Some x \<and> key_of x = (bd, k, sz) \<and> buf_valid x)
         else holds c' = holds c \<and> (\<not> in_range s2 (bd, k, sz) \<or> faults (length (driver_calls s2)))"
        using fill_reach[OF step[OF step[OF r st] st2] step_inv[OF st2 i1]] by auto
      have "bread alloc faults bd k sz s = Inr (if ok then Some b' else None, s')"
        using f(1) g g2 None Some q by (simp add: bread_def bget_def)
      then show ?thesis
        using f(2-7) rest rest2 rng2 miss by (intro exI[of _ c'] exI[of _ "if ok then Some b' else None"] exI[of _ s']) auto
    qed
  qed
qed

text \<open>A disk of 100 sectors with one file system of blocks of 1024 bytes, where one process has read block 3.\<close>

definition sample_disk :: blk where
  "sample_disk = one_disk (\<lambda>_. replicate SECTOR 0)"

lemma sample_ok: "mounts_ok [0 \<mapsto> 1024] sample_disk" "sectors_ok sample_disk" "empty_cache sample_disk"
proof -
  show "mounts_ok [0 \<mapsto> 1024] sample_disk"
    unfolding mounts_ok_def sample_disk_def by (auto simp: one_disk_ok) (simp_all add: one_disk_def)
qed (simp_all add: sample_disk_def one_disk_def sectors_ok_def empty_cache_def)

lemma sample_held: "\<exists>c s b x. cache_reach [0 \<mapsto> 1024] (\<lambda>_. False) sample_disk (c, s) \<and> (b, 0, 3, 1024) \<in> set (holds c) \<and>
    in_range s (0, 3, 1024) \<and> unsaved c = {} \<and> bufs s b = Some x \<and> buf_valid x"
proof -
  have a: "asked [0 \<mapsto> 1024] (0, 3, 1024)" by (simp add: asked_def)
  have n: "\<forall>b bytes. Some (7, replicate 1024 0) = Some (b, bytes) \<longrightarrow> bufs sample_disk b = None \<and> length bytes = unat (1024 :: u32)"
    by (simp add: sample_disk_def one_disk_def)
  have rng: "in_range sample_disk (0, 3, 1024)" by (simp add: in_range_def size_of_def sample_disk_def one_disk_def)
  let ?c = "\<lparr>holds = [], unsaved = {}\<rparr> :: clients"
  obtain c res s where b: "cache_reach [0 \<mapsto> 1024] (\<lambda>_. False) sample_disk (c, s)" "devs s = devs sample_disk"
    "case res of None \<Rightarrow> holds c = holds ?c \<and> (Some (7 :: nat, replicate 1024 (0 :: u8)) = None \<or> \<not> in_range sample_disk (0, 3, 1024) \<or> False)
     | Some b \<Rightarrow> holds c = (b, 0, 3, 1024) # holds ?c \<and> (\<exists>x. bufs s b = Some x \<and> key_of x = (0, 3, 1024) \<and> buf_valid x)"
    "unsaved c \<subseteq> unsaved ?c"
    using bread_reach[OF start cache_inv_start[OF sample_ok] a n, of "\<lambda>_. False"] by blast
  obtain p x where "holds c = [(p, 0, 3, 1024)]" "bufs s p = Some x" "buf_valid x" using b(3) rng by (cases res) auto
  then show ?thesis using b(1,4) rng same_devs(5)[OF b(2)] by (intro exI[of _ c] exI[of _ s] exI[of _ p] exI[of _ x]) simp
qed

section \<open>Properties\<close>

text \<open>
  C10. Whatever the processes do, in whatever order their critical sections, their changes of bytes and
  their writes run: a buffer that is held is in the cache, counted, and still the buffer of the block it was
  asked for, and no other buffer is for that block. Its bytes are those on the disk if it is marked valid
  and not \<open>unsaved\<close>, that is, if no client has changed it since it was last read or written with success
  and its last write did not fail.
\<close>

theorem held_buffers_are_sound:
  assumes "mounts_ok bsize s0" "sectors_ok s0" "empty_cache s0" "cache_reach bsize faults s0 (c, s)" "(b, key) \<in> set (holds c)"
  shows "\<exists>x. bufs s b = Some x \<and> key_of x = key \<and> b \<in> set (lru s) \<and> 0 < buf_refcount x \<and>
    (\<forall>p y. bufs s p = Some y \<and> key_of y = key \<longrightarrow> p = b) \<and> (buf_valid x \<and> b \<notin> unsaved c \<longrightarrow> buf_data x = stored s key)"
proof -
  note inv = reach_inv[OF assms(4,1-3)]
  obtain x where x: "bufs s b = Some x" "key_of x = key" using held_key[OF cache_invD(5)[OF inv] assms(5)] by blast
  have "b \<in> set (map fst (holds c))" using assms(5) by force
  then have "count_list (map fst (holds c)) b \<noteq> 0" by (simp add: count_list_0_iff)
  then have "0 < buf_refcount x" using held_count[OF cache_invD(5)[OF inv] x(1)] by simp
  moreover have "p = b" if "bufs s p = Some y" "key_of y = key" for p y
    using cache_invD(3)[OF inv] x that unfolding cache_ok_def by metis
  moreover have "b \<in> set (lru s)" using cache_invD(8)[OF inv, of b] x(1) by simp
  moreover have "buf_valid x \<and> b \<notin> unsaved c \<longrightarrow> buf_data x = stored s key" using inv_valid[OF inv x(1)] x(2) by simp
  ultimately show ?thesis using x by blast
qed

text \<open>Read, then changed, then written: in between the valid, held buffer differs from the disk.\<close>

lemma held_buffers_are_sound_witness:
  "\<exists>c s b x d u y. cache_reach [0 \<mapsto> 1024] (\<lambda>_. False) sample_disk (c, s) \<and> (b, 0, 3, 1024) \<in> set (holds c) \<and>
    bufs s b = Some x \<and> buf_valid x \<and> 0 < buf_refcount x \<and> buf_data x = stored s (0, 3, 1024) \<and>
    cache_reach [0 \<mapsto> 1024] (\<lambda>_. False) sample_disk (d, u) \<and> (b, 0, 3, 1024) \<in> set (holds d) \<and>
    bufs u b = Some y \<and> buf_valid y \<and> buf_data y \<noteq> stored u (0, 3, 1024)"
proof -
  obtain c s b x where h: "cache_reach [0 \<mapsto> 1024] (\<lambda>_. False) sample_disk (c, s)" "(b, 0, 3, 1024) \<in> set (holds c)" "unsaved c = {}"
    and x: "bufs s b = Some x" "buf_valid x" using sample_held by blast
  note inv = reach_inv[OF h(1) sample_ok]
  have a: "0 < buf_refcount x" "buf_data x = stored s (0, 3, 1024)"
    using held_buffers_are_sound[OF sample_ok h(1,2)] x h(3) by auto
  have len: "length (buf_data x) = 1024" using held_key[OF cache_invD(5)[OF inv] h(2)] cache_invD(9)[OF inv x(1)] x(1) by (auto simp: key_of_def)
  define bytes where "bytes = map (\<lambda>v. v + 1) (buf_data x)"
  have ne: "bytes \<noteq> buf_data x" "length bytes = length (buf_data x)" using len by (auto simp: bytes_def list_eq_iff_nth_eq intro!: exI[of _ 0])
  let ?u = "upd_buf b (\<lambda>x. x\<lparr>buf_data := bytes\<rparr>) s" and ?d = "c\<lparr>unsaved := insert b (unsaved c)\<rparr>"
  have "cache_reach [0 \<mapsto> 1024] (\<lambda>_. False) sample_disk (?d, ?u)" by (rule step[OF h(1) Modified[OF h(2) x(1) ne(2)]])
  moreover have "stored ?u (0, 3, 1024) = stored s (0, 3, 1024)" using same_media[of ?u s] by (simp add: upd_buf_def)
  then have "bufs ?u b = Some (x\<lparr>buf_data := bytes\<rparr>) \<and> bytes \<noteq> stored ?u (0, 3, 1024)" using x(1) ne(1) a(2) by (simp add: upd_buf_def)
  ultimately show ?thesis
    using h(1,2) x a by (intro exI[of _ c] exI[of _ s] exI[of _ b] exI[of _ x] exI[of _ ?d] exI[of _ ?u] exI[of _ "x\<lparr>buf_data := bytes\<rparr>"]) simp
qed

text \<open>
  C11. \<^verbatim>\<open>bread\<close> in any reachable state returns a valid buffer of the block asked for, held by the caller, whose
  bytes are those on the disk unless a client changed them and no write has succeeded since, or its last write
  failed. It fails only if there is no memory, the block is not on the device or the driver fails. A valid buffer
  of the block is found again without a call of the driver.
\<close>

theorem bread_returns_the_block:
  assumes "mounts_ok bsize s0" "sectors_ok s0" "empty_cache s0" "cache_reach bsize faults s0 (c, s)" "asked bsize (bd, k, sz)"
    and "\<forall>b bytes. alloc = Some (b, bytes) \<longrightarrow> bufs s b = None \<and> length bytes = unat sz"
  shows "\<exists>c' res s'. bread alloc faults bd k sz s = Inr (res, s') \<and> cache_reach bsize faults s0 (c', s') \<and> media s' = media s \<and>
    (case res of
       None \<Rightarrow> holds c' = holds c \<and> (alloc = None \<or> \<not> in_range s (bd, k, sz) \<or> faults (length (driver_calls s)))
     | Some b \<Rightarrow> holds c' = (b, bd, k, sz) # holds c \<and>
         (\<exists>x. bufs s' b = Some x \<and> key_of x = (bd, k, sz) \<and> buf_valid x \<and> (b \<notin> unsaved c' \<longrightarrow> buf_data x = stored s (bd, k, sz)))) \<and>
    (\<forall>p x. bufs s p = Some x \<and> key_of x = (bd, k, sz) \<and> buf_valid x \<longrightarrow> res = Some p \<and> driver_calls s' = driver_calls s)"
proof -
  obtain c' res s' where b: "bread alloc faults bd k sz s = Inr (res, s')" "cache_reach bsize faults s0 (c', s')" "cache_inv bsize (c', s')"
    "media s' = media s" "devs s' = devs s"
    "case res of None \<Rightarrow> holds c' = holds c \<and> (alloc = None \<or> \<not> in_range s (bd, k, sz) \<or> faults (length (driver_calls s)))
     | Some b \<Rightarrow> holds c' = (b, bd, k, sz) # holds c \<and> (\<exists>x. bufs s' b = Some x \<and> key_of x = (bd, k, sz) \<and> buf_valid x)"
    "\<forall>p x. bufs s p = Some x \<and> key_of x = (bd, k, sz) \<and> buf_valid x \<longrightarrow> res = Some p \<and> driver_calls s' = driver_calls s \<and> unsaved c' = unsaved c"
    using bread_reach[OF assms(4) reach_inv[OF assms(4,1-3)] assms(5,6)] by blast
  have data: "buf_data x = stored s (bd, k, sz)" if "bufs s' p = Some x" "key_of x = (bd, k, sz)" "buf_valid x" "p \<notin> unsaved c'" for p x
    using inv_valid[OF b(3) that(1,3,4)] that(2) same_media[OF b(5,4)] by simp
  have "case res of None \<Rightarrow> holds c' = holds c \<and> (alloc = None \<or> \<not> in_range s (bd, k, sz) \<or> faults (length (driver_calls s)))
     | Some b \<Rightarrow> holds c' = (b, bd, k, sz) # holds c \<and>
         (\<exists>x. bufs s' b = Some x \<and> key_of x = (bd, k, sz) \<and> buf_valid x \<and> (b \<notin> unsaved c' \<longrightarrow> buf_data x = stored s (bd, k, sz)))"
    using b(6) data by (cases res) auto
  then show ?thesis using b(1,2,4,7) by blast
qed

lemma bread_returns_the_block_witness:
  "\<exists>res s'. bread (Some (7, replicate 1024 0)) (\<lambda>_. False) 0 3 1024 sample_disk = Inr (res, s') \<and> media s' = media sample_disk"
proof -
  have a: "asked [0 \<mapsto> 1024] (0, 3, 1024)" by (simp add: asked_def)
  have n: "\<forall>b bytes. Some (7, replicate 1024 0) = Some (b, bytes) \<longrightarrow> bufs sample_disk b = None \<and> length bytes = unat (1024 :: u32)"
    by (simp add: sample_disk_def one_disk_def)
  from bread_returns_the_block[OF sample_ok start a n, of "\<lambda>_. False"] show ?thesis by blast
qed

text \<open>
  Writing is through: when \<^verbatim>\<open>bwrite\<close> of a held buffer succeeds, exactly those bytes are on the disk as its
  block, and every other block in the cache has the bytes on the disk that it had.
\<close>

theorem bwrite_writes_through:
  assumes "mounts_ok bsize s0" "sectors_ok s0" "empty_cache s0" "cache_reach bsize faults s0 (c, s)" "(b, key) \<in> set (holds c)"
    and "bufs s b = Some x" "length bytes = length (buf_data x)" "\<not> faults (length (driver_calls s))" "in_range s key"
  shows "\<exists>s'. bwrite faults b (upd_buf b (\<lambda>x. x\<lparr>buf_data := bytes\<rparr>) s) = Inr (Inr (), s') \<and> stored s' key = bytes \<and>
    (\<forall>p y. bufs s p = Some y \<and> p \<noteq> b \<and> in_range s (key_of y) \<longrightarrow> stored s' (key_of y) = stored s (key_of y)) \<and>
    cache_reach bsize faults s0 (c\<lparr>unsaved := unsaved c - {b}\<rparr>, s')"
proof -
  let ?s = "upd_buf b (\<lambda>x. x\<lparr>buf_data := bytes\<rparr>) s" and ?y = "x\<lparr>buf_data := bytes\<rparr>"
  note inv = reach_inv[OF assms(4,1-3)]
  note i = new_data_inv[OF inv assms(6,7)]
  have b': "bufs ?s b = Some ?y" using assms(6) by (simp add: upd_buf_def)
  have e: "devs ?s = devs s" "media ?s = media s" "driver_calls ?s = driver_calls s" by (simp_all add: upd_buf_def)
  have key: "key_of ?y = key" "key_of x = key" using held_key[OF cache_invD(5)[OF inv] assms(5)] assms(6) by (simp_all add: key_of_def)
  have rng: "in_range ?s (key_of ?y)" using assms(9) key same_devs(5)[OF e(1)] by simp
  obtain r s' where w: "bwrite faults b ?s = Inr (r, s')" "devs s' = devs ?s"
    "case r of Inl _ \<Rightarrow> media s' = media ?s
     | Inr _ \<Rightarrow> in_range ?s (key_of ?y) \<and>
         media s' = media (put_sectors (disk_of ?s (buf_bd ?y)) (block_at ?s (key_of ?y)) (unat (buf_size ?y div 512)) (buf_data ?y) ?s)"
    using write_spec[OF i b', of faults] by (elim exE conjE)
  have r: "r = Inr ()" using write_ok[OF i b' rng _ w(1)] assms(8) e(3) by simp
  note put = stored_put[OF i b' rng w(2)]
  have m: "media s' = media (put_sectors (disk_of ?s (buf_bd ?y)) (block_at ?s (key_of ?y)) (unat (buf_size ?y div 512)) (buf_data ?y) ?s)"
    using w(3) r by simp
  have "stored s' (key_of y) = stored s (key_of y)" if "bufs s p = Some y" "p \<noteq> b" "in_range s (key_of y)" for p y
  proof -
    have "key_of y \<noteq> key_of ?y" using cache_invD(3)[OF inv] that(1,2) assms(6) key unfolding cache_ok_def by metis
    then show ?thesis
      using put(3)[OF m, of p y] that same_devs(5)[OF e(1)] same_media[OF e(1,2)] by (simp add: upd_buf_def)
  qed
  moreover have "cache_reach bsize faults s0 (c\<lparr>unsaved := unsaved c - {b}\<rparr>, s')"
  proof -
    let ?c = "c\<lparr>unsaved := insert b (unsaved c)\<rparr>"
    have m: "cache_reach bsize faults s0 (?c, ?s)" by (rule step[OF assms(4) Modified[OF assms(5-7)]])
    have "(b, key) \<in> set (holds ?c)" using assms(5) by simp
    from step[OF m Written[OF this]] w(1) r show ?thesis by simp
  qed
  ultimately show ?thesis using w(1) r put(1)[OF m] key by auto
qed

lemma bwrite_writes_through_witness:
  "\<exists>c s b s'. cache_reach [0 \<mapsto> 1024] (\<lambda>_. False) sample_disk (c, s) \<and> (b, 0, 3, 1024) \<in> set (holds c) \<and>
    bwrite (\<lambda>_. False) b (upd_buf b (\<lambda>x. x\<lparr>buf_data := replicate 1024 1\<rparr>) s) = Inr (Inr (), s') \<and> stored s' (0, 3, 1024) = replicate 1024 1"
proof -
  obtain c s b where h: "cache_reach [0 \<mapsto> 1024] (\<lambda>_. False) sample_disk (c, s)" "(b, 0, 3, 1024) \<in> set (holds c)" "in_range s (0, 3, 1024)"
    using sample_held by blast
  note inv = reach_inv[OF h(1) sample_ok]
  obtain x where x: "bufs s b = Some x" "key_of x = (0, 3, 1024)" using held_key[OF cache_invD(5)[OF inv] h(2)] by blast
  have "length (replicate 1024 1) = length (buf_data x)" using cache_invD(9)[OF inv x(1)] x(2) by (simp add: key_of_def)
  from bwrite_writes_through[OF sample_ok h(1,2) x(1) this _ h(3)] h(1,2) show ?thesis by blast
qed

end
