(* ===== verification/Block_File.thy ===== *)
theory Block_File
  imports Block_Cache
begin

text \<open>
  The files \<^verbatim>\<open>/dev/sdX\<close>: \<^verbatim>\<open>bdev_rw\<close> works on sectors, and when no call of the driver fails it reads and
  writes the device as one array of bytes. The loop over the sectors is proved by induction on what is left.
\<close>

section \<open>Splicing\<close>

lemma length_splice [simp]: "i + length xs \<le> length ys \<Longrightarrow> length (splice i xs ys) = length ys"
  by (simp add: splice_def)

lemma splice_nil [simp]: "splice i [] ys = ys"
  by (simp add: splice_def)

lemma splice_append:
  "a + length xs \<le> length zs \<Longrightarrow> splice (a + length xs) ys (splice a xs zs) = splice a (xs @ ys) zs"
  by (simp add: splice_def ac_simps)

lemma splice_inside:
  assumes "b + length xs \<le> m" "a + m \<le> length ys"
  shows "splice a (splice b xs (take m (drop a ys))) ys = splice (a + b) xs ys"
proof -
  have "take (a + b) ys = take a ys @ take b (drop a ys)" by (rule take_add)
  moreover have "drop (b + length xs) (take m (drop a ys)) @ drop (a + m) ys = drop (a + b + length xs) ys"
  proof -
    have "drop (a + b + length xs) ys = drop (b + length xs) (drop a ys)" by (simp add: ac_simps)
    also have "\<dots> = drop (b + length xs) (take m (drop a ys) @ drop m (drop a ys))" by (simp only: append_take_drop_id)
    also have "\<dots> = drop (b + length xs) (take m (drop a ys)) @ drop (b + length xs - m) (drop m (drop a ys))"
      unfolding drop_append using assms by simp
    also have "\<dots> = drop (b + length xs) (take m (drop a ys)) @ drop (a + m) ys" using assms by (simp add: add.commute)
    finally show ?thesis by simp
  qed
  moreover have "take b (take m (drop a ys)) = take b (drop a ys)" using assms(1) by (simp add: min_def)
  moreover have "length (splice b xs (take m (drop a ys))) = m" using assms by simp
  ultimately show ?thesis unfolding splice_def[of a "splice b xs (take m (drop a ys))"] by (simp add: splice_def)
qed

section \<open>A device as an array of bytes\<close>

definition dev_bytes :: "blk \<Rightarrow> nat \<Rightarrow> u8 list" where
  "dev_bytes s bd = get_sectors (disk_of s bd) (first_of s bd) (size_of s bd) s"

lemma length_concat_sectors: "(\<forall>i. length (f i) = m) \<Longrightarrow> length (concat (map f xs)) = length xs * m"
  by (induction xs) simp_all

lemma concat_sectors_take_drop:
  assumes "\<forall>i. length (f i) = m" "i < n"
  shows "take m (drop (m * i) (concat (map f [a..<a + n]))) = f (a + i)"
proof -
  have "[a..<a + n] = [a..<a + i] @ (a + i) # [Suc (a + i)..<a + n]"
    using assms(2) upt_add_eq_append[of a "a + i" "n - i"] by (simp add: upt_conv_Cons)
  then show ?thesis using assms(1) by (simp add: length_concat_sectors mult.commute)
qed

lemma concat_sectors_upd:
  assumes "\<forall>i. length (f i) = m" "i < n" "length v = m"
  shows "concat (map (f(a + i := v)) [a..<a + n]) = splice (m * i) v (concat (map f [a..<a + n]))"
proof -
  have s: "[a..<a + n] = [a..<a + i] @ (a + i) # [Suc (a + i)..<a + n]"
    using assms(2) upt_add_eq_append[of a "a + i" "n - i"] by (simp add: upt_conv_Cons)
  have "map (f(a + i := v)) [a..<a + i] = map f [a..<a + i]" "map (f(a + i := v)) [Suc (a + i)..<a + n] = map f [Suc (a + i)..<a + n]"
    by auto
  then show ?thesis using assms(1,3) unfolding s by (simp add: splice_def length_concat_sectors mult.commute)
qed

lemma length_dev_bytes: "sectors_ok s \<Longrightarrow> length (dev_bytes s bd) = SECTOR * size_of s bd"
  using length_concat_sectors[of "media s (disk_of s bd)" SECTOR] by (simp add: dev_bytes_def get_sectors_def sectors_ok_def)

lemma same_bytes: "devs s' = devs s \<Longrightarrow> media s' = media s \<Longrightarrow> dev_bytes s' = dev_bytes s"
  by (rule ext) (simp add: dev_bytes_def get_sectors_def same_devs(1-3)[of s' s])

section \<open>One sector\<close>

definition device_ok :: "blk \<Rightarrow> nat \<Rightarrow> bool" where
  "device_ok s bd \<longleftrightarrow> devices_ok s \<and> sectors_ok s \<and> devs s bd \<noteq> None"

lemma one_sector:
  assumes "device_ok s bd" "i < size_of s bd"
  shows "\<exists>s'. blk_read (\<lambda>_. False) bd (of_nat i) 1 s = Inr (Inr (take SECTOR (drop (SECTOR * i) (dev_bytes s bd))), s') \<and>
      devs s' = devs s \<and> disks s' = disks s \<and> media s' = media s"
    and "length bytes = SECTOR \<Longrightarrow> \<exists>s'. blk_write (\<lambda>_. False) bd (of_nat i) 1 bytes s = Inr (Inr [], s') \<and> devs s' = devs s \<and> disks s' = disks s \<and>
      sectors_ok s' \<and> dev_bytes s' bd = splice (SECTOR * i) bytes (dev_bytes s bd)"
proof -
  obtain d where d: "devs s bd = Some d" "devices_ok s" "sectors_ok s" "i < unat (sectors d)" "size_of s bd = unat (sectors d)"
    using assms by (auto simp: device_ok_def size_of_def)
  have u: "unat (of_nat i :: u64) = i" using d(4) unat_lt_64[of "sectors d"] by (simp only: unat_of_nat) simp
  have "size_of s (disk_of s bd) < 2 ^ 64" using unat_lt_64 by (auto simp: size_of_def split: option.splits)
  then have "first_of s bd + i < 2 ^ 64" using inside_disk[OF d(2,1)] assms(2) by linarith
  then have at: "unat (of_nat (first_of s bd + i) :: u64) = first_of s bd + i" by (simp only: unat_of_nat) simp
  have in_range: "\<not> unat (of_nat i :: u64) + unat (1 :: u32) > unat (sectors d)" using d(4) u by simp
  have len: "\<forall>j. length (media s (disk_of s bd) j) = SECTOR" using d(3) by (simp add: sectors_ok_def)
  note rw = blk_rw_ok[OF d(2,1), of 1 "\<lambda>_. False" "of_nat i", unfolded u]
  have "media s (disk_of s bd) (first_of s bd + i) = take SECTOR (drop (SECTOR * i) (dev_bytes s bd))"
    using concat_sectors_take_drop[OF len assms(2)] by (simp add: dev_bytes_def get_sectors_def)
  then show "\<exists>s'. blk_read (\<lambda>_. False) bd (of_nat i) 1 s = Inr (Inr (take SECTOR (drop (SECTOR * i) (dev_bytes s bd))), s') \<and>
      devs s' = devs s \<and> disks s' = disks s \<and> media s' = media s"
    using d(4) by (simp add: blk_read_def rw driver_def Let_def at get_sectors_def del: of_nat_add)
  show "\<exists>s'. blk_write (\<lambda>_. False) bd (of_nat i) 1 bytes s = Inr (Inr [], s') \<and> devs s' = devs s \<and> disks s' = disks s \<and>
      sectors_ok s' \<and> dev_bytes s' bd = splice (SECTOR * i) bytes (dev_bytes s bd)" if l: "length bytes = SECTOR"
  proof -
    define s1 where "s1 = s\<lparr>driver_calls := \<lparr>on_disk = disk_of s bd, at_lba = of_nat (first_of s bd + i), n_sectors = 1, writes = True\<rparr> # driver_calls s\<rparr>"
    define s' where "s' = put_sectors (disk_of s bd) (first_of s bd + i) 1 bytes s1"
    have w: "blk_write (\<lambda>_. False) bd (of_nat i) 1 bytes s = Inr (Inr [], s')"
      using d(4) by (simp add: blk_write_def rw driver_def Let_def at s'_def s1_def del: of_nat_add)
    have n: "devs s' = devs s" "disks s' = disks s" by (simp_all add: s'_def s1_def put_sectors_def)
    have m: "media s' (disk_of s bd) = (media s (disk_of s bd))(first_of s bd + i := bytes)"
      using l by (auto simp: s'_def s1_def put_sectors_def fun_eq_iff le_less_Suc_eq)
    have "sectors_ok s1" using d(3) by (simp add: s1_def sectors_ok_def)
    then have "sectors_ok s'" unfolding s'_def using l by (intro put_sectors_ok) simp_all
    moreover have "dev_bytes s' bd = splice (SECTOR * i) bytes (dev_bytes s bd)"
      using concat_sectors_upd[OF len assms(2) l, of "first_of s bd"]
      by (simp add: dev_bytes_def get_sectors_def same_devs(1-3)[OF n(1)] m)
    ultimately show ?thesis using w n by blast
  qed
qed

section \<open>The loop\<close>

lemma device_ok_next: "device_ok s bd \<Longrightarrow> devs s' = devs s \<Longrightarrow> sectors_ok s' \<Longrightarrow> device_ok s' bd"
  unfolding device_ok_def devices_ok_def by (elim conjE, simp only: simp_thms)

lemma sectors_ok_same: "sectors_ok s \<Longrightarrow> media s' = media s \<Longrightarrow> sectors_ok s'"
  by (simp add: sectors_ok_def)

lemma read_chunk:
  assumes "device_ok s bd" "i < size_of s bd" "inside + n \<le> SECTOR"
  shows "\<exists>s' sec'. rw_chunk (\<lambda>_. False) bd False i inside n at bytes sec s =
      Inr (Inr (splice at (take n (drop (SECTOR * i + inside) (dev_bytes s bd))) bytes, sec'), s') \<and>
    devs s' = devs s \<and> disks s' = disks s \<and> media s' = media s"
proof -
  have "take n (drop inside (take SECTOR (drop (SECTOR * i) (dev_bytes s bd)))) = take n (drop (SECTOR * i + inside) (dev_bytes s bd))"
    using assms(3) by (simp add: drop_take min_def add.commute)
  then show ?thesis using one_sector(1)[OF assms(1,2)] by (auto simp: rw_chunk_def)
qed

lemma write_chunk:
  assumes "device_ok s bd" "i < size_of s bd" "inside + n \<le> SECTOR" "at + n \<le> length bytes" "length sec = SECTOR"
  shows "\<exists>s' sec'. rw_chunk (\<lambda>_. False) bd True i inside n at bytes sec s = Inr (Inr (bytes, sec'), s') \<and> length sec' = SECTOR \<and>
    devs s' = devs s \<and> disks s' = disks s \<and> sectors_ok s' \<and>
    dev_bytes s' bd = splice (SECTOR * i + inside) (take n (drop at bytes)) (dev_bytes s bd)"
proof -
  let ?xs = "take n (drop at bytes)" and ?old = "take SECTOR (drop (SECTOR * i) (dev_bytes s bd))"
  have l: "length ?xs = n" using assms(4) by simp
  have ok: "sectors_ok s" using assms(1) by (simp add: device_ok_def)
  have "SECTOR * i + SECTOR \<le> SECTOR * size_of s bd" using assms(2) by simp
  then have room: "SECTOR * i + SECTOR \<le> length (dev_bytes s bd)" using length_dev_bytes[OF ok] by simp
  have old: "length ?old = SECTOR" using room by simp
  have join: "splice (SECTOR * i) (splice inside ?xs ?old) (dev_bytes s bd) = splice (SECTOR * i + inside) ?xs (dev_bytes s bd)"
    using splice_inside[of inside ?xs SECTOR "SECTOR * i"] assms(3) l room by simp
  show ?thesis
  proof (cases "n = SECTOR")
    case True
    then have z: "inside = 0" using assms(3) by simp
    have s: "splice 0 ?xs sec = ?xs" "splice 0 ?xs ?old = ?xs" using l True assms(5) old by (simp_all add: splice_all)
    show ?thesis using one_sector(2)[OF assms(1,2), of ?xs] l True z s join by (auto simp: rw_chunk_def)
  next
    case False
    obtain s1 where r: "blk_read (\<lambda>_. False) bd (of_nat i) 1 s = Inr (Inr ?old, s1)" "devs s1 = devs s" "disks s1 = disks s" "media s1 = media s"
      using one_sector(1)[OF assms(1,2)] by blast
    have ok1: "device_ok s1 bd" using device_ok_next[OF assms(1) r(2)] sectors_ok_same[OF ok r(4)] by blast
    have i1: "i < size_of s1 bd" using assms(2) same_devs(3)[OF r(2)] by simp
    have n: "length (splice inside ?xs ?old) = SECTOR" using l old assms(3) by simp
    from one_sector(2)[OF ok1 i1 n] show ?thesis
      using r False n join same_bytes[OF r(2,4)] by (auto simp: rw_chunk_def)
  qed
qed

lemma bdev_read_loop:
  assumes "device_ok s bd" "off + len \<le> SECTOR * size_of s bd" "len \<le> length bytes" "finished \<le> len"
  shows "\<exists>s'. bdev_loop (\<lambda>_. False) bd False len off finished bytes sec s =
      Inr ((len, None, splice finished (take (len - finished) (drop (off + finished) (dev_bytes s bd))) bytes), s') \<and>
    devs s' = devs s \<and> disks s' = disks s \<and> media s' = media s"
  using assms
proof (induction "len - finished" arbitrary: finished bytes sec s rule: less_induct)
  case less
  show ?case
  proof (cases "finished < len")
    case False
    then show ?thesis using less.prems(4) by (simp add: bdev_loop.simps)
  next
    case True
    define i inside n where "i = (off + finished) div SECTOR" and "inside = (off + finished) mod SECTOR"
      and "n = min (len - finished) (SECTOR - (off + finished) mod SECTOR)"
    have pos: "SECTOR * i + inside = off + finished" by (simp add: i_def inside_def)
    have n: "0 < n" "inside + n \<le> SECTOR" "finished + n \<le> len" using True by (auto simp: n_def inside_def)
    have "i < size_of s bd" using less.prems(2) True unfolding i_def by (intro less_mult_imp_div_less) linarith
    from read_chunk[OF less.prems(1) this n(2), of finished bytes sec]
    obtain s1 sec1 where c: "rw_chunk (\<lambda>_. False) bd False i inside n finished bytes sec s =
        Inr (Inr (splice finished (take n (drop (off + finished) (dev_bytes s bd))) bytes, sec1), s1)"
      "devs s1 = devs s" "disks s1 = disks s" "media s1 = media s" unfolding pos by blast
    let ?D = "dev_bytes s bd" and ?b = "splice finished (take n (drop (off + finished) (dev_bytes s bd))) bytes"
    have "sectors_ok s" using less.prems(1) by (simp add: device_ok_def)
    then have L: "length ?D = SECTOR * size_of s bd" "sectors_ok s1" using length_dev_bytes sectors_ok_same c(4) by blast+
    have l: "length (take n (drop (off + finished) ?D)) = n" using L(1) n(3) less.prems(2) by simp
    have lb: "length ?b = length bytes" using l n(3) less.prems(3) by simp
    have dec: "len - (finished + n) < len - finished" using True n(1) by linarith
    have fits: "off + len \<le> SECTOR * size_of s1 bd" "len \<le> length ?b"
      using less.prems(2,3) lb same_devs(3)[OF c(2)] by simp_all
    obtain s' where "bdev_loop (\<lambda>_. False) bd False len off (finished + n) ?b sec1 s1 =
        Inr ((len, None, splice (finished + n) (take (len - (finished + n)) (drop (off + (finished + n)) (dev_bytes s1 bd))) ?b), s')"
      "devs s' = devs s1" "disks s' = disks s1" "media s' = media s1"
      using less.hyps[OF dec device_ok_next[OF less.prems(1) c(2) L(2)] fits n(3)] by blast
    moreover have "splice (finished + n) (take (len - (finished + n)) (drop (off + (finished + n)) ?D)) ?b =
        splice finished (take (len - finished) (drop (off + finished) ?D)) bytes"
    proof -
      have "take (len - finished) (drop (off + finished) ?D) =
          take n (drop (off + finished) ?D) @ take (len - (finished + n)) (drop (off + (finished + n)) ?D)"
        using n(3) take_add[of n "len - (finished + n)" "drop (off + finished) ?D"] by (simp add: ac_simps)
      then show ?thesis using splice_append[of finished "take n (drop (off + finished) ?D)" bytes] l n(3) less.prems(3) by simp
    qed
    moreover have "bdev_loop (\<lambda>_. False) bd False len off finished bytes sec s = bdev_loop (\<lambda>_. False) bd False len off (finished + n) ?b sec1 s1"
      using c(1) True by (subst bdev_loop.simps) (simp add: Let_def i_def inside_def n_def)
    ultimately show ?thesis using c(2-4) same_bytes[OF c(2,4)] by simp
  qed
qed

lemma bdev_write_loop:
  assumes "device_ok s bd" "off + len \<le> SECTOR * size_of s bd" "len \<le> length bytes" "finished \<le> len" "length sec = SECTOR"
  shows "\<exists>s'. bdev_loop (\<lambda>_. False) bd True len off finished bytes sec s = Inr ((len, None, bytes), s') \<and>
    devs s' = devs s \<and> disks s' = disks s \<and> sectors_ok s' \<and>
    dev_bytes s' bd = splice (off + finished) (take (len - finished) (drop finished bytes)) (dev_bytes s bd)"
  using assms
proof (induction "len - finished" arbitrary: finished sec s rule: less_induct)
  case less
  show ?case
  proof (cases "finished < len")
    case False
    then show ?thesis using less.prems(1,4) by (simp add: bdev_loop.simps device_ok_def)
  next
    case True
    define i inside n where "i = (off + finished) div SECTOR" and "inside = (off + finished) mod SECTOR"
      and "n = min (len - finished) (SECTOR - (off + finished) mod SECTOR)"
    have pos: "SECTOR * i + inside = off + finished" by (simp add: i_def inside_def)
    have n: "0 < n" "inside + n \<le> SECTOR" "finished + n \<le> len" using True by (auto simp: n_def inside_def)
    have i: "i < size_of s bd" using less.prems(2) True unfolding i_def by (intro less_mult_imp_div_less) linarith
    have room: "finished + n \<le> length bytes" using n(3) less.prems(3) by linarith
    from write_chunk[OF less.prems(1) i n(2) room less.prems(5)]
    obtain s1 sec1 where c: "rw_chunk (\<lambda>_. False) bd True i inside n finished bytes sec s = Inr (Inr (bytes, sec1), s1)"
      "length sec1 = SECTOR" "devs s1 = devs s" "disks s1 = disks s" "sectors_ok s1"
      "dev_bytes s1 bd = splice (off + finished) (take n (drop finished bytes)) (dev_bytes s bd)" unfolding pos by blast
    have dec: "len - (finished + n) < len - finished" using True n(1) by linarith
    have fits: "off + len \<le> SECTOR * size_of s1 bd" using less.prems(2) same_devs(3)[OF c(3)] by simp
    obtain s' where s': "bdev_loop (\<lambda>_. False) bd True len off (finished + n) bytes sec1 s1 = Inr ((len, None, bytes), s')"
      "devs s' = devs s1" "disks s' = disks s1" "sectors_ok s'"
      "dev_bytes s' bd = splice (off + (finished + n)) (take (len - (finished + n)) (drop (finished + n) bytes)) (dev_bytes s1 bd)"
      using less.hyps[OF dec device_ok_next[OF less.prems(1) c(3,5)] fits less.prems(3) n(3) c(2)] by blast
    have L: "length (dev_bytes s bd) = SECTOR * size_of s bd" using less.prems(1) length_dev_bytes by (simp add: device_ok_def)
    have "take (len - finished) (drop finished bytes) = take n (drop finished bytes) @ take (len - (finished + n)) (drop (finished + n) bytes)"
      using n(3) take_add[of n "len - (finished + n)" "drop finished bytes"] by (simp add: ac_simps)
    then have "dev_bytes s' bd = splice (off + finished) (take (len - finished) (drop finished bytes)) (dev_bytes s bd)"
      using splice_append[of "off + finished" "take n (drop finished bytes)" "dev_bytes s bd"] s'(5) c(6) L room n(3) less.prems(2)
      by (simp add: add.assoc)
    moreover have "bdev_loop (\<lambda>_. False) bd True len off finished bytes sec s = bdev_loop (\<lambda>_. False) bd True len off (finished + n) bytes sec1 s1"
      using c(1) True by (subst bdev_loop.simps) (simp add: Let_def i_def inside_def n_def)
    ultimately show ?thesis using c(3,4) s' by simp
  qed
qed

section \<open>A request\<close>

text \<open>How much of a request is on the device.\<close>

definition request :: "blk \<Rightarrow> nat \<Rightarrow> u64 \<Rightarrow> u64 \<Rightarrow> nat" where
  "request s bd off len = min (unat len) (SECTOR * size_of s bd - unat off)"

lemma request_sizes:
  assumes "devs s bd = Some d" "size_of s bd < 2 ^ 55"
  shows "off \<ge> sectors d * 512 \<longleftrightarrow> SECTOR * size_of s bd \<le> unat off"
    "\<not> off \<ge> sectors d * 512 \<Longrightarrow> unat (min len (sectors d * 512 - off)) = request s bd off len"
proof -
  have "unat (sectors d) * 512 < 2 ^ 64" using assms by (simp add: size_of_def)
  then have u: "unat (sectors d * 512) = SECTOR * size_of s bd" using assms(1) by (simp add: unat_word_ariths size_of_def)
  then show "off \<ge> sectors d * 512 \<longleftrightarrow> SECTOR * size_of s bd \<le> unat off" by (simp add: word_le_nat_alt)
  assume "\<not> off \<ge> sectors d * 512"
  then have "off \<le> sectors d * 512" by simp
  then have "unat (sectors d * 512 - off) = SECTOR * size_of s bd - unat off" using unat_sub[of off "sectors d * 512"] u by simp
  then show "unat (min len (sectors d * 512 - off)) = request s bd off len" by (auto simp: request_def min_def word_le_nat_alt)
qed

lemma bdev_rw_read:
  assumes "file_bdev rdev s = Some bd" "device_ok s bd" "size_of s bd < 2 ^ 55" "unat len \<le> length bytes"
  shows "\<exists>s'. bdev_rw (\<lambda>_. False) rdev False len off bytes (Some sec) s =
      Inr ((Inr (request s bd off len), splice 0 (take (request s bd off len) (drop (unat off) (dev_bytes s bd))) bytes), s') \<and>
    devs s' = devs s \<and> disks s' = disks s \<and> media s' = media s"
proof -
  obtain d where d: "devs s bd = Some d" using assms(2) by (auto simp: device_ok_def)
  note sz = request_sizes[OF d assms(3), of off]
  show ?thesis
  proof (cases "off \<ge> sectors d * 512")
    case True
    then have "request s bd off len = 0" using sz(1) by (simp add: request_def)
    then show ?thesis using True assms(1) d by (simp add: bdev_rw_def find_dev_def Let_def)
  next
    case False
    have fits: "unat off + request s bd off len \<le> SECTOR * size_of s bd" "request s bd off len \<le> length bytes"
      using False sz(1) assms(4) by (auto simp: request_def)
    show ?thesis
      using bdev_read_loop[OF assms(2) fits, of 0 sec] False assms(1) d sz(2)[OF False, of len]
      by (auto simp: bdev_rw_def find_dev_def Let_def)
  qed
qed

lemma bdev_rw_write:
  assumes "file_bdev rdev s = Some bd" "device_ok s bd" "size_of s bd < 2 ^ 55" "unat len \<le> length bytes" "length sec = SECTOR"
  shows "\<exists>s'. bdev_rw (\<lambda>_. False) rdev True len off bytes (Some sec) s = Inr ((Inr (request s bd off len), bytes), s') \<and>
    devs s' = devs s \<and> disks s' = disks s \<and> sectors_ok s' \<and>
    dev_bytes s' bd = splice (unat off) (take (request s bd off len) bytes) (dev_bytes s bd)"
proof -
  obtain d where d: "devs s bd = Some d" using assms(2) by (auto simp: device_ok_def)
  note sz = request_sizes[OF d assms(3), of off]
  show ?thesis
  proof (cases "off \<ge> sectors d * 512")
    case True
    then have "request s bd off len = 0" using sz(1) by (simp add: request_def)
    then show ?thesis using True assms(1,2) d by (simp add: bdev_rw_def find_dev_def Let_def device_ok_def)
  next
    case False
    have fits: "unat off + request s bd off len \<le> SECTOR * size_of s bd" "request s bd off len \<le> length bytes"
      using False sz(1) assms(4) by (auto simp: request_def)
    show ?thesis
      using bdev_write_loop[OF assms(2) fits le0 assms(5)] False assms(1) d sz(2)[OF False, of len]
      by (auto simp: bdev_rw_def find_dev_def Let_def)
  qed
qed

text \<open>The disk of the cache's example, in the list of devices.\<close>

definition listed_disk :: blk where
  "listed_disk = sample_disk\<lparr>disks := [0]\<rparr>"

section \<open>Properties\<close>

text \<open>
  C27. A device file is an array of bytes: a write of any length at any offset, when the driver does not fail, puts
  exactly the bytes that fit at that offset and changes no other byte of the device, and every later read, of any
  length at any offset, gives exactly the bytes of that array.
\<close>

theorem device_file_is_byte_array:
  assumes "file_bdev rdev s = Some bd" "device_ok s bd" "size_of s bd < 2 ^ 55" "unat len \<le> length bytes" "length sec = SECTOR"
  shows "\<exists>s1. bdev_rw (\<lambda>_. False) rdev True len off bytes (Some sec) s = Inr ((Inr (request s bd off len), bytes), s1) \<and>
    dev_bytes s1 bd = splice (unat off) (take (request s bd off len) bytes) (dev_bytes s bd) \<and>
    (\<forall>len2 off2 buffer sec2. unat len2 \<le> length buffer \<longrightarrow>
      (\<exists>s2. bdev_rw (\<lambda>_. False) rdev False len2 off2 buffer (Some sec2) s1 =
        Inr ((Inr (request s bd off2 len2),
              splice 0 (take (request s bd off2 len2) (drop (unat off2) (splice (unat off) (take (request s bd off len) bytes) (dev_bytes s bd)))) buffer), s2)))"
proof -
  obtain s1 where s1: "bdev_rw (\<lambda>_. False) rdev True len off bytes (Some sec) s = Inr ((Inr (request s bd off len), bytes), s1)"
    "devs s1 = devs s" "disks s1 = disks s" "sectors_ok s1"
    "dev_bytes s1 bd = splice (unat off) (take (request s bd off len) bytes) (dev_bytes s bd)"
    using bdev_rw_write[OF assms] by blast
  have f: "file_bdev rdev s1 = Some bd" using assms(1) s1(2,3) by (simp add: file_bdev_def)
  have sz: "size_of s1 = size_of s" by (rule same_devs(3)[OF s1(2)])
  note ok = device_ok_next[OF assms(2) s1(2,4)]
  have rq: "request s1 = request s" by (simp add: fun_eq_iff request_def sz)
  show ?thesis
    using s1(1,5) bdev_rw_read[OF f ok] assms(3) unfolding sz rq by metis
qed

lemma device_file_is_byte_array_witness:
  "\<exists>s1 s2. bdev_rw (\<lambda>_. False) (MKDEV MAJOR_SD 0) True 3 511 [1, 2, 3] (Some (replicate 512 0)) listed_disk = Inr ((Inr 3, [1, 2, 3]), s1) \<and>
    bdev_rw (\<lambda>_. False) (MKDEV MAJOR_SD 0) False 4 511 [9, 9, 9, 9] (Some (replicate 512 7)) s1 = Inr ((Inr 4, [1, 2, 3, 0]), s2)"
proof -
  have sz: "size_of listed_disk 0 = 100" and f: "file_bdev (MKDEV MAJOR_SD 0) listed_disk = Some 0"
    by (simp_all add: size_of_def listed_disk_def sample_disk_def one_disk_def file_bdev_def)
  have ok: "device_ok listed_disk 0"
    using one_disk_ok[of "\<lambda>_. replicate SECTOR 0"] by (auto simp: device_ok_def devices_ok_def sectors_ok_def listed_disk_def sample_disk_def one_disk_def)
  have "concat (map (\<lambda>_. replicate SECTOR (0 :: u8)) xs) = replicate (SECTOR * length xs) 0" for xs :: "nat list"
    by (induction xs) (simp_all add: replicate_add)
  then have D: "dev_bytes listed_disk 0 = replicate 51200 0"
    unfolding dev_bytes_def get_sectors_def sz by (simp add: listed_disk_def sample_disk_def one_disk_def)
  have r: "request listed_disk 0 511 3 = 3" "request listed_disk 0 511 4 = 4" by (simp_all add: request_def sz)
  have z: "size_of listed_disk 0 < 2 ^ 55" by (simp add: sz)
  have l: "unat (3 :: u64) \<le> length [1, 2, 3 :: u8]" "length (replicate 512 (0 :: u8)) = SECTOR" by simp_all
  obtain s1 where s1: "bdev_rw (\<lambda>_. False) (MKDEV MAJOR_SD 0) True 3 511 [1, 2, 3] (Some (replicate 512 0)) listed_disk = Inr ((Inr 3, [1, 2, 3]), s1)"
    "\<forall>len2 off2 buffer sec2. unat len2 \<le> length buffer \<longrightarrow>
      (\<exists>s2. bdev_rw (\<lambda>_. False) (MKDEV MAJOR_SD 0) False len2 off2 buffer (Some sec2) s1 =
        Inr ((Inr (request listed_disk 0 off2 len2),
              splice 0 (take (request listed_disk 0 off2 len2) (drop (unat off2) (splice (unat (511 :: u64)) (take 3 [1, 2, 3]) (replicate 51200 0)))) buffer), s2))"
    using device_file_is_byte_array[OF f ok z l, of 511] unfolding r D by blast
  have b: "unat (4 :: u64) \<le> length [9, 9, 9, 9 :: u8]" by simp
  have e: "splice 0 (take 4 (drop (unat (511 :: u64)) (splice (unat (511 :: u64)) (take 3 [1, 2, 3]) (replicate 51200 0)))) [9, 9, 9, 9] = [1, 2, 3, 0 :: u8]"
    by (simp add: splice_def)
  from s1(2)[rule_format, OF b, of 511 "replicate 512 7"] s1(1) show ?thesis unfolding r e by blast
qed

end
