(* ===== verification/Ext2.thy ===== *)
theory Ext2
  imports Block Vfs
begin

text \<open>
  The on-disk file system, \<^verbatim>\<open>kernel/fs/ext2.c\<close>: bitmaps, inodes, the map from the blocks of a file to blocks of
  the disk, reading, writing and truncation. Superblock, group descriptors and inodes are the bytes of
  their C structures. \<open>blocks\<close> is the contents of the blocks as the buffer cache gives them; a block may be one
  that cannot be read or written. Which blocks these are, and whether there is memory, does not change while
  operations run (in the kernel both may change from one call to the next; a mount that succeeded had
  memory). An access outside a buffer or a table is a value of \<open>ext2_error\<close>. The
  operations work on one inode at a time, under its lock.
\<close>

section \<open>Structures on the disk\<close>

record ext2 =
  super :: "u8 list"
  gdt :: "u8 list"
  block_size :: u32
  ngroups :: u32
  inode_size :: u32
  addr_per_block :: u32
  fs_read_only :: bool
  blocks :: "u32 \<Rightarrow> u8 list"
  unreadable :: "u32 \<Rightarrow> bool"
  unwritable :: "u32 \<Rightarrow> bool"
  has_memory :: bool
  clock :: u64

datatype ext2_error = Outside_buffer | Outside_table | Division_by_zero

type_synonym 'a ext2_result = "ext2_error + 'a"

text \<open>Fields of the superblock, at their offsets.\<close>

definition s_inodes_count :: "ext2 \<Rightarrow> u32" where "s_inodes_count fs = field 0 4 (super fs)"
definition s_blocks_count :: "ext2 \<Rightarrow> u32" where "s_blocks_count fs = field 4 4 (super fs)"
definition s_free_blocks_count :: "ext2 \<Rightarrow> u32" where "s_free_blocks_count fs = field 12 4 (super fs)"
definition s_free_inodes_count :: "ext2 \<Rightarrow> u32" where "s_free_inodes_count fs = field 16 4 (super fs)"
definition s_first_data_block :: "ext2 \<Rightarrow> u32" where "s_first_data_block fs = field 20 4 (super fs)"
definition s_blocks_per_group :: "ext2 \<Rightarrow> u32" where "s_blocks_per_group fs = field 32 4 (super fs)"
definition s_inodes_per_group :: "ext2 \<Rightarrow> u32" where "s_inodes_per_group fs = field 40 4 (super fs)"
definition s_first_ino :: "ext2 \<Rightarrow> u32" where "s_first_ino fs = field 84 4 (super fs)"

definition set_super :: "nat \<Rightarrow> nat \<Rightarrow> 'a::len word \<Rightarrow> ext2 \<Rightarrow> ext2" where
  "set_super at n v fs = fs\<lparr>super := splice at (to_bytes n v) (super fs)\<rparr>"

text \<open>The descriptor of a group, which is in the table or else outside it.\<close>

record ext2_group_desc =
  bg_block_bitmap :: u32
  bg_inode_bitmap :: u32
  bg_inode_table :: u32
  bg_free_blocks_count :: u16
  bg_free_inodes_count :: u16
  bg_used_dirs_count :: u16

definition group_at :: "u32 \<Rightarrow> ext2 \<Rightarrow> ext2_group_desc" where
  "group_at g fs = (let d = drop (32 * unat g) (gdt fs) in
     \<lparr>bg_block_bitmap = field 0 4 d, bg_inode_bitmap = field 4 4 d, bg_inode_table = field 8 4 d,
      bg_free_blocks_count = field 12 2 d, bg_free_inodes_count = field 14 2 d, bg_used_dirs_count = field 16 2 d\<rparr>)"

definition find_group :: "u32 \<Rightarrow> ext2 \<Rightarrow> ext2_group_desc ext2_result" where
  "find_group g fs = (if 32 * unat g + 32 \<le> length (gdt fs) then Inr (group_at g fs) else Inl Outside_table)"

definition set_group :: "u32 \<Rightarrow> nat \<Rightarrow> u16 \<Rightarrow> ext2 \<Rightarrow> ext2" where
  "set_group g at v fs = fs\<lparr>gdt := splice (32 * unat g + at) (to_bytes 2 v) (gdt fs)\<rparr>"

section \<open>Blocks\<close>

definition fs_bread :: "ext2 \<Rightarrow> u32 \<Rightarrow> u8 list option" where
  "fs_bread fs b = (if b = 0 \<or> b \<ge> s_blocks_count fs \<or> unreadable fs b then None else Some (blocks fs b))"

text \<open>A changed buffer: later reads get the new bytes, whether or not they reach the disk.\<close>

definition put_block :: "u32 \<Rightarrow> u8 list \<Rightarrow> ext2 \<Rightarrow> ext2" where
  "put_block b bytes fs = fs\<lparr>blocks := (blocks fs)(b := bytes)\<rparr>"

definition fs_bwrite :: "ext2 \<Rightarrow> u32 \<Rightarrow> errno option" where
  "fs_bwrite fs b = (if unwritable fs b then Some EIO else None)"

definition write_super :: "ext2 \<Rightarrow> errno option \<times> ext2" where
  "write_super fs =
     (let b = (if block_size fs = 1024 then 1 else 0); off = (if block_size fs = 1024 then 0 else 1024)
      in if unreadable fs b then (Some EIO, fs)
         else
           (let fs = set_super 48 4 (ucast (clock fs) :: u32) fs
            in (fs_bwrite fs b, put_block b (splice off (super fs) (blocks fs b)) fs)))"

definition write_gd :: "u32 \<Rightarrow> ext2 \<Rightarrow> errno option \<times> ext2" where
  "write_gd g fs =
     (let per_block = block_size fs div 32; idx = g div per_block; b = s_first_data_block fs + 1 + idx;
          at = unat (idx * block_size fs); n = min (unat (block_size fs)) (unat (ngroups fs) * 32 - at)
      in case fs_bread fs b of
           None \<Rightarrow> (Some EIO, fs)
         | Some bytes \<Rightarrow> (fs_bwrite fs b, put_block b (splice 0 (take n (drop at (gdt fs))) bytes) fs))"

section \<open>Bitmaps\<close>

definition byte_of :: "u8 list \<Rightarrow> nat \<Rightarrow> u8 ext2_result" where
  "byte_of bs i = (if i < length bs then Inr (bs ! i) else Inl Outside_buffer)"

lemma or_7: "i OR 7 = i div 8 * 8 + (7 :: nat)"
proof -
  have b: "bit (7 :: nat) n \<longleftrightarrow> n < 3" for n
    using bit_mask_iff[where 'a = nat, of 3 n] by (simp add: mask_eq_exp_minus_1)
  have "push_bit 3 (drop_bit 3 i) + 7 = push_bit 3 (drop_bit 3 i) OR 7"
    by (rule disjunctive_add) (simp add: b bit_simps)
  also have "\<dots> = i OR 7"
    by (rule bit_eqI) (auto simp: b bit_simps)
  finally show ?thesis by (simp add: push_bit_eq_mult drop_bit_eq_div)
qed

text \<open>The two loops of \<^verbatim>\<open>find_zero_bit\<close>: the first one skips full bytes.\<close>

function zero_bit_from :: "u8 list \<Rightarrow> nat \<Rightarrow> nat \<Rightarrow> nat option ext2_result" where
  "zero_bit_from bs nbits i =
     (if \<not> i < nbits then Inr None
      else
        (case byte_of bs (i div 8) of
           Inl e \<Rightarrow> Inl e
         | Inr b \<Rightarrow>
             if b = 0xFF then zero_bit_from bs nbits ((i OR 7) + 1)
             else if b AND push_bit (i mod 8) 1 = 0 then Inr (Some i)
             else zero_bit_from bs nbits (i + 1)))"
  by pat_completeness auto
termination
  by (relation "measure (\<lambda>(_, nbits, i). nbits - i)") (use div_mult_mod_eq[of _ 8] in \<open>auto simp: or_7 less_Suc_eq_le intro!: diff_less_mono2\<close>)

declare zero_bit_from.simps [simp del]

primrec zero_bit_before :: "u8 list \<Rightarrow> nat \<Rightarrow> nat \<Rightarrow> nat option ext2_result" where
  "zero_bit_before bs 0 i = Inr None"
| "zero_bit_before bs (Suc rest) i =
     andthen (byte_of bs (i div 8)) (\<lambda>b. if b AND push_bit (i mod 8) 1 = 0 then Inr (Some i) else zero_bit_before bs rest (i + 1))"

definition find_zero_bit :: "u8 list \<Rightarrow> u32 \<Rightarrow> u32 \<Rightarrow> nat option ext2_result" where
  "find_zero_bit bs nbits start =
     andthen (zero_bit_from bs (unat nbits) (unat start)) (\<lambda>r.
       case r of
         Some i \<Rightarrow> Inr (Some i)
       | None \<Rightarrow> zero_bit_before bs (min (unat start) (unat nbits)) 0)"

definition set_bit_at :: "nat \<Rightarrow> u8 list \<Rightarrow> u8 list" where
  "set_bit_at i bs = bs[i div 8 := (bs ! (i div 8)) OR push_bit (i mod 8) 1]"

definition clear_bit_at :: "nat \<Rightarrow> u8 list \<Rightarrow> u8 list" where
  "clear_bit_at i bs = bs[i div 8 := (bs ! (i div 8)) AND NOT (push_bit (i mod 8) 1)]"

section \<open>Allocation of blocks and inodes\<close>

text \<open>The free counts after a bit of the block bitmap of group \<open>g\<close> has changed, in memory and on the disk.\<close>

definition store_counts :: "u32 \<Rightarrow> ext2 \<Rightarrow> ext2" where
  "store_counts g fs = snd (write_super (snd (write_gd g fs)))"

definition count_blocks :: "u32 \<Rightarrow> u16 \<Rightarrow> u32 \<Rightarrow> ext2 \<Rightarrow> ext2" where
  "count_blocks g d n fs =
     (let fs = set_group g 12 (bg_free_blocks_count (group_at g fs) + d) fs
      in store_counts g (set_super 12 4 (s_free_blocks_count fs + n) fs))"

primrec alloc_block_from :: "nat \<Rightarrow> u32 \<Rightarrow> u32 \<Rightarrow> u32 \<Rightarrow> ext2 \<Rightarrow> (u32 \<times> ext2) ext2_result" where
  "alloc_block_from 0 k goal g0 fs = Inr (0, fs)"
| "alloc_block_from (Suc rest) k goal g0 fs =
     (let g = (g0 + k) mod ngroups fs; bpg = s_blocks_per_group fs; first = s_first_data_block fs in
      andthen (find_group g fs) (\<lambda>d.
        if bg_free_blocks_count d = 0 then alloc_block_from rest (k + 1) goal g0 fs
        else
          (case fs_bread fs (bg_block_bitmap d) of
             None \<Rightarrow> Inr (0, fs)
           | Some bs \<Rightarrow>
               andthen (find_zero_bit bs (min bpg (s_blocks_count fs - first - g * bpg)) (if g = g0 then (goal - first) mod bpg else 0)) (\<lambda>r.
                 case r of
                   None \<Rightarrow> alloc_block_from rest (k + 1) goal g0 fs
                 | Some i \<Rightarrow>
                     (let fs = count_blocks g (- 1) (- 1) (put_block (bg_block_bitmap d) (set_bit_at i bs) fs); b = first + g * bpg + of_nat i
                      in if b = 0 then alloc_block_from rest (k + 1) goal g0 fs else Inr (b, fs))))))"

definition alloc_block :: "u32 \<Rightarrow> ext2 \<Rightarrow> (u32 \<times> ext2) ext2_result" where
  "alloc_block goal fs =
     (let first = s_first_data_block fs; goal = (if goal < first \<or> goal \<ge> s_blocks_count fs then first else goal) in
      if s_blocks_per_group fs = 0 then Inl Division_by_zero
      else
        andthen (alloc_block_from (unat (ngroups fs)) 0 goal ((goal - first) div s_blocks_per_group fs) fs) (\<lambda>(b, fs).
          if b = 0 then Inr (0, fs)
          else
            (case fs_bread fs b of
               None \<Rightarrow> Inr (b, fs)
             | Some _ \<Rightarrow> Inr (b, put_block b (replicate (unat (block_size fs)) 0) fs))))"

definition free_block :: "u32 \<Rightarrow> ext2 \<Rightarrow> ext2 ext2_result" where
  "free_block b fs =
     (if b < s_first_data_block fs \<or> b \<ge> s_blocks_count fs then Inr fs
      else if s_blocks_per_group fs = 0 then Inl Division_by_zero
      else
        (let g = (b - s_first_data_block fs) div s_blocks_per_group fs; i = unat ((b - s_first_data_block fs) mod s_blocks_per_group fs) in
         andthen (find_group g fs) (\<lambda>d.
           case fs_bread fs (bg_block_bitmap d) of
             None \<Rightarrow> Inr fs
           | Some bs \<Rightarrow>
               andthen (byte_of bs (i div 8)) (\<lambda>x.
                 if x AND push_bit (i mod 8) 1 = 0 then Inr fs
                 else Inr (count_blocks g 1 1 (put_block (bg_block_bitmap d) (clear_bit_at i bs) fs))))))"

text \<open>The group with the most free inodes, for a new directory.\<close>

primrec best_group :: "nat \<Rightarrow> u32 \<Rightarrow> u32 \<Rightarrow> ext2 \<Rightarrow> u32 ext2_result" where
  "best_group 0 g best fs = Inr best"
| "best_group (Suc rest) g best fs =
     andthen (find_group g fs) (\<lambda>d. andthen (find_group best fs) (\<lambda>e.
       best_group rest (g + 1) (if bg_free_inodes_count d > bg_free_inodes_count e then g else best) fs))"

definition take_inode :: "bool \<Rightarrow> u32 \<Rightarrow> u32 \<Rightarrow> nat \<Rightarrow> u8 list \<Rightarrow> ext2 \<Rightarrow> ext2" where
  "take_inode is_dir g bitmap i bs fs =
     (let fs = put_block bitmap (set_bit_at i bs) fs;
          fs = set_group g 14 (bg_free_inodes_count (group_at g fs) - 1) fs;
          fs = (if is_dir then set_group g 16 (bg_used_dirs_count (group_at g fs) + 1) fs else fs);
          fs = set_super 16 4 (s_free_inodes_count fs - 1) fs
      in store_counts g fs)"

primrec alloc_inode_from :: "nat \<Rightarrow> u32 \<Rightarrow> bool \<Rightarrow> u32 \<Rightarrow> ext2 \<Rightarrow> (u32 \<times> ext2) ext2_result" where
  "alloc_inode_from 0 k is_dir g0 fs = Inr (0, fs)"
| "alloc_inode_from (Suc rest) k is_dir g0 fs =
     (let g = (g0 + k) mod ngroups fs; ipg = s_inodes_per_group fs in
      andthen (find_group g fs) (\<lambda>d.
        if bg_free_inodes_count d = 0 then alloc_inode_from rest (k + 1) is_dir g0 fs
        else
          (case fs_bread fs (bg_inode_bitmap d) of
             None \<Rightarrow> Inr (0, fs)
           | Some bs \<Rightarrow>
               (let start = (if g = 0 then s_first_ino fs - 1 else 0) in
                andthen (find_zero_bit bs ipg start) (\<lambda>r.
                  case r of
                    None \<Rightarrow> alloc_inode_from rest (k + 1) is_dir g0 fs
                  | Some i \<Rightarrow>
                      if g \<noteq> 0 \<or> of_nat i \<ge> start
                      then
                        (let fs = take_inode is_dir g (bg_inode_bitmap d) i bs fs; nr = g * ipg + of_nat i + 1
                         in if nr = 0 then alloc_inode_from rest (k + 1) is_dir g0 fs else Inr (nr, fs))
                      else alloc_inode_from rest (k + 1) is_dir g0 fs)))))"

definition alloc_inode_nr :: "u32 \<Rightarrow> bool \<Rightarrow> ext2 \<Rightarrow> (u32 \<times> ext2) ext2_result" where
  "alloc_inode_nr near is_dir fs =
     (if s_inodes_per_group fs = 0 then Inl Division_by_zero
      else
        (let g0 = (near - 1) div s_inodes_per_group fs in
         andthen (if is_dir then best_group (unat (ngroups fs)) 0 g0 fs else Inr g0) (\<lambda>g0.
           alloc_inode_from (unat (ngroups fs)) 0 is_dir g0 fs)))"

definition free_inode_nr :: "u32 \<Rightarrow> bool \<Rightarrow> ext2 \<Rightarrow> ext2 ext2_result" where
  "free_inode_nr nr is_dir fs =
     (if s_inodes_per_group fs = 0 then Inl Division_by_zero
      else
        (let g = (nr - 1) div s_inodes_per_group fs; i = unat ((nr - 1) mod s_inodes_per_group fs) in
         andthen (find_group g fs) (\<lambda>d.
           case fs_bread fs (bg_inode_bitmap d) of
             None \<Rightarrow> Inr fs
           | Some bs \<Rightarrow>
               andthen (byte_of bs (i div 8)) (\<lambda>x.
                 if x AND push_bit (i mod 8) 1 = 0 then Inr fs
                 else
                   (let fs = put_block (bg_inode_bitmap d) (clear_bit_at i bs) fs;
                        fs = set_group g 14 (bg_free_inodes_count (group_at g fs) + 1) fs;
                        fs = (if is_dir then set_group g 16 (bg_used_dirs_count (group_at g fs) - 1) fs else fs);
                        fs = set_super 16 4 (s_free_inodes_count fs + 1) fs
                    in Inr (store_counts g fs))))))"

section \<open>Inodes\<close>

record ext2_node =
  e_ino :: u64
  e_mode :: u32
  e_uid :: u32
  e_gid :: u32
  e_nlink :: u32
  e_size :: u64
  e_atime :: u64
  e_mtime :: u64
  e_ctime :: u64
  raw :: "u8 list"

definition inode_location :: "u32 \<Rightarrow> ext2 \<Rightarrow> (u32 \<times> nat) ext2_result" where
  "inode_location nr fs =
     (if s_inodes_per_group fs = 0 then Inl Division_by_zero
      else
        andthen (find_group ((nr - 1) div s_inodes_per_group fs) fs) (\<lambda>d.
          (let byte = unat ((nr - 1) mod s_inodes_per_group fs) * unat (inode_size fs); n = unat (block_size fs)
           in Inr (bg_inode_table d + of_nat (byte div n), byte mod n))))"

definition set_raw :: "nat \<Rightarrow> nat \<Rightarrow> 'a::len word \<Rightarrow> u8 list \<Rightarrow> u8 list" where
  "set_raw at n v r = splice at (to_bytes n v) r"

definition i_block :: "u8 list \<Rightarrow> u32 \<Rightarrow> u32" where
  "i_block r i = field (40 + 4 * unat i) 4 r"

definition set_i_block :: "u32 \<Rightarrow> u32 \<Rightarrow> u8 list \<Rightarrow> u8 list" where
  "set_i_block i b r = set_raw (40 + 4 * unat i) 4 b r"

definition add_i_blocks :: "u32 \<Rightarrow> ext2_node \<Rightarrow> ext2_node" where
  "add_i_blocks n x = x\<lparr>raw := set_raw 28 4 ((field 28 4 (raw x) :: u32) + n) (raw x)\<rparr>"

definition update_raw :: "ext2_node \<Rightarrow> u8 list" where
  "update_raw x =
     (let r = set_raw 0 2 (ucast (e_mode x) :: u16) (raw x);
          r = set_raw 2 2 (ucast (e_uid x) :: u16) r;
          r = set_raw 24 2 (ucast (e_gid x) :: u16) r;
          r = set_raw 26 2 (ucast (e_nlink x) :: u16) r;
          r = set_raw 4 4 (ucast (e_size x) :: u32) r;
          r = (if S_ISREG (e_mode x) then set_raw 108 4 (ucast (drop_bit 32 (e_size x)) :: u32) r else r);
          r = set_raw 8 4 (ucast (e_atime x) :: u32) r;
          r = set_raw 16 4 (ucast (e_mtime x) :: u32) r
      in set_raw 12 4 (ucast (e_ctime x) :: u32) r)"

definition write_inode :: "ext2_node \<Rightarrow> ext2 \<Rightarrow> (errno option \<times> ext2_node \<times> ext2) ext2_result" where
  "write_inode x fs =
     (let x = x\<lparr>raw := update_raw x\<rparr> in
      andthen (inode_location (ucast (e_ino x)) fs) (\<lambda>(b, off).
        case fs_bread fs b of
          None \<Rightarrow> Inr (Some EIO, x, fs)
        | Some bytes \<Rightarrow>
            if off + 128 > length bytes then Inl Outside_buffer
            else Inr (fs_bwrite fs b, x, put_block b (splice off (raw x) bytes) fs)))"

text \<open>The inode that \<^verbatim>\<open>ext2_iget\<close> makes from the bytes on the disk, when it is not in memory yet.\<close>

definition read_inode :: "u32 \<Rightarrow> ext2 \<Rightarrow> ext2_node option ext2_result" where
  "read_inode nr fs =
     (if nr < 1 \<or> nr > s_inodes_count fs then Inr None
      else
        andthen (inode_location nr fs) (\<lambda>(b, off).
          case fs_bread fs b of
            None \<Rightarrow> Inr None
          | Some bytes \<Rightarrow>
              if \<not> has_memory fs then Inr None
              else if off + 128 > length bytes then Inl Outside_buffer
              else
                (let r = take 128 (drop off bytes); mode = ucast (field 0 2 r :: u16)
                 in Inr (Some
                      \<lparr>e_ino = ucast nr, e_mode = mode, e_uid = ucast (field 2 2 r :: u16), e_gid = ucast (field 24 2 r :: u16),
                       e_nlink = ucast (field 26 2 r :: u16),
                       e_size = ucast (field 4 4 r :: u32) OR (if S_ISREG mode then push_bit 32 (ucast (field 108 4 r :: u32)) else 0),
                       e_atime = ucast (field 8 4 r :: u32), e_mtime = ucast (field 16 4 r :: u32), e_ctime = ucast (field 12 4 r :: u32), raw = r\<rparr>))))"

section \<open>The map of a file\<close>

text \<open>The indices that lead to a block of a file, from the inode down; \<open>None\<close> if the file cannot be so large.\<close>

definition block_path :: "u32 \<Rightarrow> u64 \<Rightarrow> u32 list option" where
  "block_path per fblock =
     (let apb = ucast per :: u64 in
      if fblock < 12 then Some [ucast fblock]
      else
        (let fblock = fblock - 12 in
         if fblock < apb then Some [12, ucast fblock]
         else
           (let fblock = fblock - apb in
            if fblock < apb * apb then Some [13, ucast (fblock div apb), ucast (fblock mod apb)]
            else
              (let fblock = fblock - apb * apb in
               if fblock < apb * apb * apb
               then Some [14, ucast (fblock div (apb * apb)), ucast (fblock div apb mod apb), ucast (fblock mod apb)]
               else None))))"

text \<open>A pointer in an indirect block.\<close>

definition pointer :: "u32 \<Rightarrow> u8 list \<Rightarrow> u32 ext2_result" where
  "pointer i bytes = (if 4 * unat i + 4 \<le> length bytes then Inr (field (4 * unat i) 4 bytes) else Inl Outside_buffer)"

definition write_if :: "bool \<Rightarrow> ext2_node \<Rightarrow> ext2 \<Rightarrow> (ext2_node \<times> ext2) ext2_result" where
  "write_if dirty x fs = (if dirty then andthen (write_inode x fs) (\<lambda>(_, x, fs). Inr (x, fs)) else Inr (x, fs))"

primrec bmap_levels :: "u32 list \<Rightarrow> bool \<Rightarrow> u32 \<Rightarrow> bool \<Rightarrow> ext2_node \<Rightarrow> ext2 \<Rightarrow> ((errno + u32) \<times> ext2_node \<times> ext2) ext2_result" where
  "bmap_levels [] alloc cur dirty x fs = andthen (write_if dirty x fs) (\<lambda>(x, fs). Inr (Inr cur, x, fs))"
| "bmap_levels (i # path) alloc cur dirty x fs =
     (case fs_bread fs cur of
        None \<Rightarrow> Inr (Inl EIO, x, fs)
      | Some bytes \<Rightarrow>
          andthen (pointer i bytes) (\<lambda>nxt.
            if nxt \<noteq> 0 then bmap_levels path alloc nxt dirty x fs
            else if \<not> alloc then andthen (write_if dirty x fs) (\<lambda>(x, fs). Inr (Inr 0, x, fs))
            else
              andthen (alloc_block (cur + 1) fs) (\<lambda>(nxt, fs).
                if nxt = 0 then andthen (write_if dirty x fs) (\<lambda>(x, fs). Inr (Inl ENOSPC, x, fs))
                else
                  bmap_levels path alloc nxt True (add_i_blocks (block_size fs div 512) x)
                    (put_block cur (splice (4 * unat i) (to_bytes 4 nxt) (blocks fs cur)) fs))))"

definition bmap :: "ext2_node \<Rightarrow> u64 \<Rightarrow> bool \<Rightarrow> ext2 \<Rightarrow> ((errno + u32) \<times> ext2_node \<times> ext2) ext2_result" where
  "bmap x fblock alloc fs =
     (case block_path (addr_per_block fs) fblock of
        None \<Rightarrow> Inr (Inl EFBIG, x, fs)
      | Some path \<Rightarrow>
          (let cur = i_block (raw x) (hd path) in
           if cur \<noteq> 0 then bmap_levels (tl path) alloc cur False x fs
           else if \<not> alloc then Inr (Inr 0, x, fs)
           else if s_inodes_per_group fs = 0 then Inl Division_by_zero
           else
             (let goal = s_first_data_block fs + (ucast (e_ino x) - 1) div s_inodes_per_group fs * s_blocks_per_group fs in
              andthen (alloc_block goal fs) (\<lambda>(cur, fs).
                if cur = 0 then Inr (Inl ENOSPC, x, fs)
                else
                  bmap_levels (tl path) alloc cur True
                    (add_i_blocks (block_size fs div 512) (x\<lparr>raw := set_i_block (hd path) cur (raw x)\<rparr>)) fs))))"

section \<open>Reading, writing and truncating a file\<close>

text \<open>One round of the loop of \<^verbatim>\<open>ext2_read\<close>: the bytes of a chunk, zeros for a hole.\<close>

definition read_chunk_of :: "ext2_node \<Rightarrow> u64 \<Rightarrow> nat \<Rightarrow> nat \<Rightarrow> ext2 \<Rightarrow> (errno + u8 list) ext2_result" where
  "read_chunk_of x fblock inside n fs =
     andthen (bmap x fblock False fs) (\<lambda>(r, _, _).
       case r of
         Inl e \<Rightarrow> Inr (Inl e)
       | Inr b \<Rightarrow>
           if b = 0 then Inr (Inr (replicate n 0))
           else (case fs_bread fs b of None \<Rightarrow> Inr (Inl EIO) | Some bytes \<Rightarrow> Inr (Inr (take n (drop inside bytes)))))"

lemma inside_block: "b \<noteq> 0 \<Longrightarrow> unat (pos mod ucast (b :: u32) :: u64) < unat b"
proof -
  assume "b \<noteq> 0"
  then have "0 < unat b" by (simp add: unat_gt_0)
  moreover have "unat (ucast b :: u64) = unat b" using unat_lt_32[of b] by (simp add: unsigned_ucast_eq take_bit_nat_eq_self)
  ultimately show ?thesis by (simp add: unat_mod)
qed

lemma chunk_smaller: "f < len \<Longrightarrow> k < n \<Longrightarrow> len - (f + min (len - f) (n - k)) < len - (f :: nat)"
  by arith

function ext2_read_loop :: "ext2_node \<Rightarrow> u64 \<Rightarrow> nat \<Rightarrow> nat \<Rightarrow> u8 list \<Rightarrow> ext2 \<Rightarrow> (nat \<times> errno option \<times> u8 list) ext2_result" where
  "ext2_read_loop x off len finished bytes fs =
     (if \<not> finished < len then Inr (finished, None, bytes)
      else if block_size fs = 0 then Inl Division_by_zero
      else
        (let pos = off + of_nat finished; inside = unat (pos mod ucast (block_size fs));
             n = min (len - finished) (unat (block_size fs) - inside)
         in case read_chunk_of x (pos div ucast (block_size fs)) inside n fs of
              Inl e \<Rightarrow> Inl e
            | Inr (Inl e) \<Rightarrow> Inr (finished, Some e, bytes)
            | Inr (Inr bs) \<Rightarrow> ext2_read_loop x off len (finished + n) (splice finished bs bytes) fs))"
  by pat_completeness auto
termination
  by (relation "measure (\<lambda>(_, _, len, finished, _, _). len - finished)") (auto intro!: chunk_smaller simp: inside_block)

declare ext2_read_loop.simps [simp del]

text \<open>The number of bytes read, or an error if there were none, and the caller's buffer.\<close>

definition ext2_read :: "ext2_node \<Rightarrow> u64 \<Rightarrow> u64 \<Rightarrow> u8 list \<Rightarrow> ext2 \<Rightarrow> ((errno + nat) \<times> u8 list) ext2_result" where
  "ext2_read x len off bytes fs =
     (if off \<ge> e_size x then Inr (Inr 0, bytes)
      else
        andthen (ext2_read_loop x off (unat (min len (e_size x - off))) 0 bytes fs) (\<lambda>(finished, err, bytes).
          Inr (if finished \<noteq> 0 then Inr finished else case err of None \<Rightarrow> Inr 0 | Some e \<Rightarrow> Inl e, bytes)))"

definition write_chunk_to :: "ext2_node \<Rightarrow> u64 \<Rightarrow> nat \<Rightarrow> u8 list \<Rightarrow> ext2 \<Rightarrow> (errno option \<times> ext2_node \<times> ext2) ext2_result" where
  "write_chunk_to x fblock inside bs fs =
     andthen (bmap x fblock True fs) (\<lambda>(r, x, fs).
       case r of
         Inl e \<Rightarrow> Inr (Some e, x, fs)
       | Inr b \<Rightarrow>
           (case fs_bread fs b of
              None \<Rightarrow> Inr (Some EIO, x, fs)
            | Some bytes \<Rightarrow> Inr (fs_bwrite fs b, x, put_block b (splice inside bs bytes) fs)))"

text \<open>The loop of \<^verbatim>\<open>ext2_write\<close>: \<open>bs\<close> is what is left to write.\<close>

function ext2_write_loop :: "u64 \<Rightarrow> nat \<Rightarrow> u8 list \<Rightarrow> ext2_node \<Rightarrow> ext2 \<Rightarrow> (nat \<times> errno option \<times> ext2_node \<times> ext2) ext2_result" where
  "ext2_write_loop off finished bs x fs =
     (if bs = [] then Inr (finished, None, x, fs)
      else if block_size fs = 0 then Inl Division_by_zero
      else
        (let pos = off + of_nat finished; inside = unat (pos mod ucast (block_size fs));
             n = min (length bs) (unat (block_size fs) - inside)
         in case write_chunk_to x (pos div ucast (block_size fs)) inside (take n bs) fs of
              Inl e \<Rightarrow> Inl e
            | Inr (Some e, x, fs) \<Rightarrow> Inr (finished, Some e, x, fs)
            | Inr (None, x, fs) \<Rightarrow> ext2_write_loop off (finished + n) (drop n bs) x fs))"
  by pat_completeness auto
termination
  by (relation "measure (\<lambda>(_, _, bs, _, _). length bs)") (auto simp: inside_block)

declare ext2_write_loop.simps [simp del]

definition ext2_write :: "ext2_node \<Rightarrow> u64 \<Rightarrow> u8 list \<Rightarrow> ext2 \<Rightarrow> ((errno + nat) \<times> ext2_node \<times> ext2) ext2_result" where
  "ext2_write x off bytes fs =
     (if fs_read_only fs then Inr (Inl EROFS, x, fs)
      else
        andthen (ext2_write_loop off 0 bytes x fs) (\<lambda>(finished, err, x, fs).
          if finished \<noteq> 0
          then
            (let x = (if off + of_nat finished > e_size x then x\<lparr>e_size := off + of_nat finished\<rparr> else x) in
             andthen (write_inode (x\<lparr>e_mtime := clock fs, e_ctime := clock fs\<rparr>) fs) (\<lambda>(_, x, fs). Inr (Inr finished, x, fs)))
          else Inr (case err of None \<Rightarrow> Inr 0 | Some e \<Rightarrow> Inl e, x, fs)))"

section \<open>Truncation\<close>

text \<open>The pointers of an indirect block, which the code copies before it goes down.\<close>

definition pointers :: "u32 \<Rightarrow> u8 list \<Rightarrow> u32 list" where
  "pointers n bytes = map (\<lambda>i. field (4 * i) 4 bytes) [0..<unat n]"

primrec free_tree :: "nat \<Rightarrow> u32 \<Rightarrow> ext2_node \<Rightarrow> ext2 \<Rightarrow> (ext2_node \<times> ext2) ext2_result" where
  "free_tree 0 b x fs =
     (if b = 0 then Inr (x, fs)
      else andthen (free_block b fs) (\<lambda>fs. Inr (add_i_blocks (- (block_size fs div 512)) x, fs)))"
| "free_tree (Suc depth) b x fs =
     (if b = 0 then Inr (x, fs)
      else
        andthen (case fs_bread fs b of
                   None \<Rightarrow> Inr (x, fs)
                 | Some bytes \<Rightarrow>
                     if has_memory fs
                     then fold (\<lambda>p r. andthen r (\<lambda>(x, fs). free_tree depth p x fs)) (pointers (addr_per_block fs) bytes) (Inr (x, fs))
                     else Inr (x, fs)) (\<lambda>(x, fs).
          andthen (free_block b fs) (\<lambda>fs. Inr (add_i_blocks (- (block_size fs div 512)) x, fs))))"

text \<open>The new value of the pointer is the first component of the result.\<close>

primrec trunc_tree :: "nat \<Rightarrow> u32 \<Rightarrow> u64 \<Rightarrow> u64 \<Rightarrow> ext2_node \<Rightarrow> ext2 \<Rightarrow> (u32 \<times> ext2_node \<times> ext2) ext2_result" where
  "trunc_tree 0 p base keep x fs =
     (if p = 0 then Inr (p, x, fs)
      else if base \<ge> keep then andthen (free_tree 0 p x fs) (\<lambda>(x, fs). Inr (0, x, fs))
      else Inr (p, x, fs))"
| "trunc_tree (Suc depth) p base keep x fs =
     (let child_span = ucast (addr_per_block fs) ^ depth; span = child_span * ucast (addr_per_block fs) in
      if p = 0 then Inr (p, x, fs)
      else if base \<ge> keep then andthen (free_tree (Suc depth) p x fs) (\<lambda>(x, fs). Inr (0, x, fs))
      else if base + span \<le> keep then Inr (p, x, fs)
      else
        (case fs_bread fs p of
           None \<Rightarrow> Inr (p, x, fs)
         | Some bytes \<Rightarrow>
             andthen
               (fold (\<lambda>i r. andthen r (\<lambda>(x, fs).
                   let cb = base + of_nat i * child_span; q = field (4 * i) 4 (blocks fs p) in
                   if cb + child_span \<le> keep \<or> q = 0 then Inr (x, fs)
                   else
                     andthen (trunc_tree depth q cb keep x fs) (\<lambda>(q', x, fs).
                       Inr (x, if q' = q then fs else put_block p (splice (4 * i) (to_bytes 4 q') (blocks fs p)) fs))))
                 [0..<unat (addr_per_block fs)] (Inr (x, fs))) (\<lambda>(x, fs).
               Inr (p, x, fs))))"

definition trunc_root :: "nat \<Rightarrow> u32 \<Rightarrow> u64 \<Rightarrow> u64 \<Rightarrow> ext2_node \<times> ext2 \<Rightarrow> (ext2_node \<times> ext2) ext2_result" where
  "trunc_root depth i base keep = (\<lambda>(x, fs).
     andthen (trunc_tree depth (i_block (raw x) i) base keep x fs) (\<lambda>(p, x, fs). Inr (x\<lparr>raw := set_i_block i p (raw x)\<rparr>, fs)))"

definition ext2_truncate :: "ext2_node \<Rightarrow> u64 \<Rightarrow> ext2 \<Rightarrow> (errno option \<times> ext2_node \<times> ext2) ext2_result" where
  "ext2_truncate x sz fs =
     (if fs_read_only fs then Inr (Some EROFS, x, fs)
      else if block_size fs = 0 then Inl Division_by_zero
      else
        (let bs = ucast (block_size fs) :: u64; keep = (sz + bs - 1) div bs; apb = ucast (addr_per_block fs) :: u64 in
         andthen
           (if sz < e_size x
            then
              andthen (fold (\<lambda>i r. andthen r (trunc_root 0 (of_nat i) (of_nat i) keep)) [0..<12] (Inr (x, fs))) (\<lambda>s.
              andthen (trunc_root 1 12 12 keep s) (\<lambda>s.
              andthen (trunc_root 2 13 (12 + apb) keep s) (\<lambda>s.
              andthen (trunc_root 3 14 (12 + apb + apb * apb) keep s) (\<lambda>(x, fs).
                (let tail = unat (sz mod bs) in
                 if tail = 0 then Inr (x, fs)
                 else
                   andthen (bmap x (sz div bs) False fs) (\<lambda>(r, _, _).
                     case r of
                       Inl e \<Rightarrow> Inr (x, fs)
                     | Inr b \<Rightarrow>
                         if b = 0 then Inr (x, fs)
                         else
                           (case fs_bread fs b of
                              None \<Rightarrow> Inr (x, fs)
                            | Some bytes \<Rightarrow> Inr (x, put_block b (splice tail (replicate (unat (block_size fs) - tail) 0) bytes) fs))))))))
            else Inr (x, fs)) (\<lambda>(x, fs).
         write_inode (x\<lparr>e_size := sz, e_mtime := clock fs, e_ctime := clock fs\<rparr>) fs)))"

end
