(* ===== verification/Ext2_Dir.thy ===== *)
theory Ext2_Dir
  imports Ext2
begin

text \<open>
  Directories of \<^verbatim>\<open>kernel/fs/ext2.c\<close>: chains of entries in the blocks of a file. A visitor gets the bytes of a
  block, the offset of an entry and that of the one before it, and answers whether to stop, with the bytes
  it has changed. Names are byte strings without a zero.
\<close>

section \<open>Entries\<close>

record ext2_dirent =
  d_inode :: u32
  rec_len :: u16
  name_len :: u8
  file_type :: u8

definition dirent_at :: "u8 list \<Rightarrow> nat \<Rightarrow> ext2_dirent ext2_result" where
  "dirent_at bytes off =
     (if off + 8 \<le> length bytes
      then Inr \<lparr>d_inode = field off 4 bytes, rec_len = field (off + 4) 2 bytes, name_len = field (off + 6) 1 bytes, file_type = field (off + 7) 1 bytes\<rparr>
      else Inl Outside_buffer)"

definition d_name :: "u8 list \<Rightarrow> nat \<Rightarrow> ext2_dirent \<Rightarrow> u8 list" where
  "d_name bytes off d = take (unat (name_len d)) (drop (off + 8) bytes)"

text \<open>The header and the name, rounded up to a multiple of 4.\<close>

definition rec_size :: "nat \<Rightarrow> nat" where
  "rec_size n = (8 + n + 3) div 4 * 4"

definition dirent_ok :: "nat \<Rightarrow> ext2_dirent \<Rightarrow> nat \<Rightarrow> bool" where
  "dirent_ok bs d off \<longleftrightarrow> rec_len d \<ge> 8 \<and> rec_len d AND 3 = 0 \<and> off + unat (rec_len d) \<le> bs \<and> rec_size (unat (name_len d)) \<le> unat (rec_len d)"

definition mode_to_ft :: "u32 \<Rightarrow> u8" where
  "mode_to_ft md =
     (if md AND S_IFMT = S_IFREG then 1 else if md AND S_IFMT = S_IFDIR then 2 else if md AND S_IFMT = S_IFCHR then 3
      else if md AND S_IFMT = S_IFBLK then 4 else if md AND S_IFMT = 0x1000 then 5 else if md AND S_IFMT = 0xA000 then 7 else 0)"

definition ft_to_mode :: "u8 \<Rightarrow> u32" where
  "ft_to_mode ft = (if ft < 8 then [0, S_IFREG, S_IFDIR, S_IFCHR, S_IFBLK, 0x1000, 0xC000, 0xA000] ! unat ft else 0)"

section \<open>Going through a directory\<close>

type_synonym 'c visitor = "u8 list \<Rightarrow> nat \<Rightarrow> nat option \<Rightarrow> ext2_dirent \<Rightarrow> 'c \<Rightarrow> bool \<times> u8 list \<times> 'c"

function visit_block :: "'c visitor \<Rightarrow> nat \<Rightarrow> nat \<Rightarrow> nat option \<Rightarrow> u8 list \<Rightarrow> 'c \<Rightarrow> (bool \<times> u8 list \<times> 'c) ext2_result" where
  "visit_block fn bs off prev bytes c =
     (if \<not> off < bs then Inr (False, bytes, c)
      else
        (case dirent_at bytes off of
           Inl e \<Rightarrow> Inl e
         | Inr d \<Rightarrow>
             if \<not> dirent_ok bs d off then Inr (False, bytes, c)
             else
               (case fn bytes off prev d c of
                  (True, bytes, c) \<Rightarrow> Inr (True, bytes, c)
                | (False, bytes, c) \<Rightarrow> visit_block fn bs (off + unat (rec_len d)) (Some off) bytes c)))"
  by pat_completeness auto
termination
proof (relation "measure (\<lambda>(fn, bs, off, prev, bytes, c). bs - off)", goal_cases)
  case (2 fn bs off prev bytes c d stop)
  then have "8 \<le> unat (rec_len d)" by (simp add: dirent_ok_def word_le_nat_alt)
  with 2 show ?case by simp
qed simp

declare visit_block.simps [simp del]

primrec dir_iterate_from :: "'c visitor \<Rightarrow> nat \<Rightarrow> u64 \<Rightarrow> ext2_node \<Rightarrow> 'c \<Rightarrow> ext2 \<Rightarrow> ((errno + bool) \<times> 'c \<times> ext2) ext2_result" where
  "dir_iterate_from fn 0 i x c fs = Inr (Inr False, c, fs)"
| "dir_iterate_from fn (Suc rest) i x c fs =
     andthen (bmap x i False fs) (\<lambda>(r, _, _).
       case r of
         Inl e \<Rightarrow> Inr (Inl e, c, fs)
       | Inr b \<Rightarrow>
           if b = 0 then dir_iterate_from fn rest (i + 1) x c fs
           else
             (case fs_bread fs b of
                None \<Rightarrow> Inr (Inl EIO, c, fs)
              | Some bytes \<Rightarrow>
                  andthen (visit_block fn (unat (block_size fs)) 0 None bytes c) (\<lambda>(stop, bytes', c).
                    if stop then Inr (Inr True, c, put_block b bytes' fs) else dir_iterate_from fn rest (i + 1) x c fs)))"

definition dir_iterate :: "'c visitor \<Rightarrow> ext2_node \<Rightarrow> 'c \<Rightarrow> ext2 \<Rightarrow> ((errno + bool) \<times> 'c \<times> ext2) ext2_result" where
  "dir_iterate fn x c fs =
     (if block_size fs = 0 then Inl Division_by_zero
      else dir_iterate_from fn (unat (e_size x div ucast (block_size fs))) 0 x c fs)"

section \<open>Finding a name\<close>

definition has_name :: "u8 list \<Rightarrow> u8 list \<Rightarrow> nat \<Rightarrow> ext2_dirent \<Rightarrow> bool" where
  "has_name name bytes off d \<longleftrightarrow> d_inode d \<noteq> 0 \<and> unat (name_len d) = length name \<and> d_name bytes off d = name"

definition find_visit :: "u8 list \<Rightarrow> u32 visitor" where
  "find_visit name bytes off prev d c = (if has_name name bytes off d then (True, bytes, d_inode d) else (False, bytes, c))"

definition dir_find :: "ext2_node \<Rightarrow> u8 list \<Rightarrow> ext2 \<Rightarrow> u32 ext2_result" where
  "dir_find x name fs = andthen (dir_iterate (find_visit name) x 0 fs) (\<lambda>(r, c, _). Inr (if r = Inr True then c else 0))"

section \<open>Adding a name\<close>

text \<open>The bytes of an entry.\<close>

definition put_dirent :: "nat \<Rightarrow> u32 \<Rightarrow> u16 \<Rightarrow> u8 list \<Rightarrow> u8 \<Rightarrow> u8 list \<Rightarrow> u8 list" where
  "put_dirent off nr len name ft bytes =
     splice off (to_bytes 4 nr @ to_bytes 2 len @ [of_nat (length name), ft] @ name) bytes"

text \<open>An entry in use is split; one that is not is used as it is.\<close>

definition add_visit :: "u8 list \<Rightarrow> u32 \<Rightarrow> u8 \<Rightarrow> bool visitor" where
  "add_visit name nr ft bytes off prev d c =
     (let need = rec_size (length name); used = (if d_inode d \<noteq> 0 then rec_size (unat (name_len d)) else 0) in
      if unat (rec_len d) - used < need then (False, bytes, c)
      else if d_inode d \<noteq> 0
      then (True, put_dirent (off + used) nr (rec_len d - of_nat used) name ft (splice (off + 4) (to_bytes 2 (of_nat used :: u16)) bytes), True)
      else (True, put_dirent off nr (rec_len d) name ft bytes, True))"

definition dir_add :: "ext2_node \<Rightarrow> u8 list \<Rightarrow> u32 \<Rightarrow> u8 \<Rightarrow> ext2 \<Rightarrow> (errno option \<times> ext2_node \<times> ext2) ext2_result" where
  "dir_add x name nr ft fs =
     (if length name > NAME_MAX then Inr (Some ENAMETOOLONG, x, fs)
      else
        andthen (dir_iterate (add_visit name nr ft) x False fs) (\<lambda>(r, finished, fs).
          case r of
            Inl e \<Rightarrow> Inr (Some e, x, fs)
          | Inr _ \<Rightarrow>
              if finished then Inr (None, x, fs)
              else
                andthen (bmap x (e_size x div ucast (block_size fs)) True fs) (\<lambda>(r, x, fs).
                  case r of
                    Inl e \<Rightarrow> Inr (Some e, x, fs)
                  | Inr b \<Rightarrow>
                      (case fs_bread fs b of
                         None \<Rightarrow> Inr (Some EIO, x, fs)
                       | Some bytes \<Rightarrow>
                           write_inode (x\<lparr>e_size := e_size x + ucast (block_size fs), e_mtime := clock fs, e_ctime := clock fs\<rparr>)
                             (put_block b (put_dirent 0 nr (ucast (block_size fs)) name ft bytes) fs)))))"

section \<open>Removing a name\<close>

text \<open>The entry before takes over the space; the first entry of a block is marked as not in use.\<close>

definition remove_visit :: "u8 list \<Rightarrow> bool visitor" where
  "remove_visit name bytes off prev d c =
     (if \<not> has_name name bytes off d then (False, bytes, c)
      else
        (True,
         (case prev of
            Some p \<Rightarrow> splice (p + 4) (to_bytes 2 ((field (p + 4) 2 bytes :: u16) + rec_len d)) bytes
          | None \<Rightarrow> splice off (to_bytes 4 (0 :: u32)) bytes), True))"

definition dir_remove :: "ext2_node \<Rightarrow> u8 list \<Rightarrow> ext2 \<Rightarrow> (errno option \<times> ext2_node \<times> ext2) ext2_result" where
  "dir_remove x name fs =
     andthen (dir_iterate (remove_visit name) x False fs) (\<lambda>(r, found, fs).
       case r of
         Inl e \<Rightarrow> Inr (Some e, x, fs)
       | Inr _ \<Rightarrow>
           if \<not> found then Inr (Some ENOENT, x, fs)
           else write_inode (x\<lparr>e_mtime := clock fs, e_ctime := clock fs\<rparr>) fs)"

section \<open>Other visitors\<close>

abbreviation dot :: u8 where "dot \<equiv> 46"

definition empty_visit :: "bool visitor" where
  "empty_visit bytes off prev d c =
     (if d_inode d = 0 \<or> d_name bytes off d = [dot] \<or> d_name bytes off d = [dot, dot] then (False, bytes, c) else (True, bytes, False))"

definition dir_is_empty :: "ext2_node \<Rightarrow> ext2 \<Rightarrow> bool ext2_result" where
  "dir_is_empty x fs = andthen (dir_iterate empty_visit x True fs) (\<lambda>(_, c, _). Inr c)"

text \<open>The new parent of a directory that is moved.\<close>

definition dotdot_visit :: "u32 \<Rightarrow> unit visitor" where
  "dotdot_visit nr bytes off prev d c =
     (if d_name bytes off d = [dot, dot] then (True, splice off (to_bytes 4 nr) bytes, c) else (False, bytes, c))"

text \<open>The first block of a new directory.\<close>

definition first_dir_block :: "u32 \<Rightarrow> u32 \<Rightarrow> u32 \<Rightarrow> u8 list \<Rightarrow> u8 list" where
  "first_dir_block nr near bs bytes =
     put_dirent 12 near (ucast bs - 12) [dot, dot] 2 (put_dirent 0 nr 12 [dot] 2 bytes)"

section \<open>Listing\<close>

text \<open>One step of \<^verbatim>\<open>ext2_readdir\<close>: the new position and the entry, if there is one at this place.\<close>

definition readdir_at :: "ext2_node \<Rightarrow> u64 \<Rightarrow> ext2 \<Rightarrow> (errno + u64 \<times> (u32 \<times> u8 \<times> u8 list) option) ext2_result" where
  "readdir_at x pos fs =
     (let bs = ucast (block_size fs) :: u64; off = unat (pos mod bs); skip = (pos div bs + 1) * bs in
      andthen (bmap x (pos div bs) False fs) (\<lambda>(r, _, _).
        case r of
          Inl e \<Rightarrow> Inr (Inl e)
        | Inr b \<Rightarrow>
            if b = 0 then Inr (Inr (skip, None))
            else
              (case fs_bread fs b of
                 None \<Rightarrow> Inr (Inl EIO)
               | Some bytes \<Rightarrow>
                   andthen (dirent_at bytes off) (\<lambda>d.
                     if \<not> dirent_ok (unat (block_size fs)) d off then Inr (Inr (skip, None))
                     else
                       Inr (Inr (pos + ucast (rec_len d),
                         if d_inode d \<noteq> 0 then Some (d_inode d, file_type d, d_name bytes off d) else None))))))"

text \<open>
  \<^verbatim>\<open>ext2_readdir\<close>: the new position and the next entry. Every step moves the position on; \<open>None\<close> is a loop
  without end, which only a position that wraps could give. The type of an entry that does not have it is
  taken from its inode.
\<close>

partial_function (option) ext2_readdir :: "ext2_node \<Rightarrow> u64 \<Rightarrow> ext2 \<Rightarrow> ((errno + u64 \<times> (u32 \<times> u32 \<times> u8 list) option) ext2_result) option" where
  "ext2_readdir x pos fs =
     (if \<not> pos < e_size x then Some (Inr (Inr (pos, None)))
      else if block_size fs = 0 then Some (Inl Division_by_zero)
      else
        (case readdir_at x pos fs of
           Inl e \<Rightarrow> Some (Inl e)
         | Inr (Inl e) \<Rightarrow> Some (Inr (Inl e))
         | Inr (Inr (pos, None)) \<Rightarrow> ext2_readdir x pos fs
         | Inr (Inr (pos, Some (nr, ft, name))) \<Rightarrow>
             (if ft_to_mode ft \<noteq> 0 then Some (Inr (Inr (pos, Some (nr, ft_to_mode ft, name))))
              else
                (case read_inode nr fs of
                   Inl e \<Rightarrow> Some (Inl e)
                 | Inr None \<Rightarrow> Some (Inr (Inr (pos, Some (nr, 0, name))))
                 | Inr (Some y) \<Rightarrow> Some (Inr (Inr (pos, Some (nr, e_mode y AND S_IFMT, name))))))))"

end
