(* ===== verification/Ext2_Alloc.thy ===== *)
theory Ext2_Alloc
  imports Ext2_Dir Block_File
begin

text \<open>
  Bitmaps and the allocation of blocks in \<^verbatim>\<open>fs/ext2.c\<close>. The abstract state of the allocator is the set of free
  block numbers; \<open>fs_ok\<close> says that the free counts are exact and the blocks of the file system itself are in use.
\<close>

section \<open>Bits\<close>

definition bitmap :: "u8 list \<Rightarrow> nat \<Rightarrow> bool" where
  "bitmap bs i \<longleftrightarrow> bit (bs ! (i div 8)) (i mod 8)"

lemma and_push_1: "k < 8 \<Longrightarrow> (b :: u8) AND push_bit k 1 = 0 \<longleftrightarrow> \<not> bit b k"
proof
  assume k: "k < 8"
  show "\<not> bit b k" if "b AND push_bit k 1 = 0"
  proof
    assume "bit b k"
    then have "bit (b AND push_bit k 1) k" using k by (simp add: bit_simps)
    then show False using that by simp
  qed
  show "b AND push_bit k 1 = 0" if "\<not> bit b k"
    by (rule bit_word_eqI) (use that in \<open>auto simp: bit_simps\<close>)
qed

lemma and_exp: "(b :: u8) AND 2 ^ (i mod 8) = 0 \<longleftrightarrow> \<not> bit b (i mod 8)"
  using and_push_1[of "i mod 8" b] by simp

lemma full_byte: "b = (0xFF :: u8) \<Longrightarrow> k < 8 \<Longrightarrow> bit b k"
proof -
  assume "b = 0xFF" "k < 8"
  moreover have "(0xFF :: u8) = mask 8" by (simp add: mask_eq_exp_minus_1)
  ultimately have "b = mask 8" "k < 8" by simp_all
  then show ?thesis by (simp only: bit_mask_iff) simp
qed

lemma find_append: "find P (xs @ ys) = (case find P xs of None \<Rightarrow> find P ys | Some x \<Rightarrow> Some x)"
  by (induction xs) auto

lemma find_SomeD: "find P xs = Some x \<Longrightarrow> x \<in> set xs \<and> P x"
  by (induction xs) (auto split: if_splits)

lemma find_upt_skip:
  assumes "\<And>k. i \<le> k \<Longrightarrow> k < j \<Longrightarrow> k < n \<Longrightarrow> \<not> P k" "i \<le> j"
  shows "find P [i..<n] = find P [j..<n]"
proof (cases "j \<le> n")
  case True
  have "[i..<n] = [i..<j] @ [j..<n]" using assms(2) True upt_add_eq_append[of i j "n - j"] by simp
  moreover have "find P [i..<j] = None" using assms True by (auto simp: find_None_iff)
  ultimately show ?thesis by (simp add: find_append)
next
  case False
  then have "find P [i..<n] = None" "find P [j..<n] = None" using assms by (auto simp: find_None_iff)
  then show ?thesis by simp
qed

lemma zero_bit_from_ok:
  "nbits \<le> 8 * length bs \<Longrightarrow> zero_bit_from bs nbits i = Inr (find (\<lambda>j. \<not> bitmap bs j) [i..<nbits])"
proof (induction bs nbits i rule: zero_bit_from.induct)
  case (1 bs nbits i)
  show ?case
  proof (cases "i < nbits")
    case False
    then show ?thesis by (simp add: zero_bit_from.simps)
  next
    case True
    then have b: "byte_of bs (i div 8) = Inr (bs ! (i div 8))" using 1(3) by (simp add: byte_of_def)
    have cons: "[i..<nbits] = i # [i + 1..<nbits]" using True by (simp add: upt_conv_Cons)
    show ?thesis
    proof (cases "bs ! (i div 8) = 0xFF")
      case full: True
      have all: "bitmap bs k" if "i \<le> k" "k < (i OR 7) + 1" for k
      proof -
        have "k div 8 = i div 8" using that unfolding or_7 by (simp add: div_nat_eqI)
        then show ?thesis using full_byte[OF full] by (simp add: bitmap_def)
      qed
      have le: "i \<le> (i OR 7) + 1" using div_mult_mod_eq[of i 8] mod_less_divisor[of 8 i] unfolding or_7 by linarith
      have "find (\<lambda>j. \<not> bitmap bs j) [i..<nbits] = find (\<lambda>j. \<not> bitmap bs j) [(i OR 7) + 1..<nbits]"
        by (rule find_upt_skip) (use all le in auto)
      then show ?thesis using 1(1)[of "bs ! (i div 8)"] 1(3) True b full by (subst zero_bit_from.simps) simp
    next
      case False
      then show ?thesis
        using 1(2)[of "bs ! (i div 8)"] 1(3) True b by (subst zero_bit_from.simps) (simp add: cons and_exp bitmap_def)
    qed
  qed
qed

lemma zero_bit_before_ok:
  "i + n \<le> 8 * length bs \<Longrightarrow> zero_bit_before bs n i = Inr (find (\<lambda>j. \<not> bitmap bs j) [i..<i + n])"
proof (induction n arbitrary: i)
  case (Suc n)
  then show ?case using Suc.IH[of "i + 1"] by (simp add: byte_of_def and_exp bitmap_def upt_conv_Cons del: upt_Suc)
qed simp

lemma find_zero_bit_search:
  assumes "unat nbits \<le> 8 * length bs"
  shows "find_zero_bit bs nbits start =
    Inr (find (\<lambda>i. \<not> bitmap bs i) ([unat start..<unat nbits] @ [0..<min (unat start) (unat nbits)]))"
proof -
  have "min (unat start) (unat nbits) \<le> 8 * length bs" using assms by simp
  then show ?thesis
    using zero_bit_from_ok[OF assms] zero_bit_before_ok[of 0 "min (unat start) (unat nbits)" bs]
    by (auto simp: find_zero_bit_def find_append split: option.splits)
qed

section \<open>Fields\<close>

lemma nth_splice:
  assumes "i + length xs \<le> length ys" "j < length ys"
  shows "splice i xs ys ! j = (if i \<le> j \<and> j < i + length xs then xs ! (j - i) else ys ! j)"
proof -
  consider "j < i" | "i \<le> j" "j < i + length xs" | "i + length xs \<le> j" by linarith
  then show ?thesis using assms by cases (simp_all add: splice_def nth_append min_def less_diff_conv2)
qed

lemma take_drop_splice_same:
  "i + length xs \<le> length ys \<Longrightarrow> take (length xs) (drop i (splice i xs ys)) = xs"
  by (simp add: splice_def min_def)

lemma take_drop_splice_other:
  assumes "i + length xs \<le> length ys" "at + n \<le> i \<or> i + length xs \<le> at"
  shows "take n (drop at (splice i xs ys)) = take n (drop at ys)"
  by (rule nth_equalityI) (use assms in \<open>auto simp: nth_splice\<close>)

lemma field_same:
  fixes v :: "'a::len word"
  assumes "LENGTH('a) = 8 * n" "at + n \<le> length bs"
  shows "field at n (splice at (to_bytes n v) bs) = v"
  using take_drop_splice_same[of at "to_bytes n v" bs] assms by (simp add: field_def of_to_bytes take_bit_word_eq_self)

lemma field_other:
  "i + length xs \<le> length bs \<Longrightarrow> at + n \<le> i \<or> i + length xs \<le> at \<Longrightarrow> field at n (splice i xs bs) = field at n bs"
  unfolding field_def by (subst take_drop_splice_other) auto

lemma field_drop: "field a n (drop b bs) = field (b + a) n bs"
  by (simp add: field_def add.commute)

section \<open>The geometry of a file system\<close>

definition first_nr :: "ext2 \<Rightarrow> nat" where "first_nr fs = unat (s_first_data_block fs)"
definition count_nr :: "ext2 \<Rightarrow> nat" where "count_nr fs = unat (s_blocks_count fs)"
definition bpg_nr :: "ext2 \<Rightarrow> nat" where "bpg_nr fs = unat (s_blocks_per_group fs)"
definition ng_nr :: "ext2 \<Rightarrow> nat" where "ng_nr fs = unat (ngroups fs)"
definition bs_nr :: "ext2 \<Rightarrow> nat" where "bs_nr fs = unat (block_size fs)"

definition desc :: "ext2 \<Rightarrow> nat \<Rightarrow> ext2_group_desc" where
  "desc fs g = group_at (of_nat g) fs"

definition bits_in :: "ext2 \<Rightarrow> nat \<Rightarrow> nat" where
  "bits_in fs g = min (bpg_nr fs) (count_nr fs - first_nr fs - g * bpg_nr fs)"

text \<open>The block of the superblock, those of the group descriptors, and the block bitmaps.\<close>

definition super_blk :: "ext2 \<Rightarrow> u32" where
  "super_blk fs = (if block_size fs = 1024 then 1 else 0)"

definition gd_blk :: "ext2 \<Rightarrow> nat \<Rightarrow> u32" where
  "gd_blk fs g = s_first_data_block fs + 1 + of_nat g div (block_size fs div 32)"

definition own_blocks :: "ext2 \<Rightarrow> u32 set" where
  "own_blocks fs = {super_blk fs} \<union> gd_blk fs ` {..<ng_nr fs} \<union> (\<lambda>g. bg_block_bitmap (desc fs g)) ` {..<ng_nr fs}"

definition geometry :: "ext2 \<Rightarrow> bool" where
  "geometry fs \<longleftrightarrow>
     block_size fs \<in> {1024, 2048, 4096} \<and> length (super fs) = 1024 \<and> (\<forall>b. length (blocks fs b) = bs_nr fs) \<and>
     (block_size fs = 1024 \<longrightarrow> 0 < first_nr fs) \<and> 0 < bpg_nr fs \<and> bpg_nr fs \<le> 8 * bs_nr fs \<and> first_nr fs < count_nr fs \<and>
     count_nr fs \<le> first_nr fs + ng_nr fs * bpg_nr fs \<and> (\<forall>g<ng_nr fs. first_nr fs + g * bpg_nr fs < count_nr fs) \<and>
     ng_nr fs < 2 ^ 31 \<and> 32 * ng_nr fs \<le> length (gdt fs) \<and>
     (\<forall>g<ng_nr fs. 0 < bg_block_bitmap (desc fs g) \<and> bg_block_bitmap (desc fs g) < s_blocks_count fs \<and>
        bg_block_bitmap (desc fs g) \<noteq> super_blk fs \<and> bg_block_bitmap (desc fs g) \<notin> gd_blk fs ` {..<ng_nr fs}) \<and>
     inj_on (\<lambda>g. bg_block_bitmap (desc fs g)) {..<ng_nr fs}"

text \<open>The bitmap of a group, and the free blocks.\<close>

definition group_map :: "ext2 \<Rightarrow> nat \<Rightarrow> u8 list" where
  "group_map fs g = blocks fs (bg_block_bitmap (desc fs g))"

definition free_bits :: "ext2 \<Rightarrow> nat \<Rightarrow> nat set" where
  "free_bits fs g = {i. i < bits_in fs g \<and> \<not> bitmap (group_map fs g) i}"

definition free_nrs :: "ext2 \<Rightarrow> nat set" where
  "free_nrs fs = {b. first_nr fs \<le> b \<and> b < count_nr fs \<and>
     (b - first_nr fs) mod bpg_nr fs \<in> free_bits fs ((b - first_nr fs) div bpg_nr fs)}"

text \<open>
  A group with a free block whose bitmap cannot be read: \<^verbatim>\<open>alloc_block\<close> gives up when it comes to such a group.
  \<open>bitmap_of\<close> is the bitmap's block for a block number.
\<close>

definition bitmap_of :: "ext2 \<Rightarrow> nat \<Rightarrow> u32" where
  "bitmap_of fs b = bg_block_bitmap (desc fs ((b - first_nr fs) div bpg_nr fs))"

definition bitmap_lost :: "ext2 \<Rightarrow> bool" where
  "bitmap_lost fs \<longleftrightarrow> (\<exists>b\<in>free_nrs fs. unreadable fs (bitmap_of fs b))"

definition counts_ok :: "ext2 \<Rightarrow> bool" where
  "counts_ok fs \<longleftrightarrow> (\<forall>g<ng_nr fs. unat (bg_free_blocks_count (desc fs g)) = card (free_bits fs g)) \<and>
     unat (s_free_blocks_count fs) = (\<Sum>g<ng_nr fs. card (free_bits fs g))"

definition fs_ok :: "ext2 \<Rightarrow> bool" where
  "fs_ok fs \<longleftrightarrow> geometry fs \<and> counts_ok fs \<and> (\<forall>b\<in>own_blocks fs. unat b \<notin> free_nrs fs)"

section \<open>The bookkeeping of an allocation\<close>

definition same_geo :: "ext2 \<Rightarrow> ext2 \<Rightarrow> bool" where
  "same_geo fs fs' \<longleftrightarrow> block_size fs' = block_size fs \<and> ngroups fs' = ngroups fs \<and> unreadable fs' = unreadable fs \<and>
     length (super fs') = length (super fs) \<and> length (gdt fs') = length (gdt fs) \<and>
     s_first_data_block fs' = s_first_data_block fs \<and> s_blocks_count fs' = s_blocks_count fs \<and> s_blocks_per_group fs' = s_blocks_per_group fs \<and>
     (\<forall>g<ng_nr fs. bg_block_bitmap (desc fs' g) = bg_block_bitmap (desc fs g)) \<and> (\<forall>b. length (blocks fs' b) = length (blocks fs b))"

lemma same_geo_refl: "same_geo fs fs" by (simp add: same_geo_def)

lemma same_geo_trans: "same_geo a b \<Longrightarrow> same_geo b c \<Longrightarrow> same_geo a c"
  by (simp add: same_geo_def ng_nr_def)

lemma same_geo_nrs:
  assumes "same_geo fs fs'"
  shows "first_nr fs' = first_nr fs" "count_nr fs' = count_nr fs" "bpg_nr fs' = bpg_nr fs" "ng_nr fs' = ng_nr fs" "bs_nr fs' = bs_nr fs"
    "bits_in fs' = bits_in fs" "super_blk fs' = super_blk fs" "gd_blk fs' = gd_blk fs"
  using assms by (simp_all add: same_geo_def first_nr_def count_nr_def bpg_nr_def ng_nr_def bs_nr_def bits_in_def fun_eq_iff super_blk_def gd_blk_def)

lemma same_geo_own: "same_geo fs fs' \<Longrightarrow> own_blocks fs' = own_blocks fs"
  unfolding own_blocks_def by (simp add: same_geo_nrs) (auto simp: same_geo_def)

lemma same_geo_geometry:
  assumes "same_geo fs fs'" "geometry fs"
  shows "geometry fs'"
proof -
  have "inj_on (\<lambda>g. bg_block_bitmap (desc fs' g)) {..<ng_nr fs}"
    using assms by (subst inj_on_cong[of _ _ "\<lambda>g. bg_block_bitmap (desc fs g)"]) (auto simp: same_geo_def geometry_def)
  then show ?thesis using assms unfolding geometry_def by (simp add: same_geo_nrs[OF assms(1)] same_geo_def)
qed

lemma geometryD:
  assumes "geometry fs" "g < ng_nr fs"
  shows "unat (of_nat g :: u32) = g" "32 * g + 32 \<le> length (gdt fs)" "0 < bg_block_bitmap (desc fs g)" "bg_block_bitmap (desc fs g) < s_blocks_count fs"
    "bg_block_bitmap (desc fs g) \<noteq> super_blk fs" "bg_block_bitmap (desc fs g) \<notin> gd_blk fs ` {..<ng_nr fs}"
    "first_nr fs + g * bpg_nr fs < count_nr fs" "bits_in fs g \<le> 8 * length (group_map fs g)" "0 < bits_in fs g"
proof -
  have "g < 2 ^ 31" using assms by (simp add: geometry_def)
  then show "unat (of_nat g :: u32) = g" by (simp only: unat_of_nat) simp
  show "32 * g + 32 \<le> length (gdt fs)" using assms by (simp add: geometry_def)
  show "0 < bg_block_bitmap (desc fs g)" "bg_block_bitmap (desc fs g) < s_blocks_count fs" "bg_block_bitmap (desc fs g) \<noteq> super_blk fs"
    "bg_block_bitmap (desc fs g) \<notin> gd_blk fs ` {..<ng_nr fs}" "first_nr fs + g * bpg_nr fs < count_nr fs"
    using assms by (simp_all add: geometry_def)
  then show "0 < bits_in fs g" using assms by (simp add: geometry_def bits_in_def)
  have "bits_in fs g \<le> bpg_nr fs" by (simp add: bits_in_def)
  also have "\<dots> \<le> 8 * bs_nr fs" using assms by (simp add: geometry_def)
  finally show "bits_in fs g \<le> 8 * length (group_map fs g)" using assms by (simp add: geometry_def group_map_def)
qed

text \<open>Storing the counts writes the descriptors' block and the superblock and sets the time of the last write.\<close>

lemma length_put: "length xs = length (blocks fs b) \<Longrightarrow> length (blocks (put_block b xs fs) c) = length (blocks fs c)"
  by (simp add: put_block_def)

lemma write_gd_ok:
  assumes "geometry fs" "g < ng_nr fs"
  shows "\<exists>e fs'. write_gd (of_nat g) fs = (e, fs') \<and> super fs' = super fs \<and> gdt fs' = gdt fs \<and> block_size fs' = block_size fs \<and>
    ngroups fs' = ngroups fs \<and> unreadable fs' = unreadable fs \<and>
    (\<forall>b. length (blocks fs' b) = length (blocks fs b)) \<and> (\<forall>b. b \<noteq> gd_blk fs g \<longrightarrow> blocks fs' b = blocks fs b)"
proof -
  have len: "length (blocks fs b) = unat (block_size fs)" for b using assms(1) by (simp add: geometry_def bs_nr_def)
  show ?thesis
    by (auto simp: write_gd_def Let_def gd_blk_def put_block_def fs_bread_def len intro!: length_splice split: option.splits)
qed

lemma write_super_ok:
  assumes "geometry fs"
  shows "\<exists>e fs'. write_super fs = (e, fs') \<and> super fs' \<in> {super fs, splice 48 (to_bytes 4 (ucast (clock fs) :: u32)) (super fs)} \<and> gdt fs' = gdt fs \<and>
    block_size fs' = block_size fs \<and> ngroups fs' = ngroups fs \<and> unreadable fs' = unreadable fs \<and>
    (\<forall>b. length (blocks fs' b) = length (blocks fs b)) \<and> (\<forall>b. b \<noteq> super_blk fs \<longrightarrow> blocks fs' b = blocks fs b)"
proof -
  have g: "block_size fs \<in> {1024, 2048, 4096}" "length (super fs) = 1024" "\<And>b. length (blocks fs b) = unat (block_size fs)"
    using assms by (simp_all add: geometry_def bs_nr_def)
  have l: "length (splice 48 (to_bytes 4 (ucast (clock fs) :: u32)) (super fs)) = 1024" using g(2) by simp
  have "(if block_size fs = 1024 then 0 else 1024) + 1024 \<le> unat (block_size fs)" using g(1) by auto
  then show ?thesis
    using g(3) l by (auto simp: write_super_def Let_def super_blk_def put_block_def set_super_def)
qed

lemma desc_set_group:
  assumes "geometry fs" "g < ng_nr fs" "h < ng_nr fs"
  shows "bg_block_bitmap (desc (set_group (of_nat g) 12 v fs) h) = bg_block_bitmap (desc fs h)"
    "bg_free_blocks_count (desc (set_group (of_nat g) 12 v fs) h) = (if h = g then v else bg_free_blocks_count (desc fs h))"
proof -
  note G = geometryD[OF assms(1,2)] and H = geometryD[OF assms(1,3)]
  have o: "h < g \<Longrightarrow> 32 * h + 32 \<le> 32 * g" "g < h \<Longrightarrow> 32 * g + 32 \<le> 32 * h" by simp_all
  show "bg_block_bitmap (desc (set_group (of_nat g) 12 v fs) h) = bg_block_bitmap (desc fs h)"
    using G(2) o unfolding desc_def group_at_def set_group_def Let_def G(1) H(1) field_drop
    by (simp, intro field_other) (cases "h < g"; cases "g < h"; simp)+
  show "bg_free_blocks_count (desc (set_group (of_nat g) 12 v fs) h) = (if h = g then v else bg_free_blocks_count (desc fs h))"
  proof (cases "h = g")
    case True
    then show ?thesis
      using G(2) unfolding True desc_def group_at_def set_group_def Let_def G(1) field_drop by (simp add: field_same)
  next
    case False
    then show ?thesis
      using G(2) o unfolding desc_def group_at_def set_group_def Let_def G(1) H(1) field_drop
      by (simp, intro field_other) (cases "h < g"; cases "g < h"; simp)+
  qed
qed

lemma count_blocks_ok:
  assumes geo: "geometry fs" and g: "g < ng_nr fs" and len: "length bytes = bs_nr fs"
    and fs'_def: "fs' = count_blocks (of_nat g) d n (put_block (bg_block_bitmap (desc fs g)) bytes fs)"
  shows "same_geo fs fs'"
    "h < ng_nr fs \<Longrightarrow> bg_free_blocks_count (desc fs' h) = (if h = g then bg_free_blocks_count (desc fs g) + d else bg_free_blocks_count (desc fs h))"
    "s_free_blocks_count fs' = s_free_blocks_count fs + n"
    "b \<noteq> super_blk fs \<Longrightarrow> b \<noteq> gd_blk fs g \<Longrightarrow> blocks fs' b = (if b = bg_block_bitmap (desc fs g) then bytes else blocks fs b)"
proof -
  define f1 where "f1 = put_block (bg_block_bitmap (desc fs g)) bytes fs"
  have len': "length (blocks fs b) = bs_nr fs" for b using geo by (simp add: geometry_def)
  have s1: "same_geo fs f1" "desc f1 = desc fs" "super f1 = super fs"
    using len len' by (simp_all add: same_geo_def f1_def put_block_def desc_def group_at_def fun_eq_iff s_first_data_block_def s_blocks_count_def s_blocks_per_group_def)
  have geo1: "geometry f1" and g1: "g < ng_nr f1" using same_geo_geometry[OF s1(1) geo] g same_geo_nrs(4)[OF s1(1)] by simp_all
  define f2 where "f2 = set_group (of_nat g) 12 (bg_free_blocks_count (desc fs g) + d) f1"
  have u: "unat (of_nat g :: u32) = g" by (rule geometryD(1)[OF geo g])
  have s2: "same_geo f1 f2" "super f2 = super fs" "blocks f2 = blocks f1"
    using geometryD(2)[OF geo1 g1] desc_set_group(1)[OF geo1 g1] s1(3) unfolding same_geo_def f2_def
    by (simp_all add: set_group_def u s_first_data_block_def s_blocks_count_def s_blocks_per_group_def)
  have geo2: "geometry f2" and g2: "g < ng_nr f2" using same_geo_geometry[OF s2(1) geo1] g1 same_geo_nrs(4)[OF s2(1)] by simp_all
  define f3 where "f3 = set_super 12 4 (s_free_blocks_count fs + n) f2"
  have "length (super fs) = 1024" using geo by (simp add: geometry_def)
  then have s3: "same_geo f2 f3" "desc f3 = desc f2" "blocks f3 = blocks f1" "s_free_blocks_count f3 = s_free_blocks_count fs + n" "length (super f3) = 1024"
    using s2(2,3) by (simp_all add: same_geo_def f3_def set_super_def s_first_data_block_def s_blocks_count_def s_blocks_per_group_def
        s_free_blocks_count_def desc_def group_at_def fun_eq_iff field_other field_same)
  have geo3: "geometry f3" and g3: "g < ng_nr f3" using same_geo_geometry[OF s3(1) geo2] g2 same_geo_nrs(4)[OF s3(1)] by simp_all
  obtain e4 f4 where f4: "write_gd (of_nat g) f3 = (e4, f4)" "super f4 = super f3" "gdt f4 = gdt f3" "block_size f4 = block_size f3"
    "ngroups f4 = ngroups f3" "unreadable f4 = unreadable f3" "\<forall>b. length (blocks f4 b) = length (blocks f3 b)"
    "\<forall>b. b \<noteq> gd_blk f3 g \<longrightarrow> blocks f4 b = blocks f3 b" using write_gd_ok[OF geo3 g3] by blast
  have s4: "same_geo f3 f4" "desc f4 = desc f3"
    using f4(2-7) by (simp_all add: same_geo_def s_first_data_block_def s_blocks_count_def s_blocks_per_group_def desc_def group_at_def fun_eq_iff)
  have geo4: "geometry f4" by (rule same_geo_geometry[OF s4(1) geo3])
  obtain e5 f5 where f5: "write_super f4 = (e5, f5)" "super f5 \<in> {super f4, splice 48 (to_bytes 4 (ucast (clock f4) :: u32)) (super f4)}" "gdt f5 = gdt f4"
    "block_size f5 = block_size f4" "ngroups f5 = ngroups f4" "unreadable f5 = unreadable f4" "\<forall>b. length (blocks f5 b) = length (blocks f4 b)"
    "\<forall>b. b \<noteq> super_blk f4 \<longrightarrow> blocks f5 b = blocks f4 b" using write_super_ok[OF geo4] by blast
  have s5: "same_geo f4 f5" "desc f5 = desc f4" "s_free_blocks_count f5 = s_free_blocks_count f4"
    using f5(2-7) f4(2) s3(5) by (auto simp: same_geo_def s_first_data_block_def s_blocks_count_def s_blocks_per_group_def
        s_free_blocks_count_def desc_def group_at_def fun_eq_iff field_other)
  have fs': "fs' = f5"
    using f4(1) f5(1) unfolding fs'_def count_blocks_def store_counts_def f1_def[symmetric] Let_def
    by (simp add: s1(2)[unfolded desc_def fun_eq_iff, rule_format, of g] desc_def f3_def f2_def s2(2) s_free_blocks_count_def set_group_def s1(3))
  note chain = same_geo_trans[OF s1(1) same_geo_trans[OF s2(1) same_geo_trans[OF s3(1) s4(1)]]]
  show "same_geo fs fs'" unfolding fs' by (rule same_geo_trans[OF chain s5(1)])
  show "bg_free_blocks_count (desc fs' h) = (if h = g then bg_free_blocks_count (desc fs g) + d else bg_free_blocks_count (desc fs h))" if "h < ng_nr fs"
    using desc_set_group(2)[OF geo1 g1, of h] that same_geo_nrs(4)[OF s1(1)] unfolding fs' s5(2) s4(2) s3(2) f2_def s1(2) by simp
  show "s_free_blocks_count fs' = s_free_blocks_count fs + n"
    unfolding fs' s5(3) using f4(2) s3(4) by (simp add: s_free_blocks_count_def)
  show "blocks fs' b = (if b = bg_block_bitmap (desc fs g) then bytes else blocks fs b)" if "b \<noteq> super_blk fs" "b \<noteq> gd_blk fs g"
    using that f5(8) f4(8) s3(3) same_geo_nrs(7)[OF chain] same_geo_nrs(8)[OF same_geo_trans[OF s1(1) same_geo_trans[OF s2(1) s3(1)]]]
    unfolding fs' by (simp add: f1_def put_block_def)
qed

section \<open>Free blocks\<close>

lemma bitmap_set:
  assumes "i < 8 * length bs" "j < 8 * length bs"
  shows "bitmap (set_bit_at i bs) j \<longleftrightarrow> j = i \<or> bitmap bs j"
proof (cases "j div 8 = i div 8")
  case True
  have "j = i \<longleftrightarrow> j mod 8 = i mod 8" using True div_mult_mod_eq[of i 8] div_mult_mod_eq[of j 8] by metis
  then show ?thesis using assms True by (auto simp: bitmap_def set_bit_at_def bit_simps)
next
  case False
  then show ?thesis by (auto simp: bitmap_def set_bit_at_def)
qed

lemma bitmap_clear:
  assumes "i < 8 * length bs" "j < 8 * length bs"
  shows "bitmap (clear_bit_at i bs) j \<longleftrightarrow> j \<noteq> i \<and> bitmap bs j"
proof (cases "j div 8 = i div 8")
  case True
  have e: "j = i \<longleftrightarrow> j mod 8 = i mod 8" using True div_mult_mod_eq[of i 8] div_mult_mod_eq[of j 8] by metis
  then show ?thesis using assms True by (auto simp: bitmap_def clear_bit_at_def bit_simps)
next
  case False
  then show ?thesis by (auto simp: bitmap_def clear_bit_at_def)
qed

lemma length_set_bit [simp]: "length (set_bit_at i bs) = length bs" "length (clear_bit_at i bs) = length bs"
  by (simp_all add: set_bit_at_def clear_bit_at_def)

lemma finite_free_bits [simp]: "finite (free_bits fs g)"
  by (simp add: free_bits_def)

lemma group_map_after:
  assumes geo: "geometry fs" and g: "g < ng_nr fs" "h < ng_nr fs" and s: "same_geo fs fs'"
    and b: "\<And>b. b \<noteq> super_blk fs \<Longrightarrow> b \<noteq> gd_blk fs g \<Longrightarrow> blocks fs' b = (if b = bg_block_bitmap (desc fs g) then bytes else blocks fs b)"
  shows "group_map fs' h = (if h = g then bytes else group_map fs h)"
proof -
  note H = geometryD(5,6)[OF geo g(2)]
  have "bg_block_bitmap (desc fs h) = bg_block_bitmap (desc fs g) \<longleftrightarrow> h = g"
    using geo g by (auto simp: geometry_def dest: inj_onD)
  moreover have "bg_block_bitmap (desc fs' h) = bg_block_bitmap (desc fs h)" using s g(2) by (simp add: same_geo_def)
  moreover have "bg_block_bitmap (desc fs h) \<noteq> gd_blk fs g" using H(2) g(1) by blast
  ultimately show ?thesis using b[of "bg_block_bitmap (desc fs h)"] H(1) by (auto simp: group_map_def)
qed

lemma nr_group:
  assumes "geometry fs" "first_nr fs \<le> b" "b < count_nr fs"
  shows "(b - first_nr fs) div bpg_nr fs < ng_nr fs" "(b - first_nr fs) mod bpg_nr fs < bits_in fs ((b - first_nr fs) div bpg_nr fs)"
proof -
  have p: "0 < bpg_nr fs" using assms(1) by (simp add: geometry_def)
  have "b - first_nr fs < ng_nr fs * bpg_nr fs" using assms by (auto simp: geometry_def)
  then show "(b - first_nr fs) div bpg_nr fs < ng_nr fs" by (simp add: less_mult_imp_div_less)
  have "(b - first_nr fs) mod bpg_nr fs < bpg_nr fs" using p by simp
  moreover have "(b - first_nr fs) mod bpg_nr fs < count_nr fs - first_nr fs - (b - first_nr fs) div bpg_nr fs * bpg_nr fs"
    using div_mult_mod_eq[of "b - first_nr fs" "bpg_nr fs"] assms(2,3) by linarith
  ultimately show "(b - first_nr fs) mod bpg_nr fs < bits_in fs ((b - first_nr fs) div bpg_nr fs)" by (simp add: bits_in_def)
qed

lemma group_nr:
  assumes "geometry fs" "g < ng_nr fs" "i < bits_in fs g"
  shows "first_nr fs + g * bpg_nr fs + i < count_nr fs" "(g * bpg_nr fs + i) div bpg_nr fs = g" "(g * bpg_nr fs + i) mod bpg_nr fs = i"
  using assms by (auto simp: bits_in_def geometry_def)

text \<open>The free blocks when the bits of one group have changed.\<close>

lemma free_nrs_iff:
  assumes "geometry fs"
  shows "b \<in> free_nrs fs \<longleftrightarrow> (\<exists>g i. g < ng_nr fs \<and> i \<in> free_bits fs g \<and> b = first_nr fs + g * bpg_nr fs + i)"
proof
  assume b: "b \<in> free_nrs fs"
  then have "b = first_nr fs + (b - first_nr fs) div bpg_nr fs * bpg_nr fs + (b - first_nr fs) mod bpg_nr fs"
    by (simp add: free_nrs_def add.assoc)
  then show "\<exists>g i. g < ng_nr fs \<and> i \<in> free_bits fs g \<and> b = first_nr fs + g * bpg_nr fs + i"
    using b nr_group(1)[OF assms, of b] unfolding free_nrs_def by blast
next
  assume "\<exists>g i. g < ng_nr fs \<and> i \<in> free_bits fs g \<and> b = first_nr fs + g * bpg_nr fs + i"
  then obtain g i where gi: "g < ng_nr fs" "i \<in> free_bits fs g" "b = first_nr fs + g * bpg_nr fs + i" by blast
  have "i < bits_in fs g" using gi(2) by (simp add: free_bits_def)
  from group_nr[OF assms gi(1) this] gi show "b \<in> free_nrs fs" by (simp add: free_nrs_def add.assoc)
qed

lemma nr_unique:
  assumes "geometry fs" "i < bits_in fs g" "j < bits_in fs h" "g < ng_nr fs" "h < ng_nr fs"
  shows "first_nr fs + g * bpg_nr fs + i = first_nr fs + h * bpg_nr fs + j \<longleftrightarrow> g = h \<and> i = j"
  using group_nr(2,3)[OF assms(1,4,2)] group_nr(2,3)[OF assms(1,5,3)] by (metis add.assoc add_left_cancel)

lemma sum_one_changed:
  assumes "g < (n :: nat)" "\<And>h. h < n \<Longrightarrow> f' h = (if h = g then k else f h)"
  shows "(\<Sum>h<n. f' h) + f g = (\<Sum>h<n. f h) + (k :: nat)"
proof -
  have "(\<Sum>h<n. f' h) = f' g + (\<Sum>h\<in>{..<n} - {g}. f' h)" using assms(1) by (intro sum.remove) auto
  also have "(\<Sum>h\<in>{..<n} - {g}. f' h) = (\<Sum>h\<in>{..<n} - {g}. f h)" using assms(2) by (intro sum.cong) auto
  finally show ?thesis using assms sum.remove[of "{..<n}" g f] by simp
qed

lemma take_bit_ok:
  assumes ok: "fs_ok fs" and g: "g < ng_nr fs" and i: "i \<in> free_bits fs g"
    and fs': "fs' = count_blocks (of_nat g) (- 1) (- 1) (put_block (bg_block_bitmap (desc fs g)) (set_bit_at i (group_map fs g)) fs)"
  shows "fs_ok fs'" "same_geo fs fs'" "free_nrs fs' = free_nrs fs - {first_nr fs + g * bpg_nr fs + i}"
    "b \<notin> own_blocks fs \<Longrightarrow> blocks fs' b = blocks fs b"
proof -
  have geo: "geometry fs" and counts: "counts_ok fs" using ok by (simp_all add: fs_ok_def)
  have len: "length (set_bit_at i (group_map fs g)) = bs_nr fs" using geo by (simp add: geometry_def group_map_def)
  note C = count_blocks_ok[OF geo g len fs']
  show s: "same_geo fs fs'" by (rule C(1))
  note N = same_geo_nrs[OF s]
  have maps: "group_map fs' h = (if h = g then set_bit_at i (group_map fs g) else group_map fs h)" if "h < ng_nr fs" for h
    using group_map_after[OF geo g that s C(4)] .
  have ib: "i < bits_in fs g" using i by (simp add: free_bits_def)
  have fb: "free_bits fs' h = (if h = g then free_bits fs g - {i} else free_bits fs h)" if "h < ng_nr fs" for h
    using maps[OF that] ib geometryD(8)[OF geo g] bitmap_set[of i "group_map fs g"] by (auto simp: free_bits_def N(6))
  have pos: "0 < card (free_bits fs g)" using i by (auto simp: card_gt_0_iff)
  have card: "card (free_bits fs' h) = (if h = g then card (free_bits fs g) - 1 else card (free_bits fs h))" if "h < ng_nr fs" for h
    using fb[OF that] i by simp
  have sum: "(\<Sum>h<ng_nr fs. card (free_bits fs' h)) + 1 = (\<Sum>h<ng_nr fs. card (free_bits fs h))"
    using sum_one_changed[OF g card] pos by simp
  have dec: "unat (w + - 1) = unat w - 1" if "0 < unat w" for w :: "'a::len word"
    using that unat_minus_one[of w] by (auto simp: unat_gt_0)
  have "counts_ok fs'"
    unfolding counts_ok_def N(4)
  proof (intro conjI allI impI)
    fix h assume h: "h < ng_nr fs"
    then show "unat (bg_free_blocks_count (desc fs' h)) = card (free_bits fs' h)"
      using C(2)[OF h] card[OF h] counts g pos dec[of "bg_free_blocks_count (desc fs g)"] by (simp add: counts_ok_def)
  next
    have "unat (s_free_blocks_count fs) = (\<Sum>h<ng_nr fs. card (free_bits fs h))" using counts by (simp add: counts_ok_def)
    then show "unat (s_free_blocks_count fs') = (\<Sum>h<ng_nr fs. card (free_bits fs' h))"
      using C(3) sum dec[of "s_free_blocks_count fs"] by simp
  qed
  moreover have geo': "geometry fs'" by (rule same_geo_geometry[OF s geo])
  moreover show nrs: "free_nrs fs' = free_nrs fs - {first_nr fs + g * bpg_nr fs + i}"
  proof (rule set_eqI)
    fix b
    have "b \<in> free_nrs fs' \<longleftrightarrow> (\<exists>h j. h < ng_nr fs \<and> j \<in> free_bits fs h \<and> \<not> (h = g \<and> j = i) \<and> b = first_nr fs + h * bpg_nr fs + j)"
      unfolding free_nrs_iff[OF geo'] N using fb by (metis (no_types, lifting) Diff_iff singleton_iff)
    also have "\<dots> \<longleftrightarrow> b \<in> free_nrs fs - {first_nr fs + g * bpg_nr fs + i}"
      unfolding Diff_iff free_nrs_iff[OF geo] singleton_iff
      using nr_unique[OF geo _ ib _ g] by (auto simp: free_bits_def)
    finally show "b \<in> free_nrs fs' \<longleftrightarrow> b \<in> free_nrs fs - {first_nr fs + g * bpg_nr fs + i}" .
  qed
  ultimately show "fs_ok fs'" using ok unfolding fs_ok_def same_geo_own[OF s] by simp
  show "blocks fs' b = blocks fs b" if "b \<notin> own_blocks fs"
  proof -
    have "b \<noteq> super_blk fs" "b \<noteq> gd_blk fs g" "b \<noteq> bg_block_bitmap (desc fs g)" using that g by (auto simp: own_blocks_def)
    then show ?thesis using C(4)[of b] by simp
  qed
qed

lemma put_data_ok:
  assumes ok: "fs_ok fs" and b: "b \<notin> own_blocks fs" and len: "length bytes = bs_nr fs"
  shows "fs_ok (put_block b bytes fs)" "same_geo fs (put_block b bytes fs)" "free_nrs (put_block b bytes fs) = free_nrs fs"
proof -
  let ?fs = "put_block b bytes fs"
  have geo: "geometry fs" using ok by (simp add: fs_ok_def)
  have d: "desc ?fs = desc fs" "super ?fs = super fs" by (simp_all add: put_block_def desc_def group_at_def fun_eq_iff)
  show s: "same_geo fs ?fs"
    using geo len d by (simp add: same_geo_def put_block_def geometry_def s_first_data_block_def s_blocks_count_def s_blocks_per_group_def)
  note N = same_geo_nrs[OF s]
  have "group_map ?fs g = group_map fs g" if "g < ng_nr fs" for g
    using that b unfolding group_map_def d by (auto simp: put_block_def own_blocks_def)
  then have f: "free_bits ?fs g = free_bits fs g" if "g < ng_nr fs" for g using that by (simp add: free_bits_def N(6))
  show nrs: "free_nrs ?fs = free_nrs fs"
    unfolding set_eq_iff free_nrs_iff[OF geo] free_nrs_iff[OF same_geo_geometry[OF s geo]] N using f by blast
  have "counts_ok ?fs" using ok f by (simp add: fs_ok_def counts_ok_def N(4) d s_free_blocks_count_def)
  then show "fs_ok ?fs" using ok nrs same_geo_geometry[OF s geo] unfolding fs_ok_def same_geo_own[OF s] by simp
qed

lemma own_not_free: "fs_ok fs \<Longrightarrow> unat b \<in> free_nrs fs \<Longrightarrow> b \<notin> own_blocks fs"
  by (auto simp: fs_ok_def)

lemma zero_not_free: "fs_ok fs \<Longrightarrow> 0 \<notin> free_nrs fs"
proof
  assume ok: "fs_ok fs" and z: "0 \<in> free_nrs fs"
  then have "first_nr fs = 0" by (simp add: free_nrs_def)
  then have "block_size fs \<noteq> 1024" using ok by (auto simp: fs_ok_def geometry_def)
  then have "0 \<in> own_blocks fs" by (simp add: own_blocks_def super_blk_def)
  then show False using own_not_free[OF ok, of 0] z by simp
qed

text \<open>The search of the groups from the \<open>k\<close>-th on: the first one with a free block gives it.\<close>

definition allocated_from :: "ext2 \<Rightarrow> u32 \<Rightarrow> ext2 \<Rightarrow> bool" where
  "allocated_from fs b fs' \<longleftrightarrow> fs_ok fs' \<and> same_geo fs fs' \<and> unat b \<in> free_nrs fs \<and> free_nrs fs' = free_nrs fs - {unat b} \<and>
     \<not> unreadable fs (bitmap_of fs (unat b)) \<and> (\<forall>c. c \<notin> own_blocks fs \<longrightarrow> blocks fs' c = blocks fs c)"

lemma bits_in_word:
  assumes "geometry fs" "g < ng_nr fs"
  shows "unat (min (s_blocks_per_group fs) (s_blocks_count fs - s_first_data_block fs - of_nat g * s_blocks_per_group fs)) = bits_in fs g"
    "i < bits_in fs g \<Longrightarrow> unat (s_first_data_block fs + of_nat g * s_blocks_per_group fs + of_nat i) = first_nr fs + g * bpg_nr fs + i"
proof -
  have lt: "first_nr fs + g * bpg_nr fs < count_nr fs" by (rule geometryD(7)[OF assms])
  have c: "count_nr fs < 2 ^ 32" unfolding count_nr_def by (rule unat_lt_32)
  then have m: "unat (of_nat g * s_blocks_per_group fs) = g * bpg_nr fs"
    using lt geometryD(1)[OF assms] by (simp add: unat_word_ariths bpg_nr_def)
  have "s_first_data_block fs \<le> s_blocks_count fs" using lt by (simp add: word_le_nat_alt first_nr_def count_nr_def)
  then have d1: "unat (s_blocks_count fs - s_first_data_block fs) = count_nr fs - first_nr fs"
    using unat_sub[of "s_first_data_block fs" "s_blocks_count fs"] by (simp add: first_nr_def count_nr_def)
  then have "of_nat g * s_blocks_per_group fs \<le> s_blocks_count fs - s_first_data_block fs" using lt m by (simp add: word_le_nat_alt)
  then have "unat (s_blocks_count fs - s_first_data_block fs - of_nat g * s_blocks_per_group fs) = count_nr fs - first_nr fs - g * bpg_nr fs"
    using unat_sub[of "of_nat g * s_blocks_per_group fs" "s_blocks_count fs - s_first_data_block fs"] d1 m by simp
  then show "unat (min (s_blocks_per_group fs) (s_blocks_count fs - s_first_data_block fs - of_nat g * s_blocks_per_group fs)) = bits_in fs g"
    by (auto simp: bits_in_def min_def word_le_nat_alt bpg_nr_def)
  assume "i < bits_in fs g"
  then have lt2: "first_nr fs + g * bpg_nr fs + i < 2 ^ 32" using group_nr(1)[OF assms] c by fastforce
  then have "unat (of_nat i :: u32) = i" by (simp only: unat_of_nat) simp
  then show "unat (s_first_data_block fs + of_nat g * s_blocks_per_group fs + of_nat i) = first_nr fs + g * bpg_nr fs + i"
    using lt2 m by (simp add: unat_word_ariths first_nr_def)
qed

lemma find_zero_bit_free:
  assumes "geometry fs" "g < ng_nr fs" "free_bits fs g \<noteq> {}" "unat nbits = bits_in fs g"
  shows "\<exists>i. find_zero_bit (group_map fs g) nbits start = Inr (Some i) \<and> i \<in> free_bits fs g"
proof -
  let ?xs = "[unat start..<bits_in fs g] @ [0..<min (unat start) (bits_in fs g)]"
  obtain j where "j < bits_in fs g" "\<not> bitmap (group_map fs g) j" using assms(3) by (auto simp: free_bits_def)
  then have "find (\<lambda>i. \<not> bitmap (group_map fs g) i) ?xs \<noteq> None" by (auto simp: find_None_iff)
  then obtain i where i: "find (\<lambda>i. \<not> bitmap (group_map fs g) i) ?xs = Some i" by auto
  then have "i \<in> set ?xs" "\<not> bitmap (group_map fs g) i" using find_SomeD by fast+
  then have "i \<in> free_bits fs g" by (auto simp: free_bits_def)
  then show ?thesis using find_zero_bit_search[of nbits "group_map fs g" start] geometryD(8)[OF assms(1,2)] assms(4) i by simp
qed

lemma alloc_block_from_ok:
  assumes ok: "fs_ok fs" and g0: "g0 < ng_nr fs" and "k + rest \<le> ng_nr fs"
  shows "\<exists>b fs'. alloc_block_from rest (of_nat k) goal (of_nat g0) fs = Inr (b, fs') \<and>
    (if b = 0 then fs' = fs \<and> (bitmap_lost fs \<or> (\<forall>j. k \<le> j \<and> j < k + rest \<longrightarrow> free_bits fs ((g0 + j) mod ng_nr fs) = {})) else allocated_from fs b fs')"
  using assms(3)
proof (induction rest arbitrary: k)
  case (Suc rest)
  have geo: "geometry fs" and counts: "counts_ok fs" using ok by (simp_all add: fs_ok_def)
  define g where "g = (g0 + k) mod ng_nr fs"
  have ng: "ng_nr fs < 2 ^ 31" using geo by (simp add: geometry_def)
  have g: "g < ng_nr fs" unfolding g_def using g0 by (intro mod_less_divisor) simp
  have "g0 + k < 2 ^ 32" using g0 Suc.prems ng by simp
  then have "unat (of_nat g0 + of_nat k :: u32) = g0 + k" by (simp only: of_nat_add[symmetric] unat_of_nat) simp
  then have "unat ((of_nat g0 + of_nat k) mod ngroups fs) = unat (of_nat g :: u32)"
    using geometryD(1)[OF geo g] by (simp add: unat_mod g_def ng_nr_def)
  then have gw: "(of_nat g0 + of_nat k) mod ngroups fs = of_nat g" by (rule unsigned_word_eqI)
  have fg: "find_group (of_nat g) fs = Inr (desc fs g)"
    using geometryD(1,2)[OF geo g] by (simp add: find_group_def desc_def)
  have zero: "bg_free_blocks_count (desc fs g) = 0 \<longleftrightarrow> free_bits fs g = {}"
  proof -
    have "bg_free_blocks_count (desc fs g) = 0 \<longleftrightarrow> unat (bg_free_blocks_count (desc fs g)) = 0" by (simp add: unat_eq_0)
    then show ?thesis using counts g by (simp add: counts_ok_def)
  qed
  have kS: "of_nat k + 1 = (of_nat (Suc k) :: u32)" by simp
  show ?case
  proof (cases "free_bits fs g = {}")
    case True
    have "alloc_block_from (Suc rest) (of_nat k) goal (of_nat g0) fs = alloc_block_from rest (of_nat (Suc k)) goal (of_nat g0) fs"
      using zero True by (simp add: gw fg Let_def add.commute)
    moreover obtain b fs' where b: "alloc_block_from rest (of_nat (Suc k)) goal (of_nat g0) fs = Inr (b, fs')"
      "if b = 0 then fs' = fs \<and> (bitmap_lost fs \<or> (\<forall>j. Suc k \<le> j \<and> j < Suc k + rest \<longrightarrow> free_bits fs ((g0 + j) mod ng_nr fs) = {})) else allocated_from fs b fs'"
      using Suc.IH[of "Suc k"] Suc.prems by auto
    moreover have "free_bits fs ((g0 + j) mod ng_nr fs) = {}" if "b = 0" "\<not> bitmap_lost fs" "k \<le> j" "j < k + Suc rest" for j
      using that b(2) True by (cases "j = k") (auto simp: g_def)
    ultimately show ?thesis by auto
  next
    case False
    have bm: "bitmap_of fs (first_nr fs + g * bpg_nr fs + i) = bg_block_bitmap (desc fs g)" if "i < bits_in fs g" for i
      using group_nr(2)[OF geo g that] by (simp add: bitmap_of_def add.assoc)
    show ?thesis
    proof (cases "unreadable fs (bg_block_bitmap (desc fs g))")
      case True
      obtain i where i: "i \<in> free_bits fs g" using False by blast
      then have "first_nr fs + g * bpg_nr fs + i \<in> free_nrs fs" "i < bits_in fs g" using free_nrs_iff[OF geo] g by (auto simp: free_bits_def)
      then have "bitmap_lost fs" using bm True unfolding bitmap_lost_def by metis
      moreover have "alloc_block_from (Suc rest) (of_nat k) goal (of_nat g0) fs = Inr (0, fs)"
        using zero False True by (simp add: gw fg Let_def fs_bread_def)
      ultimately show ?thesis by auto
    next
    case readable: False
    have rd: "fs_bread fs (bg_block_bitmap (desc fs g)) = Some (group_map fs g)"
      using geometryD(3,4)[OF geo g] readable by (auto simp: fs_bread_def group_map_def not_le)
    obtain i where i: "find_zero_bit (group_map fs g) (min (s_blocks_per_group fs) (s_blocks_count fs - s_first_data_block fs - of_nat g * s_blocks_per_group fs))
        (if of_nat g = (of_nat g0 :: u32) then (goal - s_first_data_block fs) mod s_blocks_per_group fs else 0) = Inr (Some i)" "i \<in> free_bits fs g"
      using find_zero_bit_free[OF geo g False bits_in_word(1)[OF geo g]] by blast
    define b where "b = s_first_data_block fs + of_nat g * s_blocks_per_group fs + of_nat i"
    define fs' where "fs' = count_blocks (of_nat g) (- 1) (- 1) (put_block (bg_block_bitmap (desc fs g)) (set_bit_at i (group_map fs g)) fs)"
    have ib: "i < bits_in fs g" using i(2) by (simp add: free_bits_def)
    have ub: "unat b = first_nr fs + g * bpg_nr fs + i" unfolding b_def by (rule bits_in_word(2)[OF geo g ib])
    have bf: "unat b \<in> free_nrs fs" using free_nrs_iff[OF geo] g i(2) ub by blast
    then have "b \<noteq> 0" using zero_not_free[OF ok] by (cases "b = 0") auto
    moreover have "allocated_from fs b fs'"
      using take_bit_ok[OF ok g i(2) fs'_def] bf ub bm[OF ib] readable by (simp add: allocated_from_def)
    moreover have "alloc_block_from (Suc rest) (of_nat k) goal (of_nat g0) fs = Inr (b, fs')"
      using zero False \<open>b \<noteq> 0\<close> i(1) unfolding alloc_block_from.simps gw Let_def fg andthen_simps rd option.case if_not_P[OF \<open>b \<noteq> 0\<close>]
      by (simp add: b_def[symmetric] fs'_def[symmetric])
    ultimately show ?thesis by auto
    qed
  qed
qed auto

lemma all_groups:
  assumes "\<And>j. j < n \<Longrightarrow> P ((g0 + j) mod n)" "g0 < n" "g < (n :: nat)"
  shows "P g"
proof (cases "g0 \<le> g")
  case True
  then show ?thesis using assms(1)[of "g - g0"] assms(3) by simp
next
  case False
  then have "(g0 + (n - g0 + g)) mod n = g" using assms(2,3) by simp
  then show ?thesis using assms(1)[of "n - g0 + g"] False assms(2) by simp
qed

lemma alloc_block_ok:
  assumes ok: "fs_ok fs"
  shows "\<exists>b fs'. alloc_block goal fs = Inr (b, fs') \<and>
    (if b = 0 then fs' = fs \<and> (free_nrs fs = {} \<or> bitmap_lost fs)
     else fs_ok fs' \<and> same_geo fs fs' \<and> unat b \<in> free_nrs fs \<and> free_nrs fs' = free_nrs fs - {unat b} \<and>
       \<not> unreadable fs (bitmap_of fs (unat b)) \<and>
       blocks fs' b = (if unreadable fs b then blocks fs b else replicate (bs_nr fs) 0) \<and> (\<forall>c. c \<notin> own_blocks fs \<and> c \<noteq> b \<longrightarrow> blocks fs' c = blocks fs c))"
proof -
  have geo: "geometry fs" using ok by (simp add: fs_ok_def)
  define g' where "g' = (if goal < s_first_data_block fs \<or> goal \<ge> s_blocks_count fs then s_first_data_block fs else goal)"
  have fc: "first_nr fs < count_nr fs" using geo by (simp add: geometry_def)
  have r: "first_nr fs \<le> unat g'" "unat g' < count_nr fs"
    using fc by (auto simp: g'_def first_nr_def count_nr_def word_less_nat_alt word_le_nat_alt)
  define g0 where "g0 = (unat g' - first_nr fs) div bpg_nr fs"
  have g0: "g0 < ng_nr fs" using nr_group(1)[OF geo r] by (simp add: g0_def)
  have "s_first_data_block fs \<le> g'" using r(1) by (simp add: word_le_nat_alt first_nr_def)
  then have "unat ((g' - s_first_data_block fs) div s_blocks_per_group fs) = unat (of_nat g0 :: u32)"
    using geometryD(1)[OF geo g0] unat_sub[of "s_first_data_block fs" g'] by (simp add: unat_div g0_def first_nr_def bpg_nr_def)
  then have gw: "(g' - s_first_data_block fs) div s_blocks_per_group fs = of_nat g0" by (rule unsigned_word_eqI)
  have "0 < bpg_nr fs" using geo by (simp add: geometry_def)
  then have bpg: "s_blocks_per_group fs \<noteq> 0" by (auto simp: bpg_nr_def)
  obtain b fs1 where a: "alloc_block_from (unat (ngroups fs)) 0 g' (of_nat g0) fs = Inr (b, fs1)"
    "if b = 0 then fs1 = fs \<and> (bitmap_lost fs \<or> (\<forall>j. 0 \<le> j \<and> j < 0 + ng_nr fs \<longrightarrow> free_bits fs ((g0 + j) mod ng_nr fs) = {})) else allocated_from fs b fs1"
    using alloc_block_from_ok[OF ok g0, of 0 "ng_nr fs" g'] by (auto simp: ng_nr_def)
  have al: "alloc_block goal fs = (if b = 0 then Inr (0, fs1) else case fs_bread fs1 b of None \<Rightarrow> Inr (b, fs1)
      | Some _ \<Rightarrow> Inr (b, put_block b (replicate (unat (block_size fs1)) 0) fs1))"
    using bpg unfolding alloc_block_def Let_def g'_def[symmetric] gw a(1) by simp
  show ?thesis
  proof (cases "b = 0")
    case True
    then have "free_bits fs g = {}" if "g < ng_nr fs" "\<not> bitmap_lost fs" for g
      using a(2) all_groups[of "ng_nr fs" "\<lambda>g. free_bits fs g = {}" g0 g] g0 that by simp
    then have "free_nrs fs = {} \<or> bitmap_lost fs" using free_nrs_iff[OF geo] by blast
    then show ?thesis using True a(2) al by simp
  next
    case False
    then have f: "fs_ok fs1" "same_geo fs fs1" "unat b \<in> free_nrs fs" "free_nrs fs1 = free_nrs fs - {unat b}"
      "\<forall>c. c \<notin> own_blocks fs \<longrightarrow> blocks fs1 c = blocks fs c" "\<not> unreadable fs (bitmap_of fs (unat b))"
      using a(2) by (simp_all add: allocated_from_def)
    have nb: "b \<notin> own_blocks fs1" using own_not_free[OF ok f(3)] same_geo_own[OF f(2)] by simp
    have "unat b < count_nr fs" using f(3) by (simp add: free_nrs_def)
    then have rd: "fs_bread fs1 b = (if unreadable fs b then None else Some (blocks fs1 b))"
      using False f(2) by (auto simp: fs_bread_def same_geo_def count_nr_def word_le_nat_alt)
    show ?thesis
    proof (cases "unreadable fs b")
      case True
      have "b \<notin> own_blocks fs" using own_not_free[OF ok f(3)] .
      then show ?thesis using al False rd True f by (intro exI[of _ b] exI[of _ fs1]) simp
    next
    case readable: False
    define fs' where "fs' = put_block b (replicate (unat (block_size fs1)) 0) fs1"
    have bs: "unat (block_size fs1) = bs_nr fs1" "bs_nr fs1 = bs_nr fs" using same_geo_nrs(5)[OF f(2)] by (simp_all add: bs_nr_def)
    have p: "fs_ok fs'" "same_geo fs1 fs'" "free_nrs fs' = free_nrs fs1" unfolding fs'_def using put_data_ok[OF f(1) nb] bs by simp_all
    have "alloc_block goal fs = Inr (b, fs')" using al False rd readable by (simp add: fs'_def)
    moreover have "blocks fs' b = replicate (bs_nr fs) 0" using bs by (simp add: fs'_def put_block_def)
    moreover have "\<forall>c. c \<notin> own_blocks fs \<and> c \<noteq> b \<longrightarrow> blocks fs' c = blocks fs c" using f(5) by (simp add: fs'_def put_block_def)
    ultimately show ?thesis using False readable p f(3,4,6) same_geo_trans[OF f(2) p(2)] by (intro exI[of _ b] exI[of _ fs']) simp
    qed
  qed
qed

lemma card_free_nrs:
  assumes "geometry fs"
  shows "(\<Sum>g<ng_nr fs. card (free_bits fs g)) = card (free_nrs fs)"
proof -
  let ?f = "\<lambda>g i. first_nr fs + g * bpg_nr fs + i"
  have "b \<in> free_nrs fs \<longleftrightarrow> b \<in> (\<Union>g\<in>{..<ng_nr fs}. ?f g ` free_bits fs g)" for b
    unfolding free_nrs_iff[OF assms] UN_iff image_iff lessThan_iff Bex_def by blast
  then have "free_nrs fs = (\<Union>g\<in>{..<ng_nr fs}. ?f g ` free_bits fs g)" by blast
  also have "card \<dots> = (\<Sum>g<ng_nr fs. card (?f g ` free_bits fs g))"
  proof (rule card_UN_disjoint)
    show "\<forall>g\<in>{..<ng_nr fs}. \<forall>h\<in>{..<ng_nr fs}. g \<noteq> h \<longrightarrow> ?f g ` free_bits fs g \<inter> ?f h ` free_bits fs h = {}"
      using nr_unique[OF assms] by (auto simp: free_bits_def)
  qed auto
  also have "\<dots> = (\<Sum>g<ng_nr fs. card (free_bits fs g))" by (intro sum.cong refl card_image) (simp add: inj_on_def)
  finally show ?thesis ..
qed

lemma free_block_ok:
  assumes ok: "fs_ok fs" and b: "first_nr fs \<le> unat b" "unat b < count_nr fs" "b \<notin> own_blocks fs"
    and readable: "\<not> unreadable fs (bitmap_of fs (unat b))"
  shows "\<exists>fs'. free_block b fs = Inr fs' \<and> fs_ok fs' \<and> same_geo fs fs' \<and> free_nrs fs' = insert (unat b) (free_nrs fs) \<and>
    (\<forall>c. c \<notin> own_blocks fs \<longrightarrow> blocks fs' c = blocks fs c)"
proof -
  have geo: "geometry fs" and counts: "counts_ok fs" using ok by (simp_all add: fs_ok_def)
  define g i where "g = (unat b - first_nr fs) div bpg_nr fs" and "i = (unat b - first_nr fs) mod bpg_nr fs"
  have g: "g < ng_nr fs" and ib: "i < bits_in fs g" unfolding g_def i_def using nr_group[OF geo b(1,2)] by simp_all
  have ub: "unat b = first_nr fs + g * bpg_nr fs + i" using b(1) by (simp add: g_def i_def add.assoc)
  have le: "s_first_data_block fs \<le> b" using b(1) by (simp add: word_le_nat_alt first_nr_def)
  then have ud: "unat (b - s_first_data_block fs) = unat b - first_nr fs" by (simp add: unat_sub first_nr_def)
  then have "unat ((b - s_first_data_block fs) div s_blocks_per_group fs) = unat (of_nat g :: u32)"
    using geometryD(1)[OF geo g] by (simp add: unat_div g_def bpg_nr_def)
  then have gw: "(b - s_first_data_block fs) div s_blocks_per_group fs = of_nat g" by (rule unsigned_word_eqI)
  have iw: "unat ((b - s_first_data_block fs) mod s_blocks_per_group fs) = i" using ud by (simp add: unat_mod i_def bpg_nr_def)
  have "0 < bpg_nr fs" using geo by (simp add: geometry_def)
  then have bpg: "s_blocks_per_group fs \<noteq> 0" by (auto simp: bpg_nr_def)
  have fg: "find_group (of_nat g) fs = Inr (desc fs g)" using geometryD(1,2)[OF geo g] by (simp add: find_group_def desc_def)
  have rd: "fs_bread fs (bg_block_bitmap (desc fs g)) = Some (group_map fs g)"
    using geometryD(3,4)[OF geo g] readable by (auto simp: fs_bread_def group_map_def bitmap_of_def g_def not_le)
  have il: "i < 8 * length (group_map fs g)" using ib geometryD(8)[OF geo g] by simp
  define fs' where "fs' = count_blocks (of_nat g) 1 1 (put_block (bg_block_bitmap (desc fs g)) (clear_bit_at i (group_map fs g)) fs)"
  have rng: "\<not> (b < s_first_data_block fs \<or> b \<ge> s_blocks_count fs)" using le b(2) by (simp add: count_nr_def word_le_nat_alt not_less)
  have fr: "free_block b fs = Inr (if bitmap (group_map fs g) i then fs' else fs)"
    using bpg il unfolding free_block_def if_not_P[OF rng] Let_def gw iw fg andthen_simps rd option.case
    by (simp add: byte_of_def and_exp bitmap_def fs'_def)
  have mem: "unat b \<in> free_nrs fs \<longleftrightarrow> \<not> bitmap (group_map fs g) i"
    using b(1,2) ib by (simp add: free_nrs_def free_bits_def g_def i_def)
  show ?thesis
  proof (cases "bitmap (group_map fs g) i")
    case False
    then show ?thesis using fr ok mem same_geo_refl by (intro exI[of _ fs]) auto
  next
    case True
    have len: "length (clear_bit_at i (group_map fs g)) = bs_nr fs" using geo by (simp add: geometry_def group_map_def)
    note C = count_blocks_ok[OF geo g len fs'_def]
    have s: "same_geo fs fs'" by (rule C(1))
    note N = same_geo_nrs[OF s]
    have geo': "geometry fs'" by (rule same_geo_geometry[OF s geo])
    have maps: "group_map fs' h = (if h = g then clear_bit_at i (group_map fs g) else group_map fs h)" if "h < ng_nr fs" for h
      using group_map_after[OF geo g that s C(4)] .
    have ni: "i \<notin> free_bits fs g" using True by (simp add: free_bits_def)
    have fb: "free_bits fs' h = (if h = g then insert i (free_bits fs g) else free_bits fs h)" if "h < ng_nr fs" for h
      using maps[OF that] ib geometryD(8)[OF geo g] bitmap_clear[of i "group_map fs g"] by (auto simp: free_bits_def N(6))
    have card: "card (free_bits fs' h) = (if h = g then card (free_bits fs g) + 1 else card (free_bits fs h))" if "h < ng_nr fs" for h
      using fb[OF that] ni by simp
    have sum: "(\<Sum>h<ng_nr fs. card (free_bits fs' h)) = (\<Sum>h<ng_nr fs. card (free_bits fs h)) + 1"
      using sum_one_changed[OF g card] by simp
    have nrs: "free_nrs fs' = insert (unat b) (free_nrs fs)"
    proof (rule set_eqI)
      fix c
      have "c \<in> free_nrs fs' \<longleftrightarrow> (\<exists>h j. h < ng_nr fs \<and> (j \<in> free_bits fs h \<or> h = g \<and> j = i) \<and> c = first_nr fs + h * bpg_nr fs + j)"
        unfolding free_nrs_iff[OF geo'] N using fb by (metis (no_types, lifting) insert_iff)
      also have "\<dots> \<longleftrightarrow> c \<in> insert (unat b) (free_nrs fs)"
        unfolding insert_iff free_nrs_iff[OF geo] ub using g by blast
      finally show "c \<in> free_nrs fs' \<longleftrightarrow> c \<in> insert (unat b) (free_nrs fs)" .
    qed
    have "card (free_bits fs g) + 1 \<le> bits_in fs g"
    proof -
      have "card (insert i (free_bits fs g)) \<le> card {..<bits_in fs g}" using ib by (intro card_mono) (auto simp: free_bits_def)
      then show ?thesis using ni by simp
    qed
    also have "\<dots> < 2 ^ 16"
    proof -
      have "bits_in fs g \<le> bpg_nr fs" by (simp add: bits_in_def)
      also have "\<dots> \<le> 8 * 4096" using geo by (auto simp: geometry_def bs_nr_def)
      finally show ?thesis by simp
    qed
    finally have small: "card (free_bits fs g) + 1 < 2 ^ 16" .
    have "free_nrs fs' \<subseteq> {..<count_nr fs}" by (auto simp: free_nrs_def N)
    then have "card (free_nrs fs') \<le> count_nr fs" using card_mono[of "{..<count_nr fs}" "free_nrs fs'"] by simp
    also have "\<dots> < 2 ^ 32" unfolding count_nr_def by (rule unat_lt_32)
    finally have small2: "(\<Sum>h<ng_nr fs. card (free_bits fs h)) + 1 < 2 ^ 32" using card_free_nrs[OF geo'] sum N(4) by simp
    have "counts_ok fs'"
      unfolding counts_ok_def N(4)
    proof (intro conjI allI impI)
      fix h assume h: "h < ng_nr fs"
      then show "unat (bg_free_blocks_count (desc fs' h)) = card (free_bits fs' h)"
        using C(2)[OF h] card[OF h] counts g small by (simp add: counts_ok_def unat_word_ariths)
    next
      show "unat (s_free_blocks_count fs') = (\<Sum>h<ng_nr fs. card (free_bits fs' h))"
        using C(3) sum counts small2 by (simp add: counts_ok_def unat_word_ariths)
    qed
    moreover have "unat c \<noteq> unat b" if "c \<in> own_blocks fs" for c
      using that b(3) unsigned_word_eqI[of c b] by auto
    ultimately have "fs_ok fs'" using ok nrs geo' unfolding fs_ok_def same_geo_own[OF s] by auto
    moreover have "blocks fs' c = blocks fs c" if "c \<notin> own_blocks fs" for c
    proof -
      have "c \<noteq> super_blk fs" "c \<noteq> gd_blk fs g" "c \<noteq> bg_block_bitmap (desc fs g)" using that g by (auto simp: own_blocks_def)
      then show ?thesis using C(4)[of c] by simp
    qed
    ultimately show ?thesis using fr True s nrs by simp
  qed
qed

section \<open>An example\<close>

text \<open>A file system of 16 blocks of 1024 bytes in one group: blocks 1 to 4 are in use, 5 to 15 are free.\<close>

definition sample_fs :: ext2 where
  "sample_fs =
     \<lparr>super = [32, 0, 0, 0, 16, 0, 0, 0, 0, 0, 0, 0, 11, 0, 0, 0, 21, 0, 0, 0, 1, 0, 0, 0, 0, 0, 0, 0, 0, 0, 0, 0,
        0, 0x20, 0, 0, 0, 0x20, 0, 0, 32, 0, 0, 0] @ replicate 980 0,
      gdt = [3, 0, 0, 0, 4, 0, 0, 0, 5, 0, 0, 0, 11, 0, 21, 0, 2, 0] @ replicate 1006 0,
      block_size = 1024, ngroups = 1, inode_size = 128, addr_per_block = 256, fs_read_only = False,
      blocks = (\<lambda>b. if b = 3 then [0x0F, 0] @ replicate 1022 0xFF else replicate 1024 0),
      unreadable = (\<lambda>_. False), unwritable = (\<lambda>_. False), has_memory = True, clock = 0\<rparr>"

lemma sample_fields:
  "s_first_data_block sample_fs = 1" "s_blocks_count sample_fs = 16" "s_blocks_per_group sample_fs = 0x2000" "s_free_blocks_count sample_fs = 11"
  "bg_block_bitmap (desc sample_fs 0) = 3" "bg_free_blocks_count (desc sample_fs 0) = 11"
  by (simp_all add: sample_fs_def s_first_data_block_def s_blocks_count_def s_blocks_per_group_def s_free_blocks_count_def desc_def group_at_def field_def)

lemma sample_nrs: "first_nr sample_fs = 1" "count_nr sample_fs = 16" "bpg_nr sample_fs = 0x2000" "ng_nr sample_fs = 1" "bs_nr sample_fs = 1024"
  "super_blk sample_fs = 1" "gd_blk sample_fs 0 = 2" "bits_in sample_fs 0 = 15"
  by (simp_all add: first_nr_def count_nr_def bpg_nr_def ng_nr_def bs_nr_def super_blk_def gd_blk_def bits_in_def sample_fields)
    (simp_all add: sample_fs_def)

lemma sample_free_bits: "free_bits sample_fs 0 = {4..<15}"
proof -
  have bits: "\<not> bitmap (group_map sample_fs 0) i \<longleftrightarrow> 4 \<le> i" if "i < 15" for i
  proof (cases "i < 8")
    case True
    have "(0x0F :: u8) = mask 4" by (simp add: mask_eq_exp_minus_1)
    then have "bit (0x0F :: u8) i \<longleftrightarrow> i < 4" using True by (simp only: bit_mask_iff) simp
    then show ?thesis using True by (auto simp: bitmap_def group_map_def sample_fields) (auto simp: sample_fs_def)
  next
    case False
    then have "i div 8 = 1" using that by simp
    then show ?thesis using False by (simp add: bitmap_def group_map_def sample_fields) (simp add: sample_fs_def)
  qed
  have "i \<in> free_bits sample_fs 0 \<longleftrightarrow> i \<in> {4..<15}" for i
    unfolding free_bits_def sample_nrs mem_Collect_eq atLeastLessThan_iff using bits[of i] by blast
  then show ?thesis by (rule set_eqI)
qed

lemma sample_fs_ok: "fs_ok sample_fs"
proof -
  have g: "geometry sample_fs"
    unfolding geometry_def sample_nrs by (simp add: sample_fields sample_nrs lessThan_Suc) (simp add: sample_fs_def)
  have "counts_ok sample_fs" by (simp add: counts_ok_def sample_nrs sample_fields sample_free_bits lessThan_Suc)
  moreover have "own_blocks sample_fs = {1, 2, 3}" by (simp add: own_blocks_def sample_nrs sample_fields lessThan_Suc insert_commute)
  ultimately show ?thesis using g by (auto simp: fs_ok_def free_nrs_def sample_nrs sample_free_bits)
qed

lemma sample_free: "free_nrs sample_fs = {5..<16}"
proof -
  have "b \<in> free_nrs sample_fs \<longleftrightarrow> b \<in> {5..<16}" for b
  proof (cases "1 \<le> b \<and> b < 16")
    case True
    then have "(b - 1) div 0x2000 = 0" "(b - 1) mod 0x2000 = b - 1" by auto
    then show ?thesis unfolding free_nrs_def sample_nrs mem_Collect_eq using True by (simp only: sample_free_bits atLeastLessThan_iff) arith
  next
    case False
    then show ?thesis unfolding free_nrs_def sample_nrs mem_Collect_eq atLeastLessThan_iff by arith
  qed
  then show ?thesis by (rule set_eqI)
qed

section \<open>Properties\<close>

text \<open>
  On a bitmap that is long enough \<^verbatim>\<open>find_zero_bit\<close>, which skips full bytes and starts over at the beginning, finds
  what a search bit by bit, first from \<open>start\<close> on and then before it, finds.
\<close>

theorem find_zero_bit_is_search:
  assumes "unat nbits \<le> 8 * length bs"
  shows "find_zero_bit bs nbits start =
    Inr (find (\<lambda>i. \<not> bitmap bs i) ([unat start..<unat nbits] @ [0..<min (unat start) (unat nbits)]))"
  by (rule find_zero_bit_search[OF assms])

lemma find_zero_bit_is_search_witness: "find_zero_bit [0xFF, 0xFB] 16 11 = Inr (Some 10)"
proof -
  have "[11..<16] = [11, 12, 13, 14, 15 :: nat]" "[0..<11] = [0, 1, 2, 3, 4, 5, 6, 7, 8, 9, 10 :: nat]" by (simp_all add: upt_rec)
  then have "find (\<lambda>i. \<not> bitmap [0xFF, 0xFB] i) ([unat (11 :: u32)..<unat (16 :: u32)] @ [0..<min (unat (11 :: u32)) (unat (16 :: u32))]) = Some 10"
    by (simp add: bitmap_def)
  then show ?thesis using find_zero_bit_is_search[of 16 "[0xFF, 0xFB]" 11] by simp
qed

text \<open>
  C13. \<^verbatim>\<open>alloc_block\<close> takes one number out of the set of free blocks, keeps the free counts of the group and of the
  file system exact, fills that block with zeros if it can be read, and touches no other block but those of the
  file system itself. It answers 0 only if no block is free or the bitmap of a group with a free block cannot
  be read, and then changes nothing; groups that come after such a group in the search are not tried.
\<close>

theorem alloc_block_takes_a_free_block:
  assumes "fs_ok fs"
  shows "\<exists>b fs'. alloc_block goal fs = Inr (b, fs') \<and>
    (if b = 0 then fs' = fs \<and> (free_nrs fs = {} \<or> (\<exists>k\<in>free_nrs fs. unreadable fs (bitmap_of fs k)))
     else fs_ok fs' \<and> unat b \<in> free_nrs fs \<and> free_nrs fs' = free_nrs fs - {unat b} \<and>
       blocks fs' b = (if unreadable fs b then blocks fs b else replicate (bs_nr fs) 0) \<and>
       (\<forall>c. c \<notin> own_blocks fs \<and> c \<noteq> b \<longrightarrow> blocks fs' c = blocks fs c))"
  using alloc_block_ok[OF assms, of goal] unfolding bitmap_lost_def by metis

text \<open>On the example a block is handed out; when the bitmap cannot be read, the answer is 0 although eleven are free.\<close>

lemma lost_fs_ok: "fs_ok (sample_fs\<lparr>unreadable := f\<rparr>)" "free_nrs (sample_fs\<lparr>unreadable := f\<rparr>) = free_nrs sample_fs"
  "bitmap_of (sample_fs\<lparr>unreadable := f\<rparr>) k = bitmap_of sample_fs k"
proof -
  let ?fs = "sample_fs\<lparr>unreadable := f\<rparr>"
  have d: "desc ?fs = desc sample_fs" "s_first_data_block ?fs = s_first_data_block sample_fs" "s_blocks_count ?fs = s_blocks_count sample_fs"
    "s_blocks_per_group ?fs = s_blocks_per_group sample_fs" "s_free_blocks_count ?fs = s_free_blocks_count sample_fs"
    by (simp_all add: desc_def group_at_def fun_eq_iff s_first_data_block_def s_blocks_count_def s_blocks_per_group_def s_free_blocks_count_def)
  have n: "first_nr ?fs = first_nr sample_fs" "count_nr ?fs = count_nr sample_fs" "bpg_nr ?fs = bpg_nr sample_fs" "ng_nr ?fs = ng_nr sample_fs"
    "bs_nr ?fs = bs_nr sample_fs" "super_blk ?fs = super_blk sample_fs" "gd_blk ?fs = gd_blk sample_fs"
    by (simp_all add: first_nr_def count_nr_def bpg_nr_def ng_nr_def bs_nr_def super_blk_def gd_blk_def fun_eq_iff d)
  have f: "free_bits ?fs = free_bits sample_fs" "own_blocks ?fs = own_blocks sample_fs"
    by (simp_all add: free_bits_def bits_in_def group_map_def own_blocks_def fun_eq_iff d n)
  show "free_nrs ?fs = free_nrs sample_fs" by (simp add: free_nrs_def n f)
  then show "fs_ok ?fs" using sample_fs_ok by (simp add: fs_ok_def geometry_def counts_ok_def d n f)
  show "bitmap_of ?fs k = bitmap_of sample_fs k" by (simp add: bitmap_of_def d n)
qed

lemma alloc_block_takes_a_free_block_witness:
  "\<exists>b fs'. alloc_block 7 sample_fs = Inr (b, fs') \<and> unat b \<in> {5..<16} \<and> free_nrs fs' = {5..<16} - {unat b} \<and>
     blocks fs' b = replicate 1024 0"
proof -
  have nl: "\<not> unreadable sample_fs c" for c by (simp add: sample_fs_def)
  obtain b fs' where "alloc_block 7 sample_fs = Inr (b, fs')"
    "if b = 0 then fs' = sample_fs \<and> ({5..<16 :: nat} = {} \<or> (\<exists>k\<in>{5..<16}. unreadable sample_fs (bitmap_of sample_fs k)))
     else fs_ok fs' \<and> unat b \<in> {5..<16} \<and> free_nrs fs' = {5..<16} - {unat b} \<and>
       blocks fs' b = (if unreadable sample_fs b then blocks sample_fs b else replicate (bs_nr sample_fs) 0) \<and>
       (\<forall>c. c \<notin> own_blocks sample_fs \<and> c \<noteq> b \<longrightarrow> blocks fs' c = blocks sample_fs c)"
    using alloc_block_takes_a_free_block[OF sample_fs_ok, of 7] unfolding sample_free by blast
  then show ?thesis using nl sample_nrs(5) by (cases "b = 0") auto
qed

lemma alloc_block_lost_bitmap:
  "alloc_block 7 (sample_fs\<lparr>unreadable := (\<lambda>b. b = 3)\<rparr>) = Inr (0, sample_fs\<lparr>unreadable := (\<lambda>b. b = 3)\<rparr>) \<and>
   free_nrs (sample_fs\<lparr>unreadable := (\<lambda>b. b = 3)\<rparr>) = {5..<16}"
proof -
  let ?fs = "sample_fs\<lparr>unreadable := (\<lambda>b. b = 3)\<rparr>"
  obtain b fs' where b: "alloc_block 7 ?fs = Inr (b, fs')" "b = 0 \<longrightarrow> fs' = ?fs"
    "b \<noteq> 0 \<longrightarrow> unat b \<in> free_nrs ?fs \<and> \<not> unreadable ?fs (bitmap_of ?fs (unat b))"
    using alloc_block_ok[OF lost_fs_ok(1), of 7 "\<lambda>b. b = 3"] by (metis (no_types, lifting))
  have "unreadable ?fs (bitmap_of ?fs k)" if "k \<in> free_nrs ?fs" for k
  proof -
    have "(k - 1) div 0x2000 = 0" using that by (auto simp: lost_fs_ok(2) sample_free)
    then have "bitmap_of sample_fs k = 3" unfolding bitmap_of_def sample_nrs by (simp add: sample_fields)
    then have "bitmap_of ?fs k = 3" using lost_fs_ok(3)[of "\<lambda>b. b = 3" k] by (simp only:)
    then show ?thesis by simp
  qed
  then have "b = 0" using b(3) by blast
  then show ?thesis using b(1,2) by (simp add: lost_fs_ok(2) sample_free)
qed

text \<open>
  C22. Freeing a block that was allocated puts back exactly it: the set of free blocks and the free count are those
  of before the allocation.
\<close>

theorem alloc_then_free_block:
  assumes "fs_ok fs" "alloc_block goal fs = Inr (b, fs1)" "b \<noteq> 0"
  shows "\<exists>fs2. free_block b fs1 = Inr fs2 \<and> fs_ok fs2 \<and> free_nrs fs2 = free_nrs fs \<and> s_free_blocks_count fs2 = s_free_blocks_count fs \<and>
    (\<forall>c. c \<notin> own_blocks fs \<and> c \<noteq> b \<longrightarrow> blocks fs2 c = blocks fs c)"
proof -
  have a: "fs_ok fs1" "same_geo fs fs1" "unat b \<in> free_nrs fs" "free_nrs fs1 = free_nrs fs - {unat b}"
    "\<forall>c. c \<notin> own_blocks fs \<and> c \<noteq> b \<longrightarrow> blocks fs1 c = blocks fs c" "\<not> unreadable fs (bitmap_of fs (unat b))"
    using alloc_block_ok[OF assms(1), of goal] assms(2,3) by simp_all
  have geo: "geometry fs" using assms(1) by (simp add: fs_ok_def)
  have "(unat b - first_nr fs) div bpg_nr fs < ng_nr fs" using a(3) nr_group(1)[OF geo] by (simp add: free_nrs_def)
  then have rd: "\<not> unreadable fs1 (bitmap_of fs1 (unat b))"
    using a(2,6) same_geo_nrs[OF a(2)] by (simp add: bitmap_of_def same_geo_def)
  have r: "first_nr fs1 \<le> unat b" "unat b < count_nr fs1" using a(3) same_geo_nrs(1,2)[OF a(2)] by (simp_all add: free_nrs_def)
  have o: "b \<notin> own_blocks fs1" using own_not_free[OF assms(1) a(3)] same_geo_own[OF a(2)] by simp
  obtain fs2 where f: "free_block b fs1 = Inr fs2" "fs_ok fs2" "free_nrs fs2 = insert (unat b) (free_nrs fs1)"
    "\<forall>c. c \<notin> own_blocks fs1 \<longrightarrow> blocks fs2 c = blocks fs1 c" using free_block_ok[OF a(1) r o rd] by blast
  have nrs: "free_nrs fs2 = free_nrs fs" unfolding f(3) a(4) using a(3) by (simp add: insert_absorb)
  have c: "unat (s_free_blocks_count g) = card (free_nrs g)" if "fs_ok g" for g
    using that card_free_nrs[of g] by (simp add: fs_ok_def counts_ok_def)
  have "unat (s_free_blocks_count fs2) = unat (s_free_blocks_count fs)" using c[OF f(2)] c[OF assms(1)] nrs by simp
  then have "s_free_blocks_count fs2 = s_free_blocks_count fs" by (rule unsigned_word_eqI)
  then show ?thesis using f(1,2,4) nrs a(5) same_geo_own[OF a(2)] by simp
qed

lemma alloc_then_free_block_witness:
  "\<exists>b fs1 fs2. alloc_block 7 sample_fs = Inr (b, fs1) \<and> free_block b fs1 = Inr fs2 \<and> free_nrs fs2 = {5..<16}"
proof -
  have ne: "free_nrs sample_fs \<noteq> {}" by (simp add: sample_free)
  have nl: "\<not> bitmap_lost sample_fs" by (simp add: bitmap_lost_def sample_fs_def)
  obtain b fs1 where b: "alloc_block 7 sample_fs = Inr (b, fs1)" "if b = 0 then fs1 = sample_fs \<and> free_nrs sample_fs = {} else True"
    using alloc_block_ok[OF sample_fs_ok, of 7] nl by metis
  have a: "alloc_block 7 sample_fs = Inr (b, fs1)" "b \<noteq> 0" using b ne by (simp_all split: if_splits)
  from alloc_then_free_block[OF sample_fs_ok a] a(1) show ?thesis by (auto simp: sample_free)
qed

end
