(* ===== verification/Ext2_Map.thy ===== *)
theory Ext2_Map
  imports Ext2_Alloc
begin

text \<open>
  The map from the blocks of a file to blocks of the disk in \<^verbatim>\<open>fs/ext2.c\<close>: the path of a file block through the
  indirect blocks.
\<close>

section \<open>Paths\<close>

text \<open>The file block that a path leads to, with \<open>a\<close> pointers in a block.\<close>

fun path_block :: "nat \<Rightarrow> u32 list \<Rightarrow> nat" where
  "path_block a [i] = unat i"
| "path_block a [i, j] = 12 + unat j"
| "path_block a [i, j, k] = 12 + a + unat j * a + unat k"
| "path_block a [i, j, k, l] = 12 + a + a * a + (unat j * a + unat k) * a + unat l"
| "path_block a _ = 0"

fun path_ok :: "nat \<Rightarrow> u32 list \<Rightarrow> bool" where
  "path_ok a [i] \<longleftrightarrow> unat i < 12"
| "path_ok a [i, j] \<longleftrightarrow> i = 12 \<and> unat j < a"
| "path_ok a [i, j, k] \<longleftrightarrow> i = 13 \<and> unat j < a \<and> unat k < a"
| "path_ok a [i, j, k, l] \<longleftrightarrow> i = 14 \<and> unat j < a \<and> unat k < a \<and> unat l < a"
| "path_ok a _ \<longleftrightarrow> False"

lemma unat_ucast_small: "unat (w :: u64) < 2 ^ 32 \<Longrightarrow> unat (ucast w :: u32) = unat w"
  by (simp add: unsigned_ucast_eq take_bit_nat_eq_self)

lemma unat_ucast_le: "unat (w :: u64) = m \<Longrightarrow> m < 1024 \<Longrightarrow> unat (ucast w :: u32) = m"
  using unat_ucast_small[of w] by simp

lemma block_path_ok:
  assumes a: "0 < unat per" "unat per \<le> 1024"
  shows "case block_path per n of
      Some p \<Rightarrow> path_ok (unat per) p \<and> path_block (unat per) p = unat n
    | None \<Rightarrow> 12 + unat per + unat per ^ 2 + unat per ^ 3 \<le> unat n"
proof -
  define A :: u64 where "A = ucast per"
  define k where "k = unat per"
  have A: "unat A = k" using unat_count(1)[of per] by (simp add: A_def k_def)
  have k: "0 < k" "k \<le> 1024" using a by (simp_all add: k_def)
  have k2: "k * k \<le> 1024 * 1024" using k by (intro mult_mono) auto
  have k3: "k * k * k \<le> 1024 * 1024 * 1024" using k2 k by (intro mult_mono) auto
  have AA: "unat (A * A) = k * k" using k2 A by (simp add: unat_word_ariths)
  have AAA: "unat (A * A * A) = k * k * k" using k3 AA A by (simp add: unat_word_ariths)
  show ?thesis
  proof (cases "n < 12")
    case True
    then have "unat n < 12" by (simp add: word_less_nat_alt)
    then show ?thesis using True by (simp add: block_path_def unat_ucast_small)
  next
    case n: False
    define n1 where "n1 = n - 12"
    have n1: "unat n = unat n1 + 12" using n unat_sub[of 12 n] by (simp add: n1_def not_less word_le_nat_alt)
    show ?thesis
    proof (cases "n1 < A")
      case True
      then have l: "unat n1 < k" by (simp add: word_less_nat_alt A)
      then have "unat (ucast n1 :: u32) = unat n1" using k by (intro unat_ucast_small) simp
      then show ?thesis using n True l n1 unfolding block_path_def Let_def A_def[symmetric] n1_def[symmetric] k_def[symmetric] by simp
    next
      case m1: False
      define n2 where "n2 = n1 - A"
      have n2: "unat n1 = unat n2 + k" using m1 unat_sub[of A n1] A by (simp add: n2_def not_less word_le_nat_alt)
      show ?thesis
      proof (cases "n2 < A * A")
        case True
        then have l: "unat n2 < k * k" by (simp add: word_less_nat_alt AA)
        have dv: "unat n2 div k < k" "unat n2 mod k < k" using l k by (simp_all add: less_mult_imp_div_less)
        have w: "unat (n2 div A) = unat n2 div k" "unat (n2 mod A) = unat n2 mod k" by (simp_all add: unat_div unat_mod A)
        have u: "unat (ucast (n2 div A) :: u32) = unat n2 div k" "unat (ucast (n2 mod A) :: u32) = unat n2 mod k"
          using k dv by (intro unat_ucast_le[OF w(1)] unat_ucast_le[OF w(2)]; linarith)+
        then show ?thesis using n m1 True dv n1 n2 u
          unfolding block_path_def Let_def A_def[symmetric] n1_def[symmetric] n2_def[symmetric] k_def[symmetric] by simp
      next
        case m2: False
        define n3 where "n3 = n2 - A * A"
        have n3: "unat n2 = unat n3 + k * k" using m2 unat_sub[of "A * A" n2] AA by (simp add: n3_def not_less word_le_nat_alt)
        show ?thesis
        proof (cases "n3 < A * A * A")
          case True
          then have l: "unat n3 < k * k * k" by (simp add: word_less_nat_alt AAA)
          then have "unat n3 < k * (k * k)" by (simp add: mult.assoc)
          then have dv: "unat n3 div (k * k) < k" "unat n3 div k mod k < k" "unat n3 mod k < k" using k by (simp_all add: less_mult_imp_div_less)
          have w: "unat (n3 div (A * A)) = unat n3 div (k * k)" "unat (n3 div A mod A) = unat n3 div k mod k" "unat (n3 mod A) = unat n3 mod k"
            by (simp_all add: unat_div unat_mod A AA)
          have u: "unat (ucast (n3 div (A * A)) :: u32) = unat n3 div (k * k)" "unat (ucast (n3 div A mod A) :: u32) = unat n3 div k mod k"
            "unat (ucast (n3 mod A) :: u32) = unat n3 mod k"
            using k dv by (intro unat_ucast_le[OF w(1)] unat_ucast_le[OF w(2)] unat_ucast_le[OF w(3)]; linarith)+
          have e: "(unat n3 div (k * k) * k + unat n3 div k mod k) * k + unat n3 mod k = unat n3"
            by (simp add: div_mult2_eq)
          show ?thesis using n m1 m2 True dv n1 n2 n3 u e
            unfolding block_path_def Let_def A_def[symmetric] n1_def[symmetric] n2_def[symmetric] n3_def[symmetric] k_def[symmetric] by simp
        next
          case False
          then have "k * k * k \<le> unat n3" by (simp add: not_less word_le_nat_alt AAA)
          then show ?thesis using n m1 m2 False n1 n2 n3
            unfolding block_path_def Let_def A_def[symmetric] n1_def[symmetric] n2_def[symmetric] n3_def[symmetric] k_def[symmetric]
            by (simp add: power2_eq_square power3_eq_cube)
        qed
      qed
    qed
  qed
qed

section \<open>Properties\<close>

text \<open>
  C25. With at most 1024 pointers in a block, \<^verbatim>\<open>block_path\<close> gives a path with its indices in range whose file block is the
  one asked for, so that different blocks of a file have different paths; it refuses exactly the blocks that
  three levels of indirect blocks cannot reach.
\<close>

theorem block_path_roundtrip:
  assumes "0 < unat per" "unat per \<le> 1024"
  shows "(case block_path per n of
      Some p \<Rightarrow> path_ok (unat per) p \<and> path_block (unat per) p = unat n
    | None \<Rightarrow> 12 + unat per + unat per ^ 2 + unat per ^ 3 \<le> unat n) \<and>
    (\<forall>m p. block_path per n = Some p \<and> block_path per m = Some p \<longrightarrow> m = n)"
proof (intro conjI allI impI)
  fix m p assume "block_path per n = Some p \<and> block_path per m = Some p"
  then have "unat n = unat m" using block_path_ok[OF assms, of n] block_path_ok[OF assms, of m] by simp
  then show "m = n" by (simp add: word_unat_eq_iff)
qed (rule block_path_ok[OF assms])

lemma block_path_roundtrip_witness: "block_path 256 1000 = Some [13, 2, 220] \<and> path_block 256 [13, 2, 220] = 1000"
proof -
  have "block_path 256 1000 = Some [13, 2, 220]" by (simp add: block_path_def)
  then show ?thesis using conjunct1[OF block_path_roundtrip[of 256 1000]] by simp
qed

end
