(* ===== verification/Ext2_Entries.thy ===== *)
theory Ext2_Entries
  imports Ext2_Alloc
begin

text \<open>
  The blocks of a directory in \<^verbatim>\<open>fs/ext2.c\<close> as chains of entries. \<open>seg\<close> says that the entries from one offset on
  end exactly at another; \<open>live_names\<close> is the list of the names in use with their inode and type.
\<close>

section \<open>Chains\<close>

fun seg :: "nat \<Rightarrow> u8 list \<Rightarrow> nat \<Rightarrow> (nat \<times> ext2_dirent) list \<Rightarrow> nat \<Rightarrow> bool" where
  "seg bs bytes off [] e \<longleftrightarrow> off = e"
| "seg bs bytes off ((o', d) # es) e \<longleftrightarrow> o' = off \<and> dirent_at bytes off = Inr d \<and> dirent_ok bs d off \<and>
     seg bs bytes (off + unat (rec_len d)) es e"

definition in_use :: "nat \<times> ext2_dirent \<Rightarrow> bool" where
  "in_use p \<longleftrightarrow> d_inode (snd p) \<noteq> 0"

definition entry_of :: "u8 list \<Rightarrow> nat \<times> ext2_dirent \<Rightarrow> u8 list \<times> u32 \<times> u8" where
  "entry_of bytes p = (d_name bytes (fst p) (snd p), d_inode (snd p), file_type (snd p))"

definition live_names :: "u8 list \<Rightarrow> (nat \<times> ext2_dirent) list \<Rightarrow> (u8 list \<times> u32 \<times> u8) list" where
  "live_names bytes es = map (entry_of bytes) (filter in_use es)"

lemma live_simps [simp]: "live_names bytes [] = []" "live_names bytes (xs @ ys) = live_names bytes xs @ live_names bytes ys"
  "live_names bytes (p # es) = (if in_use p then entry_of bytes p # live_names bytes es else live_names bytes es)"
  by (simp_all add: live_names_def)

lemma seg_append: "seg bs bytes off (xs @ ys) e \<longleftrightarrow> (\<exists>m. seg bs bytes off xs m \<and> seg bs bytes m ys e)"
  by (induction bs bytes off xs e rule: seg.induct) auto

lemma rec_len_4: "(w :: u16) AND 3 = 0 \<longleftrightarrow> unat w mod 4 = 0"
proof -
  have "(3 :: u16) = mask 2" by (simp add: mask_eq_exp_minus_1)
  then have "w AND 3 = take_bit 2 w" by (simp add: take_bit_eq_mask)
  moreover have "unat (take_bit 2 w) = unat w mod 4" by (simp add: take_bit_eq_mod unat_mod)
  ultimately show ?thesis by (metis unat_eq_0)
qed

lemma dirent_okD:
  assumes "dirent_ok bs d off"
  shows "8 \<le> unat (rec_len d)" "unat (rec_len d) mod 4 = 0" "off + unat (rec_len d) \<le> bs" "rec_size (unat (name_len d)) \<le> unat (rec_len d)"
  using assms by (simp_all add: dirent_ok_def word_le_nat_alt rec_len_4)

lemma rec_size_props: "rec_size n mod 4 = 0" "8 + n \<le> rec_size n" "rec_size n < n + 12"
proof -
  show "rec_size n mod 4 = 0" by (simp add: rec_size_def)
  show "8 + n \<le> rec_size n" "rec_size n < n + 12"
    using div_mult_mod_eq[of "8 + n + 3" 4] mod_less_divisor[of 4 "8 + n + 3"] unfolding rec_size_def by linarith+
qed

lemma seg_le: "seg bs bytes off es e \<Longrightarrow> off \<le> e"
  by (induction bs bytes off es e rule: seg.induct) auto

lemma seg_le_bs: "seg bs bytes off es e \<Longrightarrow> off \<le> bs \<Longrightarrow> e \<le> bs"
  by (induction bs bytes off es e rule: seg.induct) (auto dest: dirent_okD(3))

section \<open>Locality\<close>

definition same_between :: "nat \<Rightarrow> nat \<Rightarrow> u8 list \<Rightarrow> u8 list \<Rightarrow> bool" where
  "same_between a b xs ys \<longleftrightarrow> length xs = length ys \<and> (\<forall>j. a \<le> j \<and> j < b \<and> j < length xs \<longrightarrow> xs ! j = ys ! j)"

lemma agree_sub: "same_between a b xs ys \<Longrightarrow> a \<le> a' \<Longrightarrow> b' \<le> b \<Longrightarrow> same_between a' b' xs ys"
  by (simp add: same_between_def)

lemma agree_take_drop: "same_between a b xs ys \<Longrightarrow> a \<le> at \<Longrightarrow> at + n \<le> b \<Longrightarrow> take n (drop at xs) = take n (drop at ys)"
  by (rule nth_equalityI) (auto simp: same_between_def)

lemma agree_dirent:
  assumes "same_between a b xs ys" "a \<le> off" "off + 8 \<le> b"
  shows "dirent_at xs off = dirent_at ys off"
  using assms agree_take_drop[OF assms(1)] by (simp add: dirent_at_def field_def same_between_def)

lemma agree_entry:
  assumes "same_between a b xs ys" "a \<le> off" "off + 8 + unat (name_len d) \<le> b"
  shows "entry_of xs (off, d) = entry_of ys (off, d)"
  using agree_take_drop[OF assms(1), of "off + 8" "unat (name_len d)"] assms by (simp add: entry_of_def d_name_def)

lemma seg_local:
  assumes "seg bs xs off es e" "same_between off e xs ys"
  shows "seg bs ys off es e \<and> live_names ys es = live_names xs es"
  using assms
proof (induction es arbitrary: off)
  case (Cons p es)
  obtain d where p: "p = (off, d)" and d: "dirent_at xs off = Inr d" "dirent_ok bs d off" "seg bs xs (off + unat (rec_len d)) es e"
    using Cons.prems(1) by (cases p) auto
  note ok = dirent_okD[OF d(2)] and le = seg_le[OF d(3)]
  have "seg bs ys (off + unat (rec_len d)) es e \<and> live_names ys es = live_names xs es"
    by (rule Cons.IH[OF d(3) agree_sub[OF Cons.prems(2)]]) auto
  moreover have "dirent_at ys off = Inr d" using agree_dirent[OF Cons.prems(2), of off] d(1) ok(1) le by simp
  moreover have "entry_of ys (off, d) = entry_of xs (off, d)"
    using agree_entry[OF Cons.prems(2), of off d] ok(4) rec_size_props(2)[of "unat (name_len d)"] le by simp
  ultimately show ?case using p d(2) by simp
qed simp

lemma agree_splice: "i + length xs \<le> length ys \<Longrightarrow> b \<le> i \<or> i + length xs \<le> a \<Longrightarrow> same_between a b ys (splice i xs ys)"
  unfolding same_between_def by (auto simp: nth_splice)

lemma same_between_trans: "same_between a b xs ys \<Longrightarrow> same_between a b ys zs \<Longrightarrow> same_between a b xs zs"
  by (simp add: same_between_def)

section \<open>Writing an entry\<close>

lemma put_dirent_len: "off + 8 + length name \<le> length bytes \<Longrightarrow> length (put_dirent off nr len name ft bytes) = length bytes"
  by (simp add: put_dirent_def)

lemma put_dirent_agree:
  "off + 8 + length name \<le> length bytes \<Longrightarrow> b \<le> off \<or> off + 8 + length name \<le> a \<Longrightarrow> same_between a b bytes (put_dirent off nr len name ft bytes)"
  unfolding put_dirent_def by (rule agree_splice) auto

lemma put_dirent_at:
  assumes "off + 8 + length name \<le> length bytes" "length name \<le> 255"
  shows "dirent_at (put_dirent off nr len name ft bytes) off = Inr \<lparr>d_inode = nr, rec_len = len, name_len = of_nat (length name), file_type = ft\<rparr>"
    "d_name (put_dirent off nr len name ft bytes) off \<lparr>d_inode = nr, rec_len = len, name_len = of_nat (length name), file_type = ft\<rparr> = name"
proof -
  let ?e = "to_bytes 4 nr @ to_bytes 2 len @ [of_nat (length name), ft] @ name" and ?p = "put_dirent off nr len name ft bytes"
  have p: "drop off ?p = ?e @ drop (off + 8 + length name) bytes" using assms(1) by (simp add: put_dirent_def splice_def add.assoc)
  have "drop (off + k) ?p = drop k (drop off ?p)" for k by (simp add: add.commute)
  then have t: "take n (drop (off + k) ?p) = take n (drop k (?e @ drop (off + 8 + length name) bytes))" for k n by (simp only: p)
  have "unat (of_nat (length name) :: u8) = length name" using assms(2) by (simp only: unat_of_nat) simp
  then show "d_name ?p off \<lparr>d_inode = nr, rec_len = len, name_len = of_nat (length name), file_type = ft\<rparr> = name"
    using t[of "length name" 8] by (simp add: d_name_def)
  show "dirent_at ?p off = Inr \<lparr>d_inode = nr, rec_len = len, name_len = of_nat (length name), file_type = ft\<rparr>"
    using t[of 4 0] t[of 2 4] t[of 1 6] t[of 1 7] put_dirent_len[OF assms(1), of nr len ft] assms(1)
    by (simp add: dirent_at_def field_def of_to_bytes take_bit_word_eq_self)
qed

section \<open>Visitors on a chain\<close>

lemma seg_entry:
  assumes "seg bs bytes off es e" "p \<in> set es" "off \<le> bs" "length bytes = bs"
  shows "dirent_at bytes (fst p) = Inr (snd p)" "dirent_ok bs (snd p) (fst p)" "length (d_name bytes (fst p) (snd p)) = unat (name_len (snd p))"
proof -
  have "dirent_at bytes (fst p) = Inr (snd p) \<and> dirent_ok bs (snd p) (fst p)"
    using assms(1,2) by (induction bs bytes off es e rule: seg.induct) auto
  then show d: "dirent_at bytes (fst p) = Inr (snd p)" "dirent_ok bs (snd p) (fst p)" by simp_all
  show "length (d_name bytes (fst p) (snd p)) = unat (name_len (snd p))"
    using dirent_okD(3,4)[OF d(2)] rec_size_props(2)[of "unat (name_len (snd p))"] assms(4) by (simp add: d_name_def)
qed

lemma has_name_live:
  assumes "seg bs bytes off es e" "p \<in> set es" "off \<le> bs" "length bytes = bs"
  shows "has_name name bytes (fst p) (snd p) \<longleftrightarrow> in_use p \<and> fst (entry_of bytes p) = name"
  using seg_entry(3)[OF assms] by (auto simp: has_name_def in_use_def entry_of_def)

lemma visit_skip:
  assumes "seg bs bytes off es e" "\<forall>p\<in>set es. \<forall>prev. fn bytes (fst p) prev (snd p) c = (False, bytes, c)"
  shows "visit_block fn bs off prev bytes c = visit_block fn bs e (last (prev # map (\<lambda>p. Some (fst p)) es)) bytes c"
  using assms
proof (induction es arbitrary: off prev)
  case (Cons p es)
  obtain d where p: "p = (off, d)" and d: "dirent_at bytes off = Inr d" "dirent_ok bs d off" "seg bs bytes (off + unat (rec_len d)) es e"
    using Cons.prems(1) by (cases p) auto
  have "off < bs" using dirent_okD(1,3)[OF d(2)] by linarith
  then have "visit_block fn bs off prev bytes c = visit_block fn bs (off + unat (rec_len d)) (Some off) bytes c"
    using d Cons.prems(2) p by (subst visit_block.simps) simp
  also have "\<dots> = visit_block fn bs e (last (Some off # map (\<lambda>p. Some (fst p)) es)) bytes c"
    using Cons.IH[OF d(3)] Cons.prems(2) by simp
  finally show ?case by (simp add: p)
qed simp

lemma visit_end: "visit_block fn bs bs prev bytes c = Inr (False, bytes, c)"
  by (simp add: visit_block.simps)

lemma visit_stop:
  assumes "dirent_at bytes off = Inr d" "dirent_ok bs d off" "fn bytes off prev d c = (True, bytes', c')"
  shows "visit_block fn bs off prev bytes c = Inr (True, bytes', c')"
proof -
  have "off < bs" using dirent_okD(1,3)[OF assms(2)] by linarith
  then show ?thesis using assms by (subst visit_block.simps) simp
qed

text \<open>A visitor goes to the first entry where it stops, or to the end of the block.\<close>

lemma visit_first:
  assumes s: "seg bs bytes 0 es bs" and q: "\<forall>p\<in>set es. \<forall>prev. \<not> P p \<longrightarrow> fn bytes (fst p) prev (snd p) c = (False, bytes, c)"
  shows "(\<forall>p\<in>set es. \<not> P p) \<and> visit_block fn bs 0 None bytes c = Inr (False, bytes, c) \<or>
    (\<exists>xs o' d ys. es = xs @ (o', d) # ys \<and> P (o', d) \<and> (\<forall>p\<in>set xs. \<not> P p) \<and> seg bs bytes 0 xs o' \<and> dirent_at bytes o' = Inr d \<and>
       dirent_ok bs d o' \<and> seg bs bytes (o' + unat (rec_len d)) ys bs \<and>
       visit_block fn bs 0 None bytes c = visit_block fn bs o' (last (None # map (\<lambda>p. Some (fst p)) xs)) bytes c)"
proof (cases "\<exists>p\<in>set es. P p")
  case False
  then show ?thesis using visit_skip[OF s, of fn c None] q by (auto simp: visit_end)
next
  case True
  then obtain xs p ys where e: "es = xs @ p # ys" "P p" "\<forall>p\<in>set xs. \<not> P p" using split_list_first_prop[of es P] by blast
  obtain o' d where p: "p = (o', d)" by (cases p)
  then have "seg bs bytes 0 xs o'" "dirent_at bytes o' = Inr d" "dirent_ok bs d o'" "seg bs bytes (o' + unat (rec_len d)) ys bs"
    using s e(1) by (auto simp: seg_append)
  then show ?thesis using e p visit_skip[of bs bytes 0 xs o' fn c None] q by auto
qed

section \<open>Finding\<close>

lemma visit_find:
  assumes "seg bs bytes 0 es bs" "length bytes = bs"
  shows "visit_block (find_visit name) bs 0 None bytes c = Inr (case find (\<lambda>e. fst e = name) (live_names bytes es) of
      None \<Rightarrow> (False, bytes, c) | Some e \<Rightarrow> (True, bytes, fst (snd e)))"
proof -
  let ?P = "\<lambda>p. in_use p \<and> fst (entry_of bytes p) = name"
  have fn: "find_visit name bytes (fst p) prev (snd p) c = (if ?P p then (True, bytes, d_inode (snd p)) else (False, bytes, c))"
    if "p \<in> set es" for p prev
    using has_name_live[OF assms(1) that _ assms(2)] by (simp add: find_visit_def)
  have none: "find (\<lambda>e. fst e = name) (live_names bytes xs) = None" if "\<forall>p\<in>set xs. \<not> ?P p" for xs
    using that by (auto simp: find_None_iff live_names_def)
  consider (no) "\<forall>p\<in>set es. \<not> ?P p" "visit_block (find_visit name) bs 0 None bytes c = Inr (False, bytes, c)"
    | (hit) xs o' d ys where "es = xs @ (o', d) # ys" "?P (o', d)" "\<forall>p\<in>set xs. \<not> ?P p" "dirent_at bytes o' = Inr d" "dirent_ok bs d o'"
        "visit_block (find_visit name) bs 0 None bytes c = visit_block (find_visit name) bs o' (last (None # map (\<lambda>p. Some (fst p)) xs)) bytes c"
  proof -
    have "\<forall>p\<in>set es. \<forall>prev. \<not> ?P p \<longrightarrow> find_visit name bytes (fst p) prev (snd p) c = (False, bytes, c)" using fn by simp
    from visit_first[OF assms(1), of ?P "find_visit name" c, OF this] show thesis using no hit by blast
  qed
  then show ?thesis
  proof cases
    case no
    then show ?thesis using none[of es] by simp
  next
    case hit
    have "visit_block (find_visit name) bs o' prev bytes c = Inr (True, bytes, d_inode d)" for prev
      by (rule visit_stop[OF hit(4,5)]) (use fn[of "(o', d)"] hit(1,2) in simp)
    then show ?thesis using hit(1,2,6) none[OF hit(3)] by (simp add: find_append entry_of_def)
  qed
qed

section \<open>Adding\<close>

lemma dirent_at_len: "dirent_at bytes off = Inr d \<Longrightarrow> off + 8 \<le> length bytes"
  by (simp add: dirent_at_def split: if_splits)

lemma set_rec_len:
  assumes "dirent_at bytes off = Inr d"
  shows "dirent_at (splice (off + 4) (to_bytes 2 (w :: u16)) bytes) off = Inr (d\<lparr>rec_len := w\<rparr>)"
proof -
  have l: "off + 8 \<le> length bytes" by (rule dirent_at_len[OF assms])
  then have "field (off + 4) 2 (splice (off + 4) (to_bytes 2 w) bytes) = w" by (simp add: field_same)
  then show ?thesis using assms l by (auto simp: dirent_at_def field_other)
qed

definition space_used :: "ext2_dirent \<Rightarrow> nat" where
  "space_used d = (if d_inode d \<noteq> 0 then rec_size (unat (name_len d)) else 0)"

definition has_room :: "u8 list \<Rightarrow> nat \<times> ext2_dirent \<Rightarrow> bool" where
  "has_room name p \<longleftrightarrow> rec_size (length name) \<le> unat (rec_len (snd p)) - space_used (snd p)"

lemma seg_put_between:
  assumes s: "seg bs bytes 0 xs a" "seg bs bytes e ys bs" and l: "length bytes = bs" and e: "a \<le> e" "e \<le> bs"
    and g: "same_between 0 a bytes bytes'" "same_between e bs bytes bytes'" and m: "seg bs bytes' a zs e"
  shows "seg bs bytes' 0 (xs @ zs @ ys) bs" "live_names bytes' (xs @ zs @ ys) = live_names bytes xs @ live_names bytes' zs @ live_names bytes ys"
  using seg_local[OF s(1) g(1)] seg_local[OF s(2) g(2)] m by (auto simp: seg_append)

lemma ok_new_dirent:
  assumes "off + unat len \<le> bs" "rec_size (length name) \<le> unat len" "unat len mod 4 = 0" "length name \<le> 255"
  shows "dirent_ok bs \<lparr>d_inode = nr, rec_len = len, name_len = of_nat (length name), file_type = ft\<rparr> off"
proof -
  have "unat (of_nat (length name) :: u8) = length name" using assms(4) by (simp only: unat_of_nat) simp
  moreover have "8 \<le> unat len" using rec_size_props(2)[of "length name"] assms(2) by linarith
  ultimately show ?thesis using assms by (simp add: dirent_ok_def rec_len_4 word_le_nat_alt)
qed

lemma add_in_use:
  assumes d: "dirent_at bytes a = Inr d" "dirent_ok bs d a" "d_inode d \<noteq> 0" and room: "has_room name (a, d)"
    and l: "length bytes = bs" "bs < 2 ^ 16" "length name \<le> 255" and nr: "nr \<noteq> 0"
  defines "u \<equiv> rec_size (unat (name_len d))"
  shows "\<exists>bytes' zs. (\<forall>prev c. add_visit name nr ft bytes a prev d c = (True, bytes', True)) \<and> length bytes' = bs \<and>
    same_between 0 a bytes bytes' \<and> same_between (a + unat (rec_len d)) bs bytes bytes' \<and> seg bs bytes' a zs (a + unat (rec_len d)) \<and>
    live_names bytes' zs = [entry_of bytes (a, d), (name, nr, ft)]"
proof -
  note ok = dirent_okD[OF d(2)]
  have need: "rec_size (length name) \<le> unat (rec_len d) - u" using room d(3) by (simp add: has_room_def space_used_def u_def)
  have ub: "u \<le> unat (rec_len d)" "8 + unat (name_len d) \<le> u" "u mod 4 = 0" using ok(4) rec_size_props by (simp_all add: u_def)
  have nl: "8 + length name \<le> unat (rec_len d) - u" using need rec_size_props(2)[of "length name"] by linarith
  have u16: "unat (of_nat u :: u16) = u" using ub(1) ok(3) l(2) by (simp only: unat_of_nat) simp
  then have rest: "unat (rec_len d - of_nat u) = unat (rec_len d) - u" using ub(1) by (simp add: unat_sub word_le_nat_alt)
  define b1 where "b1 = splice (a + 4) (to_bytes 2 (of_nat u :: u16)) bytes"
  define b2 where "b2 = put_dirent (a + u) nr (rec_len d - of_nat u) name ft b1"
  let ?d = "d\<lparr>rec_len := of_nat u\<rparr>" and ?n = "\<lparr>d_inode = nr, rec_len = rec_len d - of_nat u, name_len = of_nat (length name), file_type = ft\<rparr>"
  have in_block: "a + u + 8 + length name \<le> a + unat (rec_len d)" "a + unat (rec_len d) \<le> bs" using nl ub(1) ok(3) by linarith+
  have l1: "length b1 = bs" using in_block ub l(1) by (simp add: b1_def)
  have fit: "a + u + 8 + length name \<le> length b1" using in_block l1 by linarith
  have l2: "length b2 = bs" unfolding b2_def using put_dirent_len[OF fit] l1 by simp
  have g1: "same_between x y bytes b1" if "y \<le> a + 4 \<or> a + 6 \<le> x" for x y
    unfolding b1_def using that in_block ub l(1) by (intro agree_splice) auto
  have g2: "same_between x y b1 b2" if "y \<le> a + u \<or> a + u + 8 + length name \<le> x" for x y
    unfolding b2_def using that by (intro put_dirent_agree[OF fit]) auto
  have d1: "dirent_at b2 a = Inr ?d"
  proof -
    have "dirent_at b1 a = dirent_at b2 a" using g2[of "a + 8" a] ub by (intro agree_dirent) auto
    then show ?thesis using set_rec_len[OF d(1), of "of_nat u"] by (simp add: b1_def)
  qed
  have e1: "entry_of b2 (a, ?d) = entry_of bytes (a, d)"
  proof -
    have "same_between (a + 8) (a + u) bytes b2" using same_between_trans[OF g1 g2, of "a + u" "a + 8"] by simp
    then have "take (unat (name_len d)) (drop (a + 8) b2) = take (unat (name_len d)) (drop (a + 8) bytes)"
      using ub(2) by (intro agree_take_drop[symmetric]) auto
    then show ?thesis by (simp add: entry_of_def d_name_def)
  qed
  note n = put_dirent_at[OF fit l(3), of nr "rec_len d - of_nat u" ft, folded b2_def]
  have "dirent_ok bs ?d a" using in_block ub u16 by (simp add: dirent_ok_def rec_len_4 word_le_nat_alt u_def)
  moreover have "dirent_ok bs ?n (a + u)"
  proof (rule ok_new_dirent)
    show "unat (rec_len d - of_nat u) mod 4 = 0" using rest ub(1,3) ok(2) by (simp add: mod_eq_0_iff_dvd dvd_diff_nat)
  qed (use rest need in_block ub(1) l(3) in simp_all)
  ultimately have "seg bs b2 a [(a, ?d), (a + u, ?n)] (a + unat (rec_len d))" using d1 n(1) u16 rest ub(1) by simp
  moreover have "live_names b2 [(a, ?d), (a + u, ?n)] = [entry_of bytes (a, d), (name, nr, ft)]"
    using d(3) nr e1 n(2) by (simp add: in_use_def entry_of_def)
  moreover have "add_visit name nr ft bytes a prev d c = (True, b2, True)" for prev c
    using d(3) need by (simp add: add_visit_def Let_def u_def[symmetric] b2_def b1_def)
  moreover have "same_between 0 a bytes b2" "same_between (a + unat (rec_len d)) bs bytes b2"
    using same_between_trans[OF g1 g2] in_block ub(2) by (simp_all add: le_add1)
  ultimately show ?thesis using l2 by blast
qed

lemma add_unused:
  assumes d: "dirent_at bytes a = Inr d" "dirent_ok bs d a" "d_inode d = 0" and room: "has_room name (a, d)"
    and l: "length bytes = bs" "length name \<le> 255" and nr: "nr \<noteq> 0"
  shows "\<exists>bytes' zs. (\<forall>prev c. add_visit name nr ft bytes a prev d c = (True, bytes', True)) \<and> length bytes' = bs \<and>
    same_between 0 a bytes bytes' \<and> same_between (a + unat (rec_len d)) bs bytes bytes' \<and> seg bs bytes' a zs (a + unat (rec_len d)) \<and>
    live_names bytes' zs = [(name, nr, ft)]"
proof -
  note ok = dirent_okD[OF d(2)]
  have need: "rec_size (length name) \<le> unat (rec_len d)" using room d(3) by (simp add: has_room_def space_used_def)
  then have fit: "a + 8 + length name \<le> length bytes" "a + 8 + length name \<le> a + unat (rec_len d)"
    using rec_size_props(2)[of "length name"] ok(3) l(1) by linarith+
  define b where "b = put_dirent a nr (rec_len d) name ft bytes"
  let ?n = "\<lparr>d_inode = nr, rec_len = rec_len d, name_len = of_nat (length name), file_type = ft\<rparr>"
  note n = put_dirent_at[OF fit(1) l(2), of nr "rec_len d" ft, folded b_def]
  have "length b = bs" unfolding b_def using put_dirent_len[OF fit(1)] l(1) by simp
  moreover have "dirent_ok bs ?n a" by (rule ok_new_dirent) (use need ok(2,3) l(2) in simp_all)
  then have "seg bs b a [(a, ?n)] (a + unat (rec_len d))" using n(1) by simp
  moreover have "live_names b [(a, ?n)] = [(name, nr, ft)]" using nr n(2) by (simp add: in_use_def entry_of_def)
  moreover have "add_visit name nr ft bytes a prev d c = (True, b, True)" for prev c
    using d(3) need by (simp add: add_visit_def Let_def b_def)
  moreover have "same_between 0 a bytes b" "same_between (a + unat (rec_len d)) bs bytes b"
    unfolding b_def using fit by (auto intro: put_dirent_agree)
  ultimately show ?thesis by blast
qed

lemma visit_add:
  assumes s: "seg bs bytes 0 es bs" and l: "length bytes = bs" "bs < 2 ^ 16" "length name \<le> 255" and nr: "nr \<noteq> 0"
  shows "(\<forall>p\<in>set es. \<not> has_room name p) \<and> visit_block (add_visit name nr ft) bs 0 None bytes False = Inr (False, bytes, False) \<or>
    (\<exists>bytes' es' xs ys. visit_block (add_visit name nr ft) bs 0 None bytes False = Inr (True, bytes', True) \<and> length bytes' = bs \<and>
       seg bs bytes' 0 es' bs \<and> live_names bytes es = xs @ ys \<and> live_names bytes' es' = xs @ (name, nr, ft) # ys)"
proof -
  have q: "\<forall>p\<in>set es. \<forall>prev. \<not> has_room name p \<longrightarrow> add_visit name nr ft bytes (fst p) prev (snd p) False = (False, bytes, False)"
    by (auto simp: add_visit_def has_room_def space_used_def Let_def)
  from visit_first[OF s, of "has_room name" "add_visit name nr ft" False, OF q]
  show ?thesis
  proof (elim disjE exE conjE)
    fix xs a d ys
    assume e: "es = xs @ (a, d) # ys" and room: "has_room name (a, d)" and sx: "seg bs bytes 0 xs a" and d: "dirent_at bytes a = Inr d" "dirent_ok bs d a"
      and sy: "seg bs bytes (a + unat (rec_len d)) ys bs"
      and v: "visit_block (add_visit name nr ft) bs 0 None bytes False =
        visit_block (add_visit name nr ft) bs a (last (None # map (\<lambda>p. Some (fst p)) xs)) bytes False"
    obtain bytes' zs pre where z: "\<forall>prev c. add_visit name nr ft bytes a prev d c = (True, bytes', True)" "length bytes' = bs"
      "same_between 0 a bytes bytes'" "same_between (a + unat (rec_len d)) bs bytes bytes'" "seg bs bytes' a zs (a + unat (rec_len d))"
      "live_names bytes' zs = pre @ [(name, nr, ft)]" "live_names bytes [(a, d)] = pre"
    proof (cases "d_inode d = 0")
      case True
      then show thesis using add_unused[OF d True room l(1,3) nr] that[of _ _ "[]"] by (auto simp: in_use_def)
    next
      case False
      then show thesis using add_in_use[OF d False room l nr] that[of _ _ "[entry_of bytes (a, d)]"] by (auto simp: in_use_def)
    qed
    have le: "a + unat (rec_len d) \<le> bs" by (rule dirent_okD(3)[OF d(2)])
    note new = seg_put_between[OF sx sy l(1) _ le z(3-5)]
    have "visit_block (add_visit name nr ft) bs 0 None bytes False = Inr (True, bytes', True)"
      unfolding v by (rule visit_stop[OF d]) (simp add: z(1))
    moreover have "live_names bytes es = (live_names bytes xs @ pre) @ live_names bytes ys" using e z(7) by (simp split: if_splits)
    moreover have "live_names bytes' (xs @ zs @ ys) = (live_names bytes xs @ pre) @ (name, nr, ft) # live_names bytes ys" using new(2) z(6) by simp
    ultimately show ?thesis using new(1) z(2) by (intro disjI2) (blast intro: le_add1)
  qed blast
qed

section \<open>Removing\<close>

text \<open>The entry before takes over the space of the one removed.\<close>

lemma remove_with_prev:
  assumes p: "dirent_at bytes p = Inr e" "dirent_ok bs e p" and d: "dirent_at bytes (p + unat (rec_len e)) = Inr d" "dirent_ok bs d (p + unat (rec_len e))"
    and l: "length bytes = bs" "bs < 2 ^ 16"
  defines "bytes' \<equiv> splice (p + 4) (to_bytes 2 ((field (p + 4) 2 bytes :: u16) + rec_len d)) bytes" and "w \<equiv> rec_len e + rec_len d"
  shows "length bytes' = bs" "same_between 0 p bytes bytes'" "same_between (p + unat (rec_len e) + unat (rec_len d)) bs bytes bytes'"
    "seg bs bytes' p [(p, e\<lparr>rec_len := w\<rparr>)] (p + unat (rec_len e) + unat (rec_len d))" "live_names bytes' [(p, e\<lparr>rec_len := w\<rparr>)] = live_names bytes [(p, e)]"
proof -
  note ok = dirent_okD[OF p(2)] and ok2 = dirent_okD[OF d(2)]
  have fe: "field (p + 4) 2 bytes = rec_len e" using p(1) by (auto simp: dirent_at_def split: if_splits)
  have in_block: "p + 8 \<le> bs" "p + unat (rec_len e) + unat (rec_len d) \<le> bs" using ok(1,3) ok2(3) by linarith+
  have w: "unat w = unat (rec_len e) + unat (rec_len d)" using in_block(2) l(2) by (simp add: w_def unat_word_ariths)
  have b: "bytes' = splice (p + 4) (to_bytes 2 w) bytes" by (simp add: bytes'_def fe w_def)
  show "length bytes' = bs" using in_block l(1) by (simp add: b)
  have g: "same_between x y bytes bytes'" if "y \<le> p + 4 \<or> p + 6 \<le> x" for x y
    unfolding b using that in_block l(1) by (intro agree_splice) auto
  show "same_between 0 p bytes bytes'" "same_between (p + unat (rec_len e) + unat (rec_len d)) bs bytes bytes'" using ok(1) by (auto intro!: g)
  have "dirent_at bytes' p = Inr (e\<lparr>rec_len := w\<rparr>)" unfolding b by (rule set_rec_len[OF p(1)])
  moreover have "dirent_ok bs (e\<lparr>rec_len := w\<rparr>) p"
    using in_block(2) w ok ok2(2) by (auto simp: dirent_ok_def rec_len_4 word_le_nat_alt)
  ultimately show "seg bs bytes' p [(p, e\<lparr>rec_len := w\<rparr>)] (p + unat (rec_len e) + unat (rec_len d))" using w by simp
  have "take (unat (name_len e)) (drop (p + 8) bytes') = take (unat (name_len e)) (drop (p + 8) bytes)"
    using g[of "p + 8 + unat (name_len e)" "p + 8"] by (intro agree_take_drop[symmetric]) auto
  then show "live_names bytes' [(p, e\<lparr>rec_len := w\<rparr>)] = live_names bytes [(p, e)]" by (simp add: in_use_def entry_of_def d_name_def)
qed

lemma clear_first:
  assumes d: "dirent_at bytes 0 = Inr d" "dirent_ok bs d 0" and l: "length bytes = bs"
  defines "bytes' \<equiv> splice 0 (to_bytes 4 (0 :: u32)) bytes"
  shows "length bytes' = bs" "same_between (unat (rec_len d)) bs bytes bytes'" "seg bs bytes' 0 [(0, d\<lparr>d_inode := 0\<rparr>)] (unat (rec_len d))"
proof -
  note ok = dirent_okD[OF d(2)]
  have in_block: "8 \<le> bs" using ok(1,3) by linarith
  show "length bytes' = bs" using in_block l by (simp add: bytes'_def)
  show "same_between (unat (rec_len d)) bs bytes bytes'" unfolding bytes'_def using in_block ok(1) l by (intro agree_splice) auto
  have "field 0 4 bytes' = (0 :: u32)" unfolding bytes'_def using in_block l by (simp add: field_same)
  then have "dirent_at bytes' 0 = Inr (d\<lparr>d_inode := 0\<rparr>)"
    using d(1) in_block l by (auto simp: dirent_at_def bytes'_def field_other)
  then show "seg bs bytes' 0 [(0, d\<lparr>d_inode := 0\<rparr>)] (unat (rec_len d))" using d(2) by (simp add: dirent_ok_def)
qed

lemma visit_remove:
  assumes s: "seg bs bytes 0 es bs" and l: "length bytes = bs" "bs < 2 ^ 16"
  shows "(\<forall>e\<in>set (live_names bytes es). fst e \<noteq> name) \<and> visit_block (remove_visit name) bs 0 None bytes False = Inr (False, bytes, False) \<or>
    (\<exists>bytes' es' xs e ys. visit_block (remove_visit name) bs 0 None bytes False = Inr (True, bytes', True) \<and> length bytes' = bs \<and>
       seg bs bytes' 0 es' bs \<and> live_names bytes es = xs @ e # ys \<and> fst e = name \<and> (\<forall>f\<in>set xs. fst f \<noteq> name) \<and> live_names bytes' es' = xs @ ys)"
proof -
  let ?P = "\<lambda>p. in_use p \<and> fst (entry_of bytes p) = name"
  have hn: "has_name name bytes (fst p) (snd p) \<longleftrightarrow> ?P p" if "p \<in> set es" for p by (rule has_name_live[OF s that le0 l(1)])
  have q: "\<forall>p\<in>set es. \<forall>prev. \<not> ?P p \<longrightarrow> remove_visit name bytes (fst p) prev (snd p) False = (False, bytes, False)"
    using hn by (simp add: remove_visit_def)
  have none: "\<forall>e\<in>set (live_names bytes xs). fst e \<noteq> name" if "\<forall>p\<in>set xs. \<not> ?P p" for xs
    using that by (auto simp: live_names_def)
  from visit_first[OF s, of ?P "remove_visit name" False, OF q]
  show ?thesis
  proof (elim disjE exE conjE, goal_cases)
    case 1
    then show ?case using none[of es] by blast
  next
    case (2 xs a d ys)
    note e = 2(1) and hit = 2(2,3) and before = 2(4) and sx = 2(5) and d = 2(6,7) and sy = 2(8) and v = 2(9)
    have hd: "has_name name bytes a d" using hn[of "(a, d)"] e hit by simp
    have live_es: "live_names bytes es = live_names bytes xs @ entry_of bytes (a, d) # live_names bytes ys" using e hit(1) by simp
    note nx = none[OF before]
    show ?case
    proof (cases xs rule: rev_cases)
      case Nil
      then have a0: "a = 0" using sx by simp
      let ?b = "splice 0 (to_bytes 4 (0 :: u32)) bytes"
      note c = clear_first[OF d[unfolded a0] l(1)]
      have "visit_block (remove_visit name) bs 0 None bytes False = Inr (True, ?b, True)"
        unfolding v using Nil a0 d hd by (intro visit_stop[of bytes a d]) (simp_all add: remove_visit_def)
      moreover have "seg bs ?b 0 ((0, d\<lparr>d_inode := 0\<rparr>) # ys) bs \<and> live_names ?b ((0, d\<lparr>d_inode := 0\<rparr>) # ys) = live_names bytes ys"
        using seg_local[OF sy[unfolded a0 add_0] c(2)] c(3) by (simp add: in_use_def)
      ultimately show ?thesis using live_es Nil hit(2) c(1) by (intro disjI2) (metis append_Nil empty_iff list.set(1) live_simps(1))
    next
      case (snoc xs' q)
      obtain p ed where qp: "q = (p, ed)" by (cases q)
      have sq: "seg bs bytes 0 xs' p" "dirent_at bytes p = Inr ed" "dirent_ok bs ed p" "a = p + unat (rec_len ed)"
        using sx unfolding snoc qp by (auto simp: seg_append)
      let ?b = "splice (p + 4) (to_bytes 2 ((field (p + 4) 2 bytes :: u16) + rec_len d)) bytes" and ?w = "rec_len ed + rec_len d"
      note r = remove_with_prev[OF sq(2,3) d[unfolded sq(4)] l]
      have "visit_block (remove_visit name) bs 0 None bytes False = Inr (True, ?b, True)"
        unfolding v using snoc qp d hd by (intro visit_stop[of bytes a d]) (simp_all add: remove_visit_def)
      moreover have le: "p \<le> p + unat (rec_len ed) + unat (rec_len d)" "p + unat (rec_len ed) + unat (rec_len d) \<le> bs"
        using dirent_okD(3)[OF d(2)] sq(4) by simp_all
      note new = seg_put_between[OF sq(1) sy[unfolded sq(4)] l(1) le r(2-4)]
      have "live_names ?b (xs' @ [(p, ed\<lparr>rec_len := ?w\<rparr>)] @ ys) = live_names bytes xs @ live_names bytes ys"
        using new(2) r(5) unfolding snoc qp by simp
      ultimately show ?thesis using new(1) r(1) live_es hit(2) nx by (intro disjI2) blast
    qed
  qed
qed

section \<open>A whole directory\<close>

text \<open>The names in block \<open>i\<close> of a directory; a hole has none.\<close>

definition block_names :: "ext2 \<Rightarrow> ext2_node \<Rightarrow> u64 \<Rightarrow> (u8 list \<times> u32 \<times> u8) list \<Rightarrow> bool" where
  "block_names fs x i names \<longleftrightarrow> (\<exists>b y g. bmap x i False fs = Inr (Inr b, y, g) \<and>
     (if b = 0 then names = []
      else \<exists>es. fs_bread fs b = Some (blocks fs b) \<and> length (blocks fs b) = bs_nr fs \<and> seg (bs_nr fs) (blocks fs b) 0 es (bs_nr fs) \<and>
        names = live_names (blocks fs b) es))"

lemma iterate_find:
  assumes "\<forall>j<length cs. block_names fs x (i + of_nat j) (cs ! j)"
  shows "\<exists>g. dir_iterate_from (find_visit name) (length cs) i x c fs = (case find (\<lambda>e. fst e = name) (concat cs) of
      None \<Rightarrow> Inr (Inr False, c, g) | Some e \<Rightarrow> Inr (Inr True, fst (snd e), g))"
  using assms
proof (induction cs arbitrary: i)
  case (Cons ns cs)
  obtain b y g where b: "bmap x i False fs = Inr (Inr b, y, g)" "if b = 0 then ns = []
      else \<exists>es. fs_bread fs b = Some (blocks fs b) \<and> length (blocks fs b) = bs_nr fs \<and> seg (bs_nr fs) (blocks fs b) 0 es (bs_nr fs) \<and> ns = live_names (blocks fs b) es"
    using Cons.prems[rule_format, of 0] by (auto simp: block_names_def)
  have "block_names fs x (i + 1 + of_nat j) (cs ! j)" if "j < length cs" for j
    using Cons.prems[rule_format, of "Suc j"] that by (simp add: add.assoc)
  then obtain g where rest: "dir_iterate_from (find_visit name) (length cs) (i + 1) x c fs = (case find (\<lambda>e. fst e = name) (concat cs) of
      None \<Rightarrow> Inr (Inr False, c, g) | Some e \<Rightarrow> Inr (Inr True, fst (snd e), g))" using Cons.IH[of "i + 1"] by blast
  show ?case
  proof (cases "b = 0")
    case True
    then show ?thesis using b rest by (intro exI[of _ g]) simp
  next
    case False
    then obtain es where es: "fs_bread fs b = Some (blocks fs b)" "length (blocks fs b) = bs_nr fs" "seg (bs_nr fs) (blocks fs b) 0 es (bs_nr fs)"
      "ns = live_names (blocks fs b) es" using b(2) by auto
    have v: "visit_block (find_visit name) (unat (block_size fs)) 0 None (blocks fs b) c = Inr (case find (\<lambda>e. fst e = name) ns of
        None \<Rightarrow> (False, blocks fs b, c) | Some e \<Rightarrow> (True, blocks fs b, fst (snd e)))"
      using visit_find[OF es(3,2)] es(4) by (simp add: bs_nr_def)
    show ?thesis
    proof (cases "find (\<lambda>e. fst e = name) ns")
      case None
      then show ?thesis using b(1) False es(1) v rest by (intro exI[of _ g]) (simp add: find_append)
    next
      case (Some e)
      then show ?thesis using b(1) False es(1) v by (simp add: find_append)
    qed
  qed
qed simp

lemma dir_find_ok:
  assumes "block_size fs \<noteq> 0" "length cs = unat (e_size x div ucast (block_size fs))" "\<forall>j<length cs. block_names fs x (of_nat j) (cs ! j)"
  shows "dir_find x name fs = Inr (case find (\<lambda>e. fst e = name) (concat cs) of None \<Rightarrow> 0 | Some e \<Rightarrow> fst (snd e))"
proof -
  obtain g where "dir_iterate_from (find_visit name) (length cs) 0 x 0 fs = (case find (\<lambda>e. fst e = name) (concat cs) of
      None \<Rightarrow> Inr (Inr False, 0, g) | Some e \<Rightarrow> Inr (Inr True, fst (snd e), g))"
    using iterate_find[of cs fs x 0 name 0] assms(3) by auto
  then show ?thesis
    using assms(1,2) by (cases "find (\<lambda>e. fst e = name) (concat cs)") (simp_all add: dir_find_def dir_iterate_def)
qed

text \<open>The block of a new directory with the inode 2, which is its own parent.\<close>

definition sample_dir_block :: "u8 list" where
  "sample_dir_block = [2, 0, 0, 0, 12, 0, 1, 2, 46, 0, 0, 0, 2, 0, 0, 0, 0xF4, 3, 2, 2, 46, 46, 0, 0] @ replicate 1000 0"

definition sample_entries :: "(nat \<times> ext2_dirent) list" where
  "sample_entries = [(0, \<lparr>d_inode = 2, rec_len = 12, name_len = 1, file_type = 2\<rparr>), (12, \<lparr>d_inode = 2, rec_len = 1012, name_len = 2, file_type = 2\<rparr>)]"

lemma sample_dir_block_ok: "length sample_dir_block = 1024" "seg 1024 sample_dir_block 0 sample_entries 1024"
  "live_names sample_dir_block sample_entries = [([46], 2, 2), ([46, 46], 2, 2)]"
  by (simp_all add: sample_dir_block_def sample_entries_def dirent_at_def field_def dirent_ok_def rec_size_def live_names_def in_use_def entry_of_def d_name_def)

section \<open>Properties\<close>

text \<open>
  C14. Adding a name to a block of a directory that is a chain of entries: if some entry has room for it, the block
  is again a chain that ends with the block, with the new name among the old ones, none of which has changed;
  otherwise nothing changes.
\<close>

theorem add_to_directory_block:
  assumes "seg bs bytes 0 es bs" "length bytes = bs" "bs < 2 ^ 16" "length name \<le> 255" "nr \<noteq> 0"
  shows "(\<forall>p\<in>set es. \<not> has_room name p) \<and> visit_block (add_visit name nr ft) bs 0 None bytes False = Inr (False, bytes, False) \<or>
    (\<exists>bytes' es' xs ys. visit_block (add_visit name nr ft) bs 0 None bytes False = Inr (True, bytes', True) \<and> length bytes' = bs \<and>
       seg bs bytes' 0 es' bs \<and> live_names bytes es = xs @ ys \<and> live_names bytes' es' = xs @ (name, nr, ft) # ys)"
  by (rule visit_add[OF assms])

lemma add_to_directory_block_witness:
  "\<exists>bytes' es'. visit_block (add_visit [97, 98] 12 1) 1024 0 None sample_dir_block False = Inr (True, bytes', True) \<and> seg 1024 bytes' 0 es' 1024 \<and>
    ([97, 98], 12, 1) \<in> set (live_names bytes' es')"
proof -
  have "has_room [97, 98] (12, \<lparr>d_inode = 2, rec_len = 1012, name_len = 2, file_type = 2\<rparr>)" by (simp add: has_room_def space_used_def rec_size_def)
  then have room: "\<exists>p\<in>set sample_entries. has_room [97, 98] p" by (auto simp: sample_entries_def)
  have h: "(1024 :: nat) < 2 ^ 16" "length [97, 98 :: u8] \<le> 255" "(12 :: u32) \<noteq> 0" by simp_all
  from add_to_directory_block[OF sample_dir_block_ok(2,1) h, of 1] show ?thesis
  proof (elim disjE exE conjE)
    fix bytes' es' xs ys
    assume "visit_block (add_visit [97, 98] 12 1) 1024 0 None sample_dir_block False = Inr (True, bytes', True)" "seg 1024 bytes' 0 es' 1024"
      and live_names: "live_names bytes' es' = xs @ ([97, 98], 12, 1) # ys"
    moreover have "([97, 98], 12, 1) \<in> set (live_names bytes' es')" unfolding live_names by simp
    ultimately show ?thesis by blast
  qed (use room in blast)
qed

text \<open>
  C23. Removing a name from such a block takes out the first entry with that name and no other; the block is again
  a chain of entries that ends with the block. If the name is not there nothing changes.
\<close>

theorem remove_from_directory_block:
  assumes "seg bs bytes 0 es bs" "length bytes = bs" "bs < 2 ^ 16"
  shows "(\<forall>e\<in>set (live_names bytes es). fst e \<noteq> name) \<and> visit_block (remove_visit name) bs 0 None bytes False = Inr (False, bytes, False) \<or>
    (\<exists>bytes' es' xs e ys. visit_block (remove_visit name) bs 0 None bytes False = Inr (True, bytes', True) \<and> length bytes' = bs \<and>
       seg bs bytes' 0 es' bs \<and> live_names bytes es = xs @ e # ys \<and> fst e = name \<and> (\<forall>f\<in>set xs. fst f \<noteq> name) \<and> live_names bytes' es' = xs @ ys)"
  by (rule visit_remove[OF assms])

lemma remove_from_directory_block_witness:
  "\<exists>bytes'. visit_block (remove_visit [46, 46]) 1024 0 None sample_dir_block False = Inr (True, bytes', True) \<and> length bytes' = 1024"
proof -
  have h: "(1024 :: nat) < 2 ^ 16" by simp
  have n: "\<not> (\<forall>e\<in>set (live_names sample_dir_block sample_entries). fst e \<noteq> [46, 46])" by (simp add: sample_dir_block_ok(3))
  from remove_from_directory_block[OF sample_dir_block_ok(2,1) h, of "[46, 46]"] n show ?thesis by blast
qed

text \<open>
  C24. \<^verbatim>\<open>dir_find\<close> over all blocks of a directory, holes included, gives the inode of the first entry with the name, and 0
  if there is none.
\<close>

theorem dir_find_is_lookup:
  assumes "block_size fs \<noteq> 0" "length cs = unat (e_size x div ucast (block_size fs))" "\<forall>j<length cs. block_names fs x (of_nat j) (cs ! j)"
  shows "dir_find x name fs = Inr (case find (\<lambda>e. fst e = name) (concat cs) of None \<Rightarrow> 0 | Some e \<Rightarrow> fst (snd e))"
  by (rule dir_find_ok[OF assms])

definition dir_fs :: ext2 where
  "dir_fs = put_block 6 sample_dir_block sample_fs"

definition dir_node :: ext2_node where
  "dir_node = \<lparr>e_ino = 2, e_mode = 0x41ED, e_uid = 0, e_gid = 0, e_nlink = 2, e_size = 1024, e_atime = 0, e_mtime = 0, e_ctime = 0,
     raw = replicate 40 0 @ [6, 0, 0, 0] @ replicate 84 0\<rparr>"

lemma dir_find_is_lookup_witness: "dir_find dir_node [46, 46] dir_fs = Inr 2"
proof -
  have c: "s_blocks_count dir_fs = 16" using sample_fields(2) by (simp add: dir_fs_def put_block_def s_blocks_count_def)
  have i: "i_block (raw dir_node) 0 = 6" 
  proof -
    have "take 4 (drop 40 (raw dir_node)) = [6, 0, 0, 0]" by (simp add: dir_node_def)
    then show ?thesis by (simp add: i_block_def field_def)
  qed
  have p: "block_path (addr_per_block dir_fs) 0 = Some [0]" by (simp add: block_path_def Let_def)
  have "bmap dir_node 0 False dir_fs = Inr (Inr 6, dir_node, dir_fs)" unfolding bmap_def p by (simp add: i write_if_def)
  moreover have "fs_bread dir_fs 6 = Some (blocks dir_fs 6)" by (simp add: fs_bread_def c) (simp add: dir_fs_def put_block_def sample_fs_def)
  moreover have "blocks dir_fs 6 = sample_dir_block" "bs_nr dir_fs = 1024" by (simp_all add: dir_fs_def put_block_def bs_nr_def sample_fs_def)
  ultimately have b: "block_names dir_fs dir_node 0 [([46], 2, 2), ([46, 46], 2, 2)]"
    unfolding block_names_def using sample_dir_block_ok by (intro exI[of _ 6]) auto
  have h: "block_size dir_fs \<noteq> 0" "length [[([46 :: u8], 2 :: u32, 2 :: u8), ([46, 46], 2, 2)]] = unat (e_size dir_node div ucast (block_size dir_fs))"
    by (simp_all add: dir_fs_def put_block_def sample_fs_def dir_node_def)
  show ?thesis using dir_find_is_lookup[OF h, of "[46, 46]"] b by simp
qed

text \<open>
  A chain of entries that stops four bytes before the end of a block makes a search that does not find the name
  read the header of an entry beyond the end of the buffer: each entry is checked only after its header has been read.
\<close>

theorem short_directory_tail_read_outside:
  assumes "seg bs bytes 0 es (bs - 4)" "4 \<le> bs" "length bytes = bs" "\<forall>e\<in>set (live_names bytes es). fst e \<noteq> name"
  shows "visit_block (find_visit name) bs 0 None bytes c = Inl Outside_buffer"
proof -
  have "\<forall>p\<in>set es. \<forall>prev. find_visit name bytes (fst p) prev (snd p) c = (False, bytes, c)"
    using assms(4) has_name_live[OF assms(1) _ _ assms(3)] by (auto simp: find_visit_def live_names_def)
  from visit_skip[of bs bytes 0 es "bs - 4" "find_visit name", OF assms(1) this] have "visit_block (find_visit name) bs 0 None bytes c =
    visit_block (find_visit name) bs (bs - 4) (last (None # map (\<lambda>p. Some (fst p)) es)) bytes c" .
  also have "\<dots> = Inl Outside_buffer" using assms(2,3) by (subst visit_block.simps) (simp add: dirent_at_def)
  finally show ?thesis .
qed

lemma short_directory_tail_read_outside_witness:
  "visit_block (find_visit [97]) 1024 0 None ([2, 0, 0, 0, 0xFC, 3, 1, 2, 46] @ replicate 1015 0) 0 = Inl Outside_buffer"
proof -
  let ?b = "[2, 0, 0, 0, 0xFC, 3, 1, 2, 46] @ replicate 1015 0 :: u8 list" and ?e = "[(0, \<lparr>d_inode = 2, rec_len = 1020, name_len = 1, file_type = 2\<rparr>)]"
  have s: "seg 1024 ?b 0 ?e (1024 - 4)" by (simp add: dirent_at_def field_def dirent_ok_def rec_size_def)
  have l: "\<forall>e\<in>set (live_names ?b ?e). fst e \<noteq> [97]" by (simp add: live_names_def in_use_def entry_of_def d_name_def)
  show ?thesis by (rule short_directory_tail_read_outside[OF s _ _ l]) simp_all
qed

end
