(* ===== verification/Ext2_Mount.thy ===== *)
theory Ext2_Mount
  imports Ext2_Entries
begin

text \<open>
  \<^verbatim>\<open>ext2_mount\<close>: the checks of the superblock, the geometry and the table of group descriptors. What a successful
  mount guarantees to the other operations, and a superblock that makes it write beyond the table.
\<close>

section \<open>The checks of the superblock\<close>

definition s_log_block_size :: "ext2 \<Rightarrow> u32" where "s_log_block_size fs = field 24 4 (super fs)"
definition s_mnt_count :: "ext2 \<Rightarrow> u16" where "s_mnt_count fs = field 52 2 (super fs)"
definition s_magic :: "ext2 \<Rightarrow> u16" where "s_magic fs = field 56 2 (super fs)"
definition s_rev_level :: "ext2 \<Rightarrow> u32" where "s_rev_level fs = field 76 4 (super fs)"
definition s_inode_size :: "ext2 \<Rightarrow> u16" where "s_inode_size fs = field 88 2 (super fs)"
definition s_feature_incompat :: "ext2 \<Rightarrow> u32" where "s_feature_incompat fs = field 96 4 (super fs)"
definition s_feature_ro_compat :: "ext2 \<Rightarrow> u32" where "s_feature_ro_compat fs = field 100 4 (super fs)"

definition set_sizes :: "ext2 \<Rightarrow> ext2" where
  "set_sizes fs = fs\<lparr>block_size := push_bit (unat (s_log_block_size fs)) 1024,
     inode_size := (if s_rev_level fs \<ge> 1 then ucast (s_inode_size fs) else 128)\<rparr>"

definition sizes_ok :: "ext2 \<Rightarrow> bool" where
  "sizes_ok fs \<longleftrightarrow> \<not> (block_size fs > 4096 \<or> inode_size fs < 128 \<or> inode_size fs > block_size fs \<or>
     s_blocks_per_group fs = 0 \<or> s_inodes_per_group fs = 0)"

definition features_ok :: "ext2 \<Rightarrow> bool" where
  "features_ok fs \<longleftrightarrow> \<not> (s_rev_level fs \<ge> 1 \<and> s_feature_incompat fs AND NOT 2 \<noteq> 0)"

definition only_readable :: "ext2 \<Rightarrow> bool" where
  "only_readable fs \<longleftrightarrow> s_rev_level fs \<ge> 1 \<and> s_feature_ro_compat fs AND NOT 3 \<noteq> 0"

definition set_geometry :: "ext2 \<Rightarrow> ext2" where
  "set_geometry fs =
     (let ro = only_readable fs; fs = (if s_rev_level fs = 0 then set_super 84 4 (11 :: u32) fs else fs) in
      fs\<lparr>fs_read_only := ro, addr_per_block := block_size fs div 4,
        ngroups := (s_blocks_count fs - s_first_data_block fs + s_blocks_per_group fs - 1) div s_blocks_per_group fs\<rparr>)"

section \<open>The table of group descriptors\<close>

definition gd_blocks :: "ext2 \<Rightarrow> u32" where
  "gd_blocks fs = of_nat ((unat (ngroups fs) * 32 + unat (block_size fs) - 1) div unat (block_size fs))"

text \<open>The loop that reads the table. The offset is a product of 32 bits, as the size of the allocation is.\<close>

primrec read_gdt :: "nat \<Rightarrow> u32 \<Rightarrow> ext2 \<Rightarrow> (errno + ext2) ext2_result" where
  "read_gdt 0 i fs = Inr (Inr fs)"
| "read_gdt (Suc rest) i fs =
     (case fs_bread fs (s_first_data_block fs + 1 + i) of
        None \<Rightarrow> Inr (Inl EIO)
      | Some bytes \<Rightarrow>
          (let at = unat (i * block_size fs) in
           if at + unat (block_size fs) > length (gdt fs) then Inl Outside_table
           else read_gdt rest (i + 1) (fs\<lparr>gdt := splice at (take (unat (block_size fs)) bytes) (gdt fs)\<rparr>)))"

section \<open>Mounting\<close>

text \<open>
  \<open>device\<close> is the device with its blocks, if there is one, \<open>sb\<close> the two sectors of the superblock, if they can be read,
  and \<open>table_memory\<close> says whether \<^verbatim>\<open>kmalloc\<close> has that many bytes for the table; it never has no bytes. A shift by 32 or more is \<open>None\<close>: C leaves it open.
\<close>

definition finish_mount :: "ext2 \<Rightarrow> (errno + ext2 \<times> ext2_node) ext2_result" where
  "finish_mount fs =
     andthen (read_inode 2 fs) (\<lambda>root.
       case root of
         None \<Rightarrow> Inr (Inl EIO)
       | Some x \<Rightarrow>
           if \<not> S_ISDIR (e_mode x) then Inr (Inl EIO)
           else if fs_read_only fs then Inr (Inr (fs, x))
           else Inr (Inr (snd (write_super (set_super 44 4 (ucast (clock fs) :: u32) (set_super 52 2 (s_mnt_count fs + 1) fs))), x)))"

definition load_table :: "(nat \<Rightarrow> bool) \<Rightarrow> ext2 \<Rightarrow> (errno + ext2) ext2_result" where
  "load_table table_memory fs =
     (let n = unat (gd_blocks fs * block_size fs) in
      if n = 0 \<or> \<not> table_memory n then Inr (Inl ENOMEM) else read_gdt (unat (gd_blocks fs)) 0 (fs\<lparr>gdt := replicate n 0\<rparr>))"

definition ext2_mount :: "(nat \<Rightarrow> bool) \<Rightarrow> ext2 option \<Rightarrow> u8 list option \<Rightarrow> (errno + ext2 \<times> ext2_node) ext2_result option" where
  "ext2_mount table_memory device sb =
     (case device of
        None \<Rightarrow> Some (Inr (Inl ENXIO))
      | Some fs \<Rightarrow>
          if \<not> has_memory fs then Some (Inr (Inl ENOMEM))
          else
            (case sb of
               None \<Rightarrow> Some (Inr (Inl EIO))
             | Some s \<Rightarrow>
                 (let fs = fs\<lparr>super := s\<rparr> in
                  if s_magic fs \<noteq> 0xEF53 then Some (Inr (Inl EINVAL))
                  else if s_log_block_size fs \<ge> 32 then None
                  else
                    (let fs = set_sizes fs in
                     if \<not> sizes_ok fs \<or> \<not> features_ok fs then Some (Inr (Inl EINVAL))
                     else
                       Some (andthen (load_table table_memory (set_geometry fs)) (\<lambda>r.
                         case r of Inl e \<Rightarrow> Inr (Inl e) | Inr fs \<Rightarrow> finish_mount fs))))))"

section \<open>What a mount establishes\<close>

lemma block_sizes:
  fixes lg :: u32
  assumes "lg < 32" "push_bit (unat lg) 1024 \<le> (4096 :: u32)" "push_bit (unat lg) 1024 \<noteq> (0 :: u32)"
  shows "push_bit (unat lg) (1024 :: u32) \<in> {1024, 2048, 4096}"
proof -
  have "list_all (\<lambda>n. push_bit n (1024 :: u32) \<le> 4096 \<and> push_bit n (1024 :: u32) \<noteq> 0 \<longrightarrow> push_bit n (1024 :: u32) \<in> {1024, 2048, 4096}) [0..<32]"
    by code_simp
  moreover have "unat lg \<in> set [0..<32]" using assms(1) by (simp add: word_less_nat_alt)
  ultimately show ?thesis using assms(2,3) by (auto simp: list_all_iff)
qed

lemma gdt_update [simp]:
  "s_first_data_block (fs\<lparr>gdt := t\<rparr>) = s_first_data_block fs" "fs_bread (fs\<lparr>gdt := t\<rparr>) = fs_bread fs"
  by (simp_all add: s_first_data_block_def fs_bread_def s_blocks_count_def fun_eq_iff)

lemma read_gdt_ok:
  assumes "read_gdt n i fs = Inr (Inr fs')" "unat i * unat (block_size fs) \<le> length (gdt fs)" "length (gdt fs) < 2 ^ 32"
    "0 < unat (block_size fs)" "\<And>b. length (blocks fs b) = unat (block_size fs)"
  shows "\<exists>t. fs' = fs\<lparr>gdt := t\<rparr> \<and> length t = length (gdt fs) \<and> (unat i + n) * unat (block_size fs) \<le> length t \<and>
    take (unat i * unat (block_size fs)) t = take (unat i * unat (block_size fs)) (gdt fs) \<and>
    (\<forall>j<n. take (unat (block_size fs)) (drop ((unat i + j) * unat (block_size fs)) t) = blocks fs (s_first_data_block fs + 1 + i + of_nat j))"
  using assms
proof (induction n arbitrary: i fs)
  case 0
  then show ?case by (intro exI[of _ "gdt fs"]) simp
next
  case (Suc n)
  let ?bs = "unat (block_size fs)" and ?b = "s_first_data_block fs + 1 + i"
  have at: "unat (i * block_size fs) = unat i * ?bs" using Suc.prems(2,3) by (simp add: unat_mult_lem[THEN iffD1])
  obtain bytes where b: "fs_bread fs ?b = Some bytes" using Suc.prems(1) by (auto split: option.splits)
  then have bytes: "bytes = blocks fs ?b" by (simp add: fs_bread_def split: if_splits)
  let ?fs = "fs\<lparr>gdt := splice (unat i * ?bs) bytes (gdt fs)\<rparr>"
  from Suc.prems(1) b at Suc.prems(5) bytes have fits: "unat i * ?bs + ?bs \<le> length (gdt fs)" and r: "read_gdt n (i + 1) ?fs = Inr (Inr fs')"
    by (simp_all add: Let_def split: if_splits)
  have "unat i + 1 \<le> (unat i + 1) * ?bs" using Suc.prems(4) mult_le_mono2[of 1 ?bs "unat i + 1"] by simp
  then have "unat i + 1 < 2 ^ 32" using fits Suc.prems(3) by (simp add: algebra_simps)
  then have i: "unat (i + 1) = unat i + 1" by (simp add: unat_word_ariths)
  have l: "length (gdt ?fs) = length (gdt fs)" using fits Suc.prems(5) bytes by simp
  obtain t where t: "fs' = ?fs\<lparr>gdt := t\<rparr>" "length t = length (gdt fs)" "(unat i + 1 + n) * ?bs \<le> length t"
    "take ((unat i + 1) * ?bs) t = take ((unat i + 1) * ?bs) (gdt ?fs)"
    "\<forall>j<n. take ?bs (drop ((unat i + 1 + j) * ?bs) t) = blocks fs (s_first_data_block fs + 1 + (i + 1) + of_nat j)"
    using Suc.IH[OF r] l i fits Suc.prems(3-5) by (auto simp: algebra_simps)
  have first: "take ?bs (drop (unat i * ?bs) t) = blocks fs ?b"
  proof -
    have "take ?bs (drop (unat i * ?bs) t) = drop (unat i * ?bs) (take ((unat i + 1) * ?bs) t)" by (simp add: drop_take)
    also have "\<dots> = take ?bs (drop (unat i * ?bs) (gdt ?fs))" by (simp only: t(4)) (simp add: drop_take)
    also have "\<dots> = blocks fs ?b" using fits Suc.prems(5) by (simp add: bytes splice_def min_def)
    finally show ?thesis .
  qed
  have "take (unat i * ?bs) t = take (unat i * ?bs) (take ((unat i + 1) * ?bs) t)" by (simp add: min_def)
  also have "\<dots> = take (unat i * ?bs) (gdt fs)" using fits by (simp only: t(4)) (simp add: splice_def min_def)
  finally have pre: "take (unat i * ?bs) t = take (unat i * ?bs) (gdt fs)" .
  have all: "take ?bs (drop ((unat i + j) * ?bs) t) = blocks fs (?b + of_nat j)" if "j < Suc n" for j
  proof (cases j)
    case 0
    then show ?thesis using first by simp
  next
    case (Suc k)
    then show ?thesis using t(5) that by (auto simp: algebra_simps)
  qed
  show ?case using t(1-3) pre all by (intro exI[of _ t]) (simp add: algebra_simps)
qed

lemma round_up: "0 < b \<Longrightarrow> x \<le> (x + b - 1) div b * b" for x b :: nat
  using dividend_less_times_div[of b "x + b - 1"] by (simp add: mult.commute)

lemma read_gdt_keeps: "read_gdt n i fs = Inr (Inr fs') \<Longrightarrow> block_size fs' = block_size fs \<and> super fs' = super fs"
  by (induction n arbitrary: i fs) (auto simp: Let_def split: option.splits if_splits)

lemma load_table_ok:
  assumes "load_table mem fs = Inr (Inr fs')" "block_size fs \<in> {1024, 2048, 4096}" "\<And>b. length (blocks fs b) = unat (block_size fs)"
  shows "\<exists>t. fs' = fs\<lparr>gdt := t\<rparr> \<and> 32 * unat (ngroups fs) \<le> length t \<and>
    (\<forall>g<unat (ngroups fs). take 32 (drop (32 * g) t) =
       take 32 (drop (32 * g mod unat (block_size fs)) (blocks fs (s_first_data_block fs + 1 + of_nat (32 * g div unat (block_size fs))))))"
proof -
  let ?bs = "unat (block_size fs)" and ?n = "(unat (ngroups fs) * 32 + unat (block_size fs) - 1) div unat (block_size fs)"
  have bs: "?bs = 1024 \<or> ?bs = 2048 \<or> ?bs = 4096" using assms(2) by auto
  then have pos: "0 < ?bs" "32 dvd ?bs" by auto
  have ng: "unat (ngroups fs) < 2 ^ 32" by (rule unat_lt_32)
  have "?n < 2 ^ 32" using bs ng by (auto simp: div_less_iff_less_mult)
  then have gd: "unat (gd_blocks fs) = ?n" by (simp add: gd_blocks_def unat_of_nat take_bit_nat_eq_self)
  let ?L = "unat (gd_blocks fs * block_size fs)"
  have r: "read_gdt ?n 0 (fs\<lparr>gdt := replicate ?L 0\<rparr>) = Inr (Inr fs')"
    using assms(1) by (simp add: load_table_def gd Let_def split: if_splits)
  have L: "?L < 2 ^ 32" by (rule unat_lt_32)
  obtain t where t: "fs' = fs\<lparr>gdt := t\<rparr>" "?n * ?bs \<le> length t"
    "\<forall>j<?n. take ?bs (drop (j * ?bs) t) = blocks fs (s_first_data_block fs + 1 + of_nat j)"
    using read_gdt_ok[OF r] L pos(1) assms(3) by auto
  have enough: "unat (ngroups fs) * 32 \<le> ?n * ?bs"
    using round_up[OF pos(1)] .
  have "take 32 (drop (32 * g) t) = take 32 (drop (32 * g mod ?bs) (blocks fs (s_first_data_block fs + 1 + of_nat (32 * g div ?bs))))"
    if g: "g < unat (ngroups fs)" for g
  proof -
    let ?j = "32 * g div ?bs"
    have "32 * g < ?n * ?bs" using g enough by simp
    then have j: "?j < ?n" using pos(1) by (simp add: div_less_iff_less_mult)
    have fit: "32 * g mod ?bs + 32 \<le> ?bs"
    proof -
      obtain k where k: "?bs = 32 * k" using pos(2) by (elim dvdE)
      then have "g mod k < k" using pos(1) by simp
      then show ?thesis by (simp add: k mult_mod_right[symmetric])
    qed
    have "take 32 (drop (32 * g mod ?bs) (take ?bs (drop (?j * ?bs) t))) = take 32 (drop (?j * ?bs + 32 * g mod ?bs) t)"
      using fit by (simp add: drop_take min_def add.commute)
    then show ?thesis using t(3) j by (simp add: add.commute[of "?j * ?bs"])
  qed
  then show ?thesis using t(1,2) enough by (intro exI[of _ t]) auto
qed

lemma write_super_keeps:
  "block_size (snd (write_super fs)) = block_size fs" "inode_size (snd (write_super fs)) = inode_size fs"
  "addr_per_block (snd (write_super fs)) = addr_per_block fs" "ngroups (snd (write_super fs)) = ngroups fs" "gdt (snd (write_super fs)) = gdt fs"
  "fs_read_only (snd (write_super fs)) = fs_read_only fs"
  by (simp_all add: write_super_def set_super_def put_block_def Let_def)

lemma set_super_keeps [simp]:
  "block_size (set_super a n v fs) = block_size fs" "inode_size (set_super a n v fs) = inode_size fs" "addr_per_block (set_super a n v fs) = addr_per_block fs"
  "ngroups (set_super a n v fs) = ngroups fs" "gdt (set_super a n v fs) = gdt fs" "blocks (set_super a n v fs) = blocks fs"
  "fs_read_only (set_super a n v fs) = fs_read_only fs" "clock (set_super a n v fs) = clock fs"
  by (simp_all add: set_super_def)

lemma super_of_put [simp]: "super (put_block b bytes fs) = super fs" by (simp add: put_block_def)

lemma field_of_super: "at + n \<le> a \<or> a + k \<le> at \<Longrightarrow> a + k \<le> length (super fs) \<Longrightarrow> field at n (super (set_super a k v fs)) = field at n (super fs)"
  by (simp add: set_super_def field_other)

lemma length_super [simp]: "a + k \<le> length (super fs) \<Longrightarrow> length (super (set_super a k v fs)) = length (super fs)"
  by (simp add: set_super_def)

lemma write_super_field:
  "at + n \<le> 48 \<or> 52 \<le> at \<Longrightarrow> 52 \<le> length (super fs) \<Longrightarrow> field at n (super (snd (write_super fs))) = field at n (super fs)"
  by (auto simp: write_super_def Let_def field_of_super)

lemma finish_mount_ok:
  assumes "finish_mount fs = Inr (Inr (fs', x))" "length (super fs) = 1024"
  shows "block_size fs' = block_size fs \<and> inode_size fs' = inode_size fs \<and> addr_per_block fs' = addr_per_block fs \<and> ngroups fs' = ngroups fs \<and> gdt fs' = gdt fs \<and>
    s_blocks_per_group fs' = s_blocks_per_group fs \<and> s_inodes_per_group fs' = s_inodes_per_group fs \<and>
    s_first_data_block fs' = s_first_data_block fs \<and> fs_read_only fs' = fs_read_only fs \<and> s_mnt_count fs' = s_mnt_count fs + (if fs_read_only fs then 0 else 1) \<and> read_inode 2 fs = Inr (Some x) \<and> S_ISDIR (e_mode x)"
proof -
  obtain r where r: "read_inode 2 fs = Inr r" using assms(1) by (auto simp: finish_mount_def andthen_Inr)
  then have rx: "r = Some x" and d: "S_ISDIR (e_mode x)"
    and fs': "fs' = (if fs_read_only fs then fs else snd (write_super (set_super 44 4 (ucast (clock fs) :: u32) (set_super 52 2 (s_mnt_count fs + 1) fs))))"
    using assms(1) by (auto simp: finish_mount_def split: option.splits if_splits)
  have c: "field 52 2 (super (set_super 52 2 (s_mnt_count fs + 1) fs)) = s_mnt_count fs + 1"
    using assms(2) by (simp add: set_super_def field_same)
  show ?thesis
    using r rx d c assms(2)
    by (simp add: fs' write_super_keeps s_first_data_block_def s_blocks_per_group_def s_inodes_per_group_def s_mnt_count_def write_super_field field_of_super)
qed

lemma set_geometry_keeps:
  assumes "length (super fs) = 1024"
  shows "block_size (set_geometry fs) = block_size fs" "inode_size (set_geometry fs) = inode_size fs" "blocks (set_geometry fs) = blocks fs"
    "addr_per_block (set_geometry fs) = block_size fs div 4" "length (super (set_geometry fs)) = 1024"
    "at + n \<le> 84 \<Longrightarrow> field at n (super (set_geometry fs)) = field at n (super fs)"
  using assms by (simp_all add: set_geometry_def Let_def field_of_super)

lemma ext2_mount_parts:
  assumes "ext2_mount mem (Some dev) (Some s) = Some (Inr (Inr (fs, x)))"
  obtains fs1 where "s_log_block_size (dev\<lparr>super := s\<rparr>) < 32" "sizes_ok (set_sizes (dev\<lparr>super := s\<rparr>))"
    "load_table mem (set_geometry (set_sizes (dev\<lparr>super := s\<rparr>))) = Inr (Inr fs1)" "finish_mount fs1 = Inr (Inr (fs, x))"
proof -
  let ?d = "set_sizes (dev\<lparr>super := s\<rparr>)"
  have a: "has_memory dev" "\<not> s_log_block_size (dev\<lparr>super := s\<rparr>) \<ge> 32" "sizes_ok ?d"
    "andthen (load_table mem (set_geometry ?d)) (\<lambda>r. case r of Inl e \<Rightarrow> Inr (Inl e) | Inr fs \<Rightarrow> finish_mount fs) = Inr (Inr (fs, x))"
    using assms by (simp_all add: ext2_mount_def Let_def split: if_splits)
  from a(4) obtain r where r: "load_table mem (set_geometry ?d) = Inr r" "(case r of Inl e \<Rightarrow> Inr (Inl e) | Inr fs \<Rightarrow> finish_mount fs) = Inr (Inr (fs, x))"
    by (auto simp: andthen_Inr)
  then obtain fs1 where "r = Inr fs1" by (cases r) auto
  with r a that[of fs1] show thesis by (simp add: not_le)
qed

text \<open>
  C15. A file system that \<^verbatim>\<open>ext2_mount\<close> has accepted has blocks of 1024, 2048 or 4096 bytes and inodes that are not larger, no
  divisor that is zero, a descriptor in the table for each of its groups, which is the one on the disk, and a root that
  is a directory; the mount count is one higher unless it is mounted for reading only.
\<close>

theorem ext2_mount_establishes:
  assumes "ext2_mount mem (Some dev) (Some s) = Some (Inr (Inr (fs, x)))" "length s = 1024" "\<forall>b. length (blocks dev b) = unat (block_size fs)"
  shows "block_size fs \<in> {1024, 2048, 4096} \<and> addr_per_block fs = block_size fs div 4 \<and> 128 \<le> inode_size fs \<and> inode_size fs \<le> block_size fs \<and>
    s_blocks_per_group fs \<noteq> 0 \<and> s_inodes_per_group fs \<noteq> 0 \<and>
    (\<forall>g<ngroups fs. find_group g fs = Inr (group_at g fs) \<and>
       take 32 (drop (32 * unat g) (gdt fs)) = take 32 (drop (32 * unat g mod unat (block_size fs))
         (blocks dev (s_first_data_block fs + 1 + of_nat (32 * unat g div unat (block_size fs)))))) \<and>
    S_ISDIR (e_mode x) \<and> e_ino x = 2 \<and> s_mnt_count fs = field 52 2 s + (if fs_read_only fs then 0 else 1)"
proof -
  let ?d = "set_sizes (dev\<lparr>super := s\<rparr>)"
  obtain fs1 where m: "s_log_block_size (dev\<lparr>super := s\<rparr>) < 32" "sizes_ok ?d"
    "load_table mem (set_geometry ?d) = Inr (Inr fs1)" "finish_mount fs1 = Inr (Inr (fs, x))"
    by (rule ext2_mount_parts[OF assms(1)])
  have l: "length (super ?d) = 1024" using assms(2) by (simp add: set_sizes_def)
  note G = set_geometry_keeps[OF l]
  have d: "blocks ?d = blocks dev" "super ?d = s" by (simp_all add: set_sizes_def)
  have "block_size ?d \<noteq> 0" using m(2) by (auto simp: sizes_ok_def word_le_nat_alt word_less_nat_alt)
  then have bs: "block_size ?d \<in> {1024, 2048, 4096}"
    using block_sizes[OF m(1)] m(2) by (simp add: sizes_ok_def set_sizes_def not_less)
  have keep: "block_size fs1 = block_size ?d \<and> super fs1 = super (set_geometry ?d)"
    using m(3) by (auto simp: load_table_def Let_def G split: if_splits dest!: read_gdt_keeps)
  have l1: "length (super fs1) = 1024" using keep G(5) by simp
  note F = finish_mount_ok[OF m(4) l1]
  have "unat (block_size fs) = unat (block_size ?d)" using F keep by simp
  then obtain t where t: "fs1 = set_geometry ?d\<lparr>gdt := t\<rparr>" "32 * unat (ngroups (set_geometry ?d)) \<le> length t"
    "\<forall>g<unat (ngroups (set_geometry ?d)). take 32 (drop (32 * g) t) =
       take 32 (drop (32 * g mod unat (block_size ?d)) (blocks dev (s_first_data_block (set_geometry ?d) + 1 + of_nat (32 * g div unat (block_size ?d)))))"
    using load_table_ok[OF m(3)] bs assms(3) by (auto simp: G d)
  have groups: "find_group g fs = Inr (group_at g fs) \<and>
       take 32 (drop (32 * unat g) (gdt fs)) = take 32 (drop (32 * unat g mod unat (block_size fs))
         (blocks dev (s_first_data_block fs + 1 + of_nat (32 * unat g div unat (block_size fs)))))" if "g < ngroups fs" for g
  proof -
    have g: "unat g < unat (ngroups (set_geometry ?d))" using that F t(1) by (simp add: word_less_nat_alt)
    then have "32 * unat g + 32 \<le> length (gdt fs)" using t(2) F t(1) by simp
    moreover have "s_first_data_block fs = s_first_data_block (set_geometry ?d)" using F t(1) by simp
    ultimately show ?thesis using t(3) g F t(1) by (simp add: find_group_def G)
  qed
  have sz: "s_blocks_per_group fs = s_blocks_per_group ?d" "s_inodes_per_group fs = s_inodes_per_group ?d" "s_mnt_count fs1 = field 52 2 s"
    using F keep by (simp_all add: s_blocks_per_group_def s_inodes_per_group_def s_mnt_count_def G d)
  have "e_ino x = 2" using F by (auto simp: read_inode_def andthen_Inr Let_def split: if_splits option.splits prod.splits)
  then show ?thesis using F bs groups sz m(2) t(1) by (simp add: G sizes_ok_def not_less)
qed

definition sample_super :: "u8 list \<Rightarrow> u8 list \<Rightarrow> u8 list" where
  "sample_super nblk bpg =
     [32, 0, 0, 0] @ nblk @ [0, 0, 0, 0, 11, 0, 0, 0, 21, 0, 0, 0, 1, 0, 0, 0, 0, 0, 0, 0, 0, 0, 0, 0] @
     bpg @ [0, 0x20, 0, 0, 32, 0, 0, 0] @ replicate 12 0 @ [0x53, 0xEF] @ replicate 966 0"

definition sample_device :: ext2 where
  "sample_device = sample_fs\<lparr>gdt := [], block_size := 0, ngroups := 0, inode_size := 0, addr_per_block := 0,
     blocks := (\<lambda>b. if b = 2 then [3, 0, 0, 0, 4, 0, 0, 0, 5, 0, 0, 0, 11, 0, 21, 0, 2, 0] @ replicate 1006 0
       else if b = 5 then replicate 128 0 @ [0xED, 0x41] @ replicate 894 0 else replicate 1024 0)\<rparr>"

lemma of_bytes_zeros [simp]: "of_bytes (replicate n 0) = 0"
  by (induction n) simp_all

lemma sample_super_fields:
  assumes "length nblk = 4" "length bpg = 4"
  shows "length (sample_super nblk bpg) = 1024" "field 0 4 (sample_super nblk bpg) = (32 :: u32)" "field 4 4 (sample_super nblk bpg) = (of_bytes nblk :: u32)"
    "field 20 4 (sample_super nblk bpg) = (1 :: u32)" "field 24 4 (sample_super nblk bpg) = (0 :: u32)" "field 32 4 (sample_super nblk bpg) = (of_bytes bpg :: u32)"
    "field 40 4 (sample_super nblk bpg) = (32 :: u32)" "field 52 2 (sample_super nblk bpg) = (0 :: u16)"
    "field 56 2 (sample_super nblk bpg) = (0xEF53 :: u16)" "field 76 4 (sample_super nblk bpg) = (0 :: u32)"
  using assms by (simp_all add: sample_super_def field_def nth_append)

lemma sample_mount:
  "\<exists>fs. ext2_mount (\<lambda>_. True) (Some sample_device) (Some (sample_super [16, 0, 0, 0] [0, 0x20, 0, 0])) =
     Some (Inr (Inr (fs, \<lparr>e_ino = 2, e_mode = 0x41ED, e_uid = 0, e_gid = 0, e_nlink = 0, e_size = 0, e_atime = 0, e_mtime = 0, e_ctime = 0,
       raw = [0xED, 0x41] @ replicate 126 0\<rparr>))) \<and> block_size fs = 1024"
proof -
  define s where "s = sample_super [16, 0, 0, 0] [0, 0x20, 0, 0]"
  note F = sample_super_fields[of "[16, 0, 0, 0]" "[0, 0x20, 0, 0]", folded s_def, simplified]
  let ?fs = "set_geometry (set_sizes (sample_device\<lparr>super := s\<rparr>))"
  have g: "block_size ?fs = 1024" "ngroups ?fs = 1" "inode_size ?fs = 128" "blocks ?fs = blocks sample_device" "fs_read_only ?fs = False" "has_memory ?fs" "unreadable ?fs = (\<lambda>_. False)" "clock ?fs = 0"
    "s_first_data_block ?fs = 1" "s_blocks_count ?fs = 16" "s_inodes_per_group ?fs = 32" "s_inodes_count ?fs = 32" "length (super ?fs) = 1024"
    by (simp_all add: set_geometry_def set_sizes_def set_super_def sample_device_def sample_fs_def only_readable_def s_rev_level_def
        s_log_block_size_def s_first_data_block_def s_blocks_count_def s_blocks_per_group_def s_inodes_per_group_def s_inodes_count_def F field_other)
  let ?t = "blocks sample_device 2"
  have b2: "length ?t = 1024" "length (blocks sample_device 5) = 1024" by (simp_all add: sample_device_def)
  have "read_gdt (Suc 0) 0 (?fs\<lparr>gdt := replicate 1024 0\<rparr>) = Inr (Inr (?fs\<lparr>gdt := ?t\<rparr>))"
    using b2 by (simp add: fs_bread_def g splice_def)
  moreover have "gd_blocks ?fs = 1" by (simp add: gd_blocks_def g)
  ultimately have l: "load_table (\<lambda>_. True) ?fs = Inr (Inr (?fs\<lparr>gdt := ?t\<rparr>))" by (simp add: load_table_def g)
  let ?x = "\<lparr>e_ino = 2, e_mode = 0x41ED, e_uid = 0, e_gid = 0, e_nlink = 0, e_size = 0, e_atime = 0, e_mtime = 0, e_ctime = 0,
       raw = [0xED, 0x41] @ replicate 126 0\<rparr>"
  have "find_group 0 (?fs\<lparr>gdt := ?t\<rparr>) = Inr (group_at 0 (?fs\<lparr>gdt := ?t\<rparr>))" using b2 by (simp add: find_group_def)
  moreover have "bg_inode_table (group_at 0 (?fs\<lparr>gdt := ?t\<rparr>)) = 5" by (simp add: group_at_def sample_device_def field_def)
  ultimately have loc: "inode_location 2 (?fs\<lparr>gdt := ?t\<rparr>) = Inr (5, 128)" using g(1,3,11) by (simp add: inode_location_def s_inodes_per_group_def)
  have r: "take 128 (drop 128 (blocks sample_device 5)) = [0xED, 0x41] @ replicate 126 0" by (simp add: sample_device_def)
  have "read_inode 2 (?fs\<lparr>gdt := ?t\<rparr>) = Inr (Some ?x)"
    using g(4,6,10,12) b2 r loc
    by (simp add: read_inode_def s_inodes_count_def fs_bread_def g(7) Let_def) (simp add: field_def S_ISREG_def)
  then have "\<exists>fs. finish_mount (?fs\<lparr>gdt := ?t\<rparr>) = Inr (Inr (fs, ?x)) \<and> block_size fs = 1024"
    using g(1) by (simp add: finish_mount_def write_super_keeps S_ISDIR_def)
  moreover have "s_magic (sample_device\<lparr>super := s\<rparr>) = 0xEF53" "s_log_block_size (sample_device\<lparr>super := s\<rparr>) = 0" "has_memory sample_device"
    "sizes_ok (set_sizes (sample_device\<lparr>super := s\<rparr>))" "features_ok (set_sizes (sample_device\<lparr>super := s\<rparr>))"
    by (simp_all add: s_magic_def s_log_block_size_def s_rev_level_def features_ok_def sizes_ok_def set_sizes_def s_blocks_per_group_def s_inodes_per_group_def F)
      (simp add: sample_device_def sample_fs_def)
  ultimately show ?thesis using l by (simp add: ext2_mount_def Let_def s_def[symmetric])
qed

lemma ext2_mount_establishes_witness:
  "\<exists>fs x. ext2_mount (\<lambda>_. True) (Some sample_device) (Some (sample_super [16, 0, 0, 0] [0, 0x20, 0, 0])) = Some (Inr (Inr (fs, x))) \<and>
     s_blocks_per_group fs \<noteq> 0 \<and> (\<forall>g<ngroups fs. find_group g fs = Inr (group_at g fs)) \<and> addr_per_block fs = 256"
proof -
  obtain fs x where m: "ext2_mount (\<lambda>_. True) (Some sample_device) (Some (sample_super [16, 0, 0, 0] [0, 0x20, 0, 0])) = Some (Inr (Inr (fs, x)))"
    and b: "block_size fs = 1024" using sample_mount by blast
  have l: "length (sample_super [16, 0, 0, 0] [0, 0x20, 0, 0]) = 1024" by (rule sample_super_fields(1)) simp_all
  have "\<forall>c. length (blocks sample_device c) = unat (block_size fs)" by (simp add: b sample_device_def)
  from ext2_mount_establishes[OF m l this] m b show ?thesis by (intro exI[of _ fs] exI[of _ x]) auto
qed

section \<open>A table that is too large\<close>

lemma read_gdt_overflow:
  assumes "unat i * bs \<le> L" "bs dvd L" "L < (unat i + n) * bs" "L < 2 ^ 32" "bs = unat (block_size fs)" "L = length (gdt fs)" "0 < bs"
    "\<forall>b. length (blocks fs b) = bs" "\<forall>j. unat j * bs \<le> L \<longrightarrow> fs_bread fs (s_first_data_block fs + 1 + j) \<noteq> None"
  shows "read_gdt n i fs = Inl Outside_table"
  using assms
proof (induction n arbitrary: i fs)
  case 0
  then show ?case by simp
next
  case (Suc n)
  have at: "unat (i * block_size fs) = unat i * bs" using Suc.prems(1,4,5) by (simp add: unat_mult_lem[THEN iffD1])
  obtain bytes where b: "fs_bread fs (s_first_data_block fs + 1 + i) = Some bytes" using Suc.prems(1,9) by blast
  then have bytes: "length bytes = bs" using Suc.prems(8) by (auto simp: fs_bread_def split: if_splits)
  show ?case
  proof (cases "unat i * bs + bs \<le> L")
    case True
    have "unat i + 1 \<le> (unat i + 1) * bs" using Suc.prems(7) mult_le_mono2[of 1 bs "unat i + 1"] by simp
    then have "unat i + 1 < 2 ^ 32" using True Suc.prems(4) by (simp add: algebra_simps)
    then have i: "unat (i + 1) = unat i + 1" by (simp add: unat_word_ariths)
    let ?fs = "fs\<lparr>gdt := splice (unat i * bs) bytes (gdt fs)\<rparr>"
    have "read_gdt n (i + 1) ?fs = Inl Outside_table"
    proof (rule Suc.IH)
      show "unat (i + 1) * bs \<le> L" "L < (unat (i + 1) + n) * bs" 
        unfolding i using True Suc.prems(3) by (simp_all add: algebra_simps)
      show "L = length (gdt ?fs)" using True Suc.prems(6) bytes by simp
    qed (use Suc.prems in simp_all)
    then show ?thesis using b at True bytes Suc.prems(5,6) by (simp add: Let_def)
  next
    case False
    then show ?thesis using b at Suc.prems(5,6) by (simp add: Let_def)
  qed
qed

text \<open>
  C26. The size of the table is computed in 32 bits. If it is \<open>2 ^ 32\<close> bytes or more, the allocation is too small, and when
  it succeeds (a size that wraps to 0 is refused by \<^verbatim>\<open>kmalloc\<close>) and the blocks it has room for, and the one after
  them, can be read, \<^verbatim>\<open>ext2_mount\<close> writes beyond its end.
\<close>

theorem large_table_written_outside:
  assumes "2 ^ 32 \<le> unat (gd_blocks fs) * unat (block_size fs)" "block_size fs \<in> {1024, 2048, 4096}"
    "mem (unat (gd_blocks fs * block_size fs))" "gd_blocks fs * block_size fs \<noteq> 0" "\<forall>b. length (blocks fs b) = unat (block_size fs)"
    "\<forall>j. unat j * unat (block_size fs) \<le> unat (gd_blocks fs * block_size fs) \<longrightarrow> fs_bread fs (s_first_data_block fs + 1 + j) \<noteq> None"
  shows "load_table mem fs = Inl Outside_table"
proof -
  let ?bs = "unat (block_size fs)" and ?L = "unat (gd_blocks fs * block_size fs)"
  have pos: "0 < ?bs" and d: "?bs dvd 2 ^ 32" using assms(2) by auto
  have L: "?L = unat (gd_blocks fs) * ?bs mod 2 ^ 32" by (simp add: unat_word_ariths)
  have dvd: "?bs dvd ?L" unfolding L using d by (simp add: dvd_mod)
  have lt: "?L < 2 ^ 32" by (rule unat_lt_32)
  have "read_gdt (unat (gd_blocks fs)) 0 (fs\<lparr>gdt := replicate ?L 0\<rparr>) = Inl Outside_table"
    by (rule read_gdt_overflow[of _ ?bs ?L]) (use pos dvd lt assms(1,5,6) in simp_all)
  then show ?thesis using assms(3,4) by (simp add: load_table_def Let_def unat_eq_0)
qed

definition large_fs :: ext2 where
  "large_fs = set_geometry (set_sizes (sample_device\<lparr>super := sample_super [10, 0, 0, 8] [1, 0, 0, 0]\<rparr>))"

lemma large_table_written_outside_witness: "load_table (\<lambda>_. True) large_fs = Inl Outside_table"
proof -
  define s where "s = sample_super [10, 0, 0, 8] [1, 0, 0, 0]"
  note F = sample_super_fields[of "[10, 0, 0, 8]" "[1, 0, 0, 0]", folded s_def, simplified]
  have g: "block_size large_fs = 1024" "ngroups large_fs = 0x8000009" "blocks large_fs = blocks sample_device" "unreadable large_fs = (\<lambda>_. False)"
    "s_first_data_block large_fs = 1" "s_blocks_count large_fs = 0x800000A"
    by (simp_all add: large_fs_def s_def[symmetric] set_geometry_def set_sizes_def set_super_def sample_device_def sample_fs_def only_readable_def s_rev_level_def
        s_log_block_size_def s_first_data_block_def s_blocks_count_def s_blocks_per_group_def F field_other)
  have gd: "gd_blocks large_fs = 0x400001" by (simp add: gd_blocks_def g)
  have r: "fs_bread large_fs (s_first_data_block large_fs + 1 + j) \<noteq> None" if "unat j * 1024 \<le> 1024" for j
  proof -
    have "unat j \<le> 1" using that by simp
    then have "unat j = unat (0 :: u32) \<or> unat j = unat (1 :: u32)" by simp linarith
    then have "j = 0 \<or> j = 1" by (simp only: word_unat_eq_iff)
    then show ?thesis by (auto simp: fs_bread_def g)
  qed
  show ?thesis
    by (rule large_table_written_outside) (use r in \<open>simp_all add: g gd, simp_all add: sample_device_def\<close>)
qed

end
