(* ===== verification/Ext2_Names.thy ===== *)
theory Ext2_Names
  imports Ext2_Mount
begin

text \<open>
  The inodes of \<^verbatim>\<open>kernel/fs/ext2.c\<close> in memory and the operations on names that the file tree calls: creation, removal
  and renaming. An inode in memory stands under its number, with its count of references; the operations keep
  these counts exact on every path, errors included.
\<close>

section \<open>Inodes in memory\<close>

record ext2_mem =
  efs :: ext2
  icache :: "u32 \<Rightarrow> ext2_node option"
  refs :: "u32 \<Rightarrow> nat"

datatype name_error = In_fs ext2_error | Freed_inode

type_synonym 'a name_result = "name_error + 'a"

definition in_fs :: "'a ext2_result \<Rightarrow> 'a name_result" where
  "in_fs r = (case r of Inl e \<Rightarrow> Inl (In_fs e) | Inr x \<Rightarrow> Inr x)"

definition node_at :: "u32 \<Rightarrow> ext2_mem \<Rightarrow> ext2_node name_result" where
  "node_at i m = (case icache m i of None \<Rightarrow> Inl Freed_inode | Some x \<Rightarrow> Inr x)"

definition set_node :: "u32 \<Rightarrow> ext2_node \<Rightarrow> ext2_mem \<Rightarrow> ext2_mem" where
  "set_node i x m = m\<lparr>icache := (icache m)(i \<mapsto> x)\<rparr>"

text \<open>An operation on one inode and the disk.\<close>

definition on_node :: "u32 \<Rightarrow> (ext2_node \<Rightarrow> ext2 \<Rightarrow> ('a \<times> ext2_node \<times> ext2) ext2_result) \<Rightarrow> ext2_mem \<Rightarrow> ('a \<times> ext2_mem) name_result" where
  "on_node i f m =
     andthen (node_at i m) (\<lambda>x. andthen (in_fs (f x (efs m))) (\<lambda>(r, x, fs). Inr (r, set_node i x (m\<lparr>efs := fs\<rparr>))))"

text \<open>Changing fields of an inode and writing it; the result of \<^verbatim>\<open>write_inode\<close> is not looked at.\<close>

definition change_node :: "u32 \<Rightarrow> (ext2_node \<Rightarrow> ext2_node) \<Rightarrow> ext2_mem \<Rightarrow> (unit \<times> ext2_mem) name_result" where
  "change_node i f m = on_node i (\<lambda>x fs. andthen (write_inode (f x) fs) (\<lambda>(_, x, fs). Inr ((), x, fs))) m"

definition ext2_iget :: "u32 \<Rightarrow> ext2_mem \<Rightarrow> (u32 option \<times> ext2_mem) name_result" where
  "ext2_iget i m =
     (if i < 1 \<or> i > s_inodes_count (efs m) then Inr (None, m)
      else
        (case icache m i of
           Some _ \<Rightarrow> Inr (Some i, m\<lparr>refs := (refs m)(i := refs m i + 1)\<rparr>)
         | None \<Rightarrow>
             andthen (in_fs (read_inode i (efs m))) (\<lambda>r.
               case r of
                 None \<Rightarrow> Inr (None, m)
               | Some x \<Rightarrow> Inr (Some i, set_node i x (m\<lparr>refs := (refs m)(i := 1)\<rparr>)))))"

text \<open>An inode without names gives its blocks and its number back when nobody uses it any more.\<close>

definition ext2_free_inode :: "u32 \<Rightarrow> ext2_mem \<Rightarrow> (unit \<times> ext2_mem) name_result" where
  "ext2_free_inode i m =
     andthen (node_at i m) (\<lambda>x.
       (let m = m\<lparr>icache := (icache m)(i := None)\<rparr>; fs = efs m; is_dir = S_ISDIR (e_mode x) in
        if e_nlink x = 0 \<and> \<not> fs_read_only fs
        then
          andthen (if S_ISREG (e_mode x) \<or> is_dir then in_fs (ext2_truncate x 0 fs) else Inr (None, x, fs)) (\<lambda>(_, x, fs).
          andthen (in_fs (write_inode (x\<lparr>raw := set_raw 20 4 (ucast (clock fs) :: u32) (raw x)\<rparr>) fs)) (\<lambda>(_, x, fs).
          andthen (in_fs (free_inode_nr (ucast (e_ino x)) is_dir fs)) (\<lambda>fs.
            Inr ((), m\<lparr>efs := fs\<rparr>))))
        else Inr ((), m)))"

definition put_inode :: "u32 \<Rightarrow> ext2_mem \<Rightarrow> (unit \<times> ext2_mem) name_result" where
  "put_inode i m =
     (if refs m i = 0 then Inl Freed_inode
      else
        (let m = m\<lparr>refs := (refs m)(i := refs m i - 1)\<rparr>
         in if refs m i = 0 then ext2_free_inode i m else Inr ((), m)))"

definition ext2_lookup :: "u32 \<Rightarrow> u8 list \<Rightarrow> ext2_mem \<Rightarrow> (u32 option \<times> ext2_mem) name_result" where
  "ext2_lookup d name m =
     andthen (node_at d m) (\<lambda>x. andthen (in_fs (dir_find x name (efs m))) (\<lambda>nr.
       if nr \<noteq> 0 then ext2_iget nr m else Inr (None, m)))"

section \<open>Creating\<close>

definition clear_inode :: "u32 \<Rightarrow> ext2 \<Rightarrow> ext2 ext2_result" where
  "clear_inode nr fs =
     andthen (inode_location nr fs) (\<lambda>(b, off).
       case fs_bread fs b of
         None \<Rightarrow> Inr fs
       | Some bytes \<Rightarrow>
           (let n = unat (inode_size fs); bytes' = splice off (replicate n 0) bytes in
            if off + n > length bytes \<or> n > 128 \<and> off + 130 > length bytes then Inl Outside_buffer
            else Inr (put_block b (if n > 128 then splice (off + 128) (to_bytes 2 (32 :: u16)) bytes' else bytes') fs)))"

definition new_inode :: "u32 \<Rightarrow> u32 \<Rightarrow> ext2_mem \<Rightarrow> (u32 option \<times> ext2_mem) name_result" where
  "new_inode d md m =
     andthen (node_at d m) (\<lambda>x. andthen (in_fs (alloc_inode_nr (ucast (e_ino x)) (S_ISDIR md) (efs m))) (\<lambda>(nr, fs).
       if nr = 0 then Inr (None, m\<lparr>efs := fs\<rparr>)
       else
         andthen (in_fs (clear_inode nr fs)) (\<lambda>fs.
         andthen (ext2_iget nr (m\<lparr>efs := fs\<rparr>)) (\<lambda>(r, m).
           case r of
             None \<Rightarrow> andthen (in_fs (free_inode_nr nr (S_ISDIR md) (efs m))) (\<lambda>fs. Inr (None, m\<lparr>efs := fs\<rparr>))
           | Some i \<Rightarrow>
               (let t = clock (efs m) in
                andthen (change_node i (\<lambda>x. x\<lparr>e_mode := md, e_nlink := 1, e_size := 0, e_uid := 0, e_gid := 0, e_atime := t, e_mtime := t, e_ctime := t\<rparr>) m)
                  (\<lambda>(_, m). Inr (Some i, m)))))))"

definition set_nlink :: "u32 \<Rightarrow> u32 \<Rightarrow> ext2_mem \<Rightarrow> (unit \<times> ext2_mem) name_result" where
  "set_nlink i n m = on_node i (\<lambda>x fs. Inr ((), x\<lparr>e_nlink := n\<rparr>, fs)) m"

definition ext2_create :: "u32 \<Rightarrow> u8 list \<Rightarrow> u32 \<Rightarrow> ext2_mem \<Rightarrow> ((errno + u32) \<times> ext2_mem) name_result" where
  "ext2_create d name md m =
     andthen (new_inode d md m) (\<lambda>(r, m).
       case r of
         None \<Rightarrow> Inr (Inl ENOSPC, m)
       | Some i \<Rightarrow>
           andthen (on_node d (\<lambda>x. dir_add x name i (mode_to_ft md)) m) (\<lambda>(err, m).
             case err of
               None \<Rightarrow> Inr (Inr i, m)
             | Some e \<Rightarrow> andthen (set_nlink i 0 m) (\<lambda>(_, m). andthen (put_inode i m) (\<lambda>(_, m). Inr (Inl e, m)))))"

definition make_first_block :: "u32 \<Rightarrow> ext2_node \<Rightarrow> ext2 \<Rightarrow> (errno option \<times> ext2_node \<times> ext2) ext2_result" where
  "make_first_block near x fs =
     andthen (bmap x 0 True fs) (\<lambda>(r, x, fs).
       case r of
         Inl e \<Rightarrow> Inr (Some e, x, fs)
       | Inr b \<Rightarrow>
           (case fs_bread fs b of
              None \<Rightarrow> Inr (Some EIO, x, fs)
            | Some bytes \<Rightarrow>
                andthen (write_inode (x\<lparr>e_size := ucast (block_size fs), e_nlink := 2\<rparr>)
                    (put_block b (first_dir_block (ucast (e_ino x)) near (block_size fs) bytes) fs)) (\<lambda>(_, x, fs).
                  Inr (None, x, fs))))"

definition ext2_mkdir :: "u32 \<Rightarrow> u8 list \<Rightarrow> u32 \<Rightarrow> ext2_mem \<Rightarrow> (errno option \<times> ext2_mem) name_result" where
  "ext2_mkdir d name md m =
     andthen (new_inode d md m) (\<lambda>(r, m).
       case r of
         None \<Rightarrow> Inr (Some ENOSPC, m)
       | Some i \<Rightarrow>
           andthen (on_node i (make_first_block d) m) (\<lambda>(err, m).
           andthen (if err = None then on_node d (\<lambda>x. dir_add x name i 2) m else Inr (err, m)) (\<lambda>(err, m).
             case err of
               Some e \<Rightarrow>
                 andthen (on_node i (\<lambda>x. ext2_truncate x 0) m) (\<lambda>(_, m).
                 andthen (set_nlink i 0 m) (\<lambda>(_, m).
                 andthen (put_inode i m) (\<lambda>(_, m). Inr (Some e, m))))
             | None \<Rightarrow>
                 andthen (change_node d (\<lambda>x. x\<lparr>e_nlink := e_nlink x + 1\<rparr>) m) (\<lambda>(_, m).
                 andthen (put_inode i m) (\<lambda>(_, m). Inr (None, m))))))"

section \<open>Removing\<close>

definition ext2_unlink :: "u32 \<Rightarrow> u8 list \<Rightarrow> ext2_mem \<Rightarrow> (errno option \<times> ext2_mem) name_result" where
  "ext2_unlink d name m =
     andthen (ext2_lookup d name m) (\<lambda>(r, m).
       case r of
         None \<Rightarrow> Inr (Some ENOENT, m)
       | Some i \<Rightarrow>
           andthen (on_node d (\<lambda>x. dir_remove x name) m) (\<lambda>(err, m).
           andthen (if err = None then change_node i (\<lambda>x. x\<lparr>e_nlink := e_nlink x - 1, e_ctime := clock (efs m)\<rparr>) m else Inr ((), m)) (\<lambda>(_, m).
           andthen (put_inode i m) (\<lambda>(_, m). Inr (err, m)))))"

definition is_empty_at :: "u32 \<Rightarrow> ext2_mem \<Rightarrow> bool name_result" where
  "is_empty_at i m = andthen (node_at i m) (\<lambda>x. in_fs (dir_is_empty x (efs m)))"

definition ext2_rmdir :: "u32 \<Rightarrow> u8 list \<Rightarrow> ext2_mem \<Rightarrow> (errno option \<times> ext2_mem) name_result" where
  "ext2_rmdir d name m =
     andthen (ext2_lookup d name m) (\<lambda>(r, m).
       case r of
         None \<Rightarrow> Inr (Some ENOENT, m)
       | Some i \<Rightarrow>
           andthen (is_empty_at i m) (\<lambda>empty.
           andthen (if empty then on_node d (\<lambda>x. dir_remove x name) m else Inr (Some ENOTEMPTY, m)) (\<lambda>(err, m).
           andthen (if err = None
                    then andthen (change_node i (\<lambda>x. x\<lparr>e_nlink := 0\<rparr>) m) (\<lambda>(_, m). change_node d (\<lambda>x. x\<lparr>e_nlink := e_nlink x - 1\<rparr>) m)
                    else Inr ((), m)) (\<lambda>(_, m).
           andthen (put_inode i m) (\<lambda>(_, m). Inr (err, m))))))"

section \<open>Renaming\<close>

text \<open>Going up over \<^verbatim>\<open>..\<close>, at most 4096 times.\<close>

primrec is_ancestor_from :: "nat \<Rightarrow> u32 \<Rightarrow> u32 \<Rightarrow> ext2_mem \<Rightarrow> (bool \<times> ext2_mem) name_result" where
  "is_ancestor_from 0 anc i m = Inr (True, m)"
| "is_ancestor_from (Suc guard) anc i m =
     (if i = anc then Inr (True, m)
      else if i = 2 then Inr (False, m)
      else
        andthen (ext2_iget i m) (\<lambda>(r, m).
          case r of
            None \<Rightarrow> Inr (False, m)
          | Some j \<Rightarrow>
              andthen (node_at j m) (\<lambda>x. andthen (in_fs (dir_find x [dot, dot] (efs m))) (\<lambda>up.
              andthen (put_inode j m) (\<lambda>(_, m).
                if up = 0 \<or> up = i then Inr (False, m) else is_ancestor_from guard anc up m)))))"

definition is_ancestor_at :: "u32 \<Rightarrow> u32 \<Rightarrow> ext2_mem \<Rightarrow> (bool \<times> ext2_mem) name_result" where
  "is_ancestor_at anc d m = is_ancestor_from 4096 anc d m"

text \<open>Taking the name away from the target that is replaced.\<close>

definition replace_dst :: "u32 \<Rightarrow> u8 list \<Rightarrow> bool \<Rightarrow> u32 \<Rightarrow> ext2_mem \<Rightarrow> (errno option \<times> ext2_mem) name_result" where
  "replace_dst ndir nname is_dir dst m =
     andthen (node_at dst m) (\<lambda>x.
       if S_ISDIR (e_mode x) \<noteq> is_dir then Inr (Some (if S_ISDIR (e_mode x) then EISDIR else ENOTDIR), m)
       else
         andthen (if is_dir then is_empty_at dst m else Inr True) (\<lambda>empty.
           if \<not> empty then Inr (Some ENOTEMPTY, m)
           else
             andthen (on_node ndir (\<lambda>x. dir_remove x nname) m) (\<lambda>(err, m).
               case err of
                 Some e \<Rightarrow> Inr (Some e, m)
               | None \<Rightarrow>
                   andthen (change_node dst (\<lambda>x. x\<lparr>e_nlink := if is_dir then 0 else e_nlink x - 1\<rparr>) m) (\<lambda>(_, m).
                     if is_dir
                     then andthen (change_node ndir (\<lambda>x. x\<lparr>e_nlink := e_nlink x - 1\<rparr>) m) (\<lambda>(_, m). Inr (None, m))
                     else Inr (None, m)))))"

text \<open>The new name, then the old one, then the entry \<^verbatim>\<open>..\<close> of a directory that has moved.\<close>

definition move_dotdot :: "u32 \<Rightarrow> u32 \<Rightarrow> u32 \<Rightarrow> ext2_mem \<Rightarrow> (unit \<times> ext2_mem) name_result" where
  "move_dotdot src odir ndir m =
     andthen (on_node src (\<lambda>x fs. andthen (dir_iterate (dotdot_visit ndir) x () fs) (\<lambda>(_, _, fs). Inr ((), x, fs))) m) (\<lambda>(_, m).
     andthen (on_node odir (\<lambda>x fs. Inr ((), x\<lparr>e_nlink := e_nlink x - 1\<rparr>, fs)) m) (\<lambda>(_, m).
     andthen (on_node ndir (\<lambda>x fs. Inr ((), x\<lparr>e_nlink := e_nlink x + 1\<rparr>, fs)) m) (\<lambda>(_, m).
     andthen (change_node odir (\<lambda>x. x) m) (\<lambda>(_, m). change_node ndir (\<lambda>x. x) m))))"

definition move_name :: "u32 \<Rightarrow> u8 list \<Rightarrow> u32 \<Rightarrow> u8 list \<Rightarrow> u32 \<Rightarrow> bool \<Rightarrow> ext2_mem \<Rightarrow> (errno option \<times> ext2_mem) name_result" where
  "move_name odir oname ndir nname src is_dir m =
     andthen (node_at src m) (\<lambda>x.
     andthen (on_node ndir (\<lambda>y. dir_add y nname src (mode_to_ft (e_mode x))) m) (\<lambda>(err, m).
       case err of
         Some e \<Rightarrow> Inr (Some e, m)
       | None \<Rightarrow>
           andthen (on_node odir (\<lambda>y. dir_remove y oname) m) (\<lambda>(err, m).
             case err of
               Some e \<Rightarrow> Inr (Some e, m)
             | None \<Rightarrow>
                 andthen (if is_dir \<and> odir \<noteq> ndir then move_dotdot src odir ndir m else Inr ((), m)) (\<lambda>(_, m).
                 andthen (change_node src (\<lambda>x. x\<lparr>e_ctime := clock (efs m)\<rparr>) m) (\<lambda>(_, m). Inr (None, m))))))"

definition replace_and_move :: "u32 \<Rightarrow> u8 list \<Rightarrow> u32 \<Rightarrow> u8 list \<Rightarrow> u32 \<Rightarrow> u32 option \<Rightarrow> bool \<Rightarrow> ext2_mem \<Rightarrow> (errno option \<times> ext2_mem) name_result" where
  "replace_and_move odir oname ndir nname src dst is_dir m =
     andthen (case dst of None \<Rightarrow> Inr (None, m) | Some t \<Rightarrow> replace_dst ndir nname is_dir t m) (\<lambda>(err, m).
       case err of
         Some e \<Rightarrow> Inr (Some e, m)
       | None \<Rightarrow> move_name odir oname ndir nname src is_dir m)"

definition rename_body :: "u32 \<Rightarrow> u8 list \<Rightarrow> u32 \<Rightarrow> u8 list \<Rightarrow> u32 \<Rightarrow> u32 option \<Rightarrow> ext2_mem \<Rightarrow> (errno option \<times> ext2_mem) name_result" where
  "rename_body odir oname ndir nname src dst m =
     andthen (node_at src m) (\<lambda>x.
       if dst = Some src then Inr (None, m)
       else
         andthen (if S_ISDIR (e_mode x) \<and> odir \<noteq> ndir then is_ancestor_at src ndir m else Inr (False, m)) (\<lambda>(inside, m).
           if inside then Inr (Some EINVAL, m)
           else replace_and_move odir oname ndir nname src dst (S_ISDIR (e_mode x)) m))"

definition ext2_rename :: "u32 \<Rightarrow> u8 list \<Rightarrow> u32 \<Rightarrow> u8 list \<Rightarrow> ext2_mem \<Rightarrow> (errno option \<times> ext2_mem) name_result" where
  "ext2_rename odir oname ndir nname m =
     andthen (ext2_lookup odir oname m) (\<lambda>(r, m).
       case r of
         None \<Rightarrow> Inr (Some ENOENT, m)
       | Some src \<Rightarrow>
           andthen (ext2_lookup ndir nname m) (\<lambda>(dst, m).
           andthen (rename_body odir oname ndir nname src dst m) (\<lambda>(err, m).
           andthen (case dst of None \<Rightarrow> Inr ((), m) | Some t \<Rightarrow> put_inode t m) (\<lambda>(_, m).
           andthen (put_inode src m) (\<lambda>(_, m). Inr (err, m))))))"

definition ext2_sync :: "ext2 \<Rightarrow> errno option \<times> ext2" where
  "ext2_sync fs = (if fs_read_only fs then (None, fs) else write_super fs)"

end
