(* ===== verification/Ext2_Balance.thy ===== *)
theory Ext2_Balance
  imports Ext2_Names
begin

text \<open>
  The counts of references under the operations on names. \<open>ends_in\<close> is a condition on the outcome of an operation:
  the inode it works on has not been freed, and the state afterwards satisfies the postcondition; its rules
  follow the sequencing of the operations.
\<close>

section \<open>Conditions on outcomes\<close>

definition mem_ok :: "ext2_mem \<Rightarrow> bool" where
  "mem_ok m \<longleftrightarrow> (\<forall>i. icache m i \<noteq> None \<longleftrightarrow> 0 < refs m i)"

lemma mem_okD: "mem_ok m \<Longrightarrow> icache m i = None \<longleftrightarrow> refs m i = 0"
  unfolding mem_ok_def by (metis bot_nat_0.not_eq_extremum option.simps(3))

definition ends_in :: "('a \<Rightarrow> ext2_mem \<Rightarrow> bool) \<Rightarrow> ('a \<times> ext2_mem) name_result \<Rightarrow> bool" where
  "ends_in P r \<longleftrightarrow> (case r of Inl e \<Rightarrow> e \<noteq> Freed_inode | Inr (a, m) \<Rightarrow> P a m)"

lemma ends_in_simps [simp]: "ends_in P (Inr (a, m)) = P a m" "ends_in P (Inl e) \<longleftrightarrow> e \<noteq> Freed_inode"
  by (simp_all add: ends_in_def)

lemma ends_in_andthen: "ends_in P r \<Longrightarrow> (\<And>a m. P a m \<Longrightarrow> ends_in Q (f (a, m))) \<Longrightarrow> ends_in Q (andthen r f)"
  by (cases r) (auto simp: ends_in_def)

lemma ends_in_in_fs: "(\<And>x. r = Inr x \<Longrightarrow> ends_in Q (f x)) \<Longrightarrow> ends_in Q (andthen (in_fs r) f)"
  by (cases r) (simp_all add: in_fs_def)

lemma ends_in_node:
  assumes "mem_ok m" "0 < refs m i" "\<And>x. icache m i = Some x \<Longrightarrow> ends_in Q (f x)"
  shows "ends_in Q (andthen (node_at i m) f)"
  using assms mem_okD[OF assms(1), of i] by (cases "icache m i") (auto simp: node_at_def)

text \<open>The state has these counts and an inode for each count that is not zero.\<close>

definition counts :: "(u32 \<Rightarrow> nat) \<Rightarrow> 'a \<Rightarrow> ext2_mem \<Rightarrow> bool" where
  "counts rf a m \<longleftrightarrow> mem_ok m \<and> refs m = rf"

lemma counts_efs [simp]: "mem_ok (m\<lparr>efs := fs\<rparr>) = mem_ok m"
  by (simp add: mem_ok_def)

lemma ends_in_on_node: "mem_ok m \<Longrightarrow> 0 < refs m i \<Longrightarrow> ends_in (counts (refs m)) (on_node i f m)"
  unfolding on_node_def
  by (rule ends_in_node, simp, simp) (auto intro!: ends_in_in_fs simp: counts_def mem_ok_def set_node_def)

lemma ends_in_change: "mem_ok m \<Longrightarrow> 0 < refs m i \<Longrightarrow> ends_in (counts (refs m)) (change_node i f m)"
  unfolding change_node_def by (rule ends_in_on_node)

lemma ends_in_set_nlink: "mem_ok m \<Longrightarrow> 0 < refs m i \<Longrightarrow> ends_in (counts (refs m)) (set_nlink i n m)"
  unfolding set_nlink_def by (rule ends_in_on_node)

text \<open>One reference more, if an inode was found.\<close>

definition taken :: "(u32 \<Rightarrow> nat) \<Rightarrow> u32 option \<Rightarrow> ext2_mem \<Rightarrow> bool" where
  "taken rf r m \<longleftrightarrow> mem_ok m \<and> refs m = (case r of None \<Rightarrow> rf | Some i \<Rightarrow> rf(i := rf i + 1))"

lemma ends_in_iget:
  assumes "mem_ok m"
  shows "ends_in (taken (refs m)) (ext2_iget i m)"
proof (cases "icache m i")
  case None
  then have "refs m i = 0" using mem_okD[OF assms] by simp
  then show ?thesis unfolding ext2_iget_def
    using None assms by (auto split: option.splits intro!: ends_in_in_fs simp: taken_def mem_ok_def set_node_def)
next
  case (Some x)
  then show ?thesis using assms by (auto simp: ext2_iget_def taken_def mem_ok_def)
qed

lemma ends_in_free: "mem_ok (m\<lparr>refs := (refs m)(i := Suc 0)\<rparr>) \<Longrightarrow> refs m i = 0 \<Longrightarrow> ends_in (counts (refs m)) (ext2_free_inode i m)"
  unfolding ext2_free_inode_def
proof (cases "icache m i")
  case None
  assume "mem_ok (m\<lparr>refs := (refs m)(i := Suc 0)\<rparr>)"
  then have "icache m i \<noteq> None" by (auto simp: mem_ok_def dest: spec[of _ i])
  with None show "ends_in (counts (refs m)) (andthen (node_at i m) f)" for f by simp
next
  case (Some x)
  assume a: "mem_ok (m\<lparr>refs := (refs m)(i := Suc 0)\<rparr>)" "refs m i = 0"
  then have "mem_ok (m\<lparr>icache := (icache m)(i := None)\<rparr>)" by (auto simp: mem_ok_def split: if_splits)
  then have c: "counts (refs m) () (m\<lparr>icache := (icache m)(i := None), efs := fs\<rparr>)" for fs by (simp add: counts_def mem_ok_def)
  then have c': "counts (refs m) () (m\<lparr>icache := (icache m)(i := None)\<rparr>)" by (simp add: counts_def mem_ok_def)
  show "ends_in (counts (refs m)) (andthen (node_at i m) (\<lambda>x. let m = m\<lparr>icache := (icache m)(i := None)\<rparr>; fs = efs m; is_dir = S_ISDIR (e_mode x) in
        if e_nlink x = 0 \<and> \<not> fs_read_only fs
        then
          andthen (if S_ISREG (e_mode x) \<or> is_dir then in_fs (ext2_truncate x 0 fs) else Inr (None, x, fs)) (\<lambda>(_, x, fs).
          andthen (in_fs (write_inode (x\<lparr>raw := set_raw 20 4 (ucast (clock fs) :: u32) (raw x)\<rparr>) fs)) (\<lambda>(_, x, fs).
          andthen (in_fs (free_inode_nr (ucast (e_ino x)) is_dir fs)) (\<lambda>fs.
            Inr ((), m\<lparr>efs := fs\<rparr>))))
        else Inr ((), m)))"
    using Some c c' by (auto simp: node_at_def Let_def split: prod.splits intro!: ends_in_in_fs)
qed

lemma ends_in_put:
  assumes "mem_ok m" "0 < refs m i"
  shows "ends_in (counts ((refs m)(i := refs m i - 1))) (put_inode i m)"
proof (cases "refs m i = 1")
  case True
  let ?m = "m\<lparr>refs := (refs m)(i := 0)\<rparr>"
  have "mem_ok (?m\<lparr>refs := (refs ?m)(i := Suc 0)\<rparr>)" using assms True by (auto simp: mem_ok_def)
  from ends_in_free[OF this] show ?thesis using True assms by (simp add: put_inode_def Let_def)
next
  case False
  then show ?thesis using assms by (auto simp: put_inode_def Let_def counts_def mem_ok_def)
qed

lemma ends_in_weaken: "ends_in P r \<Longrightarrow> (\<And>a m. P a m \<Longrightarrow> Q a m) \<Longrightarrow> ends_in Q r"
  by (cases r) (auto simp: ends_in_def)


lemma ends_in_lookup:
  assumes "mem_ok m" "0 < refs m d"
  shows "ends_in (taken (refs m)) (ext2_lookup d name m)"
  unfolding ext2_lookup_def using assms
  by (auto intro!: ends_in_node ends_in_in_fs ends_in_iget simp: taken_def)

section \<open>The operations on names\<close>

lemma ends_in_new_inode:
  assumes "mem_ok m" "0 < refs m d"
  shows "ends_in (taken (refs m)) (new_inode d md m)"
  unfolding new_inode_def using assms
  by (auto intro!: ends_in_node ends_in_in_fs ends_in_andthen[OF ends_in_iget] ends_in_andthen[OF ends_in_change]
      split: option.splits simp: taken_def counts_def Let_def)

lemmas ends_in_rules = ends_in_node ends_in_in_fs ends_in_andthen[OF ends_in_new_inode] ends_in_andthen[OF ends_in_lookup] ends_in_andthen[OF ends_in_iget]
  ends_in_andthen[OF ends_in_change] ends_in_andthen[OF ends_in_on_node] ends_in_andthen[OF ends_in_set_nlink] ends_in_andthen[OF ends_in_put]

definition created_inode :: "(u32 \<Rightarrow> nat) \<Rightarrow> errno + u32 \<Rightarrow> ext2_mem \<Rightarrow> bool" where
  "created_inode rf r m \<longleftrightarrow> mem_ok m \<and> refs m = (case r of Inl e \<Rightarrow> rf | Inr i \<Rightarrow> rf(i := rf i + 1))"

lemma ends_in_create:
  assumes "mem_ok m" "0 < refs m d"
  shows "ends_in (created_inode (refs m)) (ext2_create d name md m)"
  unfolding ext2_create_def using assms
  by (auto intro!: ends_in_rules split: option.splits simp: taken_def counts_def created_inode_def)

lemma ends_in_mkdir:
  assumes "mem_ok m" "0 < refs m d"
  shows "ends_in (counts (refs m)) (ext2_mkdir d name md m)"
  unfolding ext2_mkdir_def using assms
  by (auto intro!: ends_in_rules split: option.splits simp: taken_def counts_def)

lemma ends_in_unlink:
  assumes "mem_ok m" "0 < refs m d"
  shows "ends_in (counts (refs m)) (ext2_unlink d name m)"
  unfolding ext2_unlink_def using assms
  by (auto intro!: ends_in_rules split: option.splits simp: taken_def counts_def)

lemma ends_in_empty:
  assumes "mem_ok m" "0 < refs m i" "\<And>b. ends_in Q (f b)"
  shows "ends_in Q (andthen (is_empty_at i m) f)"
  unfolding is_empty_at_def using ends_in_node[OF assms(1,2), of Q "\<lambda>x. andthen (in_fs (dir_is_empty x (efs m))) f"] assms(3)
  by (cases "node_at i m") (auto intro: ends_in_in_fs)

lemma andthen_assoc: "andthen (andthen r f) g = andthen r (\<lambda>x. andthen (f x) g)"
  by (cases r) simp_all

lemma ends_in_rmdir:
  assumes "mem_ok m" "0 < refs m d"
  shows "ends_in (counts (refs m)) (ext2_rmdir d name m)"
  unfolding ext2_rmdir_def using assms
  by (auto intro!: ends_in_rules ends_in_empty split: option.splits simp: taken_def counts_def andthen_assoc)

lemma ends_in_ancestor:
  assumes "mem_ok m"
  shows "ends_in (counts (refs m)) (is_ancestor_from guard anc i m)"
  using assms
proof (induction guard arbitrary: i m)
  case (Suc guard)
  have IH: "ends_in (\<lambda>_ b. mem_ok b \<and> refs b = rf) (is_ancestor_from guard anc j n)" if "mem_ok n" "refs n = rf" for j n rf
    using Suc.IH[OF that(1)] that(2) by (simp add: counts_def)
  show ?case
    using Suc.prems by (auto intro!: ends_in_rules IH split: option.splits simp: taken_def counts_def)
qed (simp add: counts_def)

lemma ends_in_replace:
  assumes "mem_ok m" "0 < refs m t" "0 < refs m d"
  shows "ends_in (counts (refs m)) (replace_dst d name isd t m)"
  unfolding replace_dst_def using assms
  by (auto intro!: ends_in_rules ends_in_empty split: option.splits simp: counts_def)

lemma ends_in_dotdot:
  assumes "mem_ok m" "0 < refs m src" "0 < refs m odir" "0 < refs m ndir"
  shows "ends_in (counts (refs m)) (move_dotdot src odir ndir m)"
  unfolding move_dotdot_def using assms
  by (auto intro!: ends_in_rules ends_in_change simp: counts_def intro: ends_in_weaken[OF ends_in_change])

lemma ends_in_move_name:
  assumes "mem_ok m" "0 < refs m src" "0 < refs m odir" "0 < refs m ndir"
  shows "ends_in (counts (refs m)) (move_name odir oname ndir nname src isd m)"
  unfolding move_name_def using assms
  by (auto intro!: ends_in_rules ends_in_andthen[OF ends_in_dotdot] split: option.splits simp: counts_def)

lemma ends_in_replace_and_move:
  assumes "mem_ok m" "0 < refs m src" "0 < refs m odir" "0 < refs m ndir" "\<And>t. dst = Some t \<Longrightarrow> 0 < refs m t"
  shows "ends_in (counts (refs m)) (replace_and_move odir oname ndir nname src dst isd m)"
proof -
  have "ends_in (counts (refs m)) (case dst of None \<Rightarrow> Inr (None, m) | Some t \<Rightarrow> replace_dst ndir nname isd t m)"
    using ends_in_replace[OF assms(1), of _ ndir nname isd] assms(1,4,5) by (auto simp: counts_def split: option.splits)
  then show ?thesis unfolding replace_and_move_def
  proof (rule ends_in_andthen)
    fix err :: "errno option" and n
    assume "counts (refs m) err n"
    then have n: "mem_ok n" "refs n = refs m" by (simp_all add: counts_def)
    then show "ends_in (counts (refs m)) (case (err, n) of (err, n) \<Rightarrow> (case err of Some e \<Rightarrow> Inr (Some e, n) | None \<Rightarrow> move_name odir oname ndir nname src isd n))"
      using ends_in_move_name[OF n(1), of src odir ndir oname nname isd] assms(2-4) by (auto simp: counts_def split: option.splits)
  qed
qed

lemma ends_in_rename_body:
  assumes "mem_ok m" "0 < refs m src" "0 < refs m odir" "0 < refs m ndir" "\<And>t. dst = Some t \<Longrightarrow> 0 < refs m t"
  shows "ends_in (counts (refs m)) (rename_body odir oname ndir nname src dst m)"
proof -
  have anc: "ends_in (counts (refs m)) (is_ancestor_at src ndir m)"
    using ends_in_ancestor[OF assms(1)] by (simp add: is_ancestor_at_def)
  have rest: "ends_in (counts (refs m)) (replace_and_move odir oname ndir nname src dst isd n)" if "mem_ok n" "refs n = refs m" for isd n
    using ends_in_replace_and_move[OF that(1), of src odir ndir dst oname nname isd] that(2) assms(2-5) by simp
  show ?thesis unfolding rename_body_def using assms(1,2) rest
    by (auto intro!: ends_in_node ends_in_andthen[OF anc] simp: counts_def)
qed

lemma ends_in_rename:
  assumes "mem_ok m" "0 < refs m odir" "0 < refs m ndir"
  shows "ends_in (counts (refs m)) (ext2_rename odir oname ndir nname m)"
  unfolding ext2_rename_def using assms
  by (auto intro!: ends_in_rules ends_in_andthen[OF ends_in_rename_body] split: option.splits simp: taken_def counts_def)

section \<open>Clients\<close>

text \<open>
  The calls of a file tree that holds \<open>h i\<close> references to the inode \<open>i\<close>: after the mount it holds the root; it works only
  on inodes it has references to, and gives references back one at a time.
\<close>

inductive names_reach :: "ext2_mem \<Rightarrow> (u32 \<Rightarrow> nat) \<Rightarrow> bool" where
  mounted: "ext2_mount mem device sb = Some (Inr (Inr (fs, x))) \<Longrightarrow>
    names_reach \<lparr>efs = fs, icache = [2 \<mapsto> x], refs = (\<lambda>_. 0)(2 := 1)\<rparr> ((\<lambda>_. 0)(2 := 1))"
| lookup: "names_reach m h \<Longrightarrow> 0 < h d \<Longrightarrow> ext2_lookup d name m = Inr (r, m') \<Longrightarrow>
    names_reach m' (case r of None \<Rightarrow> h | Some i \<Rightarrow> h(i := h i + 1))"
| create: "names_reach m h \<Longrightarrow> 0 < h d \<Longrightarrow> ext2_create d name md m = Inr (r, m') \<Longrightarrow>
    names_reach m' (case r of Inl _ \<Rightarrow> h | Inr i \<Rightarrow> h(i := h i + 1))"
| mkdir: "names_reach m h \<Longrightarrow> 0 < h d \<Longrightarrow> ext2_mkdir d name md m = Inr (r, m') \<Longrightarrow> names_reach m' h"
| unlink: "names_reach m h \<Longrightarrow> 0 < h d \<Longrightarrow> ext2_unlink d name m = Inr (r, m') \<Longrightarrow> names_reach m' h"
| rmdir: "names_reach m h \<Longrightarrow> 0 < h d \<Longrightarrow> ext2_rmdir d name m = Inr (r, m') \<Longrightarrow> names_reach m' h"
| rename: "names_reach m h \<Longrightarrow> 0 < h odir \<Longrightarrow> 0 < h ndir \<Longrightarrow> ext2_rename odir oname ndir nname m = Inr (r, m') \<Longrightarrow> names_reach m' h"
| write_bytes: "names_reach m h \<Longrightarrow> 0 < h i \<Longrightarrow> on_node i (\<lambda>x. ext2_write x off bytes) m = Inr (r, m') \<Longrightarrow> names_reach m' h"
| truncate: "names_reach m h \<Longrightarrow> 0 < h i \<Longrightarrow> on_node i (\<lambda>x. ext2_truncate x sz) m = Inr (r, m') \<Longrightarrow> names_reach m' h"
| put: "names_reach m h \<Longrightarrow> 0 < h i \<Longrightarrow> put_inode i m = Inr (r, m') \<Longrightarrow> names_reach m' (h(i := h i - 1))"

lemma ends_in_result: "ends_in P r \<Longrightarrow> r = Inr (a, m) \<Longrightarrow> P a m"
  by simp

lemma names_reach_counts: "names_reach m h \<Longrightarrow> mem_ok m \<and> refs m = h"
proof (induction rule: names_reach.induct)
  case (mounted mem device sb fs x)
  then show ?case by (simp add: mem_ok_def)
next
  case (lookup m h d name r m')
  have "0 < refs m d" using lookup.IH lookup.hyps(2) by simp_all
  then show ?case using ends_in_result[OF ends_in_lookup lookup.hyps(3)] lookup.IH by (simp add: taken_def)
next
  case (create m h d name md r m')
  have "0 < refs m d" using create.IH create.hyps(2) by simp_all
  then show ?case using ends_in_result[OF ends_in_create create.hyps(3)] create.IH by (simp add: created_inode_def)
next
  case (mkdir m h d name md r m')
  have "0 < refs m d" using mkdir.IH mkdir.hyps(2) by simp_all
  then show ?case using ends_in_result[OF ends_in_mkdir mkdir.hyps(3)] mkdir.IH by (simp add: counts_def)
next
  case (unlink m h d name r m')
  have "0 < refs m d" using unlink.IH unlink.hyps(2) by simp_all
  then show ?case using ends_in_result[OF ends_in_unlink unlink.hyps(3)] unlink.IH by (simp add: counts_def)
next
  case (rmdir m h d name r m')
  have "0 < refs m d" using rmdir.IH rmdir.hyps(2) by simp_all
  then show ?case using ends_in_result[OF ends_in_rmdir rmdir.hyps(3)] rmdir.IH by (simp add: counts_def)
next
  case (rename m h odir ndir oname nname r m')
  have "0 < refs m odir" "0 < refs m ndir" using rename.IH rename.hyps(2,3) by simp_all
  then show ?case using ends_in_result[OF ends_in_rename rename.hyps(4)] rename.IH by (simp add: counts_def)
next
  case (write_bytes m h i off bytes r m')
  have "0 < refs m i" using write_bytes.IH write_bytes.hyps(2) by simp_all
  then show ?case using ends_in_result[OF ends_in_on_node write_bytes.hyps(3)] write_bytes.IH by (simp add: counts_def)
next
  case (truncate m h i sz r m')
  have "0 < refs m i" using truncate.IH truncate.hyps(2) by simp_all
  then show ?case using ends_in_result[OF ends_in_on_node truncate.hyps(3)] truncate.IH by (simp add: counts_def)
next
  case (put m h i r m')
  have "0 < refs m i" using put.IH put.hyps(2) by simp_all
  then show ?case using ends_in_result[OF ends_in_put put.hyps(3)] put.IH by (simp add: counts_def)
qed

lemma ends_in_no_freed: "ends_in P r \<Longrightarrow> r \<noteq> Inl Freed_inode"
  by (auto simp: ends_in_def)

text \<open>
  C12. In every state of a mounted file system that clients can reach, whatever the disk holds and wherever the operations
  fail, an inode is in memory exactly while somebody has a reference to it and its count is the number of these references; no
  operation on names works on an inode that has been freed.
\<close>

theorem inode_counts_exact:
  assumes "names_reach m h"
  shows "(\<forall>i. refs m i = h i \<and> (icache m i \<noteq> None \<longleftrightarrow> 0 < h i)) \<and>
    (\<forall>d e name name' md. 0 < h d \<and> 0 < h e \<longrightarrow>
       ext2_create d name md m \<noteq> Inl Freed_inode \<and> ext2_lookup d name m \<noteq> Inl Freed_inode \<and> put_inode d m \<noteq> Inl Freed_inode \<and>
       ext2_mkdir d name md m \<noteq> Inl Freed_inode \<and> ext2_unlink d name m \<noteq> Inl Freed_inode \<and> ext2_rmdir d name m \<noteq> Inl Freed_inode \<and>
       ext2_rename d name e name' m \<noteq> Inl Freed_inode)"
proof (intro conjI allI impI)
  note R = names_reach_counts[OF assms]
  then have m: "mem_ok m" by blast
  show "refs m i = h i" for i using R by simp
  show "icache m i \<noteq> None \<longleftrightarrow> 0 < h i" for i using R mem_okD[OF m, of i] by simp
  fix d e :: u32 and name name' :: "u8 list" and md :: u32
  assume "0 < h d \<and> 0 < h e"
  then have d: "0 < refs m d" and e: "0 < refs m e" using R by auto
  note K = ends_in_no_freed
  show "ext2_create d name md m \<noteq> Inl Freed_inode" by (rule K[OF ends_in_create[OF m d]])
  show "ext2_lookup d name m \<noteq> Inl Freed_inode" by (rule K[OF ends_in_lookup[OF m d]])
  show "put_inode d m \<noteq> Inl Freed_inode" by (rule K[OF ends_in_put[OF m d]])
  show "ext2_mkdir d name md m \<noteq> Inl Freed_inode" by (rule K[OF ends_in_mkdir[OF m d]])
  show "ext2_unlink d name m \<noteq> Inl Freed_inode" by (rule K[OF ends_in_unlink[OF m d]])
  show "ext2_rmdir d name m \<noteq> Inl Freed_inode" by (rule K[OF ends_in_rmdir[OF m d]])
  show "ext2_rename d name e name' m \<noteq> Inl Freed_inode" by (rule K[OF ends_in_rename[OF m d e]])
qed

lemma inode_counts_exact_witness:
  "\<exists>m h. names_reach m h \<and> h 2 = 1 \<and> refs m 2 = 1 \<and> ext2_unlink 2 [97] m \<noteq> Inl Freed_inode"
proof -
  obtain fs x where "ext2_mount (\<lambda>_. True) (Some sample_device) (Some (sample_super [16, 0, 0, 0] [0, 0x20, 0, 0])) = Some (Inr (Inr (fs, x)))"
    using sample_mount by blast
  note r = names_reach.mounted[OF this]
  let ?m = "\<lparr>efs = fs, icache = [2 \<mapsto> x], refs = (\<lambda>_. 0)(2 := 1)\<rparr>"
  have "ext2_unlink 2 [97] ?m \<noteq> Inl Freed_inode" using conjunct2[OF inode_counts_exact[OF r], rule_format, of 2 2 "[97]"] by simp
  with r show ?thesis by (intro exI[of _ ?m] exI[of _ "(\<lambda>_. 0)(2 := 1)"]) simp
qed

end
