(* ===== verification/Spec2Isabelle.thy ===== *)
theory Spec2Isabelle
  imports Klist Kstring Memblock Pmm_Boot Pipe Tmpfs_File Vt_Proofs Signal_Proofs Tty_Proofs Mm_Fault Slab_Boot Vfs_Correct Block_File Ext2_Map Ext2_Balance
begin

text \<open>
  MyOS: a verification of the core of an x86-64 teaching operating system.

  \<^bold>\<open>The program.\<close> The directory \<^verbatim>\<open>src/kernel\<close> is a monolithic kernel in C. From the bottom up: at boot the
  memory map goes through \<^verbatim>\<open>mm/memblock.c\<close>, whose free ranges become the frames of the buddy allocator
  \<^verbatim>\<open>mm/pmm.c\<close>. On top of it \<^verbatim>\<open>mm/slab.c\<close> cuts pages into objects for the whole kernel, \<^verbatim>\<open>mm/vmm.c\<close> builds
  page tables and \<^verbatim>\<open>mm/mm.c\<close> the address spaces of processes with demand paging and copy-on-write.
  \<^verbatim>\<open>proc/process.c\<close> schedules processes on several processors, \<^verbatim>\<open>proc/signal.c\<close> delivers signals to them, and
  \<^verbatim>\<open>sys/uaccess.c\<close> moves data between user memory and the kernel. Bytes typed at the keyboard
  (\<^verbatim>\<open>drivers/keyboard.c\<close>, \<^verbatim>\<open>drivers/console.c\<close>) pass the line discipline \<^verbatim>\<open>drivers/tty.c\<close>; output passes
  \<^verbatim>\<open>lib/kprintf.c\<close> and the terminal emulator \<^verbatim>\<open>drivers/vt.c\<close>. Names of files are
  resolved by \<^verbatim>\<open>fs/vfs.c\<close> over the inodes of mounted file systems, of which \<^verbatim>\<open>fs/tmpfs.c\<close> is the one in memory; pipes
  (\<^verbatim>\<open>fs/pipe.c\<close>) share its open files. \<^verbatim>\<open>fs/block.c\<close> finds the partitions of disks and caches their blocks, over
  which \<^verbatim>\<open>fs/ext2.c\<close> keeps files and directories on the disk.

  \<^bold>\<open>Conventions.\<close> C integers are words of their width, or \<open>nat\<close> where the code counts frames or indices
  that the invariants keep below \<open>2 ^ 34\<close>. A structure is a record with the fields of the source, an array or
  a pointer-linked structure a function from its index or address. A sleeping or failing operation returns
  an outcome, a datatype with one constructor per way to leave the C function; a kernel panic is the value
  \<open>Inl\<close> of an error datatype whose constructors name the messages. The critical section of a spinlock is one
  step of the model. Results of code outside a component (does an allocation succeed, is a user range
  mapped) are arguments of its operations, so every theorem holds for all of them.

  \<^bold>\<open>Theories.\<close>
  \<^descr> \<open>Prelude\<close>, \<open>Bytes\<close>: integer types, \<^verbatim>\<open>mm/layout.h\<close>, alignment macros, the direct map between frames and
    addresses, byte memories and little-endian words in them; the collections of simplification rules.
  \<^descr> \<open>Klist\<close> (\<^verbatim>\<open>lib/list.h\<close>): circular lists at pointer level. \<open>represents\<close> reads a HOL list off the links; insertion
    and deletion refine the list operations and a traversal visits exactly the members.
  \<^descr> \<open>Kstring\<close> (\<^verbatim>\<open>lib/string.c\<close>): the byte loops on flat memory, overlapping moves included.
  \<^descr> \<open>Memblock\<close> (\<^verbatim>\<open>mm/memblock.c\<close>): the region table, its sorting and merging; the regions stay sorted, disjoint and
    aligned, reservations remove exactly their pages, early allocations come out of the table.
  \<^descr> \<open>Pmm\<close>, \<open>Pmm_Proofs\<close>, \<open>Pmm_Spec\<close>, \<open>Pmm_Boot\<close> (\<^verbatim>\<open>mm/pmm.c\<close>): the page descriptors, zones and free lists of the
    buddy system. The invariant \<open>pmm_inv\<close> makes free blocks aligned, disjoint and marked; \<open>free_frames\<close> and
    \<open>allocated\<close> are the abstract state, and the locale \<open>page_allocator\<close> states the contract that the operations
    fulfil (interpretation \<open>pa\<close>). Start-up frees exactly the frames of the memory map.
  \<^descr> \<open>Slab\<close>, \<open>Slab_Objects\<close>, \<open>Slab_Proofs\<close>, \<open>Slab_Alloc\<close>, \<open>Slab_Spec\<close>, \<open>Slab_Boot\<close> (\<^verbatim>\<open>mm/slab.c\<close>): caches, slabs and objects on
    the bytes of the pages above, with the free list threaded through the objects, poison and redzones.
    \<open>slab_inv\<close> says which objects of a slab are free and on which list of the cache the slab is; \<open>live\<close> is the
    abstract state. The locale \<open>object_allocator\<close> states what clients rely on and is interpreted by the code
    (\<open>oa\<close>); \<open>heap_step\<close> is the relation of a heap in use by arbitrary clients. Its one panic is the free of a
    live object whose owner wrote the mark of a free object; \<open>alloc_damaged\<close> says which bytes of a free object
    are checked: all but the first eight.
  \<^descr> \<open>Vmm\<close>, \<open>Vmm_Proofs\<close> (\<^verbatim>\<open>mm/vmm.c\<close>): the four-level page tables as bytes in frames. \<open>tables_ok\<close> says that distinct
    index paths lead to distinct frames; under it the operations change the translation of the page they
    are asked for and of no other.
  \<^descr> \<open>Mm\<close>, \<open>Mm_Areas\<close>, \<open>Mm_Fault\<close> (\<^verbatim>\<open>mm/mm.c\<close>): areas, \<^verbatim>\<open>mmap\<close> and \<^verbatim>\<open>munmap\<close>, the heap limit, forking and page faults.
    The areas stay sorted, disjoint and inside user space; mapping and unmapping change the addresses asked
    for (an unmapping that has to split an area and has no memory for it changes nothing); the search for a gap ends with the highest one; a fault changes no byte that a process sees, apart
    from making the faulting access possible.
  \<^descr> \<open>Process\<close>, \<open>Sched\<close> (\<^verbatim>\<open>proc/process.c\<close>): the process table, its operations cut at the ends of their critical
    sections, and the processors as the step relation \<open>smp_step\<close>, in which these sections interleave; an
    operation as a whole is the composition of its sections. A process never runs twice at a time, a slot whose
    memory is being given back is on no processor, waiting processors pick in turn, a parent collects what its
    child left. Process numbers are a C \<^verbatim>\<open>int\<close> that wraps; they are distinct as long as it has not.
  \<^descr> \<open>Uaccess\<close>, \<open>Signal\<close>, \<open>Signal_Proofs\<close> (\<^verbatim>\<open>sys/uaccess.c\<close>, \<^verbatim>\<open>proc/signal.c\<close>): sending, masks, handlers, the frame on the
    user stack and its return. SIGKILL cannot be refused; a handler returns to the interrupted registers; a
    forged frame cannot raise privileges.
  \<^descr> \<open>Pipe\<close> (\<^verbatim>\<open>fs/pipe.c\<close>): the ring buffer refines a queue of bytes. The locale \<open>byte_queue\<close> holds the part shared with
    the ring of typed bytes and is interpreted for both (\<open>pq\<close>, \<open>ci\<close>).
  \<^descr> \<open>Tmpfs_File\<close> (\<^verbatim>\<open>fs/tmpfs.c\<close>): the page array of a file against a sparse sequence of bytes.
  \<^descr> \<open>Path\<close> (\<^verbatim>\<open>fs/vfs.c\<close>): components of a path and \<^verbatim>\<open>path_normalize\<close>, which computes the canonical form of the
    path that its components define.
  \<^descr> \<open>Vfs\<close> (\<^verbatim>\<open>fs/vfs.c\<close>, \<^verbatim>\<open>fs/tmpfs.c\<close>): inodes with their reference counts, open files, mounts, the path walk and the
    operations on names, down to the entries of a tmpfs directory. A use of a freed pointer, a reference dropped
    too often and a loop without end are values of an error type.
  \<^descr> \<open>Vfs_Tree\<close>, \<open>Vfs_Walk\<close>, \<open>Vfs_Ops\<close>, \<open>Vfs_Remove\<close>, \<open>Vfs_Rename\<close>, \<open>Vfs_Files\<close>, \<open>Vfs_Mount\<close>: the invariant of the tree, in which
    every count is the number of entries, open files, mounts and outside references that lead to an inode, and
    its preservation by the walk, by creation, removal and renaming, by open files and by mounts.
  \<^descr> \<open>Vfs_Spec\<close>, \<open>Vfs_Correct\<close>: the calls of arbitrary clients, as sequences (\<open>run\<close>). A removed directory that is still
    in use (\<open>lingers\<close>) has a pointer to its parent that is not counted; until one exists the counts are exact and
    no call panics, apart from a mount whose record could not be allocated. \<open>files_reach\<close> are the states reached
    without such a directory; on them the walk is a pure name resolution, and creation, renaming, listing
    and mounting are changes of the tree. \<open>removed_directory_dangles\<close> shows what happens beyond.
  \<^descr> \<open>Block\<close>, \<open>Block_Proofs\<close> (\<^verbatim>\<open>fs/block.c\<close>): transfers, MBR and GPT. \<open>devices_ok\<close> keeps partitions inside their disk; it
    holds for every MBR, and two theorems show what a hostile GPT does.
  \<^descr> \<open>Block_Cache\<close>: the buffer cache under the interleaved critical sections of its users (\<open>cache_step\<close>), whose changes of
    a buffer and writes are steps of their own: one buffer per block, exact counts, and data equal to the disk for
    valid buffers that no client has changed since the last successful write. \<open>Block_File\<close>: \<^verbatim>\<open>bdev_rw\<close> against an array of bytes.
  \<^descr> \<open>Ext2\<close>, \<open>Ext2_Dir\<close> (\<^verbatim>\<open>fs/ext2.c\<close>): superblock, group descriptors and inodes as the bytes of their C structures,
    bitmaps, the block map, reading, writing and truncation, and directories as chains of entries that a
    visitor goes through. The blocks are what \<^verbatim>\<open>bread\<close> of the buffer cache gives; an access outside a buffer is an
    error value.
  \<^descr> \<open>Ext2_Alloc\<close>: \<open>fs_ok\<close> makes the bitmaps and the counts of a file system agree; under it allocation takes a block
    out of the set \<open>free_nrs\<close> and freeing puts it back; a bitmap that cannot be read makes it give up although blocks
    are free. \<open>Ext2_Map\<close>: the indices of a block of a file against its number.
  \<^descr> \<open>Ext2_Entries\<close>: \<open>seg\<close> reads the chain of entries of a block, \<open>live_names\<close> its names; adding, removing and finding
    names as operations on this list. \<open>Ext2_Mount\<close>: \<^verbatim>\<open>ext2_mount\<close>, what it establishes and where it does not check.
  \<^descr> \<open>Ext2_Names\<close>, \<open>Ext2_Balance\<close>: inodes in memory with their counts and the operations on names. \<open>names_reach\<close> is the
    relation of arbitrary clients that hold references; their number is the count of each inode.
  \<^descr> \<open>Tty\<close>, \<open>Tty_Proofs\<close> (\<^verbatim>\<open>drivers/keyboard.c\<close>, \<^verbatim>\<open>drivers/console.c\<close>, \<^verbatim>\<open>drivers/tty.c\<close>): scancodes, the input ring, line editing
    and signals from the keyboard.
  \<^descr> \<open>Kprintf\<close> (\<^verbatim>\<open>lib/kprintf.c\<close>): the format engine and the bounded buffer of \<^verbatim>\<open>ksnprintf\<close>.
  \<^descr> \<open>Vt\<close>, \<open>Vt_Proofs\<close> (\<^verbatim>\<open>drivers/vt.c\<close>): the escape-sequence machine, the cell buffer and the picture drawn from it.

  \<^bold>\<open>Bounds and fuel.\<close> The machine has at most \<open>PFN_LIMIT = 2 ^ 34\<close> frames, the size of the direct map (\<open>2 ^ 46\<close>
  bytes); addresses of the direct map then do not wrap. Loops are structural or have a measure, except: the
  drain of the input ring runs at most 1024 rounds, the size of the ring, which holds no more bytes; the
  loops over a range of addresses run one round per page (4 KiB) or per table (2 MiB) of the range, which
  is the number of rounds until the address reaches the end; list traversals are given the number of nodes.
  The loops over parents, mounts and the components of a path, and from a partition to its disk, are partial
  functions with values in \<open>option\<close>: \<open>None\<close>, a loop without end, is turned into an error value, and the theorems
  show that it does not occur. No theorem about a result assumes that a loop ends.

  \<^bold>\<open>Not modelled.\<close> Hardware access without a specification in the sources: port I/O, the disk controllers,
  timers, descriptor tables, interrupt controllers, processor start-up, frame buffers and fonts. The
  interleaving inside a critical section, since the locks exclude it; the operations on names run one after
  another, as the lock of the directory makes them do within one directory. Printing of statistics and the
  times of inodes. Of \<^verbatim>\<open>fs/vfs.c\<close>, reading, writing and seeking in an open file, which only call the operations of
  its inode. Of \<^verbatim>\<open>fs/ext2.c\<close>, the numbers of device inodes and the races for an inode that two processes load at the
  same time. \<^verbatim>\<open>mm/vmalloc.c\<close>, the program loader and the system call table. User programs and their C library,
  the RISC-V emulator, the exercises and the textbook are programs of their own around the kernel.
\<close>

end
